(* ===== verification/Prelude.thy ===== *)
theory Prelude
  imports Main "HOL-Library.Word" "HOL-Library.List_Lexorder" "HOL-Library.Char_ord"
    "HOL-Library.Option_ord" "HOL-Library.Product_Lexorder"
begin

text \<open>
  Shared vocabulary of the development: bytes, the 64-bit \<open>usize\<close> with its checked and
  saturating operations, the failures a run of the program can end in, the result monad
  (\<open>failure + 'a\<close>, Rust's \<open>anyhow::Result\<close> extended by panics and by runs that do not
  return), indexing and slicing that panic out of range, and the list lemmas the components
  share.
\<close>

section \<open>Machine quantities\<close>

type_synonym u8 = "8 word"
type_synonym bytes = "u8 list"

text \<open>
  \<open>usize\<close> on the 64-bit targets of the program. Lengths, indices and counters are natural
  numbers; every operation of the source that can leave the range is one of the checked or
  saturating operations below.
\<close>

definition usize_max :: nat where
  "usize_max = 18446744073709551615"

definition usize_checked_add :: "nat \<Rightarrow> nat \<Rightarrow> nat option" where
  "usize_checked_add a b = (if a + b \<le> usize_max then Some (a + b) else None)"

definition usize_checked_mul :: "nat \<Rightarrow> nat \<Rightarrow> nat option" where
  "usize_checked_mul a b = (if a * b \<le> usize_max then Some (a * b) else None)"

definition usize_checked_sub :: "nat \<Rightarrow> nat \<Rightarrow> nat option" where
  "usize_checked_sub a b = (if b \<le> a then Some (a - b) else None)"

definition usize_saturating_add :: "nat \<Rightarrow> nat \<Rightarrow> nat" where
  "usize_saturating_add a b = min (a + b) usize_max"

text \<open>The UTF-8 bytes of a Rust string; a HOL \<open>char\<close> is one byte.\<close>

definition byte_of_char :: "char \<Rightarrow> u8" where
  "byte_of_char c = word_of_nat (of_char c)"

definition as_bytes :: "string \<Rightarrow> bytes" where
  "as_bytes s = map byte_of_char s"

section \<open>Failures\<close>

text \<open>The quantity a bound or a capacity check speaks about, one per label of the source.\<close>

datatype quantity =
    ReportBytes | BeforeSourceBytes | AfterSourceBytes | RelationCount | AmbiguityGroupCount
  | ChangeCount | AmbiguityEndpointCount | AmbiguityPairCount | PatchEditCount
  | DecodedReplacementBytes | RemovedPatchBytes | ReplayedOutputBytes | SyntaxNodeCount
  | CandidateVertexCount | RelationEvidenceCount

datatype patch_failure =
    UnsupportedPatchAlgorithm
  | InvalidEditRange nat
  | InvalidReplacement nat
  | RemovedExceedsSource
  | UndecodableReplacement nat
  | DecodedLengthUnderflow
  | DecodedReplacementLimit nat
  | ReplayLengthDiffers
  | PatchDoesNotReconstruct

datatype base64_failure = NotCanonicalBase64 | DecodedLengthCapacity | InvalidPadding

datatype parse_failure =
    DepthExceeded nat
  | NodeCountExceeded nat
  | CallbackCountExceeded nat
  | NoGrammar
  | GrammarInitialisation
  | NoSyntaxTree
  | MissingNode
  | ErrorNode

datatype report_failure =
    UnsupportedSchema
  | UnsupportedEngineVersion
  | ArtifactLengthMismatch
  | ArtifactDigestMismatch
  | NoReconstructionCertificate
  | CertificateLengthMismatch
  | CertificateHashMismatch
  | ReplayDiffersFromAfter
  | ReconstructedHashMismatch
  | BeforeNodesExceedLimit
  | ParserManifestMismatch
  | AmbiguitiesMismatch
  | ChangesMismatch
  | SummaryMismatch

datatype relation_failure =
    UnknownNode
  | NodeMetadataMismatch
  | SpanCapacity
  | NotCanonicalOrder
  | NotOneToOne
  | PredicateFalse
  | InvalidInputPair
  | StableCoreWithoutShape
  | ExactUnequalSyntax
  | ExactNotStrongest
  | UnsupportedEvidence
  | SuggestedUnsupported
  | InputPairReserved
  | NoSingleInputPair

datatype anchor_failure =
    NotBelowCertifiedAnchor
  | MinimumSubtreeRule
  | NotGloballyUnique
  | ChildrenNotIsomorphic
  | MissingDescendantRelation
  | NoRelationRecord
  | DescendantNotForced
  | DescendantEvidence
  | CertificatesDisagree
  | GlobalAnchorAbsent
  | LocalPairAbsent
  | LocalAnchorNotUnique
  | LocalNoParent
  | LocalParentsNotMapped

datatype core_failure =
    CorePairMissing
  | CorePairInvalid
  | CoreRelationNotOptimal
  | PhaseIncomplete
  | PhaseConflict
  | MissingCandidateGroup
  | NoMultipleResolutions
  | IncompleteComponents

datatype ambiguity_failure =
    UnknownAmbiguityParent
  | EmptyEndpoints
  | DuplicateEndpoints
  | UnsupportedAmbiguityPredicate
  | SingleResolution
  | TooManyMatches
  | PairOutsideEndpoints
  | DuplicatePair
  | PairPredicateFalse
  | PairOrder
  | UnreferencedEndpoints
  | InvalidChangeEndpoints

text \<open>
  How a run can end without a value. \<open>Panic\<close> is an out-of-range index, an invalid slice, an
  arithmetic underflow or a failed \<open>expect\<close>; \<open>Diverges\<close> is a recursion that does not end
  (in Rust, an exhausted stack). All other constructors are the \<open>Err\<close> values of the source.
\<close>

datatype failure =
    Panic
  | Diverges
  | LimitExceeded quantity nat nat
  | CapacityExceeded quantity
  | WorkLimitExceeded nat nat
  | WorkCapacityExceeded
  | Base64Failure base64_failure
  | PatchFailure patch_failure
  | ParseFailure parse_failure
  | ReportFailure report_failure
  | RelationFailure relation_failure
  | AnchorFailure anchor_failure
  | CoreFailure core_failure
  | AmbiguityFailure ambiguity_failure
  | JsonSyntax
  | JsonDecode

definition crash :: "failure \<Rightarrow> bool" where
  "crash e \<longleftrightarrow> e = Panic \<or> e = Diverges"

text \<open>The failures of the work budget: the only ones a bounded computation may add.\<close>

definition work_failure :: "failure \<Rightarrow> bool" where
  "work_failure e \<longleftrightarrow> (case e of WorkLimitExceeded _ _ \<Rightarrow> True | WorkCapacityExceeded \<Rightarrow> True | _ \<Rightarrow> False)"

lemma work_failure_simps [simp]:
  "work_failure (WorkLimitExceeded a b)" "work_failure WorkCapacityExceeded"
  "\<not> work_failure Panic" "\<not> work_failure Diverges"
  by (simp_all add: work_failure_def)

lemma crash_simps [simp]:
  "crash Panic" "crash Diverges" "\<not> crash (LimitExceeded q a b)" "\<not> crash (CapacityExceeded q)"
  "\<not> crash (WorkLimitExceeded a b)" "\<not> crash WorkCapacityExceeded" "\<not> crash (Base64Failure x)"
  "\<not> crash (PatchFailure p)" "\<not> crash (ParseFailure pf)" "\<not> crash (ReportFailure r)"
  "\<not> crash (RelationFailure rf)" "\<not> crash (AnchorFailure af)" "\<not> crash (CoreFailure cf)"
  "\<not> crash (AmbiguityFailure amf)" "\<not> crash JsonSyntax" "\<not> crash JsonDecode"
  by (simp_all add: crash_def)

lemma work_failure_not_crash [simp]: "work_failure e \<Longrightarrow> \<not> crash e"
  by (auto simp: crash_def)

section \<open>The result monad\<close>

type_synonym 'a result = "failure + 'a"

definition rbind :: "'a result \<Rightarrow> ('a \<Rightarrow> 'b result) \<Rightarrow> 'b result" where
  "rbind m f = (case m of Inl e \<Rightarrow> Inl e | Inr x \<Rightarrow> f x)"

definition rensure :: "bool \<Rightarrow> failure \<Rightarrow> unit result" where
  "rensure b e = (if b then Inr () else Inl e)"

definition of_option :: "failure \<Rightarrow> 'a option \<Rightarrow> 'a result" where
  "of_option e x = (case x of None \<Rightarrow> Inl e | Some y \<Rightarrow> Inr y)"

lemma rbind_simps [simp]:
  "rbind (Inl e) f = Inl e" "rbind (Inr x) f = f x"
  by (simp_all add: rbind_def)

lemma rbind_Inr_iff:
  "rbind m f = Inr y \<longleftrightarrow> (\<exists>x. m = Inr x \<and> f x = Inr y)"
  by (cases m) auto

lemma rbind_cong [fundef_cong]:
  "m = m' \<Longrightarrow> (\<And>x. m' = Inr x \<Longrightarrow> f x = g x) \<Longrightarrow> rbind m f = rbind m' g"
  by (cases m') auto

lemma rensure_Inr [simp]: "rensure b e = Inr u \<longleftrightarrow> b"
  by (simp add: rensure_def)

lemma rensure_Inl [simp]: "rensure b e = Inl e' \<longleftrightarrow> \<not> b \<and> e' = e"
  by (auto simp: rensure_def)

lemma of_option_simps [simp]:
  "of_option e None = Inl e" "of_option e (Some x) = Inr x"
  by (simp_all add: of_option_def)

lemma of_option_Inr [simp]: "of_option e x = Inr y \<longleftrightarrow> x = Some y"
  by (cases x) auto

subsection \<open>Indexing and slicing\<close>

definition index_at :: "'a list \<Rightarrow> nat \<Rightarrow> 'a result" where
  "index_at xs i = (if i < length xs then Inr (xs ! i) else Inl Panic)"

definition slice :: "'a list \<Rightarrow> nat \<Rightarrow> nat \<Rightarrow> 'a list result" where
  "slice xs a b = (if a \<le> b \<and> b \<le> length xs then Inr (take (b - a) (drop a xs)) else Inl Panic)"

lemma index_at_ok [simp]: "i < length xs \<Longrightarrow> index_at xs i = Inr (xs ! i)"
  by (simp add: index_at_def)

lemma index_at_Inr: "index_at xs i = Inr x \<longleftrightarrow> i < length xs \<and> x = xs ! i"
  by (auto simp: index_at_def)

lemma slice_ok [simp]: "a \<le> b \<Longrightarrow> b \<le> length xs \<Longrightarrow> slice xs a b = Inr (take (b - a) (drop a xs))"
  by (simp add: slice_def)

subsection \<open>Short-circuiting conjunction\<close>

primrec rall :: "('a \<Rightarrow> bool result) \<Rightarrow> 'a list \<Rightarrow> bool result" where
  "rall f [] = Inr True"
| "rall f (x # xs) = rbind (f x) (\<lambda>b. if b then rall f xs else Inr False)"

lemma rall_pure: "(\<And>x. x \<in> set xs \<Longrightarrow> f x = Inr (p x)) \<Longrightarrow> rall f xs = Inr (\<forall>x\<in>set xs. p x)"
  by (induction xs) auto

lemma rall_cong [fundef_cong]:
  "xs = ys \<Longrightarrow> (\<And>x. x \<in> set ys \<Longrightarrow> f x = g x) \<Longrightarrow> rall f xs = rall g ys"
  by (induction ys arbitrary: xs) (auto intro!: rbind_cong)

section \<open>Lists\<close>

lemma set_map_filter: "set (List.map_filter f xs) = {y. \<exists>x\<in>set xs. f x = Some y}"
  by (induction xs) (auto simp: List.map_filter_simps split: option.splits)

lemma take_drop_split: "a \<le> b \<Longrightarrow> b \<le> length xs \<Longrightarrow>
    take a xs @ take (b - a) (drop a xs) @ drop b xs = xs"
  by (metis append.assoc append_take_drop_id le_add_diff_inverse take_add)

lemma take_drop_join:
  assumes "a \<le> b" "b \<le> c"
  shows "take (b - a) (drop a xs) @ take (c - b) (drop b xs) = take (c - a) (drop a xs)"
proof -
  have "c - a = (b - a) + (c - b)" using assms by simp
  then have "take (c - a) (drop a xs)
      = take (b - a) (drop a xs) @ take (c - b) (drop (b - a) (drop a xs))"
    by (simp only: take_add)
  then show ?thesis using assms by simp
qed

lemma byte_of_char_inj: "byte_of_char c = byte_of_char d \<Longrightarrow> c = d"
proof -
  have bound: "of_char x < (256::nat)" for x :: char
    using nat_of_char_less_256 by simp
  assume "byte_of_char c = byte_of_char d"
  then have "unat (word_of_nat (of_char c) :: u8) = unat (word_of_nat (of_char d) :: u8)"
    by (simp add: byte_of_char_def)
  then have "(of_char c :: nat) = of_char d"
    using bound[of c] bound[of d] by (simp add: unat_of_nat)
  then show ?thesis by simp
qed

lemma as_bytes_inj: "as_bytes s = as_bytes t \<Longrightarrow> s = t"
  unfolding as_bytes_def
  by (metis byte_of_char_inj inj_map_eq_map inj_onI)

lemma length_as_bytes [simp]: "length (as_bytes s) = length s"
  by (simp add: as_bytes_def)

end
