(* ===== verification/Report_Model.thy ===== *)
theory Report_Model
  imports Prelude
begin

text \<open>
  The report data of \<open>crates/stratadiff-core/src/model.rs\<close>, struct by struct and enum by
  enum. Field names carry a prefix where several structs of the source share a field name,
  because record selectors live in one namespace. Rust strings are \<open>string\<close> (their UTF-8
  bytes), hex digests included.
\<close>

section \<open>Languages\<close>

datatype language =
    Universal | Python | Javascript | Typescript | Tsx | Rust | Java | Json | C | Cpp | CSharp
  | Go | Ruby | Bash | Php | Html | Css | Yaml | Toml | Markdown | Kotlin | Swift | Lua | Scala
  | R | Elixir | Haskell | Ocaml | OcamlInterface | Zig

section \<open>Nodes, relations and ambiguities\<close>

record position =
  row :: nat
  column :: nat

record span =
  start_byte :: nat
  end_byte :: nat
  span_start :: position
  span_end :: position

record node_ref =
  ref_id :: nat
  ref_kind :: string
  ref_named :: bool
  ref_extra :: bool
  ref_missing :: bool
  ref_field :: "string option"
  ref_span :: span
  ref_subtree_size :: nat
  ref_syntax_hash :: string
  ref_shape_hash :: string

datatype predicate = PredInputPair | ByteEqual | SyntaxEqual | ShapeEqual

datatype correspondence = CorrInputPair | ModelForced | Suggested

record relation =
  rel_before :: node_ref
  rel_after :: node_ref
  rel_predicate :: predicate
  rel_correspondence :: correspondence
  rel_evidence :: "string list"

record ambiguity_pair =
  pair_before_id :: nat
  pair_after_id :: nat

datatype ambiguity_abstention_cause = DuplicateSymmetry | ComponentLimit | CandidateScanLimit

datatype pair_claims = NoPairClaims

datatype ambiguity_constraint =
    ExactOrderedAlignment predicate nat "ambiguity_pair list"
  | SymbolicAbstention ambiguity_abstention_cause pair_claims

record ambiguity_group =
  parent_before :: nat
  parent_after :: nat
  group_before :: "node_ref list"
  group_after :: "node_ref list"
  constraint :: ambiguity_constraint
  reason :: string

section \<open>Changes\<close>

datatype change_kind =
    Insert | Delete | EquivalentRelocation | ChildOrderChanged | ModelForcedUpdate
  | SuggestedUpdate | FormattingOnly

record structural_change =
  change_kind :: change_kind
  change_before :: "node_ref option"
  change_after :: "node_ref option"
  detail :: string

section \<open>Artifacts, parser manifest, patch, certificate, report\<close>

record artifact =
  path :: string
  byte_len :: nat
  artifact_blake3 :: string

record parser_manifest =
  engine :: string
  runtime_version :: string
  manifest_language :: language
  grammar_name :: string
  grammar_version :: string
  grammar_abi :: nat
  node_types_blake3 :: string
  coordinate_unit :: string
  manifest_root_kind :: string
  before_nodes :: nat
  after_nodes :: nat
  error_free :: bool

record byte_edit =
  old_start :: nat
  old_end :: nat
  replacement_base64 :: string

record lossless_patch =
  algorithm :: string
  edits :: "byte_edit list"

record replay_certificate =
  before_blake3 :: string
  after_blake3 :: string
  reconstructed_blake3 :: string
  before_len :: nat
  after_len :: nat
  patch_verified :: bool

record summary =
  model_forced_relations :: nat
  suggested_relations :: nat
  ambiguity_groups :: nat
  structural_changes :: nat

record diff_report =
  schema :: string
  engine_version :: string
  report_before :: artifact
  report_after :: artifact
  parser :: parser_manifest
  relations :: "relation list"
  ambiguities :: "ambiguity_group list"
  changes :: "structural_change list"
  patch :: lossless_patch
  certificate :: replay_certificate
  report_summary :: summary

text \<open>The constants of \<open>crates/stratadiff-core/src/lib.rs\<close> that name formats.\<close>

definition REPORT_SCHEMA :: string where
  "REPORT_SCHEMA = ''https://raw.githubusercontent.com/gcomfident-crypto/stratadiff/main/schema/report-v3.schema.json''"

definition PARSER_RUNTIME_VERSION :: string where
  "PARSER_RUNTIME_VERSION = ''0.27.0''"

definition PATCH_ALGORITHM :: string where
  "PATCH_ALGORITHM = ''bounded-patience-lines+bounded-byte-refinement-v2''"

end
