(* ===== verification/Base64.thy ===== *)
theory Base64
  imports Report_Model
begin

text \<open>
  The canonical-Base64 check of \<open>crates/stratadiff-verifier/src/limits.rs\<close>
  (\<open>canonical_base64_decoded_len\<close>, \<open>base64_value\<close>) and the interface of the \<open>base64\<close> crate's
  \<open>STANDARD\<close> engine, which the patch code calls to encode and decode. The engine is not part of
  the repository: it is a parameter everywhere, and the locale \<open>base64_standard\<close> states what its
  documentation promises, namely RFC 4648 with the standard alphabet, required padding and no
  trailing bits. \<open>rfc4648_encode\<close> and \<open>rfc4648_decode\<close> are that RFC, and interpret the locale.
\<close>

unbundle bit_operations_syntax

section \<open>The check of the source\<close>

definition base64_value :: "u8 \<Rightarrow> u8 option" where
  "base64_value byte =
     (if 65 \<le> byte \<and> byte \<le> 90 then Some (byte - 65)
      else if 97 \<le> byte \<and> byte \<le> 122 then Some (byte - 97 + 26)
      else if 48 \<le> byte \<and> byte \<le> 57 then Some (byte - 48 + 52)
      else if byte = 43 then Some 62
      else if byte = 47 then Some 63
      else None)"

definition ends_with :: "'a list \<Rightarrow> 'a list \<Rightarrow> bool" where
  "ends_with xs ys \<longleftrightarrow> length ys \<le> length xs \<and> drop (length xs - length ys) xs = ys"

definition base64_padding :: "bytes \<Rightarrow> nat" where
  "base64_padding bytes =
     (if ends_with bytes [61, 61] then 2 else if ends_with bytes [61] then 1 else 0)"

definition canonical_base64_bytes_len :: "bytes \<Rightarrow> nat result" where
  "canonical_base64_bytes_len bytes =
     (if length bytes mod 4 \<noteq> 0 then Inl (Base64Failure NotCanonicalBase64)
      else if bytes = [] then Inr 0
      else
        (let padding = base64_padding bytes;
             data_len = length bytes - padding
         in
           if (\<exists>byte\<in>set (take data_len bytes). base64_value byte = None)
              \<or> (\<exists>byte\<in>set (drop data_len bytes). byte \<noteq> 61)
           then Inl (Base64Failure NotCanonicalBase64)
           else
             rbind (index_at bytes (data_len - 1)) (\<lambda>last_byte.
             rbind (of_option (Base64Failure NotCanonicalBase64) (base64_value last_byte))
               (\<lambda>final_value.
             if padding = 1 \<and> final_value AND 3 \<noteq> 0 \<or> padding = 2 \<and> final_value AND 15 \<noteq> 0
             then Inl (Base64Failure NotCanonicalBase64)
             else
               rbind (of_option (Base64Failure DecodedLengthCapacity)
                       (usize_checked_mul (length bytes div 4) 3)) (\<lambda>full_bytes.
               of_option (Base64Failure InvalidPadding) (usize_checked_sub full_bytes padding))))))"

definition canonical_base64_decoded_len :: "string \<Rightarrow> nat result" where
  "canonical_base64_decoded_len encoded = canonical_base64_bytes_len (as_bytes encoded)"

section \<open>RFC 4648\<close>

text \<open>
  The alphabet, by value, as the byte that encodes it; the groups are written with quotients and
  remainders of the octets, \<open>61\<close> is the padding character.
\<close>

definition rfc4648_char :: "nat \<Rightarrow> u8" where
  "rfc4648_char v =
     word_of_nat (if v < 26 then v + 65 else if v < 52 then v - 26 + 97
       else if v < 62 then v - 52 + 48 else if v = 62 then 43 else 47)"

definition rfc4648_group :: "u8 \<Rightarrow> u8 \<Rightarrow> u8 \<Rightarrow> bytes" where
  "rfc4648_group a b c =
     [rfc4648_char (unat a div 4), rfc4648_char (unat a mod 4 * 16 + unat b div 16),
      rfc4648_char (unat b mod 16 * 4 + unat c div 64), rfc4648_char (unat c mod 64)]"

fun rfc4648_encode_bytes :: "bytes \<Rightarrow> bytes" where
  "rfc4648_encode_bytes [] = []"
| "rfc4648_encode_bytes [a] = take 2 (rfc4648_group a 0 0) @ [61, 61]"
| "rfc4648_encode_bytes [a, b] = take 3 (rfc4648_group a b 0) @ [61]"
| "rfc4648_encode_bytes (a # b # c # bs) = rfc4648_group a b c @ rfc4648_encode_bytes bs"

text \<open>Decoding accepts exactly the canonical encodings.\<close>

definition rfc4648_octets :: "u8 \<Rightarrow> u8 \<Rightarrow> u8 \<Rightarrow> u8 \<Rightarrow> bytes" where
  "rfc4648_octets a b c d =
     [word_of_nat (unat a * 4 + unat b div 16), word_of_nat (unat b mod 16 * 16 + unat c div 4),
      word_of_nat (unat c mod 4 * 64 + unat d)]"

fun rfc4648_decode_bytes :: "bytes \<Rightarrow> bytes option" where
  "rfc4648_decode_bytes [] = Some []"
| "rfc4648_decode_bytes (w # x # y # z # rest) =
     (case (base64_value w, base64_value x, base64_value y, base64_value z) of
        (Some a, Some b, Some c, Some d) \<Rightarrow>
          map_option (\<lambda>bs. rfc4648_octets a b c d @ bs) (rfc4648_decode_bytes rest)
      | (Some a, Some b, Some c, None) \<Rightarrow>
          (if rest = [] \<and> z = 61 \<and> unat c mod 4 = 0 then Some (take 2 (rfc4648_octets a b c 0)) else None)
      | (Some a, Some b, None, None) \<Rightarrow>
          (if rest = [] \<and> y = 61 \<and> z = 61 \<and> unat b mod 16 = 0
           then Some (take 1 (rfc4648_octets a b 0 0)) else None)
      | _ \<Rightarrow> None)"
| "rfc4648_decode_bytes _ = None"

definition char_of_byte :: "u8 \<Rightarrow> char" where
  "char_of_byte b = char_of (unat b)"

definition rfc4648_encode :: "bytes \<Rightarrow> string" where
  "rfc4648_encode bs = map char_of_byte (rfc4648_encode_bytes bs)"

definition rfc4648_decode :: "string \<Rightarrow> bytes option" where
  "rfc4648_decode s = rfc4648_decode_bytes (as_bytes s)"

section \<open>The reference codec\<close>

lemma base64_value_char: "n < 64 \<Longrightarrow> base64_value (rfc4648_char n) = Some (word_of_nat n)"
proof -
  have "\<forall>n<64::nat. base64_value (rfc4648_char n) = Some (word_of_nat n)" by code_simp
  then show "n < 64 \<Longrightarrow> base64_value (rfc4648_char n) = Some (word_of_nat n)" by blast
qed

lemma word_of_nat_unat_eqI: "n = unat (b::u8) \<Longrightarrow> word_of_nat n = b"
  by simp
lemma unat_value:
  "65 \<le> b \<Longrightarrow> b \<le> 90 \<Longrightarrow> unat (b - 65 :: u8) = unat b - 65 \<and> 65 \<le> unat b \<and> unat b \<le> 90"
  "97 \<le> b \<Longrightarrow> b \<le> 122 \<Longrightarrow> unat (b - 97 + 26 :: u8) = unat b - 97 + 26 \<and> 97 \<le> unat b \<and> unat b \<le> 122"
  "48 \<le> b \<Longrightarrow> b \<le> 57 \<Longrightarrow> unat (b - 48 + 52 :: u8) = unat b - 48 + 52 \<and> 48 \<le> unat b \<and> unat b \<le> 57"
  by (simp_all add: word_le_nat_alt unat_word_ariths unat_sub_if')

lemma base64_value_SomeD:
  assumes "base64_value b = Some v"
  shows "unat v < 64" "rfc4648_char (unat v) = b" "b \<noteq> 61"
  using assms unat_value [of b]
  by (auto simp: base64_value_def rfc4648_char_def split: if_splits intro!: word_of_nat_unat_eqI)

lemma base64_value_61 [simp]: "base64_value 61 = None"
  by (simp add: base64_value_def)

lemma unat_u8_of_nat: "n < 256 \<Longrightarrow> unat (word_of_nat n :: u8) = n"
  by (simp add: unat_of_nat)

lemma sextet_bounds:
  fixes p q r s :: nat
  assumes "p < 64" "q < 64" "r < 64" "s < 64"
  shows "p * 4 + q div 16 < 256" "q mod 16 * 16 + r div 4 < 256" "r mod 4 * 64 + s < 256"
proof -
  have "q div 16 < 4" "q mod 16 < 16" "r div 4 < 16" "r mod 4 < 4" using assms by auto
  with assms show "p * 4 + q div 16 < 256" "q mod 16 * 16 + r div 4 < 256" "r mod 4 * 64 + s < 256"
    by linarith+
qed

lemma sextets:
  fixes p q r s :: nat
  assumes "p < 64" "q < 64" "r < 64" "s < 64"
  shows "(p * 4 + q div 16) div 4 = p"
    "(p * 4 + q div 16) mod 4 * 16 + (q mod 16 * 16 + r div 4) div 16 = q"
    "(q mod 16 * 16 + r div 4) mod 16 * 4 + (r mod 4 * 64 + s) div 64 = r"
    "(r mod 4 * 64 + s) mod 64 = s"
proof -
  have b: "q div 16 < 4" "r div 4 < 16" using assms by auto
  then have "(p * 4 + q div 16) mod 4 = q div 16" "(q mod 16 * 16 + r div 4) div 16 = q mod 16"
    "(q mod 16 * 16 + r div 4) mod 16 = r div 4" "(r mod 4 * 64 + s) div 64 = r mod 4"
    using assms by simp_all
  then show "(p * 4 + q div 16) div 4 = p"
    "(p * 4 + q div 16) mod 4 * 16 + (q mod 16 * 16 + r div 4) div 16 = q"
    "(q mod 16 * 16 + r div 4) mod 16 * 4 + (r mod 4 * 64 + s) div 64 = r"
    "(r mod 4 * 64 + s) mod 64 = s"
    using assms b by simp_all
qed

lemma octets:
  fixes a b c :: nat
  assumes "a < 256" "b < 256" "c < 256"
  shows "a div 4 * 4 + (a mod 4 * 16 + b div 16) div 16 = a"
    "(a mod 4 * 16 + b div 16) mod 16 * 16 + (b mod 16 * 4 + c div 64) div 4 = b"
    "(b mod 16 * 4 + c div 64) mod 4 * 64 + c mod 64 = c"
    "a div 4 < 64" "a mod 4 * 16 + b div 16 < 64" "b mod 16 * 4 + c div 64 < 64"
proof -
  have b: "b div 16 < 16" "c div 64 < 4" "a mod 4 < 4" "b mod 16 < 16" using assms by auto
  then have "(a mod 4 * 16 + b div 16) div 16 = a mod 4" "(a mod 4 * 16 + b div 16) mod 16 = b div 16"
    "(b mod 16 * 4 + c div 64) div 4 = b mod 16" "(b mod 16 * 4 + c div 64) mod 4 = c div 64"
    by simp_all
  then show "a div 4 * 4 + (a mod 4 * 16 + b div 16) div 16 = a"
    "(a mod 4 * 16 + b div 16) mod 16 * 16 + (b mod 16 * 4 + c div 64) div 4 = b"
    "(b mod 16 * 4 + c div 64) mod 4 * 64 + c mod 64 = c" by simp_all
  show "a div 4 < 64" "a mod 4 * 16 + b div 16 < 64" "b mod 16 * 4 + c div 64 < 64"
    using b assms by linarith+
qed

lemma unat_u8_less [simp]: "unat (a::u8) < 256"
  using unsigned_less [of a] by simp

lemma group_octets:
  assumes "unat a < 64" "unat b < 64" "unat c < 64" "unat d < 64"
    and "rfc4648_octets a b c d = [o1, o2, o3]"
  shows "rfc4648_group o1 o2 o3 = map (\<lambda>v. rfc4648_char (unat v)) [a, b, c, d]"
proof -
  note bd = sextet_bounds [OF assms(1-4)]
  have "o1 = word_of_nat (unat a * 4 + unat b div 16)"
    "o2 = word_of_nat (unat b mod 16 * 16 + unat c div 4)"
    "o3 = word_of_nat (unat c mod 4 * 64 + unat d)"
    using assms(5) unfolding rfc4648_octets_def by auto
  then have "unat o1 = unat a * 4 + unat b div 16" "unat o2 = unat b mod 16 * 16 + unat c div 4"
    "unat o3 = unat c mod 4 * 64 + unat d"
    using bd by (simp_all only: unat_u8_of_nat)
  then show ?thesis
    using sextets [OF assms(1-4)] by (simp add: rfc4648_group_def)
qed

lemma base64_value_group:
  "map base64_value (rfc4648_group a b c) =
     map (\<lambda>n. Some (word_of_nat n)) [unat a div 4, unat a mod 4 * 16 + unat b div 16,
       unat b mod 16 * 4 + unat c div 64, unat c mod 64]"
  using octets [of "unat a" "unat b" "unat c"]
  by (simp add: rfc4648_group_def base64_value_char del: of_nat_add of_nat_mult)

lemma octets_group:
  "rfc4648_octets (word_of_nat (unat a div 4)) (word_of_nat (unat a mod 4 * 16 + unat b div 16))
     (word_of_nat (unat b mod 16 * 4 + unat c div 64)) (word_of_nat (unat c mod 64)) = [a, b, c]"
proof -
  note o = octets [of "unat a" "unat b" "unat c"]
  have "unat (word_of_nat (unat a div 4) :: u8) = unat a div 4"
    "unat (word_of_nat (unat a mod 4 * 16 + unat b div 16) :: u8) = unat a mod 4 * 16 + unat b div 16"
    "unat (word_of_nat (unat b mod 16 * 4 + unat c div 64) :: u8) = unat b mod 16 * 4 + unat c div 64"
    "unat (word_of_nat (unat c mod 64) :: u8) = unat c mod 64"
    using o(4-6) by (simp_all only: unat_u8_of_nat unat_u8_less) (rule unat_u8_of_nat; simp)+
  then show ?thesis
    using o(1-3) by (simp add: rfc4648_octets_def word_of_nat_unat_eqI del: of_nat_add of_nat_mult)
qed

lemma decode_group:
  "rfc4648_decode_bytes (rfc4648_group a b c @ rest) = map_option (\<lambda>bs. a # b # c # bs) (rfc4648_decode_bytes rest)"
  using base64_value_group [of a b c] octets_group [of a b c]
  by (cases "rfc4648_decode_bytes rest") (simp_all add: rfc4648_group_def)

lemma rfc4648_decode_encode_bytes: "rfc4648_decode_bytes (rfc4648_encode_bytes bs) = Some bs"
proof (induction bs rule: rfc4648_encode_bytes.induct)
  case (2 a)
  have "unat (word_of_nat (unat a mod 4 * 16) :: u8) mod 16 = 0"
    using octets(5) [of "unat a" 0 0] by (subst unat_u8_of_nat) auto
  then show ?case
    using base64_value_group [of a 0 0] octets_group [of a 0 0]
    by (simp add: rfc4648_group_def numeral_2_eq_2)
next
  case (3 a b)
  have "unat (word_of_nat (unat b mod 16 * 4) :: u8) mod 4 = 0"
    using octets(6) [of 0 "unat b" 0] by (subst unat_u8_of_nat) auto
  then show ?case
    using base64_value_group [of a b 0] octets_group [of a b 0]
    by (simp add: rfc4648_group_def numeral_2_eq_2 numeral_3_eq_3)
qed (simp_all add: decode_group)

lemma octets_list: "\<exists>o1 o2 o3. rfc4648_octets a b c d = [o1, o2, o3]"
  by (simp add: rfc4648_octets_def)

lemma rfc4648_encode_decode_bytes: "rfc4648_decode_bytes s = Some bs \<Longrightarrow> rfc4648_encode_bytes bs = s"
proof (induction s arbitrary: bs rule: rfc4648_decode_bytes.induct)
  case (2 w x y z rest)
  show ?case
  proof (cases "base64_value w")
    case None
    then show ?thesis using 2 by simp
  next
    case w: (Some a)
    show ?thesis
    proof (cases "base64_value x")
      case None
      then show ?thesis using 2 w by simp
    next
      case x: (Some b)
      note wx = base64_value_SomeD [OF w] base64_value_SomeD [OF x]
      show ?thesis
      proof (cases "base64_value y")
        case None
        with 2 w x have c: "rest = []" "y = 61" "z = 61" "unat b mod 16 = 0"
          "bs = take 1 (rfc4648_octets a b 0 0)" by (auto split: option.splits if_splits)
        obtain o1 o2 o3 where o: "rfc4648_octets a b 0 0 = [o1, o2, o3]" using octets_list by blast
        have "o2 = 0" "o3 = 0" using o c(4) by (auto simp: rfc4648_octets_def)
        with group_octets [of a b 0 0, OF _ _ _ _ o] wx c o show ?thesis
          by (simp add: numeral_2_eq_2)
      next
        case y: (Some c)
        note wxy = wx base64_value_SomeD [OF y]
        show ?thesis
        proof (cases "base64_value z")
          case None
          with 2 w x y have c: "rest = []" "z = 61" "unat c mod 4 = 0"
            "bs = take 2 (rfc4648_octets a b c 0)" by (auto split: option.splits if_splits)
          obtain o1 o2 o3 where o: "rfc4648_octets a b c 0 = [o1, o2, o3]" using octets_list by blast
          have "o3 = 0" using o c(3) by (auto simp: rfc4648_octets_def)
          with group_octets [of a b c 0, OF _ _ _ _ o] wxy c o show ?thesis
            by (simp add: numeral_2_eq_2 numeral_3_eq_3)
        next
          case z: (Some d)
          obtain o1 o2 o3 where o: "rfc4648_octets a b c d = [o1, o2, o3]" using octets_list by blast
          from 2 w x y z o obtain r where r: "rfc4648_decode_bytes rest = Some r" "bs = o1 # o2 # o3 # r"
            by auto
          from "2.IH" w x y z r(1) have "rfc4648_encode_bytes r = rest" by auto
          with group_octets [of a b c d, OF _ _ _ _ o] wxy base64_value_SomeD [OF z] r
          show ?thesis by simp
        qed
      qed
    qed
  qed
qed auto


definition canonical_base64 :: "bytes \<Rightarrow> bool" where
  "canonical_base64 bs \<longleftrightarrow> length bs mod 4 = 0 \<and>
     (bs \<noteq> [] \<longrightarrow>
       (let p = base64_padding bs; d = length bs - p in
         (\<forall>b\<in>set (take d bs). base64_value b \<noteq> None) \<and> (\<forall>b\<in>set (drop d bs). b = 61) \<and>
         (p = 1 \<longrightarrow> unat (the (base64_value (bs ! (d - 1)))) mod 4 = 0) \<and>
         (p = 2 \<longrightarrow> unat (the (base64_value (bs ! (d - 1)))) mod 16 = 0)))"

lemma and_low_bits: "(v :: u8) AND 3 = 0 \<longleftrightarrow> unat v mod 4 = 0" "(v :: u8) AND 15 = 0 \<longleftrightarrow> unat v mod 16 = 0"
proof -
  have eq: "v AND 3 = take_bit 2 v" "v AND 15 = take_bit 4 v"
    by (simp_all add: take_bit_eq_mask mask_eq_exp_minus_1)
  have "unat (take_bit 2 v) = unat v mod 4" "unat (take_bit 4 v) = unat v mod 16"
    by (simp_all add: take_bit_eq_mod unat_mod)
  then show "v AND 3 = 0 \<longleftrightarrow> unat v mod 4 = 0" "v AND 15 = 0 \<longleftrightarrow> unat v mod 16 = 0"
    unfolding eq by (simp_all flip: unat_eq_0)
qed

lemma length_mod_4: "length xs mod 4 = 0 \<Longrightarrow> xs \<noteq> [] \<Longrightarrow> 4 \<le> length xs"
  by (metis dvd_imp_le length_greater_0_conv mod_eq_0_iff_dvd)

lemma base64_padding_four:
  "base64_padding [w, x, y, z] = (if y = 61 \<and> z = 61 then 2 else if z = 61 then 1 else 0)"
  by (simp add: base64_padding_def ends_with_def)

lemma base64_padding_le: "base64_padding bs \<le> 2" "base64_padding bs \<le> length bs"
  by (auto simp: base64_padding_def ends_with_def)

lemma canonical_base64_bytes_len_iff:
  assumes "length bs \<le> usize_max"
  shows "canonical_base64_bytes_len bs = Inr n \<longleftrightarrow>
     canonical_base64 bs \<and> n = length bs div 4 * 3 - (if bs = [] then 0 else base64_padding bs)"
proof (cases "length bs mod 4 = 0 \<and> bs \<noteq> []")
  case False
  then show ?thesis by (auto simp: canonical_base64_bytes_len_def canonical_base64_def)
next
  case True
  define p d where "p = base64_padding bs" and "d = length bs - p"
  have len: "4 \<le> length bs" using True by (intro length_mod_4) auto
  have p: "p \<le> 2" using base64_padding_le by (simp add: p_def)
  have d: "d - 1 < length bs" "d - 1 < d" using len p by (auto simp: d_def)
  then have mem: "bs ! (d - 1) \<in> set (take d bs)"
    by (metis d_def diff_le_self in_set_conv_nth length_take min.absorb2 nth_take)
  have cap: "length bs div 4 * 3 \<le> usize_max" using assms by simp
  have pl: "p \<le> length bs div 4 * 3" using p div_le_mono [OF len, of 4] by simp
  note unf = canonical_base64_bytes_len_def canonical_base64_def Let_def p_def[symmetric] d_def[symmetric]
  show ?thesis
  proof (cases "\<forall>b\<in>set (take d bs). base64_value b \<noteq> None")
    case all: True
    then obtain fv where fv: "base64_value (bs ! (d - 1)) = Some fv" using mem by auto
    have ex: "\<not> (\<exists>b\<in>set (take d bs). base64_value b = None)" using all by blast
    show ?thesis
      unfolding unf using True d cap pl ex all fv
      by (auto simp: usize_checked_mul_def usize_checked_sub_def and_low_bits split: if_splits)
  next
    case False
    then show ?thesis unfolding unf using True by auto
  qed
qed

lemma ends_with_append: "length ys \<le> length xs \<Longrightarrow> ends_with (zs @ xs) ys \<longleftrightarrow> ends_with xs ys"
  by (simp add: ends_with_def)

lemma base64_padding_append: "2 \<le> length xs \<Longrightarrow> base64_padding (zs @ xs) = base64_padding xs"
  by (simp add: base64_padding_def ends_with_append)

lemma canonical_base64_step:
  assumes "rest \<noteq> []" 
  shows "canonical_base64 (w # x # y # z # rest) \<longleftrightarrow>
    base64_value w \<noteq> None \<and> base64_value x \<noteq> None \<and> base64_value y \<noteq> None \<and> base64_value z \<noteq> None
    \<and> canonical_base64 rest"
proof (cases "length rest mod 4 = 0")
  case False
  then have "(4 + length rest) mod 4 \<noteq> 0" by simp
  with False show ?thesis by (simp add: canonical_base64_def)
next
  case True
  then have len: "4 \<le> length rest" using True assms by (intro length_mod_4) auto
  define p where "p = base64_padding rest"
  have pad: "base64_padding (w # x # y # z # rest) = p"
    using base64_padding_append [of rest "[w, x, y, z]"] len by (simp add: p_def)
  have p: "p \<le> 2" using base64_padding_le by (simp add: p_def)
  define d where "d = length rest - p - 1"
  have e: "length rest - p = Suc d" "length (w # x # y # z # rest) - p = 4 + Suc d"
    using p len by (auto simp: d_def)
  have m: "(4 + length rest) mod 4 = 0" using True by simp
  have "take (4 + Suc d) (w # x # y # z # rest) = w # x # y # z # take (Suc d) rest"
    "drop (4 + Suc d) (w # x # y # z # rest) = drop (Suc d) rest"
    "(w # x # y # z # rest) ! (4 + Suc d - 1) = rest ! d"
    by (simp_all add: eval_nat_numeral)
  then show ?thesis
    unfolding canonical_base64_def pad Let_def e p_def[symmetric]
    using True assms m by simp
qed

lemma canonical_base64_four:
  "canonical_base64 [w, x, y, z] \<longleftrightarrow>
    base64_value w \<noteq> None \<and> base64_value x \<noteq> None \<and>
    (y = 61 \<and> z = 61 \<and> unat (the (base64_value x)) mod 16 = 0
     \<or> base64_value y \<noteq> None \<and> z = 61 \<and> unat (the (base64_value y)) mod 4 = 0
     \<or> base64_value y \<noteq> None \<and> base64_value z \<noteq> None)"
proof -
  have lists: "take 2 [w, x, y, z] = [w, x]" "drop 2 [w, x, y, z] = [y, z]"
    "take 3 [w, x, y, z] = [w, x, y]" "drop 3 [w, x, y, z] = [z]" "length [w, x, y, z] = 4"
    "take 4 [w, x, y, z] = [w, x, y, z]" "drop 4 [w, x, y, z] = []"
    "[w, x, y, z] ! 1 = x" "[w, x, y, z] ! 2 = y" by (simp_all add: eval_nat_numeral)
  consider "y = 61" "z = 61" | "y \<noteq> 61" "z = 61" | "z \<noteq> 61" by blast
  then show ?thesis
  proof cases
    case 1
    then show ?thesis using lists by (simp add: canonical_base64_def base64_padding_four Let_def)
  next
    case 2
    then show ?thesis using lists by (auto simp: canonical_base64_def base64_padding_four Let_def)
  next
    case 3
    then show ?thesis using lists by (auto simp: canonical_base64_def base64_padding_four Let_def)
  qed
qed

lemma canonical_base64_decode: "canonical_base64 s \<longleftrightarrow> rfc4648_decode_bytes s \<noteq> None"
proof (induction s rule: rfc4648_decode_bytes.induct)
  case (2 w x y z rest)
  show ?case
  proof (cases "base64_value w = None \<or> base64_value x = None \<or> base64_value y = None \<or> base64_value z = None")
    case True
    show ?thesis
    proof (cases "rest = []")
      case True
      show ?thesis unfolding True canonical_base64_four
        by (cases "base64_value w"; cases "base64_value x"; cases "base64_value y"; cases "base64_value z")
          (simp_all, auto)
    next
      case False
      with True show ?thesis by (auto simp: canonical_base64_step split: option.splits)
    qed
  next
    case False
    then obtain a b c d where v: "base64_value w = Some a" "base64_value x = Some b"
      "base64_value y = Some c" "base64_value z = Some d" by auto
    then have "canonical_base64 rest \<longleftrightarrow> rfc4648_decode_bytes rest \<noteq> None" using "2.IH" by simp
    with v show ?thesis
      by (cases "rest = []") (simp_all add: canonical_base64_four canonical_base64_step)
  qed
qed (simp_all add: canonical_base64_def)

lemma decoded_length:
  "rfc4648_decode_bytes s = Some bs \<Longrightarrow>
   length bs = length s div 4 * 3 - (if s = [] then 0 else base64_padding s)"
proof (induction s arbitrary: bs rule: rfc4648_decode_bytes.induct)
  case (2 w x y z rest)
  show ?case
  proof (cases "rest = []")
    case True
    then show ?thesis using 2(2) base64_value_SomeD(3) [of y] base64_value_SomeD(3) [of z]
      by (auto simp: base64_padding_four rfc4648_octets_def split: option.splits if_splits)
  next
    case False
    from 2(2) False obtain r where r: "rfc4648_decode_bytes rest = Some r" "length bs = 3 + length r"
      by (auto simp: rfc4648_octets_def split: option.splits if_splits)
    then have "canonical_base64 rest" by (simp add: canonical_base64_decode)
    then have "length rest mod 4 = 0" by (simp add: canonical_base64_def)
    then have len: "4 \<le> length rest" using False by (intro length_mod_4) auto
    have pad: "base64_padding (w # x # y # z # rest) = base64_padding rest"
      using base64_padding_append [of rest "[w, x, y, z]"] len by simp
    have "length r = length rest div 4 * 3 - base64_padding rest"
      using 2(1) False r(1) 2(2) by (auto split: option.splits if_splits)
    moreover have "base64_padding rest \<le> length rest div 4 * 3"
      using base64_padding_le(1) [of rest] div_le_mono [OF len, of 4] by simp
    moreover have "(4 + length rest) div 4 = 1 + length rest div 4" by simp
    ultimately show ?thesis using r(2) pad by simp
  qed
qed auto

lemma char_of_byte_of_char [simp]: "char_of_byte (byte_of_char c) = c"
  by (simp add: char_of_byte_def byte_of_char_def unat_u8_of_nat)

lemma byte_of_char_of_byte [simp]: "byte_of_char (char_of_byte b) = b"
  by (simp add: char_of_byte_def byte_of_char_def)

lemma as_bytes_rfc4648_encode [simp]: "as_bytes (rfc4648_encode bs) = rfc4648_encode_bytes bs"
  by (simp add: as_bytes_def rfc4648_encode_def o_def)

lemma map_char_of_byte_as_bytes [simp]: "map char_of_byte (as_bytes s) = s"
  by (simp add: as_bytes_def o_def)

lemma rfc4648_decode_iff: "rfc4648_decode s = Some bs \<longleftrightarrow> s = rfc4648_encode bs"
  using rfc4648_encode_decode_bytes [of "as_bytes s" bs]
  by (auto simp: rfc4648_decode_def rfc4648_decode_encode_bytes)
    (metis as_bytes_rfc4648_encode as_bytes_inj)

section \<open>The engine interface\<close>

locale base64_standard =
  fixes encode :: "bytes \<Rightarrow> string" and decode :: "string \<Rightarrow> bytes option"
  assumes encode_rfc4648: "encode bs = rfc4648_encode bs"
    and decode_canonical: "decode s = Some bs \<longleftrightarrow> s = encode bs"
begin

lemma decode_encode: "decode (encode bs) = Some bs"
  by (simp add: decode_canonical)

lemma canonical_len_encode:
  assumes "length (encode bs) \<le> usize_max"
  shows "canonical_base64_decoded_len (encode bs) = Inr (length bs)"
proof -
  have "rfc4648_decode (encode bs) = Some bs" by (simp add: encode_rfc4648 rfc4648_decode_iff)
  then show ?thesis
    using assms decoded_length [of "as_bytes (encode bs)" bs]
    by (simp add: canonical_base64_decoded_len_def canonical_base64_bytes_len_iff
        canonical_base64_decode rfc4648_decode_def)
qed

lemma canonical_len_decodes:
  assumes "canonical_base64_decoded_len s = Inr n" "length s \<le> usize_max"
  shows "\<exists>bs. decode s = Some bs \<and> length bs = n"
proof -
  have "canonical_base64 (as_bytes s)"
    and n: "n = length (as_bytes s) div 4 * 3 - (if as_bytes s = [] then 0 else base64_padding (as_bytes s))"
    using assms by (simp_all add: canonical_base64_decoded_len_def canonical_base64_bytes_len_iff)
  then obtain bs where "rfc4648_decode s = Some bs"
    by (auto simp: canonical_base64_decode rfc4648_decode_def)
  moreover from this have "length bs = n"
    using decoded_length [of "as_bytes s" bs] n by (simp add: rfc4648_decode_def)
  ultimately show ?thesis by (auto simp: decode_canonical encode_rfc4648 rfc4648_decode_iff)
qed

end

interpretation rfc4648: base64_standard rfc4648_encode rfc4648_decode
  by unfold_locales (simp_all add: rfc4648_decode_iff)

section \<open>The accepted strings\<close>

text \<open>the hand-written canonicality check of the verifier accepts a string with length \<open>n\<close> if
  and only if the string is the RFC 4648 encoding of some octets, and \<open>n\<close> is their number: no
  missing padding, no trailing bits, no character outside the alphabet passes, and no canonical
  encoding is refused.\<close>

theorem canonical_base64_exact:
  assumes "length s \<le> usize_max"
  shows "canonical_base64_decoded_len s = Inr n \<longleftrightarrow> (\<exists>bs. rfc4648_encode bs = s \<and> length bs = n)"
proof
  assume "canonical_base64_decoded_len s = Inr n"
  then show "\<exists>bs. rfc4648_encode bs = s \<and> length bs = n"
    using rfc4648.canonical_len_decodes [OF _ assms] by (auto simp: rfc4648_decode_iff)
next
  assume "\<exists>bs. rfc4648_encode bs = s \<and> length bs = n"
  then show "canonical_base64_decoded_len s = Inr n"
    using rfc4648.canonical_len_encode assms by blast
qed

theorem canonical_base64_exact_witness:
  "canonical_base64_decoded_len ''eQ=='' = Inr 1 \<longleftrightarrow> (\<exists>bs. rfc4648_encode bs = ''eQ=='' \<and> length bs = 1)"
  by (rule canonical_base64_exact) (simp add: usize_max_def)

end
