(* ===== verification/Work_Budget.thy ===== *)
theory Work_Budget
  imports Prelude
begin

text \<open>
  The deterministic work accounting of the verifier (\<open>WorkBudget\<close> in
  \<open>crates/stratadiff-verifier/src/limits.rs\<close>) and the monad of computations that thread it: a
  value of type \<open>'a work\<close> takes the budget and returns either a failure or a value with the
  charged budget, as a function of the source with a \<open>&mut WorkBudget\<close> argument does. The
  context string that \<open>charge\<close> only puts into its diagnostic is not carried.

  Two predicates carry the proofs: \<open>valid m E Q\<close> (from every budget, \<open>m\<close> fails only with a failure
  in \<open>E\<close> and returns only values in \<open>Q\<close>) and \<open>budgeted m\<close> (the limit is never changed, the
  used work never shrinks, and the used work of a run is exactly the smallest limit under which the run succeeds: from there on
  a larger limit changes nothing, and below it the run ends with \<open>WorkLimitExceeded\<close>). Both are proved by one rule per
  combinator.
\<close>

section \<open>The budget\<close>

record work_budget =
  wb_limit :: nat
  wb_used :: nat

type_synonym 'a work = "work_budget \<Rightarrow> ('a \<times> work_budget) result"

definition work_budget_new :: "nat \<Rightarrow> work_budget" where
  "work_budget_new limit = \<lparr>wb_limit = limit, wb_used = 0\<rparr>"

definition charge :: "nat \<Rightarrow> unit work" where
  "charge amount w =
     (case usize_checked_add (wb_used w) amount of
        None \<Rightarrow> Inl WorkCapacityExceeded
      | Some next \<Rightarrow>
          if next > wb_limit w then Inl (WorkLimitExceeded next (wb_limit w))
          else Inr ((), w\<lparr>wb_used := next\<rparr>))"

definition charge_product :: "nat \<Rightarrow> nat \<Rightarrow> unit work" where
  "charge_product left right w =
     (case usize_checked_mul left right of
        None \<Rightarrow> Inl WorkCapacityExceeded
      | Some amount \<Rightarrow> charge amount w)"

text \<open>\<open>usize::leading_zeros\<close>, by the number of significant bits.\<close>

fun significant_bits :: "nat \<Rightarrow> nat" where
  "significant_bits n = (if n = 0 then 0 else Suc (significant_bits (n div 2)))"

declare significant_bits.simps [simp del]

definition leading_zeros :: "nat \<Rightarrow> nat" where
  "leading_zeros n = 64 - significant_bits n"

definition charge_n_log_n :: "nat \<Rightarrow> unit work" where
  "charge_n_log_n len =
     (let levels = (if len \<le> 1 then 1 else 64 - leading_zeros (len - 1))
      in charge_product len levels)"

definition map_lookup_levels :: "nat \<Rightarrow> nat" where
  "map_lookup_levels len = (if len \<le> 1 then 1 else 64 - leading_zeros (len - 1))"

section \<open>The monad\<close>

definition wreturn :: "'a \<Rightarrow> 'a work" where
  "wreturn x w = Inr (x, w)"

definition wbind :: "'a work \<Rightarrow> ('a \<Rightarrow> 'b work) \<Rightarrow> 'b work" where
  "wbind m f w = rbind (m w) (\<lambda>(x, w'). f x w')"

definition wlift :: "'a result \<Rightarrow> 'a work" where
  "wlift r w = rbind r (\<lambda>x. Inr (x, w))"

definition wfail :: "failure \<Rightarrow> 'a work" where
  "wfail e w = Inl e"

definition wensure :: "bool \<Rightarrow> failure \<Rightarrow> unit work" where
  "wensure b e = (if b then wreturn () else wfail e)"

text \<open>\<open>for x in xs { \<dots> }\<close> over a state, over no state, and with an early exit on \<open>false\<close>.\<close>

primrec wfold :: "('s \<Rightarrow> 'a \<Rightarrow> 's work) \<Rightarrow> 's \<Rightarrow> 'a list \<Rightarrow> 's work" where
  "wfold f s [] = wreturn s"
| "wfold f s (x # xs) = wbind (f s x) (\<lambda>s'. wfold f s' xs)"

primrec weach :: "('a \<Rightarrow> unit work) \<Rightarrow> 'a list \<Rightarrow> unit work" where
  "weach f [] = wreturn ()"
| "weach f (x # xs) = wbind (f x) (\<lambda>_. weach f xs)"

primrec wall :: "('a \<Rightarrow> bool work) \<Rightarrow> 'a list \<Rightarrow> bool work" where
  "wall f [] = wreturn True"
| "wall f (x # xs) = wbind (f x) (\<lambda>b. if b then wall f xs else wreturn False)"

primrec wmap :: "('a \<Rightarrow> 'b work) \<Rightarrow> 'a list \<Rightarrow> 'b list work" where
  "wmap f [] = wreturn []"
| "wmap f (x # xs) = wbind (f x) (\<lambda>y. wbind (wmap f xs) (\<lambda>ys. wreturn (y # ys)))"

text \<open>The first element that satisfies a test, the test charging work; later ones are not tried.\<close>

primrec wfind :: "('a \<Rightarrow> bool work) \<Rightarrow> 'a list \<Rightarrow> 'a option work" where
  "wfind f [] = wreturn None"
| "wfind f (x # xs) = wbind (f x) (\<lambda>b. if b then wreturn (Some x) else wfind f xs)"

lemma wbind_wreturn [simp]: "wbind (wreturn x) f = f x"
  by (rule ext) (simp add: wbind_def wreturn_def)

lemma wlift_simps [simp]: "wlift (Inr x) = wreturn x" "wlift (Inl e) = wfail e"
  by (rule ext, simp add: wlift_def wreturn_def wfail_def)+

lemma wbind_wfail [simp]: "wbind (wfail e) f = wfail e"
  by (rule ext) (simp add: wbind_def wfail_def)

lemma wbind_assoc: "wbind (wbind m f) g = wbind m (\<lambda>x. wbind (f x) g)"
  by (rule ext) (simp add: wbind_def rbind_def split: sum.split)

section \<open>Validity\<close>

named_theorems vc \<open>introduction rules for validity\<close>

definition valid :: "'a work \<Rightarrow> (failure \<Rightarrow> bool) \<Rightarrow> ('a \<Rightarrow> bool) \<Rightarrow> bool" where
  "valid m E Q \<longleftrightarrow> (\<forall>w. case m w of Inl e \<Rightarrow> E e | Inr (x, _) \<Rightarrow> Q x)"

lemma validI:
  "(\<And>w e. m w = Inl e \<Longrightarrow> E e) \<Longrightarrow> (\<And>w x w'. m w = Inr (x, w') \<Longrightarrow> Q x) \<Longrightarrow> valid m E Q"
  by (auto simp: valid_def split: sum.splits)

lemma validD: "valid m E Q \<Longrightarrow> m w = Inr (x, w') \<Longrightarrow> Q x"
  by (fastforce simp: valid_def split: sum.splits)

lemma valid_failD: "valid m E Q \<Longrightarrow> m w = Inl e \<Longrightarrow> E e"
  by (fastforce simp: valid_def split: sum.splits)

lemma valid_conseq:
  "valid m E Q \<Longrightarrow> (\<And>x. Q x \<Longrightarrow> Q' x) \<Longrightarrow> (\<And>e. E e \<Longrightarrow> E' e) \<Longrightarrow> valid m E' Q'"
  unfolding valid_def by (fastforce split: sum.splits)

lemma valid_conj: "valid m E Q \<Longrightarrow> valid m E' Q' \<Longrightarrow> valid m (\<lambda>e. E e \<and> E' e) (\<lambda>x. Q x \<and> Q' x)"
  unfolding valid_def by (fastforce split: sum.splits)

lemma valid_return [vc]: "Q x \<Longrightarrow> valid (wreturn x) E Q"
  by (simp add: valid_def wreturn_def)

lemma valid_fail [vc]: "E e \<Longrightarrow> valid (wfail e) E Q"
  by (simp add: valid_def wfail_def)

lemma valid_bind:
  "valid m E P \<Longrightarrow> (\<And>x. P x \<Longrightarrow> valid (f x) E Q) \<Longrightarrow> valid (wbind m f) E Q"
  unfolding valid_def wbind_def rbind_def by (fastforce split: sum.splits)

lemma valid_lift [vc]:
  "(\<And>e. r = Inl e \<Longrightarrow> E e) \<Longrightarrow> (\<And>x. r = Inr x \<Longrightarrow> Q x) \<Longrightarrow> valid (wlift r) E Q"
  by (cases r) (auto simp: valid_def wreturn_def wfail_def)

lemma valid_ensure [vc]: "(\<not> b \<Longrightarrow> E e) \<Longrightarrow> (b \<Longrightarrow> Q ()) \<Longrightarrow> valid (wensure b e) E Q"
  by (auto simp: wensure_def intro: vc)

lemma valid_if [vc]:
  "(b \<Longrightarrow> valid m E Q) \<Longrightarrow> (\<not> b \<Longrightarrow> valid m' E Q) \<Longrightarrow> valid (if b then m else m') E Q"
  by simp

lemma valid_charge:
  "(\<And>e. work_failure e \<Longrightarrow> E e) \<Longrightarrow> Q () \<Longrightarrow> valid (charge n) E Q"
  by (auto simp: valid_def charge_def split: option.splits sum.splits if_splits)

lemma valid_charge_product:
  "(\<And>e. work_failure e \<Longrightarrow> E e) \<Longrightarrow> Q () \<Longrightarrow> valid (charge_product a b) E Q"
  by (auto simp: valid_def charge_product_def charge_def split: option.splits sum.splits if_splits)

lemma valid_charge_n_log_n:
  "(\<And>e. work_failure e \<Longrightarrow> E e) \<Longrightarrow> Q () \<Longrightarrow> valid (charge_n_log_n n) E Q"
  by (simp add: charge_n_log_n_def valid_charge_product Let_def)

lemmas valid_charges = valid_charge valid_charge_product valid_charge_n_log_n

text \<open>A charge followed by a computation: the shape of almost every step of the verifier.\<close>

lemma valid_charge_bind [vc]:
  "(\<And>e. work_failure e \<Longrightarrow> E e) \<Longrightarrow> valid (f ()) E Q \<Longrightarrow> valid (wbind (charge n) f) E Q"
  by (rule valid_bind [where P = "\<lambda>_. True"]) (auto intro: valid_charges)

lemma valid_charge_product_bind [vc]:
  "(\<And>e. work_failure e \<Longrightarrow> E e) \<Longrightarrow> valid (f ()) E Q \<Longrightarrow> valid (wbind (charge_product a b) f) E Q"
  by (rule valid_bind [where P = "\<lambda>_. True"]) (auto intro: valid_charges)

lemma valid_charge_n_log_n_bind [vc]:
  "(\<And>e. work_failure e \<Longrightarrow> E e) \<Longrightarrow> valid (f ()) E Q \<Longrightarrow> valid (wbind (charge_n_log_n n) f) E Q"
  by (rule valid_bind [where P = "\<lambda>_. True"]) (auto intro: valid_charges)

lemma valid_lift_bind [vc]:
  "(\<And>e. r = Inl e \<Longrightarrow> E e) \<Longrightarrow> (\<And>x. r = Inr x \<Longrightarrow> valid (f x) E Q) \<Longrightarrow> valid (wbind (wlift r) f) E Q"
  by (rule valid_bind [where P = "\<lambda>x. r = Inr x"]) (auto intro: valid_lift)

lemma valid_ensure_bind [vc]:
  "(\<not> b \<Longrightarrow> E e) \<Longrightarrow> (b \<Longrightarrow> valid (f ()) E Q) \<Longrightarrow> valid (wbind (wensure b e) f) E Q"
  by (rule valid_bind [where P = "\<lambda>_. b"]) (auto intro: valid_ensure)

lemma valid_case_option [vc]:
  "(x = None \<Longrightarrow> valid m E Q) \<Longrightarrow> (\<And>y. x = Some y \<Longrightarrow> valid (f y) E Q) \<Longrightarrow>
   valid (case x of None \<Rightarrow> m | Some y \<Rightarrow> f y) E Q"
  by (cases x) simp_all

lemma valid_case_prod [vc]:
  "(\<And>a b. p = (a, b) \<Longrightarrow> valid (f a b) E Q) \<Longrightarrow> valid (case p of (a, b) \<Rightarrow> f a b) E Q"
  by (cases p) simp_all

lemma valid_Let [vc]: "(\<And>x. x = t \<Longrightarrow> valid (f x) E Q) \<Longrightarrow> valid (let x = t in f x) E Q"
  by simp

text \<open>Loops: an invariant on the state and the elements already visited.\<close>

lemma valid_fold_prefix:
  assumes "I [] s"
    and "\<And>ys x zs s. xs = ys @ x # zs \<Longrightarrow> I ys s \<Longrightarrow> valid (f s x) E (I (ys @ [x]))"
  shows "valid (wfold f s xs) E (I xs)"
proof -
  have "valid (wfold f s zs) E (I xs)" if "xs = ys @ zs" "I ys s" for ys zs s
    using that
  proof (induction zs arbitrary: ys s)
    case Nil
    then show ?case by (auto intro: vc)
  next
    case (Cons z zs)
    have "valid (f s z) E (I (ys @ [z]))"
      using Cons.prems by (intro assms(2)) auto
    then show ?case
      using Cons.prems Cons.IH [where ys = "ys @ [z]"] by (auto intro!: valid_bind)
  qed
  from this [of "[]" xs s] show ?thesis using assms(1) by simp
qed

lemma valid_fold:
  assumes "I s" and "\<And>x s. x \<in> set xs \<Longrightarrow> I s \<Longrightarrow> valid (f s x) E I"
  shows "valid (wfold f s xs) E I"
  by (rule valid_fold_prefix [where I = "\<lambda>_. I"]) (use assms in auto)

lemma valid_each:
  assumes "\<And>x. x \<in> set xs \<Longrightarrow> valid (f x) E (\<lambda>_. P x)"
  shows "valid (weach f xs) E (\<lambda>_. \<forall>x\<in>set xs. P x)"
  using assms
proof (induction xs)
  case (Cons x xs)
  have "valid (f x) E (\<lambda>_. P x)" "valid (weach f xs) E (\<lambda>_. \<forall>x\<in>set xs. P x)"
    using Cons by auto
  then show ?case by (auto intro!: valid_bind intro: valid_conseq)
qed (auto intro: vc)

lemma valid_each_trivial:
  "(\<And>x. x \<in> set xs \<Longrightarrow> valid (f x) E (\<lambda>_. True)) \<Longrightarrow> valid (weach f xs) E (\<lambda>_. True)"
  using valid_each [where P = "\<lambda>_. True"] by (rule valid_conseq) auto

lemma valid_wall:
  assumes "\<And>x. x \<in> set xs \<Longrightarrow> valid (f x) E (\<lambda>b. b \<longleftrightarrow> P x)"
  shows "valid (wall f xs) E (\<lambda>b. b \<longleftrightarrow> (\<forall>x\<in>set xs. P x))"
  using assms
proof (induction xs)
  case (Cons x xs)
  have "valid (f x) E (\<lambda>b. b \<longleftrightarrow> P x)" "valid (wall f xs) E (\<lambda>b. b \<longleftrightarrow> (\<forall>x\<in>set xs. P x))"
    using Cons by auto
  then show ?case by (auto intro!: valid_bind vc intro: valid_conseq)
qed (auto intro: vc)

lemma valid_wmap:
  assumes "\<And>x. x \<in> set xs \<Longrightarrow> valid (f x) E (P x)"
  shows "valid (wmap f xs) E (list_all2 P xs)"
  using assms
proof (induction xs)
  case (Cons x xs)
  have "valid (f x) E (P x)" "valid (wmap f xs) E (list_all2 P xs)"
    using Cons by auto
  then show ?case by (auto intro!: valid_bind vc)
qed (auto intro: vc)

lemma valid_wfind:
  assumes "\<And>x. x \<in> set xs \<Longrightarrow> valid (f x) E (\<lambda>b. b \<longleftrightarrow> P x)"
  shows "valid (wfind f xs) E (\<lambda>r. r = find P xs)"
  using assms
proof (induction xs)
  case (Cons x xs)
  have "valid (f x) E (\<lambda>b. b \<longleftrightarrow> P x)" "valid (wfind f xs) E (\<lambda>r. r = find P xs)"
    using Cons by auto
  then show ?case by (auto intro!: valid_bind vc intro: valid_conseq)
qed (auto intro: vc)

section \<open>Budget discipline\<close>

named_theorems budget_intros \<open>introduction rules for the budget discipline\<close>

text \<open>A run of \<open>m\<close> from \<open>start\<close> to \<open>final\<close>, under another limit: the same value if the limit covers \<open>final\<close>, the error of the
  limit otherwise, at an amount between the limit and \<open>final\<close>.\<close>

definition under_limit :: "'a work \<Rightarrow> nat \<Rightarrow> 'a \<Rightarrow> nat \<Rightarrow> nat \<Rightarrow> bool" where
  "under_limit m start x final limit \<longleftrightarrow>
     (if final \<le> limit then m \<lparr>wb_limit = limit, wb_used = start\<rparr> = Inr (x, \<lparr>wb_limit = limit, wb_used = final\<rparr>)
      else \<exists>amount. m \<lparr>wb_limit = limit, wb_used = start\<rparr> = Inl (WorkLimitExceeded amount limit) \<and> limit < amount \<and> amount \<le> final)"

definition budgeted :: "'a work \<Rightarrow> bool" where
  "budgeted m \<longleftrightarrow> (\<forall>w x w'. m w = Inr (x, w') \<longrightarrow>
     wb_limit w' = wb_limit w \<and> wb_used w \<le> wb_used w' \<and> (wb_used w \<le> wb_limit w \<longrightarrow> wb_used w' \<le> wb_limit w) \<and>
     (\<forall>limit. wb_used w \<le> limit \<longrightarrow> under_limit m (wb_used w) x (wb_used w') limit))"

lemma budgetedD:
  assumes "budgeted m" "m w = Inr (x, w')"
  shows "wb_limit w' = wb_limit w" "wb_used w \<le> wb_used w'"
    "wb_used w \<le> wb_limit w \<Longrightarrow> wb_used w' \<le> wb_limit w"
    "wb_used w \<le> limit \<Longrightarrow> under_limit m (wb_used w) x (wb_used w') limit"
  using assms unfolding budgeted_def by blast+

lemma budgeted_free:
  assumes "\<And>w. m w = Inr (x, w)"
  shows "budgeted m"
  unfolding budgeted_def under_limit_def assms by auto

lemma budgeted_return [budget_intros]: "budgeted (wreturn x)"
  by (rule budgeted_free) (simp add: wreturn_def)

lemma budgeted_fail [budget_intros]: "budgeted (wfail e)"
  by (simp add: budgeted_def wfail_def)

lemma budgeted_lift [budget_intros]: "budgeted (wlift r)"
  by (cases r) (simp_all add: budgeted_return budgeted_fail)

lemma budgeted_ensure [budget_intros]: "budgeted (wensure b e)"
  by (simp add: wensure_def budget_intros)

text \<open>A charge succeeds exactly when the sum fits the machine and the limit, and then adds the amount.\<close>

lemma charge_Inr:
  "charge n w = Inr (u, w') \<longleftrightarrow> wb_used w + n \<le> usize_max \<and> wb_used w + n \<le> wb_limit w \<and> w' = w\<lparr>wb_used := wb_used w + n\<rparr>"
  by (auto simp: charge_def usize_checked_add_def split: if_splits)

lemma budgeted_charge [budget_intros]: "budgeted (charge n)"
  unfolding budgeted_def charge_Inr
  by (auto simp: under_limit_def charge_Inr) (auto simp: charge_def usize_checked_add_def)

lemma budgeted_charge_product [budget_intros]: "budgeted (charge_product a b)"
proof (cases "usize_checked_mul a b")
  case None
  then have "charge_product a b = wfail WorkCapacityExceeded" by (simp add: fun_eq_iff charge_product_def wfail_def)
  then show ?thesis by (simp add: budgeted_fail)
next
  case (Some n)
  then have "charge_product a b = charge n" by (simp add: fun_eq_iff charge_product_def)
  then show ?thesis by (simp add: budgeted_charge)
qed

lemma budgeted_charge_n_log_n [budget_intros]: "budgeted (charge_n_log_n n)"
proof -
  have "charge_n_log_n n = charge_product n (if n \<le> 1 then 1 else 64 - leading_zeros (n - 1))"
    by (simp add: fun_eq_iff charge_n_log_n_def Let_def)
  then show ?thesis by (simp add: budgeted_charge_product)
qed

lemma budgeted_bind [budget_intros]:
  assumes m: "budgeted m" and f: "\<And>x. budgeted (f x)"
  shows "budgeted (wbind m f)"
  unfolding budgeted_def
proof (intro allI impI)
  fix w x w'
  assume "wbind m f w = Inr (x, w')"
  then obtain y v where y: "m w = Inr (y, v)" "f y v = Inr (x, w')"
    by (auto simp: wbind_def rbind_Inr_iff)
  note mD = budgetedD [OF m y(1)] and fD = budgetedD [OF f y(2)]
  have "under_limit (wbind m f) (wb_used w) x (wb_used w') limit" if limit: "wb_used w \<le> limit" for limit
  proof (cases "wb_used v \<le> limit")
    case True
    then have "wbind m f \<lparr>wb_limit = limit, wb_used = wb_used w\<rparr> = f y \<lparr>wb_limit = limit, wb_used = wb_used v\<rparr>"
      using mD(4) [OF limit] by (simp add: under_limit_def wbind_def)
    then show ?thesis using fD(4) [OF True] by (simp add: under_limit_def)
  next
    case False
    then obtain amount where "m \<lparr>wb_limit = limit, wb_used = wb_used w\<rparr> = Inl (WorkLimitExceeded amount limit)" "limit < amount"
      "amount \<le> wb_used v"
      using mD(4) [OF limit] by (auto simp: under_limit_def)
    then show ?thesis using False fD(2) by (auto simp: under_limit_def wbind_def)
  qed
  then show "wb_limit w' = wb_limit w \<and> wb_used w \<le> wb_used w' \<and>
     (wb_used w \<le> wb_limit w \<longrightarrow> wb_used w' \<le> wb_limit w) \<and>
     (\<forall>limit. wb_used w \<le> limit \<longrightarrow> under_limit (wbind m f) (wb_used w) x (wb_used w') limit)"
    using mD(1-3) fD(1-3) by auto
qed

lemma budgeted_if [budget_intros]: "budgeted m \<Longrightarrow> budgeted m' \<Longrightarrow> budgeted (if b then m else m')"
  by simp

lemma budgeted_case_option [budget_intros]:
  "budgeted m \<Longrightarrow> (\<And>y. budgeted (f y)) \<Longrightarrow> budgeted (case x of None \<Rightarrow> m | Some y \<Rightarrow> f y)"
  by (cases x) simp_all

lemma budgeted_case_prod [budget_intros]:
  "(\<And>a b. budgeted (f a b)) \<Longrightarrow> budgeted (case p of (a, b) \<Rightarrow> f a b)"
  by (cases p) simp_all

lemma budgeted_Let [budget_intros]: "(\<And>x. budgeted (f x)) \<Longrightarrow> budgeted (let x = t in f x)"
  by simp

lemma budgeted_fold [budget_intros]: "(\<And>s x. budgeted (f s x)) \<Longrightarrow> budgeted (wfold f s xs)"
  by (induction xs arbitrary: s) (simp_all add: budget_intros)

lemma budgeted_each [budget_intros]: "(\<And>x. budgeted (f x)) \<Longrightarrow> budgeted (weach f xs)"
  by (induction xs) (simp_all add: budget_intros)

lemma budgeted_wall [budget_intros]: "(\<And>x. budgeted (f x)) \<Longrightarrow> budgeted (wall f xs)"
  by (induction xs) (auto intro!: budget_intros)

lemma budgeted_wmap [budget_intros]: "(\<And>x. budgeted (f x)) \<Longrightarrow> budgeted (wmap f xs)"
  by (induction xs) (auto intro!: budget_intros)

lemma budgeted_wfind [budget_intros]: "(\<And>x. budgeted (f x)) \<Longrightarrow> budgeted (wfind f xs)"
  by (induction xs) (auto intro!: budget_intros)

section \<open>Lower bounds\<close>

text \<open>A computation that charges at least \<open>k\<close>.\<close>

definition costs :: "nat \<Rightarrow> 'a work \<Rightarrow> bool" where
  "costs k m \<longleftrightarrow> (\<forall>w x w'. m w = Inr (x, w') \<longrightarrow> wb_used w + k \<le> wb_used w')"

lemma costsD: "costs k m \<Longrightarrow> m w = Inr (x, w') \<Longrightarrow> wb_used w + k \<le> wb_used w'"
  by (simp add: costs_def)

lemma costs_budgeted: "budgeted m \<Longrightarrow> costs 0 m"
  by (auto simp: costs_def dest: budgetedD(2))

lemma costs_charge: "costs n (charge n)"
  by (auto simp: costs_def charge_Inr)

lemma costs_bind: "costs a m \<Longrightarrow> (\<And>x. costs b (f x)) \<Longrightarrow> costs (a + b) (wbind m f)"
  unfolding costs_def by (fastforce simp: wbind_def rbind_Inr_iff)

lemma costs_skip: "budgeted m \<Longrightarrow> (\<And>x. costs b (f x)) \<Longrightarrow> costs b (wbind m f)"
  using costs_bind [OF costs_budgeted] by fastforce

lemma costs_prefix: "costs a m \<Longrightarrow> (\<And>x. budgeted (f x)) \<Longrightarrow> costs a (wbind m f)"
  using costs_bind [OF _ costs_budgeted] by fastforce

lemma costs_fold: "(\<And>s x. costs k (f s x)) \<Longrightarrow> costs (length xs * k) (wfold f s xs)"
proof (induction xs arbitrary: s)
  case (Cons x xs)
  then show ?case using costs_bind [of k "f s x" "length xs * k" "\<lambda>s'. wfold f s' xs"] by simp
qed (simp add: costs_budgeted budgeted_return)

section \<open>Levels\<close>

lemma significant_bits_bounds: "0 < n \<Longrightarrow> 2 ^ (significant_bits n - 1) \<le> n \<and> n < 2 ^ significant_bits n"
proof (induction n rule: significant_bits.induct)
  case (1 n)
  show ?case
  proof (cases "n div 2 = 0")
    case True
    then have "n = 1" using 1 by simp
    then show ?thesis by (simp add: significant_bits.simps)
  next
    case False
    with 1 have IH: "2 ^ (significant_bits (n div 2) - 1) \<le> n div 2" "n div 2 < 2 ^ significant_bits (n div 2)"
      by auto
    have pos: "0 < significant_bits (n div 2)"
      using False by (subst significant_bits.simps) simp
    have eq: "significant_bits n = Suc (significant_bits (n div 2))"
      using 1(2) by (subst significant_bits.simps) simp
    have "2 * 2 ^ (significant_bits (n div 2) - 1) = (2::nat) ^ significant_bits (n div 2)"
      using pos by (metis Suc_diff_1 power_Suc)
    then have "2 ^ significant_bits (n div 2) \<le> 2 * (n div 2)" "n < 2 * 2 ^ significant_bits (n div 2)"
      using IH by linarith+
    moreover have "2 * (n div 2) \<le> n" by simp
    ultimately show ?thesis unfolding eq by simp
  qed
qed

lemma significant_bits_64: "n \<le> usize_max \<Longrightarrow> significant_bits n \<le> 64"
proof (cases "n = 0")
  case True
  then show ?thesis by (subst significant_bits.simps) simp
next
  case False
  assume "n \<le> usize_max"
  then have "n < 2 ^ 64" by (simp add: usize_max_def)
  moreover have "2 ^ (significant_bits n - 1) \<le> n"
    using significant_bits_bounds [of n] False by simp
  ultimately have "(2::nat) ^ (significant_bits n - 1) < 2 ^ 64" by (rule le_less_trans [rotated])
  then have "significant_bits n - 1 < 64"
    by (rule power_less_imp_less_exp [rotated]) simp
  then show ?thesis by simp
qed

text \<open>The charged number of levels is the rounded-up binary logarithm.\<close>

lemma map_lookup_levels_log:
  assumes "1 < n" "n \<le> usize_max"
  shows "2 ^ (map_lookup_levels n - 1) < n" "n \<le> 2 ^ map_lookup_levels n"
proof -
  have eq: "map_lookup_levels n = significant_bits (n - 1)"
    using significant_bits_64 [of "n - 1"] assms
    by (simp add: map_lookup_levels_def leading_zeros_def)
  have "0 < n - 1" using assms by simp
  from significant_bits_bounds [OF this] assms
  show "2 ^ (map_lookup_levels n - 1) < n" "n \<le> 2 ^ map_lookup_levels n"
    unfolding eq by linarith+
qed

end
