(* ===== verification/Verification_Limits.thy ===== *)
theory Verification_Limits
  imports Base64 Work_Budget
begin

text \<open>
  The verification limits, the accounting of \<open>preflight_report\<close> and the arithmetic patch
  inspection \<open>inspect_patch\<close> of \<open>crates/stratadiff-verifier/src/limits.rs\<close>. The serialised size
  of a report is measured through \<open>LimitWriter\<close>, which receives the chunks \<open>serde_json\<close> writes;
  the chunks of a report are a parameter. The lemmas give the functional meaning of each loop:
  the edit loop accepts exactly the ordered, non-overlapping, in-range edit lists with canonical
  replacements within the decoded-bytes limit.
\<close>

section \<open>Limits and statistics\<close>

record verification_limits =
  max_report_bytes :: nat
  max_source_bytes :: nat
  max_relations :: nat
  max_ambiguity_groups :: nat
  max_ambiguity_endpoints :: nat
  max_ambiguity_pairs :: nat
  max_changes :: nat
  max_patch_edits :: nat
  max_decoded_replacement_bytes :: nat
  max_syntax_nodes :: nat
  max_syntax_depth :: nat
  max_parse_callbacks :: nat
  max_verification_work :: nat

definition verification_limits_default :: verification_limits where
  "verification_limits_default =
    \<lparr>max_report_bytes = 64 * 1024 * 1024,
     max_source_bytes = 16 * 1024 * 1024,
     max_relations = 250000,
     max_ambiguity_groups = 50000,
     max_ambiguity_endpoints = 500000,
     max_ambiguity_pairs = 1000000,
     max_changes = 250000,
     max_patch_edits = 250000,
     max_decoded_replacement_bytes = 32 * 1024 * 1024,
     max_syntax_nodes = 1000000,
     max_syntax_depth = 512,
     max_parse_callbacks = 4000000,
     max_verification_work = 128 * 1024 * 1024\<rparr>"

record verification_stats =
  st_report_bytes :: nat
  st_before_source_bytes :: nat
  st_after_source_bytes :: nat
  st_relations :: nat
  st_ambiguity_groups :: nat
  st_ambiguity_endpoints :: nat
  st_ambiguity_pairs :: nat
  st_changes :: nat
  st_patch_edits :: nat
  st_decoded_replacement_bytes :: nat
  st_syntax_nodes :: nat
  st_verification_work :: nat

record patch_stats =
  ps_decoded_replacement_bytes :: nat
  ps_replayed_bytes :: nat

definition check_limit :: "quantity \<Rightarrow> nat \<Rightarrow> nat \<Rightarrow> unit result" where
  "check_limit label observed limit =
     (if observed > limit then Inl (LimitExceeded label observed limit) else Inr ())"

definition checked_add :: "quantity \<Rightarrow> nat \<Rightarrow> nat \<Rightarrow> nat result" where
  "checked_add label left right = of_option (CapacityExceeded label) (usize_checked_add left right)"

lemma check_limit_Inr [simp]: "check_limit q n l = Inr u \<longleftrightarrow> n \<le> l"
  by (auto simp: check_limit_def)

lemma checked_add_Inr [simp]: "checked_add q a b = Inr n \<longleftrightarrow> n = a + b \<and> n \<le> usize_max"
  by (auto simp: checked_add_def usize_checked_add_def)

lemma check_limit_not_crash: "check_limit q n l = Inl e \<Longrightarrow> \<not> crash e"
  by (auto simp: check_limit_def split: if_splits)

lemma checked_add_not_crash: "checked_add q a b = Inl e \<Longrightarrow> \<not> crash e"
  by (auto simp: checked_add_def usize_checked_add_def split: if_splits)

section \<open>Measuring the serialised report\<close>

record limit_writer =
  written :: nat
  writer_limit :: nat

definition limit_writer_write :: "limit_writer \<Rightarrow> bytes \<Rightarrow> (nat \<times> limit_writer) result" where
  "limit_writer_write wr buffer =
     (case usize_checked_add (written wr) (length buffer) of
        None \<Rightarrow> Inl (CapacityExceeded ReportBytes)
      | Some next \<Rightarrow>
          if next > writer_limit wr then Inl (LimitExceeded ReportBytes next (writer_limit wr))
          else Inr (length buffer, wr\<lparr>written := next\<rparr>))"

text \<open>\<open>serde_json::to_writer\<close> hands the chunks of the document to the writer, in order.\<close>

primrec write_chunks :: "limit_writer \<Rightarrow> bytes list \<Rightarrow> limit_writer result" where
  "write_chunks wr [] = Inr wr"
| "write_chunks wr (c # cs) = rbind (limit_writer_write wr c) (\<lambda>(_, wr'). write_chunks wr' cs)"

definition measure_report_bytes ::
    "(diff_report \<Rightarrow> bytes list) \<Rightarrow> diff_report \<Rightarrow> verification_limits \<Rightarrow> nat result" where
  "measure_report_bytes json_chunks report limits =
     rbind (write_chunks \<lparr>written = 0, writer_limit = max_report_bytes limits\<rparr> (json_chunks report))
       (\<lambda>writer. Inr (written writer))"

section \<open>Patch inspection\<close>

record edit_scan =
  previous_end :: nat
  removed_bytes :: nat
  decoded_bytes :: nat

definition inspect_edit ::
    "bytes \<Rightarrow> verification_limits \<Rightarrow> nat \<Rightarrow> byte_edit \<Rightarrow> edit_scan \<Rightarrow> edit_scan result" where
  "inspect_edit before limits idx edit s =
     (if old_start edit < previous_end s \<or> old_end edit < old_start edit \<or> old_end edit > length before
      then Inl (PatchFailure (InvalidEditRange idx))
      else
        rbind (checked_add RemovedPatchBytes (removed_bytes s) (old_end edit - old_start edit)) (\<lambda>removed.
        rbind (case canonical_base64_decoded_len (replacement_base64 edit) of
                 Inl _ \<Rightarrow> Inl (PatchFailure (InvalidReplacement idx)) | Inr n \<Rightarrow> Inr n) (\<lambda>decoded.
        rbind (checked_add DecodedReplacementBytes (decoded_bytes s) decoded) (\<lambda>total.
        rbind (check_limit DecodedReplacementBytes total (max_decoded_replacement_bytes limits)) (\<lambda>_.
        Inr \<lparr>previous_end = old_end edit, removed_bytes = removed, decoded_bytes = total\<rparr>)))))"

fun inspect_edits ::
    "bytes \<Rightarrow> verification_limits \<Rightarrow> nat \<Rightarrow> byte_edit list \<Rightarrow> edit_scan \<Rightarrow> edit_scan result" where
  "inspect_edits before limits idx [] s = Inr s"
| "inspect_edits before limits idx (edit # es) s =
     rbind (inspect_edit before limits idx edit s) (\<lambda>s'. inspect_edits before limits (Suc idx) es s')"

definition inspect_patch :: "bytes \<Rightarrow> lossless_patch \<Rightarrow> verification_limits \<Rightarrow> patch_stats result" where
  "inspect_patch before p limits =
     (if algorithm p \<noteq> PATCH_ALGORITHM then Inl (PatchFailure UnsupportedPatchAlgorithm)
      else
        rbind (check_limit PatchEditCount (length (edits p)) (max_patch_edits limits)) (\<lambda>_.
        rbind (inspect_edits before limits 0 (edits p)
                 \<lparr>previous_end = 0, removed_bytes = 0, decoded_bytes = 0\<rparr>) (\<lambda>s.
        rbind (of_option (PatchFailure RemovedExceedsSource)
                 (usize_checked_sub (length before) (removed_bytes s))) (\<lambda>preserved.
        rbind (checked_add ReplayedOutputBytes preserved (decoded_bytes s)) (\<lambda>replayed.
        rbind (check_limit ReplayedOutputBytes replayed (max_source_bytes limits)) (\<lambda>_.
        Inr \<lparr>ps_decoded_replacement_bytes = decoded_bytes s, ps_replayed_bytes = replayed\<rparr>))))))"

section \<open>Preflight of a typed report\<close>

fun count_ambiguities :: "ambiguity_group list \<Rightarrow> nat \<Rightarrow> nat \<Rightarrow> (nat \<times> nat) result" where
  "count_ambiguities [] endpoints pairs = Inr (endpoints, pairs)"
| "count_ambiguities (g # gs) endpoints pairs =
     rbind (checked_add AmbiguityEndpointCount endpoints (length (group_before g))) (\<lambda>e1.
     rbind (checked_add AmbiguityEndpointCount e1 (length (group_after g))) (\<lambda>e2.
     rbind (case constraint g of
              ExactOrderedAlignment _ _ possible_pairs \<Rightarrow>
                checked_add AmbiguityPairCount pairs (length possible_pairs)
            | SymbolicAbstention _ _ \<Rightarrow> Inr pairs) (\<lambda>p.
     count_ambiguities gs e2 p)))"

definition preflight_report ::
    "diff_report \<Rightarrow> nat \<Rightarrow> bytes \<Rightarrow> bytes \<Rightarrow> verification_limits \<Rightarrow> verification_stats result" where
  "preflight_report report report_bytes before after limits =
     rbind (check_limit ReportBytes report_bytes (max_report_bytes limits)) (\<lambda>_.
     rbind (check_limit BeforeSourceBytes (length before) (max_source_bytes limits)) (\<lambda>_.
     rbind (check_limit AfterSourceBytes (length after) (max_source_bytes limits)) (\<lambda>_.
     rbind (check_limit RelationCount (length (relations report)) (max_relations limits)) (\<lambda>_.
     rbind (check_limit AmbiguityGroupCount (length (ambiguities report)) (max_ambiguity_groups limits)) (\<lambda>_.
     rbind (check_limit ChangeCount (length (changes report)) (max_changes limits)) (\<lambda>_.
     rbind (count_ambiguities (ambiguities report) 0 0) (\<lambda>(endpoints, pairs).
     rbind (check_limit AmbiguityEndpointCount endpoints (max_ambiguity_endpoints limits)) (\<lambda>_.
     rbind (check_limit AmbiguityPairCount pairs (max_ambiguity_pairs limits)) (\<lambda>_.
     rbind (inspect_patch before (patch report) limits) (\<lambda>pstats.
     rbind (checked_add SyntaxNodeCount (before_nodes (parser report)) (after_nodes (parser report))) (\<lambda>nodes.
     rbind (check_limit SyntaxNodeCount nodes (max_syntax_nodes limits)) (\<lambda>_.
     Inr \<lparr>st_report_bytes = report_bytes,
          st_before_source_bytes = length before,
          st_after_source_bytes = length after,
          st_relations = length (relations report),
          st_ambiguity_groups = length (ambiguities report),
          st_ambiguity_endpoints = endpoints,
          st_ambiguity_pairs = pairs,
          st_changes = length (changes report),
          st_patch_edits = length (edits (patch report)),
          st_decoded_replacement_bytes = ps_decoded_replacement_bytes pstats,
          st_syntax_nodes = nodes,
          st_verification_work = 0\<rparr>))))))))))))"

section \<open>What the inspection accepts\<close>

text \<open>Ordered, non-overlapping, in range: the edits from position \<open>prev\<close> on.\<close>

fun edits_in_order :: "nat \<Rightarrow> nat \<Rightarrow> byte_edit list \<Rightarrow> bool" where
  "edits_in_order prev len [] = True"
| "edits_in_order prev len (e # es) =
     (prev \<le> old_start e \<and> old_start e \<le> old_end e \<and> old_end e \<le> len \<and>
      edits_in_order (old_end e) len es)"

definition removed_total :: "byte_edit list \<Rightarrow> nat" where
  "removed_total es = (\<Sum>e\<leftarrow>es. old_end e - old_start e)"

lemma removed_total_simps [simp]:
  "removed_total [] = 0" "removed_total (e # es) = old_end e - old_start e + removed_total es"
  by (simp_all add: removed_total_def)

lemma edits_in_order_removed:
  "edits_in_order prev len es \<Longrightarrow> prev \<le> len \<Longrightarrow> removed_total es \<le> len - prev"
  by (induction prev len es rule: edits_in_order.induct) fastforce+

definition machine_sized :: "byte_edit list \<Rightarrow> bool" where
  "machine_sized es \<longleftrightarrow> (\<forall>e\<in>set es. length (replacement_base64 e) \<le> usize_max)"

lemma inspect_edit_Inr:
  "inspect_edit before limits i e s = Inr s' \<longleftrightarrow>
     previous_end s \<le> old_start e \<and> old_start e \<le> old_end e \<and> old_end e \<le> length before \<and>
     (\<exists>n. canonical_base64_decoded_len (replacement_base64 e) = Inr n \<and>
       s' = \<lparr>previous_end = old_end e, removed_bytes = removed_bytes s + (old_end e - old_start e),
             decoded_bytes = decoded_bytes s + n\<rparr> \<and>
       removed_bytes s' \<le> usize_max \<and> decoded_bytes s' \<le> usize_max \<and>
       decoded_bytes s' \<le> max_decoded_replacement_bytes limits)"
  by (cases "canonical_base64_decoded_len (replacement_base64 e)")
    (auto simp: inspect_edit_def rbind_Inr_iff)

text \<open>The octets an edit puts in, and edit lists all of whose replacements decode.\<close>

definition replacement :: "(string \<Rightarrow> bytes option) \<Rightarrow> byte_edit \<Rightarrow> bytes" where
  "replacement decode e = the (decode (replacement_base64 e))"

definition decodable :: "(string \<Rightarrow> bytes option) \<Rightarrow> byte_edit list \<Rightarrow> bool" where
  "decodable decode es \<longleftrightarrow> (\<forall>e\<in>set es. decode (replacement_base64 e) \<noteq> None)"

context base64_standard
begin

lemma inspect_edits_Inr:
  assumes "inspect_edits before limits i es s = Inr s'" "machine_sized es"
  shows "edits_in_order (previous_end s) (length before) es \<and> decodable decode es \<and>
    removed_bytes s' = removed_bytes s + removed_total es \<and>
    decoded_bytes s' = decoded_bytes s + (\<Sum>e\<leftarrow>es. length (replacement decode e)) \<and>
    (decoded_bytes s \<le> max_decoded_replacement_bytes limits \<longrightarrow>
     decoded_bytes s' \<le> max_decoded_replacement_bytes limits)"
  using assms
proof (induction es arbitrary: i s)
  case (Cons e es)
  from Cons.prems(1) obtain t where t: "inspect_edit before limits i e s = Inr t"
    "inspect_edits before limits (Suc i) es t = Inr s'" by (auto simp: rbind_Inr_iff)
  from t(1) obtain n where n: "canonical_base64_decoded_len (replacement_base64 e) = Inr n"
    and ts: "t = \<lparr>previous_end = old_end e, removed_bytes = removed_bytes s + (old_end e - old_start e),
             decoded_bytes = decoded_bytes s + n\<rparr>" "decoded_bytes t \<le> max_decoded_replacement_bytes limits"
    and ord: "previous_end s \<le> old_start e" "old_start e \<le> old_end e" "old_end e \<le> length before"
    by (auto simp: inspect_edit_Inr)
  from Cons.prems(2) have "length (replacement_base64 e) \<le> usize_max" "machine_sized es"
    by (auto simp: machine_sized_def)
  with n obtain bs where bs: "decode (replacement_base64 e) = Some bs" "length bs = n"
    using canonical_len_decodes by blast
  from Cons.IH [OF t(2) \<open>machine_sized es\<close>] ts bs ord show ?case
    by (simp add: decodable_def replacement_def)
qed (auto simp: decodable_def)

text \<open>Conversely, an ordered edit list with canonical replacements inside the limits is accepted.\<close>

lemma inspect_edits_complete:
  assumes "edits_in_order (previous_end s) (length before) es"
    and "\<forall>e\<in>set es. \<exists>bs. replacement_base64 e = encode bs" "machine_sized es"
    and "removed_bytes s + removed_total es \<le> usize_max"
    and "decoded_bytes s + (\<Sum>e\<leftarrow>es. length (replacement decode e)) \<le> max_decoded_replacement_bytes limits"
    and "decoded_bytes s + (\<Sum>e\<leftarrow>es. length (replacement decode e)) \<le> usize_max"
  shows "\<exists>s'. inspect_edits before limits i es s = Inr s'"
  using assms
proof (induction es arbitrary: i s)
  case (Cons e es)
  from Cons.prems(2) obtain bs where bs: "replacement_base64 e = encode bs" by auto
  moreover have "length (encode bs) \<le> usize_max" using Cons.prems(3) bs by (auto simp: machine_sized_def)
  ultimately have n: "canonical_base64_decoded_len (replacement_base64 e) = Inr (length bs)"
    "replacement decode e = bs"
    by (simp_all add: canonical_len_encode replacement_def decode_encode)
  let ?t = "\<lparr>previous_end = old_end e, removed_bytes = removed_bytes s + (old_end e - old_start e),
             decoded_bytes = decoded_bytes s + length bs\<rparr>"
  have t: "inspect_edit before limits i e s = Inr ?t"
    unfolding inspect_edit_Inr using Cons.prems n by auto
  have "machine_sized es" using Cons.prems(3) by (simp add: machine_sized_def)
  then have "\<exists>s'. inspect_edits before limits (Suc i) es ?t = Inr s'"
    using Cons.prems n by (intro Cons.IH) auto
  then show ?case using t by simp
qed auto

end

lemma inspect_edits_not_crash: "inspect_edits before limits i es s = Inl e \<Longrightarrow> \<not> crash e"
proof (induction es arbitrary: i s)
  case (Cons x es)
  show ?case
  proof (cases "inspect_edit before limits i x s")
    case (Inl e')
    then have "\<not> crash e'"
      by (auto simp: inspect_edit_def rbind_def dest: checked_add_not_crash check_limit_not_crash
          split: if_splits sum.splits)
    then show ?thesis using Cons.prems Inl by simp
  qed (use Cons in auto)
qed simp

lemma inspect_patch_not_crash: "inspect_patch before p limits = Inl e \<Longrightarrow> \<not> crash e"
  by (auto simp: inspect_patch_def rbind_def usize_checked_sub_def
      dest: checked_add_not_crash check_limit_not_crash inspect_edits_not_crash
      split: if_splits sum.splits)

lemma count_ambiguities_Inr:
  "count_ambiguities gs a b = Inr (x, y) \<Longrightarrow>
     x = a + (\<Sum>g\<leftarrow>gs. length (group_before g) + length (group_after g)) \<and>
     y = b + (\<Sum>g\<leftarrow>gs. case constraint g of ExactOrderedAlignment _ _ ps \<Rightarrow> length ps | _ \<Rightarrow> 0)"
  by (induction gs arbitrary: a b)
    (force simp: rbind_Inr_iff split: ambiguity_constraint.splits)+

lemma count_ambiguities_not_crash: "count_ambiguities gs a b = Inl e \<Longrightarrow> \<not> crash e"
  by (induction gs arbitrary: a b)
    (auto simp: rbind_def dest: checked_add_not_crash split: sum.splits ambiguity_constraint.splits)

lemma preflight_report_not_crash:
  "preflight_report report n before after limits = Inl e \<Longrightarrow> \<not> crash e"
  unfolding preflight_report_def rbind_def
  by (auto dest: checked_add_not_crash check_limit_not_crash inspect_patch_not_crash
      count_ambiguities_not_crash split: sum.splits prod.splits)

section \<open>Measured size\<close>

lemma write_chunks_Inr:
  "writer_limit wr \<le> usize_max \<Longrightarrow> written wr \<le> writer_limit wr \<Longrightarrow>
   write_chunks wr cs = Inr wr' \<longleftrightarrow>
     wr' = wr\<lparr>written := written wr + length (concat cs)\<rparr> \<and>
     written wr + length (concat cs) \<le> writer_limit wr"
proof (induction cs arbitrary: wr)
  case (Cons c cs)
  show ?case
  proof (cases "written wr + length c \<le> writer_limit wr")
    case True
    then have "limit_writer_write wr c = Inr (length c, wr\<lparr>written := written wr + length c\<rparr>)"
      using Cons.prems by (simp add: limit_writer_write_def usize_checked_add_def)
    then show ?thesis using Cons True by (simp add: add.assoc)
  next
    case False
    then show ?thesis
      by (auto simp: limit_writer_write_def usize_checked_add_def split: option.splits)
  qed
qed auto

end
