(* ===== verification/Patch_Replay.thy ===== *)
theory Patch_Replay
  imports Verification_Limits
begin

text \<open>
  Replay of a lossless patch (\<open>crates/stratadiff-verifier/src/patch.rs\<close>): a cursor walks the
  before bytes once, copying what the edits keep and decoding what they put in. The reference
  is the plain meaning of an edit list, substitution in place from the last edit to the first
  (\<open>apply_in_place\<close>), which needs no cursor. The allocation \<open>try_reserve_exact\<close> is assumed to
  succeed; its size computation is modelled.
\<close>

section \<open>The replay loop\<close>

fun replay_edits ::
    "(string \<Rightarrow> bytes option) \<Rightarrow> bytes \<Rightarrow> verification_limits \<Rightarrow> nat \<Rightarrow> byte_edit list \<Rightarrow>
     nat \<Rightarrow> bytes \<Rightarrow> (nat \<times> bytes) result" where
  "replay_edits decode before limits idx [] cursor output = Inr (cursor, output)"
| "replay_edits decode before limits idx (edit # es) cursor output =
     rbind (slice before cursor (old_start edit)) (\<lambda>kept.
     let output1 = output @ kept; start = length output1 in
     rbind (of_option (PatchFailure (UndecodableReplacement idx)) (decode (replacement_base64 edit)))
       (\<lambda>octets.
     let output2 = output1 @ octets in
     rbind (of_option (PatchFailure DecodedLengthUnderflow)
             (usize_checked_sub (length output2) start)) (\<lambda>decoded.
     rbind (rensure (decoded \<le> max_decoded_replacement_bytes limits)
             (PatchFailure (DecodedReplacementLimit idx))) (\<lambda>_.
     replay_edits decode before limits (Suc idx) es (old_end edit) output2))))"

definition replay_patch_with_limits ::
    "(string \<Rightarrow> bytes option) \<Rightarrow> bytes \<Rightarrow> lossless_patch \<Rightarrow> verification_limits \<Rightarrow> bytes result" where
  "replay_patch_with_limits decode before p limits =
     (if length before > max_source_bytes limits
      then Inl (LimitExceeded BeforeSourceBytes (length before) (max_source_bytes limits))
      else
        rbind (inspect_patch before p limits) (\<lambda>stats.
        rbind (of_option (CapacityExceeded ReplayedOutputBytes)
                 (usize_checked_add (ps_replayed_bytes stats) 2)) (\<lambda>_.
        rbind (replay_edits decode before limits 0 (edits p) 0 []) (\<lambda>(cursor, output).
        rbind (slice before cursor (length before)) (\<lambda>rest.
        let output' = output @ rest in
        rbind (rensure (length output' = ps_replayed_bytes stats) (PatchFailure ReplayLengthDiffers)) (\<lambda>_.
        Inr output'))))))"

definition apply_patch ::
    "(string \<Rightarrow> bytes option) \<Rightarrow> bytes \<Rightarrow> lossless_patch \<Rightarrow> bytes result" where
  "apply_patch decode before p = replay_patch_with_limits decode before p verification_limits_default"

section \<open>The meaning of an edit list\<close>

definition apply_in_place :: "(string \<Rightarrow> bytes option) \<Rightarrow> byte_edit \<Rightarrow> bytes \<Rightarrow> bytes" where
  "apply_in_place decode e bs =
     take (old_start e) bs @ replacement decode e @ drop (old_end e) bs"

definition apply_edits :: "(string \<Rightarrow> bytes option) \<Rightarrow> byte_edit list \<Rightarrow> bytes \<Rightarrow> bytes" where
  "apply_edits decode es bs = foldr (apply_in_place decode) es bs"

lemma apply_edits_simps [simp]:
  "apply_edits decode [] bs = bs"
  "apply_edits decode (e # es) bs = apply_in_place decode e (apply_edits decode es bs)"
  by (simp_all add: apply_edits_def)

text \<open>Edits from position \<open>c\<close> on leave everything before \<open>c\<close> alone.\<close>

lemma apply_edits_prefix:
  "edits_in_order c (length bs) es \<Longrightarrow> c \<le> length bs \<Longrightarrow>
   take c (apply_edits decode es bs) = take c bs \<and> c \<le> length (apply_edits decode es bs)"
proof (induction es arbitrary: c)
  case (Cons e es)
  then have "take (old_end e) (apply_edits decode es bs) = take (old_end e) bs"
    and "old_end e \<le> length (apply_edits decode es bs)" by auto
  then have "take (old_start e) (apply_edits decode es bs) = take (old_start e) bs"
    by (metis Cons.prems(1) edits_in_order.simps(2) min_def take_take)
  then show ?case
    using Cons.prems \<open>old_end e \<le> length (apply_edits decode es bs)\<close>
    by (auto simp: apply_in_place_def take_append min_def)
qed auto

lemma length_apply_edits:
  "edits_in_order c (length bs) es \<Longrightarrow> c \<le> length bs \<Longrightarrow>
   length (apply_edits decode es bs) + removed_total es
     = length bs + (\<Sum>e\<leftarrow>es. length (replacement decode e))"
proof (induction es arbitrary: c)
  case (Cons e es)
  then have IH: "length (apply_edits decode es bs) + removed_total es
     = length bs + (\<Sum>e\<leftarrow>es. length (replacement decode e))" by auto
  have "old_end e \<le> length (apply_edits decode es bs)"
    using apply_edits_prefix [of "old_end e" bs es] Cons.prems by auto
  with IH Cons.prems show ?case by (simp add: apply_in_place_def)
qed auto

text \<open>The cursor replay computes the in-place result.\<close>

lemma replay_edits_apply:
  assumes "edits_in_order cursor (length bs) es" "cursor \<le> length bs" "decodable decode es"
    and "\<forall>e\<in>set es. length (replacement decode e) \<le> max_decoded_replacement_bytes limits"
  shows "\<exists>c out'. replay_edits decode bs limits i es cursor out = Inr (c, out') \<and> c \<le> length bs \<and>
    out' @ drop c bs = out @ drop cursor (apply_edits decode es bs)"
  using assms
proof (induction es arbitrary: cursor out i)
  case (Cons e es)
  from Cons.prems have ord: "cursor \<le> old_start e" "old_start e \<le> old_end e" "old_end e \<le> length bs"
    "edits_in_order (old_end e) (length bs) es" by auto
  from Cons.prems(3) obtain r where r: "decode (replacement_base64 e) = Some r"
    by (auto simp: decodable_def)
  then have re: "replacement decode e = r" by (simp add: replacement_def)
  let ?kept = "take (old_start e - cursor) (drop cursor bs)"
  let ?F = "apply_edits decode es bs"
  obtain c out' where IH: "replay_edits decode bs limits (Suc i) es (old_end e) (out @ ?kept @ r) = Inr (c, out')"
    "c \<le> length bs" "out' @ drop c bs = (out @ ?kept @ r) @ drop (old_end e) ?F"
    using Cons.IH [OF ord(4,3), where out = "out @ ?kept @ r" and i = "Suc i"] Cons.prems
    by (auto simp: decodable_def)
  have pre: "take (old_end e) ?F = take (old_end e) bs" "old_end e \<le> length ?F"
    using apply_edits_prefix [OF ord(4,3), of decode] by auto
  have "take (old_start e) ?F = take (old_start e) bs"
    using pre ord by (metis min.absorb1 take_take)
  then have "drop cursor (apply_edits decode (e # es) bs) = ?kept @ r @ drop (old_end e) ?F"
    using ord pre by (simp add: apply_in_place_def re drop_take)
  then show ?case
    using IH r re ord Cons.prems(4) by (simp add: Let_def usize_checked_sub_def rensure_def)
qed auto

text \<open>A patch that may be replayed: the known algorithm, edits in order inside the source, replacements that are canonical base64, and
  every size within its limit: the source, the number of edits, all replacements together, and the result.\<close>

definition replayable :: "(string \<Rightarrow> bytes option) \<Rightarrow> bytes \<Rightarrow> lossless_patch \<Rightarrow> verification_limits \<Rightarrow> bool" where
  "replayable decode before p limits \<longleftrightarrow>
     length before \<le> max_source_bytes limits \<and> algorithm p = PATCH_ALGORITHM \<and>
     length (edits p) \<le> max_patch_edits limits \<and> edits_in_order 0 (length before) (edits p) \<and> decodable decode (edits p) \<and>
     (\<Sum>e\<leftarrow>edits p. length (replacement decode e)) \<le> max_decoded_replacement_bytes limits \<and>
     length (apply_edits decode (edits p) before) \<le> max_source_bytes limits"

context base64_standard
begin

lemma inspect_patch_Inr:
  assumes "inspect_patch before p limits = Inr stats" "machine_sized (edits p)"
  shows "algorithm p = PATCH_ALGORITHM \<and> length (edits p) \<le> max_patch_edits limits \<and>
    edits_in_order 0 (length before) (edits p) \<and> decodable decode (edits p) \<and>
    ps_decoded_replacement_bytes stats = (\<Sum>e\<leftarrow>edits p. length (replacement decode e)) \<and>
    ps_decoded_replacement_bytes stats \<le> max_decoded_replacement_bytes limits \<and>
    ps_replayed_bytes stats = length (apply_edits decode (edits p) before) \<and>
    ps_replayed_bytes stats \<le> max_source_bytes limits"
proof -
  from assms(1) obtain s where s: "inspect_edits before limits 0 (edits p)
      \<lparr>previous_end = 0, removed_bytes = 0, decoded_bytes = 0\<rparr> = Inr s"
    and st: "stats = \<lparr>ps_decoded_replacement_bytes = decoded_bytes s,
               ps_replayed_bytes = length before - removed_bytes s + decoded_bytes s\<rparr>"
      "length before - removed_bytes s + decoded_bytes s \<le> max_source_bytes limits"
    and p: "algorithm p = PATCH_ALGORITHM" "length (edits p) \<le> max_patch_edits limits"
    by (auto simp: inspect_patch_def rbind_Inr_iff usize_checked_sub_def split: if_splits)
  from inspect_edits_Inr [OF s assms(2)]
  have e: "edits_in_order 0 (length before) (edits p)" "decodable decode (edits p)"
    "removed_bytes s = removed_total (edits p)"
    "decoded_bytes s = (\<Sum>e\<leftarrow>edits p. length (replacement decode e))"
    "decoded_bytes s \<le> max_decoded_replacement_bytes limits" by auto
  have "removed_total (edits p) \<le> length before"
    using edits_in_order_removed [OF e(1)] by simp
  then show ?thesis
    using length_apply_edits [OF e(1), of decode] e p st by auto
qed

lemma inspect_patch_complete:
  assumes p: "replayable decode before p limits" and sized: "machine_sized (edits p)" and cap: "max_source_bytes limits \<le> usize_max"
  shows "\<exists>stats. inspect_patch before p limits = Inr stats"
proof -
  let ?s0 = "\<lparr>previous_end = 0, removed_bytes = 0, decoded_bytes = 0\<rparr>"
  have ord: "edits_in_order 0 (length before) (edits p)" and dec: "decodable decode (edits p)"
    using p by (simp_all add: replayable_def)
  have removed: "removed_total (edits p) \<le> length before" using edits_in_order_removed [OF ord] by simp
  have len: "length (apply_edits decode (edits p) before) + removed_total (edits p) =
      length before + (\<Sum>e\<leftarrow>edits p. length (replacement decode e))"
    using length_apply_edits [OF ord] by simp
  have small: "(\<Sum>e\<leftarrow>edits p. length (replacement decode e)) \<le> usize_max" "removed_total (edits p) \<le> usize_max"
    using p cap removed len by (simp_all add: replayable_def)
  have canonical: "\<forall>e\<in>set (edits p). \<exists>bs. replacement_base64 e = encode bs"
    using dec decode_canonical by (auto simp: decodable_def)
  obtain s where s: "inspect_edits before limits 0 (edits p) ?s0 = Inr s"
    using inspect_edits_complete [of ?s0 before "edits p" limits 0] ord canonical sized small p by (auto simp: replayable_def)
  note sum = inspect_edits_Inr [OF s sized]
  have "length before - removed_bytes s + decoded_bytes s = length (apply_edits decode (edits p) before)"
    using sum len removed by simp
  then show ?thesis
    using s sum removed p cap
    by (auto simp: inspect_patch_def replayable_def check_limit_def checked_add_def usize_checked_add_def usize_checked_sub_def)
qed

lemma replay_patch_eq:
  assumes "machine_sized (edits p)" "max_source_bytes limits + 2 \<le> usize_max"
  shows "replay_patch_with_limits decode before p limits =
    (if length before > max_source_bytes limits
     then Inl (LimitExceeded BeforeSourceBytes (length before) (max_source_bytes limits))
     else case inspect_patch before p limits of
         Inl e \<Rightarrow> Inl e
       | Inr _ \<Rightarrow> Inr (apply_edits decode (edits p) before))"
proof (cases "inspect_patch before p limits")
  case (Inl e)
  then show ?thesis by (simp add: replay_patch_with_limits_def)
next
  case (Inr stats)
  note i = inspect_patch_Inr [OF Inr assms(1)]
  have small: "\<forall>e\<in>set (edits p). length (replacement decode e) \<le> max_decoded_replacement_bytes limits"
  proof
    fix e assume "e \<in> set (edits p)"
    then have "length (replacement decode e) \<le> (\<Sum>e\<leftarrow>edits p. length (replacement decode e))"
      by (intro member_le_sum_list) auto
    then show "length (replacement decode e) \<le> max_decoded_replacement_bytes limits" using i by simp
  qed
  obtain c out where r: "replay_edits decode before limits 0 (edits p) 0 [] = Inr (c, out)" "c \<le> length before"
    "out @ drop c before = apply_edits decode (edits p) before"
    using replay_edits_apply [of 0 before "edits p" decode limits 0 "[]"] i small by auto
  have "length (out @ drop c before) = ps_replayed_bytes stats" using r(3) i by simp
  then have "length out + length before - c = ps_replayed_bytes stats" using r(2) by simp
  with r i assms(2) Inr show ?thesis
    by (simp add: replay_patch_with_limits_def usize_checked_add_def rensure_def)
qed

lemma replay_patch_iff:
  assumes "machine_sized (edits p)" "max_source_bytes limits + 2 \<le> usize_max"
  shows "replay_patch_with_limits decode before p limits = Inr after \<longleftrightarrow>
    replayable decode before p limits \<and> after = apply_edits decode (edits p) before"
proof
  assume "replay_patch_with_limits decode before p limits = Inr after"
  then obtain stats where "length before \<le> max_source_bytes limits" "inspect_patch before p limits = Inr stats"
    "after = apply_edits decode (edits p) before"
    unfolding replay_patch_eq [OF assms] by (auto split: if_splits sum.splits)
  then show "replayable decode before p limits \<and> after = apply_edits decode (edits p) before"
    using inspect_patch_Inr [of before p limits stats, OF _ assms(1)] by (auto simp: replayable_def)
next
  assume *: "replayable decode before p limits \<and> after = apply_edits decode (edits p) before"
  then obtain stats where "inspect_patch before p limits = Inr stats"
    using inspect_patch_complete assms by fastforce
  then show "replay_patch_with_limits decode before p limits = Inr after"
    using * unfolding replay_patch_eq [OF assms] by (auto simp: replayable_def)
qed

end

section \<open>Properties\<close>

text \<open>C13: a patch is replayed exactly when it may be, and to exactly what it means. Replay returns bytes if and only if the source is within its
  limit, the algorithm is the known one, the edits are within their number, in order, disjoint and inside the source,
  every replacement is canonical base64, and both all replacements together and the result are within their limits; the bytes
  are then those of substituting the edits in place from the last to the first. Otherwise the error is the one of the source
  limit or of the inspection: no cursor slice is out of range, no replacement undecodable and no announced length missed.\<close>

theorem replay_exact:
  assumes "base64_standard encode decode" "machine_sized (edits p)"
    and "max_source_bytes limits + 2 \<le> usize_max"
  shows "(replay_patch_with_limits decode before p limits = Inr after \<longleftrightarrow>
      replayable decode before p limits \<and> after = apply_edits decode (edits p) before) \<and>
    replay_patch_with_limits decode before p limits =
    (if length before > max_source_bytes limits
     then Inl (LimitExceeded BeforeSourceBytes (length before) (max_source_bytes limits))
     else case inspect_patch before p limits of
         Inl e \<Rightarrow> Inl e
       | Inr _ \<Rightarrow> Inr (apply_edits decode (edits p) before))"
  using base64_standard.replay_patch_iff [OF assms] base64_standard.replay_patch_eq [OF assms] by blast

definition sample_patch :: lossless_patch where
  "sample_patch = \<lparr>algorithm = PATCH_ALGORITHM, edits =
     [\<lparr>old_start = 0, old_end = 1, replacement_base64 = ''eQ==''\<rparr>,
      \<lparr>old_start = 2, old_end = 2, replacement_base64 = ''YWJj''\<rparr>]\<rparr>"

lemma sample_patch_sized: "machine_sized (edits sample_patch)"
  by (simp add: machine_sized_def sample_patch_def usize_max_def)

theorem replay_exact_witness:
  "replay_patch_with_limits rfc4648_decode [1, 2, 3] sample_patch verification_limits_default
     = Inr [121, 2, 97, 98, 99, 3] \<and>
   (\<nexists>after. replay_patch_with_limits rfc4648_decode [1, 2, 3] sample_patch
      (verification_limits_default\<lparr>max_decoded_replacement_bytes := 3\<rparr>) = Inr after)"
proof -
  let ?small = "verification_limits_default\<lparr>max_decoded_replacement_bytes := 3\<rparr>"
  have room: "max_source_bytes verification_limits_default + 2 \<le> usize_max" "max_source_bytes ?small + 2 \<le> usize_max"
    by (simp_all add: verification_limits_default_def usize_max_def)
  have result: "apply_edits rfc4648_decode (edits sample_patch) [1, 2, 3] = [121, 2, 97, 98, 99, 3]"
    and puts: "(\<Sum>e\<leftarrow>edits sample_patch. length (replacement rfc4648_decode e)) = 4"
    and decodes: "list_all (\<lambda>e. rfc4648_decode (replacement_base64 e) \<noteq> None) (edits sample_patch)"
    by code_simp+
  have "decodable rfc4648_decode (edits sample_patch)" using decodes by (simp add: decodable_def list_all_iff)
  moreover have "edits_in_order 0 (length [1 :: u8, 2, 3]) (edits sample_patch)" "length (edits sample_patch) = 2" "algorithm sample_patch = PATCH_ALGORITHM"
    by (simp_all add: sample_patch_def)
  ultimately have "replayable rfc4648_decode [1, 2, 3] sample_patch verification_limits_default"
    using result puts by (simp add: replayable_def verification_limits_default_def)
  moreover have "\<not> replayable rfc4648_decode [1, 2, 3] sample_patch ?small" using puts by (simp add: replayable_def)
  moreover note replay_exact [OF rfc4648.base64_standard_axioms sample_patch_sized room(1), THEN conjunct1]
    replay_exact [OF rfc4648.base64_standard_axioms sample_patch_sized room(2), THEN conjunct1]
  ultimately show ?thesis using result by metis
qed

end
