(* ===== verification/Patch_Create.thy ===== *)
theory Patch_Create
  imports Patch_Replay
begin

text \<open>
  Creation of a lossless patch (\<open>src/patch.rs\<close>): line anchors from a patience diff, refinement of
  each changed region by trimming, a byte diff, a linear scan of equal-length regions or one
  replacement, and the edit budgets that bound all of it. The diff algorithms of the \<open>similar\<close>
  crate and the Base64 encoder are parameters; \<open>diff_script\<close> states what \<open>similar\<close> documents of the
  operations it returns: they cover both sequences from left to right and an equal operation
  spans equal items.
\<close>

section \<open>Budgets and the diff interface\<close>

definition LINE_ANCHOR_BUDGET :: nat where "LINE_ANCHOR_BUDGET = 65536"
definition BYTE_MYERS_BUDGET :: nat where "BYTE_MYERS_BUDGET = 65536"
definition LARGE_REGION_EDIT_BUDGET :: nat where "LARGE_REGION_EDIT_BUDGET = 4096"
definition PATCH_EDIT_BUDGET :: nat where "PATCH_EDIT_BUDGET = 65536"

lemmas patch_budgets =
  LINE_ANCHOR_BUDGET_def BYTE_MYERS_BUDGET_def LARGE_REGION_EDIT_BUDGET_def PATCH_EDIT_BUDGET_def

datatype diff_tag = DiffEqual | DiffDelete | DiffInsert | DiffReplace

record diff_op =
  op_tag :: diff_tag
  op_old :: "nat \<times> nat"
  op_new :: "nat \<times> nat"

type_synonym 'a differ = "'a list \<Rightarrow> 'a list \<Rightarrow> diff_op list"

fun diff_script_from :: "'a list \<Rightarrow> 'a list \<Rightarrow> nat \<Rightarrow> nat \<Rightarrow> diff_op list \<Rightarrow> bool" where
  "diff_script_from xs ys i j [] = (i = length xs \<and> j = length ys)"
| "diff_script_from xs ys i j (op # ops) =
     (case (op_old op, op_new op) of ((a, b), (c, d)) \<Rightarrow>
        a = i \<and> c = j \<and> a \<le> b \<and> c \<le> d \<and> b \<le> length xs \<and> d \<le> length ys \<and>
        (op_tag op = DiffEqual \<longrightarrow> take (b - a) (drop a xs) = take (d - c) (drop c ys)) \<and>
        diff_script_from xs ys b d ops)"

definition diff_script :: "'a differ \<Rightarrow> bool" where
  "diff_script differ \<longleftrightarrow> (\<forall>xs ys. diff_script_from xs ys 0 0 (differ xs ys))"

section \<open>Lines\<close>

text \<open>\<open>split_inclusive(|byte| *byte == b'\n')\<close> of the standard library.\<close>

fun split_inclusive :: "bytes \<Rightarrow> bytes list" where
  "split_inclusive [] = []"
| "split_inclusive (b # bs) =
     (if b = 10 then [b] # split_inclusive bs
      else case split_inclusive bs of [] \<Rightarrow> [[b]] | l # ls \<Rightarrow> (b # l) # ls)"

fun count_line_anchors :: "bytes list \<Rightarrow> nat \<Rightarrow> nat option" where
  "count_line_anchors [] line_anchors = Some line_anchors"
| "count_line_anchors (l # ls) line_anchors =
     (if line_anchors = LINE_ANCHOR_BUDGET then None else count_line_anchors ls (line_anchors + 1))"

definition line_anchor_budget_exceeded :: "bytes \<Rightarrow> bytes \<Rightarrow> bool" where
  "line_anchor_budget_exceeded before after =
     (case count_line_anchors (split_inclusive before) 0 of
        None \<Rightarrow> True
      | Some n \<Rightarrow> (case count_line_anchors (split_inclusive after) n of None \<Rightarrow> True | Some _ \<Rightarrow> False))"

fun line_offsets_from :: "nat \<Rightarrow> bytes list \<Rightarrow> nat list" where
  "line_offsets_from base [] = []"
| "line_offsets_from base (l # ls) = (base + length l) # line_offsets_from (base + length l) ls"

definition line_offsets :: "bytes list \<Rightarrow> nat list" where
  "line_offsets ls = 0 # line_offsets_from 0 ls"

section \<open>Refinement of a changed region\<close>

definition common_prefix :: "bytes \<Rightarrow> bytes \<Rightarrow> nat" where
  "common_prefix xs ys = length (takeWhile (\<lambda>(l, r). l = r) (zip xs ys))"

text \<open>\<open>while cursor < old.len() && same(old[cursor], new[cursor]) { cursor += 1 }\<close>\<close>

function advance :: "(u8 \<Rightarrow> u8 \<Rightarrow> bool) \<Rightarrow> bytes \<Rightarrow> bytes \<Rightarrow> nat \<Rightarrow> nat result" where
  "advance same old new cursor =
     (if cursor < length old then
        rbind (index_at new cursor) (\<lambda>n.
          if same (old ! cursor) n then advance same old new (Suc cursor) else Inr cursor)
      else Inr cursor)"
  by pat_completeness auto
termination
  by (relation "measure (\<lambda>(same, old, new, cursor). length old - cursor)") auto

declare advance.simps [simp del]

lemma advance_bounds:
  "advance same old new cursor = Inr c \<Longrightarrow> cursor \<le> length old \<Longrightarrow> cursor \<le> c \<and> c \<le> length old"
proof (induction same old new cursor rule: advance.induct)
  case (1 same old new cursor)
  then show ?case
    by (subst (asm) advance.simps [of same old new cursor])
      (force simp: rbind_Inr_iff index_at_Inr split: if_splits)
qed

lemma advance_strict:
  assumes "advance same old new cursor = Inr c" "cursor < length old" "same (old ! cursor) (new ! cursor)"
  shows "cursor < c"
  using assms advance_bounds [of same old new "Suc cursor" c]
  by (subst (asm) advance.simps [of same old new cursor])
    (auto simp: rbind_Inr_iff index_at_Inr)

lemma advance_stop:
  "advance same old new cursor = Inr c \<Longrightarrow> cursor \<le> length old \<Longrightarrow> c \<noteq> length old \<Longrightarrow>
   c < length old \<and> \<not> same (old ! c) (new ! c)"
proof (induction same old new cursor rule: advance.induct)
  case (1 same old new cursor)
  then show ?case
    by (subst (asm) advance.simps [of same old new cursor])
      (force simp: rbind_Inr_iff index_at_Inr split: if_splits)
qed

function refine_scan ::
    "(bytes \<Rightarrow> string) \<Rightarrow> bytes \<Rightarrow> bytes \<Rightarrow> nat \<Rightarrow> nat \<Rightarrow> nat \<Rightarrow> nat \<Rightarrow> byte_edit list \<Rightarrow>
     byte_edit list result" where
  "refine_scan encode old new old_base edit_budget cursor emitted es =
     (if cursor < length old then
        rbind (advance (=) old new cursor) (\<lambda>mismatch_start.
        if mismatch_start = length old then Inr es
        else
          rbind (advance (\<noteq>) old new mismatch_start) (\<lambda>mismatch_end.
          if emitted + 1 = edit_budget then
            rbind (slice new mismatch_start (length new)) (\<lambda>tail.
            Inr (es @ [\<lparr>old_start = old_base + mismatch_start, old_end = old_base + length old,
                         replacement_base64 = encode tail\<rparr>]))
          else
            rbind (slice new mismatch_start mismatch_end) (\<lambda>part.
            refine_scan encode old new old_base edit_budget mismatch_end (emitted + 1)
              (es @ [\<lparr>old_start = old_base + mismatch_start, old_end = old_base + mismatch_end,
                       replacement_base64 = encode part\<rparr>]))))
      else Inr es)"
  by pat_completeness auto
termination
proof (relation "measure (\<lambda>(encode, old, new, base, budget, cursor, emitted, es). length old - cursor)", goal_cases)
  case (2 encode old new old_base edit_budget cursor emitted es c1 c2 part)
  then have "cursor \<le> c1" "c1 < length old" "\<not> old ! c1 = new ! c1"
    using advance_bounds [of "(=)" old new cursor c1] advance_stop [of "(=)" old new cursor c1] by auto
  with advance_strict [of "(\<noteq>)" old new c1 c2] 2 show ?case by auto
qed simp

declare refine_scan.simps [simp del]

definition refine_large_equal_length_region ::
    "(bytes \<Rightarrow> string) \<Rightarrow> bytes \<Rightarrow> bytes \<Rightarrow> nat \<Rightarrow> byte_edit list \<Rightarrow> byte_edit list result" where
  "refine_large_equal_length_region encode old new old_base es =
     rbind (of_option Panic (usize_checked_sub PATCH_EDIT_BUDGET (length es))) (\<lambda>available.
     let edit_budget = min available LARGE_REGION_EDIT_BUDGET in
     if edit_budget = 0 then Inr es
     else refine_scan encode old new old_base edit_budget 0 0 es)"

fun push_byte_operations ::
    "(bytes \<Rightarrow> string) \<Rightarrow> bytes \<Rightarrow> nat \<Rightarrow> diff_op list \<Rightarrow> byte_edit list \<Rightarrow>
     (bool \<times> byte_edit list) result" where
  "push_byte_operations encode trimmed_new old_base [] es = Inr (True, es)"
| "push_byte_operations encode trimmed_new old_base (op # ops) es =
     (if op_tag op = DiffEqual then push_byte_operations encode trimmed_new old_base ops es
      else if length es = PATCH_EDIT_BUDGET then Inr (False, es)
      else
        rbind (slice trimmed_new (fst (op_new op)) (snd (op_new op))) (\<lambda>part.
        push_byte_operations encode trimmed_new old_base ops
          (es @ [\<lparr>old_start = old_base + fst (op_old op), old_end = old_base + snd (op_old op),
                   replacement_base64 = encode part\<rparr>])))"

definition refine_changed_region ::
    "(bytes \<Rightarrow> string) \<Rightarrow> u8 differ \<Rightarrow> bytes \<Rightarrow> bytes \<Rightarrow> nat \<Rightarrow> nat \<Rightarrow> nat \<Rightarrow> nat \<Rightarrow> byte_edit list \<Rightarrow>
     (bool \<times> byte_edit list) result" where
  "refine_changed_region encode myers before after o_start o_end n_start n_end es =
     rbind (slice before o_start o_end) (\<lambda>old.
     rbind (slice after n_start n_end) (\<lambda>new.
     let prefix = common_prefix old new;
         suffix = common_prefix (rev (drop prefix old)) (rev (drop prefix new));
         trimmed_old_start = o_start + prefix;
         trimmed_old_end = o_end - suffix;
         trimmed_new_start = n_start + prefix;
         trimmed_new_end = n_end - suffix in
     rbind (slice before trimmed_old_start trimmed_old_end) (\<lambda>trimmed_old.
     rbind (slice after trimmed_new_start trimmed_new_end) (\<lambda>trimmed_new.
     if usize_saturating_add (length trimmed_old) (length trimmed_new) \<le> BYTE_MYERS_BUDGET then
       push_byte_operations encode trimmed_new trimmed_old_start (myers trimmed_old trimmed_new) es
     else if length trimmed_old = length trimmed_new then
       (if length es = PATCH_EDIT_BUDGET then Inr (False, es)
        else rbind (refine_large_equal_length_region encode trimmed_old trimmed_new trimmed_old_start es)
               (\<lambda>es'. Inr (True, es')))
     else
       (if length es = PATCH_EDIT_BUDGET then Inr (False, es)
        else Inr (True, es @ [\<lparr>old_start = trimmed_old_start, old_end = trimmed_old_end,
                               replacement_base64 = encode trimmed_new\<rparr>]))))))"

section \<open>The patch\<close>

definition patch_with_edits :: "byte_edit list \<Rightarrow> lossless_patch" where
  "patch_with_edits es = \<lparr>algorithm = PATCH_ALGORITHM, edits = es\<rparr>"

definition replacement_patch :: "(bytes \<Rightarrow> string) \<Rightarrow> bytes \<Rightarrow> bytes \<Rightarrow> lossless_patch" where
  "replacement_patch encode before after =
     patch_with_edits
       (if before = after then []
        else [\<lparr>old_start = 0, old_end = length before, replacement_base64 = encode after\<rparr>])"

definition create_byte_refined_patch ::
    "(bytes \<Rightarrow> string) \<Rightarrow> u8 differ \<Rightarrow> bytes \<Rightarrow> bytes \<Rightarrow> lossless_patch result" where
  "create_byte_refined_patch encode myers before after =
     rbind (refine_changed_region encode myers before after 0 (length before) 0 (length after) [])
       (\<lambda>(complete, es).
     Inr (if complete then patch_with_edits es else replacement_patch encode before after))"

fun refine_line_operations ::
    "(bytes \<Rightarrow> string) \<Rightarrow> u8 differ \<Rightarrow> bytes \<Rightarrow> bytes \<Rightarrow> nat list \<Rightarrow> nat list \<Rightarrow> diff_op list \<Rightarrow>
     byte_edit list \<Rightarrow> (bool \<times> byte_edit list) result" where
  "refine_line_operations encode myers before after b_offsets a_offsets [] es = Inr (True, es)"
| "refine_line_operations encode myers before after b_offsets a_offsets (op # ops) es =
     (if op_tag op = DiffEqual
      then refine_line_operations encode myers before after b_offsets a_offsets ops es
      else
        rbind (index_at b_offsets (fst (op_old op))) (\<lambda>o_start.
        rbind (index_at b_offsets (snd (op_old op))) (\<lambda>o_end.
        rbind (index_at a_offsets (fst (op_new op))) (\<lambda>n_start.
        rbind (index_at a_offsets (snd (op_new op))) (\<lambda>n_end.
        rbind (refine_changed_region encode myers before after o_start o_end n_start n_end es)
          (\<lambda>(complete, es').
        if complete
        then refine_line_operations encode myers before after b_offsets a_offsets ops es'
        else Inr (False, es')))))))"

definition create_patch ::
    "(bytes \<Rightarrow> string) \<Rightarrow> bytes differ \<Rightarrow> u8 differ \<Rightarrow> bytes \<Rightarrow> bytes \<Rightarrow> lossless_patch result" where
  "create_patch encode patience myers before after =
     (if line_anchor_budget_exceeded before after
      then create_byte_refined_patch encode myers before after
      else
        (let before_lines = split_inclusive before;
             after_lines = split_inclusive after in
         rbind (refine_line_operations encode myers before after (line_offsets before_lines)
                  (line_offsets after_lines) (patience before_lines after_lines) []) (\<lambda>(complete, es).
         Inr (if complete then patch_with_edits es else replacement_patch encode before after))))"

text \<open>The digests of a certificate; \<open>blake3\<close> is the hash as its hex string.\<close>

definition create_certificate ::
    "(string \<Rightarrow> bytes option) \<Rightarrow> (bytes \<Rightarrow> string) \<Rightarrow> bytes \<Rightarrow> bytes \<Rightarrow> lossless_patch \<Rightarrow>
     verification_limits \<Rightarrow> replay_certificate result" where
  "create_certificate decode blake3 before after p limits =
     rbind (replay_patch_with_limits decode before p limits) (\<lambda>reconstructed.
     if reconstructed \<noteq> after then Inl (PatchFailure PatchDoesNotReconstruct)
     else Inr \<lparr>before_blake3 = blake3 before, after_blake3 = blake3 after,
               reconstructed_blake3 = blake3 reconstructed, before_len = length before,
               after_len = length after, patch_verified = True\<rparr>)"

section \<open>Rewriting a region\<close>

text \<open>The text that edits between positions \<open>a\<close> and \<open>b\<close> put in place of the bytes between them.\<close>

fun region_output :: "(string \<Rightarrow> bytes option) \<Rightarrow> bytes \<Rightarrow> nat \<Rightarrow> nat \<Rightarrow> byte_edit list \<Rightarrow> bytes" where
  "region_output decode bs a b [] = take (b - a) (drop a bs)"
| "region_output decode bs a b (e # es) =
     take (old_start e - a) (drop a bs) @ replacement decode e @ region_output decode bs (old_end e) b es"

lemma edits_in_order_le: "edits_in_order a b es \<Longrightarrow> a \<le> b \<or> es = []"
  by (induction a b es rule: edits_in_order.induct) auto

lemma edits_in_order_mono: "edits_in_order a b es \<Longrightarrow> b \<le> c \<Longrightarrow> edits_in_order a c es"
  by (induction a b es rule: edits_in_order.induct) auto

lemma edits_in_order_start: "edits_in_order a b es \<Longrightarrow> a' \<le> a \<Longrightarrow> edits_in_order a' b es"
  by (cases es) auto

lemma edits_in_order_append:
  "edits_in_order a m es1 \<Longrightarrow> edits_in_order m b es2 \<Longrightarrow> m \<le> b \<Longrightarrow> a \<le> m \<Longrightarrow>
   edits_in_order a b (es1 @ es2)"
  by (induction a m es1 rule: edits_in_order.induct) (auto intro: edits_in_order_start)

lemma region_output_start:
  assumes "edits_in_order m b es" "a \<le> m" "m \<le> b"
  shows "region_output decode bs a b es = take (m - a) (drop a bs) @ region_output decode bs m b es"
proof (cases es)
  case Nil
  then show ?thesis using assms take_drop_join [of a m b bs] by simp
next
  case (Cons e es')
  then show ?thesis using assms take_drop_join [of a m "old_start e" bs] by simp
qed

lemma region_output_append:
  assumes "edits_in_order a m es1" "edits_in_order m b es2" "a \<le> m" "m \<le> b"
  shows "region_output decode bs a b (es1 @ es2)
     = region_output decode bs a m es1 @ region_output decode bs m b es2"
  using assms(1,3)
proof (induction es1 arbitrary: a)
  case Nil
  then show ?case using region_output_start [OF assms(2) Nil(2) assms(4), of decode bs] by simp
next
  case (Cons e es)
  then have "edits_in_order (old_end e) m es" "old_end e \<le> m" by auto
  with Cons.IH show ?case by simp
qed

lemma apply_edits_region:
  "edits_in_order c (length bs) es \<Longrightarrow> c \<le> length bs \<Longrightarrow>
   drop c (apply_edits decode es bs) = region_output decode bs c (length bs) es"
proof (induction es arbitrary: c)
  case (Cons e es)
  then have pre: "take (old_end e) (apply_edits decode es bs) = take (old_end e) bs"
      "old_end e \<le> length (apply_edits decode es bs)"
    and IH: "drop (old_end e) (apply_edits decode es bs) = region_output decode bs (old_end e) (length bs) es"
    using apply_edits_prefix [of "old_end e" bs es decode] by auto
  have "take (old_start e) (apply_edits decode es bs) = take (old_start e) bs"
    using pre Cons.prems by (metis edits_in_order.simps(2) min.absorb1 take_take)
  then show ?case using pre Cons.prems IH by (simp add: apply_in_place_def drop_take)
qed simp

text \<open>
  \<open>rewriting\<close>: the edits lie in \<open>[a, b)\<close> and turn that region of the before bytes into the region
  \<open>[u, v)\<close> of the after bytes. Regions compose.
\<close>

definition rewriting ::
    "(string \<Rightarrow> bytes option) \<Rightarrow> bytes \<Rightarrow> bytes \<Rightarrow> nat \<Rightarrow> nat \<Rightarrow> nat \<Rightarrow> nat \<Rightarrow> byte_edit list \<Rightarrow> bool" where
  "rewriting decode before after a b u v es \<longleftrightarrow>
     a \<le> b \<and> b \<le> length before \<and> u \<le> v \<and> v \<le> length after \<and>
     edits_in_order a b es \<and> region_output decode before a b es = take (v - u) (drop u after)"

lemma rewriting_nil:
  "a \<le> b \<Longrightarrow> b \<le> length before \<Longrightarrow> u \<le> v \<Longrightarrow> v \<le> length after \<Longrightarrow>
   take (b - a) (drop a before) = take (v - u) (drop u after) \<Longrightarrow>
   rewriting decode before after a b u v []"
  by (simp add: rewriting_def)

lemma rewriting_append:
  assumes "rewriting decode before after a m u k es1" "rewriting decode before after m b k v es2"
  shows "rewriting decode before after a b u v (es1 @ es2)"
  using assms edits_in_order_append [of a m es1 b es2] region_output_append [of a m es1 b es2 decode before]
    take_drop_join [of u k v after]
  by (auto simp: rewriting_def)

lemma rewriting_apply:
  assumes "rewriting decode before after 0 (length before) 0 (length after) es"
  shows "apply_edits decode es before = after" "edits_in_order 0 (length before) es"
  using assms apply_edits_region [of 0 before es decode] by (auto simp: rewriting_def)

context base64_standard
begin

lemma rewriting_single:
  "a \<le> b \<Longrightarrow> b \<le> length before \<Longrightarrow> u \<le> v \<Longrightarrow> v \<le> length after \<Longrightarrow>
   rewriting decode before after a b u v
     [\<lparr>old_start = a, old_end = b, replacement_base64 = encode (take (v - u) (drop u after))\<rparr>]"
  by (simp add: rewriting_def replacement_def decode_encode)

end

definition all_encoded :: "(bytes \<Rightarrow> string) \<Rightarrow> byte_edit list \<Rightarrow> bool" where
  "all_encoded encode es \<longleftrightarrow> (\<forall>e\<in>set es. \<exists>bs. replacement_base64 e = encode bs)"

lemma all_encoded_simps [simp]:
  "all_encoded encode []"
  "all_encoded encode (xs @ ys) \<longleftrightarrow> all_encoded encode xs \<and> all_encoded encode ys"
  "all_encoded encode [\<lparr>old_start = a, old_end = b, replacement_base64 = encode bs\<rparr>]"
  by (auto simp: all_encoded_def)

text \<open>
  What every refinement step promises: it returns, stays within the edit budget, produces encoded
  replacements only, and, when it reports completion, extends the edits by a rewriting of its region.
\<close>

definition refines ::
    "(bytes \<Rightarrow> string) \<Rightarrow> (string \<Rightarrow> bytes option) \<Rightarrow> bytes \<Rightarrow> bytes \<Rightarrow> byte_edit list \<Rightarrow> nat \<Rightarrow> nat \<Rightarrow> nat \<Rightarrow> nat \<Rightarrow>
     (bool \<times> byte_edit list) result \<Rightarrow> bool" where
  "refines encode decode before after es a b u v r \<longleftrightarrow>
     (\<exists>complete es'. r = Inr (complete, es') \<and>
       (length es \<le> PATCH_EDIT_BUDGET \<longrightarrow> length es' \<le> PATCH_EDIT_BUDGET) \<and>
       (complete \<longrightarrow> (\<exists>es2. es' = es @ es2 \<and> all_encoded encode es2 \<and>
                            rewriting decode before after a b u v es2)))"

lemma refinesI:
  assumes "r = Inr (True, es @ es2)" "rewriting decode before after a b u v es2" "all_encoded encode es2"
    "length es \<le> PATCH_EDIT_BUDGET \<Longrightarrow> length (es @ es2) \<le> PATCH_EDIT_BUDGET"
  shows "refines encode decode before after es a b u v r"
  using assms by (auto simp: refines_def)

lemma refines_stop: "refines encode decode before after es a b u v (Inr (False, es))"
  by (auto simp: refines_def intro: exI [of _ False])

text \<open>A region that starts with a rewriting continues with the rest.\<close>

lemma refines_step:
  assumes "rewriting decode before after a m u k es1" "all_encoded encode es1"
    "length es \<le> PATCH_EDIT_BUDGET \<Longrightarrow> length (es @ es1) \<le> PATCH_EDIT_BUDGET"
    and "refines encode decode before after (es @ es1) m b k v r"
  shows "refines encode decode before after es a b u v r"
  using assms unfolding refines_def by (fastforce intro: rewriting_append)

text \<open>Shifting a slice of a slice.\<close>

lemma slice_of_slice:
  "x \<le> y \<Longrightarrow> y \<le> B - A \<Longrightarrow> take (y - x) (drop x (take (B - A) (drop A xs))) = take (y - x) (drop (A + x) xs)"
  by (simp add: drop_take min_def add.commute)

context base64_standard
begin

lemma refines_push:
  assumes "A \<le> B" "B \<le> length before" "U \<le> V" "V \<le> length after"
    and "old = take (B - A) (drop A before)" "new = take (V - U) (drop U after)"
    and "diff_script_from old new i j ops" "i \<le> length old" "j \<le> length new"
  shows "refines encode decode before after es (A + i) B (U + j) V (push_byte_operations encode new A ops es)"
  using assms(7-9)
proof (induction ops arbitrary: i j es)
  case Nil
  then have "A + i = B" "U + j = V" using assms by auto
  then show ?case using assms by (intro refinesI [where ?es2.0 = "[]"]) (auto intro: rewriting_nil)
next
  case (Cons op ops)
  obtain a b where ab: "op_old op = (a, b)" by fastforce
  obtain c d where cd: "op_new op = (c, d)" by fastforce
  from Cons.prems ab cd have s: "a = i" "c = j" "i \<le> b" "j \<le> d" "b \<le> length old" "d \<le> length new"
    "op_tag op = DiffEqual \<Longrightarrow> take (b - i) (drop i old) = take (d - j) (drop j new)"
    "diff_script_from old new b d ops" by auto
  have len: "length old = B - A" "length new = V - U" using assms by auto
  have bd: "A + b \<le> B" "U + d \<le> V" using s len assms by auto
  have sl: "take (b - i) (drop i old) = take (b - i) (drop (A + i) before)"
    "take (d - j) (drop j new) = take (d - j) (drop (U + j) after)"
    using s len assms by (simp_all add: slice_of_slice)
  show ?case
  proof (cases "op_tag op = DiffEqual")
    case True
    then have "rewriting decode before after (A + i) (A + b) (U + j) (U + d) []"
      using s(3,4) sl s(7) [OF True] bd assms(2,4) by (intro rewriting_nil) simp_all
    then show ?thesis
      using Cons.IH [OF s(8)] s True by (auto intro: refines_step [where ?es1.0 = "[]"])
  next
    case False
    show ?thesis
    proof (cases "length es = PATCH_EDIT_BUDGET")
      case True
      with False show ?thesis by (simp add: refines_stop)
    next
      case room: False
      let ?e = "\<lparr>old_start = A + i, old_end = A + b, replacement_base64 = encode (take (d - j) (drop j new))\<rparr>"
      have one: "rewriting decode before after (A + i) (A + b) (U + j) (U + d) [?e]"
        using rewriting_single [of "A + i" "A + b" before "U + j" "U + d" after] s(3,4) sl bd assms(2,4) by simp
      have rest: "refines encode decode before after (es @ [?e]) (A + b) B (U + d) V
          (push_byte_operations encode new A ops (es @ [?e]))"
        using Cons.IH [OF s(8)] s by simp
      have "push_byte_operations encode new A (op # ops) es = push_byte_operations encode new A ops (es @ [?e])"
        using False room ab cd s by simp
      then show ?thesis
        using refines_step [OF one _ _ rest] room by simp
    qed
  qed
qed

text \<open>The linear scan of two different regions of equal length.\<close>

lemma advance_equal:
  "advance (=) old new i = Inr c \<Longrightarrow> length old = length new \<Longrightarrow> i \<le> length old \<Longrightarrow>
   take (c - i) (drop i old) = take (c - i) (drop i new)"
proof (induction "(=) :: u8 \<Rightarrow> u8 \<Rightarrow> bool" old new i rule: advance.induct)
  case (1 old new i)
  show ?case
  proof (cases "i < length old \<and> old ! i = new ! i")
    case True
    then have a: "advance (=) old new (Suc i) = Inr c"
      using "1.prems" by (subst (asm) advance.simps) (auto simp: rbind_Inr_iff index_at_Inr split: if_splits)
    then have "take (c - Suc i) (drop (Suc i) old) = take (c - Suc i) (drop (Suc i) new)"
      using "1.hyps" True "1.prems" by (auto simp: index_at_Inr)
    moreover have "Suc i \<le> c" using advance_bounds [OF a] True by simp
    then have "c - i = Suc (c - Suc i)" by simp
    ultimately show ?thesis
      using True "1.prems" by (simp add: Cons_nth_drop_Suc [symmetric])
  next
    case False
    then have "c = i"
      using "1.prems" by (subst (asm) advance.simps) (auto simp: rbind_Inr_iff index_at_Inr split: if_splits)
    then show ?thesis by simp
  qed
qed

lemma advance_total: "length old \<le> length new \<Longrightarrow> \<exists>c. advance same old new i = Inr c"
proof (induction same old new i rule: advance.induct)
  case (1 same old new i)
  then show ?case by (subst advance.simps) (auto simp: index_at_Inr)
qed

lemma scan_rewrites:
  assumes "A + n \<le> length before" "U + n \<le> length after"
    and "old = take n (drop A before)" "new = take n (drop U after)"
    and "cursor \<le> n" "emitted < budget"
  shows "\<exists>es2. refine_scan encode old new A budget cursor emitted es = Inr (es @ es2) \<and>
    length es2 \<le> budget - emitted \<and> all_encoded encode es2 \<and>
    rewriting decode before after (A + cursor) (A + n) (U + cursor) (U + n) es2"
proof -
  have len: "length old = n" "length new = n" using assms by auto
  have sl: "take (y - x) (drop x old) = take (y - x) (drop (A + x) before)"
    "take (y - x) (drop x new) = take (y - x) (drop (U + x) after)" if "x \<le> y" "y \<le> n" for x y
    using that slice_of_slice [of x y "A + n" A before] slice_of_slice [of x y "U + n" U after] assms by simp_all
  show ?thesis using assms(5,6)
  proof (induction "n - cursor" arbitrary: cursor emitted es rule: less_induct)
    case less
    show ?case
    proof (cases "cursor < n")
      case False
      then have "refine_scan encode old new A budget cursor emitted es = Inr (es @ [])"
        using len by (subst refine_scan.simps) simp
      moreover have "rewriting decode before after (A + cursor) (A + n) (U + cursor) (U + n) []"
        using False less.prems assms by (intro rewriting_nil) auto
      ultimately show ?thesis by fastforce
    next
      case True
      obtain c1 where c1: "advance (=) old new cursor = Inr c1" using advance_total len by fastforce
      have b1: "cursor \<le> c1" "c1 \<le> n" using advance_bounds [OF c1] True len by auto
      have same: "rewriting decode before after (A + cursor) (A + c1) (U + cursor) (U + c1) []"
        using advance_equal [OF c1] sl [OF b1] b1 assms(1,2) len True by (intro rewriting_nil) simp_all
      show ?thesis
      proof (cases "c1 = n")
        case True
        then have "refine_scan encode old new A budget cursor emitted es = Inr (es @ [])"
          using c1 len \<open>cursor < n\<close> by (subst refine_scan.simps) simp
        with same True show ?thesis by fastforce
      next
        case False
        then have b: "c1 < n" "old ! c1 \<noteq> new ! c1"
          using advance_stop [OF c1] True len by auto
        obtain c2 where c2: "advance (\<noteq>) old new c1 = Inr c2" using advance_total len by fastforce
        have b2: "c1 < c2" "c2 \<le> n"
          using advance_strict [OF c2] advance_bounds [OF c2] b len by auto
        show ?thesis
        proof (cases "emitted + 1 = budget")
          case stop: True
          let ?e = "\<lparr>old_start = A + c1, old_end = A + n, replacement_base64 = encode (take (n - c1) (drop c1 new))\<rparr>"
          have "refine_scan encode old new A budget cursor emitted es = Inr (es @ [?e])"
            using c1 c2 False True stop len b by (subst refine_scan.simps) simp
          moreover have "rewriting decode before after (A + c1) (A + n) (U + c1) (U + n) [?e]"
            using rewriting_single [of "A + c1" "A + n" before "U + c1" "U + n" after] sl(2) [of c1 n] b assms
            by simp
          ultimately show ?thesis
            using rewriting_append [OF same, of "A + n" "U + n" "[?e]"] stop less.prems
            by (intro exI [of _ "[?e]"]) auto
        next
          case go: False
          let ?e = "\<lparr>old_start = A + c1, old_end = A + c2, replacement_base64 = encode (take (c2 - c1) (drop c1 new))\<rparr>"
          have step: "refine_scan encode old new A budget cursor emitted es
              = refine_scan encode old new A budget c2 (emitted + 1) (es @ [?e])"
            using c1 c2 False True go len b b2 by (subst refine_scan.simps) simp
          have one: "rewriting decode before after (A + c1) (A + c2) (U + c1) (U + c2) [?e]"
            using rewriting_single [of "A + c1" "A + c2" before "U + c1" "U + c2" after] sl(2) [of c1 c2] b b2 assms
            by simp
          obtain es2 where es2: "refine_scan encode old new A budget c2 (emitted + 1) (es @ [?e]) = Inr ((es @ [?e]) @ es2)"
            "length es2 \<le> budget - (emitted + 1)" "all_encoded encode es2"
            "rewriting decode before after (A + c2) (A + n) (U + c2) (U + n) es2"
            using less.hyps [of c2 "emitted + 1" "es @ [?e]"] b1 b2 less.prems go True
              diff_less_mono2 [of cursor c2 n] by auto
          have "rewriting decode before after (A + cursor) (A + n) (U + cursor) (U + n) ([] @ [?e] @ es2)"
            by (rule rewriting_append [OF same rewriting_append [OF one es2(4)]])
          then show ?thesis
            using step es2 less.prems go by (intro exI [of _ "?e # es2"]) (auto simp: all_encoded_def)
        qed
      qed
    qed
  qed
qed

lemma common_prefix_le: "common_prefix xs ys \<le> length xs" "common_prefix xs ys \<le> length ys"
  using length_takeWhile_le [of "\<lambda>(l, r). l = r" "zip xs ys"] by (simp_all add: common_prefix_def)

lemma common_prefix_take: "take (common_prefix xs ys) xs = take (common_prefix xs ys) ys"
proof (induction xs arbitrary: ys)
  case (Cons x xs)
  then show ?case by (cases ys) (auto simp: common_prefix_def)
qed (simp add: common_prefix_def)

lemma common_suffix_drop:
  fixes xs ys :: bytes
  defines "s \<equiv> common_prefix (rev xs) (rev ys)"
  shows "drop (length xs - s) xs = drop (length ys - s) ys"
proof -
  have "rev (take s (rev xs)) = rev (take s (rev ys))"
    unfolding s_def by (rule arg_cong [OF common_prefix_take])
  then show ?thesis by (simp add: take_rev)
qed

lemma refines_changed_region:
  assumes ab: "a \<le> b" "b \<le> length before" "u \<le> v" "v \<le> length after" and script: "diff_script myers"
    and size: "length es \<le> PATCH_EDIT_BUDGET"
  shows "refines encode decode before after es a b u v
    (refine_changed_region encode myers before after a b u v es)"
proof -
  let ?old = "take (b - a) (drop a before)" and ?new = "take (v - u) (drop u after)"
  define p where "p = common_prefix ?old ?new"
  define s where "s = common_prefix (rev (drop p ?old)) (rev (drop p ?new))"
  have p: "p \<le> b - a" "p \<le> v - u"
    using common_prefix_le [of ?old ?new] ab by (auto simp: p_def)
  have s: "s \<le> b - a - p" "s \<le> v - u - p"
    using common_prefix_le [of "rev (drop p ?old)" "rev (drop p ?new)"] ab by (auto simp: s_def)
  have pre: "take p (drop a before) = take p (drop u after)"
    using common_prefix_take [of ?old ?new] p by (simp add: p_def [symmetric] min_absorb1)
  have suf: "take s (drop (b - s) before) = take s (drop (v - s) after)"
  proof -
    have "drop (b - a - p - s) (drop p ?old) = drop (v - u - p - s) (drop p ?new)"
      using common_suffix_drop [of "drop p ?old" "drop p ?new"] ab by (simp add: s_def [symmetric])
    then have "drop (b - a - p - s + p) ?old = drop (v - u - p - s + p) ?new"
      by (simp only: drop_drop)
    moreover have "b - a - p - s + p = b - a - s" "v - u - p - s + p = v - u - s" using p s by auto
    ultimately have "drop (b - a - s) ?old = drop (v - u - s) ?new" by simp
    moreover have "b - a - (b - a - s) = s" "v - u - (v - u - s) = s"
      "b - a - s + a = b - s" "v - u - s + u = v - s" using p s ab by auto
    ultimately show ?thesis by (simp only: drop_take drop_drop)
  qed
  let ?ta = "a + p" and ?tb = "b - s" and ?tu = "u + p" and ?tv = "v - s"
  have t: "?ta \<le> ?tb" "?tb \<le> length before" "?tu \<le> ?tv" "?tv \<le> length after" using p s ab by auto
  let ?told = "take (?tb - ?ta) (drop ?ta before)" and ?tnew = "take (?tv - ?tu) (drop ?tu after)"
  have head: "rewriting decode before after a ?ta u ?tu []"
    by (rule rewriting_nil) (use pre t ab in simp_all)
  have tail: "rewriting decode before after ?tb b ?tv v []"
  proof -
    have eq: "b - ?tb = s" "v - ?tv = s" and le: "?tb \<le> b" "?tv \<le> v" using s ab by simp_all
    show ?thesis by (rule rewriting_nil [OF le(1) ab(2) le(2) ab(4)]) (simp only: eq suf)
  qed
  define inner where "inner =
    (if usize_saturating_add (length ?told) (length ?tnew) \<le> BYTE_MYERS_BUDGET then
       push_byte_operations encode ?tnew ?ta (myers ?told ?tnew) es
     else if length ?told = length ?tnew then
       (if length es = PATCH_EDIT_BUDGET then Inr (False, es)
        else rbind (refine_large_equal_length_region encode ?told ?tnew ?ta es) (\<lambda>es'. Inr (True, es')))
     else
       (if length es = PATCH_EDIT_BUDGET then Inr (False, es)
        else Inr (True, es @ [\<lparr>old_start = ?ta, old_end = ?tb, replacement_base64 = encode ?tnew\<rparr>])))"
  have eq: "refine_changed_region encode myers before after a b u v es = inner"
    using ab t unfolding refine_changed_region_def inner_def
    by (simp add: Let_def p_def [symmetric] s_def [symmetric])
  have main: "refines encode decode before after es ?ta ?tb ?tu ?tv inner"
  proof -
    have 1: "refines encode decode before after es ?ta ?tb ?tu ?tv
        (push_byte_operations encode ?tnew ?ta (myers ?told ?tnew) es)"
      using refines_push [OF t refl refl, of 0 0 "myers ?told ?tnew" es] script
      by (simp add: diff_script_def)
    have 2: "refines encode decode before after es ?ta ?tb ?tu ?tv
        (rbind (refine_large_equal_length_region encode ?told ?tnew ?ta es) (\<lambda>es'. Inr (True, es')))"
      if "length ?told = length ?tnew" "length es \<noteq> PATCH_EDIT_BUDGET"
    proof -
      let ?n = "?tb - ?ta" and ?k = "min (PATCH_EDIT_BUDGET - length es) LARGE_REGION_EDIT_BUDGET"
      have n: "?tv - ?tu = ?n" "?ta + ?n = ?tb" "?tu + ?n = ?tv" using that(1) t by auto
      have k: "0 < ?k" using that(2) size by (simp add: LARGE_REGION_EDIT_BUDGET_def)
      obtain es2 where "refine_scan encode ?told ?tnew ?ta ?k 0 0 es = Inr (es @ es2)"
        "length es2 \<le> ?k" "all_encoded encode es2"
        "rewriting decode before after ?ta ?tb ?tu ?tv es2"
        using scan_rewrites [of ?ta ?n before ?tu after ?told ?tnew 0 0 ?k es] n t k by auto
      then show ?thesis
        using size k by (intro refinesI [where ?es2.0 = es2])
          (auto simp: refine_large_equal_length_region_def usize_checked_sub_def Let_def)
    qed
    have 3: "refines encode decode before after es ?ta ?tb ?tu ?tv
        (Inr (True, es @ [\<lparr>old_start = ?ta, old_end = ?tb, replacement_base64 = encode ?tnew\<rparr>]))"
      if "length es \<noteq> PATCH_EDIT_BUDGET"
      by (rule refinesI [OF refl]) (use that size rewriting_single [OF t] in auto)
    show ?thesis unfolding inner_def using 1 2 3 refines_stop by auto
  qed
  have "refines encode decode before after es a ?tb u ?tv inner"
    by (rule refines_step [OF head]) (use main in auto)
  then show ?thesis
    unfolding eq using rewriting_append [OF _ tail] by (fastforce simp: refines_def)
qed

end

section \<open>Lines and offsets\<close>

lemma concat_split_inclusive [simp]: "concat (split_inclusive bs) = bs"
  by (induction bs) (auto split: list.splits)

lemma length_line_offsets [simp]: "length (line_offsets ls) = Suc (length ls)"
proof -
  have "length (line_offsets_from n ls) = length ls" for n by (induction ls arbitrary: n) auto
  then show ?thesis by (simp add: line_offsets_def)
qed

lemma line_offsets_nth: "k \<le> length ls \<Longrightarrow> line_offsets ls ! k = length (concat (take k ls))"
proof -
  have *: "k \<le> length ls \<Longrightarrow> (n # line_offsets_from n ls) ! k = n + length (concat (take k ls))" for n
  proof (induction ls arbitrary: n k)
    case (Cons l ls)
    then show ?case by (cases k) auto
  qed simp
  show "k \<le> length ls \<Longrightarrow> line_offsets ls ! k = length (concat (take k ls))"
    unfolding line_offsets_def using * [of 0] by simp
qed

lemma concat_slice:
  assumes "a \<le> b" "b \<le> length ls"
  defines "f \<equiv> \<lambda>k. length (concat (take k ls))"
  shows "f a \<le> f b" "f b \<le> length (concat ls)"
    "take (f b - f a) (drop (f a) (concat ls)) = concat (take (b - a) (drop a ls))"
proof -
  have 1: "take b ls = take a ls @ take (b - a) (drop a ls)"
    using assms by (metis le_add_diff_inverse take_add)
  have 2: "ls = take b ls @ drop b ls" by simp
  show "f a \<le> f b" unfolding f_def 1 by simp
  show "f b \<le> length (concat ls)" unfolding f_def by (subst (2) 2) (simp del: append_take_drop_id)
  have "concat ls = concat (take a ls) @ concat (take (b - a) (drop a ls)) @ concat (drop b ls)"
    using 1 2 by (metis append.assoc concat_append)
  moreover have "f b - f a = length (concat (take (b - a) (drop a ls)))" unfolding f_def 1 by simp
  ultimately show "take (f b - f a) (drop (f a) (concat ls)) = concat (take (b - a) (drop a ls))"
    unfolding f_def by simp
qed

context base64_standard
begin

lemma refines_lines:
  fixes before after :: bytes
  defines "bl \<equiv> split_inclusive before" and "al \<equiv> split_inclusive after"
  assumes "diff_script myers" "diff_script_from bl al i j ops" "i \<le> length bl" "j \<le> length al"
    and "length es \<le> PATCH_EDIT_BUDGET"
  shows "refines encode decode before after es
    (length (concat (take i bl))) (length before) (length (concat (take j al))) (length after)
    (refine_line_operations encode myers before after (line_offsets bl) (line_offsets al) ops es)"
  using assms(4-7)
proof (induction ops arbitrary: i j es)
  case Nil
  then show ?case
    by (intro refinesI [where ?es2.0 = "[]"]) (auto simp: bl_def al_def intro: rewriting_nil)
next
  case (Cons op ops)
  obtain a b where ab: "op_old op = (a, b)" by fastforce
  obtain c d where cd: "op_new op = (c, d)" by fastforce
  from Cons.prems ab cd have s: "a = i" "c = j" "i \<le> b" "j \<le> d" "b \<le> length bl" "d \<le> length al"
    "op_tag op = DiffEqual \<Longrightarrow> take (b - i) (drop i bl) = take (d - j) (drop j al)"
    "diff_script_from bl al b d ops" by auto
  let ?f = "\<lambda>k. length (concat (take k bl))" and ?g = "\<lambda>k. length (concat (take k al))"
  have cb: "concat bl = before" "concat al = after" by (simp_all add: bl_def al_def)
  note fs = concat_slice [OF s(3,5), unfolded cb] and gs = concat_slice [OF s(4,6), unfolded cb]
  show ?case
  proof (cases "op_tag op = DiffEqual")
    case True
    then have "rewriting decode before after (?f i) (?f b) (?g j) (?g d) []"
      using fs gs s(7) by (intro rewriting_nil) auto
    then show ?thesis
      using Cons.IH [OF s(8,5,6) Cons.prems(4)] True by (auto intro: refines_step [where ?es1.0 = "[]"])
  next
    case False
    have r: "refines encode decode before after es (?f i) (?f b) (?g j) (?g d)
        (refine_changed_region encode myers before after (?f i) (?f b) (?g j) (?g d) es)"
      by (rule refines_changed_region) (use fs gs assms(3) Cons.prems in auto)
    then obtain complete es' where es': "refine_changed_region encode myers before after (?f i) (?f b) (?g j) (?g d) es
        = Inr (complete, es')" "length es' \<le> PATCH_EDIT_BUDGET"
      and ext: "complete \<Longrightarrow> \<exists>es2. es' = es @ es2 \<and> all_encoded encode es2 \<and> rewriting decode before after (?f i) (?f b) (?g j) (?g d) es2"
      using Cons.prems(4) by (auto simp: refines_def)
    have eq: "refine_line_operations encode myers before after (line_offsets bl) (line_offsets al) (op # ops) es
      = (if complete then refine_line_operations encode myers before after (line_offsets bl) (line_offsets al) ops es'
         else Inr (False, es'))"
      using False ab cd s es'(1) Cons.prems by (simp add: line_offsets_nth)
    show ?thesis
    proof (cases complete)
      case False
      then show ?thesis unfolding eq using es' by (auto simp: refines_def intro: exI [of _ False])
    next
      case True
      with ext obtain es2 where es2: "es' = es @ es2" "all_encoded encode es2"
        "rewriting decode before after (?f i) (?f b) (?g j) (?g d) es2" by auto
      show ?thesis
        unfolding eq using True es2 es'(2) Cons.IH [OF s(8,5,6) es'(2)]
        by (auto intro: refines_step [OF es2(3,2)])
    qed
  qed
qed

lemma replacement_patch_ok:
  "length (edits (replacement_patch encode before after)) \<le> 1"
  "all_encoded encode (edits (replacement_patch encode before after))"
  "rewriting decode before after 0 (length before) 0 (length after) (edits (replacement_patch encode before after))"
  using rewriting_single [of 0 "length before" before 0 "length after" after]
  by (auto simp: replacement_patch_def patch_with_edits_def intro: rewriting_nil)

lemma create_patch_rewrites:
  assumes "diff_script patience" "diff_script myers"
  shows "\<exists>p. create_patch encode patience myers before after = Inr p \<and>
    algorithm p = PATCH_ALGORITHM \<and> length (edits p) \<le> PATCH_EDIT_BUDGET \<and>
    all_encoded encode (edits p) \<and>
    rewriting decode before after 0 (length before) 0 (length after) (edits p)"
proof -
  have fin: "\<exists>p. rbind r (\<lambda>(complete, es). Inr (if complete then patch_with_edits es
        else replacement_patch encode before after)) = Inr p \<and>
      algorithm p = PATCH_ALGORITHM \<and> length (edits p) \<le> PATCH_EDIT_BUDGET \<and>
      all_encoded encode (edits p) \<and>
      rewriting decode before after 0 (length before) 0 (length after) (edits p)"
    if "refines encode decode before after [] 0 (length before) 0 (length after) r" for r
    using that replacement_patch_ok [of before after]
    by (auto simp: refines_def patch_with_edits_def replacement_patch_def PATCH_EDIT_BUDGET_def)
  show ?thesis
  proof (cases "line_anchor_budget_exceeded before after")
    case True
    then show ?thesis
      using fin [OF refines_changed_region [of 0 "length before" before 0 "length after" after myers "[]"]] assms
      by (simp add: create_patch_def create_byte_refined_patch_def)
  next
    case False
    then show ?thesis
      using fin [OF refines_lines [of myers before after 0 0 "patience (split_inclusive before) (split_inclusive after)" "[]", simplified]] assms
      by (simp add: create_patch_def diff_script_def Let_def)
  qed
qed

end

section \<open>Sizes\<close>

lemma replacements_fit:
  "(\<Sum>e\<leftarrow>es. length (replacement decode e)) \<le> length (region_output decode bs a b es)"
  by (induction es arbitrary: a) (auto intro: trans_le_add2)

lemma length_rfc4648_encode: "length (rfc4648_encode bs) \<le> 2 * length bs + 4"
proof -
  have "length (rfc4648_encode_bytes bs) \<le> 2 * length bs + 4"
    by (induction bs rule: rfc4648_encode_bytes.induct) (auto simp: rfc4648_group_def)
  then show ?thesis by (simp add: rfc4648_encode_def)
qed

context base64_standard
begin

lemma rewriting_sized:
  assumes "rewriting decode before after 0 (length before) 0 (length after) es" "all_encoded encode es"
    and "2 * length after + 4 \<le> usize_max"
  shows "machine_sized es" "(\<Sum>e\<leftarrow>es. length (replacement decode e)) \<le> length after"
proof -
  show sum: "(\<Sum>e\<leftarrow>es. length (replacement decode e)) \<le> length after"
    using replacements_fit [where decode = decode and bs = before and a = 0 and b = "length before" and es = es] assms(1)
    by (simp add: rewriting_def)
  show "machine_sized es"
    unfolding machine_sized_def
  proof
    fix e assume e: "e \<in> set es"
    then obtain bs where bs: "replacement_base64 e = encode bs" using assms(2) by (auto simp: all_encoded_def)
    have "length (replacement decode e) \<le> (\<Sum>e\<leftarrow>es. length (replacement decode e))"
      using e by (intro member_le_sum_list) auto
    then have "length bs \<le> length after" using sum bs by (simp add: replacement_def decode_encode)
    then show "length (replacement_base64 e) \<le> usize_max"
      using length_rfc4648_encode [of bs] assms(3) bs by (simp add: encode_rfc4648)
  qed
qed

lemma inspect_rewriting:
  assumes "rewriting decode before after 0 (length before) 0 (length after) (edits p)"
    and "all_encoded encode (edits p)" "algorithm p = PATCH_ALGORITHM"
    and "length (edits p) \<le> max_patch_edits limits"
    and "length before \<le> usize_max" "length after \<le> max_source_bytes limits"
    and "max_source_bytes limits \<le> max_decoded_replacement_bytes limits"
    and "max_decoded_replacement_bytes limits \<le> usize_max" "2 * length after + 4 \<le> usize_max"
  shows "\<exists>stats. inspect_patch before p limits = Inr stats"
proof -
  note sz = rewriting_sized [OF assms(1,2,9)]
  note out = rewriting_apply [OF assms(1)]
  have rem: "removed_total (edits p) \<le> length before" using edits_in_order_removed [OF out(2)] by simp
  have cap: "(\<Sum>e\<leftarrow>edits p. length (replacement decode e)) \<le> max_decoded_replacement_bytes limits"
    using sz(2) assms by simp
  let ?s0 = "\<lparr>previous_end = 0, removed_bytes = 0, decoded_bytes = 0\<rparr>"
  obtain s where s: "inspect_edits before limits 0 (edits p) ?s0 = Inr s"
    using inspect_edits_complete [of ?s0 before "edits p" limits 0] out(2) assms(2,5,8) sz(1) rem cap
    by (auto simp: all_encoded_def)
  from inspect_edits_Inr [OF s sz(1)]
  have "removed_bytes s = removed_total (edits p)"
    "decoded_bytes s = (\<Sum>e\<leftarrow>edits p. length (replacement decode e))" by auto
  moreover have "length before - removed_total (edits p) + (\<Sum>e\<leftarrow>edits p. length (replacement decode e)) = length after"
    using length_apply_edits [OF out(2), of decode] out(1) rem by simp
  ultimately show ?thesis
    using s assms rem
    by (auto simp: inspect_patch_def check_limit_def checked_add_def usize_checked_add_def usize_checked_sub_def)
qed

lemma create_patch_replays:
  assumes "diff_script patience" "diff_script myers"
    and "length before \<le> max_source_bytes limits" "length after \<le> max_source_bytes limits"
    and "PATCH_EDIT_BUDGET \<le> max_patch_edits limits"
    and "max_source_bytes limits \<le> max_decoded_replacement_bytes limits"
    and "max_decoded_replacement_bytes limits \<le> usize_max" "2 * max_source_bytes limits + 4 \<le> usize_max"
  shows "\<exists>p. create_patch encode patience myers before after = Inr p \<and>
    length (edits p) \<le> PATCH_EDIT_BUDGET \<and> edits_in_order 0 (length before) (edits p) \<and>
    replay_patch_with_limits decode before p limits = Inr after"
proof -
  obtain p where p: "create_patch encode patience myers before after = Inr p"
    "algorithm p = PATCH_ALGORITHM" "length (edits p) \<le> PATCH_EDIT_BUDGET" "all_encoded encode (edits p)"
    "rewriting decode before after 0 (length before) 0 (length after) (edits p)"
    using create_patch_rewrites [OF assms(1,2)] by blast
  have "machine_sized (edits p)" using rewriting_sized [OF p(5,4)] assms by simp
  moreover obtain st where "inspect_patch before p limits = Inr st"
    using inspect_rewriting [OF p(5,4,2), of limits] p(3) assms by (meson le_trans add_le_mono mult_le_mono2 le_refl)
  ultimately have "replay_patch_with_limits decode before p limits = Inr after"
    using replay_patch_eq [of p limits before] rewriting_apply [OF p(5)] assms by simp
  with p rewriting_apply [OF p(5)] show ?thesis by blast
qed

end

section \<open>Properties\<close>

text \<open>C14: replay completeness. For any two byte sequences within the source limit, whatever
  operations the two diff algorithms return, \<open>create_patch\<close> returns a patch of at most
  \<open>PATCH_EDIT_BUDGET\<close> edits, in order and without overlap, and replaying it on the before bytes gives
  exactly the after bytes: every budget cut of the refinement keeps the patch lossless.\<close>

theorem create_patch_lossless:
  assumes "base64_standard encode decode" "diff_script patience" "diff_script myers"
    and "length before \<le> max_source_bytes limits" "length after \<le> max_source_bytes limits"
    and "PATCH_EDIT_BUDGET \<le> max_patch_edits limits"
    and "max_source_bytes limits \<le> max_decoded_replacement_bytes limits"
    and "max_decoded_replacement_bytes limits \<le> usize_max" "2 * max_source_bytes limits + 4 \<le> usize_max"
  shows "\<exists>p. create_patch encode patience myers before after = Inr p \<and>
    length (edits p) \<le> PATCH_EDIT_BUDGET \<and> edits_in_order 0 (length before) (edits p) \<and>
    replay_patch_with_limits decode before p limits = Inr after"
  using assms(1) assms(2-) by (rule base64_standard.create_patch_replays)

text \<open>A differ that keeps equal sequences and replaces different ones: the least that \<open>similar\<close> may do.\<close>

definition whole_differ :: "'a differ" where
  "whole_differ xs ys =
     [\<lparr>op_tag = (if xs = ys then DiffEqual else DiffReplace), op_old = (0, length xs), op_new = (0, length ys)\<rparr>]"

lemma whole_differ_script: "diff_script whole_differ"
  by (auto simp: diff_script_def whole_differ_def)

lemma default_limits_fit:
  "PATCH_EDIT_BUDGET \<le> max_patch_edits verification_limits_default"
  "max_source_bytes verification_limits_default \<le> max_decoded_replacement_bytes verification_limits_default"
  "max_decoded_replacement_bytes verification_limits_default \<le> usize_max"
  "2 * max_source_bytes verification_limits_default + 4 \<le> usize_max"
  by (simp_all add: verification_limits_default_def PATCH_EDIT_BUDGET_def usize_max_def)

theorem create_patch_lossless_witness:
  "\<exists>p. create_patch rfc4648_encode whole_differ whole_differ [1, 2, 10, 3] [1, 2, 10, 4, 5] = Inr p \<and>
    length (edits p) \<le> PATCH_EDIT_BUDGET \<and> edits_in_order 0 (length [1, 2, 10, 3 :: u8]) (edits p) \<and>
    replay_patch_with_limits rfc4648_decode [1, 2, 10, 3] p verification_limits_default = Inr [1, 2, 10, 4, 5]"
  by (rule create_patch_lossless [OF rfc4648.base64_standard_axioms whole_differ_script whole_differ_script
        _ _ default_limits_fit]) (simp_all add: verification_limits_default_def)

text \<open>The certificate step of the producer. For a patch made by \<open>create_patch\<close> under the default
  limits, \<open>create_certificate\<close> never reports the internal invariant failure: it certifies the
  digests and lengths of the two sources, and the reconstructed digest is the after digest.\<close>

theorem create_certificate_succeeds:
  assumes "base64_standard encode decode" "diff_script patience" "diff_script myers"
    and "length before \<le> max_source_bytes verification_limits_default"
    and "length after \<le> max_source_bytes verification_limits_default"
    and "create_patch encode patience myers before after = Inr p"
  shows "create_certificate decode blake3 before after p verification_limits_default =
    Inr \<lparr>before_blake3 = blake3 before, after_blake3 = blake3 after, reconstructed_blake3 = blake3 after,
         before_len = length before, after_len = length after, patch_verified = True\<rparr>"
  using base64_standard.create_patch_replays [OF assms(1-5) default_limits_fit] assms(6)
  by (auto simp: create_certificate_def)

theorem create_certificate_succeeds_witness:
  "\<exists>p. create_patch rfc4648_encode whole_differ whole_differ [7] [8] = Inr p \<and>
    create_certificate rfc4648_decode (map char_of_byte) [7] [8] p verification_limits_default =
    Inr \<lparr>before_blake3 = map char_of_byte [7], after_blake3 = map char_of_byte [8],
         reconstructed_blake3 = map char_of_byte [8], before_len = length [7 :: u8],
         after_len = length [8 :: u8], patch_verified = True\<rparr>"
proof -
  obtain p where p: "create_patch rfc4648_encode whole_differ whole_differ [7] [8] = Inr p"
    using rfc4648.create_patch_rewrites [OF whole_differ_script whole_differ_script] by blast
  then show ?thesis
    using create_certificate_succeeds [OF rfc4648.base64_standard_axioms whole_differ_script
        whole_differ_script _ _ p, of "map char_of_byte"]
    by (auto simp: verification_limits_default_def)
qed

end
