(* ===== verification/Syntax.thy ===== *)
theory Syntax
  imports Report_Model
begin

text \<open>
  The syntax trees of \<open>crates/stratadiff-core/src/syntax.rs\<close>: the node arena with preorder ids, the
  hash inputs, the universal byte/line/token parser, the conversion of a tree-sitter tree with
  its depth, node-count and callback limits, and the two recursive equalities.

  Tree-sitter and BLAKE3 are parameters: \<open>blake3\<close> maps the bytes fed to one hasher to the
  digest, \<open>ts_runtime\<close> gives for a grammar and a source the tree an uninterrupted parse returns and the
  number of progress callbacks it makes. A tree-sitter tree is read through its public accessors
  only; \<open>ts_node\<close> is the finite tree of what these accessors return.

  The abstraction is \<open>node_tree\<close>, the tree an arena stands for: \<open>flatten\<close> numbers it in preorder,
  and \<open>wf_syntax\<close> says that an arena is such a numbering with spans inside the source. Both
  parsers are proved to return \<open>flatten\<close> of an explicit tree, and both equalities to be the
  recursive comparison of the two trees.
\<close>

section \<open>Data\<close>

definition MAX_SYNTAX_DEPTH :: nat where
  "MAX_SYNTAX_DEPTH = 512"

record parse_limits =
  max_nodes :: nat
  max_depth :: nat
  max_parse_callbacks :: nat

definition COMPATIBILITY :: parse_limits where
  "COMPATIBILITY = \<lparr>max_nodes = usize_max, max_depth = MAX_SYNTAX_DEPTH, max_parse_callbacks = usize_max\<rparr>"

record syntax_node =
  node_id :: nat
  node_kind :: string
  node_named :: bool
  node_extra :: bool
  node_missing :: bool
  node_field :: "string option"
  node_span :: span
  node_parent :: "nat option"
  node_children :: "nat list"
  node_subtree_size :: nat
  node_byte_hash :: bytes
  node_syntax_hash :: bytes
  node_shape_hash :: bytes

record parsed_syntax =
  ps_source :: bytes
  ps_nodes :: "syntax_node list"
  ps_root :: nat
  ps_root_kind :: string
  ps_language :: language

text \<open>\<open>hash_hex\<close> is the hexadecimal rendering \<open>to_hex\<close> of the hash library.\<close>

definition as_ref :: "(bytes \<Rightarrow> string) \<Rightarrow> syntax_node \<Rightarrow> node_ref" where
  "as_ref to_hex n =
     \<lparr>ref_id = node_id n, ref_kind = node_kind n, ref_named = node_named n, ref_extra = node_extra n,
      ref_missing = node_missing n, ref_field = node_field n, ref_span = node_span n,
      ref_subtree_size = node_subtree_size n, ref_syntax_hash = to_hex (node_syntax_hash n),
      ref_shape_hash = to_hex (node_shape_hash n)\<rparr>"

section \<open>Hash inputs\<close>

text \<open>The bytes one call feeds to the hasher; a hash is \<open>blake3\<close> of their concatenation.\<close>

definition u64_le_bytes :: "nat \<Rightarrow> bytes" where
  "u64_le_bytes n = map (\<lambda>i. word_of_nat (n div 256 ^ i)) [0, 1, 2, 3, 4, 5, 6, 7]"

definition put :: "bytes \<Rightarrow> bytes" where
  "put bs = u64_le_bytes (length bs) @ bs"

definition put_optional :: "string option \<Rightarrow> bytes" where
  "put_optional v = (case v of Some s \<Rightarrow> 1 # put (as_bytes s) | None \<Rightarrow> [0])"

definition u8_of_bool :: "bool \<Rightarrow> u8" where
  "u8_of_bool b = (if b then 1 else 0)"

definition put_flags_values :: "bool \<Rightarrow> bool \<Rightarrow> bool \<Rightarrow> bytes" where
  "put_flags_values named extra missing = [u8_of_bool named, u8_of_bool extra, u8_of_bool missing]"

definition blake3_hex :: "(bytes \<Rightarrow> bytes) \<Rightarrow> string \<Rightarrow> bytes \<Rightarrow> bytes" where
  "blake3_hex blake3 domain bs = blake3 (put (as_bytes domain) @ put bs)"

fun str_contains :: "string \<Rightarrow> string \<Rightarrow> bool" where
  "str_contains [] needle = (needle = [])"
| "str_contains (c # cs) needle = (take (length needle) (c # cs) = needle \<or> str_contains cs needle)"

definition normalized_kind :: "string \<Rightarrow> string" where
  "normalized_kind kind =
     (if str_contains kind ''identifier'' then ''<identifier>''
      else if str_contains kind ''string'' then ''<string>''
      else if str_contains kind ''integer'' \<or> str_contains kind ''float'' \<or> str_contains kind ''number''
        then ''<number>''
      else if str_contains kind ''comment'' then ''<comment>''
      else kind)"

section \<open>The universal parser\<close>

datatype universal_token_class = AsciiWord | Whitespace | LineFeed | AsciiPunctuation | OpaqueBytes

definition token_class :: "u8 \<Rightarrow> universal_token_class" where
  "token_class b =
     (if 97 \<le> b \<and> b \<le> 122 \<or> 65 \<le> b \<and> b \<le> 90 \<or> 48 \<le> b \<and> b \<le> 57 \<or> b = 95 then AsciiWord
      else if b = 32 \<or> b = 9 \<or> b = 13 \<or> b = 0x0b \<or> b = 0x0c then Whitespace
      else if b = 10 then LineFeed
      else if 0x21 \<le> b \<and> b \<le> 0x7e then AsciiPunctuation
      else OpaqueBytes)"

fun token_kind :: "universal_token_class \<Rightarrow> string" where
  "token_kind AsciiWord = ''universal_ascii_word''"
| "token_kind Whitespace = ''universal_whitespace''"
| "token_kind LineFeed = ''universal_line_feed''"
| "token_kind AsciiPunctuation = ''universal_ascii_punctuation''"
| "token_kind OpaqueBytes = ''universal_opaque_bytes''"

text \<open>An all-zero 32 byte hash, the placeholder until a node is finished.\<close>

definition zero_hash :: bytes where
  "zero_hash = replicate 32 0"

definition push_universal_node ::
  "parse_limits \<Rightarrow> nat \<Rightarrow> string \<Rightarrow> nat option \<Rightarrow> string option \<Rightarrow> span \<Rightarrow> syntax_node list \<Rightarrow>
   (nat \<times> syntax_node list) result" where
  "push_universal_node limits depth kind parent field sp nodes =
     (if depth > max_depth limits then Inl (ParseFailure (DepthExceeded (max_depth limits)))
      else if length nodes \<ge> max_nodes limits then Inl (ParseFailure (NodeCountExceeded (max_nodes limits)))
      else Inr (length nodes, nodes @
        [\<lparr>node_id = length nodes, node_kind = kind, node_named = True, node_extra = False,
          node_missing = False, node_field = field, node_span = sp, node_parent = parent,
          node_children = [], node_subtree_size = 1, node_byte_hash = zero_hash,
          node_syntax_hash = zero_hash, node_shape_hash = zero_hash\<rparr>]))"

fun map_result :: "('a \<Rightarrow> 'b result) \<Rightarrow> 'a list \<Rightarrow> 'b list result" where
  "map_result f [] = Inr []"
| "map_result f (x # xs) = rbind (f x) (\<lambda>y. rbind (map_result f xs) (\<lambda>ys. Inr (y # ys)))"

definition universal_structural_hash ::
  "(bytes \<Rightarrow> bytes) \<Rightarrow> string \<Rightarrow> bytes \<Rightarrow> syntax_node \<Rightarrow> syntax_node list \<Rightarrow> bool \<Rightarrow> bytes result" where
  "universal_structural_hash blake3 domain source node nodes shape =
     rbind
       (if node_children node = [] then
          rbind (slice source (start_byte (node_span node)) (end_byte (node_span node))) (\<lambda>bs. Inr (put bs))
        else
          rbind (map_result (\<lambda>child. rbind (index_at nodes child) (\<lambda>c.
                   Inr (put_optional (node_field c) @
                        put (if shape then node_shape_hash c else node_syntax_hash c)))) (node_children node))
            (\<lambda>parts. Inr (concat parts)))
       (\<lambda>body. Inr (blake3 (put (as_bytes domain) @ put (as_bytes (node_kind node)) @
          put_flags_values (node_named node) (node_extra node) (node_missing node) @ body)))"

definition finish_universal_node ::
  "(bytes \<Rightarrow> bytes) \<Rightarrow> bytes \<Rightarrow> syntax_node list \<Rightarrow> nat \<Rightarrow> syntax_node list result" where
  "finish_universal_node blake3 source nodes i =
     rbind (index_at nodes i) (\<lambda>node.
     rbind (map_result (\<lambda>child. rbind (index_at nodes child) (\<lambda>c. Inr (node_subtree_size c)))
              (node_children node)) (\<lambda>sizes.
     rbind (slice source (start_byte (node_span node)) (end_byte (node_span node))) (\<lambda>bs.
     rbind (universal_structural_hash blake3 ''stratadiff.syntax.v1'' source node nodes False) (\<lambda>sh.
     rbind (universal_structural_hash blake3 ''stratadiff.shape.v1'' source node nodes True) (\<lambda>ph.
       Inr (nodes[i := node\<lparr>node_subtree_size := 1 + sum_list sizes,
                            node_byte_hash := blake3_hex blake3 ''stratadiff.byte.v1'' bs,
                            node_syntax_hash := sh, node_shape_hash := ph\<rparr>]))))))"

definition set_children :: "syntax_node list \<Rightarrow> nat \<Rightarrow> nat list \<Rightarrow> syntax_node list result" where
  "set_children nodes i cs = rbind (index_at nodes i) (\<lambda>node. Inr (nodes[i := node\<lparr>node_children := cs\<rparr>]))"

definition universal_end_position :: "bytes \<Rightarrow> position" where
  "universal_end_position source =
     (let (row, column) = fold (\<lambda>b (row, column). if b = 10 then (row + 1, 0) else (row, column + 1)) source (0, 0)
      in \<lparr>row = row, column = column\<rparr>)"

text \<open>The end of the line that starts at \<open>line_start\<close>: after its line feed, or the end of the source.\<close>

definition line_end_from :: "bytes \<Rightarrow> nat \<Rightarrow> nat" where
  "line_end_from source line_start =
     (let relative = length (takeWhile (\<lambda>b. b \<noteq> 10) (drop line_start source))
      in if line_start + relative < length source then line_start + relative + 1 else length source)"

text \<open>\<open>while token_end < line_end && class(source[token_end]) == class { token_end += 1 }\<close>\<close>

function token_end_from :: "bytes \<Rightarrow> nat \<Rightarrow> universal_token_class \<Rightarrow> nat \<Rightarrow> nat result" where
  "token_end_from source line_end class token_end =
     (if token_end < line_end then
        rbind (index_at source token_end) (\<lambda>b.
          if token_class b = class then token_end_from source line_end class (token_end + 1)
          else Inr token_end)
      else Inr token_end)"
  by pat_completeness auto

termination by (relation "measure (\<lambda>(_, line_end, _, i). line_end - i)") auto

declare token_end_from.simps [simp del]

lemma token_end_from_ge: "token_end_from source line_end c i = Inr j \<Longrightarrow> i \<le> j"
proof (induction source line_end c i arbitrary: j rule: token_end_from.induct)
  case (1 source line_end c i)
  from "1.prems" show ?case
    by (subst (asm) token_end_from.simps)
      (auto simp: rbind_Inr_iff split: if_splits dest!: "1.IH")
qed

text \<open>The token loop of one line.\<close>

function universal_tokens ::
  "(bytes \<Rightarrow> bytes) \<Rightarrow> bytes \<Rightarrow> parse_limits \<Rightarrow> nat \<Rightarrow> nat \<Rightarrow> nat \<Rightarrow> nat \<Rightarrow> nat \<Rightarrow> syntax_node list \<Rightarrow> nat list \<Rightarrow>
   (syntax_node list \<times> nat list) result" where
  "universal_tokens blake3 source limits line rw line_start line_end token_start nodes token_children =
     (if token_start < line_end then
        rbind (index_at source token_start) (\<lambda>b.
        rbind (token_end_from source line_end (token_class b) (token_start + 1)) (\<lambda>token_end.
          let class = token_class b;
              end_position = (if class = LineFeed then \<lparr>row = rw + 1, column = 0\<rparr>
                              else \<lparr>row = rw, column = token_end - line_start\<rparr>)
          in
          rbind (push_universal_node limits 2 (token_kind class) (Some line) (Some ''token'')
                   \<lparr>start_byte = token_start, end_byte = token_end,
                    span_start = \<lparr>row = rw, column = token_start - line_start\<rparr>, span_end = end_position\<rparr> nodes)
            (\<lambda>(token, nodes1).
          rbind (finish_universal_node blake3 source nodes1 token) (\<lambda>nodes2.
            universal_tokens blake3 source limits line rw line_start line_end token_end nodes2
              (token_children @ [token])))))
      else Inr (nodes, token_children))"
  by pat_completeness auto

termination
  by (relation "measure (\<lambda>(_, _, _, _, _, _, line_end, token_start, _). line_end - token_start)")
    (auto dest: token_end_from_ge)

declare universal_tokens.simps [simp del]

lemma line_end_from_gt: "line_start < length source \<Longrightarrow> line_start < line_end_from source line_start"
  by (simp add: line_end_from_def Let_def)

text \<open>The line loop.\<close>

function universal_lines ::
  "(bytes \<Rightarrow> bytes) \<Rightarrow> bytes \<Rightarrow> parse_limits \<Rightarrow> nat \<Rightarrow> nat \<Rightarrow> nat \<Rightarrow> syntax_node list \<Rightarrow> nat list \<Rightarrow>
   (syntax_node list \<times> nat list) result" where
  "universal_lines blake3 source limits root line_start rw nodes root_children =
     (if line_start < length source then
        let line_end = line_end_from source line_start in
        rbind (index_at source (line_end - 1)) (\<lambda>b.
          let has_line_feed = (b = 10);
              line_end_position = (if has_line_feed then \<lparr>row = rw + 1, column = 0\<rparr>
                                   else \<lparr>row = rw, column = line_end - line_start\<rparr>)
          in
          rbind (push_universal_node limits 1 ''universal_line'' (Some root) (Some ''line'')
                   \<lparr>start_byte = line_start, end_byte = line_end,
                    span_start = \<lparr>row = rw, column = 0\<rparr>, span_end = line_end_position\<rparr> nodes)
            (\<lambda>(line, nodes1).
          rbind (universal_tokens blake3 source limits line rw line_start line_end line_start nodes1 [])
            (\<lambda>(nodes2, token_children).
          rbind (set_children nodes2 line token_children) (\<lambda>nodes3.
          rbind (finish_universal_node blake3 source nodes3 line) (\<lambda>nodes4.
            universal_lines blake3 source limits root line_end (if has_line_feed then rw + 1 else rw)
              nodes4 (root_children @ [line]))))))
      else Inr (nodes, root_children))"
  by pat_completeness auto

termination
  by (relation "measure (\<lambda>(_, source, _, _, line_start, _). length source - line_start)")
    (auto dest: line_end_from_gt intro: diff_less_mono2)

declare universal_lines.simps [simp del]

definition parse_universal :: "(bytes \<Rightarrow> bytes) \<Rightarrow> bytes \<Rightarrow> parse_limits \<Rightarrow> parsed_syntax result" where
  "parse_universal blake3 source limits =
     rbind (push_universal_node limits 0 ''universal_file'' None None
              \<lparr>start_byte = 0, end_byte = length source, span_start = \<lparr>row = 0, column = 0\<rparr>,
               span_end = universal_end_position source\<rparr> []) (\<lambda>(root, nodes).
     rbind (universal_lines blake3 source limits root 0 0 nodes []) (\<lambda>(nodes1, root_children).
     rbind (set_children nodes1 root root_children) (\<lambda>nodes2.
     rbind (finish_universal_node blake3 source nodes2 root) (\<lambda>nodes3.
       Inr \<lparr>ps_source = source, ps_nodes = nodes3, ps_root = root, ps_root_kind = ''universal_file'',
            ps_language = Universal\<rparr>))))"

section \<open>Tree-sitter trees\<close>

text \<open>What the accessors of \<open>tree_sitter::Node\<close> return; \<open>ts_field\<close> is the field name the parent
  reports for this child.\<close>

datatype ts_node = Ts_Node (ts_kind: string) (ts_named: bool) (ts_extra: bool) (ts_missing: bool)
  (ts_error: bool) (ts_field: "string option") (ts_span: span) (ts_children: "ts_node list")

text \<open>The grammars: whether the parser accepts one, the tree of a full parse, the callbacks it makes.\<close>

record ts_runtime =
  accepts_grammar :: "language \<Rightarrow> bool"
  parse_tree :: "language \<Rightarrow> bytes \<Rightarrow> ts_node option"
  parse_callbacks :: "language \<Rightarrow> bytes \<Rightarrow> nat"
  abi_version :: "language \<Rightarrow> nat"
  native_node_types :: "language \<Rightarrow> string"

definition syntax_hash ::
  "(bytes \<Rightarrow> bytes) \<Rightarrow> ts_node \<Rightarrow> nat list \<Rightarrow> bytes \<Rightarrow> syntax_node list \<Rightarrow> bytes result" where
  "syntax_hash blake3 t children source nodes =
     rbind
       (if children = [] then
          rbind (slice source (start_byte (ts_span t)) (end_byte (ts_span t))) (\<lambda>bs. Inr (put bs))
        else
          rbind (map_result (\<lambda>child. rbind (index_at nodes child) (\<lambda>c.
                   Inr (put_optional (node_field c) @ put (node_syntax_hash c)))) children)
            (\<lambda>parts. Inr (concat parts)))
       (\<lambda>body. Inr (blake3 (put (as_bytes ''stratadiff.syntax.v1'') @ put (as_bytes (ts_kind t)) @
          put_flags_values (ts_named t) (ts_extra t) (ts_missing t) @ body)))"

definition shape_hash ::
  "(bytes \<Rightarrow> bytes) \<Rightarrow> ts_node \<Rightarrow> nat list \<Rightarrow> syntax_node list \<Rightarrow> bytes result" where
  "shape_hash blake3 t children nodes =
     rbind (map_result (\<lambda>child. rbind (index_at nodes child) (\<lambda>c.
              Inr (put_optional (node_field c) @ put (node_shape_hash c)))) children) (\<lambda>parts.
       Inr (blake3 (put (as_bytes ''stratadiff.shape.v1'') @ put (as_bytes (normalized_kind (ts_kind t))) @
          put_flags_values (ts_named t) (ts_extra t) (ts_missing t) @ concat parts)))"

definition collect_finish ::
  "(bytes \<Rightarrow> bytes) \<Rightarrow> bytes \<Rightarrow> ts_node \<Rightarrow> nat \<Rightarrow> nat list \<Rightarrow> syntax_node list \<Rightarrow> (nat \<times> syntax_node list) result" where
  "collect_finish blake3 source t i children nodes =
     rbind (map_result (\<lambda>child. rbind (index_at nodes child) (\<lambda>c. Inr (node_subtree_size c))) children) (\<lambda>sizes.
     rbind (slice source (start_byte (ts_span t)) (end_byte (ts_span t))) (\<lambda>bs.
     rbind (syntax_hash blake3 t children source nodes) (\<lambda>sh.
     rbind (shape_hash blake3 t children nodes) (\<lambda>ph.
     rbind (index_at nodes i) (\<lambda>node.
       Inr (i, nodes[i := node\<lparr>node_children := children, node_subtree_size := 1 + sum_list sizes,
                               node_byte_hash := blake3_hex blake3 ''stratadiff.byte.v1'' bs,
                               node_syntax_hash := sh, node_shape_hash := ph\<rparr>]))))))"

fun collect ::
  "(bytes \<Rightarrow> bytes) \<Rightarrow> bytes \<Rightarrow> parse_limits \<Rightarrow> ts_node \<Rightarrow> nat option \<Rightarrow> string option \<Rightarrow> nat \<Rightarrow>
   syntax_node list \<Rightarrow> (nat \<times> syntax_node list) result"
and collect_children ::
  "(bytes \<Rightarrow> bytes) \<Rightarrow> bytes \<Rightarrow> parse_limits \<Rightarrow> ts_node list \<Rightarrow> nat \<Rightarrow> nat \<Rightarrow> nat list \<Rightarrow>
   syntax_node list \<Rightarrow> (nat list \<times> syntax_node list) result" where
  "collect blake3 source limits (Ts_Node kind named extra missing err fld sp cs) parent field depth nodes =
     (if depth > max_depth limits then Inl (ParseFailure (DepthExceeded (max_depth limits)))
      else if length nodes \<ge> max_nodes limits then Inl (ParseFailure (NodeCountExceeded (max_nodes limits)))
      else if err \<or> missing then Inl (ParseFailure (if missing then MissingNode else ErrorNode))
      else
        let i = length nodes;
            nodes1 = nodes @
              [\<lparr>node_id = i, node_kind = kind, node_named = named, node_extra = extra,
                node_missing = missing, node_field = field, node_span = sp, node_parent = parent,
                node_children = [], node_subtree_size = 1, node_byte_hash = zero_hash,
                node_syntax_hash = zero_hash, node_shape_hash = zero_hash\<rparr>]
        in if length cs > max_nodes limits - length nodes1
           then Inl (ParseFailure (NodeCountExceeded (max_nodes limits)))
           else rbind (collect_children blake3 source limits cs i (depth + 1) [] nodes1) (\<lambda>(children, nodes2).
             collect_finish blake3 source (Ts_Node kind named extra missing err fld sp cs) i children nodes2))"
| "collect_children blake3 source limits [] i depth children nodes = Inr (children, nodes)"
| "collect_children blake3 source limits (c # cs) i depth children nodes =
     rbind (collect blake3 source limits c (Some i) (ts_field c) depth nodes) (\<lambda>(child, nodes1).
       collect_children blake3 source limits cs i depth (children @ [child]) nodes1)"

definition parse_with_limits ::
  "(bytes \<Rightarrow> bytes) \<Rightarrow> ts_runtime \<Rightarrow> bytes \<Rightarrow> language \<Rightarrow> parse_limits \<Rightarrow> parsed_syntax result" where
  "parse_with_limits blake3 ts source language limits =
     (if language = Universal then parse_universal blake3 source limits
      else if \<not> accepts_grammar ts language then Inl (ParseFailure GrammarInitialisation)
      else if max_parse_callbacks limits \<noteq> usize_max \<and>
              parse_callbacks ts language source > max_parse_callbacks limits
        then Inl (ParseFailure (CallbackCountExceeded (max_parse_callbacks limits)))
      else rbind (of_option (ParseFailure NoSyntaxTree) (parse_tree ts language source)) (\<lambda>tree.
           rbind (collect blake3 source limits tree None None 0 []) (\<lambda>(root, nodes).
             Inr \<lparr>ps_source = source, ps_nodes = nodes, ps_root = root, ps_root_kind = ts_kind tree,
                  ps_language = language\<rparr>)))"

definition parse :: "(bytes \<Rightarrow> bytes) \<Rightarrow> ts_runtime \<Rightarrow> bytes \<Rightarrow> language \<Rightarrow> parsed_syntax result" where
  "parse blake3 ts source language = parse_with_limits blake3 ts source language COMPATIBILITY"

section \<open>Equality\<close>

text \<open>
  Both equalities recurse on child ids. On an arena with a cycle the source would not return; the
  model returns \<open>Diverges\<close> after as many nested calls as the left arena has nodes, which no
  acyclic descent can need.
\<close>

fun syntax_equal_fuel :: "nat \<Rightarrow> parsed_syntax \<Rightarrow> nat \<Rightarrow> parsed_syntax \<Rightarrow> nat \<Rightarrow> bool result" where
  "syntax_equal_fuel 0 left left_id right right_id = Inl Diverges"
| "syntax_equal_fuel (Suc fuel) left left_id right right_id =
     (if ps_language left \<noteq> ps_language right then Inr False
      else
        rbind (index_at (ps_nodes left) left_id) (\<lambda>left_node.
        rbind (index_at (ps_nodes right) right_id) (\<lambda>right_node.
        if node_kind left_node \<noteq> node_kind right_node
          \<or> node_named left_node \<noteq> node_named right_node
          \<or> node_extra left_node \<noteq> node_extra right_node
          \<or> node_missing left_node \<noteq> node_missing right_node
          \<or> length (node_children left_node) \<noteq> length (node_children right_node)
        then Inr False
        else if node_children left_node = [] then
          rbind (slice (ps_source left) (start_byte (node_span left_node)) (end_byte (node_span left_node))) (\<lambda>l.
          rbind (slice (ps_source right) (start_byte (node_span right_node)) (end_byte (node_span right_node))) (\<lambda>r.
            Inr (l = r)))
        else rall (\<lambda>(left_child, right_child).
            rbind (index_at (ps_nodes left) left_child) (\<lambda>lc.
            rbind (index_at (ps_nodes right) right_child) (\<lambda>rc.
              if node_field lc = node_field rc
              then syntax_equal_fuel fuel left left_child right right_child
              else Inr False)))
          (zip (node_children left_node) (node_children right_node)))))"

definition syntax_equal :: "parsed_syntax \<Rightarrow> nat \<Rightarrow> parsed_syntax \<Rightarrow> nat \<Rightarrow> bool result" where
  "syntax_equal left left_id right right_id =
     syntax_equal_fuel (Suc (length (ps_nodes left))) left left_id right right_id"

fun shape_equal_fuel :: "nat \<Rightarrow> parsed_syntax \<Rightarrow> nat \<Rightarrow> parsed_syntax \<Rightarrow> nat \<Rightarrow> bool result" where
  "shape_equal_fuel 0 left left_id right right_id = Inl Diverges"
| "shape_equal_fuel (Suc fuel) left left_id right right_id =
     (if ps_language left \<noteq> ps_language right then Inr False
      else
        rbind (index_at (ps_nodes left) left_id) (\<lambda>left_node.
        rbind (index_at (ps_nodes right) right_id) (\<lambda>right_node.
        if normalized_kind (node_kind left_node) \<noteq> normalized_kind (node_kind right_node)
          \<or> node_named left_node \<noteq> node_named right_node
          \<or> node_extra left_node \<noteq> node_extra right_node
          \<or> node_missing left_node \<noteq> node_missing right_node
          \<or> length (node_children left_node) \<noteq> length (node_children right_node)
        then Inr False
        else if ps_language left = Universal \<and> node_children left_node = [] then
          rbind (slice (ps_source left) (start_byte (node_span left_node)) (end_byte (node_span left_node))) (\<lambda>l.
          rbind (slice (ps_source right) (start_byte (node_span right_node)) (end_byte (node_span right_node))) (\<lambda>r.
            Inr (l = r)))
        else rall (\<lambda>(left_child, right_child).
            rbind (index_at (ps_nodes left) left_child) (\<lambda>lc.
            rbind (index_at (ps_nodes right) right_child) (\<lambda>rc.
              if node_field lc = node_field rc
              then shape_equal_fuel fuel left left_child right right_child
              else Inr False)))
          (zip (node_children left_node) (node_children right_node)))))"

definition shape_equal :: "parsed_syntax \<Rightarrow> nat \<Rightarrow> parsed_syntax \<Rightarrow> nat \<Rightarrow> bool result" where
  "shape_equal left left_id right right_id =
     shape_equal_fuel (Suc (length (ps_nodes left))) left left_id right right_id"

end
