(* ===== verification/Syntax_Tree.thy ===== *)
theory Syntax_Tree
  imports Syntax
begin

text \<open>
  The trees the node arenas of \<open>Syntax\<close> stand for. \<open>flatten\<close> numbers a tree in preorder,
  \<open>located\<close> says that an arena holds a numbered tree at an index, \<open>wf_syntax\<close> that an arena is the
  numbering of a tree whose spans lie in the source. The lemmas read off everything the verifier
  relies on: ids are indices, children have larger ids, parent links are the inverse of child
  links, and subtree sizes count nodes.
\<close>

section \<open>Numbered trees\<close>

datatype node_tree = Tree (label: syntax_node) (subtrees: "node_tree list")

primrec tree_size :: "node_tree \<Rightarrow> nat" where
  "tree_size (Tree n ts) = Suc (sum_list (map tree_size ts))"

fun child_ids :: "nat \<Rightarrow> node_tree list \<Rightarrow> nat list" where
  "child_ids b [] = []"
| "child_ids b (t # ts) = b # child_ids (b + tree_size t) ts"

definition numbered :: "syntax_node \<Rightarrow> nat \<Rightarrow> nat option \<Rightarrow> node_tree list \<Rightarrow> syntax_node" where
  "numbered n i p ts = n\<lparr>node_id := i, node_parent := p, node_children := child_ids (Suc i) ts,
     node_subtree_size := Suc (sum_list (map tree_size ts))\<rparr>"

fun flatten :: "nat \<Rightarrow> nat option \<Rightarrow> node_tree \<Rightarrow> syntax_node list"
and flatten_list :: "nat \<Rightarrow> nat option \<Rightarrow> node_tree list \<Rightarrow> syntax_node list" where
  "flatten b p (Tree n ts) = numbered n b p ts # flatten_list (Suc b) (Some b) ts"
| "flatten_list b p [] = []"
| "flatten_list b p (t # ts) = flatten b p t @ flatten_list (b + tree_size t) p ts"

fun located :: "syntax_node list \<Rightarrow> nat \<Rightarrow> nat option \<Rightarrow> node_tree \<Rightarrow> bool"
and located_list :: "syntax_node list \<Rightarrow> nat \<Rightarrow> nat option \<Rightarrow> node_tree list \<Rightarrow> bool" where
  "located N i p (Tree n ts) \<longleftrightarrow>
     i + tree_size (Tree n ts) \<le> length N \<and> N ! i = numbered n i p ts \<and> located_list N (Suc i) (Some i) ts"
| "located_list N i p [] \<longleftrightarrow> True"
| "located_list N i p (t # ts) \<longleftrightarrow> located N i p t \<and> located_list N (i + tree_size t) p ts"

lemma numbered_simps [simp]:
  "node_id (numbered n i p ts) = i" "node_parent (numbered n i p ts) = p"
  "node_children (numbered n i p ts) = child_ids (Suc i) ts"
  "node_subtree_size (numbered n i p ts) = Suc (sum_list (map tree_size ts))"
  "node_kind (numbered n i p ts) = node_kind n" "node_named (numbered n i p ts) = node_named n"
  "node_extra (numbered n i p ts) = node_extra n" "node_missing (numbered n i p ts) = node_missing n"
  "node_field (numbered n i p ts) = node_field n" "node_span (numbered n i p ts) = node_span n"
  "node_byte_hash (numbered n i p ts) = node_byte_hash n"
  "node_syntax_hash (numbered n i p ts) = node_syntax_hash n"
  "node_shape_hash (numbered n i p ts) = node_shape_hash n"
  by (simp_all add: numbered_def)

lemma tree_size_pos [simp]: "0 < tree_size t"
  by (cases t) simp

lemma tree_size_subtrees: "tree_size t = Suc (sum_list (map tree_size (subtrees t)))"
  by (cases t) simp

lemma length_flatten [simp]:
  "length (flatten b p t) = tree_size t"
  "length (flatten_list b p ts) = sum_list (map tree_size ts)"
  by (induction b p t and b p ts rule: flatten_flatten_list.induct) simp_all

lemma length_child_ids [simp]: "length (child_ids b ts) = length ts"
  by (induction b ts rule: child_ids.induct) simp_all

lemma child_ids_empty [simp]: "child_ids b ts = [] \<longleftrightarrow> ts = []"
  by (cases ts) simp_all

lemma child_ids_append: "child_ids b (ts @ us) = child_ids b ts @ child_ids (b + sum_list (map tree_size ts)) us"
  by (induction b ts rule: child_ids.induct) (simp_all add: add.assoc)

lemma flatten_list_append:
  "flatten_list b p (ts @ us) = flatten_list b p ts @ flatten_list (b + sum_list (map tree_size ts)) p us"
  by (induction ts arbitrary: b) (simp_all add: add.assoc)

lemma located_flatten_aux:
  "length xs = b \<Longrightarrow> located (xs @ flatten b p t @ ys) b p t"
  "length xs = b \<Longrightarrow> located_list (xs @ flatten_list b p ts @ ys) b p ts"
proof (induction b p t and b p ts arbitrary: xs ys and xs ys rule: flatten_flatten_list.induct)
  case (1 b p n ts)
  then show ?case using "1.IH" [of "xs @ [numbered n b p ts]" ys] by (auto simp: nth_append)
next
  case (3 b p t ts)
  then show ?case
    using "3.IH"(1) [of xs "flatten_list (b + tree_size t) p ts @ ys"] "3.IH"(2) [of "xs @ flatten b p t" ys]
    by auto
qed simp

lemma located_flatten: "located (flatten 0 p t) 0 p t"
  using located_flatten_aux(1) [of "[]" 0 p t "[]"] by simp

lemma flatten_nonempty [simp]: "flatten b p t \<noteq> []"
  by (cases t) simp

lemma located_size: "located N i p t \<Longrightarrow> i + tree_size t \<le> length N"
  by (cases t) simp

lemma located_list_size: "located_list N i p ts \<Longrightarrow> i \<le> length N \<Longrightarrow> i + sum_list (map tree_size ts) \<le> length N"
proof (induction ts arbitrary: i)
  case (Cons t ts)
  then have "i + tree_size t \<le> length N" by (auto dest: located_size)
  with Cons show ?case by (fastforce simp: add.assoc)
qed simp

lemma located_nth: "located N i p t \<Longrightarrow> i < length N \<and> N ! i = numbered (label t) i p (subtrees t)"
  by (cases t) simp

lemma located_list_append:
  "located_list N i p (ts @ us) \<longleftrightarrow>
     located_list N i p ts \<and> located_list N (i + sum_list (map tree_size ts)) p us"
  by (induction ts arbitrary: i) (auto simp: add.assoc)

text \<open>The children of a located node are located at the listed ids.\<close>

lemma located_list_nth:
  assumes "located_list N b p ts" "k < length ts"
  shows "located N (child_ids b ts ! k) p (ts ! k)" "b \<le> child_ids b ts ! k"
    "child_ids b ts ! k + tree_size (ts ! k) \<le> b + sum_list (map tree_size ts)"
  using assms
proof (induction ts arbitrary: b k)
  case (Cons t ts)
  { case 1 then show ?case using Cons.IH(1) by (cases k) auto }
  { case 2 then show ?case using Cons.IH(2) [of "b + tree_size t"] by (cases k) fastforce+ }
  { case 3 then show ?case using Cons.IH(3) [of "b + tree_size t"] by (cases k) (auto simp: add.assoc) }
qed simp_all

lemma located_children:
  assumes "located N i p t" "k < length (subtrees t)"
  shows "located N (node_children (N ! i) ! k) (Some i) (subtrees t ! k)"
    "i < node_children (N ! i) ! k"
    "node_children (N ! i) ! k + tree_size (subtrees t ! k) \<le> i + tree_size t"
  using assms located_list_nth [of N "Suc i" "Some i" "subtrees t" k]
  by (cases t; simp)+

text \<open>Every index of a numbered tree is the position of one of its subtrees.\<close>

lemma located_cover_aux:
  "located N i p t \<Longrightarrow> i \<le> k \<Longrightarrow> k < i + tree_size t \<Longrightarrow>
     \<exists>q s. located N k q s \<and> k + tree_size s \<le> i + tree_size t \<and>
       (k = i \<and> q = p \<or> (\<exists>j. q = Some j \<and> i \<le> j \<and> j < k \<and> k \<in> set (node_children (N ! j))))"
  "located_list N i p ts \<Longrightarrow> i \<le> k \<Longrightarrow> k < i + sum_list (map tree_size ts) \<Longrightarrow>
     \<exists>q s. located N k q s \<and> k + tree_size s \<le> i + sum_list (map tree_size ts) \<and>
       (k \<in> set (child_ids i ts) \<and> q = p \<or>
        (\<exists>j. q = Some j \<and> i \<le> j \<and> j < k \<and> k \<in> set (node_children (N ! j))))"
proof (induction N i p t and N i p ts rule: located_located_list.induct)
  case (1 N i p n ts)
  show ?case
  proof (cases "k = i")
    case True
    then show ?thesis using "1.prems" by (intro exI [of _ p] exI [of _ "Tree n ts"]) auto
  next
    case False
    then obtain q s where qs: "located N k q s" "k + tree_size s \<le> Suc i + sum_list (map tree_size ts)"
      "k \<in> set (child_ids (Suc i) ts) \<and> q = Some i \<or>
        (\<exists>j. q = Some j \<and> Suc i \<le> j \<and> j < k \<and> k \<in> set (node_children (N ! j)))"
      using 1 by fastforce
    moreover have "node_children (N ! i) = child_ids (Suc i) ts" using "1.prems" by simp
    ultimately show ?thesis using False "1.prems"
      by (intro exI [of _ q] exI [of _ s]) auto
  qed
next
  case (3 N i p t ts)
  show ?case
  proof (cases "k < i + tree_size t")
    case True
    with 3 obtain q s where "located N k q s" "k + tree_size s \<le> i + tree_size t"
      "k = i \<and> q = p \<or> (\<exists>j. q = Some j \<and> i \<le> j \<and> j < k \<and> k \<in> set (node_children (N ! j)))"
      by auto
    then show ?thesis by (intro exI [of _ q] exI [of _ s]) auto
  next
    case False
    with "3.IH"(2) "3.prems" obtain q s where "located N k q s"
      "k + tree_size s \<le> i + tree_size t + sum_list (map tree_size ts)"
      "k \<in> set (child_ids (i + tree_size t) ts) \<and> q = p \<or>
        (\<exists>j. q = Some j \<and> i + tree_size t \<le> j \<and> j < k \<and> k \<in> set (node_children (N ! j)))"
      by (auto simp: add.assoc)
    then show ?thesis by (intro exI [of _ q] exI [of _ s]) auto
  qed
qed simp

section \<open>Well-formed arenas\<close>

definition span_within :: "bytes \<Rightarrow> syntax_node \<Rightarrow> bool" where
  "span_within source n \<longleftrightarrow>
     start_byte (node_span n) \<le> end_byte (node_span n) \<and> end_byte (node_span n) \<le> length source"

definition represents :: "parsed_syntax \<Rightarrow> node_tree \<Rightarrow> bool" where
  "represents ps t \<longleftrightarrow> ps_nodes ps = flatten 0 None t \<and> ps_root ps = 0 \<and>
     (\<forall>n\<in>set (ps_nodes ps). span_within (ps_source ps) n)"

definition wf_syntax :: "parsed_syntax \<Rightarrow> bool" where
  "wf_syntax ps \<longleftrightarrow> (\<exists>t. represents ps t)"

lemma represents_wf [intro]: "represents ps t \<Longrightarrow> wf_syntax ps"
  by (auto simp: wf_syntax_def)

text \<open>The node at an index, with the tree below it.\<close>

lemma wf_located:
  assumes "wf_syntax ps" "k < length (ps_nodes ps)"
  obtains q s where "located (ps_nodes ps) k q s"
    "k = 0 \<and> q = None \<or>
     (\<exists>j. q = Some j \<and> j < k \<and> k \<in> set (node_children (ps_nodes ps ! j)))"
proof -
  obtain t where t: "ps_nodes ps = flatten 0 None t"
    using assms(1) by (auto simp: wf_syntax_def represents_def)
  from located_cover_aux(1) [OF located_flatten [of None t], of k] assms(2) t
  show ?thesis by (auto intro: that)
qed

lemma wf_root:
  assumes "wf_syntax ps"
  shows "ps_root ps = 0" "0 < length (ps_nodes ps)"
proof -
  obtain t where "ps_nodes ps = flatten 0 None t" "ps_root ps = 0"
    using assms by (auto simp: wf_syntax_def represents_def)
  then show "ps_root ps = 0" "0 < length (ps_nodes ps)" by simp_all
qed

lemma wf_node_id:
  assumes "wf_syntax ps" "k < length (ps_nodes ps)"
  shows "node_id (ps_nodes ps ! k) = k"
proof -
  obtain q s where "located (ps_nodes ps) k q s" by (rule wf_located [OF assms])
  then show ?thesis by (auto dest: located_nth)
qed

lemma wf_span:
  assumes "wf_syntax ps" "k < length (ps_nodes ps)"
  shows "start_byte (node_span (ps_nodes ps ! k)) \<le> end_byte (node_span (ps_nodes ps ! k))"
    "end_byte (node_span (ps_nodes ps ! k)) \<le> length (ps_source ps)"
  using assms by (auto simp: wf_syntax_def represents_def span_within_def)

lemma wf_child:
  assumes wf: "wf_syntax ps" and k: "k < length (ps_nodes ps)" and c: "c \<in> set (node_children (ps_nodes ps ! k))"
  shows "k < c" "c < length (ps_nodes ps)" "node_parent (ps_nodes ps ! c) = Some k"
proof -
  obtain q s where s: "located (ps_nodes ps) k q s" by (rule wf_located [OF wf k])
  then have eq: "node_children (ps_nodes ps ! k) = child_ids (Suc k) (subtrees s)"
    by (auto dest: located_nth)
  with c obtain m where m: "m < length (subtrees s)" "c = node_children (ps_nodes ps ! k) ! m"
    by (metis in_set_conv_nth length_child_ids)
  from located_children [OF s m(1)] m(2)
  show "k < c" "c < length (ps_nodes ps)" "node_parent (ps_nodes ps ! c) = Some k"
    by (auto dest: located_nth)
qed

lemma wf_parent:
  assumes wf: "wf_syntax ps" and k: "k < length (ps_nodes ps)" and p: "node_parent (ps_nodes ps ! k) = Some q"
  shows "q < k" "k \<in> set (node_children (ps_nodes ps ! q))"
proof -
  obtain r s where r: "located (ps_nodes ps) k r s"
    "k = 0 \<and> r = None \<or> (\<exists>j. r = Some j \<and> j < k \<and> k \<in> set (node_children (ps_nodes ps ! j)))"
    by (rule wf_located [OF wf k])
  then have "r = Some q" using p by (auto dest: located_nth)
  with r show "q < k" "k \<in> set (node_children (ps_nodes ps ! q))" by auto
qed

lemma wf_has_parent:
  assumes "wf_syntax ps" "k < length (ps_nodes ps)" "k \<noteq> ps_root ps"
  obtains q where "node_parent (ps_nodes ps ! k) = Some q"
proof -
  obtain r s where "located (ps_nodes ps) k r s"
    "k = 0 \<and> r = None \<or> (\<exists>j. r = Some j \<and> j < k \<and> k \<in> set (node_children (ps_nodes ps ! j)))"
    by (rule wf_located [OF assms(1,2)])
  then show ?thesis using assms(3) wf_root [OF assms(1)] that by (auto dest: located_nth)
qed

lemma sorted_child_ids: "sorted_wrt (<) (child_ids b ts) \<and> (\<forall>c\<in>set (child_ids b ts). b \<le> c)"
proof (induction b ts rule: child_ids.induct)
  case (2 b t ts)
  then show ?case by (auto intro: less_le_trans [of b "b + tree_size t"])
qed simp

lemma wf_children_sorted:
  assumes "wf_syntax ps" "k < length (ps_nodes ps)"
  shows "sorted_wrt (<) (node_children (ps_nodes ps ! k))" "distinct (node_children (ps_nodes ps ! k))"
proof -
  obtain q s where "located (ps_nodes ps) k q s" by (rule wf_located [OF assms])
  then show *: "sorted_wrt (<) (node_children (ps_nodes ps ! k))"
    using sorted_child_ids by (auto dest!: located_nth)
  show "distinct (node_children (ps_nodes ps ! k))"
    using * by (simp add: strict_sorted_iff)
qed

lemma wf_subtree_size:
  assumes "wf_syntax ps" "k < length (ps_nodes ps)"
  shows "0 < node_subtree_size (ps_nodes ps ! k)" "k + node_subtree_size (ps_nodes ps ! k) \<le> length (ps_nodes ps)"
proof -
  obtain q s where s: "located (ps_nodes ps) k q s" by (rule wf_located [OF assms])
  then have "node_subtree_size (ps_nodes ps ! k) = tree_size s"
    by (cases s) auto
  with located_size [OF s] show "0 < node_subtree_size (ps_nodes ps ! k)"
    "k + node_subtree_size (ps_nodes ps ! k) \<le> length (ps_nodes ps)" by auto
qed

end
