(* ===== verification/Syntax_Parse.thy ===== *)
theory Syntax_Parse
  imports Syntax_Tree
begin

text \<open>
  What the two parsers return. A successful parse of either kind is the preorder numbering of an
  explicit tree: \<open>tree_of_ts\<close> of the tree-sitter tree, or the file/line/token tree of the universal
  parser; the stored hashes are the digests of these trees; and a parse succeeds exactly when the tree
  is within the limits.
\<close>

section \<open>Digests of trees\<close>

definition span_bytes :: "bytes \<Rightarrow> syntax_node \<Rightarrow> bytes" where
  "span_bytes source n = take (end_byte (node_span n) - start_byte (node_span n)) (drop (start_byte (node_span n)) source)"

primrec syntax_digest :: "(bytes \<Rightarrow> bytes) \<Rightarrow> bytes \<Rightarrow> node_tree \<Rightarrow> bytes" where
  "syntax_digest blake3 source (Tree n ts) =
     blake3 (put (as_bytes ''stratadiff.syntax.v1'') @ put (as_bytes (node_kind n)) @
       put_flags_values (node_named n) (node_extra n) (node_missing n) @
       (if ts = [] then put (span_bytes source n)
        else concat (map2 (\<lambda>f d. put_optional f @ put d) (map (\<lambda>t. node_field (label t)) ts)
               (map (syntax_digest blake3 source) ts))))"

text \<open>The shape digest forgets the text of a leaf and normalises its kind, except for universal sources.\<close>

primrec shape_digest :: "(bytes \<Rightarrow> bytes) \<Rightarrow> bool \<Rightarrow> bytes \<Rightarrow> node_tree \<Rightarrow> bytes" where
  "shape_digest blake3 leaf_text source (Tree n ts) =
     blake3 (put (as_bytes ''stratadiff.shape.v1'') @ put (as_bytes (normalized_kind (node_kind n))) @
       put_flags_values (node_named n) (node_extra n) (node_missing n) @
       (if ts = [] \<and> leaf_text then put (span_bytes source n)
        else concat (map2 (\<lambda>f d. put_optional f @ put d) (map (\<lambda>t. node_field (label t)) ts)
               (map (shape_digest blake3 leaf_text source) ts))))"

primrec well_hashed :: "(bytes \<Rightarrow> bytes) \<Rightarrow> bool \<Rightarrow> bytes \<Rightarrow> node_tree \<Rightarrow> bool" where
  "well_hashed blake3 leaf_text source (Tree n ts) \<longleftrightarrow>
     node_byte_hash n = blake3_hex blake3 ''stratadiff.byte.v1'' (span_bytes source n) \<and>
     node_syntax_hash n = syntax_digest blake3 source (Tree n ts) \<and>
     node_shape_hash n = shape_digest blake3 leaf_text source (Tree n ts) \<and>
     list_all (well_hashed blake3 leaf_text source) ts"

definition sealed :: "(bytes \<Rightarrow> bytes) \<Rightarrow> bool \<Rightarrow> bytes \<Rightarrow> syntax_node \<Rightarrow> node_tree list \<Rightarrow> node_tree" where
  "sealed blake3 leaf_text source n ts =
     Tree (n\<lparr>node_byte_hash := blake3_hex blake3 ''stratadiff.byte.v1'' (span_bytes source n),
             node_syntax_hash := syntax_digest blake3 source (Tree n ts),
             node_shape_hash := shape_digest blake3 leaf_text source (Tree n ts)\<rparr>) ts"

definition fresh_node ::
  "string \<Rightarrow> bool \<Rightarrow> bool \<Rightarrow> bool \<Rightarrow> string option \<Rightarrow> span \<Rightarrow> nat \<Rightarrow> nat option \<Rightarrow> syntax_node" where
  "fresh_node kind named extra missing f sp i p =
     \<lparr>node_id = i, node_kind = kind, node_named = named, node_extra = extra, node_missing = missing,
      node_field = f, node_span = sp, node_parent = p, node_children = [], node_subtree_size = 1,
      node_byte_hash = zero_hash, node_syntax_hash = zero_hash, node_shape_hash = zero_hash\<rparr>"

lemma fresh_node_simps [simp]:
  "node_kind (fresh_node kind named extra missing f sp i p) = kind"
  "node_named (fresh_node kind named extra missing f sp i p) = named"
  "node_extra (fresh_node kind named extra missing f sp i p) = extra"
  "node_missing (fresh_node kind named extra missing f sp i p) = missing"
  "node_field (fresh_node kind named extra missing f sp i p) = f"
  "node_span (fresh_node kind named extra missing f sp i p) = sp"
  "node_children (fresh_node kind named extra missing f sp i p) = []"
  by (simp_all add: fresh_node_def)

lemma sealed_simps [simp]:
  "label (sealed blake3 leaf_text source n ts) =
     n\<lparr>node_byte_hash := blake3_hex blake3 ''stratadiff.byte.v1'' (span_bytes source n),
       node_syntax_hash := syntax_digest blake3 source (Tree n ts),
       node_shape_hash := shape_digest blake3 leaf_text source (Tree n ts)\<rparr>"
  "subtrees (sealed blake3 leaf_text source n ts) = ts"
  "tree_size (sealed blake3 leaf_text source n ts) = Suc (sum_list (map tree_size ts))"
  by (simp_all add: sealed_def)

lemma well_hashed_sealed: "list_all (well_hashed blake3 leaf_text source) ts \<Longrightarrow> well_hashed blake3 leaf_text source (sealed blake3 leaf_text source n ts)"
  by (simp add: sealed_def span_bytes_def)

lemma well_hashed_label:
  assumes "well_hashed blake3 leaf_text source t"
  shows "node_syntax_hash (label t) = syntax_digest blake3 source t"
    "node_shape_hash (label t) = shape_digest blake3 leaf_text source t"
    "list_all (well_hashed blake3 leaf_text source) (subtrees t)"
    "node_byte_hash (label t) = blake3_hex blake3 ''stratadiff.byte.v1'' (span_bytes source (label t))"
  using assms by (cases t; simp)+

section \<open>Reading the children of a numbered node\<close>

lemma children_lookup:
  assumes "located_list N b p ts"
    and "\<And>t i q. t \<in> set ts \<Longrightarrow> g (numbered (label t) i q (subtrees t)) = h t"
  shows "map_result (\<lambda>child. rbind (index_at N child) (\<lambda>c. Inr (g c))) (child_ids b ts) = Inr (map h ts)"
  using assms
proof (induction ts arbitrary: b)
  case (Cons t ts)
  then have "b < length N" "N ! b = numbered (label t) b p (subtrees t)"
    by (auto dest: located_nth)
  with Cons show ?case by simp
qed simp

lemma children_lookup_digest:
  assumes "located_list N b p ts" "list_all (well_hashed blake3 leaf_text source) ts"
  shows "map_result (\<lambda>child. rbind (index_at N child) (\<lambda>c. Inr (put_optional (node_field c) @ put (node_syntax_hash c))))
      (child_ids b ts) =
      Inr (map2 (\<lambda>f d. put_optional f @ put d) (map (\<lambda>t. node_field (label t)) ts) (map (syntax_digest blake3 source) ts))"
      (is ?by_syntax)
    "map_result (\<lambda>child. rbind (index_at N child) (\<lambda>c. Inr (put_optional (node_field c) @ put (node_shape_hash c))))
      (child_ids b ts) =
      Inr (map2 (\<lambda>f d. put_optional f @ put d) (map (\<lambda>t. node_field (label t)) ts) (map (shape_digest blake3 leaf_text source) ts))"
      (is ?by_shape)
proof -
  have wh: "node_syntax_hash (label t) = syntax_digest blake3 source t"
    "node_shape_hash (label t) = shape_digest blake3 leaf_text source t" if "t \<in> set ts" for t
    using assms(2) that by (auto simp: list_all_iff intro: well_hashed_label)
  show ?by_syntax
    by (subst children_lookup [OF assms(1),
          of _ "\<lambda>t. put_optional (node_field (label t)) @ put (syntax_digest blake3 source t)"])
      (simp_all add: wh map2_map_map)
  show ?by_shape
    by (subst children_lookup [OF assms(1),
          of _ "\<lambda>t. put_optional (node_field (label t)) @ put (shape_digest blake3 leaf_text source t)"])
      (simp_all add: wh map2_map_map)
qed

lemma children_lookup_size:
  assumes "located_list N b p ts"
  shows "map_result (\<lambda>child. rbind (index_at N child) (\<lambda>c. Inr (node_subtree_size c))) (child_ids b ts) =
    Inr (map tree_size ts)"
  by (rule children_lookup [OF assms]) (simp add: tree_size_subtrees)

text \<open>An open node in front of its finished children.\<close>

lemma located_open:
  "located_list (pre @ n # flatten_list (Suc (length pre)) q ts @ post) (Suc (length pre)) q ts"
  using located_flatten_aux(2) [of "pre @ [n]" "Suc (length pre)" q ts post] by simp

section \<open>The tree-sitter arena\<close>

fun tree_of_ts :: "(bytes \<Rightarrow> bytes) \<Rightarrow> bytes \<Rightarrow> string option \<Rightarrow> ts_node \<Rightarrow> node_tree" where
  "tree_of_ts blake3 source f (Ts_Node kind named extra missing err fld sp cs) =
     sealed blake3 False source (fresh_node kind named extra missing f sp 0 None)
       (map (\<lambda>c. tree_of_ts blake3 source (ts_field c) c) cs)"

fun ts_clean :: "ts_node \<Rightarrow> bool" where
  "ts_clean (Ts_Node kind named extra missing err fld sp cs) \<longleftrightarrow> \<not> err \<and> \<not> missing \<and> (\<forall>c\<in>set cs. ts_clean c)"

fun ts_within :: "bytes \<Rightarrow> ts_node \<Rightarrow> bool" where
  "ts_within source (Ts_Node kind named extra missing err fld sp cs) \<longleftrightarrow>
     start_byte sp \<le> end_byte sp \<and> end_byte sp \<le> length source \<and> (\<forall>c\<in>set cs. ts_within source c)"

fun ts_size :: "ts_node \<Rightarrow> nat" where
  "ts_size (Ts_Node kind named extra missing err fld sp cs) = Suc (sum_list (map ts_size cs))"

fun ts_height_within :: "nat \<Rightarrow> ts_node \<Rightarrow> bool" where
  "ts_height_within d (Ts_Node kind named extra missing err fld sp cs) \<longleftrightarrow>
     (\<forall>c\<in>set cs. 0 < d \<and> ts_height_within (d - 1) c)"

lemma well_hashed_tree_of_ts: "well_hashed blake3 False source (tree_of_ts blake3 source f t)"
proof (induction t arbitrary: f)
  case (Ts_Node kind named extra missing err fld sp cs)
  then show ?case
    by (simp del: well_hashed.simps) (rule well_hashed_sealed, simp add: list_all_iff)
qed

lemma tree_size_of_ts [simp]: "tree_size (tree_of_ts blake3 source f t) = ts_size t"
proof (induction t arbitrary: f)
  case (Ts_Node kind named extra missing err fld sp cs)
  then show ?case by (simp add: comp_def cong: map_cong)
qed

abbreviation ts_trees :: "(bytes \<Rightarrow> bytes) \<Rightarrow> bytes \<Rightarrow> ts_node list \<Rightarrow> node_tree list" where
  "ts_trees blake3 source cs \<equiv> map (\<lambda>c. tree_of_ts blake3 source (ts_field c) c) cs"

lemma collect_finish_sealed:
  fixes pre :: "syntax_node list" and source :: bytes and f :: "string option"
  assumes "start_byte (ts_span t) \<le> end_byte (ts_span t)" "end_byte (ts_span t) \<le> length source"
    and "list_all (well_hashed blake3 False source) ts"
  defines "n \<equiv> fresh_node (ts_kind t) (ts_named t) (ts_extra t) (ts_missing t) f (ts_span t)"
  shows "collect_finish blake3 source t (length pre) (child_ids (Suc (length pre)) ts)
      (pre @ n (length pre) p # flatten_list (Suc (length pre)) (Some (length pre)) ts) =
    Inr (length pre, pre @ flatten (length pre) p (sealed blake3 False source (n 0 None) ts))"
proof -
  let ?N = "pre @ n (length pre) p # flatten_list (Suc (length pre)) (Some (length pre)) ts"
  have loc: "located_list ?N (Suc (length pre)) (Some (length pre)) ts"
    using located_open [of pre _ _ ts "[]"] by simp
  note look = children_lookup_digest [OF loc assms(3)] children_lookup_size [OF loc]
  have sz: "length pre < length ?N" by simp
  have "collect_finish blake3 source t (length pre) (child_ids (Suc (length pre)) ts) ?N =
    Inr (length pre, pre @ (n (length pre) p)\<lparr>node_children := child_ids (Suc (length pre)) ts,
      node_subtree_size := 1 + sum_list (map tree_size ts),
      node_byte_hash := blake3_hex blake3 ''stratadiff.byte.v1'' (span_bytes source (n 0 None)),
      node_syntax_hash := syntax_digest blake3 source (Tree (n 0 None) ts),
      node_shape_hash := shape_digest blake3 False source (Tree (n 0 None) ts)\<rparr>
      # flatten_list (Suc (length pre)) (Some (length pre)) ts)"
    using assms(1,2)
    by (simp add: collect_finish_def look syntax_hash_def shape_hash_def) (simp add: n_def span_bytes_def)
  then show ?thesis by (simp add: sealed_def numbered_def n_def fresh_node_def)
qed

text \<open>A successful conversion is the numbering of the tree, and the tree is acceptable.\<close>

lemma collect_Inr:
  "collect blake3 source limits t parent field depth nodes = Inr (i, nodes') \<Longrightarrow>
     i = length nodes \<and> nodes' = nodes @ flatten (length nodes) parent (tree_of_ts blake3 source field t) \<and>
     ts_clean t \<and> ts_within source t \<and> length nodes + ts_size t \<le> max_nodes limits \<and>
     depth \<le> max_depth limits \<and> ts_height_within (max_depth limits - depth) t"
  "collect_children blake3 source limits cs i depth children nodes = Inr (children', nodes') \<Longrightarrow>
     children' = children @ child_ids (length nodes) (ts_trees blake3 source cs) \<and>
     nodes' = nodes @ flatten_list (length nodes) (Some i) (ts_trees blake3 source cs) \<and>
     (\<forall>c\<in>set cs. ts_clean c \<and> ts_within source c \<and> depth \<le> max_depth limits \<and>
        ts_height_within (max_depth limits - depth) c) \<and>
     (cs = [] \<or> length nodes + sum_list (map ts_size cs) \<le> max_nodes limits)"
proof (induction blake3 source limits t parent field depth nodes
    and blake3 source limits cs i depth children nodes
    arbitrary: i nodes' and children' nodes' rule: collect_collect_children.induct)
  case (1 blake3 source limits kind named extra missing err fld sp cs parent field depth nodes)
  let ?n = "fresh_node kind named extra missing field sp"
  let ?t = "Ts_Node kind named extra missing err fld sp cs"
  let ?ts = "ts_trees blake3 source cs"
  from "1.prems" have guards: "depth \<le> max_depth limits" "length nodes < max_nodes limits" "\<not> err" "\<not> missing"
    by (auto split: if_splits)
  from "1.prems" guards obtain children nodes2 where c:
    "collect_children blake3 source limits cs (length nodes) (depth + 1) [] (nodes @ [?n (length nodes) parent])
      = Inr (children, nodes2)"
    "collect_finish blake3 source ?t (length nodes) children nodes2 = Inr (i, nodes')"
    by (auto simp: Let_def rbind_Inr_iff fresh_node_def split: if_splits)
  from "1.prems" guards have cnt: "length cs \<le> max_nodes limits - Suc (length nodes)"
    by (auto simp: Let_def split: if_splits)
  have IH: "children = child_ids (Suc (length nodes)) ?ts"
    "nodes2 = nodes @ ?n (length nodes) parent # flatten_list (Suc (length nodes)) (Some (length nodes)) ?ts"
    "\<forall>c\<in>set cs. ts_clean c \<and> ts_within source c \<and> depth + 1 \<le> max_depth limits \<and>
        ts_height_within (max_depth limits - (depth + 1)) c"
    "cs = [] \<or> Suc (length nodes) + sum_list (map ts_size cs) \<le> max_nodes limits"
    using "1.IH" [of "length nodes" "nodes @ [?n (length nodes) parent]" children nodes2] guards cnt c(1)
    by (auto simp: fresh_node_def)
  have sp: "start_byte sp \<le> end_byte sp" "end_byte sp \<le> length source"
    using c(2) by (auto simp: collect_finish_def rbind_Inr_iff slice_def split: if_splits)
  have "collect_finish blake3 source ?t (length nodes) children nodes2 =
      Inr (length nodes, nodes @ flatten (length nodes) parent (tree_of_ts blake3 source field ?t))"
    using collect_finish_sealed [of ?t source blake3 ?ts nodes field parent] sp
    by (simp add: IH(1,2) list_all_iff well_hashed_tree_of_ts)
  with c(2) sp guards IH(3,4) show ?case by auto
next
  case (2 blake3 source limits i depth children nodes)
  then show ?case by simp
next
  case (3 blake3 source limits c cs i depth children nodes)
  from "3.prems" obtain child nodes1 where c:
    "collect blake3 source limits c (Some i) (ts_field c) depth nodes = Inr (child, nodes1)"
    "collect_children blake3 source limits cs i depth (children @ [child]) nodes1 = Inr (children', nodes')"
    by (auto simp: rbind_Inr_iff)
  from "3.IH"(1) [OF c(1)] "3.IH"(2) [OF c(1) refl c(2)] show ?case
    by (auto simp: add.assoc)
qed

lemma collect_complete:
  "ts_clean t \<Longrightarrow> ts_within source t \<Longrightarrow> length nodes + ts_size t \<le> max_nodes limits \<Longrightarrow>
     depth \<le> max_depth limits \<Longrightarrow> ts_height_within (max_depth limits - depth) t \<Longrightarrow>
     \<exists>r. collect blake3 source limits t parent field depth nodes = Inr r"
  "(\<forall>c\<in>set cs. ts_clean c \<and> ts_within source c \<and> depth \<le> max_depth limits \<and>
        ts_height_within (max_depth limits - depth) c) \<Longrightarrow>
     length nodes + sum_list (map ts_size cs) \<le> max_nodes limits \<Longrightarrow>
     \<exists>r. collect_children blake3 source limits cs i depth children nodes = Inr r"
proof (induction blake3 source limits t parent field depth nodes
    and blake3 source limits cs i depth children nodes rule: collect_collect_children.induct)
  case (1 blake3 source limits kind named extra missing err fld sp cs parent field depth nodes)
  let ?n = "fresh_node kind named extra missing field sp"
  let ?t = "Ts_Node kind named extra missing err fld sp cs"
  let ?ts = "ts_trees blake3 source cs"
  have len: "length cs \<le> sum_list (map ts_size cs)"
  proof (induction cs)
    case (Cons c cs)
    then show ?case by (cases c) simp
  qed simp
  have cond: "\<forall>c\<in>set cs. ts_clean c \<and> ts_within source c \<and> depth + 1 \<le> max_depth limits \<and>
      ts_height_within (max_depth limits - (depth + 1)) c"
    using "1.prems" by auto
  obtain r where "collect_children blake3 source limits cs (length nodes) (depth + 1) []
      (nodes @ [?n (length nodes) parent]) = Inr r"
    using "1.IH" [of "length nodes" "nodes @ [?n (length nodes) parent]"] "1.prems" cond len
    by (fastforce simp: fresh_node_def)
  then obtain children nodes2 where c: "collect_children blake3 source limits cs (length nodes) (depth + 1) []
      (nodes @ [?n (length nodes) parent]) = Inr (children, nodes2)" by (cases r) auto
  have eq: "children = child_ids (Suc (length nodes)) ?ts"
    "nodes2 = nodes @ ?n (length nodes) parent # flatten_list (Suc (length nodes)) (Some (length nodes)) ?ts"
    using collect_Inr(2) [OF c] by auto
  have "collect_finish blake3 source ?t (length nodes) children nodes2 =
      Inr (length nodes, nodes @ flatten (length nodes) parent (tree_of_ts blake3 source field ?t))"
    using collect_finish_sealed [of ?t source blake3 ?ts nodes field parent] "1.prems"
    by (simp add: eq list_all_iff well_hashed_tree_of_ts)
  moreover have "length nodes < max_nodes limits" "length cs \<le> max_nodes limits - Suc (length nodes)"
    using "1.prems" len by auto
  ultimately show ?case using "1.prems" c by (simp add: Let_def fresh_node_def)
next
  case (3 blake3 source limits c cs i depth children nodes)
  then obtain child nodes1 where c:
    "collect blake3 source limits c (Some i) (ts_field c) depth nodes = Inr (child, nodes1)"
    by fastforce
  moreover have "length nodes1 = length nodes + ts_size c" using collect_Inr(1) [OF c] by simp
  ultimately show ?case using "3.IH"(2) [OF c refl] "3.prems" by (simp add: add.assoc)
qed simp

text \<open>The conversion never indexes out of range: it ends in a diagnosed parse failure or a value.\<close>

lemma collect_failure:
  "ts_within source t \<Longrightarrow> collect blake3 source limits t parent field depth nodes = Inl e \<Longrightarrow> \<exists>pf. e = ParseFailure pf"
  "(\<forall>c\<in>set cs. ts_within source c) \<Longrightarrow>
     collect_children blake3 source limits cs i depth children nodes = Inl e \<Longrightarrow> \<exists>pf. e = ParseFailure pf"
proof (induction blake3 source limits t parent field depth nodes
    and blake3 source limits cs i depth children nodes rule: collect_collect_children.induct)
  case (1 blake3 source limits kind named extra missing err fld sp cs parent field depth nodes)
  let ?n = "fresh_node kind named extra missing field sp"
  let ?t = "Ts_Node kind named extra missing err fld sp cs"
  let ?ts = "ts_trees blake3 source cs"
  let ?r = "collect_children blake3 source limits cs (length nodes) (depth + 1) []
      (nodes @ [?n (length nodes) parent])"
  show ?case
  proof (cases "depth \<le> max_depth limits \<and> length nodes < max_nodes limits \<and> \<not> err \<and> \<not> missing \<and>
      length cs \<le> max_nodes limits - Suc (length nodes)")
    case False
    then show ?thesis using "1.prems" by (auto simp: Let_def split: if_splits)
  next
    case True
    show ?thesis
    proof (cases ?r)
      case (Inl e')
      with "1.IH" [of "length nodes" "nodes @ [?n (length nodes) parent]"] "1.prems" True
      show ?thesis by (auto simp: Let_def fresh_node_def)
    next
      case (Inr x)
      then obtain children nodes2 where c: "?r = Inr (children, nodes2)" by (cases x) auto
      have eq: "children = child_ids (Suc (length nodes)) ?ts"
        "nodes2 = nodes @ ?n (length nodes) parent # flatten_list (Suc (length nodes)) (Some (length nodes)) ?ts"
        using collect_Inr(2) [OF c] by auto
      have "collect_finish blake3 source ?t (length nodes) children nodes2 =
          Inr (length nodes, nodes @ flatten (length nodes) parent (tree_of_ts blake3 source field ?t))"
        using collect_finish_sealed [of ?t source blake3 ?ts nodes field parent] "1.prems"
        by (simp add: eq list_all_iff well_hashed_tree_of_ts)
      with c "1.prems" True show ?thesis by (simp add: Let_def fresh_node_def)
    qed
  qed
next
  case (3 blake3 source limits c cs i depth children nodes)
  show ?case
  proof (cases "collect blake3 source limits c (Some i) (ts_field c) depth nodes")
    case (Inl e')
    with 3 show ?thesis by simp
  next
    case (Inr x)
    then show ?thesis using "3.IH"(2) [OF Inr, of "fst x" "snd x"] "3.prems" by (cases x) auto
  qed
qed simp

text \<open>The spans of a numbered tree are those of its labels.\<close>

lemma flatten_spans:
  "(\<forall>n\<in>set (flatten b p (tree_of_ts blake3 source f t)). span_within source n) \<longleftrightarrow> ts_within source t"
proof (induction t arbitrary: b p f)
  case (Ts_Node kind named extra missing err fld sp cs)
  have list: "(\<forall>n\<in>set (flatten_list b p (ts_trees blake3 source cs')). span_within source n) \<longleftrightarrow>
      (\<forall>c\<in>set cs'. ts_within source c)" if "set cs' \<subseteq> set cs" for b p cs'
    using that by (induction cs' arbitrary: b) (auto simp: Ts_Node.IH ball_Un)
  show ?case using list [of cs "Suc b" "Some b"] by (simp add: sealed_def span_within_def)
qed

section \<open>The universal arena\<close>

function token_spans :: "bytes \<Rightarrow> nat \<Rightarrow> nat \<Rightarrow> (nat \<times> nat) list" where
  "token_spans source line_end i =
     (if i < line_end then
        let j = i + 1 + length (takeWhile (\<lambda>b. token_class b = token_class (source ! i))
                  (take (line_end - (i + 1)) (drop (i + 1) source)))
        in (i, j) # token_spans source line_end j
      else [])"
  by pat_completeness auto

termination by (relation "measure (\<lambda>(_, line_end, i). line_end - i)") auto

declare token_spans.simps [simp del]

definition universal_node ::
  "(bytes \<Rightarrow> bytes) \<Rightarrow> bytes \<Rightarrow> string \<Rightarrow> string option \<Rightarrow> span \<Rightarrow> node_tree list \<Rightarrow> node_tree" where
  "universal_node blake3 source kind f sp ts =
     sealed blake3 True source (fresh_node kind True False False f sp 0 None) ts"

definition token_tree :: "(bytes \<Rightarrow> bytes) \<Rightarrow> bytes \<Rightarrow> nat \<Rightarrow> nat \<Rightarrow> nat \<times> nat \<Rightarrow> node_tree" where
  "token_tree blake3 source rw line_start ij =
     (case ij of (i, j) \<Rightarrow>
        universal_node blake3 source (token_kind (token_class (source ! i))) (Some ''token'')
          \<lparr>start_byte = i, end_byte = j, span_start = \<lparr>row = rw, column = i - line_start\<rparr>,
           span_end = (if token_class (source ! i) = LineFeed then \<lparr>row = rw + 1, column = 0\<rparr>
                       else \<lparr>row = rw, column = j - line_start\<rparr>)\<rparr> [])"

definition line_tree :: "(bytes \<Rightarrow> bytes) \<Rightarrow> bytes \<Rightarrow> nat \<Rightarrow> nat \<Rightarrow> nat \<Rightarrow> node_tree" where
  "line_tree blake3 source rw line_start line_end =
     universal_node blake3 source ''universal_line'' (Some ''line'')
       \<lparr>start_byte = line_start, end_byte = line_end, span_start = \<lparr>row = rw, column = 0\<rparr>,
        span_end = (if source ! (line_end - 1) = 10 then \<lparr>row = rw + 1, column = 0\<rparr>
                    else \<lparr>row = rw, column = line_end - line_start\<rparr>)\<rparr>
       (map (token_tree blake3 source rw line_start) (token_spans source line_end line_start))"

function line_trees :: "(bytes \<Rightarrow> bytes) \<Rightarrow> bytes \<Rightarrow> nat \<Rightarrow> nat \<Rightarrow> node_tree list" where
  "line_trees blake3 source line_start rw =
     (if line_start < length source then
        let line_end = line_end_from source line_start in
        line_tree blake3 source rw line_start line_end #
          line_trees blake3 source line_end (if source ! (line_end - 1) = 10 then rw + 1 else rw)
      else [])"
  by pat_completeness auto

termination
  by (relation "measure (\<lambda>(_, source, line_start, _). length source - line_start)")
    (auto dest: line_end_from_gt intro: diff_less_mono2)

declare line_trees.simps [simp del]

definition universal_tree :: "(bytes \<Rightarrow> bytes) \<Rightarrow> bytes \<Rightarrow> node_tree" where
  "universal_tree blake3 source =
     universal_node blake3 source ''universal_file'' None
       \<lparr>start_byte = 0, end_byte = length source, span_start = \<lparr>row = 0, column = 0\<rparr>,
        span_end = universal_end_position source\<rparr> (line_trees blake3 source 0 0)"

lemma universal_kinds [simp]:
  "normalized_kind ''universal_file'' = ''universal_file''"
  "normalized_kind ''universal_line'' = ''universal_line''"
  by (simp_all add: normalized_kind_def)

lemma token_kind_normalized [simp]: "normalized_kind (token_kind c) = token_kind c"
  by (cases c) (simp_all add: normalized_kind_def)

lemma finish_universal_sealed:
  fixes pre :: "syntax_node list" and kind :: string and f :: "string option" and sp :: span
  defines "n \<equiv> fresh_node kind True False False f sp"
  assumes "start_byte sp \<le> end_byte sp" "end_byte sp \<le> length source"
    and "list_all (well_hashed blake3 True source) ts" "normalized_kind kind = kind"
  shows "finish_universal_node blake3 source
      (pre @ (n (length pre) p)\<lparr>node_children := child_ids (Suc (length pre)) ts\<rparr>
         # flatten_list (Suc (length pre)) (Some (length pre)) ts) (length pre) =
    Inr (pre @ flatten (length pre) p (universal_node blake3 source kind f sp ts))"
proof -
  define m where "m = (n (length pre) p)\<lparr>node_children := child_ids (Suc (length pre)) ts\<rparr>"
  let ?N = "pre @ m # flatten_list (Suc (length pre)) (Some (length pre)) ts"
  have loc: "located_list ?N (Suc (length pre)) (Some (length pre)) ts"
    using located_open [of pre _ _ ts "[]"] by simp
  note look = children_lookup_digest [OF loc assms(4)] children_lookup_size [OF loc]
  have m: "node_children m = child_ids (Suc (length pre)) ts" "node_span m = sp" "node_kind m = kind"
    "node_named m" "\<not> node_extra m" "\<not> node_missing m"
    by (simp_all add: m_def n_def)
  have "finish_universal_node blake3 source ?N (length pre) =
    Inr (pre @ m\<lparr>node_subtree_size := 1 + sum_list (map tree_size ts),
      node_byte_hash := blake3_hex blake3 ''stratadiff.byte.v1'' (span_bytes source (n 0 None)),
      node_syntax_hash := syntax_digest blake3 source (Tree (n 0 None) ts),
      node_shape_hash := shape_digest blake3 True source (Tree (n 0 None) ts)\<rparr>
      # flatten_list (Suc (length pre)) (Some (length pre)) ts)"
    using assms(2,3,5)
    by (simp add: finish_universal_node_def look universal_structural_hash_def m)
      (simp add: n_def span_bytes_def)
  then show ?thesis
    by (simp add: m_def n_def sealed_def numbered_def fresh_node_def universal_node_def)
qed

lemma finish_universal_leaf:
  fixes blake3 :: "bytes \<Rightarrow> bytes"
  assumes "start_byte sp \<le> end_byte sp" "end_byte sp \<le> length source" "normalized_kind kind = kind"
  shows "finish_universal_node blake3 source (nodes @ [fresh_node kind True False False f sp (length nodes) p]) (length nodes) =
    Inr (nodes @ flatten (length nodes) p (universal_node blake3 source kind f sp []))"
  using finish_universal_sealed [OF assms(1,2) _ assms(3), of blake3 "[]" nodes f p] by (simp add: fresh_node_def)

lemma token_end_from_eq:
  assumes "line_end \<le> length source" "i \<le> line_end"
  shows "token_end_from source line_end c i =
    Inr (i + length (takeWhile (\<lambda>b. token_class b = c) (take (line_end - i) (drop i source))))"
  using assms
proof (induction source line_end c i rule: token_end_from.induct)
  case (1 source line_end c i)
  show ?case
  proof (cases "i < line_end")
    case True
    then have "take (line_end - i) (drop i source) = source ! i # take (line_end - Suc i) (drop (Suc i) source)"
      using 1 by (metis Cons_nth_drop_Suc Suc_diff_Suc less_le_trans take_Suc_Cons)
    with 1 True show ?thesis by (subst token_end_from.simps) simp
  next
    case False
    then show ?thesis by (subst token_end_from.simps) simp
  qed
qed

lemma token_spans_done [simp]: "\<not> i < line_end \<Longrightarrow> token_spans source line_end i = []"
  by (simp add: token_spans.simps)

lemma token_spans_step:
  assumes "i < line_end"
  shows "\<exists>j. token_spans source line_end i = (i, j) # token_spans source line_end j \<and> i < j \<and> j \<le> line_end \<and>
     j = i + 1 + length (takeWhile (\<lambda>b. token_class b = token_class (source ! i))
                  (take (line_end - (i + 1)) (drop (i + 1) source)))"
proof -
  have "length (takeWhile P (take n xs)) \<le> n" for P :: "u8 \<Rightarrow> bool" and n xs
    using length_takeWhile_le [of P "take n xs"] by simp
  then have "i + 1 + length (takeWhile (\<lambda>b. token_class b = token_class (source ! i))
                  (take (line_end - (i + 1)) (drop (i + 1) source))) \<le> line_end"
    using assms by (metis Suc_eq_plus1 Suc_leI le_diff_conv2 add.commute)
  then show ?thesis using assms by (subst token_spans.simps) (simp add: Let_def)
qed

definition fits :: "parse_limits \<Rightarrow> nat \<Rightarrow> nat \<Rightarrow> bool" where
  "fits limits depth count \<longleftrightarrow> depth \<le> max_depth limits \<and> count \<le> max_nodes limits"

lemma well_hashed_universal_node [simp]:
  "list_all (well_hashed blake3 True source) ts \<Longrightarrow>
   well_hashed blake3 True source (universal_node blake3 source kind f sp ts)"
  by (simp add: universal_node_def well_hashed_sealed)

lemma well_hashed_token_tree [simp]: "well_hashed blake3 True source (token_tree blake3 source rw ls ij)"
  by (cases ij) (simp add: token_tree_def)

lemma tree_size_token_tree [simp]: "tree_size (token_tree blake3 source rw ls ij) = 1"
  by (cases ij) (simp add: token_tree_def universal_node_def)

lemma sum_token_sizes [simp]:
  "sum_list (map (tree_size \<circ> token_tree blake3 source rw ls) xs) = length xs"
  by (induction xs) simp_all

text \<open>The token loop of a line appends the numbering of its tokens, or runs into a limit.\<close>

lemma universal_tokens_eq:
  fixes blake3 :: "bytes \<Rightarrow> bytes" and rw line_start :: nat
  assumes "line_end \<le> length source" "token_start \<le> line_end"
  defines "ts i \<equiv> map (token_tree blake3 source rw line_start) (token_spans source line_end i)"
  shows "if token_start = line_end \<or> fits limits 2 (length nodes + length (ts token_start))
    then universal_tokens blake3 source limits line rw line_start line_end token_start nodes children =
      Inr (nodes @ flatten_list (length nodes) (Some line) (ts token_start),
           children @ child_ids (length nodes) (ts token_start))
    else \<exists>pf. universal_tokens blake3 source limits line rw line_start line_end token_start nodes children =
      Inl (ParseFailure pf)"
  using assms(1,2)
proof (induction "line_end - token_start" arbitrary: token_start nodes children rule: less_induct)
  case less
  show ?case
  proof (cases "token_start < line_end")
    case False
    then show ?thesis using less.prems
      by (subst universal_tokens.simps) (simp add: ts_def)
  next
    case True
    then obtain j where j: "token_spans source line_end token_start = (token_start, j) # token_spans source line_end j"
      "token_start < j" "j \<le> line_end"
      "j = token_start + 1 + length (takeWhile (\<lambda>b. token_class b = token_class (source ! token_start))
                  (take (line_end - (token_start + 1)) (drop (token_start + 1) source)))"
      using token_spans_step by blast
    have e: "token_end_from source line_end (token_class (source ! token_start)) (token_start + 1) = Inr j"
      using token_end_from_eq [of line_end source "token_start + 1"] less.prems True j(4) by simp
    let ?t = "token_tree blake3 source rw line_start (token_start, j)"
    have ts: "ts token_start = ?t # ts j" by (simp add: ts_def j(1))
    show ?thesis
    proof (cases "fits limits 2 (Suc (length nodes))")
      case False
      then have "\<not> fits limits 2 (length nodes + length (ts token_start))" by (auto simp: ts fits_def)
      moreover have "\<exists>pf. universal_tokens blake3 source limits line rw line_start line_end token_start nodes children =
        Inl (ParseFailure pf)"
        using False True less.prems e
        by (subst universal_tokens.simps) (auto simp: push_universal_node_def fits_def Let_def)
      ultimately show ?thesis using True by simp
    next
      case True
      note fit = this
      have step: "universal_tokens blake3 source limits line rw line_start line_end token_start nodes children =
        universal_tokens blake3 source limits line rw line_start line_end j
          (nodes @ flatten (length nodes) (Some line) ?t) (children @ [length nodes])"
        using finish_universal_leaf [where f = "Some ''token''" and p = "Some line" and nodes = nodes and
            kind = "token_kind (token_class (source ! token_start))" and source = source]
          \<open>token_start < line_end\<close> less.prems e j(2,3) fit
        by (subst universal_tokens.simps)
          (simp add: push_universal_node_def fits_def Let_def token_tree_def fresh_node_def)
      have len: "length (flatten (length nodes) (Some line) ?t) = 1" by simp
      show ?thesis
        using less.hyps [of j "nodes @ flatten (length nodes) (Some line) ?t" "children @ [length nodes]"]
          less.prems j(2,3) fit \<open>token_start < line_end\<close>
        by (cases "j = line_end") (auto simp: step fits_def ts_def j(1) split: if_splits)
    qed
  qed
qed

lemma line_end_from_le: "line_end_from source i \<le> length source"
  by (auto simp: line_end_from_def Let_def)

lemma line_trees_done [simp]: "\<not> i < length source \<Longrightarrow> line_trees blake3 source i rw = []"
  by (simp add: line_trees.simps)

lemma line_trees_step:
  "i < length source \<Longrightarrow> line_trees blake3 source i rw =
     line_tree blake3 source rw i (line_end_from source i) #
       line_trees blake3 source (line_end_from source i)
         (if source ! (line_end_from source i - 1) = 10 then rw + 1 else rw)"
  by (subst line_trees.simps) (simp add: Let_def)

lemma well_hashed_line_tree [simp]: "well_hashed blake3 True source (line_tree blake3 source rw i j)"
  by (simp add: line_tree_def list_all_iff)

lemma well_hashed_line_trees [simp]: "list_all (well_hashed blake3 True source) (line_trees blake3 source i rw)"
proof (induction blake3 source i rw rule: line_trees.induct)
  case (1 blake3 source i rw)
  then show ?case by (cases "i < length source") (auto simp: line_trees_step Let_def)
qed

lemma tree_size_line_tree: "tree_size (line_tree blake3 source rw i j) = Suc (length (token_spans source j i))"
  by (simp add: line_tree_def universal_node_def)

text \<open>One iteration of the line loop.\<close>

lemma universal_line_step:
  fixes blake3 :: "bytes \<Rightarrow> bytes" and rw root :: nat and children :: "nat list"
  assumes i: "i < length source"
  defines "j \<equiv> line_end_from source i"
  defines "t \<equiv> line_tree blake3 source rw i j"
  shows "if fits limits 2 (length nodes + tree_size t)
    then universal_lines blake3 source limits root i rw nodes children =
      universal_lines blake3 source limits root j (if source ! (j - 1) = 10 then rw + 1 else rw)
        (nodes @ flatten (length nodes) (Some root) t) (children @ [length nodes])
    else \<exists>pf. universal_lines blake3 source limits root i rw nodes children = Inl (ParseFailure pf)"
proof -
  have j: "i < j" "j \<le> length source" using i by (auto simp: j_def line_end_from_gt line_end_from_le)
  let ?sp = "\<lparr>start_byte = i, end_byte = j, span_start = \<lparr>row = rw, column = 0\<rparr>,
     span_end = if source ! (j - 1) = 10 then \<lparr>row = rw + 1, column = 0\<rparr> else \<lparr>row = rw, column = j - i\<rparr>\<rparr>"
  let ?n = "fresh_node ''universal_line'' True False False (Some ''line'') ?sp (length nodes) (Some root)"
  let ?toks = "map (token_tree blake3 source rw i) (token_spans source j i)"
  have size: "tree_size t = Suc (length ?toks)" by (simp add: t_def tree_size_line_tree)
  note tokens = universal_tokens_eq [where line_end = j and source = source and token_start = i and ?blake3.0 = blake3
      and rw = rw and line_start = i and limits = limits and nodes = "nodes @ [?n]" and line = "length nodes" and children = "[]"]
  show ?thesis
  proof (cases "fits limits 1 (Suc (length nodes))")
    case False
    then have "\<exists>pf. universal_lines blake3 source limits root i rw nodes children = Inl (ParseFailure pf)"
      using i j by (subst universal_lines.simps)
        (auto simp: push_universal_node_def fits_def Let_def j_def [symmetric])
    with False show ?thesis by (auto simp: fits_def size)
  next
    case True
    have push: "push_universal_node limits 1 ''universal_line'' (Some root) (Some ''line'') ?sp nodes =
        Inr (length nodes, nodes @ [?n])"
      using True by (simp add: push_universal_node_def fits_def fresh_node_def)
    show ?thesis
    proof (cases "fits limits 2 (length nodes + tree_size t)")
      case False
      then have "\<exists>pf. universal_tokens blake3 source limits (length nodes) rw i j i (nodes @ [?n]) [] = Inl (ParseFailure pf)"
        using tokens j by (simp add: size)
      then have "\<exists>pf. universal_lines blake3 source limits root i rw nodes children = Inl (ParseFailure pf)"
        using i j push by (subst universal_lines.simps) (auto simp: Let_def j_def [symmetric])
      with False show ?thesis by simp
    next
      case fit: True
      let ?rest = "flatten_list (Suc (length nodes)) (Some (length nodes)) ?toks"
      have tok: "universal_tokens blake3 source limits (length nodes) rw i j i (nodes @ [?n]) [] =
          Inr (nodes @ ?n # ?rest, child_ids (Suc (length nodes)) ?toks)"
        using tokens j fit by (simp add: size)
      have fin: "finish_universal_node blake3 source
          (nodes @ ?n\<lparr>node_children := child_ids (Suc (length nodes)) ?toks\<rparr> # ?rest) (length nodes) =
          Inr (nodes @ flatten (length nodes) (Some root) t)"
        using finish_universal_sealed [of ?sp source blake3 ?toks "''universal_line''" nodes "Some ''line''" "Some root"] j
        by (simp add: t_def line_tree_def list_all_iff)
      show ?thesis
        using fit i j push tok fin
        by (subst universal_lines.simps) (simp add: Let_def set_children_def j_def [symmetric])
    qed
  qed
qed

lemma universal_lines_eq:
  assumes "i \<le> length source"
  shows "if i = length source \<or> fits limits 2 (length nodes + sum_list (map tree_size (line_trees blake3 source i rw)))
    then universal_lines blake3 source limits root i rw nodes children =
      Inr (nodes @ flatten_list (length nodes) (Some root) (line_trees blake3 source i rw),
           children @ child_ids (length nodes) (line_trees blake3 source i rw))
    else \<exists>pf. universal_lines blake3 source limits root i rw nodes children = Inl (ParseFailure pf)"
  using assms
proof (induction "length source - i" arbitrary: i rw nodes children rule: less_induct)
  case less
  show ?case
  proof (cases "i < length source")
    case False
    then show ?thesis using less.prems by (subst universal_lines.simps) simp
  next
    case True
    define j where "j = line_end_from source i"
    have j: "i < j" "j \<le> length source" using True by (auto simp: j_def line_end_from_gt line_end_from_le)
    define t where "t = line_tree blake3 source rw i j"
    define rw' where "rw' = (if source ! (j - 1) = 10 then rw + 1 else rw)"
    have ts: "line_trees blake3 source i rw = t # line_trees blake3 source j rw'"
      using True by (simp add: line_trees_step t_def rw'_def j_def)
    note step = universal_line_step [OF True, of limits nodes blake3 rw root children,
        folded j_def, folded t_def, folded rw'_def]
    note IH = less.hyps [of j "nodes @ flatten (length nodes) (Some root) t" rw' "children @ [length nodes]"]
    show ?thesis
      using step IH j True by (cases "j = length source") (auto simp: ts fits_def add.assoc split: if_splits)
  qed
qed

text \<open>What \<open>parse_universal\<close> returns, and when.\<close>

definition universal_fits :: "parse_limits \<Rightarrow> bytes \<Rightarrow> bool" where
  "universal_fits limits source \<longleftrightarrow>
     tree_size (universal_tree id source) \<le> max_nodes limits \<and> (source = [] \<or> 2 \<le> max_depth limits)"

lemma line_trees_sizes:
  "map tree_size (line_trees blake3 source i rw) = map tree_size (line_trees blake3' source i rw)"
proof (induction blake3 source i rw rule: line_trees.induct)
  case (1 blake3 source i rw)
  then show ?case by (cases "i < length source") (auto simp: line_trees_step Let_def tree_size_line_tree)
qed

lemma tree_size_universal:
  "tree_size (universal_tree blake3 source) = Suc (sum_list (map tree_size (line_trees blake3 source 0 0)))"
  by (simp add: universal_tree_def universal_node_def)

lemma parse_universal_cases:
  "if universal_fits limits source
   then parse_universal blake3 source limits =
     Inr \<lparr>ps_source = source, ps_nodes = flatten 0 None (universal_tree blake3 source), ps_root = 0,
          ps_root_kind = ''universal_file'', ps_language = Universal\<rparr>
   else \<exists>pf. parse_universal blake3 source limits = Inl (ParseFailure pf)"
proof -
  let ?sp = "\<lparr>start_byte = 0, end_byte = length source, span_start = \<lparr>row = 0, column = 0\<rparr>,
     span_end = universal_end_position source\<rparr>"
  let ?n = "fresh_node ''universal_file'' True False False None ?sp 0 None"
  let ?ts = "line_trees blake3 source 0 0"
  have sizes: "tree_size (universal_tree id source) = Suc (sum_list (map tree_size ?ts))"
    by (simp only: tree_size_universal line_trees_sizes [of id source 0 0 blake3])
  note loop = universal_lines_eq [where i = 0 and source = source and limits = limits and nodes = "[?n]" and
      ?blake3.0 = blake3 and rw = 0 and root = 0 and children = "[]"]
  have fin: "finish_universal_node blake3 source (?n\<lparr>node_children := child_ids 1 ?ts\<rparr> # flatten_list 1 (Some 0) ?ts) 0 =
      Inr (flatten 0 None (universal_tree blake3 source))"
    using finish_universal_sealed [of ?sp source blake3 ?ts "''universal_file''" "[]" None None]
    by (simp add: universal_tree_def)
  show ?thesis
  proof (cases "max_nodes limits = 0")
    case True
    then show ?thesis
      using tree_size_pos [of "universal_tree id source"]
      by (auto simp: parse_universal_def push_universal_node_def universal_fits_def)
  next
    case False
    then have push: "push_universal_node limits 0 ''universal_file'' None None ?sp [] = Inr (0, [?n])"
      by (simp add: push_universal_node_def fresh_node_def)
    show ?thesis
    proof (cases "universal_fits limits source")
      case True
      then have "universal_lines blake3 source limits 0 0 0 [?n] [] = Inr (?n # flatten_list 1 (Some 0) ?ts, child_ids 1 ?ts)"
        using loop False by (auto simp: universal_fits_def fits_def sizes)
      with True push fin show ?thesis by (simp add: parse_universal_def set_children_def)
    next
      case no: False
      have "source \<noteq> [] \<and> \<not> fits limits 2 (1 + sum_list (map tree_size ?ts))"
      proof
        have "tree_size (universal_tree id []) = 1" by (simp add: universal_tree_def universal_node_def)
        then show "source \<noteq> []" using no False by (auto simp: universal_fits_def)
        then show "\<not> fits limits 2 (1 + sum_list (map tree_size ?ts))"
          using no by (auto simp: universal_fits_def fits_def sizes)
      qed
      then have "\<exists>pf. universal_lines blake3 source limits 0 0 0 [?n] [] = Inl (ParseFailure pf)"
        using loop by simp
      with no push show ?thesis by (auto simp: parse_universal_def)
    qed
  qed
qed

section \<open>Spans and tokens of the universal tree\<close>

primrec leaves :: "node_tree \<Rightarrow> syntax_node list" where
  "leaves (Tree n ts) = (if ts = [] then [n] else concat (map leaves ts))"

definition between :: "nat \<Rightarrow> nat \<Rightarrow> bytes \<Rightarrow> bytes" where
  "between i j source = take (j - i) (drop i source)"

lemma between_append: "i \<le> j \<Longrightarrow> j \<le> k \<Longrightarrow> between i j source @ between j k source = between i k source"
  by (simp add: between_def take_drop_join)

lemma between_empty [simp]: "between i i source = []"
  by (simp add: between_def)

lemma span_bytes_between: "span_bytes source n = between (start_byte (node_span n)) (end_byte (node_span n)) source"
  by (simp add: span_bytes_def between_def)

lemma take_takeWhile: "take (length (takeWhile P (take m xs))) xs = takeWhile P (take m xs)"
proof -
  have "length (takeWhile P (take m xs)) \<le> m"
    using length_takeWhile_le [of P "take m xs"] by simp
  then have "take (length (takeWhile P (take m xs))) xs = take (length (takeWhile P (take m xs))) (take m xs)"
    by (simp add: min_absorb1)
  then show ?thesis using takeWhile_eq_take [of P "take m xs"] by simp
qed

text \<open>A token: a maximal run of one class, never empty.\<close>

definition token_run :: "bytes \<Rightarrow> nat \<times> nat \<Rightarrow> bool" where
  "token_run source ij = (case ij of (i, j) \<Rightarrow>
     i < j \<and> j \<le> length source \<and> (\<forall>b\<in>set (between i j source). token_class b = token_class (source ! i)))"

lemma token_spans_runs:
  assumes "line_end \<le> length source" "i \<le> line_end"
  shows "(\<forall>ij\<in>set (token_spans source line_end i). token_run source ij) \<and>
    concat (map (\<lambda>(i, j). between i j source) (token_spans source line_end i)) = between i line_end source"
  using assms
proof (induction "line_end - i" arbitrary: i rule: less_induct)
  case less
  show ?case
  proof (cases "i < line_end")
    case False
    with less.prems show ?thesis by simp
  next
    case True
    let ?P = "\<lambda>b. token_class b = token_class (source ! i)"
    obtain j where j: "token_spans source line_end i = (i, j) # token_spans source line_end j" "i < j" "j \<le> line_end"
      "j = i + 1 + length (takeWhile ?P (take (line_end - (i + 1)) (drop (i + 1) source)))"
      using token_spans_step [OF True] by blast
    have "between i j source = source ! i # take (j - (i + 1)) (drop (i + 1) source)"
      using j(2,3) less.prems unfolding between_def
      by (metis (no_types, lifting) Cons_nth_drop_Suc Suc_diff_Suc Suc_eq_plus1 less_le_trans take_Suc_Cons)
    also have "take (j - (i + 1)) (drop (i + 1) source) =
        takeWhile ?P (take (line_end - (i + 1)) (drop (i + 1) source))"
      using take_takeWhile [of ?P "line_end - (i + 1)" "drop (i + 1) source"] by (simp add: j(4))
    finally have run: "\<forall>b\<in>set (between i j source). ?P b" by (auto dest: set_takeWhileD)
    have IH: "\<forall>ij\<in>set (token_spans source line_end j). token_run source ij"
      "concat (map (\<lambda>(i, j). between i j source) (token_spans source line_end j)) = between j line_end source"
      using less.hyps [of j] j less.prems by auto
    show ?thesis
      using run IH j(2,3) less.prems by (simp add: j(1) token_run_def between_append)
  qed
qed

lemma leaves_line_tree:
  assumes "i < j"
  shows "leaves (line_tree blake3 source rw i j) =
    map (\<lambda>ij. label (token_tree blake3 source rw i ij)) (token_spans source j i)"
proof -
  have "token_spans source j i \<noteq> []" using token_spans_step [OF assms] by fastforce
  moreover have "leaves (token_tree blake3 source rw i ij) = [label (token_tree blake3 source rw i ij)]" for ij
    by (cases ij) (simp add: token_tree_def universal_node_def sealed_def)
  ultimately show ?thesis by (simp add: line_tree_def universal_node_def sealed_def comp_def)
qed

lemma span_bytes_token: "span_bytes source (label (token_tree blake3 source rw ls (i, j))) = between i j source"
  by (simp add: token_tree_def universal_node_def span_bytes_between)

definition is_token :: "bytes \<Rightarrow> syntax_node \<Rightarrow> bool" where
  "is_token source n \<longleftrightarrow> span_within source n \<and> span_bytes source n \<noteq> [] \<and>
     (\<exists>c. node_kind n = token_kind c \<and> (\<forall>b\<in>set (span_bytes source n). token_class b = c))"

lemma token_run_is_token:
  "token_run source (i, j) \<Longrightarrow> is_token source (label (token_tree blake3 source rw ls (i, j)))"
  by (auto simp: is_token_def span_bytes_token span_within_def token_run_def)
    (auto simp: token_tree_def universal_node_def between_def)

lemma line_tree_tokens:
  assumes "i < j" "j \<le> length source"
  shows "\<forall>n\<in>set (leaves (line_tree blake3 source rw i j)). is_token source n"
    "concat (map (span_bytes source) (leaves (line_tree blake3 source rw i j))) = between i j source"
proof -
  note runs = token_spans_runs [of j source i]
  show "\<forall>n\<in>set (leaves (line_tree blake3 source rw i j)). is_token source n"
    using runs assms by (auto simp: leaves_line_tree token_run_is_token)
  have "map (\<lambda>ij. span_bytes source (label (token_tree blake3 source rw i ij))) (token_spans source j i) =
      map (\<lambda>(i, j). between i j source) (token_spans source j i)"
    by (auto simp: span_bytes_token)
  then show "concat (map (span_bytes source) (leaves (line_tree blake3 source rw i j))) = between i j source"
    using runs assms by (simp only: leaves_line_tree [OF assms(1)] map_map comp_def)
qed

lemma line_trees_tokens:
  "i \<le> length source \<Longrightarrow>
   (\<forall>t\<in>set (line_trees blake3 source i rw). \<forall>n\<in>set (leaves t). is_token source n) \<and>
   concat (map (span_bytes source) (concat (map leaves (line_trees blake3 source i rw)))) = between i (length source) source"
proof (induction blake3 source i rw rule: line_trees.induct)
  case (1 blake3 source i rw)
  show ?case
  proof (cases "i < length source")
    case True
    have j: "i < line_end_from source i" "line_end_from source i \<le> length source"
      using True line_end_from_gt line_end_from_le by auto
    show ?thesis
      using 1 True j line_tree_tokens [OF j, of blake3 rw]
      by (auto simp: line_trees_step between_append Let_def)
  qed (use 1 in simp)
qed

text \<open>All spans of the universal tree lie in the source.\<close>

primrec labels :: "node_tree \<Rightarrow> syntax_node list" where
  "labels (Tree n ts) = n # concat (map labels ts)"

lemma span_within_numbered [simp]: "span_within source (numbered n i p ts) = span_within source n"
  by (simp add: span_within_def)

lemma flatten_labels:
  "(\<forall>n\<in>set (labels t). span_within source n) \<Longrightarrow> \<forall>n\<in>set (flatten b p t). span_within source n"
  "(\<forall>t\<in>set ts. \<forall>n\<in>set (labels t). span_within source n) \<Longrightarrow> \<forall>n\<in>set (flatten_list b p ts). span_within source n"
proof (induction b p t and b p ts rule: flatten_flatten_list.induct)
  case (1 b p n ts)
  then have "\<forall>n\<in>set (flatten_list (Suc b) (Some b) ts). span_within source n" by auto
  with 1 show ?case by simp
next
  case (3 b p t ts)
  then have "\<forall>n\<in>set (flatten b p t). span_within source n"
    "\<forall>n\<in>set (flatten_list (b + tree_size t) p ts). span_within source n" by auto
  then show ?case by auto
qed simp

lemma line_tree_spans:
  assumes "i < j" "j \<le> length source" "n \<in> set (labels (line_tree blake3 source rw i j))"
  shows "span_within source n"
proof -
  have "labels (token_tree blake3 source rw i ij) = [label (token_tree blake3 source rw i ij)]" for ij
    by (cases ij) (simp add: token_tree_def universal_node_def sealed_def)
  then consider "n = label (line_tree blake3 source rw i j)"
    | ij where "ij \<in> set (token_spans source j i)" "n = label (token_tree blake3 source rw i ij)"
    using assms(3) by (auto simp: line_tree_def universal_node_def sealed_def)
  then show ?thesis
  proof cases
    case 1
    then show ?thesis using assms by (simp add: line_tree_def universal_node_def span_within_def)
  next
    case 2
    then have "token_run source (fst ij, snd ij)" using token_spans_runs [of j source i] assms by auto
    from token_run_is_token [OF this, of blake3 rw i] 2 show ?thesis by (simp add: is_token_def)
  qed
qed

lemma line_trees_spans:
  "t \<in> set (line_trees blake3 source i rw) \<Longrightarrow> n \<in> set (labels t) \<Longrightarrow> span_within source n"
proof (induction blake3 source i rw rule: line_trees.induct)
  case (1 blake3 source i rw)
  show ?case
  proof (cases "i < length source")
    case True
    have j: "i < line_end_from source i" "line_end_from source i \<le> length source"
      using True line_end_from_gt line_end_from_le by auto
    from 1 True show ?thesis
      by (auto simp: line_trees_step Let_def dest: line_tree_spans [OF j])
  qed (use 1 in simp)
qed

lemma universal_represents:
  assumes "parse_universal blake3 source limits = Inr ps"
  shows "represents ps (universal_tree blake3 source)" "ps_source ps = source" "ps_language ps = Universal"
    "universal_fits limits source"
proof -
  have eq: "ps = \<lparr>ps_source = source, ps_nodes = flatten 0 None (universal_tree blake3 source), ps_root = 0,
          ps_root_kind = ''universal_file'', ps_language = Universal\<rparr>" "universal_fits limits source"
    using parse_universal_cases [of limits source blake3] assms by (auto split: if_splits)
  have "\<forall>n\<in>set (labels (universal_tree blake3 source)). span_within source n"
    by (auto simp: universal_tree_def universal_node_def sealed_def span_within_def [of _ "_\<lparr>node_byte_hash := _\<rparr>"]
        dest: line_trees_spans)
      (auto simp: span_within_def)
  then show "represents ps (universal_tree blake3 source)" "ps_source ps = source" "ps_language ps = Universal"
    "universal_fits limits source"
    using eq by (auto simp: represents_def intro: flatten_labels(1) [rule_format])
qed

text \<open>The childless nodes of an arena are the leaves of its tree, in order.\<close>

lemma leaves_flatten:
  "map (\<lambda>n. (node_kind n, node_span n)) (filter (\<lambda>n. node_children n = []) (flatten b p t)) =
     map (\<lambda>n. (node_kind n, node_span n)) (leaves t)"
  "map (\<lambda>n. (node_kind n, node_span n)) (filter (\<lambda>n. node_children n = []) (flatten_list b p ts)) =
     map (\<lambda>n. (node_kind n, node_span n)) (concat (map leaves ts))"
  by (induction b p t and b p ts rule: flatten_flatten_list.induct) auto

lemma is_token_cong:
  "node_kind m = node_kind n \<Longrightarrow> node_span m = node_span n \<Longrightarrow> is_token source m = is_token source n"
  by (simp add: is_token_def span_bytes_def span_within_def)

lemma leaves_flatten_is_token:
  assumes "\<forall>n\<in>set (leaves t). is_token source n"
  shows "\<forall>n\<in>set (flatten b p t). node_children n = [] \<longrightarrow> is_token source n"
proof (intro ballI impI)
  fix n assume "n \<in> set (flatten b p t)" "node_children n = []"
  then have "(node_kind n, node_span n) \<in>
      set (map (\<lambda>n. (node_kind n, node_span n)) (filter (\<lambda>n. node_children n = []) (flatten b p t)))" by auto
  then obtain m where "m \<in> set (leaves t)" "node_kind m = node_kind n" "node_span m = node_span n"
    by (auto simp: leaves_flatten)
  with assms is_token_cong show "is_token source n" by metis
qed

lemma leaves_flatten_bytes:
  "concat (map (span_bytes source) (filter (\<lambda>n. node_children n = []) (flatten b p t))) =
   concat (map (span_bytes source) (leaves t))"
proof -
  have "map (span_bytes source) (filter (\<lambda>n. node_children n = []) (flatten b p t)) =
      map (span_bytes source) (leaves t)"
    using arg_cong [OF leaves_flatten(1) [of b p t], of "map (\<lambda>(k, s). between (start_byte s) (end_byte s) source)"]
    by (simp add: comp_def span_bytes_between [abs_def])
  then show ?thesis by simp
qed

lemma universal_leaves:
  "concat (map (span_bytes source) (leaves (universal_tree blake3 source))) = source"
  "source \<noteq> [] \<Longrightarrow> \<forall>n\<in>set (leaves (universal_tree blake3 source)). is_token source n"
  using line_trees_tokens [of 0 source blake3 0]
  by (cases "source = []"; auto simp: universal_tree_def universal_node_def sealed_def span_bytes_def between_def
      line_trees_step)+

section \<open>Both parsers\<close>

text \<open>A successful parse represents a tree whose hashes are the digests of its subtrees.\<close>

definition parsed :: "(bytes \<Rightarrow> bytes) \<Rightarrow> bytes \<Rightarrow> language \<Rightarrow> parsed_syntax \<Rightarrow> node_tree \<Rightarrow> bool" where
  "parsed blake3 source language ps t \<longleftrightarrow>
     represents ps t \<and> ps_source ps = source \<and> ps_language ps = language \<and>
     well_hashed blake3 (language = Universal) source t"

lemma native_parse:
  assumes "language \<noteq> Universal" "parse_with_limits blake3 ts source language limits = Inr ps"
  obtains tree where "parse_tree ts language source = Some tree" "accepts_grammar ts language"
    "ps = \<lparr>ps_source = source, ps_nodes = flatten 0 None (tree_of_ts blake3 source None tree), ps_root = 0,
           ps_root_kind = ts_kind tree, ps_language = language\<rparr>"
    "ts_clean tree" "ts_within source tree" "ts_size tree \<le> max_nodes limits"
    "ts_height_within (max_depth limits) tree"
    "max_parse_callbacks limits = usize_max \<or> parse_callbacks ts language source \<le> max_parse_callbacks limits"
proof -
  from assms obtain tree root nodes where p: "parse_tree ts language source = Some tree"
    "collect blake3 source limits tree None None 0 [] = Inr (root, nodes)"
    "accepts_grammar ts language"
    "max_parse_callbacks limits = usize_max \<or> parse_callbacks ts language source \<le> max_parse_callbacks limits"
    "ps = \<lparr>ps_source = source, ps_nodes = nodes, ps_root = root, ps_root_kind = ts_kind tree, ps_language = language\<rparr>"
    by (auto simp: parse_with_limits_def rbind_Inr_iff split: if_splits)
  from collect_Inr(1) [OF p(2)] p show ?thesis by (intro that) auto
qed

lemma parse_parsed:
  assumes "parse_with_limits blake3 ts source language limits = Inr ps"
  obtains t where "parsed blake3 source language ps t" "tree_size t \<le> max_nodes limits"
proof (cases "language = Universal")
  case True
  then have u: "parse_universal blake3 source limits = Inr ps"
    using assms by (simp add: parse_with_limits_def)
  have "list_all (well_hashed blake3 True source) (line_trees blake3 source 0 0)" by simp
  then have "parsed blake3 source language ps (universal_tree blake3 source)"
    using universal_represents [OF u] True by (simp add: parsed_def universal_tree_def)
  moreover have "tree_size (universal_tree blake3 source) \<le> max_nodes limits"
    using universal_represents(4) [OF u]
    by (simp add: universal_fits_def tree_size_universal line_trees_sizes [of id source 0 0 blake3])
  ultimately show ?thesis by (rule that)
next
  case False
  obtain tree where tree: "ps = \<lparr>ps_source = source, ps_nodes = flatten 0 None (tree_of_ts blake3 source None tree),
      ps_root = 0, ps_root_kind = ts_kind tree, ps_language = language\<rparr>" "ts_within source tree"
    "ts_size tree \<le> max_nodes limits"
    using native_parse [OF False assms] by metis
  then have "parsed blake3 source language ps (tree_of_ts blake3 source None tree)"
    using False flatten_spans [of 0 None blake3 source None tree]
    by (auto simp: parsed_def represents_def well_hashed_tree_of_ts)
  with tree(3) show ?thesis by (intro that) auto
qed

lemma parse_wf:
  assumes "parse_with_limits blake3 ts source language limits = Inr ps"
  shows "wf_syntax ps" "ps_source ps = source" "ps_language ps = language"
    "length (ps_nodes ps) \<le> max_nodes limits"
proof -
  obtain t where "parsed blake3 source language ps t" "tree_size t \<le> max_nodes limits"
    by (rule parse_parsed [OF assms])
  then show "wf_syntax ps" "ps_source ps = source" "ps_language ps = language"
    "length (ps_nodes ps) \<le> max_nodes limits"
    by (auto simp: parsed_def represents_def wf_syntax_def)
qed

text \<open>The documented contract of tree-sitter that nodes lie inside the source.\<close>

definition runtime_within :: "ts_runtime \<Rightarrow> bool" where
  "runtime_within ts \<longleftrightarrow> (\<forall>language source tree. parse_tree ts language source = Some tree \<longrightarrow> ts_within source tree)"

lemma parse_failure:
  assumes "runtime_within ts" "parse_with_limits blake3 ts source language limits = Inl e"
  shows "\<exists>pf. e = ParseFailure pf"
proof (cases "language = Universal")
  case True
  then show ?thesis
    using assms(2) parse_universal_cases [of limits source blake3]
    by (auto simp: parse_with_limits_def split: if_splits)
next
  case False
  show ?thesis
  proof (cases "parse_tree ts language source")
    case None
    with assms(2) False show ?thesis by (auto simp: parse_with_limits_def split: if_splits)
  next
    case (Some tree)
    then have w: "ts_within source tree" using assms(1) by (auto simp: runtime_within_def)
    show ?thesis
    proof (cases "collect blake3 source limits tree None None 0 []")
      case (Inl e')
      with collect_failure(1) [OF w Inl] assms(2) False Some show ?thesis
        by (auto simp: parse_with_limits_def split: if_splits)
    next
      case (Inr x)
      with assms(2) False Some show ?thesis
        by (cases x) (auto simp: parse_with_limits_def split: if_splits)
    qed
  qed
qed

section \<open>Properties\<close>

text \<open>the universal parser is exact. Within the node and depth limits it returns the
  preorder numbering of the file/line/token tree of the source; outside them it returns a
  diagnosed parse failure. It never indexes out of range.\<close>

theorem parse_universal_exact:
  "parse_with_limits blake3 ts source Universal limits = Inr ps \<longleftrightarrow>
     universal_fits limits source \<and>
     ps = \<lparr>ps_source = source, ps_nodes = flatten 0 None (universal_tree blake3 source), ps_root = 0,
           ps_root_kind = ''universal_file'', ps_language = Universal\<rparr>"
  using parse_universal_cases [of limits source blake3] by (auto simp: parse_with_limits_def split: if_splits)

text \<open>C39: universal tokenisation is lossless. In a universal parse the leaves, in order, cover
  the source bytes exactly, and in a non-empty source each of them is a non-empty run of bytes
  of the one class its kind names.\<close>

theorem universal_tokens_lossless:
  assumes "parse_universal blake3 source limits = Inr ps"
  shows "concat (map (span_bytes source) (filter (\<lambda>n. node_children n = []) (ps_nodes ps))) = source \<and>
    (source \<noteq> [] \<longrightarrow> (\<forall>n\<in>set (ps_nodes ps). node_children n = [] \<longrightarrow> is_token source n))"
  using universal_represents(1) [OF assms] universal_leaves [of source blake3]
  by (auto simp: represents_def leaves_flatten_bytes dest!: leaves_flatten_is_token)

theorem universal_tokens_lossless_witness:
  "\<exists>ps. parse_universal id [104, 105, 32, 10, 33] COMPATIBILITY = Inr ps \<and>
    concat (map (span_bytes [104, 105, 32, 10, 33]) (filter (\<lambda>n. node_children n = []) (ps_nodes ps))) =
      [104, 105, 32, 10, 33]"
proof -
  have "universal_fits COMPATIBILITY [104, 105, 32, 10, 33]"
    by (simp add: universal_fits_def tree_size_universal line_trees_step line_end_from_def tree_size_line_tree
        token_spans.simps token_class_def COMPATIBILITY_def MAX_SYNTAX_DEPTH_def usize_max_def)
  then obtain ps where ps: "parse_universal id [104, 105, 32, 10, 33] COMPATIBILITY = Inr ps"
    using parse_universal_cases [of COMPATIBILITY "[104, 105, 32, 10, 33]" id] by auto
  then show ?thesis using universal_tokens_lossless [OF ps] by blast
qed

text \<open>the tree-sitter conversion is exact. For trees whose spans lie in the source, \<open>collect\<close>
  succeeds exactly on trees without error or missing nodes within the depth and node limits, and then
  appends the preorder numbering of the tree with its digests.\<close>

theorem collect_exact:
  assumes "ts_within source t"
  shows "collect blake3 source limits t None None 0 [] = Inr (i, nodes) \<longleftrightarrow>
    ts_clean t \<and> ts_height_within (max_depth limits) t \<and> ts_size t \<le> max_nodes limits \<and>
    i = 0 \<and> nodes = flatten 0 None (tree_of_ts blake3 source None t)"
proof
  assume "collect blake3 source limits t None None 0 [] = Inr (i, nodes)"
  from collect_Inr(1) [OF this] show "ts_clean t \<and> ts_height_within (max_depth limits) t \<and>
    ts_size t \<le> max_nodes limits \<and> i = 0 \<and> nodes = flatten 0 None (tree_of_ts blake3 source None t)" by auto
next
  assume r: "ts_clean t \<and> ts_height_within (max_depth limits) t \<and> ts_size t \<le> max_nodes limits \<and>
    i = 0 \<and> nodes = flatten 0 None (tree_of_ts blake3 source None t)"
  with assms obtain x where x: "collect blake3 source limits t None None 0 [] = Inr x"
    using collect_complete(1) [of t source "[]" limits 0 blake3 None None] by auto
  then show "collect blake3 source limits t None None 0 [] = Inr (i, nodes)"
    using r collect_Inr(1) [of blake3 source limits t None None 0 "[]" "fst x" "snd x"] by (cases x) auto
qed

theorem collect_exact_witness:
  "collect id [49] COMPATIBILITY
     (Ts_Node ''document'' True False False False None
        \<lparr>start_byte = 0, end_byte = 1, span_start = \<lparr>row = 0, column = 0\<rparr>, span_end = \<lparr>row = 0, column = 1\<rparr>\<rparr>
        [Ts_Node ''number'' True False False False (Some ''value'')
           \<lparr>start_byte = 0, end_byte = 1, span_start = \<lparr>row = 0, column = 0\<rparr>, span_end = \<lparr>row = 0, column = 1\<rparr>\<rparr> []])
     None None 0 [] =
   Inr (0, flatten 0 None (tree_of_ts id [49] None
     (Ts_Node ''document'' True False False False None
        \<lparr>start_byte = 0, end_byte = 1, span_start = \<lparr>row = 0, column = 0\<rparr>, span_end = \<lparr>row = 0, column = 1\<rparr>\<rparr>
        [Ts_Node ''number'' True False False False (Some ''value'')
           \<lparr>start_byte = 0, end_byte = 1, span_start = \<lparr>row = 0, column = 0\<rparr>, span_end = \<lparr>row = 0, column = 1\<rparr>\<rparr> []])))"
  by (subst collect_exact) (simp_all add: COMPATIBILITY_def MAX_SYNTAX_DEPTH_def usize_max_def del: flatten.simps tree_of_ts.simps)

end
