(* ===== verification/Language.thy ===== *)
theory Language
  imports Syntax
begin

text \<open>
  The language table of \<open>crates/stratadiff-core/src/language.rs\<close>: detection by file extension and the
  identity of the parser a report has to name. What a grammar crate provides (its ABI version
  and its node-types document) is read from the runtime parameter.
\<close>

section \<open>File extensions\<close>

text \<open>\<open>Path::extension\<close> on a path of \<open>/\<close>-separated components: empty and \<open>.\<close> components do not
  count, \<open>..\<close> is no file name, a leading dot does not start an extension.\<close>

fun split_on :: "char \<Rightarrow> string \<Rightarrow> string list" where
  "split_on sep [] = [[]]"
| "split_on sep (c # cs) =
     (if c = sep then [] # split_on sep cs
      else (case split_on sep cs of [] \<Rightarrow> [[c]] | p # ps \<Rightarrow> (c # p) # ps))"

definition file_name :: "string \<Rightarrow> string option" where
  "file_name p =
     (case rev (filter (\<lambda>c. c \<noteq> [] \<and> c \<noteq> ''.'') (split_on CHR ''/'' p)) of
        [] \<Rightarrow> None
      | f # _ \<Rightarrow> if f = ''..'' then None else Some f)"

definition path_extension :: "string \<Rightarrow> string option" where
  "path_extension p =
     (case file_name p of
        None \<Rightarrow> None
      | Some f \<Rightarrow>
          (let after = rev (takeWhile (\<lambda>c. c \<noteq> CHR ''.'') (rev f))
           in if length after + 1 < length f then Some after else None))"

definition ascii_lower :: "char \<Rightarrow> char" where
  "ascii_lower c = (if CHR ''A'' \<le> c \<and> c \<le> CHR ''Z'' then char_of (of_char c + 32 :: nat) else c)"

definition to_ascii_lowercase :: "string \<Rightarrow> string" where
  "to_ascii_lowercase = map ascii_lower"

section \<open>Detection\<close>

datatype detect_failure = NoExtension | AmbiguousExtension string | UnsupportedExtension string

definition language_of_extension :: "string \<Rightarrow> string \<Rightarrow> detect_failure + language" where
  "language_of_extension extension lowered =
     (if lowered = ''py'' \<or> lowered = ''pyi'' then Inr Python
      else if lowered = ''js'' \<or> lowered = ''jsx'' \<or> lowered = ''mjs'' \<or> lowered = ''cjs'' then Inr Javascript
      else if lowered = ''ts'' \<or> lowered = ''mts'' \<or> lowered = ''cts'' then Inr Typescript
      else if lowered = ''tsx'' then Inr Tsx
      else if lowered = ''rs'' then Inr Rust
      else if lowered = ''java'' then Inr Java
      else if lowered = ''json'' then Inr Json
      else if lowered = ''c'' then Inr C
      else if lowered = ''h'' then Inl (AmbiguousExtension ''h'')
      else if lowered = ''cc'' \<or> lowered = ''cpp'' \<or> lowered = ''cxx'' \<or> lowered = ''hh'' \<or> lowered = ''hpp''
        \<or> lowered = ''hxx'' then Inr Cpp
      else if lowered = ''cs'' then Inr CSharp
      else if lowered = ''go'' then Inr Go
      else if lowered = ''rb'' then Inr Ruby
      else if lowered = ''sh'' \<or> lowered = ''bash'' then Inr Bash
      else if lowered = ''php'' \<or> lowered = ''phtml'' then Inr Php
      else if lowered = ''html'' \<or> lowered = ''htm'' then Inr Html
      else if lowered = ''css'' then Inr Css
      else if lowered = ''yaml'' \<or> lowered = ''yml'' then Inr Yaml
      else if lowered = ''toml'' then Inr Toml
      else if lowered = ''md'' \<or> lowered = ''markdown'' \<or> lowered = ''mdown'' \<or> lowered = ''mkd'' then Inr Markdown
      else if lowered = ''kt'' \<or> lowered = ''kts'' then Inr Kotlin
      else if lowered = ''swift'' then Inr Swift
      else if lowered = ''lua'' then Inr Lua
      else if lowered = ''scala'' \<or> lowered = ''sc'' then Inr Scala
      else if lowered = ''r'' then Inr R
      else if lowered = ''ex'' \<or> lowered = ''exs'' then Inr Elixir
      else if lowered = ''hs'' then Inr Haskell
      else if lowered = ''ml'' then Inr Ocaml
      else if lowered = ''mli'' then Inr OcamlInterface
      else if lowered = ''zig'' then Inr Zig
      else if lowered = ''m'' then Inl (AmbiguousExtension ''m'')
      else Inl (UnsupportedExtension extension))"

definition detect :: "string \<Rightarrow> detect_failure + language" where
  "detect p =
     (case path_extension p of
        None \<Rightarrow> Inl NoExtension
      | Some extension \<Rightarrow> language_of_extension extension (to_ascii_lowercase extension))"

section \<open>Parser identity\<close>

definition UNIVERSAL_PARSER_ENGINE :: string where "UNIVERSAL_PARSER_ENGINE = ''stratadiff-universal''"
definition UNIVERSAL_PARSER_RUNTIME_VERSION :: string where "UNIVERSAL_PARSER_RUNTIME_VERSION = ''1.0.0''"
definition UNIVERSAL_GRAMMAR_NAME :: string where "UNIVERSAL_GRAMMAR_NAME = ''byte-lines-token-runs''"
definition UNIVERSAL_GRAMMAR_VERSION :: string where "UNIVERSAL_GRAMMAR_VERSION = ''1.0.0''"
definition UNIVERSAL_GRAMMAR_ABI :: nat where "UNIVERSAL_GRAMMAR_ABI = 1"
definition UNIVERSAL_COORDINATE_UNIT :: string where "UNIVERSAL_COORDINATE_UNIT = ''zero_based_row_byte_column''"

definition UNIVERSAL_NODE_TYPES :: string where
  "UNIVERSAL_NODE_TYPES =
     ''['' @ [CHR 0x0A] @
     ''  {\"type\":\"universal_file\",\"named\":true},'' @ [CHR 0x0A] @
     ''  {\"type\":\"universal_line\",\"named\":true},'' @ [CHR 0x0A] @
     ''  {\"type\":\"universal_ascii_word\",\"named\":true},'' @ [CHR 0x0A] @
     ''  {\"type\":\"universal_whitespace\",\"named\":true},'' @ [CHR 0x0A] @
     ''  {\"type\":\"universal_line_feed\",\"named\":true},'' @ [CHR 0x0A] @
     ''  {\"type\":\"universal_ascii_punctuation\",\"named\":true},'' @ [CHR 0x0A] @
     ''  {\"type\":\"universal_opaque_bytes\",\"named\":true}'' @ [CHR 0x0A] @
     '']''"

definition parser_engine :: "language \<Rightarrow> string" where
  "parser_engine l = (if l = Universal then UNIVERSAL_PARSER_ENGINE else ''tree-sitter'')"

definition parser_runtime_version :: "language \<Rightarrow> string" where
  "parser_runtime_version l = (if l = Universal then UNIVERSAL_PARSER_RUNTIME_VERSION else PARSER_RUNTIME_VERSION)"

fun grammar_name_of :: "language \<Rightarrow> string" where
  "grammar_name_of Universal = UNIVERSAL_GRAMMAR_NAME"
| "grammar_name_of Python = ''tree-sitter-python''"
| "grammar_name_of Javascript = ''tree-sitter-javascript''"
| "grammar_name_of Typescript = ''tree-sitter-typescript''"
| "grammar_name_of Tsx = ''tree-sitter-tsx''"
| "grammar_name_of Rust = ''tree-sitter-rust''"
| "grammar_name_of Java = ''tree-sitter-java''"
| "grammar_name_of Json = ''tree-sitter-json''"
| "grammar_name_of C = ''tree-sitter-c''"
| "grammar_name_of Cpp = ''tree-sitter-cpp''"
| "grammar_name_of CSharp = ''tree-sitter-c-sharp''"
| "grammar_name_of Go = ''tree-sitter-go''"
| "grammar_name_of Ruby = ''tree-sitter-ruby''"
| "grammar_name_of Bash = ''tree-sitter-bash''"
| "grammar_name_of Php = ''tree-sitter-php''"
| "grammar_name_of Html = ''tree-sitter-html''"
| "grammar_name_of Css = ''tree-sitter-css''"
| "grammar_name_of Yaml = ''tree-sitter-yaml''"
| "grammar_name_of Toml = ''tree-sitter-toml-ng''"
| "grammar_name_of Markdown = ''tree-sitter-markdown''"
| "grammar_name_of Kotlin = ''tree-sitter-kotlin-ng''"
| "grammar_name_of Swift = ''tree-sitter-swift''"
| "grammar_name_of Lua = ''tree-sitter-lua''"
| "grammar_name_of Scala = ''tree-sitter-scala''"
| "grammar_name_of R = ''tree-sitter-r''"
| "grammar_name_of Elixir = ''tree-sitter-elixir''"
| "grammar_name_of Haskell = ''tree-sitter-haskell''"
| "grammar_name_of Ocaml = ''tree-sitter-ocaml''"
| "grammar_name_of OcamlInterface = ''tree-sitter-ocaml-interface''"
| "grammar_name_of Zig = ''tree-sitter-zig''"

fun grammar_version_of :: "language \<Rightarrow> string" where
  "grammar_version_of Universal = UNIVERSAL_GRAMMAR_VERSION"
| "grammar_version_of Python = ''0.25.0''"
| "grammar_version_of Javascript = ''0.25.0''"
| "grammar_version_of Typescript = ''0.23.2''"
| "grammar_version_of Tsx = ''0.23.2''"
| "grammar_version_of Rust = ''0.24.2''"
| "grammar_version_of Java = ''0.23.5''"
| "grammar_version_of Json = ''0.24.8''"
| "grammar_version_of C = ''0.24.2''"
| "grammar_version_of Cpp = ''0.23.4''"
| "grammar_version_of CSharp = ''0.23.5''"
| "grammar_version_of Go = ''0.25.0''"
| "grammar_version_of Ruby = ''0.23.1''"
| "grammar_version_of Bash = ''0.25.1''"
| "grammar_version_of Php = ''0.24.2''"
| "grammar_version_of Html = ''0.23.2''"
| "grammar_version_of Css = ''0.25.0''"
| "grammar_version_of Yaml = ''0.7.2''"
| "grammar_version_of Toml = ''0.7.0''"
| "grammar_version_of Markdown = ''0.5.3''"
| "grammar_version_of Kotlin = ''1.1.0''"
| "grammar_version_of Swift = ''0.7.3''"
| "grammar_version_of Lua = ''0.5.0''"
| "grammar_version_of Scala = ''0.26.2''"
| "grammar_version_of R = ''1.3.0''"
| "grammar_version_of Elixir = ''0.3.5''"
| "grammar_version_of Haskell = ''0.23.1''"
| "grammar_version_of Ocaml = ''0.25.0''"
| "grammar_version_of OcamlInterface = ''0.25.0''"
| "grammar_version_of Zig = ''1.1.2''"

definition grammar_abi_of :: "ts_runtime \<Rightarrow> language \<Rightarrow> nat" where
  "grammar_abi_of ts l = (if l = Universal then UNIVERSAL_GRAMMAR_ABI else abi_version ts l)"

definition node_types :: "ts_runtime \<Rightarrow> language \<Rightarrow> string" where
  "node_types ts l = (if l = Universal then UNIVERSAL_NODE_TYPES else native_node_types ts l)"

definition coordinate_unit_of :: "language \<Rightarrow> string" where
  "coordinate_unit_of l = (if l = Universal then UNIVERSAL_COORDINATE_UNIT else ''zero_based_row_utf8_byte_column'')"

section \<open>Properties\<close>

lemma ascii_lower_idem [simp]: "ascii_lower (ascii_lower c) = ascii_lower c"
proof (cases "CHR ''A'' \<le> c \<and> c \<le> CHR ''Z''")
  case True
  then have r: "65 \<le> (of_char c :: nat)" "(of_char c :: nat) \<le> 90"
    by (simp_all add: less_eq_char_def)
  then have "of_char (char_of (of_char c + 32 :: nat)) = (of_char c + 32 :: nat)"
    by (simp add: of_char_of)
  with r have "\<not> char_of (of_char c + 32 :: nat) \<le> CHR ''Z''"
    by (simp add: less_eq_char_def)
  then show ?thesis using True by (simp add: ascii_lower_def)
next
  case False
  then have "ascii_lower c = c" by (auto simp: ascii_lower_def)
  then show ?thesis by simp
qed

lemma language_of_extension_lower:
  "language_of_extension e l = Inr x \<longleftrightarrow> language_of_extension e' l = Inr x"
  by (simp add: language_of_extension_def)

lemma language_of_extension_not_universal: "language_of_extension e l \<noteq> Inr Universal"
  by (simp add: language_of_extension_def)

text \<open>A typical extension of each native language.\<close>

fun typical_extension :: "language \<Rightarrow> string" where
  "typical_extension Python = ''py''"
| "typical_extension Javascript = ''js''"
| "typical_extension Typescript = ''ts''"
| "typical_extension Tsx = ''tsx''"
| "typical_extension Rust = ''rs''"
| "typical_extension Java = ''java''"
| "typical_extension Json = ''json''"
| "typical_extension C = ''c''"
| "typical_extension Cpp = ''cpp''"
| "typical_extension CSharp = ''cs''"
| "typical_extension Go = ''go''"
| "typical_extension Ruby = ''rb''"
| "typical_extension Bash = ''sh''"
| "typical_extension Php = ''php''"
| "typical_extension Html = ''html''"
| "typical_extension Css = ''css''"
| "typical_extension Yaml = ''yml''"
| "typical_extension Toml = ''toml''"
| "typical_extension Markdown = ''md''"
| "typical_extension Kotlin = ''kt''"
| "typical_extension Swift = ''swift''"
| "typical_extension Lua = ''lua''"
| "typical_extension Scala = ''scala''"
| "typical_extension R = ''r''"
| "typical_extension Elixir = ''ex''"
| "typical_extension Haskell = ''hs''"
| "typical_extension Ocaml = ''ml''"
| "typical_extension OcamlInterface = ''mli''"
| "typical_extension Zig = ''zig''"
| "typical_extension Universal = ''''"

lemma typical_extension_detected:
  "l \<noteq> Universal \<Longrightarrow> language_of_extension e (to_ascii_lowercase (typical_extension l)) = Inr l"
  by (cases l) (simp_all add: language_of_extension_def to_ascii_lowercase_def ascii_lower_def less_eq_char_def)

lemma path_extension_file:
  assumes "\<forall>c\<in>set e. c \<noteq> CHR ''/'' \<and> c \<noteq> CHR ''.''"
  shows "path_extension (''src/file.'' @ e) = Some e"
proof -
  have split: "split_on CHR ''/'' e = [e]"
    using assms by (induction e) auto
  have "takeWhile (\<lambda>c. c \<noteq> CHR ''.'') (rev e @ [CHR ''.'', CHR ''e'', CHR ''l'', CHR ''i'', CHR ''f'']) = rev e"
    using assms by (subst takeWhile_append2) auto
  then show ?thesis by (simp add: path_extension_def file_name_def split Let_def)
qed

lemma typical_extension_plain: "\<forall>c\<in>set (typical_extension l). c \<noteq> CHR ''/'' \<and> c \<noteq> CHR ''.''"
  by (cases l) simp_all

text \<open>detection covers every native language and never guesses. No path is detected as
  universal; every other language is detected for some path; the outcome depends on the
  extension up to ASCII case only; and the extensions \<open>h\<close> and \<open>m\<close> are refused.\<close>

theorem detect_native_only:
  "detect p \<noteq> Inr Universal \<and>
   (l = Universal \<or> (\<exists>q. detect q = Inr l)) \<and>
   (detect p = Inr l \<longleftrightarrow>
      (\<exists>e. path_extension p = Some e \<and> language_of_extension any (to_ascii_lowercase e) = Inr l)) \<and>
   detect ''a.h'' = Inl (AmbiguousExtension ''h'') \<and> detect ''a.m'' = Inl (AmbiguousExtension ''m'')"
proof (intro conjI)
  show "detect p \<noteq> Inr Universal"
    by (simp add: detect_def language_of_extension_not_universal split: option.splits)
  show "l = Universal \<or> (\<exists>q. detect q = Inr l)"
    using path_extension_file [OF typical_extension_plain, of l] typical_extension_detected [of l]
    by (auto simp: detect_def intro: exI [of _ "''src/file.'' @ typical_extension l"])
  show "detect p = Inr l \<longleftrightarrow>
      (\<exists>e. path_extension p = Some e \<and> language_of_extension any (to_ascii_lowercase e) = Inr l)"
    using language_of_extension_lower by (cases "path_extension p") (auto simp: detect_def)
  show "detect ''a.h'' = Inl (AmbiguousExtension ''h'')" "detect ''a.m'' = Inl (AmbiguousExtension ''m'')"
    by (simp_all add: detect_def path_extension_def file_name_def language_of_extension_def
        to_ascii_lowercase_def ascii_lower_def less_eq_char_def)
qed

end
