(* ===== verification/Alignment.thy ===== *)
theory Alignment
  imports Work_Budget
begin

text \<open>
  The ordered alignment of \<open>crates/stratadiff-verifier/src/verifier.rs\<close>: the prefix and suffix tables of
  the dynamic program over a candidate matrix and the forced-pair test. The specification is
  the set of ordered matchings of the matrix (increasing in both coordinates, every pair a
  candidate): the tables hold the maximum matching sizes of the sub-rectangles, the optimality test
  selects exactly the pairs that some maximum matching contains, and the recomputation
  without one pair tells whether every maximum matching contains it.
\<close>

section \<open>The tables\<close>

type_synonym matrix = "bool list list"

definition matrix_at :: "'a list list \<Rightarrow> nat \<Rightarrow> nat \<Rightarrow> 'a result" where
  "matrix_at m i j = rbind (index_at m i) (\<lambda>r. index_at r j)"

definition matrix_set :: "'a list list \<Rightarrow> nat \<Rightarrow> nat \<Rightarrow> 'a \<Rightarrow> 'a list list result" where
  "matrix_set m i j x = rbind (index_at m i) (\<lambda>r. if j < length r then Inr (m[i := r[j := x]]) else Inl Panic)"

definition first_width :: "matrix \<Rightarrow> nat" where
  "first_width candidates = (case candidates of [] \<Rightarrow> 0 | r # _ \<Rightarrow> length r)"

definition prefix_cell ::
  "matrix \<Rightarrow> (nat \<times> nat) option \<Rightarrow> nat \<Rightarrow> nat list list \<Rightarrow> nat \<Rightarrow> nat list list work" where
  "prefix_cell candidates forbidden before_index scores after_index =
     wbind (wlift (matrix_at scores before_index (after_index + 1))) (\<lambda>up.
     wbind (wlift (matrix_at scores (before_index + 1) after_index)) (\<lambda>left.
     wbind (wlift (matrix_at candidates before_index after_index)) (\<lambda>candidate.
     wbind
       (if candidate \<and> forbidden \<noteq> Some (before_index, after_index)
        then wbind (wlift (matrix_at scores before_index after_index)) (\<lambda>d. wreturn (max (max up left) (d + 1)))
        else wreturn (max up left)) (\<lambda>best.
       wlift (matrix_set scores (before_index + 1) (after_index + 1) best)))))"

definition alignment_prefix_scores :: "matrix \<Rightarrow> (nat \<times> nat) option \<Rightarrow> nat list list work" where
  "alignment_prefix_scores candidates forbidden =
     (let before_len = length candidates; after_len = first_width candidates in
      wbind (charge_product before_len after_len) (\<lambda>_.
      wfold (\<lambda>scores before_index. wfold (prefix_cell candidates forbidden before_index) scores [0..<after_len])
        (replicate (before_len + 1) (replicate (after_len + 1) 0)) [0..<before_len]))"

definition suffix_cell :: "matrix \<Rightarrow> nat \<Rightarrow> nat list list \<Rightarrow> nat \<Rightarrow> nat list list work" where
  "suffix_cell candidates before_index scores after_index =
     wbind (wlift (matrix_at scores (before_index + 1) after_index)) (\<lambda>down.
     wbind (wlift (matrix_at scores before_index (after_index + 1))) (\<lambda>right.
     wbind (wlift (matrix_at candidates before_index after_index)) (\<lambda>candidate.
     wbind
       (if candidate
        then wbind (wlift (matrix_at scores (before_index + 1) (after_index + 1))) (\<lambda>d.
               wreturn (max (max down right) (d + 1)))
        else wreturn (max down right)) (\<lambda>best.
       wlift (matrix_set scores before_index after_index best)))))"

definition alignment_suffix_scores :: "matrix \<Rightarrow> nat list list work" where
  "alignment_suffix_scores candidates =
     (let before_len = length candidates; after_len = first_width candidates in
      wbind (charge_product before_len after_len) (\<lambda>_.
      wfold (\<lambda>scores before_index. wfold (suffix_cell candidates before_index) scores (rev [0..<after_len]))
        (replicate (before_len + 1) (replicate (after_len + 1) 0)) (rev [0..<before_len])))"

definition alignment_score :: "matrix \<Rightarrow> (nat \<times> nat) option \<Rightarrow> nat work" where
  "alignment_score candidates forbidden =
     wbind (alignment_prefix_scores candidates forbidden) (\<lambda>scores.
       wlift (matrix_at scores (length candidates) (first_width candidates)))"

section \<open>Ordered matchings\<close>

definition rectangular :: "matrix \<Rightarrow> nat \<Rightarrow> nat \<Rightarrow> bool" where
  "rectangular m rows cols \<longleftrightarrow> length m = rows \<and> (\<forall>r\<in>set m. length r = cols)"

text \<open>A matching inside a rectangle of the matrix: a list of pairs strictly increasing in both coordinates.\<close>

definition below :: "nat \<times> nat \<Rightarrow> nat \<times> nat \<Rightarrow> bool" where
  "below p q \<longleftrightarrow> fst p < fst q \<and> snd p < snd q"

definition matching :: "(nat \<Rightarrow> nat \<Rightarrow> bool) \<Rightarrow> nat \<Rightarrow> nat \<Rightarrow> nat \<Rightarrow> nat \<Rightarrow> (nat \<times> nat) list \<Rightarrow> bool" where
  "matching c i0 j0 i1 j1 ps \<longleftrightarrow>
     sorted_wrt below ps \<and> (\<forall>(i, j)\<in>set ps. c i j \<and> i0 \<le> i \<and> i < i1 \<and> j0 \<le> j \<and> j < j1)"

lemma matching_nil [simp]: "matching c i0 j0 i1 j1 []"
  by (simp add: matching_def)

text \<open>The recurrence, from the lower right corner of a prefix rectangle.\<close>

fun prefix_best :: "(nat \<Rightarrow> nat \<Rightarrow> bool) \<Rightarrow> nat \<Rightarrow> nat \<Rightarrow> nat" where
  "prefix_best c 0 j = 0"
| "prefix_best c (Suc i) 0 = 0"
| "prefix_best c (Suc i) (Suc j) =
     max (max (prefix_best c i (Suc j)) (prefix_best c (Suc i) j))
       (if c i j then prefix_best c i j + 1 else 0)"

lemma matching_append:
  "matching c i0 j0 i1 j1 ps \<Longrightarrow> matching c i1 j1 i2 j2 qs \<Longrightarrow> i0 \<le> i1 \<Longrightarrow> i1 \<le> i2 \<Longrightarrow> j0 \<le> j1 \<Longrightarrow> j1 \<le> j2 \<Longrightarrow>
   matching c i0 j0 i2 j2 (ps @ qs)"
  by (fastforce simp: matching_def sorted_wrt_append below_def)

lemma matching_single: "c i j \<Longrightarrow> matching c i j (Suc i) (Suc j) [(i, j)]"
  by (simp add: matching_def)

lemma matching_mono:
  "matching c i0 j0 i1 j1 ps \<Longrightarrow> i1 \<le> i2 \<Longrightarrow> j1 \<le> j2 \<Longrightarrow> matching c i0 j0 i2 j2 ps"
  by (fastforce simp: matching_def)

lemma prefix_best_attained: "\<exists>ps. matching c 0 0 i j ps \<and> length ps = prefix_best c i j"
proof (induction c i j rule: prefix_best.induct)
  case (3 c i j)
  then obtain u l d where u: "matching c 0 0 i (Suc j) u" "length u = prefix_best c i (Suc j)"
    and l: "matching c 0 0 (Suc i) j l" "length l = prefix_best c (Suc i) j"
    and d: "c i j \<Longrightarrow> matching c 0 0 i j d \<and> length d = prefix_best c i j"
    by (cases "c i j") auto
  have "matching c 0 0 (Suc i) (Suc j) (d @ [(i, j)])" if "c i j"
    using matching_append [of c 0 0 i j d "Suc i" "Suc j" "[(i, j)]"] matching_single [of c i j] d that by simp
  moreover have "matching c 0 0 (Suc i) (Suc j) u" "matching c 0 0 (Suc i) (Suc j) l"
    using u(1) l(1) by (auto elim: matching_mono)
  ultimately show ?case
    using u(2) l(2) d by (cases "c i j") (fastforce simp: max_def)+
qed (auto intro: exI [of _ "[]"])

lemma matching_drop_last:
  assumes "matching c i0 j0 (Suc i) (Suc j) ps" "ps \<noteq> []"
  shows "matching c i0 j0 i (Suc j) ps \<or> matching c i0 j0 (Suc i) j ps \<or>
    (c i j \<and> ps = butlast ps @ [(i, j)] \<and> matching c i0 j0 i j (butlast ps))"
proof -
  obtain qs a b where ps: "ps = qs @ [(a, b)]"
    using assms(2) by (metis append_butlast_last_id surj_pair)
  have ab: "c a b" "a \<le> i" "b \<le> j" using assms(1) by (auto simp: matching_def ps)
  have small: "\<forall>(x, y)\<in>set qs. x < a \<and> y < b"
    using assms(1) by (auto simp: matching_def ps sorted_wrt_append below_def)
  show ?thesis
  proof (cases "a = i")
    case False
    then have "matching c i0 j0 i (Suc j) ps"
      using assms(1) small ab by (fastforce simp: matching_def ps)
    then show ?thesis by simp
  next
    case ai: True
    show ?thesis
    proof (cases "b = j")
      case False
      then have "matching c i0 j0 (Suc i) j ps"
        using assms(1) small ab by (fastforce simp: matching_def ps)
      then show ?thesis by simp
    next
      case True
      have "matching c i0 j0 i j qs"
        using assms(1) small ai True by (fastforce simp: matching_def ps sorted_wrt_append)
      then show ?thesis using ai True ab by (simp add: ps)
    qed
  qed
qed

lemma prefix_best_upper: "matching c 0 0 i j ps \<Longrightarrow> length ps \<le> prefix_best c i j"
proof (induction c i j arbitrary: ps rule: prefix_best.induct)
  case (3 c i j)
  show ?case
  proof (cases "ps = []")
    case False
    from matching_drop_last [OF "3.prems" False] "3.IH"
    show ?thesis by (auto simp: max_def dest!: arg_cong [of ps _ length]) fastforce+
  qed simp
next
  case (1 c j)
  then show ?case by (cases ps) (auto simp: matching_def)
next
  case (2 c i)
  then show ?case by (cases ps) (auto simp: matching_def)
qed

section \<open>The tables hold the optima\<close>

definition table :: "nat list list \<Rightarrow> nat \<Rightarrow> nat \<Rightarrow> (nat \<Rightarrow> nat \<Rightarrow> nat) \<Rightarrow> bool" where
  "table s n m f \<longleftrightarrow> length s = Suc n \<and> (\<forall>a\<le>n. length (s ! a) = Suc m \<and> (\<forall>b\<le>m. s ! a ! b = f a b))"

lemma table_at: "table s n m f \<Longrightarrow> a \<le> n \<Longrightarrow> b \<le> m \<Longrightarrow> matrix_at s a b = Inr (f a b)"
  by (simp add: table_def matrix_at_def)

lemma table_set:
  assumes "table s n m f" "a \<le> n" "b \<le> m"
  obtains s' where "matrix_set s a b x = Inr s'" "table s' n m (\<lambda>i j. if i = a \<and> j = b then x else f i j)"
proof -
  have "matrix_set s a b x = Inr (s[a := (s ! a)[b := x]])"
    using assms by (simp add: table_def matrix_set_def)
  moreover have "table (s[a := (s ! a)[b := x]]) n m (\<lambda>i j. if i = a \<and> j = b then x else f i j)"
    using assms by (auto simp: table_def nth_list_update)
  ultimately show ?thesis by (rule that)
qed

lemma table_cong:
  assumes "table s n m f" "\<And>a b. a \<le> n \<Longrightarrow> b \<le> m \<Longrightarrow> f a b = g a b"
  shows "table s n m g"
  using assms by (simp add: table_def)

lemma table_init: "table (replicate (n + 1) (replicate (m + 1) 0)) n m (\<lambda>_ _. 0)"
  by (simp add: table_def del: replicate_Suc)

lemma matrix_at_rectangular: "rectangular c n m \<Longrightarrow> i < n \<Longrightarrow> j < m \<Longrightarrow> matrix_at c i j = Inr (c ! i ! j)"
  by (simp add: rectangular_def matrix_at_def)

definition allowed :: "matrix \<Rightarrow> (nat \<times> nat) option \<Rightarrow> nat \<Rightarrow> nat \<Rightarrow> bool" where
  "allowed candidates forbidden i j \<longleftrightarrow> candidates ! i ! j \<and> forbidden \<noteq> Some (i, j)"

lemma upt_prefix: "[0..<n] = ys @ x # zs \<Longrightarrow> x = length ys \<and> x < n"
  by (metis add_cancel_left_left add_lessD1 append_eq_append_conv2 diff_zero length_append length_upt
      less_add_same_cancel1 list.size(4) nth_append_length nth_upt zero_less_Suc add.commute)

text \<open>A fold over an index range, with the number of visited indices in the invariant.\<close>

lemma valid_fold_upt:
  assumes "I 0 s" "\<And>i s. i < n \<Longrightarrow> I i s \<Longrightarrow> valid (f s i) E (I (Suc i))"
  shows "valid (wfold f s [0..<n]) E (I n)"
proof -
  have "valid (wfold f s [0..<n]) E (I (length [0..<n]))"
  proof (rule valid_fold_prefix [where I = "\<lambda>ys. I (length ys)"])
    fix ys x zs s
    assume "[0..<n] = ys @ x # zs" "I (length ys) s"
    then show "valid (f s x) E (I (length (ys @ [x])))"
      using upt_prefix [of n ys x zs] assms(2) [of x s] by simp
  qed (use assms in simp)
  then show ?thesis by simp
qed

lemma rev_upt_prefix:
  assumes "rev [0..<n] = ys @ x # zs"
  shows "x = n - Suc (length ys) \<and> length ys < n"
proof -
  have "length ys < n" using arg_cong [OF assms, of length] by simp
  moreover have "x = rev [0..<n] ! length ys" using assms by simp
  ultimately show ?thesis by (simp add: rev_nth)
qed

lemma valid_fold_rev_upt:
  assumes "I n s" "\<And>i s. i < n \<Longrightarrow> I (Suc i) s \<Longrightarrow> valid (f s i) E (I i)"
  shows "valid (wfold f s (rev [0..<n])) E (I 0)"
proof -
  have "valid (wfold f s (rev [0..<n])) E (I (n - length (rev [0..<n])))"
  proof (rule valid_fold_prefix [where I = "\<lambda>ys. I (n - length ys)"])
    fix ys x zs s
    assume "rev [0..<n] = ys @ x # zs" "I (n - length ys) s"
    then show "valid (f s x) E (I (n - length (ys @ [x])))"
      using rev_upt_prefix [of n ys x zs] assms(2) [of x s] by (simp add: Suc_diff_Suc)
  qed (use assms in simp)
  then show ?thesis by simp
qed

lemma prefix_scores_valid:
  assumes c: "rectangular candidates n m" and m: "m = first_width candidates"
  shows "valid (alignment_prefix_scores candidates forbidden) work_failure
    (\<lambda>s. table s n m (prefix_best (allowed candidates forbidden)))"
proof -
  let ?p = "prefix_best (allowed candidates forbidden)"
  define J where "J i j s \<longleftrightarrow> table s n m (\<lambda>a b. if a \<le> i \<or> a = Suc i \<and> b \<le> j then ?p a b else 0)" for i j s
  have cell: "valid (prefix_cell candidates forbidden i s j) work_failure (J i (Suc j))"
    if ij: "i < n" "j < m" and s: "J i j s" for i j s
  proof -
    let ?best = "max (max (?p i (Suc j)) (?p (Suc i) j)) (if allowed candidates forbidden i j then ?p i j + 1 else 0)"
    note at = table_at [OF s [unfolded J_def]]
    obtain s' where s': "matrix_set s (Suc i) (Suc j) ?best = Inr s'"
      "table s' n m (\<lambda>a b. if a = Suc i \<and> b = Suc j then ?best
         else if a \<le> i \<or> a = Suc i \<and> b \<le> j then ?p a b else 0)"
      using table_set [OF s [unfolded J_def], of "Suc i" "Suc j" ?best] ij by auto
    have "prefix_cell candidates forbidden i s j = wreturn s'"
      using ij s' at matrix_at_rectangular [OF c ij]
      by (simp add: prefix_cell_def allowed_def) (auto simp: allowed_def)
    moreover have "J i (Suc j) s'"
      unfolding J_def by (rule table_cong [OF s'(2)]) (auto simp: le_Suc_eq)
    ultimately show ?thesis by (simp add: valid_return)
  qed
  have row: "valid (wfold (prefix_cell candidates forbidden i) s [0..<m]) work_failure (J i m)"
    if "i < n" "J i 0 s" for i s
    using that by (intro valid_fold_upt [where I = "J i"] cell)
  have step: "J (Suc i) 0 s" if "J i m s" "i < n" for i s
    using that(1) unfolding J_def by (rule table_cong) (auto simp: le_Suc_eq)
  have "valid (wfold (\<lambda>s i. wfold (prefix_cell candidates forbidden i) s [0..<m])
      (replicate (n + 1) (replicate (m + 1) 0)) [0..<n]) work_failure (J n 0)"
  proof (rule valid_fold_upt [where I = "\<lambda>i. J i 0"])
    show "J 0 0 (replicate (n + 1) (replicate (m + 1) 0))"
      unfolding J_def by (rule table_cong [OF table_init]) (auto simp: le_Suc_eq)
    fix i s assume "i < n" "J i 0 s"
    then show "valid (wfold (prefix_cell candidates forbidden i) s [0..<m]) work_failure (J (Suc i) 0)"
      using row step by (blast intro: valid_conseq)
  qed
  moreover have "table s n m ?p" if "J n 0 s" for s
    using that unfolding J_def by (rule table_cong) simp
  ultimately show ?thesis
    using c m by (auto simp: alignment_prefix_scores_def rectangular_def Let_def intro!: vc intro: valid_conseq)
qed

text \<open>The suffix table is the prefix table of the reflected matrix.\<close>

definition suffix_best :: "(nat \<Rightarrow> nat \<Rightarrow> bool) \<Rightarrow> nat \<Rightarrow> nat \<Rightarrow> nat \<Rightarrow> nat \<Rightarrow> nat" where
  "suffix_best c n m i j = prefix_best (\<lambda>a b. c (n - Suc a) (m - Suc b)) (n - i) (m - j)"

definition reflect :: "nat \<Rightarrow> nat \<Rightarrow> (nat \<times> nat) list \<Rightarrow> (nat \<times> nat) list" where
  "reflect n m ps = rev (map (\<lambda>(a, b). (n - Suc a, m - Suc b)) ps)"

lemma length_reflect [simp]: "length (reflect n m ps) = length ps"
  by (simp add: reflect_def)

lemma sorted_reflect:
  assumes "sorted_wrt below ps" "\<forall>(a, b)\<in>set ps. a < n \<and> b < m"
  shows "sorted_wrt below (reflect n m ps)"
proof -
  have "sorted_wrt (\<lambda>p q. below (n - Suc (fst q), m - Suc (snd q)) (n - Suc (fst p), m - Suc (snd p))) ps"
  proof (rule sorted_wrt_mono_rel [OF _ assms(1)])
    fix p q assume "p \<in> set ps" "q \<in> set ps" "below p q"
    then have "fst q < n" "snd q < m" "fst p < fst q" "snd p < snd q"
      using assms(2) by (auto simp: below_def)
    then show "below (n - Suc (fst q), m - Suc (snd q)) (n - Suc (fst p), m - Suc (snd p))"
      by (simp add: below_def) linarith
  qed
  then show ?thesis
    by (simp add: reflect_def sorted_wrt_rev sorted_wrt_map case_prod_beta)
qed

lemma matching_reflect:
  assumes "matching c i j n m ps"
  shows "matching (\<lambda>a b. c (n - Suc a) (m - Suc b)) 0 0 (n - i) (m - j) (reflect n m ps)"
  using assms sorted_reflect [of ps n m] by (fastforce simp: matching_def reflect_def)

lemma matching_unreflect:
  assumes "matching (\<lambda>a b. c (n - Suc a) (m - Suc b)) 0 0 (n - i) (m - j) ps" "i \<le> n" "j \<le> m"
  shows "matching c i j n m (reflect n m ps)"
  using assms sorted_reflect [of ps n m] by (fastforce simp: matching_def reflect_def)

lemma suffix_best_simps:
  "suffix_best c n m n j = 0" "suffix_best c n m i m = 0"
  "i < n \<Longrightarrow> j < m \<Longrightarrow> suffix_best c n m i j =
     max (max (suffix_best c n m (Suc i) j) (suffix_best c n m i (Suc j)))
       (if c i j then suffix_best c n m (Suc i) (Suc j) + 1 else 0)"
proof -
  show "suffix_best c n m n j = 0" by (simp add: suffix_best_def)
  show "suffix_best c n m i m = 0" by (cases "n - i") (simp_all add: suffix_best_def)
  assume "i < n" "j < m"
  then have e: "n - i = Suc (n - Suc i)" "m - j = Suc (m - Suc j)"
    "n - Suc (n - Suc i) = i" "m - Suc (m - Suc j) = j" by auto
  show "suffix_best c n m i j =
     max (max (suffix_best c n m (Suc i) j) (suffix_best c n m i (Suc j)))
       (if c i j then suffix_best c n m (Suc i) (Suc j) + 1 else 0)"
    unfolding suffix_best_def e(1,2) prefix_best.simps e(3,4) by simp
qed

lemma suffix_scores_valid:
  assumes c: "rectangular candidates n m" and m: "m = first_width candidates"
  shows "valid (alignment_suffix_scores candidates) work_failure
    (\<lambda>s. table s n m (suffix_best (\<lambda>i j. candidates ! i ! j) n m))"
proof -
  let ?p = "suffix_best (\<lambda>i j. candidates ! i ! j) n m"
  define J where "J i j s \<longleftrightarrow> table s n m (\<lambda>a b. if i < a \<or> a = i \<and> j \<le> b then ?p a b else 0)" for i j s
  have cell: "valid (suffix_cell candidates i s j) work_failure (J i j)"
    if ij: "i < n" "j < m" and s: "J i (Suc j) s" for i j s
  proof -
    let ?best = "max (max (?p (Suc i) j) (?p i (Suc j))) (if candidates ! i ! j then ?p (Suc i) (Suc j) + 1 else 0)"
    note at = table_at [OF s [unfolded J_def]]
    obtain s' where s': "matrix_set s i j ?best = Inr s'"
      "table s' n m (\<lambda>a b. if a = i \<and> b = j then ?best
         else if i < a \<or> a = i \<and> Suc j \<le> b then ?p a b else 0)"
      using table_set [OF s [unfolded J_def], of i j ?best] ij by auto
    have "suffix_cell candidates i s j = wreturn s'"
      using ij s' at matrix_at_rectangular [OF c ij]
      by (cases "candidates ! i ! j") (simp_all add: suffix_cell_def)
    moreover have "J i j s'"
      unfolding J_def by (rule table_cong [OF s'(2)]) (use ij suffix_best_simps(3) in \<open>auto simp: Suc_le_eq\<close>)
    ultimately show ?thesis by (simp add: valid_return)
  qed
  have row: "valid (wfold (suffix_cell candidates i) s (rev [0..<m])) work_failure (J i 0)"
    if "i < n" "J i m s" for i s
    using that by (intro valid_fold_rev_upt [where I = "J i"] cell)
  have step: "J i m s" if "J (Suc i) 0 s" "i < n" for i s
    using that(1) unfolding J_def by (rule table_cong) (auto simp: suffix_best_simps not_less less_Suc_eq Suc_le_eq)
  have "valid (wfold (\<lambda>s i. wfold (suffix_cell candidates i) s (rev [0..<m]))
      (replicate (n + 1) (replicate (m + 1) 0)) (rev [0..<n])) work_failure (J 0 0)"
  proof (rule valid_fold_rev_upt [where I = "\<lambda>i. J i 0"])
    show "J n 0 (replicate (n + 1) (replicate (m + 1) 0))"
      unfolding J_def by (rule table_cong [OF table_init]) (auto simp: suffix_best_simps)
    fix i s assume "i < n" "J (Suc i) 0 s"
    then show "valid (wfold (suffix_cell candidates i) s (rev [0..<m])) work_failure (J i 0)"
      using row step by blast
  qed
  moreover have "table s n m ?p" if "J 0 0 s" for s
    using that unfolding J_def by (rule table_cong) auto
  ultimately show ?thesis
    using c m by (auto simp: alignment_suffix_scores_def rectangular_def Let_def intro!: vc intro: valid_conseq)
qed

lemma suffix_best_attained: "i \<le> n \<Longrightarrow> j \<le> m \<Longrightarrow> \<exists>ps. matching c i j n m ps \<and> length ps = suffix_best c n m i j"
  using prefix_best_attained [of "\<lambda>a b. c (n - Suc a) (m - Suc b)" "n - i" "m - j"] matching_unreflect [of c n m i j]
  by (metis length_reflect suffix_best_def)

lemma suffix_best_upper: "matching c i j n m ps \<Longrightarrow> length ps \<le> suffix_best c n m i j"
  using prefix_best_upper [OF matching_reflect [of c i j n m ps]] by (simp add: suffix_best_def)

section \<open>Possible and forced pairs\<close>

definition maximum :: "(nat \<Rightarrow> nat \<Rightarrow> bool) \<Rightarrow> nat \<Rightarrow> nat \<Rightarrow> (nat \<times> nat) list \<Rightarrow> bool" where
  "maximum c n m ps \<longleftrightarrow> matching c 0 0 n m ps \<and> (\<forall>qs. matching c 0 0 n m qs \<longrightarrow> length qs \<le> length ps)"

lemma maximum_iff: "maximum c n m ps \<longleftrightarrow> matching c 0 0 n m ps \<and> length ps = prefix_best c n m"
  using prefix_best_attained [of c n m] prefix_best_upper [of c n m]
  by (metis (no_types, lifting) le_antisym maximum_def)

lemma possible_iff:
  assumes "i < n" "j < m" "c i j"
  shows "prefix_best c i j + 1 + suffix_best c n m (Suc i) (Suc j) = prefix_best c n m \<longleftrightarrow>
    (\<exists>ps. maximum c n m ps \<and> (i, j) \<in> set ps)"
proof -
  obtain l r where l: "matching c 0 0 i j l" "length l = prefix_best c i j"
    and r: "matching c (Suc i) (Suc j) n m r" "length r = suffix_best c n m (Suc i) (Suc j)"
    using prefix_best_attained suffix_best_attained [of "Suc i" n "Suc j" m c] assms by (metis Suc_leI)
  have "matching c 0 0 (Suc i) (Suc j) (l @ [(i, j)])"
    using matching_append [OF l(1) matching_single [of c i j]] assms(3) by simp
  from matching_append [OF this r(1)] have all: "matching c 0 0 n m (l @ (i, j) # r)" using assms by simp
  show ?thesis
  proof
    assume "prefix_best c i j + 1 + suffix_best c n m (Suc i) (Suc j) = prefix_best c n m"
    then show "\<exists>ps. maximum c n m ps \<and> (i, j) \<in> set ps"
      using all l r by (intro exI [of _ "l @ (i, j) # r"]) (simp add: maximum_iff)
  next
    assume "\<exists>ps. maximum c n m ps \<and> (i, j) \<in> set ps"
    then obtain ps where ps: "matching c 0 0 n m ps" "length ps = prefix_best c n m" "(i, j) \<in> set ps"
      by (auto simp: maximum_iff)
    then obtain l' r' where s: "ps = l' @ (i, j) # r'" by (meson split_list)
    have "matching c 0 0 i j l'" "matching c (Suc i) (Suc j) n m r'"
      using ps(1) by (fastforce simp: matching_def s sorted_wrt_append below_def)+
    from prefix_best_upper [OF this(1)] suffix_best_upper [OF this(2)] prefix_best_upper [OF all] ps(2) l(2) r(2)
    show "prefix_best c i j + 1 + suffix_best c n m (Suc i) (Suc j) = prefix_best c n m"
      by (simp add: s)
  qed
qed

lemma forced_iff:
  "prefix_best (\<lambda>a b. c a b \<and> (a, b) \<noteq> (i, j)) n m < prefix_best c n m \<longleftrightarrow>
    (\<forall>ps. maximum c n m ps \<longrightarrow> (i, j) \<in> set ps)" (is "prefix_best ?d n m < _ \<longleftrightarrow> _")
proof
  assume less: "prefix_best ?d n m < prefix_best c n m"
  show "\<forall>ps. maximum c n m ps \<longrightarrow> (i, j) \<in> set ps"
  proof (intro allI impI, rule ccontr)
    fix ps assume ps: "maximum c n m ps" "(i, j) \<notin> set ps"
    then have "matching ?d 0 0 n m ps" by (auto simp: maximum_iff matching_def)
    from prefix_best_upper [OF this] less ps(1) show False by (simp add: maximum_iff)
  qed
next
  assume all: "\<forall>ps. maximum c n m ps \<longrightarrow> (i, j) \<in> set ps"
  obtain ps where ps: "matching ?d 0 0 n m ps" "length ps = prefix_best ?d n m"
    using prefix_best_attained by blast
  then have c: "matching c 0 0 n m ps" "(i, j) \<notin> set ps" by (auto simp: matching_def)
  then have "prefix_best ?d n m \<noteq> prefix_best c n m" using all ps(2) by (auto simp: maximum_iff)
  with prefix_best_upper [OF c(1)] ps(2) show "prefix_best ?d n m < prefix_best c n m" by simp
qed

lemma allowed_eq: "allowed candidates (Some (i, j)) = (\<lambda>a b. candidates ! a ! b \<and> (a, b) \<noteq> (i, j))"
  "allowed candidates None = (\<lambda>a b. candidates ! a ! b)"
  by (auto simp: allowed_def fun_eq_iff)

lemma alignment_score_valid:
  assumes "rectangular candidates n m" "m = first_width candidates"
  shows "valid (alignment_score candidates forbidden) work_failure
    (\<lambda>k. k = prefix_best (allowed candidates forbidden) n m)"
  unfolding alignment_score_def
proof (rule valid_bind [OF prefix_scores_valid [OF assms]])
  fix s assume s: "table s n m (prefix_best (allowed candidates forbidden))"
  then show "valid (wlift (matrix_at s (length candidates) (first_width candidates))) work_failure
      (\<lambda>k. k = prefix_best (allowed candidates forbidden) n m)"
    using assms table_at [OF s, of n m] by (auto simp: rectangular_def intro: valid_return)
qed

lemma budgeted_alignment [budget_intros]:
  "budgeted (alignment_prefix_scores c f)" "budgeted (alignment_suffix_scores c)" "budgeted (alignment_score c f)"
  by (auto simp: alignment_prefix_scores_def alignment_suffix_scores_def alignment_score_def prefix_cell_def
      suffix_cell_def Let_def intro!: budget_intros)

section \<open>Properties\<close>

abbreviation entries :: "matrix \<Rightarrow> nat \<Rightarrow> nat \<Rightarrow> bool" where
  "entries candidates \<equiv> (\<lambda>i j. candidates ! i ! j)"

text \<open>The optimality test. For a rectangular candidate matrix, a candidate pair passes
  \<open>prefix[i][j] + 1 + suffix[i+1][j+1] == optimum\<close> exactly when some maximum-cardinality ordered
  matching of the matrix contains it.\<close>

theorem possible_pair_exact:
  assumes "rectangular candidates n m" "m = first_width candidates"
    and "alignment_prefix_scores candidates None w1 = Inr (prefix, w1')"
    and "alignment_suffix_scores candidates w2 = Inr (suffix, w2')"
    and "i < n" "j < m" "candidates ! i ! j"
  shows "prefix ! i ! j + 1 + suffix ! (i + 1) ! (j + 1) = prefix ! n ! m \<longleftrightarrow>
    (\<exists>ps. maximum (entries candidates) n m ps \<and> (i, j) \<in> set ps)"
proof -
  have p: "table prefix n m (prefix_best (entries candidates))"
    using validD [OF prefix_scores_valid [OF assms(1,2)] assms(3)] by (simp add: allowed_eq)
  have s: "table suffix n m (suffix_best (entries candidates) n m)"
    by (rule validD [OF suffix_scores_valid [OF assms(1,2)] assms(4)])
  show ?thesis
    using p s assms(5-7) possible_iff [of i n j m "entries candidates"] by (simp add: table_def)
qed

text \<open>The forced-pair test. Recomputing the optimum without one pair gives a smaller score
  exactly when every maximum-cardinality ordered matching contains that pair: a relation is
  certified as forced only if no optimal alignment avoids it.\<close>

theorem forced_pair_exact:
  assumes "rectangular candidates n m" "m = first_width candidates"
    and "alignment_score candidates None w1 = Inr (optimum, w1')"
    and "alignment_score candidates (Some (i, j)) w2 = Inr (without, w2')"
  shows "without < optimum \<longleftrightarrow> (\<forall>ps. maximum (entries candidates) n m ps \<longrightarrow> (i, j) \<in> set ps)"
  using validD [OF alignment_score_valid [OF assms(1,2)] assms(3)]
    validD [OF alignment_score_valid [OF assms(1,2)] assms(4)] forced_iff [of "entries candidates" i j n m]
  by (simp add: allowed_eq)

text \<open>The diagonal matrix of size two: its only maximum matching is the diagonal.\<close>

definition diagonal2 :: matrix where
  "diagonal2 = [[True, False], [False, True]]"

lemma diagonal2_rectangular: "rectangular diagonal2 2 2" "2 = first_width diagonal2"
  by (simp_all add: diagonal2_def rectangular_def first_width_def)

lemma diagonal2_scores:
  "alignment_prefix_scores diagonal2 None (work_budget_new 100) =
     Inr ([[0, 0, 0], [0, 1, 1], [0, 1, 2]], \<lparr>wb_limit = 100, wb_used = 4\<rparr>)"
  "alignment_suffix_scores diagonal2 (work_budget_new 100) =
     Inr ([[2, 1, 0], [1, 1, 0], [0, 0, 0]], \<lparr>wb_limit = 100, wb_used = 4\<rparr>)"
  "alignment_score diagonal2 None (work_budget_new 100) = Inr (2, \<lparr>wb_limit = 100, wb_used = 4\<rparr>)"
  "alignment_score diagonal2 (Some (0, 0)) (work_budget_new 100) = Inr (1, \<lparr>wb_limit = 100, wb_used = 4\<rparr>)"
  by (simp_all add: alignment_prefix_scores_def alignment_suffix_scores_def alignment_score_def diagonal2_def
      first_width_def charge_product_def charge_def usize_checked_mul_def usize_checked_add_def usize_max_def
      work_budget_new_def wbind_def wreturn_def upt_rec prefix_cell_def suffix_cell_def matrix_at_def matrix_set_def
      index_at_def numeral_2_eq_2 numeral_3_eq_3)

theorem possible_pair_exact_witness:
  "\<exists>ps. maximum (entries diagonal2) 2 2 ps \<and> (0, 0) \<in> set ps"
  using possible_pair_exact [OF diagonal2_rectangular diagonal2_scores(1,2), of 0 0]
  by (simp add: diagonal2_def)

theorem forced_pair_exact_witness:
  "{ps. maximum (entries diagonal2) 2 2 ps} \<subseteq> {ps. (0, 0) \<in> set ps}"
  using forced_pair_exact [OF diagonal2_rectangular diagonal2_scores(3,4)] by auto

end
