(* ===== verification/Union_Find.thy ===== *)
theory Union_Find
  imports Prelude
begin

text \<open>
  \<open>DisjointSets\<close> of \<open>crates/stratadiff-verifier/src/verifier.rs\<close>: the parent and rank vectors, \<open>find\<close>
  with path compression and \<open>union\<close> by rank (ranks are \<open>u8\<close>). The abstraction is the relation
  \<open>same_set\<close> that two elements have one root; \<open>find\<close> keeps it, \<open>union\<close> joins two classes, and
  on a well-formed structure no recursion is deeper than the number of elements.
\<close>

record disjoint_sets =
  ds_parent :: "nat list"
  ds_rank :: "u8 list"

definition disjoint_sets_new :: "nat \<Rightarrow> disjoint_sets" where
  "disjoint_sets_new len = \<lparr>ds_parent = [0..<len], ds_rank = replicate len 0\<rparr>"

fun find_fuel :: "nat \<Rightarrow> nat \<Rightarrow> disjoint_sets \<Rightarrow> (nat \<times> disjoint_sets) result" where
  "find_fuel 0 value sets = Inl Diverges"
| "find_fuel (Suc fuel) value sets =
     rbind (index_at (ds_parent sets) value) (\<lambda>p.
     if p \<noteq> value then
       rbind (find_fuel fuel p sets) (\<lambda>(r, sets').
       rbind (index_at (ds_parent sets') value) (\<lambda>_.
         Inr (r, sets'\<lparr>ds_parent := (ds_parent sets')[value := r]\<rparr>)))
     else Inr (p, sets))"

definition find_root :: "nat \<Rightarrow> disjoint_sets \<Rightarrow> (nat \<times> disjoint_sets) result" where
  "find_root value sets = find_fuel (Suc (length (ds_parent sets))) value sets"

definition union :: "nat \<Rightarrow> nat \<Rightarrow> disjoint_sets \<Rightarrow> disjoint_sets result" where
  "union left right sets =
     rbind (find_root left sets) (\<lambda>(left_root, sets1).
     rbind (find_root right sets1) (\<lambda>(right_root, sets2).
     if left_root = right_root then Inr sets2
     else
       rbind (index_at (ds_rank sets2) left_root) (\<lambda>left_rank.
       rbind (index_at (ds_rank sets2) right_root) (\<lambda>right_rank.
       if left_rank < right_rank then Inr (sets2\<lparr>ds_parent := (ds_parent sets2)[left_root := right_root]\<rparr>)
       else if right_rank < left_rank then Inr (sets2\<lparr>ds_parent := (ds_parent sets2)[right_root := left_root]\<rparr>)
       else Inr (sets2\<lparr>ds_parent := (ds_parent sets2)[right_root := left_root],
                       ds_rank := (ds_rank sets2)[left_root := left_rank + 1]\<rparr>)))))"

section \<open>Roots\<close>

definition parent_of :: "disjoint_sets \<Rightarrow> nat \<Rightarrow> nat" where
  "parent_of sets v = ds_parent sets ! v"

definition root_in :: "(nat \<Rightarrow> nat) \<Rightarrow> nat \<Rightarrow> nat \<Rightarrow> bool" where
  "root_in f v r \<longleftrightarrow> f r = r \<and> (\<exists>k. (f ^^ k) v = r)"

lemma funpow_fixed: "f r = r \<Longrightarrow> (f ^^ k) r = r"
  by (induction k) simp_all

lemma root_in_step: "root_in f v r \<longleftrightarrow> (if f v = v then r = v else root_in f (f v) r)"
proof (cases "f v = v")
  case True
  then show ?thesis by (auto simp: root_in_def funpow_fixed intro: exI [of _ 0])
next
  case False
  have "root_in f v r \<longleftrightarrow> root_in f (f v) r"
  proof
    assume "root_in f v r"
    then obtain k where k: "f r = r" "(f ^^ k) v = r" by (auto simp: root_in_def)
    with False obtain k' where "k = Suc k'" by (cases k) auto
    with k show "root_in f (f v) r" by (auto simp: root_in_def funpow_swap1)
  next
    assume "root_in f (f v) r"
    then obtain k where "f r = r" "(f ^^ k) (f v) = r" by (auto simp: root_in_def)
    then show "root_in f v r" unfolding root_in_def by (metis comp_apply funpow_Suc_right)
  qed
  with False show ?thesis by simp
qed

lemma root_in_induct [consumes 1, case_names root step]:
  assumes "root_in f v r" "f r = r \<Longrightarrow> P r" "\<And>v. f v \<noteq> v \<Longrightarrow> root_in f (f v) r \<Longrightarrow> P (f v) \<Longrightarrow> P v"
  shows "P v"
proof -
  from assms(1) obtain k where fr: "f r = r" and k: "(f ^^ k) v = r" by (auto simp: root_in_def)
  from k show ?thesis
  proof (induction k arbitrary: v)
    case 0
    then show ?case using assms(2) fr by simp
  next
    case (Suc k)
    show ?case
    proof (cases "f v = v")
      case True
      then have "v = r" using Suc.prems funpow_fixed by metis
      then show ?thesis using assms(2) fr by simp
    next
      case False
      have k: "(f ^^ k) (f v) = r" using Suc.prems by (simp add: funpow_swap1)
      then show ?thesis using assms(3) [OF False _ Suc.IH [OF k]] fr by (auto simp: root_in_def)
    qed
  qed
qed

lemma root_in_unique: "root_in f v r \<Longrightarrow> root_in f v s \<Longrightarrow> r = s"
proof (induction rule: root_in_induct)
  case root
  then show ?case by (auto simp: root_in_def funpow_fixed)
next
  case (step v)
  then show ?case using root_in_step [of f v s] by auto
qed

lemma root_in_fixed: "root_in f v r \<Longrightarrow> f r = r"
  by (simp add: root_in_def)

lemma root_in_self: "f r = r \<Longrightarrow> root_in f r s \<longleftrightarrow> s = r"
  using root_in_step [of f r s] by auto

text \<open>Path compression: pointing an element at its root keeps every root.\<close>

lemma root_in_compress:
  assumes "root_in f v r" and g: "\<And>u. g u = (if u = v then r else f u)"
  shows "root_in g u s \<longleftrightarrow> root_in f u s"
proof
  have fr: "f r = r" using assms by (simp add: root_in_def)
  have gr: "g r = r" using fr g by simp
  {
    assume "root_in f u s"
    then show "root_in g u s"
    proof (induction rule: root_in_induct)
      case root
      show ?case
      proof (cases "s = v")
        case True
        then have "r = s" using root assms(1) root_in_self by metis
        then show ?thesis using gr root_in_self by blast
      next
        case False
        then show ?thesis using root g root_in_self by metis
      qed
    next
      case (step u)
      show ?case
      proof (cases "u = v")
        case True
        then have "s = r" using step(1,2) assms(1) root_in_unique root_in_step [of f u s] by metis
        moreover have "g v = r" using g [of v] by simp
        ultimately show ?thesis using True root_in_step [of g v s] gr root_in_self [of g r s] by auto
      next
        case False
        then have "g u = f u" using g [of u] by simp
        then show ?thesis using step root_in_step [of g u s] by simp
      qed
    qed
  next
    assume "root_in g u s"
    then show "root_in f u s"
    proof (induction rule: root_in_induct)
      case root
      show ?case
      proof (cases "s = v")
        case True
        then have "r = s" using root g by simp
        then show ?thesis using fr root_in_self by metis
      next
        case False
        then show ?thesis using root g root_in_self by metis
      qed
    next
      case (step u)
      show ?case
      proof (cases "u = v")
        case True
        then have "s = r" using step(2) g gr root_in_self [of g r s] by simp
        then show ?thesis using True assms(1) by simp
      next
        case False
        then show ?thesis using step root_in_step [of f u s] g by simp
      qed
    qed
  }
qed

text \<open>Linking the root \<open>a\<close> below the root \<open>b\<close>.\<close>

lemma root_in_link:
  assumes "f a = a" "f b = b" "a \<noteq> b" and g: "\<And>u. g u = (if u = a then b else f u)"
  shows "root_in g u s \<longleftrightarrow> (if root_in f u a then s = b else root_in f u s)"
proof -
  have gb: "g b = b" using assms by simp
  have ga: "root_in g a b" using root_in_step [of g a b] gb root_in_self [of g b b] assms by auto
  have into: "root_in g u (if s = a then b else s)" if "root_in f u s" for u s
    using that
  proof (induction rule: root_in_induct)
    case root
    then show ?case using ga g root_in_self by metis
  next
    case (step u)
    then have "u \<noteq> a" using assms by auto
    then have "g u = f u" using g [of u] by simp
    then show ?case using step root_in_step [of g u] by auto
  qed
  have rooted: "\<exists>t. root_in f u t" if "root_in g u s" for u s
    using that
  proof (induction rule: root_in_induct)
    case root
    then show ?case using assms root_in_self by metis
  next
    case (step u)
    then show ?case using assms(1) g root_in_self [of f a a] root_in_step [of f u] by (cases "u = a") auto
  qed
  show ?thesis
  proof
    assume s: "root_in g u s"
    then obtain t where t: "root_in f u t" using rooted by blast
    have "s = (if t = a then b else t)" using root_in_unique [OF s into [OF t]] .
    then show "if root_in f u a then s = b else root_in f u s"
      using t root_in_unique by auto
  next
    assume "if root_in f u a then s = b else root_in f u s"
    then show "root_in g u s"
      using into [of u a] into [of u s] by (auto split: if_splits)
  qed
qed

section \<open>Well-formed structures\<close>

definition wf_sets :: "disjoint_sets \<Rightarrow> bool" where
  "wf_sets sets \<longleftrightarrow> length (ds_rank sets) = length (ds_parent sets) \<and>
     (\<forall>v<length (ds_parent sets). parent_of sets v < length (ds_parent sets) \<and> (\<exists>r. root_in (parent_of sets) v r))"

definition root_of :: "disjoint_sets \<Rightarrow> nat \<Rightarrow> nat" where
  "root_of sets v = (THE r. root_in (parent_of sets) v r)"

definition same_set :: "disjoint_sets \<Rightarrow> nat \<Rightarrow> nat \<Rightarrow> bool" where
  "same_set sets u v \<longleftrightarrow> (\<exists>r. root_in (parent_of sets) u r \<and> root_in (parent_of sets) v r)"

lemma root_of_eq: "root_in (parent_of sets) v r \<Longrightarrow> root_of sets v = r"
  unfolding root_of_def using root_in_unique by blast

lemma wf_root_of:
  assumes "wf_sets sets" "v < length (ds_parent sets)"
  shows "root_in (parent_of sets) v (root_of sets v)"
  using assms root_of_eq by (fastforce simp: wf_sets_def)

lemma root_in_range:
  assumes "wf_sets sets" "v < length (ds_parent sets)" "root_in (parent_of sets) v r"
  shows "r < length (ds_parent sets)"
  using assms(3,2)
proof (induction rule: root_in_induct)
  case (step v)
  then show ?case using assms(1) by (auto simp: wf_sets_def)
qed

lemma same_set_iff:
  assumes "wf_sets sets" "u < length (ds_parent sets)" "v < length (ds_parent sets)"
  shows "same_set sets u v \<longleftrightarrow> root_of sets u = root_of sets v"
  using wf_root_of [OF assms(1,2)] wf_root_of [OF assms(1,3)] root_of_eq
  by (metis same_set_def)

lemma wf_sets_new: "wf_sets (disjoint_sets_new n)"
proof -
  have "root_in (parent_of (disjoint_sets_new n)) v v" if "v < n" for v
    using that root_in_self [of "parent_of (disjoint_sets_new n)" v v]
    by (simp add: parent_of_def disjoint_sets_new_def)
  then show ?thesis
    by (auto simp: wf_sets_def disjoint_sets_new_def parent_of_def)
qed

lemma same_set_new: "u < n \<Longrightarrow> v < n \<Longrightarrow> same_set (disjoint_sets_new n) u v \<longleftrightarrow> u = v"
  using root_in_self [of "parent_of (disjoint_sets_new n)"]
  by (auto simp: same_set_def parent_of_def disjoint_sets_new_def)

text \<open>The path to a root visits each element once, so it is shorter than the structure.\<close>

lemma path_bound:
  assumes wf: "wf_sets sets" and v: "v < length (ds_parent sets)"
  obtains k where "k < length (ds_parent sets)" "(parent_of sets ^^ k) v = root_of sets v"
    "\<And>i. i < k \<Longrightarrow> parent_of sets ((parent_of sets ^^ i) v) \<noteq> (parent_of sets ^^ i) v"
proof -
  let ?f = "parent_of sets" and ?n = "length (ds_parent sets)"
  define k where "k = (LEAST k. ?f ((?f ^^ k) v) = (?f ^^ k) v)"
  have root: "root_in ?f v (root_of sets v)" by (rule wf_root_of [OF wf v])
  then have ex: "\<exists>k. ?f ((?f ^^ k) v) = (?f ^^ k) v" unfolding root_in_def by metis
  have fix_k: "?f ((?f ^^ k) v) = (?f ^^ k) v"
    unfolding k_def by (rule LeastI_ex [OF ex])
  have moving: "?f ((?f ^^ i) v) \<noteq> (?f ^^ i) v" if "i < k" for i
    using that not_less_Least unfolding k_def by blast
  have range: "(?f ^^ i) v < ?n" for i
    by (induction i) (use wf v in \<open>auto simp: wf_sets_def\<close>)
  have "inj_on (\<lambda>i. (?f ^^ i) v) {..k}"
  proof (rule inj_onI, rule ccontr)
    fix i j assume ij: "i \<in> {..k}" "j \<in> {..k}" "(?f ^^ i) v = (?f ^^ j) v" "i \<noteq> j"
    have "\<exists>i j. i < j \<and> j \<le> k \<and> (?f ^^ i) v = (?f ^^ j) v"
      using ij by (metis atMost_iff linorder_neqE_nat)
    then obtain i j where ij: "i < j" "j \<le> k" "(?f ^^ i) v = (?f ^^ j) v" by blast
    have "(?f ^^ (i + (k - j))) v = (?f ^^ (k - j)) ((?f ^^ i) v)"
      by (metis comp_apply funpow_add add.commute)
    also have "\<dots> = (?f ^^ k) v"
      using ij by (metis comp_apply funpow_add le_add_diff_inverse2)
    finally have "?f ((?f ^^ (i + (k - j))) v) = (?f ^^ (i + (k - j))) v" using fix_k by simp
    moreover have "i + (k - j) < k" using ij by linarith
    ultimately show False using moving by blast
  qed
  then have "card ((\<lambda>i. (?f ^^ i) v) ` {..k}) = Suc k" by (simp add: card_image)
  moreover have "card ((\<lambda>i. (?f ^^ i) v) ` {..k}) \<le> card {..<?n}"
    by (rule card_mono) (use range in auto)
  ultimately have "k < ?n" by simp
  moreover have "(?f ^^ k) v = root_of sets v"
    using fix_k root_of_eq [of sets v "(?f ^^ k) v"] unfolding root_in_def by metis
  ultimately show ?thesis using moving by (rule that)
qed

lemma parent_of_update:
  "v < length (ds_parent sets) \<Longrightarrow> parent_of (sets\<lparr>ds_parent := (ds_parent sets)[v := r]\<rparr>) = (parent_of sets)(v := r)"
  by (auto simp: parent_of_def fun_eq_iff)

lemma find_fuel_finds:
  assumes "wf_sets sets" "v < length (ds_parent sets)" "(parent_of sets ^^ k) v = root_of sets v" "k < fuel"
    and "\<And>i. i < k \<Longrightarrow> parent_of sets ((parent_of sets ^^ i) v) \<noteq> (parent_of sets ^^ i) v"
  shows "\<exists>sets'. find_fuel fuel v sets = Inr (root_of sets v, sets') \<and> wf_sets sets' \<and>
    length (ds_parent sets') = length (ds_parent sets) \<and>
    (\<forall>u r. root_in (parent_of sets') u r \<longleftrightarrow> root_in (parent_of sets) u r)"
  using assms
proof (induction fuel arbitrary: v k)
  case (Suc fuel)
  let ?f = "parent_of sets"
  have idx: "index_at (ds_parent sets) v = Inr (?f v)"
    using Suc.prems(2) by (simp add: parent_of_def)
  have root: "root_in ?f v (root_of sets v)" by (rule wf_root_of [OF Suc.prems(1,2)])
  show ?case
  proof (cases "?f v = v")
    case True
    then have "root_of sets v = v" using root root_in_self by metis
    with True idx Suc.prems(1) show ?thesis by simp
  next
    case False
    have "k \<noteq> 0" using False Suc.prems(3) root_in_fixed [OF root] by (cases k) auto
    then obtain k' where k: "k = Suc k'" by (cases k) auto
    have "root_in ?f (?f v) (root_of sets v)" using root False root_in_step [of ?f v] by simp
    then have r: "root_of sets (?f v) = root_of sets v" by (rule root_of_eq)
    have pv: "?f v < length (ds_parent sets)" using Suc.prems(1,2) by (simp add: wf_sets_def)
    have "(?f ^^ k') (?f v) = root_of sets (?f v)" using Suc.prems(3) by (simp add: k r funpow_swap1)
    moreover have "?f ((?f ^^ i) (?f v)) \<noteq> (?f ^^ i) (?f v)" if "i < k'" for i
      using Suc.prems(5) [of "Suc i"] that by (simp add: k funpow_swap1)
    ultimately obtain sets' where s': "find_fuel fuel (?f v) sets = Inr (root_of sets v, sets')" "wf_sets sets'"
      "length (ds_parent sets') = length (ds_parent sets)"
      "\<forall>u r. root_in (parent_of sets') u r \<longleftrightarrow> root_in ?f u r"
      using Suc.IH [OF Suc.prems(1) pv, of k'] Suc.prems(4) by (auto simp: k r)
    let ?s = "sets'\<lparr>ds_parent := (ds_parent sets')[v := root_of sets v]\<rparr>"
    have v': "v < length (ds_parent sets')" using Suc.prems(2) s'(3) by simp
    have "root_in (parent_of sets') v (root_of sets v)" using s'(4) root by simp
    from root_in_compress [OF this, of "parent_of ?s"]
    have keep: "root_in (parent_of ?s) u s \<longleftrightarrow> root_in ?f u s" for u s
      using parent_of_update [OF v'] s'(4) by auto
    have "wf_sets ?s"
      using s'(2,3) keep Suc.prems(1) root_in_range [OF Suc.prems(1,2) root] parent_of_update [OF v']
      by (auto simp: wf_sets_def)
    then show ?thesis
      using False idx s'(1,3) keep v' by (intro exI [of _ ?s]) simp
  qed
qed simp

lemma find_root_correct:
  assumes "wf_sets sets" "v < length (ds_parent sets)"
  shows "\<exists>sets'. find_root v sets = Inr (root_of sets v, sets') \<and> wf_sets sets' \<and>
    length (ds_parent sets') = length (ds_parent sets) \<and>
    (\<forall>u r. root_in (parent_of sets') u r \<longleftrightarrow> root_in (parent_of sets) u r)"
proof -
  obtain k where "k < length (ds_parent sets)" "(parent_of sets ^^ k) v = root_of sets v"
    "\<And>i. i < k \<Longrightarrow> parent_of sets ((parent_of sets ^^ i) v) \<noteq> (parent_of sets ^^ i) v"
    using path_bound [OF assms] by metis
  then show ?thesis
    unfolding find_root_def by (intro find_fuel_finds [OF assms]) auto
qed

lemma link_correct:
  assumes wf: "wf_sets sets" and ab: "a < length (ds_parent sets)" "b < length (ds_parent sets)"
    "parent_of sets a = a" "parent_of sets b = b" "a \<noteq> b"
    and s': "ds_parent s' = (ds_parent sets)[a := b]" "length (ds_rank s') = length (ds_rank sets)"
  shows "wf_sets s' \<and> (\<forall>u r. root_in (parent_of s') u r \<longleftrightarrow> (if root_in (parent_of sets) u a then r = b
    else root_in (parent_of sets) u r))"
proof -
  have p: "parent_of s' = (parent_of sets)(a := b)"
    using ab(1) s'(1) by (auto simp: parent_of_def fun_eq_iff)
  have link: "root_in (parent_of s') u r \<longleftrightarrow> (if root_in (parent_of sets) u a then r = b
    else root_in (parent_of sets) u r)" for u r
    by (rule root_in_link) (use ab p in auto)
  have "\<exists>r. root_in (parent_of s') u r" if "u < length (ds_parent sets)" for u
    using link [of u] wf that by (cases "root_in (parent_of sets) u a") (auto simp: wf_sets_def)
  then show ?thesis
    using wf s' ab p link by (auto simp: wf_sets_def)
qed

text \<open>Either branch of \<open>union\<close> links one root under the other.\<close>

lemma union_correct:
  assumes wf: "wf_sets sets" and ab: "a < length (ds_parent sets)" "b < length (ds_parent sets)"
  shows "\<exists>sets'. union a b sets = Inr sets' \<and> wf_sets sets' \<and>
    length (ds_parent sets') = length (ds_parent sets) \<and>
    (\<forall>u<length (ds_parent sets). \<forall>v<length (ds_parent sets). same_set sets' u v \<longleftrightarrow>
       same_set sets u v \<or> same_set sets u a \<and> same_set sets b v \<or> same_set sets u b \<and> same_set sets a v)"
proof -
  let ?n = "length (ds_parent sets)"
  obtain s1 where s1: "find_root a sets = Inr (root_of sets a, s1)" "wf_sets s1" "length (ds_parent s1) = ?n"
    "\<And>u r. root_in (parent_of s1) u r \<longleftrightarrow> root_in (parent_of sets) u r"
    using find_root_correct [OF wf ab(1)] by blast
  obtain s2 where s2: "find_root b s1 = Inr (root_of s1 b, s2)" "wf_sets s2" "length (ds_parent s2) = ?n"
    "\<And>u r. root_in (parent_of s2) u r \<longleftrightarrow> root_in (parent_of s1) u r"
    using find_root_correct [OF s1(2), of b] ab(2) s1(3) by auto
  have same: "root_in (parent_of s2) u r \<longleftrightarrow> root_in (parent_of sets) u r" for u r
    using s1(4) s2(4) by simp
  have rb: "root_of s1 b = root_of sets b" using s1(4) by (simp add: root_of_def)
  let ?ra = "root_of sets a" and ?rb = "root_of sets b"
  have roots: "root_in (parent_of sets) a ?ra" "root_in (parent_of sets) b ?rb"
    using wf_root_of [OF wf] ab by auto
  have rg: "?ra < ?n" "?rb < ?n" using root_in_range [OF wf] ab roots by auto
  have fixed: "parent_of s2 ?ra = ?ra" "parent_of s2 ?rb = ?rb"
    using roots same root_in_fixed by metis+
  have eq: "same_set sets u v \<longleftrightarrow> root_of sets u = root_of sets v" if "u < ?n" "v < ?n" for u v
    using same_set_iff [OF wf that] .
  show ?thesis
  proof (cases "?ra = ?rb")
    case True
    have "same_set s2 u v \<longleftrightarrow> same_set sets u v" for u v by (simp add: same_set_def same)
    with True show ?thesis
      using s1(1) s2 rb eq ab by (intro exI [of _ s2]) (auto simp: union_def)
  next
    case False
    have joined: "same_set s' u v \<longleftrightarrow>
       same_set sets u v \<or> same_set sets u a \<and> same_set sets b v \<or> same_set sets u b \<and> same_set sets a v"
      if s': "wf_sets s'" "length (ds_parent s') = ?n" and uv: "u < ?n" "v < ?n"
        and link: "\<And>u r. root_in (parent_of s') u r \<longleftrightarrow> (if root_in (parent_of s2) u x then r = y else root_in (parent_of s2) u r)"
        and xy: "x = ?ra \<and> y = ?rb \<or> x = ?rb \<and> y = ?ra" for s' u v x y
    proof -
      have root': "root_of s' w = (if root_of sets w = x then y else root_of sets w)" if "w < ?n" for w
      proof (rule root_of_eq)
        have w: "root_in (parent_of sets) w (root_of sets w)" by (rule wf_root_of [OF wf that])
        then have "root_in (parent_of sets) w x \<longleftrightarrow> root_of sets w = x" using root_in_unique by metis
        then show "root_in (parent_of s') w (if root_of sets w = x then y else root_of sets w)"
          using link [of w] same w by simp
      qed
      show ?thesis
        using same_set_iff [OF s'(1), of u v] s'(2) uv root' eq ab xy False by auto
    qed
    have len: "length (ds_rank s2) = ?n" using s2(2,3) by (simp add: wf_sets_def)
    have link_ab: "wf_sets s' \<and> (\<forall>u r. root_in (parent_of s') u r \<longleftrightarrow> (if root_in (parent_of s2) u ?ra then r = ?rb
        else root_in (parent_of s2) u r))"
      if "ds_parent s' = (ds_parent s2)[?ra := ?rb]" "length (ds_rank s') = length (ds_rank s2)" for s'
      by (rule link_correct [OF s2(2) _ _ fixed False that]) (use rg s2(3) in auto)
    have link_ba: "wf_sets s' \<and> (\<forall>u r. root_in (parent_of s') u r \<longleftrightarrow> (if root_in (parent_of s2) u ?rb then r = ?ra
        else root_in (parent_of s2) u r))"
      if "ds_parent s' = (ds_parent s2)[?rb := ?ra]" "length (ds_rank s') = length (ds_rank s2)" for s'
      by (rule link_correct [OF s2(2) _ _ fixed(2,1) _ that]) (use rg s2(3) False in auto)
    have "\<exists>s'. union a b sets = Inr s' \<and> length (ds_rank s') = length (ds_rank s2) \<and>
        (ds_parent s' = (ds_parent s2)[?ra := ?rb] \<or> ds_parent s' = (ds_parent s2)[?rb := ?ra])"
      using s1(1) s2(1) rb False rg len by (simp add: union_def)
    then obtain s' where s': "union a b sets = Inr s'" "length (ds_rank s') = length (ds_rank s2)"
      "ds_parent s' = (ds_parent s2)[?ra := ?rb] \<or> ds_parent s' = (ds_parent s2)[?rb := ?ra]" by blast
    from s'(3) have "wf_sets s' \<and> (\<forall>u<?n. \<forall>v<?n. same_set s' u v \<longleftrightarrow>
       same_set sets u v \<or> same_set sets u a \<and> same_set sets b v \<or> same_set sets u b \<and> same_set sets a v)"
    proof
      assume p: "ds_parent s' = (ds_parent s2)[?ra := ?rb]"
      then show ?thesis using link_ab [OF p s'(2)] joined [of s' _ _ ?ra ?rb] s2(3) by simp
    next
      assume p: "ds_parent s' = (ds_parent s2)[?rb := ?ra]"
      then show ?thesis using link_ba [OF p s'(2)] joined [of s' _ _ ?rb ?ra] s2(3) by simp
    qed
    with s' s2(3) show ?thesis by (intro exI [of _ s']) auto
  qed
qed

section \<open>Properties\<close>

text \<open>union-find. On a well-formed structure \<open>union\<close> never diverges and never indexes out of
  range; it keeps the structure well-formed and its length, and afterwards two elements are in one
  set exactly when they were before or the union connects their sets.\<close>

theorem union_joins:
  assumes "wf_sets sets" "a < length (ds_parent sets)" "b < length (ds_parent sets)"
  shows "\<exists>sets'. union a b sets = Inr sets' \<and> wf_sets sets' \<and>
    length (ds_parent sets') = length (ds_parent sets) \<and>
    (\<forall>u<length (ds_parent sets). \<forall>v<length (ds_parent sets). same_set sets' u v \<longleftrightarrow>
       same_set sets u v \<or> same_set sets u a \<and> same_set sets b v \<or> same_set sets u b \<and> same_set sets a v)"
  using union_correct [OF assms] .

theorem union_joins_witness:
  "\<exists>sets'. union 0 2 (disjoint_sets_new 3) = Inr sets' \<and> same_set sets' 0 2 \<and> \<not> same_set sets' 0 1"
  using union_joins [OF wf_sets_new, of 0 3 2] same_set_new [of _ 3]
  by (auto simp: disjoint_sets_new_def [of 3])

end
