(* ===== verification/Syntax_Equal.thy ===== *)
theory Syntax_Equal
  imports Syntax_Parse
begin

text \<open>
  The two recursive equalities of \<open>Syntax\<close> on well-formed arenas. On the numberings of two trees they
  terminate, never index out of range and decide the recursive comparison of the trees;
  they are equivalences; equal syntax implies equal shape; and equal syntax or shape implies
  equal digests, so that a bucket keyed by the digest never separates two equal nodes.
\<close>

section \<open>The comparison of trees\<close>

definition same_header :: "(string \<Rightarrow> string) \<Rightarrow> node_tree \<Rightarrow> node_tree \<Rightarrow> bool" where
  "same_header norm t u \<longleftrightarrow>
     norm (node_kind (label t)) = norm (node_kind (label u)) \<and> node_named (label t) = node_named (label u) \<and>
     node_extra (label t) = node_extra (label u) \<and> node_missing (label t) = node_missing (label u) \<and>
     length (subtrees t) = length (subtrees u)"

fun same_tree ::
  "(string \<Rightarrow> string) \<Rightarrow> bool \<Rightarrow> bytes \<Rightarrow> bytes \<Rightarrow> node_tree \<Rightarrow> node_tree \<Rightarrow> bool" where
  "same_tree norm leaf_text l r (Tree m ts) (Tree n us) \<longleftrightarrow>
     same_header norm (Tree m ts) (Tree n us) \<and>
     (ts = [] \<and> leaf_text \<longrightarrow> span_bytes l m = span_bytes r n) \<and>
     list_all2 (\<lambda>t u. node_field (label t) = node_field (label u) \<and> same_tree norm leaf_text l r t u) ts us"

declare same_tree.simps [simp del]

lemma same_tree_iff:
  "same_tree norm leaf_text l r t u \<longleftrightarrow>
     same_header norm t u \<and>
     (subtrees t = [] \<and> leaf_text \<longrightarrow> span_bytes l (label t) = span_bytes r (label u)) \<and>
     list_all2 (\<lambda>t u. node_field (label t) = node_field (label u) \<and> same_tree norm leaf_text l r t u)
       (subtrees t) (subtrees u)"
  by (cases t; cases u) (simp add: same_tree.simps)

abbreviation same_syntax :: "bytes \<Rightarrow> bytes \<Rightarrow> node_tree \<Rightarrow> node_tree \<Rightarrow> bool" where
  "same_syntax \<equiv> same_tree (\<lambda>k. k) True"

abbreviation same_shape :: "bool \<Rightarrow> bytes \<Rightarrow> bytes \<Rightarrow> node_tree \<Rightarrow> node_tree \<Rightarrow> bool" where
  "same_shape universal \<equiv> same_tree normalized_kind universal"

lemma same_tree_refl: "same_tree norm leaf_text l l t t"
proof (induction t)
  case (Tree n ts)
  then show ?case by (simp add: same_tree.simps same_header_def list_all2_same)
qed

lemma same_tree_sym: "same_tree norm leaf_text l r t u \<Longrightarrow> same_tree norm leaf_text r l u t"
proof (induction t arbitrary: u)
  case (Tree n ts)
  from Tree.prems have "list_all2 (\<lambda>u t. node_field (label u) = node_field (label t) \<and> same_tree norm leaf_text r l u t)
      (subtrees u) ts"
    unfolding same_tree_iff [of _ _ _ _ "Tree n ts"]
    by (auto simp: list_all2_conv_all_nth intro: Tree.IH)
  with Tree.prems show ?case
    by (auto simp: same_tree_iff [of _ _ _ _ _ "Tree n ts"] same_tree_iff [of _ _ _ _ "Tree n ts"] same_header_def)
qed

lemma same_tree_children:
  assumes "same_tree norm leaf_text l r t u" "k < length (subtrees t)"
  shows "k < length (subtrees u)" "node_field (label (subtrees t ! k)) = node_field (label (subtrees u ! k))"
    "same_tree norm leaf_text l r (subtrees t ! k) (subtrees u ! k)"
  using assms by (auto simp: same_tree_iff [of norm leaf_text l r t u] dest: list_all2_lengthD list_all2_nthD)

lemma same_treeI:
  assumes "same_header norm t u" "subtrees t = [] \<Longrightarrow> leaf_text \<Longrightarrow> span_bytes l (label t) = span_bytes r (label u)"
    and "\<And>k. k < length (subtrees t) \<Longrightarrow> node_field (label (subtrees t ! k)) = node_field (label (subtrees u ! k)) \<and>
      same_tree norm leaf_text l r (subtrees t ! k) (subtrees u ! k)"
  shows "same_tree norm leaf_text l r t u"
  using assms by (auto simp: same_tree_iff [of norm leaf_text l r t u] same_header_def intro!: list_all2_all_nthI)

lemma same_tree_header:
  assumes "same_tree norm leaf_text l r t u"
  shows "same_header norm t u" "subtrees t = [] \<Longrightarrow> leaf_text \<Longrightarrow> span_bytes l (label t) = span_bytes r (label u)"
  using assms same_tree_iff [of norm leaf_text l r t u] by blast+

lemma same_tree_trans:
  "same_tree norm leaf_text l m t u \<Longrightarrow> same_tree norm leaf_text m r u v \<Longrightarrow> same_tree norm leaf_text l r t v"
proof (induction t arbitrary: u v)
  case (Tree n ts)
  note tu = same_tree_header [OF Tree.prems(1)] same_tree_children [OF Tree.prems(1)]
  note uv = same_tree_header [OF Tree.prems(2)] same_tree_children [OF Tree.prems(2)]
  show ?case
  proof (rule same_treeI)
    show "same_header norm (Tree n ts) v" using tu(1) uv(1) by (simp add: same_header_def)
    assume "subtrees (Tree n ts) = []" leaf_text
    then show "span_bytes l (label (Tree n ts)) = span_bytes r (label v)"
      using tu(1,2) uv(2) by (simp add: same_header_def)
  next
    fix k assume k: "k < length (subtrees (Tree n ts))"
    then show "node_field (label (subtrees (Tree n ts) ! k)) = node_field (label (subtrees v ! k)) \<and>
      same_tree norm leaf_text l r (subtrees (Tree n ts) ! k) (subtrees v ! k)"
      using tu(4,5) [OF k] uv(4,5) [OF tu(3) [OF k]] Tree.IH [of "ts ! k"] by auto
  qed
qed

lemma same_syntax_shape: "same_syntax l r t u \<Longrightarrow> same_shape universal l r t u"
proof (induction t arbitrary: u)
  case (Tree n ts)
  from Tree.prems have "list_all2 (\<lambda>t u. node_field (label t) = node_field (label u) \<and> same_shape universal l r t u)
      ts (subtrees u)"
    unfolding same_tree_iff [of _ _ _ _ "Tree n ts"]
    by (auto simp: list_all2_conv_all_nth intro: Tree.IH)
  with Tree.prems show ?case
    by (auto simp: same_tree_iff [of _ _ _ _ "Tree n ts"] same_header_def)
qed

section \<open>Digests respect the comparison\<close>

lemma same_syntax_digest: "same_syntax l r t u \<Longrightarrow> syntax_digest blake3 l t = syntax_digest blake3 r u"
proof (induction t arbitrary: u)
  case (Tree n ts)
  obtain m us where u: "u = Tree m us" by (cases u)
  note h = same_tree_header [OF Tree.prems, unfolded u same_header_def]
  note c = same_tree_children [OF Tree.prems, unfolded u node_tree.sel]
  have f: "map (\<lambda>t. node_field (label t)) ts = map (\<lambda>t. node_field (label t)) us"
    using h(1) c(2) by (intro nth_equalityI) simp_all
  have d: "map (syntax_digest blake3 l) ts = map (syntax_digest blake3 r) us"
    by (rule nth_equalityI) (use h(1) c(3) Tree.IH in simp_all)
  from h have "ts = [] \<longleftrightarrow> us = []" by auto
  then show ?case
    using h by (simp add: u f d)
qed

lemma same_shape_digest:
  "same_shape universal l r t u \<Longrightarrow> shape_digest blake3 universal l t = shape_digest blake3 universal r u"
proof (induction t arbitrary: u)
  case (Tree n ts)
  obtain m us where u: "u = Tree m us" by (cases u)
  note h = same_tree_header [OF Tree.prems, unfolded u same_header_def]
  note c = same_tree_children [OF Tree.prems, unfolded u node_tree.sel]
  have f: "map (\<lambda>t. node_field (label t)) ts = map (\<lambda>t. node_field (label t)) us"
    using h(1) c(2) by (intro nth_equalityI) simp_all
  have d: "map (shape_digest blake3 universal l) ts = map (shape_digest blake3 universal r) us"
    by (rule nth_equalityI) (use h(1) c(3) Tree.IH in simp_all)
  from h have "ts = [] \<longleftrightarrow> us = []" by auto
  then show ?case
    using h by (simp add: u f d)
qed

section \<open>The implementations decide the comparison\<close>

definition node_at :: "parsed_syntax \<Rightarrow> nat \<Rightarrow> node_tree \<Rightarrow> bool" where
  "node_at ps i t \<longleftrightarrow> (\<exists>p. located (ps_nodes ps) i p t) \<and> (\<forall>n\<in>set (ps_nodes ps). span_within (ps_source ps) n)"

lemma node_at_facts:
  assumes "node_at ps i t"
  shows "i < length (ps_nodes ps)" "node_kind (ps_nodes ps ! i) = node_kind (label t)"
    "node_named (ps_nodes ps ! i) = node_named (label t)" "node_extra (ps_nodes ps ! i) = node_extra (label t)"
    "node_missing (ps_nodes ps ! i) = node_missing (label t)" "node_field (ps_nodes ps ! i) = node_field (label t)"
    "length (node_children (ps_nodes ps ! i)) = length (subtrees t)"
    "node_children (ps_nodes ps ! i) = [] \<longleftrightarrow> subtrees t = []"
    "slice (ps_source ps) (start_byte (node_span (ps_nodes ps ! i))) (end_byte (node_span (ps_nodes ps ! i))) =
      Inr (span_bytes (ps_source ps) (label t))"
    "node_syntax_hash (ps_nodes ps ! i) = node_syntax_hash (label t)"
    "node_shape_hash (ps_nodes ps ! i) = node_shape_hash (label t)"
    "node_byte_hash (ps_nodes ps ! i) = node_byte_hash (label t)"
proof -
  obtain p where p: "i < length (ps_nodes ps)" "ps_nodes ps ! i = numbered (label t) i p (subtrees t)"
    using assms located_nth by (auto simp: node_at_def)
  then have "span_within (ps_source ps) (label t)"
    using assms nth_mem [OF p(1)] by (auto simp: node_at_def)
  with p show "i < length (ps_nodes ps)" "node_kind (ps_nodes ps ! i) = node_kind (label t)"
    "node_named (ps_nodes ps ! i) = node_named (label t)" "node_extra (ps_nodes ps ! i) = node_extra (label t)"
    "node_missing (ps_nodes ps ! i) = node_missing (label t)" "node_field (ps_nodes ps ! i) = node_field (label t)"
    "length (node_children (ps_nodes ps ! i)) = length (subtrees t)"
    "node_children (ps_nodes ps ! i) = [] \<longleftrightarrow> subtrees t = []"
    "slice (ps_source ps) (start_byte (node_span (ps_nodes ps ! i))) (end_byte (node_span (ps_nodes ps ! i))) =
      Inr (span_bytes (ps_source ps) (label t))"
    "node_syntax_hash (ps_nodes ps ! i) = node_syntax_hash (label t)"
    "node_shape_hash (ps_nodes ps ! i) = node_shape_hash (label t)"
    "node_byte_hash (ps_nodes ps ! i) = node_byte_hash (label t)"
    by (simp_all add: span_within_def span_bytes_def)
qed

lemma node_at_child:
  assumes "node_at ps i t" "k < length (subtrees t)"
  shows "node_at ps (node_children (ps_nodes ps ! i) ! k) (subtrees t ! k)"
  using assms located_children(1) by (fastforce simp: node_at_def)

lemma wf_node_at:
  assumes "wf_syntax ps" "i < length (ps_nodes ps)"
  obtains t where "node_at ps i t"
  using wf_located [OF assms] assms by (metis node_at_def represents_def wf_syntax_def)

primrec tree_height :: "node_tree \<Rightarrow> nat" where
  "tree_height (Tree n ts) = Suc (Max (insert 0 (set (map tree_height ts))))"

lemma tree_height_child: "t \<in> set (subtrees u) \<Longrightarrow> tree_height t < tree_height u"
  by (cases u) (auto simp: less_Suc_eq_le intro: Max_ge)

lemma tree_height_size: "tree_height t \<le> tree_size t"
proof (induction t)
  case (Tree n ts)
  have "Max (insert 0 (set (map tree_height ts))) \<le> sum_list (map tree_size ts)"
  proof (rule Max.boundedI)
    fix h assume "h \<in> insert 0 (set (map tree_height ts))"
    then show "h \<le> sum_list (map tree_size ts)"
    proof
      assume "h \<in> set (map tree_height ts)"
      then obtain t where t: "t \<in> set ts" "h = tree_height t" by auto
      then have "tree_height t \<le> tree_size t" using Tree by simp
      also have "\<dots> \<le> sum_list (map tree_size ts)" using t by (intro member_le_sum_list) auto
      finally show ?thesis using t by simp
    qed simp
  qed auto
  then show ?case by simp
qed

text \<open>Comparing the children pairwise is the list comparison.\<close>

lemma rall_zip:
  assumes "length xs = length ts" "length ys = length us" "length ts = length us"
    and "\<And>k. k < length ts \<Longrightarrow> f (xs ! k, ys ! k) = Inr (Q (ts ! k) (us ! k))"
  shows "rall f (zip xs ys) = Inr (list_all2 Q ts us)"
proof -
  have "rall f (zip xs ys) = Inr (\<forall>p\<in>set (zip xs ys). f p = Inr True)"
    by (rule rall_pure) (use assms in \<open>auto simp: set_zip\<close>)
  also have "(\<forall>p\<in>set (zip xs ys). f p = Inr True) \<longleftrightarrow> list_all2 Q ts us"
    using assms by (fastforce simp: list_all2_conv_all_nth set_zip)
  finally show ?thesis .
qed

lemma syntax_equal_fuel_trees:
  "node_at left i t \<Longrightarrow> node_at right j u \<Longrightarrow> ps_language left = ps_language right \<Longrightarrow> tree_height t \<le> fuel \<Longrightarrow>
   syntax_equal_fuel fuel left i right j = Inr (same_syntax (ps_source left) (ps_source right) t u)"
proof (induction fuel arbitrary: i j t u)
  case 0
  then show ?case by (cases t) simp
next
  case (Suc fuel)
  note L = node_at_facts [OF Suc.prems(1)] and R = node_at_facts [OF Suc.prems(2)]
  show ?case
  proof (cases "same_header (\<lambda>k. k) t u \<and> subtrees t \<noteq> []")
    case False
    then show ?thesis
      using Suc.prems(3) by (auto simp: L R same_tree_iff [of _ _ _ _ t] same_header_def)
  next
    case True
    have "rall (\<lambda>(left_child, right_child).
            rbind (index_at (ps_nodes left) left_child) (\<lambda>lc.
            rbind (index_at (ps_nodes right) right_child) (\<lambda>rc.
              if node_field lc = node_field rc then syntax_equal_fuel fuel left left_child right right_child
              else Inr False)))
          (zip (node_children (ps_nodes left ! i)) (node_children (ps_nodes right ! j))) =
        Inr (list_all2 (\<lambda>t u. node_field (label t) = node_field (label u) \<and>
          same_syntax (ps_source left) (ps_source right) t u) (subtrees t) (subtrees u))"
    proof (rule rall_zip)
      fix k assume k: "k < length (subtrees t)"
      then have k': "k < length (subtrees u)" using True by (simp add: same_header_def)
      note l = node_at_child [OF Suc.prems(1) k] and r = node_at_child [OF Suc.prems(2) k']
      have "tree_height (subtrees t ! k) \<le> fuel"
        using tree_height_child [of "subtrees t ! k" t] k Suc.prems(4) by simp
      from Suc.IH [OF l r Suc.prems(3) this] show "(case (node_children (ps_nodes left ! i) ! k, node_children (ps_nodes right ! j) ! k) of
          (left_child, right_child) \<Rightarrow>
            rbind (index_at (ps_nodes left) left_child) (\<lambda>lc.
            rbind (index_at (ps_nodes right) right_child) (\<lambda>rc.
              if node_field lc = node_field rc then syntax_equal_fuel fuel left left_child right right_child
              else Inr False))) =
        Inr (node_field (label (subtrees t ! k)) = node_field (label (subtrees u ! k)) \<and>
          same_syntax (ps_source left) (ps_source right) (subtrees t ! k) (subtrees u ! k))"
        by (simp add: node_at_facts [OF l] node_at_facts [OF r])
    qed (use L R True in \<open>simp_all add: same_header_def\<close>)
    with True Suc.prems(3) show ?thesis
      by (simp add: L R same_tree_iff [of _ _ _ _ t] same_header_def)
  qed
qed

lemma shape_equal_fuel_trees:
  "node_at left i t \<Longrightarrow> node_at right j u \<Longrightarrow> ps_language left = ps_language right \<Longrightarrow> tree_height t \<le> fuel \<Longrightarrow>
   shape_equal_fuel fuel left i right j =
     Inr (same_shape (ps_language left = Universal) (ps_source left) (ps_source right) t u)"
proof (induction fuel arbitrary: i j t u)
  case 0
  then show ?case by (cases t) simp
next
  case (Suc fuel)
  let ?same = "same_shape (ps_language left = Universal) (ps_source left) (ps_source right)"
  note L = node_at_facts [OF Suc.prems(1)] and R = node_at_facts [OF Suc.prems(2)]
  show ?case
  proof (cases "same_header normalized_kind t u \<and> subtrees t \<noteq> []")
    case False
    have leaf: "node_children (ps_nodes left ! i) = []" if "subtrees t = []"
      using that L(8) by simp
    show ?thesis
    proof (cases "subtrees t = []")
      case True
      then show ?thesis
        using Suc.prems(3) by (auto simp: leaf L(1-6) L(9) R same_tree_iff [of _ _ _ _ t] same_header_def)
    next
      case nonempty: False
      with False show ?thesis
        using Suc.prems(3) by (auto simp: L R same_tree_iff [of _ _ _ _ t] same_header_def)
    qed
  next
    case True
    have "rall (\<lambda>(left_child, right_child).
            rbind (index_at (ps_nodes left) left_child) (\<lambda>lc.
            rbind (index_at (ps_nodes right) right_child) (\<lambda>rc.
              if node_field lc = node_field rc then shape_equal_fuel fuel left left_child right right_child
              else Inr False)))
          (zip (node_children (ps_nodes left ! i)) (node_children (ps_nodes right ! j))) =
        Inr (list_all2 (\<lambda>t u. node_field (label t) = node_field (label u) \<and> ?same t u) (subtrees t) (subtrees u))"
    proof (rule rall_zip)
      fix k assume k: "k < length (subtrees t)"
      then have k': "k < length (subtrees u)" using True by (simp add: same_header_def)
      note l = node_at_child [OF Suc.prems(1) k] and r = node_at_child [OF Suc.prems(2) k']
      have "tree_height (subtrees t ! k) \<le> fuel"
        using tree_height_child [of "subtrees t ! k" t] k Suc.prems(4) by simp
      from Suc.IH [OF l r Suc.prems(3) this] show "(case (node_children (ps_nodes left ! i) ! k, node_children (ps_nodes right ! j) ! k) of
          (left_child, right_child) \<Rightarrow>
            rbind (index_at (ps_nodes left) left_child) (\<lambda>lc.
            rbind (index_at (ps_nodes right) right_child) (\<lambda>rc.
              if node_field lc = node_field rc then shape_equal_fuel fuel left left_child right right_child
              else Inr False))) =
        Inr (node_field (label (subtrees t ! k)) = node_field (label (subtrees u ! k)) \<and>
          ?same (subtrees t ! k) (subtrees u ! k))"
        by (simp add: node_at_facts [OF l] node_at_facts [OF r])
    qed (use L R True in \<open>simp_all add: same_header_def\<close>)
    with True Suc.prems(3) show ?thesis
      by (simp add: L R same_tree_iff [of _ _ _ _ t] same_header_def)
  qed
qed

lemma node_at_height: "node_at ps i t \<Longrightarrow> tree_height t \<le> Suc (length (ps_nodes ps))"
  using located_size tree_height_size [of t] by (fastforce simp: node_at_def)

lemma equal_trees:
  assumes "node_at left i t" "node_at right j u"
  shows "syntax_equal left i right j = Inr (ps_language left = ps_language right \<and>
      same_syntax (ps_source left) (ps_source right) t u)"
    "shape_equal left i right j = Inr (ps_language left = ps_language right \<and>
      same_shape (ps_language left = Universal) (ps_source left) (ps_source right) t u)"
  using syntax_equal_fuel_trees [OF assms _ node_at_height [OF assms(1)]]
    shape_equal_fuel_trees [OF assms _ node_at_height [OF assms(1)]]
  by (auto simp: syntax_equal_def shape_equal_def)

section \<open>The equalities as relations on well-formed arenas\<close>

definition syntax_same :: "parsed_syntax \<Rightarrow> nat \<Rightarrow> parsed_syntax \<Rightarrow> nat \<Rightarrow> bool" where
  "syntax_same left i right j \<longleftrightarrow> syntax_equal left i right j = Inr True"

definition shape_same :: "parsed_syntax \<Rightarrow> nat \<Rightarrow> parsed_syntax \<Rightarrow> nat \<Rightarrow> bool" where
  "shape_same left i right j \<longleftrightarrow> shape_equal left i right j = Inr True"

definition in_arena :: "parsed_syntax \<Rightarrow> nat \<Rightarrow> bool" where
  "in_arena ps i \<longleftrightarrow> wf_syntax ps \<and> i < length (ps_nodes ps)"

lemma in_arena_node_at: "in_arena ps i \<Longrightarrow> \<exists>t. node_at ps i t"
  using wf_node_at by (metis in_arena_def)

lemma equal_total:
  assumes "in_arena left i" "in_arena right j"
  shows "syntax_equal left i right j = Inr (syntax_same left i right j)"
    "shape_equal left i right j = Inr (shape_same left i right j)"
  using in_arena_node_at [OF assms(1)] in_arena_node_at [OF assms(2)]
  by (auto simp: equal_trees syntax_same_def shape_same_def)

lemma same_languages:
  assumes "in_arena left i" "in_arena right j"
  shows "syntax_same left i right j \<Longrightarrow> ps_language left = ps_language right"
    "shape_same left i right j \<Longrightarrow> ps_language left = ps_language right"
  using in_arena_node_at [OF assms(1)] in_arena_node_at [OF assms(2)]
  by (auto simp: equal_trees syntax_same_def shape_same_def)

lemma same_refl:
  assumes "in_arena ps i"
  shows "syntax_same ps i ps i" "shape_same ps i ps i"
  using in_arena_node_at [OF assms] by (auto simp: equal_trees syntax_same_def shape_same_def same_tree_refl)

lemma same_sym:
  assumes "in_arena left i" "in_arena right j"
  shows "syntax_same left i right j \<Longrightarrow> syntax_same right j left i"
    "shape_same left i right j \<Longrightarrow> shape_same right j left i"
  using in_arena_node_at [OF assms(1)] in_arena_node_at [OF assms(2)]
  by (auto simp: equal_trees syntax_same_def shape_same_def) (metis same_tree_sym)+

lemma same_trans:
  assumes "in_arena p i" "in_arena q j" "in_arena r k"
  shows "syntax_same p i q j \<Longrightarrow> syntax_same q j r k \<Longrightarrow> syntax_same p i r k"
    "shape_same p i q j \<Longrightarrow> shape_same q j r k \<Longrightarrow> shape_same p i r k"
  using in_arena_node_at [OF assms(1)] in_arena_node_at [OF assms(2)] in_arena_node_at [OF assms(3)]
  by (auto simp: equal_trees syntax_same_def shape_same_def) (metis same_tree_trans)+

lemma syntax_same_shape:
  assumes "in_arena left i" "in_arena right j"
  shows "syntax_same left i right j \<Longrightarrow> shape_same left i right j"
  using in_arena_node_at [OF assms(1)] in_arena_node_at [OF assms(2)]
  by (auto simp: equal_trees syntax_same_def shape_same_def intro: same_syntax_shape)

section \<open>Digests at a node\<close>

lemma located_hashed:
  "located N i p t \<Longrightarrow> well_hashed blake3 leaf_text source t \<Longrightarrow> i \<le> k \<Longrightarrow> k < i + tree_size t \<Longrightarrow>
     \<exists>q s. located N k q s \<and> well_hashed blake3 leaf_text source s"
  "located_list N i p ts \<Longrightarrow> list_all (well_hashed blake3 leaf_text source) ts \<Longrightarrow> i \<le> k \<Longrightarrow>
     k < i + sum_list (map tree_size ts) \<Longrightarrow> \<exists>q s. located N k q s \<and> well_hashed blake3 leaf_text source s"
proof (induction N i p t and N i p ts rule: located_located_list.induct)
  case (1 N i p n ts)
  show ?case
  proof (cases "k = i")
    case True
    then show ?thesis using "1.prems" by (intro exI [of _ p] exI [of _ "Tree n ts"]) auto
  next
    case False
    then show ?thesis using 1 by fastforce
  qed
next
  case (3 N i p t ts)
  then show ?case by (cases "k < i + tree_size t") (auto simp: add.assoc)
qed simp

lemma parsed_node_at:
  assumes "parsed blake3 source language ps t" "i < length (ps_nodes ps)"
  obtains s where "node_at ps i s" "well_hashed blake3 (language = Universal) source s"
proof -
  have "located (ps_nodes ps) 0 None t" "tree_size t = length (ps_nodes ps)"
    using assms(1) located_flatten [of None t] by (auto simp: parsed_def represents_def)
  then obtain q s where "located (ps_nodes ps) i q s" "well_hashed blake3 (language = Universal) source s"
    using located_hashed(1) [of "ps_nodes ps" 0 None t blake3 "language = Universal" source i] assms
    by (auto simp: parsed_def)
  then show ?thesis using assms(1) by (intro that) (auto simp: node_at_def parsed_def represents_def)
qed

lemma parsed_digests:
  assumes "parsed blake3 s1 language left t1" "parsed blake3 s2 language right t2"
    and "i < length (ps_nodes left)" "j < length (ps_nodes right)"
  shows "syntax_same left i right j \<Longrightarrow> node_syntax_hash (ps_nodes left ! i) = node_syntax_hash (ps_nodes right ! j)"
    "shape_same left i right j \<Longrightarrow> node_shape_hash (ps_nodes left ! i) = node_shape_hash (ps_nodes right ! j)"
proof -
  obtain t where t: "node_at left i t" "well_hashed blake3 (language = Universal) s1 t"
    by (rule parsed_node_at [OF assms(1,3)])
  obtain u where u: "node_at right j u" "well_hashed blake3 (language = Universal) s2 u"
    by (rule parsed_node_at [OF assms(2,4)])
  have src: "ps_source left = s1" "ps_source right = s2" "ps_language left = language"
    using assms(1,2) by (auto simp: parsed_def)
  show "syntax_same left i right j \<Longrightarrow> node_syntax_hash (ps_nodes left ! i) = node_syntax_hash (ps_nodes right ! j)"
    using equal_trees [OF t(1) u(1)] well_hashed_label [OF t(2)] well_hashed_label [OF u(2)] src
    by (simp add: syntax_same_def node_at_facts [OF t(1)] node_at_facts [OF u(1)] same_syntax_digest)
  show "shape_same left i right j \<Longrightarrow> node_shape_hash (ps_nodes left ! i) = node_shape_hash (ps_nodes right ! j)"
    using equal_trees [OF t(1) u(1)] well_hashed_label [OF t(2)] well_hashed_label [OF u(2)] src
      same_shape_digest [of "language = Universal" s1 s2 t u blake3]
    by (auto simp: shape_same_def node_at_facts [OF t(1)] node_at_facts [OF u(1)])
qed

lemma parsed_byte_hash:
  assumes "parsed blake3 source language ps t" "i < length (ps_nodes ps)"
    and "slice source (start_byte (node_span (ps_nodes ps ! i))) (end_byte (node_span (ps_nodes ps ! i))) = Inr bs"
  shows "node_byte_hash (ps_nodes ps ! i) = blake3_hex blake3 ''stratadiff.byte.v1'' bs"
proof -
  obtain s where s: "node_at ps i s" "well_hashed blake3 (language = Universal) source s"
    by (rule parsed_node_at [OF assms(1,2)])
  moreover have "ps_source ps = source" using assms(1) by (simp add: parsed_def)
  ultimately show ?thesis
    using assms(3) node_at_facts(9,12) [OF s(1)] well_hashed_label(4) [OF s(2)] by simp
qed

lemma parsed_in_arena: "parsed blake3 source language ps t \<Longrightarrow> i < length (ps_nodes ps) \<Longrightarrow> in_arena ps i"
  by (auto simp: in_arena_def parsed_def)

section \<open>Properties\<close>

text \<open>C40: on well-formed arenas the two recursive equalities terminate without an index error and
  decide the recursive comparison of the trees below the two nodes: kinds (normalised, for shapes),
  flags, field names and child counts everywhere, and the text of the leaves (for
  shapes only in universal sources).\<close>

theorem equality_decides:
  assumes "node_at left i t" "node_at right j u"
  shows "syntax_equal left i right j = Inr (ps_language left = ps_language right \<and>
      same_syntax (ps_source left) (ps_source right) t u) \<and>
    shape_equal left i right j = Inr (ps_language left = ps_language right \<and>
      same_shape (ps_language left = Universal) (ps_source left) (ps_source right) t u)"
  using equal_trees [OF assms] by simp

definition leaf_label :: syntax_node where
  "leaf_label = fresh_node ''identifier'' True False False None
     \<lparr>start_byte = 0, end_byte = 1, span_start = \<lparr>row = 0, column = 0\<rparr>, span_end = \<lparr>row = 0, column = 1\<rparr>\<rparr> 0 None"

definition leaf_arena :: "u8 \<Rightarrow> parsed_syntax" where
  "leaf_arena b = \<lparr>ps_source = [b], ps_nodes = flatten 0 None (Tree leaf_label []), ps_root = 0,
     ps_root_kind = ''identifier'', ps_language = Rust\<rparr>"

lemma leaf_arena_node: "node_at (leaf_arena b) 0 (Tree leaf_label [])"
  by (auto simp: node_at_def leaf_arena_def leaf_label_def span_within_def)

theorem equality_decides_witness:
  "syntax_equal (leaf_arena 97) 0 (leaf_arena 98) 0 = Inr False \<and>
   shape_equal (leaf_arena 97) 0 (leaf_arena 98) 0 = Inr True"
  using equality_decides [OF leaf_arena_node leaf_arena_node, of 97 98]
  by (simp add: same_tree.simps same_header_def span_bytes_def) (simp add: leaf_arena_def leaf_label_def)

text \<open>The digests never separate equal nodes. For two parses in one language, nodes that
  \<open>syntax_equal\<close> accepts carry the same syntax digest and are also accepted by \<open>shape_equal\<close>, and nodes
  that \<open>shape_equal\<close> accepts carry the same shape digest: matching inside digest buckets loses no pair.\<close>

theorem digests_complete:
  assumes "parse_with_limits blake3 ts before language limits = Inr left"
    and "parse_with_limits blake3 ts after language limits' = Inr right"
    and "i < length (ps_nodes left)" "j < length (ps_nodes right)"
  shows "(syntax_equal left i right j = Inr True \<longrightarrow>
      node_syntax_hash (ps_nodes left ! i) = node_syntax_hash (ps_nodes right ! j) \<and>
      shape_equal left i right j = Inr True) \<and>
    (shape_equal left i right j = Inr True \<longrightarrow>
      node_shape_hash (ps_nodes left ! i) = node_shape_hash (ps_nodes right ! j))"
proof -
  obtain t1 t2 where p: "parsed blake3 before language left t1" "parsed blake3 after language right t2"
    using parse_parsed [OF assms(1)] parse_parsed [OF assms(2)] by metis
  then show ?thesis
    using parsed_digests [OF p assms(3,4)] syntax_same_shape [of left i right j] assms(3,4)
    by (simp add: syntax_same_def shape_same_def parsed_in_arena)
qed

text \<open>A runtime without grammars, enough for universal sources.\<close>

definition no_grammars :: ts_runtime where
  "no_grammars = \<lparr>accepts_grammar = (\<lambda>_. False), parse_tree = (\<lambda>_ _. None), parse_callbacks = (\<lambda>_ _. 0),
     abi_version = (\<lambda>_. 0), native_node_types = (\<lambda>_. [])\<rparr>"

lemma no_grammars_within: "runtime_within no_grammars"
  by (simp add: runtime_within_def no_grammars_def)

lemma one_byte_parses:
  obtains ps where "parse_with_limits id no_grammars [97] Universal COMPATIBILITY = Inr ps" "0 < length (ps_nodes ps)"
proof -
  have "universal_fits COMPATIBILITY [97]"
    by (simp add: universal_fits_def tree_size_universal line_trees_step line_end_from_def tree_size_line_tree
        token_spans.simps token_class_def COMPATIBILITY_def MAX_SYNTAX_DEPTH_def usize_max_def)
  then obtain ps where ps: "parse_with_limits id no_grammars [97] Universal COMPATIBILITY = Inr ps"
    using parse_universal_cases [of COMPATIBILITY "[97]" id] by (auto simp: parse_with_limits_def)
  show ?thesis by (rule that [OF ps wf_root(2) [OF parse_wf(1) [OF ps]]])
qed

theorem digests_complete_witness:
  "\<exists>left. parse_with_limits id no_grammars [97] Universal COMPATIBILITY = Inr left \<and>
    syntax_equal left 0 left 0 = Inr True \<and> shape_equal left 0 left 0 = Inr True \<and>
    node_syntax_hash (ps_nodes left ! 0) = node_syntax_hash (ps_nodes left ! 0)"
proof -
  obtain ps where ps: "parse_with_limits id no_grammars [97] Universal COMPATIBILITY = Inr ps"
    "0 < length (ps_nodes ps)" by (rule one_byte_parses)
  have "syntax_equal ps 0 ps 0 = Inr True"
    using same_refl(1) [of ps 0] parse_wf(1) [OF ps(1)] ps(2) by (simp add: in_arena_def syntax_same_def)
  with digests_complete [OF ps(1) ps(1) ps(2) ps(2)] ps show ?thesis by blast
qed

end
