(* ===== verification/Verifier_Base.thy ===== *)
theory Verifier_Base
  imports Work_Budget Syntax_Equal
begin

text \<open>
  The shared parts of \<open>crates/stratadiff-verifier/src/verifier.rs\<close>: evidence labels, the verified and
  phase mappings, the budgeted equalities, node references, and the key buckets (a
  \<open>BTreeMap\<close> as an association list in strictly increasing key order).

  \<open>node_equivalence\<close> is the interface between the budgeted equality tests and the algorithms that
  partition nodes by them; it is interpreted on the two tests of the verifier.
\<close>

section \<open>Evidence\<close>

definition INPUT_PAIR_EVIDENCE :: "string list" where
  "INPUT_PAIR_EVIDENCE = [''caller_supplied_file_pair'']"

definition GLOBAL_ANCHOR_EVIDENCE :: "string list" where
  "GLOBAL_ANCHOR_EVIDENCE = [''globally_unique_identical_syntax_subtree'', ''recursive_syntax_equality_check'']"

definition LOCAL_ANCHOR_EVIDENCE :: "string list" where
  "LOCAL_ANCHOR_EVIDENCE = [''unique_identical_child_under_mapped_parent'', ''recursive_syntax_equality_check'']"

definition EXACT_DESCENDANT_EVIDENCE :: "string list" where
  "EXACT_DESCENDANT_EVIDENCE = [''isomorphic_path_under_exact_anchor'']"

definition STABLE_CORE_EVIDENCE :: "string list" where
  "STABLE_CORE_EVIDENCE = [''bounded_ordered_child_alignment_v1'', ''pair_present_in_every_optimal_alignment'',
     ''recursive_shape_equality_check'', ''not_a_historical_identity_claim'']"

definition has_evidence :: "relation \<Rightarrow> string list \<Rightarrow> bool" where
  "has_evidence r expected \<longleftrightarrow>
     length (rel_evidence r) = length expected \<and> list_all (\<lambda>(a, e). a = e) (zip (rel_evidence r) expected)"

lemma has_evidence_iff: "has_evidence r expected \<longleftrightarrow> rel_evidence r = expected"
  by (auto simp: has_evidence_def list_all_length intro: nth_equalityI)

section \<open>Mappings\<close>

record verified_mappings =
  before_to_after :: "nat option list"
  after_to_before :: "nat option list"
  by_before :: "relation option list"

record phase_mappings =
  pm_before_to_after :: "nat option list"
  pm_after_to_before :: "nat option list"

definition is_exact_relation :: "relation \<Rightarrow> bool" where
  "is_exact_relation r \<longleftrightarrow>
     rel_correspondence r = ModelForced \<and> (rel_predicate r = ByteEqual \<or> rel_predicate r = SyntaxEqual)"

definition is_exact_before :: "verified_mappings \<Rightarrow> nat \<Rightarrow> bool result" where
  "is_exact_before m i =
     rbind (index_at (by_before m) i) (\<lambda>r. Inr (case r of None \<Rightarrow> False | Some r \<Rightarrow> is_exact_relation r))"

definition is_exact_after :: "verified_mappings \<Rightarrow> nat \<Rightarrow> bool result" where
  "is_exact_after m i =
     rbind (index_at (after_to_before m) i) (\<lambda>b. case b of None \<Rightarrow> Inr False | Some b \<Rightarrow> is_exact_before m b)"

definition mapped_pairs :: "verified_mappings \<Rightarrow> (nat \<times> nat) list" where
  "mapped_pairs m = List.map_filter (\<lambda>(i, a). map_option (Pair i) a) (enumerate 0 (before_to_after m))"

lemma mapped_pairs_iff:
  "(i, j) \<in> set (mapped_pairs m) \<longleftrightarrow> i < length (before_to_after m) \<and> before_to_after m ! i = Some j"
proof -
  have "(i, j) \<in> set (mapped_pairs m) \<longleftrightarrow> (i, Some j) \<in> set (enumerate 0 (before_to_after m))"
    by (force simp: mapped_pairs_def set_map_filter)
  then show ?thesis by (auto simp: in_set_enumerate_eq)
qed

text \<open>\<open>iter().flatten()\<close> over the relation records.\<close>

definition relation_records :: "verified_mappings \<Rightarrow> relation list" where
  "relation_records m = List.map_filter id (by_before m)"

lemma relation_records_iff: "r \<in> set (relation_records m) \<longleftrightarrow> Some r \<in> set (by_before m)"
  by (auto simp: relation_records_def set_map_filter)

section \<open>List operations that may fail\<close>

fun filter_result :: "('a \<Rightarrow> bool result) \<Rightarrow> 'a list \<Rightarrow> 'a list result" where
  "filter_result f [] = Inr []"
| "filter_result f (x # xs) =
     rbind (f x) (\<lambda>b. rbind (filter_result f xs) (\<lambda>ys. Inr (if b then x # ys else ys)))"

lemma filter_result_pure:
  "(\<And>x. x \<in> set xs \<Longrightarrow> f x = Inr (p x)) \<Longrightarrow> filter_result f xs = Inr (filter p xs)"
  by (induction xs) auto

text \<open>The position of the first element that satisfies a test which charges work.\<close>

primrec wposition :: "('a \<Rightarrow> bool work) \<Rightarrow> 'a list \<Rightarrow> nat option work" where
  "wposition f [] = wreturn None"
| "wposition f (x # xs) =
     wbind (f x) (\<lambda>b. if b then wreturn (Some 0)
                      else wbind (wposition f xs) (\<lambda>r. wreturn (map_option Suc r)))"

primrec position_of :: "('a \<Rightarrow> bool) \<Rightarrow> 'a list \<Rightarrow> nat option" where
  "position_of p [] = None"
| "position_of p (x # xs) = (if p x then Some 0 else map_option Suc (position_of p xs))"

lemma position_of_Some:
  "position_of p xs = Some i \<longleftrightarrow> i < length xs \<and> p (xs ! i) \<and> (\<forall>j<i. \<not> p (xs ! j))"
proof (induction xs arbitrary: i)
  case (Cons x xs)
  show ?case
  proof (cases i)
    case 0
    then show ?thesis by auto
  next
    case (Suc k)
    then show ?thesis using Cons by (auto simp: less_Suc_eq_0_disj)
  qed
qed simp

lemma position_of_None: "position_of p xs = None \<longleftrightarrow> (\<forall>x\<in>set xs. \<not> p x)"
  by (induction xs) auto

lemma valid_wposition:
  assumes "\<And>x. x \<in> set xs \<Longrightarrow> valid (f x) E (\<lambda>b. b \<longleftrightarrow> p x)"
  shows "valid (wposition f xs) E (\<lambda>r. r = position_of p xs)"
  using assms
proof (induction xs)
  case (Cons x xs)
  have "valid (f x) E (\<lambda>b. b \<longleftrightarrow> p x)" "valid (wposition f xs) E (\<lambda>r. r = position_of p xs)"
    using Cons by auto
  then show ?case by (auto intro!: valid_bind vc intro: valid_conseq)
qed (auto intro: vc)

lemma budgeted_wposition [budget_intros]: "(\<And>x. budgeted (f x)) \<Longrightarrow> budgeted (wposition f xs)"
  by (induction xs) (auto intro!: budget_intros)

section \<open>Node references\<close>

definition verify_node_ref :: "(bytes \<Rightarrow> string) \<Rightarrow> parsed_syntax \<Rightarrow> node_ref \<Rightarrow> syntax_node result" where
  "verify_node_ref to_hex s reference =
     (if ref_id reference < length (ps_nodes s) then
        let node = ps_nodes s ! ref_id reference in
        if as_ref to_hex node \<noteq> reference then Inl (RelationFailure NodeMetadataMismatch) else Inr node
      else Inl (RelationFailure UnknownNode))"

lemma verify_node_ref_Inr:
  "verify_node_ref to_hex s r = Inr n \<longleftrightarrow>
     ref_id r < length (ps_nodes s) \<and> n = ps_nodes s ! ref_id r \<and> r = as_ref to_hex n"
  by (auto simp: verify_node_ref_def Let_def)

lemma verify_node_ref_failure: "verify_node_ref to_hex s r = Inl e \<Longrightarrow> \<not> crash e"
  by (auto simp: verify_node_ref_def Let_def split: if_splits)

section \<open>Budgeted comparisons\<close>

definition node_span_len :: "parsed_syntax \<Rightarrow> nat \<Rightarrow> nat result" where
  "node_span_len s i =
     rbind (index_at (ps_nodes s) i) (\<lambda>n.
       of_option (RelationFailure SpanCapacity) (usize_checked_sub (end_byte (node_span n)) (start_byte (node_span n))))"

definition node_bytes :: "parsed_syntax \<Rightarrow> nat \<Rightarrow> bytes result" where
  "node_bytes s i =
     rbind (index_at (ps_nodes s) i) (\<lambda>n. slice (ps_source s) (start_byte (node_span n)) (end_byte (node_span n)))"

definition subtree_work :: "parsed_syntax \<Rightarrow> nat \<Rightarrow> parsed_syntax \<Rightarrow> nat \<Rightarrow> nat result" where
  "subtree_work left i right j =
     rbind (index_at (ps_nodes left) i) (\<lambda>l. rbind (index_at (ps_nodes right) j) (\<lambda>r.
       Inr (max (node_subtree_size l) (node_subtree_size r))))"

definition byte_work :: "parsed_syntax \<Rightarrow> nat \<Rightarrow> parsed_syntax \<Rightarrow> nat \<Rightarrow> nat result" where
  "byte_work left i right j =
     rbind (node_span_len left i) (\<lambda>l. rbind (node_span_len right j) (\<lambda>r. Inr (max l r)))"

definition budgeted_syntax_equal :: "parsed_syntax \<Rightarrow> nat \<Rightarrow> parsed_syntax \<Rightarrow> nat \<Rightarrow> bool work" where
  "budgeted_syntax_equal left i right j =
     wbind (wlift (subtree_work left i right j)) (\<lambda>n. wbind (charge n) (\<lambda>_.
     wbind (wlift (byte_work left i right j)) (\<lambda>b. wbind (charge b) (\<lambda>_.
       wlift (syntax_equal left i right j)))))"

definition budgeted_shape_equal :: "parsed_syntax \<Rightarrow> nat \<Rightarrow> parsed_syntax \<Rightarrow> nat \<Rightarrow> bool work" where
  "budgeted_shape_equal left i right j =
     wbind (wlift (subtree_work left i right j)) (\<lambda>n. wbind (charge n) (\<lambda>_.
       wlift (shape_equal left i right j)))"

definition budgeted_node_bytes_equal :: "parsed_syntax \<Rightarrow> nat \<Rightarrow> parsed_syntax \<Rightarrow> nat \<Rightarrow> bool work" where
  "budgeted_node_bytes_equal left i right j =
     wbind (wlift (byte_work left i right j)) (\<lambda>b. wbind (charge b) (\<lambda>_.
       wlift (rbind (node_bytes left i) (\<lambda>l. rbind (node_bytes right j) (\<lambda>r. Inr (l = r))))))"

definition exact_predicate :: "parsed_syntax \<Rightarrow> nat \<Rightarrow> parsed_syntax \<Rightarrow> nat \<Rightarrow> predicate option work" where
  "exact_predicate before i after j =
     wbind (budgeted_syntax_equal before i after j) (\<lambda>same.
     if \<not> same then wreturn None
     else wbind (budgeted_node_bytes_equal before i after j) (\<lambda>bytes_same.
       wreturn (Some (if bytes_same then ByteEqual else SyntaxEqual))))"

definition bytes_same :: "parsed_syntax \<Rightarrow> nat \<Rightarrow> parsed_syntax \<Rightarrow> nat \<Rightarrow> bool" where
  "bytes_same left i right j \<longleftrightarrow> node_bytes left i = node_bytes right j"

lemma arena_index: "in_arena ps i \<Longrightarrow> index_at (ps_nodes ps) i = Inr (ps_nodes ps ! i)"
  by (simp add: in_arena_def)

lemma arena_span_len:
  "in_arena ps i \<Longrightarrow> node_span_len ps i =
     Inr (end_byte (node_span (ps_nodes ps ! i)) - start_byte (node_span (ps_nodes ps ! i)))"
  using wf_span(1) [of ps i] by (simp add: node_span_len_def in_arena_def usize_checked_sub_def)

lemma arena_node_bytes: "in_arena ps i \<Longrightarrow> \<exists>bs. node_bytes ps i = Inr bs"
  using wf_span [of ps i] by (simp add: node_bytes_def in_arena_def)

lemma arena_works:
  assumes "in_arena left i" "in_arena right j"
  obtains n b where "subtree_work left i right j = Inr n" "byte_work left i right j = Inr b"
  using assms by (auto simp: subtree_work_def byte_work_def arena_index arena_span_len)

lemma valid_budgeted_syntax_equal:
  assumes "in_arena left i" "in_arena right j"
  shows "valid (budgeted_syntax_equal left i right j) work_failure (\<lambda>b. b \<longleftrightarrow> syntax_same left i right j)"
proof -
  obtain n b where "subtree_work left i right j = Inr n" "byte_work left i right j = Inr b"
    by (rule arena_works [OF assms])
  then show ?thesis
    using equal_total(1) [OF assms] by (auto simp: budgeted_syntax_equal_def intro!: vc)
qed

lemma valid_budgeted_shape_equal:
  assumes "in_arena left i" "in_arena right j"
  shows "valid (budgeted_shape_equal left i right j) work_failure (\<lambda>b. b \<longleftrightarrow> shape_same left i right j)"
proof -
  obtain n b where "subtree_work left i right j = Inr n" "byte_work left i right j = Inr b"
    by (rule arena_works [OF assms])
  then show ?thesis
    using equal_total(2) [OF assms] by (auto simp: budgeted_shape_equal_def intro!: vc)
qed

lemma valid_budgeted_node_bytes_equal:
  assumes "in_arena left i" "in_arena right j"
  shows "valid (budgeted_node_bytes_equal left i right j) work_failure (\<lambda>b. b \<longleftrightarrow> bytes_same left i right j)"
proof -
  obtain n b where "subtree_work left i right j = Inr n" "byte_work left i right j = Inr b"
    by (rule arena_works [OF assms])
  then show ?thesis
    using arena_node_bytes [OF assms(1)] arena_node_bytes [OF assms(2)]
    by (auto simp: budgeted_node_bytes_equal_def bytes_same_def intro!: vc)
qed

definition strongest_predicate :: "parsed_syntax \<Rightarrow> nat \<Rightarrow> parsed_syntax \<Rightarrow> nat \<Rightarrow> predicate option" where
  "strongest_predicate before i after j =
     (if \<not> syntax_same before i after j then None
      else if bytes_same before i after j then Some ByteEqual else Some SyntaxEqual)"

lemma valid_exact_predicate:
  assumes "in_arena before i" "in_arena after j"
  shows "valid (exact_predicate before i after j) work_failure (\<lambda>p. p = strongest_predicate before i after j)"
  unfolding exact_predicate_def
  by (rule valid_bind [OF valid_budgeted_syntax_equal [OF assms]])
    (auto simp: strongest_predicate_def intro!: vc valid_bind [OF valid_budgeted_node_bytes_equal [OF assms]])

lemma budgeted_comparisons [budget_intros]:
  "budgeted (budgeted_syntax_equal left i right j)" "budgeted (budgeted_shape_equal left i right j)"
  "budgeted (budgeted_node_bytes_equal left i right j)" "budgeted (exact_predicate left i right j)"
  by (auto simp: budgeted_syntax_equal_def budgeted_shape_equal_def budgeted_node_bytes_equal_def
      exact_predicate_def intro!: budget_intros)

section \<open>The interface of a budgeted node equivalence\<close>

locale node_equivalence =
  fixes test :: "parsed_syntax \<Rightarrow> nat \<Rightarrow> parsed_syntax \<Rightarrow> nat \<Rightarrow> bool work"
    and same :: "parsed_syntax \<Rightarrow> nat \<Rightarrow> parsed_syntax \<Rightarrow> nat \<Rightarrow> bool"
  assumes decides: "in_arena p i \<Longrightarrow> in_arena q j \<Longrightarrow> valid (test p i q j) work_failure (\<lambda>b. b \<longleftrightarrow> same p i q j)"
    and reflexive: "in_arena p i \<Longrightarrow> same p i p i"
    and symmetric: "in_arena p i \<Longrightarrow> in_arena q j \<Longrightarrow> same p i q j \<Longrightarrow> same q j p i"
    and transitive: "in_arena p i \<Longrightarrow> in_arena q j \<Longrightarrow> in_arena r k \<Longrightarrow> same p i q j \<Longrightarrow> same q j r k \<Longrightarrow> same p i r k"
    and disciplined: "budgeted (test p i q j)"

interpretation syntax_test: node_equivalence budgeted_syntax_equal syntax_same
  by unfold_locales
    (auto intro: valid_budgeted_syntax_equal same_refl same_sym same_trans budget_intros)

interpretation shape_test: node_equivalence budgeted_shape_equal shape_same
  by unfold_locales
    (auto intro: valid_budgeted_shape_equal same_refl same_sym same_trans budget_intros)

section \<open>Buckets\<close>

type_synonym node_key = "string option \<times> string \<times> bytes"

definition exact_key :: "syntax_node \<Rightarrow> node_key" where
  "exact_key n = (node_field n, node_kind n, node_syntax_hash n)"

definition shape_key :: "syntax_node \<Rightarrow> node_key" where
  "shape_key n = (node_field n, node_kind n, node_shape_hash n)"

fun bucket_push :: "'k::linorder \<Rightarrow> nat \<Rightarrow> ('k \<times> nat list) list \<Rightarrow> ('k \<times> nat list) list" where
  "bucket_push k i [] = [(k, [i])]"
| "bucket_push k i ((a, ids) # bs) =
     (if k < a then (k, [i]) # (a, ids) # bs
      else if k = a then (a, ids @ [i]) # bs
      else (a, ids) # bucket_push k i bs)"

definition buckets ::
  "parsed_syntax \<Rightarrow> nat list \<Rightarrow> (syntax_node \<Rightarrow> 'k::linorder) \<Rightarrow> ('k \<times> nat list) list work" where
  "buckets s ids key =
     wbind (charge_n_log_n (length ids)) (\<lambda>_.
     wfold (\<lambda>bs i. wbind (wlift (index_at (ps_nodes s) i)) (\<lambda>n. wreturn (bucket_push (key n) i bs))) [] ids)"

definition unique_pairs ::
  "parsed_syntax \<Rightarrow> parsed_syntax \<Rightarrow> nat list \<Rightarrow> nat list \<Rightarrow> (syntax_node \<Rightarrow> 'k::linorder) \<Rightarrow> (nat \<times> nat) list work" where
  "unique_pairs before after before_ids after_ids key =
     wbind (buckets before before_ids key) (\<lambda>before_buckets.
     wbind (buckets after after_ids key) (\<lambda>after_buckets.
     wbind (charge_product (length before_buckets) (map_lookup_levels (length after_buckets))) (\<lambda>_.
       wreturn (List.map_filter (\<lambda>(k, before_bucket).
         case map_of after_buckets k of
           None \<Rightarrow> None
         | Some after_bucket \<Rightarrow>
             if length before_bucket = 1 \<and> length after_bucket = 1
             then Some (before_bucket ! 0, after_bucket ! 0) else None) before_buckets))))"

definition bucket_of :: "parsed_syntax \<Rightarrow> (syntax_node \<Rightarrow> 'k) \<Rightarrow> nat list \<Rightarrow> 'k \<Rightarrow> nat list" where
  "bucket_of s key ids k = filter (\<lambda>i. key (ps_nodes s ! i) = k) ids"

definition bucketed :: "parsed_syntax \<Rightarrow> (syntax_node \<Rightarrow> 'k::linorder) \<Rightarrow> nat list \<Rightarrow> ('k \<times> nat list) list \<Rightarrow> bool" where
  "bucketed s key ids bs \<longleftrightarrow> sorted_wrt (<) (map fst bs) \<and>
     (\<forall>k js. (k, js) \<in> set bs \<longleftrightarrow> js = bucket_of s key ids k \<and> js \<noteq> [])"

lemma bucket_push_keys: "set (map fst (bucket_push k i bs)) = insert k (set (map fst bs))"
  by (induction k i bs rule: bucket_push.induct) auto

lemma bucket_push_sorted: "sorted_wrt (<) (map fst bs) \<Longrightarrow> sorted_wrt (<) (map fst (bucket_push k i bs))"
proof (induction k i bs rule: bucket_push.induct)
  case (2 k i a ids bs)
  then show ?case
    using bucket_push_keys [of k i bs] by (auto simp: not_less simp flip: set_map)
qed simp

lemma bucket_push_entries:
  "sorted_wrt (<) (map fst bs) \<Longrightarrow>
   (l, js) \<in> set (bucket_push k i bs) \<longleftrightarrow>
     (if l = k then (\<exists>ids. (k, ids) \<in> set bs \<and> js = ids @ [i]) \<or> k \<notin> fst ` set bs \<and> js = [i]
      else (l, js) \<in> set bs)"
proof (induction k i bs rule: bucket_push.induct)
  case (2 k i a ids bs)
  then show ?case by force
qed auto

lemma bucketed_push:
  assumes "bucketed s key ids bs" "key (ps_nodes s ! i) = k"
  shows "bucketed s key (ids @ [i]) (bucket_push k i bs)"
proof -
  have none: "k \<notin> fst ` set bs \<longleftrightarrow> bucket_of s key ids k = []"
    using assms(1) by (force simp: bucketed_def)
  have "(l, js) \<in> set (bucket_push k i bs) \<longleftrightarrow> js = bucket_of s key (ids @ [i]) l \<and> js \<noteq> []" for l js
    using assms none bucket_push_entries [of bs l js k i]
    by (cases "l = k") (auto simp: bucketed_def bucket_of_def)
  then show ?thesis
    using assms(1) bucket_push_sorted [of bs k i] by (auto simp: bucketed_def)
qed

lemma valid_buckets:
  assumes "\<And>i. i \<in> set ids \<Longrightarrow> in_arena s i"
  shows "valid (buckets s ids key) work_failure (bucketed s key ids)"
  unfolding buckets_def
proof (rule valid_charge_n_log_n_bind)
  show "valid (wfold (\<lambda>bs i. wbind (wlift (index_at (ps_nodes s) i)) (\<lambda>n. wreturn (bucket_push (key n) i bs))) [] ids)
      work_failure (bucketed s key ids)"
  proof (rule valid_fold_prefix)
    show "bucketed s key [] []" by (simp add: bucketed_def bucket_of_def)
  next
    fix ys x zs bs
    assume "ids = ys @ x # zs" "bucketed s key ys bs"
    then show "valid (wbind (wlift (index_at (ps_nodes s) x)) (\<lambda>n. wreturn (bucket_push (key n) x bs)))
        work_failure (bucketed s key (ys @ [x]))"
      using assms [of x] by (simp add: arena_index bucketed_push valid_return)
  qed
qed simp

lemma bucketed_distinct: "bucketed s key ids bs \<Longrightarrow> distinct (map fst bs)"
  by (auto simp: bucketed_def strict_sorted_iff)

lemma bucketed_map_of:
  assumes "bucketed s key ids bs"
  shows "map_of bs k = (if bucket_of s key ids k = [] then None else Some (bucket_of s key ids k))"
proof (cases "map_of bs k")
  case None
  then have "k \<notin> fst ` set bs" by (simp add: map_of_eq_None_iff)
  then show ?thesis using None assms by (force simp: bucketed_def)
next
  case (Some js)
  then have "(k, js) \<in> set bs" by (rule map_of_SomeD)
  then show ?thesis using Some assms by (auto simp: bucketed_def)
qed

lemma bucketed_length: "bucketed s key ids bs \<Longrightarrow> length bs \<le> length ids"
proof -
  assume b: "bucketed s key ids bs"
  have "set (map fst bs) \<subseteq> set (map (\<lambda>i. key (ps_nodes s ! i)) ids)"
  proof
    fix k assume "k \<in> set (map fst bs)"
    then obtain js where "(k, js) \<in> set bs" by auto
    then have "bucket_of s key ids k \<noteq> []" using b by (auto simp: bucketed_def)
    then show "k \<in> set (map (\<lambda>i. key (ps_nodes s ! i)) ids)"
      by (auto simp: bucket_of_def filter_empty_conv)
  qed
  from card_mono [OF _ this] show ?thesis
    using distinct_card [OF bucketed_distinct [OF b]] card_length [of "map (\<lambda>i. key (ps_nodes s ! i)) ids"] by simp
qed

text \<open>The unique pairs: the nodes that are alone with their key on both sides.\<close>

lemma valid_unique_pairs:
  assumes "\<And>i. i \<in> set before_ids \<Longrightarrow> in_arena before i" "\<And>j. j \<in> set after_ids \<Longrightarrow> in_arena after j"
  shows "valid (unique_pairs before after before_ids after_ids key) work_failure
    (\<lambda>ps. set ps = {(i, j). \<exists>k. bucket_of before key before_ids k = [i] \<and> bucket_of after key after_ids k = [j]})"
  unfolding unique_pairs_def
proof (rule valid_bind [OF valid_buckets [OF assms(1)]], assumption,
    rule valid_bind [OF valid_buckets [OF assms(2)]], assumption, rule valid_charge_product_bind, assumption)
  fix bs as
  assume bs: "bucketed before key before_ids bs" and as: "bucketed after key after_ids as"
  have "set (List.map_filter (\<lambda>(k, before_bucket).
         case map_of as k of
           None \<Rightarrow> None
         | Some after_bucket \<Rightarrow>
             if length before_bucket = 1 \<and> length after_bucket = 1
             then Some (before_bucket ! 0, after_bucket ! 0) else None) bs) =
      {(i, j). \<exists>k. bucket_of before key before_ids k = [i] \<and> bucket_of after key after_ids k = [j]}" (is "?l = ?r")
  proof
    show "?l \<subseteq> ?r"
      using bs by (auto simp: set_map_filter bucketed_map_of [OF as] bucketed_def length_Suc_conv split: if_splits)
    show "?r \<subseteq> ?l"
    proof clarify
      fix i j k
      assume k: "bucket_of before key before_ids k = [i]" "bucket_of after key after_ids k = [j]"
      then have "(k, [i]) \<in> set bs" using bs by (auto simp: bucketed_def)
      then show "(i, j) \<in> ?l"
        using k by (auto simp: set_map_filter bucketed_map_of [OF as] intro!: bexI [of _ "(k, [i])"])
    qed
  qed
  then show "valid (wreturn (List.map_filter (\<lambda>(k, before_bucket).
         case map_of as k of
           None \<Rightarrow> None
         | Some after_bucket \<Rightarrow>
             if length before_bucket = 1 \<and> length after_bucket = 1
             then Some (before_bucket ! 0, after_bucket ! 0) else None) bs)) work_failure
      (\<lambda>ps. set ps = {(i, j). \<exists>k. bucket_of before key before_ids k = [i] \<and> bucket_of after key after_ids k = [j]})"
    by (rule valid_return)
qed

lemma budgeted_buckets [budget_intros]:
  "budgeted (buckets s ids key)" "budgeted (unique_pairs before after before_ids after_ids key)"
  by (auto simp: buckets_def unique_pairs_def intro!: budget_intros)

section \<open>Local candidates\<close>

definition local_exact_candidates :: "parsed_syntax \<Rightarrow> nat \<Rightarrow> verified_mappings \<Rightarrow> nat list work" where
  "local_exact_candidates s parent m =
     wbind (wlift (index_at (ps_nodes s) parent)) (\<lambda>p.
     wbind (charge (length (node_children p))) (\<lambda>_.
       wlift (filter_result (\<lambda>i. rbind (index_at (by_before m) i) (\<lambda>r. Inr (case r of
           None \<Rightarrow> True
         | Some r \<Rightarrow> \<not> is_exact_relation r \<or> has_evidence r LOCAL_ANCHOR_EVIDENCE))) (node_children p))))"

definition local_exact_candidates_after :: "parsed_syntax \<Rightarrow> nat \<Rightarrow> verified_mappings \<Rightarrow> nat list work" where
  "local_exact_candidates_after s parent m =
     wbind (wlift (index_at (ps_nodes s) parent)) (\<lambda>p.
     wbind (charge (length (node_children p))) (\<lambda>_.
       wlift (filter_result (\<lambda>i. rbind (index_at (after_to_before m) i) (\<lambda>b. case b of
           None \<Rightarrow> Inr True
         | Some b \<Rightarrow> rbind (index_at (by_before m) b) (\<lambda>r. rbind (of_option Panic r) (\<lambda>r.
             Inr (\<not> is_exact_relation r \<or> has_evidence r LOCAL_ANCHOR_EVIDENCE))))) (node_children p))))"

definition verify_mapped_parents ::
  "parsed_syntax \<Rightarrow> parsed_syntax \<Rightarrow> verified_mappings \<Rightarrow> relation \<Rightarrow> unit result" where
  "verify_mapped_parents before after m r =
     rbind (index_at (ps_nodes before) (ref_id (rel_before r))) (\<lambda>b.
     rbind (of_option (AnchorFailure LocalNoParent) (node_parent b)) (\<lambda>before_parent.
     rbind (index_at (ps_nodes after) (ref_id (rel_after r))) (\<lambda>a.
     rbind (of_option (AnchorFailure LocalNoParent) (node_parent a)) (\<lambda>after_parent.
     rbind (index_at (before_to_after m) before_parent) (\<lambda>mapped.
       rensure (mapped = Some after_parent) (AnchorFailure LocalParentsNotMapped))))))"

end
