(* ===== verification/Relations.thy ===== *)
theory Relations
  imports Verifier_Base
begin

text \<open>
  Relation and anchor checks of \<open>crates/stratadiff-verifier/src/verifier.rs\<close>: \<open>verify_relations\<close> builds the
  verified mappings while it checks order, one-to-one correspondence, predicates and evidence;
  the exact anchors are checked against the global index of syntax digests and against
  their mapped parents; the completeness checks look for unique exact pairs that the report omits.

  A \<open>HashMap\<close> that is only read and written by key is a finite map; the one that is iterated is an
  association list whose iteration order is the parameter \<open>order\<close>.
\<close>

section \<open>Relations\<close>

record relation_scan =
  scan_mappings :: verified_mappings
  previous_before_id :: "nat option"
  input_pairs :: nat

definition predicate_holds :: "parsed_syntax \<Rightarrow> parsed_syntax \<Rightarrow> relation \<Rightarrow> bool work" where
  "predicate_holds before after r =
     (let i = ref_id (rel_before r); j = ref_id (rel_after r) in
      case rel_predicate r of
        PredInputPair \<Rightarrow> wreturn (i = ps_root before \<and> j = ps_root after)
      | ByteEqual \<Rightarrow> budgeted_node_bytes_equal before i after j
      | SyntaxEqual \<Rightarrow> budgeted_syntax_equal before i after j
      | ShapeEqual \<Rightarrow> budgeted_shape_equal before i after j)"

definition check_correspondence :: "parsed_syntax \<Rightarrow> parsed_syntax \<Rightarrow> relation \<Rightarrow> nat \<Rightarrow> nat work" where
  "check_correspondence before after r pairs =
     (let i = ref_id (rel_before r); j = ref_id (rel_after r) in
      case rel_correspondence r of
        CorrInputPair \<Rightarrow>
          wbind (wensure (\<not> (rel_predicate r \<noteq> PredInputPair \<or> i \<noteq> ps_root before \<or> j \<noteq> ps_root after
              \<or> \<not> has_evidence r INPUT_PAIR_EVIDENCE)) (RelationFailure InvalidInputPair)) (\<lambda>_.
            wreturn (pairs + 1))
      | ModelForced \<Rightarrow>
          if has_evidence r STABLE_CORE_EVIDENCE then
            wbind (wensure (rel_predicate r = ShapeEqual) (RelationFailure StableCoreWithoutShape)) (\<lambda>_. wreturn pairs)
          else
            wbind (exact_predicate before i after j) (\<lambda>expected.
            wbind (wlift (of_option (RelationFailure ExactUnequalSyntax) expected)) (\<lambda>expected_predicate.
            wbind (wensure (rel_predicate r = expected_predicate) (RelationFailure ExactNotStrongest)) (\<lambda>_.
            wbind (wensure (has_evidence r GLOBAL_ANCHOR_EVIDENCE \<or> has_evidence r LOCAL_ANCHOR_EVIDENCE
                \<or> has_evidence r EXACT_DESCENDANT_EVIDENCE) (RelationFailure UnsupportedEvidence)) (\<lambda>_.
              wreturn pairs))))
      | Suggested \<Rightarrow> wfail (RelationFailure SuggestedUnsupported))"

definition set_at :: "'a list \<Rightarrow> nat \<Rightarrow> 'a \<Rightarrow> 'a list result" where
  "set_at xs i x = (if i < length xs then Inr (xs[i := x]) else Inl Panic)"

lemma set_at_ok [simp]: "i < length xs \<Longrightarrow> set_at xs i x = Inr (xs[i := x])"
  by (simp add: set_at_def)

definition verify_relation ::
  "(bytes \<Rightarrow> string) \<Rightarrow> parsed_syntax \<Rightarrow> parsed_syntax \<Rightarrow> relation_scan \<Rightarrow> relation \<Rightarrow> relation_scan work" where
  "verify_relation to_hex before after s r =
     (let i = ref_id (rel_before r); j = ref_id (rel_after r); m = scan_mappings s in
      wbind (charge 1) (\<lambda>_.
      wbind (wlift (verify_node_ref to_hex before (rel_before r))) (\<lambda>_.
      wbind (wlift (verify_node_ref to_hex after (rel_after r))) (\<lambda>_.
      wbind (wensure (\<not> (case previous_before_id s of None \<Rightarrow> False | Some p \<Rightarrow> i \<le> p))
               (RelationFailure NotCanonicalOrder)) (\<lambda>_.
      wbind (wlift (index_at (before_to_after m) i)) (\<lambda>b.
      wbind (wlift (index_at (after_to_before m) j)) (\<lambda>a.
      wbind (wensure (b = None \<and> a = None) (RelationFailure NotOneToOne)) (\<lambda>_.
      wbind (predicate_holds before after r) (\<lambda>holds.
      wbind (wensure holds (RelationFailure PredicateFalse)) (\<lambda>_.
      wbind (check_correspondence before after r (input_pairs s)) (\<lambda>pairs.
      wbind (wensure (\<not> (rel_predicate r = PredInputPair \<and> rel_correspondence r \<noteq> CorrInputPair))
               (RelationFailure InputPairReserved)) (\<lambda>_.
      wbind (wlift (set_at (before_to_after m) i (Some j))) (\<lambda>b2a.
      wbind (wlift (set_at (after_to_before m) j (Some i))) (\<lambda>a2b.
      wbind (wlift (set_at (by_before m) i (Some r))) (\<lambda>recs.
        wreturn \<lparr>scan_mappings = \<lparr>before_to_after = b2a, after_to_before = a2b, by_before = recs\<rparr>,
                 previous_before_id = Some i, input_pairs = pairs\<rparr>)))))))))))))))"

definition no_mappings :: "parsed_syntax \<Rightarrow> parsed_syntax \<Rightarrow> verified_mappings" where
  "no_mappings before after =
     \<lparr>before_to_after = replicate (length (ps_nodes before)) None,
      after_to_before = replicate (length (ps_nodes after)) None,
      by_before = replicate (length (ps_nodes before)) None\<rparr>"

definition verify_relations ::
  "(bytes \<Rightarrow> string) \<Rightarrow> diff_report \<Rightarrow> parsed_syntax \<Rightarrow> parsed_syntax \<Rightarrow> verified_mappings work" where
  "verify_relations to_hex report before after =
     wbind (wfold (verify_relation to_hex before after)
              \<lparr>scan_mappings = no_mappings before after, previous_before_id = None, input_pairs = 0\<rparr>
              (relations report)) (\<lambda>s.
     let m = scan_mappings s in
     wbind (wlift (rbind (index_at (before_to_after m) (ps_root before)) (\<lambda>b.
                   rbind (index_at (after_to_before m) (ps_root after)) (\<lambda>a.
                     Inr (\<not> (input_pairs s \<noteq> 1 \<or> b \<noteq> Some (ps_root after) \<or> a \<noteq> Some (ps_root before))))))) (\<lambda>ok.
     wbind (wensure ok (RelationFailure NoSingleInputPair)) (\<lambda>_. wreturn m)))"

section \<open>The global index of exact subtrees\<close>

type_synonym exact_buckets = "((string \<times> bytes) \<times> nat list) list"

fun assoc_push :: "'k \<Rightarrow> nat \<Rightarrow> ('k \<times> nat list) list \<Rightarrow> ('k \<times> nat list) list" where
  "assoc_push k i [] = [(k, [i])]"
| "assoc_push k i ((a, ids) # bs) = (if k = a then (a, ids @ [i]) # bs else (a, ids) # assoc_push k i bs)"

record global_exact_index =
  index_before :: exact_buckets
  index_after :: exact_buckets

definition global_key :: "syntax_node \<Rightarrow> string \<times> bytes" where
  "global_key n = (node_kind n, node_syntax_hash n)"

definition exact_subtree_buckets :: "parsed_syntax \<Rightarrow> exact_buckets work" where
  "exact_subtree_buckets s =
     wfold (\<lambda>bs node. wbind (charge 1) (\<lambda>_. wreturn
       (if node_id node \<noteq> ps_root s \<and> node_subtree_size node \<ge> 3
        then assoc_push (global_key node) (node_id node) bs else bs))) [] (ps_nodes s)"

definition global_exact_index :: "parsed_syntax \<Rightarrow> parsed_syntax \<Rightarrow> global_exact_index work" where
  "global_exact_index before after =
     wbind (exact_subtree_buckets before) (\<lambda>b.
     wbind (exact_subtree_buckets after) (\<lambda>a. wreturn \<lparr>index_before = b, index_after = a\<rparr>))"

definition verify_global_anchor ::
  "parsed_syntax \<Rightarrow> parsed_syntax \<Rightarrow> relation \<Rightarrow> global_exact_index \<Rightarrow> unit result" where
  "verify_global_anchor before after r index =
     rbind (index_at (ps_nodes before) (ref_id (rel_before r))) (\<lambda>b.
     rbind (index_at (ps_nodes after) (ref_id (rel_after r))) (\<lambda>a.
     rbind (rensure (\<not> (node_id b = ps_root before \<or> node_id a = ps_root after
              \<or> node_subtree_size b < 3 \<or> node_subtree_size a < 3)) (AnchorFailure MinimumSubtreeRule)) (\<lambda>_.
     rbind (of_option Panic (map_of (index_before index) (global_key b))) (\<lambda>before_ids.
     rbind (of_option Panic (map_of (index_after index) (global_key a))) (\<lambda>after_ids.
       rensure (\<not> (length before_ids \<noteq> 1 \<or> length after_ids \<noteq> 1)) (AnchorFailure NotGloballyUnique))))))"

section \<open>Exact subtrees\<close>

text \<open>The recursion of \<open>certify_exact_subtree\<close>; the map collects the certified descendants.\<close>

fun certify_exact_subtree_fuel ::
  "nat \<Rightarrow> parsed_syntax \<Rightarrow> parsed_syntax \<Rightarrow> verified_mappings \<Rightarrow> nat \<Rightarrow> nat \<Rightarrow> (nat \<rightharpoonup> nat) \<Rightarrow> (nat \<rightharpoonup> nat) work" where
  "certify_exact_subtree_fuel 0 before after m before_id after_id certified = wfail Diverges"
| "certify_exact_subtree_fuel (Suc fuel) before after m before_id after_id certified =
     wbind (charge 1) (\<lambda>_.
     wbind (wlift (index_at (ps_nodes before) before_id)) (\<lambda>b.
     wbind (wlift (index_at (ps_nodes after) after_id)) (\<lambda>a.
     wbind (wensure (length (node_children b) = length (node_children a)) (AnchorFailure ChildrenNotIsomorphic)) (\<lambda>_.
       wfold (\<lambda>certified (before_child, after_child).
         wbind (wlift (index_at (before_to_after m) before_child)) (\<lambda>mapped.
         wbind (wensure (mapped = Some after_child) (AnchorFailure MissingDescendantRelation)) (\<lambda>_.
         wbind (wlift (index_at (by_before m) before_child)) (\<lambda>rec.
         wbind (wlift (of_option (AnchorFailure NoRelationRecord) rec)) (\<lambda>r.
         wbind (wensure (rel_correspondence r = ModelForced) (AnchorFailure DescendantNotForced)) (\<lambda>_.
         wbind (wensure (has_evidence r EXACT_DESCENDANT_EVIDENCE \<or> has_evidence r GLOBAL_ANCHOR_EVIDENCE
                  \<or> has_evidence r LOCAL_ANCHOR_EVIDENCE) (AnchorFailure DescendantEvidence)) (\<lambda>_.
         wbind (wensure (\<not> (case certified before_child of None \<Rightarrow> False | Some existing \<Rightarrow> existing \<noteq> after_child))
                  (AnchorFailure CertificatesDisagree)) (\<lambda>_.
           certify_exact_subtree_fuel fuel before after m before_child after_child
             (certified(before_child \<mapsto> after_child))))))))))
         certified (zip (node_children b) (node_children a))))))"

definition certify_exact_subtree ::
  "parsed_syntax \<Rightarrow> parsed_syntax \<Rightarrow> verified_mappings \<Rightarrow> nat \<Rightarrow> nat \<Rightarrow> (nat \<rightharpoonup> nat) \<Rightarrow> (nat \<rightharpoonup> nat) work" where
  "certify_exact_subtree before after m before_id after_id certified =
     certify_exact_subtree_fuel (Suc (length (ps_nodes before))) before after m before_id after_id certified"

definition certify_anchor ::
  "parsed_syntax \<Rightarrow> parsed_syntax \<Rightarrow> verified_mappings \<Rightarrow> global_exact_index \<Rightarrow> (nat \<rightharpoonup> nat) \<Rightarrow> relation \<Rightarrow>
   (nat \<rightharpoonup> nat) work" where
  "certify_anchor before after m index certified r =
     wbind (charge 1) (\<lambda>_.
     if rel_correspondence r \<noteq> ModelForced then wreturn certified
     else if has_evidence r GLOBAL_ANCHOR_EVIDENCE then
       wbind (wlift (verify_global_anchor before after r index)) (\<lambda>_.
         certify_exact_subtree before after m (ref_id (rel_before r)) (ref_id (rel_after r)) certified)
     else if has_evidence r LOCAL_ANCHOR_EVIDENCE then
       wbind (wlift (verify_mapped_parents before after m r)) (\<lambda>_.
         certify_exact_subtree before after m (ref_id (rel_before r)) (ref_id (rel_after r)) certified)
     else wreturn certified)"

definition verify_exact_anchor_evidence ::
  "diff_report \<Rightarrow> parsed_syntax \<Rightarrow> parsed_syntax \<Rightarrow> verified_mappings \<Rightarrow> global_exact_index \<Rightarrow> unit work" where
  "verify_exact_anchor_evidence report before after m index =
     wbind (wfold (certify_anchor before after m index) Map.empty (relations report)) (\<lambda>certified.
     weach (\<lambda>r. wbind (charge 1) (\<lambda>_.
       wensure (\<not> (has_evidence r EXACT_DESCENDANT_EVIDENCE
                  \<and> certified (ref_id (rel_before r)) \<noteq> Some (ref_id (rel_after r))))
         (AnchorFailure NotBelowCertifiedAnchor))) (relations report))"

section \<open>Completeness of the anchors\<close>

definition verify_global_anchor_completeness ::
  "(exact_buckets \<Rightarrow> exact_buckets) \<Rightarrow> parsed_syntax \<Rightarrow> parsed_syntax \<Rightarrow> verified_mappings \<Rightarrow> global_exact_index \<Rightarrow>
   unit work" where
  "verify_global_anchor_completeness order before after m index =
     weach (\<lambda>(key, before_ids).
       wbind (charge 1) (\<lambda>_.
       case map_of (index_after index) key of
         None \<Rightarrow> wreturn ()
       | Some after_ids \<Rightarrow>
           if length before_ids = 1 \<and> length after_ids = 1 then
             wbind (budgeted_syntax_equal before (before_ids ! 0) after (after_ids ! 0)) (\<lambda>same.
             if same then
               wbind (wlift (rbind (index_at (before_to_after m) (before_ids ! 0)) (\<lambda>mapped.
                   if mapped \<noteq> Some (after_ids ! 0) then Inr False else is_exact_before m (before_ids ! 0)))) (\<lambda>ok.
                 wensure ok (AnchorFailure GlobalAnchorAbsent))
             else wreturn ())
           else wreturn ())) (order (index_before index))"

definition check_local_pair ::
  "parsed_syntax \<Rightarrow> parsed_syntax \<Rightarrow> verified_mappings \<Rightarrow> (nat \<times> nat) set \<Rightarrow> nat \<times> nat \<Rightarrow> (nat \<times> nat) set work" where
  "check_local_pair before after m verified p =
     wbind (budgeted_syntax_equal before (fst p) after (snd p)) (\<lambda>same.
     if same then
       wbind (wlift (rbind (index_at (before_to_after m) (fst p)) (\<lambda>mapped.
           if mapped \<noteq> Some (snd p) then Inr False else is_exact_before m (fst p)))) (\<lambda>ok.
       wbind (wensure ok (AnchorFailure LocalPairAbsent)) (\<lambda>_. wreturn (insert p verified)))
     else wreturn verified)"

definition verify_local_exact_relations ::
  "parsed_syntax \<Rightarrow> parsed_syntax \<Rightarrow> verified_mappings \<Rightarrow> unit work" where
  "verify_local_exact_relations before after m =
     wbind (charge (length (before_to_after m))) (\<lambda>_.
     wbind (wfold (\<lambda>verified (before_parent, after_parent).
              wbind (local_exact_candidates before before_parent m) (\<lambda>before_children.
              wbind (local_exact_candidates_after after after_parent m) (\<lambda>after_children.
              wbind (unique_pairs before after before_children after_children exact_key) (\<lambda>pairs.
                wfold (check_local_pair before after m) verified pairs)))) {} (mapped_pairs m)) (\<lambda>verified.
     wbind (charge (length (by_before m))) (\<lambda>_.
       weach (\<lambda>r.
         wbind (wlift (verify_mapped_parents before after m r)) (\<lambda>_.
           wensure ((ref_id (rel_before r), ref_id (rel_after r)) \<in> verified) (AnchorFailure LocalAnchorNotUnique)))
         (filter (\<lambda>r. has_evidence r LOCAL_ANCHOR_EVIDENCE) (relation_records m)))))"

section \<open>What a verified relation set is\<close>

abbreviation safe :: "failure \<Rightarrow> bool" where
  "safe e \<equiv> \<not> crash e"

lemma valid_safe: "valid m work_failure Q \<Longrightarrow> valid m safe Q"
  by (erule valid_conseq) auto

abbreviation before_id :: "relation \<Rightarrow> nat" where "before_id r \<equiv> ref_id (rel_before r)"
abbreviation after_id :: "relation \<Rightarrow> nat" where "after_id r \<equiv> ref_id (rel_after r)"

definition predicate_true :: "parsed_syntax \<Rightarrow> parsed_syntax \<Rightarrow> relation \<Rightarrow> bool" where
  "predicate_true before after r =
     (case rel_predicate r of
        PredInputPair \<Rightarrow> before_id r = ps_root before \<and> after_id r = ps_root after
      | ByteEqual \<Rightarrow> bytes_same before (before_id r) after (after_id r)
      | SyntaxEqual \<Rightarrow> syntax_same before (before_id r) after (after_id r)
      | ShapeEqual \<Rightarrow> shape_same before (before_id r) after (after_id r))"

definition input_pair :: "parsed_syntax \<Rightarrow> parsed_syntax \<Rightarrow> relation \<Rightarrow> bool" where
  "input_pair before after r \<longleftrightarrow> rel_correspondence r = CorrInputPair \<and> rel_predicate r = PredInputPair \<and>
     before_id r = ps_root before \<and> after_id r = ps_root after \<and> rel_evidence r = INPUT_PAIR_EVIDENCE"

definition stable_core_relation :: "relation \<Rightarrow> bool" where
  "stable_core_relation r \<longleftrightarrow> rel_correspondence r = ModelForced \<and> rel_predicate r = ShapeEqual \<and>
     rel_evidence r = STABLE_CORE_EVIDENCE"

definition exact_relation :: "parsed_syntax \<Rightarrow> parsed_syntax \<Rightarrow> relation \<Rightarrow> bool" where
  "exact_relation before after r \<longleftrightarrow> rel_correspondence r = ModelForced \<and>
     strongest_predicate before (before_id r) after (after_id r) = Some (rel_predicate r) \<and>
     (rel_evidence r = GLOBAL_ANCHOR_EVIDENCE \<or> rel_evidence r = LOCAL_ANCHOR_EVIDENCE \<or>
      rel_evidence r = EXACT_DESCENDANT_EVIDENCE)"

definition relation_verified ::
  "(bytes \<Rightarrow> string) \<Rightarrow> parsed_syntax \<Rightarrow> parsed_syntax \<Rightarrow> relation \<Rightarrow> bool" where
  "relation_verified to_hex before after r \<longleftrightarrow>
     before_id r < length (ps_nodes before) \<and> rel_before r = as_ref to_hex (ps_nodes before ! before_id r) \<and>
     after_id r < length (ps_nodes after) \<and> rel_after r = as_ref to_hex (ps_nodes after ! after_id r) \<and>
     predicate_true before after r \<and>
     (input_pair before after r \<or> stable_core_relation r \<or> exact_relation before after r)"

text \<open>The mappings are exactly the relations \<open>rs\<close>, and they are one-to-one.\<close>

definition mappings_of :: "parsed_syntax \<Rightarrow> parsed_syntax \<Rightarrow> relation list \<Rightarrow> verified_mappings \<Rightarrow> bool" where
  "mappings_of before after rs m \<longleftrightarrow>
     length (before_to_after m) = length (ps_nodes before) \<and> length (after_to_before m) = length (ps_nodes after) \<and>
     length (by_before m) = length (ps_nodes before) \<and>
     (\<forall>i r. i < length (ps_nodes before) \<longrightarrow> by_before m ! i = Some r \<longleftrightarrow> r \<in> set rs \<and> before_id r = i) \<and>
     (\<forall>i<length (ps_nodes before). before_to_after m ! i = map_option after_id (by_before m ! i)) \<and>
     (\<forall>i<length (ps_nodes before). \<forall>j<length (ps_nodes after).
        after_to_before m ! j = Some i \<longleftrightarrow> before_to_after m ! i = Some j) \<and>
     (\<forall>j<length (ps_nodes after). \<forall>i. after_to_before m ! j = Some i \<longrightarrow> i < length (ps_nodes before))"

definition relations_verified ::
  "(bytes \<Rightarrow> string) \<Rightarrow> parsed_syntax \<Rightarrow> parsed_syntax \<Rightarrow> relation list \<Rightarrow> verified_mappings \<Rightarrow> bool" where
  "relations_verified to_hex before after rs m \<longleftrightarrow>
     mappings_of before after rs m \<and> sorted_wrt (<) (map before_id rs) \<and>
     (\<forall>r\<in>set rs. relation_verified to_hex before after r)"

lemma of_option_iff: "of_option e x = Inl f \<longleftrightarrow> x = None \<and> f = e" "of_option e x = Inr y \<longleftrightarrow> x = Some y"
  by (cases x; auto)+

lemma valid_predicate_holds:
  assumes "in_arena before (before_id r)" "in_arena after (after_id r)"
  shows "valid (predicate_holds before after r) work_failure (\<lambda>b. b \<longleftrightarrow> predicate_true before after r)"
  using valid_budgeted_node_bytes_equal [OF assms] valid_budgeted_syntax_equal [OF assms]
    valid_budgeted_shape_equal [OF assms]
  by (cases "rel_predicate r") (auto simp: predicate_holds_def predicate_true_def Let_def intro: valid_return)

lemma valid_check_correspondence:
  assumes "in_arena before (before_id r)" "in_arena after (after_id r)"
  shows "valid (check_correspondence before after r k) safe
    (\<lambda>k'. (input_pair before after r \<and> k' = Suc k) \<or>
          ((stable_core_relation r \<or> exact_relation before after r) \<and> \<not> input_pair before after r \<and> k' = k))"
proof (cases "rel_correspondence r")
  case CorrInputPair
  then show ?thesis
    by (auto simp: check_correspondence_def Let_def has_evidence_iff input_pair_def intro!: vc)
next
  case ModelForced
  show ?thesis
  proof (cases "has_evidence r STABLE_CORE_EVIDENCE")
    case True
    with ModelForced show ?thesis
      by (auto simp: check_correspondence_def Let_def has_evidence_iff stable_core_relation_def input_pair_def intro!: vc)
  next
    case False
    with ModelForced show ?thesis
      by (auto simp: check_correspondence_def Let_def has_evidence_iff exact_relation_def input_pair_def of_option_iff
          intro!: vc valid_bind [OF valid_safe [OF valid_exact_predicate [OF assms]]])
  qed
next
  case Suggested
  then show ?thesis by (simp add: check_correspondence_def Let_def valid_fail)
qed

lemma mappings_of_facts:
  assumes "mappings_of before after rs m"
  shows "length (before_to_after m) = length (ps_nodes before)" "length (after_to_before m) = length (ps_nodes after)"
    "length (by_before m) = length (ps_nodes before)"
    "i < length (ps_nodes before) \<Longrightarrow> by_before m ! i = Some r \<longleftrightarrow> r \<in> set rs \<and> before_id r = i"
    "i < length (ps_nodes before) \<Longrightarrow> before_to_after m ! i = map_option after_id (by_before m ! i)"
    "i < length (ps_nodes before) \<Longrightarrow> j < length (ps_nodes after) \<Longrightarrow>
       after_to_before m ! j = Some i \<longleftrightarrow> before_to_after m ! i = Some j"
    "j < length (ps_nodes after) \<Longrightarrow> after_to_before m ! j = Some i \<Longrightarrow> i < length (ps_nodes before)"
  using assms unfolding mappings_of_def by blast+

lemma mappings_of_extend:
  assumes m: "mappings_of before after rs m" and ij: "before_id r < length (ps_nodes before)" "after_id r < length (ps_nodes after)"
    and free: "before_to_after m ! before_id r = None" "after_to_before m ! after_id r = None"
    and fresh: "\<forall>q\<in>set rs. before_id q \<noteq> before_id r"
  shows "mappings_of before after (rs @ [r])
    \<lparr>before_to_after = (before_to_after m)[before_id r := Some (after_id r)],
     after_to_before = (after_to_before m)[after_id r := Some (before_id r)],
     by_before = (by_before m)[before_id r := Some r]\<rparr>" (is "mappings_of _ _ _ ?m")
proof -
  note f = mappings_of_facts [OF m]
  have old: "before_id q \<noteq> before_id r" if "q \<in> set rs" for q using fresh that by blast
  have a: "by_before ?m ! i = Some q \<longleftrightarrow> q \<in> set (rs @ [r]) \<and> before_id q = i" if i: "i < length (ps_nodes before)" for i q
  proof (cases "i = before_id r")
    case True
    then show ?thesis using ij f(3) old [of q] by (simp add: nth_list_update) blast
  next
    case False
    then show ?thesis using f(4) [OF i, of q] by (auto simp: nth_list_update)
  qed
  have b: "before_to_after ?m ! i = map_option after_id (by_before ?m ! i)" if "i < length (ps_nodes before)" for i
    using f(5) [OF that] f(1,3) that by (cases "i = before_id r") (simp_all add: nth_list_update)
  have c: "after_to_before ?m ! j = Some i \<longleftrightarrow> before_to_after ?m ! i = Some j"
    if i: "i < length (ps_nodes before)" and j: "j < length (ps_nodes after)" for i j
  proof -
    have "after_to_before m ! after_id r \<noteq> Some i" "before_to_after m ! before_id r \<noteq> Some j"
      using free by simp_all
    then show ?thesis
      using f(6) [OF i j] f(6) [OF i ij(2)] f(6) [OF ij(1) j] f(1,2) i j
      by (cases "i = before_id r"; cases "j = after_id r") (simp_all add: nth_list_update)
  qed
  have d: "i < length (ps_nodes before)" if "j < length (ps_nodes after)" "after_to_before ?m ! j = Some i" for i j
    using f(7) [OF that(1), of i] that f(2) ij by (cases "j = after_id r") (simp_all add: nth_list_update)
  show ?thesis
    unfolding mappings_of_def
  proof (intro conjI allI impI)
  qed (use a b c d f(1,2,3) in simp_all)
qed

lemma mappings_of_empty: "mappings_of before after [] (no_mappings before after)"
  by (simp add: mappings_of_def no_mappings_def)

definition scan_ok :: "(bytes \<Rightarrow> string) \<Rightarrow> parsed_syntax \<Rightarrow> parsed_syntax \<Rightarrow> relation list \<Rightarrow> relation_scan \<Rightarrow> bool" where
  "scan_ok to_hex before after rs s \<longleftrightarrow>
     relations_verified to_hex before after rs (scan_mappings s) \<and>
     previous_before_id s = (if rs = [] then None else Some (before_id (last rs))) \<and>
     input_pairs s = length (filter (input_pair before after) rs)"

lemma sorted_before_last:
  "sorted_wrt (<) (map before_id rs) \<Longrightarrow> rs \<noteq> [] \<Longrightarrow> before_id (last rs) < k \<Longrightarrow> \<forall>q\<in>set rs. before_id q < k"
proof (induction rs rule: rev_induct)
  case (snoc r rs)
  then show ?case by (auto simp: sorted_wrt_append)
qed simp

lemma valid_verify_relation:
  assumes wf: "wf_syntax before" "wf_syntax after" and ok: "scan_ok to_hex before after rs s"
  shows "valid (verify_relation to_hex before after s r) safe (scan_ok to_hex before after (rs @ [r]))"
proof -
  let ?m = "scan_mappings s"
  have m: "mappings_of before after rs ?m" using ok by (simp add: scan_ok_def relations_verified_def)
  have step: "valid
     (wbind (wlift (index_at (before_to_after ?m) (before_id r))) (\<lambda>b.
      wbind (wlift (index_at (after_to_before ?m) (after_id r))) (\<lambda>a.
      wbind (wensure (b = None \<and> a = None) (RelationFailure NotOneToOne)) (\<lambda>_.
      wbind (predicate_holds before after r) (\<lambda>holds.
      wbind (wensure holds (RelationFailure PredicateFalse)) (\<lambda>_.
      wbind (check_correspondence before after r (input_pairs s)) (\<lambda>pairs.
      wbind (wensure (\<not> (rel_predicate r = PredInputPair \<and> rel_correspondence r \<noteq> CorrInputPair))
               (RelationFailure InputPairReserved)) (\<lambda>_.
      wbind (wlift (set_at (before_to_after ?m) (before_id r) (Some (after_id r)))) (\<lambda>b2a.
      wbind (wlift (set_at (after_to_before ?m) (after_id r) (Some (before_id r)))) (\<lambda>a2b.
      wbind (wlift (set_at (by_before ?m) (before_id r) (Some r))) (\<lambda>recs.
        wreturn \<lparr>scan_mappings = \<lparr>before_to_after = b2a, after_to_before = a2b, by_before = recs\<rparr>,
                 previous_before_id = Some (before_id r), input_pairs = pairs\<rparr>)))))))))))
     safe (scan_ok to_hex before after (rs @ [r]))"
    if refs: "before_id r < length (ps_nodes before)" "rel_before r = as_ref to_hex (ps_nodes before ! before_id r)"
      "after_id r < length (ps_nodes after)" "rel_after r = as_ref to_hex (ps_nodes after ! after_id r)"
      and order: "\<forall>q\<in>set rs. before_id q < before_id r"
  proof -
    have len: "length (before_to_after ?m) = length (ps_nodes before)" "length (after_to_before ?m) = length (ps_nodes after)"
      "length (by_before ?m) = length (ps_nodes before)"
      using m by (auto simp: mappings_of_def)
    have arena: "in_arena before (before_id r)" "in_arena after (after_id r)"
      using wf refs by (auto simp: in_arena_def)
    have fresh: "\<forall>q\<in>set rs. before_id q \<noteq> before_id r" using order by auto
    have finished: "scan_ok to_hex before after (rs @ [r])
        \<lparr>scan_mappings = \<lparr>before_to_after = (before_to_after ?m)[before_id r := Some (after_id r)],
           after_to_before = (after_to_before ?m)[after_id r := Some (before_id r)],
           by_before = (by_before ?m)[before_id r := Some r]\<rparr>,
         previous_before_id = Some (before_id r), input_pairs = pairs\<rparr>"
      if free: "before_to_after ?m ! before_id r = None" "after_to_before ?m ! after_id r = None"
        and pred: "predicate_true before after r"
        and corr: "(input_pair before after r \<and> pairs = Suc (input_pairs s)) \<or>
          ((stable_core_relation r \<or> exact_relation before after r) \<and> \<not> input_pair before after r \<and> pairs = input_pairs s)"
      for pairs
    proof -
      have "relation_verified to_hex before after r"
        using refs pred corr unfolding relation_verified_def by blast
      then show ?thesis
        using ok mappings_of_extend [OF m refs(1,3) free fresh] corr order
        by (auto simp: scan_ok_def relations_verified_def sorted_wrt_append)
    qed
    show ?thesis
    proof (intro valid_lift_bind valid_ensure_bind valid_bind [OF valid_safe [OF valid_predicate_holds [OF arena]]]
        valid_bind [OF valid_check_correspondence [OF arena]])
      fix b a holds pairs b2a a2b recs
      assume "index_at (before_to_after ?m) (before_id r) = Inr b" "index_at (after_to_before ?m) (after_id r) = Inr a"
        "b = None \<and> a = None" "holds = predicate_true before after r" holds
        and corr: "(input_pair before after r \<and> pairs = Suc (input_pairs s)) \<or>
          ((stable_core_relation r \<or> exact_relation before after r) \<and> \<not> input_pair before after r \<and> pairs = input_pairs s)"
        and set: "set_at (before_to_after ?m) (before_id r) (Some (after_id r)) = Inr b2a"
          "set_at (after_to_before ?m) (after_id r) (Some (before_id r)) = Inr a2b"
          "set_at (by_before ?m) (before_id r) (Some r) = Inr recs"
      then have "before_to_after ?m ! before_id r = None" "after_to_before ?m ! after_id r = None"
        "predicate_true before after r"
        using refs(1,3) len by simp_all
      then show "valid (wreturn \<lparr>scan_mappings = \<lparr>before_to_after = b2a, after_to_before = a2b, by_before = recs\<rparr>,
                 previous_before_id = Some (before_id r), input_pairs = pairs\<rparr>) safe (scan_ok to_hex before after (rs @ [r]))"
        using finished [OF _ _ _ corr] set refs(1,3) len by (intro valid_return) simp
    qed (use refs(1,3) len in simp_all)
  qed
  show ?thesis
    unfolding verify_relation_def Let_def
  proof (rule valid_charge_bind, simp, rule valid_lift_bind, erule verify_node_ref_failure, rule valid_lift_bind,
      erule verify_node_ref_failure, rule valid_ensure_bind, simp)
    fix b a
    assume refs: "verify_node_ref to_hex before (rel_before r) = Inr b" "verify_node_ref to_hex after (rel_after r) = Inr a"
      and first: "\<not> (case previous_before_id s of None \<Rightarrow> False | Some p \<Rightarrow> before_id r \<le> p)"
    moreover have "\<forall>q\<in>set rs. before_id q < before_id r"
    proof (cases "rs = []")
      case False
      then have "before_id (last rs) < before_id r" using first ok by (simp add: scan_ok_def)
      then show ?thesis
        using sorted_before_last [OF _ False] ok unfolding scan_ok_def relations_verified_def by blast
    qed simp
    moreover have "before_id r < length (ps_nodes before)" "rel_before r = as_ref to_hex (ps_nodes before ! before_id r)"
      "after_id r < length (ps_nodes after)" "rel_after r = as_ref to_hex (ps_nodes after ! after_id r)"
      using refs unfolding verify_node_ref_Inr by blast+
    ultimately show "valid
     (wbind (wlift (index_at (before_to_after ?m) (before_id r))) (\<lambda>b.
      wbind (wlift (index_at (after_to_before ?m) (after_id r))) (\<lambda>a.
      wbind (wensure (b = None \<and> a = None) (RelationFailure NotOneToOne)) (\<lambda>_.
      wbind (predicate_holds before after r) (\<lambda>holds.
      wbind (wensure holds (RelationFailure PredicateFalse)) (\<lambda>_.
      wbind (check_correspondence before after r (input_pairs s)) (\<lambda>pairs.
      wbind (wensure (\<not> (rel_predicate r = PredInputPair \<and> rel_correspondence r \<noteq> CorrInputPair))
               (RelationFailure InputPairReserved)) (\<lambda>_.
      wbind (wlift (set_at (before_to_after ?m) (before_id r) (Some (after_id r)))) (\<lambda>b2a.
      wbind (wlift (set_at (after_to_before ?m) (after_id r) (Some (before_id r)))) (\<lambda>a2b.
      wbind (wlift (set_at (by_before ?m) (before_id r) (Some r))) (\<lambda>recs.
        wreturn \<lparr>scan_mappings = \<lparr>before_to_after = b2a, after_to_before = a2b, by_before = recs\<rparr>,
                 previous_before_id = Some (before_id r), input_pairs = pairs\<rparr>)))))))))))
     safe (scan_ok to_hex before after (rs @ [r]))"
      by (intro step)
  qed
qed

definition verified ::
  "(bytes \<Rightarrow> string) \<Rightarrow> parsed_syntax \<Rightarrow> parsed_syntax \<Rightarrow> relation list \<Rightarrow> verified_mappings \<Rightarrow> bool" where
  "verified to_hex before after rs m \<longleftrightarrow>
     relations_verified to_hex before after rs m \<and> length (filter (input_pair before after) rs) = 1 \<and>
     before_to_after m ! ps_root before = Some (ps_root after)"

lemma valid_verify_relations:
  assumes wf: "wf_syntax before" "wf_syntax after"
  shows "valid (verify_relations to_hex report before after) safe (verified to_hex before after (relations report))"
proof -
  let ?s0 = "\<lparr>scan_mappings = no_mappings before after, previous_before_id = None, input_pairs = 0\<rparr>"
  have "valid (wfold (verify_relation to_hex before after) ?s0 (relations report)) safe
      (scan_ok to_hex before after (relations report))"
  proof (rule valid_fold_prefix)
    show "scan_ok to_hex before after [] ?s0"
      by (simp add: scan_ok_def relations_verified_def mappings_of_empty)
  qed (rule valid_verify_relation [OF wf])
  then show ?thesis
    unfolding verify_relations_def
  proof (rule valid_bind)
    fix s assume s: "scan_ok to_hex before after (relations report) s"
    then have len: "length (before_to_after (scan_mappings s)) = length (ps_nodes before)"
      "length (after_to_before (scan_mappings s)) = length (ps_nodes after)"
      by (auto simp: scan_ok_def relations_verified_def mappings_of_def)
    show "valid (let m = scan_mappings s in
     wbind (wlift (rbind (index_at (before_to_after m) (ps_root before)) (\<lambda>b.
                   rbind (index_at (after_to_before m) (ps_root after)) (\<lambda>a.
                     Inr (\<not> (input_pairs s \<noteq> 1 \<or> b \<noteq> Some (ps_root after) \<or> a \<noteq> Some (ps_root before))))))) (\<lambda>ok.
     wbind (wensure ok (RelationFailure NoSingleInputPair)) (\<lambda>_. wreturn m))) safe
       (verified to_hex before after (relations report))"
      using s len wf_root [OF wf(1)] wf_root [OF wf(2)]
      by (auto simp: Let_def verified_def scan_ok_def intro!: vc)
  qed
qed

text \<open>The facts the later checks use.\<close>

lemma verified_facts:
  assumes "verified to_hex before after rs m"
  shows "length (before_to_after m) = length (ps_nodes before)" "length (after_to_before m) = length (ps_nodes after)"
    "length (by_before m) = length (ps_nodes before)"
    "\<And>i r. i < length (ps_nodes before) \<Longrightarrow> by_before m ! i = Some r \<longleftrightarrow> r \<in> set rs \<and> before_id r = i"
    "\<And>i. i < length (ps_nodes before) \<Longrightarrow> before_to_after m ! i = map_option after_id (by_before m ! i)"
    "\<And>i j. i < length (ps_nodes before) \<Longrightarrow> j < length (ps_nodes after) \<Longrightarrow>
       after_to_before m ! j = Some i \<longleftrightarrow> before_to_after m ! i = Some j"
    "\<And>i j. j < length (ps_nodes after) \<Longrightarrow> after_to_before m ! j = Some i \<Longrightarrow> i < length (ps_nodes before)"
    "\<And>r. r \<in> set rs \<Longrightarrow> relation_verified to_hex before after r"
  using assms by (auto simp: verified_def relations_verified_def mappings_of_def)

lemma verified_mapped:
  assumes "verified to_hex before after rs m" "before_to_after m ! i = Some j" "i < length (ps_nodes before)"
  obtains r where "r \<in> set rs" "before_id r = i" "after_id r = j" "by_before m ! i = Some r" "j < length (ps_nodes after)"
proof (cases "by_before m ! i")
  case None
  then show ?thesis using verified_facts(5) [OF assms(1,3)] assms(2) by simp
next
  case (Some r)
  then have r: "r \<in> set rs" "before_id r = i" "after_id r = j"
    using verified_facts(4) [OF assms(1,3), of r] verified_facts(5) [OF assms(1,3)] assms(2) by simp_all
  moreover have "j < length (ps_nodes after)"
    using verified_facts(8) [OF assms(1) r(1)] r(3) by (simp add: relation_verified_def)
  ultimately show ?thesis using Some by (intro that)
qed

lemma verified_relation_mapped:
  assumes "verified to_hex before after rs m" "r \<in> set rs"
  shows "before_id r < length (ps_nodes before)" "after_id r < length (ps_nodes after)"
    "by_before m ! before_id r = Some r" "before_to_after m ! before_id r = Some (after_id r)"
    "after_to_before m ! after_id r = Some (before_id r)"
proof -
  show a: "before_id r < length (ps_nodes before)" "after_id r < length (ps_nodes after)"
    using verified_facts(8) [OF assms] by (simp_all add: relation_verified_def)
  show b: "by_before m ! before_id r = Some r" using verified_facts(4) [OF assms(1) a(1), of r] assms(2) by simp
  show c: "before_to_after m ! before_id r = Some (after_id r)" using verified_facts(5) [OF assms(1) a(1)] b by simp
  show "after_to_before m ! after_id r = Some (before_id r)" using verified_facts(6) [OF assms(1) a] c by simp
qed

lemma verified_records:
  assumes "verified to_hex before after rs m"
  shows "r \<in> set (relation_records m) \<longleftrightarrow> r \<in> set rs"
proof
  assume "r \<in> set (relation_records m)"
  then have "Some r \<in> set (by_before m)" by (simp add: relation_records_iff)
  then obtain i where i: "i < length (by_before m)" "by_before m ! i = Some r"
    by (metis in_set_conv_nth)
  then have "i < length (ps_nodes before)" using verified_facts(3) [OF assms] by simp
  from verified_facts(4) [OF assms this, of r] i(2) show "r \<in> set rs" by simp
next
  assume r: "r \<in> set rs"
  have "before_id r < length (by_before m)"
    using verified_relation_mapped(1) [OF assms r] verified_facts(3) [OF assms] by simp
  from nth_mem [OF this] show "r \<in> set (relation_records m)"
    unfolding relation_records_iff verified_relation_mapped(3) [OF assms r] .
qed

lemma verified_pairs:
  assumes "verified to_hex before after rs m"
  shows "(i, j) \<in> set (mapped_pairs m) \<longleftrightarrow> (\<exists>r\<in>set rs. before_id r = i \<and> after_id r = j)"
proof
  assume "(i, j) \<in> set (mapped_pairs m)"
  then have "before_to_after m ! i = Some j" "i < length (ps_nodes before)"
    using verified_facts(1) [OF assms] by (simp_all add: mapped_pairs_iff)
  from verified_mapped [OF assms this] show "\<exists>r\<in>set rs. before_id r = i \<and> after_id r = j" by blast
next
  assume "\<exists>r\<in>set rs. before_id r = i \<and> after_id r = j"
  then obtain r where r: "r \<in> set rs" "before_id r = i" "after_id r = j" by blast
  from verified_relation_mapped(1,4) [OF assms r(1)] verified_facts(1) [OF assms] r(2,3)
  show "(i, j) \<in> set (mapped_pairs m)" by (simp add: mapped_pairs_iff)
qed

section \<open>The global index\<close>

definition global_bucket :: "parsed_syntax \<Rightarrow> string \<times> bytes \<Rightarrow> nat list" where
  "global_bucket s key = filter (\<lambda>i. i \<noteq> ps_root s \<and> node_subtree_size (ps_nodes s ! i) \<ge> 3 \<and>
     global_key (ps_nodes s ! i) = key) [0..<length (ps_nodes s)]"

definition indexes :: "parsed_syntax \<Rightarrow> exact_buckets \<Rightarrow> bool" where
  "indexes s bs \<longleftrightarrow> distinct (map fst bs) \<and>
     (\<forall>k ids. (k, ids) \<in> set bs \<longleftrightarrow> ids = global_bucket s k \<and> ids \<noteq> [])"

lemma assoc_push_keys: "fst ` set (assoc_push k i bs) = insert k (fst ` set bs)"
  by (induction k i bs rule: assoc_push.induct) auto

lemma assoc_push_distinct: "distinct (map fst bs) \<Longrightarrow> distinct (map fst (assoc_push k i bs))"
  by (induction k i bs rule: assoc_push.induct) (auto simp: assoc_push_keys)

lemma assoc_push_entries:
  "distinct (map fst bs) \<Longrightarrow>
   (l, js) \<in> set (assoc_push k i bs) \<longleftrightarrow>
     (if l = k then (\<exists>ids. (k, ids) \<in> set bs \<and> js = ids @ [i]) \<or> k \<notin> fst ` set bs \<and> js = [i]
      else (l, js) \<in> set bs)"
proof (induction k i bs rule: assoc_push.induct)
  case (2 k i a ids bs)
  then show ?case by force
qed auto

lemma assoc_push_buckets:
  assumes d: "distinct (map fst bs)" and bs: "\<And>l js. (l, js) \<in> set bs \<longleftrightarrow> js = p l \<and> js \<noteq> []"
  shows "(l, js) \<in> set (assoc_push k i bs) \<longleftrightarrow> js = (if l = k then p l @ [i] else p l) \<and> js \<noteq> []"
proof (cases "l = k")
  case True
  show ?thesis
  proof (cases "p k = []")
    case empty: True
    then have "(k, ids) \<notin> set bs" for ids using bs [of k ids] by simp
    then have "k \<notin> fst ` set bs" by force
    then show ?thesis
      unfolding assoc_push_entries [OF d] using True empty \<open>\<And>ids. (k, ids) \<notin> set bs\<close> by auto
  next
    case False
    then have "(k, p k) \<in> set bs" using bs [of k "p k"] by simp
    then have "k \<in> fst ` set bs" by force
    then show ?thesis
      unfolding assoc_push_entries [OF d] using True False bs [of k] by auto
  qed
next
  case False
  then show ?thesis unfolding assoc_push_entries [OF d] using bs [of l js] by simp
qed

lemma valid_exact_subtree_buckets:
  assumes wf: "wf_syntax s"
  shows "valid (exact_subtree_buckets s) work_failure (indexes s)"
proof -
  define part where "part n key = filter (\<lambda>i. i \<noteq> ps_root s \<and> node_subtree_size (ps_nodes s ! i) \<ge> 3 \<and>
     global_key (ps_nodes s ! i) = key) [0..<n]" for n key
  define I where "I ys bs \<longleftrightarrow> distinct (map fst bs) \<and>
     (\<forall>k ids. (k, ids) \<in> set bs \<longleftrightarrow> ids = part (length ys) k \<and> ids \<noteq> [])" for ys :: "syntax_node list" and bs
  have "valid (exact_subtree_buckets s) work_failure (I (ps_nodes s))"
    unfolding exact_subtree_buckets_def
  proof (rule valid_fold_prefix)
    show "I [] []" by (simp add: I_def part_def)
  next
    fix ys n zs bs
    assume split: "ps_nodes s = ys @ n # zs" and I: "I ys bs"
    have nth: "ps_nodes s ! length ys = n" and len: "length ys < length (ps_nodes s)" using split by simp_all
    then have id: "node_id n = length ys" using wf_node_id [OF wf len] by simp
    have d: "distinct (map fst bs)" and bs: "\<And>l js. (l, js) \<in> set bs \<longleftrightarrow> js = part (length ys) l \<and> js \<noteq> []"
      using I unfolding I_def by blast+
    have "I (ys @ [n]) (if node_id n \<noteq> ps_root s \<and> node_subtree_size n \<ge> 3
        then assoc_push (global_key n) (node_id n) bs else bs)"
    proof (cases "node_id n \<noteq> ps_root s \<and> node_subtree_size n \<ge> 3")
      case True
      have "part (length (ys @ [n])) l = (if l = global_key n then part (length ys) l @ [node_id n] else part (length ys) l)" for l
        using True nth id by (auto simp: part_def)
      then show ?thesis
        using True assoc_push_distinct [OF d] assoc_push_buckets [OF d bs, of _ _ "global_key n" "node_id n"]
        unfolding I_def by presburger
    next
      case False
      then have "part (length (ys @ [n])) l = part (length ys) l" for l using nth id by (auto simp: part_def)
      then show ?thesis using False d bs unfolding I_def by presburger
    qed
    then show "valid (wbind (charge 1) (\<lambda>_. wreturn
       (if node_id n \<noteq> ps_root s \<and> node_subtree_size n \<ge> 3
        then assoc_push (global_key n) (node_id n) bs else bs))) work_failure (I (ys @ [n]))"
      by (intro valid_charge_bind valid_return) simp_all
  qed
  then show ?thesis
    by (rule valid_conseq) (simp_all add: I_def indexes_def global_bucket_def part_def)
qed

lemma indexes_entry: "indexes s bs \<Longrightarrow> (k, ids) \<in> set bs \<longleftrightarrow> ids = global_bucket s k \<and> ids \<noteq> []"
  unfolding indexes_def by blast

lemma indexes_map_of:
  assumes "indexes s bs"
  shows "map_of bs k = (if global_bucket s k = [] then None else Some (global_bucket s k))"
proof (cases "global_bucket s k = []")
  case True
  then have "(k, ids) \<notin> set bs" for ids using indexes_entry [OF assms, of k ids] by blast
  then have "map_of bs k = None" by (meson map_of_SomeD not_Some_eq)
  then show ?thesis using True by simp
next
  case False
  then have "(k, global_bucket s k) \<in> set bs" using indexes_entry [OF assms] by blast
  moreover have "distinct (map fst bs)" using assms unfolding indexes_def by blast
  ultimately show ?thesis using False by simp
qed

definition index_ok :: "parsed_syntax \<Rightarrow> parsed_syntax \<Rightarrow> global_exact_index \<Rightarrow> bool" where
  "index_ok before after index \<longleftrightarrow> indexes before (index_before index) \<and> indexes after (index_after index)"

lemma valid_global_exact_index:
  assumes "wf_syntax before" "wf_syntax after"
  shows "valid (global_exact_index before after) work_failure (index_ok before after)"
  unfolding global_exact_index_def
  by (rule valid_bind [OF valid_exact_subtree_buckets [OF assms(1)]],
      rule valid_bind [OF valid_exact_subtree_buckets [OF assms(2)]])
    (simp add: index_ok_def valid_return)

lemma global_bucket_self:
  assumes "i < length (ps_nodes s)" "i \<noteq> ps_root s" "3 \<le> node_subtree_size (ps_nodes s ! i)"
  shows "i \<in> set (global_bucket s (global_key (ps_nodes s ! i)))"
  using assms by (simp add: global_bucket_def)

text \<open>A global anchor is the only node with its kind and syntax digest on either side.\<close>

definition globally_unique :: "parsed_syntax \<Rightarrow> parsed_syntax \<Rightarrow> nat \<Rightarrow> nat \<Rightarrow> bool" where
  "globally_unique before after i j \<longleftrightarrow>
     global_bucket before (global_key (ps_nodes before ! i)) = [i] \<and>
     global_bucket after (global_key (ps_nodes after ! j)) = [j]"

lemma single_member: "length xs = 1 \<Longrightarrow> x \<in> set xs \<Longrightarrow> xs = [x]"
  by (cases xs) auto

lemma global_anchor_lookup:
  assumes "indexes s bs" "i \<in> set (global_bucket s k)"
  shows "map_of bs k = Some (global_bucket s k)"
  using indexes_map_of [OF assms(1), of k] assms(2) by (cases "global_bucket s k") simp_all

lemma verify_global_anchor_spec:
  assumes wf: "wf_syntax before" "wf_syntax after" and ok: "index_ok before after index"
    and r: "before_id r < length (ps_nodes before)" "after_id r < length (ps_nodes after)"
  shows "valid (wlift (verify_global_anchor before after r index)) safe
    (\<lambda>_. globally_unique before after (before_id r) (after_id r))"
proof -
  let ?b = "ps_nodes before ! before_id r" and ?a = "ps_nodes after ! after_id r"
  have ids: "node_id ?b = before_id r" "node_id ?a = after_id r"
    using wf_node_id [OF wf(1) r(1)] wf_node_id [OF wf(2) r(2)] by auto
  note unfold = verify_global_anchor_def index_at_ok [OF r(1)] index_at_ok [OF r(2)] rbind_simps ids
  show ?thesis
  proof (cases "before_id r = ps_root before \<or> after_id r = ps_root after \<or>
      node_subtree_size ?b < 3 \<or> node_subtree_size ?a < 3")
    case True
    then have "verify_global_anchor before after r index = Inl (AnchorFailure MinimumSubtreeRule)"
      unfolding unfold rensure_def by simp
    then show ?thesis by (simp add: valid_fail)
  next
    case False
    then have mem: "before_id r \<in> set (global_bucket before (global_key ?b))"
      "after_id r \<in> set (global_bucket after (global_key ?a))"
      using r by (auto intro: global_bucket_self simp: not_less)
    have found: "map_of (index_before index) (global_key ?b) = Some (global_bucket before (global_key ?b))"
      "map_of (index_after index) (global_key ?a) = Some (global_bucket after (global_key ?a))"
      using ok mem global_anchor_lookup unfolding index_ok_def by blast+
    have "verify_global_anchor before after r index =
        rensure (\<not> (length (global_bucket before (global_key ?b)) \<noteq> 1 \<or>
          length (global_bucket after (global_key ?a)) \<noteq> 1)) (AnchorFailure NotGloballyUnique)"
      unfolding unfold found using False by (simp add: rensure_def)
    then show ?thesis
      using single_member [OF _ mem(1)] single_member [OF _ mem(2)]
      by (auto simp: rensure_def globally_unique_def intro!: valid_return valid_fail)
  qed
qed

end
