(* ===== verification/Relations_Exact.thy ===== *)
theory Relations_Exact
  imports Relations
begin

text \<open>
  The other direction of \<open>Relations\<close>: a relation list that satisfies the specification is never rejected, so
  \<open>verify_relations\<close> decides it, up to the work budget.
\<close>

lemma strongest_not_input: "strongest_predicate before i after j \<noteq> Some PredInputPair"
  by (simp add: strongest_predicate_def)

lemma accepts_correspondence:
  assumes "in_arena before (before_id r)" "in_arena after (after_id r)"
    and "input_pair before after r \<or> stable_core_relation r \<or> exact_relation before after r"
  shows "valid (check_correspondence before after r k) work_failure (\<lambda>_. True)"
proof -
  have evidence: "STABLE_CORE_EVIDENCE \<noteq> GLOBAL_ANCHOR_EVIDENCE" "STABLE_CORE_EVIDENCE \<noteq> LOCAL_ANCHOR_EVIDENCE"
    "STABLE_CORE_EVIDENCE \<noteq> EXACT_DESCENDANT_EVIDENCE"
    by (simp_all add: STABLE_CORE_EVIDENCE_def GLOBAL_ANCHOR_EVIDENCE_def LOCAL_ANCHOR_EVIDENCE_def EXACT_DESCENDANT_EVIDENCE_def)
  from assms(3) consider "input_pair before after r" | "stable_core_relation r" | "exact_relation before after r" by blast
  then show ?thesis
  proof cases
    case 1
    then show ?thesis
      by (auto simp: check_correspondence_def Let_def input_pair_def has_evidence_iff intro!: vc)
  next
    case 2
    then show ?thesis
      by (auto simp: check_correspondence_def Let_def stable_core_relation_def has_evidence_iff intro!: vc)
  next
    case 3
    then have "rel_correspondence r = ModelForced" "\<not> has_evidence r STABLE_CORE_EVIDENCE"
      using evidence by (auto simp: exact_relation_def has_evidence_iff)
    with 3 show ?thesis
      by (auto simp: check_correspondence_def Let_def exact_relation_def has_evidence_iff of_option_iff
          intro!: vc valid_bind [OF valid_exact_predicate [OF assms(1,2)]])
  qed
qed

lemma not_reserved:
  assumes "input_pair before after r \<or> stable_core_relation r \<or> exact_relation before after r"
  shows "\<not> (rel_predicate r = PredInputPair \<and> rel_correspondence r \<noteq> CorrInputPair)"
  using assms strongest_not_input
  by (auto simp: input_pair_def stable_core_relation_def exact_relation_def)

text \<open>The mapping cells a new relation of a one-to-one list writes are still empty.\<close>

lemma cells_free:
  assumes m: "mappings_of before after rs m" and all: "mappings_of before after qs m'"
    and sub: "set rs \<subseteq> set qs" and r: "r \<in> set qs" and fresh: "\<forall>q\<in>set rs. before_id q < before_id r"
    and ids: "before_id r < length (ps_nodes before)" "after_id r < length (ps_nodes after)"
    and ranges: "\<forall>q\<in>set qs. before_id q < length (ps_nodes before)"
  shows "before_to_after m ! before_id r = None" "after_to_before m ! after_id r = None"
proof -
  show "before_to_after m ! before_id r = None"
  proof (cases "by_before m ! before_id r")
    case None
    then show ?thesis using mappings_of_facts(5) [OF m ids(1)] by simp
  next
    case (Some q)
    then have "q \<in> set rs" "before_id q = before_id r" using mappings_of_facts(4) [OF m ids(1), of q] by simp_all
    then show ?thesis using fresh by fastforce
  qed
  show "after_to_before m ! after_id r = None"
  proof (cases "after_to_before m ! after_id r")
    case (Some i)
    then have i: "i < length (ps_nodes before)" by (rule mappings_of_facts(7) [OF m ids(2)])
    then have "before_to_after m ! i = Some (after_id r)" using mappings_of_facts(6) [OF m i ids(2)] Some by simp
    then obtain q where q: "by_before m ! i = Some q" "after_id q = after_id r"
      using mappings_of_facts(5) [OF m i] by auto
    then have qs: "q \<in> set rs" "before_id q = i" using mappings_of_facts(4) [OF m i, of q] by simp_all
    have mapped: "before_to_after m' ! before_id x = Some (after_id x)" if "x \<in> set qs" for x
    proof -
      have x: "before_id x < length (ps_nodes before)" using ranges that by blast
      then have "by_before m' ! before_id x = Some x" using mappings_of_facts(4) [OF all x, of x] that by simp
      then show ?thesis using mappings_of_facts(5) [OF all x] by simp
    qed
    have "before_to_after m' ! i = Some (after_id r)" "before_to_after m' ! before_id r = Some (after_id r)"
      using mapped [of q] mapped [OF r] qs q(2) sub by auto
    then have "after_to_before m' ! after_id r = Some i" "after_to_before m' ! after_id r = Some (before_id r)"
      using mappings_of_facts(6) [OF all i ids(2)] mappings_of_facts(6) [OF all ids] by simp_all
    then have "i = before_id r" by simp
    then show ?thesis using fresh qs by fastforce
  qed
qed

lemma accepts_relation:
  assumes wf: "wf_syntax before" "wf_syntax after" and ok: "scan_ok to_hex before after rs s"
    and all: "relations_verified to_hex before after qs m'" and qs: "qs = rs @ r # zs"
  shows "valid (verify_relation to_hex before after s r) work_failure (\<lambda>_. True)"
proof -
  let ?m = "scan_mappings s"
  have m: "mappings_of before after rs ?m" using ok by (simp add: scan_ok_def relations_verified_def)
  have r: "relation_verified to_hex before after r" and rng: "\<forall>q\<in>set qs. before_id q < length (ps_nodes before)"
    using all qs unfolding relations_verified_def relation_verified_def by auto
  have ids: "before_id r < length (ps_nodes before)" "after_id r < length (ps_nodes after)"
    and cls: "input_pair before after r \<or> stable_core_relation r \<or> exact_relation before after r"
    and true: "predicate_true before after r"
    using r unfolding relation_verified_def by blast+
  have refs: "verify_node_ref to_hex before (rel_before r) = Inr (ps_nodes before ! before_id r)"
    "verify_node_ref to_hex after (rel_after r) = Inr (ps_nodes after ! after_id r)"
    using r unfolding relation_verified_def verify_node_ref_Inr by blast+
  have fresh: "\<forall>q\<in>set rs. before_id q < before_id r"
    using all qs unfolding relations_verified_def by (auto simp: sorted_wrt_append)
  have all': "mappings_of before after qs m'" using all by (simp add: relations_verified_def)
  note free = cells_free [OF m all' _ _ fresh ids rng]
  have free: "before_to_after ?m ! before_id r = None" "after_to_before ?m ! after_id r = None"
    using free by (auto simp: qs)
  have len: "length (before_to_after ?m) = length (ps_nodes before)" "length (after_to_before ?m) = length (ps_nodes after)"
    "length (by_before ?m) = length (ps_nodes before)"
    using mappings_of_facts(1-3) [OF m] by simp_all
  have arena: "in_arena before (before_id r)" "in_arena after (after_id r)" using wf ids by (simp_all add: in_arena_def)
  have order: "\<not> (case previous_before_id s of None \<Rightarrow> False | Some p \<Rightarrow> before_id r \<le> p)"
    using ok fresh by (cases "rs = []") (auto simp: scan_ok_def not_le)
  show ?thesis
    unfolding verify_relation_def Let_def refs wlift_simps wbind_wreturn
    apply (rule valid_charge_bind, simp)
    apply (rule valid_ensure_bind)
    subgoal using order by blast
    apply (rule valid_lift_bind)
    subgoal using len ids by simp
    apply (rule valid_lift_bind)
    subgoal using len ids by simp
    apply (rule valid_ensure_bind)
    subgoal using len ids free by simp
    apply (rule valid_bind [OF valid_predicate_holds [OF arena]])
    apply (rule valid_ensure_bind)
    subgoal using true by simp
    apply (rule valid_bind [OF accepts_correspondence [OF arena cls]])
    apply (rule valid_ensure_bind)
    subgoal using not_reserved [OF cls] by blast
    using len ids by (auto intro!: vc)
qed

lemma valid_verify_relations_exact:
  assumes wf: "wf_syntax before" "wf_syntax after"
  shows "valid (verify_relations to_hex report before after)
    (\<lambda>e. safe e \<and> (work_failure e \<or> \<not> (\<exists>m. verified to_hex before after (relations report) m)))
    (verified to_hex before after (relations report))"
proof (cases "\<exists>m. verified to_hex before after (relations report) m")
  case False
  then show ?thesis by (auto intro: valid_conseq [OF valid_verify_relations [OF wf]])
next
  case True
  then obtain m' where m': "verified to_hex before after (relations report) m'" by blast
  then have all: "relations_verified to_hex before after (relations report) m'"
    and one: "length (filter (input_pair before after) (relations report)) = 1" by (simp_all add: verified_def)
  let ?s0 = "\<lparr>scan_mappings = no_mappings before after, previous_before_id = None, input_pairs = 0\<rparr>"
  have scan: "valid (wfold (verify_relation to_hex before after) ?s0 (relations report)) work_failure
      (scan_ok to_hex before after (relations report))"
  proof (rule valid_fold_prefix)
    show "scan_ok to_hex before after [] ?s0"
      by (simp add: scan_ok_def relations_verified_def mappings_of_empty)
    fix ys r zs s assume split: "relations report = ys @ r # zs" and s: "scan_ok to_hex before after ys s"
    from valid_conj [OF accepts_relation [OF wf s all split] valid_verify_relation [OF wf s, of r]]
    show "valid (verify_relation to_hex before after s r) work_failure (scan_ok to_hex before after (ys @ [r]))"
      by (rule valid_conseq) simp_all
  qed
  have root: "before_to_after m ! ps_root before = Some (ps_root after)"
    if m: "mappings_of before after (relations report) m" for m
  proof -
    have "ps_root before < length (ps_nodes before)" using wf_root [OF wf(1)] by simp
    then have "by_before m ! ps_root before = by_before m' ! ps_root before"
      using mappings_of_facts(4) [OF m] mappings_of_facts(4) [of before after "relations report" m'] all
      unfolding relations_verified_def by (metis not_None_eq)
    then show ?thesis
      using m' mappings_of_facts(5) [OF m] mappings_of_facts(5) [of before after "relations report" m'] all
        \<open>ps_root before < length (ps_nodes before)\<close>
      unfolding relations_verified_def by (simp add: verified_def)
  qed
  have work: "valid (verify_relations to_hex report before after) work_failure (\<lambda>_. True)"
    unfolding verify_relations_def
  proof (rule valid_bind [OF scan])
    fix s assume s: "scan_ok to_hex before after (relations report) s"
    then have m: "mappings_of before after (relations report) (scan_mappings s)" and pairs: "input_pairs s = 1"
      using one by (simp_all add: scan_ok_def relations_verified_def)
    note len = mappings_of_facts(1,2) [OF m]
    have ranges: "ps_root before < length (ps_nodes before)" "ps_root after < length (ps_nodes after)"
      using wf_root [OF wf(1)] wf_root [OF wf(2)] by simp_all
    have "after_to_before (scan_mappings s) ! ps_root after = Some (ps_root before)"
      using mappings_of_facts(6) [OF m ranges] root [OF m] by simp
    then show "valid (let m = scan_mappings s in
     wbind (wlift (rbind (index_at (before_to_after m) (ps_root before)) (\<lambda>b.
                   rbind (index_at (after_to_before m) (ps_root after)) (\<lambda>a.
                     Inr (\<not> (input_pairs s \<noteq> 1 \<or> b \<noteq> Some (ps_root after) \<or> a \<noteq> Some (ps_root before))))))) (\<lambda>ok.
     wbind (wensure ok (RelationFailure NoSingleInputPair)) (\<lambda>_. wreturn m))) work_failure (\<lambda>_. True)"
      using pairs root [OF m] len ranges by (auto simp: Let_def intro!: vc)
  qed
  from valid_conj [OF work valid_verify_relations [OF wf]] show ?thesis
    by (rule valid_conseq) auto
qed

section \<open>Properties\<close>

text \<open>C5: \<open>verify_relations\<close> decides the relation list. From every work budget it ends with mappings that satisfy
  \<open>verified\<close> (endpoints equal to the fresh parse, strictly increasing before ids, one-to-one, every predicate true of
  the two nodes, every relation a supplied root pair, a stable-core pair or an exact pair with its strongest
  predicate, exactly one root pair), or it fails; and when it fails for any reason but the budget, no mappings
  satisfy \<open>verified\<close>. It never panics.\<close>

theorem relations_exact:
  assumes "wf_syntax before" "wf_syntax after"
  shows "valid (verify_relations to_hex report before after)
    (\<lambda>e. \<not> crash e \<and> (work_failure e \<or> \<not> (\<exists>m. verified to_hex before after (relations report) m)))
    (verified to_hex before after (relations report))"
  using assms by (rule valid_verify_relations_exact)

end
