(* ===== verification/Anchors.thy ===== *)
theory Anchors
  imports Relations
begin

text \<open>
  What the anchor checks of \<open>Relations\<close> establish: a certified descendant lies on an isomorphic
  path below a certified anchor, an exact anchor is unique in its bucket, and every unique exact
  pair is reported (\<open>verify_exact_anchor_evidence\<close>, \<open>verify_global_anchor_completeness\<close>,
  \<open>verify_local_exact_relations\<close>). None of the checks panics, and the recursion over exact subtrees
  never runs out of fuel, because children have larger ids than their parents.
\<close>

section \<open>Exact subtrees\<close>

text \<open>Two nodes reached from \<open>(i, j)\<close> by the same child positions on both sides.\<close>

inductive isomorphic_path :: "parsed_syntax \<Rightarrow> parsed_syntax \<Rightarrow> nat \<Rightarrow> nat \<Rightarrow> nat \<Rightarrow> nat \<Rightarrow> bool"
  for before after where
  child: "(c, d) \<in> set (zip (node_children (ps_nodes before ! i)) (node_children (ps_nodes after ! j))) \<Longrightarrow>
    isomorphic_path before after i j c d"
| descend: "(c, d) \<in> set (zip (node_children (ps_nodes before ! i)) (node_children (ps_nodes after ! j))) \<Longrightarrow>
    isomorphic_path before after c d x y \<Longrightarrow> isomorphic_path before after i j x y"

lemma zip_members: "(c, d) \<in> set (zip xs ys) \<Longrightarrow> c \<in> set xs \<and> d \<in> set ys"
  by (auto dest: set_zip_leftD set_zip_rightD)

definition map_within :: "(nat \<Rightarrow> nat \<Rightarrow> bool) \<Rightarrow> (nat \<rightharpoonup> nat) \<Rightarrow> bool" where
  "map_within P certified \<longleftrightarrow> (\<forall>x y. certified x = Some y \<longrightarrow> P x y)"

lemma map_within_update: "map_within P c \<Longrightarrow> P x y \<Longrightarrow> map_within P (c(x \<mapsto> y))"
  by (simp add: map_within_def)

lemma map_within_empty: "map_within P Map.empty"
  by (simp add: map_within_def)

lemma valid_certify_fuel:
  assumes wf: "wf_syntax before" "wf_syntax after" and m: "verified to_hex before after rs m"
  shows "i < length (ps_nodes before) \<Longrightarrow> j < length (ps_nodes after) \<Longrightarrow> length (ps_nodes before) < fuel + i \<Longrightarrow>
    (\<And>x y. isomorphic_path before after i j x y \<Longrightarrow> P x y) \<Longrightarrow> map_within P c \<Longrightarrow>
    valid (certify_exact_subtree_fuel fuel before after m i j c) safe (map_within P)"
proof (induction fuel arbitrary: i j c)
  case (Suc fuel)
  show ?case
    unfolding certify_exact_subtree_fuel.simps
  proof (rule valid_charge_bind, simp, rule valid_lift_bind, simp add: Suc.prems, rule valid_lift_bind, simp add: Suc.prems,
      rule valid_ensure_bind, simp, rule valid_fold [where I = "map_within P"], rule Suc.prems)
    fix b a p s
    assume b: "index_at (ps_nodes before) i = Inr b" and a: "index_at (ps_nodes after) j = Inr a"
      and p: "p \<in> set (zip (node_children b) (node_children a))" and s: "map_within P s"
    obtain x y where xy: "p = (x, y)" by (cases p)
    have mem: "(x, y) \<in> set (zip (node_children (ps_nodes before ! i)) (node_children (ps_nodes after ! j)))"
      using b a p Suc.prems(1,2) unfolding xy by simp
    have x: "i < x" "x < length (ps_nodes before)" and y: "y < length (ps_nodes after)"
      using wf_child(1,2) [OF wf(1) Suc.prems(1)] wf_child(2) [OF wf(2) Suc.prems(2)] zip_members [OF mem] by blast+
    have P: "P x y" using Suc.prems(4) child [OF mem] .
    have "valid (certify_exact_subtree_fuel fuel before after m x y (s(x \<mapsto> y))) safe (map_within P)"
    proof (rule Suc.IH [OF x(2) y])
      show "length (ps_nodes before) < fuel + x" using Suc.prems(3) x(1) by simp
      show "P u v" if "isomorphic_path before after x y u v" for u v
        using Suc.prems(4) descend [OF mem that] .
      show "map_within P (s(x \<mapsto> y))" by (rule map_within_update [OF s P])
    qed
    then show "valid (case p of (before_child, after_child) \<Rightarrow>
         wbind (wlift (index_at (before_to_after m) before_child)) (\<lambda>mapped.
         wbind (wensure (mapped = Some after_child) (AnchorFailure MissingDescendantRelation)) (\<lambda>_.
         wbind (wlift (index_at (by_before m) before_child)) (\<lambda>rec.
         wbind (wlift (of_option (AnchorFailure NoRelationRecord) rec)) (\<lambda>r.
         wbind (wensure (rel_correspondence r = ModelForced) (AnchorFailure DescendantNotForced)) (\<lambda>_.
         wbind (wensure (has_evidence r EXACT_DESCENDANT_EVIDENCE \<or> has_evidence r GLOBAL_ANCHOR_EVIDENCE
                  \<or> has_evidence r LOCAL_ANCHOR_EVIDENCE) (AnchorFailure DescendantEvidence)) (\<lambda>_.
         wbind (wensure (\<not> (case s before_child of None \<Rightarrow> False | Some existing \<Rightarrow> existing \<noteq> after_child))
                  (AnchorFailure CertificatesDisagree)) (\<lambda>_.
           certify_exact_subtree_fuel fuel before after m before_child after_child
             (s(before_child \<mapsto> after_child)))))))))) safe (map_within P)"
      unfolding xy prod.case using x(2) verified_facts(1,3) [OF m]
      by (intro valid_lift_bind valid_ensure_bind) (simp_all add: of_option_iff)
  qed
qed simp

lemma valid_certify_exact_subtree:
  assumes "wf_syntax before" "wf_syntax after" "verified to_hex before after rs m"
    "i < length (ps_nodes before)" "j < length (ps_nodes after)"
    "\<And>x y. isomorphic_path before after i j x y \<Longrightarrow> P x y" "map_within P c"
  shows "valid (certify_exact_subtree before after m i j c) safe (map_within P)"
  unfolding certify_exact_subtree_def using assms by (intro valid_certify_fuel) auto

section \<open>Anchors\<close>

definition parents_mapped :: "parsed_syntax \<Rightarrow> parsed_syntax \<Rightarrow> verified_mappings \<Rightarrow> nat \<Rightarrow> nat \<Rightarrow> bool" where
  "parents_mapped before after m i j \<longleftrightarrow>
     (\<exists>p q. node_parent (ps_nodes before ! i) = Some p \<and> node_parent (ps_nodes after ! j) = Some q \<and>
        before_to_after m ! p = Some q)"

lemma valid_mapped_parents:
  assumes wf: "wf_syntax before" "wf_syntax after" and m: "verified to_hex before after rs m" and r: "r \<in> set rs"
  shows "valid (wlift (verify_mapped_parents before after m r)) safe
    (\<lambda>_. parents_mapped before after m (before_id r) (after_id r))"
proof -
  note ids = verified_relation_mapped(1,2) [OF m r]
  show ?thesis
  proof (cases "node_parent (ps_nodes before ! before_id r)")
    case None
    then show ?thesis using ids by (simp add: verify_mapped_parents_def valid_fail)
  next
    case (Some p)
    then have "p < length (before_to_after m)"
      using wf_parent(1) [OF wf(1) ids(1) Some] ids(1) verified_facts(1) [OF m] by simp
    then show ?thesis
      using ids Some by (cases "node_parent (ps_nodes after ! after_id r)")
        (auto simp: verify_mapped_parents_def parents_mapped_def rensure_def intro!: valid_fail valid_return)
  qed
qed

text \<open>An anchor: forced, and globally unique or unique below mapped parents.\<close>

definition certified_anchor ::
  "parsed_syntax \<Rightarrow> parsed_syntax \<Rightarrow> verified_mappings \<Rightarrow> relation \<Rightarrow> bool" where
  "certified_anchor before after m r \<longleftrightarrow> rel_correspondence r = ModelForced \<and>
     (rel_evidence r = GLOBAL_ANCHOR_EVIDENCE \<and> globally_unique before after (before_id r) (after_id r) \<or>
      rel_evidence r = LOCAL_ANCHOR_EVIDENCE \<and> parents_mapped before after m (before_id r) (after_id r))"

definition below_anchor ::
  "parsed_syntax \<Rightarrow> parsed_syntax \<Rightarrow> relation list \<Rightarrow> verified_mappings \<Rightarrow> nat \<Rightarrow> nat \<Rightarrow> bool" where
  "below_anchor before after rs m x y \<longleftrightarrow>
     (\<exists>r\<in>set rs. certified_anchor before after m r \<and> isomorphic_path before after (before_id r) (after_id r) x y)"

lemma valid_certify_anchor:
  assumes wf: "wf_syntax before" "wf_syntax after" and m: "verified to_hex before after rs m" and r: "r \<in> set rs"
    and index: "index_ok before after index" and c: "map_within (below_anchor before after rs m) c"
  shows "valid (certify_anchor before after m index c r) safe
    (\<lambda>c'. map_within (below_anchor before after rs m) c' \<and>
      (rel_correspondence r = ModelForced \<and> (rel_evidence r = GLOBAL_ANCHOR_EVIDENCE \<or> rel_evidence r = LOCAL_ANCHOR_EVIDENCE)
         \<longrightarrow> certified_anchor before after m r))"
    (is "valid _ _ ?Q")
proof -
  note ids = verified_relation_mapped(1,2) [OF m r]
  have sub: "valid (certify_exact_subtree before after m (before_id r) (after_id r) c) safe ?Q"
    if anchor: "certified_anchor before after m r"
    by (rule valid_conseq [OF valid_certify_exact_subtree [OF wf m ids, where P = "below_anchor before after rs m"]])
      (use anchor r c in \<open>auto simp: below_anchor_def\<close>)
  have labels: "GLOBAL_ANCHOR_EVIDENCE \<noteq> LOCAL_ANCHOR_EVIDENCE"
    by (simp add: GLOBAL_ANCHOR_EVIDENCE_def LOCAL_ANCHOR_EVIDENCE_def)
  show ?thesis
  proof (cases "rel_correspondence r = ModelForced")
    case False
    then show ?thesis using c by (simp add: certify_anchor_def valid_charge_bind valid_return)
  next
    case forced: True
    show ?thesis
    proof (cases "rel_evidence r = GLOBAL_ANCHOR_EVIDENCE")
      case True
      have "valid (certify_exact_subtree before after m (before_id r) (after_id r) c) safe ?Q"
        if "globally_unique before after (before_id r) (after_id r)"
        using sub forced True that by (simp add: certified_anchor_def)
      then have "valid (wbind (wlift (verify_global_anchor before after r index)) (\<lambda>_.
         certify_exact_subtree before after m (before_id r) (after_id r) c)) safe ?Q"
        by (rule valid_bind [OF verify_global_anchor_spec [OF wf index ids]])
      then show ?thesis
        using forced True by (simp add: certify_anchor_def has_evidence_iff valid_charge_bind)
    next
      case global: False
      show ?thesis
      proof (cases "rel_evidence r = LOCAL_ANCHOR_EVIDENCE")
        case True
        have "valid (certify_exact_subtree before after m (before_id r) (after_id r) c) safe ?Q"
          if "parents_mapped before after m (before_id r) (after_id r)"
          using sub forced True that by (simp add: certified_anchor_def)
        then have "valid (wbind (wlift (verify_mapped_parents before after m r)) (\<lambda>_.
           certify_exact_subtree before after m (before_id r) (after_id r) c)) safe ?Q"
          by (rule valid_bind [OF valid_mapped_parents [OF wf m r]])
        then show ?thesis
          using forced True labels by (simp add: certify_anchor_def has_evidence_iff valid_charge_bind)
      next
        case False
        then show ?thesis
          using forced global c by (simp add: certify_anchor_def has_evidence_iff valid_charge_bind valid_return)
      qed
    qed
  qed
qed

text \<open>What the evidence check leaves certified about every relation.\<close>

definition anchors_certified :: "parsed_syntax \<Rightarrow> parsed_syntax \<Rightarrow> relation list \<Rightarrow> verified_mappings \<Rightarrow> bool" where
  "anchors_certified before after rs m \<longleftrightarrow>
     (\<forall>r\<in>set rs.
       (rel_correspondence r = ModelForced \<and> (rel_evidence r = GLOBAL_ANCHOR_EVIDENCE \<or> rel_evidence r = LOCAL_ANCHOR_EVIDENCE)
          \<longrightarrow> certified_anchor before after m r) \<and>
       (rel_evidence r = EXACT_DESCENDANT_EVIDENCE \<longrightarrow> below_anchor before after rs m (before_id r) (after_id r)))"

lemma valid_exact_anchor_evidence:
  assumes wf: "wf_syntax before" "wf_syntax after" and m: "verified to_hex before after (relations report) m"
    and index: "index_ok before after index"
  shows "valid (verify_exact_anchor_evidence report before after m index) safe
    (\<lambda>_. anchors_certified before after (relations report) m)"
proof -
  let ?rs = "relations report" and ?B = "below_anchor before after (relations report) m"
  define I where "I qs c \<longleftrightarrow> map_within ?B c \<and>
    (\<forall>r\<in>set qs. rel_correspondence r = ModelForced \<and> (rel_evidence r = GLOBAL_ANCHOR_EVIDENCE \<or> rel_evidence r = LOCAL_ANCHOR_EVIDENCE)
       \<longrightarrow> certified_anchor before after m r)" for qs :: "relation list" and c
  have "valid (wfold (certify_anchor before after m index) Map.empty ?rs) safe (I ?rs)"
  proof (rule valid_fold_prefix)
    show "I [] Map.empty" by (simp add: I_def map_within_empty)
  next
    fix ys x zs c
    assume split: "?rs = ys @ x # zs" and I: "I ys c"
    then have x: "x \<in> set ?rs" and c: "map_within ?B c" by (simp_all add: I_def)
    show "valid (certify_anchor before after m index c x) safe (I (ys @ [x]))"
      by (rule valid_conseq [OF valid_certify_anchor [OF wf m x index c]]) (use I in \<open>auto simp: I_def\<close>)
  qed
  then show ?thesis
    unfolding verify_exact_anchor_evidence_def
  proof (rule valid_bind)
    fix c assume I: "I ?rs c"
    have "valid (weach (\<lambda>r. wbind (charge 1) (\<lambda>_.
       wensure (\<not> (has_evidence r EXACT_DESCENDANT_EVIDENCE \<and> c (before_id r) \<noteq> Some (after_id r)))
         (AnchorFailure NotBelowCertifiedAnchor))) ?rs) safe
       (\<lambda>_. \<forall>r\<in>set ?rs. rel_evidence r = EXACT_DESCENDANT_EVIDENCE \<longrightarrow> c (before_id r) = Some (after_id r))"
      by (rule valid_each) (auto simp: has_evidence_iff intro!: valid_charge_bind valid_ensure)
    then show "valid (weach (\<lambda>r. wbind (charge 1) (\<lambda>_.
       wensure (\<not> (has_evidence r EXACT_DESCENDANT_EVIDENCE \<and> c (before_id r) \<noteq> Some (after_id r)))
         (AnchorFailure NotBelowCertifiedAnchor))) ?rs) safe (\<lambda>_. anchors_certified before after ?rs m)"
      by (rule valid_conseq) (use I in \<open>auto simp: anchors_certified_def I_def map_within_def\<close>)
  qed
qed

section \<open>Completeness\<close>

lemma verified_is_exact_before:
  assumes "verified to_hex before after rs m" "i < length (ps_nodes before)"
  shows "is_exact_before m i = Inr (case by_before m ! i of None \<Rightarrow> False | Some r \<Rightarrow> is_exact_relation r)"
  using assms verified_facts(3) [OF assms(1)] by (simp add: is_exact_before_def)

definition exactly_mapped :: "verified_mappings \<Rightarrow> nat \<Rightarrow> nat \<Rightarrow> bool" where
  "exactly_mapped m i j \<longleftrightarrow> before_to_after m ! i = Some j \<and>
     (case by_before m ! i of None \<Rightarrow> False | Some r \<Rightarrow> is_exact_relation r)"

lemma valid_mapped_exactly:
  assumes "verified to_hex before after rs m" "i < length (ps_nodes before)" "safe e"
  shows "valid (wbind (wlift (rbind (index_at (before_to_after m) i) (\<lambda>mapped.
       if mapped \<noteq> Some j then Inr False else is_exact_before m i))) (\<lambda>ok. wensure ok e)) safe (\<lambda>_. exactly_mapped m i j)"
  using assms(2,3) verified_facts(1) [OF assms(1)]
  by (auto simp: verified_is_exact_before [OF assms(1,2)] exactly_mapped_def intro!: valid_ensure)

lemma global_bucket_member:
  assumes "global_bucket s k = [i]"
  shows "i < length (ps_nodes s)" "i \<noteq> ps_root s" "global_key (ps_nodes s ! i) = k"
proof -
  have "i \<in> set (global_bucket s k)" unfolding assms by simp
  then show "i < length (ps_nodes s)" "i \<noteq> ps_root s" "global_key (ps_nodes s ! i) = k"
    unfolding global_bucket_def by simp_all
qed

definition anchors_complete :: "parsed_syntax \<Rightarrow> parsed_syntax \<Rightarrow> verified_mappings \<Rightarrow> bool" where
  "anchors_complete before after m \<longleftrightarrow>
     (\<forall>k i j. global_bucket before k = [i] \<longrightarrow> global_bucket after k = [j] \<longrightarrow> syntax_same before i after j \<longrightarrow>
        exactly_mapped m i j)"

lemma valid_global_anchor_completeness:
  assumes wf: "wf_syntax before" "wf_syntax after" and m: "verified to_hex before after rs m"
    and index: "index_ok before after index" and order: "\<And>xs. set (order xs) = set xs"
  shows "valid (verify_global_anchor_completeness order before after m index) safe
    (\<lambda>_. anchors_complete before after m)"
proof -
  have before_index: "indexes before (index_before index)" and after_index: "indexes after (index_after index)"
    using index by (simp_all add: index_ok_def)
  define Q where "Q k \<longleftrightarrow> (\<forall>i j. global_bucket before k = [i] \<longrightarrow> global_bucket after k = [j] \<longrightarrow>
    syntax_same before i after j \<longrightarrow> exactly_mapped m i j)" for k
  have "valid (verify_global_anchor_completeness order before after m index) safe
      (\<lambda>_. \<forall>p\<in>set (order (index_before index)). Q (fst p))"
    unfolding verify_global_anchor_completeness_def
  proof (rule valid_each)
    fix p assume "p \<in> set (order (index_before index))"
    then have mem: "p \<in> set (index_before index)" unfolding order .
    obtain k ids where p: "p = (k, ids)" by (rule prod.exhaust)
    then have "(k, ids) \<in> set (index_before index)" using mem by (simp only:)
    then have ids: "ids = global_bucket before k" using indexes_entry [OF before_index] by blast
    let ?js = "global_bucket after k"
    show "valid (case p of (key, before_ids) \<Rightarrow>
       wbind (charge 1) (\<lambda>_.
       case map_of (index_after index) key of
         None \<Rightarrow> wreturn ()
       | Some after_ids \<Rightarrow>
           if length before_ids = 1 \<and> length after_ids = 1 then
             wbind (budgeted_syntax_equal before (before_ids ! 0) after (after_ids ! 0)) (\<lambda>same.
             if same then
               wbind (wlift (rbind (index_at (before_to_after m) (before_ids ! 0)) (\<lambda>mapped.
                   if mapped \<noteq> Some (after_ids ! 0) then Inr False else is_exact_before m (before_ids ! 0)))) (\<lambda>ok.
                 wensure ok (AnchorFailure GlobalAnchorAbsent))
             else wreturn ())
           else wreturn ())) safe (\<lambda>_. Q (fst p))"
    proof (cases "length ids = 1 \<and> length ?js = 1")
      case False
      then have "Q k" unfolding Q_def ids by auto
      then show ?thesis
        unfolding p prod.case fst_conv indexes_map_of [OF after_index]
        using False by (intro valid_charge_bind) (auto simp: valid_return)
    next
      case True
      then obtain i j where ij: "ids = [i]" "?js = [j]" by (auto simp: length_Suc_conv)
      have arena: "in_arena before i" "in_arena after j"
        using global_bucket_member(1) [OF ij(1) [unfolded ids]] global_bucket_member(1) [OF ij(2)] wf
        by (simp_all add: in_arena_def)
      have i: "i < length (ps_nodes before)" using global_bucket_member(1) [OF ij(1) [unfolded ids]] .
      have Q: "Q k \<longleftrightarrow> (syntax_same before i after j \<longrightarrow> exactly_mapped m i j)"
        using ij ids unfolding Q_def by auto
      show ?thesis
        unfolding p prod.case fst_conv indexes_map_of [OF after_index] ij Q nth_Cons_0
        by (rule valid_charge_bind, simp, simp, rule valid_bind [OF valid_safe [OF valid_budgeted_syntax_equal [OF arena]]],
            cases "syntax_same before i after j")
          (simp_all add: valid_return valid_conseq [OF valid_mapped_exactly [OF m i]])
    qed
  qed
  then show ?thesis
  proof (rule valid_conseq)
    assume all: "\<forall>p\<in>set (order (index_before index)). Q (fst p)"
    show "anchors_complete before after m"
      unfolding anchors_complete_def
    proof (intro allI impI)
      fix k i j
      assume kij: "global_bucket before k = [i]" "global_bucket after k = [j]" "syntax_same before i after j"
      then have "(k, [i]) \<in> set (index_before index)" unfolding indexes_entry [OF before_index] by simp
      then have "(k, [i]) \<in> set (order (index_before index))" unfolding order .
      from bspec [OF all this] have "Q k" unfolding fst_conv .
      then show "exactly_mapped m i j" using kij unfolding Q_def by blast
    qed
  qed simp
qed

section \<open>Local anchors\<close>

text \<open>A child that the local phase may still pair: unmapped, or mapped by anything but an exact
  relation other than a local anchor.\<close>

definition open_relation :: "relation option \<Rightarrow> bool" where
  "open_relation q = (case q of None \<Rightarrow> True | Some r \<Rightarrow> \<not> is_exact_relation r \<or> has_evidence r LOCAL_ANCHOR_EVIDENCE)"

definition local_before :: "parsed_syntax \<Rightarrow> verified_mappings \<Rightarrow> nat \<Rightarrow> nat list" where
  "local_before s m parent = filter (\<lambda>i. open_relation (by_before m ! i)) (node_children (ps_nodes s ! parent))"

definition local_after :: "parsed_syntax \<Rightarrow> verified_mappings \<Rightarrow> nat \<Rightarrow> nat list" where
  "local_after s m parent =
     filter (\<lambda>j. case after_to_before m ! j of None \<Rightarrow> True | Some i \<Rightarrow> open_relation (by_before m ! i))
       (node_children (ps_nodes s ! parent))"

lemma valid_local_candidates:
  assumes wf: "wf_syntax before" "wf_syntax after" and m: "verified to_hex before after rs m"
  shows "i < length (ps_nodes before) \<Longrightarrow>
      valid (local_exact_candidates before i m) safe (\<lambda>xs. xs = local_before before m i)"
    and "j < length (ps_nodes after) \<Longrightarrow>
      valid (local_exact_candidates_after after j m) safe (\<lambda>xs. xs = local_after after m j)"
proof -
  assume i: "i < length (ps_nodes before)"
  have "filter_result (\<lambda>i. rbind (index_at (by_before m) i) (\<lambda>r. Inr (case r of
           None \<Rightarrow> True
         | Some r \<Rightarrow> \<not> is_exact_relation r \<or> has_evidence r LOCAL_ANCHOR_EVIDENCE))) (node_children (ps_nodes before ! i)) =
      Inr (local_before before m i)"
    unfolding local_before_def
    by (rule filter_result_pure)
      (use wf_child(2) [OF wf(1) i] verified_facts(3) [OF m] in \<open>simp add: open_relation_def\<close>)
  then show "valid (local_exact_candidates before i m) safe (\<lambda>xs. xs = local_before before m i)"
    using i by (simp add: local_exact_candidates_def valid_charge_bind valid_return)
next
  assume j: "j < length (ps_nodes after)"
  have eq: "filter_result (\<lambda>i. rbind (index_at (after_to_before m) i) (\<lambda>b. case b of
           None \<Rightarrow> Inr True
         | Some b \<Rightarrow> rbind (index_at (by_before m) b) (\<lambda>r. rbind (of_option Panic r) (\<lambda>r.
             Inr (\<not> is_exact_relation r \<or> has_evidence r LOCAL_ANCHOR_EVIDENCE))))) (node_children (ps_nodes after ! j)) =
      Inr (local_after after m j)"
    unfolding local_after_def
  proof (rule filter_result_pure)
    fix c assume c: "c \<in> set (node_children (ps_nodes after ! j))"
    then have c': "c < length (ps_nodes after)" using wf_child(2) [OF wf(2) j] by blast
    show "rbind (index_at (after_to_before m) c) (\<lambda>b. case b of
           None \<Rightarrow> Inr True
         | Some b \<Rightarrow> rbind (index_at (by_before m) b) (\<lambda>r. rbind (of_option Panic r) (\<lambda>r.
             Inr (\<not> is_exact_relation r \<or> has_evidence r LOCAL_ANCHOR_EVIDENCE)))) =
       Inr (case after_to_before m ! c of None \<Rightarrow> True | Some i \<Rightarrow> open_relation (by_before m ! i))"
    proof (cases "after_to_before m ! c")
      case None
      then show ?thesis using c' verified_facts(2) [OF m] by simp
    next
      case (Some b)
      have b: "b < length (ps_nodes before)" by (rule verified_facts(7) [OF m c' Some])
      have "before_to_after m ! b = Some c" using verified_facts(6) [OF m b c'] Some by simp
      then obtain r where "by_before m ! b = Some r" by (rule verified_mapped [OF m _ b])
      then show ?thesis
        using c' b Some verified_facts(2,3) [OF m] by (simp add: open_relation_def)
    qed
  qed
  show "valid (local_exact_candidates_after after j m) safe (\<lambda>xs. xs = local_after after m j)"
    unfolding local_exact_candidates_after_def index_at_ok [OF j] wlift_simps wbind_wreturn eq
    by (intro valid_charge_bind) (simp_all add: valid_return)
qed

text \<open>The only open child with its key below one parent, on both sides, and syntactically equal.\<close>

definition locally_unique :: "parsed_syntax \<Rightarrow> parsed_syntax \<Rightarrow> verified_mappings \<Rightarrow> nat \<Rightarrow> nat \<Rightarrow> nat \<Rightarrow> nat \<Rightarrow> bool" where
  "locally_unique before after m p q i j \<longleftrightarrow>
     (\<exists>k. bucket_of before exact_key (local_before before m p) k = [i] \<and>
          bucket_of after exact_key (local_after after m q) k = [j]) \<and>
     syntax_same before i after j"

definition locals_complete :: "parsed_syntax \<Rightarrow> parsed_syntax \<Rightarrow> relation list \<Rightarrow> verified_mappings \<Rightarrow> bool" where
  "locals_complete before after rs m \<longleftrightarrow>
     (\<forall>q\<in>set rs. \<forall>i j. locally_unique before after m (before_id q) (after_id q) i j \<longrightarrow> exactly_mapped m i j) \<and>
     (\<forall>r\<in>set rs. rel_evidence r = LOCAL_ANCHOR_EVIDENCE \<longrightarrow>
        parents_mapped before after m (before_id r) (after_id r) \<and>
        (\<exists>q\<in>set rs. locally_unique before after m (before_id q) (after_id q) (before_id r) (after_id r)))"

lemma bucket_of_single:
  "bucket_of s key ids k = [i] \<Longrightarrow> i \<in> set ids"
proof -
  assume "bucket_of s key ids k = [i]"
  then have "i \<in> set (bucket_of s key ids k)" by simp
  then show ?thesis unfolding bucket_of_def by simp
qed

lemma valid_check_local_pair:
  assumes m: "verified to_hex before after rs m" and arena: "in_arena before i" "in_arena after j"
  shows "valid (check_local_pair before after m v (i, j)) safe
    (\<lambda>v'. v' = (if syntax_same before i after j then insert (i, j) v else v) \<and>
      (syntax_same before i after j \<longrightarrow> exactly_mapped m i j))"
proof -
  have i: "i < length (ps_nodes before)" using arena(1) by (simp add: in_arena_def)
  have pull: "wbind p (\<lambda>ok. wbind (wensure ok e) f) = wbind (wbind p (\<lambda>ok. wensure ok e)) f" for p e and f :: "unit \<Rightarrow> (nat \<times> nat) set work"
    by (simp add: wbind_assoc)
  show ?thesis
    unfolding check_local_pair_def fst_conv snd_conv
  proof (rule valid_bind [OF valid_safe [OF valid_budgeted_syntax_equal [OF arena]]], rule valid_if)
    fix same assume same: "same \<longleftrightarrow> syntax_same before i after j"
    show "valid (wbind (wlift (rbind (index_at (before_to_after m) i) (\<lambda>mapped.
           if mapped \<noteq> Some j then Inr False else is_exact_before m i))) (\<lambda>ok.
       wbind (wensure ok (AnchorFailure LocalPairAbsent)) (\<lambda>_. wreturn (insert (i, j) v)))) safe
       (\<lambda>v'. v' = (if syntax_same before i after j then insert (i, j) v else v) \<and>
      (syntax_same before i after j \<longrightarrow> exactly_mapped m i j))" if same
      unfolding pull
      by (rule valid_bind [OF valid_mapped_exactly [OF m i]]) (use same that in \<open>simp_all add: valid_return\<close>)
  qed (simp add: valid_return)
qed

lemma valid_local_pass:
  assumes wf: "wf_syntax before" "wf_syntax after" and m: "verified to_hex before after rs m"
    and pq: "(p, q) \<in> set (mapped_pairs m)"
  shows "valid (wbind (local_exact_candidates before p m) (\<lambda>before_children.
              wbind (local_exact_candidates_after after q m) (\<lambda>after_children.
              wbind (unique_pairs before after before_children after_children exact_key) (\<lambda>pairs.
                wfold (check_local_pair before after m) v pairs)))) safe
    (\<lambda>v'. v' = v \<union> {(i, j). locally_unique before after m p q i j} \<and>
      (\<forall>i j. locally_unique before after m p q i j \<longrightarrow> exactly_mapped m i j))"
proof -
  have p: "p < length (ps_nodes before)" and q: "q < length (ps_nodes after)"
    using pq verified_pairs [OF m, of p q] verified_relation_mapped(1,2) [OF m] by blast+
  let ?bs = "local_before before m p" and ?as = "local_after after m q"
  have bs: "in_arena before i" if "i \<in> set ?bs" for i
    using that wf_child(2) [OF wf(1) p] wf by (auto simp: local_before_def in_arena_def)
  have as: "in_arena after j" if "j \<in> set ?as" for j
    using that wf_child(2) [OF wf(2) q] wf by (auto simp: local_after_def in_arena_def)
  let ?P = "{(i, j). \<exists>k. bucket_of before exact_key ?bs k = [i] \<and> bucket_of after exact_key ?as k = [j]}"
  have "valid (wfold (check_local_pair before after m) v ps) safe
    (\<lambda>v'. v' = v \<union> {(i, j). locally_unique before after m p q i j} \<and>
      (\<forall>i j. locally_unique before after m p q i j \<longrightarrow> exactly_mapped m i j))" if ps: "set ps = ?P" for ps
  proof -
    define I where "I ys v' \<longleftrightarrow> v' = v \<union> {x \<in> set ys. syntax_same before (fst x) after (snd x)} \<and>
      (\<forall>x\<in>set ys. syntax_same before (fst x) after (snd x) \<longrightarrow> exactly_mapped m (fst x) (snd x))" for ys :: "(nat \<times> nat) list" and v'
    have "valid (wfold (check_local_pair before after m) v ps) safe (I ps)"
    proof (rule valid_fold_prefix)
      show "I [] v" by (simp add: I_def)
    next
      fix ys x zs s assume split: "ps = ys @ x # zs" and I: "I ys s"
      obtain i j where x: "x = (i, j)" by (cases x)
      have "(i, j) \<in> ?P" using split x unfolding ps [symmetric] by simp
      then have "i \<in> set ?bs" "j \<in> set ?as" by (auto dest: bucket_of_single)
      then have "in_arena before i" "in_arena after j" using bs as by blast+
      then show "valid (check_local_pair before after m s x) safe (I (ys @ [x]))"
        unfolding x
        by (rule valid_conseq [OF valid_check_local_pair [OF m]]) (use I in \<open>auto simp: I_def split: if_splits\<close>)
    qed
    then show ?thesis
    proof (rule valid_conseq)
      fix v' assume I: "I ps v'"
      have "{x \<in> set ps. syntax_same before (fst x) after (snd x)} = {(i, j). locally_unique before after m p q i j}"
        unfolding ps locally_unique_def by auto
      then show "v' = v \<union> {(i, j). locally_unique before after m p q i j} \<and>
          (\<forall>i j. locally_unique before after m p q i j \<longrightarrow> exactly_mapped m i j)"
        using I unfolding I_def by (smt (verit) mem_Collect_eq case_prodI fst_conv snd_conv)
    qed simp
  qed
  then show ?thesis
    by (intro valid_bind [OF valid_local_candidates(1) [OF wf m p]]
        valid_bind [OF valid_local_candidates(2) [OF wf m q]])
      (auto intro!: valid_bind [OF valid_safe [OF valid_unique_pairs]] bs as)
qed

lemma valid_local_exact_relations:
  assumes wf: "wf_syntax before" "wf_syntax after" and m: "verified to_hex before after rs m"
  shows "valid (verify_local_exact_relations before after m) safe (\<lambda>_. locals_complete before after rs m)"
proof -
  let ?pass = "\<lambda>verified (before_parent, after_parent).
              wbind (local_exact_candidates before before_parent m) (\<lambda>before_children.
              wbind (local_exact_candidates_after after after_parent m) (\<lambda>after_children.
              wbind (unique_pairs before after before_children after_children exact_key) (\<lambda>pairs.
                wfold (check_local_pair before after m) verified pairs)))"
  define I where "I ys v \<longleftrightarrow> v = {(i, j). \<exists>x\<in>set ys. locally_unique before after m (fst x) (snd x) i j} \<and>
     (\<forall>x\<in>set ys. \<forall>i j. locally_unique before after m (fst x) (snd x) i j \<longrightarrow> exactly_mapped m i j)"
    for ys :: "(nat \<times> nat) list" and v
  have "valid (wfold ?pass {} (mapped_pairs m)) safe (I (mapped_pairs m))"
  proof (rule valid_fold_prefix)
    show "I [] {}" by (simp add: I_def)
  next
    fix ys x zs v assume split: "mapped_pairs m = ys @ x # zs" and I: "I ys v"
    obtain p q where x: "x = (p, q)" by (cases x)
    have "(p, q) \<in> set (mapped_pairs m)" unfolding split x by simp
    then show "valid (?pass v x) safe (I (ys @ [x]))"
      unfolding x prod.case
      by (rule valid_conseq [OF valid_local_pass [OF wf m]]) (use I in \<open>auto simp: I_def\<close>)
  qed
  then show ?thesis
    unfolding verify_local_exact_relations_def
  proof (intro valid_charge_bind, simp, rule valid_bind, intro valid_charge_bind, simp)
    fix v assume I: "I (mapped_pairs m) v"
    have v: "(i, j) \<in> v \<longleftrightarrow> (\<exists>q\<in>set rs. locally_unique before after m (before_id q) (after_id q) i j)" for i j
      using I verified_pairs [OF m] unfolding I_def by fastforce
    have complete: "exactly_mapped m i j" if "q \<in> set rs" "locally_unique before after m (before_id q) (after_id q) i j" for q i j
      using I verified_pairs [OF m, of "before_id q" "after_id q"] that unfolding I_def by fastforce
    have "valid (weach (\<lambda>r.
         wbind (wlift (verify_mapped_parents before after m r)) (\<lambda>_.
           wensure ((before_id r, after_id r) \<in> v) (AnchorFailure LocalAnchorNotUnique)))
         (filter (\<lambda>r. has_evidence r LOCAL_ANCHOR_EVIDENCE) (relation_records m))) safe
       (\<lambda>_. \<forall>r\<in>set (filter (\<lambda>r. has_evidence r LOCAL_ANCHOR_EVIDENCE) (relation_records m)).
          parents_mapped before after m (before_id r) (after_id r) \<and> (before_id r, after_id r) \<in> v)"
    proof (rule valid_each)
      fix r assume "r \<in> set (filter (\<lambda>r. has_evidence r LOCAL_ANCHOR_EVIDENCE) (relation_records m))"
      then have "r \<in> set rs" using verified_records [OF m] by simp
      from valid_mapped_parents [OF wf m this]
      show "valid (wbind (wlift (verify_mapped_parents before after m r)) (\<lambda>_.
           wensure ((before_id r, after_id r) \<in> v) (AnchorFailure LocalAnchorNotUnique))) safe
         (\<lambda>_. parents_mapped before after m (before_id r) (after_id r) \<and> (before_id r, after_id r) \<in> v)"
        by (rule valid_bind) (simp add: valid_ensure)
    qed
    then show "valid (weach (\<lambda>r.
         wbind (wlift (verify_mapped_parents before after m r)) (\<lambda>_.
           wensure ((before_id r, after_id r) \<in> v) (AnchorFailure LocalAnchorNotUnique)))
         (filter (\<lambda>r. has_evidence r LOCAL_ANCHOR_EVIDENCE) (relation_records m))) safe
       (\<lambda>_. locals_complete before after rs m)"
      by (rule valid_conseq) (use complete v verified_records [OF m] in \<open>simp_all add: locals_complete_def has_evidence_iff\<close>)
  qed
qed

section \<open>Properties\<close>

text \<open>C23: the anchor evidence is checked soundly. If \<open>verify_exact_anchor_evidence\<close> accepts, every relation with global
  anchor evidence joins two nodes that are each alone in their bucket of kind and syntax digest, every relation
  with local anchor evidence has mapped parents, and every relation with descendant evidence is reached from
  such an anchor by the same child positions on both sides. The check never panics.\<close>

theorem anchor_evidence_sound:
  assumes "wf_syntax before" "wf_syntax after" "verified to_hex before after (relations report) m"
    and "index_ok before after index"
  shows "valid (verify_exact_anchor_evidence report before after m index) (\<lambda>e. \<not> crash e)
    (\<lambda>_. anchors_certified before after (relations report) m)"
  using assms by (rule valid_exact_anchor_evidence)

text \<open>C24: no unique exact pair of the indexed nodes is left out. The global buckets hold, by kind and syntax digest, the subtrees of
  at least three nodes other than the root; smaller subtrees are not in them. If
  \<open>verify_global_anchor_completeness\<close> accepts, two equal subtrees that are each alone in the same global bucket of
  their side are related exactly. The local candidates below a related pair of parents are the children of each side
  that are unmatched, not exactly related, or related by a local anchor, in buckets by field, kind and syntax digest. If
  \<open>verify_local_exact_relations\<close> accepts, two equal candidates that are each alone in the same bucket are related exactly, and
  every relation with local evidence is such a pair. The order in which the hash map is walked does not matter.\<close>

theorem anchors_left_out:
  assumes "wf_syntax before" "wf_syntax after" "verified to_hex before after rs m"
    and "index_ok before after index" "\<forall>xs. set (order xs) = set xs"
  shows "valid (verify_global_anchor_completeness order before after m index) (\<lambda>e. \<not> crash e)
      (\<lambda>_. anchors_complete before after m) \<and>
    valid (verify_local_exact_relations before after m) (\<lambda>e. \<not> crash e) (\<lambda>_. locals_complete before after rs m)"
  using valid_global_anchor_completeness [OF assms(1-4)] valid_local_exact_relations [OF assms(1-3)] assms(5) by blast

end
