(* ===== verification/Regions.thy ===== *)
theory Regions
  imports Anchors
begin

text \<open>
  The regions the stable core is computed in (\<open>verifier.rs\<close>): \<open>ordered_alignment_regions\<close> cuts the
  children of two mapped parents at the exact anchors that keep their order against every other exact
  anchor; \<open>global_phase_mappings\<close> records the subtrees below global anchors; and
  \<open>phase_mappings_are_compatible\<close> compares two subtrees with that record.
\<close>

section \<open>Regions between exact anchors\<close>

definition usize_sub :: "nat \<Rightarrow> nat \<Rightarrow> nat result" where
  "usize_sub a b = of_option Panic (usize_checked_sub a b)"

lemma usize_sub_ok [simp]: "b \<le> a \<Longrightarrow> usize_sub a b = Inr (a - b)"
  by (simp add: usize_sub_def usize_checked_sub_def)

text \<open>\<open>ids.iter().enumerate().map(|(position, id)| (*id, position)).collect()\<close>: a later entry wins.\<close>

definition positions :: "nat list \<Rightarrow> nat \<rightharpoonup> nat" where
  "positions ids = map_of (rev (zip ids [0..<length ids]))"

definition exact_anchors :: "verified_mappings \<Rightarrow> (nat \<rightharpoonup> nat) \<Rightarrow> nat list \<Rightarrow> (nat \<times> nat) list work" where
  "exact_anchors m after_positions before_children =
     wfold (\<lambda>anchors (before_position, i).
       wbind (charge 1) (\<lambda>_.
       wbind (wlift (index_at (by_before m) i)) (\<lambda>rec.
       case rec of
         None \<Rightarrow> wreturn anchors
       | Some r \<Rightarrow>
           if \<not> is_exact_relation r then wreturn anchors
           else (case after_positions (ref_id (rel_after r)) of
                   None \<Rightarrow> wreturn anchors
                 | Some after_position \<Rightarrow> wreturn (anchors @ [(before_position, after_position)])))))
       [] (enumerate 0 before_children)"

definition is_barrier :: "(nat \<times> nat) list \<Rightarrow> nat \<times> nat \<Rightarrow> bool work" where
  "is_barrier anchors p =
     wall (\<lambda>q. wbind (charge 1) (\<lambda>_.
       wreturn (\<not> (fst p \<noteq> fst q \<and> (fst p < fst q) \<noteq> (snd p < snd q))))) anchors"

definition order_barriers :: "(nat \<times> nat) list \<Rightarrow> (nat \<times> nat) list work" where
  "order_barriers anchors =
     wfold (\<lambda>barriers p. wbind (is_barrier anchors p) (\<lambda>b. wreturn (if b then barriers @ [p] else barriers))) [] anchors"

type_synonym region = "nat list \<times> nat list"

definition collect_region ::
  "verified_mappings \<Rightarrow> nat list \<Rightarrow> nat list \<Rightarrow> region list \<times> nat \<times> nat \<Rightarrow> nat \<times> nat \<Rightarrow>
   (region list \<times> nat \<times> nat) work" where
  "collect_region m before_children after_children s barrier =
     (let (regions, before_start, after_start) = s; (before_end, after_end) = barrier in
      wbind (wlift (usize_sub before_end before_start)) (\<lambda>b.
      wbind (charge b) (\<lambda>_.
      wbind (wlift (rbind (slice before_children before_start before_end)
               (filter_result (\<lambda>i. rbind (is_exact_before m i) (\<lambda>e. Inr (\<not> e)))))) (\<lambda>before_region.
      wbind (wlift (usize_sub after_end after_start)) (\<lambda>a.
      wbind (charge a) (\<lambda>_.
      wbind (wlift (rbind (slice after_children after_start after_end)
               (filter_result (\<lambda>i. rbind (is_exact_after m i) (\<lambda>e. Inr (\<not> e)))))) (\<lambda>after_region.
        wreturn (regions @ [(before_region, after_region)],
                 usize_saturating_add before_end 1, usize_saturating_add after_end 1))))))))"

definition ordered_alignment_regions ::
  "parsed_syntax \<Rightarrow> parsed_syntax \<Rightarrow> verified_mappings \<Rightarrow> nat \<Rightarrow> nat \<Rightarrow> region list work" where
  "ordered_alignment_regions before after m before_parent after_parent =
     wbind (wlift (index_at (ps_nodes before) before_parent)) (\<lambda>bp.
     wbind (wlift (index_at (ps_nodes after) after_parent)) (\<lambda>ap.
     let before_children = node_children bp; after_children = node_children ap in
     wbind (charge (length after_children)) (\<lambda>_.
     wbind (exact_anchors m (positions after_children) before_children) (\<lambda>anchors.
     wbind (order_barriers anchors) (\<lambda>barriers.
     wbind (wfold (collect_region m before_children after_children) ([], 0, 0)
              (barriers @ [(length before_children, length after_children)])) (\<lambda>s.
       wreturn (fst s)))))))"

section \<open>Phase mappings\<close>

fun mark_phase_subtree_fuel ::
  "nat \<Rightarrow> parsed_syntax \<Rightarrow> parsed_syntax \<Rightarrow> verified_mappings \<Rightarrow> nat \<Rightarrow> nat \<Rightarrow> phase_mappings \<Rightarrow> phase_mappings work" where
  "mark_phase_subtree_fuel 0 before after m i j phase = wfail Diverges"
| "mark_phase_subtree_fuel (Suc fuel) before after m i j phase =
     wbind (charge 1) (\<lambda>_.
     wbind (wlift (index_at (before_to_after m) i)) (\<lambda>mapped.
     wbind (wensure (mapped = Some j) (CoreFailure PhaseIncomplete)) (\<lambda>_.
     wbind (wlift (index_at (pm_before_to_after phase) i)) (\<lambda>b.
     wbind (if b \<noteq> None \<and> b \<noteq> Some j then wreturn True
            else wbind (wlift (index_at (pm_after_to_before phase) j)) (\<lambda>a.
              wreturn (a \<noteq> None \<and> a \<noteq> Some i))) (\<lambda>conflict.
     wbind (wensure (\<not> conflict) (CoreFailure PhaseConflict)) (\<lambda>_.
     wbind (wlift (set_at (pm_before_to_after phase) i (Some j))) (\<lambda>b2a.
     wbind (wlift (set_at (pm_after_to_before phase) j (Some i))) (\<lambda>a2b.
     wbind (wlift (index_at (ps_nodes before) i)) (\<lambda>bn.
     wbind (wlift (index_at (ps_nodes after) j)) (\<lambda>an.
       wfold (\<lambda>phase (before_child, after_child).
           mark_phase_subtree_fuel fuel before after m before_child after_child phase)
         \<lparr>pm_before_to_after = b2a, pm_after_to_before = a2b\<rparr>
         (zip (node_children bn) (node_children an))))))))))))"

definition mark_phase_subtree ::
  "parsed_syntax \<Rightarrow> parsed_syntax \<Rightarrow> verified_mappings \<Rightarrow> nat \<Rightarrow> nat \<Rightarrow> phase_mappings \<Rightarrow> phase_mappings work" where
  "mark_phase_subtree before after m i j phase =
     mark_phase_subtree_fuel (Suc (length (ps_nodes before))) before after m i j phase"

definition global_phase_mappings ::
  "parsed_syntax \<Rightarrow> parsed_syntax \<Rightarrow> verified_mappings \<Rightarrow> phase_mappings work" where
  "global_phase_mappings before after m =
     wbind (charge (length (ps_nodes before))) (\<lambda>_.
     wbind (charge (length (ps_nodes after))) (\<lambda>_.
     wbind (charge (length (by_before m))) (\<lambda>_.
       wfold (\<lambda>phase r. mark_phase_subtree before after m (ref_id (rel_before r)) (ref_id (rel_after r)) phase)
         \<lparr>pm_before_to_after = replicate (length (ps_nodes before)) None,
          pm_after_to_before = replicate (length (ps_nodes after)) None\<rparr>
         (filter (\<lambda>r. has_evidence r GLOBAL_ANCHOR_EVIDENCE) (relation_records m)))))"

fun phase_mappings_are_compatible_fuel ::
  "nat \<Rightarrow> parsed_syntax \<Rightarrow> parsed_syntax \<Rightarrow> phase_mappings \<Rightarrow> nat \<Rightarrow> nat \<Rightarrow> bool work" where
  "phase_mappings_are_compatible_fuel 0 before after phase i j = wfail Diverges"
| "phase_mappings_are_compatible_fuel (Suc fuel) before after phase i j =
     wbind (charge 1) (\<lambda>_.
     wbind (wlift (index_at (pm_before_to_after phase) i)) (\<lambda>b.
     wbind (if b \<noteq> None \<and> b \<noteq> Some j then wreturn True
            else wbind (wlift (index_at (pm_after_to_before phase) j)) (\<lambda>a.
              wreturn (a \<noteq> None \<and> a \<noteq> Some i))) (\<lambda>conflict.
     if conflict then wreturn False
     else
       wbind (wlift (index_at (ps_nodes before) i)) (\<lambda>bn.
       wbind (wlift (index_at (ps_nodes after) j)) (\<lambda>an.
       if length (node_children bn) \<noteq> length (node_children an) then wreturn False
       else wall (\<lambda>(before_child, after_child).
              phase_mappings_are_compatible_fuel fuel before after phase before_child after_child)
              (zip (node_children bn) (node_children an)))))))"

definition phase_mappings_are_compatible ::
  "parsed_syntax \<Rightarrow> parsed_syntax \<Rightarrow> phase_mappings \<Rightarrow> nat \<Rightarrow> nat \<Rightarrow> bool work" where
  "phase_mappings_are_compatible before after phase i j =
     phase_mappings_are_compatible_fuel (Suc (length (ps_nodes before))) before after phase i j"

section \<open>The anchors and barriers\<close>

definition exact_before :: "verified_mappings \<Rightarrow> nat \<Rightarrow> bool" where
  "exact_before m i \<longleftrightarrow> (case by_before m ! i of None \<Rightarrow> False | Some r \<Rightarrow> is_exact_relation r)"

definition exact_after :: "verified_mappings \<Rightarrow> nat \<Rightarrow> bool" where
  "exact_after m j \<longleftrightarrow> (case after_to_before m ! j of None \<Rightarrow> False | Some i \<Rightarrow> exact_before m i)"

lemma exact_tests:
  assumes "verified to_hex before after rs m"
  shows "i < length (ps_nodes before) \<Longrightarrow> is_exact_before m i = Inr (exact_before m i)"
    and "j < length (ps_nodes after) \<Longrightarrow> is_exact_after m j = Inr (exact_after m j)"
proof -
  show "is_exact_before m i = Inr (exact_before m i)" if "i < length (ps_nodes before)" for i
    using verified_is_exact_before [OF assms that] by (simp add: exact_before_def)
  then show "is_exact_after m j = Inr (exact_after m j)" if "j < length (ps_nodes after)"
    using that verified_facts(2,7) [OF assms]
    by (cases "after_to_before m ! j") (simp_all add: is_exact_after_def exact_after_def)
qed

definition anchor_at :: "verified_mappings \<Rightarrow> (nat \<rightharpoonup> nat) \<Rightarrow> nat \<times> nat \<Rightarrow> (nat \<times> nat) option" where
  "anchor_at m pos x = (case by_before m ! snd x of None \<Rightarrow> None
     | Some r \<Rightarrow> if is_exact_relation r then map_option (Pair (fst x)) (pos (ref_id (rel_after r))) else None)"

definition anchor_list :: "verified_mappings \<Rightarrow> (nat \<rightharpoonup> nat) \<Rightarrow> nat list \<Rightarrow> (nat \<times> nat) list" where
  "anchor_list m pos ids = List.map_filter (anchor_at m pos) (enumerate 0 ids)"

lemma map_filter_snoc: "List.map_filter f (xs @ [x]) = List.map_filter f xs @ (case f x of None \<Rightarrow> [] | Some y \<Rightarrow> [y])"
  by (cases "f x") (simp_all add: List.map_filter_def)

lemma valid_exact_anchors:
  assumes "\<And>i. i \<in> set ids \<Longrightarrow> i < length (by_before m)"
  shows "valid (exact_anchors m pos ids) work_failure (\<lambda>xs. xs = anchor_list m pos ids)"
proof -
  have "valid (exact_anchors m pos ids) work_failure (\<lambda>xs. xs = List.map_filter (anchor_at m pos) (enumerate 0 ids))"
    unfolding exact_anchors_def
  proof (rule valid_fold_prefix [where I = "\<lambda>ys xs. xs = List.map_filter (anchor_at m pos) ys"])
    fix ys x zs xs
    assume split: "enumerate 0 ids = ys @ x # zs" and xs: "xs = List.map_filter (anchor_at m pos) ys"
    obtain p i where x: "x = (p, i)" by (cases x)
    have "x \<in> set (enumerate 0 ids)" unfolding split by simp
    then have "i \<in> set ids" unfolding x by (simp add: in_set_enumerate_eq) (metis nth_mem)
    then have "i < length (by_before m)" by (rule assms)
    then show "valid (case x of (before_position, i) \<Rightarrow>
       wbind (charge 1) (\<lambda>_.
       wbind (wlift (index_at (by_before m) i)) (\<lambda>rec.
       case rec of
         None \<Rightarrow> wreturn xs
       | Some r \<Rightarrow>
           if \<not> is_exact_relation r then wreturn xs
           else (case pos (ref_id (rel_after r)) of
                   None \<Rightarrow> wreturn xs
                 | Some after_position \<Rightarrow> wreturn (xs @ [(before_position, after_position)]))))) work_failure
       (\<lambda>xs. xs = List.map_filter (anchor_at m pos) (ys @ [x]))"
      unfolding x prod.case xs map_filter_snoc
      by (intro valid_charge_bind) (auto simp: anchor_at_def split: option.splits intro!: valid_return)
  qed (simp add: List.map_filter_def)
  then show ?thesis by (simp add: anchor_list_def)
qed

lemma positions_Some:
  assumes "positions ids j = Some p"
  shows "p < length ids" "ids ! p = j"
proof -
  have "(j, p) \<in> set (zip ids [0..<length ids])"
    using map_of_SomeD [OF assms [unfolded positions_def]] by simp
  then show "p < length ids" "ids ! p = j" by (auto simp: in_set_zip)
qed

text \<open>An anchor joins two child positions whose nodes are exactly related.\<close>

lemma anchor_list_member:
  assumes m: "verified to_hex before after rs m" and ids: "\<And>i. i \<in> set ids \<Longrightarrow> i < length (ps_nodes before)"
    and p: "(p, q) \<in> set (anchor_list m (positions js) ids)"
  shows "p < length ids" "q < length js" "exact_before m (ids ! p)" "exact_after m (js ! q)"
proof -
  from p obtain i where i: "(p, i) \<in> set (enumerate 0 ids)" "anchor_at m (positions js) (p, i) = Some (p, q)"
    unfolding anchor_list_def set_map_filter by (auto simp: anchor_at_def split: option.splits if_splits)
  then have ip: "p < length ids" "i = ids ! p" by (auto simp: in_set_enumerate_eq)
  then have len: "i < length (ps_nodes before)" using ids by simp
  obtain r where r: "by_before m ! i = Some r" "is_exact_relation r" "positions js (after_id r) = Some q"
    using i(2) by (auto simp: anchor_at_def split: option.splits if_splits)
  show "p < length ids" "q < length js" using ip positions_Some [OF r(3)] by simp_all
  show exact: "exact_before m (ids ! p)" using r ip by (simp add: exact_before_def)
  have "r \<in> set rs" "before_id r = i" using verified_facts(4) [OF m len, of r] r(1) by simp_all
  then have "after_to_before m ! (js ! q) = Some i"
    using verified_relation_mapped(5) [OF m] positions_Some(2) [OF r(3)] by simp
  then show "exact_after m (js ! q)" using exact ip by (simp add: exact_after_def)
qed

lemma anchor_list_sorted: "sorted_wrt (<) (map fst (anchor_list m pos ids))"
proof -
  have "sorted_wrt (<) (map fst (List.map_filter (anchor_at m pos) xs))" if "sorted_wrt (<) (map fst xs)" for xs :: "(nat \<times> nat) list"
    using that
  proof (induction xs)
    case (Cons x xs)
    have "fst y = fst x" if "anchor_at m pos x = Some y" for x y :: "nat \<times> nat"
      using that by (auto simp: anchor_at_def split: option.splits if_splits)
    with Cons show ?case
      by (auto simp: List.map_filter_simps set_map_filter split: option.split) (metis fst_conv)
  qed (simp add: List.map_filter_simps)
  then show ?thesis by (simp add: anchor_list_def enumerate_eq_zip)
qed

definition keeps_order :: "(nat \<times> nat) list \<Rightarrow> nat \<times> nat \<Rightarrow> bool" where
  "keeps_order anchors p \<longleftrightarrow> (\<forall>q\<in>set anchors. fst p \<noteq> fst q \<longrightarrow> (fst p < fst q \<longleftrightarrow> snd p < snd q))"

lemma valid_is_barrier: "valid (is_barrier anchors p) work_failure (\<lambda>b. b \<longleftrightarrow> keeps_order anchors p)"
  unfolding is_barrier_def
  by (rule valid_conseq [OF valid_wall
        [where P = "\<lambda>q. \<not> (fst p \<noteq> fst q \<and> (fst p < fst q) \<noteq> (snd p < snd q))"]])
    (auto simp: keeps_order_def intro!: valid_charge_bind valid_return)

lemma valid_order_barriers:
  "valid (order_barriers anchors) work_failure (\<lambda>bs. bs = filter (keeps_order anchors) anchors)"
  unfolding order_barriers_def
  by (rule valid_fold_prefix [where I = "\<lambda>ys bs. bs = filter (keeps_order anchors) ys"])
    (auto intro!: valid_bind [OF valid_is_barrier] valid_return)

definition strictly_below :: "nat \<times> nat \<Rightarrow> nat \<times> nat \<Rightarrow> bool" where
  "strictly_below p q \<longleftrightarrow> fst p < fst q \<and> snd p < snd q"

lemma barriers_increasing:
  assumes "sorted_wrt (<) (map fst anchors)"
  shows "sorted_wrt strictly_below (filter (keeps_order anchors) anchors)"
proof -
  have "sorted_wrt strictly_below (filter (keeps_order anchors) xs)"
    if "sorted_wrt (<) (map fst xs)" "set xs \<subseteq> set anchors" for xs
    using that
  proof (induction xs)
    case (Cons x xs)
    have "strictly_below x y" if "y \<in> set xs" "keeps_order anchors x" for y
    proof -
      have "fst x < fst y" "y \<in> set anchors" using that(1) Cons.prems by auto
      then show ?thesis using that(2) unfolding strictly_below_def keeps_order_def by (metis less_irrefl)
    qed
    then show ?case using Cons by simp
  qed simp
  then show ?thesis using assms by simp
qed

section \<open>The regions\<close>

definition segment :: "('a \<Rightarrow> bool) \<Rightarrow> 'a list \<Rightarrow> nat \<Rightarrow> nat \<Rightarrow> 'a list" where
  "segment p xs a b = filter p (take (b - a) (drop a xs))"

lemma valid_collect_region:
  assumes m: "verified to_hex before after rs m"
    and bc: "\<And>i. i \<in> set bc \<Longrightarrow> i < length (ps_nodes before)" and ac: "\<And>j. j \<in> set ac \<Longrightarrow> j < length (ps_nodes after)"
    and le: "a \<le> c" "c \<le> length bc" "b \<le> d" "d \<le> length ac"
  shows "valid (collect_region m bc ac (regions, a, b) (c, d)) work_failure
    (\<lambda>s. s = (regions @ [(segment (\<lambda>i. \<not> exact_before m i) bc a c, segment (\<lambda>j. \<not> exact_after m j) ac b d)],
              usize_saturating_add c 1, usize_saturating_add d 1))"
proof -
  have 1: "filter_result (\<lambda>i. rbind (is_exact_before m i) (\<lambda>e. Inr (\<not> e))) (take (c - a) (drop a bc)) =
      Inr (segment (\<lambda>i. \<not> exact_before m i) bc a c)"
    unfolding segment_def
    by (rule filter_result_pure) (use bc exact_tests(1) [OF m] in \<open>auto dest!: in_set_takeD in_set_dropD\<close>)
  have 2: "filter_result (\<lambda>j. rbind (is_exact_after m j) (\<lambda>e. Inr (\<not> e))) (take (d - b) (drop b ac)) =
      Inr (segment (\<lambda>j. \<not> exact_after m j) ac b d)"
    unfolding segment_def
    by (rule filter_result_pure) (use ac exact_tests(2) [OF m] in \<open>auto dest!: in_set_takeD in_set_dropD\<close>)
  show ?thesis
    unfolding collect_region_def Let_def prod.case usize_sub_ok [OF le(1)] usize_sub_ok [OF le(3)]
      slice_ok [OF le(1,2)] slice_ok [OF le(3,4)] rbind_simps 1 2 wlift_simps wbind_wreturn
    by (intro valid_charge_bind valid_return) simp_all
qed

text \<open>A region holds the children of the two parents that are not exactly related, in order.\<close>

definition region_within :: "verified_mappings \<Rightarrow> nat list \<Rightarrow> nat list \<Rightarrow> region \<Rightarrow> bool" where
  "region_within m bc ac r \<longleftrightarrow>
     sorted_wrt (<) (fst r) \<and> set (fst r) \<subseteq> {i \<in> set bc. \<not> exact_before m i} \<and>
     sorted_wrt (<) (snd r) \<and> set (snd r) \<subseteq> {j \<in> set ac. \<not> exact_after m j}"

lemma segment_within: "sorted_wrt (<) xs \<Longrightarrow> sorted_wrt (<) (segment p xs a b) \<and> set (segment p xs a b) \<subseteq> {x \<in> set xs. p x}"
  by (auto simp: segment_def sorted_wrt_filter sorted_wrt_take sorted_wrt_drop dest!: in_set_takeD in_set_dropD)

lemma segment_extend:
  assumes "a \<le> c" "c < length xs" "\<not> p (xs ! c)"
  shows "filter p (take a xs) @ segment p xs a c = filter p (take (Suc c) xs)"
proof -
  have "take (Suc c) xs = take a xs @ take (c - a) (drop a xs) @ [xs ! c]"
    using assms(1,2) take_drop_join [of 0 a c xs] by (simp add: take_Suc_conv_app_nth)
  then show ?thesis using assms(3) by (simp add: segment_def)
qed

lemma segment_finish:
  assumes "a \<le> length xs"
  shows "filter p (take a xs) @ segment p xs a (length xs) = filter p xs"
  using assms take_drop_join [of 0 a "length xs" xs] unfolding segment_def by (simp flip: filter_append)

text \<open>The loop over the barriers, followed by the end of both child lists.\<close>

definition region_starts :: "(nat \<times> nat) list \<Rightarrow> nat \<times> nat" where
  "region_starts ys = (if ys = [] then (0, 0) else (Suc (fst (last ys)), Suc (snd (last ys))))"

definition regions_loop :: "verified_mappings \<Rightarrow> nat list \<Rightarrow> nat list \<Rightarrow> (nat \<times> nat) list \<Rightarrow> region list \<times> nat \<times> nat \<Rightarrow> bool" where
  "regions_loop m bc ac ys s \<longleftrightarrow>
     (\<forall>r\<in>set (fst s). region_within m bc ac r) \<and>
     fst (snd s) \<le> fst (region_starts ys) \<and> snd (snd s) \<le> snd (region_starts ys) \<and>
     (length bc < usize_max \<longrightarrow> length ac < usize_max \<longrightarrow>
        snd s = region_starts ys \<and>
        concat (map fst (fst s)) = filter (\<lambda>i. \<not> exact_before m i) (take (fst (snd s)) bc) \<and>
        concat (map snd (fst s)) = filter (\<lambda>j. \<not> exact_after m j) (take (snd (snd s)) ac))"

lemma saturating_suc: "usize_saturating_add a 1 \<le> Suc a" "a < usize_max \<Longrightarrow> usize_saturating_add a 1 = Suc a"
  by (simp_all add: usize_saturating_add_def)

lemma valid_region_step:
  assumes m: "verified to_hex before after rs m"
    and bc: "\<And>i. i \<in> set bc \<Longrightarrow> i < length (ps_nodes before)" and ac: "\<And>j. j \<in> set ac \<Longrightarrow> j < length (ps_nodes after)"
    and sorted: "sorted_wrt (<) bc" "sorted_wrt (<) ac"
    and s: "regions_loop m bc ac ys s"
    and le: "fst (region_starts ys) \<le> c" "c \<le> length bc" "snd (region_starts ys) \<le> d" "d \<le> length ac"
    and ends: "(c < length bc \<and> exact_before m (bc ! c) \<or> c = length bc)"
      "(d < length ac \<and> exact_after m (ac ! d) \<or> d = length ac)"
  shows "valid (collect_region m bc ac s (c, d)) work_failure (regions_loop m bc ac (ys @ [(c, d)]))"
proof -
  obtain regions a b where [simp]: "s = (regions, a, b)" by (metis prod_cases3)
  have ab: "a \<le> c" "b \<le> d" using s le by (simp_all add: regions_loop_def)
  let ?nb = "\<lambda>i. \<not> exact_before m i" and ?na = "\<lambda>j. \<not> exact_after m j"
  have join1: "filter ?nb (take a bc) @ segment ?nb bc a c = filter ?nb (take (Suc c) bc)"
    using ends(1) segment_extend [of a c bc ?nb] segment_finish [of a bc ?nb] ab(1) by auto
  have join2: "filter ?na (take b ac) @ segment ?na ac b d = filter ?na (take (Suc d) ac)"
    using ends(2) segment_extend [of b d ac ?na] segment_finish [of b ac ?na] ab(2) by auto
  show ?thesis
    unfolding \<open>s = (regions, a, b)\<close>
  proof (rule valid_conseq [OF valid_collect_region [OF m bc ac ab(1) le(2) ab(2) le(4)]])
    fix s'
    assume s': "s' = (regions @ [(segment ?nb bc a c, segment ?na ac b d)], usize_saturating_add c 1, usize_saturating_add d 1)"
    have "region_within m bc ac (segment ?nb bc a c, segment ?na ac b d)"
      using segment_within [OF sorted(1), of ?nb a c] segment_within [OF sorted(2), of ?na b d]
      by (auto simp: region_within_def)
    moreover have "usize_saturating_add c 1 = Suc c \<and> usize_saturating_add d 1 = Suc d"
      if "length bc < usize_max" "length ac < usize_max"
      using that le saturating_suc(2) by simp
    ultimately show "regions_loop m bc ac (ys @ [(c, d)]) s'"
      using s join1 join2 saturating_suc(1) [of c] saturating_suc(1) [of d]
      by (auto simp: s' regions_loop_def region_starts_def)
  qed simp_all
qed

text \<open>The regions of one pair of mapped parents.\<close>

definition regions_of :: "parsed_syntax \<Rightarrow> parsed_syntax \<Rightarrow> verified_mappings \<Rightarrow> nat \<Rightarrow> nat \<Rightarrow> region list \<Rightarrow> bool" where
  "regions_of before after m p q regions \<longleftrightarrow>
     (let bc = node_children (ps_nodes before ! p); ac = node_children (ps_nodes after ! q) in
      (\<forall>r\<in>set regions. region_within m bc ac r) \<and>
      (length bc < usize_max \<longrightarrow> length ac < usize_max \<longrightarrow>
         concat (map fst regions) = filter (\<lambda>i. \<not> exact_before m i) bc \<and>
         concat (map snd regions) = filter (\<lambda>j. \<not> exact_after m j) ac))"

lemma valid_ordered_alignment_regions:
  assumes wf: "wf_syntax before" "wf_syntax after" and m: "verified to_hex before after rs m"
    and p: "p < length (ps_nodes before)" and q: "q < length (ps_nodes after)"
  shows "valid (ordered_alignment_regions before after m p q) work_failure (regions_of before after m p q)"
proof -
  let ?bc = "node_children (ps_nodes before ! p)" and ?ac = "node_children (ps_nodes after ! q)"
  have bc: "i < length (ps_nodes before)" if "i \<in> set ?bc" for i by (rule wf_child(2) [OF wf(1) p that])
  have ac: "j < length (ps_nodes after)" if "j \<in> set ?ac" for j by (rule wf_child(2) [OF wf(2) q that])
  have rec: "i < length (by_before m)" if "i \<in> set ?bc" for i using bc [OF that] verified_facts(3) [OF m] by simp
  let ?anchors = "anchor_list m (positions ?ac) ?bc"
  let ?barriers = "filter (keeps_order ?anchors) ?anchors"
  let ?ends = "?barriers @ [(length ?bc, length ?ac)]"
  have barrier: "x < length ?bc \<and> y < length ?ac \<and> exact_before m (?bc ! x) \<and> exact_after m (?ac ! y)"
    if "(x, y) \<in> set ?barriers" for x y
    using anchor_list_member [OF m bc] that by auto
  have sorted: "sorted_wrt strictly_below ?ends"
    using barriers_increasing [OF anchor_list_sorted] barrier
    by (fastforce simp: sorted_wrt_append strictly_below_def)
  have "valid (wfold (collect_region m ?bc ?ac) ([], 0, 0) ?ends) work_failure (regions_loop m ?bc ?ac ?ends)"
  proof (rule valid_fold_prefix)
    show "regions_loop m ?bc ?ac [] ([], 0, 0)" by (simp add: regions_loop_def region_starts_def)
  next
    fix ys x zs s
    assume split: "?ends = ys @ x # zs" and s: "regions_loop m ?bc ?ac ys s"
    obtain c d where x: "x = (c, d)" by (cases x)
    have "(c, d) \<in> set ?ends" unfolding split x by simp
    then have "(c, d) \<in> set ?barriers \<or> (c, d) = (length ?bc, length ?ac)" by auto
    then have ends: "c < length ?bc \<and> exact_before m (?bc ! c) \<or> c = length ?bc"
      "d < length ?ac \<and> exact_after m (?ac ! d) \<or> d = length ?ac"
      using barrier [of c d] by auto
    have starts: "fst (region_starts ys) \<le> c" "snd (region_starts ys) \<le> d"
    proof -
      have "strictly_below (last ys) (c, d)" if "ys \<noteq> []"
        using sorted that unfolding split x by (simp add: sorted_wrt_append)
      then show "fst (region_starts ys) \<le> c" "snd (region_starts ys) \<le> d"
        by (auto simp: region_starts_def strictly_below_def)
    qed
    show "valid (collect_region m ?bc ?ac s x) work_failure (regions_loop m ?bc ?ac (ys @ [x]))"
      unfolding x
      by (rule valid_region_step [OF m bc ac wf_children_sorted(1) [OF wf(1) p] wf_children_sorted(1) [OF wf(2) q] s
            starts(1) _ starts(2) _ ends])
        (use ends in auto)
  qed
  then have loop: "valid (wbind (wfold (collect_region m ?bc ?ac) ([], 0, 0) ?ends) (\<lambda>s. wreturn (fst s))) work_failure
      (regions_of before after m p q)"
    by (rule valid_bind)
      (auto simp: regions_of_def regions_loop_def region_starts_def Let_def intro!: valid_return)
  show ?thesis
    unfolding ordered_alignment_regions_def index_at_ok [OF p] index_at_ok [OF q] wlift_simps wbind_wreturn Let_def
    by (rule valid_charge_bind, simp, rule valid_bind [OF valid_exact_anchors [OF rec]], assumption, hypsubst,
        rule valid_bind [OF valid_order_barriers], hypsubst, rule loop)
qed

section \<open>The phase mappings\<close>

lemma zip_member_cases:
  assumes "x \<in> set (zip xs ys)"
  obtains c d where "x = (c, d)" "c \<in> set xs" "d \<in> set ys"
  using assms zip_members by (metis prod.exhaust)


definition phase_ok :: "parsed_syntax \<Rightarrow> parsed_syntax \<Rightarrow> verified_mappings \<Rightarrow> phase_mappings \<Rightarrow> bool" where
  "phase_ok before after m phase \<longleftrightarrow>
     length (pm_before_to_after phase) = length (ps_nodes before) \<and>
     length (pm_after_to_before phase) = length (ps_nodes after) \<and>
     (\<forall>i<length (ps_nodes before). \<forall>j. pm_before_to_after phase ! i = Some j \<longrightarrow> before_to_after m ! i = Some j) \<and>
     (\<forall>j<length (ps_nodes after). \<forall>i. pm_after_to_before phase ! j = Some i \<longrightarrow> after_to_before m ! j = Some i)"

lemma phase_okD:
  assumes "phase_ok before after m phase"
  shows "length (pm_before_to_after phase) = length (ps_nodes before)"
    "length (pm_after_to_before phase) = length (ps_nodes after)"
    "i < length (ps_nodes before) \<Longrightarrow> pm_before_to_after phase ! i = Some j \<Longrightarrow> before_to_after m ! i = Some j"
    "j < length (ps_nodes after) \<Longrightarrow> pm_after_to_before phase ! j = Some i \<Longrightarrow> after_to_before m ! j = Some i"
  using assms unfolding phase_ok_def by blast+

lemma phase_ok_mark:
  assumes "phase_ok before after m phase" "before_to_after m ! i = Some j" "after_to_before m ! j = Some i"
    "i < length (ps_nodes before)" "j < length (ps_nodes after)"
  shows "phase_ok before after m \<lparr>pm_before_to_after = (pm_before_to_after phase)[i := Some j],
     pm_after_to_before = (pm_after_to_before phase)[j := Some i]\<rparr>"
proof -
  note ok = phase_okD [OF assms(1)]
  show ?thesis
    unfolding phase_ok_def
    using ok(1,2) ok(3) ok(4) assms(2-5) by (auto simp: nth_list_update split: if_splits)
qed

lemma phase_ok_empty:
  "phase_ok before after m \<lparr>pm_before_to_after = replicate (length (ps_nodes before)) None,
     pm_after_to_before = replicate (length (ps_nodes after)) None\<rparr>"
  by (simp add: phase_ok_def)

definition phase_failure :: "failure \<Rightarrow> bool" where
  "phase_failure e \<longleftrightarrow> work_failure e \<or> e = CoreFailure PhaseIncomplete"

lemma phase_failure_work [simp]: "work_failure e \<Longrightarrow> phase_failure e"
  by (simp add: phase_failure_def)

lemma phase_failure_safe: "phase_failure e \<Longrightarrow> safe e"
  by (auto simp: phase_failure_def)

text \<open>The exact certificates of the phases never conflict: the relations are one-to-one.\<close>

lemma valid_mark_phase_fuel:
  assumes wf: "wf_syntax before" "wf_syntax after" and m: "verified to_hex before after rs m"
  shows "i < length (ps_nodes before) \<Longrightarrow> j < length (ps_nodes after) \<Longrightarrow> length (ps_nodes before) < fuel + i \<Longrightarrow>
    phase_ok before after m phase \<Longrightarrow>
    valid (mark_phase_subtree_fuel fuel before after m i j phase) phase_failure (phase_ok before after m)"
proof (induction fuel arbitrary: i j phase)
  case (Suc fuel)
  note ok = phase_okD [OF Suc.prems(4)]
  note i = Suc.prems(1) and j = Suc.prems(2)
  have len: "i < length (before_to_after m)" "i < length (pm_before_to_after phase)" "j < length (pm_after_to_before phase)"
    using i j ok(1,2) verified_facts(1) [OF m] by simp_all
  show ?case
  proof (cases "before_to_after m ! i = Some j")
    case False
    then show ?thesis
      using len(1) by (auto simp: phase_failure_def wensure_def intro!: valid_charge_bind valid_fail)
  next
    case True
    then have inverse_pair: "after_to_before m ! j = Some i" using verified_facts(6) [OF m i j] by simp
    have b: "\<not> (pm_before_to_after phase ! i \<noteq> None \<and> pm_before_to_after phase ! i \<noteq> Some j)"
      using ok(3) [OF i] True by (metis not_Some_eq)
    have a: "\<not> (pm_after_to_before phase ! j \<noteq> None \<and> pm_after_to_before phase ! j \<noteq> Some i)"
      using ok(4) [OF j] inverse_pair by (metis not_Some_eq)
    let ?phase = "\<lparr>pm_before_to_after = (pm_before_to_after phase)[i := Some j],
       pm_after_to_before = (pm_after_to_before phase)[j := Some i]\<rparr>"
    have loop: "valid (wfold (\<lambda>phase (before_child, after_child).
           mark_phase_subtree_fuel fuel before after m before_child after_child phase) ?phase
         (zip (node_children (ps_nodes before ! i)) (node_children (ps_nodes after ! j))))
       phase_failure (phase_ok before after m)"
    proof (rule valid_fold)
      show "phase_ok before after m ?phase" by (rule phase_ok_mark [OF Suc.prems(4) True inverse_pair i j])
    next
      fix x s assume "x \<in> set (zip (node_children (ps_nodes before ! i)) (node_children (ps_nodes after ! j)))"
        and s: "phase_ok before after m s"
      then obtain c d where x: "x = (c, d)" "c \<in> set (node_children (ps_nodes before ! i))"
        "d \<in> set (node_children (ps_nodes after ! j))" by (blast elim: zip_member_cases)
      have "valid (mark_phase_subtree_fuel fuel before after m c d s) phase_failure (phase_ok before after m)"
        using wf_child(1,2) [OF wf(1) i x(2)] wf_child(2) [OF wf(2) j x(3)] Suc.prems(3) s
        by (intro Suc.IH) simp_all
      then show "valid (case x of (before_child, after_child) \<Rightarrow>
           mark_phase_subtree_fuel fuel before after m before_child after_child s) phase_failure (phase_ok before after m)"
        by (simp add: x)
    qed
    show ?thesis
      unfolding mark_phase_subtree_fuel.simps index_at_ok [OF len(1)] index_at_ok [OF len(2)] index_at_ok [OF len(3)]
        index_at_ok [OF i] index_at_ok [OF j] set_at_ok [OF len(2)] set_at_ok [OF len(3)] wlift_simps wbind_wreturn
        True if_not_P [OF b]
      using a loop by (auto simp: wensure_def intro!: valid_charge_bind)
  qed
qed simp

lemma valid_global_phase_mappings:
  assumes wf: "wf_syntax before" "wf_syntax after" and m: "verified to_hex before after rs m"
  shows "valid (global_phase_mappings before after m) phase_failure (phase_ok before after m)"
  unfolding global_phase_mappings_def
proof (intro valid_charge_bind)
  show "valid (wfold (\<lambda>phase r. mark_phase_subtree before after m (before_id r) (after_id r) phase)
         \<lparr>pm_before_to_after = replicate (length (ps_nodes before)) None,
          pm_after_to_before = replicate (length (ps_nodes after)) None\<rparr>
         (filter (\<lambda>r. has_evidence r GLOBAL_ANCHOR_EVIDENCE) (relation_records m)))
      phase_failure (phase_ok before after m)"
  proof (rule valid_fold, rule phase_ok_empty)
    fix r s assume "r \<in> set (filter (\<lambda>r. has_evidence r GLOBAL_ANCHOR_EVIDENCE) (relation_records m))"
      and s: "phase_ok before after m s"
    then have "r \<in> set rs" using verified_records [OF m] by simp
    from verified_relation_mapped(1,2) [OF m this] s
    show "valid (mark_phase_subtree before after m (before_id r) (after_id r) s) phase_failure (phase_ok before after m)"
      unfolding mark_phase_subtree_def by (intro valid_mark_phase_fuel [OF wf m]) simp_all
  qed
qed (simp_all add: phase_failure_def)

text \<open>Two subtrees are compatible when they have one shape of child counts and no node of either is
  recorded with another partner.\<close>

definition agrees :: "phase_mappings \<Rightarrow> nat \<Rightarrow> nat \<Rightarrow> bool" where
  "agrees phase i j \<longleftrightarrow>
     (pm_before_to_after phase ! i = None \<or> pm_before_to_after phase ! i = Some j) \<and>
     (pm_after_to_before phase ! j = None \<or> pm_after_to_before phase ! j = Some i)"

definition compatible :: "parsed_syntax \<Rightarrow> parsed_syntax \<Rightarrow> phase_mappings \<Rightarrow> nat \<Rightarrow> nat \<Rightarrow> bool" where
  "compatible before after phase i j \<longleftrightarrow>
     (\<forall>x y. (x, y) = (i, j) \<or> isomorphic_path before after i j x y \<longrightarrow>
        agrees phase x y \<and> length (node_children (ps_nodes before ! x)) = length (node_children (ps_nodes after ! y)))"

lemma compatible_unfold:
  "compatible before after phase i j \<longleftrightarrow>
     agrees phase i j \<and> length (node_children (ps_nodes before ! i)) = length (node_children (ps_nodes after ! j)) \<and>
     (\<forall>(c, d) \<in> set (zip (node_children (ps_nodes before ! i)) (node_children (ps_nodes after ! j))).
        compatible before after phase c d)" (is "?l \<longleftrightarrow> ?r")
proof
  assume l: ?l
  then have "agrees phase i j \<and> length (node_children (ps_nodes before ! i)) = length (node_children (ps_nodes after ! j))"
    unfolding compatible_def by blast
  moreover have "compatible before after phase c d"
    if "(c, d) \<in> set (zip (node_children (ps_nodes before ! i)) (node_children (ps_nodes after ! j)))" for c d
    unfolding compatible_def
  proof (intro allI impI)
    fix x y assume "(x, y) = (c, d) \<or> isomorphic_path before after c d x y"
    then have "isomorphic_path before after i j x y" using that child descend by blast
    then show "agrees phase x y \<and> length (node_children (ps_nodes before ! x)) = length (node_children (ps_nodes after ! y))"
      using l unfolding compatible_def by blast
  qed
  ultimately show ?r by blast
next
  assume r: ?r
  show ?l
    unfolding compatible_def
  proof (intro allI impI)
    fix x y assume "(x, y) = (i, j) \<or> isomorphic_path before after i j x y"
    then show "agrees phase x y \<and> length (node_children (ps_nodes before ! x)) = length (node_children (ps_nodes after ! y))"
    proof
      assume "isomorphic_path before after i j x y"
      then obtain c d where "(c, d) \<in> set (zip (node_children (ps_nodes before ! i)) (node_children (ps_nodes after ! j)))"
        "(x, y) = (c, d) \<or> isomorphic_path before after c d x y"
        by (cases rule: isomorphic_path.cases) blast+
      then show ?thesis using r unfolding compatible_def by blast
    qed (use r in simp)
  qed
qed

lemma valid_compatible_fuel:
  assumes wf: "wf_syntax before" "wf_syntax after" and ok: "phase_ok before after m phase"
  shows "i < length (ps_nodes before) \<Longrightarrow> j < length (ps_nodes after) \<Longrightarrow> length (ps_nodes before) < fuel + i \<Longrightarrow>
    valid (phase_mappings_are_compatible_fuel fuel before after phase i j) work_failure
      (\<lambda>b. b \<longleftrightarrow> compatible before after phase i j)"
proof (induction fuel arbitrary: i j)
  case (Suc fuel)
  note i = Suc.prems(1) and j = Suc.prems(2)
  let ?zip = "zip (node_children (ps_nodes before ! i)) (node_children (ps_nodes after ! j))"
  have len: "i < length (pm_before_to_after phase)" "j < length (pm_after_to_before phase)"
    using i j phase_okD(1,2) [OF ok] by simp_all
  have loop: "valid (wall (\<lambda>(before_child, after_child).
          phase_mappings_are_compatible_fuel fuel before after phase before_child after_child) ?zip) work_failure
      (\<lambda>b. b \<longleftrightarrow> (\<forall>x\<in>set ?zip. case x of (c, d) \<Rightarrow> compatible before after phase c d))"
  proof (rule valid_wall)
    fix x assume "x \<in> set ?zip"
    then obtain c d where x: "x = (c, d)" "c \<in> set (node_children (ps_nodes before ! i))"
      "d \<in> set (node_children (ps_nodes after ! j))" by (rule zip_member_cases)
    have "valid (phase_mappings_are_compatible_fuel fuel before after phase c d) work_failure
        (\<lambda>b. b \<longleftrightarrow> compatible before after phase c d)"
      using wf_child(1,2) [OF wf(1) i x(2)] wf_child(2) [OF wf(2) j x(3)] Suc.prems(3)
      by (intro Suc.IH) simp_all
    then show "valid (case x of (before_child, after_child) \<Rightarrow>
          phase_mappings_are_compatible_fuel fuel before after phase before_child after_child) work_failure
        (\<lambda>b. b \<longleftrightarrow> (case x of (c, d) \<Rightarrow> compatible before after phase c d))"
      by (simp add: x)
  qed
  have unfold: "compatible before after phase i j \<longleftrightarrow>
     agrees phase i j \<and> length (node_children (ps_nodes before ! i)) = length (node_children (ps_nodes after ! j)) \<and>
     (\<forall>x\<in>set ?zip. case x of (c, d) \<Rightarrow> compatible before after phase c d)"
    by (rule compatible_unfold)
  show ?case
    unfolding phase_mappings_are_compatible_fuel.simps index_at_ok [OF len(1)] index_at_ok [OF len(2)]
      index_at_ok [OF i] index_at_ok [OF j] wlift_simps wbind_wreturn unfold agrees_def
    by (rule valid_charge_bind, simp,
        cases "pm_before_to_after phase ! i \<noteq> None \<and> pm_before_to_after phase ! i \<noteq> Some j";
        cases "pm_after_to_before phase ! j \<noteq> None \<and> pm_after_to_before phase ! j \<noteq> Some i";
        cases "length (node_children (ps_nodes before ! i)) = length (node_children (ps_nodes after ! j))")
      (auto intro!: valid_return valid_conseq [OF loop])
qed simp

lemma valid_phase_compatible:
  assumes "wf_syntax before" "wf_syntax after" "phase_ok before after m phase"
    "i < length (ps_nodes before)" "j < length (ps_nodes after)"
  shows "valid (phase_mappings_are_compatible before after phase i j) work_failure
    (\<lambda>b. b \<longleftrightarrow> compatible before after phase i j)"
  unfolding phase_mappings_are_compatible_def using assms by (intro valid_compatible_fuel) simp_all

section \<open>Properties\<close>

text \<open>C19: the regions of a mapped pair of parents partition its children. Whatever the budget, \<open>ordered_alignment_regions\<close>
  either exhausts it or returns regions whose before sides, in order, are exactly the children that are not exactly
  related, and likewise for the after sides; each side keeps the order of the children. In particular no slice is
  out of range and no subtraction of region bounds underflows.\<close>

theorem regions_partition:
  assumes "wf_syntax before" "wf_syntax after" "verified to_hex before after rs m"
    and "p < length (ps_nodes before)" "q < length (ps_nodes after)"
  shows "valid (ordered_alignment_regions before after m p q) work_failure (regions_of before after m p q)"
  using assms by (rule valid_ordered_alignment_regions)

text \<open>C25: the compatibility test of the global phase decides its specification: no pair on a common path below two
  nodes contradicts the phase mappings, and their numbers of children agree all the way down. It fails only by
  exhausting the budget, so its recursion ends.\<close>

theorem phase_compatibility_exact:
  assumes "wf_syntax before" "wf_syntax after" "phase_ok before after m phase"
    and "i < length (ps_nodes before)" "j < length (ps_nodes after)"
  shows "valid (phase_mappings_are_compatible before after phase i j) work_failure
    (\<lambda>b. b \<longleftrightarrow> compatible before after phase i j)"
  using assms by (rule valid_phase_compatible)

end
