(* ===== verification/Recursions.thy ===== *)
theory Recursions
  imports Regions
begin

text \<open>
  The three recursions of the verifier over pairs of subtrees, \<open>certify_exact_subtree\<close>, \<open>mark_phase_subtree\<close> and
  \<open>phase_mappings_are_compatible\<close>, are modelled with fuel. On a parsed before tree the fuel is never used up, and
  any larger amount gives the same run, for all ids and all mappings.
\<close>

lemma wbind_cong: "m = m' \<Longrightarrow> (\<And>w x w'. m' w = Inr (x, w') \<Longrightarrow> f x = g x) \<Longrightarrow> wbind m f = wbind m' g"
  by (rule ext) (auto simp: wbind_def intro!: rbind_cong)

lemma wbind_lift_cong: "(\<And>x. r = Inr x \<Longrightarrow> f x = g x) \<Longrightarrow> wbind (wlift r) f = wbind (wlift r) g"
  by (cases r) simp_all

lemma wbind_tail_cong: "(\<And>x. f x = g x) \<Longrightarrow> wbind m f = wbind m g"
  by (rule wbind_cong) simp_all

lemma wfold_cong: "(\<And>s x. x \<in> set xs \<Longrightarrow> f s x = g s x) \<Longrightarrow> wfold f s xs = wfold g s xs"
  by (induction xs arbitrary: s) (auto intro!: wbind_tail_cong)

lemma wall_cong: "(\<And>x. x \<in> set xs \<Longrightarrow> f x = g x) \<Longrightarrow> wall f xs = wall g xs"
  by (induction xs) (auto intro!: wbind_tail_cong)

text \<open>Both sides descend: a child of the before node is closer to the end of the arena.\<close>

lemma zip_child:
  assumes "wf_syntax before" "i < length (ps_nodes before)"
    "(c, d) \<in> set (zip (node_children (ps_nodes before ! i)) ds)"
  shows "i < c" "c < length (ps_nodes before)"
  using wf_child(1,2) [OF assms(1,2)] set_zip_leftD [OF assms(3)] by auto

lemma certify_settles:
  assumes wf: "wf_syntax before"
  shows "length (ps_nodes before) < n + i \<Longrightarrow> 0 < n \<Longrightarrow> length (ps_nodes before) < k + i \<Longrightarrow> 0 < k \<Longrightarrow>
    certify_exact_subtree_fuel n before after m i j c = certify_exact_subtree_fuel k before after m i j c"
proof (induction n arbitrary: k i j c)
  case (Suc n)
  then obtain k' where k: "k = Suc k'" by (cases k) auto
  show ?case
    unfolding k certify_exact_subtree_fuel.simps
  proof (intro wbind_lift_cong wbind_tail_cong wfold_cong)
    fix b a s x
    assume b: "index_at (ps_nodes before) i = Inr b" and x: "x \<in> set (zip (node_children b) (node_children a))"
    obtain p q where pq: "x = (p, q)" by (cases x)
    have i: "i < length (ps_nodes before)" "b = ps_nodes before ! i" using b by (simp_all add: index_at_Inr)
    have "i < p" "p < length (ps_nodes before)" using zip_child [OF wf i(1)] x by (auto simp: pq i(2))
    then have "certify_exact_subtree_fuel n before after m p q s = certify_exact_subtree_fuel k' before after m p q s" for s
      using Suc.prems by (intro Suc.IH) (simp_all add: k)
    then show "(case x of (before_child, after_child) \<Rightarrow>
         wbind (wlift (index_at (before_to_after m) before_child)) (\<lambda>mapped.
         wbind (wensure (mapped = Some after_child) (AnchorFailure MissingDescendantRelation)) (\<lambda>_.
         wbind (wlift (index_at (by_before m) before_child)) (\<lambda>rec.
         wbind (wlift (of_option (AnchorFailure NoRelationRecord) rec)) (\<lambda>r.
         wbind (wensure (rel_correspondence r = ModelForced) (AnchorFailure DescendantNotForced)) (\<lambda>_.
         wbind (wensure (has_evidence r EXACT_DESCENDANT_EVIDENCE \<or> has_evidence r GLOBAL_ANCHOR_EVIDENCE
                  \<or> has_evidence r LOCAL_ANCHOR_EVIDENCE) (AnchorFailure DescendantEvidence)) (\<lambda>_.
         wbind (wensure (\<not> (case s before_child of None \<Rightarrow> False | Some existing \<Rightarrow> existing \<noteq> after_child))
                  (AnchorFailure CertificatesDisagree)) (\<lambda>_.
           certify_exact_subtree_fuel n before after m before_child after_child (s(before_child \<mapsto> after_child)))))))))) =
      (case x of (before_child, after_child) \<Rightarrow>
         wbind (wlift (index_at (before_to_after m) before_child)) (\<lambda>mapped.
         wbind (wensure (mapped = Some after_child) (AnchorFailure MissingDescendantRelation)) (\<lambda>_.
         wbind (wlift (index_at (by_before m) before_child)) (\<lambda>rec.
         wbind (wlift (of_option (AnchorFailure NoRelationRecord) rec)) (\<lambda>r.
         wbind (wensure (rel_correspondence r = ModelForced) (AnchorFailure DescendantNotForced)) (\<lambda>_.
         wbind (wensure (has_evidence r EXACT_DESCENDANT_EVIDENCE \<or> has_evidence r GLOBAL_ANCHOR_EVIDENCE
                  \<or> has_evidence r LOCAL_ANCHOR_EVIDENCE) (AnchorFailure DescendantEvidence)) (\<lambda>_.
         wbind (wensure (\<not> (case s before_child of None \<Rightarrow> False | Some existing \<Rightarrow> existing \<noteq> after_child))
                  (AnchorFailure CertificatesDisagree)) (\<lambda>_.
           certify_exact_subtree_fuel k' before after m before_child after_child (s(before_child \<mapsto> after_child))))))))))"
      by (simp add: pq)
  qed
qed simp

lemma mark_settles:
  assumes wf: "wf_syntax before"
  shows "length (ps_nodes before) < n + i \<Longrightarrow> 0 < n \<Longrightarrow> length (ps_nodes before) < k + i \<Longrightarrow> 0 < k \<Longrightarrow>
    mark_phase_subtree_fuel n before after m i j phase = mark_phase_subtree_fuel k before after m i j phase"
proof (induction n arbitrary: k i j phase)
  case (Suc n)
  then obtain k' where k: "k = Suc k'" by (cases k) auto
  show ?case
    unfolding k mark_phase_subtree_fuel.simps
  proof (intro wbind_lift_cong wbind_tail_cong wfold_cong)
    fix s x and bn an :: syntax_node
    assume b: "index_at (ps_nodes before) i = Inr bn" and x: "x \<in> set (zip (node_children bn) (node_children an))"
    obtain p q where pq: "x = (p, q)" by (cases x)
    have i: "i < length (ps_nodes before)" "bn = ps_nodes before ! i" using b by (simp_all add: index_at_Inr)
    have "i < p" "p < length (ps_nodes before)" using zip_child [OF wf i(1)] x by (auto simp: pq i(2))
    then have "mark_phase_subtree_fuel n before after m p q s = mark_phase_subtree_fuel k' before after m p q s"
      using Suc.prems by (intro Suc.IH) (simp_all add: k)
    then show "(case x of (before_child, after_child) \<Rightarrow> mark_phase_subtree_fuel n before after m before_child after_child s) =
      (case x of (before_child, after_child) \<Rightarrow> mark_phase_subtree_fuel k' before after m before_child after_child s)"
      by (simp add: pq)
  qed
qed simp

lemma compatible_settles:
  assumes wf: "wf_syntax before"
  shows "length (ps_nodes before) < n + i \<Longrightarrow> 0 < n \<Longrightarrow> length (ps_nodes before) < k + i \<Longrightarrow> 0 < k \<Longrightarrow>
    phase_mappings_are_compatible_fuel n before after phase i j = phase_mappings_are_compatible_fuel k before after phase i j"
proof (induction n arbitrary: k i j)
  case (Suc n)
  then obtain k' where k: "k = Suc k'" by (cases k) auto
  have step: "wall (\<lambda>(c, d). phase_mappings_are_compatible_fuel n before after phase c d) (zip (node_children bn) (node_children an)) =
      wall (\<lambda>(c, d). phase_mappings_are_compatible_fuel k' before after phase c d) (zip (node_children bn) (node_children an))"
    if b: "index_at (ps_nodes before) i = Inr bn" for bn an
  proof (rule wall_cong)
    fix x assume x: "x \<in> set (zip (node_children bn) (node_children an))"
    obtain p q where pq: "x = (p, q)" by (cases x)
    have i: "i < length (ps_nodes before)" "bn = ps_nodes before ! i" using b by (simp_all add: index_at_Inr)
    have "i < p" "p < length (ps_nodes before)" using zip_child [OF wf i(1)] x by (auto simp: pq i(2))
    then have "phase_mappings_are_compatible_fuel n before after phase p q = phase_mappings_are_compatible_fuel k' before after phase p q"
      using Suc.prems by (intro Suc.IH) (simp_all add: k)
    then show "(case x of (c, d) \<Rightarrow> phase_mappings_are_compatible_fuel n before after phase c d) =
      (case x of (c, d) \<Rightarrow> phase_mappings_are_compatible_fuel k' before after phase c d)" by (simp add: pq)
  qed
  show ?case
    unfolding k phase_mappings_are_compatible_fuel.simps
    by (intro wbind_lift_cong wbind_tail_cong if_cong refl step)
qed simp

text \<open>No run of the three ends in \<open>Diverges\<close>.\<close>

definition ends :: "failure \<Rightarrow> bool" where
  "ends e \<longleftrightarrow> e \<noteq> Diverges"

lemma ends_simps [simp]: "ends Panic" "ends (AnchorFailure a)" "ends (CoreFailure c)" "work_failure e \<Longrightarrow> ends e"
  by (auto simp: ends_def)

lemma ends_lift [simp]: "index_at xs i = Inl e \<Longrightarrow> ends e" "set_at xs i x = Inl e \<Longrightarrow> ends e"
  by (auto simp: index_at_def set_at_def split: if_splits)

lemma certify_ends:
  assumes wf: "wf_syntax before"
  shows "length (ps_nodes before) < n + i \<Longrightarrow> 0 < n \<Longrightarrow> valid (certify_exact_subtree_fuel n before after m i j c) ends (\<lambda>_. True)"
proof (induction n arbitrary: i j c)
  case (Suc n)
  show ?case
    unfolding certify_exact_subtree_fuel.simps
    apply (rule valid_charge_bind, simp)
    apply (rule valid_lift_bind, simp)
    apply (rule valid_lift_bind, simp)
    apply (rule valid_ensure_bind, simp)
    apply (rule valid_fold [where I = "\<lambda>_. True"], simp)
    subgoal premises prems for b a x s
    proof -
      obtain p q where pq: "x = (p, q)" by (cases x)
      have i: "i < length (ps_nodes before)" "b = ps_nodes before ! i" using prems(1) by (simp_all add: index_at_Inr)
      have "i < p" "p < length (ps_nodes before)" using zip_child [OF wf i(1)] prems(4) by (auto simp: pq i(2))
      then have "valid (certify_exact_subtree_fuel n before after m p q s) ends (\<lambda>_. True)" for s
        using Suc.prems by (intro Suc.IH) simp_all
      then show ?thesis
        unfolding pq prod.case
        by (intro valid_lift_bind valid_ensure_bind) (auto simp: of_option_iff)
    qed
    done
qed simp

lemma mark_ends:
  assumes wf: "wf_syntax before"
  shows "length (ps_nodes before) < n + i \<Longrightarrow> 0 < n \<Longrightarrow> valid (mark_phase_subtree_fuel n before after m i j phase) ends (\<lambda>_. True)"
proof (induction n arbitrary: i j phase)
  case (Suc n)
  have fold: "valid (wfold (\<lambda>phase (c, d). mark_phase_subtree_fuel n before after m c d phase) s (zip (node_children bn) ds)) ends (\<lambda>_. True)"
    if "index_at (ps_nodes before) i = Inr bn" for bn ds s
  proof (rule valid_fold [where I = "\<lambda>_. True"])
    fix x s assume x: "x \<in> set (zip (node_children bn) ds)"
    obtain p q where pq: "x = (p, q)" by (cases x)
    have i: "i < length (ps_nodes before)" "bn = ps_nodes before ! i" using that by (simp_all add: index_at_Inr)
    have "i < p" "p < length (ps_nodes before)" using zip_child [OF wf i(1)] x by (auto simp: pq i(2))
    then show "valid (case x of (c, d) \<Rightarrow> mark_phase_subtree_fuel n before after m c d s) ends (\<lambda>_. True)"
      using Suc.prems by (simp add: pq Suc.IH)
  qed simp
  show ?case
    unfolding mark_phase_subtree_fuel.simps
    by (intro valid_charge_bind valid_lift_bind valid_ensure_bind fold
        valid_bind [where P = "\<lambda>_. True"] valid_if valid_return) simp_all
qed simp

lemma valid_wall_ends:
  "(\<And>x. x \<in> set xs \<Longrightarrow> valid (f x) E (\<lambda>_. True)) \<Longrightarrow> valid (wall f xs) E (\<lambda>_. True)"
proof (induction xs)
  case (Cons x xs)
  have "valid (f x) E (\<lambda>_. True)" "valid (wall f xs) E (\<lambda>_. True)" using Cons by auto
  then show ?case by (auto intro!: valid_bind vc)
qed (simp add: valid_return)

lemma compatible_ends:
  assumes wf: "wf_syntax before"
  shows "length (ps_nodes before) < n + i \<Longrightarrow> 0 < n \<Longrightarrow> valid (phase_mappings_are_compatible_fuel n before after phase i j) ends (\<lambda>_. True)"
proof (induction n arbitrary: i j)
  case (Suc n)
  have each: "valid (wall (\<lambda>(c, d). phase_mappings_are_compatible_fuel n before after phase c d) (zip (node_children bn) ds)) ends (\<lambda>_. True)"
    if "index_at (ps_nodes before) i = Inr bn" for bn ds
  proof -
    have "valid (case x of (c, d) \<Rightarrow> phase_mappings_are_compatible_fuel n before after phase c d) ends (\<lambda>_. True)"
      if x: "x \<in> set (zip (node_children bn) ds)" for x
    proof -
      obtain p q where pq: "x = (p, q)" by (cases x)
      have i: "i < length (ps_nodes before)" "bn = ps_nodes before ! i"
        using \<open>index_at (ps_nodes before) i = Inr bn\<close> by (simp_all add: index_at_Inr)
      have "i < p" "p < length (ps_nodes before)" using zip_child [OF wf i(1)] x by (auto simp: pq i(2))
      then show ?thesis using Suc.prems by (simp add: pq Suc.IH)
    qed
    then show ?thesis by (rule valid_wall_ends)
  qed
  show ?case
    unfolding phase_mappings_are_compatible_fuel.simps
    by (intro valid_charge_bind valid_lift_bind valid_bind [where P = "\<lambda>_. True"] valid_if valid_return each) simp_all
qed simp

section \<open>Properties\<close>

text \<open>C27: the recursions over pairs of subtrees end on every parsed before tree, for all ids, mappings and after trees: none
  of them runs out of fuel, and more fuel never changes a run, so the fuelled model is the recursion itself.\<close>

theorem recursions_end:
  assumes "wf_syntax before" "length (ps_nodes before) < n"
  shows "certify_exact_subtree_fuel n before after m i j c = certify_exact_subtree before after m i j c \<and>
    mark_phase_subtree_fuel n before after m i j phase = mark_phase_subtree before after m i j phase \<and>
    phase_mappings_are_compatible_fuel n before after phase i j = phase_mappings_are_compatible before after phase i j \<and>
    certify_exact_subtree before after m i j c w \<noteq> Inl Diverges \<and>
    mark_phase_subtree before after m i j phase w \<noteq> Inl Diverges \<and>
    phase_mappings_are_compatible before after phase i j w \<noteq> Inl Diverges"
proof (intro conjI)
  let ?k = "Suc (length (ps_nodes before))"
  show "certify_exact_subtree_fuel n before after m i j c = certify_exact_subtree before after m i j c"
    unfolding certify_exact_subtree_def using assms by (intro certify_settles) auto
  show "mark_phase_subtree_fuel n before after m i j phase = mark_phase_subtree before after m i j phase"
    unfolding mark_phase_subtree_def using assms by (intro mark_settles) auto
  show "phase_mappings_are_compatible_fuel n before after phase i j = phase_mappings_are_compatible before after phase i j"
    unfolding phase_mappings_are_compatible_def using assms by (intro compatible_settles) auto
  have "valid (certify_exact_subtree before after m i j c) ends (\<lambda>_. True)"
    "valid (mark_phase_subtree before after m i j phase) ends (\<lambda>_. True)"
    "valid (phase_mappings_are_compatible before after phase i j) ends (\<lambda>_. True)"
    unfolding certify_exact_subtree_def mark_phase_subtree_def phase_mappings_are_compatible_def
    by (rule certify_ends mark_ends compatible_ends, rule assms(1), linarith, simp)+
  then show "certify_exact_subtree before after m i j c w \<noteq> Inl Diverges"
    "mark_phase_subtree before after m i j phase w \<noteq> Inl Diverges"
    "phase_mappings_are_compatible before after phase i j w \<noteq> Inl Diverges"
    by (auto simp: ends_def dest: valid_failD)
qed

end
