(* ===== verification/Shape_Classes.thy ===== *)
theory Shape_Classes
  imports Regions Union_Find Verification_Limits "HOL-Library.Multiset"
begin

text \<open>
  The candidates of the stable core (\<open>verifier.rs\<close>): \<open>verified_shape_classes\<close> groups the children of a
  region by shape (digest buckets first, the recursive equality inside a bucket), and
  \<open>verified_candidate_groups\<close> connects the pairs of a class that the global phase allows, by union-find.
\<close>

section \<open>Shape classes\<close>

record verified_shape_class =
  class_before :: "nat list"
  class_after :: "nat list"

record shape_classes =
  classes :: "verified_shape_class list"

definition update_at :: "('a \<Rightarrow> 'a) \<Rightarrow> 'a list \<Rightarrow> nat \<Rightarrow> 'a list result" where
  "update_at f xs i = rbind (index_at xs i) (\<lambda>x. Inr (xs[i := f x]))"

lemma update_at_ok [simp]: "i < length xs \<Longrightarrow> update_at f xs i = Inr (xs[i := f (xs ! i)])"
  by (simp add: update_at_def)

text \<open>The class whose representative \<open>class.before[0]\<close> passes a test.\<close>

definition matching_class :: "(nat \<Rightarrow> bool work) \<Rightarrow> verified_shape_class list \<Rightarrow> nat option work" where
  "matching_class same cs =
     wposition (\<lambda>c. wbind (charge 1) (\<lambda>_. wbind (wlift (index_at (class_before c) 0)) same)) cs"

definition partition_before ::
  "(nat \<Rightarrow> nat \<Rightarrow> bool work) \<Rightarrow> verified_shape_class list \<Rightarrow> nat \<Rightarrow> verified_shape_class list work" where
  "partition_before same_before_shape cs i =
     wbind (matching_class (same_before_shape i) cs) (\<lambda>found.
     case found of
       Some index \<Rightarrow> wlift (update_at (\<lambda>c. c\<lparr>class_before := class_before c @ [i]\<rparr>) cs index)
     | None \<Rightarrow> wreturn (cs @ [\<lparr>class_before = [i], class_after = []\<rparr>]))"

definition partition_after ::
  "(nat \<Rightarrow> nat \<Rightarrow> bool work) \<Rightarrow> verified_shape_class list \<Rightarrow> nat \<Rightarrow> verified_shape_class list work" where
  "partition_after cross_shape cs j =
     wbind (matching_class (\<lambda>representative. cross_shape representative j) cs) (\<lambda>found.
     case found of
       Some index \<Rightarrow> wlift (update_at (\<lambda>c. c\<lparr>class_after := class_after c @ [j]\<rparr>) cs index)
     | None \<Rightarrow> wreturn cs)"

definition partition_index_bucket ::
  "nat list \<Rightarrow> nat list \<Rightarrow> (nat \<Rightarrow> nat \<Rightarrow> bool work) \<Rightarrow> (nat \<Rightarrow> nat \<Rightarrow> bool work) \<Rightarrow> verified_shape_class list work" where
  "partition_index_bucket before_ids after_ids same_before_shape cross_shape =
     wbind (wfold (partition_before same_before_shape) [] before_ids) (\<lambda>cs.
     wbind (wfold (partition_after cross_shape) cs after_ids) (\<lambda>cs.
     wbind (charge (length cs)) (\<lambda>_.
       wreturn (filter (\<lambda>c. class_after c \<noteq> []) cs))))"

definition verified_shape_classes ::
  "parsed_syntax \<Rightarrow> parsed_syntax \<Rightarrow> nat list \<Rightarrow> nat list \<Rightarrow> shape_classes work" where
  "verified_shape_classes before after before_ids after_ids =
     wbind (buckets before before_ids shape_key) (\<lambda>before_index.
     wbind (buckets after after_ids shape_key) (\<lambda>after_index.
     wbind (charge_product (length before_index) (map_lookup_levels (length after_index))) (\<lambda>_.
     wbind (wfold (\<lambda>cs (raw_key, before_bucket).
         case map_of after_index raw_key of
           None \<Rightarrow> wreturn cs
         | Some after_bucket \<Rightarrow>
             wbind (partition_index_bucket before_bucket after_bucket
               (\<lambda>i representative. budgeted_shape_equal before i before representative)
               (\<lambda>representative j. budgeted_shape_equal before representative after j)) (\<lambda>new.
               wreturn (cs @ new))) [] before_index) (\<lambda>cs.
       wreturn \<lparr>classes = cs\<rparr>))))"

section \<open>Candidate groups\<close>

definition ORDERED_ALIGNMENT_COMPONENT_LIMIT :: nat where
  "ORDERED_ALIGNMENT_COMPONENT_LIMIT = 64"

definition ORDERED_ALIGNMENT_CANDIDATE_SCAN_LIMIT :: nat where
  "ORDERED_ALIGNMENT_CANDIDATE_SCAN_LIMIT = ORDERED_ALIGNMENT_COMPONENT_LIMIT * ORDERED_ALIGNMENT_COMPONENT_LIMIT * 4"

record candidate_group =
  cand_before :: "nat list"
  cand_after :: "nat list"
  scan_complete :: bool

record candidate_groups =
  cg_groups :: "candidate_group list"
  before_group :: "nat \<rightharpoonup> nat"
  after_group :: "nat \<rightharpoonup> nat"

text \<open>\<open>BTreeMap::entry(k).or_insert_with(empty)\<close> followed by an update of the value.\<close>

fun entry_update :: "'k::linorder \<Rightarrow> 'v \<Rightarrow> ('v \<Rightarrow> 'v) \<Rightarrow> ('k \<times> 'v) list \<Rightarrow> ('k \<times> 'v) list" where
  "entry_update k d f [] = [(k, f d)]"
| "entry_update k d f ((a, v) # bs) =
     (if k < a then (k, f d) # (a, v) # bs
      else if k = a then (a, f v) # bs
      else (a, v) # entry_update k d f bs)"

record candidate_scan =
  scan_sets :: disjoint_sets
  incident :: "bool list"

definition connect_candidate ::
  "parsed_syntax \<Rightarrow> parsed_syntax \<Rightarrow> phase_mappings \<Rightarrow> nat \<Rightarrow> nat \<times> nat \<Rightarrow> candidate_scan \<Rightarrow> nat \<times> nat \<Rightarrow>
   candidate_scan work" where
  "connect_candidate before after phase offset b s a =
     wbind (phase_mappings_are_compatible before after phase (snd b) (snd a)) (\<lambda>ok.
     if ok then
       wlift (rbind (union (fst b) (offset + fst a) (scan_sets s)) (\<lambda>sets.
              rbind (set_at (incident s) (fst b) True) (\<lambda>inc.
              rbind (set_at inc (offset + fst a) True) (\<lambda>inc.
                Inr \<lparr>scan_sets = sets, incident = inc\<rparr>))))
     else wreturn s)"

definition empty_group :: candidate_group where
  "empty_group = \<lparr>cand_before = [], cand_after = [], scan_complete = True\<rparr>"

type_synonym connected = "(nat \<times> candidate_group) list \<times> disjoint_sets"

definition collect_vertex ::
  "bool list \<Rightarrow> (candidate_group \<Rightarrow> candidate_group) \<Rightarrow> nat \<Rightarrow> connected \<Rightarrow> connected result" where
  "collect_vertex flags add vertex s =
     rbind (index_at flags vertex) (\<lambda>inc.
     if inc then
       rbind (find_root vertex (snd s)) (\<lambda>(root, sets). Inr (entry_update root empty_group add (fst s), sets))
     else Inr s)"

definition class_groups ::
  "parsed_syntax \<Rightarrow> parsed_syntax \<Rightarrow> phase_mappings \<Rightarrow> verified_shape_class \<Rightarrow> candidate_group list work" where
  "class_groups before after phase c =
     wbind (charge 1) (\<lambda>_.
     let before_len = length (class_before c);
         within_scan_limit = (case usize_checked_mul before_len (length (class_after c)) of
           None \<Rightarrow> False | Some pairs \<Rightarrow> pairs \<le> ORDERED_ALIGNMENT_CANDIDATE_SCAN_LIMIT) in
     if \<not> within_scan_limit then
       wbind (charge before_len) (\<lambda>_.
       wbind (charge (length (class_after c))) (\<lambda>_.
         wreturn [\<lparr>cand_before = class_before c, cand_after = class_after c, scan_complete = False\<rparr>]))
     else
       wbind (charge_product before_len (length (class_after c))) (\<lambda>_.
       wbind (wlift (checked_add CandidateVertexCount before_len (length (class_after c)))) (\<lambda>vertex_count.
       wbind (charge vertex_count) (\<lambda>_.
       wbind (wfold (\<lambda>s b. wfold (connect_candidate before after phase before_len b) s (enumerate 0 (class_after c)))
                \<lparr>scan_sets = disjoint_sets_new vertex_count, incident = replicate vertex_count False\<rparr>
                (enumerate 0 (class_before c))) (\<lambda>s.
       wbind (charge_n_log_n vertex_count) (\<lambda>_.
       wbind (wfold (\<lambda>t (k, i). wlift (collect_vertex (incident s)
                       (\<lambda>g. g\<lparr>cand_before := cand_before g @ [i]\<rparr>) k t))
                ([], scan_sets s) (enumerate 0 (class_before c))) (\<lambda>t.
       wbind (wfold (\<lambda>t (k, j). wlift (collect_vertex (incident s)
                       (\<lambda>g. g\<lparr>cand_after := cand_after g @ [j]\<rparr>) (before_len + k) t))
                t (enumerate 0 (class_after c))) (\<lambda>t.
         wreturn (map snd (fst t))))))))))"

text \<open>\<open>sort_by_key(|group| (group.before[0], group.after[0]))\<close>: the key is evaluated on slices of two or more.\<close>

definition sort_groups :: "candidate_group list \<Rightarrow> candidate_group list result" where
  "sort_groups gs =
     (if 2 \<le> length gs \<and> (\<exists>g\<in>set gs. cand_before g = [] \<or> cand_after g = []) then Inl Panic
      else Inr (sort_key (\<lambda>g. (hd (cand_before g), hd (cand_after g))) gs))"

text \<open>\<open>insert\<close> with the debug assertion that the key was absent.\<close>

definition insert_fresh :: "nat \<Rightarrow> (nat \<rightharpoonup> nat) \<Rightarrow> nat \<Rightarrow> (nat \<rightharpoonup> nat) work" where
  "insert_fresh group_id m i = wlift (if m i = None then Inr (m(i \<mapsto> group_id)) else Inl Panic)"

definition index_group ::
  "(nat \<rightharpoonup> nat) \<times> (nat \<rightharpoonup> nat) \<Rightarrow> nat \<times> candidate_group \<Rightarrow> ((nat \<rightharpoonup> nat) \<times> (nat \<rightharpoonup> nat)) work" where
  "index_group s g =
     wbind (charge (length (cand_before (snd g)))) (\<lambda>_.
     wbind (wfold (insert_fresh (fst g)) (fst s) (cand_before (snd g))) (\<lambda>bg.
     wbind (charge (length (cand_after (snd g)))) (\<lambda>_.
     wbind (wfold (insert_fresh (fst g)) (snd s) (cand_after (snd g))) (\<lambda>ag.
       wreturn (bg, ag)))))"

definition verified_candidate_groups ::
  "parsed_syntax \<Rightarrow> parsed_syntax \<Rightarrow> phase_mappings \<Rightarrow> shape_classes \<Rightarrow> candidate_groups work" where
  "verified_candidate_groups before after phase cs =
     wbind (wfold (\<lambda>groups c. wbind (class_groups before after phase c) (\<lambda>new. wreturn (groups @ new)))
              [] (classes cs)) (\<lambda>groups.
     wbind (charge_n_log_n (length groups)) (\<lambda>_.
     wbind (wlift (sort_groups groups)) (\<lambda>groups.
     wbind (wfold index_group (Map.empty, Map.empty) (enumerate 0 groups)) (\<lambda>s.
       wreturn \<lparr>cg_groups = groups, before_group = fst s, after_group = snd s\<rparr>))))"

section \<open>The partition of a bucket\<close>

lemma position_split:
  assumes "position_of p xs = Some k"
  obtains us x vs where "xs = us @ x # vs" "length us = k" "p x" "\<forall>u\<in>set us. \<not> p u"
proof
  have k: "k < length xs" "p (xs ! k)" "\<forall>j<k. \<not> p (xs ! j)" using assms by (auto simp: position_of_Some)
  show "xs = take k xs @ xs ! k # drop (Suc k) xs" by (rule id_take_nth_drop [OF k(1)])
  show "length (take k xs) = k" "p (xs ! k)" "\<forall>u\<in>set (take k xs). \<not> p u"
    using k by (auto simp: in_set_conv_nth)
qed

lemma update_at_split: "update_at f (us @ x # vs) (length us) = Inr (us @ f x # vs)"
  by (simp add: update_at_def)

text \<open>A partition of \<open>bs\<close> into non-empty classes and of some of \<open>as\<close> beside them: \<open>rel\<close> holds exactly inside.\<close>

definition classified :: "(nat \<Rightarrow> nat \<Rightarrow> bool) \<Rightarrow> nat list \<Rightarrow> nat list \<Rightarrow> verified_shape_class list \<Rightarrow> bool" where
  "classified rel bs as cs \<longleftrightarrow>
     (\<forall>c\<in>set cs. class_before c \<noteq> [] \<and> class_after c \<noteq> []) \<and>
     distinct (concat (map class_before cs)) \<and> set (concat (map class_before cs)) \<subseteq> set bs \<and>
     distinct (concat (map class_after cs)) \<and> set (concat (map class_after cs)) \<subseteq> set as \<and>
     (\<forall>i\<in>set bs. \<forall>j\<in>set as. rel i j \<longleftrightarrow> (\<exists>c\<in>set cs. i \<in> set (class_before c) \<and> j \<in> set (class_after c)))"

lemma classified_cong:
  "(\<And>i j. i \<in> set bs \<Longrightarrow> j \<in> set as \<Longrightarrow> rel i j \<longleftrightarrow> rel' i j) \<Longrightarrow> classified rel bs as cs \<Longrightarrow> classified rel' bs as cs"
  unfolding classified_def by simp

lemma classified_widen:
  assumes cs: "classified rel bs (filter p as) cs" and rel: "\<And>i j. i \<in> set bs \<Longrightarrow> \<not> p j \<Longrightarrow> \<not> rel i j"
  shows "classified rel bs as cs"
proof -
  have inside: "p j" if "c \<in> set cs" "j \<in> set (class_after c)" for c j
  proof -
    have "j \<in> set (concat (map class_after cs))" using that by auto
    then have "j \<in> set (filter p as)" using cs unfolding classified_def by blast
    then show ?thesis by simp
  qed
  have "rel i j \<longleftrightarrow> (\<exists>c\<in>set cs. i \<in> set (class_before c) \<and> j \<in> set (class_after c))"
    if i: "i \<in> set bs" and j: "j \<in> set as" for i j
  proof (cases "p j")
    case True
    then have "j \<in> set (filter p as)" using j by simp
    then show ?thesis using cs i unfolding classified_def by blast
  next
    case False
    then show ?thesis using inside rel [OF i] by blast
  qed
  moreover have "set (concat (map class_after cs)) \<subseteq> set as"
    using cs unfolding classified_def by (metis filter_is_subset order_trans)
  ultimately show ?thesis using cs unfolding classified_def by blast
qed

context node_equivalence
begin

definition before_classes :: "parsed_syntax \<Rightarrow> nat list \<Rightarrow> verified_shape_class list \<Rightarrow> bool" where
  "before_classes before ys cs \<longleftrightarrow>
     (\<forall>c\<in>set cs. class_before c \<noteq> [] \<and> class_after c = [] \<and>
        (\<forall>i\<in>set (class_before c). same before i before (hd (class_before c)))) \<and>
     sorted_wrt (\<lambda>c d. \<not> same before (hd (class_before c)) before (hd (class_before d))) cs \<and>
     distinct (concat (map class_before cs)) \<and> set (concat (map class_before cs)) = set ys"

lemma valid_matching_class:
  assumes "\<And>c. c \<in> set cs \<Longrightarrow> class_before c \<noteq> []"
    and "\<And>c. c \<in> set cs \<Longrightarrow> valid (f (hd (class_before c))) work_failure (\<lambda>b. b \<longleftrightarrow> p (hd (class_before c)))"
  shows "valid (matching_class f cs) work_failure (\<lambda>k. k = position_of (\<lambda>c. p (hd (class_before c))) cs)"
  unfolding matching_class_def
proof (rule valid_wposition)
  fix c assume c: "c \<in> set cs"
  have "index_at (class_before c) 0 = Inr (hd (class_before c))"
    using assms(1) [OF c] by (simp add: index_at_def hd_conv_nth)
  then show "valid (wbind (charge 1) (\<lambda>_. wbind (wlift (index_at (class_before c) 0)) f)) work_failure
      (\<lambda>b. b \<longleftrightarrow> p (hd (class_before c)))"
    using assms(2) [OF c] by (simp add: valid_charge_bind)
qed

lemma before_classes_arena:
  assumes "before_classes before ys cs" "\<And>i. i \<in> set ys \<Longrightarrow> in_arena before i" "c \<in> set cs"
  shows "in_arena before (hd (class_before c))"
proof -
  have "hd (class_before c) \<in> set (class_before c)" using assms(1,3) by (simp add: before_classes_def)
  then have "hd (class_before c) \<in> set (concat (map class_before cs))" using assms(3) by auto
  then show ?thesis using assms(1,2) unfolding before_classes_def by metis
qed

lemma valid_partition_before:
  assumes ok: "before_classes before ys cs" and arena: "\<And>i. i \<in> set (ys @ [x]) \<Longrightarrow> in_arena before i"
    and fresh: "x \<notin> set ys"
  shows "valid (partition_before (\<lambda>i r. test before i before r) cs x) work_failure (before_classes before (ys @ [x]))"
proof -
  have x: "in_arena before x" using arena by simp
  have rep: "in_arena before (hd (class_before c))" if "c \<in> set cs" for c
    using before_classes_arena [OF ok _ that] arena by simp
  have found: "valid (matching_class (test before x before) cs) work_failure
      (\<lambda>k. k = position_of (\<lambda>c. same before x before (hd (class_before c))) cs)"
    by (rule valid_matching_class) (use ok decides [OF x rep] in \<open>auto simp: before_classes_def\<close>)
  show ?thesis
    unfolding partition_before_def
  proof (rule valid_bind [OF found], rule valid_case_option)
    fix k
    assume "k = position_of (\<lambda>c. same before x before (hd (class_before c))) cs" "k = None"
    then have "position_of (\<lambda>c. same before x before (hd (class_before c))) cs = None" by simp
    then have none: "\<not> same before x before (hd (class_before c))" if "c \<in> set cs" for c
      using that by (simp add: position_of_None)
    then have "\<not> same before (hd (class_before c)) before x" if "c \<in> set cs" for c
      using symmetric [OF rep [OF that] x] that by blast
    then have "before_classes before (ys @ [x]) (cs @ [\<lparr>class_before = [x], class_after = []\<rparr>])"
      using ok fresh reflexive [OF x] by (auto simp: before_classes_def sorted_wrt_append)
    then show "valid (wreturn (cs @ [\<lparr>class_before = [x], class_after = []\<rparr>])) work_failure (before_classes before (ys @ [x]))"
      by (rule valid_return)
  next
    fix k n
    assume "k = position_of (\<lambda>c. same before x before (hd (class_before c))) cs" "k = Some n"
    then have "position_of (\<lambda>c. same before x before (hd (class_before c))) cs = Some n" by simp
    then obtain us c vs where split: "cs = us @ c # vs" "length us = n" and same: "same before x before (hd (class_before c))"
      by (rule position_split)
    have "class_before c \<noteq> []" using ok split by (auto simp: before_classes_def)
    then have hd: "hd (class_before c @ [x]) = hd (class_before c)" by simp
    have "before_classes before (ys @ [x]) (us @ c\<lparr>class_before := class_before c @ [x]\<rparr> # vs)"
      using ok fresh same hd unfolding split(1) before_classes_def by (auto simp: sorted_wrt_append)
    then show "valid (wlift (update_at (\<lambda>c. c\<lparr>class_before := class_before c @ [x]\<rparr>) cs n)) work_failure (before_classes before (ys @ [x]))"
      unfolding split(1) split(2) [symmetric] update_at_split by (simp add: valid_return)
  qed
qed

definition after_classes ::
  "parsed_syntax \<Rightarrow> parsed_syntax \<Rightarrow> verified_shape_class list \<Rightarrow> nat list \<Rightarrow> verified_shape_class list \<Rightarrow> bool" where
  "after_classes before after cs0 ys cs \<longleftrightarrow>
     map class_before cs = map class_before cs0 \<and>
     (\<forall>c\<in>set cs. \<forall>j\<in>set (class_after c). same before (hd (class_before c)) after j) \<and>
     distinct (concat (map class_after cs)) \<and>
     set (concat (map class_after cs)) = {j \<in> set ys. \<exists>c\<in>set cs. same before (hd (class_before c)) after j}"

lemma valid_partition_after:
  assumes ok: "after_classes before after cs0 ys cs" and rep: "\<And>c. c \<in> set cs \<Longrightarrow> class_before c \<noteq> [] \<and> in_arena before (hd (class_before c))"
    and x: "in_arena after x" and fresh: "x \<notin> set ys"
  shows "valid (partition_after (\<lambda>r j. test before r after j) cs x) work_failure (after_classes before after cs0 (ys @ [x]))"
proof -
  have found: "valid (matching_class (\<lambda>r. test before r after x) cs) work_failure
      (\<lambda>k. k = position_of (\<lambda>c. same before (hd (class_before c)) after x) cs)"
    by (rule valid_matching_class) (use rep decides [OF _ x] in auto)
  show ?thesis
    unfolding partition_after_def
  proof (rule valid_bind [OF found], rule valid_case_option)
    fix k
    assume "k = position_of (\<lambda>c. same before (hd (class_before c)) after x) cs" "k = None"
    then have "position_of (\<lambda>c. same before (hd (class_before c)) after x) cs = None" by simp
    then have none: "\<forall>c\<in>set cs. \<not> same before (hd (class_before c)) after x"
      by (simp add: position_of_None)
    then have "{j \<in> set (ys @ [x]). \<exists>c\<in>set cs. same before (hd (class_before c)) after j} =
        {j \<in> set ys. \<exists>c\<in>set cs. same before (hd (class_before c)) after j}" by auto
    then have "after_classes before after cs0 (ys @ [x]) cs"
      using ok unfolding after_classes_def by simp
    then show "valid (wreturn cs) work_failure (after_classes before after cs0 (ys @ [x]))"
      by (rule valid_return)
  next
    fix k n
    assume "k = position_of (\<lambda>c. same before (hd (class_before c)) after x) cs" "k = Some n"
    then have "position_of (\<lambda>c. same before (hd (class_before c)) after x) cs = Some n" by simp
    then obtain us c vs where split: "cs = us @ c # vs" "length us = n" and same: "same before (hd (class_before c)) after x"
      by (rule position_split)
    let ?cs = "us @ c\<lparr>class_after := class_after c @ [x]\<rparr> # vs"
    have members: "set (concat (map class_after cs)) = {j \<in> set ys. \<exists>c\<in>set cs. same before (hd (class_before c)) after j}"
      and dist: "distinct (concat (map class_after cs))"
      and good: "\<forall>c\<in>set cs. \<forall>j\<in>set (class_after c). same before (hd (class_before c)) after j"
      and befores: "map class_before cs = map class_before cs0"
      using ok unfolding after_classes_def by blast+
    have "x \<notin> set (concat (map class_after cs))" using members fresh by blast
    then have "distinct (concat (map class_after ?cs))" using dist unfolding split(1) by auto
    moreover have "set (concat (map class_after ?cs)) = insert x (set (concat (map class_after cs)))"
      unfolding split(1) by auto
    moreover have "(\<exists>c\<in>set ?cs. same before (hd (class_before c)) after j) \<longleftrightarrow> (\<exists>c\<in>set cs. same before (hd (class_before c)) after j)" for j
      unfolding split(1) by simp
    ultimately have "after_classes before after cs0 (ys @ [x]) ?cs"
      using members good befores same unfolding split(1) after_classes_def by (auto simp del: concat_append)
    then show "valid (wlift (update_at (\<lambda>c. c\<lparr>class_after := class_after c @ [x]\<rparr>) cs n)) work_failure
        (after_classes before after cs0 (ys @ [x]))"
      unfolding split(1) split(2) [symmetric] update_at_split by (simp add: valid_return)
  qed
qed

lemma valid_partition_bucket:
  assumes bs: "\<And>i. i \<in> set bs \<Longrightarrow> in_arena before i" "distinct bs"
    and as: "\<And>j. j \<in> set as \<Longrightarrow> in_arena after j" "distinct as"
  shows "valid (partition_index_bucket bs as (\<lambda>i r. test before i before r) (\<lambda>r j. test before r after j)) work_failure
    (classified (\<lambda>i j. same before i after j) bs as)"
proof -
  have first: "valid (wfold (partition_before (\<lambda>i r. test before i before r)) [] bs) work_failure (before_classes before bs)"
  proof (rule valid_fold_prefix)
    show "before_classes before [] []" by (simp add: before_classes_def)
  next
    fix ys x zs s assume "bs = ys @ x # zs" "before_classes before ys s"
    then show "valid (partition_before (\<lambda>i r. test before i before r) s x) work_failure (before_classes before (ys @ [x]))"
      using bs by (intro valid_partition_before) auto
  qed
  show ?thesis
    unfolding partition_index_bucket_def
  proof (rule valid_bind [OF first])
    fix cs0 assume cs0: "before_classes before bs cs0"
    have rep0: "class_before c \<noteq> [] \<and> in_arena before (hd (class_before c))" if "c \<in> set cs0" for c
      using before_classes_arena [OF cs0 bs(1) that] cs0 that by (simp add: before_classes_def)
    have rep: "class_before c \<noteq> [] \<and> in_arena before (hd (class_before c))"
      if "map class_before cs = map class_before cs0" "c \<in> set cs" for cs c
    proof -
      have "class_before c \<in> set (map class_before cs0)" using that(2) unfolding that(1) [symmetric] by simp
      then obtain d where "d \<in> set cs0" "class_before c = class_before d" by (metis in_set_conv_nth length_map nth_map nth_mem)
      then show ?thesis using rep0 [of d] by simp
    qed
    have second: "valid (wfold (partition_after (\<lambda>r j. test before r after j)) cs0 as) work_failure (after_classes before after cs0 as)"
    proof (rule valid_fold_prefix)
      have empty: "\<forall>c\<in>set cs0. class_after c = []" using cs0 by (simp add: before_classes_def)
      then have "concat (map class_after cs0) = []" by simp
      then show "after_classes before after cs0 [] cs0"
        unfolding after_classes_def by (simp add: empty del: concat_eq_Nil_conv)
    next
      fix ys x zs s assume split: "as = ys @ x # zs" and s: "after_classes before after cs0 ys s"
      then have "map class_before s = map class_before cs0" by (simp add: after_classes_def)
      from rep [OF this] show "valid (partition_after (\<lambda>r j. test before r after j) s x) work_failure (after_classes before after cs0 (ys @ [x]))"
        using as split by (intro valid_partition_after [OF s]) auto
    qed
    show "valid (wbind (wfold (partition_after (\<lambda>r j. test before r after j)) cs0 as) (\<lambda>cs.
       wbind (charge (length cs)) (\<lambda>_. wreturn (filter (\<lambda>c. class_after c \<noteq> []) cs)))) work_failure
      (classified (\<lambda>i j. same before i after j) bs as)"
    proof (rule valid_bind [OF second], rule valid_charge_bind, assumption, rule valid_return)
      fix cs assume cs: "after_classes before after cs0 as cs"
      have maps: "map class_before cs = map class_before cs0" using cs by (simp add: after_classes_def)
      have cover: "set (concat (map class_before cs)) = set bs" and dist: "distinct (concat (map class_before cs))"
        using cs0 unfolding maps by (simp_all add: before_classes_def)
      have arena: "in_arena before i" if "c \<in> set cs" "i \<in> set (class_before c)" for c i
      proof -
        have "i \<in> set (concat (map class_before cs))" using that by auto
        then show ?thesis unfolding cover by (rule bs(1))
      qed
      have inside: "same before i before (hd (class_before c))" if "c \<in> set cs" "i \<in> set (class_before c)" for c i
      proof -
        have "class_before c \<in> set (map class_before cs0)" using that(1) unfolding maps [symmetric] by simp
        then show ?thesis using cs0 that(2) by (auto simp: before_classes_def)
      qed
      have apart: "sorted_wrt (\<lambda>c d. \<not> same before (hd c) before (hd d)) (map class_before cs)"
        using cs0 unfolding maps by (simp add: before_classes_def sorted_wrt_map)
      have after: "same before (hd (class_before c)) after j" if "c \<in> set cs" "j \<in> set (class_after c)" for c j
        using cs that by (simp add: after_classes_def)
      have members: "set (concat (map class_after cs)) = {j \<in> set as. \<exists>c\<in>set cs. same before (hd (class_before c)) after j}"
        and dist': "distinct (concat (map class_after cs))"
        using cs by (simp_all add: after_classes_def)
      have unique: "class_before c = class_before d"
        if "c \<in> set cs" "d \<in> set cs" "same before (hd (class_before c)) before (hd (class_before d))" for c d
      proof -
        note cd = that
        obtain a b where ab: "a < length cs" "b < length cs" "c = cs ! a" "d = cs ! b"
          using cd(1,2) by (metis in_set_conv_nth)
        have "same before (hd (class_before d)) before (hd (class_before c))"
          using symmetric that rep [OF maps] by blast
        then have "\<not> a < b" "\<not> b < a"
          using apart that(3) ab by (auto simp: sorted_wrt_iff_nth_less)
        then show ?thesis using ab by (metis nat_neq_iff)
      qed
      let ?cs = "filter (\<lambda>c. class_after c \<noteq> []) cs"
      have "same before i after j \<longleftrightarrow> (\<exists>c\<in>set ?cs. i \<in> set (class_before c) \<and> j \<in> set (class_after c))"
        if i: "i \<in> set bs" and j: "j \<in> set as" for i j
      proof
        assume ij: "same before i after j"
        from i obtain c where c: "c \<in> set cs" "i \<in> set (class_before c)" unfolding cover [symmetric] by auto
        have "same before (hd (class_before c)) before i"
          using symmetric inside [OF c] arena [OF c] rep [OF maps c(1)] by blast
        then have cj: "same before (hd (class_before c)) after j"
          using transitive ij arena [OF c] rep [OF maps c(1)] as(1) [OF j] by blast
        then have "j \<in> set (concat (map class_after cs))" unfolding members using j c(1) by blast
        then obtain d where d: "d \<in> set cs" "j \<in> set (class_after d)" by auto
        have "same after j before (hd (class_before d))"
          using symmetric after [OF d] rep [OF maps d(1)] as(1) [OF j] by blast
        then have "same before (hd (class_before c)) before (hd (class_before d))"
          using transitive [OF _ _ _ cj] rep [OF maps c(1)] rep [OF maps d(1)] as(1) [OF j] by blast
        then have "class_before c = class_before d" by (rule unique [OF c(1) d(1)])
        then show "\<exists>c\<in>set ?cs. i \<in> set (class_before c) \<and> j \<in> set (class_after c)"
          using c d by (intro bexI [of _ d]) auto
      next
        assume "\<exists>c\<in>set ?cs. i \<in> set (class_before c) \<and> j \<in> set (class_after c)"
        then obtain c where c: "c \<in> set cs" "i \<in> set (class_before c)" "j \<in> set (class_after c)" by auto
        from inside [OF c(1,2)] after [OF c(1,3)] show "same before i after j"
          using transitive arena [OF c(1,2)] rep [OF maps c(1)] as(1) [OF j] by blast
      qed
      moreover have sub: "distinct (concat (map f ?cs)) \<and> set (concat (map f ?cs)) \<subseteq> set (concat (map f cs))"
        if "distinct (concat (map f cs))" for f :: "verified_shape_class \<Rightarrow> nat list"
        using that by (induction cs) auto
      ultimately show "classified (\<lambda>i j. same before i after j) bs as ?cs"
        unfolding classified_def using sub [OF dist] sub [OF dist'] cover members rep [OF maps] by auto
    qed
  qed
qed

end

section \<open>The classes of a region\<close>

definition same_class :: "parsed_syntax \<Rightarrow> parsed_syntax \<Rightarrow> nat \<Rightarrow> nat \<Rightarrow> bool" where
  "same_class before after i j \<longleftrightarrow>
     shape_key (ps_nodes before ! i) = shape_key (ps_nodes after ! j) \<and> shape_same before i after j"

lemma bucket_of_subset: "set (bucket_of s key ids k) \<subseteq> set ids" "distinct ids \<Longrightarrow> distinct (bucket_of s key ids k)"
  by (auto simp: bucket_of_def)

lemma bucket_of_iff: "i \<in> set (bucket_of s key ids k) \<longleftrightarrow> i \<in> set ids \<and> key (ps_nodes s ! i) = k"
  by (simp add: bucket_of_def)

text \<open>Classes of the buckets visited so far; \<open>seen\<close> are their keys.\<close>

definition classified_keys ::
  "parsed_syntax \<Rightarrow> parsed_syntax \<Rightarrow> nat list \<Rightarrow> nat list \<Rightarrow> node_key set \<Rightarrow> verified_shape_class list \<Rightarrow> bool" where
  "classified_keys before after bs as seen cs \<longleftrightarrow>
     classified (same_class before after) (filter (\<lambda>i. shape_key (ps_nodes before ! i) \<in> seen) bs)
       (filter (\<lambda>j. shape_key (ps_nodes after ! j) \<in> seen) as) cs"

lemma classified_append:
  assumes one: "classified rel bs as cs" and two: "classified rel bs' as' cs'"
    and disjoint: "set bs \<inter> set bs' = {}" "set as \<inter> set as' = {}"
    and apart: "\<And>i j. i \<in> set bs \<Longrightarrow> j \<in> set as' \<Longrightarrow> \<not> rel i j" "\<And>i j. i \<in> set bs' \<Longrightarrow> j \<in> set as \<Longrightarrow> \<not> rel i j"
    and sets: "set bs'' = set bs \<union> set bs'" "set as'' = set as \<union> set as'"
  shows "classified rel bs'' as'' (cs @ cs')"
proof -
  have 1: "i \<in> set bs" "j \<in> set as" if "c \<in> set cs" "i \<in> set (class_before c)" "j \<in> set (class_after c)" for c i j
    using one that unfolding classified_def by auto
  have 2: "i \<in> set bs'" "j \<in> set as'" if "c \<in> set cs'" "i \<in> set (class_before c)" "j \<in> set (class_after c)" for c i j
    using two that unfolding classified_def by auto
  have "rel i j \<longleftrightarrow> (\<exists>c\<in>set (cs @ cs'). i \<in> set (class_before c) \<and> j \<in> set (class_after c))"
    if "i \<in> set bs''" "j \<in> set as''" for i j
  proof -
    have r1: "rel i j \<longleftrightarrow> (\<exists>c\<in>set cs. i \<in> set (class_before c) \<and> j \<in> set (class_after c))"
      if "i \<in> set bs" "j \<in> set as" using one that unfolding classified_def by blast
    have r2: "rel i j \<longleftrightarrow> (\<exists>c\<in>set cs'. i \<in> set (class_before c) \<and> j \<in> set (class_after c))"
      if "i \<in> set bs'" "j \<in> set as'" using two that unfolding classified_def by blast
    have "i \<in> set bs \<or> i \<in> set bs'" "j \<in> set as \<or> j \<in> set as'" using that sets by auto
    then show ?thesis using r1 r2 apart 1 2 disjoint unfolding set_append by blast
  qed
  moreover have "distinct (concat (map class_before (cs @ cs')))" "distinct (concat (map class_after (cs @ cs')))"
    using one two disjoint unfolding classified_def map_append concat_append distinct_append by blast+
  ultimately show ?thesis
    using one two sets unfolding classified_def by auto
qed

lemma valid_verified_shape_classes:
  assumes bs: "\<And>i. i \<in> set bs \<Longrightarrow> in_arena before i" "distinct bs"
    and as: "\<And>j. j \<in> set as \<Longrightarrow> in_arena after j" "distinct as"
  shows "valid (verified_shape_classes before after bs as) work_failure
    (\<lambda>s. classified (same_class before after) bs as (classes s))"
  unfolding verified_shape_classes_def
proof (rule valid_bind [OF valid_buckets [OF bs(1)]], assumption, rule valid_bind [OF valid_buckets [OF as(1)]], assumption,
    rule valid_charge_product_bind, assumption)
  fix bx ax assume bx: "bucketed before shape_key bs bx" and ax: "bucketed after shape_key as ax"
  let ?step = "\<lambda>cs (raw_key, before_bucket).
         case map_of ax raw_key of
           None \<Rightarrow> wreturn cs
         | Some after_bucket \<Rightarrow>
             wbind (partition_index_bucket before_bucket after_bucket
               (\<lambda>i representative. budgeted_shape_equal before i before representative)
               (\<lambda>representative j. budgeted_shape_equal before representative after j)) (\<lambda>new.
               wreturn (cs @ new))"
  have "valid (wfold ?step [] bx) work_failure (classified_keys before after bs as (set (map fst bx)))"
  proof (rule valid_fold_prefix [where I = "\<lambda>ys. classified_keys before after bs as (set (map fst ys))"])
    show "classified_keys before after bs as (set (map fst [])) []" by (simp add: classified_keys_def classified_def)
  next
    fix ys x zs cs
    assume split: "bx = ys @ x # zs" and cs: "classified_keys before after bs as (set (map fst ys)) cs"
    obtain k ids where x: "x = (k, ids)" by (rule prod.exhaust)
    have "(k, ids) \<in> set bx" unfolding split x by simp
    then have ids: "ids = bucket_of before shape_key bs k" using bx unfolding bucketed_def by blast
    have fresh: "k \<notin> set (map fst ys)" using bucketed_distinct [OF bx] unfolding split x by auto
    let ?js = "bucket_of after shape_key as k" and ?seen = "set (map fst ys)"
    have extend: "classified_keys before after bs as (set (map fst (ys @ [x]))) (cs @ new)"
      if "classified (same_class before after) ids ?js new" for new
    proof -
      define seen where "seen = set (map fst ys)"
      have keys: "set (map fst (ys @ [x])) = insert k seen" "k \<notin> seen" using fresh by (simp_all add: seen_def x)
      show ?thesis
        unfolding classified_keys_def keys(1)
        by (rule classified_append [OF cs [unfolded classified_keys_def, folded seen_def] that])
          (use keys(2) in \<open>auto simp: ids bucket_of_def same_class_def\<close>)
    qed
    have part: "valid (partition_index_bucket ids ?js
               (\<lambda>i representative. budgeted_shape_equal before i before representative)
               (\<lambda>representative j. budgeted_shape_equal before representative after j)) work_failure
        (classified (same_class before after) ids ?js)"
    proof (rule valid_conseq [OF shape_test.valid_partition_bucket])
      show "in_arena before i" if "i \<in> set ids" for i using that bs(1) unfolding ids bucket_of_iff by blast
      show "in_arena after j" if "j \<in> set ?js" for j using that as(1) unfolding bucket_of_iff by blast
      show "distinct ids" "distinct ?js" unfolding ids using bs(2) as(2) by (simp_all add: bucket_of_subset)
      fix new assume "classified (\<lambda>i. shape_same before i after) ids ?js new"
      then show "classified (same_class before after) ids ?js new"
        by (rule classified_cong [rotated]) (simp add: ids bucket_of_iff same_class_def)
    qed simp
    show "valid (?step cs x) work_failure (classified_keys before after bs as (set (map fst (ys @ [x]))))"
    proof (cases "?js = []")
      case True
      have "classified (same_class before after) ids ?js []" unfolding True by (simp add: classified_def)
      from extend [OF this] show ?thesis
        unfolding x prod.case bucketed_map_of [OF ax] by (simp add: True valid_return)
    next
      case False
      have "valid (wbind (partition_index_bucket ids ?js
               (\<lambda>i representative. budgeted_shape_equal before i before representative)
               (\<lambda>representative j. budgeted_shape_equal before representative after j)) (\<lambda>new.
               wreturn (cs @ new))) work_failure (classified_keys before after bs as (set (map fst (ys @ [x]))))"
        by (rule valid_bind [OF part]) (rule valid_return, rule extend)
      then show ?thesis unfolding x prod.case bucketed_map_of [OF ax] using False by simp
    qed
  qed
  then show "valid (wbind (wfold ?step [] bx) (\<lambda>cs. wreturn \<lparr>classes = cs\<rparr>)) work_failure
      (\<lambda>s. classified (same_class before after) bs as (classes s))"
  proof (rule valid_bind, intro valid_return)
    fix cs assume cs: "classified_keys before after bs as (set (map fst bx)) cs"
    have seen: "shape_key (ps_nodes before ! i) \<in> set (map fst bx)" if "i \<in> set bs" for i
    proof -
      have "i \<in> set (bucket_of before shape_key bs (shape_key (ps_nodes before ! i)))"
        using that by (simp add: bucket_of_def)
      then have "bucket_of before shape_key bs (shape_key (ps_nodes before ! i)) \<noteq> []" by force
      then have "(shape_key (ps_nodes before ! i), bucket_of before shape_key bs (shape_key (ps_nodes before ! i))) \<in> set bx"
        using bx unfolding bucketed_def by blast
      then show ?thesis by force
    qed
    define S where "S = set (map fst bx)"
    have all: "filter (\<lambda>i. shape_key (ps_nodes before ! i) \<in> S) bs = bs"
      unfolding filter_id_conv S_def using seen by blast
    have "classified (same_class before after) bs (filter (\<lambda>j. shape_key (ps_nodes after ! j) \<in> S) as) cs"
      using cs unfolding classified_keys_def S_def [symmetric] all .
    then have "classified (same_class before after) bs as cs"
    proof (rule classified_widen)
      fix i j assume "i \<in> set bs" "shape_key (ps_nodes after ! j) \<notin> S"
      moreover have "shape_key (ps_nodes before ! i) \<in> S" unfolding S_def by (rule seen) fact
      ultimately show "\<not> same_class before after i j" unfolding same_class_def by (metis (no_types))
    qed
    then show "classified (same_class before after) bs as (classes \<lparr>classes = cs\<rparr>)" by simp
  qed
qed

section \<open>Connecting the candidates of a class\<close>

text \<open>The processed edges \<open>es\<close>, pairs of positions in the two lists of a class: their ends are flagged and
  joined.\<close>

definition scan_ok_edges :: "nat \<Rightarrow> nat \<Rightarrow> (nat \<times> nat) set \<Rightarrow> candidate_scan \<Rightarrow> bool" where
  "scan_ok_edges nb n es s \<longleftrightarrow>
     wf_sets (scan_sets s) \<and> length (ds_parent (scan_sets s)) = n \<and> length (incident s) = n \<and>
     (\<forall>v<n. incident s ! v \<longleftrightarrow> (\<exists>(x, y)\<in>es. v = x \<or> v = nb + y)) \<and>
     (\<forall>(x, y)\<in>es. root_of (scan_sets s) x = root_of (scan_sets s) (nb + y))"

lemma union_roots:
  assumes wf: "wf_sets sets" and ab: "a < length (ds_parent sets)" "b < length (ds_parent sets)"
  obtains sets' where "union a b sets = Inr sets'" "wf_sets sets'" "length (ds_parent sets') = length (ds_parent sets)"
    "root_of sets' a = root_of sets' b"
    "\<And>u v. u < length (ds_parent sets) \<Longrightarrow> v < length (ds_parent sets) \<Longrightarrow> root_of sets u = root_of sets v \<Longrightarrow>
       root_of sets' u = root_of sets' v"
proof -
  obtain sets' where u: "union a b sets = Inr sets'" "wf_sets sets'" "length (ds_parent sets') = length (ds_parent sets)"
    and same: "\<forall>u<length (ds_parent sets). \<forall>v<length (ds_parent sets). same_set sets' u v \<longleftrightarrow>
       same_set sets u v \<or> same_set sets u a \<and> same_set sets b v \<or> same_set sets u b \<and> same_set sets a v"
    using union_correct [OF assms] by blast
  show ?thesis
  proof (rule that [OF u])
    show "root_of sets' a = root_of sets' b"
      using same ab same_set_iff [OF u(2)] same_set_iff [OF wf] u(3) by (metis (no_types))
    show "root_of sets' x = root_of sets' y"
      if "x < length (ds_parent sets)" "y < length (ds_parent sets)" "root_of sets x = root_of sets y" for x y
      using same that same_set_iff [OF u(2)] same_set_iff [OF wf] u(3) by (metis (no_types))
  qed
qed

lemma valid_connect_candidate:
  assumes wf: "wf_syntax before" "wf_syntax after" and ok: "phase_ok before after m phase"
    and ij: "i < length (ps_nodes before)" "j < length (ps_nodes after)"
    and xy: "x < nb" "nb + y < n" and s: "scan_ok_edges nb n es s"
    and es: "\<And>u v. (u, v) \<in> es \<Longrightarrow> u < nb \<and> nb + v < n"
  shows "valid (connect_candidate before after phase nb (x, i) s (y, j)) work_failure
    (scan_ok_edges nb n (if compatible before after phase i j then insert (x, y) es else es))"
proof -
  have connect: "valid (wlift (rbind (union x (nb + y) (scan_sets s)) (\<lambda>sets.
              rbind (set_at (incident s) x True) (\<lambda>inc.
              rbind (set_at inc (nb + y) True) (\<lambda>inc.
                Inr \<lparr>scan_sets = sets, incident = inc\<rparr>))))) work_failure (scan_ok_edges nb n (insert (x, y) es))"
  proof -
    have len: "length (ds_parent (scan_sets s)) = n" "length (incident s) = n" and wfs: "wf_sets (scan_sets s)"
      using s by (simp_all add: scan_ok_edges_def)
    have x: "x < length (ds_parent (scan_sets s))" and y: "nb + y < length (ds_parent (scan_sets s))" using xy len by simp_all
    obtain sets' where u: "union x (nb + y) (scan_sets s) = Inr sets'" "wf_sets sets'"
      "length (ds_parent sets') = length (ds_parent (scan_sets s))" "root_of sets' x = root_of sets' (nb + y)"
      and mono: "\<And>u v. u < length (ds_parent (scan_sets s)) \<Longrightarrow> v < length (ds_parent (scan_sets s)) \<Longrightarrow>
        root_of (scan_sets s) u = root_of (scan_sets s) v \<Longrightarrow> root_of sets' u = root_of sets' v"
      using union_roots [OF wfs x y] by blast
    have "root_of sets' a = root_of sets' (nb + b)" if "(a, b) \<in> es" for a b
      using mono [of a "nb + b"] es [OF that] s that len unfolding scan_ok_edges_def by fastforce
    moreover have "(incident s)[x := True, nb + y := True] ! v \<longleftrightarrow> (\<exists>(a, b)\<in>insert (x, y) es. v = a \<or> v = nb + b)"
      if "v < n" for v
      using s that len xy unfolding scan_ok_edges_def by (auto simp: nth_list_update)
    ultimately have "scan_ok_edges nb n (insert (x, y) es) \<lparr>scan_sets = sets', incident = (incident s)[x := True, nb + y := True]\<rparr>"
      using u len unfolding scan_ok_edges_def by auto
    then show ?thesis using u(1) xy len by (simp add: valid_return)
  qed
  show ?thesis
    unfolding connect_candidate_def fst_conv snd_conv
    by (rule valid_bind [OF valid_phase_compatible [OF wf ok ij]], rule valid_if)
      (use connect s in \<open>auto intro: valid_return\<close>)
qed

text \<open>The edges of a class: positions of compatible pairs.\<close>

definition edges_of ::
  "parsed_syntax \<Rightarrow> parsed_syntax \<Rightarrow> phase_mappings \<Rightarrow> (nat \<times> nat) list \<Rightarrow> (nat \<times> nat) list \<Rightarrow> (nat \<times> nat) set" where
  "edges_of before after phase xs ys =
     {(x, y). \<exists>i j. (x, i) \<in> set xs \<and> (y, j) \<in> set ys \<and> compatible before after phase i j}"

lemma valid_connect_all:
  assumes wf: "wf_syntax before" "wf_syntax after" and ok: "phase_ok before after m phase"
    and bs: "\<And>i. i \<in> set bs \<Longrightarrow> i < length (ps_nodes before)" and as: "\<And>j. j \<in> set as \<Longrightarrow> j < length (ps_nodes after)"
  shows "valid (wfold (\<lambda>s b. wfold (connect_candidate before after phase (length bs) b) s (enumerate 0 as))
       \<lparr>scan_sets = disjoint_sets_new (length bs + length as), incident = replicate (length bs + length as) False\<rparr>
       (enumerate 0 bs)) work_failure
    (scan_ok_edges (length bs) (length bs + length as) (edges_of before after phase (enumerate 0 bs) (enumerate 0 as)))"
proof (rule valid_fold_prefix [where I = "\<lambda>xs. scan_ok_edges (length bs) (length bs + length as)
    (edges_of before after phase xs (enumerate 0 as))"])
  show "scan_ok_edges (length bs) (length bs + length as) (edges_of before after phase [] (enumerate 0 as))
     \<lparr>scan_sets = disjoint_sets_new (length bs + length as), incident = replicate (length bs + length as) False\<rparr>"
    by (simp add: scan_ok_edges_def edges_of_def wf_sets_new) (simp add: disjoint_sets_new_def)
next
  fix xs p zs s
  let ?edges = "edges_of before after phase"
  assume split: "enumerate 0 bs = xs @ p # zs"
    and s: "scan_ok_edges (length bs) (length bs + length as) (?edges xs (enumerate 0 as)) s"
  obtain x i where p: "p = (x, i)" by (rule prod.exhaust)
  have "(x, i) \<in> set (enumerate 0 bs)" unfolding split p by simp
  then have x: "x < length bs" and i: "i < length (ps_nodes before)" using bs by (auto simp: in_set_enumerate_eq)
  have outer: "u < length bs" if "(u, k) \<in> set xs" for u k
  proof -
    have "(u, k) \<in> set (enumerate 0 bs)" unfolding split using that by simp
    then show ?thesis by (simp add: in_set_enumerate_eq)
  qed
  have "valid (wfold (connect_candidate before after phase (length bs) (x, i)) s (enumerate 0 as)) work_failure
      (scan_ok_edges (length bs) (length bs + length as) (?edges xs (enumerate 0 as) \<union> ?edges [(x, i)] (enumerate 0 as)))"
  proof (rule valid_fold_prefix [where I = "\<lambda>ys. scan_ok_edges (length bs) (length bs + length as)
      (?edges xs (enumerate 0 as) \<union> ?edges [(x, i)] ys)"])
    show "scan_ok_edges (length bs) (length bs + length as) (?edges xs (enumerate 0 as) \<union> ?edges [(x, i)] []) s"
      using s by (simp add: edges_of_def)
  next
    fix ys q zs' t
    assume split': "enumerate 0 as = ys @ q # zs'"
      and t: "scan_ok_edges (length bs) (length bs + length as) (?edges xs (enumerate 0 as) \<union> ?edges [(x, i)] ys) t"
    obtain y j where q: "q = (y, j)" by (rule prod.exhaust)
    have "(y, j) \<in> set (enumerate 0 as)" unfolding split' q by simp
    then have y: "length bs + y < length bs + length as" and j: "j < length (ps_nodes after)"
      using as by (auto simp: in_set_enumerate_eq)
    have "v < length as" if "(v, k) \<in> set ys" for v k
    proof -
      have "(v, k) \<in> set (enumerate 0 as)" unfolding split' using that by simp
      then show ?thesis by (simp add: in_set_enumerate_eq)
    qed
    then have bounds: "u < length bs \<and> length bs + v < length bs + length as"
      if "(u, v) \<in> ?edges xs (enumerate 0 as) \<union> ?edges [(x, i)] ys" for u v
      using that outer x by (auto simp: edges_of_def in_set_enumerate_eq)
    have "?edges xs (enumerate 0 as) \<union> ?edges [(x, i)] (ys @ [q]) =
        (if compatible before after phase i j then insert (x, y) (?edges xs (enumerate 0 as) \<union> ?edges [(x, i)] ys)
         else ?edges xs (enumerate 0 as) \<union> ?edges [(x, i)] ys)"
      by (auto simp: edges_of_def q)
    then show "valid (connect_candidate before after phase (length bs) (x, i) t q) work_failure
        (scan_ok_edges (length bs) (length bs + length as) (?edges xs (enumerate 0 as) \<union> ?edges [(x, i)] (ys @ [q])))"
      using valid_connect_candidate [OF wf ok i j x y t bounds] by (simp only: q)
  qed
  moreover have "?edges (xs @ [p]) (enumerate 0 as) = ?edges xs (enumerate 0 as) \<union> ?edges [(x, i)] (enumerate 0 as)"
    by (auto simp: edges_of_def p)
  ultimately show "valid (wfold (connect_candidate before after phase (length bs) p) s (enumerate 0 as)) work_failure
      (scan_ok_edges (length bs) (length bs + length as) (?edges (xs @ [p]) (enumerate 0 as)))"
    by (simp only: p)
qed

section \<open>Collecting the connected groups\<close>

text \<open>An ordered map that holds \<open>value k\<close> for exactly the keys in \<open>keys\<close>; the others have the default.\<close>

definition holds_values :: "'v \<Rightarrow> ('k::linorder \<Rightarrow> 'v) \<Rightarrow> 'k set \<Rightarrow> ('k \<times> 'v) list \<Rightarrow> bool" where
  "holds_values d value keys bs \<longleftrightarrow> sorted_wrt (<) (map fst bs) \<and>
     (\<forall>k v. (k, v) \<in> set bs \<longleftrightarrow> v = value k \<and> k \<in> keys) \<and> (\<forall>k. k \<notin> keys \<longrightarrow> value k = d)"

lemma entry_update_keys: "set (map fst (entry_update k d f bs)) = insert k (set (map fst bs))"
  by (induction k d f bs rule: entry_update.induct) auto

lemma entry_update_sorted: "sorted_wrt (<) (map fst bs) \<Longrightarrow> sorted_wrt (<) (map fst (entry_update k d f bs))"
proof (induction k d f bs rule: entry_update.induct)
  case (2 k d f a v bs)
  then show ?case
    using entry_update_keys [of k d f bs] by (auto simp: not_less simp flip: set_map)
qed simp

lemma entry_update_entries:
  "sorted_wrt (<) (map fst bs) \<Longrightarrow>
   (l, w) \<in> set (entry_update k d f bs) \<longleftrightarrow>
     (if l = k then (\<exists>v. (k, v) \<in> set bs \<and> w = f v) \<or> k \<notin> fst ` set bs \<and> w = f d
      else (l, w) \<in> set bs)"
proof (induction k d f bs rule: entry_update.induct)
  case (2 k d f a v bs)
  then show ?case by force
qed auto

lemma holds_values_update:
  assumes "holds_values d value keys bs"
  shows "holds_values d (value(k := f (value k))) (insert k keys) (entry_update k d f bs)"
proof -
  have sorted: "sorted_wrt (<) (map fst bs)" and entries: "\<And>k v. (k, v) \<in> set bs \<longleftrightarrow> v = value k \<and> k \<in> keys"
    and default: "\<And>k. k \<notin> keys \<Longrightarrow> value k = d"
    using assms unfolding holds_values_def by blast+
  have "k \<notin> fst ` set bs \<longleftrightarrow> k \<notin> keys" using entries by force
  then have "(l, w) \<in> set (entry_update k d f bs) \<longleftrightarrow> w = (value(k := f (value k))) l \<and> l \<in> insert k keys" for l w
    unfolding entry_update_entries [OF sorted] using entries default by auto
  then show ?thesis
    using entry_update_sorted [OF sorted] default unfolding holds_values_def by simp
qed

lemma distinct_concat_keys:
  assumes "distinct (map fst bs)" "\<And>k v. (k, v) \<in> set bs \<Longrightarrow> distinct (h v)"
    and "\<And>k v l w i. (k, v) \<in> set bs \<Longrightarrow> (l, w) \<in> set bs \<Longrightarrow> i \<in> set (h v) \<Longrightarrow> i \<in> set (h w) \<Longrightarrow> k = l"
  shows "distinct (concat (map h (map snd bs)))"
  using assms
proof (induction bs)
  case (Cons p bs)
  obtain k v where p: "p = (k, v)" by (rule prod.exhaust)
  have "set (h v) \<inter> set (h w) = {}" if "(l, w) \<in> set bs" for l w
  proof -
    have "k \<noteq> l" using Cons.prems(1) that unfolding p by force
    then show ?thesis using Cons.prems(3) [of k v l w] that unfolding p by auto
  qed
  then have "set (h v) \<inter> set (concat (map h (map snd bs))) = {}" by fastforce
  moreover have "distinct (concat (map h (map snd bs)))"
    using Cons.prems by (intro Cons.IH) (auto, blast+)
  ultimately show ?case using Cons.prems(2) [of k v] by (simp add: p)
qed simp

text \<open>The group of a root, from the vertices visited so far.\<close>

definition side :: "bool list \<Rightarrow> (nat \<Rightarrow> nat) \<Rightarrow> nat \<Rightarrow> (nat \<times> nat) list \<Rightarrow> nat \<Rightarrow> nat list" where
  "side flags root shift xs k = map snd (filter (\<lambda>(x, _). flags ! (shift + x) \<and> root (shift + x) = k) xs)"

definition group_at :: "bool list \<Rightarrow> (nat \<Rightarrow> nat) \<Rightarrow> nat \<Rightarrow> (nat \<times> nat) list \<Rightarrow> (nat \<times> nat) list \<Rightarrow> nat \<Rightarrow> candidate_group" where
  "group_at flags root nb xs ys k =
     \<lparr>cand_before = side flags root 0 xs k, cand_after = side flags root nb ys k, scan_complete = True\<rparr>"

definition collected ::
  "disjoint_sets \<Rightarrow> bool list \<Rightarrow> nat \<Rightarrow> (nat \<times> nat) list \<Rightarrow> (nat \<times> nat) list \<Rightarrow> connected \<Rightarrow> bool" where
  "collected sets0 flags nb xs ys t \<longleftrightarrow>
     wf_sets (snd t) \<and> length (ds_parent (snd t)) = length (ds_parent sets0) \<and>
     (\<forall>v<length (ds_parent sets0). root_of (snd t) v = root_of sets0 v) \<and>
     holds_values empty_group (group_at flags (root_of sets0) nb xs ys)
       {k. side flags (root_of sets0) 0 xs k \<noteq> [] \<or> side flags (root_of sets0) nb ys k \<noteq> []} (fst t)"

lemma side_snoc:
  "side flags root shift (xs @ [(x, i)]) k =
     side flags root shift xs k @ (if flags ! (shift + x) \<and> root (shift + x) = k then [i] else [])"
  by (simp add: side_def)

lemma find_root_roots:
  assumes wf: "wf_sets sets" and v: "v < length (ds_parent sets)"
  obtains sets' where "find_root v sets = Inr (root_of sets v, sets')" "wf_sets sets'"
    "length (ds_parent sets') = length (ds_parent sets)"
    "\<And>u. u < length (ds_parent sets) \<Longrightarrow> root_of sets' u = root_of sets u"
proof -
  obtain sets' where f: "find_root v sets = Inr (root_of sets v, sets')" "wf_sets sets'"
    "length (ds_parent sets') = length (ds_parent sets)"
    and same: "\<forall>u r. root_in (parent_of sets') u r \<longleftrightarrow> root_in (parent_of sets) u r"
    using find_root_correct [OF assms] by blast
  show ?thesis
    by (rule that [OF f]) (use same in \<open>simp add: root_of_def\<close>)
qed

text \<open>One vertex, of either side; \<open>xs\<close>, \<open>ys\<close> before and \<open>xs'\<close>, \<open>ys'\<close> after the step.\<close>

lemma collect_vertex_step:
  assumes t: "collected sets0 flags nb xs ys t" and v: "v < length (ds_parent sets0)" "length flags = length (ds_parent sets0)"
    and sides: "\<And>k. (side flags (root_of sets0) 0 xs' k \<noteq> [] \<or> side flags (root_of sets0) nb ys' k \<noteq> []) \<longleftrightarrow>
      (side flags (root_of sets0) 0 xs k \<noteq> [] \<or> side flags (root_of sets0) nb ys k \<noteq> []) \<or> flags ! v \<and> k = root_of sets0 v"
    and group: "\<And>k. group_at flags (root_of sets0) nb xs' ys' k =
      (if flags ! v \<and> k = root_of sets0 v then add (group_at flags (root_of sets0) nb xs ys k)
       else group_at flags (root_of sets0) nb xs ys k)"
  shows "valid (wlift (collect_vertex flags add v t)) work_failure (collected sets0 flags nb xs' ys')"
proof (cases "flags ! v")
  case False
  then have "group_at flags (root_of sets0) nb xs' ys' = group_at flags (root_of sets0) nb xs ys"
    "{k. side flags (root_of sets0) 0 xs' k \<noteq> [] \<or> side flags (root_of sets0) nb ys' k \<noteq> []} =
     {k. side flags (root_of sets0) 0 xs k \<noteq> [] \<or> side flags (root_of sets0) nb ys k \<noteq> []}"
    unfolding sides by (simp_all add: group fun_eq_iff)
  then have "collected sets0 flags nb xs' ys' t"
    using t unfolding collected_def by auto
  then show ?thesis using False v by (simp add: collect_vertex_def valid_return)
next
  case True
  have wf: "wf_sets (snd t)" "length (ds_parent (snd t)) = length (ds_parent sets0)"
    and roots: "\<And>u. u < length (ds_parent sets0) \<Longrightarrow> root_of (snd t) u = root_of sets0 u"
    and held: "holds_values empty_group (group_at flags (root_of sets0) nb xs ys)
       {k. side flags (root_of sets0) 0 xs k \<noteq> [] \<or> side flags (root_of sets0) nb ys k \<noteq> []} (fst t)"
    using t unfolding collected_def by blast+
  obtain sets' where f: "find_root v (snd t) = Inr (root_of sets0 v, sets')" "wf_sets sets'"
    "length (ds_parent sets') = length (ds_parent sets0)"
    and roots': "\<And>u. u < length (ds_parent sets0) \<Longrightarrow> root_of sets' u = root_of sets0 u"
    using find_root_roots [OF wf(1), of v] v(1) wf(2) roots by metis
  have "(group_at flags (root_of sets0) nb xs ys)(root_of sets0 v := add (group_at flags (root_of sets0) nb xs ys (root_of sets0 v)))
      = group_at flags (root_of sets0) nb xs' ys'"
    using True by (simp add: fun_eq_iff group)
  moreover have "insert (root_of sets0 v) {k. side flags (root_of sets0) 0 xs k \<noteq> [] \<or> side flags (root_of sets0) nb ys k \<noteq> []}
      = {k. side flags (root_of sets0) 0 xs' k \<noteq> [] \<or> side flags (root_of sets0) nb ys' k \<noteq> []}"
    unfolding sides using True by auto
  ultimately have "holds_values empty_group (group_at flags (root_of sets0) nb xs' ys')
       {k. side flags (root_of sets0) 0 xs' k \<noteq> [] \<or> side flags (root_of sets0) nb ys' k \<noteq> []}
       (entry_update (root_of sets0 v) empty_group add (fst t))"
    using holds_values_update [OF held, of "root_of sets0 v" add] by simp
  then have "collected sets0 flags nb xs' ys' (entry_update (root_of sets0 v) empty_group add (fst t), sets')"
    using f(2,3) roots' unfolding collected_def by simp
  then show ?thesis using True v f(1) by (simp add: collect_vertex_def valid_return)
qed

lemma valid_collect_before:
  assumes t: "collected sets0 flags (length bs) [] [] t" and n: "length flags = length (ds_parent sets0)"
    "length bs \<le> length (ds_parent sets0)"
  shows "valid (wfold (\<lambda>t (k, i). wlift (collect_vertex flags (\<lambda>g. g\<lparr>cand_before := cand_before g @ [i]\<rparr>) k t)) t
      (enumerate 0 bs)) work_failure (collected sets0 flags (length bs) (enumerate 0 bs) [])"
proof (rule valid_fold_prefix [where I = "\<lambda>xs. collected sets0 flags (length bs) xs []"])
  fix xs p zs t
  assume split: "enumerate 0 bs = xs @ p # zs" and t: "collected sets0 flags (length bs) xs [] t"
  obtain x i where p: "p = (x, i)" by (rule prod.exhaust)
  have "(x, i) \<in> set (enumerate 0 bs)" unfolding split p by simp
  then have x: "x < length (ds_parent sets0)" using n by (auto simp: in_set_enumerate_eq)
  show "valid (case p of (k, i) \<Rightarrow> wlift (collect_vertex flags (\<lambda>g. g\<lparr>cand_before := cand_before g @ [i]\<rparr>) k t))
      work_failure (collected sets0 flags (length bs) (xs @ [p]) [])"
    unfolding p prod.case
    by (rule collect_vertex_step [OF t x n(1)]) (auto simp: side_snoc group_at_def)
qed (rule t)

lemma valid_collect_after:
  assumes t: "collected sets0 flags nb xs [] t" and n: "length flags = length (ds_parent sets0)"
    "nb + length as \<le> length (ds_parent sets0)"
  shows "valid (wfold (\<lambda>t (k, j). wlift (collect_vertex flags (\<lambda>g. g\<lparr>cand_after := cand_after g @ [j]\<rparr>) (nb + k) t)) t
      (enumerate 0 as)) work_failure (collected sets0 flags nb xs (enumerate 0 as))"
proof (rule valid_fold_prefix [where I = "collected sets0 flags nb xs"])
  fix ys p zs t
  assume split: "enumerate 0 as = ys @ p # zs" and t: "collected sets0 flags nb xs ys t"
  obtain y j where p: "p = (y, j)" by (rule prod.exhaust)
  have "(y, j) \<in> set (enumerate 0 as)" unfolding split p by simp
  then have y: "nb + y < length (ds_parent sets0)" using n by (auto simp: in_set_enumerate_eq)
  show "valid (case p of (k, j) \<Rightarrow> wlift (collect_vertex flags (\<lambda>g. g\<lparr>cand_after := cand_after g @ [j]\<rparr>) (nb + k) t))
      work_failure (collected sets0 flags nb xs (ys @ [p]))"
    unfolding p prod.case
    by (rule collect_vertex_step [OF t y n(1)]) (auto simp: side_snoc group_at_def)
qed (rule t)

text \<open>What the groups of one class are: non-empty, disjoint, and connecting every compatible pair.\<close>

definition grouped :: "(nat \<Rightarrow> nat \<Rightarrow> bool) \<Rightarrow> nat list \<Rightarrow> nat list \<Rightarrow> candidate_group list \<Rightarrow> bool" where
  "grouped rel bs as gs \<longleftrightarrow>
     (\<forall>g\<in>set gs. cand_before g \<noteq> [] \<and> cand_after g \<noteq> []) \<and>
     distinct (concat (map cand_before gs)) \<and> set (concat (map cand_before gs)) \<subseteq> set bs \<and>
     distinct (concat (map cand_after gs)) \<and> set (concat (map cand_after gs)) \<subseteq> set as \<and>
     (\<forall>i\<in>set bs. \<forall>j\<in>set as. rel i j \<longrightarrow> (\<exists>g\<in>set gs. i \<in> set (cand_before g) \<and> j \<in> set (cand_after g)))"

lemma side_iff: "i \<in> set (side flags root shift xs k) \<longleftrightarrow> (\<exists>x. (x, i) \<in> set xs \<and> flags ! (shift + x) \<and> root (shift + x) = k)"
  by (force simp: side_def)

lemma distinct_side: "distinct (map snd xs) \<Longrightarrow> distinct (side flags root shift xs k)"
  unfolding side_def by (rule distinct_map_filter)

lemma enumerate_snd: "map snd (enumerate 0 xs) = xs"
  by (simp add: enumerate_eq_zip)

lemma enumerate_position: "distinct xs \<Longrightarrow> (x, i) \<in> set (enumerate 0 xs) \<Longrightarrow> (y, i) \<in> set (enumerate 0 xs) \<Longrightarrow> x = y"
  by (auto simp: in_set_enumerate_eq nth_eq_iff_index_eq)

lemma collected_grouped:
  assumes t: "collected sets0 flags (length bs) (enumerate 0 bs) (enumerate 0 as) t"
    and dist: "distinct bs" "distinct as"
    and edges: "scan_ok_edges (length bs) (length bs + length as) es \<lparr>scan_sets = sets0, incident = flags\<rparr>"
    and es: "\<And>x y. (x, y) \<in> es \<Longrightarrow> x < length bs \<and> y < length as"
    and rel: "\<And>x y. x < length bs \<Longrightarrow> y < length as \<Longrightarrow> rel (bs ! x) (as ! y) \<Longrightarrow> (x, y) \<in> es"
  shows "grouped rel bs as (map snd (fst t))"
proof -
  let ?b = "side flags (root_of sets0) 0 (enumerate 0 bs)" and ?a = "side flags (root_of sets0) (length bs) (enumerate 0 as)"
  have sorted: "sorted_wrt (<) (map fst (fst t))"
    and entries: "\<And>k v. (k, v) \<in> set (fst t) \<longleftrightarrow>
      v = group_at flags (root_of sets0) (length bs) (enumerate 0 bs) (enumerate 0 as) k \<and> (?b k \<noteq> [] \<or> ?a k \<noteq> [])"
    using t unfolding collected_def holds_values_def by blast+
  have keys: "distinct (map fst (fst t))" using sorted by (simp add: strict_sorted_iff)
  have flag: "flags ! v \<longleftrightarrow> (\<exists>(x, y)\<in>es. v = x \<or> v = length bs + y)" if "v < length bs + length as" for v
    using edges that unfolding scan_ok_edges_def by simp
  have root: "root_of sets0 x = root_of sets0 (length bs + y)" if "(x, y) \<in> es" for x y
    using edges that unfolding scan_ok_edges_def by fastforce
  have pair: "bs ! x \<in> set (?b k) \<and> as ! y \<in> set (?a k)" if xy: "(x, y) \<in> es" and k: "k = root_of sets0 x" for x y k
  proof -
    have "x < length bs" "y < length as" using es [OF xy] by simp_all
    moreover from this have "flags ! x" "flags ! (length bs + y)" using flag xy by auto
    ultimately show ?thesis
      using root [OF xy] k unfolding side_iff
      by (intro conjI exI [of _ x] exI [of _ y]) (simp_all add: in_set_enumerate_eq)
  qed
  have both: "?b k \<noteq> [] \<and> ?a k \<noteq> []" if "?b k \<noteq> [] \<or> ?a k \<noteq> []" for k
    using that
  proof
    assume "?b k \<noteq> []"
    then obtain i where "i \<in> set (?b k)" by (metis last_in_set)
    then obtain x where x: "x < length bs" "flags ! x" "root_of sets0 x = k" by (auto simp: side_iff in_set_enumerate_eq)
    then obtain y where "(x, y) \<in> es" using flag es by fastforce
    then show ?thesis using pair x(3) by fastforce
  next
    assume "?a k \<noteq> []"
    then obtain j where "j \<in> set (?a k)" by (metis last_in_set)
    then obtain y where y: "y < length as" "flags ! (length bs + y)" "root_of sets0 (length bs + y) = k"
      by (auto simp: side_iff in_set_enumerate_eq)
    then obtain x where "(x, y) \<in> es" using flag [of "length bs + y"] es by fastforce
    then show ?thesis using pair root y(3) by fastforce
  qed
  have member: "\<exists>k. ?b k \<noteq> [] \<and> ?a k \<noteq> [] \<and> cand_before g = ?b k \<and> cand_after g = ?a k"
    if mem: "g \<in> set (map snd (fst t))" for g
  proof -
    obtain k where "(k, g) \<in> set (fst t)" using mem by auto
    then have g: "g = group_at flags (root_of sets0) (length bs) (enumerate 0 bs) (enumerate 0 as) k"
      "?b k \<noteq> [] \<or> ?a k \<noteq> []" unfolding entries by blast+
    show ?thesis
      by (rule exI [of _ k]) (use both [OF g(2)] in \<open>simp add: g(1) group_at_def\<close>)
  qed
  show ?thesis
    unfolding grouped_def
  proof (intro conjI ballI impI)
    show "distinct (concat (map cand_before (map snd (fst t))))"
    proof (rule distinct_concat_keys [OF keys])
      show "distinct (cand_before v)" if "(k, v) \<in> set (fst t)" for k v
        using that distinct_side [of "enumerate 0 bs"] dist(1) by (simp add: entries group_at_def enumerate_snd)
      show "k = l" if "(k, v) \<in> set (fst t)" "(l, w) \<in> set (fst t)" "i \<in> set (cand_before v)" "i \<in> set (cand_before w)" for k v l w i
        using that enumerate_position [OF dist(1)] by (auto simp: entries group_at_def side_iff)
    qed
    show "distinct (concat (map cand_after (map snd (fst t))))"
    proof (rule distinct_concat_keys [OF keys])
      show "distinct (cand_after v)" if "(k, v) \<in> set (fst t)" for k v
        using that distinct_side [of "enumerate 0 as"] dist(2) by (simp add: entries group_at_def enumerate_snd)
      show "k = l" if "(k, v) \<in> set (fst t)" "(l, w) \<in> set (fst t)" "i \<in> set (cand_after v)" "i \<in> set (cand_after w)" for k v l w i
        using that enumerate_position [OF dist(2)] by (auto simp: entries group_at_def side_iff)
    qed
    have "set (?b k) \<subseteq> set bs" "set (?a k) \<subseteq> set as" for k by (auto simp: side_iff in_set_enumerate_eq)
    then have "set (cand_before g) \<subseteq> set bs \<and> set (cand_after g) \<subseteq> set as" if "g \<in> set (map snd (fst t))" for g
      using member [OF that] by metis
    then show "set (concat (map cand_before (map snd (fst t)))) \<subseteq> set bs" "set (concat (map cand_after (map snd (fst t)))) \<subseteq> set as"
      by fastforce+
    show "cand_before g \<noteq> []" "cand_after g \<noteq> []" if "g \<in> set (map snd (fst t))" for g
      using member [OF that] by metis+
    fix i j assume "i \<in> set bs" "j \<in> set as" "rel i j"
    then obtain x y where xy: "x < length bs" "y < length as" "i = bs ! x" "j = as ! y" by (metis in_set_conv_nth)
    then have "(x, y) \<in> es" using rel \<open>rel i j\<close> by simp
    note p = pair [OF this refl]
    then have ne: "?b (root_of sets0 x) \<noteq> []" "?a (root_of sets0 x) \<noteq> []" by (metis empty_iff empty_set)+
    let ?g = "group_at flags (root_of sets0) (length bs) (enumerate 0 bs) (enumerate 0 as) (root_of sets0 x)"
    have "(root_of sets0 x, ?g) \<in> set (fst t)" unfolding entries using ne by blast
    then have "?g \<in> set (map snd (fst t))" by force
    then show "\<exists>g\<in>set (map snd (fst t)). i \<in> set (cand_before g) \<and> j \<in> set (cand_after g)"
      using p xy by (intro bexI [of _ ?g]) (simp_all add: group_at_def)
  qed
qed

lemma collected_start:
  "wf_sets sets0 \<Longrightarrow> collected sets0 flags nb [] [] ([], sets0)"
  by (simp add: collected_def holds_values_def group_at_def side_def empty_group_def)

lemma small_product:
  assumes "bs \<noteq> []" "as \<noteq> []" "length bs * length as \<le> 16384"
  shows "length bs + length as \<le> usize_max"
proof -
  have "1 \<le> length bs" "1 \<le> length as" using assms(1,2) by (simp_all add: Suc_leI)
  then have "length bs * 1 \<le> length bs * length as" "1 * length as \<le> length bs * length as"
    by (intro mult_le_mono; simp)+
  then have "length bs + length as \<le> 32768" using assms(3) by linarith
  then show ?thesis by (simp add: usize_max_def)
qed

lemma grouped_whole:
  "bs \<noteq> [] \<Longrightarrow> as \<noteq> [] \<Longrightarrow> distinct bs \<Longrightarrow> distinct as \<Longrightarrow>
   grouped rel bs as [\<lparr>cand_before = bs, cand_after = as, scan_complete = b\<rparr>]"
  by (simp add: grouped_def)

lemma valid_class_groups:
  assumes wf: "wf_syntax before" "wf_syntax after" and ok: "phase_ok before after m phase"
    and bs: "\<And>i. i \<in> set (class_before c) \<Longrightarrow> i < length (ps_nodes before)" "class_before c \<noteq> []" "distinct (class_before c)"
    and as: "\<And>j. j \<in> set (class_after c) \<Longrightarrow> j < length (ps_nodes after)" "class_after c \<noteq> []" "distinct (class_after c)"
  shows "valid (class_groups before after phase c) work_failure
    (grouped (compatible before after phase) (class_before c) (class_after c))"
proof -
  let ?bs = "class_before c" and ?as = "class_after c"
  let ?n = "length ?bs + length ?as"
  let ?within = "case usize_checked_mul (length ?bs) (length ?as) of
           None \<Rightarrow> False | Some pairs \<Rightarrow> pairs \<le> ORDERED_ALIGNMENT_CANDIDATE_SCAN_LIMIT"
  let ?es = "edges_of before after phase (enumerate 0 ?bs) (enumerate 0 ?as)"
  show ?thesis
  proof (cases ?within)
    case False
    then show ?thesis
      unfolding class_groups_def Let_def
      by (intro valid_charge_bind) (simp_all add: valid_charge_bind valid_return grouped_whole bs as)
  next
    case True
    then have "length ?bs * length ?as \<le> 16384"
      by (simp add: usize_checked_mul_def ORDERED_ALIGNMENT_CANDIDATE_SCAN_LIMIT_def ORDERED_ALIGNMENT_COMPONENT_LIMIT_def
          split: if_splits)
    then have vertices: "checked_add CandidateVertexCount (length ?bs) (length ?as) = Inr ?n"
      using small_product [OF bs(2) as(2)] by (simp add: checked_add_def usize_checked_add_def)
    have collect: "valid (wbind (wfold (\<lambda>t (k, i). wlift (collect_vertex (incident s)
                       (\<lambda>g. g\<lparr>cand_before := cand_before g @ [i]\<rparr>) k t))
                ([], scan_sets s) (enumerate 0 ?bs)) (\<lambda>t.
       wbind (wfold (\<lambda>t (k, j). wlift (collect_vertex (incident s)
                       (\<lambda>g. g\<lparr>cand_after := cand_after g @ [j]\<rparr>) (length ?bs + k) t))
                t (enumerate 0 ?as)) (\<lambda>t. wreturn (map snd (fst t))))) work_failure
        (grouped (compatible before after phase) ?bs ?as)"
      if s: "scan_ok_edges (length ?bs) ?n ?es s" for s
    proof -
      have len: "length (incident s) = length (ds_parent (scan_sets s))" "length (ds_parent (scan_sets s)) = ?n"
        and wfs: "wf_sets (scan_sets s)"
        using s by (simp_all add: scan_ok_edges_def)
      show ?thesis
      proof (rule valid_bind [OF valid_collect_before [OF collected_start [OF wfs] len(1)]], simp add: len(2),
          rule valid_bind [OF valid_collect_after [OF _ len(1)]], assumption, simp add: len(2), rule valid_return)
        fix t assume t: "collected (scan_sets s) (incident s) (length ?bs) (enumerate 0 ?bs) (enumerate 0 ?as) t"
        show "grouped (compatible before after phase) ?bs ?as (map snd (fst t))"
        proof (rule collected_grouped [OF t bs(3) as(3)])
          show "scan_ok_edges (length ?bs) ?n ?es \<lparr>scan_sets = scan_sets s, incident = incident s\<rparr>"
            using s by (cases s) simp
          show "x < length ?bs \<and> y < length ?as" if "(x, y) \<in> ?es" for x y
            using that by (auto simp: edges_of_def in_set_enumerate_eq)
          show "(x, y) \<in> ?es" if "x < length ?bs" "y < length ?as" "compatible before after phase (?bs ! x) (?as ! y)" for x y
            using that by (auto simp: edges_of_def in_set_enumerate_eq)
        qed
      qed
    qed
    have inside: "\<not> \<not> ?within" using True by blast
    show ?thesis
      unfolding class_groups_def Let_def if_not_P [OF inside] vertices wlift_simps wbind_wreturn
      by (rule valid_charge_bind, simp, rule valid_charge_product_bind, simp, rule valid_charge_bind, simp,
          rule valid_bind [OF valid_connect_all [OF wf ok bs(1) as(1)]], assumption, assumption,
          rule valid_charge_n_log_n_bind, simp, rule collect)
  qed
qed

section \<open>All groups of a region\<close>

definition groups_ok ::
  "parsed_syntax \<Rightarrow> parsed_syntax \<Rightarrow> phase_mappings \<Rightarrow> nat list \<Rightarrow> nat list \<Rightarrow> candidate_groups \<Rightarrow> bool" where
  "groups_ok before after phase bs as cg \<longleftrightarrow>
     grouped (\<lambda>i j. same_class before after i j \<and> compatible before after phase i j) bs as (cg_groups cg) \<and>
     (\<forall>g\<in>set (cg_groups cg). \<forall>i\<in>set (cand_before g). \<forall>j\<in>set (cand_after g). same_class before after i j) \<and>
     (\<forall>i k. before_group cg i = Some k \<longleftrightarrow> k < length (cg_groups cg) \<and> i \<in> set (cand_before (cg_groups cg ! k))) \<and>
     (\<forall>j k. after_group cg j = Some k \<longleftrightarrow> k < length (cg_groups cg) \<and> j \<in> set (cand_after (cg_groups cg ! k)))"

definition classes_grouped ::
  "parsed_syntax \<Rightarrow> parsed_syntax \<Rightarrow> phase_mappings \<Rightarrow> verified_shape_class list \<Rightarrow> candidate_group list \<Rightarrow> bool" where
  "classes_grouped before after phase cs gs \<longleftrightarrow>
     grouped (\<lambda>i j. (\<exists>c\<in>set cs. i \<in> set (class_before c) \<and> j \<in> set (class_after c)) \<and> compatible before after phase i j)
       (concat (map class_before cs)) (concat (map class_after cs)) gs \<and>
     (\<forall>g\<in>set gs. \<exists>c\<in>set cs. set (cand_before g) \<subseteq> set (class_before c) \<and> set (cand_after g) \<subseteq> set (class_after c))"

lemma grouped_inside:
  assumes "grouped rel bs as gs" "g \<in> set gs"
  shows "set (cand_before g) \<subseteq> set bs" "set (cand_after g) \<subseteq> set as"
  using assms unfolding grouped_def by auto

lemma classes_groupedD:
  assumes "classes_grouped before after phase cs gs"
  shows "\<forall>g\<in>set gs. cand_before g \<noteq> [] \<and> cand_after g \<noteq> []" "distinct (concat (map cand_before gs))"
    "set (concat (map cand_before gs)) \<subseteq> set (concat (map class_before cs))" "distinct (concat (map cand_after gs))"
    "set (concat (map cand_after gs)) \<subseteq> set (concat (map class_after cs))"
    "\<forall>g\<in>set gs. \<exists>c\<in>set cs. set (cand_before g) \<subseteq> set (class_before c) \<and> set (cand_after g) \<subseteq> set (class_after c)"
    "d \<in> set cs \<Longrightarrow> i \<in> set (class_before d) \<Longrightarrow> j \<in> set (class_after d) \<Longrightarrow> compatible before after phase i j \<Longrightarrow>
      \<exists>g\<in>set gs. i \<in> set (cand_before g) \<and> j \<in> set (cand_after g)"
proof -
  show "\<exists>g\<in>set gs. i \<in> set (cand_before g) \<and> j \<in> set (cand_after g)"
    if d: "d \<in> set cs" "i \<in> set (class_before d)" "j \<in> set (class_after d)" and c: "compatible before after phase i j"
  proof -
    have "i \<in> set (concat (map class_before cs))" "j \<in> set (concat (map class_after cs))" using d by auto
    then show ?thesis using assms d c unfolding classes_grouped_def grouped_def by blast
  qed
qed (use assms in \<open>unfold classes_grouped_def grouped_def, blast+\<close>)

lemma classes_grouped_snoc:
  assumes old: "classes_grouped before after phase cs gs"
    and new: "grouped (compatible before after phase) (class_before c) (class_after c) hs"
    and dist: "distinct (concat (map class_before (cs @ [c])))" "distinct (concat (map class_after (cs @ [c])))"
  shows "classes_grouped before after phase (cs @ [c]) (gs @ hs)"
proof -
  let ?B = "concat (map class_before cs)" and ?A = "concat (map class_after cs)"
  have o: "\<forall>g\<in>set gs. cand_before g \<noteq> [] \<and> cand_after g \<noteq> []" "distinct (concat (map cand_before gs))"
    "set (concat (map cand_before gs)) \<subseteq> set ?B" "distinct (concat (map cand_after gs))" "set (concat (map cand_after gs)) \<subseteq> set ?A"
    and orel: "\<And>i j d. d \<in> set cs \<Longrightarrow> i \<in> set (class_before d) \<Longrightarrow> j \<in> set (class_after d) \<Longrightarrow> compatible before after phase i j \<Longrightarrow>
      \<exists>g\<in>set gs. i \<in> set (cand_before g) \<and> j \<in> set (cand_after g)"
    and oin: "\<forall>g\<in>set gs. \<exists>c\<in>set cs. set (cand_before g) \<subseteq> set (class_before c) \<and> set (cand_after g) \<subseteq> set (class_after c)"
    using classes_groupedD [OF old] by simp_all
  have n: "\<forall>g\<in>set hs. cand_before g \<noteq> [] \<and> cand_after g \<noteq> []" "distinct (concat (map cand_before hs))"
    "set (concat (map cand_before hs)) \<subseteq> set (class_before c)" "distinct (concat (map cand_after hs))"
    "set (concat (map cand_after hs)) \<subseteq> set (class_after c)"
    and nrel: "\<And>i j. i \<in> set (class_before c) \<Longrightarrow> j \<in> set (class_after c) \<Longrightarrow> compatible before after phase i j \<Longrightarrow>
      \<exists>g\<in>set hs. i \<in> set (cand_before g) \<and> j \<in> set (cand_after g)"
    using new unfolding grouped_def by blast+
  have disjoint: "set ?B \<inter> set (class_before c) = {}" "set ?A \<inter> set (class_after c) = {}"
    using dist by auto
  have d: "distinct (concat (map cand_before (gs @ hs)))" "distinct (concat (map cand_after (gs @ hs)))"
    using o(2,3,4,5) n(2,3,4,5) disjoint unfolding map_append concat_append distinct_append by blast+
  have sub: "set (concat (map cand_before (gs @ hs))) \<subseteq> set (concat (map class_before (cs @ [c])))"
    "set (concat (map cand_after (gs @ hs))) \<subseteq> set (concat (map class_after (cs @ [c])))"
    using o(3,5) n(3,5) by auto
  have rel: "\<exists>g\<in>set (gs @ hs). i \<in> set (cand_before g) \<and> j \<in> set (cand_after g)"
    if "d \<in> set (cs @ [c])" "i \<in> set (class_before d)" "j \<in> set (class_after d)" "compatible before after phase i j" for i j d
    using that orel [of d i j] nrel [of i j] by (cases "d = c") auto
  have ins: "\<forall>g\<in>set (gs @ hs). \<exists>d\<in>set (cs @ [c]). set (cand_before g) \<subseteq> set (class_before d) \<and> set (cand_after g) \<subseteq> set (class_after d)"
  proof
    fix g assume "g \<in> set (gs @ hs)"
    then show "\<exists>d\<in>set (cs @ [c]). set (cand_before g) \<subseteq> set (class_before d) \<and> set (cand_after g) \<subseteq> set (class_after d)"
      using oin grouped_inside [OF new, of g] by (cases "g \<in> set gs") auto
  qed
  show ?thesis
    unfolding classes_grouped_def grouped_def
  proof (intro conjI ballI impI)
    fix i j assume "(\<exists>c\<in>set (cs @ [c]). i \<in> set (class_before c) \<and> j \<in> set (class_after c)) \<and> compatible before after phase i j"
    then show "\<exists>g\<in>set (gs @ hs). i \<in> set (cand_before g) \<and> j \<in> set (cand_after g)" using rel by blast
  next
    fix g assume g: "g \<in> set (gs @ hs)"
    then show "cand_before g \<noteq> []" "cand_after g \<noteq> []" using o(1) n(1) by auto
    from ins g show "\<exists>d\<in>set (cs @ [c]). set (cand_before g) \<subseteq> set (class_before d) \<and> set (cand_after g) \<subseteq> set (class_after d)"
      by (rule bspec)
  qed (fact d sub)+
qed

lemma valid_insert_fresh:
  assumes "distinct xs" "\<And>x. x \<in> set xs \<Longrightarrow> m x = None"
  shows "valid (wfold (insert_fresh k) m xs) work_failure (\<lambda>m'. m' = (\<lambda>i. if i \<in> set xs then Some k else m i))"
proof (rule valid_fold_prefix [where I = "\<lambda>ys m'. m' = (\<lambda>i. if i \<in> set ys then Some k else m i)"])
  fix ys x zs m'
  assume "xs = ys @ x # zs" "m' = (\<lambda>i. if i \<in> set ys then Some k else m i)"
  then show "valid (insert_fresh k m' x) work_failure (\<lambda>m'. m' = (\<lambda>i. if i \<in> set (ys @ [x]) then Some k else m i))"
    using assms by (auto simp: insert_fresh_def fun_eq_iff intro!: valid_return)
qed simp

definition indexed_by :: "('g \<Rightarrow> nat list) \<Rightarrow> 'g list \<Rightarrow> (nat \<rightharpoonup> nat) \<Rightarrow> bool" where
  "indexed_by h gs m \<longleftrightarrow> (\<forall>i k. m i = Some k \<longleftrightarrow> k < length gs \<and> i \<in> set (h (gs ! k)))"

lemma indexed_by_snoc:
  assumes m: "indexed_by h gs m" and dist: "distinct (concat (map h (gs @ [g])))"
  shows "i \<in> set (h g) \<Longrightarrow> m i = None"
    and "indexed_by h (gs @ [g]) (\<lambda>i. if i \<in> set (h g) then Some (length gs) else m i)"
proof -
  have fresh: "k < length gs \<Longrightarrow> i \<notin> set (h (gs ! k))" if "i \<in> set (h g)" for i k
    using dist that by (auto dest: nth_mem)
  show "m i = None" if "i \<in> set (h g)" for i
    using m fresh [OF that] unfolding indexed_by_def by (metis not_None_eq)
  show "indexed_by h (gs @ [g]) (\<lambda>i. if i \<in> set (h g) then Some (length gs) else m i)"
    using m fresh unfolding indexed_by_def by (auto simp: nth_append less_Suc_eq)
qed

lemma valid_index_groups:
  assumes dist: "distinct (concat (map cand_before gs))" "distinct (concat (map cand_after gs))"
  shows "valid (wfold index_group (Map.empty, Map.empty) (enumerate 0 gs)) work_failure
    (\<lambda>s. indexed_by cand_before gs (fst s) \<and> indexed_by cand_after gs (snd s))"
proof -
  have "valid (wfold index_group (Map.empty, Map.empty) (enumerate 0 gs)) work_failure
    (\<lambda>s. indexed_by cand_before (map snd (enumerate 0 gs)) (fst s) \<and> indexed_by cand_after (map snd (enumerate 0 gs)) (snd s))"
  proof (rule valid_fold_prefix [where I = "\<lambda>ys s. indexed_by cand_before (map snd ys) (fst s) \<and> indexed_by cand_after (map snd ys) (snd s)"])
    fix ys x zs s
    assume split: "enumerate 0 gs = ys @ x # zs"
      and s: "indexed_by cand_before (map snd ys) (fst s) \<and> indexed_by cand_after (map snd ys) (snd s)"
    have "gs = map snd ys @ snd x # map snd zs"
      using arg_cong [OF split, of "map snd"] by (simp add: enumerate_snd)
    then have d: "distinct (concat (map cand_before (map snd ys @ [snd x])))" "distinct (concat (map cand_after (map snd ys @ [snd x])))"
      using dist by auto
    have "length ys < length gs" using arg_cong [OF split, of length] by simp
    from nth_enumerate_eq [OF this, of 0] have "fst x = length ys" unfolding split by simp
    then have k: "fst x = length (map snd ys)" by simp
    note b = indexed_by_snoc [OF conjunct1 [OF s] d(1)] and a = indexed_by_snoc [OF conjunct2 [OF s] d(2)]
    have dd: "distinct (cand_before (snd x))" "distinct (cand_after (snd x))" using d by auto
    show "valid (index_group s x) work_failure
      (\<lambda>s. indexed_by cand_before (map snd (ys @ [x])) (fst s) \<and> indexed_by cand_after (map snd (ys @ [x])) (snd s))"
      unfolding index_group_def
    proof (rule valid_charge_bind, simp, rule valid_bind [OF valid_insert_fresh [OF dd(1) b(1)]], assumption,
        rule valid_charge_bind, simp, rule valid_bind [OF valid_insert_fresh [OF dd(2) a(1)]], assumption, rule valid_return)
    qed (simp only: fst_conv snd_conv map_append list.map k b(2) a(2) simp_thms)
  qed (simp add: indexed_by_def)
  then show ?thesis by (simp add: enumerate_snd)
qed

lemma valid_verified_candidate_groups:
  assumes wf: "wf_syntax before" "wf_syntax after" and ok: "phase_ok before after m phase"
    and bs: "\<And>i. i \<in> set bs \<Longrightarrow> i < length (ps_nodes before)" and as: "\<And>j. j \<in> set as \<Longrightarrow> j < length (ps_nodes after)"
    and cs: "classified (same_class before after) bs as (classes partition_classes)"
  shows "valid (verified_candidate_groups before after phase partition_classes) work_failure (groups_ok before after phase bs as)"
proof -
  let ?cs = "classes partition_classes"
  have c: "\<forall>c\<in>set ?cs. class_before c \<noteq> [] \<and> class_after c \<noteq> []" "distinct (concat (map class_before ?cs))"
    "set (concat (map class_before ?cs)) \<subseteq> set bs" "distinct (concat (map class_after ?cs))" "set (concat (map class_after ?cs)) \<subseteq> set as"
    and rel: "\<And>i j. i \<in> set bs \<Longrightarrow> j \<in> set as \<Longrightarrow> same_class before after i j \<longleftrightarrow> (\<exists>c\<in>set ?cs. i \<in> set (class_before c) \<and> j \<in> set (class_after c))"
    using cs unfolding classified_def by blast+
  have "valid (wfold (\<lambda>groups c. wbind (class_groups before after phase c) (\<lambda>new. wreturn (groups @ new))) [] ?cs) work_failure
      (classes_grouped before after phase ?cs)"
  proof (rule valid_fold_prefix [where I = "classes_grouped before after phase"])
    show "classes_grouped before after phase [] []" by (simp add: classes_grouped_def grouped_def)
  next
    fix ys x zs gs assume split: "?cs = ys @ x # zs" and gs: "classes_grouped before after phase ys gs"
    have x: "x \<in> set ?cs" unfolding split by simp
    have d: "distinct (concat (map class_before (ys @ [x])))" "distinct (concat (map class_after (ys @ [x])))"
      using c(2,4) unfolding split by auto
    have "valid (class_groups before after phase x) work_failure
        (grouped (compatible before after phase) (class_before x) (class_after x))"
      by (rule valid_class_groups [OF wf ok]) (use c x bs as d in auto)
    then show "valid (wbind (class_groups before after phase x) (\<lambda>new. wreturn (gs @ new))) work_failure
        (classes_grouped before after phase (ys @ [x]))"
      by (rule valid_bind) (intro valid_return classes_grouped_snoc [OF gs _ d])
  qed
  then show ?thesis
    unfolding verified_candidate_groups_def
  proof (rule valid_bind, intro valid_charge_n_log_n_bind, simp)
    fix gs assume gs: "classes_grouped before after phase ?cs gs"
    let ?gs = "sort_key (\<lambda>g. (hd (cand_before g), hd (cand_after g))) gs"
    have g: "\<forall>g\<in>set gs. cand_before g \<noteq> [] \<and> cand_after g \<noteq> []" "distinct (concat (map cand_before gs))"
      "set (concat (map cand_before gs)) \<subseteq> set (concat (map class_before ?cs))" "distinct (concat (map cand_after gs))"
      "set (concat (map cand_after gs)) \<subseteq> set (concat (map class_after ?cs))"
      and grel: "\<And>i j. (\<exists>c\<in>set ?cs. i \<in> set (class_before c) \<and> j \<in> set (class_after c)) \<Longrightarrow> compatible before after phase i j \<Longrightarrow>
        \<exists>g\<in>set gs. i \<in> set (cand_before g) \<and> j \<in> set (cand_after g)"
      and gin: "\<forall>g\<in>set gs. \<exists>c\<in>set ?cs. set (cand_before g) \<subseteq> set (class_before c) \<and> set (cand_after g) \<subseteq> set (class_after c)"
      using classes_groupedD [OF gs] by blast+
    have sort: "sort_groups gs = Inr ?gs" using g(1) by (auto simp: sort_groups_def)
    have permute: "distinct (concat (map h ?gs)) \<longleftrightarrow> distinct (concat (map h gs))" "set (concat (map h ?gs)) = set (concat (map h gs))"
      for h :: "candidate_group \<Rightarrow> nat list"
    proof -
      have "mset (concat (map h xs)) = sum_mset (image_mset (\<lambda>g. mset (h g)) (mset xs))" for xs :: "candidate_group list"
        by (induction xs) simp_all
      then have eq: "mset (concat (map h ?gs)) = mset (concat (map h gs))" by (simp only: mset_sort)
      show "distinct (concat (map h ?gs)) \<longleftrightarrow> distinct (concat (map h gs))" by (rule mset_eq_imp_distinct_iff [OF eq])
      show "set (concat (map h ?gs)) = set (concat (map h gs))" by (rule mset_eq_setD [OF eq])
    qed
    have d: "distinct (concat (map cand_before ?gs))" "distinct (concat (map cand_after ?gs))"
      using g permute(1) by blast+
    have "grouped (\<lambda>i j. same_class before after i j \<and> compatible before after phase i j) bs as ?gs"
      unfolding grouped_def
    proof (intro conjI)
      show "set (concat (map cand_before ?gs)) \<subseteq> set bs" "set (concat (map cand_after ?gs)) \<subseteq> set as"
        unfolding permute using g(3,5) c(3,5) by blast+
      show "\<forall>i\<in>set bs. \<forall>j\<in>set as. same_class before after i j \<and> compatible before after phase i j \<longrightarrow>
          (\<exists>g\<in>set ?gs. i \<in> set (cand_before g) \<and> j \<in> set (cand_after g))"
        using rel grel unfolding set_sort by blast
    qed (use g(1) d in simp_all)
    moreover have "same_class before after i j"
      if mem: "h \<in> set gs" "i \<in> set (cand_before h)" "j \<in> set (cand_after h)" for h i j
    proof -
      obtain d where d: "d \<in> set ?cs" "i \<in> set (class_before d)" "j \<in> set (class_after d)" using gin mem by blast
      moreover have "i \<in> set bs" "j \<in> set as" using c(3,5) d by auto
      ultimately show ?thesis using rel by blast
    qed
    ultimately show "valid (wbind (wlift (sort_groups gs)) (\<lambda>groups.
     wbind (wfold index_group (Map.empty, Map.empty) (enumerate 0 groups)) (\<lambda>s.
       wreturn \<lparr>cg_groups = groups, before_group = fst s, after_group = snd s\<rparr>))) work_failure (groups_ok before after phase bs as)"
      unfolding sort wlift_simps wbind_wreturn
      by (intro valid_bind [OF valid_index_groups [OF d]] valid_return) (simp add: groups_ok_def indexed_by_def)
  qed
qed

section \<open>Properties\<close>

text \<open>C21: the shape classes are exact. \<open>verified_shape_classes\<close> exhausts the budget or returns disjoint classes with both
  sides non-empty, such that a before node and an after node of the region share a class exactly when their keys
  agree and their subtrees have the same shape; the representative tests lose nothing against comparing all pairs,
  even when digests collide.\<close>

theorem shape_classes_exact:
  assumes "\<forall>i\<in>set bs. in_arena before i" "distinct bs" "\<forall>j\<in>set as. in_arena after j" "distinct as"
  shows "valid (verified_shape_classes before after bs as) work_failure
    (\<lambda>s. classified (same_class before after) bs as (classes s))"
  using assms by (intro valid_verified_shape_classes) auto

text \<open>C20: the candidate groups cover all candidates. \<open>verified_candidate_groups\<close> exhausts the budget or returns groups that
  are disjoint on both sides, none of them one-sided, so that every pair of equal shape that the global phase allows
  lies inside one group, and the two index maps are exactly the membership in the groups; neither debug assertion
  fails and the sort key exists for every group.\<close>

theorem candidate_groups_exact:
  assumes "wf_syntax before" "wf_syntax after" "phase_ok before after m phase"
    and "\<forall>i\<in>set bs. i < length (ps_nodes before)" "\<forall>j\<in>set as. j < length (ps_nodes after)"
    and "classified (same_class before after) bs as (classes cs)"
  shows "valid (verified_candidate_groups before after phase cs) work_failure (groups_ok before after phase bs as)"
  using assms by (intro valid_verified_candidate_groups [OF assms(1-3)]) auto

end
