(* ===== verification/Components.thy ===== *)
theory Components
  imports Shape_Classes
begin

text \<open>
  \<open>ordered_interaction_components\<close> (\<open>verifier.rs\<close>): the candidate groups of a region are cut into components
  that cannot interact, at the positions where complete groups occupy prefixes of the active children
  on both sides. The components are a partition of the active children, in order, and the
  final completeness check of the code always passes.
\<close>

record alignment_component =
  comp_before :: "nat list"
  comp_after :: "nat list"
  comp_groups :: "nat list"

section \<open>Positions of the groups\<close>

definition note_last :: "(nat \<rightharpoonup> nat) \<Rightarrow> nat list \<Rightarrow> nat \<times> nat \<Rightarrow> nat list result" where
  "note_last group_of lasts p =
     rbind (of_option (CoreFailure MissingCandidateGroup) (group_of (snd p))) (\<lambda>g. set_at lasts g (fst p))"

definition note_last_count :: "(nat \<rightharpoonup> nat) \<Rightarrow> nat list \<times> nat list \<Rightarrow> nat \<times> nat \<Rightarrow> (nat list \<times> nat list) result" where
  "note_last_count group_of s p =
     rbind (of_option (CoreFailure MissingCandidateGroup) (group_of (snd p))) (\<lambda>g.
     rbind (set_at (fst s) g (fst p)) (\<lambda>lasts.
     rbind (update_at Suc (snd s) g) (\<lambda>counts. Inr (lasts, counts))))"

section \<open>The cuts\<close>

record component_scan =
  components :: "alignment_component list"
  group_seen :: "bool list"
  component_groups :: "nat list"
  before_start :: nat
  after_start :: nat
  before_prefix_last :: nat
  after_prefix_last :: nat
  after_prefix_count :: nat

definition visit_group :: "nat list \<Rightarrow> nat list \<Rightarrow> nat list \<Rightarrow> nat \<Rightarrow> component_scan \<Rightarrow> component_scan result" where
  "visit_group before_last after_last after_counts g s =
     rbind (index_at (group_seen s) g) (\<lambda>seen.
     if seen then Inr s
     else
       rbind (set_at (group_seen s) g True) (\<lambda>seen'.
       rbind (index_at before_last g) (\<lambda>bl.
       rbind (index_at after_last g) (\<lambda>al.
       rbind (index_at after_counts g) (\<lambda>ac.
         Inr (s\<lparr>group_seen := seen', component_groups := component_groups s @ [g],
                before_prefix_last := max (before_prefix_last s) bl,
                after_prefix_last := max (after_prefix_last s) al,
                after_prefix_count := after_prefix_count s + ac\<rparr>))))))"

definition scan_position ::
  "(nat \<rightharpoonup> nat) \<Rightarrow> nat list \<Rightarrow> nat list \<Rightarrow> nat list \<Rightarrow> nat list \<Rightarrow> nat list \<Rightarrow> component_scan \<Rightarrow> nat \<times> nat \<Rightarrow>
   component_scan work" where
  "scan_position group_of before_last after_last after_counts active_before active_after s p =
     wbind (wlift (rbind (of_option (CoreFailure MissingCandidateGroup) (group_of (snd p))) (\<lambda>g.
       visit_group before_last after_last after_counts g s))) (\<lambda>s.
     if fst p = before_prefix_last s \<and> after_prefix_count s = after_prefix_last s + 1 then
       wbind (wlift (usize_sub (fst p + 1) (before_start s))) (\<lambda>b.
       wbind (charge b) (\<lambda>_.
       wbind (wlift (usize_sub (after_prefix_count s) (after_start s))) (\<lambda>a.
       wbind (charge a) (\<lambda>_.
       wbind (wlift (slice active_before (before_start s) (fst p + 1))) (\<lambda>bs.
       wbind (wlift (slice active_after (after_start s) (after_prefix_count s))) (\<lambda>as.
         wreturn (s\<lparr>components := components s @ [\<lparr>comp_before = bs, comp_after = as, comp_groups = component_groups s\<rparr>],
                    component_groups := [], before_start := fst p + 1, after_start := after_prefix_count s\<rparr>)))))))
     else wreturn s)"

definition ordered_interaction_components ::
  "candidate_groups \<Rightarrow> nat list \<Rightarrow> nat list \<Rightarrow> alignment_component list work" where
  "ordered_interaction_components cg before_ids after_ids =
     wbind (charge (length before_ids)) (\<lambda>_.
     let active_before = filter (\<lambda>i. before_group cg i \<noteq> None) before_ids in
     wbind (charge (length after_ids)) (\<lambda>_.
     let active_after = filter (\<lambda>j. after_group cg j \<noteq> None) after_ids in
     if active_before = [] then wreturn []
     else
       let n = length (cg_groups cg) in
       wbind (charge_product n 3) (\<lambda>_.
       wbind (charge (length active_before)) (\<lambda>_.
       wbind (wfold (\<lambda>lasts p. wlift (note_last (before_group cg) lasts p)) (replicate n 0) (enumerate 0 active_before)) (\<lambda>before_last.
       wbind (charge (length active_after)) (\<lambda>_.
       wbind (wfold (\<lambda>s p. wlift (note_last_count (after_group cg) s p)) (replicate n 0, replicate n 0) (enumerate 0 active_after)) (\<lambda>after.
       wbind (charge (length active_before)) (\<lambda>_.
       wbind (wfold (scan_position (before_group cg) before_last (fst after) (snd after) active_before active_after)
                \<lparr>components = [], group_seen = replicate n False, component_groups = [], before_start = 0, after_start = 0,
                 before_prefix_last = 0, after_prefix_last = 0, after_prefix_count = 0\<rparr>
                (enumerate 0 active_before)) (\<lambda>s.
       wbind (wensure (\<not> (before_start s \<noteq> length active_before \<or> after_start s \<noteq> length active_after
                \<or> component_groups s \<noteq> [])) (CoreFailure IncompleteComponents)) (\<lambda>_.
         wreturn (components s)))))))))))"

section \<open>Lists of group numbers\<close>

text \<open>\<open>fs\<close> lists the groups of the active children by position: \<open>lasts\<close> holds their last positions.\<close>

definition last_positions :: "nat list \<Rightarrow> nat list \<Rightarrow> bool" where
  "last_positions fs lasts \<longleftrightarrow>
     (\<forall>g\<in>set fs. lasts ! g < length fs \<and> fs ! (lasts ! g) = g \<and> (\<forall>x<length fs. fs ! x = g \<longrightarrow> x \<le> lasts ! g))"

lemma last_positions_snoc:
  assumes "last_positions fs lasts" "g < length lasts" "\<forall>h\<in>set fs. h < length lasts"
  shows "last_positions (fs @ [g]) (lasts[g := length fs])"
proof -
  have "(fs @ [g]) ! x = (if x < length fs then fs ! x else g)" if "x < length (fs @ [g])" for x
    using that by (auto simp: nth_append less_Suc_eq)
  then show ?thesis
    using assms unfolding last_positions_def by (auto simp: nth_list_update less_Suc_eq)
qed

definition groups_by :: "(nat \<rightharpoonup> nat) \<Rightarrow> nat list \<Rightarrow> nat list" where
  "groups_by group_of ids = map (\<lambda>i. the (group_of i)) ids"

lemma valid_note_lasts:
  assumes "\<And>i. i \<in> set ids \<Longrightarrow> \<exists>g<n. group_of i = Some g"
  shows "valid (wfold (\<lambda>lasts p. wlift (note_last group_of lasts p)) (replicate n 0) (enumerate 0 ids)) work_failure
    (\<lambda>lasts. length lasts = n \<and> last_positions (groups_by group_of ids) lasts)"
proof -
  have "valid (wfold (\<lambda>lasts p. wlift (note_last group_of lasts p)) (replicate n 0) (enumerate 0 ids)) work_failure
    (\<lambda>lasts. length lasts = n \<and> last_positions (groups_by group_of (map snd (enumerate 0 ids))) lasts)"
  proof (rule valid_fold_prefix [where I = "\<lambda>ys lasts. length lasts = n \<and> last_positions (groups_by group_of (map snd ys)) lasts"])
    fix ys p zs lasts
    assume split: "enumerate 0 ids = ys @ p # zs" and I: "length lasts = n \<and> last_positions (groups_by group_of (map snd ys)) lasts"
    have ids: "ids = map snd ys @ snd p # map snd zs"
      using arg_cong [OF split, of "map snd"] by (simp add: enumerate_snd)
    have "length ys < length ids" using arg_cong [OF split, of length] by simp
    from nth_enumerate_eq [OF this, of 0] have fst: "fst p = length ys" unfolding split by simp
    obtain g where g: "g < n" "group_of (snd p) = Some g" using assms ids by auto
    have "\<forall>h\<in>set (groups_by group_of (map snd ys)). h < length lasts"
    proof
      fix h assume "h \<in> set (groups_by group_of (map snd ys))"
      then obtain i where i: "i \<in> set (map snd ys)" "h = the (group_of i)" by (auto simp: groups_by_def)
      then have "i \<in> set ids" using ids by simp
      from assms [OF this] i(2) show "h < length lasts" using I by auto
    qed
    then have "last_positions (groups_by group_of (map snd ys) @ [g]) (lasts[g := length (groups_by group_of (map snd ys))])"
      using I g(1) by (intro last_positions_snoc) simp_all
    then show "valid (wlift (note_last group_of lasts p)) work_failure
        (\<lambda>lasts. length lasts = n \<and> last_positions (groups_by group_of (map snd (ys @ [p]))) lasts)"
      using I g fst by (simp add: note_last_def groups_by_def valid_return)
  qed (simp add: groups_by_def last_positions_def)
  then show ?thesis by (simp add: enumerate_snd)
qed

lemma valid_note_last_counts:
  assumes "\<And>i. i \<in> set ids \<Longrightarrow> \<exists>g<n. group_of i = Some g"
  shows "valid (wfold (\<lambda>s p. wlift (note_last_count group_of s p)) (replicate n 0, replicate n 0) (enumerate 0 ids)) work_failure
    (\<lambda>s. length (fst s) = n \<and> last_positions (groups_by group_of ids) (fst s) \<and>
       length (snd s) = n \<and> (\<forall>g<n. snd s ! g = count_list (groups_by group_of ids) g))"
proof -
  define I where "I ys s \<longleftrightarrow> length (fst s) = n \<and> last_positions (groups_by group_of (map snd ys)) (fst s) \<and>
       length (snd s) = n \<and> (\<forall>g<n. snd s ! g = count_list (groups_by group_of (map snd ys)) g)"
    for ys :: "(nat \<times> nat) list" and s
  have "valid (wfold (\<lambda>s p. wlift (note_last_count group_of s p)) (replicate n 0, replicate n 0) (enumerate 0 ids)) work_failure
    (I (enumerate 0 ids))"
  proof (rule valid_fold_prefix)
    show "I [] (replicate n 0, replicate n 0)" by (simp add: I_def groups_by_def last_positions_def)
  next
    fix ys p zs s
    assume split: "enumerate 0 ids = ys @ p # zs" and I: "I ys s"
    have ids: "ids = map snd ys @ snd p # map snd zs"
      using arg_cong [OF split, of "map snd"] by (simp add: enumerate_snd)
    have "length ys < length ids" using arg_cong [OF split, of length] by simp
    from nth_enumerate_eq [OF this, of 0] have fst: "fst p = length ys" unfolding split by simp
    obtain g where g: "g < n" "group_of (snd p) = Some g" using assms ids by auto
    have "\<forall>h\<in>set (groups_by group_of (map snd ys)). h < length (fst s)"
    proof
      fix h assume "h \<in> set (groups_by group_of (map snd ys))"
      then obtain i where i: "i \<in> set (map snd ys)" "h = the (group_of i)" by (auto simp: groups_by_def)
      then have "i \<in> set ids" using ids by simp
      from assms [OF this] i(2) show "h < length (fst s)" using I by (auto simp: I_def)
    qed
    then have "last_positions (groups_by group_of (map snd ys) @ [g]) ((fst s)[g := length (groups_by group_of (map snd ys))])"
      using I g(1) by (intro last_positions_snoc) (simp_all add: I_def)
    moreover have "(snd s)[g := Suc (snd s ! g)] ! h = count_list (groups_by group_of (map snd ys) @ [g]) h" if "h < n" for h
      using I that g(1) by (simp add: I_def nth_list_update)
    ultimately show "valid (wlift (note_last_count group_of s p)) work_failure (I (ys @ [p]))"
      using I g fst by (simp add: note_last_count_def groups_by_def I_def valid_return)
  qed
  then show ?thesis unfolding I_def enumerate_snd .
qed

lemma sum_count_list: "finite S \<Longrightarrow> sum (count_list xs) S = length (filter (\<lambda>x. x \<in> S) xs)"
proof (induction xs)
  case (Cons x xs)
  have "sum (count_list (x # xs)) S = sum (\<lambda>g. (if g = x then 1 else 0) + count_list xs g) S"
    by (rule sum.cong) auto
  also have "\<dots> = (if x \<in> S then 1 else 0) + sum (count_list xs) S"
    using Cons.prems by (simp add: sum.distrib sum.delta)
  finally show ?case using Cons by simp
qed simp

lemma filter_slice:
  assumes "\<And>x. x < length xs \<Longrightarrow> p (xs ! x) \<longleftrightarrow> a \<le> x \<and> x < b" "a \<le> b" "b \<le> length xs"
  shows "filter p xs = take (b - a) (drop a xs)"
proof -
  have split: "xs = take a xs @ take (b - a) (drop a xs) @ drop b xs"
    using take_drop_split [OF assms(2,3)] by simp
  have "\<not> p x" if "x \<in> set (take a xs)" for x
    using that assms(1) by (fastforce simp: in_set_conv_nth)
  moreover have "\<not> p x" if x: "x \<in> set (drop b xs)" for x
  proof -
    obtain k where k: "k < length xs - b" "x = xs ! (b + k)" using x by (auto simp: in_set_conv_nth)
    then show ?thesis using assms(1) [of "b + k"] by simp
  qed
  moreover have "p x" if x: "x \<in> set (take (b - a) (drop a xs))" for x
  proof -
    obtain k where k: "k < b - a" "x = xs ! (a + k)" "a + k < length xs" using x assms(3) by (auto simp: in_set_conv_nth)
    then show ?thesis using assms(1) [of "a + k"] by simp
  qed
  ultimately have "filter p (take a xs @ take (b - a) (drop a xs) @ drop b xs) = take (b - a) (drop a xs)"
    by simp
  then show ?thesis using split by simp
qed

section \<open>The scan\<close>

text \<open>The groups seen in the first \<open>b\<close> positions fill a prefix on both sides.\<close>

definition prefix_cut :: "nat list \<Rightarrow> nat list \<Rightarrow> nat \<Rightarrow> nat \<Rightarrow> bool" where
  "prefix_cut fb fa b a \<longleftrightarrow> b \<le> length fb \<and> a \<le> length fa \<and>
     (\<forall>x<length fb. fb ! x \<in> set (take b fb) \<longleftrightarrow> x < b) \<and>
     (\<forall>y<length fa. fa ! y \<in> set (take b fb) \<longleftrightarrow> y < a)"

lemma prefix_cut_count:
  assumes "prefix_cut fb fa b a"
  shows "length (filter (\<lambda>g. g \<in> set (take b fb)) fa) = a"
proof -
  have "filter (\<lambda>g. g \<in> set (take b fb)) fa = take (a - 0) (drop 0 fa)"
    by (rule filter_slice) (use assms in \<open>auto simp: prefix_cut_def\<close>)
  then show ?thesis using assms by (simp add: prefix_cut_def)
qed

text \<open>A maximum over the groups seen, \<open>0\<close> when there is none.\<close>

definition greatest :: "nat list \<Rightarrow> nat set \<Rightarrow> nat \<Rightarrow> bool" where
  "greatest lasts S k \<longleftrightarrow> (\<forall>g\<in>S. lasts ! g \<le> k) \<and> (S = {} \<and> k = 0 \<or> (\<exists>g\<in>S. k = lasts ! g))"

lemma greatest_insert: "greatest lasts S k \<Longrightarrow> greatest lasts (insert g S) (max k (lasts ! g))"
  unfolding greatest_def by (auto simp: max_def le_max_iff_disj)

text \<open>The groups seen fill prefixes exactly when the test of the scan succeeds.\<close>

lemma cut_test:
  assumes bl: "last_positions fb bls" and al: "last_positions fa als"
    and p: "p < length fb" and S: "S = set (take (Suc p) fb)"
    and gb: "greatest bls S bm" and ga: "greatest als S am" and sub: "S \<subseteq> set fa"
    and test: "p = bm" "length (filter (\<lambda>g. g \<in> S) fa) = am + 1"
  shows "prefix_cut fb fa (Suc p) (am + 1)"
proof -
  have b: "fb ! x \<in> S \<longleftrightarrow> x < Suc p" if x: "x < length fb" for x
  proof
    assume "fb ! x \<in> S"
    then have "bls ! (fb ! x) \<le> p" using gb test(1) by (simp add: greatest_def)
    moreover have "x \<le> bls ! (fb ! x)" using bl x by (simp add: last_positions_def)
    ultimately show "x < Suc p" by simp
  next
    assume "x < Suc p"
    then show "fb ! x \<in> S" unfolding S using x by (force simp: in_set_conv_nth)
  qed
  let ?Y = "{y. y < length fa \<and> fa ! y \<in> S}"
  have "y \<le> am" if y: "y < length fa" "fa ! y \<in> S" for y
  proof -
    have "y \<le> als ! (fa ! y)" using al y by (simp add: last_positions_def)
    also have "\<dots> \<le> am" using ga y by (simp add: greatest_def)
    finally show ?thesis .
  qed
  then have sub': "?Y \<subseteq> {..am}" by auto
  have "card ?Y = card {..am}" using test(2) by (simp add: length_filter_conv_card)
  then have Y: "?Y = {..am}" using card_subset_eq [OF _ sub'] by simp
  have "am < length fa"
  proof -
    have "am \<in> ?Y" unfolding Y by simp
    then show ?thesis by simp
  qed
  moreover have "fa ! y \<in> S \<longleftrightarrow> y < am + 1" if "y < length fa" for y
  proof -
    have "y \<in> ?Y \<longleftrightarrow> y \<in> {..am}" unfolding Y ..
    then show ?thesis using that by auto
  qed
  ultimately show ?thesis unfolding prefix_cut_def S [symmetric] using p b by simp
qed

text \<open>A component holds the active children of its groups, on both sides.\<close>

definition component_of :: "(nat \<rightharpoonup> nat) \<Rightarrow> (nat \<rightharpoonup> nat) \<Rightarrow> nat list \<Rightarrow> nat list \<Rightarrow> alignment_component \<Rightarrow> bool" where
  "component_of gb ga bs as c \<longleftrightarrow> comp_before c \<noteq> [] \<and>
     comp_before c = filter (\<lambda>i. the (gb i) \<in> set (comp_groups c)) bs \<and>
     comp_after c = filter (\<lambda>j. the (ga j) \<in> set (comp_groups c)) as"

definition component_loop ::
  "(nat \<rightharpoonup> nat) \<Rightarrow> (nat \<rightharpoonup> nat) \<Rightarrow> nat list \<Rightarrow> nat list \<Rightarrow> nat \<Rightarrow> nat list \<Rightarrow> nat list \<Rightarrow> nat \<Rightarrow> component_scan \<Rightarrow> bool" where
  "component_loop gb ga bs as n bls als p s \<longleftrightarrow>
     (let fb = groups_by gb bs; fa = groups_by ga as; S = set (take p fb) in
      length (group_seen s) = n \<and> (\<forall>g<n. group_seen s ! g \<longleftrightarrow> g \<in> S) \<and>
      greatest bls S (before_prefix_last s) \<and> greatest als S (after_prefix_last s) \<and>
      after_prefix_count s = length (filter (\<lambda>g. g \<in> S) fa) \<and>
      before_start s \<le> p \<and> prefix_cut fb fa (before_start s) (after_start s) \<and>
      set (component_groups s) = S - set (take (before_start s) fb) \<and>
      concat (map comp_before (components s)) = take (before_start s) bs \<and>
      concat (map comp_after (components s)) = take (after_start s) as \<and>
      (\<forall>c\<in>set (components s). component_of gb ga bs as c) \<and>
      (\<forall>c\<in>set (components s). set (comp_groups c) \<subseteq> {..<n}) \<and>
      (before_start s = p \<or> \<not> (p = Suc (before_prefix_last s) \<and> after_prefix_count s = after_prefix_last s + 1)))"

text \<open>Visiting the group of position \<open>p\<close>.\<close>

lemma visit_group_step:
  assumes seen: "length (group_seen s) = n" "\<forall>g<n. group_seen s ! g \<longleftrightarrow> g \<in> S" and S: "S \<subseteq> {..<n}"
    and gr: "greatest bls S (before_prefix_last s)" "greatest als S (after_prefix_last s)"
    and cnt: "after_prefix_count s = length (filter (\<lambda>g. g \<in> S) fa)"
    and grps: "set (component_groups s) = S - T" "T \<subseteq> S"
    and g: "g < n" and lens: "length bls = n" "length als = n" "length counts = n"
    and counts: "\<forall>g<n. counts ! g = count_list fa g"
  obtains s1 where "visit_group bls als counts g s = Inr s1" "components s1 = components s"
    "before_start s1 = before_start s" "after_start s1 = after_start s" "length (group_seen s1) = n"
    "\<forall>h<n. group_seen s1 ! h \<longleftrightarrow> h \<in> insert g S" "greatest bls (insert g S) (before_prefix_last s1)"
    "greatest als (insert g S) (after_prefix_last s1)"
    "after_prefix_count s1 = length (filter (\<lambda>h. h \<in> insert g S) fa)"
    "set (component_groups s1) = insert g S - T"
proof (cases "g \<in> S")
  case True
  then have [simp]: "insert g S = S" by blast
  have "visit_group bls als counts g s = Inr s" using True g seen by (simp add: visit_group_def)
  then show thesis using seen gr cnt grps by (intro that) simp_all
next
  case False
  let ?s1 = "s\<lparr>group_seen := (group_seen s)[g := True], component_groups := component_groups s @ [g],
                before_prefix_last := max (before_prefix_last s) (bls ! g),
                after_prefix_last := max (after_prefix_last s) (als ! g),
                after_prefix_count := after_prefix_count s + counts ! g\<rparr>"
  have fin: "finite S" using S by (rule finite_subset) simp
  have "length (filter (\<lambda>h. h \<in> insert g S) fa) = sum (count_list fa) (insert g S)"
    using fin sum_count_list [of "insert g S" fa] by simp
  also have "\<dots> = count_list fa g + length (filter (\<lambda>h. h \<in> S) fa)" using fin False by (simp add: sum_count_list)
  finally have "after_prefix_count ?s1 = length (filter (\<lambda>h. h \<in> insert g S) fa)" using cnt counts g by simp
  moreover have "visit_group bls als counts g s = Inr ?s1"
    using False g seen lens by (simp add: visit_group_def)
  moreover have "set (component_groups ?s1) = insert g S - T" using grps False by auto
  ultimately show thesis
    using seen gr g by (intro that [of ?s1]) (auto simp: nth_list_update greatest_insert)
qed

lemma valid_scan_position:
  assumes bs: "\<And>i. i \<in> set bs \<Longrightarrow> \<exists>g<n. gb i = Some g" and sub: "set (groups_by gb bs) \<subseteq> set (groups_by ga as)"
    and bls: "length bls = n" "last_positions (groups_by gb bs) bls"
    and als: "length als = n" "last_positions (groups_by ga as) als"
    and counts: "length counts = n" "\<forall>g<n. counts ! g = count_list (groups_by ga as) g"
    and p: "p < length bs" and s: "component_loop gb ga bs as n bls als p s"
  shows "valid (scan_position gb bls als counts bs as s (p, bs ! p)) work_failure
    (component_loop gb ga bs as n bls als (Suc p))"
proof -
  let ?fb = "groups_by gb bs" and ?fa = "groups_by ga as"
  define S where "S = set (take p ?fb)"
  define T where "T = set (take (before_start s) ?fb)"
  obtain g where g: "g < n" "gb (bs ! p) = Some g" using bs [of "bs ! p"] p by auto
  have fb: "length ?fb = length bs" "?fb ! p = g" "length ?fa = length as" using p g by (simp_all add: groups_by_def)
  have S': "set (take (Suc p) ?fb) = insert g S" using p fb by (simp add: S_def take_Suc_conv_app_nth)
  have inv: "length (group_seen s) = n" "\<forall>g<n. group_seen s ! g \<longleftrightarrow> g \<in> S"
    "greatest bls S (before_prefix_last s)" "greatest als S (after_prefix_last s)"
    "after_prefix_count s = length (filter (\<lambda>g. g \<in> S) ?fa)" "before_start s \<le> p"
    "prefix_cut ?fb ?fa (before_start s) (after_start s)" "set (component_groups s) = S - T"
    "concat (map comp_before (components s)) = take (before_start s) bs"
    "concat (map comp_after (components s)) = take (after_start s) as"
    "\<forall>c\<in>set (components s). component_of gb ga bs as c" "\<forall>c\<in>set (components s). set (comp_groups c) \<subseteq> {..<n}"
    using s unfolding component_loop_def Let_def S_def T_def by blast+
  have TS: "T \<subseteq> S" unfolding T_def S_def using inv(6) by (simp add: set_take_subset_set_take)
  have Sn: "S \<subseteq> {..<n}"
  proof
    fix h assume "h \<in> S"
    then have "h \<in> set ?fb" unfolding S_def by (rule in_set_takeD)
    then obtain i where "i \<in> set bs" "h = the (gb i)" by (auto simp: groups_by_def)
    with bs [of i] show "h \<in> {..<n}" by auto
  qed
  obtain s1 where s1: "visit_group bls als counts g s = Inr s1" "components s1 = components s"
    "before_start s1 = before_start s" "after_start s1 = after_start s" "length (group_seen s1) = n"
    "\<forall>h<n. group_seen s1 ! h \<longleftrightarrow> h \<in> insert g S" "greatest bls (insert g S) (before_prefix_last s1)"
    "greatest als (insert g S) (after_prefix_last s1)"
    "after_prefix_count s1 = length (filter (\<lambda>h. h \<in> insert g S) ?fa)"
    "set (component_groups s1) = insert g S - T"
    by (rule visit_group_step [OF inv(1,2) Sn inv(3,4,5,8) TS g(1) bls(1) als(1) counts])
  have visit: "rbind (of_option (CoreFailure MissingCandidateGroup) (gb (bs ! p))) (\<lambda>g. visit_group bls als counts g s) = Inr s1"
    using g s1(1) by simp
  show ?thesis
  proof (cases "p = before_prefix_last s1 \<and> after_prefix_count s1 = after_prefix_last s1 + 1")
    case False
    have "component_loop gb ga bs as n bls als (Suc p) s1"
      unfolding component_loop_def Let_def S' T_def [symmetric]
      using s1 inv False by (auto simp: T_def)
    then show ?thesis
      unfolding scan_position_def fst_conv snd_conv visit wlift_simps wbind_wreturn if_not_P [OF False]
      by (rule valid_return)
  next
    case True
    let ?b = "before_start s" and ?a = "after_start s" and ?a' = "after_prefix_count s1"
    have cut: "prefix_cut ?fb ?fa (Suc p) ?a'"
    proof -
      have "insert g S \<subseteq> set ?fa"
        using sub S' set_take_subset [of "Suc p" ?fb] by auto
      then have "prefix_cut ?fb ?fa (Suc p) (after_prefix_last s1 + 1)"
        using True s1(9) p fb by (intro cut_test [OF bls(2) als(2) _ S' [symmetric] s1(7,8)]) simp_all
      then show ?thesis using True by simp
    qed
    have a: "?a = length (filter (\<lambda>h. h \<in> T) ?fa)"
      using prefix_cut_count [OF inv(7)] by (simp add: T_def)
    have "length (filter (\<lambda>h. h \<in> T) ?fa) \<le> length (filter (\<lambda>h. h \<in> insert g S) ?fa)"
    proof -
      have "filter (\<lambda>h. h \<in> T) ?fa = filter (\<lambda>h. h \<in> T) (filter (\<lambda>h. h \<in> insert g S) ?fa)"
        using TS by (auto simp: filter_filter intro!: filter_cong)
      then show ?thesis by (metis length_filter_le)
    qed
    then have le: "?b \<le> p + 1" "?a \<le> ?a'" "p + 1 \<le> length bs" "?a' \<le> length as"
      using inv(6) a s1(9) p cut fb by (simp_all add: prefix_cut_def)
    let ?bs = "take (p + 1 - ?b) (drop ?b bs)" and ?as = "take (?a' - ?a) (drop ?a as)"
    let ?c = "\<lparr>comp_before = ?bs, comp_after = ?as, comp_groups = component_groups s1\<rparr>"
    let ?s2 = "s1\<lparr>components := components s1 @ [?c], component_groups := [], before_start := p + 1, after_start := ?a'\<rparr>"
    have b1: "the (gb (bs ! x)) \<in> insert g S - T \<longleftrightarrow> ?b \<le> x \<and> x < p + 1" if "x < length bs" for x
    proof -
      have "the (gb (bs ! x)) = ?fb ! x" using that by (simp add: groups_by_def)
      then show ?thesis using that inv(7) cut fb unfolding prefix_cut_def S' T_def by auto
    qed
    have a1: "the (ga (as ! y)) \<in> insert g S - T \<longleftrightarrow> ?a \<le> y \<and> y < ?a'" if "y < length as" for y
    proof -
      have "the (ga (as ! y)) = ?fa ! y" using that by (simp add: groups_by_def)
      then show ?thesis using that inv(7) cut fb unfolding prefix_cut_def S' T_def by auto
    qed
    have comp: "component_of gb ga bs as ?c"
      using filter_slice [of bs "\<lambda>i. the (gb i) \<in> insert g S - T", OF b1 le(1,3)]
        filter_slice [of as "\<lambda>j. the (ga j) \<in> insert g S - T", OF a1 le(2,4)] inv(6) p
      unfolding component_of_def alignment_component.simps s1(10) by simp
    have within: "insert g S - T \<subseteq> {..<n}" using Sn g by auto
    have joins: "take ?b bs @ ?bs = take (Suc p) bs" "take ?a as @ ?as = take ?a' as"
      using take_drop_join [of 0 ?b "p + 1" bs] take_drop_join [of 0 ?a ?a' as] le by simp_all
    have "component_loop gb ga bs as n bls als (Suc p) ?s2"
      unfolding component_loop_def Let_def S'
      using s1 inv cut comp within joins by (simp add: S')
    then show ?thesis
      unfolding scan_position_def fst_conv snd_conv visit wlift_simps wbind_wreturn if_P [OF True] s1(3,4)
        usize_sub_ok [OF le(1)] usize_sub_ok [OF le(2)] slice_ok [OF le(1,3)] slice_ok [OF le(2,4)]
      by (intro valid_charge_bind valid_return) simp_all
  qed
qed

section \<open>The components\<close>

definition active :: "(nat \<rightharpoonup> nat) \<Rightarrow> nat list \<Rightarrow> nat list" where
  "active group_of ids = filter (\<lambda>i. group_of i \<noteq> None) ids"

definition components_ok :: "candidate_groups \<Rightarrow> nat list \<Rightarrow> nat list \<Rightarrow> alignment_component list \<Rightarrow> bool" where
  "components_ok cg bs as cs \<longleftrightarrow>
     concat (map comp_before cs) = active (before_group cg) bs \<and>
     concat (map comp_after cs) = active (after_group cg) as \<and>
     (\<forall>c\<in>set cs. component_of (before_group cg) (after_group cg) (active (before_group cg) bs) (active (after_group cg) as) c) \<and>
     (\<forall>c\<in>set cs. set (comp_groups c) \<subseteq> {..<length (cg_groups cg)})"

lemma groups_ok_sides:
  assumes ok: "groups_ok before after phase bs as cg"
  shows "i \<in> set (active (before_group cg) bs) \<Longrightarrow> \<exists>g<length (cg_groups cg). before_group cg i = Some g"
    "j \<in> set (active (after_group cg) as) \<Longrightarrow> \<exists>g<length (cg_groups cg). after_group cg j = Some g"
    "set (groups_by (before_group cg) (active (before_group cg) bs)) = {..<length (cg_groups cg)}"
    "set (groups_by (after_group cg) (active (after_group cg) as)) = {..<length (cg_groups cg)}"
proof -
  have gb: "before_group cg i = Some k \<longleftrightarrow> k < length (cg_groups cg) \<and> i \<in> set (cand_before (cg_groups cg ! k))" for i k
    using ok unfolding groups_ok_def by blast
  have ga: "after_group cg j = Some k \<longleftrightarrow> k < length (cg_groups cg) \<and> j \<in> set (cand_after (cg_groups cg ! k))" for j k
    using ok unfolding groups_ok_def by blast
  have gs: "\<forall>g\<in>set (cg_groups cg). cand_before g \<noteq> [] \<and> cand_after g \<noteq> []"
    "set (concat (map cand_before (cg_groups cg))) \<subseteq> set bs" "set (concat (map cand_after (cg_groups cg))) \<subseteq> set as"
    using ok unfolding groups_ok_def grouped_def by blast+
  show b: "\<exists>g<length (cg_groups cg). before_group cg i = Some g" if "i \<in> set (active (before_group cg) bs)" for i
    using that gb by (auto simp: active_def)
  show a: "\<exists>g<length (cg_groups cg). after_group cg j = Some g" if "j \<in> set (active (after_group cg) as)" for j
    using that ga by (auto simp: active_def)
  have "\<exists>i\<in>set (active (before_group cg) bs). the (before_group cg i) = k" if k: "k < length (cg_groups cg)" for k
  proof -
    have mem: "cg_groups cg ! k \<in> set (cg_groups cg)" using k by simp
    then obtain i where i: "i \<in> set (cand_before (cg_groups cg ! k))" using gs(1) by (metis last_in_set)
    moreover from this have "i \<in> set (concat (map cand_before (cg_groups cg)))" using mem by auto
    ultimately have "before_group cg i = Some k" "i \<in> set bs" using gb [of i k] k gs(2) by blast+
    then show ?thesis by (intro bexI [of _ i]) (simp_all add: active_def)
  qed
  then show "set (groups_by (before_group cg) (active (before_group cg) bs)) = {..<length (cg_groups cg)}"
    unfolding groups_by_def set_map using b by (fastforce simp: image_iff)
  have "\<exists>j\<in>set (active (after_group cg) as). the (after_group cg j) = k" if k: "k < length (cg_groups cg)" for k
  proof -
    have mem: "cg_groups cg ! k \<in> set (cg_groups cg)" using k by simp
    then obtain j where j: "j \<in> set (cand_after (cg_groups cg ! k))" using gs(1) by (metis last_in_set)
    moreover from this have "j \<in> set (concat (map cand_after (cg_groups cg)))" using mem by auto
    ultimately have "after_group cg j = Some k" "j \<in> set as" using ga [of j k] k gs(3) by blast+
    then show ?thesis by (intro bexI [of _ j]) (simp_all add: active_def)
  qed
  then show "set (groups_by (after_group cg) (active (after_group cg) as)) = {..<length (cg_groups cg)}"
    unfolding groups_by_def set_map using a by (fastforce simp: image_iff)
qed

text \<open>At the last position the scan has cut: the check for complete components cannot fail.\<close>

lemma component_loop_complete:
  assumes s: "component_loop gb ga bs as n bls als (length bs) s" and ne: "bs \<noteq> []"
    and cover: "set (groups_by gb bs) = {..<n}" "set (groups_by ga as) = {..<n}"
    and bls: "last_positions (groups_by gb bs) bls" and als: "last_positions (groups_by ga as) als"
  shows "before_start s = length bs \<and> after_start s = length as \<and> component_groups s = []"
proof -
  let ?fb = "groups_by gb bs" and ?fa = "groups_by ga as"
  have len: "length ?fb = length bs" "length ?fa = length as" by (simp_all add: groups_by_def)
  have S: "set (take (length bs) ?fb) = {..<n}" using cover(1) len by simp
  have gb: "greatest bls {..<n} (before_prefix_last s)" and ga: "greatest als {..<n} (after_prefix_last s)"
    and cnt: "after_prefix_count s = length (filter (\<lambda>g. g \<in> {..<n}) ?fa)"
    and cut: "prefix_cut ?fb ?fa (before_start s) (after_start s)"
    and grps: "set (component_groups s) = {..<n} - set (take (before_start s) ?fb)"
    and test: "before_start s = length bs \<or>
      \<not> (length bs = Suc (before_prefix_last s) \<and> after_prefix_count s = after_prefix_last s + 1)"
    using s unfolding component_loop_def Let_def S by blast+
  have reach: "greatest lasts {..<n} k \<Longrightarrow> Suc k = length fs"
    if fs: "set fs = {..<n}" "last_positions fs lasts" "fs \<noteq> []" for fs lasts k
  proof -
    assume k: "greatest lasts {..<n} k"
    have "last fs \<in> set fs" using fs(3) by simp
    then have l: "last fs < n" using fs(1) by simp
    have "length fs - 1 \<le> lasts ! (last fs)"
      using fs(2) \<open>last fs \<in> set fs\<close> fs(3) by (simp add: last_positions_def last_conv_nth)
    also have "\<dots> \<le> k" using k l by (simp add: greatest_def)
    finally have "length fs - 1 \<le> k" .
    moreover have "k < length fs"
    proof -
      obtain g where "g < n" "k = lasts ! g" using k l by (auto simp: greatest_def)
      then show ?thesis using fs(1,2) by (simp add: last_positions_def)
    qed
    ultimately show "Suc k = length fs" by simp
  qed
  have "?fb \<noteq> []" using ne by (simp add: groups_by_def)
  then have fb: "Suc (before_prefix_last s) = length bs" using reach [OF cover(1) bls _ gb] len by simp
  have "?fa \<noteq> []" using cover \<open>?fb \<noteq> []\<close> by (metis set_empty)
  then have fa: "Suc (after_prefix_last s) = length as" using reach [OF cover(2) als _ ga] len by simp
  have "filter (\<lambda>g. g \<in> {..<n}) ?fa = ?fa" unfolding filter_id_conv using cover(2) by blast
  then have "after_prefix_count s = length as" using cnt len by simp
  then have start: "before_start s = length bs" using test fb fa by simp
  have "y < after_start s" if "y < length as" for y
  proof -
    have "?fa ! y \<in> set ?fa" using that len by simp
    then have "?fa ! y \<in> set (take (before_start s) ?fb)" using cover start len by simp
    then show ?thesis using cut that len unfolding prefix_cut_def by simp
  qed
  moreover have "after_start s \<le> length as" using cut len unfolding prefix_cut_def by simp
  ultimately have "after_start s = length as" by (metis le_neq_implies_less less_irrefl)
  moreover have "set (component_groups s) = {}" using grps start S by simp
  ultimately show ?thesis using start by simp
qed

lemma valid_ordered_interaction_components:
  assumes ok: "groups_ok before after phase bs as cg"
  shows "valid (ordered_interaction_components cg bs as) work_failure (components_ok cg bs as)"
proof -
  let ?n = "length (cg_groups cg)"
  let ?B = "active (before_group cg) bs" and ?A = "active (after_group cg) as"
  let ?fb = "groups_by (before_group cg) ?B" and ?fa = "groups_by (after_group cg) ?A"
  note sides = groups_ok_sides [OF ok]
  have "components_ok cg bs as []" if "?B = []"
  proof -
    have "{..<?n} = {}" using sides(3) that by (simp add: groups_by_def)
    then have "set ?fa = {}" using sides(4) by simp
    then have "?A = []" by (simp add: groups_by_def)
    then show ?thesis using that by (simp add: components_ok_def)
  qed
  moreover have "valid (wbind (wfold (\<lambda>lasts p. wlift (note_last (before_group cg) lasts p)) (replicate ?n 0) (enumerate 0 ?B)) (\<lambda>before_last.
       wbind (charge (length ?A)) (\<lambda>_.
       wbind (wfold (\<lambda>s p. wlift (note_last_count (after_group cg) s p)) (replicate ?n 0, replicate ?n 0) (enumerate 0 ?A)) (\<lambda>after.
       wbind (charge (length ?B)) (\<lambda>_.
       wbind (wfold (scan_position (before_group cg) before_last (fst after) (snd after) ?B ?A)
                \<lparr>components = [], group_seen = replicate ?n False, component_groups = [], before_start = 0, after_start = 0,
                 before_prefix_last = 0, after_prefix_last = 0, after_prefix_count = 0\<rparr>
                (enumerate 0 ?B)) (\<lambda>s.
       wbind (wensure (\<not> (before_start s \<noteq> length ?B \<or> after_start s \<noteq> length ?A
                \<or> component_groups s \<noteq> [])) (CoreFailure IncompleteComponents)) (\<lambda>_.
         wreturn (components s)))))))) work_failure (components_ok cg bs as)" if ne: "?B \<noteq> []"
  proof (rule valid_bind [OF valid_note_lasts [OF sides(1)]], assumption, rule valid_charge_bind, assumption,
      rule valid_bind [OF valid_note_last_counts [OF sides(2)]], assumption, rule valid_charge_bind, assumption)
    fix bls after
    assume bl: "length bls = ?n \<and> last_positions ?fb bls"
      and al: "length (fst after) = ?n \<and> last_positions ?fa (fst after) \<and> length (snd after) = ?n \<and>
        (\<forall>g<?n. snd after ! g = count_list ?fa g)"
    let ?s0 = "\<lparr>components = [], group_seen = replicate ?n False, component_groups = [], before_start = 0, after_start = 0,
                 before_prefix_last = 0, after_prefix_last = 0, after_prefix_count = 0\<rparr>"
    let ?loop = "component_loop (before_group cg) (after_group cg) ?B ?A ?n bls (fst after)"
    have sub: "set ?fb \<subseteq> set ?fa" using sides(3,4) by simp
    have "valid (wfold (scan_position (before_group cg) bls (fst after) (snd after) ?B ?A) ?s0 (enumerate 0 ?B)) work_failure
        (?loop (length (enumerate 0 ?B)))"
    proof (rule valid_fold_prefix [where I = "\<lambda>ys. ?loop (length ys)"])
      show "?loop (length []) ?s0"
        by (simp add: component_loop_def Let_def greatest_def prefix_cut_def)
    next
      fix ys p zs s assume split: "enumerate 0 ?B = ys @ p # zs" and s: "?loop (length ys) s"
      have len: "length ys < length ?B" using arg_cong [OF split, of length] by simp
      from nth_enumerate_eq [OF this, of 0] have p: "p = (length ys, ?B ! length ys)" unfolding split by simp
      have "valid (scan_position (before_group cg) bls (fst after) (snd after) ?B ?A s (length ys, ?B ! length ys)) work_failure
          (?loop (Suc (length ys)))"
        using bl al by (intro valid_scan_position [OF sides(1) sub _ _ _ _ _ _ len s]) simp_all
      then show "valid (scan_position (before_group cg) bls (fst after) (snd after) ?B ?A s p) work_failure (?loop (length (ys @ [p])))"
        using p by simp
    qed
    then have scan: "valid (wfold (scan_position (before_group cg) bls (fst after) (snd after) ?B ?A) ?s0 (enumerate 0 ?B)) work_failure
        (?loop (length ?B))" by simp
    show "valid (wbind (wfold (scan_position (before_group cg) bls (fst after) (snd after) ?B ?A) ?s0 (enumerate 0 ?B)) (\<lambda>s.
       wbind (wensure (\<not> (before_start s \<noteq> length ?B \<or> after_start s \<noteq> length ?A
                \<or> component_groups s \<noteq> [])) (CoreFailure IncompleteComponents)) (\<lambda>_.
         wreturn (components s)))) work_failure (components_ok cg bs as)"
    proof (rule valid_bind [OF scan])
      fix s assume s: "?loop (length ?B) s"
      have done_: "before_start s = length ?B \<and> after_start s = length ?A \<and> component_groups s = []"
        using component_loop_complete [OF s ne sides(3,4)] bl al by blast
      have "components_ok cg bs as (components s)"
        using s done_ unfolding component_loop_def Let_def components_ok_def by (metis take_all_iff order_refl)
      then show "valid (wbind (wensure (\<not> (before_start s \<noteq> length ?B \<or> after_start s \<noteq> length ?A
                \<or> component_groups s \<noteq> [])) (CoreFailure IncompleteComponents)) (\<lambda>_.
         wreturn (components s))) work_failure (components_ok cg bs as)"
        using done_ by (simp add: wensure_def valid_return)
    qed
  qed
  ultimately show ?thesis
    unfolding ordered_interaction_components_def Let_def active_def [symmetric]
    by (intro valid_charge_bind valid_if valid_charge_product_bind valid_return) simp_all
qed

section \<open>Properties\<close>

text \<open>C22: the cuts are complete. On consistent candidate groups \<open>ordered_interaction_components\<close> exhausts the budget or
  returns components whose sides, concatenated, are the active children on each side, each component holding exactly
  the active children of its groups. The internal error about incomplete components cannot occur.\<close>

theorem components_complete:
  assumes "groups_ok before after phase bs as cg"
  shows "valid (ordered_interaction_components cg bs as) work_failure (components_ok cg bs as)"
  using assms by (rule valid_ordered_interaction_components)

end
