(* ===== verification/Stable_Core.thy ===== *)
theory Stable_Core
  imports Components Alignment
begin

text \<open>
  The stable core (\<open>verifier.rs\<close>): \<open>verify_bounded_component\<close> solves the ordered alignment of one
  component, \<open>oversized_alignment\<close> abstains on a component above the limit, \<open>independent_stable_core\<close>
  runs the components of a region, and \<open>verify_stable_core\<close> compares the forced pairs of all regions with
  the reported relations and derives the ambiguity groups of the report.
\<close>

section \<open>Outcomes\<close>

definition REPEATED_AMBIGUITY_REASON :: string where
  "REPEATED_AMBIGUITY_REASON =
     ''repeated shape-equivalent children are intentionally unresolved; endpoint sets make no pair claims''"

definition OPTIONAL_AMBIGUITY_REASON :: string where
  "OPTIONAL_AMBIGUITY_REASON = ''multiple maximum-cardinality ordered alignments have coupled candidate choices''"

text \<open>The two \<open>format!\<close> strings with the limits written out.\<close>

definition COMPONENT_LIMIT_REASON :: string where
  "COMPONENT_LIMIT_REASON =
     ''ordered alignment candidate region exceeds the 64-child per-side cap; endpoint sets make no pair claims''"

definition SCAN_LIMIT_REASON :: string where
  "SCAN_LIMIT_REASON =
     ''shape-class candidate scan exceeds the 16384-pair cap; endpoint sets make no pair claims''"

record alignment_ambiguity =
  amb_before :: "nat list"
  amb_after :: "nat list"
  amb_constraint :: ambiguity_constraint
  amb_reason :: string

record alignment_outcome =
  forced :: "(nat \<times> nat) list"
  outcome_ambiguities :: "alignment_ambiguity list"

definition no_outcome :: alignment_outcome where
  "no_outcome = \<lparr>forced = [], outcome_ambiguities = []\<rparr>"

section \<open>A bounded component\<close>

definition group_lookup :: "(nat \<rightharpoonup> nat) \<Rightarrow> nat \<Rightarrow> nat work" where
  "group_lookup group_of i = wlift (of_option (CoreFailure MissingCandidateGroup) (group_of i))"

definition candidate_cell ::
  "parsed_syntax \<Rightarrow> parsed_syntax \<Rightarrow> phase_mappings \<Rightarrow> candidate_groups \<Rightarrow> nat \<Rightarrow> nat \<Rightarrow> nat \<Rightarrow> bool work" where
  "candidate_cell before after phase cg g i j =
     wbind (group_lookup (after_group cg) j) (\<lambda>h.
     if g = h then
       wbind (budgeted_shape_equal before i after j) (\<lambda>same.
       if same then phase_mappings_are_compatible before after phase i j else wreturn False)
     else wreturn False)"

definition candidate_matrix ::
  "parsed_syntax \<Rightarrow> parsed_syntax \<Rightarrow> phase_mappings \<Rightarrow> candidate_groups \<Rightarrow> nat list \<Rightarrow> nat list \<Rightarrow> matrix work" where
  "candidate_matrix before after phase cg active_before active_after =
     wbind (charge_product (length active_before) (length active_after)) (\<lambda>_.
     wmap (\<lambda>i. wbind (group_lookup (before_group cg) i) (\<lambda>g.
       wmap (candidate_cell before after phase cg g i) active_after)) active_before)"

record bounded_scan =
  scan_forced :: "(nat \<times> nat) list"
  possible :: "ambiguity_pair list"
  ambiguous_before :: "nat set"
  ambiguous_after :: "nat set"
  duplicate_symmetry :: bool

definition scan_cell ::
  "candidate_groups \<Rightarrow> nat list \<Rightarrow> nat list \<Rightarrow> matrix \<Rightarrow> nat list list \<Rightarrow> nat list list \<Rightarrow> nat \<Rightarrow> nat \<Rightarrow>
   bounded_scan \<Rightarrow> nat \<Rightarrow> bounded_scan work" where
  "scan_cell cg active_before active_after cands prefix suffix optimum x s y =
     wbind (wlift (matrix_at cands x y)) (\<lambda>candidate.
     wbind (if \<not> candidate then wreturn False
            else wlift (rbind (matrix_at prefix x y) (\<lambda>p. rbind (matrix_at suffix (x + 1) (y + 1)) (\<lambda>q.
                   Inr (p + 1 + q = optimum))))) (\<lambda>optimal.
     if \<not> optimal then wreturn s
     else
       wbind (wlift (index_at active_before x)) (\<lambda>i.
       wbind (wlift (index_at active_after y)) (\<lambda>j.
       wbind (group_lookup (before_group cg) i) (\<lambda>g.
       wbind (wlift (index_at (cg_groups cg) g)) (\<lambda>grp.
       let singleton = length (cand_before grp) = 1 \<and> length (cand_after grp) = 1 in
       wbind (if singleton then wbind (alignment_score cands (Some (x, y))) (\<lambda>score. wreturn (score < optimum))
              else wreturn False) (\<lambda>is_forced.
       if is_forced then wreturn (s\<lparr>scan_forced := scan_forced s @ [(i, j)]\<rparr>)
       else
         let s = s\<lparr>possible := possible s @ [\<lparr>pair_before_id = i, pair_after_id = j\<rparr>]\<rparr> in
         if singleton then
           wreturn (s\<lparr>ambiguous_before := insert i (ambiguous_before s), ambiguous_after := insert j (ambiguous_after s)\<rparr>)
         else
           wreturn (s\<lparr>duplicate_symmetry := True,
                      ambiguous_before := ambiguous_before s \<union> set (cand_before grp),
                      ambiguous_after := ambiguous_after s \<union> set (cand_after grp)\<rparr>))))))))"

definition bounded_constraint :: "nat \<Rightarrow> bounded_scan \<Rightarrow> ambiguity_constraint result" where
  "bounded_constraint optimum s =
     (if duplicate_symmetry s then Inr (SymbolicAbstention DuplicateSymmetry NoPairClaims)
      else
        rbind (usize_sub optimum (length (scan_forced s))) (\<lambda>required_matches.
        rbind (rensure (\<not> (required_matches = 0 \<or> length (possible s) \<le> required_matches))
                 (CoreFailure NoMultipleResolutions)) (\<lambda>_.
          Inr (ExactOrderedAlignment ShapeEqual required_matches (possible s)))))"

definition bounded_outcome :: "nat list \<Rightarrow> nat list \<Rightarrow> nat \<Rightarrow> bounded_scan \<Rightarrow> alignment_outcome work" where
  "bounded_outcome active_before active_after optimum s =
     wbind (charge_n_log_n (length (scan_forced s))) (\<lambda>_.
     let forced_pairs = sort (scan_forced s) in
     if possible s \<noteq> [] then
       wbind (wlift (bounded_constraint optimum s)) (\<lambda>c.
       wbind (charge (length active_before)) (\<lambda>_.
       wbind (charge (length active_after)) (\<lambda>_.
         wreturn \<lparr>forced = forced_pairs, outcome_ambiguities =
           [\<lparr>amb_before = filter (\<lambda>i. i \<in> ambiguous_before s) active_before,
             amb_after = filter (\<lambda>j. j \<in> ambiguous_after s) active_after,
             amb_constraint = c,
             amb_reason = (if duplicate_symmetry s then REPEATED_AMBIGUITY_REASON else OPTIONAL_AMBIGUITY_REASON)\<rparr>]\<rparr>)))
     else wreturn \<lparr>forced = forced_pairs, outcome_ambiguities = []\<rparr>)"

definition verify_bounded_component ::
  "parsed_syntax \<Rightarrow> parsed_syntax \<Rightarrow> phase_mappings \<Rightarrow> candidate_groups \<Rightarrow> alignment_component \<Rightarrow> alignment_outcome work" where
  "verify_bounded_component before after phase cg c =
     (let active_before = comp_before c; active_after = comp_after c in
      wbind (candidate_matrix before after phase cg active_before active_after) (\<lambda>cands.
      wbind (alignment_prefix_scores cands None) (\<lambda>prefix.
      wbind (alignment_suffix_scores cands) (\<lambda>suffix.
      wbind (wlift (matrix_at prefix (length active_before) (length active_after))) (\<lambda>optimum.
      if optimum = 0 then wreturn no_outcome
      else
        wbind (charge_product (length active_before) (length active_after)) (\<lambda>_.
        wbind (wfold (\<lambda>s x. wfold (scan_cell cg active_before active_after cands prefix suffix optimum x) s [0..<length active_after])
                 \<lparr>scan_forced = [], possible = [], ambiguous_before = {}, ambiguous_after = {}, duplicate_symmetry = False\<rparr>
                 [0..<length active_before])
          (bounded_outcome active_before active_after optimum)))))))"

section \<open>A region\<close>

definition oversized_alignment :: "candidate_groups \<Rightarrow> alignment_component \<Rightarrow> alignment_outcome work" where
  "oversized_alignment cg c =
     wbind (charge (length (comp_groups c))) (\<lambda>_.
     wbind (wlift (rall (\<lambda>g. rbind (index_at (cg_groups cg) g) (\<lambda>grp. Inr (scan_complete grp))) (comp_groups c))) (\<lambda>complete.
     wbind (charge (length (comp_before c))) (\<lambda>_.
     wbind (charge (length (comp_after c))) (\<lambda>_.
       wreturn \<lparr>forced = [], outcome_ambiguities =
         [\<lparr>amb_before = comp_before c, amb_after = comp_after c,
           amb_constraint = SymbolicAbstention (if complete then ComponentLimit else CandidateScanLimit) NoPairClaims,
           amb_reason = (if complete then COMPONENT_LIMIT_REASON else SCAN_LIMIT_REASON)\<rparr>]\<rparr>))))"

definition independent_stable_core ::
  "parsed_syntax \<Rightarrow> parsed_syntax \<Rightarrow> phase_mappings \<Rightarrow> nat list \<Rightarrow> nat list \<Rightarrow> alignment_outcome work" where
  "independent_stable_core before after phase before_ids after_ids =
     wbind (verified_shape_classes before after before_ids after_ids) (\<lambda>cs.
     if classes cs = [] then wreturn no_outcome
     else
       wbind (verified_candidate_groups before after phase cs) (\<lambda>cg.
       if cg_groups cg = [] then wreturn no_outcome
       else
         wbind (ordered_interaction_components cg before_ids after_ids) (\<lambda>comps.
         wbind (wfold (\<lambda>outcome c.
             wbind (if length (comp_before c) \<le> ORDERED_ALIGNMENT_COMPONENT_LIMIT
                       \<and> length (comp_after c) \<le> ORDERED_ALIGNMENT_COMPONENT_LIMIT
                    then verify_bounded_component before after phase cg c
                    else oversized_alignment cg c) (\<lambda>new.
               wreturn \<lparr>forced = forced outcome @ forced new,
                        outcome_ambiguities = outcome_ambiguities outcome @ outcome_ambiguities new\<rparr>)) no_outcome comps) (\<lambda>outcome.
         wbind (charge_n_log_n (length (forced outcome))) (\<lambda>_.
           wreturn (outcome\<lparr>forced := sort (forced outcome)\<rparr>))))))"

section \<open>All regions\<close>

record core_scan =
  expected_pairs :: "(nat \<times> nat) set"
  derived_ambiguities :: "ambiguity_group list"

definition check_forced :: "verified_mappings \<Rightarrow> core_scan \<Rightarrow> nat \<times> nat \<Rightarrow> core_scan work" where
  "check_forced m s p =
     wbind (wlift (index_at (by_before m) (fst p))) (\<lambda>rec.
     wbind (wlift (of_option (CoreFailure CorePairMissing) rec)) (\<lambda>r.
     wbind (wensure (\<not> (ref_id (rel_after r) \<noteq> snd p \<or> rel_correspondence r \<noteq> ModelForced \<or> rel_predicate r \<noteq> ShapeEqual
              \<or> \<not> has_evidence r STABLE_CORE_EVIDENCE)) (CoreFailure CorePairInvalid)) (\<lambda>_.
       wreturn (s\<lparr>expected_pairs := insert p (expected_pairs s)\<rparr>))))"

definition node_refs :: "(bytes \<Rightarrow> string) \<Rightarrow> parsed_syntax \<Rightarrow> nat list \<Rightarrow> node_ref list work" where
  "node_refs to_hex s ids = wmap (\<lambda>i. wbind (wlift (index_at (ps_nodes s) i)) (\<lambda>n. wreturn (as_ref to_hex n))) ids"

definition push_ambiguity ::
  "(bytes \<Rightarrow> string) \<Rightarrow> parsed_syntax \<Rightarrow> parsed_syntax \<Rightarrow> nat \<times> nat \<Rightarrow> core_scan \<Rightarrow> alignment_ambiguity \<Rightarrow> core_scan work" where
  "push_ambiguity to_hex before after parents s a =
     wbind (charge (length (amb_before a))) (\<lambda>_.
     wbind (charge (length (amb_after a))) (\<lambda>_.
     wbind (node_refs to_hex before (amb_before a)) (\<lambda>bs.
     wbind (node_refs to_hex after (amb_after a)) (\<lambda>as.
       wreturn (s\<lparr>derived_ambiguities := derived_ambiguities s @
         [\<lparr>parent_before = fst parents, parent_after = snd parents, group_before = bs, group_after = as,
           constraint = amb_constraint a, reason = amb_reason a\<rparr>]\<rparr>)))))"

definition ambiguity_key :: "ambiguity_group \<Rightarrow> nat \<times> nat \<times> nat \<times> nat" where
  "ambiguity_key g = (parent_before g, parent_after g,
     (case group_before g of [] \<Rightarrow> usize_max | n # _ \<Rightarrow> ref_id n),
     (case group_after g of [] \<Rightarrow> usize_max | n # _ \<Rightarrow> ref_id n))"

definition core_region ::
  "(bytes \<Rightarrow> string) \<Rightarrow> parsed_syntax \<Rightarrow> parsed_syntax \<Rightarrow> verified_mappings \<Rightarrow> phase_mappings \<Rightarrow> nat \<times> nat \<Rightarrow>
   core_scan \<Rightarrow> region \<Rightarrow> core_scan work" where
  "core_region to_hex before after m phase parents s r =
     wbind (independent_stable_core before after phase (fst r) (snd r)) (\<lambda>outcome.
     wbind (wfold (check_forced m) s (forced outcome)) (\<lambda>s.
       wfold (push_ambiguity to_hex before after parents) s (outcome_ambiguities outcome)))"

definition verify_stable_core ::
  "(bytes \<Rightarrow> string) \<Rightarrow> parsed_syntax \<Rightarrow> parsed_syntax \<Rightarrow> verified_mappings \<Rightarrow> ambiguity_group list work" where
  "verify_stable_core to_hex before after m =
     wbind (global_phase_mappings before after m) (\<lambda>phase.
     wbind (charge (length (before_to_after m))) (\<lambda>_.
     wbind (wfold (\<lambda>s parents.
              wbind (ordered_alignment_regions before after m (fst parents) (snd parents)) (\<lambda>regions.
                wfold (core_region to_hex before after m phase parents) s regions))
              \<lparr>expected_pairs = {}, derived_ambiguities = []\<rparr> (mapped_pairs m)) (\<lambda>s.
     wbind (charge (length (by_before m))) (\<lambda>_.
     wbind (weach (\<lambda>r. wensure ((ref_id (rel_before r), ref_id (rel_after r)) \<in> expected_pairs s)
                (CoreFailure CoreRelationNotOptimal))
              (filter (\<lambda>r. has_evidence r STABLE_CORE_EVIDENCE) (relation_records m))) (\<lambda>_.
     wbind (charge_n_log_n (length (derived_ambiguities s))) (\<lambda>_.
       wreturn (sort_key ambiguity_key (derived_ambiguities s))))))))"

section \<open>The candidate matrix\<close>

definition candidate_pair ::
  "parsed_syntax \<Rightarrow> parsed_syntax \<Rightarrow> phase_mappings \<Rightarrow> candidate_groups \<Rightarrow> nat \<Rightarrow> nat \<Rightarrow> bool" where
  "candidate_pair before after phase cg i j \<longleftrightarrow>
     before_group cg i = after_group cg j \<and> shape_same before i after j \<and> compatible before after phase i j"

lemma valid_candidate_cell:
  assumes wf: "wf_syntax before" "wf_syntax after" and ok: "phase_ok before after m phase"
    and i: "i < length (ps_nodes before)" "before_group cg i = Some g"
    and j: "j < length (ps_nodes after)" "after_group cg j = Some h"
  shows "valid (candidate_cell before after phase cg g i j) work_failure (\<lambda>b. b \<longleftrightarrow> candidate_pair before after phase cg i j)"
proof -
  have "in_arena before i" "in_arena after j" using wf i j by (simp_all add: in_arena_def)
  note shape = valid_budgeted_shape_equal [OF this] and compat = valid_phase_compatible [OF wf ok i(1) j(1)]
  show ?thesis
  proof (cases "g = h")
    case True
    have "valid (wbind (budgeted_shape_equal before i after j) (\<lambda>same.
       if same then phase_mappings_are_compatible before after phase i j else wreturn False)) work_failure
       (\<lambda>b. b \<longleftrightarrow> candidate_pair before after phase cg i j)"
      by (rule valid_bind [OF shape], rule valid_if, rule valid_conseq [OF compat])
        (use True i j in \<open>auto simp: candidate_pair_def intro: valid_return\<close>)
    then show ?thesis using True j(2) by (simp add: candidate_cell_def group_lookup_def)
  next
    case False
    then show ?thesis
      using i(2) j(2) by (simp add: candidate_cell_def group_lookup_def candidate_pair_def valid_return)
  qed
qed

text \<open>The two sides of a component: in range, with a group each.\<close>

definition side_ok :: "parsed_syntax \<Rightarrow> (nat \<rightharpoonup> nat) \<Rightarrow> nat list \<Rightarrow> bool" where
  "side_ok s group_of ids \<longleftrightarrow> distinct ids \<and> (\<forall>i\<in>set ids. i < length (ps_nodes s) \<and> group_of i \<noteq> None)"

definition matrix_of :: "(nat \<Rightarrow> nat \<Rightarrow> bool) \<Rightarrow> nat list \<Rightarrow> nat list \<Rightarrow> matrix" where
  "matrix_of c bs as = map (\<lambda>i. map (c i) as) bs"

lemma list_all2_map: "list_all2 (\<lambda>x y. y = f x) xs ys \<Longrightarrow> ys = map f xs"
  by (induction rule: list_all2_induct) simp_all

lemma valid_candidate_matrix:
  assumes wf: "wf_syntax before" "wf_syntax after" and ok: "phase_ok before after m phase"
    and sides: "side_ok before (before_group cg) bs" "side_ok after (after_group cg) as"
  shows "valid (candidate_matrix before after phase cg bs as) work_failure
    (\<lambda>c. c = matrix_of (candidate_pair before after phase cg) bs as)"
proof -
  let ?c = "candidate_pair before after phase cg"
  have row: "valid (wbind (group_lookup (before_group cg) i) (\<lambda>g. wmap (candidate_cell before after phase cg g i) as))
      work_failure (\<lambda>r. r = map (?c i) as)" if i: "i \<in> set bs" for i
  proof -
    obtain g where g: "before_group cg i = Some g" "i < length (ps_nodes before)"
      using sides(1) i by (auto simp: side_ok_def)
    have "valid (wmap (candidate_cell before after phase cg g i) as) work_failure (list_all2 (\<lambda>j b. b = ?c i j) as)"
    proof (rule valid_wmap)
      fix j assume "j \<in> set as"
      then obtain h where "after_group cg j = Some h" "j < length (ps_nodes after)"
        using sides(2) by (auto simp: side_ok_def)
      then show "valid (candidate_cell before after phase cg g i j) work_failure (\<lambda>b. b = ?c i j)"
        using valid_candidate_cell [OF wf ok g(2,1)] by simp
    qed
    then show ?thesis
      unfolding group_lookup_def g(1) Prelude.of_option_simps wlift_simps wbind_wreturn
      by (rule valid_conseq) (auto dest: list_all2_map)
  qed
  show ?thesis
    unfolding candidate_matrix_def
    by (rule valid_charge_product_bind, simp, rule valid_conseq [OF valid_wmap [OF row]])
      (auto simp: matrix_of_def dest: list_all2_map)
qed

lemma matrix_of_facts:
  "rectangular (matrix_of c bs as) (length bs) (length as)"
  "bs \<noteq> [] \<Longrightarrow> first_width (matrix_of c bs as) = length as"
  "x < length bs \<Longrightarrow> y < length as \<Longrightarrow> matrix_of c bs as ! x ! y = c (bs ! x) (as ! y)"
  by (auto simp: rectangular_def matrix_of_def first_width_def split: list.split)

section \<open>The scan of the optimal pairs\<close>

text \<open>A position pair on some maximum matching, and one on all of them.\<close>

definition optimal_pair :: "matrix \<Rightarrow> nat \<Rightarrow> nat \<Rightarrow> nat \<times> nat \<Rightarrow> bool" where
  "optimal_pair cands n m p \<longleftrightarrow> (\<exists>ps. maximum (entries cands) n m ps \<and> p \<in> set ps)"

definition forced_pair :: "matrix \<Rightarrow> nat \<Rightarrow> nat \<Rightarrow> nat \<times> nat \<Rightarrow> bool" where
  "forced_pair cands n m p \<longleftrightarrow> (\<forall>ps. maximum (entries cands) n m ps \<longrightarrow> p \<in> set ps)"

definition group_at_before :: "candidate_groups \<Rightarrow> nat \<Rightarrow> candidate_group" where
  "group_at_before cg i = cg_groups cg ! the (before_group cg i)"

definition singleton_at :: "candidate_groups \<Rightarrow> nat \<Rightarrow> bool" where
  "singleton_at cg i \<longleftrightarrow> length (cand_before (group_at_before cg i)) = 1 \<and> length (cand_after (group_at_before cg i)) = 1"

definition pure_step ::
  "candidate_groups \<Rightarrow> nat list \<Rightarrow> nat list \<Rightarrow> matrix \<Rightarrow> bounded_scan \<Rightarrow> nat \<times> nat \<Rightarrow> bounded_scan" where
  "pure_step cg bs as cands s p =
     (let i = bs ! fst p; j = as ! snd p; n = length bs; m = length as in
      if \<not> optimal_pair cands n m p then s
      else if singleton_at cg i \<and> forced_pair cands n m p then s\<lparr>scan_forced := scan_forced s @ [(i, j)]\<rparr>
      else s\<lparr>possible := possible s @ [\<lparr>pair_before_id = i, pair_after_id = j\<rparr>],
             ambiguous_before := ambiguous_before s \<union> (if singleton_at cg i then {i} else set (cand_before (group_at_before cg i))),
             ambiguous_after := ambiguous_after s \<union> (if singleton_at cg i then {j} else set (cand_after (group_at_before cg i))),
             duplicate_symmetry := (duplicate_symmetry s \<or> \<not> singleton_at cg i)\<rparr>)"

lemma maximum_entry:
  assumes "maximum c n m ps" "(x, y) \<in> set ps"
  shows "c x y" "x < n" "y < m"
  using assms by (auto simp: maximum_def matching_def)

lemma valid_scan_cell:
  assumes x: "x < length bs" and y: "y < length as"
    and rect: "rectangular cands (length bs) (length as)" "length as = first_width cands"
    and prefix: "table prefix (length bs) (length as) (prefix_best (entries cands))"
    and suffix: "table suffix (length bs) (length as) (suffix_best (entries cands) (length bs) (length as))"
    and groups: "\<And>i. i \<in> set bs \<Longrightarrow> \<exists>g<length (cg_groups cg). before_group cg i = Some g"
  shows "valid (scan_cell cg bs as cands prefix suffix (prefix_best (entries cands) (length bs) (length as)) x s y) work_failure
    (\<lambda>s'. s' = pure_step cg bs as cands s (x, y))"
proof -
  let ?opt = "prefix_best (entries cands) (length bs) (length as)"
  have cell: "matrix_at cands x y = Inr (cands ! x ! y)"
    using rect(1) x y by (simp add: matrix_at_def rectangular_def)
  have tables: "matrix_at prefix x y = Inr (prefix_best (entries cands) x y)"
    "matrix_at suffix (x + 1) (y + 1) = Inr (suffix_best (entries cands) (length bs) (length as) (Suc x) (Suc y))"
    using table_at [OF prefix, of x y] table_at [OF suffix, of "Suc x" "Suc y"] x y by simp_all
  let ?opt_pair = "optimal_pair cands (length bs) (length as) (x, y)"
  show ?thesis
  proof (cases "cands ! x ! y")
    case False
    then have "\<not> ?opt_pair"
      using maximum_entry(1) by (fastforce simp: optimal_pair_def)
    then show ?thesis using False cell by (simp add: scan_cell_def pure_step_def valid_return)
  next
    case True
    have test: "(prefix_best (entries cands) x y + 1 + suffix_best (entries cands) (length bs) (length as) (Suc x) (Suc y) = ?opt)
        = ?opt_pair"
      using possible_iff [of x "length bs" y "length as" "entries cands"] x y True by (simp add: optimal_pair_def)
    have optimal: "wlift (rbind (matrix_at prefix x y) (\<lambda>p. rbind (matrix_at suffix (x + 1) (y + 1)) (\<lambda>q.
                   Inr (p + 1 + q = ?opt)))) = wreturn ?opt_pair"
      by (simp only: tables rbind_simps test wlift_simps)
    obtain g where g: "g < length (cg_groups cg)" "before_group cg (bs ! x) = Some g" using groups x by force
    have grp: "group_at_before cg (bs ! x) = cg_groups cg ! g" using g by (simp add: group_at_before_def)
    have single: "(length (cand_before (cg_groups cg ! g)) = 1 \<and> length (cand_after (cg_groups cg ! g)) = 1) = singleton_at cg (bs ! x)"
      by (simp add: singleton_at_def grp)
    have lookups: "wlift (index_at bs x) = wreturn (bs ! x)" "wlift (index_at as y) = wreturn (as ! y)"
      "group_lookup (before_group cg) (bs ! x) = wreturn g" "wlift (index_at (cg_groups cg) g) = wreturn (cg_groups cg ! g)"
      using x y g by (simp_all add: group_lookup_def)
    have score: "valid (alignment_score cands (Some (x, y))) work_failure
        (\<lambda>k. k < ?opt \<longleftrightarrow> forced_pair cands (length bs) (length as) (x, y))"
      by (rule valid_conseq [OF alignment_score_valid [OF rect]])
        (simp_all only: allowed_eq forced_iff forced_pair_def)
    have forced: "valid (if singleton_at cg (bs ! x) then wbind (alignment_score cands (Some (x, y))) (\<lambda>score. wreturn (score < ?opt))
        else wreturn False) work_failure
        (\<lambda>f. f \<longleftrightarrow> singleton_at cg (bs ! x) \<and> forced_pair cands (length bs) (length as) (x, y))"
      by (rule valid_if, rule valid_bind [OF score]) (simp_all add: valid_return)
    have no: "\<not> \<not> cands ! x ! y" using True by simp
    show ?thesis
    proof (cases ?opt_pair)
      case False
      then show ?thesis
        unfolding scan_cell_def cell wlift_simps wbind_wreturn if_not_P [OF no] optimal
        by (simp add: pure_step_def valid_return)
    next
      case opt: True
      then have no': "\<not> \<not> ?opt_pair" by simp
      show ?thesis
        unfolding scan_cell_def cell wlift_simps wbind_wreturn if_not_P [OF no] optimal if_not_P [OF no'] lookups Let_def single
        by (rule valid_bind [OF forced], rule valid_if; cases "singleton_at cg (bs ! x)")
          (simp_all add: pure_step_def Let_def opt grp valid_return)
    qed
  qed
qed

lemma wfold_append: "wfold f s (xs @ ys) = wbind (wfold f s xs) (\<lambda>s. wfold f s ys)"
  by (induction xs arbitrary: s) (simp_all add: wbind_assoc)

lemma wfold_map: "wfold f s (map g xs) = wfold (\<lambda>s x. f s (g x)) s xs"
  by (induction xs arbitrary: s) simp_all

lemma wfold_nested: "wfold (\<lambda>s x. wfold (f x) s ys) s xs = wfold (\<lambda>s p. f (fst p) s (snd p)) s (List.product xs ys)"
  by (induction xs arbitrary: s) (simp_all add: wfold_append wfold_map)

lemma valid_fold_pure:
  assumes "\<And>x s. x \<in> set xs \<Longrightarrow> valid (f s x) E (\<lambda>s'. s' = g s x)"
  shows "valid (wfold f s xs) E (\<lambda>s'. s' = foldl g s xs)"
  by (rule valid_fold_prefix [where I = "\<lambda>ys s'. s' = foldl g s ys"]) (use assms in auto)

section \<open>The outcome of a component\<close>

text \<open>The optimal pairs of a component, in row order, and those of singleton groups on every maximum.\<close>

definition optimal_cells :: "matrix \<Rightarrow> nat \<Rightarrow> nat \<Rightarrow> (nat \<times> nat) list" where
  "optimal_cells cands n m = filter (optimal_pair cands n m) (List.product [0..<n] [0..<m])"

definition certain :: "candidate_groups \<Rightarrow> nat list \<Rightarrow> nat list \<Rightarrow> matrix \<Rightarrow> nat \<times> nat \<Rightarrow> bool" where
  "certain cg bs as cands p \<longleftrightarrow> singleton_at cg (bs ! fst p) \<and> forced_pair cands (length bs) (length as) p"

definition pair_ids :: "nat list \<Rightarrow> nat list \<Rightarrow> nat \<times> nat \<Rightarrow> nat \<times> nat" where
  "pair_ids bs as p = (bs ! fst p, as ! snd p)"

definition ids_pair :: "nat \<times> nat \<Rightarrow> ambiguity_pair" where
  "ids_pair p = \<lparr>pair_before_id = fst p, pair_after_id = snd p\<rparr>"

text \<open>The endpoints that an open pair makes ambiguous.\<close>

definition touched_before :: "candidate_groups \<Rightarrow> nat list \<Rightarrow> nat \<times> nat \<Rightarrow> nat set" where
  "touched_before cg bs p = (if singleton_at cg (bs ! fst p) then {bs ! fst p} else set (cand_before (group_at_before cg (bs ! fst p))))"

definition touched_after :: "candidate_groups \<Rightarrow> nat list \<Rightarrow> nat list \<Rightarrow> nat \<times> nat \<Rightarrow> nat set" where
  "touched_after cg bs as p = (if singleton_at cg (bs ! fst p) then {as ! snd p} else set (cand_after (group_at_before cg (bs ! fst p))))"

definition scanned :: "candidate_groups \<Rightarrow> nat list \<Rightarrow> nat list \<Rightarrow> matrix \<Rightarrow> (nat \<times> nat) list \<Rightarrow> bounded_scan \<Rightarrow> bool" where
  "scanned cg bs as cands ps s \<longleftrightarrow>
     (let opt = filter (optimal_pair cands (length bs) (length as)) ps;
          open = filter (\<lambda>p. \<not> certain cg bs as cands p) opt in
      scan_forced s = map (pair_ids bs as) (filter (certain cg bs as cands) opt) \<and>
      possible s = map (ids_pair \<circ> pair_ids bs as) open \<and>
      ambiguous_before s = (\<Union>p\<in>set open. touched_before cg bs p) \<and>
      ambiguous_after s = (\<Union>p\<in>set open. touched_after cg bs as p) \<and>
      (duplicate_symmetry s \<longleftrightarrow> (\<exists>p\<in>set open. \<not> singleton_at cg (bs ! fst p))))"

lemma scanned_step:
  assumes "scanned cg bs as cands ps s"
  shows "scanned cg bs as cands (ps @ [p]) (pure_step cg bs as cands s p)"
proof (cases "optimal_pair cands (length bs) (length as) p")
  case True
  show ?thesis
  proof (cases "certain cg bs as cands p")
    case c: True
    then have "pure_step cg bs as cands s p = s\<lparr>scan_forced := scan_forced s @ [pair_ids bs as p]\<rparr>"
      using True by (simp add: pure_step_def certain_def pair_ids_def)
    then show ?thesis
      using assms True c by (simp add: scanned_def Let_def del: filter_filter set_filter)
  next
    case False
    then have "pure_step cg bs as cands s p = s\<lparr>possible := possible s @ [ids_pair (pair_ids bs as p)],
        ambiguous_before := ambiguous_before s \<union> touched_before cg bs p,
        ambiguous_after := ambiguous_after s \<union> touched_after cg bs as p,
        duplicate_symmetry := (duplicate_symmetry s \<or> \<not> singleton_at cg (bs ! fst p))\<rparr>"
      using True by (auto simp: pure_step_def certain_def pair_ids_def ids_pair_def touched_before_def touched_after_def Let_def)
    then show ?thesis
      using assms True False unfolding scanned_def Let_def by (simp add: Un_commute disj_commute del: filter_filter set_filter)
  qed
next
  case False
  then show ?thesis using assms by (simp add: scanned_def pure_step_def Let_def)
qed

lemma scanned_foldl:
  "scanned cg bs as cands ps (foldl (pure_step cg bs as cands)
     \<lparr>scan_forced = [], possible = [], ambiguous_before = {}, ambiguous_after = {}, duplicate_symmetry = False\<rparr> ps)"
proof (induction ps rule: rev_induct)
  case Nil
  show ?case by (simp add: scanned_def)
next
  case (snoc p ps)
  then show ?case using scanned_step by simp
qed

lemma below_distinct: "sorted_wrt below ps \<Longrightarrow> distinct ps"
  by (induction ps) (auto simp: below_def)

lemma matching_distinct: "matching c a b n m ps \<Longrightarrow> distinct ps"
  unfolding matching_def by (blast intro: below_distinct)

text \<open>Counting: the certain pairs lie on every maximum matching; an open pair lies on one and is
  missing from another.\<close>

lemma forced_count:
  assumes F: "distinct F" "\<And>p. p \<in> set F \<Longrightarrow> forced_pair cands n m p"
  shows "length F \<le> prefix_best (entries cands) n m"
proof -
  obtain ps where ps: "maximum (entries cands) n m ps" "length ps = prefix_best (entries cands) n m"
    using prefix_best_attained [of "entries cands" n m] by (auto simp: maximum_iff)
  have "set F \<subseteq> set ps" using F(2) ps(1) by (auto simp: forced_pair_def)
  then have "card (set F) \<le> card (set ps)" by (rule card_mono [rotated]) simp
  moreover have "card (set ps) \<le> length ps" by (rule card_length)
  ultimately show ?thesis using ps(2) F(1) by (simp add: distinct_card)
qed

lemma open_count:
  assumes F: "distinct F" "set F = {p. optimal_pair cands n m p \<and> forced_pair cands n m p}"
    and U: "distinct U" "set U = {p. optimal_pair cands n m p \<and> \<not> forced_pair cands n m p}" "U \<noteq> []"
  shows "0 < prefix_best (entries cands) n m - length F" "prefix_best (entries cands) n m - length F < length U"
proof -
  let ?k = "prefix_best (entries cands) n m"
  obtain p where p: "p \<in> set U" using U(3) by (metis last_in_set)
  obtain ps where ps: "maximum (entries cands) n m ps" "p \<in> set ps" using p U(2) by (auto simp: optimal_pair_def)
  obtain qs where qs: "maximum (entries cands) n m qs" "p \<notin> set qs" using p U(2) by (auto simp: forced_pair_def)
  have len: "card (set ps) = ?k" "card (set qs) = ?k"
    using ps(1) qs(1) matching_distinct by (auto simp: maximum_iff distinct_card)
  have F_in: "set F \<subseteq> set ps" "set F \<subseteq> set qs" using F(2) ps(1) qs(1) by (auto simp: forced_pair_def)
  have "p \<notin> set F" using p U(2) F(2) by auto
  then have "set F \<subset> set ps" using F_in ps(2) by blast
  then have "card (set F) < ?k" using len(1) by (metis finite_set psubset_card_mono)
  then show "0 < ?k - length F" using F(1) by (simp add: distinct_card)
  have "set qs - set F \<subseteq> set U - {p}"
    using qs U(2) F(2) by (auto simp: optimal_pair_def)
  then have "card (set qs - set F) \<le> card (set U - {p})" by (rule card_mono [rotated]) simp
  moreover have "card (set qs - set F) = ?k - length F"
    using F_in len F(1) by (simp add: card_Diff_subset distinct_card)
  moreover have "card (set U - {p}) < length U"
    using p U(1) by (simp add: distinct_card card_Diff_singleton) (metis length_pos_if_in_set diff_Suc_less One_nat_def)
  ultimately show "?k - length F < length U" by simp
qed

lemma optimal_cells_facts:
  "distinct (optimal_cells cands n m)" "set (optimal_cells cands n m) = {p. optimal_pair cands n m p}"
proof -
  show "distinct (optimal_cells cands n m)" by (simp add: optimal_cells_def distinct_product)
  have "p \<in> set (List.product [0..<n] [0..<m])" if "optimal_pair cands n m p" for p
    using that maximum_entry(2,3) by (cases p) (fastforce simp: optimal_pair_def)
  then show "set (optimal_cells cands n m) = {p. optimal_pair cands n m p}"
    unfolding optimal_cells_def by auto
qed

text \<open>What a bounded component yields: the forced pairs are the optimal pairs of singleton groups that
  no maximum-cardinality ordered matching avoids; if other optimal pairs remain, one ambiguity covers
  them, with exact counts unless repeated nodes are involved.\<close>

definition ambiguity_of :: "candidate_groups \<Rightarrow> nat list \<Rightarrow> nat list \<Rightarrow> matrix \<Rightarrow> alignment_ambiguity \<Rightarrow> bool" where
  "ambiguity_of cg bs as cands a \<longleftrightarrow>
     (let open = filter (\<lambda>p. \<not> certain cg bs as cands p) (optimal_cells cands (length bs) (length as)) in
      (\<exists>s. scanned cg bs as cands (List.product [0..<length bs] [0..<length as]) s \<and>
         amb_before a = filter (\<lambda>i. i \<in> ambiguous_before s) bs \<and> amb_after a = filter (\<lambda>j. j \<in> ambiguous_after s) as) \<and>
      (if \<exists>p\<in>set open. \<not> singleton_at cg (bs ! fst p)
       then amb_constraint a = SymbolicAbstention DuplicateSymmetry NoPairClaims \<and> amb_reason a = REPEATED_AMBIGUITY_REASON
       else (\<exists>required. amb_constraint a = ExactOrderedAlignment ShapeEqual required (map (ids_pair \<circ> pair_ids bs as) open) \<and>
              required + length (filter (certain cg bs as cands) (optimal_cells cands (length bs) (length as)))
                = prefix_best (entries cands) (length bs) (length as) \<and>
              0 < required \<and> required < length open) \<and> amb_reason a = OPTIONAL_AMBIGUITY_REASON))"

definition component_result :: "candidate_groups \<Rightarrow> nat list \<Rightarrow> nat list \<Rightarrow> matrix \<Rightarrow> alignment_outcome \<Rightarrow> bool" where
  "component_result cg bs as cands r \<longleftrightarrow>
     (let cells = optimal_cells cands (length bs) (length as) in
      forced r = sort (map (pair_ids bs as) (filter (certain cg bs as cands) cells)) \<and>
      (if list_all (certain cg bs as cands) cells then outcome_ambiguities r = []
       else (\<exists>a. outcome_ambiguities r = [a] \<and> ambiguity_of cg bs as cands a)))"

lemma valid_bounded_outcome:
  assumes s: "scanned cg bs as cands (List.product [0..<length bs] [0..<length as]) s"
  shows "valid (bounded_outcome bs as (prefix_best (entries cands) (length bs) (length as)) s) work_failure
    (component_result cg bs as cands)"
proof -
  let ?n = "length bs" and ?m = "length as" and ?k = "prefix_best (entries cands) (length bs) (length as)"
  define cells where "cells = optimal_cells cands ?n ?m"
  define F where "F = filter (certain cg bs as cands) cells"
  define U where "U = filter (\<lambda>p. \<not> certain cg bs as cands p) cells"
  have sc: "scan_forced s = map (pair_ids bs as) F" "possible s = map (ids_pair \<circ> pair_ids bs as) U"
    "duplicate_symmetry s \<longleftrightarrow> (\<exists>p\<in>set U. \<not> singleton_at cg (bs ! fst p))"
    using s unfolding scanned_def Let_def F_def U_def cells_def optimal_cells_def by blast+
  have dist: "distinct F" "distinct U"
    using optimal_cells_facts(1) [of cands ?n ?m] by (simp_all add: F_def U_def cells_def)
  have empty: "U = [] \<longleftrightarrow> list_all (certain cg bs as cands) cells"
    by (simp add: U_def filter_empty_conv list_all_iff)
  show ?thesis
  proof (cases "U = []")
    case True
    then have "possible s = []" using sc(2) by simp
    moreover have "component_result cg bs as cands \<lparr>forced = sort (scan_forced s), outcome_ambiguities = []\<rparr>"
      using True empty sc(1) unfolding component_result_def Let_def F_def cells_def by simp
    ultimately show ?thesis
      by (simp add: bounded_outcome_def valid_charge_n_log_n_bind valid_return)
  next
    case False
    then have ne: "possible s \<noteq> []" using sc(2) by simp
    have constraint: "\<exists>c. bounded_constraint ?k s = Inr c \<and>
       (if \<exists>p\<in>set U. \<not> singleton_at cg (bs ! fst p) then c = SymbolicAbstention DuplicateSymmetry NoPairClaims
        else (\<exists>required. c = ExactOrderedAlignment ShapeEqual required (map (ids_pair \<circ> pair_ids bs as) U) \<and>
          required + length F = ?k \<and> 0 < required \<and> required < length U))"
    proof (cases "\<exists>p\<in>set U. \<not> singleton_at cg (bs ! fst p)")
      case True
      then show ?thesis using sc(3) by (simp add: bounded_constraint_def)
    next
      case single: False
      have "set F = {p. optimal_pair cands ?n ?m p \<and> forced_pair cands ?n ?m p}"
        "set U = {p. optimal_pair cands ?n ?m p \<and> \<not> forced_pair cands ?n ?m p}"
      proof -
        have sing: "singleton_at cg (bs ! fst p)" if p: "optimal_pair cands ?n ?m p" for p
        proof (rule ccontr)
          assume "\<not> singleton_at cg (bs ! fst p)"
          moreover from this have "p \<in> set U"
            using p optimal_cells_facts(2) [of cands ?n ?m] by (simp add: U_def cells_def certain_def)
          ultimately show False using single by blast
        qed
        then have "certain cg bs as cands p \<longleftrightarrow> forced_pair cands ?n ?m p" if "optimal_pair cands ?n ?m p" for p
          using that by (simp add: certain_def)
        then show "set F = {p. optimal_pair cands ?n ?m p \<and> forced_pair cands ?n ?m p}"
          "set U = {p. optimal_pair cands ?n ?m p \<and> \<not> forced_pair cands ?n ?m p}"
          using optimal_cells_facts(2) [of cands ?n ?m] unfolding F_def U_def cells_def set_filter by blast+
      qed
      note count = open_count [OF dist(1) this(1) dist(2) this(2) False]
      then have "length F \<le> ?k" by simp
      then show ?thesis
        using count single sc by (simp add: bounded_constraint_def rensure_def)
    qed
    then obtain c where c: "bounded_constraint ?k s = Inr c"
      "if \<exists>p\<in>set U. \<not> singleton_at cg (bs ! fst p) then c = SymbolicAbstention DuplicateSymmetry NoPairClaims
        else (\<exists>required. c = ExactOrderedAlignment ShapeEqual required (map (ids_pair \<circ> pair_ids bs as) U) \<and>
          required + length F = ?k \<and> 0 < required \<and> required < length U)" by blast
    let ?a = "\<lparr>amb_before = filter (\<lambda>i. i \<in> ambiguous_before s) bs, amb_after = filter (\<lambda>j. j \<in> ambiguous_after s) as,
             amb_constraint = c,
             amb_reason = (if duplicate_symmetry s then REPEATED_AMBIGUITY_REASON else OPTIONAL_AMBIGUITY_REASON)\<rparr>"
    have "ambiguity_of cg bs as cands ?a"
      unfolding ambiguity_of_def Let_def cells_def [symmetric] U_def [symmetric] F_def [symmetric]
      using c(2) s sc(3) by auto
    then have "component_result cg bs as cands \<lparr>forced = sort (scan_forced s), outcome_ambiguities = [?a]\<rparr>"
      using False empty sc(1) unfolding component_result_def Let_def F_def cells_def by simp
    then show ?thesis
      using ne c(1) by (simp add: bounded_outcome_def Let_def valid_charge_n_log_n_bind valid_charge_bind valid_return)
  qed
qed

lemma no_optimum:
  assumes "prefix_best (entries cands) n m = 0"
  shows "optimal_cells cands n m = []"
proof -
  have "\<not> optimal_pair cands n m p" for p
    using assms by (auto simp: optimal_pair_def maximum_iff)
  then show ?thesis by (simp add: optimal_cells_def)
qed

lemma valid_verify_bounded_component:
  assumes wf: "wf_syntax before" "wf_syntax after" and ok: "phase_ok before after m phase"
    and sides: "side_ok before (before_group cg) (comp_before c)" "side_ok after (after_group cg) (comp_after c)"
    and ne: "comp_before c \<noteq> []"
    and groups: "\<And>i. i \<in> set (comp_before c) \<Longrightarrow> \<exists>g<length (cg_groups cg). before_group cg i = Some g"
  shows "valid (verify_bounded_component before after phase cg c) work_failure
    (component_result cg (comp_before c) (comp_after c)
       (matrix_of (candidate_pair before after phase cg) (comp_before c) (comp_after c)))"
proof -
  let ?bs = "comp_before c" and ?as = "comp_after c"
  let ?cands = "matrix_of (candidate_pair before after phase cg) ?bs ?as"
  let ?n = "length ?bs" and ?m = "length ?as" and ?k = "prefix_best (entries ?cands) (length ?bs) (length ?as)"
  note rect = matrix_of_facts(1) [of "candidate_pair before after phase cg" ?bs ?as]
  have width: "?m = first_width ?cands" using matrix_of_facts(2) [OF ne] by simp
  have prefix: "valid (alignment_prefix_scores ?cands None) work_failure (\<lambda>s. table s ?n ?m (prefix_best (entries ?cands)))"
    using prefix_scores_valid [OF rect width, of None] by (simp only: allowed_eq)
  note suffix = suffix_scores_valid [OF rect width]
  let ?s0 = "\<lparr>scan_forced = [], possible = [], ambiguous_before = {}, ambiguous_after = {}, duplicate_symmetry = False\<rparr>"
  show ?thesis
    unfolding verify_bounded_component_def Let_def
  proof (rule valid_bind [OF valid_candidate_matrix [OF wf ok sides]], hypsubst, rule valid_bind [OF prefix],
      rule valid_bind [OF suffix])
    fix pre suf
    assume pre: "table pre ?n ?m (prefix_best (entries ?cands))" and suf: "table suf ?n ?m (suffix_best (entries ?cands) ?n ?m)"
    have opt: "matrix_at pre ?n ?m = Inr ?k" using table_at [OF pre, of ?n ?m] by simp
    have "valid (wfold (\<lambda>s x. wfold (scan_cell cg ?bs ?as ?cands pre suf ?k x) s [0..<?m]) ?s0 [0..<?n]) work_failure
        (\<lambda>s. s = foldl (pure_step cg ?bs ?as ?cands) ?s0 (List.product [0..<?n] [0..<?m]))"
      unfolding wfold_nested
      by (rule valid_fold_pure) (auto intro!: valid_scan_cell rect width pre suf groups)
    then have scan: "valid (wfold (\<lambda>s x. wfold (scan_cell cg ?bs ?as ?cands pre suf ?k x) s [0..<?m]) ?s0 [0..<?n]) work_failure
        (scanned cg ?bs ?as ?cands (List.product [0..<?n] [0..<?m]))"
      by (rule valid_conseq) (simp_all add: scanned_foldl)
    show "valid (wbind (wlift (matrix_at pre ?n ?m)) (\<lambda>optimum.
      if optimum = 0 then wreturn no_outcome
      else
        wbind (charge_product ?n ?m) (\<lambda>_.
        wbind (wfold (\<lambda>s x. wfold (scan_cell cg ?bs ?as ?cands pre suf optimum x) s [0..<?m]) ?s0 [0..<?n])
          (bounded_outcome ?bs ?as optimum)))) work_failure (component_result cg ?bs ?as ?cands)"
      unfolding opt wlift_simps wbind_wreturn
    proof (rule valid_if)
      assume "?k = 0"
      then show "valid (wreturn no_outcome) work_failure (component_result cg ?bs ?as ?cands)"
        by (intro valid_return) (simp add: component_result_def no_optimum no_outcome_def)
    next
      show "valid (wbind (charge_product ?n ?m) (\<lambda>_.
        wbind (wfold (\<lambda>s x. wfold (scan_cell cg ?bs ?as ?cands pre suf ?k x) s [0..<?m]) ?s0 [0..<?n])
          (bounded_outcome ?bs ?as ?k))) work_failure (component_result cg ?bs ?as ?cands)"
        by (rule valid_charge_product_bind, simp, rule valid_bind [OF scan], rule valid_bounded_outcome)
    qed
  qed
qed

section \<open>The outcome of a region\<close>

definition oversized_result :: "candidate_groups \<Rightarrow> alignment_component \<Rightarrow> alignment_outcome \<Rightarrow> bool" where
  "oversized_result cg c r \<longleftrightarrow> forced r = [] \<and>
     (\<exists>a. outcome_ambiguities r = [a] \<and> amb_before a = comp_before c \<and> amb_after a = comp_after c \<and>
        (if \<forall>g\<in>set (comp_groups c). scan_complete (cg_groups cg ! g)
         then amb_constraint a = SymbolicAbstention ComponentLimit NoPairClaims \<and> amb_reason a = COMPONENT_LIMIT_REASON
         else amb_constraint a = SymbolicAbstention CandidateScanLimit NoPairClaims \<and> amb_reason a = SCAN_LIMIT_REASON))"

lemma valid_oversized_alignment:
  assumes "set (comp_groups c) \<subseteq> {..<length (cg_groups cg)}"
  shows "valid (oversized_alignment cg c) work_failure (oversized_result cg c)"
proof -
  have "rall (\<lambda>g. rbind (index_at (cg_groups cg) g) (\<lambda>grp. Inr (scan_complete grp))) (comp_groups c) =
      Inr (\<forall>g\<in>set (comp_groups c). scan_complete (cg_groups cg ! g))"
    by (rule rall_pure) (use assms in auto)
  then show ?thesis
    by (auto simp: oversized_alignment_def oversized_result_def intro!: valid_charge_bind valid_return)
qed

definition bounded :: "alignment_component \<Rightarrow> bool" where
  "bounded c \<longleftrightarrow> length (comp_before c) \<le> ORDERED_ALIGNMENT_COMPONENT_LIMIT \<and> length (comp_after c) \<le> ORDERED_ALIGNMENT_COMPONENT_LIMIT"

definition component_outcome ::
  "parsed_syntax \<Rightarrow> parsed_syntax \<Rightarrow> phase_mappings \<Rightarrow> candidate_groups \<Rightarrow> alignment_component \<Rightarrow> alignment_outcome \<Rightarrow> bool" where
  "component_outcome before after phase cg c r \<longleftrightarrow>
     (if bounded c then component_result cg (comp_before c) (comp_after c)
        (matrix_of (candidate_pair before after phase cg) (comp_before c) (comp_after c)) r
      else oversized_result cg c r)"

definition region_result ::
  "parsed_syntax \<Rightarrow> parsed_syntax \<Rightarrow> phase_mappings \<Rightarrow> nat list \<Rightarrow> nat list \<Rightarrow> alignment_outcome \<Rightarrow> bool" where
  "region_result before after phase bs as r \<longleftrightarrow>
     (\<exists>cg cs rs. groups_ok before after phase bs as cg \<and> components_ok cg bs as cs \<and>
        list_all2 (component_outcome before after phase cg) cs rs \<and>
        forced r = sort (concat (map forced rs)) \<and>
        outcome_ambiguities r = concat (map outcome_ambiguities rs))"

lemma no_groups_result:
  assumes "groups_ok before after phase bs as cg" "cg_groups cg = []"
  shows "region_result before after phase bs as no_outcome"
proof -
  have "components_ok cg bs as []"
    using assms groups_ok_sides(1,2) [OF assms(1)] unfolding components_ok_def
    by (cases "active (before_group cg) bs"; cases "active (after_group cg) as") auto
  then show ?thesis
    using assms(1) unfolding region_result_def no_outcome_def
    by (intro exI [of _ cg] exI [of _ "[]"]) simp
qed

lemma region_sides:
  assumes groups: "groups_ok before after phase bs as cg" and comps: "components_ok cg bs as cs" and c: "c \<in> set cs"
    and bs: "\<forall>i\<in>set bs. i < length (ps_nodes before)" "distinct bs"
    and as: "\<forall>j\<in>set as. j < length (ps_nodes after)" "distinct as"
  shows "side_ok before (before_group cg) (comp_before c)" "side_ok after (after_group cg) (comp_after c)"
    "comp_before c \<noteq> []" "comp_after c \<noteq> []"
    "i \<in> set (comp_before c) \<Longrightarrow> \<exists>g<length (cg_groups cg). before_group cg i = Some g"
    "set (comp_before c) \<subseteq> set bs" "set (comp_after c) \<subseteq> set as"
proof -
  let ?B = "active (before_group cg) bs" and ?A = "active (after_group cg) as"
  have comp: "comp_before c \<noteq> []" "comp_before c = filter (\<lambda>i. the (before_group cg i) \<in> set (comp_groups c)) ?B"
    "comp_after c = filter (\<lambda>j. the (after_group cg j) \<in> set (comp_groups c)) ?A"
    using comps c unfolding components_ok_def component_of_def by blast+
  have sub: "set (comp_before c) \<subseteq> set ?B" "set (comp_after c) \<subseteq> set ?A" unfolding comp(2,3) by auto
  note sides = groups_ok_sides [OF groups]
  show "comp_before c \<noteq> []" by (rule comp(1))
  show b: "\<exists>g<length (cg_groups cg). before_group cg i = Some g" if "i \<in> set (comp_before c)" for i
    using sides(1) sub(1) that by blast
  show "set (comp_before c) \<subseteq> set bs" "set (comp_after c) \<subseteq> set as"
    using sub by (auto simp: active_def)
  then show "side_ok before (before_group cg) (comp_before c)" "side_ok after (after_group cg) (comp_after c)"
    using bs as sub sides(1,2) unfolding side_ok_def
    by (auto simp: comp(2,3) active_def)
  obtain i where i: "i \<in> set (comp_before c)" using comp(1) by (metis last_in_set)
  then obtain g where g: "g < length (cg_groups cg)" "before_group cg i = Some g" using b by blast
  have "g \<in> set (comp_groups c)" using i g(2) unfolding comp(2) by simp
  moreover have "g \<in> set (groups_by (after_group cg) ?A)" unfolding sides(4) using g(1) by simp
  then obtain j where "j \<in> set ?A" "the (after_group cg j) = g" by (auto simp: groups_by_def)
  ultimately have "j \<in> set (comp_after c)" unfolding comp(3) by simp
  then show "comp_after c \<noteq> []" by force
qed

lemma valid_independent_stable_core:
  assumes wf: "wf_syntax before" "wf_syntax after" and ok: "phase_ok before after m phase"
    and bs: "\<forall>i\<in>set bs. i < length (ps_nodes before)" "distinct bs"
    and as: "\<forall>j\<in>set as. j < length (ps_nodes after)" "distinct as"
  shows "valid (independent_stable_core before after phase bs as) work_failure (region_result before after phase bs as)"
  unfolding independent_stable_core_def
proof (rule valid_bind [OF valid_verified_shape_classes])
  show "in_arena before i" if "i \<in> set bs" for i using that bs wf by (simp add: in_arena_def)
  show "in_arena after j" if "j \<in> set as" for j using that as wf by (simp add: in_arena_def)
  fix cs :: shape_classes
  assume cs: "classified (same_class before after) bs as (classes cs)"
  show "valid (if classes cs = [] then wreturn no_outcome
     else
       wbind (verified_candidate_groups before after phase cs) (\<lambda>cg.
       if cg_groups cg = [] then wreturn no_outcome
       else
         wbind (ordered_interaction_components cg bs as) (\<lambda>comps.
         wbind (wfold (\<lambda>outcome c.
             wbind (if length (comp_before c) \<le> ORDERED_ALIGNMENT_COMPONENT_LIMIT
                       \<and> length (comp_after c) \<le> ORDERED_ALIGNMENT_COMPONENT_LIMIT
                    then verify_bounded_component before after phase cg c
                    else oversized_alignment cg c) (\<lambda>new.
               wreturn \<lparr>forced = forced outcome @ forced new,
                        outcome_ambiguities = outcome_ambiguities outcome @ outcome_ambiguities new\<rparr>)) no_outcome comps) (\<lambda>outcome.
         wbind (charge_n_log_n (length (forced outcome))) (\<lambda>_.
           wreturn (outcome\<lparr>forced := sort (forced outcome)\<rparr>)))))) work_failure (region_result before after phase bs as)"
  proof (rule valid_if)
    assume "classes cs = []"
    then have none: "groups_ok before after phase bs as \<lparr>cg_groups = [], before_group = Map.empty, after_group = Map.empty\<rparr>"
      using cs by (simp add: groups_ok_def grouped_def classified_def)
    show "valid (wreturn no_outcome) work_failure (region_result before after phase bs as)"
      by (rule valid_return, rule no_groups_result [OF none]) (simp only: candidate_groups.simps)
  next
    show "valid (wbind (verified_candidate_groups before after phase cs) (\<lambda>cg.
       if cg_groups cg = [] then wreturn no_outcome
       else
         wbind (ordered_interaction_components cg bs as) (\<lambda>comps.
         wbind (wfold (\<lambda>outcome c.
             wbind (if length (comp_before c) \<le> ORDERED_ALIGNMENT_COMPONENT_LIMIT
                       \<and> length (comp_after c) \<le> ORDERED_ALIGNMENT_COMPONENT_LIMIT
                    then verify_bounded_component before after phase cg c
                    else oversized_alignment cg c) (\<lambda>new.
               wreturn \<lparr>forced = forced outcome @ forced new,
                        outcome_ambiguities = outcome_ambiguities outcome @ outcome_ambiguities new\<rparr>)) no_outcome comps) (\<lambda>outcome.
         wbind (charge_n_log_n (length (forced outcome))) (\<lambda>_.
           wreturn (outcome\<lparr>forced := sort (forced outcome)\<rparr>)))))) work_failure (region_result before after phase bs as)"
    proof (rule valid_bind [OF valid_verified_candidate_groups [OF wf ok bspec [OF bs(1)] bspec [OF as(1)] cs]], assumption, assumption, rule valid_if,
        intro valid_return no_groups_result, assumption, assumption,
        rule valid_bind [OF valid_ordered_interaction_components], assumption)
      fix cg comps assume cg: "groups_ok before after phase bs as cg" and comps: "components_ok cg bs as comps"
      define I where "I ys r \<longleftrightarrow> (\<exists>rs. list_all2 (component_outcome before after phase cg) ys rs \<and>
        forced r = concat (map forced rs) \<and> outcome_ambiguities r = concat (map outcome_ambiguities rs))"
        for ys :: "alignment_component list" and r :: alignment_outcome
      have "valid (wfold (\<lambda>outcome c.
             wbind (if length (comp_before c) \<le> ORDERED_ALIGNMENT_COMPONENT_LIMIT
                       \<and> length (comp_after c) \<le> ORDERED_ALIGNMENT_COMPONENT_LIMIT
                    then verify_bounded_component before after phase cg c
                    else oversized_alignment cg c) (\<lambda>new.
               wreturn \<lparr>forced = forced outcome @ forced new,
                        outcome_ambiguities = outcome_ambiguities outcome @ outcome_ambiguities new\<rparr>)) no_outcome comps)
          work_failure (I comps)"
      proof (rule valid_fold_prefix)
        show "I [] no_outcome" by (simp add: I_def no_outcome_def)
      next
        fix ys c zs r assume split: "comps = ys @ c # zs" and r: "I ys r"
        have c: "c \<in> set comps" unfolding split by simp
        have "set (comp_groups c) \<subseteq> {..<length (cg_groups cg)}" using comps c unfolding components_ok_def by blast
        note over = valid_oversized_alignment [OF this]
        note sides = region_sides [OF cg comps c bs as]
        have bounded: "valid (verify_bounded_component before after phase cg c) work_failure
          (component_result cg (comp_before c) (comp_after c)
             (matrix_of (candidate_pair before after phase cg) (comp_before c) (comp_after c)))"
          using sides by (intro valid_verify_bounded_component [OF wf ok]) simp_all
        have "valid (if length (comp_before c) \<le> ORDERED_ALIGNMENT_COMPONENT_LIMIT
                       \<and> length (comp_after c) \<le> ORDERED_ALIGNMENT_COMPONENT_LIMIT
                    then verify_bounded_component before after phase cg c
                    else oversized_alignment cg c) work_failure (component_outcome before after phase cg c)"
          by (rule valid_if; rule valid_conseq [OF bounded] valid_conseq [OF over])
            (auto simp: component_outcome_def bounded_def)
        then show "valid (wbind (if length (comp_before c) \<le> ORDERED_ALIGNMENT_COMPONENT_LIMIT
                       \<and> length (comp_after c) \<le> ORDERED_ALIGNMENT_COMPONENT_LIMIT
                    then verify_bounded_component before after phase cg c
                    else oversized_alignment cg c) (\<lambda>new.
               wreturn \<lparr>forced = forced r @ forced new,
                        outcome_ambiguities = outcome_ambiguities r @ outcome_ambiguities new\<rparr>)) work_failure (I (ys @ [c]))"
        proof (rule valid_bind, intro valid_return)
          fix new assume new: "component_outcome before after phase cg c new"
          obtain rs where rs: "list_all2 (component_outcome before after phase cg) ys rs"
            "forced r = concat (map forced rs)" "outcome_ambiguities r = concat (map outcome_ambiguities rs)"
            using r unfolding I_def by blast
          then show "I (ys @ [c]) \<lparr>forced = forced r @ forced new,
                        outcome_ambiguities = outcome_ambiguities r @ outcome_ambiguities new\<rparr>"
            unfolding I_def using new by (intro exI [of _ "rs @ [new]"]) (simp add: list_all2_appendI)
        qed
      qed
      then show "valid (wbind (wfold (\<lambda>outcome c.
             wbind (if length (comp_before c) \<le> ORDERED_ALIGNMENT_COMPONENT_LIMIT
                       \<and> length (comp_after c) \<le> ORDERED_ALIGNMENT_COMPONENT_LIMIT
                    then verify_bounded_component before after phase cg c
                    else oversized_alignment cg c) (\<lambda>new.
               wreturn \<lparr>forced = forced outcome @ forced new,
                        outcome_ambiguities = outcome_ambiguities outcome @ outcome_ambiguities new\<rparr>)) no_outcome comps) (\<lambda>outcome.
         wbind (charge_n_log_n (length (forced outcome))) (\<lambda>_.
           wreturn (outcome\<lparr>forced := sort (forced outcome)\<rparr>)))) work_failure (region_result before after phase bs as)"
      proof (rule valid_bind, intro valid_charge_n_log_n_bind valid_return)
        fix r assume "I comps r"
        then obtain rs where rs: "list_all2 (component_outcome before after phase cg) comps rs"
          "forced r = concat (map forced rs)" "outcome_ambiguities r = concat (map outcome_ambiguities rs)"
          unfolding I_def by blast
        show "region_result before after phase bs as (r\<lparr>forced := sort (forced r)\<rparr>)"
          unfolding region_result_def
          by (rule exI [of _ cg], rule exI [of _ comps], rule exI [of _ rs]) (use cg comps rs in simp)
      qed simp
    qed
  qed
qed (use bs as in simp_all)

section \<open>What a region result contains\<close>

text \<open>Forced pairs are candidate pairs of the region; ambiguities have endpoints on both sides.\<close>

definition result_within ::
  "parsed_syntax \<Rightarrow> parsed_syntax \<Rightarrow> phase_mappings \<Rightarrow> nat list \<Rightarrow> nat list \<Rightarrow> alignment_outcome \<Rightarrow> bool" where
  "result_within before after phase bs as r \<longleftrightarrow>
     (\<forall>(i, j)\<in>set (forced r). i \<in> set bs \<and> j \<in> set as \<and> same_class before after i j \<and> compatible before after phase i j) \<and>
     (\<forall>a\<in>set (outcome_ambiguities r). amb_before a \<noteq> [] \<and> set (amb_before a) \<subseteq> set bs \<and>
        amb_after a \<noteq> [] \<and> set (amb_after a) \<subseteq> set as)"

lemma candidate_same_class:
  assumes ok: "groups_ok before after phase bs as cg" and i: "before_group cg i = Some g"
    and c: "candidate_pair before after phase cg i j"
  shows "same_class before after i j" "compatible before after phase i j"
proof -
  have "after_group cg j = Some g" using c i by (simp add: candidate_pair_def)
  then have "g < length (cg_groups cg)" "i \<in> set (cand_before (cg_groups cg ! g))" "j \<in> set (cand_after (cg_groups cg ! g))"
    using ok i unfolding groups_ok_def by blast+
  moreover from this have "cg_groups cg ! g \<in> set (cg_groups cg)" by simp
  ultimately show "same_class before after i j" using ok unfolding groups_ok_def by blast
  show "compatible before after phase i j" using c by (simp add: candidate_pair_def)
qed

lemma component_result_within:
  assumes groups: "groups_ok before after phase bs as cg" and comps: "components_ok cg bs as cs" and c: "c \<in> set cs"
    and bs: "\<forall>i\<in>set bs. i < length (ps_nodes before)" "distinct bs"
    and as: "\<forall>j\<in>set as. j < length (ps_nodes after)" "distinct as"
    and r: "component_outcome before after phase cg c r"
  shows "result_within before after phase bs as r"
proof -
  note sides = region_sides [OF groups comps c bs as]
  let ?bs = "comp_before c" and ?as = "comp_after c"
  let ?cands = "matrix_of (candidate_pair before after phase cg) ?bs ?as"
  show ?thesis
  proof (cases "bounded c")
    case False
    then have "forced r = []" "\<exists>a. outcome_ambiguities r = [a] \<and> amb_before a = ?bs \<and> amb_after a = ?as"
      using r by (auto simp: component_outcome_def oversized_result_def)
    then show ?thesis using sides(3,4,6,7) by (auto simp: result_within_def)
  next
    case True
    then have res: "component_result cg ?bs ?as ?cands r" using r by (simp add: component_outcome_def)
    have cell: "fst p < length ?bs \<and> snd p < length ?as \<and> candidate_pair before after phase cg (?bs ! fst p) (?as ! snd p)"
      if "p \<in> set (optimal_cells ?cands (length ?bs) (length ?as))" for p
    proof -
      have "optimal_pair ?cands (length ?bs) (length ?as) p" using that optimal_cells_facts(2) by simp
      then obtain ps where "maximum (entries ?cands) (length ?bs) (length ?as) ps" "p \<in> set ps"
        by (auto simp: optimal_pair_def)
      then show ?thesis
        using maximum_entry [of "entries ?cands" _ _ ps "fst p" "snd p"] by (simp add: matrix_of_facts(3))
    qed
    have F: "set (forced r) \<subseteq> pair_ids ?bs ?as ` set (optimal_cells ?cands (length ?bs) (length ?as))"
      using res by (auto simp: component_result_def Let_def)
    have "i \<in> set bs \<and> j \<in> set as \<and> same_class before after i j \<and> compatible before after phase i j"
      if ij: "(i, j) \<in> set (forced r)" for i j
    proof -
      obtain p where p: "p \<in> set (optimal_cells ?cands (length ?bs) (length ?as))" "i = ?bs ! fst p" "j = ?as ! snd p"
        using F ij by (auto simp: pair_ids_def)
      then have i: "i \<in> set ?bs" and j: "j \<in> set ?as" and c: "candidate_pair before after phase cg i j"
        using cell [OF p(1)] by auto
      obtain g where "before_group cg i = Some g" using sides(5) [OF i] by blast
      from candidate_same_class [OF groups this c] show ?thesis using i j sides(6,7) by blast
    qed
    moreover have "amb_before a \<noteq> [] \<and> set (amb_before a) \<subseteq> set bs \<and> amb_after a \<noteq> [] \<and> set (amb_after a) \<subseteq> set as"
      if a: "a \<in> set (outcome_ambiguities r)" for a
    proof -
      have amb: "ambiguity_of cg ?bs ?as ?cands a" and unsettled: "\<not> list_all (certain cg ?bs ?as ?cands) (optimal_cells ?cands (length ?bs) (length ?as))"
        using res a by (auto simp: component_result_def Let_def split: if_splits)
      obtain s where s: "scanned cg ?bs ?as ?cands (List.product [0..<length ?bs] [0..<length ?as]) s"
        "amb_before a = filter (\<lambda>i. i \<in> ambiguous_before s) ?bs" "amb_after a = filter (\<lambda>j. j \<in> ambiguous_after s) ?as"
        using amb unfolding ambiguity_of_def Let_def by blast
      obtain p where p: "p \<in> set (optimal_cells ?cands (length ?bs) (length ?as))" "\<not> certain cg ?bs ?as ?cands p"
        using unsettled by (auto simp: list_all_iff)
      then have "touched_before cg ?bs p \<subseteq> ambiguous_before s" "touched_after cg ?bs ?as p \<subseteq> ambiguous_after s"
        using s(1) unfolding scanned_def Let_def optimal_cells_def by auto
      moreover have mem: "?bs ! fst p \<in> touched_before cg ?bs p" "?as ! snd p \<in> touched_after cg ?bs ?as p"
      proof -
        have "?bs ! fst p \<in> set ?bs" using cell [OF p(1)] by simp
        then obtain g where g: "before_group cg (?bs ! fst p) = Some g" using sides(5) by blast
        then have "after_group cg (?as ! snd p) = Some g" using cell [OF p(1)] by (simp add: candidate_pair_def)
        then have "?bs ! fst p \<in> set (cand_before (cg_groups cg ! g))" "?as ! snd p \<in> set (cand_after (cg_groups cg ! g))"
          using groups g unfolding groups_ok_def by blast+
        then show "?bs ! fst p \<in> touched_before cg ?bs p" "?as ! snd p \<in> touched_after cg ?bs ?as p"
          using g by (simp_all add: touched_before_def touched_after_def group_at_before_def)
      qed
      ultimately have "?bs ! fst p \<in> set (amb_before a)" "?as ! snd p \<in> set (amb_after a)"
        unfolding s(2,3) using cell [OF p(1)] by auto
      then have "amb_before a \<noteq> []" "amb_after a \<noteq> []" by force+
      moreover have "set (amb_before a) \<subseteq> set bs" "set (amb_after a) \<subseteq> set as"
        unfolding s(2,3) using sides(6,7) by auto
      ultimately show ?thesis by blast
    qed
    ultimately show ?thesis unfolding result_within_def by blast
  qed
qed

lemma region_result_within:
  assumes bs: "\<forall>i\<in>set bs. i < length (ps_nodes before)" "distinct bs"
    and as: "\<forall>j\<in>set as. j < length (ps_nodes after)" "distinct as"
    and r: "region_result before after phase bs as r"
  shows "result_within before after phase bs as r"
proof -
  obtain cg cs rs where g: "groups_ok before after phase bs as cg" "components_ok cg bs as cs"
    and all: "list_all2 (component_outcome before after phase cg) cs rs"
    and r: "forced r = sort (concat (map forced rs))" "outcome_ambiguities r = concat (map outcome_ambiguities rs)"
    using r unfolding region_result_def by blast
  have within: "result_within before after phase bs as q" if q: "q \<in> set rs" for q
  proof -
    obtain k where "k < length rs" "q = rs ! k" using q by (metis in_set_conv_nth)
    then have "k < length cs" "component_outcome before after phase cg (cs ! k) q"
      using all by (auto simp: list_all2_conv_all_nth)
    then show ?thesis using component_result_within [OF g _ bs as, of "cs ! k" q] by simp
  qed
  show ?thesis
    unfolding result_within_def r set_sort set_concat set_map
  proof (intro conjI ballI)
    fix p assume "p \<in> \<Union> (set ` forced ` set rs)"
    then obtain q where "q \<in> set rs" "p \<in> set (forced q)" by blast
    then show "case p of (i, j) \<Rightarrow> i \<in> set bs \<and> j \<in> set as \<and> same_class before after i j \<and> compatible before after phase i j"
      using within [of q] unfolding result_within_def by blast
  next
    fix a assume "a \<in> \<Union> (set ` outcome_ambiguities ` set rs)"
    then obtain q where "q \<in> set rs" "a \<in> set (outcome_ambiguities q)" by blast
    then show "amb_before a \<noteq> []" "set (amb_before a) \<subseteq> set bs" "amb_after a \<noteq> []" "set (amb_after a) \<subseteq> set as"
      using within [of q] unfolding result_within_def by blast+
  qed
qed

section \<open>All regions of the report\<close>

definition core_failures :: "failure \<Rightarrow> bool" where
  "core_failures e \<longleftrightarrow> phase_failure e \<or> e = CoreFailure CorePairMissing \<or> e = CoreFailure CorePairInvalid \<or>
     e = CoreFailure CoreRelationNotOptimal"

lemma core_failures_work [simp]: "work_failure e \<Longrightarrow> core_failures e" "phase_failure e \<Longrightarrow> core_failures e"
  by (simp_all add: core_failures_def)

lemma core_failures_safe: "core_failures e \<Longrightarrow> safe e"
  by (auto simp: core_failures_def dest: phase_failure_safe)

definition core_certified :: "verified_mappings \<Rightarrow> nat \<times> nat \<Rightarrow> bool" where
  "core_certified m p \<longleftrightarrow> (\<exists>r. by_before m ! fst p = Some r \<and> after_id r = snd p \<and> stable_core_relation r)"

definition report_group ::
  "(bytes \<Rightarrow> string) \<Rightarrow> parsed_syntax \<Rightarrow> parsed_syntax \<Rightarrow> nat \<times> nat \<Rightarrow> alignment_ambiguity \<Rightarrow> ambiguity_group" where
  "report_group to_hex before after parents a =
     \<lparr>parent_before = fst parents, parent_after = snd parents,
      group_before = map (\<lambda>i. as_ref to_hex (ps_nodes before ! i)) (amb_before a),
      group_after = map (\<lambda>j. as_ref to_hex (ps_nodes after ! j)) (amb_after a),
      constraint = amb_constraint a, reason = amb_reason a\<rparr>"

lemma valid_check_forced:
  assumes "fst p < length (by_before m)"
  shows "valid (check_forced m s p) core_failures
    (\<lambda>s'. s' = s\<lparr>expected_pairs := insert p (expected_pairs s)\<rparr> \<and> core_certified m p)"
proof (cases "by_before m ! fst p")
  case None
  then show ?thesis using assms by (simp add: check_forced_def core_failures_def valid_fail)
next
  case (Some r)
  then show ?thesis
    using assms
    by (auto simp: check_forced_def core_failures_def core_certified_def stable_core_relation_def has_evidence_iff
        intro!: valid_ensure_bind valid_return)
qed

lemma valid_node_refs:
  assumes "\<forall>i\<in>set ids. i < length (ps_nodes s)"
  shows "valid (node_refs to_hex s ids) E (\<lambda>rs. rs = map (\<lambda>i. as_ref to_hex (ps_nodes s ! i)) ids)"
proof -
  have "valid (node_refs to_hex s ids) E (list_all2 (\<lambda>i r. r = as_ref to_hex (ps_nodes s ! i)) ids)"
    unfolding node_refs_def by (rule valid_wmap) (use assms in \<open>simp add: valid_return\<close>)
  then show ?thesis by (rule valid_conseq) (auto dest: list_all2_map)
qed

lemma valid_push_ambiguity:
  assumes "set (amb_before a) \<subseteq> {..<length (ps_nodes before)}" "set (amb_after a) \<subseteq> {..<length (ps_nodes after)}"
  shows "valid (push_ambiguity to_hex before after parents s a) core_failures
    (\<lambda>s'. s' = s\<lparr>derived_ambiguities := derived_ambiguities s @ [report_group to_hex before after parents a]\<rparr>)"
  unfolding push_ambiguity_def
  by (rule valid_charge_bind, simp, rule valid_charge_bind, simp, rule valid_bind [OF valid_node_refs],
      use assms(1) in blast, rule valid_bind [OF valid_node_refs], use assms(2) in blast, rule valid_return)
    (simp add: report_group_def)

text \<open>One region: its result, and the effect on the scan.\<close>

lemma valid_core_region:
  assumes wf: "wf_syntax before" "wf_syntax after" and m: "verified to_hex before after rs m"
    and ok: "phase_ok before after m phase"
    and bs: "\<forall>i\<in>set (fst reg). i < length (ps_nodes before)" "distinct (fst reg)"
    and as: "\<forall>j\<in>set (snd reg). j < length (ps_nodes after)" "distinct (snd reg)"
  shows "valid (core_region to_hex before after m phase parents s reg) core_failures
    (\<lambda>s'. \<exists>r. region_result before after phase (fst reg) (snd reg) r \<and> (\<forall>p\<in>set (forced r). core_certified m p) \<and>
       expected_pairs s' = expected_pairs s \<union> set (forced r) \<and>
       derived_ambiguities s' = derived_ambiguities s @ map (report_group to_hex before after parents) (outcome_ambiguities r))"
  unfolding core_region_def
proof (rule valid_bind [OF valid_conseq [OF valid_independent_stable_core [OF wf ok bs as]]], assumption, simp)
  fix r assume r: "region_result before after phase (fst reg) (snd reg) r"
  note within = region_result_within [OF bs as r]
  have first: "valid (wfold (check_forced m) s (forced r)) core_failures
      (\<lambda>s'. (\<forall>p\<in>set (forced r). core_certified m p) \<and> s' = s\<lparr>expected_pairs := expected_pairs s \<union> set (forced r)\<rparr>)"
  proof (rule valid_fold_prefix [where I = "\<lambda>ys s'. (\<forall>p\<in>set ys. core_certified m p) \<and>
      s' = s\<lparr>expected_pairs := expected_pairs s \<union> set ys\<rparr>"])
    fix ys p zs t
    assume split: "forced r = ys @ p # zs"
      and t: "(\<forall>p\<in>set ys. core_certified m p) \<and> t = s\<lparr>expected_pairs := expected_pairs s \<union> set ys\<rparr>"
    have "p \<in> set (forced r)" unfolding split by simp
    then have "fst p \<in> set (fst reg)" using within unfolding result_within_def by (cases p) auto
    then have "fst p < length (by_before m)" using bs(1) verified_facts(3) [OF m] by simp
    from valid_check_forced [OF this]
    show "valid (check_forced m t p) core_failures
      (\<lambda>s'. (\<forall>p\<in>set (ys @ [p]). core_certified m p) \<and> s' = s\<lparr>expected_pairs := expected_pairs s \<union> set (ys @ [p])\<rparr>)"
      by (rule valid_conseq) (use t in auto)
  qed simp
  show "valid (wbind (wfold (check_forced m) s (forced r)) (\<lambda>s.
       wfold (push_ambiguity to_hex before after parents) s (outcome_ambiguities r))) core_failures
    (\<lambda>s'. \<exists>r. region_result before after phase (fst reg) (snd reg) r \<and> (\<forall>p\<in>set (forced r). core_certified m p) \<and>
       expected_pairs s' = expected_pairs s \<union> set (forced r) \<and>
       derived_ambiguities s' = derived_ambiguities s @ map (report_group to_hex before after parents) (outcome_ambiguities r))"
  proof (rule valid_bind [OF first])
    fix t assume t: "(\<forall>p\<in>set (forced r). core_certified m p) \<and> t = s\<lparr>expected_pairs := expected_pairs s \<union> set (forced r)\<rparr>"
    have "valid (wfold (push_ambiguity to_hex before after parents) t (outcome_ambiguities r)) core_failures
      (\<lambda>s'. s' = t\<lparr>derived_ambiguities := derived_ambiguities t @ map (report_group to_hex before after parents) (outcome_ambiguities r)\<rparr>)"
    proof (rule valid_fold_prefix [where I = "\<lambda>ys s'. s' = t\<lparr>derived_ambiguities := derived_ambiguities t @
        map (report_group to_hex before after parents) ys\<rparr>"])
      fix ys a zs u
      assume split: "outcome_ambiguities r = ys @ a # zs"
        and u: "u = t\<lparr>derived_ambiguities := derived_ambiguities t @ map (report_group to_hex before after parents) ys\<rparr>"
      have "a \<in> set (outcome_ambiguities r)" unfolding split by simp
      then have "set (amb_before a) \<subseteq> {..<length (ps_nodes before)}" "set (amb_after a) \<subseteq> {..<length (ps_nodes after)}"
        using within bs(1) as(1) unfolding result_within_def by blast+
      from valid_push_ambiguity [OF this]
      show "valid (push_ambiguity to_hex before after parents u a) core_failures
        (\<lambda>s'. s' = t\<lparr>derived_ambiguities := derived_ambiguities t @ map (report_group to_hex before after parents) (ys @ [a])\<rparr>)"
        by (rule valid_conseq) (simp_all add: u)
    qed simp
    then show "valid (wfold (push_ambiguity to_hex before after parents) t (outcome_ambiguities r)) core_failures
      (\<lambda>s'. \<exists>r. region_result before after phase (fst reg) (snd reg) r \<and> (\<forall>p\<in>set (forced r). core_certified m p) \<and>
         expected_pairs s' = expected_pairs s \<union> set (forced r) \<and>
         derived_ambiguities s' = derived_ambiguities s @ map (report_group to_hex before after parents) (outcome_ambiguities r))"
      by (rule valid_conseq) (use r t in \<open>auto intro!: exI [of _ r]\<close>)
  qed
qed

text \<open>The regions of one pair of parents with their results.\<close>

type_synonym region_run = "(region \<times> alignment_outcome) list"

definition parent_run ::
  "parsed_syntax \<Rightarrow> parsed_syntax \<Rightarrow> verified_mappings \<Rightarrow> phase_mappings \<Rightarrow> nat \<times> nat \<Rightarrow> region_run \<Rightarrow> bool" where
  "parent_run before after m phase parents run \<longleftrightarrow>
     regions_of before after m (fst parents) (snd parents) (map fst run) \<and>
     (\<forall>(reg, r)\<in>set run. region_result before after phase (fst reg) (snd reg) r \<and> (\<forall>p\<in>set (forced r). core_certified m p))"

definition run_forced :: "region_run list \<Rightarrow> (nat \<times> nat) set" where
  "run_forced runs = (\<Union>run\<in>set runs. \<Union>(reg, r)\<in>set run. set (forced r))"

definition run_groups ::
  "(bytes \<Rightarrow> string) \<Rightarrow> parsed_syntax \<Rightarrow> parsed_syntax \<Rightarrow> (nat \<times> nat) list \<Rightarrow> region_run list \<Rightarrow> ambiguity_group list" where
  "run_groups to_hex before after ps runs =
     concat (map (\<lambda>(parents, run). concat (map (\<lambda>(reg, r). map (report_group to_hex before after parents) (outcome_ambiguities r)) run))
       (zip ps runs))"

definition stable_core_ok ::
  "(bytes \<Rightarrow> string) \<Rightarrow> parsed_syntax \<Rightarrow> parsed_syntax \<Rightarrow> relation list \<Rightarrow> verified_mappings \<Rightarrow> ambiguity_group list \<Rightarrow> bool" where
  "stable_core_ok to_hex before after rs m gs \<longleftrightarrow>
     (\<exists>phase runs. phase_ok before after m phase \<and> list_all2 (parent_run before after m phase) (mapped_pairs m) runs \<and>
        (\<forall>r\<in>set rs. rel_evidence r = STABLE_CORE_EVIDENCE \<longrightarrow> (before_id r, after_id r) \<in> run_forced runs) \<and>
        gs = sort_key ambiguity_key (run_groups to_hex before after (mapped_pairs m) runs))"

lemma regions_of_range:
  assumes wf: "wf_syntax before" "wf_syntax after" and p: "p < length (ps_nodes before)" and q: "q < length (ps_nodes after)"
    and regs: "regions_of before after m p q regions" and reg: "reg \<in> set regions"
  shows "\<forall>i\<in>set (fst reg). i < length (ps_nodes before)" "distinct (fst reg)"
    "\<forall>j\<in>set (snd reg). j < length (ps_nodes after)" "distinct (snd reg)"
proof -
  have "region_within m (node_children (ps_nodes before ! p)) (node_children (ps_nodes after ! q)) reg"
    using regs reg unfolding regions_of_def Let_def by blast
  then have r: "sorted_wrt (<) (fst reg)" "set (fst reg) \<subseteq> set (node_children (ps_nodes before ! p))"
    "sorted_wrt (<) (snd reg)" "set (snd reg) \<subseteq> set (node_children (ps_nodes after ! q))"
    unfolding region_within_def by auto
  show "\<forall>i\<in>set (fst reg). i < length (ps_nodes before)" using r(2) wf_child(2) [OF wf(1) p] by blast
  show "\<forall>j\<in>set (snd reg). j < length (ps_nodes after)" using r(4) wf_child(2) [OF wf(2) q] by blast
  show "distinct (fst reg)" "distinct (snd reg)" using r(1,3) by (simp_all add: strict_sorted_iff)
qed

lemma valid_parent_regions:
  assumes wf: "wf_syntax before" "wf_syntax after" and m: "verified to_hex before after rs m"
    and ok: "phase_ok before after m phase" and parents: "parents \<in> set (mapped_pairs m)"
  shows "valid (wbind (ordered_alignment_regions before after m (fst parents) (snd parents)) (\<lambda>regions.
                wfold (core_region to_hex before after m phase parents) s regions)) core_failures
    (\<lambda>s'. \<exists>run. parent_run before after m phase parents run \<and>
       expected_pairs s' = expected_pairs s \<union> run_forced [run] \<and>
       derived_ambiguities s' = derived_ambiguities s @ run_groups to_hex before after [parents] [run])"
proof -
  obtain p q where pq: "parents = (p, q)" by (rule prod.exhaust)
  then have p: "p < length (ps_nodes before)" and q: "q < length (ps_nodes after)"
    using parents verified_pairs [OF m, of p q] verified_relation_mapped(1,2) [OF m] by auto
  show ?thesis
    unfolding pq fst_conv snd_conv
  proof (rule valid_bind [OF valid_conseq [OF valid_ordered_alignment_regions [OF wf m p q]]], assumption, simp)
    fix regions assume regs: "regions_of before after m p q regions"
    define I where "I ys s' \<longleftrightarrow> (\<exists>run. map fst run = ys \<and>
       (\<forall>(reg, r)\<in>set run. region_result before after phase (fst reg) (snd reg) r \<and> (\<forall>p\<in>set (forced r). core_certified m p)) \<and>
       expected_pairs s' = expected_pairs s \<union> run_forced [run] \<and>
       derived_ambiguities s' = derived_ambiguities s @ run_groups to_hex before after [(p, q)] [run])"
      for ys and s' :: core_scan
    have "valid (wfold (core_region to_hex before after m phase (p, q)) s regions) core_failures (I regions)"
    proof (rule valid_fold_prefix)
      show "I [] s" by (simp add: I_def run_forced_def run_groups_def)
    next
      fix ys reg zs t assume split: "regions = ys @ reg # zs" and t: "I ys t"
      have "reg \<in> set regions" unfolding split by simp
      note range = regions_of_range [OF wf p q regs this]
      show "valid (core_region to_hex before after m phase (p, q) t reg) core_failures (I (ys @ [reg]))"
      proof (rule valid_conseq [OF valid_core_region [OF wf m ok range]])
        fix u :: core_scan
        assume "\<exists>r. region_result before after phase (fst reg) (snd reg) r \<and> (\<forall>p\<in>set (forced r). core_certified m p) \<and>
          expected_pairs u = expected_pairs t \<union> set (forced r) \<and>
          derived_ambiguities u = derived_ambiguities t @ map (report_group to_hex before after (p, q)) (outcome_ambiguities r)"
        then obtain r where r: "region_result before after phase (fst reg) (snd reg) r" "\<forall>p\<in>set (forced r). core_certified m p"
          "expected_pairs u = expected_pairs t \<union> set (forced r)"
          "derived_ambiguities u = derived_ambiguities t @ map (report_group to_hex before after (p, q)) (outcome_ambiguities r)" by blast
        obtain run where run: "map fst run = ys"
          "\<forall>(reg, r)\<in>set run. region_result before after phase (fst reg) (snd reg) r \<and> (\<forall>p\<in>set (forced r). core_certified m p)"
          "expected_pairs t = expected_pairs s \<union> run_forced [run]"
          "derived_ambiguities t = derived_ambiguities s @ run_groups to_hex before after [(p, q)] [run]"
          using t unfolding I_def by blast
        show "I (ys @ [reg]) u"
          unfolding I_def
          by (rule exI [of _ "run @ [(reg, r)]"]) (use run r in \<open>auto simp: run_forced_def run_groups_def\<close>)
      qed simp
    qed
    then show "valid (wfold (core_region to_hex before after m phase (p, q)) s regions) core_failures
      (\<lambda>s'. \<exists>run. parent_run before after m phase (p, q) run \<and>
       expected_pairs s' = expected_pairs s \<union> run_forced [run] \<and>
       derived_ambiguities s' = derived_ambiguities s @ run_groups to_hex before after [(p, q)] [run])"
      by (rule valid_conseq) (use regs in \<open>auto simp: I_def parent_run_def\<close>)
  qed
qed

lemma valid_verify_stable_core:
  assumes wf: "wf_syntax before" "wf_syntax after" and m: "verified to_hex before after rs m"
  shows "valid (verify_stable_core to_hex before after m) core_failures (stable_core_ok to_hex before after rs m)"
  unfolding verify_stable_core_def
proof (rule valid_bind [OF valid_conseq [OF valid_global_phase_mappings [OF wf m]]], assumption, simp,
    rule valid_charge_bind, simp)
  fix phase assume ok: "phase_ok before after m phase"
  define I where "I ys s \<longleftrightarrow> (\<exists>runs. list_all2 (parent_run before after m phase) ys runs \<and>
     expected_pairs s = run_forced runs \<and> derived_ambiguities s = run_groups to_hex before after ys runs)"
    for ys and s :: core_scan
  have "valid (wfold (\<lambda>s parents.
              wbind (ordered_alignment_regions before after m (fst parents) (snd parents)) (\<lambda>regions.
                wfold (core_region to_hex before after m phase parents) s regions))
              \<lparr>expected_pairs = {}, derived_ambiguities = []\<rparr> (mapped_pairs m)) core_failures (I (mapped_pairs m))"
  proof (rule valid_fold_prefix)
    show "I [] \<lparr>expected_pairs = {}, derived_ambiguities = []\<rparr>" by (simp add: I_def run_forced_def run_groups_def)
  next
    fix ys parents zs s assume split: "mapped_pairs m = ys @ parents # zs" and s: "I ys s"
    have mem: "parents \<in> set (mapped_pairs m)" unfolding split by simp
    obtain runs where runs: "list_all2 (parent_run before after m phase) ys runs"
      "expected_pairs s = run_forced runs" "derived_ambiguities s = run_groups to_hex before after ys runs"
      using s unfolding I_def by blast
    show "valid (wbind (ordered_alignment_regions before after m (fst parents) (snd parents)) (\<lambda>regions.
                wfold (core_region to_hex before after m phase parents) s regions)) core_failures (I (ys @ [parents]))"
    proof (rule valid_conseq [OF valid_parent_regions [OF wf m ok mem]])
      fix t :: core_scan
      assume "\<exists>run. parent_run before after m phase parents run \<and>
       expected_pairs t = expected_pairs s \<union> run_forced [run] \<and>
       derived_ambiguities t = derived_ambiguities s @ run_groups to_hex before after [parents] [run]"
      then obtain run where run: "parent_run before after m phase parents run"
        "expected_pairs t = expected_pairs s \<union> run_forced [run]"
        "derived_ambiguities t = derived_ambiguities s @ run_groups to_hex before after [parents] [run]" by blast
      have "length ys = length runs" using runs(1) by (rule list_all2_lengthD)
      then show "I (ys @ [parents]) t"
        unfolding I_def
        by (intro exI [of _ "runs @ [run]"]) (use runs run in \<open>auto simp: run_forced_def run_groups_def list_all2_appendI\<close>)
    qed simp
  qed
  then show "valid (wbind (wfold (\<lambda>s parents.
              wbind (ordered_alignment_regions before after m (fst parents) (snd parents)) (\<lambda>regions.
                wfold (core_region to_hex before after m phase parents) s regions))
              \<lparr>expected_pairs = {}, derived_ambiguities = []\<rparr> (mapped_pairs m)) (\<lambda>s.
     wbind (charge (length (by_before m))) (\<lambda>_.
     wbind (weach (\<lambda>r. wensure ((before_id r, after_id r) \<in> expected_pairs s) (CoreFailure CoreRelationNotOptimal))
              (filter (\<lambda>r. has_evidence r STABLE_CORE_EVIDENCE) (relation_records m))) (\<lambda>_.
     wbind (charge_n_log_n (length (derived_ambiguities s))) (\<lambda>_.
       wreturn (sort_key ambiguity_key (derived_ambiguities s))))))) core_failures (stable_core_ok to_hex before after rs m)"
  proof (rule valid_bind, intro valid_charge_bind, simp)
    fix s assume "I (mapped_pairs m) s"
    then obtain runs where runs: "list_all2 (parent_run before after m phase) (mapped_pairs m) runs"
      "expected_pairs s = run_forced runs" "derived_ambiguities s = run_groups to_hex before after (mapped_pairs m) runs"
      unfolding I_def by blast
    have each: "valid (weach (\<lambda>r. wensure ((before_id r, after_id r) \<in> expected_pairs s) (CoreFailure CoreRelationNotOptimal))
              (filter (\<lambda>r. has_evidence r STABLE_CORE_EVIDENCE) (relation_records m))) core_failures
      (\<lambda>_. \<forall>r\<in>set (filter (\<lambda>r. has_evidence r STABLE_CORE_EVIDENCE) (relation_records m)). (before_id r, after_id r) \<in> expected_pairs s)"
      by (rule valid_each) (simp add: core_failures_def valid_ensure)
    show "valid (wbind (weach (\<lambda>r. wensure ((before_id r, after_id r) \<in> expected_pairs s) (CoreFailure CoreRelationNotOptimal))
              (filter (\<lambda>r. has_evidence r STABLE_CORE_EVIDENCE) (relation_records m))) (\<lambda>_.
     wbind (charge_n_log_n (length (derived_ambiguities s))) (\<lambda>_.
       wreturn (sort_key ambiguity_key (derived_ambiguities s))))) core_failures (stable_core_ok to_hex before after rs m)"
    proof (rule valid_bind [OF each], rule valid_charge_n_log_n_bind, simp, rule valid_return)
      assume all: "\<forall>r\<in>set (filter (\<lambda>r. has_evidence r STABLE_CORE_EVIDENCE) (relation_records m)). (before_id r, after_id r) \<in> expected_pairs s"
      have "(before_id r, after_id r) \<in> run_forced runs" if "r \<in> set rs" "rel_evidence r = STABLE_CORE_EVIDENCE" for r
        using all that verified_records [OF m] runs(2) by (simp add: has_evidence_iff)
      then show "stable_core_ok to_hex before after rs m (sort_key ambiguity_key (derived_ambiguities s))"
        unfolding stable_core_ok_def runs(3) using ok runs(1) by blast
    qed
  qed
qed

section \<open>Properties\<close>

text \<open>C12: a bounded component is solved exactly. \<open>verify_bounded_component\<close> exhausts the budget or returns as forced, in order,
  exactly the pairs that every maximum ordered matching of the candidate matrix contains and whose candidate group has
  one endpoint on each side. A pair of a larger group is never forced, not even when every maximum matching contains
  it. If other pairs of some maximum matching remain, it returns one ambiguity over them: an abstention when one of
  them is of a larger group, and otherwise the exact form, which lists them and counts the matches still required,
  strictly fewer than the pairs. The internal error about a single resolution cannot occur.\<close>

theorem bounded_component_exact:
  assumes "wf_syntax before" "wf_syntax after" "phase_ok before after m phase"
    and "side_ok before (before_group cg) (comp_before c)" "side_ok after (after_group cg) (comp_after c)"
    and "comp_before c \<noteq> []" "\<forall>i\<in>set (comp_before c). \<exists>g<length (cg_groups cg). before_group cg i = Some g"
  shows "valid (verify_bounded_component before after phase cg c) work_failure
    (component_result cg (comp_before c) (comp_after c)
       (matrix_of (candidate_pair before after phase cg) (comp_before c) (comp_after c)))"
  using assms by (intro valid_verify_bounded_component [OF assms(1-6)]) auto

text \<open>C6: the stable core is derived and compared pair by pair. If \<open>verify_stable_core\<close> accepts, every forced pair of every
  region below every related pair of parents has a relation with stable-core evidence, every relation with that
  evidence is such a forced pair, and the returned ambiguities are the sorted ambiguities of all regions. It never
  panics, and it fails only for the budget, conflicting or incomplete exact certificates, or a mismatch of that
  comparison.\<close>

theorem stable_core_exact:
  assumes "wf_syntax before" "wf_syntax after" "verified to_hex before after rs m"
  shows "valid (verify_stable_core to_hex before after m) core_failures (stable_core_ok to_hex before after rs m)"
  using assms by (rule valid_verify_stable_core)

end
