(* ===== verification/Changes.thy ===== *)
theory Changes
  imports Regions
begin

text \<open>
  The derived events of a report (\<open>verifier.rs\<close>): \<open>derive_changes\<close> computes the structural changes from the
  verified mappings and ambiguities, \<open>verify_ambiguity_node_references\<close> and \<open>verify_change_node_references\<close>
  check the node references of the report. Detail strings are written out.
\<close>

section \<open>Change order\<close>

fun change_rank :: "change_kind \<Rightarrow> nat" where
  "change_rank Insert = 0"
| "change_rank Delete = 1"
| "change_rank EquivalentRelocation = 2"
| "change_rank ChildOrderChanged = 3"
| "change_rank ModelForcedUpdate = 4"
| "change_rank SuggestedUpdate = 5"
| "change_rank FormattingOnly = 6"

definition change_order :: "structural_change \<Rightarrow> nat \<times> nat \<times> nat" where
  "change_order c =
     (case change_before c of None \<Rightarrow> usize_max | Some n \<Rightarrow> ref_id n,
      case change_after c of None \<Rightarrow> usize_max | Some n \<Rightarrow> ref_id n,
      change_rank (change_kind c))"

section \<open>Details\<close>

definition DETAIL_FORMATTING :: string where
  "DETAIL_FORMATTING = ''syntax is identical after discarding trivia; bytes differ''"

definition DETAIL_ORDER :: string where
  "DETAIL_ORDER = ''the relative order of mapped direct children changed; no historical move identity is asserted''"

definition DETAIL_RELOCATION :: string where
  "DETAIL_RELOCATION = ''the before parent's mapped counterpart is not the exact subtree's actual after parent''"

definition DETAIL_UPDATE :: string where
  "DETAIL_UPDATE = ''the pair occurs in every optimal ordered alignment and has equal shape but different syntax; no historical identity is asserted''"

definition DETAIL_SUGGESTED :: string where
  "DETAIL_SUGGESTED = ''local shape match; reported as a suggestion, not an identity fact''"

definition DETAIL_DELETE :: string where
  "DETAIL_DELETE = ''maximal unmatched subtree in the before snapshot''"

definition DETAIL_INSERT :: string where
  "DETAIL_INSERT = ''maximal unmatched subtree in the after snapshot''"

section \<open>The derivation\<close>

definition pair_change ::
  "(bytes \<Rightarrow> string) \<Rightarrow> parsed_syntax \<Rightarrow> parsed_syntax \<Rightarrow> change_kind \<Rightarrow> string \<Rightarrow> nat \<Rightarrow> nat \<Rightarrow> structural_change result" where
  "pair_change to_hex before after kind text i j =
     rbind (index_at (ps_nodes before) i) (\<lambda>b. rbind (index_at (ps_nodes after) j) (\<lambda>a.
       Inr \<lparr>change_kind = kind, change_before = Some (as_ref to_hex b), change_after = Some (as_ref to_hex a), detail = text\<rparr>))"

text \<open>\<open>filter_map\<close> with a closure that may panic.\<close>

primrec rmap_filter :: "('a \<Rightarrow> 'b option result) \<Rightarrow> 'a list \<Rightarrow> 'b list result" where
  "rmap_filter f [] = Inr []"
| "rmap_filter f (x # xs) =
     rbind (f x) (\<lambda>y. rbind (rmap_filter f xs) (\<lambda>ys. Inr (case y of None \<Rightarrow> ys | Some z \<Rightarrow> z # ys)))"

definition child_positions ::
  "parsed_syntax \<Rightarrow> verified_mappings \<Rightarrow> nat \<Rightarrow> (nat \<rightharpoonup> nat) \<Rightarrow> nat list \<Rightarrow> nat list result" where
  "child_positions after m after_parent after_positions children =
     rmap_filter (\<lambda>c. rbind (index_at (before_to_after m) c) (\<lambda>mapped.
       case mapped of
         None \<Rightarrow> Inr None
       | Some d \<Rightarrow> rbind (index_at (ps_nodes after) d) (\<lambda>n.
           if node_parent n \<noteq> Some after_parent then Inr None else Inr (after_positions d)))) children"

definition descends :: "nat list \<Rightarrow> bool" where
  "descends ps \<longleftrightarrow> list_ex (\<lambda>(a, b). a > b) (zip ps (tl ps))"

definition order_change ::
  "(bytes \<Rightarrow> string) \<Rightarrow> parsed_syntax \<Rightarrow> parsed_syntax \<Rightarrow> verified_mappings \<Rightarrow> structural_change list \<Rightarrow> nat \<times> nat \<Rightarrow>
   structural_change list work" where
  "order_change to_hex before after m cs parents =
     wbind (wlift (index_at (ps_nodes after) (snd parents))) (\<lambda>ap.
     wbind (charge (length (node_children ap))) (\<lambda>_.
     let after_positions = positions (node_children ap) in
     wbind (wlift (index_at (ps_nodes before) (fst parents))) (\<lambda>bp.
     wbind (charge (length (node_children bp))) (\<lambda>_.
     wbind (wlift (child_positions after m (snd parents) after_positions (node_children bp))) (\<lambda>ps.
     if descends ps then
       wbind (wlift (pair_change to_hex before after ChildOrderChanged DETAIL_ORDER (fst parents) (snd parents))) (\<lambda>c.
         wreturn (cs @ [c]))
     else wreturn cs)))))"

definition relocated :: "parsed_syntax \<Rightarrow> parsed_syntax \<Rightarrow> verified_mappings \<Rightarrow> relation \<Rightarrow> nat option \<Rightarrow> nat option \<Rightarrow> bool result" where
  "relocated before after m r before_parent after_parent =
     (if rel_correspondence r = ModelForced \<and> (rel_predicate r = ByteEqual \<or> rel_predicate r = SyntaxEqual)
      then (case before_parent of
              None \<Rightarrow> Inr False
            | Some p \<Rightarrow> if after_parent = None then Inr False
                        else rbind (index_at (before_to_after m) p) (\<lambda>mapped. Inr (mapped \<noteq> None \<and> mapped \<noteq> after_parent)))
      else Inr False)"

definition parent_shape_equal :: "verified_mappings \<Rightarrow> nat option \<Rightarrow> bool result" where
  "parent_shape_equal m before_parent =
     (case before_parent of
        None \<Rightarrow> Inr False
      | Some p \<Rightarrow> rbind (index_at (by_before m) p) (\<lambda>r. Inr (case r of None \<Rightarrow> False | Some r \<Rightarrow> rel_predicate r = ShapeEqual)))"

definition relation_change ::
  "(bytes \<Rightarrow> string) \<Rightarrow> parsed_syntax \<Rightarrow> parsed_syntax \<Rightarrow> verified_mappings \<Rightarrow> structural_change list \<Rightarrow> relation \<Rightarrow>
   structural_change list work" where
  "relation_change to_hex before after m cs r =
     (let i = ref_id (rel_before r); j = ref_id (rel_after r) in
      wbind (wlift (index_at (ps_nodes before) i)) (\<lambda>b.
      wbind (wlift (index_at (ps_nodes after) j)) (\<lambda>a.
      wbind (wlift (relocated before after m r (node_parent b) (node_parent a))) (\<lambda>moved.
      wbind (if moved then wbind (wlift (pair_change to_hex before after EquivalentRelocation DETAIL_RELOCATION i j)) (\<lambda>c. wreturn (cs @ [c]))
             else wreturn cs) (\<lambda>cs.
      wbind (if rel_predicate r = ShapeEqual then
               wbind (budgeted_syntax_equal before i after j) (\<lambda>same.
               if same then wreturn False
               else wlift (rbind (parent_shape_equal m (node_parent b)) (\<lambda>shape. Inr (\<not> shape))))
             else wreturn False) (\<lambda>update.
      if \<not> update then wreturn cs
      else (case rel_correspondence r of
          ModelForced \<Rightarrow> wbind (wlift (pair_change to_hex before after ModelForcedUpdate DETAIL_UPDATE i j)) (\<lambda>c. wreturn (cs @ [c]))
        | Suggested \<Rightarrow> wbind (wlift (pair_change to_hex before after SuggestedUpdate DETAIL_SUGGESTED i j)) (\<lambda>c. wreturn (cs @ [c]))
        | CorrInputPair \<Rightarrow> wreturn cs)))))))"

definition unmatched :: "nat option list \<Rightarrow> nat set \<Rightarrow> syntax_node \<Rightarrow> bool result" where
  "unmatched mapped ambiguous n =
     rbind (index_at mapped (node_id n)) (\<lambda>own.
     if own \<noteq> None \<or> node_id n \<in> ambiguous then Inr False
     else (case node_parent n of
             None \<Rightarrow> Inr False
           | Some p \<Rightarrow> rbind (index_at mapped p) (\<lambda>q. Inr (q \<noteq> None))))"

definition delete_change :: "(bytes \<Rightarrow> string) \<Rightarrow> syntax_node \<Rightarrow> structural_change" where
  "delete_change to_hex n = \<lparr>change_kind = Delete, change_before = Some (as_ref to_hex n), change_after = None, detail = DETAIL_DELETE\<rparr>"

definition insert_change :: "(bytes \<Rightarrow> string) \<Rightarrow> syntax_node \<Rightarrow> structural_change" where
  "insert_change to_hex n = \<lparr>change_kind = Insert, change_before = None, change_after = Some (as_ref to_hex n), detail = DETAIL_INSERT\<rparr>"

definition ambiguous_ids :: "(ambiguity_group \<Rightarrow> node_ref list) \<Rightarrow> ambiguity_group list \<Rightarrow> nat set" where
  "ambiguous_ids endpoints groups = set (concat (map (\<lambda>g. map ref_id (endpoints g)) groups))"

definition formatting_change ::
  "(bytes \<Rightarrow> string) \<Rightarrow> parsed_syntax \<Rightarrow> parsed_syntax \<Rightarrow> structural_change list work" where
  "formatting_change to_hex before after =
     wbind (budgeted_syntax_equal before (ps_root before) after (ps_root after)) (\<lambda>syntax_identical.
     wbind (if syntax_identical then
              wbind (charge (max (length (ps_source before)) (length (ps_source after)))) (\<lambda>_.
                wreturn (ps_source before \<noteq> ps_source after))
            else wreturn False) (\<lambda>formatting_only.
     if formatting_only then
       wbind (wlift (pair_change to_hex before after FormattingOnly DETAIL_FORMATTING (ps_root before) (ps_root after))) (\<lambda>c. wreturn [c])
     else wreturn []))"

definition derive_changes ::
  "(bytes \<Rightarrow> string) \<Rightarrow> parsed_syntax \<Rightarrow> parsed_syntax \<Rightarrow> verified_mappings \<Rightarrow> ambiguity_group list \<Rightarrow>
   structural_change list work" where
  "derive_changes to_hex before after m ambiguous =
     wbind (charge (length ambiguous)) (\<lambda>_.
     wbind (weach (\<lambda>g. wbind (charge (length (group_before g))) (\<lambda>_. charge (length (group_after g)))) ambiguous) (\<lambda>_.
     let ambiguous_b = ambiguous_ids group_before ambiguous; ambiguous_a = ambiguous_ids group_after ambiguous in
     wbind (formatting_change to_hex before after) (\<lambda>cs.
     wbind (charge (length (before_to_after m))) (\<lambda>_.
     wbind (wfold (order_change to_hex before after m) cs (mapped_pairs m)) (\<lambda>cs.
     wbind (charge (length (by_before m))) (\<lambda>_.
     wbind (wfold (relation_change to_hex before after m) cs
              (filter (\<lambda>r. ref_id (rel_before r) \<noteq> ps_root before \<and> rel_correspondence r \<noteq> CorrInputPair) (relation_records m))) (\<lambda>cs.
     wbind (charge (length (ps_nodes before) - 1)) (\<lambda>_.
     wbind (wlift (filter_result (unmatched (before_to_after m) ambiguous_b) (drop 1 (ps_nodes before)))) (\<lambda>deleted.
     wbind (charge (length (ps_nodes after) - 1)) (\<lambda>_.
     wbind (wlift (filter_result (unmatched (after_to_before m) ambiguous_a) (drop 1 (ps_nodes after)))) (\<lambda>inserted.
     let cs = cs @ map (delete_change to_hex) deleted @ map (insert_change to_hex) inserted in
     wbind (charge_n_log_n (length cs)) (\<lambda>_.
       wreturn (sort_key change_order cs)))))))))))))"

section \<open>Node references of the report\<close>

record pair_scan =
  seen_pairs :: "(nat \<times> nat) set"
  pair_order :: "(nat \<times> nat) list"
  referenced_before :: "nat set"
  referenced_after :: "nat set"

definition check_possible_pair ::
  "parsed_syntax \<Rightarrow> parsed_syntax \<Rightarrow> (nat \<rightharpoonup> nat) \<Rightarrow> (nat \<rightharpoonup> nat) \<Rightarrow> pair_scan \<Rightarrow> ambiguity_pair \<Rightarrow> pair_scan work" where
  "check_possible_pair before after before_positions after_positions s p =
     (let i = pair_before_id p; j = pair_after_id p in
      wbind (wlift (of_option (AmbiguityFailure PairOutsideEndpoints) (before_positions i))) (\<lambda>x.
      wbind (wlift (of_option (AmbiguityFailure PairOutsideEndpoints) (after_positions j))) (\<lambda>y.
      wbind (wensure ((i, j) \<notin> seen_pairs s) (AmbiguityFailure DuplicatePair)) (\<lambda>_.
      wbind (budgeted_shape_equal before i after j) (\<lambda>same.
      wbind (wensure same (AmbiguityFailure PairPredicateFalse)) (\<lambda>_.
        wreturn \<lparr>seen_pairs = insert (i, j) (seen_pairs s), pair_order = pair_order s @ [(x, y)],
                 referenced_before = insert i (referenced_before s), referenced_after = insert j (referenced_after s)\<rparr>))))))"

definition ascends :: "(nat \<times> nat) list \<Rightarrow> bool" where
  "ascends ps \<longleftrightarrow> list_all (\<lambda>(a, b). a < b) (zip ps (tl ps))"

definition check_exact_alignment ::
  "parsed_syntax \<Rightarrow> parsed_syntax \<Rightarrow> ambiguity_group \<Rightarrow> (nat \<rightharpoonup> nat) \<Rightarrow> (nat \<rightharpoonup> nat) \<Rightarrow> predicate \<Rightarrow> nat \<Rightarrow>
   ambiguity_pair list \<Rightarrow> unit work" where
  "check_exact_alignment before after g before_positions after_positions pred required pairs =
     wbind (wensure (pred = ShapeEqual) (AmbiguityFailure UnsupportedAmbiguityPredicate)) (\<lambda>_.
     wbind (wensure (required > 0 \<and> length pairs > required) (AmbiguityFailure SingleResolution)) (\<lambda>_.
     wbind (wensure (required \<le> min (length (group_before g)) (length (group_after g))) (AmbiguityFailure TooManyMatches)) (\<lambda>_.
     wbind (charge (length pairs)) (\<lambda>_.
     wbind (wfold (check_possible_pair before after before_positions after_positions)
              \<lparr>seen_pairs = {}, pair_order = [], referenced_before = {}, referenced_after = {}\<rparr> pairs) (\<lambda>s.
     wbind (charge (length (pair_order s) - 1)) (\<lambda>_.
     wbind (wensure (ascends (pair_order s)) (AmbiguityFailure PairOrder)) (\<lambda>_.
       wensure (card (referenced_before s) = length (group_before g) \<and> card (referenced_after s) = length (group_after g))
         (AmbiguityFailure UnreferencedEndpoints))))))))"

definition check_endpoint :: "(bytes \<Rightarrow> string) \<Rightarrow> parsed_syntax \<Rightarrow> node_ref \<Rightarrow> unit work" where
  "check_endpoint to_hex s n =
     wbind (charge 1) (\<lambda>_. wbind (wlift (verify_node_ref to_hex s n)) (\<lambda>_. wreturn ()))"

definition check_ambiguity_group ::
  "(bytes \<Rightarrow> string) \<Rightarrow> parsed_syntax \<Rightarrow> parsed_syntax \<Rightarrow> ambiguity_group \<Rightarrow> unit work" where
  "check_ambiguity_group to_hex before after g =
     wbind (charge 1) (\<lambda>_.
     wbind (wensure (parent_before g < length (ps_nodes before)) (AmbiguityFailure UnknownAmbiguityParent)) (\<lambda>_.
     wbind (wensure (parent_after g < length (ps_nodes after)) (AmbiguityFailure UnknownAmbiguityParent)) (\<lambda>_.
     wbind (weach (check_endpoint to_hex before) (group_before g)) (\<lambda>_.
     wbind (weach (check_endpoint to_hex after) (group_after g)) (\<lambda>_.
     wbind (charge (length (group_before g))) (\<lambda>_.
     let bids = map ref_id (group_before g) in
     wbind (charge (length (group_after g))) (\<lambda>_.
     let aids = map ref_id (group_after g) in
     wbind (wensure (group_before g \<noteq> [] \<and> group_after g \<noteq> []) (AmbiguityFailure EmptyEndpoints)) (\<lambda>_.
     wbind (wensure (card (set bids) = length (group_before g) \<and> card (set aids) = length (group_after g))
              (AmbiguityFailure DuplicateEndpoints)) (\<lambda>_.
     case constraint g of
       ExactOrderedAlignment pred required pairs \<Rightarrow>
         check_exact_alignment before after g (positions bids) (positions aids) pred required pairs
     | SymbolicAbstention cause claims \<Rightarrow> wreturn ())))))))))"

definition verify_ambiguity_node_references ::
  "(bytes \<Rightarrow> string) \<Rightarrow> diff_report \<Rightarrow> parsed_syntax \<Rightarrow> parsed_syntax \<Rightarrow> unit work" where
  "verify_ambiguity_node_references to_hex report before after =
     weach (check_ambiguity_group to_hex before after) (ambiguities report)"

fun valid_sides :: "structural_change \<Rightarrow> bool" where
  "valid_sides c =
     (case change_kind c of
        Insert \<Rightarrow> change_before c = None \<and> change_after c \<noteq> None
      | Delete \<Rightarrow> change_before c \<noteq> None \<and> change_after c = None
      | _ \<Rightarrow> change_before c \<noteq> None \<and> change_after c \<noteq> None)"

definition check_optional_ref :: "(bytes \<Rightarrow> string) \<Rightarrow> parsed_syntax \<Rightarrow> node_ref option \<Rightarrow> unit work" where
  "check_optional_ref to_hex s r =
     (case r of None \<Rightarrow> wreturn () | Some n \<Rightarrow> wbind (wlift (verify_node_ref to_hex s n)) (\<lambda>_. wreturn ()))"

definition verify_change_node_references ::
  "(bytes \<Rightarrow> string) \<Rightarrow> diff_report \<Rightarrow> parsed_syntax \<Rightarrow> parsed_syntax \<Rightarrow> unit work" where
  "verify_change_node_references to_hex report before after =
     weach (\<lambda>c.
       wbind (charge 1) (\<lambda>_.
       wbind (check_optional_ref to_hex before (change_before c)) (\<lambda>_.
       wbind (check_optional_ref to_hex after (change_after c)) (\<lambda>_.
         wensure (valid_sides c) (AmbiguityFailure InvalidChangeEndpoints))))) (changes report)"

section \<open>What the derivation returns\<close>

lemma rmap_filter_pure:
  "(\<And>x. x \<in> set xs \<Longrightarrow> f x = Inr (g x)) \<Longrightarrow> rmap_filter f xs = Inr (List.map_filter g xs)"
  by (induction xs) (auto simp: List.map_filter_simps split: option.splits)

definition node_pair ::
  "(bytes \<Rightarrow> string) \<Rightarrow> parsed_syntax \<Rightarrow> parsed_syntax \<Rightarrow> change_kind \<Rightarrow> string \<Rightarrow> nat \<Rightarrow> nat \<Rightarrow> structural_change" where
  "node_pair to_hex before after kind text i j =
     \<lparr>change_kind = kind, change_before = Some (as_ref to_hex (ps_nodes before ! i)),
      change_after = Some (as_ref to_hex (ps_nodes after ! j)), detail = text\<rparr>"

lemma pair_change_eq:
  "i < length (ps_nodes before) \<Longrightarrow> j < length (ps_nodes after) \<Longrightarrow>
   pair_change to_hex before after kind text i j = Inr (node_pair to_hex before after kind text i j)"
  by (simp add: pair_change_def node_pair_def)

text \<open>The position a mapped child takes among the children of the mapped parent.\<close>

definition child_rank :: "parsed_syntax \<Rightarrow> verified_mappings \<Rightarrow> nat \<Rightarrow> nat \<Rightarrow> nat option" where
  "child_rank after m j c =
     (case before_to_after m ! c of
        None \<Rightarrow> None
      | Some d \<Rightarrow> if node_parent (ps_nodes after ! d) \<noteq> Some j then None
                  else positions (node_children (ps_nodes after ! j)) d)"

definition reordered :: "parsed_syntax \<Rightarrow> parsed_syntax \<Rightarrow> verified_mappings \<Rightarrow> nat \<times> nat \<Rightarrow> bool" where
  "reordered before after m p \<longleftrightarrow>
     descends (List.map_filter (child_rank after m (snd p)) (node_children (ps_nodes before ! fst p)))"

definition moved :: "parsed_syntax \<Rightarrow> parsed_syntax \<Rightarrow> verified_mappings \<Rightarrow> relation \<Rightarrow> bool" where
  "moved before after m r \<longleftrightarrow> is_exact_relation r \<and>
     (\<exists>p q q'. node_parent (ps_nodes before ! before_id r) = Some p \<and> node_parent (ps_nodes after ! after_id r) = Some q \<and>
        before_to_after m ! p = Some q' \<and> q' \<noteq> q)"

definition below_shape :: "parsed_syntax \<Rightarrow> verified_mappings \<Rightarrow> nat \<Rightarrow> bool" where
  "below_shape before m i \<longleftrightarrow> (\<exists>p r. node_parent (ps_nodes before ! i) = Some p \<and> by_before m ! p = Some r \<and>
     rel_predicate r = ShapeEqual)"

definition updated :: "parsed_syntax \<Rightarrow> parsed_syntax \<Rightarrow> verified_mappings \<Rightarrow> relation \<Rightarrow> bool" where
  "updated before after m r \<longleftrightarrow> rel_predicate r = ShapeEqual \<and>
     \<not> syntax_same before (before_id r) after (after_id r) \<and> \<not> below_shape before m (before_id r)"

definition relation_events ::
  "(bytes \<Rightarrow> string) \<Rightarrow> parsed_syntax \<Rightarrow> parsed_syntax \<Rightarrow> verified_mappings \<Rightarrow> relation \<Rightarrow> structural_change list" where
  "relation_events to_hex before after m r =
     (if moved before after m r then [node_pair to_hex before after EquivalentRelocation DETAIL_RELOCATION (before_id r) (after_id r)] else []) @
     (if updated before after m r then
        (case rel_correspondence r of
           ModelForced \<Rightarrow> [node_pair to_hex before after ModelForcedUpdate DETAIL_UPDATE (before_id r) (after_id r)]
         | Suggested \<Rightarrow> [node_pair to_hex before after SuggestedUpdate DETAIL_SUGGESTED (before_id r) (after_id r)]
         | CorrInputPair \<Rightarrow> []) else [])"

definition maximal_unmatched :: "parsed_syntax \<Rightarrow> nat option list \<Rightarrow> nat set \<Rightarrow> nat \<Rightarrow> bool" where
  "maximal_unmatched s mapped ambiguous i \<longleftrightarrow> mapped ! i = None \<and> i \<notin> ambiguous \<and>
     (\<exists>p. node_parent (ps_nodes s ! i) = Some p \<and> mapped ! p \<noteq> None)"

definition formatting_events :: "(bytes \<Rightarrow> string) \<Rightarrow> parsed_syntax \<Rightarrow> parsed_syntax \<Rightarrow> structural_change list" where
  "formatting_events to_hex before after =
     (if syntax_same before (ps_root before) after (ps_root after) \<and> ps_source before \<noteq> ps_source after
      then [node_pair to_hex before after FormattingOnly DETAIL_FORMATTING (ps_root before) (ps_root after)] else [])"

definition order_events ::
  "(bytes \<Rightarrow> string) \<Rightarrow> parsed_syntax \<Rightarrow> parsed_syntax \<Rightarrow> verified_mappings \<Rightarrow> (nat \<times> nat) list \<Rightarrow> structural_change list" where
  "order_events to_hex before after m ps =
     map (\<lambda>p. node_pair to_hex before after ChildOrderChanged DETAIL_ORDER (fst p) (snd p)) (filter (reordered before after m) ps)"

definition unmatched_nodes :: "parsed_syntax \<Rightarrow> nat option list \<Rightarrow> nat set \<Rightarrow> syntax_node list" where
  "unmatched_nodes s mapped ambiguous = filter (\<lambda>n. maximal_unmatched s mapped ambiguous (node_id n)) (drop 1 (ps_nodes s))"

definition expected_events ::
  "(bytes \<Rightarrow> string) \<Rightarrow> parsed_syntax \<Rightarrow> parsed_syntax \<Rightarrow> verified_mappings \<Rightarrow> ambiguity_group list \<Rightarrow> structural_change list" where
  "expected_events to_hex before after m ambiguous =
     formatting_events to_hex before after @ order_events to_hex before after m (mapped_pairs m) @
     concat (map (relation_events to_hex before after m)
       (filter (\<lambda>r. before_id r \<noteq> ps_root before \<and> rel_correspondence r \<noteq> CorrInputPair) (relation_records m))) @
     map (delete_change to_hex) (unmatched_nodes before (before_to_after m) (ambiguous_ids group_before ambiguous)) @
     map (insert_change to_hex) (unmatched_nodes after (after_to_before m) (ambiguous_ids group_after ambiguous))"

lemma valid_formatting_change:
  assumes "wf_syntax before" "wf_syntax after"
  shows "valid (formatting_change to_hex before after) work_failure (\<lambda>cs. cs = formatting_events to_hex before after)"
proof -
  have arena: "in_arena before (ps_root before)" "in_arena after (ps_root after)"
    using assms wf_root by (simp_all add: in_arena_def)
  have root: "ps_root before < length (ps_nodes before)" "ps_root after < length (ps_nodes after)"
    using assms wf_root by simp_all
  show ?thesis
    unfolding formatting_change_def
    by (rule valid_bind [OF valid_budgeted_syntax_equal [OF arena]])
      (auto simp: formatting_events_def pair_change_eq [OF root] intro!: vc
        valid_bind [where P = "\<lambda>b. b \<longleftrightarrow> syntax_same before (ps_root before) after (ps_root after) \<and> ps_source before \<noteq> ps_source after"])
qed

lemma valid_order_change:
  assumes wf: "wf_syntax before" "wf_syntax after" and m: "verified to_hex before after rs m" and p: "p \<in> set (mapped_pairs m)"
  shows "valid (order_change to_hex before after m cs p) work_failure (\<lambda>cs'. cs' = cs @ order_events to_hex before after m [p])"
proof -
  obtain i j where ij: "p = (i, j)" by (cases p)
  from p have mapped: "i < length (ps_nodes before)" "before_to_after m ! i = Some j"
    using verified_facts(1) [OF m] by (simp_all add: ij mapped_pairs_iff)
  obtain r where j: "j < length (ps_nodes after)" by (rule verified_mapped [OF m mapped(2,1)])
  have child: "c < length (ps_nodes before)" if "c \<in> set (node_children (ps_nodes before ! i))" for c
    by (rule wf_child [OF wf(1) mapped(1) that])
  have target: "d < length (ps_nodes after)" if "before_to_after m ! c = Some d" "c < length (ps_nodes before)" for c d
    by (rule verified_mapped [OF m that]) simp
  have "child_positions after m j (positions (node_children (ps_nodes after ! j))) (node_children (ps_nodes before ! i))
      = Inr (List.map_filter (child_rank after m j) (node_children (ps_nodes before ! i)))"
    unfolding child_positions_def
  proof (rule rmap_filter_pure)
    fix c assume c: "c \<in> set (node_children (ps_nodes before ! i))"
    show "rbind (index_at (before_to_after m) c) (\<lambda>mapped. case mapped of None \<Rightarrow> Inr None
       | Some d \<Rightarrow> rbind (index_at (ps_nodes after) d) (\<lambda>n.
           if node_parent n \<noteq> Some j then Inr None else Inr (positions (node_children (ps_nodes after ! j)) d)))
       = Inr (child_rank after m j c)"
      using child [OF c] target [of c] verified_facts(1) [OF m]
      by (cases "before_to_after m ! c") (simp_all add: child_rank_def)
  qed
  then show ?thesis
    using mapped(1) j unfolding ij order_change_def
    by (auto simp: order_events_def reordered_def Let_def pair_change_eq intro!: vc)
qed

lemma valid_relation_change:
  assumes wf: "wf_syntax before" "wf_syntax after" and m: "verified to_hex before after rs m" and r: "r \<in> set rs"
  shows "valid (relation_change to_hex before after m cs r) work_failure (\<lambda>cs'. cs' = cs @ relation_events to_hex before after m r)"
proof -
  let ?i = "before_id r" and ?j = "after_id r"
  note ij = verified_relation_mapped(1,2) [OF m r]
  have arena: "in_arena before ?i" "in_arena after ?j" using wf ij by (simp_all add: in_arena_def)
  have parent: "p < length (ps_nodes before)" if "node_parent (ps_nodes before ! ?i) = Some p" for p
    using wf_parent(1) [OF wf(1) ij(1) that] ij(1) by simp
  have moved: "relocated before after m r (node_parent (ps_nodes before ! ?i)) (node_parent (ps_nodes after ! ?j))
      = Inr (moved before after m r)"
    using parent verified_facts(1) [OF m]
    by (cases "node_parent (ps_nodes before ! ?i)"; cases "node_parent (ps_nodes after ! ?j)")
      (auto simp: relocated_def moved_def is_exact_relation_def)
  have shape: "parent_shape_equal m (node_parent (ps_nodes before ! ?i)) = Inr (below_shape before m ?i)"
    using parent verified_facts(3) [OF m]
    by (cases "node_parent (ps_nodes before ! ?i)") (auto simp: parent_shape_equal_def below_shape_def split: option.splits)
  show ?thesis
    unfolding relation_change_def Let_def
    apply (rule valid_lift_bind, simp add: index_at_ok [OF ij(1)])
    apply (rule valid_lift_bind, simp add: index_at_ok [OF ij(2)])
    apply (rule valid_lift_bind)
    subgoal using ij moved by auto
    subgoal for b a mv
      apply (rule valid_bind [where P = "\<lambda>cs'. cs' = cs @ (if moved before after m r
          then [node_pair to_hex before after EquivalentRelocation DETAIL_RELOCATION ?i ?j] else [])"])
      subgoal using ij moved by (auto simp: pair_change_eq intro!: vc)
      subgoal for cs'
        apply (rule valid_bind [where P = "\<lambda>u. u \<longleftrightarrow> updated before after m r"])
        subgoal using ij shape by (auto simp: updated_def intro!: vc valid_bind [OF valid_budgeted_syntax_equal [OF arena]])
        subgoal using ij by (auto simp: relation_events_def pair_change_eq split: correspondence.split intro!: vc)
        done
      done
    done
qed

lemma dropped_node:
  assumes "wf_syntax s" "n \<in> set (drop 1 (ps_nodes s))"
  obtains k where "0 < k" "k < length (ps_nodes s)" "n = ps_nodes s ! k" "node_id n = k"
proof -
  obtain i where "i < length (ps_nodes s) - 1" "n = ps_nodes s ! Suc i"
    using assms(2) by (auto simp: in_set_conv_nth)
  then show ?thesis using that [of "Suc i"] wf_node_id [OF assms(1), of "Suc i"] by simp
qed

lemma unmatched_filter:
  assumes wf: "wf_syntax s" and len: "length mapped = length (ps_nodes s)"
  shows "filter_result (unmatched mapped ambiguous) (drop 1 (ps_nodes s)) = Inr (unmatched_nodes s mapped ambiguous)"
  unfolding unmatched_nodes_def
proof (rule filter_result_pure)
  fix n assume "n \<in> set (drop 1 (ps_nodes s))"
  then obtain k where k: "k < length (ps_nodes s)" "n = ps_nodes s ! k" "node_id n = k"
    by (rule dropped_node [OF wf])
  have "p < length (ps_nodes s)" if "node_parent n = Some p" for p
    using wf_parent(1) [OF wf k(1), of p] k that by simp
  then show "unmatched mapped ambiguous n = Inr (maximal_unmatched s mapped ambiguous (node_id n))"
    unfolding unmatched_def maximal_unmatched_def
    using k len by (cases "node_parent n") auto
qed

lemma valid_derive_changes:
  assumes wf: "wf_syntax before" "wf_syntax after" and m: "verified to_hex before after rs m"
  shows "valid (derive_changes to_hex before after m groups) work_failure
    (\<lambda>cs. cs = sort_key change_order (expected_events to_hex before after m groups))"
proof -
  let ?rel = "filter (\<lambda>r. before_id r \<noteq> ps_root before \<and> rel_correspondence r \<noteq> CorrInputPair) (relation_records m)"
  have order: "valid (wfold (order_change to_hex before after m) cs (mapped_pairs m)) work_failure
      (\<lambda>cs'. cs' = cs @ order_events to_hex before after m (mapped_pairs m))" for cs
    by (rule valid_fold_prefix [where I = "\<lambda>ys cs'. cs' = cs @ order_events to_hex before after m ys"])
      (auto simp: order_events_def intro: valid_conseq [OF valid_order_change [OF wf m]])
  have related: "valid (wfold (relation_change to_hex before after m) cs ?rel) work_failure
      (\<lambda>cs'. cs' = cs @ concat (map (relation_events to_hex before after m) ?rel))" for cs
  proof (rule valid_fold_prefix [where I = "\<lambda>ys cs'. cs' = cs @ concat (map (relation_events to_hex before after m) ys)"])
    fix ys r zs cs'
    assume split: "?rel = ys @ r # zs" and cs': "cs' = cs @ concat (map (relation_events to_hex before after m) ys)"
    have "r \<in> set ?rel" unfolding split by simp
    then have "r \<in> set rs" using verified_records [OF m] by simp
    from valid_relation_change [OF wf m this, where cs = cs'] cs'
    show "valid (relation_change to_hex before after m cs' r) work_failure
       (\<lambda>cs'. cs' = cs @ concat (map (relation_events to_hex before after m) (ys @ [r])))" by simp
  qed simp
  note deleted = unmatched_filter [OF wf(1) verified_facts(1) [OF m], of "ambiguous_ids group_before groups"]
  note inserted = unmatched_filter [OF wf(2) verified_facts(2) [OF m], of "ambiguous_ids group_after groups"]
  show ?thesis
    unfolding derive_changes_def Let_def
    apply (rule valid_charge_bind, simp)
    apply (rule valid_bind [OF valid_each_trivial])
    subgoal by (auto intro!: vc valid_charges)
    apply (rule valid_bind [OF valid_formatting_change [OF wf]])
    apply (rule valid_charge_bind, simp)
    apply (rule valid_bind [OF order])
    apply (rule valid_charge_bind, simp)
    apply (rule valid_bind [OF related])
    apply (auto simp only: deleted inserted wlift_simps wbind_wreturn intro!: valid_charge_bind valid_charge_n_log_n_bind)
    apply (rule valid_return)
    apply (simp add: expected_events_def)
    done
qed

section \<open>Nothing goes unreported\<close>

text \<open>A node and the chain of parents above it.\<close>

inductive under :: "parsed_syntax \<Rightarrow> nat \<Rightarrow> nat \<Rightarrow> bool" for s where
  under_self: "under s i i"
| under_parent: "node_parent (ps_nodes s ! i) = Some p \<Longrightarrow> under s p a \<Longrightarrow> under s i a"

lemma unmatched_nodes_member:
  assumes wf: "wf_syntax s" and k: "k < length (ps_nodes s)" and max: "maximal_unmatched s mapped ambiguous k"
  shows "ps_nodes s ! k \<in> set (unmatched_nodes s mapped ambiguous)"
proof -
  obtain p where "node_parent (ps_nodes s ! k) = Some p" using max by (auto simp: maximal_unmatched_def)
  then have "0 < k" using wf_parent(1) [OF wf k] by auto
  then have "ps_nodes s ! k = drop 1 (ps_nodes s) ! (k - 1)" "k - 1 < length (drop 1 (ps_nodes s))"
    using k by simp_all
  then have "ps_nodes s ! k \<in> set (drop 1 (ps_nodes s))" by (simp only: nth_mem)
  then show ?thesis using max wf_node_id [OF wf k] by (simp add: unmatched_nodes_def)
qed

lemma under_maximal:
  assumes wf: "wf_syntax s" and root: "mapped ! ps_root s \<noteq> None" and k: "k < length (ps_nodes s)"
  shows "mapped ! k \<noteq> None \<or> (\<exists>a<length (ps_nodes s). under s k a \<and> (a \<in> ambiguous \<or> maximal_unmatched s mapped ambiguous a))"
  using k
proof (induction k rule: less_induct)
  case (less k)
  show ?case
  proof (cases "mapped ! k = None \<and> k \<notin> ambiguous")
    case True
    with root have "k \<noteq> ps_root s" by metis
    then obtain p where p: "node_parent (ps_nodes s ! k) = Some p"
      using wf_has_parent [OF wf less.prems] by blast
    have pk: "p < k" by (rule wf_parent [OF wf less.prems p])
    then have IH: "mapped ! p \<noteq> None \<or>
        (\<exists>a<length (ps_nodes s). under s p a \<and> (a \<in> ambiguous \<or> maximal_unmatched s mapped ambiguous a))"
      using less.IH less.prems by simp
    show ?thesis
    proof (cases "mapped ! p = None")
      case True
      with IH p show ?thesis by (blast intro: under_parent)
    next
      case False
      then have "maximal_unmatched s mapped ambiguous k" using True p by (auto simp: maximal_unmatched_def)
      then show ?thesis using less.prems by (blast intro: under_self)
    qed
  next
    case False
    then have "mapped ! k \<noteq> None \<or> k \<in> ambiguous" by simp
    then show ?thesis using less.prems under_self [of s k] by (elim disjE) auto
  qed
qed

text \<open>Every node of either snapshot is mapped, or lies under an ambiguous endpoint or a reported event.\<close>

lemma deletions_cover:
  assumes wf: "wf_syntax before" "wf_syntax after" and m: "verified to_hex before after rs m"
    and cs: "cs = sort_key change_order (expected_events to_hex before after m groups)"
    and k: "k < length (ps_nodes before)"
  shows "before_to_after m ! k \<noteq> None \<or> (\<exists>a<length (ps_nodes before). under before k a \<and>
    (a \<in> ambiguous_ids group_before groups \<or> delete_change to_hex (ps_nodes before ! a) \<in> set cs))"
proof -
  have "before_to_after m ! ps_root before \<noteq> None" using m by (simp add: verified_def)
  from under_maximal [OF wf(1) this k, of "ambiguous_ids group_before groups"]
  show ?thesis
    using unmatched_nodes_member [OF wf(1)] unfolding cs expected_events_def by (simp add: image_Un) blast
qed

lemma insertions_cover:
  assumes wf: "wf_syntax before" "wf_syntax after" and m: "verified to_hex before after rs m"
    and cs: "cs = sort_key change_order (expected_events to_hex before after m groups)"
    and k: "k < length (ps_nodes after)"
  shows "after_to_before m ! k \<noteq> None \<or> (\<exists>a<length (ps_nodes after). under after k a \<and>
    (a \<in> ambiguous_ids group_after groups \<or> insert_change to_hex (ps_nodes after ! a) \<in> set cs))"
proof -
  have "after_to_before m ! ps_root after \<noteq> None"
    using m verified_facts(6) [OF m, of "ps_root before" "ps_root after"] wf_root [OF wf(1)] wf_root [OF wf(2)]
    by (simp add: verified_def)
  from under_maximal [OF wf(2) this k, of "ambiguous_ids group_after groups"]
  show ?thesis
    using unmatched_nodes_member [OF wf(2)] unfolding cs expected_events_def by (simp add: image_Un) blast
qed

section \<open>Checked references\<close>

definition exact_ref :: "(bytes \<Rightarrow> string) \<Rightarrow> parsed_syntax \<Rightarrow> node_ref \<Rightarrow> bool" where
  "exact_ref to_hex s n \<longleftrightarrow> ref_id n < length (ps_nodes s) \<and> n = as_ref to_hex (ps_nodes s ! ref_id n)"

definition pair_of :: "ambiguity_pair \<Rightarrow> nat \<times> nat" where
  "pair_of p = (pair_before_id p, pair_after_id p)"

text \<open>The exact constraint of a group: distinct pairs over the endpoints, each of equal shape, every endpoint used.\<close>

definition exact_pairs :: "parsed_syntax \<Rightarrow> parsed_syntax \<Rightarrow> nat list \<Rightarrow> nat list \<Rightarrow> ambiguity_pair list \<Rightarrow> bool" where
  "exact_pairs before after bids aids pairs \<longleftrightarrow>
     distinct (map pair_of pairs) \<and> fst ` pair_of ` set pairs = set bids \<and> snd ` pair_of ` set pairs = set aids \<and>
     (\<forall>p\<in>set pairs. shape_same before (pair_before_id p) after (pair_after_id p))"

definition group_checked :: "(bytes \<Rightarrow> string) \<Rightarrow> parsed_syntax \<Rightarrow> parsed_syntax \<Rightarrow> ambiguity_group \<Rightarrow> bool" where
  "group_checked to_hex before after g \<longleftrightarrow>
     (\<forall>n\<in>set (group_before g). exact_ref to_hex before n) \<and> (\<forall>n\<in>set (group_after g). exact_ref to_hex after n) \<and>
     group_before g \<noteq> [] \<and> group_after g \<noteq> [] \<and>
     distinct (map ref_id (group_before g)) \<and> distinct (map ref_id (group_after g)) \<and>
     (case constraint g of
        ExactOrderedAlignment pred required pairs \<Rightarrow>
          pred = ShapeEqual \<and> 0 < required \<and> required < length pairs \<and>
          required \<le> length (group_before g) \<and> required \<le> length (group_after g) \<and>
          exact_pairs before after (map ref_id (group_before g)) (map ref_id (group_after g)) pairs
      | SymbolicAbstention cause claims \<Rightarrow> True)"

definition pairs_scanned :: "parsed_syntax \<Rightarrow> parsed_syntax \<Rightarrow> nat list \<Rightarrow> nat list \<Rightarrow> ambiguity_pair list \<Rightarrow> pair_scan \<Rightarrow> bool" where
  "pairs_scanned before after bids aids ps s \<longleftrightarrow>
     distinct (map pair_of ps) \<and> seen_pairs s = set (map pair_of ps) \<and>
     referenced_before s = fst ` pair_of ` set ps \<and> referenced_after s = snd ` pair_of ` set ps \<and>
     fst ` pair_of ` set ps \<subseteq> set bids \<and> snd ` pair_of ` set ps \<subseteq> set aids \<and>
     (\<forall>p\<in>set ps. shape_same before (pair_before_id p) after (pair_after_id p))"

lemma positions_member: "positions ids i = Some x \<Longrightarrow> i \<in> set ids"
  using positions_Some [of ids i x] by (metis nth_mem)

lemma valid_check_possible_pair:
  assumes arena: "\<forall>i\<in>set bids. in_arena before i" "\<forall>j\<in>set aids. in_arena after j"
    and s: "pairs_scanned before after bids aids ps s"
  shows "valid (check_possible_pair before after (positions bids) (positions aids) s p) safe
    (pairs_scanned before after bids aids (ps @ [p]))"
  unfolding check_possible_pair_def Let_def
proof (intro valid_lift_bind valid_ensure_bind)
  fix x y
  assume "of_option (AmbiguityFailure PairOutsideEndpoints) (positions bids (pair_before_id p)) = Inr x"
    "of_option (AmbiguityFailure PairOutsideEndpoints) (positions aids (pair_after_id p)) = Inr y"
    and fresh: "(pair_before_id p, pair_after_id p) \<notin> seen_pairs s"
  then have inside: "pair_before_id p \<in> set bids" "pair_after_id p \<in> set aids"
    by (auto dest: positions_member)
  have ar: "in_arena before (pair_before_id p)" "in_arena after (pair_after_id p)" using inside arena by auto
  show "valid (wbind (budgeted_shape_equal before (pair_before_id p) after (pair_after_id p)) (\<lambda>same.
      wbind (wensure same (AmbiguityFailure PairPredicateFalse)) (\<lambda>_.
        wreturn \<lparr>seen_pairs = insert (pair_before_id p, pair_after_id p) (seen_pairs s), pair_order = pair_order s @ [(x, y)],
                 referenced_before = insert (pair_before_id p) (referenced_before s),
                 referenced_after = insert (pair_after_id p) (referenced_after s)\<rparr>))) safe
     (pairs_scanned before after bids aids (ps @ [p]))"
    using s fresh inside
    by (auto simp: pairs_scanned_def pair_of_def intro!: vc valid_bind [OF valid_safe [OF valid_budgeted_shape_equal [OF ar]]])
qed (auto simp: of_option_iff)

lemma valid_check_exact_alignment:
  assumes arena: "\<forall>i\<in>set bids. in_arena before i" "\<forall>j\<in>set aids. in_arena after j"
    and ids: "bids = map ref_id (group_before g)" "aids = map ref_id (group_after g)" "distinct bids" "distinct aids"
  shows "valid (check_exact_alignment before after g (positions bids) (positions aids) pred required pairs) safe
    (\<lambda>_. pred = ShapeEqual \<and> 0 < required \<and> required < length pairs \<and>
       required \<le> length (group_before g) \<and> required \<le> length (group_after g) \<and> exact_pairs before after bids aids pairs)"
proof -
  let ?s0 = "\<lparr>seen_pairs = {}, pair_order = [], referenced_before = {}, referenced_after = {}\<rparr>"
  have scan: "valid (wfold (check_possible_pair before after (positions bids) (positions aids)) ?s0 pairs) safe
      (pairs_scanned before after bids aids pairs)"
    by (rule valid_fold_prefix) (simp_all add: pairs_scanned_def [of _ _ _ _ "[]"] valid_check_possible_pair [OF arena])
  have full: "exact_pairs before after bids aids pairs"
    if s: "pairs_scanned before after bids aids pairs s"
      and card: "card (referenced_before s) = length (group_before g)" "card (referenced_after s) = length (group_after g)" for s :: pair_scan
  proof -
    have "card (set bids) = length (group_before g)" "card (set aids) = length (group_after g)"
      using ids distinct_card [of bids] distinct_card [of aids] by simp_all
    then have "referenced_before s = set bids" "referenced_after s = set aids"
      using s card card_subset_eq [of "set bids" "referenced_before s"] card_subset_eq [of "set aids" "referenced_after s"]
      by (simp_all add: pairs_scanned_def)
    then show ?thesis using s by (simp add: exact_pairs_def pairs_scanned_def)
  qed
  show ?thesis
    unfolding check_exact_alignment_def
    by (intro valid_ensure_bind valid_charge_bind valid_bind [OF scan]) (auto intro: full valid_ensure)
qed

lemma verify_node_ref_exact: "verify_node_ref to_hex s n = Inr x \<Longrightarrow> exact_ref to_hex s n"
  unfolding verify_node_ref_Inr exact_ref_def by blast

lemma valid_check_ref:
  "valid (wbind (wlift (verify_node_ref to_hex s n)) (\<lambda>_. wreturn ())) safe (\<lambda>_. exact_ref to_hex s n)"
  by (rule valid_lift_bind) (auto dest: verify_node_ref_failure intro: verify_node_ref_exact valid_return)

lemma valid_check_endpoints:
  "valid (weach (check_endpoint to_hex s) ns) safe (\<lambda>_. \<forall>n\<in>set ns. exact_ref to_hex s n)"
  unfolding check_endpoint_def
  by (rule valid_each, rule valid_charge_bind, simp, rule valid_check_ref)

lemma valid_ambiguity_references:
  assumes wf: "wf_syntax before" "wf_syntax after"
  shows "valid (verify_ambiguity_node_references to_hex report before after) safe
    (\<lambda>_. \<forall>g\<in>set (ambiguities report). group_checked to_hex before after g)"
  unfolding verify_ambiguity_node_references_def
proof (rule valid_each)
  fix g
  show "valid (check_ambiguity_group to_hex before after g) safe (\<lambda>_. group_checked to_hex before after g)"
    unfolding check_ambiguity_group_def Let_def
  proof (intro valid_charge_bind valid_ensure_bind valid_bind [OF valid_check_endpoints])
    let ?b = "map ref_id (group_before g)" and ?a = "map ref_id (group_after g)"
    assume refs: "\<forall>n\<in>set (group_before g). exact_ref to_hex before n" "\<forall>n\<in>set (group_after g). exact_ref to_hex after n"
      and ne: "group_before g \<noteq> [] \<and> group_after g \<noteq> []"
      and card: "card (set ?b) = length (group_before g) \<and> card (set ?a) = length (group_after g)"
    have dist: "distinct ?b" "distinct ?a" using card by (auto intro: card_distinct)
    have arena: "\<forall>i\<in>set ?b. in_arena before i" "\<forall>j\<in>set ?a. in_arena after j"
      using refs wf by (auto simp: exact_ref_def in_arena_def)
    from valid_check_exact_alignment [OF arena refl refl dist]
    show "valid (case constraint g of
       ExactOrderedAlignment pred required pairs \<Rightarrow>
         check_exact_alignment before after g (positions ?b) (positions ?a) pred required pairs
     | SymbolicAbstention cause claims \<Rightarrow> wreturn ()) safe (\<lambda>_. group_checked to_hex before after g)"
      using refs ne dist
      by (cases "constraint g") (auto simp: group_checked_def intro: valid_return elim!: valid_conseq)
  qed simp_all
qed

definition change_checked :: "(bytes \<Rightarrow> string) \<Rightarrow> parsed_syntax \<Rightarrow> parsed_syntax \<Rightarrow> structural_change \<Rightarrow> bool" where
  "change_checked to_hex before after c \<longleftrightarrow> valid_sides c \<and>
     (\<forall>n. change_before c = Some n \<longrightarrow> exact_ref to_hex before n) \<and> (\<forall>n. change_after c = Some n \<longrightarrow> exact_ref to_hex after n)"

lemma valid_check_optional_ref:
  "valid (check_optional_ref to_hex s r) safe (\<lambda>_. \<forall>n. r = Some n \<longrightarrow> exact_ref to_hex s n)"
  by (cases r) (auto simp: check_optional_ref_def intro: valid_return valid_check_ref)

lemma valid_change_references:
  "valid (verify_change_node_references to_hex report before after) safe
    (\<lambda>_. \<forall>c\<in>set (changes report). change_checked to_hex before after c)"
  unfolding verify_change_node_references_def
  by (rule valid_each, intro valid_charge_bind valid_bind [OF valid_check_optional_ref])
    (auto simp: change_checked_def intro: valid_ensure)

section \<open>Properties\<close>

text \<open>C15: the structural changes are a function of the parses, the mappings and the ambiguities. \<open>derive_changes\<close> exhausts the
  budget or returns the expected events in canonical order: a formatting change for equal trees of different bytes,
  an order change for every related pair whose mapped children are not in increasing positions, a relocation for
  every exact pair whose parent is mapped elsewhere, an update for every shape pair with different syntax that is
  not below another one, a deletion and an insertion for every maximal unmatched subtree. No \<open>expect\<close> or index of
  it can panic.\<close>

theorem changes_exact:
  assumes "wf_syntax before" "wf_syntax after" "verified to_hex before after rs m"
  shows "valid (derive_changes to_hex before after m groups) work_failure
    (\<lambda>cs. cs = sort_key change_order (expected_events to_hex before after m groups))"
  using assms by (rule valid_derive_changes)

text \<open>C16: nothing goes unreported. Once \<open>derive_changes\<close> returns, every node of the before snapshot is related, or it or an
  ancestor is an ambiguous endpoint or the subject of a reported deletion; and every node of the after snapshot is
  related, or it or an ancestor is an ambiguous endpoint or the subject of a reported insertion.\<close>

theorem changes_cover:
  assumes "wf_syntax before" "wf_syntax after" "verified to_hex before after rs m"
    and "derive_changes to_hex before after m groups w = Inr (cs, w')"
  shows "(\<forall>k<length (ps_nodes before). before_to_after m ! k \<noteq> None \<or>
      (\<exists>a<length (ps_nodes before). under before k a \<and>
        (a \<in> ambiguous_ids group_before groups \<or> delete_change to_hex (ps_nodes before ! a) \<in> set cs))) \<and>
    (\<forall>k<length (ps_nodes after). after_to_before m ! k \<noteq> None \<or>
      (\<exists>a<length (ps_nodes after). under after k a \<and>
        (a \<in> ambiguous_ids group_after groups \<or> insert_change to_hex (ps_nodes after ! a) \<in> set cs)))"
  using deletions_cover [OF assms(1-3)] insertions_cover [OF assms(1-3)]
    validD [OF valid_derive_changes [OF assms(1-3)] assms(4)] by blast

text \<open>C26: the references of a report are typed by the parses. If \<open>verify_ambiguity_node_references\<close> accepts, the endpoints of
  every ambiguity are distinct nodes with exactly the metadata of the fresh parse, and an exact constraint lists
  distinct pairs of equal shape that use every endpoint; if \<open>verify_change_node_references\<close> accepts, every change
  has the sides its kind requires, each with the metadata of the fresh parse. Neither check panics.\<close>

theorem references_typed:
  assumes "wf_syntax before" "wf_syntax after"
  shows "valid (verify_ambiguity_node_references to_hex report before after) (\<lambda>e. \<not> crash e)
      (\<lambda>_. \<forall>g\<in>set (ambiguities report). group_checked to_hex before after g) \<and>
    valid (verify_change_node_references to_hex report before after) (\<lambda>e. \<not> crash e)
      (\<lambda>_. \<forall>c\<in>set (changes report). change_checked to_hex before after c)"
  using valid_ambiguity_references [OF assms] valid_change_references by blast

end
