(* ===== verification/Work_Bounds.thy ===== *)
theory Work_Bounds
  imports Stable_Core Changes
begin

text \<open>
  Every check of the verifier keeps the budget: it never changes the limit, never gives work back, never
  ends above the limit, and behaves the same under every limit that covers the work it charges.
\<close>

lemma budgeted_relations [budget_intros]:
  "budgeted (predicate_holds before after r)" "budgeted (check_correspondence before after r k)"
  "budgeted (verify_relation to_hex before after s r)" "budgeted (verify_relations to_hex report before after)"
proof -
  show a: "budgeted (predicate_holds before after r)" for before after r
    by (auto simp: predicate_holds_def Let_def intro!: budget_intros split: predicate.split)
  show b: "budgeted (check_correspondence before after r k)" for before after r k
    by (auto simp: check_correspondence_def Let_def intro!: budget_intros split: correspondence.split)
  show c: "budgeted (verify_relation to_hex before after s r)" for s r
    unfolding verify_relation_def Let_def by (intro budget_intros a b)
  show "budgeted (verify_relations to_hex report before after)"
    unfolding verify_relations_def Let_def by (intro budget_intros c)
qed

text \<open>Every relation is charged for.\<close>

lemma costs_verify_relations: "costs (length (relations report)) (verify_relations to_hex report before after)"
proof -
  have "costs 1 (verify_relation to_hex before after s r)" for s r
    unfolding verify_relation_def Let_def
    by (rule costs_prefix [OF costs_charge]) (intro budget_intros budgeted_relations(1,2))
  then have "costs (length (relations report)) (wfold (verify_relation to_hex before after) s (relations report))" for s
    using costs_fold [of 1] by fastforce
  then show ?thesis
    unfolding verify_relations_def Let_def by (rule costs_prefix) (intro budget_intros)
qed

lemma budgeted_anchors [budget_intros]:
  "budgeted (global_exact_index before after)"
  "budgeted (certify_exact_subtree_fuel n before after m i j c)" "budgeted (certify_exact_subtree before after m i j c)"
  "budgeted (certify_anchor before after m index c r)" "budgeted (verify_exact_anchor_evidence report before after m index)"
  "budgeted (verify_global_anchor_completeness order before after m index)"
  "budgeted (local_exact_candidates s p m)" "budgeted (local_exact_candidates_after s p m)"
  "budgeted (check_local_pair before after m v q)" "budgeted (verify_local_exact_relations before after m)"
proof -
  show "budgeted (global_exact_index before after)"
    unfolding global_exact_index_def exact_subtree_buckets_def by (intro budget_intros)
  show a: "budgeted (certify_exact_subtree_fuel n before after m i j c)" for n i j c
    by (induction n arbitrary: i j c) (auto simp only: certify_exact_subtree_fuel.simps intro!: budget_intros)
  show b: "budgeted (certify_exact_subtree before after m i j c)" for i j c
    unfolding certify_exact_subtree_def by (rule a)
  show d: "budgeted (certify_anchor before after m index c r)" for c r
    unfolding certify_anchor_def by (intro budget_intros b)
  show "budgeted (verify_exact_anchor_evidence report before after m index)"
    unfolding verify_exact_anchor_evidence_def by (intro budget_intros d)
  show "budgeted (verify_global_anchor_completeness order before after m index)"
    unfolding verify_global_anchor_completeness_def by (intro budget_intros)
  show e: "budgeted (local_exact_candidates s p m)" "budgeted (local_exact_candidates_after s p m)" for s p
    unfolding local_exact_candidates_def local_exact_candidates_after_def by (intro budget_intros)+
  show f: "budgeted (check_local_pair before after m v q)" for v q
    unfolding check_local_pair_def by (intro budget_intros)
  show "budgeted (verify_local_exact_relations before after m)"
    unfolding verify_local_exact_relations_def by (intro budget_intros e f)
qed

lemma budgeted_regions [budget_intros]:
  "budgeted (ordered_alignment_regions before after m p q)"
  "budgeted (mark_phase_subtree_fuel n before after m i j phase)" "budgeted (global_phase_mappings before after m)"
  "budgeted (phase_mappings_are_compatible_fuel n before after phase i j)" "budgeted (phase_mappings_are_compatible before after phase i j)"
proof -
  show "budgeted (ordered_alignment_regions before after m p q)"
    unfolding ordered_alignment_regions_def exact_anchors_def order_barriers_def is_barrier_def collect_region_def Let_def
    by (intro budget_intros)
  show a: "budgeted (mark_phase_subtree_fuel n before after m i j phase)" for n i j phase
    by (induction n arbitrary: i j phase) (auto simp only: mark_phase_subtree_fuel.simps intro!: budget_intros)
  show "budgeted (global_phase_mappings before after m)"
    unfolding global_phase_mappings_def mark_phase_subtree_def by (intro budget_intros a)
  show b: "budgeted (phase_mappings_are_compatible_fuel n before after phase i j)" for n i j
    by (induction n arbitrary: i j) (auto simp only: phase_mappings_are_compatible_fuel.simps intro!: budget_intros)
  show "budgeted (phase_mappings_are_compatible before after phase i j)"
    unfolding phase_mappings_are_compatible_def by (rule b)
qed

lemma budgeted_candidates [budget_intros]:
  "budgeted (verified_shape_classes before after bs as)" "budgeted (verified_candidate_groups before after phase cs)"
  "budgeted (ordered_interaction_components cg bs as)"
proof -
  show "budgeted (verified_shape_classes before after bs as)"
    unfolding verified_shape_classes_def partition_index_bucket_def partition_before_def partition_after_def matching_class_def
    by (intro budget_intros)
  have a: "budgeted (class_groups before after phase c)" for c
    unfolding class_groups_def connect_candidate_def Let_def by (intro budget_intros)
  show "budgeted (verified_candidate_groups before after phase cs)"
    unfolding verified_candidate_groups_def index_group_def insert_fresh_def by (intro budget_intros a)
  show "budgeted (ordered_interaction_components cg bs as)"
    unfolding ordered_interaction_components_def scan_position_def Let_def by (intro budget_intros)
qed

lemma budgeted_stable_core [budget_intros]:
  "budgeted (verify_bounded_component before after phase cg c)" "budgeted (oversized_alignment cg c)"
  "budgeted (independent_stable_core before after phase bs as)" "budgeted (verify_stable_core to_hex before after m)"
proof -
  have cell: "budgeted (scan_cell cg bs as cs p s n x t y)" for cg bs as cs p s n x t y
    unfolding scan_cell_def group_lookup_def Let_def by (intro budget_intros)
  show a: "budgeted (verify_bounded_component before after phase cg c)" for phase cg c
    unfolding verify_bounded_component_def bounded_outcome_def candidate_matrix_def candidate_cell_def group_lookup_def Let_def
    by (intro budget_intros cell)
  show b: "budgeted (oversized_alignment cg c)" for cg c
    unfolding oversized_alignment_def Let_def by (intro budget_intros)
  show d: "budgeted (independent_stable_core before after phase bs as)" for phase bs as
    unfolding independent_stable_core_def Let_def by (intro budget_intros a b)
  show "budgeted (verify_stable_core to_hex before after m)"
    unfolding verify_stable_core_def core_region_def check_forced_def push_ambiguity_def node_refs_def
    by (intro budget_intros d)
qed

lemma budgeted_changes [budget_intros]:
  "budgeted (derive_changes to_hex before after m groups)"
  "budgeted (verify_ambiguity_node_references to_hex report before after)"
  "budgeted (verify_change_node_references to_hex report before after)"
proof -
  have a: "budgeted (relation_change to_hex before after m cs r)" for cs r
    by (auto simp: relation_change_def Let_def intro!: budget_intros split: correspondence.split)
  show "budgeted (derive_changes to_hex before after m groups)"
    unfolding derive_changes_def formatting_change_def order_change_def Let_def by (intro budget_intros a)
  have b: "budgeted (check_ambiguity_group to_hex before after g)" for g
    unfolding check_ambiguity_group_def check_endpoint_def check_exact_alignment_def check_possible_pair_def Let_def
    by (auto intro!: budget_intros split: ambiguity_constraint.split)
  show "budgeted (verify_ambiguity_node_references to_hex report before after)"
    unfolding verify_ambiguity_node_references_def by (intro budget_intros b)
  show "budgeted (verify_change_node_references to_hex report before after)"
    unfolding verify_change_node_references_def check_optional_ref_def by (intro budget_intros)
qed

end
