(* ===== verification/Json_Preflight.thy ===== *)
theory Json_Preflight
  imports Verification_Limits
begin

text \<open>
  The streaming count of the collections of a serialised report (\<open>json_preflight.rs\<close>), which runs before
  the report is decoded: every element of a known array is counted when it is met, and the scan stops at
  the first count over its limit.

  \<open>serde_json\<close> is not modelled; it presents a document as a \<open>json_value\<close>, in the order it is read.
  A place where the document breaks off or is not JSON is explicit: \<open>JBroken\<close> for a value that cannot be
  read, the flag \<open>False\<close> of an array or object for an error where its next element or key is expected.
\<close>

section \<open>Documents as they are read\<close>

datatype json_value =
    JNull
  | JBool bool
  | JNumber string
  | JString string
  | JArray "json_value list" bool
  | JObject "json_member list" bool
  | JBroken
and json_member = Member string json_value

section \<open>The scanner\<close>

definition MAX_RELATION_EVIDENCE :: nat where
  "MAX_RELATION_EVIDENCE = 4"

record scanner =
  sc_relations :: nat
  sc_ambiguity_groups :: nat
  sc_ambiguity_endpoints :: nat
  sc_ambiguity_pairs :: nat
  sc_changes :: nat
  sc_patch_edits :: nat

definition scanner_new :: scanner where
  "scanner_new = \<lparr>sc_relations = 0, sc_ambiguity_groups = 0, sc_ambiguity_endpoints = 0, sc_ambiguity_pairs = 0,
     sc_changes = 0, sc_patch_edits = 0\<rparr>"

datatype object_kind = ReportObject | RelationObject | AmbiguityObject | ConstraintObject | PatchObject

datatype sequence_kind =
    RelationSequence | AmbiguitySequence | ChangeSequence | PatchEditSequence | AmbiguityEndpointSequence
  | AmbiguityPairSequence | EvidenceSequence

datatype field =
    RelationsField | AmbiguitiesField | ChangesField | PatchField | EvidenceField | BeforeField | AfterField
  | ConstraintField | PossiblePairsField | EditsField | OtherField

definition field_of :: "string \<Rightarrow> field" where
  "field_of value =
     (if value = ''relations'' then RelationsField
      else if value = ''ambiguities'' then AmbiguitiesField
      else if value = ''changes'' then ChangesField
      else if value = ''patch'' then PatchField
      else if value = ''evidence'' then EvidenceField
      else if value = ''before'' then BeforeField
      else if value = ''after'' then AfterField
      else if value = ''constraint'' then ConstraintField
      else if value = ''possible_pairs'' then PossiblePairsField
      else if value = ''edits'' then EditsField
      else OtherField)"

definition count_element :: "quantity \<Rightarrow> nat \<Rightarrow> nat \<Rightarrow> nat result" where
  "count_element label observed limit =
     rbind (of_option (CapacityExceeded label) (usize_checked_add observed 1)) (\<lambda>next.
       if next > limit then Inl (LimitExceeded label next limit) else Inr next)"

text \<open>\<open>Scanner::count\<close>; the evidence counter belongs to the array that is being read.\<close>

fun scanner_count :: "verification_limits \<Rightarrow> sequence_kind \<Rightarrow> scanner \<Rightarrow> nat \<Rightarrow> (scanner \<times> nat) result" where
  "scanner_count limits RelationSequence s evidence =
     rbind (count_element RelationCount (sc_relations s) (max_relations limits)) (\<lambda>n. Inr (s\<lparr>sc_relations := n\<rparr>, evidence))"
| "scanner_count limits AmbiguitySequence s evidence =
     rbind (count_element AmbiguityGroupCount (sc_ambiguity_groups s) (max_ambiguity_groups limits)) (\<lambda>n.
       Inr (s\<lparr>sc_ambiguity_groups := n\<rparr>, evidence))"
| "scanner_count limits ChangeSequence s evidence =
     rbind (count_element ChangeCount (sc_changes s) (max_changes limits)) (\<lambda>n. Inr (s\<lparr>sc_changes := n\<rparr>, evidence))"
| "scanner_count limits PatchEditSequence s evidence =
     rbind (count_element PatchEditCount (sc_patch_edits s) (max_patch_edits limits)) (\<lambda>n. Inr (s\<lparr>sc_patch_edits := n\<rparr>, evidence))"
| "scanner_count limits AmbiguityEndpointSequence s evidence =
     rbind (count_element AmbiguityEndpointCount (sc_ambiguity_endpoints s) (max_ambiguity_endpoints limits)) (\<lambda>n.
       Inr (s\<lparr>sc_ambiguity_endpoints := n\<rparr>, evidence))"
| "scanner_count limits AmbiguityPairSequence s evidence =
     rbind (count_element AmbiguityPairCount (sc_ambiguity_pairs s) (max_ambiguity_pairs limits)) (\<lambda>n.
       Inr (s\<lparr>sc_ambiguity_pairs := n\<rparr>, evidence))"
| "scanner_count limits EvidenceSequence s evidence =
     rbind (count_element RelationEvidenceCount evidence MAX_RELATION_EVIDENCE) (\<lambda>n. Inr (s, n))"

section \<open>The walk\<close>

text \<open>The table of \<open>visit_map\<close>: what the value of a field is read as.\<close>

datatype role = AsSequence sequence_kind | AsObject object_kind | Ignored

fun member_role :: "object_kind \<Rightarrow> field \<Rightarrow> role" where
  "member_role ReportObject RelationsField = AsSequence RelationSequence"
| "member_role ReportObject AmbiguitiesField = AsSequence AmbiguitySequence"
| "member_role ReportObject ChangesField = AsSequence ChangeSequence"
| "member_role ReportObject PatchField = AsObject PatchObject"
| "member_role RelationObject EvidenceField = AsSequence EvidenceSequence"
| "member_role AmbiguityObject BeforeField = AsSequence AmbiguityEndpointSequence"
| "member_role AmbiguityObject AfterField = AsSequence AmbiguityEndpointSequence"
| "member_role AmbiguityObject ConstraintField = AsObject ConstraintObject"
| "member_role ConstraintObject PossiblePairsField = AsSequence AmbiguityPairSequence"
| "member_role PatchObject EditsField = AsSequence PatchEditSequence"
| "member_role _ _ = Ignored"

text \<open>What an element of an array is read as (\<open>ElementSeed\<close>).\<close>

fun element_role :: "sequence_kind \<Rightarrow> role" where
  "element_role RelationSequence = AsObject RelationObject"
| "element_role AmbiguitySequence = AsObject AmbiguityObject"
| "element_role _ = Ignored"

text \<open>\<open>IgnoredAny\<close> reads any value to its end.\<close>

fun readable :: "json_value \<Rightarrow> bool" and readable_member :: "json_member \<Rightarrow> bool" where
  "readable (JArray xs closed) \<longleftrightarrow> list_all readable xs \<and> closed"
| "readable (JObject fs closed) \<longleftrightarrow> list_all readable_member fs \<and> closed"
| "readable JBroken \<longleftrightarrow> False"
| "readable _ \<longleftrightarrow> True"
| "readable_member (Member k v) \<longleftrightarrow> readable v"

text \<open>
  \<open>ObjectSeed\<close>, \<open>SequenceSeed\<close> and \<open>ElementSeed\<close>. A value of the wrong type is the data error of serde, an
  unreadable one its syntax error.
\<close>

fun scan_value :: "verification_limits \<Rightarrow> role \<Rightarrow> scanner \<Rightarrow> json_value \<Rightarrow> scanner result"
and scan_members :: "verification_limits \<Rightarrow> object_kind \<Rightarrow> scanner \<Rightarrow> json_member list \<Rightarrow> scanner result"
and scan_member :: "verification_limits \<Rightarrow> object_kind \<Rightarrow> scanner \<Rightarrow> json_member \<Rightarrow> scanner result"
and scan_elements :: "verification_limits \<Rightarrow> sequence_kind \<Rightarrow> scanner \<Rightarrow> nat \<Rightarrow> json_value list \<Rightarrow> scanner result" where
  "scan_value limits Ignored s v = (if readable v then Inr s else Inl JsonSyntax)"
| "scan_value limits (AsObject kind) s v =
     (case v of
        JObject fs closed \<Rightarrow> rbind (scan_members limits kind s fs) (\<lambda>s'. if closed then Inr s' else Inl JsonSyntax)
      | JBroken \<Rightarrow> Inl JsonSyntax
      | _ \<Rightarrow> Inl JsonDecode)"
| "scan_value limits (AsSequence kind) s v =
     (case v of
        JArray xs closed \<Rightarrow> rbind (scan_elements limits kind s 0 xs) (\<lambda>s'. if closed then Inr s' else Inl JsonSyntax)
      | JBroken \<Rightarrow> Inl JsonSyntax
      | _ \<Rightarrow> Inl JsonDecode)"
| "scan_members limits kind s [] = Inr s"
| "scan_members limits kind s (f # fs) = rbind (scan_member limits kind s f) (\<lambda>s'. scan_members limits kind s' fs)"
| "scan_member limits kind s (Member key v) = scan_value limits (member_role kind (field_of key)) s v"
| "scan_elements limits kind s evidence [] = Inr s"
| "scan_elements limits kind s evidence (v # vs) =
     rbind (scanner_count limits kind s evidence) (\<lambda>(s', evidence').
     rbind (scan_value limits (element_role kind) s' v) (\<lambda>s''. scan_elements limits kind s'' evidence' vs))"

text \<open>\<open>serde_json\<close> as a parameter: the document of a byte string, and whether nothing but white space follows it.\<close>

type_synonym json_reader = "bytes \<Rightarrow> json_value \<times> bool"

definition preflight_json_collections :: "json_reader \<Rightarrow> bytes \<Rightarrow> verification_limits \<Rightarrow> unit result" where
  "preflight_json_collections reader octets limits =
     (case reader octets of (document, ended) \<Rightarrow>
        rbind (scan_value limits (AsObject ReportObject) scanner_new document) (\<lambda>_.
          if ended then Inr () else Inl JsonSyntax))"

section \<open>What the scan accepts\<close>

text \<open>The shape a document must have: known objects and arrays where the scan expects them, everything readable.\<close>

fun shaped :: "role \<Rightarrow> json_value \<Rightarrow> bool"
and shaped_members :: "object_kind \<Rightarrow> json_member list \<Rightarrow> bool"
and shaped_member :: "object_kind \<Rightarrow> json_member \<Rightarrow> bool"
and shaped_elements :: "sequence_kind \<Rightarrow> json_value list \<Rightarrow> bool" where
  "shaped Ignored v \<longleftrightarrow> readable v"
| "shaped (AsObject kind) v \<longleftrightarrow> (case v of JObject fs closed \<Rightarrow> shaped_members kind fs \<and> closed | _ \<Rightarrow> False)"
| "shaped (AsSequence kind) v \<longleftrightarrow> (case v of JArray xs closed \<Rightarrow> shaped_elements kind xs \<and> closed \<and>
      (kind = EvidenceSequence \<longrightarrow> length xs \<le> MAX_RELATION_EVIDENCE) | _ \<Rightarrow> False)"
| "shaped_members kind [] \<longleftrightarrow> True"
| "shaped_members kind (f # fs) \<longleftrightarrow> shaped_member kind f \<and> shaped_members kind fs"
| "shaped_member kind (Member key v) \<longleftrightarrow> shaped (member_role kind (field_of key)) v"
| "shaped_elements kind [] \<longleftrightarrow> True"
| "shaped_elements kind (v # vs) \<longleftrightarrow> shaped (element_role kind) v \<and> shaped_elements kind vs"

text \<open>How many elements of a kind a document holds in all its arrays of that kind together.\<close>

fun tally :: "sequence_kind \<Rightarrow> role \<Rightarrow> json_value \<Rightarrow> nat"
and tally_members :: "sequence_kind \<Rightarrow> object_kind \<Rightarrow> json_member list \<Rightarrow> nat"
and tally_member :: "sequence_kind \<Rightarrow> object_kind \<Rightarrow> json_member \<Rightarrow> nat"
and tally_elements :: "sequence_kind \<Rightarrow> sequence_kind \<Rightarrow> json_value list \<Rightarrow> nat" where
  "tally q Ignored v = 0"
| "tally q (AsObject kind) v = (case v of JObject fs closed \<Rightarrow> tally_members q kind fs | _ \<Rightarrow> 0)"
| "tally q (AsSequence kind) v = (case v of JArray xs closed \<Rightarrow> tally_elements q kind xs | _ \<Rightarrow> 0)"
| "tally_members q kind [] = 0"
| "tally_members q kind (f # fs) = tally_member q kind f + tally_members q kind fs"
| "tally_member q kind (Member key v) = tally q (member_role kind (field_of key)) v"
| "tally_elements q kind [] = 0"
| "tally_elements q kind (v # vs) = (if q = kind then 1 else 0) + tally q (element_role kind) v + tally_elements q kind vs"

fun seen :: "scanner \<Rightarrow> sequence_kind \<Rightarrow> nat" where
  "seen s RelationSequence = sc_relations s"
| "seen s AmbiguitySequence = sc_ambiguity_groups s"
| "seen s ChangeSequence = sc_changes s"
| "seen s PatchEditSequence = sc_patch_edits s"
| "seen s AmbiguityEndpointSequence = sc_ambiguity_endpoints s"
| "seen s AmbiguityPairSequence = sc_ambiguity_pairs s"
| "seen s EvidenceSequence = 0"

fun sequence_limit :: "verification_limits \<Rightarrow> sequence_kind \<Rightarrow> nat" where
  "sequence_limit limits RelationSequence = max_relations limits"
| "sequence_limit limits AmbiguitySequence = max_ambiguity_groups limits"
| "sequence_limit limits ChangeSequence = max_changes limits"
| "sequence_limit limits PatchEditSequence = max_patch_edits limits"
| "sequence_limit limits AmbiguityEndpointSequence = max_ambiguity_endpoints limits"
| "sequence_limit limits AmbiguityPairSequence = max_ambiguity_pairs limits"
| "sequence_limit limits EvidenceSequence = 0"

definition scanner_of :: "(sequence_kind \<Rightarrow> nat) \<Rightarrow> scanner" where
  "scanner_of f = \<lparr>sc_relations = f RelationSequence, sc_ambiguity_groups = f AmbiguitySequence,
     sc_ambiguity_endpoints = f AmbiguityEndpointSequence, sc_ambiguity_pairs = f AmbiguityPairSequence,
     sc_changes = f ChangeSequence, sc_patch_edits = f PatchEditSequence\<rparr>"

lemma scanner_of_seen: "scanner_of (seen s) = s"
  by (simp add: scanner_of_def)

lemma seen_scanner_of: "seen (scanner_of f) q = (if q = EvidenceSequence then 0 else f q)"
  by (cases q) (simp_all add: scanner_of_def)

lemma scanner_of_cong: "(\<And>q. q \<noteq> EvidenceSequence \<Longrightarrow> f q = g q) \<Longrightarrow> scanner_of f = scanner_of g"
  by (simp add: scanner_of_def)

definition within_limits :: "verification_limits \<Rightarrow> (sequence_kind \<Rightarrow> nat) \<Rightarrow> bool" where
  "within_limits limits f \<longleftrightarrow> (\<forall>q. q \<noteq> EvidenceSequence \<longrightarrow> f q \<le> min (sequence_limit limits q) usize_max)"

lemma within_limits_mono: "within_limits limits f \<Longrightarrow> (\<And>q. g q \<le> f q) \<Longrightarrow> within_limits limits g"
  unfolding within_limits_def by (meson le_trans)

lemma count_element_Inr: "count_element q n limit = Inr k \<longleftrightarrow> k = Suc n \<and> Suc n \<le> limit \<and> Suc n \<le> usize_max"
  by (auto simp: count_element_def usize_checked_add_def)

definition bump :: "sequence_kind \<Rightarrow> scanner \<Rightarrow> scanner" where
  "bump kind s = scanner_of (\<lambda>q. seen s q + (if q = kind then 1 else 0))"

lemma scanner_count_Inr:
  "scanner_count limits kind s e = Inr (s', e') \<longleftrightarrow>
     s' = bump kind s \<and>
     (if kind = EvidenceSequence then e' = Suc e \<and> Suc e \<le> MAX_RELATION_EVIDENCE
      else e' = e \<and> seen s kind + 1 \<le> min (sequence_limit limits kind) usize_max)"
proof -
  have four: "MAX_RELATION_EVIDENCE \<le> usize_max" by (simp add: MAX_RELATION_EVIDENCE_def usize_max_def)
  show ?thesis
    using four
    by (cases kind) (auto simp: rbind_Inr_iff count_element_Inr bump_def scanner_of_def)
qed

lemma bump_within:
  assumes "within_limits limits (seen s)"
  shows "within_limits limits (\<lambda>q. seen s q + (if q = kind then 1 else 0)) \<longleftrightarrow>
    (kind = EvidenceSequence \<or> seen s kind + 1 \<le> min (sequence_limit limits kind) usize_max)"
  using assms by (auto simp: within_limits_def)

text \<open>
  The scan succeeds exactly on the shaped documents whose totals stay within the limits, and then the
  counters have moved by the totals.
\<close>

definition advanced :: "verification_limits \<Rightarrow> scanner \<Rightarrow> (sequence_kind \<Rightarrow> nat) \<Rightarrow> scanner \<Rightarrow> bool" where
  "advanced limits s f s' \<longleftrightarrow> within_limits limits (\<lambda>q. seen s q + f q) \<and> s' = scanner_of (\<lambda>q. seen s q + f q)"

lemma advanced_within: "advanced limits s f s' \<Longrightarrow> within_limits limits (seen s')"
  by (auto simp: advanced_def within_limits_def seen_scanner_of)

lemma advanced_trans:
  "(\<exists>t. advanced limits s f t \<and> advanced limits t g u) \<longleftrightarrow> advanced limits s (\<lambda>q. f q + g q) u"
proof
  assume "\<exists>t. advanced limits s f t \<and> advanced limits t g u"
  then obtain t where t: "advanced limits s f t" "advanced limits t g u" by blast
  then have "seen t q = (if q = EvidenceSequence then 0 else seen s q + f q)" for q
    by (simp add: advanced_def seen_scanner_of)
  with t(2) show "advanced limits s (\<lambda>q. f q + g q) u"
    unfolding advanced_def
    by (auto simp: within_limits_def add.assoc intro!: scanner_of_cong)
next
  assume u: "advanced limits s (\<lambda>q. f q + g q) u"
  let ?t = "scanner_of (\<lambda>q. seen s q + f q)"
  have "advanced limits s f ?t"
    using u within_limits_mono [of limits "\<lambda>q. seen s q + (f q + g q)" "\<lambda>q. seen s q + f q"] by (simp add: advanced_def)
  moreover have "advanced limits ?t g u"
    using u unfolding advanced_def
    by (auto simp: within_limits_def seen_scanner_of add.assoc intro!: scanner_of_cong)
  ultimately show "\<exists>t. advanced limits s f t \<and> advanced limits t g u" by blast
qed

lemma advanced_none: "within_limits limits (seen s) \<Longrightarrow> advanced limits s (\<lambda>q. 0) s' \<longleftrightarrow> s' = s"
  by (simp add: advanced_def scanner_of_seen)

lemma advanced_bump:
  assumes "within_limits limits (seen s)"
  shows "advanced limits s (\<lambda>q. if q = kind then 1 else 0) s' \<longleftrightarrow>
    s' = bump kind s \<and> (kind = EvidenceSequence \<or> seen s kind + 1 \<le> min (sequence_limit limits kind) usize_max)"
  using bump_within [OF assms, of kind] by (auto simp: advanced_def bump_def)

lemma scan_Inr:
  "within_limits limits (seen s) \<Longrightarrow>
     scan_value limits role s v = Inr s' \<longleftrightarrow> shaped role v \<and> advanced limits s (\<lambda>q. tally q role v) s'"
  "within_limits limits (seen s) \<Longrightarrow>
     scan_members limits kind s fs = Inr s' \<longleftrightarrow> shaped_members kind fs \<and> advanced limits s (\<lambda>q. tally_members q kind fs) s'"
  "within_limits limits (seen s) \<Longrightarrow>
     scan_member limits kind s f = Inr s' \<longleftrightarrow> shaped_member kind f \<and> advanced limits s (\<lambda>q. tally_member q kind f) s'"
  "within_limits limits (seen s) \<Longrightarrow> e \<le> MAX_RELATION_EVIDENCE \<Longrightarrow>
     scan_elements limits sq s e vs = Inr s' \<longleftrightarrow> shaped_elements sq vs \<and>
       (sq = EvidenceSequence \<longrightarrow> e + length vs \<le> MAX_RELATION_EVIDENCE) \<and> advanced limits s (\<lambda>q. tally_elements q sq vs) s'"
proof (induction limits role s v and limits kind s fs and limits kind s f and limits sq s e vs
    arbitrary: s' and s' and s' and s'
    rule: scan_value_scan_members_scan_member_scan_elements.induct)
  case (5 limits kind s f fs)
  have "scan_members limits kind s (f # fs) = Inr s' \<longleftrightarrow>
    (\<exists>t. scan_member limits kind s f = Inr t \<and> scan_members limits kind t fs = Inr s')"
    by (simp add: rbind_Inr_iff)
  also have "\<dots> \<longleftrightarrow> shaped_members kind (f # fs) \<and>
      (\<exists>t. advanced limits s (\<lambda>q. tally_member q kind f) t \<and> advanced limits t (\<lambda>q. tally_members q kind fs) s')"
    using 5 advanced_within by auto
  finally show ?case by (simp add: advanced_trans)
next
  case (8 limits kind s e v vs)
  have step: "scan_elements limits kind s e (v # vs) = Inr s' \<longleftrightarrow>
    (\<exists>t e' u. scanner_count limits kind s e = Inr (t, e') \<and> scan_value limits (element_role kind) t v = Inr u \<and>
       scan_elements limits kind u e' vs = Inr s')"
    by (auto simp: rbind_Inr_iff)
  have inner: "scan_value limits (element_role kind) t v = Inr u \<and> scan_elements limits kind u e' vs = Inr s' \<longleftrightarrow>
      shaped (element_role kind) v \<and> shaped_elements kind vs \<and> (kind = EvidenceSequence \<longrightarrow> e' + length vs \<le> MAX_RELATION_EVIDENCE) \<and>
      advanced limits t (\<lambda>q. tally q (element_role kind) v) u \<and> advanced limits u (\<lambda>q. tally_elements q kind vs) s'"
    if count: "scanner_count limits kind s e = Inr (t, e')" for t e' u
  proof -
    have t: "advanced limits s (\<lambda>q. if q = kind then 1 else 0) t" and e': "e' \<le> MAX_RELATION_EVIDENCE"
      using count 8 by (auto simp: scanner_count_Inr advanced_bump split: if_splits)
    note within = advanced_within [OF t]
    show ?thesis
      using 8(1) [OF count refl within, of u] 8(2) [OF count refl _ _ e', of u s'] advanced_within [of limits t _ u] by auto
  qed
  have bumped: "(\<exists>e'. scanner_count limits kind s e = Inr (t, e') \<and> (kind = EvidenceSequence \<longrightarrow> e' + length vs \<le> MAX_RELATION_EVIDENCE)) \<longleftrightarrow>
      advanced limits s (\<lambda>q. if q = kind then 1 else 0) t \<and> (kind = EvidenceSequence \<longrightarrow> e + length (v # vs) \<le> MAX_RELATION_EVIDENCE)" for t
    using 8 by (auto simp: scanner_count_Inr advanced_bump)
  have "scan_elements limits kind s e (v # vs) = Inr s' \<longleftrightarrow> shaped_elements kind (v # vs) \<and>
      (kind = EvidenceSequence \<longrightarrow> e + length (v # vs) \<le> MAX_RELATION_EVIDENCE) \<and>
      (\<exists>t. advanced limits s (\<lambda>q. if q = kind then 1 else 0) t \<and>
        (\<exists>u. advanced limits t (\<lambda>q. tally q (element_role kind) v) u \<and> advanced limits u (\<lambda>q. tally_elements q kind vs) s'))"
    unfolding step using inner bumped by (simp only: shaped_elements.simps) blast
  then show ?case by (simp add: advanced_trans add.assoc)
next
  case (2 limits kind s v)
  then show ?case by (cases v) (auto simp: rbind_Inr_iff split: if_splits)
next
  case (3 limits kind s v)
  then show ?case by (cases v) (auto simp: rbind_Inr_iff split: if_splits)
qed (auto simp: advanced_none)

lemma preflight_json_accepts:
  "preflight_json_collections reader octets limits = Inr () \<longleftrightarrow>
     shaped (AsObject ReportObject) (fst (reader octets)) \<and> snd (reader octets) \<and>
     within_limits limits (\<lambda>q. tally q (AsObject ReportObject) (fst (reader octets)))"
proof -
  have start: "within_limits limits (seen scanner_new)" and zero: "\<And>q. seen scanner_new q = 0"
    by (auto simp: within_limits_def scanner_new_def seen.simps) (case_tac q; simp)+
  show ?thesis
    using scan_Inr(1) [OF start, of "AsObject ReportObject" "fst (reader octets)"]
    unfolding preflight_json_collections_def case_prod_beta
    by (auto simp: rbind_Inr_iff advanced_def zero simp del: scan_value.simps shaped.simps tally.simps split: if_splits)
qed

lemma count_element_failure: "count_element q n l = Inl e \<Longrightarrow> \<not> crash e"
  by (auto simp: count_element_def usize_checked_add_def split: if_splits)

lemma scanner_count_failure: "scanner_count limits kind s n = Inl e \<Longrightarrow> \<not> crash e"
  by (cases kind) (auto simp: rbind_def dest: count_element_failure split: sum.splits)

lemma scan_failure:
  "scan_value limits role s v = Inl e \<Longrightarrow> \<not> crash e"
  "scan_members limits kind s fs = Inl e \<Longrightarrow> \<not> crash e"
  "scan_member limits kind s f = Inl e \<Longrightarrow> \<not> crash e"
  "scan_elements limits sq s n vs = Inl e \<Longrightarrow> \<not> crash e"
proof (induction limits role s v and limits kind s fs and limits kind s f and limits sq s n vs
    rule: scan_value_scan_members_scan_member_scan_elements.induct)
qed (auto simp: rbind_def dest: scanner_count_failure split: if_splits sum.splits json_value.splits; blast)+

lemma preflight_json_not_crash: "preflight_json_collections reader octets limits = Inl e \<Longrightarrow> \<not> crash e"
  by (auto simp: preflight_json_collections_def rbind_def dest: scan_failure simp del: scan_value.simps
      split: prod.splits sum.splits if_splits)

section \<open>Properties\<close>

text \<open>C30: the streaming preflight accepts exactly the documents that are readable to their end, have objects and arrays where
  a report has them, at most four evidence labels per relation, and no collection whose total number of elements,
  over all arrays of its kind, exceeds its limit; repeated keys cannot hide elements from the count.\<close>

theorem json_preflight_exact:
  "preflight_json_collections reader octets limits = Inr () \<longleftrightarrow>
     shaped (AsObject ReportObject) (fst (reader octets)) \<and> snd (reader octets) \<and>
     within_limits limits (\<lambda>q. tally q (AsObject ReportObject) (fst (reader octets)))"
  by (rule preflight_json_accepts)

end
