(* ===== verification/Verifier.thy ===== *)
theory Verifier
  imports Work_Bounds Patch_Replay Language Json_Preflight Syntax_Parse
begin

text \<open>
  The entry points of \<open>crates/stratadiff-verifier\<close> and the verification of one report
  (\<open>verify_report_inner\<close>): limits and header, artifacts, patch and certificate, two fresh parses, the
  relations with their anchors, the stable core, the derived changes and the summary.

  The code outside the repository is collected in one record of functions: BLAKE3 and its hex form, the
  base64 decoder, tree-sitter and its grammars, the iteration order of a hash map, and serde.
\<close>

section \<open>Code outside the repository\<close>

record externals =
  ext_blake3 :: "bytes \<Rightarrow> bytes"
  ext_to_hex :: "bytes \<Rightarrow> string"
  ext_base64 :: "string \<Rightarrow> bytes option"
  ext_tree_sitter :: ts_runtime
  ext_order :: "exact_buckets \<Rightarrow> exact_buckets"
  ext_json_chunks :: "diff_report \<Rightarrow> bytes list"
  ext_json_reader :: json_reader
  ext_json_report :: "bytes \<Rightarrow> diff_report option"

definition REPORT_ENGINE_VERSION :: string where
  "REPORT_ENGINE_VERSION = ''0.5.0''"

definition digest :: "externals \<Rightarrow> bytes \<Rightarrow> string" where
  "digest ext octets = ext_to_hex ext (ext_blake3 ext octets)"

section \<open>Header, artifacts, patch and certificate\<close>

definition verify_header :: "diff_report \<Rightarrow> unit result" where
  "verify_header report =
     rbind (rensure (schema report = REPORT_SCHEMA) (ReportFailure UnsupportedSchema)) (\<lambda>_.
       rensure (engine_version report = REPORT_ENGINE_VERSION) (ReportFailure UnsupportedEngineVersion))"

definition verify_artifact :: "externals \<Rightarrow> artifact \<Rightarrow> bytes \<Rightarrow> unit result" where
  "verify_artifact ext art octets =
     rbind (rensure (byte_len art = length octets) (ReportFailure ArtifactLengthMismatch)) (\<lambda>_.
       rensure (artifact_blake3 art = digest ext octets) (ReportFailure ArtifactDigestMismatch))"

definition verify_patch_and_certificate ::
  "externals \<Rightarrow> diff_report \<Rightarrow> bytes \<Rightarrow> bytes \<Rightarrow> verification_limits \<Rightarrow> bytes option \<Rightarrow> unit result" where
  "verify_patch_and_certificate ext report before after limits replayed =
     (let cert = certificate report; before_hash = digest ext before; after_hash = digest ext after in
      rbind (rensure (patch_verified cert) (ReportFailure NoReconstructionCertificate)) (\<lambda>_.
      rbind (rensure (\<not> (before_len cert \<noteq> length before \<or> after_len cert \<noteq> length after))
               (ReportFailure CertificateLengthMismatch)) (\<lambda>_.
      rbind (rensure (\<not> (before_blake3 cert \<noteq> before_hash \<or> after_blake3 cert \<noteq> after_hash
                  \<or> before_blake3 cert \<noteq> artifact_blake3 (report_before report)
                  \<or> after_blake3 cert \<noteq> artifact_blake3 (report_after report)))
               (ReportFailure CertificateHashMismatch)) (\<lambda>_.
      rbind (case replayed of
               Some octets \<Rightarrow> Inr octets
             | None \<Rightarrow> replay_patch_with_limits (ext_base64 ext) before (patch report) limits) (\<lambda>reconstructed.
      rbind (rensure (reconstructed = after) (ReportFailure ReplayDiffersFromAfter)) (\<lambda>_.
        rensure (\<not> (reconstructed_blake3 cert \<noteq> digest ext reconstructed \<or> reconstructed_blake3 cert \<noteq> after_hash))
          (ReportFailure ReconstructedHashMismatch)))))))"

definition verify_parser_manifest ::
  "externals \<Rightarrow> diff_report \<Rightarrow> parsed_syntax \<Rightarrow> parsed_syntax \<Rightarrow> unit result" where
  "verify_parser_manifest ext report before after =
     (let p = parser report; l = manifest_language p in
      rensure (\<not> (engine p \<noteq> parser_engine l
          \<or> runtime_version p \<noteq> parser_runtime_version l
          \<or> grammar_name p \<noteq> grammar_name_of l
          \<or> grammar_version p \<noteq> grammar_version_of l
          \<or> grammar_abi p \<noteq> grammar_abi_of (ext_tree_sitter ext) l
          \<or> node_types_blake3 p \<noteq> digest ext (as_bytes (node_types (ext_tree_sitter ext) l))
          \<or> coordinate_unit p \<noteq> coordinate_unit_of l
          \<or> manifest_root_kind p \<noteq> ps_root_kind before
          \<or> manifest_root_kind p \<noteq> ps_root_kind after
          \<or> before_nodes p \<noteq> length (ps_nodes before)
          \<or> after_nodes p \<noteq> length (ps_nodes after)
          \<or> \<not> error_free p)) (ReportFailure ParserManifestMismatch))"

section \<open>The structural claims\<close>

definition parse_limits_of :: "verification_limits \<Rightarrow> nat \<Rightarrow> parse_limits" where
  "parse_limits_of limits nodes =
     \<lparr>max_nodes = nodes, max_depth = max_syntax_depth limits, parse_limits.max_parse_callbacks = verification_limits.max_parse_callbacks limits\<rparr>"

definition expected_summary :: "diff_report \<Rightarrow> ambiguity_group list \<Rightarrow> structural_change list \<Rightarrow> summary" where
  "expected_summary report groups cs =
     \<lparr>model_forced_relations = length (filter (\<lambda>r. rel_correspondence r = ModelForced) (relations report)),
      suggested_relations = length (filter (\<lambda>r. rel_correspondence r = Suggested) (relations report)),
      summary.ambiguity_groups = length groups,
      structural_changes = length cs\<rparr>"

text \<open>\<open>WorkBudget::used\<close>\<close>

definition used :: "nat work" where
  "used = (\<lambda>w. Inr (wb_used w, w))"

text \<open>The claims about the two parses: everything between the parser manifest and the summary.\<close>

definition verify_claims ::
  "externals \<Rightarrow> diff_report \<Rightarrow> verification_stats \<Rightarrow> parsed_syntax \<Rightarrow> parsed_syntax \<Rightarrow> verification_stats work" where
  "verify_claims ext report stats before after =
     wbind (verify_relations (ext_to_hex ext) report before after) (\<lambda>m.
     wbind (global_exact_index before after) (\<lambda>index.
     wbind (verify_exact_anchor_evidence report before after m index) (\<lambda>_.
     wbind (verify_global_anchor_completeness (ext_order ext) before after m index) (\<lambda>_.
     wbind (verify_local_exact_relations before after m) (\<lambda>_.
     wbind (verify_stable_core (ext_to_hex ext) before after m) (\<lambda>expected_ambiguities.
     wbind (verify_ambiguity_node_references (ext_to_hex ext) report before after) (\<lambda>_.
     wbind (charge (length (ambiguities report))) (\<lambda>_.
     wbind (charge (st_ambiguity_endpoints stats)) (\<lambda>_.
     wbind (charge (st_ambiguity_pairs stats)) (\<lambda>_.
     wbind (wensure (ambiguities report = expected_ambiguities) (ReportFailure AmbiguitiesMismatch)) (\<lambda>_.
     wbind (derive_changes (ext_to_hex ext) before after m expected_ambiguities) (\<lambda>expected_changes.
     wbind (verify_change_node_references (ext_to_hex ext) report before after) (\<lambda>_.
     wbind (charge (length (changes report))) (\<lambda>_.
     wbind (wensure (changes report = expected_changes) (ReportFailure ChangesMismatch)) (\<lambda>_.
     wbind (charge (length (relations report))) (\<lambda>_.
     wbind (charge (length (relations report))) (\<lambda>_.
     wbind (wensure (report_summary report = expected_summary report expected_ambiguities expected_changes)
              (ReportFailure SummaryMismatch)) (\<lambda>_.
     wbind used (\<lambda>n. wreturn (stats\<lparr>st_verification_work := n\<rparr>))))))))))))))))))))"

definition verify_structure ::
  "externals \<Rightarrow> diff_report \<Rightarrow> bytes \<Rightarrow> bytes \<Rightarrow> verification_limits \<Rightarrow> verification_stats \<Rightarrow> verification_stats work" where
  "verify_structure ext report before after limits stats =
     wbind (wlift (parse_with_limits (ext_blake3 ext) (ext_tree_sitter ext) before (manifest_language (parser report))
              (parse_limits_of limits (max_syntax_nodes limits)))) (\<lambda>parsed_before.
     wbind (charge (length (ps_nodes parsed_before))) (\<lambda>_.
     wbind (wlift (of_option (ReportFailure BeforeNodesExceedLimit)
              (usize_checked_sub (max_syntax_nodes limits) (length (ps_nodes parsed_before))))) (\<lambda>remaining_nodes.
     wbind (wlift (parse_with_limits (ext_blake3 ext) (ext_tree_sitter ext) after (manifest_language (parser report))
              (parse_limits_of limits remaining_nodes))) (\<lambda>parsed_after.
     wbind (charge (length (ps_nodes parsed_after))) (\<lambda>_.
     wbind (wlift (checked_add SyntaxNodeCount (length (ps_nodes parsed_before)) (length (ps_nodes parsed_after)))) (\<lambda>nodes.
     wbind (wlift (verify_parser_manifest ext report parsed_before parsed_after)) (\<lambda>_.
       verify_claims ext report (stats\<lparr>st_syntax_nodes := nodes\<rparr>) parsed_before parsed_after)))))))"

definition verify_report_inner ::
  "externals \<Rightarrow> diff_report \<Rightarrow> bytes \<Rightarrow> bytes \<Rightarrow> verification_limits \<Rightarrow> nat \<Rightarrow> bytes option \<Rightarrow> verification_stats result" where
  "verify_report_inner ext report before after limits report_bytes replayed =
     rbind (preflight_report report report_bytes before after limits) (\<lambda>stats.
     rbind (verify_header report) (\<lambda>_.
     rbind (verify_artifact ext (report_before report) before) (\<lambda>_.
     rbind (verify_artifact ext (report_after report) after) (\<lambda>_.
     rbind (verify_patch_and_certificate ext report before after limits replayed) (\<lambda>_.
     rbind (verify_structure ext report before after limits stats (work_budget_new (max_verification_work limits))) (\<lambda>(stats, work).
       Inr stats))))))"

section \<open>Entry points\<close>

definition verify_and_replay_report_inner ::
  "externals \<Rightarrow> diff_report \<Rightarrow> bytes \<Rightarrow> verification_limits \<Rightarrow> nat \<Rightarrow> (bytes \<times> verification_stats) result" where
  "verify_and_replay_report_inner ext report before limits report_bytes =
     rbind (replay_patch_with_limits (ext_base64 ext) before (patch report) limits) (\<lambda>rebuilt.
     rbind (verify_report_inner ext report before rebuilt limits report_bytes (Some rebuilt)) (\<lambda>stats.
       Inr (rebuilt, stats)))"

definition decode_report_bytes :: "externals \<Rightarrow> bytes \<Rightarrow> verification_limits \<Rightarrow> diff_report result" where
  "decode_report_bytes ext report_bytes limits =
     rbind (check_limit ReportBytes (length report_bytes) (max_report_bytes limits)) (\<lambda>_.
     rbind (preflight_json_collections (ext_json_reader ext) report_bytes limits) (\<lambda>_.
       of_option JsonDecode (ext_json_report ext report_bytes)))"

definition verify_report_bytes ::
  "externals \<Rightarrow> bytes \<Rightarrow> bytes \<Rightarrow> bytes \<Rightarrow> verification_limits \<Rightarrow> verification_stats result" where
  "verify_report_bytes ext report_bytes before after limits =
     rbind (decode_report_bytes ext report_bytes limits) (\<lambda>report.
       verify_report_inner ext report before after limits (length report_bytes) None)"

definition verify_and_replay_report_bytes ::
  "externals \<Rightarrow> bytes \<Rightarrow> bytes \<Rightarrow> verification_limits \<Rightarrow> (bytes \<times> verification_stats) result" where
  "verify_and_replay_report_bytes ext report_bytes before limits =
     rbind (decode_report_bytes ext report_bytes limits) (\<lambda>report.
       verify_and_replay_report_inner ext report before limits (length report_bytes))"

definition verify_report_with_limits ::
  "externals \<Rightarrow> diff_report \<Rightarrow> bytes \<Rightarrow> bytes \<Rightarrow> verification_limits \<Rightarrow> verification_stats result" where
  "verify_report_with_limits ext report before after limits =
     rbind (measure_report_bytes (ext_json_chunks ext) report limits) (\<lambda>report_bytes.
       verify_report_inner ext report before after limits report_bytes None)"

definition verify_report :: "externals \<Rightarrow> diff_report \<Rightarrow> bytes \<Rightarrow> bytes \<Rightarrow> unit result" where
  "verify_report ext report before after =
     rbind (verify_report_with_limits ext report before after verification_limits_default) (\<lambda>_. Inr ())"

definition verify_and_replay_report_with_limits ::
  "externals \<Rightarrow> diff_report \<Rightarrow> bytes \<Rightarrow> verification_limits \<Rightarrow> (bytes \<times> verification_stats) result" where
  "verify_and_replay_report_with_limits ext report before limits =
     rbind (measure_report_bytes (ext_json_chunks ext) report limits) (\<lambda>report_bytes.
       verify_and_replay_report_inner ext report before limits report_bytes)"

section \<open>What acceptance means\<close>

text \<open>The structural claims of a report about two parsed snapshots.\<close>

definition claims_hold :: "(bytes \<Rightarrow> string) \<Rightarrow> parsed_syntax \<Rightarrow> parsed_syntax \<Rightarrow> diff_report \<Rightarrow> bool" where
  "claims_hold to_hex before after report \<longleftrightarrow>
     (\<exists>m. verified to_hex before after (relations report) m \<and>
        anchors_certified before after (relations report) m \<and> anchors_complete before after m \<and>
        locals_complete before after (relations report) m \<and>
        stable_core_ok to_hex before after (relations report) m (ambiguities report) \<and>
        changes report = sort_key change_order (expected_events to_hex before after m (ambiguities report)) \<and>
        report_summary report = expected_summary report (ambiguities report) (changes report))"

lemma claims_holdI:
  assumes "verified to_hex before after (relations report) m" "anchors_certified before after (relations report) m"
    "anchors_complete before after m" "locals_complete before after (relations report) m"
    "stable_core_ok to_hex before after (relations report) m groups" "ambiguities report = groups"
    "cs = sort_key change_order (expected_events to_hex before after m groups)" "changes report = cs"
    "report_summary report = expected_summary report groups cs"
  shows "claims_hold to_hex before after report"
proof -
  have g: "groups = ambiguities report" and c: "cs = changes report" using assms(6,8) by simp_all
  show ?thesis
    unfolding claims_hold_def
    by (intro exI [of _ m] conjI) (fact assms(1-5,7,9) [unfolded g c])+
qed

lemma valid_stable_core_safe:
  assumes "wf_syntax before" "wf_syntax after" "verified to_hex before after rs m"
  shows "valid (verify_stable_core to_hex before after m) safe (stable_core_ok to_hex before after rs m)"
  by (rule valid_conseq [OF valid_verify_stable_core [OF assms]]) (auto dest: core_failures_safe)

text \<open>What the verifier relies on: nodes inside the source, and a map iteration that visits every entry.\<close>

definition lawful :: "externals \<Rightarrow> bool" where
  "lawful ext \<longleftrightarrow> runtime_within (ext_tree_sitter ext) \<and> (\<forall>xs. set (ext_order ext xs) = set xs)"

lemma valid_used: "valid used E (\<lambda>_. True)"
  by (simp add: valid_def used_def)

lemma valid_verify_claims:
  assumes wf: "wf_syntax before" "wf_syntax after" and order: "\<forall>xs. set (ext_order ext xs) = set xs"
  shows "valid (verify_claims ext report stats before after) safe
    (\<lambda>s. claims_hold (ext_to_hex ext) before after report \<and> (\<exists>n. s = stats\<lparr>st_verification_work := n\<rparr>))"
  unfolding verify_claims_def
  apply (rule valid_bind [OF valid_verify_relations [OF wf]])
  apply (rule valid_bind [OF valid_safe [OF valid_global_exact_index [OF wf]]])
  subgoal premises facts for m index
    apply (rule valid_bind [OF valid_exact_anchor_evidence [OF wf facts]])
    apply (rule valid_bind [OF valid_global_anchor_completeness [OF wf facts]])
    subgoal using order by blast
    apply (rule valid_bind [OF valid_local_exact_relations [OF wf facts(1)]])
    apply (rule valid_bind [OF valid_stable_core_safe [OF wf facts(1)]])
    apply (rule valid_bind [OF valid_ambiguity_references [OF wf]])
    apply (rule valid_charge_bind, simp)+
    apply (rule valid_ensure_bind, simp)
    apply (rule valid_bind [OF valid_safe [OF valid_derive_changes [OF wf facts(1)]]])
    apply (rule valid_bind [OF valid_change_references])
    apply (rule valid_charge_bind, simp)
    apply (rule valid_ensure_bind, simp)
    apply (rule valid_charge_bind, simp)+
    apply (rule valid_ensure_bind, simp)
    apply (rule valid_bind [OF valid_used])
    apply (rule valid_return)
    apply (intro conjI claims_holdI [OF facts(1)] exI)
    apply (assumption | rule refl)+
    done
  done

text \<open>The two fresh parses and the manifest.\<close>

definition structure_holds ::
  "externals \<Rightarrow> diff_report \<Rightarrow> bytes \<Rightarrow> bytes \<Rightarrow> verification_limits \<Rightarrow> parsed_syntax \<Rightarrow> parsed_syntax \<Rightarrow> bool" where
  "structure_holds ext report before after limits pb pa \<longleftrightarrow>
     parse_with_limits (ext_blake3 ext) (ext_tree_sitter ext) before (manifest_language (parser report))
       (parse_limits_of limits (max_syntax_nodes limits)) = Inr pb \<and>
     parse_with_limits (ext_blake3 ext) (ext_tree_sitter ext) after (manifest_language (parser report))
       (parse_limits_of limits (max_syntax_nodes limits - length (ps_nodes pb))) = Inr pa \<and>
     verify_parser_manifest ext report pb pa = Inr () \<and>
     claims_hold (ext_to_hex ext) pb pa report"

lemma valid_verify_structure:
  assumes ext: "lawful ext"
  shows "valid (verify_structure ext report before after limits stats) safe
    (\<lambda>s. \<exists>pb pa n. structure_holds ext report before after limits pb pa \<and>
       s = stats\<lparr>st_syntax_nodes := length (ps_nodes pb) + length (ps_nodes pa), st_verification_work := n\<rparr>)"
  unfolding verify_structure_def
proof (intro valid_lift_bind valid_charge_bind)
  fix pb remaining pa nodes u
  assume pb: "parse_with_limits (ext_blake3 ext) (ext_tree_sitter ext) before (manifest_language (parser report))
       (parse_limits_of limits (max_syntax_nodes limits)) = Inr pb"
    and remaining: "of_option (ReportFailure BeforeNodesExceedLimit)
       (usize_checked_sub (max_syntax_nodes limits) (length (ps_nodes pb))) = Inr remaining"
    and pa: "parse_with_limits (ext_blake3 ext) (ext_tree_sitter ext) after (manifest_language (parser report))
       (parse_limits_of limits remaining) = Inr pa"
    and nodes: "checked_add SyntaxNodeCount (length (ps_nodes pb)) (length (ps_nodes pa)) = Inr nodes"
    and manifest: "verify_parser_manifest ext report pb pa = Inr u"
  have "remaining = max_syntax_nodes limits - length (ps_nodes pb)"
    using remaining by (auto simp: usize_checked_sub_def split: if_splits)
  moreover have "u = ()" by simp
  moreover have "valid (verify_claims ext report (stats\<lparr>st_syntax_nodes := nodes\<rparr>) pb pa) safe
    (\<lambda>s. claims_hold (ext_to_hex ext) pb pa report \<and> (\<exists>n. s = stats\<lparr>st_syntax_nodes := nodes\<rparr>\<lparr>st_verification_work := n\<rparr>))"
    using ext by (intro valid_verify_claims parse_wf(1) [OF pb] parse_wf(1) [OF pa]) (simp add: lawful_def)
  ultimately show "valid (verify_claims ext report (stats\<lparr>st_syntax_nodes := nodes\<rparr>) pb pa) safe
    (\<lambda>s. \<exists>pb pa n. structure_holds ext report before after limits pb pa \<and>
       s = stats\<lparr>st_syntax_nodes := length (ps_nodes pb) + length (ps_nodes pa), st_verification_work := n\<rparr>)"
    using pb pa manifest nodes
    by (elim valid_conseq) (auto simp: structure_holds_def intro!: exI [of _ pb] exI [of _ pa])
next
  fix e pb u remaining
  assume "parse_with_limits (ext_blake3 ext) (ext_tree_sitter ext) after (manifest_language (parser report))
       (parse_limits_of limits remaining) = Inl e"
  then show "safe e" using parse_failure ext by (fastforce simp: lawful_def)
next
  fix e
  assume "parse_with_limits (ext_blake3 ext) (ext_tree_sitter ext) before (manifest_language (parser report))
       (parse_limits_of limits (max_syntax_nodes limits)) = Inl e"
  then show "safe e" using parse_failure ext by (fastforce simp: lawful_def)
next
  fix e pb pa
  assume "verify_parser_manifest ext report pb pa = Inl e"
  then show "safe e" by (auto simp: verify_parser_manifest_def Let_def)
qed (auto simp: of_option_iff dest: checked_add_not_crash)

lemma budgeted_used [budget_intros]: "budgeted used"
  by (auto simp: budgeted_def under_limit_def used_def)

lemma budgeted_verify_structure: "budgeted (verify_structure ext report before after limits stats)"
  unfolding verify_structure_def verify_claims_def by (intro budget_intros)

section \<open>One verification\<close>

lemma replay_not_crash:
  assumes "base64_standard encode decode" "machine_sized (edits p)" "max_source_bytes limits + 2 \<le> usize_max"
    "replay_patch_with_limits decode before p limits = Inl e"
  shows "safe e"
  using assms(4) inspect_patch_not_crash unfolding base64_standard.replay_patch_eq [OF assms(1-3)]
  by (auto split: if_splits sum.splits)

text \<open>The values of a Rust report are machine integers; the limits leave room for the two framing bytes of replay.\<close>

definition machine_report :: "diff_report \<Rightarrow> verification_limits \<Rightarrow> bool" where
  "machine_report report limits \<longleftrightarrow> machine_sized (edits (patch report)) \<and> max_source_bytes limits + 2 \<le> usize_max"

lemma patch_check_not_crash:
  assumes "base64_standard encode (ext_base64 ext)" "machine_report report limits"
    "verify_patch_and_certificate ext report before after limits replayed = Inl e"
  shows "safe e"
  using assms(2,3) replay_not_crash [OF assms(1)]
  by (fastforce simp: verify_patch_and_certificate_def Let_def rbind_def machine_report_def
      split: sum.splits option.splits)

lemma verify_header_Inl: "verify_header report = Inl e \<Longrightarrow> safe e"
  by (auto simp: verify_header_def rbind_def split: sum.splits)

lemma verify_artifact_Inl: "verify_artifact ext a bs = Inl e \<Longrightarrow> safe e"
  by (auto simp: verify_artifact_def rbind_def split: sum.splits)

lemma valid_structure_run:
  assumes "lawful ext"
  shows "verify_structure ext report before after limits stats w = Inl e \<Longrightarrow> safe e"
    and "verify_structure ext report before after limits stats w = Inr (s, w') \<Longrightarrow>
      \<exists>pb pa n. structure_holds ext report before after limits pb pa \<and>
        s = stats\<lparr>st_syntax_nodes := length (ps_nodes pb) + length (ps_nodes pa), st_verification_work := n\<rparr>"
  using valid_verify_structure [OF assms, of report before after limits stats] by (auto dest: valid_failD validD)

text \<open>A certificate that states what was checked: the patch verified, the lengths of both snapshots, and the digests of
  both and of the reconstruction.\<close>

definition certificate_holds :: "externals \<Rightarrow> replay_certificate \<Rightarrow> bytes \<Rightarrow> bytes \<Rightarrow> bool" where
  "certificate_holds ext cert before after \<longleftrightarrow>
     patch_verified cert \<and> before_len cert = length before \<and> after_len cert = length after \<and>
     before_blake3 cert = digest ext before \<and> after_blake3 cert = digest ext after \<and>
     reconstructed_blake3 cert = digest ext after"

text \<open>An accepted report: bytes, digests and lengths match, the certificate holds, and the structural claims hold of the two fresh
  parses.\<close>

definition accepted ::
  "externals \<Rightarrow> diff_report \<Rightarrow> bytes \<Rightarrow> bytes \<Rightarrow> verification_limits \<Rightarrow> verification_stats \<Rightarrow> bool" where
  "accepted ext report before after limits stats \<longleftrightarrow>
     schema report = REPORT_SCHEMA \<and> engine_version report = REPORT_ENGINE_VERSION \<and>
     byte_len (report_before report) = length before \<and> artifact_blake3 (report_before report) = digest ext before \<and>
     byte_len (report_after report) = length after \<and> artifact_blake3 (report_after report) = digest ext after \<and>
     replay_patch_with_limits (ext_base64 ext) before (patch report) limits = Inr after \<and>
     certificate_holds ext (certificate report) before after \<and>
     (\<exists>pb pa. structure_holds ext report before after limits pb pa \<and>
        st_syntax_nodes stats = length (ps_nodes pb) + length (ps_nodes pa))"

lemma report_inner_sound:
  assumes ext: "lawful ext"
    and run: "verify_report_inner ext report before after limits n replayed = Inr stats"
    and replayed: "replayed = None \<or> replay_patch_with_limits (ext_base64 ext) before (patch report) limits = Inr (the replayed)"
  shows "accepted ext report before after limits stats"
proof -
  obtain st w where st: "verify_header report = Inr ()" "verify_artifact ext (report_before report) before = Inr ()"
    "verify_artifact ext (report_after report) after = Inr ()"
    "verify_patch_and_certificate ext report before after limits replayed = Inr ()"
    "verify_structure ext report before after limits st (work_budget_new (max_verification_work limits)) = Inr (stats, w)"
    using run by (auto simp: verify_report_inner_def rbind_Inr_iff)
  have replay: "replay_patch_with_limits (ext_base64 ext) before (patch report) limits = Inr after"
    using st(4) replayed by (cases replayed) (auto simp: verify_patch_and_certificate_def Let_def rbind_Inr_iff)
  obtain pb pa k where "structure_holds ext report before after limits pb pa"
    "stats = st\<lparr>st_syntax_nodes := length (ps_nodes pb) + length (ps_nodes pa), st_verification_work := k\<rparr>"
    using valid_structure_run(2) [OF ext st(5)] by blast
  then have "\<exists>pb pa. structure_holds ext report before after limits pb pa \<and>
      st_syntax_nodes stats = length (ps_nodes pb) + length (ps_nodes pa)" by auto
  moreover have "certificate_holds ext (certificate report) before after"
    using st(4) by (auto simp: certificate_holds_def verify_patch_and_certificate_def Let_def rbind_Inr_iff)
  ultimately show ?thesis
    using st(1-3) replay by (simp add: accepted_def verify_header_def verify_artifact_def rbind_Inr_iff)
qed

lemma report_inner_safe:
  assumes "lawful ext" "base64_standard encode (ext_base64 ext)" "machine_report report limits"
    and run: "verify_report_inner ext report before after limits n replayed = Inl e"
  shows "safe e"
  using run patch_check_not_crash [OF assms(2,3)] valid_structure_run(1) [OF assms(1)]
    preflight_report_not_crash verify_header_Inl verify_artifact_Inl
  unfolding verify_report_inner_def
  by (auto simp: rbind_def split: sum.splits)

section \<open>The charged work\<close>

text \<open>What a verification charges at least: every node of both parses, every relation three times, every ambiguity group with its endpoints
  and pairs, and every change.\<close>

definition declared_work :: "diff_report \<Rightarrow> verification_stats \<Rightarrow> nat" where
  "declared_work report stats =
     st_syntax_nodes stats + 3 * length (relations report) + length (ambiguities report) +
     st_ambiguity_endpoints stats + st_ambiguity_pairs stats + length (changes report)"

lemma verify_claims_work:
  assumes "verify_claims ext report stats before after w = Inr (s, w')"
  shows "st_verification_work s = wb_used w'" "s = stats\<lparr>st_verification_work := wb_used w'\<rparr>"
    "wb_used w + 3 * length (relations report) + length (ambiguities report) + st_ambiguity_endpoints stats +
      st_ambiguity_pairs stats + length (changes report) \<le> wb_used w'"
proof -
  show "s = stats\<lparr>st_verification_work := wb_used w'\<rparr>"
    using assms by (auto simp: verify_claims_def wbind_def rbind_Inr_iff used_def wreturn_def)
  then show "st_verification_work s = wb_used w'" by simp
  have free: "costs 0 (wbind used f)" if "\<And>x. budgeted (f x)" for f :: "nat \<Rightarrow> verification_stats work"
    by (rule costs_budgeted) (intro budgeted_bind budgeted_used that)
  have "costs (length (relations report) + (length (ambiguities report) + (st_ambiguity_endpoints stats +
      (st_ambiguity_pairs stats + (length (changes report) + (length (relations report) + (length (relations report) + 0)))))))
      (verify_claims ext report stats before after)"
    unfolding verify_claims_def
    by (rule costs_bind [OF costs_verify_relations] costs_bind [OF costs_charge] costs_skip free | intro budget_intros)+
  from costsD [OF this assms]
  show "wb_used w + 3 * length (relations report) + length (ambiguities report) + st_ambiguity_endpoints stats +
      st_ambiguity_pairs stats + length (changes report) \<le> wb_used w'" by simp
qed

lemma verify_structure_work:
  assumes "verify_structure ext report before after limits stats w = Inr (s, w')"
  shows "st_verification_work s = wb_used w'"
    "wb_used w + st_syntax_nodes s + 3 * length (relations report) + length (ambiguities report) + st_ambiguity_endpoints s +
      st_ambiguity_pairs s + length (changes report) \<le> wb_used w'"
proof -
  obtain pb pa w1 w2 where run: "charge (length (ps_nodes pb)) w = Inr ((), w1)" "charge (length (ps_nodes pa)) w1 = Inr ((), w2)"
    "verify_claims ext report (stats\<lparr>st_syntax_nodes := length (ps_nodes pb) + length (ps_nodes pa)\<rparr>) pb pa w2 = Inr (s, w')"
    using assms by (auto simp: verify_structure_def wbind_def rbind_Inr_iff wlift_def)
  note claims = verify_claims_work [OF run(3)]
  show "st_verification_work s = wb_used w'" by (rule claims(1))
  have "st_syntax_nodes s = length (ps_nodes pb) + length (ps_nodes pa)" "st_ambiguity_endpoints s = st_ambiguity_endpoints stats"
    "st_ambiguity_pairs s = st_ambiguity_pairs stats"
    unfolding claims(2) by simp_all
  moreover have "wb_used w2 = wb_used w + length (ps_nodes pb) + length (ps_nodes pa)"
    using run(1,2) by (simp add: charge_Inr)
  ultimately show "wb_used w + st_syntax_nodes s + 3 * length (relations report) + length (ambiguities report) +
      st_ambiguity_endpoints s + st_ambiguity_pairs s + length (changes report) \<le> wb_used w'"
    using claims(3) by simp
qed

text \<open>The work limit is used by the budget alone.\<close>

lemma work_limit_irrelevant:
  "inspect_edits before (limits\<lparr>max_verification_work := limit\<rparr>) i es s = inspect_edits before limits i es s"
  "replay_edits decode before (limits\<lparr>max_verification_work := limit\<rparr>) i es c out = replay_edits decode before limits i es c out"
  "inspect_patch before p (limits\<lparr>max_verification_work := limit\<rparr>) = inspect_patch before p limits"
  "replay_patch_with_limits decode before p (limits\<lparr>max_verification_work := limit\<rparr>) = replay_patch_with_limits decode before p limits"
  "preflight_report report n before after (limits\<lparr>max_verification_work := limit\<rparr>) = preflight_report report n before after limits"
  "verify_patch_and_certificate ext report before after (limits\<lparr>max_verification_work := limit\<rparr>) replayed =
     verify_patch_and_certificate ext report before after limits replayed"
  "verify_structure ext report before after (limits\<lparr>max_verification_work := limit\<rparr>) stats =
     verify_structure ext report before after limits stats"
proof -
  show edits: "inspect_edits before (limits\<lparr>max_verification_work := limit\<rparr>) i es s = inspect_edits before limits i es s" for i es s
    by (induction es arbitrary: i s) (simp_all add: inspect_edit_def rbind_def [of _ "inspect_edits before _ _ _"] split: sum.split)
  show loop: "replay_edits decode before (limits\<lparr>max_verification_work := limit\<rparr>) i es c out = replay_edits decode before limits i es c out"
    for decode i es c out
    by (induction es arbitrary: i c out) (simp_all add: Let_def)
  show patch: "inspect_patch before p (limits\<lparr>max_verification_work := limit\<rparr>) = inspect_patch before p limits" for p
    by (simp add: inspect_patch_def edits)
  show replay: "replay_patch_with_limits decode before p (limits\<lparr>max_verification_work := limit\<rparr>) =
      replay_patch_with_limits decode before p limits" for decode p
    by (simp add: replay_patch_with_limits_def patch loop)
  show "preflight_report report n before after (limits\<lparr>max_verification_work := limit\<rparr>) = preflight_report report n before after limits"
    by (simp add: preflight_report_def patch)
  show "verify_patch_and_certificate ext report before after (limits\<lparr>max_verification_work := limit\<rparr>) replayed =
     verify_patch_and_certificate ext report before after limits replayed"
    by (cases replayed) (simp_all add: verify_patch_and_certificate_def replay)
  show "verify_structure ext report before after (limits\<lparr>max_verification_work := limit\<rparr>) stats =
     verify_structure ext report before after limits stats"
    by (simp add: verify_structure_def parse_limits_of_def)
qed

lemma report_inner_work:
  assumes "verify_report_inner ext report before after limits n replayed = Inr stats"
  shows "st_verification_work stats \<le> max_verification_work limits" "declared_work report stats \<le> st_verification_work stats"
    "if st_verification_work stats \<le> limit
     then verify_report_inner ext report before after (limits\<lparr>max_verification_work := limit\<rparr>) n replayed = Inr stats
     else \<exists>amount. verify_report_inner ext report before after (limits\<lparr>max_verification_work := limit\<rparr>) n replayed =
         Inl (WorkLimitExceeded amount limit) \<and> limit < amount \<and> amount \<le> st_verification_work stats"
proof -
  obtain st w where st: "preflight_report report n before after limits = Inr st"
    "verify_header report = Inr ()" "verify_artifact ext (report_before report) before = Inr ()"
    "verify_artifact ext (report_after report) after = Inr ()"
    "verify_patch_and_certificate ext report before after limits replayed = Inr ()"
    "verify_structure ext report before after limits st (work_budget_new (max_verification_work limits)) = Inr (stats, w)"
    using assms by (auto simp: verify_report_inner_def rbind_Inr_iff)
  note work = verify_structure_work [OF st(6)]
  note budget = budgetedD [OF budgeted_verify_structure st(6)]
  show "st_verification_work stats \<le> max_verification_work limits"
    using budget(3) work(1) by (simp add: work_budget_new_def)
  show "declared_work report stats \<le> st_verification_work stats"
    using work by (simp add: declared_work_def work_budget_new_def)
  have run: "verify_report_inner ext report before after (limits\<lparr>max_verification_work := limit\<rparr>) n replayed =
      rbind (verify_structure ext report before after limits st (work_budget_new limit)) (\<lambda>(stats, work). Inr stats)"
    using st(1-5) by (simp add: verify_report_inner_def work_limit_irrelevant)
  have "under_limit (verify_structure ext report before after limits st) 0 stats (st_verification_work stats) limit"
    using budget(4) [of limit] work(1) by (simp add: work_budget_new_def)
  then show "if st_verification_work stats \<le> limit
     then verify_report_inner ext report before after (limits\<lparr>max_verification_work := limit\<rparr>) n replayed = Inr stats
     else \<exists>amount. verify_report_inner ext report before after (limits\<lparr>max_verification_work := limit\<rparr>) n replayed =
         Inl (WorkLimitExceeded amount limit) \<and> limit < amount \<and> amount \<le> st_verification_work stats"
    unfolding run work_budget_new_def under_limit_def by (auto split: if_splits)
qed

text \<open>Replaying first and verifying the result is verifying the replayed snapshot.\<close>

lemma replayed_same:
  assumes "replay_patch_with_limits (ext_base64 ext) before (patch report) limits = Inr rebuilt"
  shows "verify_report_inner ext report before after limits n (Some rebuilt) =
    verify_report_inner ext report before after limits n None"
  by (simp add: verify_report_inner_def verify_patch_and_certificate_def assms Let_def)

section \<open>Properties\<close>

text \<open>C1: acceptance means what a report claims. If the verifier accepts a report about two snapshots, the header is the
  supported one, lengths and digests are those of the snapshots, in the artifacts and in the certificate, which also marks the patch as
  verified; the patch replays the before bytes to the after bytes, both snapshots parse within the limits to trees that match the parser manifest, and over these trees all
  structural claims hold: the relations are verified, their exact anchors certified and complete, the stable core and
  the ambiguities derived, the changes exactly the expected events, and the summary their counts.\<close>

theorem report_accepted:
  assumes "lawful ext" "verify_report_inner ext report before after limits n None = Inr stats"
  shows "accepted ext report before after limits stats"
  using assms by (intro report_inner_sound [OF assms]) simp

text \<open>C2: no report can crash the verifier. Whatever the report, the snapshots and the limits, every failure of the
  verification is one of its error values: no index or slice is out of range, no \<open>expect\<close> fails, no checked
  subtraction of it underflows, and no recursion runs away. It relies on tree-sitter keeping nodes inside the source
  and on the base64 decoder following its standard.\<close>

theorem report_never_crashes:
  assumes "lawful ext" "base64_standard encode (ext_base64 ext)" "machine_report report limits"
    and "verify_report_inner ext report before after limits n replayed = Inl e"
  shows "\<not> crash e"
  using assms by (rule report_inner_safe)

text \<open>C28: the work statistic is exactly the work limit that a verification needs. Of an accepted verification, the reported work is within the
  limit and covers at least every node of both parses, three charges for each relation, every ambiguity group with its
  endpoints and pairs, and every change. Under any other work limit, the verification of the same report gives the same statistics if
  the limit is at least the reported work, and otherwise fails with \<open>WorkLimitExceeded\<close>, at an amount above the
  limit and not above the reported work.\<close>

theorem work_within_limit:
  assumes "verify_report_inner ext report before after limits n replayed = Inr stats"
  shows "st_verification_work stats \<le> max_verification_work limits \<and> declared_work report stats \<le> st_verification_work stats \<and>
    (if st_verification_work stats \<le> limit
     then verify_report_inner ext report before after (limits\<lparr>max_verification_work := limit\<rparr>) n replayed = Inr stats
     else \<exists>amount. verify_report_inner ext report before after (limits\<lparr>max_verification_work := limit\<rparr>) n replayed =
         Inl (WorkLimitExceeded amount limit) \<and> limit < amount \<and> amount \<le> st_verification_work stats)"
  using report_inner_work [OF assms] by blast

text \<open>C29: verifying while replaying is verifying. \<open>verify_and_replay_report_inner\<close>, which hands the replayed bytes to the
  verification instead of replaying again, returns a snapshot exactly when the verification accepts the report about
  that snapshot, with the same statistics; so a report is accepted about at most one after snapshot.\<close>

theorem replay_verifies_same:
  "verify_and_replay_report_inner ext report before limits n = Inr (after, stats) \<longleftrightarrow>
     verify_report_inner ext report before after limits n None = Inr stats"
proof
  assume run: "verify_report_inner ext report before after limits n None = Inr stats"
  then have "replay_patch_with_limits (ext_base64 ext) before (patch report) limits = Inr after"
    by (auto simp: verify_report_inner_def verify_patch_and_certificate_def Let_def rbind_Inr_iff)
  then show "verify_and_replay_report_inner ext report before limits n = Inr (after, stats)"
    using run by (simp add: verify_and_replay_report_inner_def replayed_same)
qed (auto simp: verify_and_replay_report_inner_def rbind_Inr_iff replayed_same)

end
