(* ===== verification/Sample_Report.thy ===== *)
theory Sample_Report
  imports Verifier Relations_Exact Recursions "HOL-Library.Code_Target_Nat"
begin

text \<open>
  A complete concrete report: the file \<open>a\<close> becomes the file \<open>b\<close>, in a grammar whose trees are a root and one
  identifier. The root pair is supplied, the identifier is forced by the ordered alignment, and the report
  carries one update. It instantiates the hypotheses of the properties.
\<close>

definition source_span :: "bytes \<Rightarrow> span" where
  "source_span octets = \<lparr>start_byte = 0, end_byte = length octets, span_start = \<lparr>row = 0, column = 0\<rparr>,
     span_end = \<lparr>row = 0, column = length octets\<rparr>\<rparr>"

definition sample_grammar :: ts_runtime where
  "sample_grammar = \<lparr>accepts_grammar = (\<lambda>_. True),
     parse_tree = (\<lambda>_ source. Some (Ts_Node ''source_file'' True False False False None (source_span source)
       [Ts_Node ''identifier'' True False False False (Some ''name'') (source_span source) []])),
     parse_callbacks = (\<lambda>_ _. 0), abi_version = (\<lambda>_. 15), native_node_types = (\<lambda>_. [])\<rparr>"

definition sample_externals :: externals where
  "sample_externals = \<lparr>ext_blake3 = (\<lambda>_. []), ext_to_hex = (\<lambda>_. []), ext_base64 = rfc4648_decode,
     ext_tree_sitter = sample_grammar, ext_order = (\<lambda>xs. xs), ext_json_chunks = (\<lambda>_. []),
     ext_json_reader = (\<lambda>_. (JObject [] True, True)), ext_json_report = (\<lambda>_. None)\<rparr>"

definition sample_node :: "nat \<Rightarrow> string \<Rightarrow> string option \<Rightarrow> nat option \<Rightarrow> nat list \<Rightarrow> nat \<Rightarrow> syntax_node" where
  "sample_node i kind fld up kids n =
     \<lparr>node_id = i, node_kind = kind, node_named = True, node_extra = False, node_missing = False, node_field = fld,
      node_span = source_span [0], node_parent = up, node_children = kids, node_subtree_size = n,
      node_byte_hash = [], node_syntax_hash = [], node_shape_hash = []\<rparr>"

definition sample_syntax :: "u8 \<Rightarrow> parsed_syntax" where
  "sample_syntax b = \<lparr>ps_source = [b],
     ps_nodes = [sample_node 0 ''source_file'' None None [1] 2, sample_node 1 ''identifier'' (Some ''name'') (Some 0) [] 1],
     ps_root = 0, ps_root_kind = ''source_file'', ps_language = Rust\<rparr>"

definition sample_ref :: "nat \<Rightarrow> node_ref" where
  "sample_ref i = as_ref (\<lambda>_. []) (ps_nodes (sample_syntax 97) ! i)"

definition forced_relation :: relation where
  "forced_relation = \<lparr>rel_before = sample_ref 1, rel_after = sample_ref 1, rel_predicate = ShapeEqual,
     rel_correspondence = ModelForced, rel_evidence = STABLE_CORE_EVIDENCE\<rparr>"

definition root_relation :: relation where
  "root_relation = \<lparr>rel_before = sample_ref 0, rel_after = sample_ref 0, rel_predicate = PredInputPair,
     rel_correspondence = CorrInputPair, rel_evidence = INPUT_PAIR_EVIDENCE\<rparr>"

definition sample_change :: structural_change where
  "sample_change = \<lparr>change_kind = ModelForcedUpdate, change_before = Some (sample_ref 1), change_after = Some (sample_ref 1),
     detail = DETAIL_UPDATE\<rparr>"

definition sample_report :: diff_report where
  "sample_report = \<lparr>schema = REPORT_SCHEMA, engine_version = REPORT_ENGINE_VERSION,
     report_before = \<lparr>path = ''a.txt'', byte_len = 1, artifact_blake3 = []\<rparr>,
     report_after = \<lparr>path = ''b.txt'', byte_len = 1, artifact_blake3 = []\<rparr>,
     parser = \<lparr>engine = ''tree-sitter'', runtime_version = PARSER_RUNTIME_VERSION,
       manifest_language = Rust, grammar_name = ''tree-sitter-rust'', grammar_version = grammar_version_of Rust,
       grammar_abi = 15, node_types_blake3 = [], coordinate_unit = ''zero_based_row_utf8_byte_column'',
       manifest_root_kind = ''source_file'', before_nodes = 2, after_nodes = 2, error_free = True\<rparr>,
     relations = [root_relation, forced_relation],
     ambiguities = [], changes = [sample_change],
     patch = \<lparr>algorithm = PATCH_ALGORITHM, edits = [\<lparr>old_start = 0, old_end = 1, replacement_base64 = ''Yg==''\<rparr>]\<rparr>,
     certificate = \<lparr>before_blake3 = [], after_blake3 = [], reconstructed_blake3 = [], before_len = 1, after_len = 1,
       patch_verified = True\<rparr>,
     report_summary = \<lparr>model_forced_relations = 1, suggested_relations = 0, ambiguity_groups = 0, structural_changes = 1\<rparr>\<rparr>"

text \<open>The result of a computation from a fixed work budget, without the budget that remains.\<close>

definition outcome :: "'a work \<Rightarrow> 'a result" where
  "outcome m = rbind (m (work_budget_new 1000)) (\<lambda>r. Inr (fst r))"

lemma valid_outcome: "valid m E Q \<Longrightarrow> outcome m = Inr x \<Longrightarrow> Q x"
  by (auto simp: outcome_def rbind_Inr_iff dest: validD)

abbreviation "sample_before \<equiv> sample_syntax 97"
abbreviation "sample_after \<equiv> sample_syntax 98"
abbreviation no_hex :: "bytes \<Rightarrow> string" where "no_hex \<equiv> (\<lambda>_. [])"

lemma sample_parse:
  "parse_with_limits (\<lambda>_. []) sample_grammar [97] Rust (parse_limits_of verification_limits_default 10) = Inr sample_before"
  "parse_with_limits (\<lambda>_. []) sample_grammar [98] Rust (parse_limits_of verification_limits_default 10) = Inr sample_after"
  by code_simp+

lemma sample_wf: "wf_syntax sample_before" "wf_syntax sample_after"
  by (rule parse_wf(1) [OF sample_parse(1)], rule parse_wf(1) [OF sample_parse(2)])

lemma sample_lengths [simp]: "length (ps_nodes (sample_syntax b)) = 2"
  by (simp add: sample_syntax_def)

definition sample_mappings :: verified_mappings where
  "sample_mappings = \<lparr>before_to_after = [Some 0, Some 1], after_to_before = [Some 0, Some 1],
     by_before = [Some root_relation, Some forced_relation]\<rparr>"

lemma sample_relations_run:
  "outcome (verify_relations no_hex sample_report sample_before sample_after) = Inr sample_mappings"
  by code_simp

lemma sample_verified: "verified no_hex sample_before sample_after (relations sample_report) sample_mappings"
  by (rule valid_outcome [OF valid_verify_relations [OF sample_wf] sample_relations_run])

lemma sample_accepted_run:
  "rbind (verify_report_inner sample_externals sample_report [97] [98] verification_limits_default 0 None)
     (\<lambda>s. Inr (st_verification_work s)) = Inr 95"
  by code_simp

section \<open>The properties on the sample\<close>

theorem relations_exact_witness:
  "verified no_hex sample_before sample_after (relations sample_report) sample_mappings"
  by (rule valid_outcome [OF relations_exact [OF sample_wf] sample_relations_run])

theorem regions_partition_witness:
  "regions_of sample_before sample_after sample_mappings 0 0 [([1], [1])]"
proof -
  have "outcome (ordered_alignment_regions sample_before sample_after sample_mappings 0 0) = Inr [([1], [1])]"
    by code_simp
  then show ?thesis
    by (rule valid_outcome [OF regions_partition [OF sample_wf sample_verified], rotated 2]) simp_all
qed

definition sample_phase :: phase_mappings where
  "sample_phase = \<lparr>pm_before_to_after = [Some 0, None], pm_after_to_before = [Some 0, None]\<rparr>"

lemma sample_phase_ok: "phase_ok sample_before sample_after sample_mappings sample_phase"
  by (simp add: phase_ok_def sample_phase_def sample_mappings_def sample_syntax_def less_Suc_eq)

theorem phase_compatibility_exact_witness: "compatible sample_before sample_after sample_phase 1 1"
proof -
  have "valid (phase_mappings_are_compatible sample_before sample_after sample_phase 1 1) work_failure
      (\<lambda>b. b \<longleftrightarrow> compatible sample_before sample_after sample_phase 1 1)"
    by (rule phase_compatibility_exact [OF sample_wf sample_phase_ok]) (simp_all add: sample_syntax_def)
  moreover have "outcome (phase_mappings_are_compatible sample_before sample_after sample_phase 1 1) = Inr True"
    by code_simp
  ultimately show ?thesis by (auto dest: valid_outcome)
qed

definition sample_classes :: shape_classes where
  "sample_classes = \<lparr>classes = [\<lparr>class_before = [1], class_after = [1]\<rparr>]\<rparr>"

lemma sample_classes_run:
  "outcome (verified_shape_classes sample_before sample_after [1] [1]) = Inr sample_classes"
  by code_simp

lemma sample_classified: "classified (same_class sample_before sample_after) [1] [1] (classes sample_classes)"
  by (rule valid_outcome [OF valid_verified_shape_classes sample_classes_run])
    (auto simp: in_arena_def sample_wf sample_lengths)

theorem shape_classes_exact_witness:
  "classified (same_class sample_before sample_after) [1] [1] (classes sample_classes) \<and> classes sample_classes \<noteq> []"
proof
  show "classified (same_class sample_before sample_after) [1] [1] (classes sample_classes)"
    by (rule valid_outcome [OF shape_classes_exact sample_classes_run])
      (auto simp: in_arena_def sample_wf sample_lengths)
qed (simp add: sample_classes_def)

definition sample_group :: candidate_group where
  "sample_group = \<lparr>cand_before = [1], cand_after = [1], scan_complete = True\<rparr>"

lemma sample_groups_run:
  obtains cg where "outcome (verified_candidate_groups sample_before sample_after sample_phase sample_classes) = Inr cg"
    "cg_groups cg = [sample_group]"
proof -
  have "rbind (outcome (verified_candidate_groups sample_before sample_after sample_phase sample_classes))
      (\<lambda>cg. Inr (cg_groups cg)) = Inr [sample_group]"
    by code_simp
  then show ?thesis by (auto simp: rbind_Inr_iff intro: that)
qed

theorem candidate_groups_exact_witness:
  "\<exists>cg. groups_ok sample_before sample_after sample_phase [1] [1] cg \<and>
     cg_groups cg = [sample_group]"
proof -
  obtain cg where run: "outcome (verified_candidate_groups sample_before sample_after sample_phase sample_classes) = Inr cg"
    "cg_groups cg = [sample_group]" by (rule sample_groups_run)
  have "valid (verified_candidate_groups sample_before sample_after sample_phase sample_classes) work_failure
      (groups_ok sample_before sample_after sample_phase [1] [1])"
    by (rule candidate_groups_exact [OF sample_wf sample_phase_ok _ _ sample_classified]) simp_all
  from valid_outcome [OF this run(1)] run(2) show ?thesis by blast
qed

text \<open>The candidate groups of the sample, as the code builds them.\<close>

definition sample_groups :: candidate_groups where
  "sample_groups = \<lparr>cg_groups = [sample_group], before_group = [1 \<mapsto> 0], after_group = [1 \<mapsto> 0]\<rparr>"

lemma option_eqI: "(\<And>k. x = Some k \<longleftrightarrow> y = Some k) \<Longrightarrow> x = y"
  by (cases x; cases y) auto

lemma sample_groups_ok: "groups_ok sample_before sample_after sample_phase [1] [1] sample_groups"
proof -
  obtain cg where run: "outcome (verified_candidate_groups sample_before sample_after sample_phase sample_classes) = Inr cg"
    "cg_groups cg = [sample_group]" by (rule sample_groups_run)
  have ok: "groups_ok sample_before sample_after sample_phase [1] [1] cg"
    by (rule valid_outcome [OF valid_verified_candidate_groups [OF sample_wf sample_phase_ok _ _ sample_classified] run(1)])
      simp_all
  have "before_group cg i = before_group sample_groups i" "after_group cg i = after_group sample_groups i" for i
    using ok by (intro option_eqI; simp add: groups_ok_def run(2) sample_groups_def sample_group_def; fastforce)+
  then have "cg = sample_groups" using run(2) by (cases cg) (auto simp: sample_groups_def)
  with ok show ?thesis by simp
qed

theorem components_complete_witness:
  "components_ok sample_groups [1] [1] [\<lparr>comp_before = [1], comp_after = [1], comp_groups = [0]\<rparr>]"
proof -
  have "outcome (ordered_interaction_components sample_groups [1] [1]) =
      Inr [\<lparr>comp_before = [1], comp_after = [1], comp_groups = [0]\<rparr>]"
    by code_simp
  then show ?thesis by (rule valid_outcome [OF components_complete [OF sample_groups_ok]])
qed

theorem bounded_component_exact_witness:
  "component_result sample_groups [1] [1]
    (matrix_of (candidate_pair sample_before sample_after sample_phase sample_groups) [1] [1])
    \<lparr>forced = [(1, 1)], outcome_ambiguities = []\<rparr>"
proof -
  let ?c = "\<lparr>comp_before = [1], comp_after = [1], comp_groups = [0]\<rparr>"
  have run: "outcome (verify_bounded_component sample_before sample_after sample_phase sample_groups ?c) =
      Inr \<lparr>forced = [(1, 1)], outcome_ambiguities = []\<rparr>"
    by code_simp
  have "valid (verify_bounded_component sample_before sample_after sample_phase sample_groups ?c) work_failure
      (component_result sample_groups (comp_before ?c) (comp_after ?c)
        (matrix_of (candidate_pair sample_before sample_after sample_phase sample_groups) (comp_before ?c) (comp_after ?c)))"
    by (rule bounded_component_exact [OF sample_wf sample_phase_ok])
      (simp_all add: side_ok_def sample_groups_def)
  from valid_outcome [OF this run] show ?thesis by simp
qed

theorem stable_core_exact_witness:
  "stable_core_ok no_hex sample_before sample_after (relations sample_report) sample_mappings []"
proof -
  have "outcome (verify_stable_core no_hex sample_before sample_after sample_mappings) = Inr []" by code_simp
  then show ?thesis by (rule valid_outcome [OF stable_core_exact [OF sample_wf sample_verified]])
qed

lemma sample_changes_run:
  "outcome (derive_changes no_hex sample_before sample_after sample_mappings []) = Inr [sample_change]"
  by code_simp

theorem changes_exact_witness:
  "[sample_change] = sort_key change_order (expected_events no_hex sample_before sample_after sample_mappings [])"
  by (rule valid_outcome [OF changes_exact [OF sample_wf sample_verified] sample_changes_run])

text \<open>With only the root pair related, the identifier of each side is unmatched.\<close>

definition root_mappings :: verified_mappings where
  "root_mappings = \<lparr>before_to_after = [Some 0, None], after_to_before = [Some 0, None], by_before = [Some root_relation, None]\<rparr>"

definition node_changes :: "structural_change list" where
  "node_changes = [delete_change no_hex (ps_nodes sample_before ! 1), insert_change no_hex (ps_nodes sample_after ! 1)]"

theorem changes_cover_witness:
  "\<exists>a<2. under sample_before 1 a \<and> delete_change no_hex (ps_nodes sample_before ! a) \<in> set node_changes"
proof -
  have "outcome (verify_relations no_hex (sample_report\<lparr>relations := [root_relation]\<rparr>) sample_before sample_after) =
      Inr root_mappings"
    by code_simp
  from valid_outcome [OF valid_verify_relations [OF sample_wf] this]
  have ok: "verified no_hex sample_before sample_after [root_relation] root_mappings" by simp
  have "outcome (derive_changes no_hex sample_before sample_after root_mappings []) = Inr node_changes" by code_simp
  then obtain w where run: "derive_changes no_hex sample_before sample_after root_mappings [] (work_budget_new 1000) =
      Inr (node_changes, w)"
    by (auto simp: outcome_def rbind_Inr_iff)
  have "before_to_after root_mappings ! 1 = None" by (simp add: root_mappings_def)
  with conjunct1 [OF changes_cover [OF sample_wf ok run], rule_format, of 1] show ?thesis
    by (simp add: ambiguous_ids_def)
qed

theorem references_typed_witness:
  "list_all (change_checked no_hex sample_before sample_after) (changes sample_report)"
proof -
  have run: "outcome (verify_change_node_references no_hex sample_report sample_before sample_after) = Inr ()" by code_simp
  show ?thesis
    using valid_outcome [OF conjunct2 [OF references_typed [OF sample_wf, of no_hex sample_report]] run]
    by (simp add: list_all_iff)
qed

lemma sample_lawful: "lawful sample_externals"
  by (simp add: lawful_def runtime_within_def sample_externals_def sample_grammar_def ts_within.simps source_span_def)

lemma sample_inner_run:
  obtains stats where "verify_report_inner sample_externals sample_report [97] [98] verification_limits_default 0 None = Inr stats"
    "st_verification_work stats = 95"
  using sample_accepted_run that by (auto simp: rbind_Inr_iff)

theorem report_accepted_witness:
  "\<exists>stats. accepted sample_externals sample_report [97] [98] verification_limits_default stats"
  by (rule sample_inner_run) (use report_accepted [OF sample_lawful] in blast)

theorem work_within_limit_witness:
  "(\<exists>stats. verify_report_inner sample_externals sample_report [97] [98]
       (verification_limits_default\<lparr>max_verification_work := 95\<rparr>) 0 None = Inr stats \<and> st_verification_work stats = 95) \<and>
   verify_report_inner sample_externals sample_report [97] [98]
     (verification_limits_default\<lparr>max_verification_work := 94\<rparr>) 0 None = Inl (WorkLimitExceeded 95 94)"
proof -
  obtain stats where run: "verify_report_inner sample_externals sample_report [97] [98] verification_limits_default 0 None = Inr stats"
    "st_verification_work stats = 95" by (rule sample_inner_run)
  have "verify_report_inner sample_externals sample_report [97] [98]
      (verification_limits_default\<lparr>max_verification_work := 95\<rparr>) 0 None = Inr stats"
    using work_within_limit [OF run(1), of 95] run(2) by simp
  moreover obtain amount where "verify_report_inner sample_externals sample_report [97] [98]
      (verification_limits_default\<lparr>max_verification_work := 94\<rparr>) 0 None = Inl (WorkLimitExceeded amount 94)"
    "94 < amount" "amount \<le> 95"
    using work_within_limit [OF run(1), of 94] run(2) by auto
  ultimately show ?thesis using run(2) by (simp add: le_less_Suc_eq)
qed

theorem report_never_crashes_witness:
  "verify_report_inner sample_externals (sample_report\<lparr>schema := ''other''\<rparr>) [97] [98] verification_limits_default 0 None =
     Inl (ReportFailure UnsupportedSchema) \<and> \<not> crash (ReportFailure UnsupportedSchema)"
proof -
  have run: "verify_report_inner sample_externals (sample_report\<lparr>schema := ''other''\<rparr>) [97] [98] verification_limits_default 0 None =
     Inl (ReportFailure UnsupportedSchema)"
    by code_simp
  have "base64_standard rfc4648_encode (ext_base64 sample_externals)"
    using rfc4648.base64_standard_axioms by (simp add: sample_externals_def)
  moreover have "machine_report (sample_report\<lparr>schema := ''other''\<rparr>) verification_limits_default"
    by (simp add: machine_report_def machine_sized_def sample_report_def verification_limits_default_def usize_max_def)
  ultimately show ?thesis using report_never_crashes [OF sample_lawful _ _ run] run by blast
qed

theorem recursions_end_witness:
  "certify_exact_subtree sample_before sample_after sample_mappings 0 0 Map.empty (work_budget_new 5) \<noteq> Inl Diverges"
  using recursions_end [OF sample_wf(1), of 3] by simp

end
