(* ===== verification/Yields.thy ===== *)
theory Yields
  imports Prelude
begin

text \<open>
  Total correctness of the computations that have no work budget: \<open>yields m Q\<close> says that \<open>m\<close> returns, and
  what it returns satisfies \<open>Q\<close>, so no panic of \<open>m\<close> is reachable and no recursion of it runs out of fuel.
  One rule per combinator, as for \<open>valid\<close>.
\<close>

definition yields :: "'a result \<Rightarrow> ('a \<Rightarrow> bool) \<Rightarrow> bool" where
  "yields m Q \<longleftrightarrow> (\<exists>x. m = Inr x \<and> Q x)"

text \<open>\<open>for x in xs\<close> over a state; \<open>map\<close> and \<open>position\<close> with a closure that may panic; \<open>debug_assert!\<close>.\<close>

primrec rfold :: "('s \<Rightarrow> 'a \<Rightarrow> 's result) \<Rightarrow> 's \<Rightarrow> 'a list \<Rightarrow> 's result" where
  "rfold f s [] = Inr s"
| "rfold f s (x # xs) = rbind (f s x) (\<lambda>s'. rfold f s' xs)"

primrec rmap :: "('a \<Rightarrow> 'b result) \<Rightarrow> 'a list \<Rightarrow> 'b list result" where
  "rmap f [] = Inr []"
| "rmap f (x # xs) = rbind (f x) (\<lambda>y. rbind (rmap f xs) (\<lambda>ys. Inr (y # ys)))"

primrec rposition :: "('a \<Rightarrow> bool result) \<Rightarrow> 'a list \<Rightarrow> nat option result" where
  "rposition f [] = Inr None"
| "rposition f (x # xs) = rbind (f x) (\<lambda>b. if b then Inr (Some 0)
     else rbind (rposition f xs) (\<lambda>r. Inr (map_option Suc r)))"

definition debug_assert :: "bool \<Rightarrow> unit result" where
  "debug_assert b = rensure b Panic"

lemma debug_assert_simps [simp]: "b \<Longrightarrow> debug_assert b = Inr ()"
  by (simp add: debug_assert_def rensure_def)

lemma yieldsE: "yields m Q \<Longrightarrow> (\<And>x. m = Inr x \<Longrightarrow> Q x \<Longrightarrow> thesis) \<Longrightarrow> thesis"
  by (auto simp: yields_def)

lemma yieldsD: "yields m Q \<Longrightarrow> m = Inr x \<Longrightarrow> Q x"
  by (auto simp: yields_def)

lemma yields_Inr [simp]: "yields (Inr x) Q \<longleftrightarrow> Q x"
  by (simp add: yields_def)

lemma yields_Inl [simp]: "\<not> yields (Inl e) Q"
  by (simp add: yields_def)

lemma yields_return: "Q x \<Longrightarrow> yields (Inr x) Q"
  by simp

lemma yields_conseq: "yields m Q \<Longrightarrow> (\<And>x. Q x \<Longrightarrow> Q' x) \<Longrightarrow> yields m Q'"
  by (auto simp: yields_def)

lemma yields_conj: "yields m Q \<Longrightarrow> yields m Q' \<Longrightarrow> yields m (\<lambda>x. Q x \<and> Q' x)"
  by (auto simp: yields_def)

lemma yields_bind: "yields m P \<Longrightarrow> (\<And>x. P x \<Longrightarrow> yields (f x) Q) \<Longrightarrow> yields (rbind m f) Q"
  by (auto simp: yields_def)

lemma yields_if:
  "(b \<Longrightarrow> yields m Q) \<Longrightarrow> (\<not> b \<Longrightarrow> yields m' Q) \<Longrightarrow> yields (if b then m else m') Q"
  by simp

lemma yields_case_option:
  "(x = None \<Longrightarrow> yields m Q) \<Longrightarrow> (\<And>y. x = Some y \<Longrightarrow> yields (f y) Q) \<Longrightarrow>
   yields (case x of None \<Rightarrow> m | Some y \<Rightarrow> f y) Q"
  by (cases x) simp_all

lemma yields_fold_prefix:
  assumes "I [] s"
    and "\<And>ys x zs s. xs = ys @ x # zs \<Longrightarrow> I ys s \<Longrightarrow> yields (f s x) (I (ys @ [x]))"
  shows "yields (rfold f s xs) (I xs)"
proof -
  have "yields (rfold f s zs) (I xs)" if "xs = ys @ zs" "I ys s" for ys zs s
    using that
  proof (induction zs arbitrary: ys s)
    case (Cons z zs)
    have "yields (f s z) (I (ys @ [z]))"
      using Cons.prems by (intro assms(2)) auto
    then show ?case
      using Cons.prems Cons.IH [where ys = "ys @ [z]"] by (auto intro!: yields_bind)
  qed simp
  from this [of "[]" xs s] show ?thesis using assms(1) by simp
qed

lemma yields_fold:
  assumes "I s" and "\<And>x s. x \<in> set xs \<Longrightarrow> I s \<Longrightarrow> yields (f s x) I"
  shows "yields (rfold f s xs) I"
  by (rule yields_fold_prefix [where I = "\<lambda>_. I"]) (use assms in auto)

lemma yields_rall:
  assumes "\<And>x. x \<in> set xs \<Longrightarrow> yields (f x) (\<lambda>b. b \<longleftrightarrow> P x)"
  shows "yields (rall f xs) (\<lambda>b. b \<longleftrightarrow> (\<forall>x\<in>set xs. P x))"
proof -
  have "f x = Inr (P x)" if "x \<in> set xs" for x
    using assms [OF that] by (auto simp: yields_def)
  then show ?thesis by (simp add: rall_pure)
qed

lemma yields_rmap:
  assumes "\<And>x. x \<in> set xs \<Longrightarrow> yields (f x) (P x)"
  shows "yields (rmap f xs) (list_all2 P xs)"
  using assms by (induction xs) (auto intro!: yields_bind)

lemma rmap_pure: "(\<And>x. x \<in> set xs \<Longrightarrow> f x = Inr (g x)) \<Longrightarrow> rmap f xs = Inr (map g xs)"
  by (induction xs) auto

lemma rfold_append: "rfold f s (xs @ ys) = rbind (rfold f s xs) (\<lambda>s'. rfold f s' ys)"
  by (induction xs arbitrary: s) (auto simp: rbind_def split: sum.split)

lemma rfold_cong [fundef_cong]:
  "s = t \<Longrightarrow> xs = ys \<Longrightarrow> (\<And>s x. x \<in> set ys \<Longrightarrow> f s x = g s x) \<Longrightarrow> rfold f s xs = rfold g t ys"
  by (induction ys arbitrary: s t xs) (auto intro!: rbind_cong)

end
