(* ===== verification/Matched_Paths.thy ===== *)
theory Matched_Paths
  imports Anchors
begin

text \<open>
  Two subtrees walked side by side: the pairs \<open>reached\<close> from a pair of nodes by the same child positions. In a
  well-formed arena such a pair is determined by either of its nodes, a common descendant makes two subtrees nested,
  and equal subtrees reach equal subtrees of equal size. From this, two anchors that are unique on both sides
  never disagree about a node, whichever contains the other.
\<close>

section \<open>Descendants\<close>

definition child_relation :: "parsed_syntax \<Rightarrow> (nat \<times> nat) set" where
  "child_relation s = {(i, c). i < length (ps_nodes s) \<and> c \<in> set (node_children (ps_nodes s ! i))}"

lemma single_valued_parent:
  assumes "wf_syntax s"
  shows "single_valued ((child_relation s)\<inverse>)"
proof (rule single_valuedI)
  fix x i k assume "(x, i) \<in> (child_relation s)\<inverse>" "(x, k) \<in> (child_relation s)\<inverse>"
  then have "node_parent (ps_nodes s ! x) = Some i" "node_parent (ps_nodes s ! x) = Some k"
    using wf_child(3) [OF assms] by (simp_all add: child_relation_def)
  then show "i = k" by simp
qed

lemma ancestors_nested:
  assumes "wf_syntax s" "(i, x) \<in> (child_relation s)\<^sup>*" "(k, x) \<in> (child_relation s)\<^sup>*"
  shows "(i, k) \<in> (child_relation s)\<^sup>* \<or> (k, i) \<in> (child_relation s)\<^sup>*"
  using single_valued_confluent [OF single_valued_parent [OF assms(1)], of x i k] assms(2,3)
  by (auto simp: rtrancl_converse)

lemma subtree_size_tree:
  assumes "located (ps_nodes s) i q t"
  shows "node_subtree_size (ps_nodes s ! i) = tree_size t"
  using assms by (cases t) auto

lemma subtree_size_node_at:
  assumes "node_at s i t"
  shows "node_subtree_size (ps_nodes s ! i) = tree_size t"
  using assms subtree_size_tree by (auto simp: node_at_def)

lemma subtree_size_child:
  assumes "wf_syntax s" "(i, c) \<in> child_relation s"
  shows "node_subtree_size (ps_nodes s ! c) < node_subtree_size (ps_nodes s ! i)"
proof -
  obtain t where t: "node_at s i t" using assms by (auto simp: child_relation_def elim: wf_node_at)
  obtain k where k: "k < length (subtrees t)" "c = node_children (ps_nodes s ! i) ! k"
    using assms(2) node_at_facts(7) [OF t] by (auto simp: child_relation_def in_set_conv_nth)
  have "tree_size (subtrees t ! k) \<le> sum_list (map tree_size (subtrees t))"
    using k(1) by (intro member_le_sum_list) simp_all
  also have "\<dots> < tree_size t" by (cases t) simp
  finally show ?thesis
    using subtree_size_node_at [OF t] subtree_size_node_at [OF node_at_child [OF t k(1)]] k(2) by simp
qed

lemma subtree_size_descendant:
  assumes "wf_syntax s" "(i, x) \<in> (child_relation s)\<^sup>*"
  shows "i = x \<or> node_subtree_size (ps_nodes s ! x) < node_subtree_size (ps_nodes s ! i)"
  using assms(2)
proof (induction rule: rtrancl_induct)
  case (step y z)
  then show ?case using subtree_size_child [OF assms(1), of y z] by auto
qed simp

lemma descendant_range:
  assumes "wf_syntax s" "(i, x) \<in> (child_relation s)\<^sup>*" "i < length (ps_nodes s)"
  shows "x < length (ps_nodes s)" "i \<le> x"
proof -
  have "x < length (ps_nodes s) \<and> i \<le> x"
    using assms(2)
  proof (induction rule: rtrancl_induct)
    case (step y z)
    then show ?case using wf_child(1,2) [OF assms(1), of y z] by (auto simp: child_relation_def)
  qed (use assms(3) in simp)
  then show "x < length (ps_nodes s)" "i \<le> x" by simp_all
qed

section \<open>Pairs\<close>

definition pair_children :: "parsed_syntax \<Rightarrow> parsed_syntax \<Rightarrow> ((nat \<times> nat) \<times> (nat \<times> nat)) set" where
  "pair_children before after = {((i, j), (c, d)). i < length (ps_nodes before) \<and> j < length (ps_nodes after) \<and>
     (c, d) \<in> set (zip (node_children (ps_nodes before ! i)) (node_children (ps_nodes after ! j)))}"

definition reached :: "parsed_syntax \<Rightarrow> parsed_syntax \<Rightarrow> nat \<Rightarrow> nat \<Rightarrow> nat \<Rightarrow> nat \<Rightarrow> bool" where
  "reached before after i j x y \<longleftrightarrow> ((i, j), (x, y)) \<in> (pair_children before after)\<^sup>*"

lemma reached_refl [simp]: "reached before after i j i j"
  by (simp add: reached_def)

lemma reached_trans: "reached before after i j x y \<Longrightarrow> reached before after x y u v \<Longrightarrow> reached before after i j u v"
  unfolding reached_def by (rule rtrancl_trans)

lemma reached_child:
  assumes "i < length (ps_nodes before)" "j < length (ps_nodes after)"
    "(c, d) \<in> set (zip (node_children (ps_nodes before ! i)) (node_children (ps_nodes after ! j)))"
  shows "reached before after i j c d"
  unfolding reached_def using assms by (intro r_into_rtrancl) (simp add: pair_children_def)

lemma reached_cases [consumes 1, case_names refl step]:
  assumes "reached before after i j x y"
    and "i = x \<Longrightarrow> j = y \<Longrightarrow> thesis"
    and "\<And>a b. reached before after i j a b \<Longrightarrow> ((a, b), (x, y)) \<in> pair_children before after \<Longrightarrow> thesis"
  shows thesis
  using assms(1) unfolding reached_def
  by (rule rtranclE) (use assms(2,3) in \<open>auto simp: reached_def\<close>)

lemma reached_induct [consumes 1, case_names refl step]:
  assumes "reached before after i j x y"
    and "P i j"
    and "\<And>a b x y. reached before after i j a b \<Longrightarrow> ((a, b), (x, y)) \<in> pair_children before after \<Longrightarrow> P a b \<Longrightarrow> P x y"
  shows "P x y"
proof -
  have "((i, j), (x, y)) \<in> (pair_children before after)\<^sup>*" using assms(1) by (simp add: reached_def)
  then have "case (x, y) of (x, y) \<Rightarrow> P x y"
  proof (induction "(x, y)" arbitrary: x y rule: rtrancl_induct)
    case (step p)
    then show ?case using assms(3) [of "fst p" "snd p"] by (cases p) (auto simp: reached_def)
  qed (use assms(2) in simp)
  then show ?thesis by simp
qed

lemma pair_children_sides:
  assumes "((a, b), (x, y)) \<in> pair_children before after"
  shows "(a, x) \<in> child_relation before" "(b, y) \<in> child_relation after"
  using assms by (auto simp: pair_children_def child_relation_def dest: set_zip_leftD set_zip_rightD)

lemma set_zip_swap: "(x, y) \<in> set (zip xs ys) \<longleftrightarrow> (y, x) \<in> set (zip ys xs)"
proof (induction xs arbitrary: ys)
  case (Cons u xs)
  then show ?case by (cases ys) auto
qed simp

lemma pair_children_swap:
  "((b, a), (y, x)) \<in> pair_children after before \<longleftrightarrow> ((a, b), (x, y)) \<in> pair_children before after"
  unfolding pair_children_def mem_Collect_eq prod.case set_zip_swap [of y x "node_children (ps_nodes after ! b)"] by blast

lemma reached_swap: "reached before after i j x y \<Longrightarrow> reached after before j i y x"
proof (induction rule: reached_induct)
  case (step a b x y)
  have "((b, a), (y, x)) \<in> pair_children after before" using step.hyps(2) by (rule iffD2 [OF pair_children_swap])
  then show ?case using step.IH unfolding reached_def by (rule rtrancl_into_rtrancl [rotated])
qed simp

lemma reached_sides:
  assumes "reached before after i j x y"
  shows "(i, x) \<in> (child_relation before)\<^sup>*" "(j, y) \<in> (child_relation after)\<^sup>*"
proof -
  have "(i, x) \<in> (child_relation before)\<^sup>* \<and> (j, y) \<in> (child_relation after)\<^sup>*"
    using assms
    by (induction rule: reached_induct) (auto dest: pair_children_sides intro: rtrancl_into_rtrancl)
  then show "(i, x) \<in> (child_relation before)\<^sup>*" "(j, y) \<in> (child_relation after)\<^sup>*" by simp_all
qed

lemma isomorphic_path_reached:
  assumes "wf_syntax before" "wf_syntax after" "isomorphic_path before after i j x y"
    "i < length (ps_nodes before)" "j < length (ps_nodes after)"
  shows "reached before after i j x y"
  using assms(3-5)
proof (induction rule: isomorphic_path.induct)
  case (child c d i j)
  then show ?case by (intro reached_child)
next
  case (descend c d i j x y)
  have "c < length (ps_nodes before)" "d < length (ps_nodes after)"
    using wf_child(2) [OF assms(1) descend.prems(1)] wf_child(2) [OF assms(2) descend.prems(2)] zip_members [OF descend.hyps(1)]
    by blast+
  then have "reached before after c d x y" by (rule descend.IH)
  then show ?case by (rule reached_trans [OF reached_child [OF descend.prems descend.hyps(1)]])
qed

lemma reached_path:
  assumes "reached before after i j x y"
  shows "(x, y) = (i, j) \<or> isomorphic_path before after i j x y"
proof -
  have path: "isomorphic_path before after i j u v"
    if "isomorphic_path before after i j a b"
      "(u, v) \<in> set (zip (node_children (ps_nodes before ! a)) (node_children (ps_nodes after ! b)))" for a b u v
    using that by (induction rule: isomorphic_path.induct) (auto intro: isomorphic_path.intros)
  show ?thesis
    using assms
    by (induction rule: reached_induct) (auto simp: pair_children_def intro: path isomorphic_path.intros)
qed

lemma isomorphic_path_trans:
  "isomorphic_path before after i j a b \<Longrightarrow> isomorphic_path before after a b x y \<Longrightarrow> isomorphic_path before after i j x y"
proof (induction rule: isomorphic_path.induct)
  case (child c d i j)
  from isomorphic_path.descend [OF child] show ?case .
next
  case (descend c d i j a b)
  from isomorphic_path.descend [OF descend.hyps(1) descend.IH [OF descend.prems]] show ?case .
qed

lemma isomorphic_path_below:
  assumes "wf_syntax before" "isomorphic_path before after i j x y" "i < length (ps_nodes before)"
  shows "i < x"
  using assms(2,3)
proof (induction rule: isomorphic_path.induct)
  case (child c d i j)
  then show ?case using wf_child(1) [OF assms(1) child.prems] zip_members [OF child.hyps] by blast
next
  case (descend c d i j x y)
  have "i < c" "c < length (ps_nodes before)"
    using wf_child(1,2) [OF assms(1) descend.prems] zip_members [OF descend.hyps(1)] by blast+
  then show ?case using descend.IH by simp
qed

text \<open>The partner of a node below a pair is unique.\<close>

lemma zip_functional: "distinct xs \<Longrightarrow> (x, y) \<in> set (zip xs ys) \<Longrightarrow> (x, z) \<in> set (zip xs ys) \<Longrightarrow> y = z"
proof (induction xs arbitrary: ys)
  case (Cons u xs)
  then show ?case by (cases ys) (auto dest: set_zip_leftD)
qed simp

lemma reached_functional:
  assumes wf: "wf_syntax before" "wf_syntax after"
  shows "reached before after i j x y \<Longrightarrow> reached before after i j x y' \<Longrightarrow> i < length (ps_nodes before) \<Longrightarrow> y = y'"
proof (induction x arbitrary: y y' rule: less_induct)
  case (less x)
  have strict: "i < u" if "reached before after i j a b" "((a, b), (u, v)) \<in> pair_children before after" for a b u v
    using descendant_range(2) [OF wf(1) reached_sides(1) [OF that(1)] less.prems(3)]
      wf_child(1) [OF wf(1), of a u] pair_children_sides(1) [OF that(2)] by (simp add: child_relation_def)
  show ?case
    using less.prems(1)
  proof (cases rule: reached_cases)
    case refl
    show ?thesis using less.prems(2) by (cases rule: reached_cases) (use refl strict in auto)
  next
    case (step a b)
    show ?thesis
      using less.prems(2)
    proof (cases rule: reached_cases)
      case refl
      then show ?thesis using strict [OF step] by simp
    next
      case step': (step a' b')
      have par: "node_parent (ps_nodes before ! x) = Some a" "node_parent (ps_nodes before ! x) = Some a'" "a < x"
        using pair_children_sides(1) [OF step(2)] pair_children_sides(1) [OF step'(2)] wf_child(1,3) [OF wf(1)]
        unfolding child_relation_def mem_Collect_eq prod.case by blast+
      then have a: "a' = a" by simp
      have b: "b = b'" using less.IH [OF par(3) step(1) step'(1) [unfolded a] less.prems(3)] .
      have d: "distinct (node_children (ps_nodes before ! a))"
        using step(2) by (intro wf_children_sorted(2) [OF wf(1)]) (simp add: pair_children_def)
      have "(x, y) \<in> set (zip (node_children (ps_nodes before ! a)) (node_children (ps_nodes after ! b)))"
        "(x, y') \<in> set (zip (node_children (ps_nodes before ! a)) (node_children (ps_nodes after ! b)))"
        using step(2) step'(2) unfolding a b [symmetric] by (simp_all add: pair_children_def)
      then show ?thesis by (rule zip_functional [OF d])
    qed
  qed
qed

text \<open>A pair below another pair is reached through any node between them.\<close>

lemma reached_through:
  assumes wf: "wf_syntax before" "wf_syntax after"
  shows "reached before after i j x y \<Longrightarrow> (i, k) \<in> (child_relation before)\<^sup>* \<Longrightarrow> (k, x) \<in> (child_relation before)\<^sup>* \<Longrightarrow>
    i < length (ps_nodes before) \<Longrightarrow> \<exists>l. reached before after i j k l \<and> reached before after k l x y"
proof (induction rule: reached_induct)
  case refl
  have "k = i"
    using descendant_range(2) [OF wf(1) refl(1,3)] descendant_range(2) [OF wf(1) refl(2)]
      descendant_range(1) [OF wf(1) refl(1,3)] by simp
  then show ?case using reached_refl by blast
next
  case (step a b x y)
  show ?case
  proof (cases "k = x")
    case True
    have "reached before after i j x y"
      using step.hyps unfolding reached_def by (rule rtrancl_into_rtrancl)
    then show ?thesis using True by auto
  next
    case False
    then obtain a' where a': "(k, a') \<in> (child_relation before)\<^sup>*" "(a', x) \<in> child_relation before"
      using step.prems(2) by (metis rtranclE)
    have "a' = a"
      using a'(2) pair_children_sides(1) [OF step.hyps(2)] single_valued_parent [OF wf(1)]
      by (auto simp: single_valued_def)
    then obtain l where "reached before after i j k l" "reached before after k l a b"
      using step a' by blast
    then show ?thesis
      using step.hyps(2) unfolding reached_def by (meson rtrancl_into_rtrancl)
  qed
qed

section \<open>Equal subtrees\<close>

lemma same_tree_size: "same_tree norm leaf_text l r t u \<Longrightarrow> tree_size t = tree_size u"
proof (induction t arbitrary: u)
  case (Tree n ts)
  obtain m us where u: "u = Tree m us" by (cases u)
  have "list_all2 (\<lambda>t u. tree_size t = tree_size u) ts us"
    using Tree.prems Tree.IH unfolding u same_tree.simps
    by (auto elim!: list_all2_mono simp: list_all2_conv_all_nth)
  then have "map tree_size ts = map tree_size us" by (induction rule: list_all2_induct) simp_all
  then show ?case by (simp add: u)
qed

lemma syntax_same_facts:
  assumes "in_arena left i" "in_arena right j" "syntax_same left i right j"
  shows "node_subtree_size (ps_nodes left ! i) = node_subtree_size (ps_nodes right ! j)"
    "node_kind (ps_nodes left ! i) = node_kind (ps_nodes right ! j)"
    "length (node_children (ps_nodes left ! i)) = length (node_children (ps_nodes right ! j))"
proof -
  obtain t u where tu: "node_at left i t" "node_at right j u"
    using in_arena_node_at [OF assms(1)] in_arena_node_at [OF assms(2)] by blast
  have same: "same_syntax (ps_source left) (ps_source right) t u"
    using assms(3) equal_trees(1) [OF tu] by (simp add: syntax_same_def)
  from same_tree_header(1) [OF same]
  show "node_subtree_size (ps_nodes left ! i) = node_subtree_size (ps_nodes right ! j)"
    "node_kind (ps_nodes left ! i) = node_kind (ps_nodes right ! j)"
    "length (node_children (ps_nodes left ! i)) = length (node_children (ps_nodes right ! j))"
    using subtree_size_node_at tu same_tree_size [OF same] node_at_facts(2,7) [OF tu(1)] node_at_facts(2,7) [OF tu(2)]
    by (simp_all add: same_header_def)
qed

lemma syntax_same_child:
  assumes same: "syntax_same left i right j" and arena: "in_arena left i" "in_arena right j"
    and mem: "(c, d) \<in> set (zip (node_children (ps_nodes left ! i)) (node_children (ps_nodes right ! j)))"
  shows "syntax_same left c right d"
proof -
  obtain t u where tu: "node_at left i t" "node_at right j u"
    using in_arena_node_at [OF arena(1)] in_arena_node_at [OF arena(2)] by blast
  have eq: "ps_language left = ps_language right" "same_syntax (ps_source left) (ps_source right) t u"
    using same equal_trees(1) [OF tu] by (simp_all add: syntax_same_def)
  obtain k where k: "k < length (node_children (ps_nodes left ! i))" "k < length (node_children (ps_nodes right ! j))"
    "c = node_children (ps_nodes left ! i) ! k" "d = node_children (ps_nodes right ! j) ! k"
    using mem by (auto simp: in_set_zip)
  then have len: "k < length (subtrees t)" "k < length (subtrees u)"
    using node_at_facts [OF tu(1)] node_at_facts [OF tu(2)] by simp_all
  have "same_syntax (ps_source left) (ps_source right) (subtrees t ! k) (subtrees u ! k)"
    by (rule same_tree_children(3) [OF eq(2) len(1)])
  then show ?thesis
    using equal_trees(1) [OF node_at_child [OF tu(1) len(1)] node_at_child [OF tu(2) len(2)]] eq(1) k(3,4)
    by (simp add: syntax_same_def)
qed

lemma reached_same:
  assumes wf: "wf_syntax before" "wf_syntax after" and same: "syntax_same before i after j"
    and ij: "i < length (ps_nodes before)" "j < length (ps_nodes after)"
  shows "reached before after i j x y \<Longrightarrow>
    syntax_same before x after y \<and> x < length (ps_nodes before) \<and> y < length (ps_nodes after)"
proof (induction rule: reached_induct)
  case (step a b x y)
  have mem: "(x, y) \<in> set (zip (node_children (ps_nodes before ! a)) (node_children (ps_nodes after ! b)))"
    using step.hyps(2) by (simp add: pair_children_def)
  have "syntax_same before x after y"
    by (rule syntax_same_child [OF conjunct1 [OF step.IH] _ _ mem]) (use wf step.IH in \<open>simp_all add: in_arena_def\<close>)
  moreover have "x < length (ps_nodes before)" "y < length (ps_nodes after)"
    using wf_child(2) [OF wf(1), of a x] wf_child(2) [OF wf(2), of b y] step.IH zip_members [OF mem] by blast+
  ultimately show ?case by simp
qed (use same ij in simp)

section \<open>Pairs that are unique on both sides\<close>

definition unique_pair :: "parsed_syntax \<Rightarrow> parsed_syntax \<Rightarrow> nat \<Rightarrow> nat \<Rightarrow> bool" where
  "unique_pair before after i j \<longleftrightarrow> (\<exists>k. global_bucket before k = [i] \<and> global_bucket after k = [j])"

lemma unique_pairE:
  assumes "unique_pair before after i j"
  obtains k where "global_bucket before k = [i]" "global_bucket after k = [j]"
  using assms unfolding unique_pair_def by blast

lemma unique_pair_swap: "unique_pair before after i j \<Longrightarrow> unique_pair after before j i"
  by (auto simp: unique_pair_def)

lemma unique_pairD:
  assumes "unique_pair before after i j"
  shows "i < length (ps_nodes before)" "j < length (ps_nodes after)" "i \<noteq> ps_root before" "j \<noteq> ps_root after"
    "3 \<le> node_subtree_size (ps_nodes before ! i)"
    "unique_pair before after i l \<Longrightarrow> l = j" "unique_pair before after k j \<Longrightarrow> k = i"
    "l \<in> set (global_bucket after (global_key (ps_nodes before ! i))) \<Longrightarrow> l = j"
proof -
  obtain key where k: "global_bucket before key = [i]" "global_bucket after key = [j]"
    using assms unfolding unique_pair_def by blast
  note i = global_bucket_member [OF k(1)] and j = global_bucket_member [OF k(2)]
  show "i < length (ps_nodes before)" "j < length (ps_nodes after)" "i \<noteq> ps_root before" "j \<noteq> ps_root after"
    using i j by simp_all
  have "i \<in> set (global_bucket before key)" using k by simp
  then show "3 \<le> node_subtree_size (ps_nodes before ! i)" by (simp add: global_bucket_def)
  show "l = j" if "unique_pair before after i l"
  proof -
    from that obtain key' where k': "global_bucket before key' = [i]" "global_bucket after key' = [l]"
      by (elim exE conjE unique_pairE)
    have "key' = key" using global_bucket_member(3) [OF k'(1)] i(3) by simp
    then show ?thesis using k(2) k'(2) by simp
  qed
  show "k = i" if "unique_pair before after k j"
  proof -
    from that obtain key' where k': "global_bucket before key' = [k]" "global_bucket after key' = [j]"
      by (elim exE conjE unique_pairE)
    have "key' = key" using global_bucket_member(3) [OF k'(2)] j(3) by simp
    then show ?thesis using k(1) k'(1) by simp
  qed
  show "l = j" if "l \<in> set (global_bucket after (global_key (ps_nodes before ! i)))"
    using that k(2) unfolding i(3) by simp
qed

text \<open>Equal subtrees have equal syntax digests, as they do after parsing.\<close>

definition syntax_hashes_agree :: "parsed_syntax \<Rightarrow> parsed_syntax \<Rightarrow> bool" where
  "syntax_hashes_agree before after \<longleftrightarrow>
     (\<forall>i<length (ps_nodes before). \<forall>j<length (ps_nodes after).
        syntax_same before i after j \<longrightarrow> node_syntax_hash (ps_nodes before ! i) = node_syntax_hash (ps_nodes after ! j))"

lemma syntax_hashes_swap:
  assumes "wf_syntax before" "wf_syntax after" "syntax_hashes_agree before after"
  shows "syntax_hashes_agree after before"
  unfolding syntax_hashes_agree_def
proof (intro allI impI)
  fix j i
  assume ij: "j < length (ps_nodes after)" "i < length (ps_nodes before)" and same: "syntax_same after j before i"
  have "syntax_same before i after j"
    by (rule same_sym(1) [OF _ _ same]) (use assms ij in \<open>simp_all add: in_arena_def\<close>)
  then show "node_syntax_hash (ps_nodes after ! j) = node_syntax_hash (ps_nodes before ! i)"
    using assms(3) ij by (simp add: syntax_hashes_agree_def)
qed

text \<open>A larger pair that contains the first node of a smaller one reaches the smaller pair.\<close>

lemma unique_pair_inside:
  assumes wf: "wf_syntax before" "wf_syntax after" and hashes: "syntax_hashes_agree before after"
    and p: "unique_pair before after i j" and q: "unique_pair before after k l" "syntax_same before k after l"
    and r: "reached before after k l i m"
  shows "m = j"
proof -
  note kl = unique_pairD(1,2) [OF q(1)]
  note im = reached_same [OF wf q(2) kl r]
  have arena: "in_arena before i" "in_arena after m" using wf im by (simp_all add: in_arena_def)
  have "node_subtree_size (ps_nodes after ! m) \<ge> 3"
    using syntax_same_facts(1) [OF arena conjunct1 [OF im]] unique_pairD(5) [OF p] by simp
  moreover have "m \<noteq> ps_root after"
    using descendant_range(2) [OF wf(2) reached_sides(2) [OF r] kl(2)] unique_pairD(4) [OF q(1)] wf_root [OF wf(2)] by auto
  moreover have "global_key (ps_nodes after ! m) = global_key (ps_nodes before ! i)"
    using syntax_same_facts(2) [OF arena conjunct1 [OF im]] hashes im unfolding global_key_def syntax_hashes_agree_def by metis
  ultimately have "m \<in> set (global_bucket after (global_key (ps_nodes before ! i)))"
    using im by (simp add: global_bucket_def)
  then show ?thesis by (rule unique_pairD(8) [OF p])
qed

text \<open>Two unique pairs of equal subtrees give a common node the same partner.\<close>

lemma unique_pairs_agree:
  assumes wf: "wf_syntax before" "wf_syntax after" and hashes: "syntax_hashes_agree before after"
    and p: "unique_pair before after i j" and q: "unique_pair before after k l" "syntax_same before k after l"
    and size: "node_subtree_size (ps_nodes before ! i) \<le> node_subtree_size (ps_nodes before ! k)"
    and x: "reached before after i j x y" "reached before after k l x z"
  shows "z = y"
proof -
  note i = unique_pairD(1) [OF p] and k = unique_pairD(1) [OF q(1)]
  have "(k, i) \<in> (child_relation before)\<^sup>*"
    using ancestors_nested [OF wf(1) reached_sides(1) [OF x(1)] reached_sides(1) [OF x(2)]]
      subtree_size_descendant [OF wf(1), of i k] size by auto
  from reached_through [OF wf x(2) this reached_sides(1) [OF x(1)] k]
  obtain m where m: "reached before after k l i m" "reached before after i m x z" by blast
  have "m = j" by (rule unique_pair_inside [OF wf hashes p q m(1)])
  then show ?thesis using reached_functional [OF wf m(2) _ i] x(1) by simp
qed

lemma unique_pairs_agree_after:
  assumes wf: "wf_syntax before" "wf_syntax after" and hashes: "syntax_hashes_agree before after"
    and p: "unique_pair before after i j" "syntax_same before i after j"
    and q: "unique_pair before after k l" "syntax_same before k after l"
    and size: "node_subtree_size (ps_nodes before ! i) \<le> node_subtree_size (ps_nodes before ! k)"
    and x: "reached before after i j x y" "reached before after k l z y"
  shows "z = x"
proof (rule unique_pairs_agree [OF wf(2,1) syntax_hashes_swap [OF wf hashes] unique_pair_swap [OF p(1)] unique_pair_swap [OF q(1)]])
  have arena: "in_arena before i" "in_arena after j" "in_arena before k" "in_arena after l"
    using wf unique_pairD(1,2) [OF p(1)] unique_pairD(1,2) [OF q(1)] by (simp_all add: in_arena_def)
  show "syntax_same after l before k" by (rule same_sym(1) [OF arena(3,4) q(2)])
  show "node_subtree_size (ps_nodes after ! j) \<le> node_subtree_size (ps_nodes after ! l)"
    using size syntax_same_facts(1) [OF arena(1,2) p(2)] syntax_same_facts(1) [OF arena(3,4) q(2)] by simp
  show "reached after before j i y x" "reached after before l k y z" by (rule reached_swap [OF x(1)], rule reached_swap [OF x(2)])
qed

end
