(* ===== verification/Match_State.thy ===== *)
theory Match_State
  imports Yields Regions Matched_Paths
begin

text \<open>
  The mapping state of the producer (\<open>src/matcher.rs\<close>, \<open>MappingState\<close>): the two partial maps, the fact of
  every mapped before node, and the relations in the order they were found. \<open>map_pair\<close> adds a pair unless an
  end is taken, the \<open>can_map\<close> tests compare whole subtrees with the maps, \<open>map_equal_subtree\<close> maps an exact
  pair with all descendants. Recursions over a subtree have fuel for every node.

  \<open>state_ok\<close> is the invariant: seen as a set, the relations always satisfy what the verifier demands of them.
\<close>

section \<open>The state\<close>

record mapping_fact =
  fact_predicate :: predicate
  fact_correspondence :: correspondence

record mapping_state =
  ms_before_to_after :: "nat option list"
  ms_after_to_before :: "nat option list"
  facts :: "mapping_fact option list"
  ms_relations :: "relation list"

definition mapping_state_new :: "parsed_syntax \<Rightarrow> parsed_syntax \<Rightarrow> mapping_state" where
  "mapping_state_new before after =
     \<lparr>ms_before_to_after = replicate (length (ps_nodes before)) None,
      ms_after_to_before = replicate (length (ps_nodes after)) None,
      facts = replicate (length (ps_nodes before)) None, ms_relations = []\<rparr>"

definition map_pair ::
  "(bytes \<Rightarrow> string) \<Rightarrow> parsed_syntax \<Rightarrow> parsed_syntax \<Rightarrow> nat \<Rightarrow> nat \<Rightarrow> predicate \<Rightarrow> correspondence \<Rightarrow> string list \<Rightarrow>
   mapping_state \<Rightarrow> (bool \<times> mapping_state) result" where
  "map_pair to_hex before after i j pred corr evidence st =
     rbind (index_at (ms_before_to_after st) i) (\<lambda>b.
     rbind (index_at (ms_after_to_before st) j) (\<lambda>a.
     case (b, a) of
       (Some existing_after, Some existing_before) \<Rightarrow> Inr (existing_after = j \<and> existing_before = i, st)
     | (None, None) \<Rightarrow>
         rbind (set_at (ms_before_to_after st) i (Some j)) (\<lambda>b2a.
         rbind (set_at (ms_after_to_before st) j (Some i)) (\<lambda>a2b.
         rbind (set_at (facts st) i (Some \<lparr>fact_predicate = pred, fact_correspondence = corr\<rparr>)) (\<lambda>fs.
         rbind (index_at (ps_nodes before) i) (\<lambda>bn.
         rbind (index_at (ps_nodes after) j) (\<lambda>an.
           Inr (True, \<lparr>ms_before_to_after = b2a, ms_after_to_before = a2b, facts = fs,
             ms_relations = ms_relations st @ [\<lparr>rel_before = as_ref to_hex bn, rel_after = as_ref to_hex an,
               rel_predicate = pred, rel_correspondence = corr, rel_evidence = evidence\<rparr>]\<rparr>))))))
     | _ \<Rightarrow> Inr (False, st)))"

text \<open>\<open>before_to_after[i].is_some_and(|mapped| mapped != j) || after_to_before[j].is_some_and(|mapped| mapped != i)\<close>\<close>

definition mapped_elsewhere :: "mapping_state \<Rightarrow> nat \<Rightarrow> nat \<Rightarrow> bool result" where
  "mapped_elsewhere st i j =
     rbind (index_at (ms_before_to_after st) i) (\<lambda>b.
     if b \<noteq> None \<and> b \<noteq> Some j then Inr True
     else rbind (index_at (ms_after_to_before st) j) (\<lambda>a. Inr (a \<noteq> None \<and> a \<noteq> Some i)))"

fun can_map_equal_subtree_fuel :: "nat \<Rightarrow> parsed_syntax \<Rightarrow> parsed_syntax \<Rightarrow> mapping_state \<Rightarrow> nat \<Rightarrow> nat \<Rightarrow> bool result" where
  "can_map_equal_subtree_fuel 0 before after st i j = Inl Diverges"
| "can_map_equal_subtree_fuel (Suc fuel) before after st i j =
     rbind (index_at (ps_nodes before) i) (\<lambda>bn.
     rbind (index_at (ps_nodes after) j) (\<lambda>an.
     if node_kind bn \<noteq> node_kind an \<or> length (node_children bn) \<noteq> length (node_children an) then Inr False
     else
       rbind (mapped_elsewhere st i j) (\<lambda>conflict.
       if conflict then Inr False
       else rall (\<lambda>(before_child, after_child). can_map_equal_subtree_fuel fuel before after st before_child after_child)
              (zip (node_children bn) (node_children an)))))"

definition can_map_equal_subtree :: "parsed_syntax \<Rightarrow> parsed_syntax \<Rightarrow> mapping_state \<Rightarrow> nat \<Rightarrow> nat \<Rightarrow> bool result" where
  "can_map_equal_subtree before after st i j =
     can_map_equal_subtree_fuel (Suc (length (ps_nodes before))) before after st i j"

fun can_map_shape_pair_fuel :: "nat \<Rightarrow> parsed_syntax \<Rightarrow> parsed_syntax \<Rightarrow> mapping_state \<Rightarrow> nat \<Rightarrow> nat \<Rightarrow> bool result" where
  "can_map_shape_pair_fuel 0 before after st i j = Inl Diverges"
| "can_map_shape_pair_fuel (Suc fuel) before after st i j =
     rbind (mapped_elsewhere st i j) (\<lambda>conflict.
     if conflict then Inr False
     else
       rbind (index_at (ps_nodes before) i) (\<lambda>bn.
       rbind (index_at (ps_nodes after) j) (\<lambda>an.
       if length (node_children bn) \<noteq> length (node_children an) then Inr False
       else rall (\<lambda>(before_child, after_child). can_map_shape_pair_fuel fuel before after st before_child after_child)
              (zip (node_children bn) (node_children an)))))"

definition can_map_shape_pair :: "parsed_syntax \<Rightarrow> parsed_syntax \<Rightarrow> mapping_state \<Rightarrow> nat \<Rightarrow> nat \<Rightarrow> bool result" where
  "can_map_shape_pair before after st i j = can_map_shape_pair_fuel (Suc (length (ps_nodes before))) before after st i j"

text \<open>The predicate of an exact pair: bytes are compared only when the byte digests agree.\<close>

definition exact_pair_predicate :: "parsed_syntax \<Rightarrow> parsed_syntax \<Rightarrow> syntax_node \<Rightarrow> syntax_node \<Rightarrow> predicate result" where
  "exact_pair_predicate before after bn an =
     rbind (slice (ps_source before) (start_byte (node_span bn)) (end_byte (node_span bn))) (\<lambda>before_bytes.
     rbind (slice (ps_source after) (start_byte (node_span an)) (end_byte (node_span an))) (\<lambda>after_bytes.
       Inr (if node_byte_hash bn = node_byte_hash an \<and> before_bytes = after_bytes then ByteEqual else SyntaxEqual)))"

fun map_equal_subtree_unchecked_fuel ::
  "nat \<Rightarrow> (bytes \<Rightarrow> string) \<Rightarrow> parsed_syntax \<Rightarrow> parsed_syntax \<Rightarrow> string \<Rightarrow> bool \<Rightarrow> nat \<Rightarrow> nat \<Rightarrow> mapping_state \<Rightarrow>
   mapping_state result" where
  "map_equal_subtree_unchecked_fuel 0 to_hex before after root_evidence is_root i j st = Inl Diverges"
| "map_equal_subtree_unchecked_fuel (Suc fuel) to_hex before after root_evidence is_root i j st =
     rbind (index_at (ps_nodes before) i) (\<lambda>bn.
     rbind (index_at (ps_nodes after) j) (\<lambda>an.
     rbind (index_at (ms_before_to_after st) i) (\<lambda>mapped.
     rbind (if mapped = None then
              rbind (exact_pair_predicate before after bn an) (\<lambda>pred.
              rbind (map_pair to_hex before after i j pred ModelForced
                       (if is_root then [root_evidence, ''recursive_syntax_equality_check'']
                        else [''isomorphic_path_under_exact_anchor'']) st) (\<lambda>(ok, st). Inr st))
            else Inr st) (\<lambda>st.
       rfold (\<lambda>st (before_child, after_child).
           map_equal_subtree_unchecked_fuel fuel to_hex before after root_evidence False before_child after_child st)
         st (zip (node_children bn) (node_children an))))))"

definition map_equal_subtree ::
  "(bytes \<Rightarrow> string) \<Rightarrow> parsed_syntax \<Rightarrow> parsed_syntax \<Rightarrow> string \<Rightarrow> nat \<Rightarrow> nat \<Rightarrow> mapping_state \<Rightarrow> (bool \<times> mapping_state) result" where
  "map_equal_subtree to_hex before after root_evidence i j st =
     rbind (can_map_equal_subtree before after st i j) (\<lambda>can.
     rbind (if \<not> can then Inr False else syntax_equal before i after j) (\<lambda>ok.
     if \<not> ok then Inr (False, st)
     else
       rbind (map_equal_subtree_unchecked_fuel (Suc (length (ps_nodes before))) to_hex before after root_evidence True i j st) (\<lambda>st.
         Inr (True, st))))"

section \<open>The invariant\<close>

definition fact_of :: "relation \<Rightarrow> mapping_fact" where
  "fact_of r = \<lparr>fact_predicate = rel_predicate r, fact_correspondence = rel_correspondence r\<rparr>"

text \<open>The mappings that the relations of a state make, in the form in which the verifier computes them.\<close>

definition mappings_in ::
  "(bytes \<Rightarrow> string) \<Rightarrow> parsed_syntax \<Rightarrow> parsed_syntax \<Rightarrow> mapping_state \<Rightarrow> verified_mappings \<Rightarrow> bool" where
  "mappings_in to_hex before after st m \<longleftrightarrow>
     mappings_of before after (ms_relations st) m \<and> before_to_after m = ms_before_to_after st \<and>
     after_to_before m = ms_after_to_before st \<and> facts st = map (map_option fact_of) (by_before m)"

definition state_ok :: "(bytes \<Rightarrow> string) \<Rightarrow> parsed_syntax \<Rightarrow> parsed_syntax \<Rightarrow> mapping_state \<Rightarrow> bool" where
  "state_ok to_hex before after st \<longleftrightarrow>
     (\<exists>m. mappings_in to_hex before after st m) \<and> distinct (map before_id (ms_relations st)) \<and>
     (\<forall>r\<in>set (ms_relations st). relation_verified to_hex before after r)"

lemma state_ok_new: "state_ok to_hex before after (mapping_state_new before after)"
  unfolding state_ok_def mappings_in_def
  by (intro conjI exI [of _ "no_mappings before after"])
    (simp_all add: mapping_state_new_def mappings_of_empty, simp_all add: no_mappings_def)

lemma state_okD:
  assumes "state_ok to_hex before after st"
  shows "length (ms_before_to_after st) = length (ps_nodes before)" "length (ms_after_to_before st) = length (ps_nodes after)"
    "length (facts st) = length (ps_nodes before)"
    "i < length (ps_nodes before) \<Longrightarrow> ms_before_to_after st ! i = Some j \<Longrightarrow>
       j < length (ps_nodes after) \<and> ms_after_to_before st ! j = Some i \<and>
       (\<exists>r\<in>set (ms_relations st). before_id r = i \<and> after_id r = j \<and> facts st ! i = Some (fact_of r))"
    "j < length (ps_nodes after) \<Longrightarrow> ms_after_to_before st ! j = Some i \<Longrightarrow>
       i < length (ps_nodes before) \<and> ms_before_to_after st ! i = Some j"
    "r \<in> set (ms_relations st) \<Longrightarrow> before_id r < length (ps_nodes before) \<and> after_id r < length (ps_nodes after) \<and>
       ms_before_to_after st ! before_id r = Some (after_id r)"
    "length (ms_relations st) \<le> length (ps_nodes before)"
proof -
  obtain m where m: "mappings_of before after (ms_relations st) m" "before_to_after m = ms_before_to_after st"
    "after_to_before m = ms_after_to_before st" "facts st = map (map_option fact_of) (by_before m)"
    using assms by (auto simp: state_ok_def mappings_in_def)
  note f = mappings_of_facts [OF m(1), unfolded m(2,3)]
  have verified: "relation_verified to_hex before after r" if "r \<in> set (ms_relations st)" for r
    using assms that by (simp add: state_ok_def)
  show len: "length (ms_before_to_after st) = length (ps_nodes before)" "length (ms_after_to_before st) = length (ps_nodes after)"
    "length (facts st) = length (ps_nodes before)"
    using f(1-3) m(4) by simp_all
  show mapped: "before_id r < length (ps_nodes before) \<and> after_id r < length (ps_nodes after) \<and>
       ms_before_to_after st ! before_id r = Some (after_id r)" if "r \<in> set (ms_relations st)" for r
    using verified [OF that] f(4) [of "before_id r" r] f(5) [of "before_id r"] that by (auto simp: relation_verified_def)
  show "j < length (ps_nodes after) \<and> ms_after_to_before st ! j = Some i \<and>
       (\<exists>r\<in>set (ms_relations st). before_id r = i \<and> after_id r = j \<and> facts st ! i = Some (fact_of r))"
    if i: "i < length (ps_nodes before)" "ms_before_to_after st ! i = Some j" for i j
  proof -
    obtain r where r: "by_before m ! i = Some r" "after_id r = j"
      using f(5) [OF i(1)] i(2) by (cases "by_before m ! i") auto
    then have mem: "r \<in> set (ms_relations st)" "before_id r = i" using f(4) [OF i(1)] by simp_all
    then have "j < length (ps_nodes after)" using mapped [OF mem(1)] r(2) by simp
    moreover have "facts st ! i = Some (fact_of r)" using r(1) f(3) i(1) by (simp add: m(4))
    ultimately show ?thesis using mem r(2) f(6) [OF i(1)] i(2) by blast
  qed
  show "i < length (ps_nodes before) \<and> ms_before_to_after st ! i = Some j"
    if "j < length (ps_nodes after)" "ms_after_to_before st ! j = Some i"
    using f(6,7) that by blast
  have "set (map before_id (ms_relations st)) \<subseteq> {..<length (ps_nodes before)}" using mapped by auto
  from card_mono [OF _ this] show "length (ms_relations st) \<le> length (ps_nodes before)"
    using assms distinct_card [of "map before_id (ms_relations st)"] by (simp add: state_ok_def)
qed

text \<open>A later state keeps every mapped pair, adds relations at the end, and each of them is forced.\<close>

definition grows :: "mapping_state \<Rightarrow> mapping_state \<Rightarrow> bool" where
  "grows st st' \<longleftrightarrow> (\<exists>rs. ms_relations st' = ms_relations st @ rs \<and> (\<forall>r\<in>set rs. rel_correspondence r = ModelForced))"

lemma grows_refl [simp]: "grows st st"
  by (simp add: grows_def)

lemma grows_trans: "grows st st' \<Longrightarrow> grows st' st'' \<Longrightarrow> grows st st''"
  by (fastforce simp: grows_def)

lemma grows_length: "grows st st' \<Longrightarrow> length (ms_relations st) \<le> length (ms_relations st')"
  by (auto simp: grows_def)

lemma grows_nth: "grows st st' \<Longrightarrow> k < length (ms_relations st) \<Longrightarrow> ms_relations st' ! k = ms_relations st ! k"
  by (auto simp: grows_def nth_append)

section \<open>Adding a pair\<close>

definition new_relation ::
  "(bytes \<Rightarrow> string) \<Rightarrow> parsed_syntax \<Rightarrow> parsed_syntax \<Rightarrow> nat \<Rightarrow> nat \<Rightarrow> predicate \<Rightarrow> correspondence \<Rightarrow> string list \<Rightarrow> relation" where
  "new_relation to_hex before after i j pred corr evidence =
     \<lparr>rel_before = as_ref to_hex (ps_nodes before ! i), rel_after = as_ref to_hex (ps_nodes after ! j),
      rel_predicate = pred, rel_correspondence = corr, rel_evidence = evidence\<rparr>"

definition add_relation :: "relation \<Rightarrow> mapping_state \<Rightarrow> mapping_state" where
  "add_relation r st =
     \<lparr>ms_before_to_after = (ms_before_to_after st)[before_id r := Some (after_id r)],
      ms_after_to_before = (ms_after_to_before st)[after_id r := Some (before_id r)],
      facts = (facts st)[before_id r := Some (fact_of r)], ms_relations = ms_relations st @ [r]\<rparr>"

lemma add_relation_ok:
  assumes st: "state_ok to_hex before after st" and r: "relation_verified to_hex before after r"
    and free: "ms_before_to_after st ! before_id r = None" "ms_after_to_before st ! after_id r = None"
  shows "state_ok to_hex before after (add_relation r st)"
proof -
  obtain m where m: "mappings_of before after (ms_relations st) m" "before_to_after m = ms_before_to_after st"
    "after_to_before m = ms_after_to_before st" "facts st = map (map_option fact_of) (by_before m)"
    using st by (auto simp: state_ok_def mappings_in_def)
  have ij: "before_id r < length (ps_nodes before)" "after_id r < length (ps_nodes after)"
    using r by (simp_all add: relation_verified_def)
  have fresh: "\<forall>q\<in>set (ms_relations st). before_id q \<noteq> before_id r"
    using state_okD(6) [OF st] free(1) by (metis option.distinct(1))
  let ?m = "\<lparr>before_to_after = (before_to_after m)[before_id r := Some (after_id r)],
     after_to_before = (after_to_before m)[after_id r := Some (before_id r)],
     by_before = (by_before m)[before_id r := Some r]\<rparr>"
  have "mappings_of before after (ms_relations st @ [r]) ?m"
    using free by (intro mappings_of_extend [OF m(1) ij _ _ fresh]) (simp_all add: m(2,3))
  then have "mappings_in to_hex before after (add_relation r st) ?m"
    by (simp add: mappings_in_def add_relation_def m(2-4) map_update)
  moreover have "distinct (map before_id (ms_relations (add_relation r st)))"
    using st fresh by (auto simp: state_ok_def add_relation_def)
  ultimately show ?thesis
    using st r by (auto simp: state_ok_def add_relation_def)
qed

lemma new_relation_ids:
  assumes "wf_syntax before" "wf_syntax after" "i < length (ps_nodes before)" "j < length (ps_nodes after)"
  shows "before_id (new_relation to_hex before after i j pred corr ev) = i"
    "after_id (new_relation to_hex before after i j pred corr ev) = j"
  using assms by (simp_all add: new_relation_def as_ref_def wf_node_id)

text \<open>What \<open>map_pair\<close> does: it adds the relation when both ends are free, and otherwise nothing.\<close>

lemma map_pair_eq:
  assumes wf: "wf_syntax before" "wf_syntax after" and st: "state_ok to_hex before after st"
    and ij: "i < length (ps_nodes before)" "j < length (ps_nodes after)"
  shows "map_pair to_hex before after i j pred corr ev st =
    Inr (if ms_before_to_after st ! i = None \<and> ms_after_to_before st ! j = None
         then (True, add_relation (new_relation to_hex before after i j pred corr ev) st)
         else (ms_before_to_after st ! i = Some j, st))"
proof -
  let ?r = "new_relation to_hex before after i j pred corr ev"
  note len = state_okD(1-3) [OF st] and ids = new_relation_ids [OF wf ij, of to_hex pred corr ev]
  have unfold: "add_relation ?r st = \<lparr>ms_before_to_after = (ms_before_to_after st)[i := Some j],
      ms_after_to_before = (ms_after_to_before st)[j := Some i],
      facts = (facts st)[i := Some \<lparr>fact_predicate = pred, fact_correspondence = corr\<rparr>], ms_relations = ms_relations st @ [?r]\<rparr>"
    unfolding add_relation_def ids by (simp add: fact_of_def new_relation_def)
  have both: "ms_after_to_before st ! j = Some i" if "ms_before_to_after st ! i = Some j"
    using state_okD(4) [OF st ij(1) that] by blast
  show ?thesis
    using len ij both unfolding unfold
    by (cases "ms_before_to_after st ! i"; cases "ms_after_to_before st ! j")
      (auto simp: map_pair_def new_relation_def)
qed

section \<open>The tests\<close>

definition phase_of :: "mapping_state \<Rightarrow> phase_mappings" where
  "phase_of st = \<lparr>pm_before_to_after = ms_before_to_after st, pm_after_to_before = ms_after_to_before st\<rparr>"

lemma phase_of_ok:
  assumes "state_ok to_hex before after st"
  obtains m where "phase_ok before after m (phase_of st)"
proof -
  obtain m :: verified_mappings
    where "before_to_after m = ms_before_to_after st" "after_to_before m = ms_after_to_before st"
    using assms by (auto simp: state_ok_def mappings_in_def)
  then show ?thesis
    using state_okD(1,2) [OF assms] by (intro that [of m]) (simp add: phase_ok_def phase_of_def)
qed

lemma mapped_elsewhere_eq:
  assumes "state_ok to_hex before after st" "i < length (ps_nodes before)" "j < length (ps_nodes after)"
  shows "mapped_elsewhere st i j = Inr (\<not> agrees (phase_of st) i j)"
  using assms state_okD(1,2) [OF assms(1)] by (auto simp: mapped_elsewhere_def agrees_def phase_of_def)

lemma can_map_shape_fuel_eq:
  assumes wf: "wf_syntax before" "wf_syntax after" and st: "state_ok to_hex before after st"
  shows "i < length (ps_nodes before) \<Longrightarrow> j < length (ps_nodes after) \<Longrightarrow> length (ps_nodes before) < fuel + i \<Longrightarrow>
    can_map_shape_pair_fuel fuel before after st i j = Inr (compatible before after (phase_of st) i j)"
proof (induction fuel arbitrary: i j)
  case (Suc fuel)
  note i = Suc.prems(1) and j = Suc.prems(2)
  let ?zip = "zip (node_children (ps_nodes before ! i)) (node_children (ps_nodes after ! j))"
  have "rall (\<lambda>(c, d). can_map_shape_pair_fuel fuel before after st c d) ?zip =
      Inr (\<forall>x\<in>set ?zip. case x of (c, d) \<Rightarrow> compatible before after (phase_of st) c d)"
  proof (rule rall_pure)
    fix x assume "x \<in> set ?zip"
    then obtain c d where x: "x = (c, d)" "c \<in> set (node_children (ps_nodes before ! i))"
      "d \<in> set (node_children (ps_nodes after ! j))" by (rule zip_member_cases)
    have "can_map_shape_pair_fuel fuel before after st c d = Inr (compatible before after (phase_of st) c d)"
      using wf_child(1,2) [OF wf(1) i x(2)] wf_child(2) [OF wf(2) j x(3)] Suc.prems(3) by (intro Suc.IH) simp_all
    then show "(case x of (c, d) \<Rightarrow> can_map_shape_pair_fuel fuel before after st c d) =
        Inr (case x of (c, d) \<Rightarrow> compatible before after (phase_of st) c d)" by (simp add: x)
  qed
  moreover have "compatible before after (phase_of st) i j \<longleftrightarrow> agrees (phase_of st) i j \<and>
     length (node_children (ps_nodes before ! i)) = length (node_children (ps_nodes after ! j)) \<and>
     (\<forall>x\<in>set ?zip. case x of (c, d) \<Rightarrow> compatible before after (phase_of st) c d)"
    by (rule compatible_unfold)
  ultimately show ?case
    using mapped_elsewhere_eq [OF st i j] i j by simp
qed simp

lemma can_map_shape_pair_eq:
  assumes "wf_syntax before" "wf_syntax after" "state_ok to_hex before after st"
    "i < length (ps_nodes before)" "j < length (ps_nodes after)"
  shows "can_map_shape_pair before after st i j = Inr (compatible before after (phase_of st) i j)"
  unfolding can_map_shape_pair_def using assms by (intro can_map_shape_fuel_eq) simp_all

lemma can_map_equal_fuel_total:
  assumes wf: "wf_syntax before" "wf_syntax after" and st: "state_ok to_hex before after st"
  shows "i < length (ps_nodes before) \<Longrightarrow> j < length (ps_nodes after) \<Longrightarrow> length (ps_nodes before) < fuel + i \<Longrightarrow>
    yields (can_map_equal_subtree_fuel fuel before after st i j) (\<lambda>b. b \<longrightarrow> compatible before after (phase_of st) i j)"
proof (induction fuel arbitrary: i j)
  case (Suc fuel)
  note i = Suc.prems(1) and j = Suc.prems(2)
  let ?zip = "zip (node_children (ps_nodes before ! i)) (node_children (ps_nodes after ! j))"
  define g where "g x = (case can_map_equal_subtree_fuel fuel before after st (fst x) (snd x) of Inr b \<Rightarrow> b | Inl _ \<Rightarrow> False)" for x
  have child: "can_map_equal_subtree_fuel fuel before after st c d = Inr (g (c, d)) \<and>
      (g (c, d) \<longrightarrow> compatible before after (phase_of st) c d)" if mem: "(c, d) \<in> set ?zip" for c d
  proof -
    have x: "c \<in> set (node_children (ps_nodes before ! i))" "d \<in> set (node_children (ps_nodes after ! j))"
      using zip_members [OF mem] by simp_all
    have "yields (can_map_equal_subtree_fuel fuel before after st c d) (\<lambda>b. b \<longrightarrow> compatible before after (phase_of st) c d)"
      using wf_child(1,2) [OF wf(1) i x(1)] wf_child(2) [OF wf(2) j x(2)] Suc.prems(3) by (intro Suc.IH) simp_all
    then show ?thesis by (auto simp: g_def yields_def)
  qed
  have "rall (\<lambda>(c, d). can_map_equal_subtree_fuel fuel before after st c d) ?zip = Inr (\<forall>x\<in>set ?zip. g x)"
    by (rule rall_pure) (use child in auto)
  moreover have "compatible before after (phase_of st) i j \<longleftrightarrow> agrees (phase_of st) i j \<and>
     length (node_children (ps_nodes before ! i)) = length (node_children (ps_nodes after ! j)) \<and>
     (\<forall>x\<in>set ?zip. case x of (c, d) \<Rightarrow> compatible before after (phase_of st) c d)"
    by (rule compatible_unfold)
  ultimately show ?case
    using mapped_elsewhere_eq [OF st i j] i j child by auto
qed simp

section \<open>Exact subtrees\<close>

text \<open>Equal bytes have equal byte digests, as they do after parsing.\<close>

definition byte_hashes_agree :: "parsed_syntax \<Rightarrow> parsed_syntax \<Rightarrow> bool" where
  "byte_hashes_agree before after \<longleftrightarrow>
     (\<forall>i<length (ps_nodes before). \<forall>j<length (ps_nodes after).
        bytes_same before i after j \<longrightarrow> node_byte_hash (ps_nodes before ! i) = node_byte_hash (ps_nodes after ! j))"

lemma exact_pair_predicate_eq:
  assumes wf: "wf_syntax before" "wf_syntax after" and hashes: "byte_hashes_agree before after"
    and ij: "i < length (ps_nodes before)" "j < length (ps_nodes after)" and same: "syntax_same before i after j"
  obtains pred where "exact_pair_predicate before after (ps_nodes before ! i) (ps_nodes after ! j) = Inr pred"
    "strongest_predicate before i after j = Some pred" "pred = ByteEqual \<or> pred = SyntaxEqual"
proof -
  have bytes: "bytes_same before i after j \<longleftrightarrow>
      take (end_byte (node_span (ps_nodes before ! i)) - start_byte (node_span (ps_nodes before ! i)))
        (drop (start_byte (node_span (ps_nodes before ! i))) (ps_source before)) =
      take (end_byte (node_span (ps_nodes after ! j)) - start_byte (node_span (ps_nodes after ! j)))
        (drop (start_byte (node_span (ps_nodes after ! j))) (ps_source after))"
    using wf_span [OF wf(1) ij(1)] wf_span [OF wf(2) ij(2)] ij by (simp add: bytes_same_def node_bytes_def)
  have "exact_pair_predicate before after (ps_nodes before ! i) (ps_nodes after ! j) =
      Inr (if bytes_same before i after j then ByteEqual else SyntaxEqual)"
    using wf_span [OF wf(1) ij(1)] wf_span [OF wf(2) ij(2)] hashes ij bytes
    by (auto simp: exact_pair_predicate_def byte_hashes_agree_def)
  then show ?thesis
    using same by (intro that [of "if bytes_same before i after j then ByteEqual else SyntaxEqual"])
      (simp_all add: strongest_predicate_def)
qed

text \<open>A relation of the exact phase is one that the verifier accepts.\<close>

lemma exact_relation_verified:
  assumes wf: "wf_syntax before" "wf_syntax after" and ij: "i < length (ps_nodes before)" "j < length (ps_nodes after)"
    and pred: "strongest_predicate before i after j = Some pred"
    and ev: "ev = GLOBAL_ANCHOR_EVIDENCE \<or> ev = LOCAL_ANCHOR_EVIDENCE \<or> ev = EXACT_DESCENDANT_EVIDENCE"
  shows "relation_verified to_hex before after (new_relation to_hex before after i j pred ModelForced ev)"
proof -
  let ?r = "new_relation to_hex before after i j pred ModelForced ev"
  note ids = new_relation_ids [OF wf ij, of to_hex pred ModelForced ev]
  have "predicate_true before after ?r"
    using pred ids by (auto simp: predicate_true_def strongest_predicate_def new_relation_def split: if_splits)
  moreover have "exact_relation before after ?r"
    using pred ev ids by (auto simp: exact_relation_def new_relation_def)
  ultimately show ?thesis
    using ids ij by (simp add: relation_verified_def) (simp add: new_relation_def)
qed

definition anchor_label :: "string \<Rightarrow> bool" where
  "anchor_label s \<longleftrightarrow> [s, ''recursive_syntax_equality_check''] = GLOBAL_ANCHOR_EVIDENCE \<or>
     [s, ''recursive_syntax_equality_check''] = LOCAL_ANCHOR_EVIDENCE"

text \<open>The relations that mapping the pair \<open>(i, j)\<close> adds: exact ones, the pair itself with the evidence \<open>ev\<close> of its anchor and pairs below it
  as its descendants.\<close>

definition exact_growth ::
  "parsed_syntax \<Rightarrow> parsed_syntax \<Rightarrow> string list \<Rightarrow> nat \<Rightarrow> nat \<Rightarrow> mapping_state \<Rightarrow> mapping_state \<Rightarrow> bool" where
  "exact_growth before after ev i j st st' \<longleftrightarrow>
     (\<forall>r\<in>set (ms_relations st'). r \<in> set (ms_relations st) \<or> is_exact_relation r \<and>
        (before_id r = i \<and> after_id r = j \<and> rel_evidence r = ev \<or>
         isomorphic_path before after i j (before_id r) (after_id r) \<and> rel_evidence r = EXACT_DESCENDANT_EVIDENCE))"

lemma exact_growth_refl: "exact_growth before after ev i j st st"
  by (simp add: exact_growth_def)

lemma exact_growth_descend:
  assumes "exact_growth before after ev i j st st1" "exact_growth before after EXACT_DESCENDANT_EVIDENCE c d st1 st2"
    "(c, d) \<in> set (zip (node_children (ps_nodes before ! i)) (node_children (ps_nodes after ! j)))"
  shows "exact_growth before after ev i j st st2"
  unfolding exact_growth_def
proof
  fix r assume "r \<in> set (ms_relations st2)"
  then consider "r \<in> set (ms_relations st1)"
    | "is_exact_relation r" "before_id r = c" "after_id r = d" "rel_evidence r = EXACT_DESCENDANT_EVIDENCE"
    | "is_exact_relation r" "isomorphic_path before after c d (before_id r) (after_id r)" "rel_evidence r = EXACT_DESCENDANT_EVIDENCE"
    using assms(2) unfolding exact_growth_def by blast
  then show "r \<in> set (ms_relations st) \<or> is_exact_relation r \<and>
        (before_id r = i \<and> after_id r = j \<and> rel_evidence r = ev \<or>
         isomorphic_path before after i j (before_id r) (after_id r) \<and> rel_evidence r = EXACT_DESCENDANT_EVIDENCE)"
  proof cases
    case 1
    then show ?thesis using assms(1) unfolding exact_growth_def by blast
  next
    case 2
    then show ?thesis using child [OF assms(3)] by blast
  next
    case 3
    then show ?thesis using descend [OF assms(3)] by blast
  qed
qed

lemma grows_mapped:
  assumes "state_ok to_hex before after st" "state_ok to_hex before after st'" "grows st st'"
    and "i < length (ps_nodes before)" "ms_before_to_after st ! i = Some j"
  shows "ms_before_to_after st' ! i = Some j"
proof -
  obtain r where "r \<in> set (ms_relations st)" "before_id r = i" "after_id r = j"
    using state_okD(4) [OF assms(1,4,5)] by blast
  moreover from this have "r \<in> set (ms_relations st')" using assms(3) by (auto simp: grows_def)
  ultimately show ?thesis using state_okD(6) [OF assms(2)] by blast
qed

lemma agrees_free:
  assumes "state_ok to_hex before after st" "i < length (ps_nodes before)" "j < length (ps_nodes after)"
    and "agrees (phase_of st) i j" "ms_before_to_after st ! i \<noteq> Some j"
  shows "ms_before_to_after st ! i = None" "ms_after_to_before st ! j = None"
proof -
  have "ms_after_to_before st ! j \<noteq> Some i"
    using state_okD(5) [OF assms(1,3)] assms(5) by blast
  then show "ms_before_to_after st ! i = None" "ms_after_to_before st ! j = None"
    using assms(4,5) by (auto simp: agrees_def phase_of_def)
qed

definition subtree_mapped ::
  "(bytes \<Rightarrow> string) \<Rightarrow> parsed_syntax \<Rightarrow> parsed_syntax \<Rightarrow> string list \<Rightarrow> nat \<Rightarrow> nat \<Rightarrow> mapping_state \<Rightarrow> mapping_state \<Rightarrow> bool" where
  "subtree_mapped to_hex before after ev i j st st' \<longleftrightarrow>
     state_ok to_hex before after st' \<and> grows st st' \<and> exact_growth before after ev i j st st' \<and>
     (agrees (phase_of st) i j \<longrightarrow> ms_before_to_after st' ! i = Some j)"

lemma map_equal_unchecked_ok:
  assumes wf: "wf_syntax before" "wf_syntax after" and hashes: "byte_hashes_agree before after" and lab: "anchor_label s"
  shows "i < length (ps_nodes before) \<Longrightarrow> j < length (ps_nodes after) \<Longrightarrow> length (ps_nodes before) < fuel + i \<Longrightarrow>
    syntax_same before i after j \<Longrightarrow> state_ok to_hex before after st \<Longrightarrow>
    yields (map_equal_subtree_unchecked_fuel fuel to_hex before after s is_root i j st)
      (subtree_mapped to_hex before after
        (if is_root then [s, ''recursive_syntax_equality_check''] else EXACT_DESCENDANT_EVIDENCE) i j st)"
proof (induction fuel arbitrary: i j st is_root)
  case (Suc fuel)
  note i = Suc.prems(1) and j = Suc.prems(2) and same = Suc.prems(4) and st = Suc.prems(5)
  let ?zip = "zip (node_children (ps_nodes before ! i)) (node_children (ps_nodes after ! j))"
  define ev where "ev = (if is_root then [s, ''recursive_syntax_equality_check''] else EXACT_DESCENDANT_EVIDENCE)"
  let ?M = "subtree_mapped to_hex before after ev i j st"
  have ev: "ev = GLOBAL_ANCHOR_EVIDENCE \<or> ev = LOCAL_ANCHOR_EVIDENCE \<or> ev = EXACT_DESCENDANT_EVIDENCE"
    using lab by (auto simp: ev_def anchor_label_def)
  obtain pred where pred: "exact_pair_predicate before after (ps_nodes before ! i) (ps_nodes after ! j) = Inr pred"
    "strongest_predicate before i after j = Some pred" "pred = ByteEqual \<or> pred = SyntaxEqual"
    by (rule exact_pair_predicate_eq [OF wf hashes i j same])
  let ?r = "new_relation to_hex before after i j pred ModelForced ev"
  note ids = new_relation_ids [OF wf i j, of to_hex pred ModelForced ev]
  have step: "yields (if ms_before_to_after st ! i = None then
              rbind (exact_pair_predicate before after (ps_nodes before ! i) (ps_nodes after ! j)) (\<lambda>pred.
              rbind (map_pair to_hex before after i j pred ModelForced ev st) (\<lambda>(ok, st). Inr st))
            else Inr st) ?M"
  proof (cases "ms_before_to_after st ! i = None \<and> ms_after_to_before st ! j = None")
    case True
    have "state_ok to_hex before after (add_relation ?r st)"
      by (rule add_relation_ok [OF st exact_relation_verified [OF wf i j pred(2) ev]]) (use True ids in simp_all)
    moreover have "grows st (add_relation ?r st)" by (simp add: grows_def add_relation_def new_relation_def)
    moreover have "is_exact_relation ?r" "rel_evidence ?r = ev" using pred(3) by (simp_all add: is_exact_relation_def new_relation_def)
    then have "exact_growth before after ev i j st (add_relation ?r st)"
      using ids by (simp add: exact_growth_def add_relation_def)
    moreover have "ms_before_to_after (add_relation ?r st) ! i = Some j"
      using ids i state_okD(1) [OF st] by (simp add: add_relation_def)
    ultimately show ?thesis using True by (simp add: pred map_pair_eq [OF wf st i j] subtree_mapped_def)
  next
    case False
    then have "agrees (phase_of st) i j \<longrightarrow> ms_before_to_after st ! i = Some j"
      using agrees_free [OF st i j] by blast
    then have "?M st" using st by (simp add: subtree_mapped_def exact_growth_refl)
    then show ?thesis using False by (auto simp: pred map_pair_eq [OF wf st i j])
  qed
  have children: "yields (rfold (\<lambda>st (before_child, after_child).
           map_equal_subtree_unchecked_fuel fuel to_hex before after s False before_child after_child st) st1 ?zip) ?M" if st1: "?M st1" for st1
  proof (rule yields_fold [where I = ?M], rule st1)
    fix x st2 assume mem: "x \<in> set ?zip" and st2: "?M st2"
    then obtain c d where x: "x = (c, d)" "c \<in> set (node_children (ps_nodes before ! i))"
      "d \<in> set (node_children (ps_nodes after ! j))" by (blast elim: zip_member_cases)
    have "syntax_same before c after d"
      by (rule syntax_same_child [OF same]) (use wf i j mem x in \<open>simp_all add: in_arena_def\<close>)
    then have "yields (map_equal_subtree_unchecked_fuel fuel to_hex before after s False c d st2)
        (subtree_mapped to_hex before after (if False then [s, ''recursive_syntax_equality_check''] else EXACT_DESCENDANT_EVIDENCE) c d st2)"
      using wf_child(1,2) [OF wf(1) i x(2)] wf_child(2) [OF wf(2) j x(3)] Suc.prems(3) st2
      by (intro Suc.IH) (simp_all add: subtree_mapped_def)
    then show "yields (case x of (before_child, after_child) \<Rightarrow>
           map_equal_subtree_unchecked_fuel fuel to_hex before after s False before_child after_child st2) ?M"
      unfolding x(1) prod.case
    proof (rule yields_conseq)
      fix st3 assume "subtree_mapped to_hex before after (if False then [s, ''recursive_syntax_equality_check''] else EXACT_DESCENDANT_EVIDENCE) c d st2 st3"
      then have st3: "state_ok to_hex before after st3" "grows st2 st3" "exact_growth before after EXACT_DESCENDANT_EVIDENCE c d st2 st3"
        by (simp_all add: subtree_mapped_def)
      show "?M st3"
        using st2 st3 grows_trans grows_mapped [OF _ st3(1,2) i] exact_growth_descend [OF _ st3(3) mem [unfolded x(1)]]
        unfolding subtree_mapped_def by blast
    qed
  qed
  have idx: "index_at (ps_nodes before) i = Inr (ps_nodes before ! i)" "index_at (ps_nodes after) j = Inr (ps_nodes after ! j)"
    "index_at (ms_before_to_after st) i = Inr (ms_before_to_after st ! i)"
    using i j state_okD(1) [OF st] by simp_all
  show ?case
    unfolding map_equal_subtree_unchecked_fuel.simps idx rbind_simps EXACT_DESCENDANT_EVIDENCE_def [symmetric] ev_def [symmetric]
    by (rule yields_bind [OF step children])
qed simp

text \<open>The test of a whole subtree: for equal subtrees it is that the mappings agree everywhere below.\<close>

lemma can_map_equal_fuel_eq:
  assumes wf: "wf_syntax before" "wf_syntax after" and st: "state_ok to_hex before after st"
  shows "i < length (ps_nodes before) \<Longrightarrow> j < length (ps_nodes after) \<Longrightarrow> length (ps_nodes before) < fuel + i \<Longrightarrow>
    syntax_same before i after j \<Longrightarrow>
    can_map_equal_subtree_fuel fuel before after st i j = Inr (compatible before after (phase_of st) i j)"
proof (induction fuel arbitrary: i j)
  case (Suc fuel)
  note i = Suc.prems(1) and j = Suc.prems(2)
  let ?zip = "zip (node_children (ps_nodes before ! i)) (node_children (ps_nodes after ! j))"
  have arena: "in_arena before i" "in_arena after j" using wf i j by (simp_all add: in_arena_def)
  have "rall (\<lambda>(c, d). can_map_equal_subtree_fuel fuel before after st c d) ?zip =
      Inr (\<forall>x\<in>set ?zip. case x of (c, d) \<Rightarrow> compatible before after (phase_of st) c d)"
  proof (rule rall_pure)
    fix x assume mem: "x \<in> set ?zip"
    then obtain c d where x: "x = (c, d)" "c \<in> set (node_children (ps_nodes before ! i))"
      "d \<in> set (node_children (ps_nodes after ! j))" by (rule zip_member_cases)
    have "syntax_same before c after d" by (rule syntax_same_child [OF Suc.prems(4) arena mem [unfolded x(1)]])
    then have "can_map_equal_subtree_fuel fuel before after st c d = Inr (compatible before after (phase_of st) c d)"
      using wf_child(1,2) [OF wf(1) i x(2)] wf_child(2) [OF wf(2) j x(3)] Suc.prems(3) by (intro Suc.IH) simp_all
    then show "(case x of (c, d) \<Rightarrow> can_map_equal_subtree_fuel fuel before after st c d) =
        Inr (case x of (c, d) \<Rightarrow> compatible before after (phase_of st) c d)" by (simp add: x)
  qed
  moreover have "compatible before after (phase_of st) i j \<longleftrightarrow> agrees (phase_of st) i j \<and>
     length (node_children (ps_nodes before ! i)) = length (node_children (ps_nodes after ! j)) \<and>
     (\<forall>x\<in>set ?zip. case x of (c, d) \<Rightarrow> compatible before after (phase_of st) c d)"
    by (rule compatible_unfold)
  ultimately show ?case
    using mapped_elsewhere_eq [OF st i j] i j syntax_same_facts(2,3) [OF arena Suc.prems(4)] by simp
qed simp

text \<open>What \<open>map_equal_subtree\<close> does: for equal subtrees on which the mappings agree it maps the pair and what is below, and otherwise
  nothing.\<close>

lemma map_equal_subtree_ok:
  assumes wf: "wf_syntax before" "wf_syntax after" and hashes: "byte_hashes_agree before after" and lab: "anchor_label s"
    and st: "state_ok to_hex before after st" and ij: "i < length (ps_nodes before)" "j < length (ps_nodes after)"
  shows "yields (map_equal_subtree to_hex before after s i j st)
    (\<lambda>r. if syntax_same before i after j \<and> compatible before after (phase_of st) i j
         then subtree_mapped to_hex before after [s, ''recursive_syntax_equality_check''] i j st (snd r) \<and>
              ms_before_to_after (snd r) ! i = Some j
         else snd r = st)"
proof -
  have arena: "in_arena before i" "in_arena after j" using wf ij by (simp_all add: in_arena_def)
  obtain can where can: "can_map_equal_subtree before after st i j = Inr can" "can \<longrightarrow> compatible before after (phase_of st) i j"
    using can_map_equal_fuel_total [OF wf st ij, of "Suc (length (ps_nodes before))"] by (auto simp: can_map_equal_subtree_def elim: yieldsE)
  show ?thesis
  proof (cases "syntax_same before i after j \<and> compatible before after (phase_of st) i j")
    case True
    then have "can_map_equal_subtree before after st i j = Inr True"
      using can_map_equal_fuel_eq [OF wf st ij, of "Suc (length (ps_nodes before))"] by (simp add: can_map_equal_subtree_def)
    moreover have "agrees (phase_of st) i j" using True compatible_unfold by blast
    moreover have "yields (map_equal_subtree_unchecked_fuel (Suc (length (ps_nodes before))) to_hex before after s True i j st)
        (subtree_mapped to_hex before after (if True then [s, ''recursive_syntax_equality_check''] else EXACT_DESCENDANT_EVIDENCE) i j st)"
      using ij st True by (intro map_equal_unchecked_ok [OF wf hashes lab]) simp_all
    then obtain st' where "map_equal_subtree_unchecked_fuel (Suc (length (ps_nodes before))) to_hex before after s True i j st = Inr st'"
      "subtree_mapped to_hex before after [s, ''recursive_syntax_equality_check''] i j st st'"
      unfolding if_True by (rule yieldsE)
    moreover have "syntax_equal before i after j = Inr True" using True by (simp add: syntax_same_def)
    ultimately show ?thesis
      using True by (simp add: map_equal_subtree_def subtree_mapped_def del: map_equal_subtree_unchecked_fuel.simps)
  next
    case False
    then have no: "(if \<not> can then Inr False else syntax_equal before i after j) = Inr False"
      using can(2) equal_total(1) [OF arena] by auto
    show ?thesis
      unfolding if_not_P [OF False] map_equal_subtree_def can(1) rbind_simps no by simp
  qed
qed

end
