(* ===== verification/Match_Groups.thy ===== *)
theory Match_Groups
  imports Match_State Shape_Classes
begin

text \<open>
  The shape classes and candidate groups of the producer (\<open>src/matcher.rs\<close>). The algorithms are those of the
  verifier (\<open>Shape_Classes\<close>) without work accounting, and the producer tests candidates against its current mapping
  state instead of the global phase. The specifications \<open>classified\<close> and \<open>groups_ok\<close> are the verifier's, and here the
  computations always return.
\<close>

section \<open>Shape classes\<close>

text \<open>\<open>for id in ids { buckets.entry(key(&nodes[*id])).or_default().push(*id) }\<close>\<close>

definition key_buckets :: "(syntax_node \<Rightarrow> 'k::linorder) \<Rightarrow> parsed_syntax \<Rightarrow> nat list \<Rightarrow> ('k \<times> nat list) list result" where
  "key_buckets key s ids =
     rfold (\<lambda>bs i. rbind (index_at (ps_nodes s) i) (\<lambda>n. Inr (bucket_push (key n) i bs))) [] ids"

definition shape_buckets :: "parsed_syntax \<Rightarrow> nat list \<Rightarrow> (node_key \<times> nat list) list result" where
  "shape_buckets s ids = key_buckets shape_key s ids"

text \<open>\<open>key_classes.iter_mut().find(|class| shape_equal(..))\<close>\<close>

definition find_class :: "(nat \<Rightarrow> bool result) \<Rightarrow> verified_shape_class list \<Rightarrow> nat option result" where
  "find_class same cs = rposition (\<lambda>c. rbind (index_at (class_before c) 0) same) cs"

definition classify_before ::
  "parsed_syntax \<Rightarrow> verified_shape_class list \<Rightarrow> nat \<Rightarrow> verified_shape_class list result" where
  "classify_before before cs i =
     rbind (find_class (\<lambda>representative. shape_equal before i before representative) cs) (\<lambda>found.
     case found of
       Some index \<Rightarrow> update_at (\<lambda>c. c\<lparr>class_before := class_before c @ [i]\<rparr>) cs index
     | None \<Rightarrow> Inr (cs @ [\<lparr>class_before = [i], class_after = []\<rparr>]))"

definition classify_after ::
  "parsed_syntax \<Rightarrow> parsed_syntax \<Rightarrow> verified_shape_class list \<Rightarrow> nat \<Rightarrow> verified_shape_class list result" where
  "classify_after before after cs j =
     rbind (find_class (\<lambda>representative. shape_equal before representative after j) cs) (\<lambda>found.
     case found of
       Some index \<Rightarrow> update_at (\<lambda>c. c\<lparr>class_after := class_after c @ [j]\<rparr>) cs index
     | None \<Rightarrow> Inr cs)"

definition bucket_classes ::
  "parsed_syntax \<Rightarrow> parsed_syntax \<Rightarrow> nat list \<Rightarrow> nat list \<Rightarrow> verified_shape_class list result" where
  "bucket_classes before after before_bucket after_bucket =
     rbind (rfold (classify_before before) [] before_bucket) (\<lambda>cs.
     rbind (rfold (classify_after before after) cs after_bucket) (\<lambda>cs.
       Inr (filter (\<lambda>c. class_after c \<noteq> []) cs)))"

definition match_shape_classes ::
  "parsed_syntax \<Rightarrow> parsed_syntax \<Rightarrow> nat list \<Rightarrow> nat list \<Rightarrow> shape_classes result" where
  "match_shape_classes before after before_ids after_ids =
     rbind (shape_buckets before before_ids) (\<lambda>before_buckets.
     rbind (shape_buckets after after_ids) (\<lambda>after_buckets.
     rbind (rfold (\<lambda>cs (key, before_bucket).
         case map_of after_buckets key of
           None \<Rightarrow> Inr cs
         | Some after_bucket \<Rightarrow>
             rbind (bucket_classes before after before_bucket after_bucket) (\<lambda>new. Inr (cs @ new))) [] before_buckets) (\<lambda>cs.
       Inr \<lparr>classes = cs\<rparr>)))"

section \<open>Candidate groups\<close>

definition match_connect ::
  "parsed_syntax \<Rightarrow> parsed_syntax \<Rightarrow> mapping_state \<Rightarrow> nat \<Rightarrow> nat \<times> nat \<Rightarrow> candidate_scan \<Rightarrow> nat \<times> nat \<Rightarrow> candidate_scan result" where
  "match_connect before after st offset b s a =
     rbind (can_map_shape_pair before after st (snd b) (snd a)) (\<lambda>ok.
     if ok then
       rbind (union (fst b) (offset + fst a) (scan_sets s)) (\<lambda>sets.
       rbind (set_at (incident s) (fst b) True) (\<lambda>inc.
       rbind (set_at inc (offset + fst a) True) (\<lambda>inc.
         Inr \<lparr>scan_sets = sets, incident = inc\<rparr>)))
     else Inr s)"

definition match_class_groups ::
  "parsed_syntax \<Rightarrow> parsed_syntax \<Rightarrow> mapping_state \<Rightarrow> verified_shape_class \<Rightarrow> candidate_group list result" where
  "match_class_groups before after st c =
     (let before_len = length (class_before c);
          within_scan_limit = (case usize_checked_mul before_len (length (class_after c)) of
            None \<Rightarrow> False | Some pairs \<Rightarrow> pairs \<le> ORDERED_ALIGNMENT_CANDIDATE_SCAN_LIMIT) in
      if \<not> within_scan_limit then
        Inr [\<lparr>cand_before = class_before c, cand_after = class_after c, scan_complete = False\<rparr>]
      else
        let vertex_count = before_len + length (class_after c) in
        rbind (rfold (\<lambda>s b. rfold (match_connect before after st before_len b) s (enumerate 0 (class_after c)))
                 \<lparr>scan_sets = disjoint_sets_new vertex_count, incident = replicate vertex_count False\<rparr>
                 (enumerate 0 (class_before c))) (\<lambda>s.
        rbind (rfold (\<lambda>t (k, i). collect_vertex (incident s) (\<lambda>g. g\<lparr>cand_before := cand_before g @ [i]\<rparr>) k t)
                 ([], scan_sets s) (enumerate 0 (class_before c))) (\<lambda>t.
        rbind (rfold (\<lambda>t (k, j). collect_vertex (incident s) (\<lambda>g. g\<lparr>cand_after := cand_after g @ [j]\<rparr>) (before_len + k) t)
                 t (enumerate 0 (class_after c))) (\<lambda>t.
          Inr (map snd (fst t))))))"

definition match_insert :: "nat \<Rightarrow> (nat \<rightharpoonup> nat) \<Rightarrow> nat \<Rightarrow> (nat \<rightharpoonup> nat) result" where
  "match_insert group_id m i = rbind (debug_assert (m i = None)) (\<lambda>_. Inr (m(i \<mapsto> group_id)))"

definition match_index_group ::
  "(nat \<rightharpoonup> nat) \<times> (nat \<rightharpoonup> nat) \<Rightarrow> nat \<times> candidate_group \<Rightarrow> ((nat \<rightharpoonup> nat) \<times> (nat \<rightharpoonup> nat)) result" where
  "match_index_group s g =
     rbind (rfold (match_insert (fst g)) (fst s) (cand_before (snd g))) (\<lambda>bg.
     rbind (rfold (match_insert (fst g)) (snd s) (cand_after (snd g))) (\<lambda>ag.
       Inr (bg, ag)))"

definition match_candidate_groups ::
  "parsed_syntax \<Rightarrow> parsed_syntax \<Rightarrow> mapping_state \<Rightarrow> shape_classes \<Rightarrow> candidate_groups result" where
  "match_candidate_groups before after st cs =
     rbind (rfold (\<lambda>groups c. rbind (match_class_groups before after st c) (\<lambda>new. Inr (groups @ new))) [] (classes cs)) (\<lambda>groups.
     rbind (sort_groups groups) (\<lambda>groups.
     rbind (rfold match_index_group (Map.empty, Map.empty) (enumerate 0 groups)) (\<lambda>s.
       Inr \<lparr>cg_groups = groups, before_group = fst s, after_group = snd s\<rparr>)))"

section \<open>The shape classes are exact\<close>

lemma yields_key_buckets:
  assumes "\<And>i. i \<in> set ids \<Longrightarrow> in_arena s i"
  shows "yields (key_buckets key s ids) (bucketed s key ids)"
  unfolding key_buckets_def
proof (rule yields_fold_prefix)
  show "bucketed s key [] []" by (simp add: bucketed_def bucket_of_def)
next
  fix ys x zs bs
  assume "ids = ys @ x # zs" "bucketed s key ys bs"
  then show "yields (rbind (index_at (ps_nodes s) x) (\<lambda>n. Inr (bucket_push (key n) x bs))) (bucketed s key (ys @ [x]))"
    using assms [of x] by (simp add: arena_index bucketed_push)
qed

lemma yields_shape_buckets:
  assumes "\<And>i. i \<in> set ids \<Longrightarrow> in_arena s i"
  shows "yields (shape_buckets s ids) (bucketed s shape_key ids)"
  unfolding shape_buckets_def using assms by (rule yields_key_buckets)

lemma rposition_pure: "(\<And>x. x \<in> set xs \<Longrightarrow> f x = Inr (p x)) \<Longrightarrow> rposition f xs = Inr (position_of p xs)"
  by (induction xs) auto

lemma find_class_eq:
  assumes "\<And>c. c \<in> set cs \<Longrightarrow> class_before c \<noteq> []"
    and "\<And>c. c \<in> set cs \<Longrightarrow> f (hd (class_before c)) = Inr (p (hd (class_before c)))"
  shows "find_class f cs = Inr (position_of (\<lambda>c. p (hd (class_before c))) cs)"
  unfolding find_class_def
proof (rule rposition_pure)
  fix c assume c: "c \<in> set cs"
  have "index_at (class_before c) 0 = Inr (hd (class_before c))"
    using assms(1) [OF c] by (simp add: index_at_def hd_conv_nth)
  then show "rbind (index_at (class_before c) 0) f = Inr (p (hd (class_before c)))" using assms(2) [OF c] by simp
qed

lemma yields_classify_before:
  assumes ok: "shape_test.before_classes before ys cs" and arena: "\<And>i. i \<in> set (ys @ [x]) \<Longrightarrow> in_arena before i"
    and fresh: "x \<notin> set ys"
  shows "yields (classify_before before cs x) (shape_test.before_classes before (ys @ [x]))"
proof -
  have x: "in_arena before x" using arena by simp
  have rep: "in_arena before (hd (class_before c))" if "c \<in> set cs" for c
    using shape_test.before_classes_arena [OF ok _ that] arena by simp
  have found: "find_class (\<lambda>r. shape_equal before x before r) cs =
      Inr (position_of (\<lambda>c. shape_same before x before (hd (class_before c))) cs)"
    by (rule find_class_eq) (use ok equal_total(2) [OF x rep] in \<open>auto simp: shape_test.before_classes_def\<close>)
  show ?thesis
    unfolding classify_before_def found rbind_simps
  proof (rule yields_case_option)
    assume "position_of (\<lambda>c. shape_same before x before (hd (class_before c))) cs = None"
    then have none: "\<not> shape_same before x before (hd (class_before c))" if "c \<in> set cs" for c
      using that by (simp add: position_of_None)
    then have "\<not> shape_same before (hd (class_before c)) before x" if "c \<in> set cs" for c
      using shape_test.symmetric [OF rep [OF that] x] that by blast
    then have "shape_test.before_classes before (ys @ [x]) (cs @ [\<lparr>class_before = [x], class_after = []\<rparr>])"
      using ok fresh shape_test.reflexive [OF x] by (auto simp: shape_test.before_classes_def sorted_wrt_append)
    then show "yields (Inr (cs @ [\<lparr>class_before = [x], class_after = []\<rparr>])) (shape_test.before_classes before (ys @ [x]))"
      by (rule yields_return)
  next
    fix n
    assume "position_of (\<lambda>c. shape_same before x before (hd (class_before c))) cs = Some n"
    then obtain us c vs where split: "cs = us @ c # vs" "length us = n" and same: "shape_same before x before (hd (class_before c))"
      by (rule position_split)
    have "class_before c \<noteq> []" using ok split by (auto simp: shape_test.before_classes_def)
    then have hd: "hd (class_before c @ [x]) = hd (class_before c)" by simp
    have "shape_test.before_classes before (ys @ [x]) (us @ c\<lparr>class_before := class_before c @ [x]\<rparr> # vs)"
      using ok fresh same hd unfolding split(1) shape_test.before_classes_def by (auto simp: sorted_wrt_append)
    then show "yields ((update_at (\<lambda>c. c\<lparr>class_before := class_before c @ [x]\<rparr>) cs n)) (shape_test.before_classes before (ys @ [x]))"
      unfolding split(1) split(2) [symmetric] update_at_split by (simp add: yields_return)
  qed
qed

lemma yields_classify_after:
  assumes ok: "shape_test.after_classes before after cs0 ys cs" and rep: "\<And>c. c \<in> set cs \<Longrightarrow> class_before c \<noteq> [] \<and> in_arena before (hd (class_before c))"
    and x: "in_arena after x" and fresh: "x \<notin> set ys"
  shows "yields (classify_after before after cs x) (shape_test.after_classes before after cs0 (ys @ [x]))"
proof -
  have found: "find_class (\<lambda>r. shape_equal before r after x) cs =
      Inr (position_of (\<lambda>c. shape_same before (hd (class_before c)) after x) cs)"
    by (rule find_class_eq) (use rep equal_total(2) [OF _ x] in auto)
  show ?thesis
    unfolding classify_after_def found rbind_simps
  proof (rule yields_case_option)
    assume "position_of (\<lambda>c. shape_same before (hd (class_before c)) after x) cs = None"
    then have none: "\<forall>c\<in>set cs. \<not> shape_same before (hd (class_before c)) after x"
      by (simp add: position_of_None)
    then have "{j \<in> set (ys @ [x]). \<exists>c\<in>set cs. shape_same before (hd (class_before c)) after j} =
        {j \<in> set ys. \<exists>c\<in>set cs. shape_same before (hd (class_before c)) after j}" by auto
    then have "shape_test.after_classes before after cs0 (ys @ [x]) cs"
      using ok unfolding shape_test.after_classes_def by simp
    then show "yields (Inr cs) (shape_test.after_classes before after cs0 (ys @ [x]))"
      by (rule yields_return)
  next
    fix n
    assume "position_of (\<lambda>c. shape_same before (hd (class_before c)) after x) cs = Some n"
    then obtain us c vs where split: "cs = us @ c # vs" "length us = n" and same: "shape_same before (hd (class_before c)) after x"
      by (rule position_split)
    let ?cs = "us @ c\<lparr>class_after := class_after c @ [x]\<rparr> # vs"
    have members: "set (concat (map class_after cs)) = {j \<in> set ys. \<exists>c\<in>set cs. shape_same before (hd (class_before c)) after j}"
      and dist: "distinct (concat (map class_after cs))"
      and good: "\<forall>c\<in>set cs. \<forall>j\<in>set (class_after c). shape_same before (hd (class_before c)) after j"
      and befores: "map class_before cs = map class_before cs0"
      using ok unfolding shape_test.after_classes_def by blast+
    have "x \<notin> set (concat (map class_after cs))" using members fresh by blast
    then have "distinct (concat (map class_after ?cs))" using dist unfolding split(1) by auto
    moreover have "set (concat (map class_after ?cs)) = insert x (set (concat (map class_after cs)))"
      unfolding split(1) by auto
    moreover have "(\<exists>c\<in>set ?cs. shape_same before (hd (class_before c)) after j) \<longleftrightarrow> (\<exists>c\<in>set cs. shape_same before (hd (class_before c)) after j)" for j
      unfolding split(1) by simp
    ultimately have "shape_test.after_classes before after cs0 (ys @ [x]) ?cs"
      using members good befores same unfolding split(1) shape_test.after_classes_def by (auto simp del: concat_append)
    then show "yields ((update_at (\<lambda>c. c\<lparr>class_after := class_after c @ [x]\<rparr>) cs n))
        (shape_test.after_classes before after cs0 (ys @ [x]))"
      unfolding split(1) split(2) [symmetric] update_at_split by (simp add: yields_return)
  qed
qed

lemma yields_bucket_classes:
  assumes bs: "\<And>i. i \<in> set bs \<Longrightarrow> in_arena before i" "distinct bs"
    and as: "\<And>j. j \<in> set as \<Longrightarrow> in_arena after j" "distinct as"
  shows "yields (bucket_classes before after bs as)
    (classified (\<lambda>i j. shape_same before i after j) bs as)"
proof -
  have first: "yields (rfold (classify_before before) [] bs) (shape_test.before_classes before bs)"
  proof (rule yields_fold_prefix)
    show "shape_test.before_classes before [] []" by (simp add: shape_test.before_classes_def)
  next
    fix ys x zs s assume "bs = ys @ x # zs" "shape_test.before_classes before ys s"
    then show "yields (classify_before before s x) (shape_test.before_classes before (ys @ [x]))"
      using bs by (intro yields_classify_before) auto
  qed
  show ?thesis
    unfolding bucket_classes_def
  proof (rule yields_bind [OF first])
    fix cs0 assume cs0: "shape_test.before_classes before bs cs0"
    have rep0: "class_before c \<noteq> [] \<and> in_arena before (hd (class_before c))" if "c \<in> set cs0" for c
      using shape_test.before_classes_arena [OF cs0 bs(1) that] cs0 that by (simp add: shape_test.before_classes_def)
    have rep: "class_before c \<noteq> [] \<and> in_arena before (hd (class_before c))"
      if "map class_before cs = map class_before cs0" "c \<in> set cs" for cs c
    proof -
      have "class_before c \<in> set (map class_before cs0)" using that(2) unfolding that(1) [symmetric] by simp
      then obtain d where "d \<in> set cs0" "class_before c = class_before d" by (metis in_set_conv_nth length_map nth_map nth_mem)
      then show ?thesis using rep0 [of d] by simp
    qed
    have second: "yields (rfold (classify_after before after) cs0 as) (shape_test.after_classes before after cs0 as)"
    proof (rule yields_fold_prefix)
      have empty: "\<forall>c\<in>set cs0. class_after c = []" using cs0 by (simp add: shape_test.before_classes_def)
      then have "concat (map class_after cs0) = []" by simp
      then show "shape_test.after_classes before after cs0 [] cs0"
        unfolding shape_test.after_classes_def by (simp add: empty del: concat_eq_Nil_conv)
    next
      fix ys x zs s assume split: "as = ys @ x # zs" and s: "shape_test.after_classes before after cs0 ys s"
      then have "map class_before s = map class_before cs0" by (simp add: shape_test.after_classes_def)
      from rep [OF this] show "yields (classify_after before after s x) (shape_test.after_classes before after cs0 (ys @ [x]))"
        using as split by (intro yields_classify_after [OF s]) auto
    qed
    show "yields (rbind (rfold (classify_after before after) cs0 as) (\<lambda>cs.
       Inr (filter (\<lambda>c. class_after c \<noteq> []) cs)))
      (classified (\<lambda>i j. shape_same before i after j) bs as)"
    proof (rule yields_bind [OF second], rule yields_return)
      fix cs assume cs: "shape_test.after_classes before after cs0 as cs"
      have maps: "map class_before cs = map class_before cs0" using cs by (simp add: shape_test.after_classes_def)
      have cover: "set (concat (map class_before cs)) = set bs" and dist: "distinct (concat (map class_before cs))"
        using cs0 unfolding maps by (simp_all add: shape_test.before_classes_def)
      have arena: "in_arena before i" if "c \<in> set cs" "i \<in> set (class_before c)" for c i
      proof -
        have "i \<in> set (concat (map class_before cs))" using that by auto
        then show ?thesis unfolding cover by (rule bs(1))
      qed
      have inside: "shape_same before i before (hd (class_before c))" if "c \<in> set cs" "i \<in> set (class_before c)" for c i
      proof -
        have "class_before c \<in> set (map class_before cs0)" using that(1) unfolding maps [symmetric] by simp
        then show ?thesis using cs0 that(2) by (auto simp: shape_test.before_classes_def)
      qed
      have apart: "sorted_wrt (\<lambda>c d. \<not> shape_same before (hd c) before (hd d)) (map class_before cs)"
        using cs0 unfolding maps by (simp add: shape_test.before_classes_def sorted_wrt_map)
      have after: "shape_same before (hd (class_before c)) after j" if "c \<in> set cs" "j \<in> set (class_after c)" for c j
        using cs that by (simp add: shape_test.after_classes_def)
      have members: "set (concat (map class_after cs)) = {j \<in> set as. \<exists>c\<in>set cs. shape_same before (hd (class_before c)) after j}"
        and dist': "distinct (concat (map class_after cs))"
        using cs by (simp_all add: shape_test.after_classes_def)
      have unique: "class_before c = class_before d"
        if "c \<in> set cs" "d \<in> set cs" "shape_same before (hd (class_before c)) before (hd (class_before d))" for c d
      proof -
        note cd = that
        obtain a b where ab: "a < length cs" "b < length cs" "c = cs ! a" "d = cs ! b"
          using cd(1,2) by (metis in_set_conv_nth)
        have "shape_same before (hd (class_before d)) before (hd (class_before c))"
          using shape_test.symmetric that rep [OF maps] by blast
        then have "\<not> a < b" "\<not> b < a"
          using apart that(3) ab by (auto simp: sorted_wrt_iff_nth_less)
        then show ?thesis using ab by (metis nat_neq_iff)
      qed
      let ?cs = "filter (\<lambda>c. class_after c \<noteq> []) cs"
      have "shape_same before i after j \<longleftrightarrow> (\<exists>c\<in>set ?cs. i \<in> set (class_before c) \<and> j \<in> set (class_after c))"
        if i: "i \<in> set bs" and j: "j \<in> set as" for i j
      proof
        assume ij: "shape_same before i after j"
        from i obtain c where c: "c \<in> set cs" "i \<in> set (class_before c)" unfolding cover [symmetric] by auto
        have "shape_same before (hd (class_before c)) before i"
          using shape_test.symmetric inside [OF c] arena [OF c] rep [OF maps c(1)] by blast
        then have cj: "shape_same before (hd (class_before c)) after j"
          using shape_test.transitive ij arena [OF c] rep [OF maps c(1)] as(1) [OF j] by blast
        then have "j \<in> set (concat (map class_after cs))" unfolding members using j c(1) by blast
        then obtain d where d: "d \<in> set cs" "j \<in> set (class_after d)" by auto
        have "shape_same after j before (hd (class_before d))"
          using shape_test.symmetric after [OF d] rep [OF maps d(1)] as(1) [OF j] by blast
        then have "shape_same before (hd (class_before c)) before (hd (class_before d))"
          using shape_test.transitive [OF _ _ _ cj] rep [OF maps c(1)] rep [OF maps d(1)] as(1) [OF j] by blast
        then have "class_before c = class_before d" by (rule unique [OF c(1) d(1)])
        then show "\<exists>c\<in>set ?cs. i \<in> set (class_before c) \<and> j \<in> set (class_after c)"
          using c d by (intro bexI [of _ d]) auto
      next
        assume "\<exists>c\<in>set ?cs. i \<in> set (class_before c) \<and> j \<in> set (class_after c)"
        then obtain c where c: "c \<in> set cs" "i \<in> set (class_before c)" "j \<in> set (class_after c)" by auto
        from inside [OF c(1,2)] after [OF c(1,3)] show "shape_same before i after j"
          using shape_test.transitive arena [OF c(1,2)] rep [OF maps c(1)] as(1) [OF j] by blast
      qed
      moreover have sub: "distinct (concat (map f ?cs)) \<and> set (concat (map f ?cs)) \<subseteq> set (concat (map f cs))"
        if "distinct (concat (map f cs))" for f :: "verified_shape_class \<Rightarrow> nat list"
        using that by (induction cs) auto
      ultimately show "classified (\<lambda>i j. shape_same before i after j) bs as ?cs"
        unfolding classified_def using sub [OF dist] sub [OF dist'] cover members rep [OF maps] by auto
    qed
  qed
qed

lemma yields_match_shape_classes:
  assumes bs: "\<And>i. i \<in> set bs \<Longrightarrow> in_arena before i" "distinct bs"
    and as: "\<And>j. j \<in> set as \<Longrightarrow> in_arena after j" "distinct as"
  shows "yields (match_shape_classes before after bs as)
    (\<lambda>s. classified (same_class before after) bs as (classes s))"
  unfolding match_shape_classes_def
proof (rule yields_bind [OF yields_shape_buckets [OF bs(1)]], assumption, rule yields_bind [OF yields_shape_buckets [OF as(1)]], assumption)
  fix bx ax assume bx: "bucketed before shape_key bs bx" and ax: "bucketed after shape_key as ax"
  let ?step = "\<lambda>cs (key, before_bucket).
         case map_of ax key of
           None \<Rightarrow> Inr cs
         | Some after_bucket \<Rightarrow>
             rbind (bucket_classes before after before_bucket after_bucket) (\<lambda>new.
               Inr (cs @ new))"
  have "yields (rfold ?step [] bx) (classified_keys before after bs as (set (map fst bx)))"
  proof (rule yields_fold_prefix [where I = "\<lambda>ys. classified_keys before after bs as (set (map fst ys))"])
    show "classified_keys before after bs as (set (map fst [])) []" by (simp add: classified_keys_def classified_def)
  next
    fix ys x zs cs
    assume split: "bx = ys @ x # zs" and cs: "classified_keys before after bs as (set (map fst ys)) cs"
    obtain k ids where x: "x = (k, ids)" by (rule prod.exhaust)
    have "(k, ids) \<in> set bx" unfolding split x by simp
    then have ids: "ids = bucket_of before shape_key bs k" using bx unfolding bucketed_def by blast
    have fresh: "k \<notin> set (map fst ys)" using bucketed_distinct [OF bx] unfolding split x by auto
    let ?js = "bucket_of after shape_key as k" and ?seen = "set (map fst ys)"
    have extend: "classified_keys before after bs as (set (map fst (ys @ [x]))) (cs @ new)"
      if "classified (same_class before after) ids ?js new" for new
    proof -
      define seen where "seen = set (map fst ys)"
      have keys: "set (map fst (ys @ [x])) = insert k seen" "k \<notin> seen" using fresh by (simp_all add: seen_def x)
      show ?thesis
        unfolding classified_keys_def keys(1)
        by (rule classified_append [OF cs [unfolded classified_keys_def, folded seen_def] that])
          (use keys(2) in \<open>auto simp: ids bucket_of_def same_class_def\<close>)
    qed
    have part: "yields (bucket_classes before after ids ?js)
        (classified (same_class before after) ids ?js)"
    proof (rule yields_conseq [OF yields_bucket_classes])
      show "in_arena before i" if "i \<in> set ids" for i using that bs(1) unfolding ids bucket_of_iff by blast
      show "in_arena after j" if "j \<in> set ?js" for j using that as(1) unfolding bucket_of_iff by blast
      show "distinct ids" "distinct ?js" unfolding ids using bs(2) as(2) by (simp_all add: bucket_of_subset)
      fix new assume "classified (\<lambda>i. shape_same before i after) ids ?js new"
      then show "classified (same_class before after) ids ?js new"
        by (rule classified_cong [rotated]) (simp add: ids bucket_of_iff same_class_def)
    qed
    show "yields (?step cs x) (classified_keys before after bs as (set (map fst (ys @ [x]))))"
    proof (cases "?js = []")
      case True
      have "classified (same_class before after) ids ?js []" unfolding True by (simp add: classified_def)
      from extend [OF this] show ?thesis
        unfolding x prod.case bucketed_map_of [OF ax] by (simp add: True yields_return)
    next
      case False
      have "yields (rbind (bucket_classes before after ids ?js) (\<lambda>new.
               Inr (cs @ new))) (classified_keys before after bs as (set (map fst (ys @ [x]))))"
        by (rule yields_bind [OF part]) (rule yields_return, rule extend)
      then show ?thesis unfolding x prod.case bucketed_map_of [OF ax] using False by simp
    qed
  qed
  then show "yields (rbind (rfold ?step [] bx) (\<lambda>cs. Inr \<lparr>classes = cs\<rparr>))
      (\<lambda>s. classified (same_class before after) bs as (classes s))"
  proof (rule yields_bind, intro yields_return)
    fix cs assume cs: "classified_keys before after bs as (set (map fst bx)) cs"
    have seen: "shape_key (ps_nodes before ! i) \<in> set (map fst bx)" if "i \<in> set bs" for i
    proof -
      have "i \<in> set (bucket_of before shape_key bs (shape_key (ps_nodes before ! i)))"
        using that by (simp add: bucket_of_def)
      then have "bucket_of before shape_key bs (shape_key (ps_nodes before ! i)) \<noteq> []" by force
      then have "(shape_key (ps_nodes before ! i), bucket_of before shape_key bs (shape_key (ps_nodes before ! i))) \<in> set bx"
        using bx unfolding bucketed_def by blast
      then show ?thesis by force
    qed
    define S where "S = set (map fst bx)"
    have all: "filter (\<lambda>i. shape_key (ps_nodes before ! i) \<in> S) bs = bs"
      unfolding filter_id_conv S_def using seen by blast
    have "classified (same_class before after) bs (filter (\<lambda>j. shape_key (ps_nodes after ! j) \<in> S) as) cs"
      using cs unfolding classified_keys_def S_def [symmetric] all .
    then have "classified (same_class before after) bs as cs"
    proof (rule classified_widen)
      fix i j assume "i \<in> set bs" "shape_key (ps_nodes after ! j) \<notin> S"
      moreover have "shape_key (ps_nodes before ! i) \<in> S" unfolding S_def by (rule seen) fact
      ultimately show "\<not> same_class before after i j" unfolding same_class_def by (metis (no_types))
    qed
    then show "classified (same_class before after) bs as (classes \<lparr>classes = cs\<rparr>)" by simp
  qed
qed

section \<open>The groups connect the candidates\<close>

lemma yields_match_connect:
  assumes wf: "wf_syntax before" "wf_syntax after" and st: "state_ok to_hex before after st"
    and ij: "i < length (ps_nodes before)" "j < length (ps_nodes after)"
    and xy: "x < nb" "nb + y < n" and s: "scan_ok_edges nb n es s"
    and es: "\<And>u v. (u, v) \<in> es \<Longrightarrow> u < nb \<and> nb + v < n"
  shows "yields (match_connect before after st nb (x, i) s (y, j))
    (scan_ok_edges nb n (if compatible before after (phase_of st) i j then insert (x, y) es else es))"
proof -
  have connect: "yields ((rbind (union x (nb + y) (scan_sets s)) (\<lambda>sets.
              rbind (set_at (incident s) x True) (\<lambda>inc.
              rbind (set_at inc (nb + y) True) (\<lambda>inc.
                Inr \<lparr>scan_sets = sets, incident = inc\<rparr>))))) (scan_ok_edges nb n (insert (x, y) es))"
  proof -
    have len: "length (ds_parent (scan_sets s)) = n" "length (incident s) = n" and wfs: "wf_sets (scan_sets s)"
      using s by (simp_all add: scan_ok_edges_def)
    have x: "x < length (ds_parent (scan_sets s))" and y: "nb + y < length (ds_parent (scan_sets s))" using xy len by simp_all
    obtain sets' where u: "union x (nb + y) (scan_sets s) = Inr sets'" "wf_sets sets'"
      "length (ds_parent sets') = length (ds_parent (scan_sets s))" "root_of sets' x = root_of sets' (nb + y)"
      and mono: "\<And>u v. u < length (ds_parent (scan_sets s)) \<Longrightarrow> v < length (ds_parent (scan_sets s)) \<Longrightarrow>
        root_of (scan_sets s) u = root_of (scan_sets s) v \<Longrightarrow> root_of sets' u = root_of sets' v"
      using union_roots [OF wfs x y] by blast
    have "root_of sets' a = root_of sets' (nb + b)" if "(a, b) \<in> es" for a b
      using mono [of a "nb + b"] es [OF that] s that len unfolding scan_ok_edges_def by fastforce
    moreover have "(incident s)[x := True, nb + y := True] ! v \<longleftrightarrow> (\<exists>(a, b)\<in>insert (x, y) es. v = a \<or> v = nb + b)"
      if "v < n" for v
      using s that len xy unfolding scan_ok_edges_def by (auto simp: nth_list_update)
    ultimately have "scan_ok_edges nb n (insert (x, y) es) \<lparr>scan_sets = sets', incident = (incident s)[x := True, nb + y := True]\<rparr>"
      using u len unfolding scan_ok_edges_def by auto
    then show ?thesis using u(1) xy len by (simp add: yields_return)
  qed
  show ?thesis
    unfolding match_connect_def fst_conv snd_conv can_map_shape_pair_eq [OF wf st ij] rbind_simps
    using connect s by simp
qed

lemma yields_match_connect_all:
  assumes wf: "wf_syntax before" "wf_syntax after" and st: "state_ok to_hex before after st"
    and bs: "\<And>i. i \<in> set bs \<Longrightarrow> i < length (ps_nodes before)" and as: "\<And>j. j \<in> set as \<Longrightarrow> j < length (ps_nodes after)"
  shows "yields (rfold (\<lambda>s b. rfold (match_connect before after st (length bs) b) s (enumerate 0 as))
       \<lparr>scan_sets = disjoint_sets_new (length bs + length as), incident = replicate (length bs + length as) False\<rparr>
       (enumerate 0 bs))
    (scan_ok_edges (length bs) (length bs + length as) (edges_of before after (phase_of st) (enumerate 0 bs) (enumerate 0 as)))"
proof (rule yields_fold_prefix [where I = "\<lambda>xs. scan_ok_edges (length bs) (length bs + length as)
    (edges_of before after (phase_of st) xs (enumerate 0 as))"])
  show "scan_ok_edges (length bs) (length bs + length as) (edges_of before after (phase_of st) [] (enumerate 0 as))
     \<lparr>scan_sets = disjoint_sets_new (length bs + length as), incident = replicate (length bs + length as) False\<rparr>"
    by (simp add: scan_ok_edges_def edges_of_def wf_sets_new) (simp add: disjoint_sets_new_def)
next
  fix xs p zs s
  let ?edges = "edges_of before after (phase_of st)"
  assume split: "enumerate 0 bs = xs @ p # zs"
    and s: "scan_ok_edges (length bs) (length bs + length as) (?edges xs (enumerate 0 as)) s"
  obtain x i where p: "p = (x, i)" by (rule prod.exhaust)
  have "(x, i) \<in> set (enumerate 0 bs)" unfolding split p by simp
  then have x: "x < length bs" and i: "i < length (ps_nodes before)" using bs by (auto simp: in_set_enumerate_eq)
  have outer: "u < length bs" if "(u, k) \<in> set xs" for u k
  proof -
    have "(u, k) \<in> set (enumerate 0 bs)" unfolding split using that by simp
    then show ?thesis by (simp add: in_set_enumerate_eq)
  qed
  have "yields (rfold (match_connect before after st (length bs) (x, i)) s (enumerate 0 as))
      (scan_ok_edges (length bs) (length bs + length as) (?edges xs (enumerate 0 as) \<union> ?edges [(x, i)] (enumerate 0 as)))"
  proof (rule yields_fold_prefix [where I = "\<lambda>ys. scan_ok_edges (length bs) (length bs + length as)
      (?edges xs (enumerate 0 as) \<union> ?edges [(x, i)] ys)"])
    show "scan_ok_edges (length bs) (length bs + length as) (?edges xs (enumerate 0 as) \<union> ?edges [(x, i)] []) s"
      using s by (simp add: edges_of_def)
  next
    fix ys q zs' t
    assume split': "enumerate 0 as = ys @ q # zs'"
      and t: "scan_ok_edges (length bs) (length bs + length as) (?edges xs (enumerate 0 as) \<union> ?edges [(x, i)] ys) t"
    obtain y j where q: "q = (y, j)" by (rule prod.exhaust)
    have "(y, j) \<in> set (enumerate 0 as)" unfolding split' q by simp
    then have y: "length bs + y < length bs + length as" and j: "j < length (ps_nodes after)"
      using as by (auto simp: in_set_enumerate_eq)
    have "v < length as" if "(v, k) \<in> set ys" for v k
    proof -
      have "(v, k) \<in> set (enumerate 0 as)" unfolding split' using that by simp
      then show ?thesis by (simp add: in_set_enumerate_eq)
    qed
    then have bounds: "u < length bs \<and> length bs + v < length bs + length as"
      if "(u, v) \<in> ?edges xs (enumerate 0 as) \<union> ?edges [(x, i)] ys" for u v
      using that outer x by (auto simp: edges_of_def in_set_enumerate_eq)
    have "?edges xs (enumerate 0 as) \<union> ?edges [(x, i)] (ys @ [q]) =
        (if compatible before after (phase_of st) i j then insert (x, y) (?edges xs (enumerate 0 as) \<union> ?edges [(x, i)] ys)
         else ?edges xs (enumerate 0 as) \<union> ?edges [(x, i)] ys)"
      by (auto simp: edges_of_def q)
    then show "yields (match_connect before after st (length bs) (x, i) t q)
        (scan_ok_edges (length bs) (length bs + length as) (?edges xs (enumerate 0 as) \<union> ?edges [(x, i)] (ys @ [q])))"
      using yields_match_connect [OF wf st i j x y t bounds] by (simp only: q)
  qed
  moreover have "?edges (xs @ [p]) (enumerate 0 as) = ?edges xs (enumerate 0 as) \<union> ?edges [(x, i)] (enumerate 0 as)"
    by (auto simp: edges_of_def p)
  ultimately show "yields (rfold (match_connect before after st (length bs) p) s (enumerate 0 as))
      (scan_ok_edges (length bs) (length bs + length as) (?edges (xs @ [p]) (enumerate 0 as)))"
    by (simp only: p)
qed

lemma yields_collect_vertex:
  assumes t: "collected sets0 flags nb xs ys t" and v: "v < length (ds_parent sets0)" "length flags = length (ds_parent sets0)"
    and sides: "\<And>k. (side flags (root_of sets0) 0 xs' k \<noteq> [] \<or> side flags (root_of sets0) nb ys' k \<noteq> []) \<longleftrightarrow>
      (side flags (root_of sets0) 0 xs k \<noteq> [] \<or> side flags (root_of sets0) nb ys k \<noteq> []) \<or> flags ! v \<and> k = root_of sets0 v"
    and group: "\<And>k. group_at flags (root_of sets0) nb xs' ys' k =
      (if flags ! v \<and> k = root_of sets0 v then add (group_at flags (root_of sets0) nb xs ys k)
       else group_at flags (root_of sets0) nb xs ys k)"
  shows "yields ((collect_vertex flags add v t)) (collected sets0 flags nb xs' ys')"
proof (cases "flags ! v")
  case False
  then have "group_at flags (root_of sets0) nb xs' ys' = group_at flags (root_of sets0) nb xs ys"
    "{k. side flags (root_of sets0) 0 xs' k \<noteq> [] \<or> side flags (root_of sets0) nb ys' k \<noteq> []} =
     {k. side flags (root_of sets0) 0 xs k \<noteq> [] \<or> side flags (root_of sets0) nb ys k \<noteq> []}"
    unfolding sides by (simp_all add: group fun_eq_iff)
  then have "collected sets0 flags nb xs' ys' t"
    using t unfolding collected_def by auto
  then show ?thesis using False v by (simp add: collect_vertex_def yields_return)
next
  case True
  have wf: "wf_sets (snd t)" "length (ds_parent (snd t)) = length (ds_parent sets0)"
    and roots: "\<And>u. u < length (ds_parent sets0) \<Longrightarrow> root_of (snd t) u = root_of sets0 u"
    and held: "holds_values empty_group (group_at flags (root_of sets0) nb xs ys)
       {k. side flags (root_of sets0) 0 xs k \<noteq> [] \<or> side flags (root_of sets0) nb ys k \<noteq> []} (fst t)"
    using t unfolding collected_def by blast+
  obtain sets' where f: "find_root v (snd t) = Inr (root_of sets0 v, sets')" "wf_sets sets'"
    "length (ds_parent sets') = length (ds_parent sets0)"
    and roots': "\<And>u. u < length (ds_parent sets0) \<Longrightarrow> root_of sets' u = root_of sets0 u"
    using find_root_roots [OF wf(1), of v] v(1) wf(2) roots by metis
  have "(group_at flags (root_of sets0) nb xs ys)(root_of sets0 v := add (group_at flags (root_of sets0) nb xs ys (root_of sets0 v)))
      = group_at flags (root_of sets0) nb xs' ys'"
    using True by (simp add: fun_eq_iff group)
  moreover have "insert (root_of sets0 v) {k. side flags (root_of sets0) 0 xs k \<noteq> [] \<or> side flags (root_of sets0) nb ys k \<noteq> []}
      = {k. side flags (root_of sets0) 0 xs' k \<noteq> [] \<or> side flags (root_of sets0) nb ys' k \<noteq> []}"
    unfolding sides using True by auto
  ultimately have "holds_values empty_group (group_at flags (root_of sets0) nb xs' ys')
       {k. side flags (root_of sets0) 0 xs' k \<noteq> [] \<or> side flags (root_of sets0) nb ys' k \<noteq> []}
       (entry_update (root_of sets0 v) empty_group add (fst t))"
    using holds_values_update [OF held, of "root_of sets0 v" add] by simp
  then have "collected sets0 flags nb xs' ys' (entry_update (root_of sets0 v) empty_group add (fst t), sets')"
    using f(2,3) roots' unfolding collected_def by simp
  then show ?thesis using True v f(1) by (simp add: collect_vertex_def yields_return)
qed

lemma yields_collect_before:
  assumes t: "collected sets0 flags (length bs) [] [] t" and n: "length flags = length (ds_parent sets0)"
    "length bs \<le> length (ds_parent sets0)"
  shows "yields (rfold (\<lambda>t (k, i). (collect_vertex flags (\<lambda>g. g\<lparr>cand_before := cand_before g @ [i]\<rparr>) k t)) t
      (enumerate 0 bs)) (collected sets0 flags (length bs) (enumerate 0 bs) [])"
proof (rule yields_fold_prefix [where I = "\<lambda>xs. collected sets0 flags (length bs) xs []"])
  fix xs p zs t
  assume split: "enumerate 0 bs = xs @ p # zs" and t: "collected sets0 flags (length bs) xs [] t"
  obtain x i where p: "p = (x, i)" by (rule prod.exhaust)
  have "(x, i) \<in> set (enumerate 0 bs)" unfolding split p by simp
  then have x: "x < length (ds_parent sets0)" using n by (auto simp: in_set_enumerate_eq)
  show "yields (case p of (k, i) \<Rightarrow> (collect_vertex flags (\<lambda>g. g\<lparr>cand_before := cand_before g @ [i]\<rparr>) k t))
      (collected sets0 flags (length bs) (xs @ [p]) [])"
    unfolding p prod.case
    by (rule yields_collect_vertex [OF t x n(1)]) (auto simp: side_snoc group_at_def)
qed (rule t)

lemma yields_collect_after:
  assumes t: "collected sets0 flags nb xs [] t" and n: "length flags = length (ds_parent sets0)"
    "nb + length as \<le> length (ds_parent sets0)"
  shows "yields (rfold (\<lambda>t (k, j). (collect_vertex flags (\<lambda>g. g\<lparr>cand_after := cand_after g @ [j]\<rparr>) (nb + k) t)) t
      (enumerate 0 as)) (collected sets0 flags nb xs (enumerate 0 as))"
proof (rule yields_fold_prefix [where I = "collected sets0 flags nb xs"])
  fix ys p zs t
  assume split: "enumerate 0 as = ys @ p # zs" and t: "collected sets0 flags nb xs ys t"
  obtain y j where p: "p = (y, j)" by (rule prod.exhaust)
  have "(y, j) \<in> set (enumerate 0 as)" unfolding split p by simp
  then have y: "nb + y < length (ds_parent sets0)" using n by (auto simp: in_set_enumerate_eq)
  show "yields (case p of (k, j) \<Rightarrow> (collect_vertex flags (\<lambda>g. g\<lparr>cand_after := cand_after g @ [j]\<rparr>) (nb + k) t))
      (collected sets0 flags nb xs (ys @ [p]))"
    unfolding p prod.case
    by (rule yields_collect_vertex [OF t y n(1)]) (auto simp: side_snoc group_at_def)
qed (rule t)

lemma yields_match_class_groups:
  assumes wf: "wf_syntax before" "wf_syntax after" and st: "state_ok to_hex before after st"
    and bs: "\<And>i. i \<in> set (class_before c) \<Longrightarrow> i < length (ps_nodes before)" "class_before c \<noteq> []" "distinct (class_before c)"
    and as: "\<And>j. j \<in> set (class_after c) \<Longrightarrow> j < length (ps_nodes after)" "class_after c \<noteq> []" "distinct (class_after c)"
  shows "yields (match_class_groups before after st c)
    (grouped (compatible before after (phase_of st)) (class_before c) (class_after c))"
proof -
  let ?bs = "class_before c" and ?as = "class_after c"
  let ?n = "length ?bs + length ?as"
  let ?within = "case usize_checked_mul (length ?bs) (length ?as) of
           None \<Rightarrow> False | Some pairs \<Rightarrow> pairs \<le> ORDERED_ALIGNMENT_CANDIDATE_SCAN_LIMIT"
  let ?es = "edges_of before after (phase_of st) (enumerate 0 ?bs) (enumerate 0 ?as)"
  show ?thesis
  proof (cases ?within)
    case False
    then show ?thesis
      unfolding match_class_groups_def Let_def
      by (simp add: grouped_whole bs as)
  next
    case True
    have collect: "yields (rbind (rfold (\<lambda>t (k, i). (collect_vertex (incident s)
                       (\<lambda>g. g\<lparr>cand_before := cand_before g @ [i]\<rparr>) k t))
                ([], scan_sets s) (enumerate 0 ?bs)) (\<lambda>t.
       rbind (rfold (\<lambda>t (k, j). (collect_vertex (incident s)
                       (\<lambda>g. g\<lparr>cand_after := cand_after g @ [j]\<rparr>) (length ?bs + k) t))
                t (enumerate 0 ?as)) (\<lambda>t. Inr (map snd (fst t)))))
        (grouped (compatible before after (phase_of st)) ?bs ?as)"
      if s: "scan_ok_edges (length ?bs) ?n ?es s" for s
    proof -
      have len: "length (incident s) = length (ds_parent (scan_sets s))" "length (ds_parent (scan_sets s)) = ?n"
        and wfs: "wf_sets (scan_sets s)"
        using s by (simp_all add: scan_ok_edges_def)
      show ?thesis
      proof (rule yields_bind [OF yields_collect_before [OF collected_start [OF wfs] len(1)]], simp add: len(2),
          rule yields_bind [OF yields_collect_after [OF _ len(1)]], assumption, simp add: len(2), rule yields_return)
        fix t assume t: "collected (scan_sets s) (incident s) (length ?bs) (enumerate 0 ?bs) (enumerate 0 ?as) t"
        show "grouped (compatible before after (phase_of st)) ?bs ?as (map snd (fst t))"
        proof (rule collected_grouped [OF t bs(3) as(3)])
          show "scan_ok_edges (length ?bs) ?n ?es \<lparr>scan_sets = scan_sets s, incident = incident s\<rparr>"
            using s by (cases s) simp
          show "x < length ?bs \<and> y < length ?as" if "(x, y) \<in> ?es" for x y
            using that by (auto simp: edges_of_def in_set_enumerate_eq)
          show "(x, y) \<in> ?es" if "x < length ?bs" "y < length ?as" "compatible before after (phase_of st) (?bs ! x) (?as ! y)" for x y
            using that by (auto simp: edges_of_def in_set_enumerate_eq)
        qed
      qed
    qed
    have inside: "\<not> \<not> ?within" using True by blast
    show ?thesis
      unfolding match_class_groups_def Let_def if_not_P [OF inside]
      by (rule yields_bind [OF yields_match_connect_all [OF wf st bs(1) as(1)]], assumption, assumption, rule collect)
  qed
qed

lemma yields_match_insert:
  assumes "distinct xs" "\<And>x. x \<in> set xs \<Longrightarrow> m x = None"
  shows "yields (rfold (match_insert k) m xs) (\<lambda>m'. m' = (\<lambda>i. if i \<in> set xs then Some k else m i))"
proof (rule yields_fold_prefix [where I = "\<lambda>ys m'. m' = (\<lambda>i. if i \<in> set ys then Some k else m i)"])
  fix ys x zs m'
  assume "xs = ys @ x # zs" "m' = (\<lambda>i. if i \<in> set ys then Some k else m i)"
  then show "yields (match_insert k m' x) (\<lambda>m'. m' = (\<lambda>i. if i \<in> set (ys @ [x]) then Some k else m i))"
    using assms by (auto simp: match_insert_def fun_eq_iff intro!: yields_return)
qed simp

lemma yields_match_index_groups:
  assumes dist: "distinct (concat (map cand_before gs))" "distinct (concat (map cand_after gs))"
  shows "yields (rfold match_index_group (Map.empty, Map.empty) (enumerate 0 gs))
    (\<lambda>s. indexed_by cand_before gs (fst s) \<and> indexed_by cand_after gs (snd s))"
proof -
  have "yields (rfold match_index_group (Map.empty, Map.empty) (enumerate 0 gs))
    (\<lambda>s. indexed_by cand_before (map snd (enumerate 0 gs)) (fst s) \<and> indexed_by cand_after (map snd (enumerate 0 gs)) (snd s))"
  proof (rule yields_fold_prefix [where I = "\<lambda>ys s. indexed_by cand_before (map snd ys) (fst s) \<and> indexed_by cand_after (map snd ys) (snd s)"])
    fix ys x zs s
    assume split: "enumerate 0 gs = ys @ x # zs"
      and s: "indexed_by cand_before (map snd ys) (fst s) \<and> indexed_by cand_after (map snd ys) (snd s)"
    have "gs = map snd ys @ snd x # map snd zs"
      using arg_cong [OF split, of "map snd"] by (simp add: enumerate_snd)
    then have d: "distinct (concat (map cand_before (map snd ys @ [snd x])))" "distinct (concat (map cand_after (map snd ys @ [snd x])))"
      using dist by auto
    have "length ys < length gs" using arg_cong [OF split, of length] by simp
    from nth_enumerate_eq [OF this, of 0] have "fst x = length ys" unfolding split by simp
    then have k: "fst x = length (map snd ys)" by simp
    note b = indexed_by_snoc [OF conjunct1 [OF s] d(1)] and a = indexed_by_snoc [OF conjunct2 [OF s] d(2)]
    have dd: "distinct (cand_before (snd x))" "distinct (cand_after (snd x))" using d by auto
    show "yields (match_index_group s x)
      (\<lambda>s. indexed_by cand_before (map snd (ys @ [x])) (fst s) \<and> indexed_by cand_after (map snd (ys @ [x])) (snd s))"
      unfolding match_index_group_def
    proof (rule yields_bind [OF yields_match_insert [OF dd(1) b(1)]], assumption,
        rule yields_bind [OF yields_match_insert [OF dd(2) a(1)]], assumption, rule yields_return)
    qed (simp only: fst_conv snd_conv map_append list.map k b(2) a(2) simp_thms)
  qed (simp add: indexed_by_def)
  then show ?thesis by (simp add: enumerate_snd)
qed

lemma yields_match_candidate_groups:
  assumes wf: "wf_syntax before" "wf_syntax after" and st: "state_ok to_hex before after st"
    and bs: "\<And>i. i \<in> set bs \<Longrightarrow> i < length (ps_nodes before)" and as: "\<And>j. j \<in> set as \<Longrightarrow> j < length (ps_nodes after)"
    and cs: "classified (same_class before after) bs as (classes partition_classes)"
  shows "yields (match_candidate_groups before after st partition_classes) (groups_ok before after (phase_of st) bs as)"
proof -
  let ?cs = "classes partition_classes"
  have c: "\<forall>c\<in>set ?cs. class_before c \<noteq> [] \<and> class_after c \<noteq> []" "distinct (concat (map class_before ?cs))"
    "set (concat (map class_before ?cs)) \<subseteq> set bs" "distinct (concat (map class_after ?cs))" "set (concat (map class_after ?cs)) \<subseteq> set as"
    and rel: "\<And>i j. i \<in> set bs \<Longrightarrow> j \<in> set as \<Longrightarrow> same_class before after i j \<longleftrightarrow> (\<exists>c\<in>set ?cs. i \<in> set (class_before c) \<and> j \<in> set (class_after c))"
    using cs unfolding classified_def by blast+
  have "yields (rfold (\<lambda>groups c. rbind (match_class_groups before after st c) (\<lambda>new. Inr (groups @ new))) [] ?cs)
      (classes_grouped before after (phase_of st) ?cs)"
  proof (rule yields_fold_prefix [where I = "classes_grouped before after (phase_of st)"])
    show "classes_grouped before after (phase_of st) [] []" by (simp add: classes_grouped_def grouped_def)
  next
    fix ys x zs gs assume split: "?cs = ys @ x # zs" and gs: "classes_grouped before after (phase_of st) ys gs"
    have x: "x \<in> set ?cs" unfolding split by simp
    have d: "distinct (concat (map class_before (ys @ [x])))" "distinct (concat (map class_after (ys @ [x])))"
      using c(2,4) unfolding split by auto
    have "yields (match_class_groups before after st x)
        (grouped (compatible before after (phase_of st)) (class_before x) (class_after x))"
      by (rule yields_match_class_groups [OF wf st]) (use c x bs as d in auto)
    then show "yields (rbind (match_class_groups before after st x) (\<lambda>new. Inr (gs @ new)))
        (classes_grouped before after (phase_of st) (ys @ [x]))"
      by (rule yields_bind) (intro yields_return classes_grouped_snoc [OF gs _ d])
  qed
  then show ?thesis
    unfolding match_candidate_groups_def
  proof (rule yields_bind)
    fix gs assume gs: "classes_grouped before after (phase_of st) ?cs gs"
    let ?gs = "sort_key (\<lambda>g. (hd (cand_before g), hd (cand_after g))) gs"
    have g: "\<forall>g\<in>set gs. cand_before g \<noteq> [] \<and> cand_after g \<noteq> []" "distinct (concat (map cand_before gs))"
      "set (concat (map cand_before gs)) \<subseteq> set (concat (map class_before ?cs))" "distinct (concat (map cand_after gs))"
      "set (concat (map cand_after gs)) \<subseteq> set (concat (map class_after ?cs))"
      and grel: "\<And>i j. (\<exists>c\<in>set ?cs. i \<in> set (class_before c) \<and> j \<in> set (class_after c)) \<Longrightarrow> compatible before after (phase_of st) i j \<Longrightarrow>
        \<exists>g\<in>set gs. i \<in> set (cand_before g) \<and> j \<in> set (cand_after g)"
      and gin: "\<forall>g\<in>set gs. \<exists>c\<in>set ?cs. set (cand_before g) \<subseteq> set (class_before c) \<and> set (cand_after g) \<subseteq> set (class_after c)"
      using classes_groupedD [OF gs] by blast+
    have sort: "sort_groups gs = Inr ?gs" using g(1) by (auto simp: sort_groups_def)
    have permute: "distinct (concat (map h ?gs)) \<longleftrightarrow> distinct (concat (map h gs))" "set (concat (map h ?gs)) = set (concat (map h gs))"
      for h :: "candidate_group \<Rightarrow> nat list"
    proof -
      have "mset (concat (map h xs)) = sum_mset (image_mset (\<lambda>g. mset (h g)) (mset xs))" for xs :: "candidate_group list"
        by (induction xs) simp_all
      then have eq: "mset (concat (map h ?gs)) = mset (concat (map h gs))" by (simp only: mset_sort)
      show "distinct (concat (map h ?gs)) \<longleftrightarrow> distinct (concat (map h gs))" by (rule mset_eq_imp_distinct_iff [OF eq])
      show "set (concat (map h ?gs)) = set (concat (map h gs))" by (rule mset_eq_setD [OF eq])
    qed
    have d: "distinct (concat (map cand_before ?gs))" "distinct (concat (map cand_after ?gs))"
      using g permute(1) by blast+
    have "grouped (\<lambda>i j. same_class before after i j \<and> compatible before after (phase_of st) i j) bs as ?gs"
      unfolding grouped_def
    proof (intro conjI)
      show "set (concat (map cand_before ?gs)) \<subseteq> set bs" "set (concat (map cand_after ?gs)) \<subseteq> set as"
        unfolding permute using g(3,5) c(3,5) by blast+
      show "\<forall>i\<in>set bs. \<forall>j\<in>set as. same_class before after i j \<and> compatible before after (phase_of st) i j \<longrightarrow>
          (\<exists>g\<in>set ?gs. i \<in> set (cand_before g) \<and> j \<in> set (cand_after g))"
        using rel grel unfolding set_sort by blast
    qed (use g(1) d in simp_all)
    moreover have "same_class before after i j"
      if mem: "h \<in> set gs" "i \<in> set (cand_before h)" "j \<in> set (cand_after h)" for h i j
    proof -
      obtain d where d: "d \<in> set ?cs" "i \<in> set (class_before d)" "j \<in> set (class_after d)" using gin mem by blast
      moreover have "i \<in> set bs" "j \<in> set as" using c(3,5) d by auto
      ultimately show ?thesis using rel by blast
    qed
    ultimately show "yields (rbind ((sort_groups gs)) (\<lambda>groups.
     rbind (rfold match_index_group (Map.empty, Map.empty) (enumerate 0 groups)) (\<lambda>s.
       Inr \<lparr>cg_groups = groups, before_group = fst s, after_group = snd s\<rparr>))) (groups_ok before after (phase_of st) bs as)"
      unfolding sort rbind_simps
      by (intro yields_bind [OF yields_match_index_groups [OF d]] yields_return) (simp add: groups_ok_def indexed_by_def)
  qed
qed

end
