(* ===== verification/Match_Components.thy ===== *)
theory Match_Components
  imports Match_Groups Components
begin

text \<open>
  \<open>ordered_interaction_components\<close> of the producer (\<open>src/matcher.rs\<close>). The group maps are indexed, so an absent key is
  a panic, and the final completeness check is three debug assertions: none of them can fail. The scan state, the
  visit of a group and the specification \<open>components_ok\<close> are those of the verifier (\<open>Components\<close>).
\<close>

section \<open>The scan\<close>

definition match_note_last :: "(nat \<rightharpoonup> nat) \<Rightarrow> nat list \<Rightarrow> nat \<times> nat \<Rightarrow> nat list result" where
  "match_note_last group_of lasts p = rbind (of_option Panic (group_of (snd p))) (\<lambda>g. set_at lasts g (fst p))"

definition match_note_last_count :: "(nat \<rightharpoonup> nat) \<Rightarrow> nat list \<times> nat list \<Rightarrow> nat \<times> nat \<Rightarrow> (nat list \<times> nat list) result" where
  "match_note_last_count group_of s p =
     rbind (of_option Panic (group_of (snd p))) (\<lambda>g.
     rbind (set_at (fst s) g (fst p)) (\<lambda>lasts.
     rbind (update_at Suc (snd s) g) (\<lambda>counts. Inr (lasts, counts))))"

definition match_scan_position ::
  "(nat \<rightharpoonup> nat) \<Rightarrow> nat list \<Rightarrow> nat list \<Rightarrow> nat list \<Rightarrow> nat list \<Rightarrow> nat list \<Rightarrow> component_scan \<Rightarrow> nat \<times> nat \<Rightarrow>
   component_scan result" where
  "match_scan_position group_of before_last after_last after_counts active_before active_after s p =
     rbind (rbind (of_option Panic (group_of (snd p))) (\<lambda>g. visit_group before_last after_last after_counts g s)) (\<lambda>s.
     if fst p = before_prefix_last s \<and> after_prefix_count s = after_prefix_last s + 1 then
       rbind (slice active_before (before_start s) (fst p + 1)) (\<lambda>bs.
       rbind (slice active_after (after_start s) (after_prefix_count s)) (\<lambda>as.
         Inr (s\<lparr>components := components s @ [\<lparr>comp_before = bs, comp_after = as, comp_groups = component_groups s\<rparr>],
                component_groups := [], before_start := fst p + 1, after_start := after_prefix_count s\<rparr>)))
     else Inr s)"

definition match_interaction_components ::
  "candidate_groups \<Rightarrow> nat list \<Rightarrow> nat list \<Rightarrow> alignment_component list result" where
  "match_interaction_components cg before_ids after_ids =
     (let active_before = filter (\<lambda>i. before_group cg i \<noteq> None) before_ids;
          active_after = filter (\<lambda>j. after_group cg j \<noteq> None) after_ids in
      if active_before = [] then Inr []
      else
        let n = length (cg_groups cg) in
        rbind (rfold (match_note_last (before_group cg)) (replicate n 0) (enumerate 0 active_before)) (\<lambda>before_last.
        rbind (rfold (match_note_last_count (after_group cg)) (replicate n 0, replicate n 0) (enumerate 0 active_after)) (\<lambda>after.
        rbind (rfold (match_scan_position (before_group cg) before_last (fst after) (snd after) active_before active_after)
                 \<lparr>components = [], group_seen = replicate n False, component_groups = [], before_start = 0, after_start = 0,
                  before_prefix_last = 0, after_prefix_last = 0, after_prefix_count = 0\<rparr>
                 (enumerate 0 active_before)) (\<lambda>s.
        rbind (debug_assert (before_start s = length active_before)) (\<lambda>_.
        rbind (debug_assert (after_start s = length active_after)) (\<lambda>_.
        rbind (debug_assert (component_groups s = [])) (\<lambda>_. Inr (components s))))))))"

section \<open>The components\<close>

lemma yields_match_note_lasts:
  assumes "\<And>i. i \<in> set ids \<Longrightarrow> \<exists>g<n. group_of i = Some g"
  shows "yields (rfold (match_note_last group_of) (replicate n 0) (enumerate 0 ids))
    (\<lambda>lasts. length lasts = n \<and> last_positions (groups_by group_of ids) lasts)"
proof -
  have "yields (rfold (match_note_last group_of) (replicate n 0) (enumerate 0 ids))
    (\<lambda>lasts. length lasts = n \<and> last_positions (groups_by group_of (map snd (enumerate 0 ids))) lasts)"
  proof (rule yields_fold_prefix [where I = "\<lambda>ys lasts. length lasts = n \<and> last_positions (groups_by group_of (map snd ys)) lasts"])
    fix ys p zs lasts
    assume split: "enumerate 0 ids = ys @ p # zs" and I: "length lasts = n \<and> last_positions (groups_by group_of (map snd ys)) lasts"
    have ids: "ids = map snd ys @ snd p # map snd zs"
      using arg_cong [OF split, of "map snd"] by (simp add: enumerate_snd)
    have "length ys < length ids" using arg_cong [OF split, of length] by simp
    from nth_enumerate_eq [OF this, of 0] have fst: "fst p = length ys" unfolding split by simp
    obtain g where g: "g < n" "group_of (snd p) = Some g" using assms ids by auto
    have "\<forall>h\<in>set (groups_by group_of (map snd ys)). h < length lasts"
    proof
      fix h assume "h \<in> set (groups_by group_of (map snd ys))"
      then obtain i where i: "i \<in> set (map snd ys)" "h = the (group_of i)" by (auto simp: groups_by_def)
      then have "i \<in> set ids" using ids by simp
      from assms [OF this] i(2) show "h < length lasts" using I by auto
    qed
    then have "last_positions (groups_by group_of (map snd ys) @ [g]) (lasts[g := length (groups_by group_of (map snd ys))])"
      using I g(1) by (intro last_positions_snoc) simp_all
    then show "yields ((match_note_last group_of lasts p))
        (\<lambda>lasts. length lasts = n \<and> last_positions (groups_by group_of (map snd (ys @ [p]))) lasts)"
      using I g fst by (simp add: match_note_last_def groups_by_def )
  qed (simp add: groups_by_def last_positions_def)
  then show ?thesis by (simp add: enumerate_snd)
qed

lemma yields_match_note_last_counts:
  assumes "\<And>i. i \<in> set ids \<Longrightarrow> \<exists>g<n. group_of i = Some g"
  shows "yields (rfold (match_note_last_count group_of) (replicate n 0, replicate n 0) (enumerate 0 ids))
    (\<lambda>s. length (fst s) = n \<and> last_positions (groups_by group_of ids) (fst s) \<and>
       length (snd s) = n \<and> (\<forall>g<n. snd s ! g = count_list (groups_by group_of ids) g))"
proof -
  define I where "I ys s \<longleftrightarrow> length (fst s) = n \<and> last_positions (groups_by group_of (map snd ys)) (fst s) \<and>
       length (snd s) = n \<and> (\<forall>g<n. snd s ! g = count_list (groups_by group_of (map snd ys)) g)"
    for ys :: "(nat \<times> nat) list" and s
  have "yields (rfold (match_note_last_count group_of) (replicate n 0, replicate n 0) (enumerate 0 ids))
    (I (enumerate 0 ids))"
  proof (rule yields_fold_prefix)
    show "I [] (replicate n 0, replicate n 0)" by (simp add: I_def groups_by_def last_positions_def)
  next
    fix ys p zs s
    assume split: "enumerate 0 ids = ys @ p # zs" and I: "I ys s"
    have ids: "ids = map snd ys @ snd p # map snd zs"
      using arg_cong [OF split, of "map snd"] by (simp add: enumerate_snd)
    have "length ys < length ids" using arg_cong [OF split, of length] by simp
    from nth_enumerate_eq [OF this, of 0] have fst: "fst p = length ys" unfolding split by simp
    obtain g where g: "g < n" "group_of (snd p) = Some g" using assms ids by auto
    have "\<forall>h\<in>set (groups_by group_of (map snd ys)). h < length (fst s)"
    proof
      fix h assume "h \<in> set (groups_by group_of (map snd ys))"
      then obtain i where i: "i \<in> set (map snd ys)" "h = the (group_of i)" by (auto simp: groups_by_def)
      then have "i \<in> set ids" using ids by simp
      from assms [OF this] i(2) show "h < length (fst s)" using I by (auto simp: I_def)
    qed
    then have "last_positions (groups_by group_of (map snd ys) @ [g]) ((fst s)[g := length (groups_by group_of (map snd ys))])"
      using I g(1) by (intro last_positions_snoc) (simp_all add: I_def)
    moreover have "(snd s)[g := Suc (snd s ! g)] ! h = count_list (groups_by group_of (map snd ys) @ [g]) h" if "h < n" for h
      using I that g(1) by (simp add: I_def nth_list_update)
    ultimately show "yields ((match_note_last_count group_of s p)) (I (ys @ [p]))"
      using I g fst by (simp add: match_note_last_count_def groups_by_def I_def yields_return)
  qed
  then show ?thesis unfolding I_def enumerate_snd .
qed

lemma yields_match_scan_position:
  assumes bs: "\<And>i. i \<in> set bs \<Longrightarrow> \<exists>g<n. gb i = Some g" and sub: "set (groups_by gb bs) \<subseteq> set (groups_by ga as)"
    and bls: "length bls = n" "last_positions (groups_by gb bs) bls"
    and als: "length als = n" "last_positions (groups_by ga as) als"
    and counts: "length counts = n" "\<forall>g<n. counts ! g = count_list (groups_by ga as) g"
    and p: "p < length bs" and s: "component_loop gb ga bs as n bls als p s"
  shows "yields (match_scan_position gb bls als counts bs as s (p, bs ! p))
    (component_loop gb ga bs as n bls als (Suc p))"
proof -
  let ?fb = "groups_by gb bs" and ?fa = "groups_by ga as"
  define S where "S = set (take p ?fb)"
  define T where "T = set (take (before_start s) ?fb)"
  obtain g where g: "g < n" "gb (bs ! p) = Some g" using bs [of "bs ! p"] p by auto
  have fb: "length ?fb = length bs" "?fb ! p = g" "length ?fa = length as" using p g by (simp_all add: groups_by_def)
  have S': "set (take (Suc p) ?fb) = insert g S" using p fb by (simp add: S_def take_Suc_conv_app_nth)
  have inv: "length (group_seen s) = n" "\<forall>g<n. group_seen s ! g \<longleftrightarrow> g \<in> S"
    "greatest bls S (before_prefix_last s)" "greatest als S (after_prefix_last s)"
    "after_prefix_count s = length (filter (\<lambda>g. g \<in> S) ?fa)" "before_start s \<le> p"
    "prefix_cut ?fb ?fa (before_start s) (after_start s)" "set (component_groups s) = S - T"
    "concat (map comp_before (components s)) = take (before_start s) bs"
    "concat (map comp_after (components s)) = take (after_start s) as"
    "\<forall>c\<in>set (components s). component_of gb ga bs as c" "\<forall>c\<in>set (components s). set (comp_groups c) \<subseteq> {..<n}"
    using s unfolding component_loop_def Let_def S_def T_def by blast+
  have TS: "T \<subseteq> S" unfolding T_def S_def using inv(6) by (simp add: set_take_subset_set_take)
  have Sn: "S \<subseteq> {..<n}"
  proof
    fix h assume "h \<in> S"
    then have "h \<in> set ?fb" unfolding S_def by (rule in_set_takeD)
    then obtain i where "i \<in> set bs" "h = the (gb i)" by (auto simp: groups_by_def)
    with bs [of i] show "h \<in> {..<n}" by auto
  qed
  obtain s1 where s1: "visit_group bls als counts g s = Inr s1" "components s1 = components s"
    "before_start s1 = before_start s" "after_start s1 = after_start s" "length (group_seen s1) = n"
    "\<forall>h<n. group_seen s1 ! h \<longleftrightarrow> h \<in> insert g S" "greatest bls (insert g S) (before_prefix_last s1)"
    "greatest als (insert g S) (after_prefix_last s1)"
    "after_prefix_count s1 = length (filter (\<lambda>h. h \<in> insert g S) ?fa)"
    "set (component_groups s1) = insert g S - T"
    by (rule visit_group_step [OF inv(1,2) Sn inv(3,4,5,8) TS g(1) bls(1) als(1) counts])
  have visit: "rbind (of_option Panic (gb (bs ! p))) (\<lambda>g. visit_group bls als counts g s) = Inr s1"
    using g s1(1) by simp
  show ?thesis
  proof (cases "p = before_prefix_last s1 \<and> after_prefix_count s1 = after_prefix_last s1 + 1")
    case False
    have "component_loop gb ga bs as n bls als (Suc p) s1"
      unfolding component_loop_def Let_def S' T_def [symmetric]
      using s1 inv False by (auto simp: T_def)
    then show ?thesis
      unfolding match_scan_position_def fst_conv snd_conv visit rbind_simps if_not_P [OF False]
      by (rule yields_return)
  next
    case True
    let ?b = "before_start s" and ?a = "after_start s" and ?a' = "after_prefix_count s1"
    have cut: "prefix_cut ?fb ?fa (Suc p) ?a'"
    proof -
      have "insert g S \<subseteq> set ?fa"
        using sub S' set_take_subset [of "Suc p" ?fb] by auto
      then have "prefix_cut ?fb ?fa (Suc p) (after_prefix_last s1 + 1)"
        using True s1(9) p fb by (intro cut_test [OF bls(2) als(2) _ S' [symmetric] s1(7,8)]) simp_all
      then show ?thesis using True by simp
    qed
    have a: "?a = length (filter (\<lambda>h. h \<in> T) ?fa)"
      using prefix_cut_count [OF inv(7)] by (simp add: T_def)
    have "length (filter (\<lambda>h. h \<in> T) ?fa) \<le> length (filter (\<lambda>h. h \<in> insert g S) ?fa)"
    proof -
      have "filter (\<lambda>h. h \<in> T) ?fa = filter (\<lambda>h. h \<in> T) (filter (\<lambda>h. h \<in> insert g S) ?fa)"
        using TS by (auto simp: filter_filter intro!: filter_cong)
      then show ?thesis by (metis length_filter_le)
    qed
    then have le: "?b \<le> p + 1" "?a \<le> ?a'" "p + 1 \<le> length bs" "?a' \<le> length as"
      using inv(6) a s1(9) p cut fb by (simp_all add: prefix_cut_def)
    let ?bs = "take (p + 1 - ?b) (drop ?b bs)" and ?as = "take (?a' - ?a) (drop ?a as)"
    let ?c = "\<lparr>comp_before = ?bs, comp_after = ?as, comp_groups = component_groups s1\<rparr>"
    let ?s2 = "s1\<lparr>components := components s1 @ [?c], component_groups := [], before_start := p + 1, after_start := ?a'\<rparr>"
    have b1: "the (gb (bs ! x)) \<in> insert g S - T \<longleftrightarrow> ?b \<le> x \<and> x < p + 1" if "x < length bs" for x
    proof -
      have "the (gb (bs ! x)) = ?fb ! x" using that by (simp add: groups_by_def)
      then show ?thesis using that inv(7) cut fb unfolding prefix_cut_def S' T_def by auto
    qed
    have a1: "the (ga (as ! y)) \<in> insert g S - T \<longleftrightarrow> ?a \<le> y \<and> y < ?a'" if "y < length as" for y
    proof -
      have "the (ga (as ! y)) = ?fa ! y" using that by (simp add: groups_by_def)
      then show ?thesis using that inv(7) cut fb unfolding prefix_cut_def S' T_def by auto
    qed
    have comp: "component_of gb ga bs as ?c"
      using filter_slice [of bs "\<lambda>i. the (gb i) \<in> insert g S - T", OF b1 le(1,3)]
        filter_slice [of as "\<lambda>j. the (ga j) \<in> insert g S - T", OF a1 le(2,4)] inv(6) p
      unfolding component_of_def alignment_component.simps s1(10) by simp
    have within: "insert g S - T \<subseteq> {..<n}" using Sn g by auto
    have joins: "take ?b bs @ ?bs = take (Suc p) bs" "take ?a as @ ?as = take ?a' as"
      using take_drop_join [of 0 ?b "p + 1" bs] take_drop_join [of 0 ?a ?a' as] le by simp_all
    have "component_loop gb ga bs as n bls als (Suc p) ?s2"
      unfolding component_loop_def Let_def S'
      using s1 inv cut comp within joins by (simp add: S')
    then show ?thesis
      unfolding match_scan_position_def fst_conv snd_conv visit rbind_simps if_P [OF True] s1(3,4)
        slice_ok [OF le(1,3)] slice_ok [OF le(2,4)]
      by (simp add: yields_return)
  qed
qed

lemma yields_interaction_components:
  assumes ok: "groups_ok before after phase bs as cg"
  shows "yields (match_interaction_components cg bs as) (components_ok cg bs as)"
proof -
  let ?n = "length (cg_groups cg)"
  let ?B = "active (before_group cg) bs" and ?A = "active (after_group cg) as"
  let ?fb = "groups_by (before_group cg) ?B" and ?fa = "groups_by (after_group cg) ?A"
  let ?s0 = "\<lparr>components = [], group_seen = replicate ?n False, component_groups = [], before_start = 0, after_start = 0,
                 before_prefix_last = 0, after_prefix_last = 0, after_prefix_count = 0\<rparr>"
  note sides = groups_ok_sides [OF ok]
  have none: "components_ok cg bs as []" if "?B = []"
  proof -
    have "{..<?n} = {}" using sides(3) that by (simp add: groups_by_def)
    then have "set ?fa = {}" using sides(4) by simp
    then have "?A = []" by (simp add: groups_by_def)
    then show ?thesis using that by (simp add: components_ok_def)
  qed
  have scan: "yields (rfold (match_scan_position (before_group cg) bls (fst after) (snd after) ?B ?A) ?s0 (enumerate 0 ?B))
        (component_loop (before_group cg) (after_group cg) ?B ?A ?n bls (fst after) (length (enumerate 0 ?B)))"
    if bl: "length bls = ?n \<and> last_positions ?fb bls"
      and al: "length (fst after) = ?n \<and> last_positions ?fa (fst after) \<and> length (snd after) = ?n \<and>
        (\<forall>g<?n. snd after ! g = count_list ?fa g)" for bls after
  proof -
    let ?loop = "component_loop (before_group cg) (after_group cg) ?B ?A ?n bls (fst after)"
    have sub: "set ?fb \<subseteq> set ?fa" using sides(3,4) by simp
    show ?thesis
    proof (rule yields_fold_prefix [where I = "\<lambda>ys. ?loop (length ys)"])
      show "?loop (length []) ?s0"
        by (simp add: component_loop_def Let_def greatest_def prefix_cut_def)
    next
      fix ys p zs s assume split: "enumerate 0 ?B = ys @ p # zs" and s: "?loop (length ys) s"
      have len: "length ys < length ?B" using arg_cong [OF split, of length] by simp
      from nth_enumerate_eq [OF this, of 0] have p: "p = (length ys, ?B ! length ys)" unfolding split by simp
      have "yields (match_scan_position (before_group cg) bls (fst after) (snd after) ?B ?A s (length ys, ?B ! length ys))
          (?loop (Suc (length ys)))"
        using bl al by (intro yields_match_scan_position [OF sides(1) sub _ _ _ _ _ _ len s]) simp_all
      then show "yields (match_scan_position (before_group cg) bls (fst after) (snd after) ?B ?A s p) (?loop (length (ys @ [p])))"
        using p by simp
    qed
  qed
  have finish: "yields (rbind (debug_assert (before_start s = length ?B)) (\<lambda>_.
        rbind (debug_assert (after_start s = length ?A)) (\<lambda>_.
        rbind (debug_assert (component_groups s = [])) (\<lambda>_. Inr (components s))))) (components_ok cg bs as)"
    if s: "component_loop (before_group cg) (after_group cg) ?B ?A ?n bls als (length (enumerate 0 ?B)) s"
      and ne: "?B \<noteq> []" and lasts: "last_positions ?fb bls" "last_positions ?fa als" for s bls als
  proof -
    have s': "component_loop (before_group cg) (after_group cg) ?B ?A ?n bls als (length ?B) s" using s by simp
    have complete: "before_start s = length ?B \<and> after_start s = length ?A \<and> component_groups s = []"
      by (rule component_loop_complete [OF s' ne sides(3,4) lasts])
    have "components_ok cg bs as (components s)"
      using s' complete unfolding component_loop_def Let_def components_ok_def by (metis take_all_iff order_refl)
    then show ?thesis using complete by simp
  qed
  show ?thesis
    unfolding match_interaction_components_def Let_def active_def [symmetric]
  proof (rule yields_if)
    assume "?B \<noteq> []"
    then show "yields (rbind (rfold (match_note_last (before_group cg)) (replicate ?n 0) (enumerate 0 ?B)) (\<lambda>before_last.
        rbind (rfold (match_note_last_count (after_group cg)) (replicate ?n 0, replicate ?n 0) (enumerate 0 ?A)) (\<lambda>after.
        rbind (rfold (match_scan_position (before_group cg) before_last (fst after) (snd after) ?B ?A) ?s0
                 (enumerate 0 ?B)) (\<lambda>s.
        rbind (debug_assert (before_start s = length ?B)) (\<lambda>_.
        rbind (debug_assert (after_start s = length ?A)) (\<lambda>_.
        rbind (debug_assert (component_groups s = [])) (\<lambda>_. Inr (components s)))))))) (components_ok cg bs as)"
      by (intro yields_bind [OF yields_match_note_lasts [OF sides(1)]] yields_bind [OF yields_match_note_last_counts [OF sides(2)]]
          yields_bind [OF scan] finish) blast+
  qed (simp add: none)
qed

end
