(* ===== verification/Match_Core.thy ===== *)
theory Match_Core
  imports Match_Components Stable_Core
begin

text \<open>
  The ordered alignment of the producer (\<open>src/matcher.rs\<close>): the score tables, \<open>bounded_component_stable_core\<close>,
  \<open>oversized_alignment_ambiguities\<close> and \<open>bounded_ordered_stable_core\<close>. The tables and the scan have the verifier's
  specifications (\<open>Alignment\<close>, \<open>Stable_Core\<close>); what the producer calls an internal impossibility by a debug
  assertion is shown not to happen. The end of the theory shows that the forced pairs of a region have
  no end in common, so that the caller can map all of them.
\<close>

section \<open>The score tables\<close>

definition match_prefix_cell ::
  "matrix \<Rightarrow> (nat \<times> nat) option \<Rightarrow> nat \<Rightarrow> nat list list \<Rightarrow> nat \<Rightarrow> nat list list result" where
  "match_prefix_cell candidates forbidden before_index scores after_index =
     rbind (matrix_at scores before_index (after_index + 1)) (\<lambda>up.
     rbind (matrix_at scores (before_index + 1) after_index) (\<lambda>left.
     rbind (matrix_at candidates before_index after_index) (\<lambda>candidate.
     rbind
       (if candidate \<and> forbidden \<noteq> Some (before_index, after_index)
        then rbind (matrix_at scores before_index after_index) (\<lambda>d. Inr (max (max up left) (d + 1)))
        else Inr (max up left)) (\<lambda>best.
       matrix_set scores (before_index + 1) (after_index + 1) best))))"

definition match_prefix_scores :: "matrix \<Rightarrow> (nat \<times> nat) option \<Rightarrow> nat list list result" where
  "match_prefix_scores candidates forbidden =
     (let before_len = length candidates; after_len = first_width candidates in
      rfold (\<lambda>scores before_index. rfold (match_prefix_cell candidates forbidden before_index) scores [0..<after_len])
        (replicate (before_len + 1) (replicate (after_len + 1) 0)) [0..<before_len])"

definition match_suffix_cell :: "matrix \<Rightarrow> nat \<Rightarrow> nat list list \<Rightarrow> nat \<Rightarrow> nat list list result" where
  "match_suffix_cell candidates before_index scores after_index =
     rbind (matrix_at scores (before_index + 1) after_index) (\<lambda>down.
     rbind (matrix_at scores before_index (after_index + 1)) (\<lambda>right.
     rbind (matrix_at candidates before_index after_index) (\<lambda>candidate.
     rbind
       (if candidate
        then rbind (matrix_at scores (before_index + 1) (after_index + 1)) (\<lambda>d. Inr (max (max down right) (d + 1)))
        else Inr (max down right)) (\<lambda>best.
       matrix_set scores before_index after_index best))))"

definition match_suffix_scores :: "matrix \<Rightarrow> nat list list result" where
  "match_suffix_scores candidates =
     (let before_len = length candidates; after_len = first_width candidates in
      rfold (\<lambda>scores before_index. rfold (match_suffix_cell candidates before_index) scores (rev [0..<after_len]))
        (replicate (before_len + 1) (replicate (after_len + 1) 0)) (rev [0..<before_len]))"

definition match_score :: "matrix \<Rightarrow> (nat \<times> nat) option \<Rightarrow> nat result" where
  "match_score candidates forbidden =
     rbind (match_prefix_scores candidates forbidden) (\<lambda>scores.
       matrix_at scores (length candidates) (first_width candidates))"

definition candidate_occurs_in_optimum ::
  "matrix \<Rightarrow> nat list list \<Rightarrow> nat list list \<Rightarrow> nat \<Rightarrow> nat \<Rightarrow> nat \<Rightarrow> bool result" where
  "candidate_occurs_in_optimum candidates prefix suffix optimum before_index after_index =
     rbind (matrix_at candidates before_index after_index) (\<lambda>candidate.
     if \<not> candidate then Inr False
     else rbind (matrix_at prefix before_index after_index) (\<lambda>p.
          rbind (matrix_at suffix (before_index + 1) (after_index + 1)) (\<lambda>q. Inr (p + 1 + q = optimum))))"

definition candidate_is_forced :: "matrix \<Rightarrow> nat \<Rightarrow> nat \<Rightarrow> nat \<Rightarrow> bool \<Rightarrow> bool result" where
  "candidate_is_forced candidates optimum before_index after_index singleton =
     (if singleton then rbind (match_score candidates (Some (before_index, after_index))) (\<lambda>score. Inr (score < optimum))
      else Inr False)"

section \<open>A bounded component\<close>

definition match_group_of :: "(nat \<rightharpoonup> nat) \<Rightarrow> nat \<Rightarrow> nat result" where
  "match_group_of group_of i = of_option Panic (group_of i)"

definition match_cell ::
  "parsed_syntax \<Rightarrow> parsed_syntax \<Rightarrow> mapping_state \<Rightarrow> candidate_groups \<Rightarrow> nat \<Rightarrow> nat \<Rightarrow> bool result" where
  "match_cell before after st cg i j =
     rbind (match_group_of (before_group cg) i) (\<lambda>g.
     rbind (match_group_of (after_group cg) j) (\<lambda>h.
     if g = h then
       rbind (shape_equal before i after j) (\<lambda>same.
       if same then can_map_shape_pair before after st i j else Inr False)
     else Inr False))"

definition match_matrix ::
  "parsed_syntax \<Rightarrow> parsed_syntax \<Rightarrow> mapping_state \<Rightarrow> candidate_groups \<Rightarrow> nat list \<Rightarrow> nat list \<Rightarrow> matrix result" where
  "match_matrix before after st cg active_before active_after =
     rmap (\<lambda>i. rmap (match_cell before after st cg i) active_after) active_before"

definition match_scan_cell ::
  "candidate_groups \<Rightarrow> nat list \<Rightarrow> nat list \<Rightarrow> matrix \<Rightarrow> nat list list \<Rightarrow> nat list list \<Rightarrow> nat \<Rightarrow> nat \<Rightarrow>
   bounded_scan \<Rightarrow> nat \<Rightarrow> bounded_scan result" where
  "match_scan_cell cg active_before active_after cands prefix suffix optimum x s y =
     rbind (candidate_occurs_in_optimum cands prefix suffix optimum x y) (\<lambda>optimal.
     if \<not> optimal then Inr s
     else
       rbind (index_at active_before x) (\<lambda>i.
       rbind (index_at active_after y) (\<lambda>j.
       rbind (match_group_of (before_group cg) i) (\<lambda>g.
       rbind (index_at (cg_groups cg) g) (\<lambda>grp.
       let singleton = length (cand_before grp) = 1 \<and> length (cand_after grp) = 1 in
       rbind (candidate_is_forced cands optimum x y singleton) (\<lambda>is_forced.
       if is_forced then Inr (s\<lparr>scan_forced := scan_forced s @ [(i, j)]\<rparr>)
       else
         let s = s\<lparr>possible := possible s @ [\<lparr>pair_before_id = i, pair_after_id = j\<rparr>]\<rparr> in
         if singleton then
           Inr (s\<lparr>ambiguous_before := insert i (ambiguous_before s), ambiguous_after := insert j (ambiguous_after s)\<rparr>)
         else
           Inr (s\<lparr>duplicate_symmetry := True,
                  ambiguous_before := ambiguous_before s \<union> set (cand_before grp),
                  ambiguous_after := ambiguous_after s \<union> set (cand_after grp)\<rparr>)))))))"

text \<open>\<open>optimum - outcome.forced.len()\<close> panics on underflow in a debug build, as do the two assertions.\<close>

definition match_constraint :: "nat \<Rightarrow> bounded_scan \<Rightarrow> ambiguity_constraint result" where
  "match_constraint optimum s =
     (if duplicate_symmetry s then Inr (SymbolicAbstention DuplicateSymmetry NoPairClaims)
      else
        rbind (usize_sub optimum (length (scan_forced s))) (\<lambda>required_matches.
        rbind (debug_assert (required_matches > 0)) (\<lambda>_.
        rbind (debug_assert (length (possible s) > required_matches)) (\<lambda>_.
          Inr (ExactOrderedAlignment ShapeEqual required_matches (possible s))))))"

definition match_outcome :: "nat list \<Rightarrow> nat list \<Rightarrow> nat \<Rightarrow> bounded_scan \<Rightarrow> alignment_outcome result" where
  "match_outcome active_before active_after optimum s =
     (let forced_pairs = sort (scan_forced s) in
      if possible s \<noteq> [] then
        rbind (match_constraint optimum s) (\<lambda>c.
          Inr \<lparr>forced = forced_pairs, outcome_ambiguities =
            [\<lparr>amb_before = filter (\<lambda>i. i \<in> ambiguous_before s) active_before,
              amb_after = filter (\<lambda>j. j \<in> ambiguous_after s) active_after,
              amb_constraint = c,
              amb_reason = (if duplicate_symmetry s then REPEATED_AMBIGUITY_REASON else OPTIONAL_AMBIGUITY_REASON)\<rparr>]\<rparr>)
      else Inr \<lparr>forced = forced_pairs, outcome_ambiguities = []\<rparr>)"

definition bounded_component_stable_core ::
  "parsed_syntax \<Rightarrow> parsed_syntax \<Rightarrow> mapping_state \<Rightarrow> candidate_groups \<Rightarrow> alignment_component \<Rightarrow> alignment_outcome result" where
  "bounded_component_stable_core before after st cg c =
     (let active_before = comp_before c; active_after = comp_after c in
      rbind (match_matrix before after st cg active_before active_after) (\<lambda>cands.
      rbind (match_prefix_scores cands None) (\<lambda>prefix.
      rbind (match_suffix_scores cands) (\<lambda>suffix.
      rbind (matrix_at prefix (length active_before) (length active_after)) (\<lambda>optimum.
      if optimum = 0 then Inr no_outcome
      else
        rbind (rfold (\<lambda>s x. rfold (match_scan_cell cg active_before active_after cands prefix suffix optimum x) s [0..<length active_after])
                 \<lparr>scan_forced = [], possible = [], ambiguous_before = {}, ambiguous_after = {}, duplicate_symmetry = False\<rparr>
                 [0..<length active_before])
          (match_outcome active_before active_after optimum))))))"

section \<open>A region\<close>

definition within_alignment_limit :: "nat \<Rightarrow> nat \<Rightarrow> bool" where
  "within_alignment_limit b a \<longleftrightarrow> b \<le> ORDERED_ALIGNMENT_COMPONENT_LIMIT \<and> a \<le> ORDERED_ALIGNMENT_COMPONENT_LIMIT"

definition oversized_alignment_ambiguities :: "candidate_groups \<Rightarrow> alignment_component \<Rightarrow> alignment_outcome result" where
  "oversized_alignment_ambiguities cg c =
     rbind (rall (\<lambda>g. rbind (index_at (cg_groups cg) g) (\<lambda>grp. Inr (scan_complete grp))) (comp_groups c)) (\<lambda>complete.
       Inr \<lparr>forced = [], outcome_ambiguities =
         [\<lparr>amb_before = comp_before c, amb_after = comp_after c,
           amb_constraint = SymbolicAbstention (if complete then ComponentLimit else CandidateScanLimit) NoPairClaims,
           amb_reason = (if complete then COMPONENT_LIMIT_REASON else SCAN_LIMIT_REASON)\<rparr>]\<rparr>)"

definition bounded_ordered_stable_core ::
  "parsed_syntax \<Rightarrow> parsed_syntax \<Rightarrow> mapping_state \<Rightarrow> nat list \<Rightarrow> nat list \<Rightarrow> alignment_outcome result" where
  "bounded_ordered_stable_core before after st before_ids after_ids =
     rbind (match_shape_classes before after before_ids after_ids) (\<lambda>cs.
     if classes cs = [] then Inr no_outcome
     else
       rbind (match_candidate_groups before after st cs) (\<lambda>cg.
       if cg_groups cg = [] then Inr no_outcome
       else
         rbind (match_interaction_components cg before_ids after_ids) (\<lambda>comps.
         rbind (rfold (\<lambda>outcome c.
             rbind (if within_alignment_limit (length (comp_before c)) (length (comp_after c))
                    then bounded_component_stable_core before after st cg c
                    else oversized_alignment_ambiguities cg c) (\<lambda>new.
               Inr \<lparr>forced = forced outcome @ forced new,
                    outcome_ambiguities = outcome_ambiguities outcome @ outcome_ambiguities new\<rparr>)) no_outcome comps) (\<lambda>outcome.
           Inr (outcome\<lparr>forced := sort (forced outcome)\<rparr>)))))"

section \<open>The tables hold the optima\<close>

lemma yields_fold_upt:
  assumes "I 0 s" "\<And>i s. i < n \<Longrightarrow> I i s \<Longrightarrow> yields (f s i) (I (Suc i))"
  shows "yields (rfold f s [0..<n]) (I n)"
proof -
  have "yields (rfold f s [0..<n]) (I (length [0..<n]))"
  proof (rule yields_fold_prefix [where I = "\<lambda>ys. I (length ys)"])
    fix ys x zs s
    assume "[0..<n] = ys @ x # zs" "I (length ys) s"
    then show "yields (f s x) (I (length (ys @ [x])))"
      using upt_prefix [of n ys x zs] assms(2) [of x s] by simp
  qed (use assms in simp)
  then show ?thesis by simp
qed

lemma yields_fold_rev_upt:
  assumes "I n s" "\<And>i s. i < n \<Longrightarrow> I (Suc i) s \<Longrightarrow> yields (f s i) (I i)"
  shows "yields (rfold f s (rev [0..<n])) (I 0)"
proof -
  have "yields (rfold f s (rev [0..<n])) (I (n - length (rev [0..<n])))"
  proof (rule yields_fold_prefix [where I = "\<lambda>ys. I (n - length ys)"])
    fix ys x zs s
    assume "rev [0..<n] = ys @ x # zs" "I (n - length ys) s"
    then show "yields (f s x) (I (n - length (ys @ [x])))"
      using rev_upt_prefix [of n ys x zs] assms(2) [of x s] by (simp add: Suc_diff_Suc)
  qed (use assms in simp)
  then show ?thesis by simp
qed

lemma yields_prefix_scores:
  assumes c: "rectangular candidates n m" and m: "m = first_width candidates"
  shows "yields (match_prefix_scores candidates forbidden)
    (\<lambda>s. table s n m (prefix_best (allowed candidates forbidden)))"
proof -
  let ?p = "prefix_best (allowed candidates forbidden)"
  define J where "J i j s \<longleftrightarrow> table s n m (\<lambda>a b. if a \<le> i \<or> a = Suc i \<and> b \<le> j then ?p a b else 0)" for i j s
  have cell: "yields (match_prefix_cell candidates forbidden i s j) (J i (Suc j))"
    if ij: "i < n" "j < m" and s: "J i j s" for i j s
  proof -
    let ?best = "max (max (?p i (Suc j)) (?p (Suc i) j)) (if allowed candidates forbidden i j then ?p i j + 1 else 0)"
    note at = table_at [OF s [unfolded J_def]]
    obtain s' where s': "matrix_set s (Suc i) (Suc j) ?best = Inr s'"
      "table s' n m (\<lambda>a b. if a = Suc i \<and> b = Suc j then ?best
         else if a \<le> i \<or> a = Suc i \<and> b \<le> j then ?p a b else 0)"
      using table_set [OF s [unfolded J_def], of "Suc i" "Suc j" ?best] ij by auto
    have "match_prefix_cell candidates forbidden i s j = Inr s'"
      using ij s' at matrix_at_rectangular [OF c ij]
      by (simp add: match_prefix_cell_def allowed_def) (auto simp: allowed_def)
    moreover have "J i (Suc j) s'"
      unfolding J_def by (rule table_cong [OF s'(2)]) (auto simp: le_Suc_eq)
    ultimately show ?thesis by (simp add: yields_return)
  qed
  have row: "yields (rfold (match_prefix_cell candidates forbidden i) s [0..<m]) (J i m)"
    if "i < n" "J i 0 s" for i s
    using that by (intro yields_fold_upt [where I = "J i"] cell)
  have step: "J (Suc i) 0 s" if "J i m s" "i < n" for i s
    using that(1) unfolding J_def by (rule table_cong) (auto simp: le_Suc_eq)
  have "yields (rfold (\<lambda>s i. rfold (match_prefix_cell candidates forbidden i) s [0..<m])
      (replicate (n + 1) (replicate (m + 1) 0)) [0..<n]) (J n 0)"
  proof (rule yields_fold_upt [where I = "\<lambda>i. J i 0"])
    show "J 0 0 (replicate (n + 1) (replicate (m + 1) 0))"
      unfolding J_def by (rule table_cong [OF table_init]) (auto simp: le_Suc_eq)
    fix i s assume "i < n" "J i 0 s"
    then show "yields (rfold (match_prefix_cell candidates forbidden i) s [0..<m]) (J (Suc i) 0)"
      using row step by (blast intro: yields_conseq)
  qed
  moreover have "table s n m ?p" if "J n 0 s" for s
    using that unfolding J_def by (rule table_cong) simp
  ultimately show ?thesis
    using c m by (auto simp: match_prefix_scores_def rectangular_def Let_def intro: yields_conseq)
qed

lemma yields_suffix_scores:
  assumes c: "rectangular candidates n m" and m: "m = first_width candidates"
  shows "yields (match_suffix_scores candidates)
    (\<lambda>s. table s n m (suffix_best (\<lambda>i j. candidates ! i ! j) n m))"
proof -
  let ?p = "suffix_best (\<lambda>i j. candidates ! i ! j) n m"
  define J where "J i j s \<longleftrightarrow> table s n m (\<lambda>a b. if i < a \<or> a = i \<and> j \<le> b then ?p a b else 0)" for i j s
  have cell: "yields (match_suffix_cell candidates i s j) (J i j)"
    if ij: "i < n" "j < m" and s: "J i (Suc j) s" for i j s
  proof -
    let ?best = "max (max (?p (Suc i) j) (?p i (Suc j))) (if candidates ! i ! j then ?p (Suc i) (Suc j) + 1 else 0)"
    note at = table_at [OF s [unfolded J_def]]
    obtain s' where s': "matrix_set s i j ?best = Inr s'"
      "table s' n m (\<lambda>a b. if a = i \<and> b = j then ?best
         else if i < a \<or> a = i \<and> Suc j \<le> b then ?p a b else 0)"
      using table_set [OF s [unfolded J_def], of i j ?best] ij by auto
    have "match_suffix_cell candidates i s j = Inr s'"
      using ij s' at matrix_at_rectangular [OF c ij]
      by (cases "candidates ! i ! j") (simp_all add: match_suffix_cell_def)
    moreover have "J i j s'"
      unfolding J_def by (rule table_cong [OF s'(2)]) (use ij suffix_best_simps(3) in \<open>auto simp: Suc_le_eq\<close>)
    ultimately show ?thesis by (simp add: yields_return)
  qed
  have row: "yields (rfold (match_suffix_cell candidates i) s (rev [0..<m])) (J i 0)"
    if "i < n" "J i m s" for i s
    using that by (intro yields_fold_rev_upt [where I = "J i"] cell)
  have step: "J i m s" if "J (Suc i) 0 s" "i < n" for i s
    using that(1) unfolding J_def by (rule table_cong) (auto simp: suffix_best_simps not_less less_Suc_eq Suc_le_eq)
  have "yields (rfold (\<lambda>s i. rfold (match_suffix_cell candidates i) s (rev [0..<m]))
      (replicate (n + 1) (replicate (m + 1) 0)) (rev [0..<n])) (J 0 0)"
  proof (rule yields_fold_rev_upt [where I = "\<lambda>i. J i 0"])
    show "J n 0 (replicate (n + 1) (replicate (m + 1) 0))"
      unfolding J_def by (rule table_cong [OF table_init]) (auto simp: suffix_best_simps)
    fix i s assume "i < n" "J (Suc i) 0 s"
    then show "yields (rfold (match_suffix_cell candidates i) s (rev [0..<m])) (J i 0)"
      using row step by blast
  qed
  moreover have "table s n m ?p" if "J 0 0 s" for s
    using that unfolding J_def by (rule table_cong) auto
  ultimately show ?thesis
    using c m by (auto simp: match_suffix_scores_def rectangular_def Let_def intro: yields_conseq)
qed

lemma yields_match_score:
  assumes "rectangular candidates n m" "m = first_width candidates"
  shows "yields (match_score candidates forbidden)
    (\<lambda>k. k = prefix_best (allowed candidates forbidden) n m)"
  unfolding match_score_def
proof (rule yields_bind [OF yields_prefix_scores [OF assms]])
  fix s assume s: "table s n m (prefix_best (allowed candidates forbidden))"
  then show "yields ((matrix_at s (length candidates) (first_width candidates)))
      (\<lambda>k. k = prefix_best (allowed candidates forbidden) n m)"
    using assms table_at [OF s, of n m] by (auto simp: rectangular_def intro: yields_return)
qed

section \<open>A component\<close>

lemma yields_match_cell:
  assumes wf: "wf_syntax before" "wf_syntax after" and st: "state_ok to_hex before after st"
    and i: "i < length (ps_nodes before)" "before_group cg i = Some g"
    and j: "j < length (ps_nodes after)" "after_group cg j = Some h"
  shows "yields (match_cell before after st cg i j) (\<lambda>b. b = candidate_pair before after (phase_of st) cg i j)"
proof -
  have arena: "in_arena before i" "in_arena after j" using wf i j by (simp_all add: in_arena_def)
  show ?thesis
    using equal_total(2) [OF arena] can_map_shape_pair_eq [OF wf st i(1) j(1)] i(2) j(2)
    by (simp add: match_cell_def match_group_of_def candidate_pair_def)
qed

lemma yields_match_matrix:
  assumes wf: "wf_syntax before" "wf_syntax after" and st: "state_ok to_hex before after st"
    and sides: "side_ok before (before_group cg) bs" "side_ok after (after_group cg) as"
  shows "yields (match_matrix before after st cg bs as)
    (\<lambda>c. c = matrix_of (candidate_pair before after (phase_of st) cg) bs as)"
proof -
  let ?c = "candidate_pair before after (phase_of st) cg"
  have row: "yields (rmap (match_cell before after st cg i) as) (\<lambda>r. r = map (?c i) as)" if i: "i \<in> set bs" for i
  proof -
    obtain g where g: "before_group cg i = Some g" "i < length (ps_nodes before)"
      using sides(1) i by (auto simp: side_ok_def)
    have "yields (rmap (match_cell before after st cg i) as) (list_all2 (\<lambda>j b. b = ?c i j) as)"
    proof (rule yields_rmap)
      fix j assume "j \<in> set as"
      then obtain h where "after_group cg j = Some h" "j < length (ps_nodes after)"
        using sides(2) by (auto simp: side_ok_def)
      then show "yields (match_cell before after st cg i j) (\<lambda>b. b = ?c i j)"
        using yields_match_cell [OF wf st g(2,1)] by simp
    qed
    then show ?thesis by (rule yields_conseq) (auto dest: list_all2_map)
  qed
  show ?thesis
    unfolding match_matrix_def
    by (rule yields_conseq [OF yields_rmap [OF row]]) (auto simp: matrix_of_def dest: list_all2_map)
qed

lemma occurs_in_optimum_eq:
  assumes x: "x < n" and y: "y < m" and rect: "rectangular cands n m"
    and prefix: "table prefix n m (prefix_best (entries cands))" and suffix: "table suffix n m (suffix_best (entries cands) n m)"
  shows "candidate_occurs_in_optimum cands prefix suffix (prefix_best (entries cands) n m) x y = Inr (optimal_pair cands n m (x, y))"
proof -
  have cell: "matrix_at cands x y = Inr (cands ! x ! y)" by (rule matrix_at_rectangular [OF rect x y])
  have tables: "matrix_at prefix x y = Inr (prefix_best (entries cands) x y)"
    "matrix_at suffix (x + 1) (y + 1) = Inr (suffix_best (entries cands) n m (Suc x) (Suc y))"
    using table_at [OF prefix, of x y] table_at [OF suffix, of "Suc x" "Suc y"] x y by simp_all
  show ?thesis
  proof (cases "cands ! x ! y")
    case False
    then have "\<not> optimal_pair cands n m (x, y)" using maximum_entry(1) by (fastforce simp: optimal_pair_def)
    then show ?thesis using False cell by (simp add: candidate_occurs_in_optimum_def)
  next
    case True
    then have "(prefix_best (entries cands) x y + 1 + suffix_best (entries cands) n m (Suc x) (Suc y) = prefix_best (entries cands) n m)
        = optimal_pair cands n m (x, y)"
      using possible_iff [of x n y m "entries cands"] x y by (simp add: optimal_pair_def)
    then show ?thesis using True cell tables by (simp add: candidate_occurs_in_optimum_def)
  qed
qed

lemma yields_candidate_is_forced:
  assumes "rectangular cands n m" "m = first_width cands"
  shows "yields (candidate_is_forced cands (prefix_best (entries cands) n m) x y single)
    (\<lambda>f. f \<longleftrightarrow> single \<and> forced_pair cands n m (x, y))"
  unfolding candidate_is_forced_def
proof (rule yields_if, rule yields_bind [OF yields_match_score [OF assms]], rule yields_return)
  fix k assume "single" "k = prefix_best (allowed cands (Some (x, y))) n m"
  then show "(k < prefix_best (entries cands) n m) \<longleftrightarrow> single \<and> forced_pair cands n m (x, y)"
    by (simp only: allowed_eq forced_iff forced_pair_def simp_thms)
qed simp

lemma yields_match_scan_cell:
  assumes x: "x < length bs" and y: "y < length as"
    and rect: "rectangular cands (length bs) (length as)" "length as = first_width cands"
    and prefix: "table prefix (length bs) (length as) (prefix_best (entries cands))"
    and suffix: "table suffix (length bs) (length as) (suffix_best (entries cands) (length bs) (length as))"
    and groups: "\<And>i. i \<in> set bs \<Longrightarrow> \<exists>g<length (cg_groups cg). before_group cg i = Some g"
  shows "yields (match_scan_cell cg bs as cands prefix suffix (prefix_best (entries cands) (length bs) (length as)) x s y)
    (\<lambda>s'. s' = pure_step cg bs as cands s (x, y))"
proof -
  note optimal = occurs_in_optimum_eq [OF x y rect(1) prefix suffix]
  obtain g where g: "g < length (cg_groups cg)" "before_group cg (bs ! x) = Some g" using groups x by force
  have grp: "group_at_before cg (bs ! x) = cg_groups cg ! g" using g by (simp add: group_at_before_def)
  have single: "(length (cand_before (cg_groups cg ! g)) = 1 \<and> length (cand_after (cg_groups cg ! g)) = 1) = singleton_at cg (bs ! x)"
    by (simp add: singleton_at_def grp)
  have lookups: "index_at bs x = Inr (bs ! x)" "index_at as y = Inr (as ! y)"
    "match_group_of (before_group cg) (bs ! x) = Inr g" "index_at (cg_groups cg) g = Inr (cg_groups cg ! g)"
    using x y g by (simp_all add: match_group_of_def)
  note forced = yields_candidate_is_forced [OF rect, of x y "singleton_at cg (bs ! x)"]
  show ?thesis
  proof (cases "optimal_pair cands (length bs) (length as) (x, y)")
    case False
    then show ?thesis unfolding match_scan_cell_def optimal rbind_simps by (simp add: pure_step_def)
  next
    case True
    then have no: "\<not> \<not> optimal_pair cands (length bs) (length as) (x, y)" by simp
    show ?thesis
      unfolding match_scan_cell_def optimal rbind_simps if_not_P [OF no] lookups Let_def single
      by (rule yields_bind [OF forced], rule yields_if; cases "singleton_at cg (bs ! x)")
        (simp_all add: pure_step_def Let_def True grp)
  qed
qed

lemma rfold_map: "rfold f s (map g xs) = rfold (\<lambda>s x. f s (g x)) s xs"
  by (induction xs arbitrary: s) simp_all

lemma rfold_nested: "rfold (\<lambda>s x. rfold (f x) s ys) s xs = rfold (\<lambda>s p. f (fst p) s (snd p)) s (List.product xs ys)"
  by (induction xs arbitrary: s) (simp_all add: rfold_append rfold_map)

lemma yields_fold_pure:
  assumes "\<And>x s. x \<in> set xs \<Longrightarrow> yields (f s x) (\<lambda>s'. s' = g s x)"
  shows "yields (rfold f s xs) (\<lambda>s'. s' = foldl g s xs)"
  by (rule yields_fold_prefix [where I = "\<lambda>ys s'. s' = foldl g s ys"]) (use assms in auto)

lemma yields_match_outcome:
  assumes s: "scanned cg bs as cands (List.product [0..<length bs] [0..<length as]) s"
  shows "yields (match_outcome bs as (prefix_best (entries cands) (length bs) (length as)) s)
    (component_result cg bs as cands)"
proof -
  let ?n = "length bs" and ?m = "length as" and ?k = "prefix_best (entries cands) (length bs) (length as)"
  define cells where "cells = optimal_cells cands ?n ?m"
  define F where "F = filter (certain cg bs as cands) cells"
  define U where "U = filter (\<lambda>p. \<not> certain cg bs as cands p) cells"
  have sc: "scan_forced s = map (pair_ids bs as) F" "possible s = map (ids_pair \<circ> pair_ids bs as) U"
    "duplicate_symmetry s \<longleftrightarrow> (\<exists>p\<in>set U. \<not> singleton_at cg (bs ! fst p))"
    using s unfolding scanned_def Let_def F_def U_def cells_def optimal_cells_def by blast+
  have dist: "distinct F" "distinct U"
    using optimal_cells_facts(1) [of cands ?n ?m] by (simp_all add: F_def U_def cells_def)
  have empty: "U = [] \<longleftrightarrow> list_all (certain cg bs as cands) cells"
    by (simp add: U_def filter_empty_conv list_all_iff)
  show ?thesis
  proof (cases "U = []")
    case True
    then have "possible s = []" using sc(2) by simp
    moreover have "component_result cg bs as cands \<lparr>forced = sort (scan_forced s), outcome_ambiguities = []\<rparr>"
      using True empty sc(1) unfolding component_result_def Let_def F_def cells_def by simp
    ultimately show ?thesis
      by (simp add: match_outcome_def  yields_return)
  next
    case False
    then have ne: "possible s \<noteq> []" using sc(2) by simp
    have constraint: "\<exists>c. match_constraint ?k s = Inr c \<and>
       (if \<exists>p\<in>set U. \<not> singleton_at cg (bs ! fst p) then c = SymbolicAbstention DuplicateSymmetry NoPairClaims
        else (\<exists>required. c = ExactOrderedAlignment ShapeEqual required (map (ids_pair \<circ> pair_ids bs as) U) \<and>
          required + length F = ?k \<and> 0 < required \<and> required < length U))"
    proof (cases "\<exists>p\<in>set U. \<not> singleton_at cg (bs ! fst p)")
      case True
      then show ?thesis using sc(3) by (simp add: match_constraint_def)
    next
      case single: False
      have "set F = {p. optimal_pair cands ?n ?m p \<and> forced_pair cands ?n ?m p}"
        "set U = {p. optimal_pair cands ?n ?m p \<and> \<not> forced_pair cands ?n ?m p}"
      proof -
        have sing: "singleton_at cg (bs ! fst p)" if p: "optimal_pair cands ?n ?m p" for p
        proof (rule ccontr)
          assume "\<not> singleton_at cg (bs ! fst p)"
          moreover from this have "p \<in> set U"
            using p optimal_cells_facts(2) [of cands ?n ?m] by (simp add: U_def cells_def certain_def)
          ultimately show False using single by blast
        qed
        then have "certain cg bs as cands p \<longleftrightarrow> forced_pair cands ?n ?m p" if "optimal_pair cands ?n ?m p" for p
          using that by (simp add: certain_def)
        then show "set F = {p. optimal_pair cands ?n ?m p \<and> forced_pair cands ?n ?m p}"
          "set U = {p. optimal_pair cands ?n ?m p \<and> \<not> forced_pair cands ?n ?m p}"
          using optimal_cells_facts(2) [of cands ?n ?m] unfolding F_def U_def cells_def set_filter by blast+
      qed
      note count = open_count [OF dist(1) this(1) dist(2) this(2) False]
      then have "length F \<le> ?k" by simp
      then show ?thesis
        using count single sc by (simp add: match_constraint_def)
    qed
    then obtain c where c: "match_constraint ?k s = Inr c"
      "if \<exists>p\<in>set U. \<not> singleton_at cg (bs ! fst p) then c = SymbolicAbstention DuplicateSymmetry NoPairClaims
        else (\<exists>required. c = ExactOrderedAlignment ShapeEqual required (map (ids_pair \<circ> pair_ids bs as) U) \<and>
          required + length F = ?k \<and> 0 < required \<and> required < length U)" by blast
    let ?a = "\<lparr>amb_before = filter (\<lambda>i. i \<in> ambiguous_before s) bs, amb_after = filter (\<lambda>j. j \<in> ambiguous_after s) as,
             amb_constraint = c,
             amb_reason = (if duplicate_symmetry s then REPEATED_AMBIGUITY_REASON else OPTIONAL_AMBIGUITY_REASON)\<rparr>"
    have "ambiguity_of cg bs as cands ?a"
      unfolding ambiguity_of_def Let_def cells_def [symmetric] U_def [symmetric] F_def [symmetric]
      using c(2) s sc(3) by auto
    then have "component_result cg bs as cands \<lparr>forced = sort (scan_forced s), outcome_ambiguities = [?a]\<rparr>"
      using False empty sc(1) unfolding component_result_def Let_def F_def cells_def by simp
    then show ?thesis
      using ne c(1) by (simp add: match_outcome_def Let_def  yields_return)
  qed
qed

lemma yields_bounded_component:
  assumes wf: "wf_syntax before" "wf_syntax after" and st: "state_ok to_hex before after st"
    and sides: "side_ok before (before_group cg) (comp_before c)" "side_ok after (after_group cg) (comp_after c)"
    and ne: "comp_before c \<noteq> []"
    and groups: "\<And>i. i \<in> set (comp_before c) \<Longrightarrow> \<exists>g<length (cg_groups cg). before_group cg i = Some g"
  shows "yields (bounded_component_stable_core before after st cg c)
    (component_result cg (comp_before c) (comp_after c)
       (matrix_of (candidate_pair before after (phase_of st) cg) (comp_before c) (comp_after c)))"
proof -
  let ?bs = "comp_before c" and ?as = "comp_after c"
  let ?cands = "matrix_of (candidate_pair before after (phase_of st) cg) ?bs ?as"
  let ?n = "length ?bs" and ?m = "length ?as" and ?k = "prefix_best (entries ?cands) (length ?bs) (length ?as)"
  note rect = matrix_of_facts(1) [of "candidate_pair before after (phase_of st) cg" ?bs ?as]
  have width: "?m = first_width ?cands" using matrix_of_facts(2) [OF ne] by simp
  have prefix: "yields (match_prefix_scores ?cands None) (\<lambda>s. table s ?n ?m (prefix_best (entries ?cands)))"
    using yields_prefix_scores [OF rect width, of None] by (simp only: allowed_eq)
  note suffix = yields_suffix_scores [OF rect width]
  let ?s0 = "\<lparr>scan_forced = [], possible = [], ambiguous_before = {}, ambiguous_after = {}, duplicate_symmetry = False\<rparr>"
  show ?thesis
    unfolding bounded_component_stable_core_def Let_def
  proof (rule yields_bind [OF yields_match_matrix [OF wf st sides]], hypsubst, rule yields_bind [OF prefix],
      rule yields_bind [OF suffix])
    fix pre suf
    assume pre: "table pre ?n ?m (prefix_best (entries ?cands))" and suf: "table suf ?n ?m (suffix_best (entries ?cands) ?n ?m)"
    have opt: "matrix_at pre ?n ?m = Inr ?k" using table_at [OF pre, of ?n ?m] by simp
    have "yields (rfold (\<lambda>s x. rfold (match_scan_cell cg ?bs ?as ?cands pre suf ?k x) s [0..<?m]) ?s0 [0..<?n])
        (\<lambda>s. s = foldl (pure_step cg ?bs ?as ?cands) ?s0 (List.product [0..<?n] [0..<?m]))"
      unfolding rfold_nested
      by (rule yields_fold_pure) (auto intro!: yields_match_scan_cell rect width pre suf groups)
    then have scan: "yields (rfold (\<lambda>s x. rfold (match_scan_cell cg ?bs ?as ?cands pre suf ?k x) s [0..<?m]) ?s0 [0..<?n])
        (scanned cg ?bs ?as ?cands (List.product [0..<?n] [0..<?m]))"
      by (rule yields_conseq) (simp_all add: scanned_foldl)
    show "yields (rbind ((matrix_at pre ?n ?m)) (\<lambda>optimum.
      if optimum = 0 then Inr no_outcome
      else
        rbind (rfold (\<lambda>s x. rfold (match_scan_cell cg ?bs ?as ?cands pre suf optimum x) s [0..<?m]) ?s0 [0..<?n])
          (match_outcome ?bs ?as optimum))) (component_result cg ?bs ?as ?cands)"
      unfolding opt rbind_simps
    proof (rule yields_if)
      assume "?k = 0"
      then show "yields (Inr no_outcome) (component_result cg ?bs ?as ?cands)"
        by (intro yields_return) (simp add: component_result_def no_optimum no_outcome_def)
    next
      show "yields (rbind (rfold (\<lambda>s x. rfold (match_scan_cell cg ?bs ?as ?cands pre suf ?k x) s [0..<?m]) ?s0 [0..<?n])
          (match_outcome ?bs ?as ?k)) (component_result cg ?bs ?as ?cands)"
        by (rule yields_bind [OF scan], rule yields_match_outcome)
    qed
  qed
qed

lemma yields_oversized:
  assumes "set (comp_groups c) \<subseteq> {..<length (cg_groups cg)}"
  shows "yields (oversized_alignment_ambiguities cg c) (oversized_result cg c)"
proof -
  have "rall (\<lambda>g. rbind (index_at (cg_groups cg) g) (\<lambda>grp. Inr (scan_complete grp))) (comp_groups c) =
      Inr (\<forall>g\<in>set (comp_groups c). scan_complete (cg_groups cg ! g))"
    by (rule rall_pure) (use assms in auto)
  then show ?thesis
    by (auto simp: oversized_alignment_ambiguities_def oversized_result_def)
qed

lemma yields_stable_core:
  assumes wf: "wf_syntax before" "wf_syntax after" and st: "state_ok to_hex before after st"
    and bs: "\<forall>i\<in>set bs. i < length (ps_nodes before)" "distinct bs"
    and as: "\<forall>j\<in>set as. j < length (ps_nodes after)" "distinct as"
  shows "yields (bounded_ordered_stable_core before after st bs as) (region_result before after (phase_of st) bs as)"
  unfolding bounded_ordered_stable_core_def
proof (rule yields_bind [OF yields_match_shape_classes])
  show "in_arena before i" if "i \<in> set bs" for i using that bs wf by (simp add: in_arena_def)
  show "in_arena after j" if "j \<in> set as" for j using that as wf by (simp add: in_arena_def)
  fix cs :: shape_classes
  assume cs: "classified (same_class before after) bs as (classes cs)"
  show "yields (if classes cs = [] then Inr no_outcome
     else
       rbind (match_candidate_groups before after st cs) (\<lambda>cg.
       if cg_groups cg = [] then Inr no_outcome
       else
         rbind (match_interaction_components cg bs as) (\<lambda>comps.
         rbind (rfold (\<lambda>outcome c.
             rbind (if within_alignment_limit (length (comp_before c)) (length (comp_after c))
                    then bounded_component_stable_core before after st cg c
                    else oversized_alignment_ambiguities cg c) (\<lambda>new.
               Inr \<lparr>forced = forced outcome @ forced new,
                        outcome_ambiguities = outcome_ambiguities outcome @ outcome_ambiguities new\<rparr>)) no_outcome comps) (\<lambda>outcome.
           Inr (outcome\<lparr>forced := sort (forced outcome)\<rparr>))))) (region_result before after (phase_of st) bs as)"
  proof (rule yields_if)
    assume "classes cs = []"
    then have none: "groups_ok before after (phase_of st) bs as \<lparr>cg_groups = [], before_group = Map.empty, after_group = Map.empty\<rparr>"
      using cs by (simp add: groups_ok_def grouped_def classified_def)
    show "yields (Inr no_outcome) (region_result before after (phase_of st) bs as)"
      by (rule yields_return, rule no_groups_result [OF none]) (simp only: candidate_groups.simps)
  next
    show "yields (rbind (match_candidate_groups before after st cs) (\<lambda>cg.
       if cg_groups cg = [] then Inr no_outcome
       else
         rbind (match_interaction_components cg bs as) (\<lambda>comps.
         rbind (rfold (\<lambda>outcome c.
             rbind (if within_alignment_limit (length (comp_before c)) (length (comp_after c))
                    then bounded_component_stable_core before after st cg c
                    else oversized_alignment_ambiguities cg c) (\<lambda>new.
               Inr \<lparr>forced = forced outcome @ forced new,
                        outcome_ambiguities = outcome_ambiguities outcome @ outcome_ambiguities new\<rparr>)) no_outcome comps) (\<lambda>outcome.
           Inr (outcome\<lparr>forced := sort (forced outcome)\<rparr>))))) (region_result before after (phase_of st) bs as)"
    proof (rule yields_bind [OF yields_match_candidate_groups [OF wf st bspec [OF bs(1)] bspec [OF as(1)] cs]], assumption, assumption, rule yields_if,
        intro yields_return no_groups_result, assumption, assumption,
        rule yields_bind [OF yields_interaction_components], assumption)
      fix cg comps assume cg: "groups_ok before after (phase_of st) bs as cg" and comps: "components_ok cg bs as comps"
      define I where "I ys r \<longleftrightarrow> (\<exists>rs. list_all2 (component_outcome before after (phase_of st) cg) ys rs \<and>
        forced r = concat (map forced rs) \<and> outcome_ambiguities r = concat (map outcome_ambiguities rs))"
        for ys :: "alignment_component list" and r :: alignment_outcome
      have "yields (rfold (\<lambda>outcome c.
             rbind (if within_alignment_limit (length (comp_before c)) (length (comp_after c))
                    then bounded_component_stable_core before after st cg c
                    else oversized_alignment_ambiguities cg c) (\<lambda>new.
               Inr \<lparr>forced = forced outcome @ forced new,
                        outcome_ambiguities = outcome_ambiguities outcome @ outcome_ambiguities new\<rparr>)) no_outcome comps)
          (I comps)"
      proof (rule yields_fold_prefix)
        show "I [] no_outcome" by (simp add: I_def no_outcome_def)
      next
        fix ys c zs r assume split: "comps = ys @ c # zs" and r: "I ys r"
        have c: "c \<in> set comps" unfolding split by simp
        have "set (comp_groups c) \<subseteq> {..<length (cg_groups cg)}" using comps c unfolding components_ok_def by blast
        note over = yields_oversized [OF this]
        note sides = region_sides [OF cg comps c bs as]
        have bounded: "yields (bounded_component_stable_core before after st cg c)
          (component_result cg (comp_before c) (comp_after c)
             (matrix_of (candidate_pair before after (phase_of st) cg) (comp_before c) (comp_after c)))"
          using sides by (intro yields_bounded_component [OF wf st]) simp_all
        have "yields (if within_alignment_limit (length (comp_before c)) (length (comp_after c))
                    then bounded_component_stable_core before after st cg c
                    else oversized_alignment_ambiguities cg c) (component_outcome before after (phase_of st) cg c)"
          by (rule yields_if; rule yields_conseq [OF bounded] yields_conseq [OF over])
            (auto simp: component_outcome_def bounded_def within_alignment_limit_def)
        then show "yields (rbind (if within_alignment_limit (length (comp_before c)) (length (comp_after c))
                    then bounded_component_stable_core before after st cg c
                    else oversized_alignment_ambiguities cg c) (\<lambda>new.
               Inr \<lparr>forced = forced r @ forced new,
                        outcome_ambiguities = outcome_ambiguities r @ outcome_ambiguities new\<rparr>)) (I (ys @ [c]))"
        proof (rule yields_bind, intro yields_return)
          fix new assume new: "component_outcome before after (phase_of st) cg c new"
          obtain rs where rs: "list_all2 (component_outcome before after (phase_of st) cg) ys rs"
            "forced r = concat (map forced rs)" "outcome_ambiguities r = concat (map outcome_ambiguities rs)"
            using r unfolding I_def by blast
          then show "I (ys @ [c]) \<lparr>forced = forced r @ forced new,
                        outcome_ambiguities = outcome_ambiguities r @ outcome_ambiguities new\<rparr>"
            unfolding I_def using new by (intro exI [of _ "rs @ [new]"]) (simp add: list_all2_appendI)
        qed
      qed
      then show "yields (rbind (rfold (\<lambda>outcome c.
             rbind (if within_alignment_limit (length (comp_before c)) (length (comp_after c))
                    then bounded_component_stable_core before after st cg c
                    else oversized_alignment_ambiguities cg c) (\<lambda>new.
               Inr \<lparr>forced = forced outcome @ forced new,
                        outcome_ambiguities = outcome_ambiguities outcome @ outcome_ambiguities new\<rparr>)) no_outcome comps) (\<lambda>outcome.
           Inr (outcome\<lparr>forced := sort (forced outcome)\<rparr>))) (region_result before after (phase_of st) bs as)"
      proof (rule yields_bind, intro yields_return)
        fix r assume "I comps r"
        then obtain rs where rs: "list_all2 (component_outcome before after (phase_of st) cg) comps rs"
          "forced r = concat (map forced rs)" "outcome_ambiguities r = concat (map outcome_ambiguities rs)"
          unfolding I_def by blast
        show "region_result before after (phase_of st) bs as (r\<lparr>forced := sort (forced r)\<rparr>)"
          unfolding region_result_def
          by (rule exI [of _ cg], rule exI [of _ comps], rule exI [of _ rs]) (use cg comps rs in simp)
      qed
    qed
  qed
qed (use bs as in simp_all)

section \<open>Forced pairs have no end in common\<close>

definition one_to_one :: "(nat \<times> nat) list \<Rightarrow> bool" where
  "one_to_one ps \<longleftrightarrow> distinct (map fst ps) \<and> distinct (map snd ps)"

lemma matching_injective:
  assumes "matching c a b n m ps" "p \<in> set ps" "q \<in> set ps" "fst p = fst q \<or> snd p = snd q"
  shows "p = q"
proof -
  obtain k l where kl: "k < length ps" "p = ps ! k" "l < length ps" "q = ps ! l" using assms(2,3) by (auto simp: in_set_conv_nth)
  have below: "below (ps ! x) (ps ! y)" if "x < y" "y < length ps" for x y
    using assms(1) that by (simp add: matching_def sorted_wrt_iff_nth_less)
  show ?thesis
  proof (cases k l rule: linorder_cases)
    case less
    then show ?thesis using below [of k l] assms(4) kl by (auto simp: below_def)
  next
    case greater
    then show ?thesis using below [of l k] assms(4) kl by (auto simp: below_def)
  qed (simp add: kl)
qed

lemma one_to_one_mset: "mset ps = mset qs \<Longrightarrow> one_to_one ps \<longleftrightarrow> one_to_one qs"
  unfolding one_to_one_def by (metis mset_eq_imp_distinct_iff mset_map)

lemma component_one_to_one:
  assumes groups: "groups_ok before after phase bs as cg" and comps: "components_ok cg bs as cs" and c: "c \<in> set cs"
    and bs: "\<forall>i\<in>set bs. i < length (ps_nodes before)" "distinct bs"
    and as: "\<forall>j\<in>set as. j < length (ps_nodes after)" "distinct as"
    and r: "component_outcome before after phase cg c r"
  shows "one_to_one (forced r)" "fst ` set (forced r) \<subseteq> set (comp_before c)" "snd ` set (forced r) \<subseteq> set (comp_after c)"
proof -
  let ?bs = "comp_before c" and ?as = "comp_after c"
  let ?cands = "matrix_of (candidate_pair before after phase cg) ?bs ?as"
  define F where "F = filter (certain cg ?bs ?as ?cands) (optimal_cells ?cands (length ?bs) (length ?as))"
  have "one_to_one (forced r) \<and> fst ` set (forced r) \<subseteq> set ?bs \<and> snd ` set (forced r) \<subseteq> set ?as"
  proof (cases "bounded c")
    case False
    then show ?thesis using r by (simp add: component_outcome_def oversized_result_def one_to_one_def)
  next
    case True
    then have forced: "forced r = sort (map (pair_ids ?bs ?as) F)"
      using r by (simp add: component_outcome_def component_result_def Let_def F_def)
    obtain ps where ps: "maximum (entries ?cands) (length ?bs) (length ?as) ps"
      using prefix_best_attained [of "entries ?cands" "length ?bs" "length ?as"] by (auto simp: maximum_iff)
    then have matching: "matching (entries ?cands) 0 0 (length ?bs) (length ?as) ps" by (simp add: maximum_iff)
    have F: "set F \<subseteq> set ps" "distinct F"
      using ps optimal_cells_facts(1) by (auto simp: F_def certain_def forced_pair_def)
    have range: "fst p < length ?bs \<and> snd p < length ?as" if "p \<in> set F" for p
      using maximum_entry(2,3) [OF ps, of "fst p" "snd p"] F(1) that by auto
    have sides: "distinct ?bs" "distinct ?as"
      using region_sides(1,2) [OF groups comps c bs as] by (simp_all add: side_ok_def)
    have "inj_on (\<lambda>p. ?bs ! fst p) (set F)" "inj_on (\<lambda>p. ?as ! snd p) (set F)"
    proof -
      show "inj_on (\<lambda>p. ?bs ! fst p) (set F)"
      proof (rule inj_onI)
        fix p q assume pq: "p \<in> set F" "q \<in> set F" "?bs ! fst p = ?bs ! fst q"
        then have "fst p = fst q" using sides(1) range by (simp add: nth_eq_iff_index_eq)
        then show "p = q" using matching_injective [OF matching] pq F(1) by blast
      qed
      show "inj_on (\<lambda>p. ?as ! snd p) (set F)"
      proof (rule inj_onI)
        fix p q assume pq: "p \<in> set F" "q \<in> set F" "?as ! snd p = ?as ! snd q"
        then have "snd p = snd q" using sides(2) range by (simp add: nth_eq_iff_index_eq)
        then show "p = q" using matching_injective [OF matching] pq F(1) by blast
      qed
    qed
    then have "one_to_one (map (pair_ids ?bs ?as) F)"
      using F(2) by (simp add: one_to_one_def pair_ids_def comp_def distinct_map)
    moreover have "fst ` set (forced r) \<subseteq> set ?bs" "snd ` set (forced r) \<subseteq> set ?as"
      using range by (auto simp: forced pair_ids_def)
    ultimately show ?thesis using one_to_one_mset [of "forced r" "map (pair_ids ?bs ?as) F"] forced by simp
  qed
  then show "one_to_one (forced r)" "fst ` set (forced r) \<subseteq> set ?bs" "snd ` set (forced r) \<subseteq> set ?as" by blast+
qed

lemma one_to_one_append:
  "one_to_one (ps @ qs) \<longleftrightarrow> one_to_one ps \<and> one_to_one qs \<and> fst ` set ps \<inter> fst ` set qs = {} \<and> snd ` set ps \<inter> snd ` set qs = {}"
  by (auto simp: one_to_one_def)

lemma one_to_one_parts:
  assumes "list_all2 (\<lambda>c ps. one_to_one ps \<and> fst ` set ps \<subseteq> set (f c) \<and> snd ` set ps \<subseteq> set (g c)) cs pss"
    and "distinct (concat (map f cs))" "distinct (concat (map g cs))"
  shows "one_to_one (concat pss) \<and> fst ` set (concat pss) \<subseteq> set (concat (map f cs)) \<and>
    snd ` set (concat pss) \<subseteq> set (concat (map g cs))"
  using assms
proof (induction rule: list_all2_induct)
  case Nil
  then show ?case by (simp add: one_to_one_def)
next
  case (Cons c cs ps pss)
  let ?fs = "set (concat (map f cs))" and ?gs = "set (concat (map g cs))"
  have d: "distinct (concat (map f cs))" "set (f c) \<inter> ?fs = {}" "distinct (concat (map g cs))" "set (g c) \<inter> ?gs = {}"
    using Cons.prems by simp_all
  have IH: "one_to_one (concat pss)" "fst ` set (concat pss) \<subseteq> ?fs" "snd ` set (concat pss) \<subseteq> ?gs"
    using Cons.IH [OF d(1,3)] by blast+
  have "fst ` set ps \<inter> fst ` set (concat pss) = {}" "snd ` set ps \<inter> snd ` set (concat pss) = {}"
    using Cons.hyps(1) IH(2,3) d(2,4) by blast+
  then have "one_to_one (concat (ps # pss))" unfolding concat.simps one_to_one_append using Cons.hyps(1) IH(1) by blast
  moreover have "fst ` set (concat (ps # pss)) \<subseteq> set (concat (map f (c # cs)))"
    "snd ` set (concat (ps # pss)) \<subseteq> set (concat (map g (c # cs)))"
    unfolding concat.simps set_append image_Un list.map using Cons.hyps(1) IH(2,3) by blast+
  ultimately show ?case by blast
qed

lemma region_one_to_one:
  assumes bs: "\<forall>i\<in>set bs. i < length (ps_nodes before)" "distinct bs"
    and as: "\<forall>j\<in>set as. j < length (ps_nodes after)" "distinct as"
    and r: "region_result before after phase bs as r"
  shows "one_to_one (forced r)"
proof -
  obtain cg cs rs where g: "groups_ok before after phase bs as cg" "components_ok cg bs as cs"
    and all: "list_all2 (component_outcome before after phase cg) cs rs"
    and r: "forced r = sort (concat (map forced rs))"
    using r unfolding region_result_def by blast
  have "list_all2 (\<lambda>c ps. one_to_one ps \<and> fst ` set ps \<subseteq> set (comp_before c) \<and> snd ` set ps \<subseteq> set (comp_after c))
      cs (map forced rs)"
    unfolding list_all2_map2
    by (rule list.rel_mono_strong [OF all]) (use component_one_to_one [OF g _ bs as] in blast)
  moreover have "distinct (concat (map comp_before cs))" "distinct (concat (map comp_after cs))"
    using g(2) bs(2) as(2) unfolding components_ok_def active_def by simp_all
  ultimately have "one_to_one (concat (map forced rs))" using one_to_one_parts by blast
  then show ?thesis using one_to_one_mset [of "forced r" "concat (map forced rs)"] r by simp
qed

end
