(* ===== verification/Match_Regions.thy ===== *)
theory Match_Regions
  imports Match_Core Changes
begin

text \<open>
  What the producer looks at below one mapped pair of parents (\<open>src/matcher.rs\<close>): the unmatched children,
  \<open>unique_pairs\<close> and \<open>ordered_alignment_regions\<close> on the mapping state. The regions between the barriers
  hold every unmatched child of the two parents exactly once.
\<close>

section \<open>Unmatched children\<close>

definition unmatched_children_before :: "parsed_syntax \<Rightarrow> mapping_state \<Rightarrow> nat \<Rightarrow> nat list result" where
  "unmatched_children_before before st parent =
     rbind (index_at (ps_nodes before) parent) (\<lambda>n.
       filter_result (\<lambda>i. rbind (index_at (ms_before_to_after st) i) (\<lambda>mapped. Inr (mapped = None))) (node_children n))"

definition unmatched_children_after :: "parsed_syntax \<Rightarrow> mapping_state \<Rightarrow> nat \<Rightarrow> nat list result" where
  "unmatched_children_after after st parent =
     rbind (index_at (ps_nodes after) parent) (\<lambda>n.
       filter_result (\<lambda>j. rbind (index_at (ms_after_to_before st) j) (\<lambda>mapped. Inr (mapped = None))) (node_children n))"

definition match_unique_pairs ::
  "parsed_syntax \<Rightarrow> parsed_syntax \<Rightarrow> nat list \<Rightarrow> nat list \<Rightarrow> (syntax_node \<Rightarrow> 'k::linorder) \<Rightarrow> (nat \<times> nat) list result" where
  "match_unique_pairs before after before_ids after_ids key =
     rbind (key_buckets key before before_ids) (\<lambda>before_buckets.
     rbind (key_buckets key after after_ids) (\<lambda>after_buckets.
       Inr (List.map_filter (\<lambda>(k, before_bucket).
         case map_of after_buckets k of
           None \<Rightarrow> None
         | Some after_bucket \<Rightarrow>
             if length before_bucket = 1 \<and> length after_bucket = 1
             then Some (before_bucket ! 0, after_bucket ! 0) else None) before_buckets)))"

section \<open>Regions\<close>

definition match_exact_anchors :: "mapping_state \<Rightarrow> (nat \<rightharpoonup> nat) \<Rightarrow> nat list \<Rightarrow> (nat \<times> nat) list result" where
  "match_exact_anchors st after_positions before_children =
     rmap_filter (\<lambda>(before_position, i).
       rbind (index_at (ms_before_to_after st) i) (\<lambda>mapped.
       case mapped of
         None \<Rightarrow> Inr None
       | Some j \<Rightarrow>
           (case after_positions j of
              None \<Rightarrow> Inr None
            | Some after_position \<Rightarrow>
                rbind (index_at (facts st) i) (\<lambda>fact.
                case fact of
                  None \<Rightarrow> Inr None
                | Some f \<Rightarrow>
                    Inr (if fact_correspondence f = ModelForced \<and>
                            (fact_predicate f = ByteEqual \<or> fact_predicate f = SyntaxEqual)
                         then Some (before_position, after_position) else None)))))
       (enumerate 0 before_children)"

definition match_barriers :: "(nat \<times> nat) list \<Rightarrow> (nat \<times> nat) list" where
  "match_barriers anchors =
     filter (\<lambda>p. list_all (\<lambda>q. fst p = fst q \<or> (fst p < fst q) = (snd p < snd q)) anchors) anchors"

definition match_collect_region ::
  "mapping_state \<Rightarrow> nat list \<Rightarrow> nat list \<Rightarrow> region list \<times> nat \<times> nat \<Rightarrow> nat \<times> nat \<Rightarrow> (region list \<times> nat \<times> nat) result" where
  "match_collect_region st before_children after_children s barrier =
     (let (regions, before_start, after_start) = s; (before_end, after_end) = barrier in
      rbind (rbind (slice before_children before_start before_end)
               (filter_result (\<lambda>i. rbind (index_at (ms_before_to_after st) i) (\<lambda>mapped. Inr (mapped = None))))) (\<lambda>before_region.
      rbind (rbind (slice after_children after_start after_end)
               (filter_result (\<lambda>j. rbind (index_at (ms_after_to_before st) j) (\<lambda>mapped. Inr (mapped = None))))) (\<lambda>after_region.
        Inr (regions @ [(before_region, after_region)],
             usize_saturating_add before_end 1, usize_saturating_add after_end 1))))"

definition match_regions ::
  "parsed_syntax \<Rightarrow> parsed_syntax \<Rightarrow> mapping_state \<Rightarrow> nat \<Rightarrow> nat \<Rightarrow> region list result" where
  "match_regions before after st before_parent after_parent =
     rbind (index_at (ps_nodes before) before_parent) (\<lambda>bp.
     rbind (index_at (ps_nodes after) after_parent) (\<lambda>ap.
     let before_children = node_children bp; after_children = node_children ap in
     rbind (match_exact_anchors st (positions after_children) before_children) (\<lambda>anchors.
     rbind (rfold (match_collect_region st before_children after_children) ([], 0, 0)
              (match_barriers anchors @ [(length before_children, length after_children)])) (\<lambda>s.
       Inr (fst s)))))"

section \<open>What they return\<close>

definition free_before :: "mapping_state \<Rightarrow> nat \<Rightarrow> bool" where
  "free_before st i \<longleftrightarrow> ms_before_to_after st ! i = None"

definition free_after :: "mapping_state \<Rightarrow> nat \<Rightarrow> bool" where
  "free_after st j \<longleftrightarrow> ms_after_to_before st ! j = None"

lemma filter_free:
  assumes "state_ok to_hex before after st"
  shows "\<forall>i\<in>set xs. i < length (ps_nodes before) \<Longrightarrow>
      filter_result (\<lambda>i. rbind (index_at (ms_before_to_after st) i) (\<lambda>mapped. Inr (mapped = None))) xs = Inr (filter (free_before st) xs)"
    "\<forall>j\<in>set ys. j < length (ps_nodes after) \<Longrightarrow>
      filter_result (\<lambda>j. rbind (index_at (ms_after_to_before st) j) (\<lambda>mapped. Inr (mapped = None))) ys = Inr (filter (free_after st) ys)"
  by (rule filter_result_pure; use state_okD(1,2) [OF assms] in \<open>simp add: free_before_def free_after_def\<close>)+

lemma unmatched_children_eq:
  assumes wf: "wf_syntax before" "wf_syntax after" and st: "state_ok to_hex before after st"
    and pq: "p < length (ps_nodes before)" "q < length (ps_nodes after)"
  shows "unmatched_children_before before st p = Inr (filter (free_before st) (node_children (ps_nodes before ! p)))"
    "unmatched_children_after after st q = Inr (filter (free_after st) (node_children (ps_nodes after ! q)))"
  using wf_child(2) [OF wf(1) pq(1)] wf_child(2) [OF wf(2) pq(2)] pq
  by (simp_all add: unmatched_children_before_def unmatched_children_after_def filter_free [OF st])

lemma yields_match_unique_pairs:
  assumes bs: "\<forall>i\<in>set bs. in_arena before i" and as: "\<forall>j\<in>set as. in_arena after j"
  shows "yields (match_unique_pairs before after bs as key)
    (\<lambda>ps. \<forall>(i, j)\<in>set ps. i \<in> set bs \<and> j \<in> set as \<and> key (ps_nodes before ! i) = key (ps_nodes after ! j))"
  unfolding match_unique_pairs_def
proof (rule yields_bind [OF yields_key_buckets], use bs in blast, rule yields_bind [OF yields_key_buckets], use as in blast,
    rule yields_return)
  fix bx ax assume bx: "bucketed before key bs bx" and ax: "bucketed after key as ax"
  have mem: "i \<in> set bs \<and> key (ps_nodes before ! i) = k" if "(k, ids) \<in> set bx" "i \<in> set ids" for k ids i
  proof -
    have "ids = bucket_of before key bs k" using that(1) bx unfolding bucketed_def by blast
    then show ?thesis using that(2) by (simp add: bucket_of_iff)
  qed
  have "i \<in> set bs \<and> j \<in> set as \<and> key (ps_nodes before ! i) = key (ps_nodes after ! j)"
    if k: "(k, ids) \<in> set bx" "map_of ax k = Some js" "length ids = 1" "length js = 1" "i = ids ! 0" "j = js ! 0" for k ids js i j
  proof -
    have "i \<in> set ids" "j \<in> set js" using k by simp_all
    moreover have "js = bucket_of after key as k" using k(2) unfolding bucketed_map_of [OF ax] by (simp split: if_splits)
    ultimately show ?thesis using mem [OF k(1)] by (auto simp: bucket_of_iff)
  qed
  then show "\<forall>(i, j)\<in>set (List.map_filter (\<lambda>(k, before_bucket).
         case map_of ax k of
           None \<Rightarrow> None
         | Some after_bucket \<Rightarrow>
             if length before_bucket = 1 \<and> length after_bucket = 1
             then Some (before_bucket ! 0, after_bucket ! 0) else None) bx).
      i \<in> set bs \<and> j \<in> set as \<and> key (ps_nodes before ! i) = key (ps_nodes after ! j)"
    unfolding set_map_filter by (auto split: option.splits if_splits)
qed

text \<open>An anchor joins the positions of two mapped children.\<close>

definition anchor_ok :: "mapping_state \<Rightarrow> nat list \<Rightarrow> nat list \<Rightarrow> nat \<times> nat \<Rightarrow> bool" where
  "anchor_ok st bc ac p \<longleftrightarrow> fst p < length bc \<and> snd p < length ac \<and>
     \<not> free_before st (bc ! fst p) \<and> \<not> free_after st (ac ! snd p)"

lemma yields_match_exact_anchors:
  assumes st: "state_ok to_hex before after st" and bc: "\<forall>i\<in>set bc. i < length (ps_nodes before)"
  shows "yields (match_exact_anchors st (positions ac) bc)
    (\<lambda>xs. sorted_wrt (<) (map fst xs) \<and> (\<forall>p\<in>set xs. anchor_ok st bc ac p))"
proof -
  note len = state_okD(1,3) [OF st]
  define g :: "nat \<times> nat \<Rightarrow> (nat \<times> nat) option" where "g = (\<lambda>(x, i). case ms_before_to_after st ! i of None \<Rightarrow> None
     | Some j \<Rightarrow> (case positions ac j of None \<Rightarrow> None
       | Some y \<Rightarrow> (case facts st ! i of None \<Rightarrow> None
         | Some f \<Rightarrow> if fact_correspondence f = ModelForced \<and> (fact_predicate f = ByteEqual \<or> fact_predicate f = SyntaxEqual)
                     then Some (x, y) else None)))"
  have range: "i < length (ps_nodes before)" if "(x, i) \<in> set (enumerate 0 bc)" for x i
    using bc that by (auto simp: in_set_enumerate_eq)
  have "match_exact_anchors st (positions ac) bc = Inr (List.map_filter g (enumerate 0 bc))"
    unfolding match_exact_anchors_def
  proof (rule rmap_filter_pure)
    fix p assume p: "p \<in> set (enumerate 0 bc)"
    obtain x i where x: "p = (x, i)" by (rule prod.exhaust)
    have "i < length (ps_nodes before)" using range p unfolding x by blast
    then show "(case p of (before_position, i) \<Rightarrow>
       rbind (index_at (ms_before_to_after st) i) (\<lambda>mapped.
       case mapped of
         None \<Rightarrow> Inr None
       | Some j \<Rightarrow>
           (case positions ac j of
              None \<Rightarrow> Inr None
            | Some after_position \<Rightarrow>
                rbind (index_at (facts st) i) (\<lambda>fact.
                case fact of
                  None \<Rightarrow> Inr None
                | Some f \<Rightarrow>
                    Inr (if fact_correspondence f = ModelForced \<and>
                            (fact_predicate f = ByteEqual \<or> fact_predicate f = SyntaxEqual)
                         then Some (before_position, after_position) else None))))) = Inr (g p)"
      using len by (auto simp: x g_def split: option.split)
  qed
  moreover have "sorted_wrt (<) (map fst (List.map_filter g xs))" if "sorted_wrt (<) (map fst xs)" for xs :: "(nat \<times> nat) list"
    using that
  proof (induction xs)
    case (Cons x xs)
    have "fst y = fst x" if "g x = Some y" for x y
      using that by (auto simp: g_def split: option.splits if_splits prod.splits)
    with Cons show ?case
      by (auto simp: List.map_filter_simps set_map_filter split: option.split) (metis fst_conv)
  qed (simp add: List.map_filter_simps)
  moreover have "sorted_wrt (<) (map fst (enumerate 0 bc))" by (simp add: enumerate_eq_zip)
  moreover have "anchor_ok st bc ac (x', y)" if mem: "(x, i) \<in> set (enumerate 0 bc)" and y: "g (x, i) = Some (x', y)" for x i x' y
  proof -
    obtain j where j: "ms_before_to_after st ! i = Some j" "positions ac j = Some y" "x' = x"
      using y by (auto simp: g_def split: option.splits if_splits)
    have x: "x < length bc" "bc ! x = i" using mem by (auto simp: in_set_enumerate_eq)
    show ?thesis
      using state_okD(4) [OF st range [OF mem] j(1)] j x positions_Some [OF j(2)]
      by (auto simp: anchor_ok_def free_before_def free_after_def)
  qed
  ultimately show ?thesis by (auto simp: set_map_filter)
qed

lemma match_barriers_eq: "match_barriers anchors = filter (keeps_order anchors) anchors"
  unfolding match_barriers_def keeps_order_def list_all_iff by (rule filter_cong [OF refl]) blast

definition match_loop :: "mapping_state \<Rightarrow> nat list \<Rightarrow> nat list \<Rightarrow> (nat \<times> nat) list \<Rightarrow> region list \<times> nat \<times> nat \<Rightarrow> bool" where
  "match_loop st bc ac ys s \<longleftrightarrow> snd s = region_starts ys \<and>
     concat (map fst (fst s)) = filter (free_before st) (take (fst (snd s)) bc) \<and>
     concat (map snd (fst s)) = filter (free_after st) (take (snd (snd s)) ac)"

lemma yields_match_region_step:
  assumes st: "state_ok to_hex before after st"
    and bc: "\<forall>i\<in>set bc. i < length (ps_nodes before)" and ac: "\<forall>j\<in>set ac. j < length (ps_nodes after)"
    and short: "length bc < usize_max" "length ac < usize_max" and s: "match_loop st bc ac ys s"
    and le: "fst (region_starts ys) \<le> c" "c \<le> length bc" "snd (region_starts ys) \<le> d" "d \<le> length ac"
    and ends: "c < length bc \<and> \<not> free_before st (bc ! c) \<or> c = length bc"
      "d < length ac \<and> \<not> free_after st (ac ! d) \<or> d = length ac"
  shows "yields (match_collect_region st bc ac s (c, d)) (match_loop st bc ac (ys @ [(c, d)]))"
proof -
  obtain regions a b where s_eq: "s = (regions, a, b)" by (metis prod_cases3)
  have ab: "a \<le> c" "b \<le> d" using s le unfolding match_loop_def s_eq by (simp_all) (metis fst_conv, metis snd_conv)
  have 1: "filter_result (\<lambda>i. rbind (index_at (ms_before_to_after st) i) (\<lambda>mapped. Inr (mapped = None))) (take (c - a) (drop a bc)) =
      Inr (segment (free_before st) bc a c)"
    unfolding segment_def by (rule filter_free(1) [OF st]) (use bc in \<open>auto dest!: in_set_takeD in_set_dropD\<close>)
  have 2: "filter_result (\<lambda>j. rbind (index_at (ms_after_to_before st) j) (\<lambda>mapped. Inr (mapped = None))) (take (d - b) (drop b ac)) =
      Inr (segment (free_after st) ac b d)"
    unfolding segment_def by (rule filter_free(2) [OF st]) (use ac in \<open>auto dest!: in_set_takeD in_set_dropD\<close>)
  have "match_collect_region st bc ac s (c, d) =
      Inr (regions @ [(segment (free_before st) bc a c, segment (free_after st) ac b d)], Suc c, Suc d)"
    unfolding match_collect_region_def s_eq Let_def prod.case slice_ok [OF ab(1) le(2)] slice_ok [OF ab(2) le(4)] rbind_simps 1 2
    using saturating_suc(2) le(2,4) short by simp
  moreover have "filter (free_before st) (take a bc) @ segment (free_before st) bc a c = filter (free_before st) (take (Suc c) bc)"
    using ends(1) segment_extend [of a c bc "free_before st"] segment_finish [of a bc "free_before st"] ab(1) by auto
  moreover have "filter (free_after st) (take b ac) @ segment (free_after st) ac b d = filter (free_after st) (take (Suc d) ac)"
    using ends(2) segment_extend [of b d ac "free_after st"] segment_finish [of b ac "free_after st"] ab(2) by auto
  ultimately show ?thesis using s by (simp add: match_loop_def s_eq region_starts_def)
qed

text \<open>The regions of two parents split their free children.\<close>

definition match_regions_ok :: "parsed_syntax \<Rightarrow> parsed_syntax \<Rightarrow> mapping_state \<Rightarrow> nat \<Rightarrow> nat \<Rightarrow> region list \<Rightarrow> bool" where
  "match_regions_ok before after st p q regions \<longleftrightarrow>
     concat (map fst regions) = filter (free_before st) (node_children (ps_nodes before ! p)) \<and>
     concat (map snd regions) = filter (free_after st) (node_children (ps_nodes after ! q))"

lemma children_short:
  assumes "wf_syntax ps" "k < length (ps_nodes ps)"
  shows "length (node_children (ps_nodes ps ! k)) \<le> length (ps_nodes ps)"
proof -
  let ?c = "node_children (ps_nodes ps ! k)"
  have "set ?c \<subseteq> {..<length (ps_nodes ps)}" using wf_child(2) [OF assms] by auto
  then have "card (set ?c) \<le> card {..<length (ps_nodes ps)}" by (intro card_mono) simp_all
  then show ?thesis using wf_children_sorted(2) [OF assms] by (simp add: distinct_card)
qed

lemma yields_match_regions:
  assumes wf: "wf_syntax before" "wf_syntax after" and st: "state_ok to_hex before after st"
    and short: "length (ps_nodes before) < usize_max" "length (ps_nodes after) < usize_max"
    and pq: "p < length (ps_nodes before)" "q < length (ps_nodes after)"
  shows "yields (match_regions before after st p q) (match_regions_ok before after st p q)"
proof -
  let ?bc = "node_children (ps_nodes before ! p)" and ?ac = "node_children (ps_nodes after ! q)"
  have bc: "\<forall>i\<in>set ?bc. i < length (ps_nodes before)" using wf_child(2) [OF wf(1) pq(1)] by blast
  have ac: "\<forall>j\<in>set ?ac. j < length (ps_nodes after)" using wf_child(2) [OF wf(2) pq(2)] by blast
  have len: "length ?bc < usize_max" "length ?ac < usize_max"
    using children_short [OF wf(1) pq(1)] children_short [OF wf(2) pq(2)] short by simp_all
  have loop: "yields (rfold (match_collect_region st ?bc ?ac) ([], 0, 0) (match_barriers anchors @ [(length ?bc, length ?ac)]))
      (match_loop st ?bc ?ac (match_barriers anchors @ [(length ?bc, length ?ac)]))"
    if a: "sorted_wrt (<) (map fst anchors) \<and> (\<forall>p\<in>set anchors. anchor_ok st ?bc ?ac p)" for anchors
  proof -
    let ?ends = "match_barriers anchors @ [(length ?bc, length ?ac)]"
    have barrier: "anchor_ok st ?bc ?ac x" if "x \<in> set (match_barriers anchors)" for x
      using a that by (simp add: match_barriers_eq)
    have sorted: "sorted_wrt strictly_below ?ends"
      using barriers_increasing [of anchors] a barrier unfolding match_barriers_eq [symmetric]
      by (auto simp: sorted_wrt_append strictly_below_def anchor_ok_def)
    show ?thesis
    proof (rule yields_fold_prefix)
      show "match_loop st ?bc ?ac [] ([], 0, 0)" by (simp add: match_loop_def region_starts_def)
    next
      fix ys x zs s assume split: "?ends = ys @ x # zs" and s: "match_loop st ?bc ?ac ys s"
      obtain c d where x: "x = (c, d)" by (cases x)
      have "(c, d) \<in> set ?ends" unfolding split x by simp
      then have ends: "c < length ?bc \<and> \<not> free_before st (?bc ! c) \<or> c = length ?bc"
        "d < length ?ac \<and> \<not> free_after st (?ac ! d) \<or> d = length ?ac"
        using barrier [of "(c, d)"] by (auto simp: anchor_ok_def)
      have starts: "fst (region_starts ys) \<le> c" "snd (region_starts ys) \<le> d"
      proof -
        have "strictly_below (last ys) (c, d)" if "ys \<noteq> []"
          using sorted that unfolding split x by (simp add: sorted_wrt_append)
        then show "fst (region_starts ys) \<le> c" "snd (region_starts ys) \<le> d"
          by (auto simp: region_starts_def strictly_below_def)
      qed
      show "yields (match_collect_region st ?bc ?ac s x) (match_loop st ?bc ?ac (ys @ [x]))"
        unfolding x by (rule yields_match_region_step [OF st bc ac len s starts(1) _ starts(2) _ ends]) (use ends in auto)
    qed
  qed
  show ?thesis
    unfolding match_regions_def index_at_ok [OF pq(1)] index_at_ok [OF pq(2)] rbind_simps Let_def
    by (rule yields_bind [OF yields_match_exact_anchors [OF st bc]], rule yields_bind [OF loop], assumption)
      (simp add: match_loop_def region_starts_def match_regions_ok_def)
qed

end
