(* ===== verification/Matcher.thy ===== *)
theory Matcher
  imports Match_Regions
begin

text \<open>
  \<open>match_trees\<close> (\<open>src/matcher.rs\<close>): the input pair, the global exact anchors, the worklist of
  \<open>add_local_relations\<close> over the relations found so far, and \<open>derive_changes\<close>. The hash maps are iterated in an
  unspecified order, the parameter \<open>order\<close>.

  The producer always returns: no index, assertion, \<open>expect\<close> or subtraction of it fails and the
  worklist ends; what it returns is what the verifier demands of the relations of a report, and the changes are
  those that the verifier derives again.
\<close>

section \<open>Global exact anchors\<close>

definition match_exact_index :: "parsed_syntax \<Rightarrow> exact_buckets" where
  "match_exact_index s =
     foldl (\<lambda>bs node. if node_id node \<noteq> ps_root s \<and> node_subtree_size node \<ge> 3
        then assoc_push (global_key node) (node_id node) bs else bs) [] (ps_nodes s)"

definition global_candidates ::
  "parsed_syntax \<Rightarrow> exact_buckets \<Rightarrow> exact_buckets \<Rightarrow> (nat \<times> nat \<times> nat) list result" where
  "global_candidates before before_index after_index =
     rmap_filter (\<lambda>(key, before_ids).
       case map_of after_index key of
         None \<Rightarrow> Inr None
       | Some after_ids \<Rightarrow>
           if length before_ids = 1 \<and> length after_ids = 1 then
             rbind (index_at before_ids 0) (\<lambda>i.
             rbind (index_at (ps_nodes before) i) (\<lambda>n.
             rbind (index_at after_ids 0) (\<lambda>j. Inr (Some (node_subtree_size n, i, j)))))
           else Inr None) before_index"

text \<open>\<open>sort_by_key(|(size, before_id, after_id)| (Reverse(*size), *before_id, *after_id))\<close>\<close>

definition largest_first :: "nat \<times> nat \<times> nat \<Rightarrow> int \<times> nat \<times> nat" where
  "largest_first c = (- int (fst c), fst (snd c), snd (snd c))"

definition add_global_exact_anchors ::
  "(exact_buckets \<Rightarrow> exact_buckets) \<Rightarrow> (bytes \<Rightarrow> string) \<Rightarrow> parsed_syntax \<Rightarrow> parsed_syntax \<Rightarrow> mapping_state \<Rightarrow> mapping_state result" where
  "add_global_exact_anchors order to_hex before after st =
     rbind (global_candidates before (order (match_exact_index before)) (match_exact_index after)) (\<lambda>candidates.
       rfold (\<lambda>st (_, i, j).
         rbind (index_at (ms_before_to_after st) i) (\<lambda>mapped.
         if mapped = Some j then Inr st
         else rbind (map_equal_subtree to_hex before after ''globally_unique_identical_syntax_subtree'' i j st) (\<lambda>(_, st). Inr st)))
         st (sort_key largest_first candidates))"

section \<open>Local relations\<close>

record local_scan =
  ls_state :: mapping_state
  ls_ambiguities :: "ambiguity_group list"
  ls_before :: "nat set"
  ls_after :: "nat set"

definition map_exact_pairs ::
  "(bytes \<Rightarrow> string) \<Rightarrow> parsed_syntax \<Rightarrow> parsed_syntax \<Rightarrow> (nat \<times> nat) list \<Rightarrow> mapping_state \<Rightarrow> mapping_state result" where
  "map_exact_pairs to_hex before after pairs st =
     rfold (\<lambda>st (i, j). rbind (map_equal_subtree to_hex before after ''unique_identical_child_under_mapped_parent'' i j st)
       (\<lambda>(_, st). Inr st)) st pairs"

definition map_forced_pairs ::
  "(bytes \<Rightarrow> string) \<Rightarrow> parsed_syntax \<Rightarrow> parsed_syntax \<Rightarrow> (nat \<times> nat) list \<Rightarrow> mapping_state \<Rightarrow> mapping_state result" where
  "map_forced_pairs to_hex before after pairs st =
     rfold (\<lambda>st (i, j). rbind (map_pair to_hex before after i j ShapeEqual ModelForced
         [''bounded_ordered_child_alignment_v1'', ''pair_present_in_every_optimal_alignment'',
          ''recursive_shape_equality_check'', ''not_a_historical_identity_claim''] st) (\<lambda>(mapped, st).
       rbind (debug_assert mapped) (\<lambda>_. Inr st))) st pairs"

definition record_ambiguity ::
  "(bytes \<Rightarrow> string) \<Rightarrow> parsed_syntax \<Rightarrow> parsed_syntax \<Rightarrow> nat \<times> nat \<Rightarrow> local_scan \<Rightarrow> alignment_ambiguity \<Rightarrow> local_scan result" where
  "record_ambiguity to_hex before after parents s a =
     rbind (rmap (\<lambda>i. rbind (index_at (ps_nodes before) i) (\<lambda>n. Inr (as_ref to_hex n))) (amb_before a)) (\<lambda>bs.
     rbind (rmap (\<lambda>j. rbind (index_at (ps_nodes after) j) (\<lambda>n. Inr (as_ref to_hex n))) (amb_after a)) (\<lambda>as.
       Inr (s\<lparr>ls_before := ls_before s \<union> set (amb_before a), ls_after := ls_after s \<union> set (amb_after a),
              ls_ambiguities := ls_ambiguities s @
                [\<lparr>parent_before = fst parents, parent_after = snd parents, group_before = bs, group_after = as,
                  constraint = amb_constraint a, reason = amb_reason a\<rparr>]\<rparr>)))"

definition align_region ::
  "(bytes \<Rightarrow> string) \<Rightarrow> parsed_syntax \<Rightarrow> parsed_syntax \<Rightarrow> nat \<times> nat \<Rightarrow> local_scan \<Rightarrow> region \<Rightarrow> local_scan result" where
  "align_region to_hex before after parents s r =
     rbind (bounded_ordered_stable_core before after (ls_state s) (fst r) (snd r)) (\<lambda>alignment.
     rbind (map_forced_pairs to_hex before after (forced alignment) (ls_state s)) (\<lambda>st.
       rfold (record_ambiguity to_hex before after parents) (s\<lparr>ls_state := st\<rparr>) (outcome_ambiguities alignment)))"

definition visit_relation ::
  "(bytes \<Rightarrow> string) \<Rightarrow> parsed_syntax \<Rightarrow> parsed_syntax \<Rightarrow> nat \<Rightarrow> local_scan \<Rightarrow> local_scan result" where
  "visit_relation to_hex before after cursor s =
     rbind (index_at (ms_relations (ls_state s)) cursor) (\<lambda>r.
     let before_parent = before_id r; after_parent = after_id r in
     rbind (unmatched_children_before before (ls_state s) before_parent) (\<lambda>before_children.
     rbind (unmatched_children_after after (ls_state s) after_parent) (\<lambda>after_children.
     rbind (match_unique_pairs before after before_children after_children exact_key) (\<lambda>exact_pairs.
     rbind (map_exact_pairs to_hex before after exact_pairs (ls_state s)) (\<lambda>st.
     rbind (match_regions before after st before_parent after_parent) (\<lambda>regions.
       rfold (align_region to_hex before after (before_parent, after_parent)) (s\<lparr>ls_state := st\<rparr>) regions))))))"

text \<open>\<open>while cursor < state.relations.len()\<close>: every relation is visited, those found on the way too.\<close>

fun visit_relations_fuel ::
  "nat \<Rightarrow> (bytes \<Rightarrow> string) \<Rightarrow> parsed_syntax \<Rightarrow> parsed_syntax \<Rightarrow> nat \<Rightarrow> local_scan \<Rightarrow> local_scan result" where
  "visit_relations_fuel 0 to_hex before after cursor s = Inl Diverges"
| "visit_relations_fuel (Suc fuel) to_hex before after cursor s =
     (if cursor < length (ms_relations (ls_state s)) then
        rbind (visit_relation to_hex before after cursor s) (\<lambda>s.
          visit_relations_fuel fuel to_hex before after (cursor + 1) s)
      else Inr s)"

definition add_local_relations ::
  "(bytes \<Rightarrow> string) \<Rightarrow> parsed_syntax \<Rightarrow> parsed_syntax \<Rightarrow> mapping_state \<Rightarrow> local_scan result" where
  "add_local_relations to_hex before after st =
     rbind (visit_relations_fuel (Suc (length (ps_nodes before))) to_hex before after 0
              \<lparr>ls_state = st, ls_ambiguities = [], ls_before = {}, ls_after = {}\<rparr>) (\<lambda>s.
       Inr (s\<lparr>ls_ambiguities := sort_key ambiguity_key (ls_ambiguities s)\<rparr>))"

section \<open>Changes\<close>

definition mapped_of :: "mapping_state \<Rightarrow> (nat \<times> nat) list" where
  "mapped_of st = List.map_filter (\<lambda>(i, a). map_option (Pair i) a) (enumerate 0 (ms_before_to_after st))"

definition match_order_change ::
  "(bytes \<Rightarrow> string) \<Rightarrow> parsed_syntax \<Rightarrow> parsed_syntax \<Rightarrow> mapping_state \<Rightarrow> structural_change list \<Rightarrow> nat \<times> nat \<Rightarrow>
   structural_change list result" where
  "match_order_change to_hex before after st cs parents =
     rbind (index_at (ps_nodes after) (snd parents)) (\<lambda>ap.
     rbind (index_at (ps_nodes before) (fst parents)) (\<lambda>bp.
     rbind (rmap_filter (\<lambda>c. rbind (index_at (ms_before_to_after st) c) (\<lambda>mapped.
              case mapped of
                None \<Rightarrow> Inr None
              | Some d \<Rightarrow> rbind (index_at (ps_nodes after) d) (\<lambda>n.
                  if node_parent n \<noteq> Some (snd parents) then Inr None
                  else Inr (positions (node_children ap) d)))) (node_children bp)) (\<lambda>mapped_positions.
     if descends mapped_positions then
       rbind (pair_change to_hex before after ChildOrderChanged DETAIL_ORDER (fst parents) (snd parents)) (\<lambda>c. Inr (cs @ [c]))
     else Inr cs)))"

definition match_relocated :: "mapping_state \<Rightarrow> mapping_fact \<Rightarrow> nat option \<Rightarrow> nat option \<Rightarrow> bool result" where
  "match_relocated st f before_parent after_parent =
     (if fact_correspondence f = ModelForced \<and> (fact_predicate f = ByteEqual \<or> fact_predicate f = SyntaxEqual)
      then (case before_parent of
              None \<Rightarrow> Inr False
            | Some p \<Rightarrow> if after_parent = None then Inr False
                        else rbind (index_at (ms_before_to_after st) p) (\<lambda>mapped. Inr (mapped \<noteq> None \<and> mapped \<noteq> after_parent)))
      else Inr False)"

definition match_parent_shape :: "mapping_state \<Rightarrow> nat option \<Rightarrow> bool result" where
  "match_parent_shape st before_parent =
     (case before_parent of
        None \<Rightarrow> Inr False
      | Some p \<Rightarrow> rbind (index_at (facts st) p) (\<lambda>fact.
          Inr (case fact of None \<Rightarrow> False | Some f \<Rightarrow> fact_predicate f = ShapeEqual)))"

definition match_pair_change ::
  "(bytes \<Rightarrow> string) \<Rightarrow> parsed_syntax \<Rightarrow> parsed_syntax \<Rightarrow> mapping_state \<Rightarrow> structural_change list \<Rightarrow> nat \<times> nat \<Rightarrow>
   structural_change list result" where
  "match_pair_change to_hex before after st cs p =
     (let i = fst p; j = snd p in
      rbind (index_at (facts st) i) (\<lambda>fact.
      rbind (of_option Panic fact) (\<lambda>f.
      rbind (index_at (ps_nodes before) i) (\<lambda>b.
      rbind (index_at (ps_nodes after) j) (\<lambda>a.
      rbind (match_relocated st f (node_parent b) (node_parent a)) (\<lambda>moved.
      rbind (if moved then rbind (pair_change to_hex before after EquivalentRelocation DETAIL_RELOCATION i j) (\<lambda>c. Inr (cs @ [c]))
             else Inr cs) (\<lambda>cs.
      rbind (if fact_predicate f = ShapeEqual then
               rbind (syntax_equal before i after j) (\<lambda>same.
               if same then Inr False
               else rbind (match_parent_shape st (node_parent b)) (\<lambda>shape. Inr (\<not> shape)))
             else Inr False) (\<lambda>update.
      if \<not> update then Inr cs
      else (case fact_correspondence f of
          ModelForced \<Rightarrow> rbind (pair_change to_hex before after ModelForcedUpdate DETAIL_UPDATE i j) (\<lambda>c. Inr (cs @ [c]))
        | Suggested \<Rightarrow> rbind (pair_change to_hex before after SuggestedUpdate DETAIL_SUGGESTED i j) (\<lambda>c. Inr (cs @ [c]))
        | CorrInputPair \<Rightarrow> Inr cs)))))))))"

definition match_derive_changes ::
  "(bytes \<Rightarrow> string) \<Rightarrow> parsed_syntax \<Rightarrow> parsed_syntax \<Rightarrow> mapping_state \<Rightarrow> nat set \<Rightarrow> nat set \<Rightarrow> structural_change list result" where
  "match_derive_changes to_hex before after st ambiguous_b ambiguous_a =
     rbind (syntax_equal before (ps_root before) after (ps_root after)) (\<lambda>same.
     rbind (if same \<and> ps_source before \<noteq> ps_source after
            then rbind (pair_change to_hex before after FormattingOnly DETAIL_FORMATTING (ps_root before) (ps_root after)) (\<lambda>c. Inr [c])
            else Inr []) (\<lambda>cs.
     rbind (rfold (match_order_change to_hex before after st) cs (mapped_of st)) (\<lambda>cs.
     rbind (rfold (match_pair_change to_hex before after st) cs (filter (\<lambda>p. fst p \<noteq> ps_root before) (mapped_of st))) (\<lambda>cs.
     rbind (filter_result (unmatched (ms_before_to_after st) ambiguous_b) (drop 1 (ps_nodes before))) (\<lambda>deleted.
     rbind (filter_result (unmatched (ms_after_to_before st) ambiguous_a) (drop 1 (ps_nodes after))) (\<lambda>inserted.
       Inr (sort_key change_order (cs @ map (delete_change to_hex) deleted @ map (insert_change to_hex) inserted))))))))"

section \<open>The producer\<close>

record match_result =
  mr_relations :: "relation list"
  mr_ambiguities :: "ambiguity_group list"
  mr_changes :: "structural_change list"

definition match_trees ::
  "(exact_buckets \<Rightarrow> exact_buckets) \<Rightarrow> (bytes \<Rightarrow> string) \<Rightarrow> parsed_syntax \<Rightarrow> parsed_syntax \<Rightarrow> match_result result" where
  "match_trees order to_hex before after =
     rbind (map_pair to_hex before after (ps_root before) (ps_root after) PredInputPair CorrInputPair
              [''caller_supplied_file_pair''] (mapping_state_new before after)) (\<lambda>(_, st).
     rbind (add_global_exact_anchors order to_hex before after st) (\<lambda>st.
     rbind (add_local_relations to_hex before after st) (\<lambda>s.
     rbind (match_derive_changes to_hex before after (ls_state s) (ls_before s) (ls_after s)) (\<lambda>cs.
       Inr \<lparr>mr_relations = sort_key before_id (ms_relations (ls_state s)), mr_ambiguities = ls_ambiguities s,
            mr_changes = cs\<rparr>))))"

end
