(* ===== verification/Match_Evidence.thy ===== *)
theory Match_Evidence
  imports Match_State
begin

text \<open>
  The evidence that the producer attaches to its exact relations (\<open>src/matcher.rs\<close>), as an invariant of the mapping state: it is
  what \<open>verify_exact_anchor_evidence\<close> certifies. Adding relations never takes evidence away, so each phase only has to justify the
  relations it adds.
\<close>

text \<open>Every relation with the evidence of an exact match is exact; a global anchor is unique on both sides, a local one lies below a related
  pair of parents, and a descendant is reached from an anchor.\<close>

definition evidence_ok :: "parsed_syntax \<Rightarrow> parsed_syntax \<Rightarrow> relation set \<Rightarrow> relation \<Rightarrow> bool" where
  "evidence_ok before after A r \<longleftrightarrow>
     (rel_evidence r \<in> {GLOBAL_ANCHOR_EVIDENCE, LOCAL_ANCHOR_EVIDENCE, EXACT_DESCENDANT_EVIDENCE} \<longrightarrow> is_exact_relation r) \<and>
     (rel_evidence r = GLOBAL_ANCHOR_EVIDENCE \<longrightarrow> globally_unique before after (before_id r) (after_id r)) \<and>
     (rel_evidence r = LOCAL_ANCHOR_EVIDENCE \<longrightarrow> (\<exists>q\<in>A. node_parent (ps_nodes before ! before_id r) = Some (before_id q) \<and>
        node_parent (ps_nodes after ! after_id r) = Some (after_id q))) \<and>
     (rel_evidence r = EXACT_DESCENDANT_EVIDENCE \<longrightarrow> (\<exists>q\<in>A. rel_evidence q \<in> {GLOBAL_ANCHOR_EVIDENCE, LOCAL_ANCHOR_EVIDENCE} \<and>
        isomorphic_path before after (before_id q) (after_id q) (before_id r) (after_id r)))"

definition evidenced :: "parsed_syntax \<Rightarrow> parsed_syntax \<Rightarrow> mapping_state \<Rightarrow> bool" where
  "evidenced before after st \<longleftrightarrow> (\<forall>r\<in>set (ms_relations st). evidence_ok before after (set (ms_relations st)) r)"

lemma evidence_ok_mono: "evidence_ok before after A r \<Longrightarrow> A \<subseteq> B \<Longrightarrow> evidence_ok before after B r"
  unfolding evidence_ok_def by blast

lemma evidenced_extend:
  assumes "evidenced before after st" "set (ms_relations st) \<subseteq> set (ms_relations st')"
    and "\<And>r. r \<in> set (ms_relations st') \<Longrightarrow> r \<notin> set (ms_relations st) \<Longrightarrow> evidence_ok before after (set (ms_relations st')) r"
  shows "evidenced before after st'"
  using assms evidence_ok_mono unfolding evidenced_def by metis

lemma grows_subset: "grows st st' \<Longrightarrow> set (ms_relations st) \<subseteq> set (ms_relations st')"
  by (auto simp: grows_def)

lemma evidence_labels:
  "GLOBAL_ANCHOR_EVIDENCE \<noteq> LOCAL_ANCHOR_EVIDENCE" "GLOBAL_ANCHOR_EVIDENCE \<noteq> EXACT_DESCENDANT_EVIDENCE"
  "LOCAL_ANCHOR_EVIDENCE \<noteq> EXACT_DESCENDANT_EVIDENCE" "STABLE_CORE_EVIDENCE \<noteq> GLOBAL_ANCHOR_EVIDENCE"
  "STABLE_CORE_EVIDENCE \<noteq> LOCAL_ANCHOR_EVIDENCE" "STABLE_CORE_EVIDENCE \<noteq> EXACT_DESCENDANT_EVIDENCE"
  "INPUT_PAIR_EVIDENCE \<noteq> GLOBAL_ANCHOR_EVIDENCE" "INPUT_PAIR_EVIDENCE \<noteq> LOCAL_ANCHOR_EVIDENCE"
  "INPUT_PAIR_EVIDENCE \<noteq> EXACT_DESCENDANT_EVIDENCE"
  by (simp_all add: GLOBAL_ANCHOR_EVIDENCE_def LOCAL_ANCHOR_EVIDENCE_def EXACT_DESCENDANT_EVIDENCE_def STABLE_CORE_EVIDENCE_def
      INPUT_PAIR_EVIDENCE_def)

text \<open>The relation of a mapped pair.\<close>

lemma mapped_relation:
  assumes "state_ok to_hex before after st" "i < length (ps_nodes before)" "ms_before_to_after st ! i = Some j"
  obtains r where "r \<in> set (ms_relations st)" "before_id r = i" "after_id r = j"
  using state_okD(4) [OF assms] by blast

text \<open>Mapping a subtree from a new anchor keeps the evidence in order: what is below the anchor is certified by it, or by the anchor that
  mapped it before.\<close>

lemma subtree_mapped_evidenced:
  assumes wf: "wf_syntax before" and m: "subtree_mapped to_hex before after ev i j st st'" and ok: "evidenced before after st"
    and i: "i < length (ps_nodes before)" "ms_before_to_after st' ! i = Some j"
    and ev: "ev = GLOBAL_ANCHOR_EVIDENCE \<and> globally_unique before after i j \<or>
      ev = LOCAL_ANCHOR_EVIDENCE \<and> (\<exists>q\<in>set (ms_relations st). node_parent (ps_nodes before ! i) = Some (before_id q) \<and>
        node_parent (ps_nodes after ! j) = Some (after_id q))"
    and old: "\<And>q. q \<in> set (ms_relations st) \<Longrightarrow> before_id q = i \<Longrightarrow> after_id q = j \<Longrightarrow>
      rel_evidence q \<in> {GLOBAL_ANCHOR_EVIDENCE, LOCAL_ANCHOR_EVIDENCE, EXACT_DESCENDANT_EVIDENCE}"
  shows "evidenced before after st'"
proof (rule evidenced_extend [OF ok])
  have grow: "grows st st'" "exact_growth before after ev i j st st'" and st': "state_ok to_hex before after st'"
    using m by (simp_all add: subtree_mapped_def)
  then show sub: "set (ms_relations st) \<subseteq> set (ms_relations st')" using grows_subset by blast
  obtain q where q: "q \<in> set (ms_relations st')" "before_id q = i" "after_id q = j"
    by (rule mapped_relation [OF st' i])
  have below: "\<exists>p\<in>set (ms_relations st'). rel_evidence p \<in> {GLOBAL_ANCHOR_EVIDENCE, LOCAL_ANCHOR_EVIDENCE} \<and>
      isomorphic_path before after (before_id p) (after_id p) x y" if path: "isomorphic_path before after i j x y" for x y
  proof (cases "q \<in> set (ms_relations st)")
    case True
    note lab = old [OF True q(2,3)]
    show ?thesis
    proof (cases "rel_evidence q = EXACT_DESCENDANT_EVIDENCE")
      case True
      then obtain p where p: "p \<in> set (ms_relations st)" "rel_evidence p \<in> {GLOBAL_ANCHOR_EVIDENCE, LOCAL_ANCHOR_EVIDENCE}"
        "isomorphic_path before after (before_id p) (after_id p) i j"
        using ok \<open>q \<in> set (ms_relations st)\<close> q(2,3) unfolding evidenced_def evidence_ok_def by blast
      have "isomorphic_path before after (before_id p) (after_id p) x y"
        using p(3) path by (rule isomorphic_path_trans)
      then show ?thesis using p(1,2) sub by blast
    next
      case False
      then show ?thesis using lab q path by blast
    qed
  next
    case False
    then have "rel_evidence q = ev \<or> isomorphic_path before after i j i j"
      using grow(2) q unfolding exact_growth_def by metis
    moreover have "\<not> isomorphic_path before after i j i j" using isomorphic_path_below [OF wf _ i(1)] by blast
    ultimately show ?thesis using q path ev by blast
  qed
  fix r assume r: "r \<in> set (ms_relations st')" "r \<notin> set (ms_relations st)"
  then consider "is_exact_relation r" "before_id r = i" "after_id r = j" "rel_evidence r = ev"
    | "is_exact_relation r" "isomorphic_path before after i j (before_id r) (after_id r)" "rel_evidence r = EXACT_DESCENDANT_EVIDENCE"
    using grow(2) unfolding exact_growth_def by blast
  then show "evidence_ok before after (set (ms_relations st')) r"
  proof cases
    case 1
    then show ?thesis using ev sub evidence_labels unfolding evidence_ok_def by (elim disjE) auto
  next
    case 2
    then show ?thesis using below [OF 2(2)] evidence_labels unfolding evidence_ok_def by auto
  qed
qed

end
