(* ===== verification/Matcher_Anchors.thy ===== *)
theory Matcher_Anchors
  imports Matcher Match_Evidence
begin

text \<open>
  The first phase of the producer, \<open>add_global_exact_anchors\<close> (\<open>src/matcher.rs\<close>). The candidates are the pairs that are unique on
  both sides, in an order that does not depend on the hash map. The phase returns, every relation it adds has its evidence, and no
  unique pair of equal subtrees is left out: the larger candidates come first, and none of them stands in the way of a
  smaller one.
\<close>

section \<open>The global anchors\<close>

lemma match_exact_index_ok:
  assumes wf: "wf_syntax s"
  shows "indexes s (match_exact_index s)"
proof -
  define part where "part n key = filter (\<lambda>i. i \<noteq> ps_root s \<and> node_subtree_size (ps_nodes s ! i) \<ge> 3 \<and>
     global_key (ps_nodes s ! i) = key) [0..<n]" for n key
  define I where "I n bs \<longleftrightarrow> distinct (map fst bs) \<and>
     (\<forall>k ids. (k, ids) \<in> set bs \<longleftrightarrow> ids = part n k \<and> ids \<noteq> [])" for n :: nat and bs :: exact_buckets
  let ?push = "\<lambda>bs node. if node_id node \<noteq> ps_root s \<and> node_subtree_size node \<ge> 3
        then assoc_push (global_key node) (node_id node) bs else bs"
  have "I n (foldl ?push [] (take n (ps_nodes s)))" if "n \<le> length (ps_nodes s)" for n
    using that
  proof (induction n)
    case 0
    show ?case by (simp add: I_def part_def)
  next
    case (Suc n)
    let ?n = "ps_nodes s ! n" and ?bs = "foldl ?push [] (take n (ps_nodes s))"
    have id: "node_id ?n = n" using Suc.prems wf_node_id [OF wf, of n] by simp
    have d: "distinct (map fst ?bs)" and bs: "\<And>l js. (l, js) \<in> set ?bs \<longleftrightarrow> js = part n l \<and> js \<noteq> []"
      using Suc unfolding I_def by (blast dest: Suc_leD)+
    have "I (Suc n) (?push ?bs ?n)"
    proof (cases "node_id ?n \<noteq> ps_root s \<and> node_subtree_size ?n \<ge> 3")
      case True
      have "part (Suc n) l = (if l = global_key ?n then part n l @ [node_id ?n] else part n l)" for l
        using True id by (auto simp: part_def)
      then show ?thesis
        using True assoc_push_distinct [OF d] assoc_push_buckets [OF d bs, of _ _ "global_key ?n" "node_id ?n"]
        unfolding I_def by presburger
    next
      case False
      then have "part (Suc n) l = part n l" for l using id by (auto simp: part_def)
      then show ?thesis using False d bs unfolding I_def by presburger
    qed
    then show ?case using Suc.prems by (simp add: take_Suc_conv_app_nth)
  qed
  from this [of "length (ps_nodes s)"] show ?thesis
    by (simp add: I_def indexes_def global_bucket_def part_def match_exact_index_def)
qed

text \<open>A candidate: the only node with its key on either side.\<close>

definition candidate_of :: "parsed_syntax \<Rightarrow> exact_buckets \<Rightarrow> (string \<times> bytes) \<times> nat list \<Rightarrow> (nat \<times> nat \<times> nat) option" where
  "candidate_of before after_index e =
     (case map_of after_index (fst e) of
        None \<Rightarrow> None
      | Some after_ids \<Rightarrow>
          if length (snd e) = 1 \<and> length after_ids = 1
          then Some (node_subtree_size (ps_nodes before ! (snd e ! 0)), snd e ! 0, after_ids ! 0) else None)"

definition reordering :: "('a list \<Rightarrow> 'a list) \<Rightarrow> bool" where
  "reordering order \<longleftrightarrow> (\<forall>xs. mset (order xs) = mset xs)"

lemma global_bucket_range: "i \<in> set (global_bucket s k) \<Longrightarrow> i < length (ps_nodes s)"
  by (simp add: global_bucket_def)

lemma if_Some_iff: "(if b then Some x else None) = Some y \<longleftrightarrow> b \<and> x = y"
  by simp

lemma candidate_of_range:
  assumes wf: "wf_syntax before" "wf_syntax after" and e: "e \<in> set (match_exact_index before)"
    and c: "candidate_of before (match_exact_index after) e = Some (n, i, j)"
  shows "i < length (ps_nodes before)" "j < length (ps_nodes after)" "global_bucket before (fst e) = [i]"
    "global_bucket after (fst e) = [j]" "n = node_subtree_size (ps_nodes before ! i)"
proof -
  obtain js where js: "map_of (match_exact_index after) (fst e) = Some js" "length (snd e) = 1" "length js = 1"
    "n = node_subtree_size (ps_nodes before ! (snd e ! 0))" "i = snd e ! 0" "j = js ! 0"
  proof (cases "map_of (match_exact_index after) (fst e)")
    case (Some js)
    have "(length (snd e) = 1 \<and> length js = 1) \<and> node_subtree_size (ps_nodes before ! (snd e ! 0)) = n \<and> snd e ! 0 = i \<and> js ! 0 = j"
      using c unfolding candidate_of_def Some option.case if_Some_iff prod.inject .
    then show ?thesis by (elim conjE) (rule that [OF Some], assumption+, (erule sym)+)
  qed (use c in \<open>simp add: candidate_of_def\<close>)
  have single: "length xs = 1 \<Longrightarrow> xs = [xs ! 0]" for xs :: "nat list" by (cases xs) auto
  have "(fst e, snd e) \<in> set (match_exact_index before)" using e by simp
  then have "snd e = global_bucket before (fst e)" using indexes_entry [OF match_exact_index_ok [OF wf(1)]] by blast
  then show b: "global_bucket before (fst e) = [i]" using single [OF js(2)] unfolding js(5) by argo
  have "js = global_bucket after (fst e)"
    using js(1) indexes_map_of [OF match_exact_index_ok [OF wf(2)], of "fst e"] by (simp split: if_splits)
  then show a: "global_bucket after (fst e) = [j]" using single [OF js(3)] unfolding js(6) by argo
  show "i < length (ps_nodes before)" "j < length (ps_nodes after)"
    using global_bucket_range [of i before "fst e"] global_bucket_range [of j after "fst e"] a b by simp_all
  show "n = node_subtree_size (ps_nodes before ! i)" unfolding js(4,5) ..
qed

lemma global_candidates_eq:
  assumes wf: "wf_syntax before" "wf_syntax after" and sub: "set xs \<subseteq> set (match_exact_index before)"
  shows "global_candidates before xs (match_exact_index after) =
    Inr (List.map_filter (candidate_of before (match_exact_index after)) xs)"
  unfolding global_candidates_def
proof (rule rmap_filter_pure)
  fix e assume e: "e \<in> set xs"
  obtain k ids where k: "e = (k, ids)" by (rule prod.exhaust)
  have "ids = global_bucket before k"
    using indexes_entry [OF match_exact_index_ok [OF wf(1)], of k ids] e sub k by auto
  then have "ids ! 0 < length (ps_nodes before)" if "length ids = 1"
    using that global_bucket_range [of "ids ! 0" before k] by (simp add: nth_mem)
  then show "(case e of (key, before_ids) \<Rightarrow>
       case map_of (match_exact_index after) key of
         None \<Rightarrow> Inr None
       | Some after_ids \<Rightarrow>
           if length before_ids = 1 \<and> length after_ids = 1 then
             rbind (index_at before_ids 0) (\<lambda>i.
             rbind (index_at (ps_nodes before) i) (\<lambda>n.
             rbind (index_at after_ids 0) (\<lambda>j. Inr (Some (node_subtree_size n, i, j)))))
           else Inr None) = Inr (candidate_of before (match_exact_index after) e)"
    by (auto simp: k candidate_of_def split: option.split)
qed

lemma mset_map_filter: "mset xs = mset ys \<Longrightarrow> mset (List.map_filter f xs) = mset (List.map_filter f ys)"
  by (simp add: List.map_filter_def mset_map mset_filter)

text \<open>The sort key tells the candidates apart, so their order does not depend on the hash map.\<close>

lemma sorted_candidates:
  assumes "mset xs = mset ys"
  shows "sort_key largest_first xs = sort_key largest_first ys"
proof (rule properties_for_sort_key)
  show "mset (sort_key largest_first ys) = mset xs" using assms by simp
  show "filter (\<lambda>x. largest_first k = largest_first x) (sort_key largest_first ys) =
      filter (\<lambda>x. largest_first k = largest_first x) xs" if "k \<in> set (sort_key largest_first ys)" for k
  proof -
    have "largest_first k = largest_first x \<longleftrightarrow> k = x" for x
      by (cases k; cases x) (auto simp: largest_first_def)
    moreover have "filter ((=) k) zs = replicate (count (mset zs) k) k" for zs :: "(nat \<times> nat \<times> nat) list"
      by (induction zs) auto
    ultimately show ?thesis using assms by simp
  qed
qed simp

lemma global_anchors_order:
  assumes wf: "wf_syntax before" "wf_syntax after" and order: "reordering order"
  shows "add_global_exact_anchors order to_hex before after = add_global_exact_anchors (\<lambda>xs. xs) to_hex before after"
proof -
  have same: "mset (order (match_exact_index before)) = mset (match_exact_index before)" using order by (simp add: reordering_def)
  then have "set (order (match_exact_index before)) \<subseteq> set (match_exact_index before)" by (metis set_mset_mset order_refl)
  from global_candidates_eq [OF wf this] global_candidates_eq [OF wf order_refl]
  show ?thesis
    using sorted_candidates [OF mset_map_filter [OF same]]
    by (simp add: add_global_exact_anchors_def fun_eq_iff)
qed

lemma global_label: "anchor_label ''globally_unique_identical_syntax_subtree''"
  by (simp add: anchor_label_def GLOBAL_ANCHOR_EVIDENCE_def)

lemma local_label: "anchor_label ''unique_identical_child_under_mapped_parent''"
  by (simp add: anchor_label_def LOCAL_ANCHOR_EVIDENCE_def)

section \<open>The global phase\<close>

text \<open>The relations of the global phase after the candidates \<open>ys\<close>: those of the start, and exact ones reached from a candidate with equal
  subtrees; and each such candidate is mapped, as the digests of equal subtrees are equal.\<close>

definition global_ok ::
  "(bytes \<Rightarrow> string) \<Rightarrow> parsed_syntax \<Rightarrow> parsed_syntax \<Rightarrow> mapping_state \<Rightarrow> (nat \<times> nat \<times> nat) list \<Rightarrow> mapping_state \<Rightarrow> bool" where
  "global_ok to_hex before after st0 ys st \<longleftrightarrow>
     state_ok to_hex before after st \<and> grows st0 st \<and> evidenced before after st \<and>
     (\<forall>r\<in>set (ms_relations st). r \<in> set (ms_relations st0) \<or> is_exact_relation r \<and>
        rel_evidence r \<in> {GLOBAL_ANCHOR_EVIDENCE, EXACT_DESCENDANT_EVIDENCE} \<and>
        (\<exists>(n, i, j)\<in>set ys. syntax_same before i after j \<and> reached before after i j (before_id r) (after_id r))) \<and>
     (syntax_hashes_agree before after \<longrightarrow>
        (\<forall>(n, i, j)\<in>set ys. syntax_same before i after j \<longrightarrow> ms_before_to_after st ! i = Some j))"

definition candidates :: "parsed_syntax \<Rightarrow> parsed_syntax \<Rightarrow> (nat \<times> nat \<times> nat) list" where
  "candidates before after =
     sort_key largest_first (List.map_filter (candidate_of before (match_exact_index after)) (match_exact_index before))"

lemma candidates_iff:
  assumes wf: "wf_syntax before" "wf_syntax after"
  shows "(n, i, j) \<in> set (candidates before after) \<longleftrightarrow>
    unique_pair before after i j \<and> n = node_subtree_size (ps_nodes before ! i)"
proof
  assume "(n, i, j) \<in> set (candidates before after)"
  then obtain e where e: "e \<in> set (match_exact_index before)" "candidate_of before (match_exact_index after) e = Some (n, i, j)"
    unfolding candidates_def set_sort set_map_filter by blast
  note range = candidate_of_range [OF wf e]
  show "unique_pair before after i j \<and> n = node_subtree_size (ps_nodes before ! i)"
    unfolding unique_pair_def using range(3-5) by blast
next
  assume *: "unique_pair before after i j \<and> n = node_subtree_size (ps_nodes before ! i)"
  then obtain k where k: "global_bucket before k = [i]" "global_bucket after k = [j]" by (blast elim: unique_pairE)
  have "(k, [i]) \<in> set (match_exact_index before)"
    using indexes_entry [OF match_exact_index_ok [OF wf(1)], of k "[i]"] k by simp
  moreover have "map_of (match_exact_index after) k = Some [j]"
    using indexes_map_of [OF match_exact_index_ok [OF wf(2)], of k] k by simp
  then have "candidate_of before (match_exact_index after) (k, [i]) = Some (n, i, j)"
    using * by (simp add: candidate_of_def)
  ultimately show "(n, i, j) \<in> set (candidates before after)"
    unfolding candidates_def set_sort set_map_filter by blast
qed

lemma unique_pair_global:
  assumes "unique_pair before after i j"
  shows "globally_unique before after i j"
proof -
  obtain k where k: "global_bucket before k = [i]" "global_bucket after k = [j]" using assms by (rule unique_pairE)
  then show ?thesis using global_bucket_member(3) [OF k(1)] global_bucket_member(3) [OF k(2)] by (simp add: globally_unique_def)
qed

lemma candidates_sizes:
  assumes "candidates before after = ys @ (n, i, j) # zs" "(m, k, l) \<in> set ys"
  shows "n \<le> m"
proof -
  have "sorted (map largest_first (candidates before after))" by (simp add: candidates_def)
  then have "largest_first (m, k, l) \<le> largest_first (n, i, j)"
    using assms by (auto simp: sorted_append)
  then show ?thesis by (auto simp: largest_first_def less_eq_prod_def)
qed

text \<open>No earlier and larger candidate keeps a later one from being mapped.\<close>

lemma candidate_compatible:
  assumes wf: "wf_syntax before" "wf_syntax after" and hashes: "syntax_hashes_agree before after"
    and st: "global_ok to_hex before after st0 ys st" and roots: "\<forall>r\<in>set (ms_relations st0). before_id r = ps_root before \<and> after_id r = ps_root after"
    and split: "candidates before after = ys @ (n, i, j) # zs" and same: "syntax_same before i after j"
  shows "compatible before after (phase_of st) i j"
  unfolding compatible_def
proof (intro allI impI)
  fix x y assume "(x, y) = (i, j) \<or> isomorphic_path before after i j x y"
  have c: "unique_pair before after i j" "n = node_subtree_size (ps_nodes before ! i)"
    using candidates_iff [OF wf, of n i j] split by auto
  note ij = unique_pairD(1-4) [OF c(1)]
  have xy: "reached before after i j x y"
    using \<open>(x, y) = (i, j) \<or> isomorphic_path before after i j x y\<close> isomorphic_path_reached [OF wf _ ij(1,2)] by auto
  note range = reached_same [OF wf same ij(1,2) xy]
  have low: "x \<noteq> ps_root before" "y \<noteq> ps_root after"
    using descendant_range(2) [OF wf(1) reached_sides(1) [OF xy] ij(1)] descendant_range(2) [OF wf(2) reached_sides(2) [OF xy] ij(2)]
      ij(3,4) wf_root [OF wf(1)] wf_root [OF wf(2)] by auto
  have ok: "state_ok to_hex before after st" using st by (simp add: global_ok_def)
  have earlier: "\<exists>m k l. (m, k, l) \<in> set ys \<and> unique_pair before after k l \<and> syntax_same before k after l \<and>
      node_subtree_size (ps_nodes before ! i) \<le> node_subtree_size (ps_nodes before ! k) \<and> reached before after k l u v"
    if uv: "u < length (ps_nodes before)" "ms_before_to_after st ! u = Some v" "u \<noteq> ps_root before" for u v
  proof -
    obtain r where r: "r \<in> set (ms_relations st)" "before_id r = u" "after_id r = v"
      by (rule mapped_relation [OF ok uv(1,2)])
    then have "r \<notin> set (ms_relations st0)" using roots uv(3) by blast
    then obtain m k l where mkl: "(m, k, l) \<in> set ys" "syntax_same before k after l" "reached before after k l u v"
      using st r unfolding global_ok_def by blast
    have "unique_pair before after k l" "m = node_subtree_size (ps_nodes before ! k)"
      using candidates_iff [OF wf, of m k l] mkl(1) split by auto
    then show ?thesis using mkl candidates_sizes [OF split mkl(1)] c(2) by blast
  qed
  have left: "v = y" if "ms_before_to_after st ! x = Some v" for v
    using earlier [OF _ that low(1)] range unique_pairs_agree [OF wf hashes c(1) _ _ _ xy] by blast
  have right: "u = x" if v: "ms_after_to_before st ! y = Some u" for u
  proof -
    have u: "u < length (ps_nodes before)" "ms_before_to_after st ! u = Some y"
      using state_okD(5) [OF ok conjunct2 [OF conjunct2 [OF range]] v] by simp_all
    have "u \<noteq> ps_root before"
    proof
      assume "u = ps_root before"
      obtain r where r: "r \<in> set (ms_relations st)" "before_id r = u" "after_id r = y"
        by (rule mapped_relation [OF ok u])
      show False
      proof (cases "r \<in> set (ms_relations st0)")
        case True
        then show ?thesis using roots r low(2) by auto
      next
        case False
        then obtain m k l where "(m, k, l) \<in> set ys" "reached before after k l u y"
          using st r unfolding global_ok_def by blast
        then have "unique_pair before after k l" "(k, u) \<in> (child_relation before)\<^sup>*"
          using candidates_iff [OF wf, of m k l] split reached_sides(1) by auto
        then show False
          using descendant_range(2) [OF wf(1), of k u] unique_pairD(1,3) \<open>u = ps_root before\<close> wf_root [OF wf(1)] by fastforce
      qed
    qed
    from earlier [OF u this] obtain m k l where "unique_pair before after k l" "syntax_same before k after l"
      "node_subtree_size (ps_nodes before ! i) \<le> node_subtree_size (ps_nodes before ! k)" "reached before after k l u y" by blast
    then show ?thesis by (rule unique_pairs_agree_after [OF wf hashes c(1) same _ _ _ xy])
  qed
  have "ms_before_to_after st ! x = None \<or> ms_before_to_after st ! x = Some y"
    using left by (cases "ms_before_to_after st ! x") blast+
  moreover have "ms_after_to_before st ! y = None \<or> ms_after_to_before st ! y = Some x"
    using right by (cases "ms_after_to_before st ! y") blast+
  ultimately have "agrees (phase_of st) x y" by (simp add: agrees_def phase_of_def)
  moreover have "length (node_children (ps_nodes before ! x)) = length (node_children (ps_nodes after ! y))"
    by (rule syntax_same_facts(3)) (use range wf in \<open>simp_all add: in_arena_def\<close>)
  ultimately show "agrees (phase_of st) x y \<and> length (node_children (ps_nodes before ! x)) = length (node_children (ps_nodes after ! y))"
    by simp
qed

text \<open>Every globally unique pair of equal subtrees is related exactly.\<close>

definition globals_related :: "parsed_syntax \<Rightarrow> parsed_syntax \<Rightarrow> mapping_state \<Rightarrow> bool" where
  "globals_related before after st \<longleftrightarrow>
     (\<forall>i j. unique_pair before after i j \<longrightarrow> syntax_same before i after j \<longrightarrow>
        (\<exists>r\<in>set (ms_relations st). before_id r = i \<and> after_id r = j \<and> is_exact_relation r))"

lemma globals_related_grow: "globals_related before after st \<Longrightarrow> grows st st' \<Longrightarrow> globals_related before after st'"
  unfolding globals_related_def using grows_subset by blast

lemma global_label_evidence: "[''globally_unique_identical_syntax_subtree'', ''recursive_syntax_equality_check''] = GLOBAL_ANCHOR_EVIDENCE"
  by (simp add: GLOBAL_ANCHOR_EVIDENCE_def)

lemma global_ok_step:
  assumes wf: "wf_syntax before" "wf_syntax after" and ok: "global_ok to_hex before after st0 ys st"
    and split: "candidates before after = ys @ (n, i, j) # zs" and fresh: "ms_before_to_after st ! i \<noteq> Some j"
    and same: "syntax_same before i after j"
    and m: "subtree_mapped to_hex before after GLOBAL_ANCHOR_EVIDENCE i j st st'" "ms_before_to_after st' ! i = Some j"
  shows "global_ok to_hex before after st0 (ys @ [(n, i, j)]) st'"
proof -
  have pair: "unique_pair before after i j" using candidates_iff [OF wf, of n i j] split by simp
  note ij = unique_pairD(1,2) [OF pair]
  have st: "state_ok to_hex before after st" "grows st0 st" "evidenced before after st" using ok by (simp_all add: global_ok_def)
  have st': "state_ok to_hex before after st'" "grows st st'" "exact_growth before after GLOBAL_ANCHOR_EVIDENCE i j st st'"
    using m(1) by (simp_all add: subtree_mapped_def)
  have "evidenced before after st'"
  proof (rule subtree_mapped_evidenced [OF wf(1) m(1) st(3) ij(1) m(2)])
    fix q assume "q \<in> set (ms_relations st)" "before_id q = i" "after_id q = j"
    then have "ms_before_to_after st ! i = Some j" using state_okD(6) [OF st(1)] by blast
    then show "rel_evidence q \<in> {GLOBAL_ANCHOR_EVIDENCE, LOCAL_ANCHOR_EVIDENCE, EXACT_DESCENDANT_EVIDENCE}" using fresh by simp
  qed (simp add: unique_pair_global [OF pair])
  moreover have "r \<in> set (ms_relations st0) \<or> is_exact_relation r \<and>
        rel_evidence r \<in> {GLOBAL_ANCHOR_EVIDENCE, EXACT_DESCENDANT_EVIDENCE} \<and>
        (\<exists>(n, i, j)\<in>set (ys @ [(n, i, j)]). syntax_same before i after j \<and> reached before after i j (before_id r) (after_id r))"
    if r: "r \<in> set (ms_relations st')" for r
  proof -
    consider "r \<in> set (ms_relations st)" | "is_exact_relation r" "before_id r = i" "after_id r = j" "rel_evidence r = GLOBAL_ANCHOR_EVIDENCE"
      | "is_exact_relation r" "isomorphic_path before after i j (before_id r) (after_id r)" "rel_evidence r = EXACT_DESCENDANT_EVIDENCE"
      using st'(3) r unfolding exact_growth_def by blast
    then show ?thesis
    proof cases
      case 1
      then show ?thesis using ok unfolding global_ok_def by auto
    next
      case 2
      then show ?thesis using same by auto
    next
      case 3
      then show ?thesis using same isomorphic_path_reached [OF wf 3(2) ij] by auto
    qed
  qed
  moreover have "ms_before_to_after st' ! k = Some l"
    if "syntax_hashes_agree before after" "(m', k, l) \<in> set ys" "syntax_same before k after l" for m' k l
  proof -
    have "k < length (ps_nodes before)"
      using candidates_iff [OF wf, of m' k l] split that(2) unique_pairD(1) by auto
    moreover have "ms_before_to_after st ! k = Some l" using ok that unfolding global_ok_def by blast
    ultimately show ?thesis by (rule grows_mapped [OF st(1) st'(1,2)])
  qed
  ultimately show ?thesis using st st' m(2) grows_trans [OF st(2) st'(2)] unfolding global_ok_def by auto
qed

lemma yields_global_phase:
  assumes wf: "wf_syntax before" "wf_syntax after" and hashes: "byte_hashes_agree before after"
    and st: "state_ok to_hex before after st" "evidenced before after st"
    and roots: "\<forall>r\<in>set (ms_relations st). before_id r = ps_root before \<and> after_id r = ps_root after"
  shows "yields (add_global_exact_anchors (\<lambda>xs. xs) to_hex before after st)
    (\<lambda>st'. state_ok to_hex before after st' \<and> grows st st' \<and> evidenced before after st' \<and>
      (syntax_hashes_agree before after \<longrightarrow> globals_related before after st'))"
proof -
  have "yields (rfold (\<lambda>st (_, i, j).
         rbind (index_at (ms_before_to_after st) i) (\<lambda>mapped.
         if mapped = Some j then Inr st
         else rbind (map_equal_subtree to_hex before after ''globally_unique_identical_syntax_subtree'' i j st) (\<lambda>(_, st). Inr st)))
         st (candidates before after)) (global_ok to_hex before after st (candidates before after))"
  proof (rule yields_fold_prefix)
    show "global_ok to_hex before after st [] st" using st by (simp add: global_ok_def)
  next
    fix ys c zs st1 assume split: "candidates before after = ys @ c # zs" and st1: "global_ok to_hex before after st ys st1"
    obtain n i j where c: "c = (n, i, j)" by (metis prod_cases3)
    have pair: "unique_pair before after i j" using candidates_iff [OF wf, of n i j] split c by simp
    note ij = unique_pairD(1,2) [OF pair]
    have ok: "state_ok to_hex before after st1" using st1 by (simp add: global_ok_def)
    have keep: "global_ok to_hex before after st (ys @ [c]) st1"
      if "syntax_hashes_agree before after \<longrightarrow> syntax_same before i after j \<longrightarrow> ms_before_to_after st1 ! i = Some j"
      using st1 that unfolding global_ok_def c by auto
    have idx: "index_at (ms_before_to_after st1) i = Inr (ms_before_to_after st1 ! i)"
      using ij state_okD(1) [OF ok] by simp
    show "yields (case c of (_, i, j) \<Rightarrow>
         rbind (index_at (ms_before_to_after st1) i) (\<lambda>mapped.
         if mapped = Some j then Inr st1
         else rbind (map_equal_subtree to_hex before after ''globally_unique_identical_syntax_subtree'' i j st1) (\<lambda>(_, st). Inr st)))
       (global_ok to_hex before after st (ys @ [c]))"
      unfolding c prod.case idx rbind_simps
    proof (rule yields_if)
      show "yields (Inr st1) (global_ok to_hex before after st (ys @ [(n, i, j)]))"
        if "ms_before_to_after st1 ! i = Some j" using keep that by (simp add: c)
    next
      assume fresh: "ms_before_to_after st1 ! i \<noteq> Some j"
      show "yields (rbind (map_equal_subtree to_hex before after ''globally_unique_identical_syntax_subtree'' i j st1) (\<lambda>(_, st). Inr st))
          (global_ok to_hex before after st (ys @ [(n, i, j)]))"
      proof (rule yields_bind [OF map_equal_subtree_ok [OF wf hashes global_label ok ij, unfolded global_label_evidence]])
        fix r assume r: "if syntax_same before i after j \<and> compatible before after (phase_of st1) i j
         then subtree_mapped to_hex before after GLOBAL_ANCHOR_EVIDENCE i j st1 (snd r) \<and> ms_before_to_after (snd r) ! i = Some j
         else snd r = st1"
        have "global_ok to_hex before after st (ys @ [(n, i, j)]) (snd r)"
        proof (cases "syntax_same before i after j \<and> compatible before after (phase_of st1) i j")
          case True
          then have "subtree_mapped to_hex before after GLOBAL_ANCHOR_EVIDENCE i j st1 (snd r)" "ms_before_to_after (snd r) ! i = Some j"
            using r True by simp_all
          then show ?thesis by (rule global_ok_step [OF wf st1 split [unfolded c] fresh conjunct1 [OF True]])
        next
          case False
          then have "syntax_hashes_agree before after \<longrightarrow> \<not> syntax_same before i after j"
            using candidate_compatible [OF wf _ st1 roots split [unfolded c]] by blast
          then show ?thesis using r False keep by (simp add: c)
        qed
        then show "yields (case r of (_, st) \<Rightarrow> Inr st) (global_ok to_hex before after st (ys @ [(n, i, j)]))"
          by (cases r) simp
      qed
    qed
  qed
  then show ?thesis
    unfolding add_global_exact_anchors_def global_candidates_eq [OF wf order_refl] rbind_simps candidates_def [symmetric]
  proof (rule yields_conseq)
    fix st' assume g: "global_ok to_hex before after st (candidates before after) st'"
    then have ok: "state_ok to_hex before after st'" by (simp add: global_ok_def)
    have "\<exists>r\<in>set (ms_relations st'). before_id r = i \<and> after_id r = j \<and> is_exact_relation r"
      if hashes: "syntax_hashes_agree before after" and ij: "unique_pair before after i j" "syntax_same before i after j" for i j
    proof -
      have "ms_before_to_after st' ! i = Some j"
        using g hashes ij candidates_iff [OF wf, of "node_subtree_size (ps_nodes before ! i)" i j] unfolding global_ok_def by blast
      then obtain r where r: "r \<in> set (ms_relations st')" "before_id r = i" "after_id r = j"
        by (rule mapped_relation [OF ok unique_pairD(1) [OF ij(1)]])
      moreover have "is_exact_relation r"
        using g r roots unique_pairD(3) [OF ij(1)] unfolding global_ok_def by blast
      ultimately show ?thesis by blast
    qed
    then show "state_ok to_hex before after st' \<and> grows st st' \<and> evidenced before after st' \<and>
        (syntax_hashes_agree before after \<longrightarrow> globals_related before after st')"
      using g by (simp add: global_ok_def globals_related_def)
  qed
qed

end
