(* ===== verification/Matcher_Total.thy ===== *)
theory Matcher_Total
  imports Matcher_Anchors
begin

text \<open>
  The producer returns, and what it returns is right: its relations satisfy \<open>verified\<close>, the contract that
  \<open>verify_relations\<close> establishes, their evidence is certified, every global anchor is among them, its changes are the expected events of these relations, and the iteration order of
  its hash map does not matter.
\<close>

section \<open>Local relations\<close>

lemma local_label_evidence: "[''unique_identical_child_under_mapped_parent'', ''recursive_syntax_equality_check''] = LOCAL_ANCHOR_EVIDENCE"
  by (simp add: LOCAL_ANCHOR_EVIDENCE_def)

text \<open>The exact pairs below the related parents \<open>r\<close>: what is mapped on the way was mapped from one of them.\<close>

lemma yields_map_exact_pairs:
  assumes wf: "wf_syntax before" "wf_syntax after" and hashes: "byte_hashes_agree before after"
    and st: "state_ok to_hex before after st" and r: "r \<in> set (ms_relations st)"
    and pairs: "\<forall>(i, j)\<in>set pairs. i \<in> set (node_children (ps_nodes before ! before_id r)) \<and> free_before st i \<and>
      j \<in> set (node_children (ps_nodes after ! after_id r))"
  shows "yields (map_exact_pairs to_hex before after pairs st)
    (\<lambda>st'. state_ok to_hex before after st' \<and> grows st st' \<and> (evidenced before after st \<longrightarrow> evidenced before after st'))"
proof -
  define I where "I st' \<longleftrightarrow> state_ok to_hex before after st' \<and> grows st st' \<and> (evidenced before after st \<longrightarrow> evidenced before after st') \<and>
    (\<forall>q\<in>set (ms_relations st'). q \<in> set (ms_relations st) \<or> rel_evidence q \<in> {LOCAL_ANCHOR_EVIDENCE, EXACT_DESCENDANT_EVIDENCE})" for st'
  note parents = state_okD(6) [OF st r]
  have "yields (map_exact_pairs to_hex before after pairs st) I"
    unfolding map_exact_pairs_def
  proof (rule yields_fold)
    show "I st" using st by (simp add: I_def)
  next
    fix p st1 assume p: "p \<in> set pairs" and I: "I st1"
    obtain i j where ij: "p = (i, j)" by (rule prod.exhaust)
    then have mem: "i \<in> set (node_children (ps_nodes before ! before_id r))" "free_before st i"
      "j \<in> set (node_children (ps_nodes after ! after_id r))" using pairs p by auto
    note i = wf_child(2,3) [OF wf(1) conjunct1 [OF parents] mem(1)]
      and j = wf_child(2,3) [OF wf(2) conjunct1 [OF conjunct2 [OF parents]] mem(3)]
    have st1: "state_ok to_hex before after st1" "grows st st1" using I by (simp_all add: I_def)
    have mapped: "I st'" if m: "subtree_mapped to_hex before after LOCAL_ANCHOR_EVIDENCE i j st1 st'" "ms_before_to_after st' ! i = Some j" for st'
    proof -
      have "evidenced before after st'" if "evidenced before after st"
      proof (rule subtree_mapped_evidenced [OF wf(1) m(1) _ i(1) m(2)])
        show "evidenced before after st1" using I that by (simp add: I_def)
        show "LOCAL_ANCHOR_EVIDENCE = GLOBAL_ANCHOR_EVIDENCE \<and> globally_unique before after i j \<or>
          LOCAL_ANCHOR_EVIDENCE = LOCAL_ANCHOR_EVIDENCE \<and> (\<exists>q\<in>set (ms_relations st1).
            node_parent (ps_nodes before ! i) = Some (before_id q) \<and> node_parent (ps_nodes after ! j) = Some (after_id q))"
          using r i(2) j(2) grows_subset [OF st1(2)] by blast
        fix q assume q: "q \<in> set (ms_relations st1)" "before_id q = i"
        have "q \<notin> set (ms_relations st)" using state_okD(6) [OF st, of q] q(2) mem(2) by (auto simp: free_before_def)
        then show "rel_evidence q \<in> {GLOBAL_ANCHOR_EVIDENCE, LOCAL_ANCHOR_EVIDENCE, EXACT_DESCENDANT_EVIDENCE}"
          using I q(1) unfolding I_def by blast
      qed
      moreover have "\<forall>q\<in>set (ms_relations st'). q \<in> set (ms_relations st) \<or>
          rel_evidence q \<in> {LOCAL_ANCHOR_EVIDENCE, EXACT_DESCENDANT_EVIDENCE}"
        using I m(1) unfolding I_def subtree_mapped_def exact_growth_def by (metis insertCI)
      ultimately show ?thesis using m(1) grows_trans [OF st1(2)] by (simp add: I_def subtree_mapped_def)
    qed
    show "yields (case p of (i, j) \<Rightarrow>
        rbind (map_equal_subtree to_hex before after ''unique_identical_child_under_mapped_parent'' i j st1) (\<lambda>(_, st). Inr st)) I"
      unfolding ij prod.case
      by (rule yields_bind [OF map_equal_subtree_ok [OF wf hashes local_label st1(1) i(1) j(1), unfolded local_label_evidence]])
        (use mapped I in \<open>auto split: prod.split if_splits\<close>)
  qed
  then show ?thesis by (rule yields_conseq) (simp add: I_def)
qed

definition core_relation :: "(bytes \<Rightarrow> string) \<Rightarrow> parsed_syntax \<Rightarrow> parsed_syntax \<Rightarrow> nat \<Rightarrow> nat \<Rightarrow> relation" where
  "core_relation to_hex before after i j = new_relation to_hex before after i j ShapeEqual ModelForced STABLE_CORE_EVIDENCE"

lemma core_relation_verified:
  assumes wf: "wf_syntax before" "wf_syntax after" and ij: "i < length (ps_nodes before)" "j < length (ps_nodes after)"
    and same: "shape_same before i after j"
  shows "relation_verified to_hex before after (core_relation to_hex before after i j)"
proof -
  let ?r = "core_relation to_hex before after i j"
  note ids = new_relation_ids [OF wf ij, of to_hex ShapeEqual ModelForced STABLE_CORE_EVIDENCE, folded core_relation_def]
  have "predicate_true before after ?r" "stable_core_relation ?r"
    using same ids by (simp_all add: predicate_true_def stable_core_relation_def) (simp_all add: core_relation_def new_relation_def)
  then show ?thesis
    using ids ij by (simp add: relation_verified_def) (simp add: core_relation_def new_relation_def)
qed

text \<open>All forced pairs of a region can be mapped: the debug assertion holds.\<close>

lemma yields_map_forced_pairs:
  assumes wf: "wf_syntax before" "wf_syntax after" and st: "state_ok to_hex before after st" and one: "one_to_one pairs"
    and pairs: "\<And>i j. (i, j) \<in> set pairs \<Longrightarrow> i < length (ps_nodes before) \<and> j < length (ps_nodes after) \<and> shape_same before i after j \<and>
      free_before st i \<and> free_after st j"
  shows "yields (map_forced_pairs to_hex before after pairs st) (\<lambda>st'. state_ok to_hex before after st' \<and> grows st st' \<and>
    (evidenced before after st \<longrightarrow> evidenced before after st') \<and>
    (\<forall>i. i \<notin> fst ` set pairs \<longrightarrow> ms_before_to_after st' ! i = ms_before_to_after st ! i) \<and>
    (\<forall>j. j \<notin> snd ` set pairs \<longrightarrow> ms_after_to_before st' ! j = ms_after_to_before st ! j))"
proof -
  define I where "I ys st' \<longleftrightarrow> state_ok to_hex before after st' \<and> grows st st' \<and>
    (evidenced before after st \<longrightarrow> evidenced before after st') \<and>
    (\<forall>i. i \<notin> fst ` set ys \<longrightarrow> ms_before_to_after st' ! i = ms_before_to_after st ! i) \<and>
    (\<forall>j. j \<notin> snd ` set ys \<longrightarrow> ms_after_to_before st' ! j = ms_after_to_before st ! j)" for ys :: "(nat \<times> nat) list" and st'
  have "yields (map_forced_pairs to_hex before after pairs st) (I pairs)"
    unfolding map_forced_pairs_def STABLE_CORE_EVIDENCE_def [symmetric]
  proof (rule yields_fold_prefix)
    show "I [] st" using st by (simp add: I_def)
  next
    fix ys p zs st1 assume split: "pairs = ys @ p # zs" and I: "I ys st1"
    obtain i j where ij: "p = (i, j)" by (rule prod.exhaust)
    have fresh: "i \<notin> fst ` set ys" "j \<notin> snd ` set ys" using one unfolding one_to_one_def split ij by auto
    have p: "i < length (ps_nodes before)" "j < length (ps_nodes after)" "shape_same before i after j" "free_before st i" "free_after st j"
      using pairs [of i j] unfolding split ij by simp_all
    then have free: "ms_before_to_after st1 ! i = None \<and> ms_after_to_before st1 ! j = None"
      using I fresh by (simp add: I_def free_before_def free_after_def)
    have st1: "state_ok to_hex before after st1" using I by (simp add: I_def)
    let ?r = "core_relation to_hex before after i j"
    note ids = new_relation_ids [OF wf p(1,2), of to_hex ShapeEqual ModelForced STABLE_CORE_EVIDENCE, folded core_relation_def]
    have "state_ok to_hex before after (add_relation ?r st1)"
      using add_relation_ok [OF st1 core_relation_verified [OF wf p(1-3)]] free ids by simp
    moreover have "grows st1 (add_relation ?r st1)" by (simp add: grows_def add_relation_def core_relation_def new_relation_def)
    moreover have "evidenced before after (add_relation ?r st1)" if "evidenced before after st1"
      using that
    proof (rule evidenced_extend)
      have "rel_evidence ?r = STABLE_CORE_EVIDENCE" by (simp add: core_relation_def new_relation_def)
      then show "evidence_ok before after (set (ms_relations (add_relation ?r st1))) q"
        if "q \<in> set (ms_relations (add_relation ?r st1))" "q \<notin> set (ms_relations st1)" for q
        using that evidence_labels by (auto simp: add_relation_def evidence_ok_def)
    qed (auto simp: add_relation_def)
    ultimately have "I (ys @ [p]) (add_relation ?r st1)"
      using I grows_trans unfolding I_def ij by (auto simp: add_relation_def ids)
    then show "yields (case p of (i, j) \<Rightarrow> rbind (map_pair to_hex before after i j ShapeEqual ModelForced STABLE_CORE_EVIDENCE st1)
        (\<lambda>(mapped, st). rbind (debug_assert mapped) (\<lambda>_. Inr st))) (I (ys @ [p]))"
      unfolding ij prod.case map_pair_eq [OF wf st1 p(1,2)] core_relation_def [symmetric] using free by simp
  qed
  then show ?thesis by (rule yields_conseq) (simp add: I_def)
qed

text \<open>An ambiguity group of the producer: below a mapped pair, with children of the parents on both sides.\<close>

definition produced_group ::
  "(bytes \<Rightarrow> string) \<Rightarrow> parsed_syntax \<Rightarrow> parsed_syntax \<Rightarrow> relation list \<Rightarrow> ambiguity_group \<Rightarrow> bool" where
  "produced_group to_hex before after rs g \<longleftrightarrow>
     (\<exists>r\<in>set rs. before_id r = parent_before g \<and> after_id r = parent_after g) \<and>
     (\<exists>bs. group_before g = map (\<lambda>i. as_ref to_hex (ps_nodes before ! i)) bs \<and> bs \<noteq> [] \<and>
        set bs \<subseteq> set (node_children (ps_nodes before ! parent_before g))) \<and>
     (\<exists>as. group_after g = map (\<lambda>j. as_ref to_hex (ps_nodes after ! j)) as \<and> as \<noteq> [] \<and>
        set as \<subseteq> set (node_children (ps_nodes after ! parent_after g)))"

definition local_ok :: "(bytes \<Rightarrow> string) \<Rightarrow> parsed_syntax \<Rightarrow> parsed_syntax \<Rightarrow> mapping_state \<Rightarrow> local_scan \<Rightarrow> bool" where
  "local_ok to_hex before after st0 s \<longleftrightarrow>
     state_ok to_hex before after (ls_state s) \<and> grows st0 (ls_state s) \<and>
     (evidenced before after st0 \<longrightarrow> evidenced before after (ls_state s)) \<and>
     (\<forall>g\<in>set (ls_ambiguities s). produced_group to_hex before after (ms_relations (ls_state s)) g) \<and>
     ls_before s = ambiguous_ids group_before (ls_ambiguities s) \<and> ls_after s = ambiguous_ids group_after (ls_ambiguities s)"

lemma local_ok_grow:
  assumes "local_ok to_hex before after st0 s" "state_ok to_hex before after st" "grows (ls_state s) st"
    "evidenced before after (ls_state s) \<longrightarrow> evidenced before after st"
  shows "local_ok to_hex before after st0 (s\<lparr>ls_state := st\<rparr>)"
proof -
  have "set (ms_relations (ls_state s)) \<subseteq> set (ms_relations st)" using assms(3) by (auto simp: grows_def)
  then have "\<forall>g\<in>set (ls_ambiguities s). produced_group to_hex before after (ms_relations st) g"
    using assms(1) unfolding local_ok_def produced_group_def by (meson subsetD)
  then show ?thesis using assms grows_trans by (auto simp: local_ok_def)
qed

lemma yields_record_ambiguity:
  assumes wf: "wf_syntax before" "wf_syntax after" and s: "local_ok to_hex before after st0 s"
    and r: "r \<in> set (ms_relations (ls_state s))" "before_id r = fst parents" "after_id r = snd parents"
    and a: "amb_before a \<noteq> []" "set (amb_before a) \<subseteq> set (node_children (ps_nodes before ! fst parents))"
      "amb_after a \<noteq> []" "set (amb_after a) \<subseteq> set (node_children (ps_nodes after ! snd parents))"
  shows "yields (record_ambiguity to_hex before after parents s a)
    (\<lambda>s'. local_ok to_hex before after st0 s' \<and> ls_state s' = ls_state s)"
proof -
  have parents: "fst parents < length (ps_nodes before)" "snd parents < length (ps_nodes after)"
    using state_okD(6) [of to_hex before after "ls_state s" r] s r by (auto simp: local_ok_def)
  have range: "i \<in> set (amb_before a) \<Longrightarrow> i < length (ps_nodes before)" "j \<in> set (amb_after a) \<Longrightarrow> j < length (ps_nodes after)" for i j
    using wf_child(2) [OF wf(1) parents(1)] wf_child(2) [OF wf(2) parents(2)] a by blast+
  let ?bs = "map (\<lambda>i. as_ref to_hex (ps_nodes before ! i)) (amb_before a)"
  let ?as = "map (\<lambda>j. as_ref to_hex (ps_nodes after ! j)) (amb_after a)"
  have refs: "rmap (\<lambda>i. rbind (index_at (ps_nodes before) i) (\<lambda>n. Inr (as_ref to_hex n))) (amb_before a) = Inr ?bs"
    "rmap (\<lambda>j. rbind (index_at (ps_nodes after) j) (\<lambda>n. Inr (as_ref to_hex n))) (amb_after a) = Inr ?as"
    by (rule rmap_pure; use range in simp)+
  let ?g = "\<lparr>parent_before = fst parents, parent_after = snd parents, group_before = ?bs, group_after = ?as,
                  constraint = amb_constraint a, reason = amb_reason a\<rparr>"
  have "produced_group to_hex before after (ms_relations (ls_state s)) ?g"
    unfolding produced_group_def using r a by auto
  moreover have "ref_id ` (\<lambda>i. as_ref to_hex (ps_nodes before ! i)) ` set (amb_before a) = set (amb_before a)"
    "ref_id ` (\<lambda>j. as_ref to_hex (ps_nodes after ! j)) ` set (amb_after a) = set (amb_after a)"
  proof -
    have id: "(\<lambda>i. ref_id (f i)) ` A = A" if "\<And>i. i \<in> A \<Longrightarrow> ref_id (f i) = i" for f :: "nat \<Rightarrow> node_ref" and A
      using image_cong [OF refl that, of A "\<lambda>i. i"] by simp
    show "ref_id ` (\<lambda>i. as_ref to_hex (ps_nodes before ! i)) ` set (amb_before a) = set (amb_before a)"
      "ref_id ` (\<lambda>j. as_ref to_hex (ps_nodes after ! j)) ` set (amb_after a) = set (amb_after a)"
      unfolding image_image by (rule id; use range wf_node_id [OF wf(1)] wf_node_id [OF wf(2)] in \<open>simp add: as_ref_def\<close>)+
  qed
  ultimately show ?thesis
    using s unfolding record_ambiguity_def refs rbind_simps by (simp add: local_ok_def ambiguous_ids_def Un_commute)
qed

lemma same_class_shape: "same_class before after i j \<Longrightarrow> shape_same before i after j"
  by (simp add: same_class_def)

lemma yields_align_region:
  assumes wf: "wf_syntax before" "wf_syntax after" and s: "local_ok to_hex before after st0 s"
    and r: "r \<in> set (ms_relations (ls_state s))" "before_id r = fst parents" "after_id r = snd parents"
    and bs: "set bs \<subseteq> set (node_children (ps_nodes before ! fst parents))" "distinct bs" "\<forall>i\<in>set bs. free_before (ls_state s) i"
    and as: "set as \<subseteq> set (node_children (ps_nodes after ! snd parents))" "distinct as" "\<forall>j\<in>set as. free_after (ls_state s) j"
  shows "yields (align_region to_hex before after parents s (bs, as)) (\<lambda>s'. local_ok to_hex before after st0 s' \<and>
    grows (ls_state s) (ls_state s') \<and>
    (\<forall>i. i \<notin> set bs \<longrightarrow> ms_before_to_after (ls_state s') ! i = ms_before_to_after (ls_state s) ! i) \<and>
    (\<forall>j. j \<notin> set as \<longrightarrow> ms_after_to_before (ls_state s') ! j = ms_after_to_before (ls_state s) ! j))"
proof -
  have st: "state_ok to_hex before after (ls_state s)" using s by (simp add: local_ok_def)
  have parents: "fst parents < length (ps_nodes before)" "snd parents < length (ps_nodes after)"
    using state_okD(6) [OF st r(1)] r(2,3) by auto
  have range: "\<forall>i\<in>set bs. i < length (ps_nodes before)" "\<forall>j\<in>set as. j < length (ps_nodes after)"
    using wf_child(2) [OF wf(1) parents(1)] wf_child(2) [OF wf(2) parents(2)] bs(1) as(1) by blast+
  note core = yields_stable_core [OF wf st range(1) bs(2) range(2) as(2)]
  show ?thesis
    unfolding align_region_def fst_conv snd_conv
  proof (rule yields_bind [OF core])
    fix o1 assume res: "region_result before after (phase_of (ls_state s)) bs as o1"
    note within = region_result_within [OF range(1) bs(2) range(2) as(2) res]
    have pair: "i \<in> set bs \<and> j \<in> set as \<and> shape_same before i after j" if "(i, j) \<in> set (forced o1)" for i j
      using within that same_class_shape unfolding result_within_def by blast
    have ends: "fst ` set (forced o1) \<subseteq> set bs" "snd ` set (forced o1) \<subseteq> set as" using pair by auto
    have amb: "amb_before a \<noteq> [] \<and> set (amb_before a) \<subseteq> set bs \<and> amb_after a \<noteq> [] \<and> set (amb_after a) \<subseteq> set as"
      if "a \<in> set (outcome_ambiguities o1)" for a
      using within that unfolding result_within_def by blast
    have forced: "yields (map_forced_pairs to_hex before after (forced o1) (ls_state s)) (\<lambda>st'. state_ok to_hex before after st' \<and>
      grows (ls_state s) st' \<and> (evidenced before after (ls_state s) \<longrightarrow> evidenced before after st') \<and>
      (\<forall>i. i \<notin> fst ` set (forced o1) \<longrightarrow> ms_before_to_after st' ! i = ms_before_to_after (ls_state s) ! i) \<and>
      (\<forall>j. j \<notin> snd ` set (forced o1) \<longrightarrow> ms_after_to_before st' ! j = ms_after_to_before (ls_state s) ! j))"
      by (rule yields_map_forced_pairs [OF wf st region_one_to_one [OF range(1) bs(2) range(2) as(2) res]])
        (use pair range bs(3) as(3) in blast)
    show "yields (rbind (map_forced_pairs to_hex before after (forced o1) (ls_state s)) (\<lambda>st.
       rfold (record_ambiguity to_hex before after parents) (s\<lparr>ls_state := st\<rparr>) (outcome_ambiguities o1)))
      (\<lambda>s'. local_ok to_hex before after st0 s' \<and> grows (ls_state s) (ls_state s') \<and>
        (\<forall>i. i \<notin> set bs \<longrightarrow> ms_before_to_after (ls_state s') ! i = ms_before_to_after (ls_state s) ! i) \<and>
        (\<forall>j. j \<notin> set as \<longrightarrow> ms_after_to_before (ls_state s') ! j = ms_after_to_before (ls_state s) ! j))"
    proof (rule yields_bind [OF forced])
      fix st1
      assume st1: "state_ok to_hex before after st1 \<and> grows (ls_state s) st1 \<and>
        (evidenced before after (ls_state s) \<longrightarrow> evidenced before after st1) \<and>
        (\<forall>i. i \<notin> fst ` set (forced o1) \<longrightarrow> ms_before_to_after st1 ! i = ms_before_to_after (ls_state s) ! i) \<and>
        (\<forall>j. j \<notin> snd ` set (forced o1) \<longrightarrow> ms_after_to_before st1 ! j = ms_after_to_before (ls_state s) ! j)"
      have r1: "r \<in> set (ms_relations st1)" using st1 r(1) by (auto simp: grows_def)
      have "yields (rfold (record_ambiguity to_hex before after parents) (s\<lparr>ls_state := st1\<rparr>) (outcome_ambiguities o1))
          (\<lambda>s'. local_ok to_hex before after st0 s' \<and> ls_state s' = st1)"
      proof (rule yields_fold)
        show "local_ok to_hex before after st0 (s\<lparr>ls_state := st1\<rparr>) \<and> ls_state (s\<lparr>ls_state := st1\<rparr>) = st1"
          using local_ok_grow [OF s] st1 by simp
      next
        fix a s1 assume a: "a \<in> set (outcome_ambiguities o1)" and s1: "local_ok to_hex before after st0 s1 \<and> ls_state s1 = st1"
        show "yields (record_ambiguity to_hex before after parents s1 a) (\<lambda>s'. local_ok to_hex before after st0 s' \<and> ls_state s' = st1)"
          using yields_record_ambiguity [OF wf conjunct1 [OF s1], of r parents a] r1 r(2,3) s1 amb [OF a] bs(1) as(1) by blast
      qed
      then show "yields (rfold (record_ambiguity to_hex before after parents) (s\<lparr>ls_state := st1\<rparr>) (outcome_ambiguities o1))
          (\<lambda>s'. local_ok to_hex before after st0 s' \<and> grows (ls_state s) (ls_state s') \<and>
            (\<forall>i. i \<notin> set bs \<longrightarrow> ms_before_to_after (ls_state s') ! i = ms_before_to_after (ls_state s) ! i) \<and>
            (\<forall>j. j \<notin> set as \<longrightarrow> ms_after_to_before (ls_state s') ! j = ms_after_to_before (ls_state s) ! j))"
        by (rule yields_conseq) (use st1 ends in blast)
    qed
  qed
qed

text \<open>The regions of one pair of parents: what an earlier region maps, a later one does not contain.\<close>

lemma yields_align_regions:
  assumes wf: "wf_syntax before" "wf_syntax after" and s: "local_ok to_hex before after st0 s"
    and r: "r \<in> set (ms_relations (ls_state s))"
    and regions: "match_regions_ok before after (ls_state s) (before_id r) (after_id r) regions"
  shows "yields (rfold (align_region to_hex before after (before_id r, after_id r)) s regions)
    (\<lambda>s'. local_ok to_hex before after st0 s' \<and> grows (ls_state s) (ls_state s'))"
proof -
  let ?bc = "node_children (ps_nodes before ! before_id r)" and ?ac = "node_children (ps_nodes after ! after_id r)"
  have st: "state_ok to_hex before after (ls_state s)" using s by (simp add: local_ok_def)
  have parents: "before_id r < length (ps_nodes before)" "after_id r < length (ps_nodes after)"
    using state_okD(6) [OF st r] by simp_all
  have all: "concat (map fst regions) = filter (free_before (ls_state s)) ?bc" "concat (map snd regions) = filter (free_after (ls_state s)) ?ac"
    using regions by (simp_all add: match_regions_ok_def)
  have distinct: "distinct (concat (map fst regions))" "distinct (concat (map snd regions))"
    unfolding all using wf_children_sorted(2) [OF wf(1) parents(1)] wf_children_sorted(2) [OF wf(2) parents(2)] by simp_all
  have members: "i \<in> set ?bc \<and> free_before (ls_state s) i" if "i \<in> set (concat (map fst regions))" for i
    using that unfolding all by simp
  have members': "j \<in> set ?ac \<and> free_after (ls_state s) j" if "j \<in> set (concat (map snd regions))" for j
    using that unfolding all by simp
  define I where "I ys s' \<longleftrightarrow> local_ok to_hex before after st0 s' \<and> grows (ls_state s) (ls_state s') \<and>
    (\<forall>i. i \<notin> set (concat (map fst ys)) \<longrightarrow> ms_before_to_after (ls_state s') ! i = ms_before_to_after (ls_state s) ! i) \<and>
    (\<forall>j. j \<notin> set (concat (map snd ys)) \<longrightarrow> ms_after_to_before (ls_state s') ! j = ms_after_to_before (ls_state s) ! j)"
    for ys :: "region list" and s'
  have "yields (rfold (align_region to_hex before after (before_id r, after_id r)) s regions) (I regions)"
  proof (rule yields_fold_prefix)
    show "I [] s" using s by (simp add: I_def)
  next
    fix ys x zs s1 assume split: "regions = ys @ x # zs" and I: "I ys s1"
    obtain bs as where x: "x = (bs, as)" by (rule prod.exhaust)
    have s1: "local_ok to_hex before after st0 s1" using I by (simp add: I_def)
    have r1: "r \<in> set (ms_relations (ls_state s1))" using I r by (auto simp: I_def grows_def)
    have d: "distinct bs" "set bs \<inter> set (concat (map fst ys)) = {}" "distinct as" "set as \<inter> set (concat (map snd ys)) = {}"
      using distinct unfolding split x by auto
    have mem: "\<forall>i\<in>set bs. i \<in> set ?bc \<and> free_before (ls_state s) i" "\<forall>j\<in>set as. j \<in> set ?ac \<and> free_after (ls_state s) j"
      using members members' unfolding split x by auto
    have free: "\<forall>i\<in>set bs. free_before (ls_state s1) i" "\<forall>j\<in>set as. free_after (ls_state s1) j"
      using I mem d(2,4) unfolding I_def free_before_def free_after_def by (metis disjoint_iff)+
    have "yields (align_region to_hex before after (before_id r, after_id r) s1 (bs, as)) (\<lambda>s'. local_ok to_hex before after st0 s' \<and>
      grows (ls_state s1) (ls_state s') \<and>
      (\<forall>i. i \<notin> set bs \<longrightarrow> ms_before_to_after (ls_state s') ! i = ms_before_to_after (ls_state s1) ! i) \<and>
      (\<forall>j. j \<notin> set as \<longrightarrow> ms_after_to_before (ls_state s') ! j = ms_after_to_before (ls_state s1) ! j))"
      by (rule yields_align_region [OF wf s1 r1 _ _ _ d(1) free(1) _ d(3) free(2)]) (use mem in auto)
    then show "yields (align_region to_hex before after (before_id r, after_id r) s1 x) (I (ys @ [x]))"
      unfolding x by (rule yields_conseq) (use I grows_trans in \<open>auto simp: I_def\<close>)
  qed
  then show ?thesis by (rule yields_conseq) (simp add: I_def)
qed

definition short_trees :: "parsed_syntax \<Rightarrow> parsed_syntax \<Rightarrow> bool" where
  "short_trees before after \<longleftrightarrow> length (ps_nodes before) < usize_max \<and> length (ps_nodes after) < usize_max"

lemma yields_visit_relation:
  assumes wf: "wf_syntax before" "wf_syntax after" and hashes: "byte_hashes_agree before after" and short: "short_trees before after"
    and s: "local_ok to_hex before after st0 s" and cursor: "cursor < length (ms_relations (ls_state s))"
  shows "yields (visit_relation to_hex before after cursor s)
    (\<lambda>s'. local_ok to_hex before after st0 s' \<and> grows (ls_state s) (ls_state s'))"
proof -
  let ?r = "ms_relations (ls_state s) ! cursor"
  let ?bs = "filter (free_before (ls_state s)) (node_children (ps_nodes before ! before_id ?r))"
  let ?as = "filter (free_after (ls_state s)) (node_children (ps_nodes after ! after_id ?r))"
  have st: "state_ok to_hex before after (ls_state s)" using s by (simp add: local_ok_def)
  have r: "?r \<in> set (ms_relations (ls_state s))" using cursor by simp
  have parents: "before_id ?r < length (ps_nodes before)" "after_id ?r < length (ps_nodes after)"
    using state_okD(6) [OF st r] by simp_all
  have range: "\<forall>i\<in>set ?bs. i < length (ps_nodes before)" "\<forall>j\<in>set ?as. j < length (ps_nodes after)"
    using wf_child(2) [OF wf(1) parents(1)] wf_child(2) [OF wf(2) parents(2)] by simp_all
  have pairs: "yields (match_unique_pairs before after ?bs ?as exact_key)
      (\<lambda>ps. \<forall>(i, j)\<in>set ps. i \<in> set (node_children (ps_nodes before ! before_id ?r)) \<and> free_before (ls_state s) i \<and>
        j \<in> set (node_children (ps_nodes after ! after_id ?r)))"
  proof (rule yields_conseq [OF yields_match_unique_pairs])
    show "\<forall>i\<in>set ?bs. in_arena before i" "\<forall>j\<in>set ?as. in_arena after j" using range wf by (simp_all add: in_arena_def)
  qed auto
  have regions: "yields (rbind (match_regions before after st1 (before_id ?r) (after_id ?r)) (\<lambda>regions.
       rfold (align_region to_hex before after (before_id ?r, after_id ?r)) (s\<lparr>ls_state := st1\<rparr>) regions))
      (\<lambda>s'. local_ok to_hex before after st0 s' \<and> grows (ls_state s) (ls_state s'))"
    if st1: "state_ok to_hex before after st1 \<and> grows (ls_state s) st1 \<and>
      (evidenced before after (ls_state s) \<longrightarrow> evidenced before after st1)" for st1
  proof (rule yields_bind [OF yields_match_regions [OF wf conjunct1 [OF st1] _ _ parents]])
    show "length (ps_nodes before) < usize_max" "length (ps_nodes after) < usize_max" using short by (simp_all add: short_trees_def)
    fix regions assume reg: "match_regions_ok before after st1 (before_id ?r) (after_id ?r) regions"
    have s1: "local_ok to_hex before after st0 (s\<lparr>ls_state := st1\<rparr>)" using local_ok_grow [OF s] st1 by blast
    have r1: "?r \<in> set (ms_relations (ls_state (s\<lparr>ls_state := st1\<rparr>)))" using st1 r by (auto simp: grows_def)
    show "yields (rfold (align_region to_hex before after (before_id ?r, after_id ?r)) (s\<lparr>ls_state := st1\<rparr>) regions)
        (\<lambda>s'. local_ok to_hex before after st0 s' \<and> grows (ls_state s) (ls_state s'))"
      by (rule yields_conseq [OF yields_align_regions [OF wf s1 r1]]) (use reg st1 grows_trans in auto)
  qed
  have idx: "index_at (ms_relations (ls_state s)) cursor = Inr ?r" using cursor by simp
  show ?thesis
    unfolding visit_relation_def idx rbind_simps Let_def unmatched_children_eq [OF wf st parents]
    by (rule yields_bind [OF pairs], rule yields_bind [OF yields_map_exact_pairs [OF wf hashes st r]], assumption, rule regions)
qed

text \<open>The worklist ends: every step visits one more relation, and there are at most as many as before nodes.\<close>

lemma yields_visit_relations:
  assumes wf: "wf_syntax before" "wf_syntax after" and hashes: "byte_hashes_agree before after" and short: "short_trees before after"
  shows "local_ok to_hex before after st0 s \<Longrightarrow> cursor \<le> length (ms_relations (ls_state s)) \<Longrightarrow>
    length (ps_nodes before) < fuel + cursor \<Longrightarrow>
    yields (visit_relations_fuel fuel to_hex before after cursor s) (local_ok to_hex before after st0)"
proof (induction fuel arbitrary: cursor s)
  case 0
  then have "length (ms_relations (ls_state s)) \<le> length (ps_nodes before)" using state_okD(7) [of to_hex before after "ls_state s"] by (simp add: local_ok_def)
  then show ?case using 0 by simp
next
  case (Suc fuel)
  show ?case
    unfolding visit_relations_fuel.simps
  proof (rule yields_if)
    assume "cursor < length (ms_relations (ls_state s))"
    note visit = yields_visit_relation [OF wf hashes short Suc.prems(1) this]
    show "yields (rbind (visit_relation to_hex before after cursor s) (\<lambda>s.
          visit_relations_fuel fuel to_hex before after (cursor + 1) s)) (local_ok to_hex before after st0)"
      by (rule yields_bind [OF visit], rule Suc.IH)
        (use Suc.prems \<open>cursor < length (ms_relations (ls_state s))\<close> grows_length in fastforce)+
  qed (use Suc.prems in simp)
qed

lemma yields_add_local_relations:
  assumes wf: "wf_syntax before" "wf_syntax after" and hashes: "byte_hashes_agree before after" and short: "short_trees before after"
    and st: "state_ok to_hex before after st"
  shows "yields (add_local_relations to_hex before after st) (local_ok to_hex before after st)"
  unfolding add_local_relations_def
proof (rule yields_bind [OF yields_visit_relations [OF wf hashes short, where ?st0.0 = st]], rule_tac [4] yields_return)
  show "local_ok to_hex before after st \<lparr>ls_state = st, ls_ambiguities = [], ls_before = {}, ls_after = {}\<rparr>"
    using st by (simp add: local_ok_def ambiguous_ids_def)
  fix s assume "local_ok to_hex before after st s"
  then show "local_ok to_hex before after st (s\<lparr>ls_ambiguities := sort_key ambiguity_key (ls_ambiguities s)\<rparr>)"
    by (simp add: local_ok_def ambiguous_ids_def)
qed simp_all

section \<open>Changes\<close>

text \<open>The state and the mappings \<open>m\<close> of its relations.\<close>

definition state_mappings :: "mapping_state \<Rightarrow> verified_mappings \<Rightarrow> bool" where
  "state_mappings st m \<longleftrightarrow> before_to_after m = ms_before_to_after st \<and> after_to_before m = ms_after_to_before st \<and>
     facts st = map (map_option fact_of) (by_before m)"

lemma mapped_of_eq: "state_mappings st m \<Longrightarrow> mapped_of st = mapped_pairs m"
  by (simp add: mapped_of_def mapped_pairs_def state_mappings_def)

lemma map_filter_records:
  "(\<And>x r. x < length recs \<Longrightarrow> recs ! x = Some r \<Longrightarrow> before_id r = k + x) \<Longrightarrow>
   List.map_filter (\<lambda>(i, a). map_option (Pair i) a) (enumerate k (map (map_option after_id) recs)) =
     map (\<lambda>r. (before_id r, after_id r)) (List.map_filter id recs)"
proof (induction recs arbitrary: k)
  case (Cons rec recs)
  have "List.map_filter (\<lambda>(i, a). map_option (Pair i) a) (enumerate (Suc k) (map (map_option after_id) recs)) =
     map (\<lambda>r. (before_id r, after_id r)) (List.map_filter id recs)"
  proof (rule Cons.IH)
    fix x r assume "x < length recs" "recs ! x = Some r"
    then show "before_id r = Suc k + x" using Cons.prems [of "Suc x" r] by simp
  qed
  then show ?case using Cons.prems [of 0] by (auto simp: List.map_filter_simps id_def split: option.split)
qed (simp add: List.map_filter_simps)

lemma mapped_pairs_records:
  assumes m: "verified to_hex before after rs m"
  shows "mapped_pairs m = map (\<lambda>r. (before_id r, after_id r)) (relation_records m)"
proof -
  have "before_to_after m = map (map_option after_id) (by_before m)"
    by (rule nth_equalityI) (use verified_facts(1,3,5) [OF m] in simp_all)
  moreover have "before_id r = x" if "x < length (by_before m)" "by_before m ! x = Some r" for x r
    using verified_facts(4) [OF m, of x r] that verified_facts(3) [OF m] by simp
  ultimately show ?thesis
    using map_filter_records [of "by_before m" 0] unfolding mapped_pairs_def relation_records_def by simp
qed

lemma match_order_change_eq:
  assumes wf: "wf_syntax before" "wf_syntax after" and m: "verified to_hex before after rs m" and st: "state_mappings st m"
    and p: "p \<in> set (mapped_pairs m)"
  shows "match_order_change to_hex before after st cs p = Inr (cs @ order_events to_hex before after m [p])"
proof -
  obtain i j where ij: "p = (i, j)" by (cases p)
  have b2a: "ms_before_to_after st = before_to_after m" using st by (simp add: state_mappings_def)
  from p have mapped: "i < length (ps_nodes before)" "before_to_after m ! i = Some j"
    using verified_facts(1) [OF m] by (simp_all add: ij mapped_pairs_iff)
  obtain r where j: "j < length (ps_nodes after)" by (rule verified_mapped [OF m mapped(2,1)])
  have target: "d < length (ps_nodes after)" if "before_to_after m ! c = Some d" "c < length (ps_nodes before)" for c d
    by (rule verified_mapped [OF m that]) simp
  have "rmap_filter (\<lambda>c. rbind (index_at (ms_before_to_after st) c) (\<lambda>mapped. case mapped of None \<Rightarrow> Inr None
       | Some d \<Rightarrow> rbind (index_at (ps_nodes after) d) (\<lambda>n.
           if node_parent n \<noteq> Some j then Inr None else Inr (positions (node_children (ps_nodes after ! j)) d))))
       (node_children (ps_nodes before ! i)) = Inr (List.map_filter (child_rank after m j) (node_children (ps_nodes before ! i)))"
  proof (rule rmap_filter_pure)
    fix c assume c: "c \<in> set (node_children (ps_nodes before ! i))"
    show "rbind (index_at (ms_before_to_after st) c) (\<lambda>mapped. case mapped of None \<Rightarrow> Inr None
       | Some d \<Rightarrow> rbind (index_at (ps_nodes after) d) (\<lambda>n.
           if node_parent n \<noteq> Some j then Inr None else Inr (positions (node_children (ps_nodes after ! j)) d)))
       = Inr (child_rank after m j c)"
      using wf_child(2) [OF wf(1) mapped(1) c] target [of c] verified_facts(1) [OF m] unfolding b2a
      by (cases "before_to_after m ! c") (simp_all add: child_rank_def)
  qed
  then show ?thesis
    using mapped(1) j unfolding ij match_order_change_def
    by (simp add: order_events_def reordered_def pair_change_eq)
qed

lemma match_pair_change_eq:
  assumes wf: "wf_syntax before" "wf_syntax after" and m: "verified to_hex before after rs m" and st: "state_mappings st m"
    and r: "r \<in> set rs"
  shows "match_pair_change to_hex before after st cs (before_id r, after_id r) = Inr (cs @ relation_events to_hex before after m r)"
proof -
  let ?i = "before_id r" and ?j = "after_id r"
  note ij = verified_relation_mapped(1,2) [OF m r]
  have arena: "in_arena before ?i" "in_arena after ?j" using wf ij by (simp_all add: in_arena_def)
  have rec: "by_before m ! ?i = Some r" using verified_facts(4) [OF m ij(1)] r by simp
  have len: "length (ms_before_to_after st) = length (ps_nodes before)" "length (facts st) = length (ps_nodes before)"
    using st verified_facts(1,3) [OF m] by (simp_all add: state_mappings_def)
  have fact: "index_at (facts st) ?i = Inr (Some (fact_of r))"
    using rec ij(1) verified_facts(3) [OF m] st by (simp add: state_mappings_def)
  have parent: "p < length (ps_nodes before)" if "node_parent (ps_nodes before ! ?i) = Some p" for p
    using wf_parent(1) [OF wf(1) ij(1) that] ij(1) by simp
  have moved: "match_relocated st (fact_of r) (node_parent (ps_nodes before ! ?i)) (node_parent (ps_nodes after ! ?j))
      = Inr (moved before after m r)"
    using parent len st
    by (cases "node_parent (ps_nodes before ! ?i)"; cases "node_parent (ps_nodes after ! ?j)")
      (auto simp: match_relocated_def moved_def is_exact_relation_def fact_of_def state_mappings_def)
  have shape: "match_parent_shape st (node_parent (ps_nodes before ! ?i)) = Inr (below_shape before m ?i)"
    using parent len st verified_facts(3) [OF m]
    by (cases "node_parent (ps_nodes before ! ?i)")
      (auto simp: match_parent_shape_def below_shape_def state_mappings_def fact_of_def split: option.splits)
  have nodes: "index_at (ps_nodes before) ?i = Inr (ps_nodes before ! ?i)" "index_at (ps_nodes after) ?j = Inr (ps_nodes after ! ?j)"
    using ij by simp_all
  have update: "(if fact_predicate (fact_of r) = ShapeEqual then
               rbind (syntax_equal before ?i after ?j) (\<lambda>same.
               if same then Inr False
               else rbind (match_parent_shape st (node_parent (ps_nodes before ! ?i))) (\<lambda>shape. Inr (\<not> shape)))
             else Inr False) = Inr (updated before after m r)"
    using equal_total(1) [OF arena] shape by (simp add: updated_def fact_of_def)
  have corr: "fact_correspondence (fact_of r) = rel_correspondence r" by (simp add: fact_of_def)
  show ?thesis
    unfolding match_pair_change_def Let_def fst_conv snd_conv fact rbind_simps of_option_simps nodes moved update corr
    using ij by (simp add: relation_events_def pair_change_eq split: correspondence.split)
qed

lemma yields_derive_changes:
  assumes wf: "wf_syntax before" "wf_syntax after" and m: "verified to_hex before after rs m" and st: "state_mappings st m"
  shows "yields (match_derive_changes to_hex before after st (ambiguous_ids group_before groups) (ambiguous_ids group_after groups))
    (\<lambda>cs. cs = sort_key change_order (expected_events to_hex before after m groups))"
proof -
  have arena: "in_arena before (ps_root before)" "in_arena after (ps_root after)" using wf wf_root by (simp_all add: in_arena_def)
  have root: "ps_root before < length (ps_nodes before)" "ps_root after < length (ps_nodes after)" using wf wf_root by simp_all
  let ?rel = "filter (\<lambda>r. before_id r \<noteq> ps_root before \<and> rel_correspondence r \<noteq> CorrInputPair) (relation_records m)"
  have order: "yields (rfold (match_order_change to_hex before after st) cs (mapped_pairs m))
      (\<lambda>cs'. cs' = cs @ order_events to_hex before after m (mapped_pairs m))" for cs
    by (rule yields_fold_prefix [where I = "\<lambda>ys cs'. cs' = cs @ order_events to_hex before after m ys"])
      (auto simp: order_events_def match_order_change_eq [OF wf m st])
  have only: "filter (\<lambda>p. fst p \<noteq> ps_root before) (mapped_pairs m) = map (\<lambda>r. (before_id r, after_id r)) ?rel"
  proof -
    have "rel_correspondence r \<noteq> CorrInputPair" if "r \<in> set (relation_records m)" "before_id r \<noteq> ps_root before" for r
    proof -
      have "relation_verified to_hex before after r"
        using m that(1) verified_records [OF m] by (auto simp: verified_def relations_verified_def)
      then show ?thesis
        using that(2) by (auto simp: relation_verified_def input_pair_def stable_core_relation_def exact_relation_def)
    qed
    then show ?thesis
      unfolding mapped_pairs_records [OF m] filter_map comp_def fst_conv by (auto intro!: arg_cong [where f = "map _"] filter_cong)
  qed
  have related: "yields (rfold (match_pair_change to_hex before after st) cs (filter (\<lambda>p. fst p \<noteq> ps_root before) (mapped_pairs m)))
      (\<lambda>cs'. cs' = cs @ concat (map (relation_events to_hex before after m) ?rel))" for cs
    unfolding only rfold_map
  proof (rule yields_fold_prefix [where I = "\<lambda>ys cs'. cs' = cs @ concat (map (relation_events to_hex before after m) ys)"])
    fix ys r zs cs'
    assume split: "?rel = ys @ r # zs" and cs': "cs' = cs @ concat (map (relation_events to_hex before after m) ys)"
    have "r \<in> set ?rel" unfolding split by simp
    then have "r \<in> set rs" using verified_records [OF m] by simp
    then show "yields (match_pair_change to_hex before after st cs' (before_id r, after_id r))
       (\<lambda>cs'. cs' = cs @ concat (map (relation_events to_hex before after m) (ys @ [r])))"
      by (simp add: match_pair_change_eq [OF wf m st] cs')
  qed simp
  have b2a: "ms_before_to_after st = before_to_after m" "ms_after_to_before st = after_to_before m"
    using st by (simp_all add: state_mappings_def)
  note deleted = unmatched_filter [OF wf(1) verified_facts(1) [OF m], of "ambiguous_ids group_before groups"]
  note inserted = unmatched_filter [OF wf(2) verified_facts(2) [OF m], of "ambiguous_ids group_after groups"]
  have formatting: "rbind (syntax_equal before (ps_root before) after (ps_root after)) (\<lambda>same.
     rbind (if same \<and> ps_source before \<noteq> ps_source after
            then rbind (pair_change to_hex before after FormattingOnly DETAIL_FORMATTING (ps_root before) (ps_root after)) (\<lambda>c. Inr [c])
            else Inr []) f) = f (formatting_events to_hex before after)" for f :: "structural_change list \<Rightarrow> structural_change list result"
    using equal_total(1) [OF arena] root by (simp add: formatting_events_def pair_change_eq)
  show ?thesis
    unfolding match_derive_changes_def formatting mapped_of_eq [OF st] b2a deleted inserted rbind_simps
    by (rule yields_bind [OF order], rule yields_bind [OF related]) (simp add: expected_events_def)
qed

section \<open>The whole producer\<close>

lemma state_verified:
  assumes st: "state_ok to_hex before after st"
    and rs: "ms_relations st = r # rs" "input_pair before after r" "\<forall>q\<in>set rs. rel_correspondence q = ModelForced"
  obtains m where "verified to_hex before after (sort_key before_id (ms_relations st)) m" "state_mappings st m"
proof -
  let ?rs = "sort_key before_id (ms_relations st)"
  obtain m :: verified_mappings where m: "mappings_of before after (ms_relations st) m" "state_mappings st m"
    using st by (auto simp: state_ok_def mappings_in_def state_mappings_def)
  have "mappings_of before after ?rs m" using m(1) unfolding mappings_of_def set_sort .
  moreover have "sorted_wrt (<) (map before_id ?rs)"
  proof -
    have "distinct (map before_id ?rs)"
      using st mset_eq_imp_distinct_iff [of "map before_id ?rs" "map before_id (ms_relations st)"] by (simp add: state_ok_def)
    moreover have "sorted (map before_id ?rs)" by simp
    ultimately show ?thesis by (simp add: strict_sorted_iff)
  qed
  moreover have "\<forall>q\<in>set ?rs. relation_verified to_hex before after q" using st by (simp add: state_ok_def)
  moreover have "length (filter (input_pair before after) ?rs) = 1"
  proof -
    have "mset (filter (input_pair before after) ?rs) = mset (filter (input_pair before after) (ms_relations st))"
      by (simp add: mset_filter)
    then have "length (filter (input_pair before after) ?rs) = length (filter (input_pair before after) (ms_relations st))"
      by (rule mset_eq_length)
    also have "filter (input_pair before after) rs = []" using rs(3) by (auto simp: filter_empty_conv input_pair_def)
    then have "length (filter (input_pair before after) (ms_relations st)) = 1" using rs(1,2) by simp
    finally show ?thesis .
  qed
  moreover have "before_to_after m ! ps_root before = Some (ps_root after)"
    using state_okD(6) [OF st, of r] rs(1,2) m(2) by (simp add: input_pair_def state_mappings_def)
  ultimately show ?thesis using m(2) by (intro that [of m]) (simp_all add: verified_def relations_verified_def)
qed

text \<open>The evidence of the final state, as the verifier certifies it.\<close>

lemma evidenced_certified:
  assumes m: "verified to_hex before after rs m" and st: "evidenced before after st" "set (ms_relations st) = set rs"
  shows "anchors_certified before after rs m"
  unfolding anchors_certified_def
proof (intro ballI conjI impI)
  fix r assume r: "r \<in> set rs"
  have ev: "evidence_ok before after (set rs) q" if "q \<in> set rs" for q using st that unfolding evidenced_def by simp
  have certified: "certified_anchor before after m q"
    if q: "q \<in> set rs" "rel_evidence q = GLOBAL_ANCHOR_EVIDENCE \<or> rel_evidence q = LOCAL_ANCHOR_EVIDENCE" for q
  proof -
    have "rel_correspondence q = ModelForced" using ev [OF q(1)] q(2) by (auto simp: evidence_ok_def is_exact_relation_def)
    moreover have "parents_mapped before after m (before_id q) (after_id q)" if "rel_evidence q = LOCAL_ANCHOR_EVIDENCE"
      using ev [OF q(1)] that verified_relation_mapped(4) [OF m] unfolding evidence_ok_def parents_mapped_def by metis
    ultimately show ?thesis using ev [OF q(1)] q(2) unfolding certified_anchor_def evidence_ok_def by metis
  qed
  show "certified_anchor before after m r"
    if "rel_correspondence r = ModelForced \<and> (rel_evidence r = GLOBAL_ANCHOR_EVIDENCE \<or> rel_evidence r = LOCAL_ANCHOR_EVIDENCE)"
    using certified r that by blast
  show "below_anchor before after rs m (before_id r) (after_id r)" if "rel_evidence r = EXACT_DESCENDANT_EVIDENCE"
    using ev [OF r] that certified unfolding evidence_ok_def below_anchor_def by blast
qed

lemma globals_complete:
  assumes m: "verified to_hex before after rs m" and st: "globals_related before after st" "set (ms_relations st) = set rs"
  shows "anchors_complete before after m"
  unfolding anchors_complete_def
proof (intro allI impI)
  fix k i j assume "global_bucket before k = [i]" "global_bucket after k = [j]" "syntax_same before i after j"
  then obtain r where r: "r \<in> set rs" "before_id r = i" "after_id r = j" "is_exact_relation r"
    using st unfolding globals_related_def unique_pair_def by metis
  then show "exactly_mapped m i j"
    using verified_relation_mapped(3,4) [OF m r(1)] by (simp add: exactly_mapped_def)
qed

text \<open>What a run of the producer returns.\<close>

definition produced ::
  "(bytes \<Rightarrow> string) \<Rightarrow> parsed_syntax \<Rightarrow> parsed_syntax \<Rightarrow> match_result \<Rightarrow> bool" where
  "produced to_hex before after r \<longleftrightarrow>
     (\<exists>m. verified to_hex before after (mr_relations r) m \<and> anchors_certified before after (mr_relations r) m \<and>
        (syntax_hashes_agree before after \<longrightarrow> anchors_complete before after m) \<and>
        mr_changes r = sort_key change_order (expected_events to_hex before after m (mr_ambiguities r))) \<and>
     (\<forall>g\<in>set (mr_ambiguities r). produced_group to_hex before after (mr_relations r) g)"

lemma yields_match_trees:
  assumes wf: "wf_syntax before" "wf_syntax after" and hashes: "byte_hashes_agree before after" and short: "short_trees before after"
    and order: "reordering order"
  shows "yields (match_trees order to_hex before after) (produced to_hex before after)"
proof -
  let ?r = "new_relation to_hex before after (ps_root before) (ps_root after) PredInputPair CorrInputPair INPUT_PAIR_EVIDENCE"
  let ?st = "add_relation ?r (mapping_state_new before after)"
  have root: "ps_root before < length (ps_nodes before)" "ps_root after < length (ps_nodes after)" using wf wf_root by simp_all
  note ids = new_relation_ids [OF wf root, of to_hex PredInputPair CorrInputPair INPUT_PAIR_EVIDENCE]
  have input: "input_pair before after ?r" using ids by (simp add: input_pair_def) (simp add: new_relation_def)
  have "predicate_true before after ?r" using ids by (simp add: predicate_true_def) (simp add: new_relation_def)
  then have "relation_verified to_hex before after ?r"
    using ids root input by (simp add: relation_verified_def) (simp add: new_relation_def)
  then have st: "state_ok to_hex before after ?st"
    using ids root by (intro add_relation_ok [OF state_ok_new]) (simp_all add: mapping_state_new_def)
  have first: "map_pair to_hex before after (ps_root before) (ps_root after) PredInputPair CorrInputPair
              [''caller_supplied_file_pair''] (mapping_state_new before after) = Inr (True, ?st)"
    unfolding INPUT_PAIR_EVIDENCE_def [symmetric] map_pair_eq [OF wf state_ok_new root] using root by (simp add: mapping_state_new_def)
  have finish: "yields (rbind (match_derive_changes to_hex before after (ls_state s) (ls_before s) (ls_after s)) (\<lambda>cs.
       Inr \<lparr>mr_relations = sort_key before_id (ms_relations (ls_state s)), mr_ambiguities = ls_ambiguities s,
            mr_changes = cs\<rparr>)) (produced to_hex before after)"
    if s: "local_ok to_hex before after st1 s" and st1: "grows ?st st1" "evidenced before after st1"
      "syntax_hashes_agree before after \<longrightarrow> globals_related before after st1" for s st1
  proof -
    have ok: "state_ok to_hex before after (ls_state s)" and "grows ?st (ls_state s)"
      using s st1(1) grows_trans by (auto simp: local_ok_def)
    then obtain rs where rs: "ms_relations (ls_state s) = ?r # rs" "\<forall>q\<in>set rs. rel_correspondence q = ModelForced"
      by (auto simp: grows_def add_relation_def mapping_state_new_def)
    obtain m where m: "verified to_hex before after (sort_key before_id (ms_relations (ls_state s))) m" "state_mappings (ls_state s) m"
      by (rule state_verified [OF ok rs(1) input rs(2)])
    let ?rs = "sort_key before_id (ms_relations (ls_state s))"
    have last: "evidenced before after (ls_state s)" "grows st1 (ls_state s)" using s st1(2) by (simp_all add: local_ok_def)
    have certified: "anchors_certified before after ?rs m" by (rule evidenced_certified [OF m(1) last(1)]) simp
    have complete: "syntax_hashes_agree before after \<longrightarrow> anchors_complete before after m"
      using globals_complete [OF m(1) globals_related_grow [OF _ last(2)]] st1(3) by simp
    have amb: "ls_before s = ambiguous_ids group_before (ls_ambiguities s)" "ls_after s = ambiguous_ids group_after (ls_ambiguities s)"
      using s by (simp_all add: local_ok_def)
    show ?thesis
      unfolding amb
      by (rule yields_bind [OF yields_derive_changes [OF wf m]])
        (use m s certified complete in \<open>auto simp: produced_def produced_group_def local_ok_def\<close>)
  qed
  have start: "evidenced before after ?st" "\<forall>r\<in>set (ms_relations ?st). before_id r = ps_root before \<and> after_id r = ps_root after"
    using ids evidence_labels by (simp_all add: evidenced_def evidence_ok_def add_relation_def mapping_state_new_def)
      (simp_all add: new_relation_def)
  show ?thesis
    unfolding match_trees_def first rbind_simps prod.case global_anchors_order [OF wf order]
    by (rule yields_bind [OF yields_global_phase [OF wf hashes st start]],
        rule yields_bind [OF yields_add_local_relations [OF wf hashes short]], blast, rule finish) blast+
qed

end
