(* ===== verification/Matcher_Properties.thy ===== *)
theory Matcher_Properties
  imports Matcher_Total Sample_Report
begin

text \<open>
  What the producer guarantees, from the lemmas of \<open>Matcher_Total\<close>, and the same on the sample trees.
\<close>

section \<open>Agreement of producer and verifier on a component\<close>

lemma ambiguity_unique:
  assumes a: "ambiguity_of cg bs as cands a" and b: "ambiguity_of cg bs as cands b"
  shows "a = b"
proof -
  have scans: "ambiguous_before s = ambiguous_before t \<and> ambiguous_after s = ambiguous_after t"
    if "scanned cg bs as cands ps s" "scanned cg bs as cands ps t" for ps s t
    using that by (simp add: scanned_def Let_def)
  have sides: "amb_before a = amb_before b" "amb_after a = amb_after b"
    using a b scans unfolding ambiguity_of_def Let_def by metis+
  have "amb_constraint a = amb_constraint b" "amb_reason a = amb_reason b"
    using a b unfolding ambiguity_of_def Let_def by (auto split: if_splits)
  with sides show ?thesis by simp
qed

lemma component_result_unique:
  assumes r: "component_result cg bs as cands r" and s: "component_result cg bs as cands s"
  shows "r = s"
proof -
  have "forced r = forced s" using r s by (simp add: component_result_def Let_def)
  moreover have "outcome_ambiguities r = outcome_ambiguities s"
    using r s ambiguity_unique unfolding component_result_def Let_def by (auto split: if_splits)
  ultimately show ?thesis by simp
qed

section \<open>Runs\<close>

lemma match_trees_run:
  assumes "wf_syntax before" "wf_syntax after" "byte_hashes_agree before after" "short_trees before after" "reordering order"
    and "match_trees order to_hex before after = Inr r"
  shows "produced to_hex before after r"
  using yieldsD [OF yields_match_trees [OF assms(1-5)] assms(6)] .

lemma match_trees_sorted:
  assumes "match_trees order to_hex before after = Inr r"
  shows "sorted (map ambiguity_key (mr_ambiguities r))"
  using assms by (auto simp: match_trees_def add_local_relations_def rbind_Inr_iff split: prod.splits)

text \<open>More fuel than the worklist needs changes nothing.\<close>

lemma visit_relations_more:
  "visit_relations_fuel fuel to_hex before after cursor s = Inr t \<Longrightarrow> fuel \<le> fuel' \<Longrightarrow>
   visit_relations_fuel fuel' to_hex before after cursor s = Inr t"
proof (induction fuel arbitrary: fuel' cursor s)
  case (Suc fuel)
  from Suc.prems(2) obtain k where k: "fuel' = Suc k" "fuel \<le> k" by (cases fuel') simp_all
  show ?case using Suc.prems(1) Suc.IH [OF _ k(2)] by (auto simp: k(1) rbind_Inr_iff split: if_splits)
qed simp

lemma worklist_result:
  assumes wf: "wf_syntax before" "wf_syntax after" and hashes: "byte_hashes_agree before after" and short: "short_trees before after"
    and st: "state_ok to_hex before after st" and fuel: "length (ps_nodes before) < fuel"
  shows "\<exists>s. (\<forall>k\<ge>fuel. visit_relations_fuel k to_hex before after 0 \<lparr>ls_state = st, ls_ambiguities = [], ls_before = {}, ls_after = {}\<rparr> = Inr s) \<and>
    length (ms_relations (ls_state s)) \<le> length (ps_nodes before)"
proof -
  let ?s = "\<lparr>ls_state = st, ls_ambiguities = [], ls_before = {}, ls_after = {}\<rparr>"
  have "local_ok to_hex before after st ?s" using st by (simp add: local_ok_def ambiguous_ids_def)
  then have "yields (visit_relations_fuel fuel to_hex before after 0 ?s) (local_ok to_hex before after st)"
    using fuel by (intro yields_visit_relations [OF wf hashes short]) simp_all
  then obtain s where s: "visit_relations_fuel fuel to_hex before after 0 ?s = Inr s" "local_ok to_hex before after st s"
    by (rule yieldsE)
  have "length (ms_relations (ls_state s)) \<le> length (ps_nodes before)"
    using s(2) state_okD(7) by (auto simp: local_ok_def)
  then show ?thesis using visit_relations_more [OF s(1)] by blast
qed

section \<open>Properties\<close>

text \<open>C3: the matcher always returns, with sound relations and every global anchor. For two parsed trees, \<open>match_trees\<close> yields a
  result: no index is out of range, no debug assertion or \<open>expect\<close> fails and the worklist ends. Its relations, sorted by
  their before node, satisfy what \<open>verify_relations\<close> checks; the evidence of each exact relation is what
  \<open>verify_exact_anchor_evidence\<close> certifies; two equal subtrees that are each alone in their global bucket are related
  exactly, which is what \<open>verify_global_anchor_completeness\<close> demands; and the changes are the events that the verifier
  derives again. The completeness of the local anchors and the stable core are not claimed here: the self check of
  the tool establishes them for each report. Equal subtrees of two parses have equal digests, the last hypothesis.\<close>

theorem match_trees_verified:
  assumes "wf_syntax before" "wf_syntax after" "byte_hashes_agree before after" "short_trees before after" "reordering order"
    and "syntax_hashes_agree before after"
  shows "\<exists>r m. match_trees order to_hex before after = Inr r \<and> verified to_hex before after (mr_relations r) m \<and>
    anchors_certified before after (mr_relations r) m \<and> anchors_complete before after m \<and>
    mr_changes r = sort_key change_order (expected_events to_hex before after m (mr_ambiguities r))"
  using yields_match_trees [OF assms(1-5), of to_hex] assms(6) unfolding produced_def yields_def by blast

text \<open>C17: the matcher is deterministic. The one hash map that it iterates over, the index of the global anchors, may hand out its
  entries in any order without a change of the result: the candidates are sorted by a total key before they are used.\<close>

theorem match_trees_deterministic:
  assumes "wf_syntax before" "wf_syntax after" "reordering order"
  shows "match_trees order to_hex before after = match_trees (\<lambda>xs. xs) to_hex before after"
  unfolding match_trees_def global_anchors_order [OF assms] ..

text \<open>what an ambiguity group says. The groups come in canonical order; each lies below a related pair of parents, with at least
  one endpoint on each side, and every endpoint is a reference, with the metadata of the parse, to a child of the
  parent on its side.\<close>

theorem match_ambiguities_local:
  assumes "wf_syntax before" "wf_syntax after" "byte_hashes_agree before after" "short_trees before after" "reordering order"
    and "match_trees order to_hex before after = Inr r"
  shows "sorted (map ambiguity_key (mr_ambiguities r)) \<and>
    (\<forall>g\<in>set (mr_ambiguities r). produced_group to_hex before after (mr_relations r) g)"
  using match_trees_run [OF assms] match_trees_sorted [OF assms(6)] by (simp add: produced_def)

text \<open>The worklist of the local relations ends. From any state of the matcher, more steps than there are before nodes visit every
  relation, those found on the way included; further fuel changes nothing, and there are never more relations than
  before nodes.\<close>

theorem worklist_ends:
  assumes "wf_syntax before" "wf_syntax after" "byte_hashes_agree before after" "short_trees before after"
    and "state_ok to_hex before after st" "length (ps_nodes before) < fuel"
  shows "\<exists>s. (\<forall>k\<ge>fuel. visit_relations_fuel k to_hex before after 0 \<lparr>ls_state = st, ls_ambiguities = [], ls_before = {}, ls_after = {}\<rparr> = Inr s) \<and>
    length (ms_relations (ls_state s)) \<le> length (ps_nodes before)"
  using assms by (rule worklist_result)

text \<open>C18: producer and verifier agree on a component. The matcher's procedure always returns, and whenever the verifier's budgeted
  procedure returns for the same mappings, both return the same forced pairs and the same ambiguity; the verifier
  may only run out of budget.\<close>

theorem component_agreement:
  assumes "wf_syntax before" "wf_syntax after" "state_ok to_hex before after st"
    and "side_ok before (before_group cg) (comp_before c)" "side_ok after (after_group cg) (comp_after c)"
    and "comp_before c \<noteq> []" "\<forall>i\<in>set (comp_before c). \<exists>g<length (cg_groups cg). before_group cg i = Some g"
  shows "valid (verify_bounded_component before after (phase_of st) cg c) work_failure
    (\<lambda>r. bounded_component_stable_core before after st cg c = Inr r)"
proof -
  obtain m where phase: "phase_ok before after m (phase_of st)" by (rule phase_of_ok [OF assms(3)])
  have groups: "\<And>i. i \<in> set (comp_before c) \<Longrightarrow> \<exists>g<length (cg_groups cg). before_group cg i = Some g" using assms(7) by blast
  note producer = yields_bounded_component [OF assms(1-6) groups]
  note checker = valid_verify_bounded_component [OF assms(1,2) phase assms(4-6) groups]
  obtain p where p: "bounded_component_stable_core before after st cg c = Inr p"
    "component_result cg (comp_before c) (comp_after c) (matrix_of (candidate_pair before after (phase_of st) cg) (comp_before c) (comp_after c)) p"
    using producer by (rule yieldsE)
  have same: "bounded_component_stable_core before after st cg c = Inr r"
    if "component_result cg (comp_before c) (comp_after c) (matrix_of (candidate_pair before after (phase_of st) cg) (comp_before c) (comp_after c)) r" for r
    unfolding p(1) component_result_unique [OF p(2) that] ..
  show ?thesis
    by (rule valid_conseq [OF checker]) (assumption | erule same)+
qed

end
