(* ===== verification/Analyze.thy ===== *)
theory Analyze
  imports Matcher_Total Verifier Patch_Create Language
begin

text \<open>
  The producer of reports (\<open>src/lib.rs\<close>): \<open>analyze_files\<close>, \<open>analyze_bytes\<close> and \<open>analyze_bytes_with_limits\<close>. Two sources are
  parsed within one node budget, matched and patched, the patch is certified, the report assembled and then
  verified by the independent verifier before it is returned.

  A returned report is accepted by the verifier, and the producer never stops: every failure is one of its error
  values, and with the default limits the certificate is never one of them.
\<close>

section \<open>Errors\<close>

text \<open>One constructor per \<open>bail!\<close>, \<open>context\<close> and \<open>map_err\<close>. \<open>Stopped\<close> is a panic of the matcher or of the patch code, which
  return no \<open>Result\<close>.\<close>

datatype analyze_failure =
    Undetected detect_failure
  | LanguagesDiffer language language
  | Unreadable string
  | BeforeSourceLimit nat nat
  | AfterSourceLimit nat nat
  | BeforeParse failure
  | BeforeNodesLimit
  | AfterParse failure
  | RootsDiffer string string
  | Stopped failure
  | Uncertified failure
  | SelfCheck failure

type_synonym 'a analysis = "analyze_failure + 'a"

definition map_err :: "('e \<Rightarrow> 'f) \<Rightarrow> 'e + 'a \<Rightarrow> 'f + 'a" where
  "map_err f m = (case m of Inl e \<Rightarrow> Inl (f e) | Inr x \<Rightarrow> Inr x)"

definition abind :: "'a analysis \<Rightarrow> ('a \<Rightarrow> 'b analysis) \<Rightarrow> 'b analysis" where
  "abind m f = (case m of Inl e \<Rightarrow> Inl e | Inr x \<Rightarrow> f x)"

definition bail_if :: "bool \<Rightarrow> analyze_failure \<Rightarrow> unit analysis" where
  "bail_if b e = (if b then Inl e else Inr ())"

lemma abind_simps [simp]: "abind (Inl e) f = Inl e" "abind (Inr x) f = f x"
  by (simp_all add: abind_def)

lemma map_err_simps [simp]: "map_err f (Inl e) = Inl (f e)" "map_err f (Inr x) = Inr x"
  by (simp_all add: map_err_def)

lemma abind_Inr_iff: "abind m f = Inr y \<longleftrightarrow> (\<exists>x. m = Inr x \<and> f x = Inr y)"
  by (cases m) auto

lemma abind_Inl_iff: "abind m f = Inl e \<longleftrightarrow> m = Inl e \<or> (\<exists>x. m = Inr x \<and> f x = Inl e)"
  by (cases m) auto

lemma map_err_Inr_iff [simp]: "map_err f m = Inr y \<longleftrightarrow> m = Inr y"
  by (cases m) auto

lemma map_err_Inl_iff: "map_err f m = Inl e \<longleftrightarrow> (\<exists>e'. m = Inl e' \<and> e = f e')"
  by (cases m) auto

lemma bail_if_iff [simp]: "bail_if b e = Inr u \<longleftrightarrow> \<not> b" "bail_if b e = Inl e' \<longleftrightarrow> b \<and> e' = e"
  by (auto simp: bail_if_def)

section \<open>The producer\<close>

text \<open>What the producer calls besides what the verifier calls: the base64 encoder, the two diff algorithms and the
  iteration order of a hash map.\<close>

record tools =
  engine_externals :: externals
  encode_base64 :: "bytes \<Rightarrow> string"
  diff_lines :: "bytes differ"
  diff_bytes :: "u8 differ"
  map_order :: "exact_buckets \<Rightarrow> exact_buckets"

definition artifact_for :: "tools \<Rightarrow> string \<Rightarrow> bytes \<Rightarrow> artifact" where
  "artifact_for tk lbl octets =
     \<lparr>path = lbl, byte_len = length octets, artifact_blake3 = digest (engine_externals tk) octets\<rparr>"

definition manifest_for :: "tools \<Rightarrow> language \<Rightarrow> parsed_syntax \<Rightarrow> parsed_syntax \<Rightarrow> parser_manifest" where
  "manifest_for tk l before after =
     (let ext = engine_externals tk in
      \<lparr>engine = parser_engine l, runtime_version = parser_runtime_version l, manifest_language = l,
       grammar_name = grammar_name_of l, grammar_version = grammar_version_of l,
       grammar_abi = grammar_abi_of (ext_tree_sitter ext) l,
       node_types_blake3 = digest ext (as_bytes (node_types (ext_tree_sitter ext) l)),
       coordinate_unit = coordinate_unit_of l, manifest_root_kind = ps_root_kind before,
       before_nodes = length (ps_nodes before), after_nodes = length (ps_nodes after), error_free = True\<rparr>)"

definition assemble_report ::
  "tools \<Rightarrow> string \<Rightarrow> string \<Rightarrow> language \<Rightarrow> parsed_syntax \<Rightarrow> parsed_syntax \<Rightarrow> match_result \<Rightarrow> lossless_patch \<Rightarrow>
   replay_certificate \<Rightarrow> diff_report" where
  "assemble_report tk before_label after_label l before after matched p cert =
     \<lparr>schema = REPORT_SCHEMA, engine_version = REPORT_ENGINE_VERSION,
      report_before = artifact_for tk before_label (ps_source before),
      report_after = artifact_for tk after_label (ps_source after),
      parser = manifest_for tk l before after,
      relations = mr_relations matched, ambiguities = mr_ambiguities matched, changes = mr_changes matched,
      patch = p, certificate = cert,
      report_summary =
        \<lparr>model_forced_relations = length (filter (\<lambda>r. rel_correspondence r = ModelForced) (mr_relations matched)),
         suggested_relations = length (filter (\<lambda>r. rel_correspondence r = Suggested) (mr_relations matched)),
         summary.ambiguity_groups = length (mr_ambiguities matched),
         structural_changes = length (mr_changes matched)\<rparr>\<rparr>"

definition parse_pair ::
  "tools \<Rightarrow> bytes \<Rightarrow> bytes \<Rightarrow> language \<Rightarrow> verification_limits \<Rightarrow> (parsed_syntax \<times> parsed_syntax) analysis" where
  "parse_pair tk before after l limits =
     (let ext = engine_externals tk; parse = parse_with_limits (ext_blake3 ext) (ext_tree_sitter ext) in
      abind (bail_if (length before > max_source_bytes limits) (BeforeSourceLimit (length before) (max_source_bytes limits))) (\<lambda>_.
      abind (bail_if (length after > max_source_bytes limits) (AfterSourceLimit (length after) (max_source_bytes limits))) (\<lambda>_.
      abind (map_err BeforeParse (parse before l (parse_limits_of limits (max_syntax_nodes limits)))) (\<lambda>pb.
      abind (case usize_checked_sub (max_syntax_nodes limits) (length (ps_nodes pb)) of
               None \<Rightarrow> Inl BeforeNodesLimit | Some n \<Rightarrow> Inr n) (\<lambda>remaining.
      abind (map_err AfterParse (parse after l (parse_limits_of limits remaining))) (\<lambda>pa.
      abind (bail_if (ps_root_kind pb \<noteq> ps_root_kind pa) (RootsDiffer (ps_root_kind pb) (ps_root_kind pa))) (\<lambda>_.
        Inr (pb, pa))))))))"

definition analyze_bytes_with_limits ::
  "tools \<Rightarrow> bytes \<Rightarrow> bytes \<Rightarrow> string \<Rightarrow> string \<Rightarrow> language \<Rightarrow> verification_limits \<Rightarrow> diff_report analysis" where
  "analyze_bytes_with_limits tk before after before_label after_label l limits =
     (let ext = engine_externals tk in
      abind (parse_pair tk before after l limits) (\<lambda>(pb, pa).
      abind (map_err Stopped (match_trees (map_order tk) (ext_to_hex ext) pb pa)) (\<lambda>matched.
      abind (map_err Stopped (create_patch (encode_base64 tk) (diff_lines tk) (diff_bytes tk) (ps_source pb) (ps_source pa))) (\<lambda>p.
      abind (map_err Uncertified (create_certificate (ext_base64 ext) (digest ext) (ps_source pb) (ps_source pa) p limits)) (\<lambda>cert.
      let report = assemble_report tk before_label after_label l pb pa matched p cert in
      abind (map_err SelfCheck (verify_report_with_limits ext report (ps_source pb) (ps_source pa) limits)) (\<lambda>_.
        Inr report))))))"

definition analyze_bytes ::
  "tools \<Rightarrow> bytes \<Rightarrow> bytes \<Rightarrow> string \<Rightarrow> string \<Rightarrow> language \<Rightarrow> diff_report analysis" where
  "analyze_bytes tk before after before_label after_label l =
     analyze_bytes_with_limits tk before after before_label after_label l verification_limits_default"

text \<open>The file system is a parameter: the bytes of a readable path. A path is its text.\<close>

definition analyze_files ::
  "tools \<Rightarrow> (string \<Rightarrow> bytes option) \<Rightarrow> string \<Rightarrow> string \<Rightarrow> language option \<Rightarrow> diff_report analysis" where
  "analyze_files tk file_bytes before_path after_path chosen =
     abind (case chosen of
              Some l \<Rightarrow> Inr l
            | None \<Rightarrow>
                abind (map_err Undetected (detect before_path)) (\<lambda>bl.
                abind (map_err Undetected (detect after_path)) (\<lambda>al.
                abind (bail_if (bl \<noteq> al) (LanguagesDiffer bl al)) (\<lambda>_. Inr bl)))) (\<lambda>l.
     abind (case file_bytes before_path of None \<Rightarrow> Inl (Unreadable before_path) | Some bs \<Rightarrow> Inr bs) (\<lambda>before.
     abind (case file_bytes after_path of None \<Rightarrow> Inl (Unreadable after_path) | Some bs \<Rightarrow> Inr bs) (\<lambda>after.
       analyze_bytes tk before after before_path after_path l)))"

section \<open>The two parses\<close>

text \<open>The limits that the model needs: lengths and node counts that a machine integer can hold.\<close>

definition machine_limits :: "verification_limits \<Rightarrow> bool" where
  "machine_limits limits \<longleftrightarrow> 2 * max_source_bytes limits + 4 \<le> usize_max \<and> max_syntax_nodes limits < usize_max"

definition parses_to ::
  "tools \<Rightarrow> bytes \<Rightarrow> bytes \<Rightarrow> language \<Rightarrow> verification_limits \<Rightarrow> parsed_syntax \<Rightarrow> parsed_syntax \<Rightarrow> bool" where
  "parses_to tk before after l limits pb pa \<longleftrightarrow>
     (let parse = parse_with_limits (ext_blake3 (engine_externals tk)) (ext_tree_sitter (engine_externals tk)) in
      length before \<le> max_source_bytes limits \<and> length after \<le> max_source_bytes limits \<and>
      parse before l (parse_limits_of limits (max_syntax_nodes limits)) = Inr pb \<and>
      parse after l (parse_limits_of limits (max_syntax_nodes limits - length (ps_nodes pb))) = Inr pa \<and>
      length (ps_nodes pb) \<le> max_syntax_nodes limits \<and> ps_root_kind pb = ps_root_kind pa)"

lemma parse_pair_Inr: "parse_pair tk before after l limits = Inr (pb, pa) \<longleftrightarrow> parses_to tk before after l limits pb pa"
  unfolding parse_pair_def parses_to_def Let_def
  by (auto simp: abind_Inr_iff usize_checked_sub_def split: option.splits if_splits)

text \<open>Equal bytes have equal digests in two parses with the same hash.\<close>

lemma parses_agree:
  assumes pb: "parse_with_limits blake3 ts before l limits = Inr pb" and pa: "parse_with_limits blake3 ts' after l limits' = Inr pa"
  shows "byte_hashes_agree pb pa"
  unfolding byte_hashes_agree_def
proof (intro allI impI)
  fix i j assume ij: "i < length (ps_nodes pb)" "j < length (ps_nodes pa)" and same: "bytes_same pb i pa j"
  note wf = parse_wf(1) [OF pb] parse_wf(1) [OF pa] and src = parse_wf(2) [OF pb] parse_wf(2) [OF pa]
  obtain t u where t: "parsed blake3 before l pb t" and u: "parsed blake3 after l pa u"
    using parse_parsed [OF pb] parse_parsed [OF pa] by metis
  obtain bs where "node_bytes pb i = Inr bs" "node_bytes pa j = Inr bs"
    using arena_node_bytes [of pb i] wf ij same by (auto simp: bytes_same_def in_arena_def)
  then show "node_byte_hash (ps_nodes pb ! i) = node_byte_hash (ps_nodes pa ! j)"
    using parsed_byte_hash [OF t ij(1)] parsed_byte_hash [OF u ij(2)] ij src by (simp add: node_bytes_def)
qed

lemma parses_syntax_agree:
  assumes pb: "parse_with_limits blake3 ts before l limits = Inr pb" and pa: "parse_with_limits blake3 ts' after l limits' = Inr pa"
  shows "syntax_hashes_agree pb pa"
proof -
  obtain t u where "parsed blake3 before l pb t" "parsed blake3 after l pa u"
    using parse_parsed [OF pb] parse_parsed [OF pa] by metis
  then show ?thesis unfolding syntax_hashes_agree_def using parsed_digests(1) by blast
qed

lemma parses_to_facts:
  assumes "parses_to tk before after l limits pb pa"
  shows "wf_syntax pb" "wf_syntax pa" "ps_source pb = before" "ps_source pa = after"
    "length (ps_nodes pb) \<le> max_syntax_nodes limits" "length (ps_nodes pa) \<le> max_syntax_nodes limits"
    "byte_hashes_agree pb pa" "syntax_hashes_agree pb pa"
proof -
  have pb: "parse_with_limits (ext_blake3 (engine_externals tk)) (ext_tree_sitter (engine_externals tk)) before l
      (parse_limits_of limits (max_syntax_nodes limits)) = Inr pb"
    and pa: "parse_with_limits (ext_blake3 (engine_externals tk)) (ext_tree_sitter (engine_externals tk)) after l
      (parse_limits_of limits (max_syntax_nodes limits - length (ps_nodes pb))) = Inr pa"
    using assms by (simp_all add: parses_to_def Let_def)
  show "wf_syntax pb" "wf_syntax pa" "ps_source pb = before" "ps_source pa = after"
    "length (ps_nodes pb) \<le> max_syntax_nodes limits" "length (ps_nodes pa) \<le> max_syntax_nodes limits"
    using parse_wf [OF pb] parse_wf [OF pa] by (auto simp: parse_limits_of_def)
  show "byte_hashes_agree pb pa" "syntax_hashes_agree pb pa" by (rule parses_agree [OF pb pa], rule parses_syntax_agree [OF pb pa])
qed

section \<open>The tools\<close>

lemma limit_write_not_crash: "limit_writer_write wr c = Inl e \<Longrightarrow> \<not> crash e"
  by (auto simp: limit_writer_write_def split: option.splits if_splits)

lemma write_chunks_not_crash: "write_chunks wr cs = Inl e \<Longrightarrow> \<not> crash e"
  by (induction cs arbitrary: wr) (auto simp: rbind_def dest: limit_write_not_crash split: sum.splits)

lemma measure_not_crash: "measure_report_bytes chunks report limits = Inl e \<Longrightarrow> \<not> crash e"
  by (auto simp: measure_report_bytes_def rbind_def dest: write_chunks_not_crash split: sum.splits)

text \<open>The documented behaviour of what the producer calls: nodes of tree-sitter lie in the source, the base64 decoder inverts
  the encoder, a diff script covers both sides, and the iteration of a map visits every entry once.\<close>

locale sound_tools =
  fixes tk :: tools
  assumes engine_lawful: "lawful (engine_externals tk)"
    and base64: "base64_standard (encode_base64 tk) (ext_base64 (engine_externals tk))"
    and scripts: "diff_script (diff_lines tk)" "diff_script (diff_bytes tk)"
    and map_order: "reordering (map_order tk)"
begin

lemma match_pair:
  assumes "parses_to tk before after l limits pb pa" "machine_limits limits"
  obtains r where "match_trees (map_order tk) (ext_to_hex (engine_externals tk)) pb pa = Inr r"
    "produced (ext_to_hex (engine_externals tk)) pb pa r"
proof -
  note facts = parses_to_facts [OF assms(1)]
  have "short_trees pb pa" using facts(5,6) assms(2) by (simp add: short_trees_def machine_limits_def)
  then show ?thesis
    using yields_match_trees [OF facts(1,2,7) _ map_order] that by (blast elim: yieldsE)
qed

lemma patch_pair:
  assumes "parses_to tk before after l limits pb pa" "machine_limits limits"
  obtains p where "create_patch (encode_base64 tk) (diff_lines tk) (diff_bytes tk) before after = Inr p"
    "machine_sized (edits p)"
proof -
  obtain p where p: "create_patch (encode_base64 tk) (diff_lines tk) (diff_bytes tk) before after = Inr p"
    "all_encoded (encode_base64 tk) (edits p)"
    "rewriting (ext_base64 (engine_externals tk)) before after 0 (length before) 0 (length after) (edits p)"
    using base64_standard.create_patch_rewrites [OF base64 scripts] by blast
  have "2 * length after + 4 \<le> usize_max" using assms by (simp add: parses_to_def machine_limits_def Let_def)
  then show ?thesis using that [OF p(1)] base64_standard.rewriting_sized(1) [OF base64 p(3,2)] by blast
qed

lemma certificate_safe:
  assumes "create_certificate (ext_base64 (engine_externals tk)) hash before after p limits = Inl e"
    "machine_sized (edits p)" "machine_limits limits"
  shows "\<not> crash e"
  using assms replay_not_crash [OF base64 assms(2), of limits before]
  by (auto simp: create_certificate_def machine_limits_def rbind_def split: sum.splits if_splits)

lemma self_check_safe:
  assumes "verify_report_with_limits (engine_externals tk) report before after limits = Inl e"
    "machine_sized (edits (patch report))" "machine_limits limits"
  shows "\<not> crash e"
proof -
  have "machine_report report limits" using assms(2,3) by (simp add: machine_report_def machine_limits_def)
  then show ?thesis
    using assms(1) report_inner_safe [OF engine_lawful base64] measure_not_crash
    by (auto simp: verify_report_with_limits_def rbind_def split: sum.splits)
qed

end

section \<open>What the producer returns\<close>

lemma analyze_Inr:
  assumes "analyze_bytes_with_limits tk before after before_label after_label l limits = Inr report"
  obtains pb pa matched p cert stats where "parses_to tk before after l limits pb pa"
    "match_trees (map_order tk) (ext_to_hex (engine_externals tk)) pb pa = Inr matched"
    "create_patch (encode_base64 tk) (diff_lines tk) (diff_bytes tk) before after = Inr p"
    "report = assemble_report tk before_label after_label l pb pa matched p cert"
    "verify_report_with_limits (engine_externals tk) report before after limits = Inr stats"
proof -
  obtain pb pa where pair: "parse_pair tk before after l limits = Inr (pb, pa)"
    using assms by (cases "parse_pair tk before after l limits") (auto simp: analyze_bytes_with_limits_def)
  note facts = parse_pair_Inr [THEN iffD1, OF pair]
  note src = parses_to_facts(3,4) [OF facts]
  from assms show ?thesis
    unfolding analyze_bytes_with_limits_def Let_def pair abind_simps prod.case src
    by (auto simp: abind_Inr_iff intro: that [OF facts])
qed

lemma analyze_accepted_report:
  assumes "lawful (engine_externals tk)"
    and "analyze_bytes_with_limits tk before after before_label after_label l limits = Inr report"
  shows "\<exists>stats. verify_report_with_limits (engine_externals tk) report before after limits = Inr stats \<and>
    accepted (engine_externals tk) report before after limits stats"
proof -
  obtain stats where run: "verify_report_with_limits (engine_externals tk) report before after limits = Inr stats"
    using analyze_Inr [OF assms(2)] by metis
  then obtain n where "verify_report_inner (engine_externals tk) report before after limits n None = Inr stats"
    by (auto simp: verify_report_with_limits_def rbind_Inr_iff)
  then show ?thesis using run report_inner_sound [OF assms(1)] by blast
qed

text \<open>The panics among the failures of the producer.\<close>

fun analysis_crash :: "analyze_failure \<Rightarrow> bool" where
  "analysis_crash (BeforeParse e) = crash e"
| "analysis_crash (AfterParse e) = crash e"
| "analysis_crash (Stopped e) = True"
| "analysis_crash (Uncertified e) = crash e"
| "analysis_crash (SelfCheck e) = crash e"
| "analysis_crash _ = False"

lemma parse_pair_Inl: "parse_pair tk before after l limits = Inl e \<Longrightarrow> \<not> (\<exists>f. e = Uncertified f)"
  unfolding parse_pair_def Let_def
  by (auto simp: abind_Inl_iff map_err_Inl_iff split: option.splits)

lemma parse_pair_safe:
  assumes "lawful (engine_externals tk)" "parse_pair tk before after l limits = Inl e"
  shows "\<not> analysis_crash e"
  using assms parse_failure
  unfolding parse_pair_def Let_def
  by (fastforce simp: abind_Inl_iff map_err_Inl_iff lawful_def split: option.splits)

context sound_tools
begin

lemma analyze_safe:
  assumes limits: "machine_limits limits"
    and run: "analyze_bytes_with_limits tk before after before_label after_label l limits = Inl e"
  shows "\<not> analysis_crash e"
proof (cases "parse_pair tk before after l limits")
  case (Inl e')
  then have "e' = e" using run by (simp add: analyze_bytes_with_limits_def)
  then show ?thesis using Inl parse_pair_safe [OF engine_lawful] by simp
next
  case (Inr pair)
  obtain pb pa where pair: "parse_pair tk before after l limits = Inr (pb, pa)" using Inr by (cases pair) simp
  then have ok: "parses_to tk before after l limits pb pa" by (simp add: parse_pair_Inr)
  obtain r where r: "match_trees (map_order tk) (ext_to_hex (engine_externals tk)) pb pa = Inr r"
    by (rule match_pair [OF ok limits])
  obtain p where p: "create_patch (encode_base64 tk) (diff_lines tk) (diff_bytes tk) before after = Inr p" "machine_sized (edits p)"
    by (rule patch_pair [OF ok limits])
  have sized: "machine_sized (edits (patch (assemble_report tk before_label after_label l pb pa r p cert)))" for cert
    using p(2) by (simp add: assemble_report_def)
  show ?thesis
    using run certificate_safe [OF _ p(2) limits] self_check_safe [OF _ sized limits]
    unfolding analyze_bytes_with_limits_def Let_def pair abind_simps prod.case parses_to_facts(3,4) [OF ok] r p(1) map_err_simps
    by (auto simp: abind_Inl_iff map_err_Inl_iff)
qed

text \<open>With limits that leave room for any patch, the certificate cannot fail: what is left are the limits, the parsers and
  the self check.\<close>

lemma analyze_certifies:
  assumes limits: "machine_limits limits"
    and room: "PATCH_EDIT_BUDGET \<le> max_patch_edits limits" "max_source_bytes limits \<le> max_decoded_replacement_bytes limits"
      "max_decoded_replacement_bytes limits \<le> usize_max"
    and run: "analyze_bytes_with_limits tk before after before_label after_label l limits = Inl e"
  shows "\<not> (\<exists>f. e = Uncertified f)"
proof (cases "parse_pair tk before after l limits")
  case (Inl e')
  then have "e' = e" using run by (simp add: analyze_bytes_with_limits_def)
  then show ?thesis using Inl parse_pair_Inl by blast
next
  case (Inr pair)
  obtain pb pa where pair: "parse_pair tk before after l limits = Inr (pb, pa)" using Inr by (cases pair) simp
  then have ok: "parses_to tk before after l limits pb pa" by (simp add: parse_pair_Inr)
  have len: "length before \<le> max_source_bytes limits" "length after \<le> max_source_bytes limits" "2 * max_source_bytes limits + 4 \<le> usize_max"
    using ok limits by (simp_all add: parses_to_def Let_def machine_limits_def)
  have replay: "replay_patch_with_limits (ext_base64 (engine_externals tk)) before p limits = Inr after"
    if "create_patch (encode_base64 tk) (diff_lines tk) (diff_bytes tk) before after = Inr p" for p
    using base64_standard.create_patch_replays [OF base64 scripts len(1,2) room len(3)] that by auto
  show ?thesis
    using run
    unfolding analyze_bytes_with_limits_def Let_def pair abind_simps prod.case parses_to_facts(3,4) [OF ok]
    by (auto simp: abind_Inl_iff map_err_Inl_iff create_certificate_def replay)
qed

end

section \<open>Which failures are possible\<close>

definition pair_failure :: "bytes \<Rightarrow> bytes \<Rightarrow> verification_limits \<Rightarrow> analyze_failure \<Rightarrow> bool" where
  "pair_failure before after limits e \<longleftrightarrow>
     e = BeforeSourceLimit (length before) (max_source_bytes limits) \<and> max_source_bytes limits < length before \<or>
     e = AfterSourceLimit (length after) (max_source_bytes limits) \<and> max_source_bytes limits < length after \<or>
     (\<exists>pf. e = BeforeParse (ParseFailure pf) \<or> e = AfterParse (ParseFailure pf)) \<or>
     (\<exists>k k'. e = RootsDiffer k k' \<and> k \<noteq> k')"

lemma parse_pair_failures:
  assumes ext: "lawful (engine_externals tk)" and run: "parse_pair tk before after l limits = Inl e"
  shows "pair_failure before after limits e"
proof -
  let ?parse = "parse_with_limits (ext_blake3 (engine_externals tk)) (ext_tree_sitter (engine_externals tk))"
  have failed: "\<exists>pf. e' = ParseFailure pf" if "?parse source l ls = Inl e'" for source ls e'
    using parse_failure that ext by (auto simp: lawful_def)
  have fits: "usize_checked_sub (max_syntax_nodes limits) (length (ps_nodes pb)) \<noteq> None"
    if "?parse before l (parse_limits_of limits (max_syntax_nodes limits)) = Inr pb" for pb
    using parse_wf(4) [OF that] by (simp add: usize_checked_sub_def parse_limits_of_def)
  show ?thesis
    using run failed fits unfolding parse_pair_def Let_def pair_failure_def
    by (fastforce simp: abind_Inl_iff map_err_Inl_iff split: option.splits)
qed

context sound_tools
begin

lemma analyze_failures_default:
  assumes "analyze_bytes tk before after before_label after_label l = Inl e"
  shows "pair_failure before after verification_limits_default e \<or> (\<exists>f. e = SelfCheck f \<and> \<not> crash f)"
proof -
  let ?limits = verification_limits_default
  have run: "analyze_bytes_with_limits tk before after before_label after_label l ?limits = Inl e"
    using assms by (simp add: analyze_bytes_def)
  have limits: "machine_limits ?limits" using default_limits_fit by (simp add: machine_limits_def verification_limits_default_def usize_max_def)
  have safe: "\<not> analysis_crash e" by (rule analyze_safe [OF limits run])
  have certified: "\<not> (\<exists>f. e = Uncertified f)" by (rule analyze_certifies [OF limits default_limits_fit(1-3) run])
  show ?thesis
  proof (cases "parse_pair tk before after l ?limits")
    case (Inl e')
    then have "e' = e" using run by (simp add: analyze_bytes_with_limits_def)
    then show ?thesis using parse_pair_failures [OF engine_lawful] Inl by blast
  next
    case (Inr pair)
    then have "(\<exists>f. e = Stopped f) \<or> (\<exists>f. e = Uncertified f) \<or> (\<exists>f. e = SelfCheck f)"
      using run by (auto simp: analyze_bytes_with_limits_def Let_def abind_Inl_iff map_err_Inl_iff split: prod.splits)
    then show ?thesis using safe certified by auto
  qed
qed

end

section \<open>Properties\<close>

text \<open>C4: what the producer returns is accepted. If \<open>analyze_bytes_with_limits\<close> returns a report, the independent verifier accepts
  it about the two sources under the same limits, so that everything an accepted report claims holds of it, and the
  report carries the labels and the language of the call. A report that the verifier would reject is never returned.\<close>

theorem analyze_accepted:
  assumes "lawful (engine_externals tk)"
    and "analyze_bytes_with_limits tk before after before_label after_label l limits = Inr report"
  shows "(\<exists>stats. verify_report_with_limits (engine_externals tk) report before after limits = Inr stats \<and>
      accepted (engine_externals tk) report before after limits stats) \<and>
    path (report_before report) = before_label \<and> path (report_after report) = after_label \<and>
    manifest_language (parser report) = l"
proof -
  obtain pb pa matched p cert where "report = assemble_report tk before_label after_label l pb pa matched p cert"
    by (rule analyze_Inr [OF assms(2)])
  then show ?thesis
    using analyze_accepted_report [OF assms] by (simp add: assemble_report_def artifact_for_def manifest_for_def Let_def)
qed

text \<open>C32: the producer never stops the program. With tools that behave as documented and limits that fit a machine integer, every
  failure of \<open>analyze_bytes_with_limits\<close> is one of its error values: neither the matcher nor the patch code panics, and
  nothing that the parsers, the certificate or the self check report is a panic or a runaway recursion.\<close>

theorem analyze_never_crashes:
  assumes "lawful (engine_externals tk)" "base64_standard (encode_base64 tk) (ext_base64 (engine_externals tk))"
    and "diff_script (diff_lines tk)" "diff_script (diff_bytes tk)" "reordering (map_order tk)" "machine_limits limits"
    and "analyze_bytes_with_limits tk before after before_label after_label l limits = Inl e"
  shows "\<not> analysis_crash e"
  by (rule sound_tools.analyze_safe [OF sound_tools.intro [OF assms(1-5)] assms(6,7)])

text \<open>C31: the ways to fail under the default limits. \<open>analyze_bytes\<close> fails because a source is too long, a source does not parse
  within its limits, the roots of the two parses differ, or the verifier rejects the report; the node budget that the
  first parse leaves never underflows, and the certificate is never the reason.\<close>

theorem analyze_failures:
  assumes "lawful (engine_externals tk)" "base64_standard (encode_base64 tk) (ext_base64 (engine_externals tk))"
    and "diff_script (diff_lines tk)" "diff_script (diff_bytes tk)" "reordering (map_order tk)"
    and "analyze_bytes tk before after before_label after_label l = Inl e"
  shows "pair_failure before after verification_limits_default e \<or> (\<exists>f. e = SelfCheck f \<and> \<not> crash f)"
  by (rule sound_tools.analyze_failures_default [OF sound_tools.intro [OF assms(1-5)] assms(6)])

end
