(* ===== verification/Sample_Producer.thy ===== *)
theory Sample_Producer
  imports Matcher_Properties Analyze
begin

text \<open>
  The producer on concrete sources: it turns the file \<open>a\<close> into \<open>b\<close> with exactly the report of \<open>Sample_Report\<close>, and two files of
  two identifiers each have one ambiguity, the two pairs being interchangeable. It instantiates the hypotheses of the
  properties of \<open>Matcher_Properties\<close> and \<open>Analyze\<close>.
\<close>

definition sample_tools :: tools where
  "sample_tools = \<lparr>engine_externals = sample_externals, encode_base64 = rfc4648_encode, diff_lines = whole_differ,
     diff_bytes = whole_differ, map_order = rev\<rparr>"

interpretation sample: sound_tools sample_tools
proof (rule sound_tools.intro)
  have "base64_standard rfc4648_encode rfc4648_decode" by (rule rfc4648.base64_standard_axioms)
  then show "base64_standard (encode_base64 sample_tools) (ext_base64 (engine_externals sample_tools))"
    by (simp add: sample_tools_def sample_externals_def)
qed (simp_all add: sample_tools_def sample_lawful whole_differ_script reordering_def)

lemma sample_analyze_run:
  "analyze_bytes_with_limits sample_tools [97] [98] ''a.txt'' ''b.txt'' Rust verification_limits_default = Inr sample_report"
  by code_simp

lemma sample_work_run:
  "analyze_bytes_with_limits sample_tools [97] [98] ''a.txt'' ''b.txt'' Rust (verification_limits_default\<lparr>max_verification_work := 10\<rparr>)
     = Inl (SelfCheck (WorkLimitExceeded 11 10))"
  by code_simp

theorem analyze_accepted_witness:
  "\<exists>stats. verify_report_with_limits sample_externals sample_report [97] [98] verification_limits_default = Inr stats \<and>
     accepted sample_externals sample_report [97] [98] verification_limits_default stats"
  using analyze_accepted [OF sample.engine_lawful sample_analyze_run] by (simp add: sample_tools_def)

section \<open>Two twins\<close>

definition twin_grammar :: ts_runtime where
  "twin_grammar = sample_grammar\<lparr>parse_tree := (\<lambda>_ source.
     let leaf = (\<lambda>i. Ts_Node ''identifier'' True False False False (Some ''name'')
           \<lparr>start_byte = i, end_byte = i + 1, span_start = \<lparr>row = 0, column = i\<rparr>, span_end = \<lparr>row = 0, column = i + 1\<rparr>\<rparr> []) in
     Some (Ts_Node ''source_file'' True False False False None (source_span source) (map leaf [0..<length source])))\<rparr>"

definition twin_syntax :: "bytes \<Rightarrow> parsed_syntax" where
  "twin_syntax source =
     (case parse_with_limits (\<lambda>_. []) twin_grammar source Rust (parse_limits_of verification_limits_default 10) of
        Inr ps \<Rightarrow> ps | Inl _ \<Rightarrow> sample_before)"

abbreviation "twins_before \<equiv> twin_syntax [97, 98]"
abbreviation "twins_after \<equiv> twin_syntax [99, 100]"

lemma twin_parse:
  "parse_with_limits (\<lambda>_. []) twin_grammar [97, 98] Rust (parse_limits_of verification_limits_default 10) = Inr twins_before"
  "parse_with_limits (\<lambda>_. []) twin_grammar [99, 100] Rust (parse_limits_of verification_limits_default 10) = Inr twins_after"
  by code_simp+

lemma twin_run:
  "rbind (match_trees rev no_hex twins_before twins_after) (\<lambda>r. Inr (length (mr_relations r), map (\<lambda>g. (length (group_before g), length (group_after g))) (mr_ambiguities r))) = Inr (1, [(2, 2)])"
  by code_simp

lemma twin_wf: "wf_syntax twins_before" "wf_syntax twins_after"
  by (rule parse_wf(1) [OF twin_parse(1)], rule parse_wf(1) [OF twin_parse(2)])

lemma twin_hashes: "byte_hashes_agree twins_before twins_after"
  by (rule parses_agree [OF twin_parse])

lemma twin_lengths: "length (ps_nodes twins_before) = 3" "length (ps_nodes twins_after) = 3"
  by code_simp+

lemma twin_short: "short_trees twins_before twins_after"
  by (simp add: short_trees_def twin_lengths usize_max_def)

lemma rev_reordering: "reordering rev"
  by (simp add: reordering_def)

section \<open>The matcher on the twins\<close>

lemma twin_result:
  obtains r where "match_trees rev no_hex twins_before twins_after = Inr r" "length (mr_relations r) = 1"
    "map (\<lambda>g. (length (group_before g), length (group_after g))) (mr_ambiguities r) = [(2, 2)]"
  using twin_run by (auto simp: rbind_Inr_iff)

theorem match_trees_deterministic_witness:
  "match_trees rev no_hex twins_before twins_after = match_trees (\<lambda>xs. xs) no_hex twins_before twins_after"
  by (rule match_trees_deterministic [OF twin_wf rev_reordering])

theorem match_ambiguities_local_witness:
  "\<exists>r g. match_trees rev no_hex twins_before twins_after = Inr r \<and> mr_ambiguities r = [g] \<and> length (group_before g) = 2 \<and>
    produced_group no_hex twins_before twins_after (mr_relations r) g"
proof -
  obtain r where r: "match_trees rev no_hex twins_before twins_after = Inr r"
    "map (\<lambda>g. (length (group_before g), length (group_after g))) (mr_ambiguities r) = [(2, 2)]"
    by (rule twin_result)
  then show ?thesis
    using match_ambiguities_local [OF twin_wf twin_hashes twin_short rev_reordering r(1)] by auto
qed

section \<open>The worklist and a component, on the sample\<close>

text \<open>The state after the input pair.\<close>

definition sample_state :: mapping_state where
  "sample_state = add_relation root_relation (mapping_state_new sample_before sample_after)"

lemma sample_state_ok: "state_ok no_hex sample_before sample_after sample_state"
  unfolding sample_state_def
proof (rule add_relation_ok [OF state_ok_new])
  show "relation_verified no_hex sample_before sample_after root_relation"
    using sample_verified by (simp add: verified_def relations_verified_def sample_report_def)
qed (simp_all add: mapping_state_new_def root_relation_def sample_ref_def as_ref_def sample_syntax_def sample_node_def)

lemma sample_hashes: "byte_hashes_agree sample_before sample_after"
  by (rule parses_agree [OF sample_parse])

lemma sample_short: "short_trees sample_before sample_after"
  by (simp add: short_trees_def usize_max_def)

theorem worklist_ends_witness:
  "\<exists>s. visit_relations_fuel 3 no_hex sample_before sample_after 0 \<lparr>ls_state = sample_state, ls_ambiguities = [], ls_before = {}, ls_after = {}\<rparr> = Inr s \<and>
    visit_relations_fuel 7 no_hex sample_before sample_after 0 \<lparr>ls_state = sample_state, ls_ambiguities = [], ls_before = {}, ls_after = {}\<rparr> = Inr s \<and>
    length (ms_relations (ls_state s)) \<le> 2"
  using worklist_ends [OF sample_wf sample_hashes sample_short sample_state_ok, of 3] by fastforce

theorem component_agreement_witness:
  "bounded_component_stable_core sample_before sample_after sample_state sample_groups
     \<lparr>comp_before = [1], comp_after = [1], comp_groups = [0]\<rparr> = Inr \<lparr>forced = [(1, 1)], outcome_ambiguities = []\<rparr>"
proof -
  let ?c = "\<lparr>comp_before = [1], comp_after = [1], comp_groups = [0]\<rparr>"
  have run: "outcome (verify_bounded_component sample_before sample_after (phase_of sample_state) sample_groups ?c) =
      Inr \<lparr>forced = [(1, 1)], outcome_ambiguities = []\<rparr>"
    by code_simp
  have "valid (verify_bounded_component sample_before sample_after (phase_of sample_state) sample_groups ?c) work_failure
      (\<lambda>r. bounded_component_stable_core sample_before sample_after sample_state sample_groups ?c = Inr r)"
    by (rule component_agreement [OF sample_wf sample_state_ok]) (simp_all add: side_ok_def sample_groups_def)
  from valid_outcome [OF this run] show ?thesis .
qed

section \<open>Failures\<close>

theorem analyze_never_crashes_witness:
  "\<exists>e. analyze_bytes_with_limits sample_tools [97] [98] ''a.txt'' ''b.txt'' Rust (verification_limits_default\<lparr>max_verification_work := 10\<rparr>) = Inl e \<and>
    \<not> analysis_crash e"
proof -
  have "machine_limits (verification_limits_default\<lparr>max_verification_work := 10\<rparr>)"
    by (simp add: machine_limits_def verification_limits_default_def usize_max_def)
  then show ?thesis
    using analyze_never_crashes [OF sample.engine_lawful sample.base64 sample.scripts sample.map_order _ sample_work_run] sample_work_run
    by blast
qed

text \<open>With a parser that finds nothing, the default run fails for its first source.\<close>

definition blind_tools :: tools where
  "blind_tools = sample_tools\<lparr>engine_externals := sample_externals\<lparr>ext_tree_sitter := sample_grammar\<lparr>parse_tree := (\<lambda>_ _. None)\<rparr>\<rparr>\<rparr>"

lemma blind_run: "analyze_bytes blind_tools [97] [98] ''a.txt'' ''b.txt'' Rust = Inl (BeforeParse (ParseFailure NoSyntaxTree))"
  by code_simp

theorem analyze_failures_witness:
  "pair_failure [97] [98] verification_limits_default (BeforeParse (ParseFailure NoSyntaxTree))"
proof -
  have "lawful (engine_externals blind_tools)"
    by (simp add: lawful_def runtime_within_def blind_tools_def sample_externals_def)
  moreover have "base64_standard (encode_base64 blind_tools) (ext_base64 (engine_externals blind_tools))"
    using sample.base64 by (simp add: blind_tools_def sample_tools_def)
  ultimately show ?thesis
    using analyze_failures [OF _ _ _ _ _ blind_run] sample.scripts sample.map_order by (simp add: blind_tools_def)
qed

end
