(* ===== verification/Sample_Anchors.thy ===== *)
theory Sample_Anchors
  imports Sample_Producer
begin

text \<open>
  Anchors on concrete sources: a call of two identifiers, a number that changes and a mark that does not. The call is a global
  anchor with its two identifiers below it, the mark a local anchor, and the number is left to the alignment. The
  matcher finds them, and the verifier certifies their evidence and their completeness.
\<close>

definition bytes_span :: "nat \<Rightarrow> nat \<Rightarrow> span" where
  "bytes_span i j = \<lparr>start_byte = i, end_byte = j, span_start = \<lparr>row = 0, column = i\<rparr>, span_end = \<lparr>row = 0, column = j\<rparr>\<rparr>"

definition anchor_grammar :: ts_runtime where
  "anchor_grammar = sample_grammar\<lparr>parse_tree := (\<lambda>_ source.
     let leaf = (\<lambda>kind i. Ts_Node kind True False False False None (bytes_span i (i + 1)) []) in
     Some (Ts_Node ''source_file'' True False False False None (source_span source)
       [Ts_Node ''call'' True False False False None (bytes_span 0 2) [leaf ''identifier'' 0, leaf ''identifier'' 1],
        leaf ''number'' 2, leaf ''mark'' 3]))\<rparr>"

definition anchored_syntax :: "bytes \<Rightarrow> parsed_syntax" where
  "anchored_syntax source =
     (case parse_with_limits (\<lambda>_. []) anchor_grammar source Rust (parse_limits_of verification_limits_default 10) of
        Inr ps \<Rightarrow> ps | Inl _ \<Rightarrow> sample_before)"

abbreviation "anchored_before \<equiv> anchored_syntax [102, 103, 49, 59]"
abbreviation "anchored_after \<equiv> anchored_syntax [102, 103, 50, 59]"

lemma anchored_parse:
  "parse_with_limits (\<lambda>_. []) anchor_grammar [102, 103, 49, 59] Rust (parse_limits_of verification_limits_default 10) = Inr anchored_before"
  "parse_with_limits (\<lambda>_. []) anchor_grammar [102, 103, 50, 59] Rust (parse_limits_of verification_limits_default 10) = Inr anchored_after"
  by code_simp+

lemma anchored_wf: "wf_syntax anchored_before" "wf_syntax anchored_after"
  by (rule parse_wf(1) [OF anchored_parse(1)], rule parse_wf(1) [OF anchored_parse(2)])

lemma anchored_hashes:
  "byte_hashes_agree anchored_before anchored_after" "syntax_hashes_agree anchored_before anchored_after"
  by (rule parses_agree [OF anchored_parse], rule parses_syntax_agree [OF anchored_parse])

lemma anchored_lengths: "length (ps_nodes anchored_before) = 6" "length (ps_nodes anchored_after) = 6"
  by code_simp+

lemma anchored_short: "short_trees anchored_before anchored_after"
  by (simp add: short_trees_def anchored_lengths usize_max_def)

definition anchored_relations :: "relation list" where
  "anchored_relations =
     (case match_trees rev no_hex anchored_before anchored_after of Inr r \<Rightarrow> mr_relations r | Inl _ \<Rightarrow> [])"

abbreviation "anchored_report \<equiv> sample_report\<lparr>relations := anchored_relations\<rparr>"

definition anchored_mappings :: verified_mappings where
  "anchored_mappings =
     (case outcome (verify_relations no_hex anchored_report anchored_before anchored_after) of Inr m \<Rightarrow> m | Inl _ \<Rightarrow> sample_mappings)"

lemma anchored_run: "outcome (verify_relations no_hex anchored_report anchored_before anchored_after) = Inr anchored_mappings"
  by code_simp

lemma anchored_evidence: "map (\<lambda>r. (before_id r, after_id r, rel_evidence r)) anchored_relations =
    [(0, 0, INPUT_PAIR_EVIDENCE), (1, 1, GLOBAL_ANCHOR_EVIDENCE), (2, 2, EXACT_DESCENDANT_EVIDENCE),
     (3, 3, EXACT_DESCENDANT_EVIDENCE), (4, 4, STABLE_CORE_EVIDENCE), (5, 5, LOCAL_ANCHOR_EVIDENCE)]"
  by code_simp

lemma anchored_verified: "verified no_hex anchored_before anchored_after anchored_relations anchored_mappings"
  using valid_outcome [OF valid_verify_relations [OF anchored_wf] anchored_run] by simp

text \<open>The call is the one node of its global bucket on either side, and the two calls are equal; so are the marks.\<close>

lemma anchored_buckets:
  "global_bucket anchored_before (''call'', []) = [1]" "global_bucket anchored_after (''call'', []) = [1]"
  by code_simp+

lemma anchored_same: "syntax_same anchored_before 1 anchored_after 1" "syntax_same anchored_before 5 anchored_after 5"
  unfolding syntax_same_def by code_simp+

lemma anchored_local: "local_before anchored_before anchored_mappings 0 = [4, 5]" "local_after anchored_after anchored_mappings 0 = [4, 5]"
  by code_simp+

lemma anchored_marks:
  "bucket_of anchored_before exact_key [4, 5] (None, ''mark'', []) = [5]" "bucket_of anchored_after exact_key [4, 5] (None, ''mark'', []) = [5]"
  by code_simp+

lemma anchored_evidence_run:
  "outcome (wbind (global_exact_index anchored_before anchored_after) (verify_exact_anchor_evidence anchored_report anchored_before anchored_after anchored_mappings)) = Inr ()"
  by code_simp

lemma anchored_complete_run:
  "outcome (wbind (global_exact_index anchored_before anchored_after) (verify_global_anchor_completeness rev anchored_before anchored_after anchored_mappings)) = Inr ()"
  by code_simp

lemma anchored_local_run:
  "outcome (verify_local_exact_relations anchored_before anchored_after anchored_mappings) = Inr ()"
  by code_simp

section \<open>The properties on the sample\<close>

theorem match_trees_verified_witness:
  "\<exists>r m. match_trees rev no_hex anchored_before anchored_after = Inr r \<and> mr_relations r = anchored_relations \<and>
    verified no_hex anchored_before anchored_after (mr_relations r) m \<and>
    anchors_certified anchored_before anchored_after (mr_relations r) m \<and> exactly_mapped m 1 1 \<and>
    mr_changes r = sort_key change_order (expected_events no_hex anchored_before anchored_after m (mr_ambiguities r))"
proof -
  obtain r m where r: "match_trees rev no_hex anchored_before anchored_after = Inr r"
    "verified no_hex anchored_before anchored_after (mr_relations r) m"
    "anchors_certified anchored_before anchored_after (mr_relations r) m" "anchors_complete anchored_before anchored_after m"
    "mr_changes r = sort_key change_order (expected_events no_hex anchored_before anchored_after m (mr_ambiguities r))"
    using match_trees_verified [OF anchored_wf anchored_hashes(1) anchored_short rev_reordering anchored_hashes(2)] by blast
  moreover have "mr_relations r = anchored_relations" by (simp add: anchored_relations_def r(1))
  moreover have "exactly_mapped m 1 1" using r(4) anchored_buckets anchored_same(1) unfolding anchors_complete_def by blast
  ultimately show ?thesis by blast
qed

theorem anchor_evidence_sound_witness:
  "anchors_certified anchored_before anchored_after anchored_relations anchored_mappings \<and>
   map (\<lambda>r. (before_id r, after_id r, rel_evidence r)) anchored_relations =
    [(0, 0, INPUT_PAIR_EVIDENCE), (1, 1, GLOBAL_ANCHOR_EVIDENCE), (2, 2, EXACT_DESCENDANT_EVIDENCE),
     (3, 3, EXACT_DESCENDANT_EVIDENCE), (4, 4, STABLE_CORE_EVIDENCE), (5, 5, LOCAL_ANCHOR_EVIDENCE)]"
proof
  have "valid (wbind (global_exact_index anchored_before anchored_after)
      (verify_exact_anchor_evidence anchored_report anchored_before anchored_after anchored_mappings)) safe
      (\<lambda>_. anchors_certified anchored_before anchored_after (relations anchored_report) anchored_mappings)"
    by (rule valid_bind [OF valid_safe [OF valid_global_exact_index [OF anchored_wf]]])
      (use anchor_evidence_sound [OF anchored_wf, of no_hex anchored_report anchored_mappings] anchored_verified in simp)
  from valid_outcome [OF this anchored_evidence_run]
  show "anchors_certified anchored_before anchored_after anchored_relations anchored_mappings" by simp
qed (rule anchored_evidence)

theorem anchors_left_out_witness:
  "anchors_complete anchored_before anchored_after anchored_mappings \<and>
   locals_complete anchored_before anchored_after anchored_relations anchored_mappings \<and>
   exactly_mapped anchored_mappings 1 1 \<and> locally_unique anchored_before anchored_after anchored_mappings 0 0 5 5"
proof -
  note both = anchors_left_out [OF anchored_wf anchored_verified, of _ rev]
  have "valid (wbind (global_exact_index anchored_before anchored_after)
      (verify_global_anchor_completeness rev anchored_before anchored_after anchored_mappings)) safe
      (\<lambda>_. anchors_complete anchored_before anchored_after anchored_mappings \<and>
        valid (verify_local_exact_relations anchored_before anchored_after anchored_mappings) safe
          (\<lambda>_. locals_complete anchored_before anchored_after anchored_relations anchored_mappings))"
  proof (rule valid_bind [OF valid_safe [OF valid_global_exact_index [OF anchored_wf]]])
    fix index assume "index_ok anchored_before anchored_after index"
    from both [OF this]
    show "valid (verify_global_anchor_completeness rev anchored_before anchored_after anchored_mappings index) safe
      (\<lambda>_. anchors_complete anchored_before anchored_after anchored_mappings \<and>
        valid (verify_local_exact_relations anchored_before anchored_after anchored_mappings) safe
          (\<lambda>_. locals_complete anchored_before anchored_after anchored_relations anchored_mappings))"
      by simp
  qed
  from valid_outcome [OF this anchored_complete_run]
  have complete: "anchors_complete anchored_before anchored_after anchored_mappings"
    "locals_complete anchored_before anchored_after anchored_relations anchored_mappings"
    using valid_outcome [of "verify_local_exact_relations anchored_before anchored_after anchored_mappings", OF _ anchored_local_run] by blast+
  moreover have "exactly_mapped anchored_mappings 1 1"
    using complete(1) anchored_buckets anchored_same(1) unfolding anchors_complete_def by blast
  moreover have "locally_unique anchored_before anchored_after anchored_mappings 0 0 5 5"
    unfolding locally_unique_def anchored_local using anchored_marks anchored_same(2) by blast
  ultimately show ?thesis by blast
qed

end
