(* ===== verification/Inbox_Time.thy ===== *)
theory Inbox_Time
  imports Complex_Main Language
begin

text \<open>
  The text checks and the time stamps of the review inbox (\<open>src/inbox_decision.rs\<close>): \<open>parse_timestamp\<close> reads
  \<open>YYYY-MM-DDThh:mm:ss[.fraction]Z\<close>, and \<open>Timestamp\<close> is ordered by its components and then by the fraction, digit by digit with
  missing digits read as zero. The order is that of the fractions as numbers.
\<close>

section \<open>Decisions\<close>

text \<open>\<open>DecisionError\<close> carries a code; \<open>Unexpected\<close> is a panic: an index or slice out of range, an \<open>expect\<close>, an \<open>unreachable!\<close>.\<close>

datatype decision_failure = Rejected string | Unexpected

type_synonym 'a decision_result = "decision_failure + 'a"

definition dbind :: "'a decision_result \<Rightarrow> ('a \<Rightarrow> 'b decision_result) \<Rightarrow> 'b decision_result" where
  "dbind m f = (case m of Inl e \<Rightarrow> Inl e | Inr x \<Rightarrow> f x)"

definition ensure :: "bool \<Rightarrow> string \<Rightarrow> unit decision_result" where
  "ensure condition code = (if condition then Inr () else Inl (Rejected code))"

definition or_code :: "'a option \<Rightarrow> string \<Rightarrow> 'a decision_result" where
  "or_code x code = (case x of Some y \<Rightarrow> Inr y | None \<Rightarrow> Inl (Rejected code))"

definition checked :: "'a result \<Rightarrow> 'a decision_result" where
  "checked m = (case m of Inl e \<Rightarrow> Inl Unexpected | Inr x \<Rightarrow> Inr x)"

primrec dfold :: "('s \<Rightarrow> 'a \<Rightarrow> 's decision_result) \<Rightarrow> 's \<Rightarrow> 'a list \<Rightarrow> 's decision_result" where
  "dfold f s [] = Inr s"
| "dfold f s (x # xs) = dbind (f s x) (\<lambda>s'. dfold f s' xs)"

lemma dbind_simps [simp]: "dbind (Inl e) f = Inl e" "dbind (Inr x) f = f x"
  by (simp_all add: dbind_def)

lemma dbind_Inr_iff: "dbind m f = Inr y \<longleftrightarrow> (\<exists>x. m = Inr x \<and> f x = Inr y)"
  by (cases m) auto

lemma ensure_Inr [simp]: "ensure b code = Inr u \<longleftrightarrow> b"
  by (simp add: ensure_def)

lemma or_code_Inr [simp]: "or_code x code = Inr y \<longleftrightarrow> x = Some y"
  by (simp add: or_code_def split: option.splits)

lemma checked_simps [simp]: "checked (Inr x) = Inr x" "checked (Inl e) = Inl Unexpected" "checked m = Inr y \<longleftrightarrow> m = Inr y"
  by (simp_all add: checked_def split: sum.splits)

text \<open>A computation that never panics; one rule per combinator.\<close>

named_theorems calm_intros \<open>introduction rules for freedom from panics\<close>

definition calm :: "'a decision_result \<Rightarrow> bool" where
  "calm m \<longleftrightarrow> m \<noteq> Inl Unexpected"

lemma calm_simps [calm_intros, simp]: "calm (Inr x)" "calm (Inl (Rejected code))" "calm (ensure b code)" "calm (or_code opt code)"
  by (simp_all add: calm_def ensure_def or_code_def split: option.splits)

lemma calm_bind [calm_intros]: "calm m \<Longrightarrow> (\<And>x. m = Inr x \<Longrightarrow> calm (f x)) \<Longrightarrow> calm (dbind m f)"
  by (cases m) (auto simp: calm_def)

lemma calm_ensure_bind [calm_intros]: "(b \<Longrightarrow> calm (f ())) \<Longrightarrow> calm (dbind (ensure b code) f)"
  by (simp add: ensure_def)

lemma calm_if [calm_intros]: "(b \<Longrightarrow> calm m) \<Longrightarrow> (\<not> b \<Longrightarrow> calm m') \<Longrightarrow> calm (if b then m else m')"
  by simp

lemma calm_case_option [calm_intros]:
  "(x = None \<Longrightarrow> calm m) \<Longrightarrow> (\<And>y. x = Some y \<Longrightarrow> calm (f y)) \<Longrightarrow> calm (case x of None \<Rightarrow> m | Some y \<Rightarrow> f y)"
  by (cases x) simp_all

lemma calm_case_prod [calm_intros]: "(\<And>a b. x = (a, b) \<Longrightarrow> calm (f a b)) \<Longrightarrow> calm (case x of (a, b) \<Rightarrow> f a b)"
  by (cases x) simp

lemma calm_fold:
  assumes "I s" "\<And>s x. x \<in> set xs \<Longrightarrow> I s \<Longrightarrow> calm (f s x)" "\<And>s x s'. x \<in> set xs \<Longrightarrow> I s \<Longrightarrow> f s x = Inr s' \<Longrightarrow> I s'"
  shows "calm (dfold f s xs)"
  using assms
proof (induction xs arbitrary: s)
  case (Cons x xs)
  have "calm (dfold f s' xs)" if "f s x = Inr s'" for s'
  proof (rule Cons.IH)
    show "I s'" using Cons.prems(3) [OF list.set_intros(1) Cons.prems(1) that] .
    show "calm (f t y)" if "y \<in> set xs" "I t" for t y using Cons.prems(2) [OF list.set_intros(2)] that .
    show "I t'" if "y \<in> set xs" "I t" "f t y = Inr t'" for t y t' using Cons.prems(3) [OF list.set_intros(2)] that .
  qed
  then show ?case using Cons.prems(1,2) by (auto intro!: calm_bind)
qed simp

lemma dfold_prefix:
  assumes "dfold f s xs = Inr t" "I [] s"
    and "\<And>ys x zs s s'. xs = ys @ x # zs \<Longrightarrow> I ys s \<Longrightarrow> f s x = Inr s' \<Longrightarrow> I (ys @ [x]) s'"
  shows "I xs t"
proof -
  have "I xs t" if "xs = ys @ zs" "I ys s" "dfold f s zs = Inr t" for ys zs s
    using that
  proof (induction zs arbitrary: ys s)
    case (Cons z zs)
    then obtain s' where s': "f s z = Inr s'" "dfold f s' zs = Inr t" by (auto simp: dbind_Inr_iff)
    show ?case using Cons.IH [of "ys @ [z]" s'] assms(3) [OF Cons.prems(1,2) s'(1)] Cons.prems(1) s'(2) by simp
  qed simp
  from this [of "[]" xs s] show ?thesis using assms(1,2) by simp
qed

section \<open>Text\<close>

definition ascii_digit :: "char \<Rightarrow> bool" where
  "ascii_digit c \<longleftrightarrow> CHR ''0'' \<le> c \<and> c \<le> CHR ''9''"

definition ascii_alphanumeric :: "char \<Rightarrow> bool" where
  "ascii_alphanumeric c \<longleftrightarrow> ascii_digit c \<or> CHR ''A'' \<le> c \<and> c \<le> CHR ''Z'' \<or> CHR ''a'' \<le> c \<and> c \<le> CHR ''z''"

definition eq_ignore_ascii_case :: "string \<Rightarrow> string \<Rightarrow> bool" where
  "eq_ignore_ascii_case left right \<longleftrightarrow> to_ascii_lowercase left = to_ascii_lowercase right"

fun split_once :: "char \<Rightarrow> string \<Rightarrow> (string \<times> string) option" where
  "split_once sep [] = None"
| "split_once sep (c # cs) = (if c = sep then Some ([], cs) else map_option (\<lambda>(a, b). (c # a, b)) (split_once sep cs))"

text \<open>A slice of a string panics when an end is out of range or inside a character: at a byte \<open>10xxxxxx\<close> of UTF-8.\<close>

definition char_boundary :: "string \<Rightarrow> nat \<Rightarrow> bool" where
  "char_boundary s i \<longleftrightarrow> i = 0 \<or> i = length s \<or>
     i < length s \<and> \<not> (128 \<le> (of_char (s ! i) :: nat) \<and> (of_char (s ! i) :: nat) < 192)"

definition str_slice :: "string \<Rightarrow> nat \<Rightarrow> nat \<Rightarrow> string result" where
  "str_slice s start end' =
     rbind (rensure (char_boundary s start \<and> char_boundary s end') Panic) (\<lambda>_. slice s start end')"

definition digit_value :: "char \<Rightarrow> nat" where
  "digit_value c = of_char c - 48"

text \<open>\<open>format!\<close> of an unsigned integer and \<open>str::parse\<close> to one of 32 bits.\<close>

fun decimal :: "nat \<Rightarrow> string" where
  "decimal n = (if n < 10 then [char_of (48 + n)] else decimal (n div 10) @ [char_of (48 + n mod 10)])"

declare decimal.simps [simp del]

definition parse_u32 :: "string \<Rightarrow> nat option" where
  "parse_u32 s =
     (let ds = (case s of [] \<Rightarrow> [] | c # r \<Rightarrow> if c = CHR ''+'' then r else s);
          n = foldl (\<lambda>n d. 10 * n + digit_value d) 0 ds in
      if ds = [] \<or> \<not> list_all ascii_digit ds \<or> n \<ge> 2 ^ 32 then None else Some n)"

text \<open>\<open>[T]::join\<close> of strings.\<close>

fun join_with :: "string \<Rightarrow> string list \<Rightarrow> string" where
  "join_with sep [] = []"
| "join_with sep [x] = x"
| "join_with sep (x # xs) = x @ sep @ join_with sep xs"

section \<open>Time stamps\<close>

record timestamp =
  components :: "nat list"
  fraction :: string

datatype ordering = Below | Same | Above

definition compare_nat :: "nat \<Rightarrow> nat \<Rightarrow> ordering" where
  "compare_nat a b = (if a < b then Below else if a = b then Same else Above)"

text \<open>The order of arrays: the first difference decides.\<close>

fun compare_list :: "nat list \<Rightarrow> nat list \<Rightarrow> ordering" where
  "compare_list [] [] = Same"
| "compare_list [] (b # bs) = Below"
| "compare_list (a # as) [] = Above"
| "compare_list (a # as) (b # bs) = (if compare_nat a b = Same then compare_list as bs else compare_nat a b)"

definition digit_at :: "string \<Rightarrow> nat \<Rightarrow> char" where
  "digit_at s i = (if i < length s then s ! i else CHR ''0'')"

definition compare_fraction :: "string \<Rightarrow> string \<Rightarrow> ordering" where
  "compare_fraction left right =
     (let width = max (length left) (length right);
          orderings = map (\<lambda>i. compare_nat (of_char (digit_at left i)) (of_char (digit_at right i))) [0..<width] in
      case find (\<lambda>o'. o' \<noteq> Same) orderings of None \<Rightarrow> Same | Some o' \<Rightarrow> o')"

definition compare_timestamp :: "timestamp \<Rightarrow> timestamp \<Rightarrow> ordering" where
  "compare_timestamp a b =
     (case compare_list (components a) (components b) of
        Same \<Rightarrow> compare_fraction (fraction a) (fraction b)
      | o' \<Rightarrow> o')"

definition leap_year :: "nat \<Rightarrow> bool" where
  "leap_year year \<longleftrightarrow> year mod 4 = 0 \<and> (year mod 100 \<noteq> 0 \<or> year mod 400 = 0)"

definition month_days :: "nat \<Rightarrow> nat \<Rightarrow> nat" where
  "month_days year month =
     (if month = 2 then (if leap_year year then 29 else 28)
      else if month = 4 \<or> month = 6 \<or> month = 9 \<or> month = 11 then 30 else 31)"

definition timestamp_component :: "string \<Rightarrow> string \<Rightarrow> nat \<Rightarrow> nat \<Rightarrow> nat decision_result" where
  "timestamp_component base code start end' =
     dbind (checked (str_slice base start end')) (\<lambda>digits. or_code (parse_u32 digits) code)"

definition parse_timestamp :: "string \<Rightarrow> string \<Rightarrow> timestamp decision_result" where
  "parse_timestamp value code =
     dbind (ensure (value \<noteq> [] \<and> last value = CHR ''Z'') code) (\<lambda>_.
     dbind (checked (rbind (of_option Panic (usize_checked_sub (length value) 1)) (str_slice value 0))) (\<lambda>body.
     dbind (case split_once CHR ''.'' body of
              Some (base, rest) \<Rightarrow>
                dbind (ensure (rest \<noteq> []) code) (\<lambda>_.
                dbind (ensure (list_all ascii_digit rest) code) (\<lambda>_. Inr (base, rest)))
            | None \<Rightarrow> Inr (body, [])) (\<lambda>(base, rest).
     dbind (ensure (length base = 19) code) (\<lambda>_.
     dbind (checked (rall (\<lambda>(i, c). rbind (index_at base i) (\<lambda>b. Inr (b = c)))
              [(4, CHR ''-''), (7, CHR ''-''), (10, CHR ''T''), (13, CHR '':''), (16, CHR '':'')])) (\<lambda>separated.
     dbind (ensure separated code) (\<lambda>_.
     dbind (dfold (\<lambda>_ (start, end'). dbind (checked (slice base start end')) (\<lambda>digits. ensure (list_all ascii_digit digits) code)) ()
              [(0, 4), (5, 7), (8, 10), (11, 13), (14, 16), (17, 19)]) (\<lambda>_.
     dbind (timestamp_component base code 0 4) (\<lambda>year.
     dbind (timestamp_component base code 5 7) (\<lambda>month.
     dbind (timestamp_component base code 8 10) (\<lambda>day.
     dbind (timestamp_component base code 11 13) (\<lambda>hour.
     dbind (timestamp_component base code 14 16) (\<lambda>minute.
     dbind (timestamp_component base code 17 19) (\<lambda>second.
     dbind (ensure (year > 0 \<and> 1 \<le> month \<and> month \<le> 12) code) (\<lambda>_.
     dbind (ensure (1 \<le> day \<and> day \<le> month_days year month) code) (\<lambda>_.
     dbind (ensure (hour < 24 \<and> minute < 60 \<and> second < 60) code) (\<lambda>_.
       Inr \<lparr>components = [year, month, day, hour, minute, second], fraction = rest\<rparr>))))))))))))))))"

section \<open>The order of fractions is that of numbers\<close>

primrec fraction_value :: "string \<Rightarrow> rat" where
  "fraction_value [] = 0"
| "fraction_value (c # cs) = (of_nat (digit_value c) + fraction_value cs) / 10"

lemma ascii_digit_code: "ascii_digit c \<longleftrightarrow> 48 \<le> (of_char c :: nat) \<and> (of_char c :: nat) \<le> 57"
  by (simp add: ascii_digit_def less_eq_char_def)

lemma fraction_value_range: "list_all ascii_digit s \<Longrightarrow> 0 \<le> fraction_value s \<and> fraction_value s < 1"
proof (induction s)
  case (Cons c s)
  then have "digit_value c \<le> 9" by (simp add: ascii_digit_code digit_value_def le_diff_conv)
  then have "rat_of_nat (digit_value c) \<le> 9" by (metis of_nat_le_iff of_nat_numeral)
  then show ?case using Cons by simp
qed simp

lemma fraction_value_step: "fraction_value s = (of_nat (digit_value (digit_at s 0)) + fraction_value (tl s)) / 10"
  by (cases s) (simp_all add: digit_at_def digit_value_def)

lemma digit_at_Suc: "digit_at s (Suc i) = digit_at (tl s) i"
  by (cases s) (simp_all add: digit_at_def)

lemma compare_fraction_step:
  assumes "left \<noteq> [] \<or> right \<noteq> []"
  shows "compare_fraction left right =
    (let first = compare_nat (of_char (digit_at left 0)) (of_char (digit_at right 0)) in
     if first = Same then compare_fraction (tl left) (tl right) else first)"
proof -
  have width: "max (length left) (length right) = Suc (max (length (tl left)) (length (tl right)))"
    using assms by (cases left; cases right) auto
  have upt: "[0..<Suc n] = 0 # map Suc [0..<n]" for n by (simp add: upt_conv_Cons map_Suc_upt del: upt_Suc)
  show ?thesis unfolding compare_fraction_def width upt Let_def
    by (simp add: comp_def digit_at_Suc del: upt_Suc)
qed

definition compare_rat :: "rat \<Rightarrow> rat \<Rightarrow> ordering" where
  "compare_rat a b = (if a < b then Below else if a = b then Same else Above)"

lemma digit_at_ascii: "list_all ascii_digit s \<Longrightarrow> ascii_digit (digit_at s i)"
  by (simp add: digit_at_def list_all_length) (simp add: ascii_digit_code)

lemma compare_first:
  assumes "ascii_digit c" "ascii_digit d" "0 \<le> x" "x < 1" "0 \<le> y" "y < 1"
  shows "compare_rat ((of_nat (digit_value c) + x) / 10) ((of_nat (digit_value d) + y) / 10) =
    (if compare_nat (of_char c) (of_char d) = Same then compare_rat x y else compare_nat (of_char c) (of_char d))"
proof -
  have codes: "of_char c = digit_value c + (48 :: nat)" "of_char d = digit_value d + (48 :: nat)"
    using assms(1,2) by (simp_all add: ascii_digit_code digit_value_def)
  have less: "rat_of_nat m + x < rat_of_nat n + y" if "m < n" for m n
  proof -
    have "rat_of_nat m + 1 \<le> rat_of_nat n" using that by (metis Suc_leI of_nat_Suc of_nat_le_iff add.commute)
    then show ?thesis using assms(4,5) by linarith
  qed
  have more: "rat_of_nat n + y < rat_of_nat m + x" if "n < m" for m n
  proof -
    have "rat_of_nat n + 1 \<le> rat_of_nat m" using that by (metis Suc_leI of_nat_Suc of_nat_le_iff add.commute)
    then show ?thesis using assms(3,6) by linarith
  qed
  show ?thesis
    using less [of "digit_value c" "digit_value d"] more [of "digit_value d" "digit_value c"]
    unfolding compare_rat_def compare_nat_def codes
    by (cases "digit_value c" "digit_value d" rule: linorder_cases) (auto simp: divide_less_cancel)
qed

lemma compare_fraction_value:
  assumes "list_all ascii_digit left" "list_all ascii_digit right"
  shows "compare_fraction left right = compare_rat (fraction_value left) (fraction_value right)"
  using assms
proof (induction "max (length left) (length right)" arbitrary: left right)
  case 0
  then show ?case by (simp add: compare_fraction_def compare_rat_def)
next
  case (Suc n)
  have tails: "list_all ascii_digit (tl left)" "list_all ascii_digit (tl right)"
    using Suc.prems by (cases left, simp_all) (cases right, simp_all)
  have ne: "left \<noteq> [] \<or> right \<noteq> []" using Suc.hyps(2) by auto
  have "n = max (length (tl left)) (length (tl right))" using Suc.hyps(2) by simp
  then have IH: "compare_fraction (tl left) (tl right) = compare_rat (fraction_value (tl left)) (fraction_value (tl right))"
    using Suc.hyps(1) tails by blast
  show ?case
    unfolding compare_fraction_step [OF ne] IH fraction_value_step [of left] fraction_value_step [of right] Let_def
    using compare_first [OF digit_at_ascii [OF Suc.prems(1), of 0] digit_at_ascii [OF Suc.prems(2), of 0]]
      fraction_value_range [OF tails(1)] fraction_value_range [OF tails(2)]
    by simp
qed

section \<open>Reading a time stamp\<close>

text \<open>The components lie in the calendar and the fraction is digits only; every value of the text is such a time stamp.\<close>

definition stamp_ok :: "timestamp \<Rightarrow> bool" where
  "stamp_ok t \<longleftrightarrow> (\<exists>year month day hour minute second. components t = [year, month, day, hour, minute, second] \<and>
     0 < year \<and> 1 \<le> month \<and> month \<le> 12 \<and> 1 \<le> day \<and> day \<le> month_days year month \<and> hour < 24 \<and> minute < 60 \<and> second < 60) \<and>
     list_all ascii_digit (fraction t)"

lemma parse_timestamp_ok: "parse_timestamp value code = Inr t \<Longrightarrow> stamp_ok t"
  unfolding parse_timestamp_def stamp_ok_def
  by (auto simp: dbind_Inr_iff split: prod.splits option.splits)

text \<open>The slices end at ASCII bytes: the final \<open>Z\<close>, the separators and the digits, all checked before.\<close>

lemma ascii_boundary: "i < length s \<Longrightarrow> (of_char (s ! i) :: nat) < 128 \<Longrightarrow> char_boundary s i"
  by (simp add: char_boundary_def)

lemma str_slice_ok: "char_boundary s a \<Longrightarrow> char_boundary s b \<Longrightarrow> a \<le> b \<Longrightarrow> b \<le> length s \<Longrightarrow> \<exists>t. str_slice s a b = Inr t"
  by (simp add: str_slice_def slice_def rensure_def)

lemma body_slice:
  assumes "value \<noteq> []" "last value = CHR ''Z''"
  shows "\<exists>t. checked (rbind (of_option Panic (usize_checked_sub (length value) 1)) (str_slice value 0)) = Inr t"
proof -
  have "value ! (length value - 1) = CHR ''Z''" using assms by (simp add: last_conv_nth)
  then have "char_boundary value (length value - 1)" using assms(1) by (intro ascii_boundary) simp_all
  moreover have "char_boundary value 0" by (simp add: char_boundary_def)
  moreover have "usize_checked_sub (length value) 1 = Some (length value - 1)"
    using assms(1) by (cases "value") (simp_all add: usize_checked_sub_def)
  ultimately show ?thesis using str_slice_ok [of "value" 0 "length value - 1"] by (auto simp: of_option_def)
qed

lemma component_boundaries:
  assumes len: "length base = 19"
    and sep: "checked (rall (\<lambda>(i, c). rbind (index_at base i) (\<lambda>b. Inr (b = c)))
       [(4, CHR ''-''), (7, CHR ''-''), (10, CHR ''T''), (13, CHR '':''), (16, CHR '':'')]) = Inr True"
    and digits: "dfold (\<lambda>_ (start, end'). dbind (checked (slice base start end')) (\<lambda>digits. ensure (list_all ascii_digit digits) code)) ()
       [(0, 4), (5, 7), (8, 10), (11, 13), (14, 16), (17, 19)] = Inr u"
    and k: "k \<in> {0, 4, 5, 7, 8, 10, 11, 13, 14, 16, 17, 19}"
  shows "char_boundary base k"
proof -
  have seps: "base ! 4 = CHR ''-''" "base ! 7 = CHR ''-''" "base ! 10 = CHR ''T''" "base ! 13 = CHR '':''" "base ! 16 = CHR '':''"
    using sep len by (auto split: if_splits)
  have digit: "ascii_digit (base ! a)" if "slice base a b = Inr ds" "list_all ascii_digit ds" "a < b" "b \<le> 19" for a b ds
  proof -
    have ds: "ds = take (b - a) (drop a base)" using that len by (auto simp: slice_def split: if_splits)
    have "ds ! 0 = base ! a" "0 < length ds" using that len unfolding ds by simp_all
    then show ?thesis using that(2) by (metis list_all_length)
  qed
  have all: "\<exists>ds. slice base a b = Inr ds \<and> list_all ascii_digit ds" if "(a, b) \<in> {(5, 7), (8, 10), (11, 13), (14, 16), (17, 19)}" for a b :: nat
    using digits that by (auto simp: dbind_Inr_iff)
  have ascii: "(of_char (base ! a) :: nat) < 128" if "(a, b) \<in> {(5, 7), (8, 10), (11, 13), (14, 16), (17, 19)}" for a b :: nat
  proof -
    have "ascii_digit (base ! a)" using all [OF that] that digit [of a b] by auto
    then show ?thesis by (simp add: ascii_digit_code)
  qed
  show ?thesis
    using k seps len ascii [of 5 7] ascii [of 8 10] ascii [of 11 13] ascii [of 14 16] ascii [of 17 19]
    by (elim insertE emptyE) (simp_all add: char_boundary_def)
qed

lemma calm_parse_timestamp [calm_intros]: "calm (parse_timestamp value code)"
proof -
  have idx: "calm (checked (rall (\<lambda>(i, c). rbind (index_at base i) (\<lambda>b. Inr (b = c)))
       [(4, CHR ''-''), (7, CHR ''-''), (10, CHR ''T''), (13, CHR '':''), (16, CHR '':'')]))" if "length base = 19" for base
    using that by (simp add: checked_def calm_def)
  have digits: "calm (dfold (\<lambda>_ (start, end'). dbind (checked (slice base start end')) (\<lambda>digits. ensure (list_all ascii_digit digits) code)) ()
              [(0, 4), (5, 7), (8, 10), (11, 13), (14, 16), (17, 19)])" if "length base = 19" for base
    by (rule calm_fold [where I = "\<lambda>_. True"]) (use that in \<open>auto simp: slice_def\<close>)
  have comp: "calm (timestamp_component base code a b)" if "char_boundary base a" "char_boundary base b" "a \<le> b" "b \<le> length base" for base a b
    unfolding timestamp_component_def using str_slice_ok [OF that] by auto
  have split: "calm (case x of Some (base, rest) \<Rightarrow>
                dbind (ensure (rest \<noteq> []) code) (\<lambda>_.
                dbind (ensure (list_all ascii_digit rest) code) (\<lambda>_. Inr (base, rest)))
            | None \<Rightarrow> Inr (body, []))" for x :: "(string \<times> string) option" and body :: string
    by (intro calm_intros)
  show ?thesis
    unfolding parse_timestamp_def
    apply (rule calm_ensure_bind)
    apply (rule calm_bind)
    subgoal using body_slice [of "value"] by (auto simp: calm_def)
    apply (rule calm_bind, rule split, rule calm_case_prod)
    apply (rule calm_ensure_bind)
    apply (rule calm_bind, erule idx)
    apply (rule calm_ensure_bind)
    apply (rule calm_bind, erule digits)
    subgoal premises run for body r base rest separated u
    proof -
      have ends: "char_boundary base k" if "k \<in> {0, 4, 5, 7, 8, 10, 11, 13, 14, 16, 17, 19}" for k
        using component_boundaries [of base code u k] run that by simp
      have part: "calm (dbind (timestamp_component base code a b) f)"
        if "a \<in> {0, 5, 8, 11, 14, 17}" "b \<in> {4, 7, 10, 13, 16, 19}" "a \<le> b" "\<And>x. calm (f x)" for a b f
        by (rule calm_bind [OF comp]) (use that run in \<open>auto intro: ends\<close>)
      show ?thesis by (rule part calm_ensure_bind calm_simps | simp)+
    qed
    done
qed

end
