(* ===== verification/Inbox_Decision.thy ===== *)
theory Inbox_Decision
  imports Inbox_Time
begin

text \<open>
  The review inbox (\<open>src/inbox_decision.rs\<close>): from an observation of a search for pull requests, each with the review history of
  one reviewer, \<open>evaluate\<close> decides for every candidate whether the reviewer has to look again. The checkpoint is the
  newest formal review; a changed head, a changed base or a renewed request makes a candidate actionable, and what
  cannot be observed is said to be so. Any inconsistency of the observation rejects it as a whole with a code.

  \<open>sha256\<close>, the digest of a transition as hexadecimal text, is a parameter. A string stands for its UTF-8 bytes.
\<close>

section \<open>Observations\<close>

record actor_observation =
  actor_login :: string
  actor_node_id :: string

record reviewer_observation =
  reviewer_type :: string
  reviewer_login :: string
  reviewer_node_id :: string

record repository_observation =
  name_with_owner :: string
  repository_node_id :: string
  repository_url :: string

record review_observation =
  review_author :: reviewer_observation
  checkpoint_base_oid :: "string option"
  commit_oid :: "string option"
  database_id :: "nat option"
  review_node_id :: string
  review_state :: string
  submitted_at :: "string option"
  review_url :: string

record history_observation =
  cursor_advanced :: bool
  history_nodes :: "review_observation list"
  pages_observed :: nat
  reported_count :: nat
  terminal_page_observed :: bool

record revalidation_observation =
  revalidation_outcome :: string
  revalidation_node_id :: string
  revalidation_repository :: repository_observation
  snapshot_matches :: bool
  revalidation_viewer :: actor_observation

record pull_request_observation =
  current_base_oid :: "string option"
  head_oid :: "string option"
  pull_node_id :: string
  pull_number :: nat
  pull_state :: string
  total_review_count :: nat
  updated_at :: string
  pull_url :: string

record candidate_observation =
  pull_request :: pull_request_observation
  candidate_repository :: repository_observation
  revalidation :: revalidation_observation
  review_history :: history_observation
  review_request_active :: bool

record scope_observation =
  authenticated_actor :: actor_observation
  requested_repository :: "repository_observation option"
  scope_reviewer :: reviewer_observation

record search_observation =
  candidates :: "candidate_observation list"
  has_next_page :: bool
  issue_count :: nat
  search_limit :: nat
  search_outcome :: string
  search_viewer :: actor_observation

record inbox_observation =
  provider_host :: string
  scope :: scope_observation
  search :: search_observation

section \<open>Decisions\<close>

record inbox_counts =
  actionable :: nat
  no_eligible_reviews :: nat
  unobservable_count :: nat
  up_to_date :: nat

record inbox_decision =
  decision_checkpoint :: "string option"
  counts :: inbox_counts
  decision_error :: "string option"
  decision_reason :: "string option"
  decision_result :: string
  decision_status :: "string option"
  decision_trigger :: "string option"
  decision_transition :: "string option"

datatype candidate_status = Actionable | NoEligibleReviews | Unobservable | UpToDate

record candidate_decision =
  candidate_status :: candidate_status
  candidate_checkpoint :: "string option"
  candidate_reason :: "string option"
  candidate_transition :: "string option"
  candidate_trigger :: "string option"

record inbox_evaluation =
  evaluation_decision :: inbox_decision
  evaluation_candidates :: "candidate_decision list"

definition MAX_CANDIDATES :: nat where "MAX_CANDIDATES = 100"
definition MAX_REVIEWS :: nat where "MAX_REVIEWS = 10000"

definition TRANSITION_DOMAIN :: string where
  "TRANSITION_DOMAIN = ''stratadiff-review-inbox-global-transition-v1''"

definition no_counts :: inbox_counts where
  "no_counts = \<lparr>actionable = 0, no_eligible_reviews = 0, unobservable_count = 0, up_to_date = 0\<rparr>"

definition error_decision :: "string \<Rightarrow> inbox_decision" where
  "error_decision code = \<lparr>decision_checkpoint = None, counts = no_counts, decision_error = Some code, decision_reason = None,
     decision_result = ''error'', decision_status = None, decision_trigger = None, decision_transition = None\<rparr>"

section \<open>Checks of identities\<close>

definition ends_alphanumeric :: "string \<Rightarrow> string \<Rightarrow> unit decision_result" where
  "ends_alphanumeric value code =
     dbind (checked (index_at value 0)) (\<lambda>first.
     dbind (ensure (ascii_alphanumeric first) code) (\<lambda>_.
     dbind (checked (index_at value (length value - 1))) (\<lambda>final.
       ensure (ascii_alphanumeric final) code)))"

definition validate_host :: "string \<Rightarrow> string \<Rightarrow> unit decision_result" where
  "validate_host value code =
     dbind (ensure (value \<noteq> []) code) (\<lambda>_.
     dbind (ends_alphanumeric value code) (\<lambda>_.
       ensure (list_all (\<lambda>b. ascii_alphanumeric b \<or> b \<in> set ''.-'') value) code))"

definition validate_login :: "string \<Rightarrow> string \<Rightarrow> unit decision_result" where
  "validate_login value code =
     dbind (ensure (1 \<le> length value \<and> length value \<le> 255) code) (\<lambda>_.
     dbind (ends_alphanumeric value code) (\<lambda>_.
       ensure (list_all (\<lambda>b. ascii_alphanumeric b \<or> b \<in> set ''_.-'') value) code))"

definition validate_node :: "string \<Rightarrow> string \<Rightarrow> unit decision_result" where
  "validate_node value code =
     dbind (ensure (1 \<le> length value \<and> length value \<le> 256) code) (\<lambda>_.
       ensure (list_all (\<lambda>b. ascii_alphanumeric b \<or> b \<in> set ''_:+/=-'') value) code)"

definition valid_repository_byte :: "char \<Rightarrow> bool" where
  "valid_repository_byte b \<longleftrightarrow> ascii_alphanumeric b \<or> b \<in> set ''_.-''"

definition valid_repository :: "string \<Rightarrow> bool" where
  "valid_repository value =
     (case split_once CHR ''/'' value of
        None \<Rightarrow> False
      | Some (owner, name) \<Rightarrow> owner \<noteq> [] \<and> name \<noteq> [] \<and> CHR ''/'' \<notin> set name \<and>
          list_all valid_repository_byte owner \<and> list_all valid_repository_byte name)"

definition validate_actor :: "actor_observation \<Rightarrow> string \<Rightarrow> unit decision_result" where
  "validate_actor actor code =
     dbind (validate_login (actor_login actor) code) (\<lambda>_. validate_node (actor_node_id actor) code)"

definition validate_reviewer :: "reviewer_observation \<Rightarrow> string \<Rightarrow> unit decision_result" where
  "validate_reviewer reviewer code =
     dbind (ensure (reviewer_type reviewer = ''User'') code) (\<lambda>_.
     dbind (validate_login (reviewer_login reviewer) code) (\<lambda>_. validate_node (reviewer_node_id reviewer) code))"

definition validate_repository :: "repository_observation \<Rightarrow> string \<Rightarrow> string \<Rightarrow> unit decision_result" where
  "validate_repository repository host code =
     dbind (ensure (valid_repository (name_with_owner repository)) code) (\<lambda>_.
     dbind (validate_node (repository_node_id repository) code) (\<lambda>_.
       ensure (repository_url repository = ''https://'' @ host @ ''/'' @ name_with_owner repository) code))"

definition validate_optional_oid :: "string option \<Rightarrow> string \<Rightarrow> unit decision_result" where
  "validate_optional_oid value code =
     (case value of
        Some oid \<Rightarrow> ensure (length oid = 40 \<and> list_all (\<lambda>b. ascii_digit b \<or> CHR ''a'' \<le> b \<and> b \<le> CHR ''f'') oid) code
      | None \<Rightarrow> Inr ())"

definition same_actor :: "actor_observation \<Rightarrow> actor_observation \<Rightarrow> bool" where
  "same_actor left right \<longleftrightarrow>
     actor_node_id left = actor_node_id right \<and> eq_ignore_ascii_case (actor_login left) (actor_login right)"

definition same_reviewer :: "reviewer_observation \<Rightarrow> reviewer_observation \<Rightarrow> bool" where
  "same_reviewer left right \<longleftrightarrow>
     reviewer_node_id left = reviewer_node_id right \<and> eq_ignore_ascii_case (reviewer_login left) (reviewer_login right)"

definition exactly_one :: "string list \<Rightarrow> string option" where
  "exactly_one values = (case values of [v] \<Rightarrow> Some v | _ \<Rightarrow> None)"

section \<open>The review history\<close>

record review_scan =
  seen_nodes :: "string set"
  seen_databases :: "nat set"
  checkpoint :: "(timestamp \<times> nat \<times> review_observation) option"

definition formal :: "review_observation \<Rightarrow> bool" where
  "formal review \<longleftrightarrow> review_state review \<in> {''APPROVED'', ''CHANGES_REQUESTED''}"

text \<open>\<open>(&submitted_at, database_id) > (timestamp, *id)\<close>\<close>

definition newer :: "timestamp \<Rightarrow> nat \<Rightarrow> timestamp \<Rightarrow> nat \<Rightarrow> bool" where
  "newer t n t' n' \<longleftrightarrow> (case compare_timestamp t t' of Above \<Rightarrow> True | Same \<Rightarrow> n > n' | Below \<Rightarrow> False)"

definition scan_checkpoint :: "review_observation \<Rightarrow> timestamp option \<Rightarrow> review_scan \<Rightarrow> review_scan decision_result" where
  "scan_checkpoint review stamp s =
     (if formal review then
        dbind (or_code (database_id review) ''completed_review_database_id_missing'') (\<lambda>n.
        dbind (or_code stamp ''completed_review_timestamp_missing'') (\<lambda>t.
        dbind (ensure (commit_oid review \<noteq> None) ''review_commit_invalid'') (\<lambda>_.
          Inr (if (case checkpoint s of None \<Rightarrow> True | Some (t', n', _) \<Rightarrow> newer t n t' n')
               then s\<lparr>checkpoint := Some (t, n, review)\<rparr> else s))))
      else Inr s)"

definition scan_review ::
  "pull_request_observation \<Rightarrow> reviewer_observation \<Rightarrow> review_scan \<Rightarrow> review_observation \<Rightarrow> review_scan decision_result" where
  "scan_review pull reviewer s review =
     dbind (validate_node (review_node_id review) ''review_node_invalid'') (\<lambda>_.
     dbind (ensure (review_node_id review \<notin> seen_nodes s) ''duplicate_review_node'') (\<lambda>_.
     dbind (validate_reviewer (review_author review) ''reviewer_identity_mismatch'') (\<lambda>_.
     dbind (ensure (same_reviewer (review_author review) reviewer) ''reviewer_identity_mismatch'') (\<lambda>_.
     dbind (ensure (review_state review \<in> {''APPROVED'', ''CHANGES_REQUESTED'', ''COMMENTED'', ''DISMISSED'', ''PENDING''})
              ''review_state_invalid'') (\<lambda>_.
     dbind (case database_id review of
              None \<Rightarrow> Inr (seen_databases s)
            | Some n \<Rightarrow>
                dbind (ensure (n > 0) ''review_database_id_invalid'') (\<lambda>_.
                dbind (ensure (n \<notin> seen_databases s) ''duplicate_review_database_id'') (\<lambda>_.
                dbind (ensure (review_url review = pull_url pull @ ''#pullrequestreview-'' @ decimal n) ''review_url_invalid'') (\<lambda>_.
                  Inr (insert n (seen_databases s)))))) (\<lambda>databases.
     dbind (validate_optional_oid (commit_oid review) ''review_commit_invalid'') (\<lambda>_.
     dbind (validate_optional_oid (checkpoint_base_oid review) ''checkpoint_base_oid_invalid'') (\<lambda>_.
     dbind (case submitted_at review of
              None \<Rightarrow> Inr None
            | Some value \<Rightarrow> dbind (parse_timestamp value ''review_timestamp_invalid'') (\<lambda>t. Inr (Some t))) (\<lambda>stamp.
       scan_checkpoint review stamp
         (s\<lparr>seen_nodes := insert (review_node_id review) (seen_nodes s), seen_databases := databases\<rparr>))))))))))"

definition scan_history ::
  "pull_request_observation \<Rightarrow> reviewer_observation \<Rightarrow> review_observation list \<Rightarrow> review_scan decision_result" where
  "scan_history pull reviewer nodes =
     dfold (scan_review pull reviewer) \<lparr>seen_nodes = {}, seen_databases = {}, checkpoint = None\<rparr> nodes"

section \<open>One candidate\<close>

definition check_pull_request ::
  "candidate_observation \<Rightarrow> string \<Rightarrow> repository_observation option \<Rightarrow> unit decision_result" where
  "check_pull_request cand host requested =
     (let pull = pull_request cand in
      dbind (validate_repository (candidate_repository cand) host ''provider_url_mismatch'') (\<lambda>_.
      dbind (case requested of
               None \<Rightarrow> Inr ()
             | Some repository \<Rightarrow> ensure (candidate_repository cand = repository) ''repository_identity_changed'') (\<lambda>_.
      dbind (validate_node (pull_node_id pull) ''pull_request_identity_invalid'') (\<lambda>_.
      dbind (ensure (pull_number pull > 0) ''pull_request_identity_invalid'') (\<lambda>_.
      dbind (ensure (pull_state pull = ''OPEN'') ''pull_request_not_open'') (\<lambda>_.
      dbind (ensure (pull_url pull = repository_url (candidate_repository cand) @ ''/pull/'' @ decimal (pull_number pull))
               ''provider_url_mismatch'') (\<lambda>_.
      dbind (parse_timestamp (updated_at pull) ''pull_request_timestamp_invalid'') (\<lambda>_.
      dbind (validate_optional_oid (head_oid pull) ''head_oid_invalid'') (\<lambda>_.
        validate_optional_oid (current_base_oid pull) ''current_base_oid_invalid'')))))))))"

definition check_revalidation :: "candidate_observation \<Rightarrow> string \<Rightarrow> actor_observation \<Rightarrow> unit decision_result" where
  "check_revalidation cand host actor =
     (let reval = revalidation cand; outcome = revalidation_outcome reval in
      dbind (ensure (outcome \<in> {''matched'', ''forbidden'', ''not_found''}) ''revalidation_outcome_invalid'') (\<lambda>_.
      dbind (if outcome = ''forbidden'' then Inl (Rejected ''candidate_forbidden'')
             else if outcome = ''not_found'' then Inl (Rejected ''candidate_not_found'')
             else if outcome = ''matched'' then Inr () else Inl Unexpected) (\<lambda>_.
      dbind (validate_actor (revalidation_viewer reval) ''authenticated_actor_invalid'') (\<lambda>_.
      dbind (ensure (same_actor (revalidation_viewer reval) actor) ''authenticated_actor_changed'') (\<lambda>_.
      dbind (validate_repository (revalidation_repository reval) host ''provider_url_mismatch'') (\<lambda>_.
      dbind (ensure (revalidation_repository reval = candidate_repository cand) ''repository_identity_changed'') (\<lambda>_.
      dbind (ensure (revalidation_node_id reval = pull_node_id (pull_request cand)) ''pull_request_identity_changed'') (\<lambda>_.
        ensure (snapshot_matches reval) ''candidate_changed_during_revalidation''))))))))"

definition check_history :: "candidate_observation \<Rightarrow> unit decision_result" where
  "check_history cand =
     (let history = review_history cand in
      dbind (ensure (pages_observed history \<ge> 1) ''review_pagination_invalid'') (\<lambda>_.
      dbind (ensure (terminal_page_observed history) ''incomplete_review_pagination'') (\<lambda>_.
      dbind (if pages_observed history > 1 then ensure (cursor_advanced history) ''review_pagination_cursor_stalled''
             else Inr ()) (\<lambda>_.
      dbind (ensure (reported_count history = length (history_nodes history)) ''review_history_count_mismatch'') (\<lambda>_.
      dbind (ensure (reported_count history \<le> MAX_REVIEWS) ''reviewer_history_limit_exceeded'') (\<lambda>_.
        ensure (total_review_count (pull_request cand) \<ge> reported_count history) ''review_count_invalid''))))))"

definition unobservable :: "review_observation \<Rightarrow> string \<Rightarrow> candidate_decision" where
  "unobservable review why =
     \<lparr>candidate_status = Unobservable, candidate_checkpoint = Some (review_node_id review), candidate_reason = Some why,
      candidate_transition = None, candidate_trigger = None\<rparr>"

definition transition_key ::
  "(bytes \<Rightarrow> string) \<Rightarrow> string \<Rightarrow> candidate_observation \<Rightarrow> reviewer_observation \<Rightarrow> review_observation \<Rightarrow> string decision_result" where
  "transition_key sha256 host cand reviewer review =
     dbind (case commit_oid review of Some c \<Rightarrow> Inr c | None \<Rightarrow> Inl Unexpected) (\<lambda>commit.
     dbind (case head_oid (pull_request cand) of Some h \<Rightarrow> Inr h | None \<Rightarrow> Inl Unexpected) (\<lambda>head.
     let fields = [TRANSITION_DOMAIN, host, repository_node_id (candidate_repository cand), pull_node_id (pull_request cand),
           reviewer_node_id reviewer, review_node_id review, commit, head,
           (case checkpoint_base_oid review of Some b \<Rightarrow> b | None \<Rightarrow> ''<unavailable>''),
           (case current_base_oid (pull_request cand) of Some b \<Rightarrow> b | None \<Rightarrow> ''<unavailable>''),
           (if review_request_active cand then ''review-requested'' else ''not-requested'')] in
       Inr (sha256 (concat (map (\<lambda>f. as_bytes f @ [0]) fields)))))"

definition conclude ::
  "(bytes \<Rightarrow> string) \<Rightarrow> string \<Rightarrow> candidate_observation \<Rightarrow> reviewer_observation \<Rightarrow> bool \<Rightarrow>
   (timestamp \<times> nat \<times> review_observation) option \<Rightarrow> candidate_decision decision_result" where
  "conclude sha256 host cand reviewer require_base found =
     (let pull = pull_request cand in
      case found of
        None \<Rightarrow> Inr \<lparr>candidate_status = NoEligibleReviews, candidate_checkpoint = None, candidate_reason = None,
                  candidate_transition = None, candidate_trigger = None\<rparr>
      | Some (_, _, review) \<Rightarrow>
          if head_oid pull = None then Inr (unobservable review ''head_oid_unavailable'')
          else if total_review_count pull > MAX_REVIEWS then Inr (unobservable review ''resume_review_limit_exceeded'')
          else if require_base \<and> current_base_oid pull = None then Inr (unobservable review ''current_base_oid_unavailable'')
          else
            dbind (case commit_oid review of Some c \<Rightarrow> Inr c | None \<Rightarrow> Inl Unexpected) (\<lambda>commit.
            dbind (case head_oid pull of Some h \<Rightarrow> Inr h | None \<Rightarrow> Inl Unexpected) (\<lambda>head.
            let head_changed = (commit \<noteq> head) in
            if \<not> head_changed \<and> checkpoint_base_oid review = None
            then Inr (unobservable review ''checkpoint_base_oid_unavailable'')
            else if \<not> head_changed \<and> current_base_oid pull = None
            then Inr (unobservable review ''current_base_oid_unavailable'')
            else
              (let base_changed = (checkpoint_base_oid review \<noteq> None \<and> current_base_oid pull \<noteq> None \<and>
                     checkpoint_base_oid review \<noteq> current_base_oid pull);
                   triggers = (if head_changed then [''head_changed''] else []) @ (if base_changed then [''base_drift''] else []) @
                     (if review_request_active cand then [''review_re_requested''] else []) in
               if triggers = [] then
                 Inr \<lparr>candidate_status = UpToDate, candidate_checkpoint = Some (review_node_id review), candidate_reason = None,
                      candidate_transition = None, candidate_trigger = None\<rparr>
               else
                 dbind (transition_key sha256 host cand reviewer review) (\<lambda>key.
                   Inr \<lparr>candidate_status = Actionable, candidate_checkpoint = Some (review_node_id review), candidate_reason = None,
                      candidate_transition = Some key, candidate_trigger = Some (join_with ''+'' triggers)\<rparr>)))))"

definition decide_candidate ::
  "(bytes \<Rightarrow> string) \<Rightarrow> candidate_observation \<Rightarrow> string \<Rightarrow> actor_observation \<Rightarrow> reviewer_observation \<Rightarrow>
   repository_observation option \<Rightarrow> bool \<Rightarrow> candidate_decision decision_result" where
  "decide_candidate sha256 cand host actor reviewer requested require_base =
     dbind (check_pull_request cand host requested) (\<lambda>_.
     dbind (check_revalidation cand host actor) (\<lambda>_.
     dbind (check_history cand) (\<lambda>_.
     dbind (scan_history (pull_request cand) reviewer (history_nodes (review_history cand))) (\<lambda>s.
       conclude sha256 host cand reviewer require_base (checkpoint s)))))"

section \<open>The whole inbox\<close>

definition check_search :: "inbox_observation \<Rightarrow> unit decision_result" where
  "check_search obs =
     (let host = provider_host obs; sc = scope obs; found = search obs in
      dbind (validate_host host ''provider_identity_invalid'') (\<lambda>_.
      dbind (ensure (host = to_ascii_lowercase host) ''provider_identity_invalid'') (\<lambda>_.
      dbind (validate_actor (authenticated_actor sc) ''authenticated_actor_invalid'') (\<lambda>_.
      dbind (validate_reviewer (scope_reviewer sc) ''reviewer_identity_invalid'') (\<lambda>_.
      dbind (case requested_repository sc of
               None \<Rightarrow> Inr ()
             | Some repository \<Rightarrow> validate_repository repository host ''provider_url_mismatch'') (\<lambda>_.
      dbind (ensure (search_outcome found \<in> {''ok'', ''forbidden'', ''repository_not_found''}) ''search_outcome_invalid'') (\<lambda>_.
      dbind (if search_outcome found = ''forbidden'' then Inl (Rejected ''search_forbidden'')
             else if search_outcome found = ''repository_not_found'' then Inl (Rejected ''repository_not_found'')
             else if search_outcome found = ''ok'' then Inr () else Inl Unexpected) (\<lambda>_.
      dbind (validate_actor (search_viewer found) ''authenticated_actor_invalid'') (\<lambda>_.
      dbind (ensure (same_actor (search_viewer found) (authenticated_actor sc)) ''authenticated_actor_changed'') (\<lambda>_.
      dbind (ensure (1 \<le> search_limit found \<and> search_limit found \<le> MAX_CANDIDATES) ''search_limit_invalid'') (\<lambda>_.
      dbind (ensure (length (candidates found) \<le> search_limit found) ''search_limit_exceeded'') (\<lambda>_.
      dbind (ensure (issue_count found \<ge> length (candidates found)) ''search_count_invalid'') (\<lambda>_.
        ensure (has_next_page found = (issue_count found > length (candidates found))) ''search_pagination_inconsistent'')))))))))))))"

definition scan_candidate ::
  "(bytes \<Rightarrow> string) \<Rightarrow> inbox_observation \<Rightarrow> bool \<Rightarrow> candidate_decision list \<times> string set \<Rightarrow> candidate_observation \<Rightarrow>
   (candidate_decision list \<times> string set) decision_result" where
  "scan_candidate sha256 obs require_base acc cand =
     dbind (decide_candidate sha256 cand (provider_host obs) (authenticated_actor (scope obs)) (scope_reviewer (scope obs))
              (requested_repository (scope obs)) require_base) (\<lambda>d.
     dbind (ensure (pull_node_id (pull_request cand) \<notin> snd acc) ''duplicate_pull_request_node'') (\<lambda>_.
       Inr (fst acc @ [d], insert (pull_node_id (pull_request cand)) (snd acc))))"

definition count_status :: "inbox_counts \<Rightarrow> candidate_decision \<Rightarrow> inbox_counts" where
  "count_status c d =
     (case candidate_status d of
        Actionable \<Rightarrow> c\<lparr>actionable := actionable c + 1\<rparr>
      | NoEligibleReviews \<Rightarrow> c\<lparr>no_eligible_reviews := no_eligible_reviews c + 1\<rparr>
      | Unobservable \<Rightarrow> c\<lparr>unobservable_count := unobservable_count c + 1\<rparr>
      | UpToDate \<Rightarrow> c\<lparr>up_to_date := up_to_date c + 1\<rparr>)"

definition overall_status :: "bool \<Rightarrow> inbox_counts \<Rightarrow> string" where
  "overall_status more_pages c =
     (if more_pages then ''partial'' else if actionable c > 0 then ''actionable''
      else if unobservable_count c > 0 then ''insufficient_evidence''
      else if up_to_date c > 0 then ''up_to_date'' else ''no_eligible_reviews'')"

definition evaluate :: "(bytes \<Rightarrow> string) \<Rightarrow> inbox_observation \<Rightarrow> bool \<Rightarrow> inbox_evaluation decision_result" where
  "evaluate sha256 obs require_base =
     dbind (check_search obs) (\<lambda>_.
     dbind (dfold (scan_candidate sha256 obs require_base) ([], {}) (candidates (search obs))) (\<lambda>(ds, _).
     let c = foldl count_status no_counts ds in
       Inr \<lparr>evaluation_decision =
              \<lparr>decision_checkpoint = exactly_one (List.map_filter candidate_checkpoint ds), counts = c, decision_error = None,
               decision_reason = exactly_one (List.map_filter candidate_reason ds), decision_result = ''success'',
               decision_status = Some (overall_status (has_next_page (search obs)) c),
               decision_trigger = exactly_one (List.map_filter candidate_trigger ds),
               decision_transition = exactly_one (List.map_filter candidate_transition ds)\<rparr>,
            evaluation_candidates = ds\<rparr>))"

definition evaluate_with_policy :: "(bytes \<Rightarrow> string) \<Rightarrow> inbox_observation \<Rightarrow> bool \<Rightarrow> inbox_evaluation decision_result" where
  "evaluate_with_policy sha256 obs require_base =
     (case evaluate sha256 obs require_base of
        Inl (Rejected code) \<Rightarrow> Inr \<lparr>evaluation_decision = error_decision code, evaluation_candidates = []\<rparr>
      | r \<Rightarrow> r)"

definition evaluate_inbox_observation :: "(bytes \<Rightarrow> string) \<Rightarrow> inbox_observation \<Rightarrow> inbox_evaluation decision_result" where
  "evaluate_inbox_observation sha256 obs = evaluate_with_policy sha256 obs False"

definition evaluate_inbox_observation_for_resume :: "(bytes \<Rightarrow> string) \<Rightarrow> inbox_observation \<Rightarrow> inbox_evaluation decision_result" where
  "evaluate_inbox_observation_for_resume sha256 obs = evaluate_with_policy sha256 obs True"

definition decide_inbox_observation :: "(bytes \<Rightarrow> string) \<Rightarrow> inbox_observation \<Rightarrow> inbox_decision decision_result" where
  "decide_inbox_observation sha256 obs =
     dbind (evaluate_inbox_observation sha256 obs) (\<lambda>e. Inr (evaluation_decision e))"

text \<open>The decoder of a JSON value is that of serde: a parameter.\<close>

definition decide_inbox_observation_json ::
  "('json \<Rightarrow> inbox_observation option) \<Rightarrow> (bytes \<Rightarrow> string) \<Rightarrow> 'json \<Rightarrow> inbox_decision decision_result" where
  "decide_inbox_observation_json decode sha256 value =
     (case decode value of
        Some obs \<Rightarrow> decide_inbox_observation sha256 obs
      | None \<Rightarrow> Inr (error_decision ''observation_shape_invalid''))"

end
