(* ===== verification/Inbox_Properties.thy ===== *)
theory Inbox_Properties
  imports Inbox_Decision "HOL-Library.Multiset"
begin

text \<open>
  The decisions of the inbox: no observation panics, the checkpoint of a history is its newest formal review whatever the order
  of the reviews, and the status of a candidate is what its specification says.
\<close>

section \<open>No panics\<close>

lemma calm_ends_alphanumeric [calm_intros]: "value \<noteq> [] \<Longrightarrow> calm (ends_alphanumeric value code)"
  by (simp add: ends_alphanumeric_def calm_ensure_bind)

lemma calm_validations [calm_intros]:
  "calm (validate_host value code)" "calm (validate_login value code)" "calm (validate_node value code)"
  unfolding validate_host_def validate_login_def validate_node_def
  by (rule calm_intros | force)+

lemma calm_identities [calm_intros]:
  "calm (validate_actor actor code)" "calm (validate_reviewer reviewer code)" "calm (validate_repository repository host code)"
  "calm (validate_optional_oid value code)"
  unfolding validate_actor_def validate_reviewer_def validate_repository_def validate_optional_oid_def
  by (rule calm_intros)+

lemma calm_scan_checkpoint [calm_intros]: "calm (scan_checkpoint review stamp s)"
  unfolding scan_checkpoint_def by (rule calm_intros)+

lemma calm_scan_review [calm_intros]: "calm (scan_review pull reviewer s review)"
  unfolding scan_review_def by (rule calm_intros)+

lemma calm_scan_history [calm_intros]: "calm (scan_history pull reviewer nodes)"
  unfolding scan_history_def by (rule calm_fold [where I = "\<lambda>_. True"]) (rule TrueI calm_intros)+

lemma calm_checks [calm_intros]:
  "calm (check_pull_request cand host requested)" "calm (check_revalidation cand host actor)" "calm (check_history cand)"
  "calm (check_search obs)"
  unfolding check_pull_request_def check_revalidation_def check_history_def check_search_def Let_def
  by (rule calm_intros | force)+

section \<open>Reading a history\<close>

text \<open>The time stamp of a review, and what every review of an accepted history satisfies by itself.\<close>

definition dated :: "review_observation \<Rightarrow> timestamp option" where
  "dated review =
     (case submitted_at review of
        None \<Rightarrow> None
      | Some value \<Rightarrow> (case parse_timestamp value ''review_timestamp_invalid'' of Inr t \<Rightarrow> Some t | Inl _ \<Rightarrow> None))"

definition review_ok :: "pull_request_observation \<Rightarrow> reviewer_observation \<Rightarrow> review_observation \<Rightarrow> bool" where
  "review_ok pull reviewer review \<longleftrightarrow>
     validate_node (review_node_id review) ''review_node_invalid'' = Inr () \<and>
     validate_reviewer (review_author review) ''reviewer_identity_mismatch'' = Inr () \<and>
     same_reviewer (review_author review) reviewer \<and>
     review_state review \<in> {''APPROVED'', ''CHANGES_REQUESTED'', ''COMMENTED'', ''DISMISSED'', ''PENDING''} \<and>
     (\<forall>n. database_id review = Some n \<longrightarrow> n > 0 \<and> review_url review = pull_url pull @ ''#pullrequestreview-'' @ decimal n) \<and>
     validate_optional_oid (commit_oid review) ''review_commit_invalid'' = Inr () \<and>
     validate_optional_oid (checkpoint_base_oid review) ''checkpoint_base_oid_invalid'' = Inr () \<and>
     (submitted_at review \<noteq> None \<longrightarrow> dated review \<noteq> None) \<and>
     (formal review \<longrightarrow> database_id review \<noteq> None \<and> dated review \<noteq> None \<and> commit_oid review \<noteq> None)"

definition next_checkpoint ::
  "review_observation \<Rightarrow> (timestamp \<times> nat \<times> review_observation) option \<Rightarrow> (timestamp \<times> nat \<times> review_observation) option" where
  "next_checkpoint review c =
     (if formal review then
        (case c of None \<Rightarrow> Some (the (dated review), the (database_id review), review)
         | Some (t', n', r') \<Rightarrow> if newer (the (dated review)) (the (database_id review)) t' n'
             then Some (the (dated review), the (database_id review), review) else c)
      else c)"

definition next_scan :: "review_scan \<Rightarrow> review_observation \<Rightarrow> review_scan" where
  "next_scan s review =
     \<lparr>seen_nodes = insert (review_node_id review) (seen_nodes s),
      seen_databases = set_option (database_id review) \<union> seen_databases s,
      checkpoint = next_checkpoint review (checkpoint s)\<rparr>"

definition fresh :: "review_scan \<Rightarrow> review_observation \<Rightarrow> bool" where
  "fresh s review \<longleftrightarrow> review_node_id review \<notin> seen_nodes s \<and> set_option (database_id review) \<inter> seen_databases s = {}"

lemma unit_decision: "m = Inr () \<longleftrightarrow> (\<exists>u. m = Inr u)" for m :: "unit decision_result"
  by (cases m) simp_all

lemma scan_review_iff:
  "scan_review pull reviewer s review = Inr s' \<longleftrightarrow> review_ok pull reviewer review \<and> fresh s review \<and> s' = next_scan s review"
proof -
  have dbind_unit: "dbind m f = Inr y \<longleftrightarrow> m = Inr () \<and> f () = Inr y" for m :: "unit decision_result" and f and y :: review_scan
    by (cases m) auto
  have databases: "dbind (case database_id review of
              None \<Rightarrow> Inr (seen_databases s)
            | Some n \<Rightarrow>
                dbind (ensure (n > 0) ''review_database_id_invalid'') (\<lambda>_.
                dbind (ensure (n \<notin> seen_databases s) ''duplicate_review_database_id'') (\<lambda>_.
                dbind (ensure (review_url review = pull_url pull @ ''#pullrequestreview-'' @ decimal n) ''review_url_invalid'') (\<lambda>_.
                  Inr (insert n (seen_databases s)))))) f = Inr y \<longleftrightarrow>
      (\<forall>n. database_id review = Some n \<longrightarrow> n > 0 \<and> review_url review = pull_url pull @ ''#pullrequestreview-'' @ decimal n) \<and>
      set_option (database_id review) \<inter> seen_databases s = {} \<and> f (set_option (database_id review) \<union> seen_databases s) = Inr y"
    for f and y :: review_scan
    by (cases "database_id review") (auto simp: dbind_Inr_iff)
  have stamp: "dbind (case submitted_at review of
              None \<Rightarrow> Inr None
            | Some value \<Rightarrow> dbind (parse_timestamp value ''review_timestamp_invalid'') (\<lambda>t. Inr (Some t))) f = Inr y \<longleftrightarrow>
      (submitted_at review \<noteq> None \<longrightarrow> dated review \<noteq> None) \<and> f (dated review) = Inr y" for f and y :: review_scan
    by (cases "submitted_at review") (auto simp: dated_def dbind_Inr_iff split: sum.splits)
  have final: "scan_checkpoint review stamp t = Inr s' \<longleftrightarrow>
      (formal review \<longrightarrow> database_id review \<noteq> None \<and> stamp \<noteq> None \<and> commit_oid review \<noteq> None) \<and>
      s' = t\<lparr>checkpoint := (if formal review then
        (case checkpoint t of None \<Rightarrow> Some (the stamp, the (database_id review), review)
         | Some (t', n', r') \<Rightarrow> if newer (the stamp) (the (database_id review)) t' n'
             then Some (the stamp, the (database_id review), review) else checkpoint t) else checkpoint t)\<rparr>" for stamp t
    by (cases "database_id review"; cases stamp; cases "checkpoint t") (auto simp: scan_checkpoint_def dbind_Inr_iff)
  have update: "s\<lparr>seen_nodes := A, seen_databases := B\<rparr>\<lparr>checkpoint := c\<rparr> = \<lparr>seen_nodes = A, seen_databases = B, checkpoint = c\<rparr>"
    "checkpoint (s\<lparr>seen_nodes := A, seen_databases := B\<rparr>) = checkpoint s" for A B c
    by simp_all
  show ?thesis
    unfolding scan_review_def dbind_unit databases stamp final ensure_Inr update
    unfolding review_ok_def fresh_def next_scan_def next_checkpoint_def
    by blast
qed

section \<open>The checkpoint\<close>

definition stamp_key :: "timestamp \<Rightarrow> nat \<Rightarrow> nat list \<times> rat \<times> nat" where
  "stamp_key t n = (components t, fraction_value (fraction t), n)"

definition review_key :: "review_observation \<Rightarrow> nat list \<times> rat \<times> nat" where
  "review_key review = stamp_key (the (dated review)) (the (database_id review))"

text \<open>The newest formal review of a history: by time stamp, then by identifier.\<close>

definition latest :: "review_observation list \<Rightarrow> (timestamp \<times> nat \<times> review_observation) option \<Rightarrow> bool" where
  "latest nodes c \<longleftrightarrow>
     (case c of
        None \<Rightarrow> \<forall>r\<in>set nodes. \<not> formal r
      | Some (t, n, r) \<Rightarrow> r \<in> set nodes \<and> formal r \<and> dated r = Some t \<and> database_id r = Some n \<and> commit_oid r \<noteq> None \<and>
          (\<forall>q\<in>set nodes. formal q \<longrightarrow> review_key q \<le> review_key r))"

lemma compare_list_order: "compare_list a b = (if a < b then Below else if a = b then Same else Above)"
  by (induction a b rule: compare_list.induct) (auto simp: compare_nat_def)

lemma compare_timestamp_order:
  assumes "list_all ascii_digit (fraction t)" "list_all ascii_digit (fraction t')"
  shows "compare_timestamp t t' =
    (let k = (components t, fraction_value (fraction t)); k' = (components t', fraction_value (fraction t')) in
     if k < k' then Below else if k = k' then Same else Above)"
  by (auto simp: compare_timestamp_def compare_list_order compare_fraction_value [OF assms] compare_rat_def Let_def less_prod_def')

lemma newer_iff:
  assumes "list_all ascii_digit (fraction t)" "list_all ascii_digit (fraction t')"
  shows "newer t n t' n' \<longleftrightarrow> stamp_key t' n' < stamp_key t n"
  using assms
  by (auto simp: newer_def compare_timestamp_order Let_def stamp_key_def less_prod_def' split: if_splits)

lemma dated_digits: "dated r = Some t \<Longrightarrow> list_all ascii_digit (fraction t)"
  using parse_timestamp_ok by (auto simp: dated_def stamp_ok_def split: option.splits sum.splits)

lemma next_checkpoint_latest:
  assumes "latest nodes c" "review_ok pull reviewer r"
  shows "latest (nodes @ [r]) (next_checkpoint r c)"
proof (cases "formal r")
  case False
  then show ?thesis using assms(1) by (auto simp: latest_def next_checkpoint_def split: option.splits)
next
  case True
  then obtain t n where r: "dated r = Some t" "database_id r = Some n" "commit_oid r \<noteq> None"
    using assms(2) by (auto simp: review_ok_def)
  show ?thesis
  proof (cases c)
    case None
    then have "next_checkpoint r c = Some (t, n, r)" using True r by (simp add: next_checkpoint_def)
    moreover have "\<forall>x\<in>set nodes. \<not> formal x" using assms(1) by (simp add: latest_def None)
    ultimately show ?thesis using True r by (simp add: latest_def)
  next
    case (Some old)
    obtain t' n' q where old: "old = (t', n', q)" by (rule prod_cases3)
    have q: "q \<in> set nodes" "formal q" "dated q = Some t'" "database_id q = Some n'" "commit_oid q \<noteq> None"
      "\<forall>x\<in>set nodes. formal x \<longrightarrow> review_key x \<le> review_key q"
      using assms(1) by (simp_all add: latest_def Some old)
    have keys: "review_key r = stamp_key t n" "review_key q = stamp_key t' n'" using r q by (simp_all add: review_key_def)
    note newer = newer_iff [OF dated_digits [OF r(1)] dated_digits [OF q(3)], of n n', folded keys]
    show ?thesis
    proof (cases "newer t n t' n'")
      case True
      then have "next_checkpoint r c = Some (t, n, r)" using \<open>formal r\<close> r by (simp add: next_checkpoint_def Some old)
      moreover have "\<forall>x\<in>set nodes. formal x \<longrightarrow> review_key x \<le> review_key r"
        using q(6) True newer by (meson less_imp_le order_trans)
      ultimately show ?thesis using r \<open>formal r\<close> by (simp add: latest_def)
    next
      case False
      then have "next_checkpoint r c = c" using r by (simp add: next_checkpoint_def Some old)
      then show ?thesis using False newer q by (auto simp: latest_def Some old)
    qed
  qed
qed

lemma checkpoint_fold: "checkpoint (foldl next_scan s xs) = foldl (\<lambda>c r. next_checkpoint r c) (checkpoint s) xs"
  by (induction xs arbitrary: s) (simp_all add: next_scan_def)

lemma latest_fold:
  assumes "\<forall>r\<in>set xs. review_ok pull reviewer r"
  shows "latest xs (foldl (\<lambda>c r. next_checkpoint r c) None xs)"
  using assms
proof (induction xs rule: rev_induct)
  case (snoc x xs)
  then show ?case by (auto intro: next_checkpoint_latest)
qed (simp add: latest_def)

definition history_ok :: "pull_request_observation \<Rightarrow> reviewer_observation \<Rightarrow> review_observation list \<Rightarrow> bool" where
  "history_ok pull reviewer nodes \<longleftrightarrow>
     (\<forall>r\<in>set nodes. review_ok pull reviewer r) \<and> distinct (map review_node_id nodes) \<and> distinct (List.map_filter database_id nodes)"

lemma scan_reviews_iff:
  "dfold (scan_review pull reviewer) s xs = Inr t \<longleftrightarrow>
     history_ok pull reviewer xs \<and> set (map review_node_id xs) \<inter> seen_nodes s = {} \<and>
     set (List.map_filter database_id xs) \<inter> seen_databases s = {} \<and> t = foldl next_scan s xs"
proof (induction xs arbitrary: s)
  case Nil
  then show ?case by (auto simp: history_ok_def List.map_filter_simps)
next
  case (Cons x xs)
  have "dfold (scan_review pull reviewer) s (x # xs) = Inr t \<longleftrightarrow>
      review_ok pull reviewer x \<and> fresh s x \<and> dfold (scan_review pull reviewer) (next_scan s x) xs = Inr t"
    by (auto simp: dbind_Inr_iff scan_review_iff)
  moreover have "set (List.map_filter database_id (x # xs)) = set_option (database_id x) \<union> set (List.map_filter database_id xs)"
    "distinct (List.map_filter database_id (x # xs)) \<longleftrightarrow>
       set_option (database_id x) \<inter> set (List.map_filter database_id xs) = {} \<and> distinct (List.map_filter database_id xs)"
    by (cases "database_id x"; simp add: List.map_filter_simps)+
  moreover have "seen_nodes (next_scan s x) = insert (review_node_id x) (seen_nodes s)"
    "seen_databases (next_scan s x) = set_option (database_id x) \<union> seen_databases s"
    by (simp_all add: next_scan_def)
  moreover have "insert a N \<inter> S = {} \<longleftrightarrow> a \<notin> S \<and> N \<inter> S = {}" "N \<inter> insert a S = {} \<longleftrightarrow> a \<notin> N \<and> N \<inter> S = {}" for a :: string and N S
    by auto
  moreover have "(d \<union> D) \<inter> S = {} \<longleftrightarrow> d \<inter> S = {} \<and> D \<inter> S = {}" "D \<inter> (d \<union> S) = {} \<longleftrightarrow> d \<inter> D = {} \<and> D \<inter> S = {}"
    for d D S :: "nat set"
    by auto
  ultimately show ?case
    by (simp only: Cons.IH history_ok_def fresh_def foldl_Cons list.map list.set ball_simps distinct.simps) argo
qed

lemma scan_history_iff:
  "scan_history pull reviewer nodes = Inr s \<longleftrightarrow>
     history_ok pull reviewer nodes \<and> s = foldl next_scan \<lparr>seen_nodes = {}, seen_databases = {}, checkpoint = None\<rparr> nodes"
  by (auto simp: scan_history_def scan_reviews_iff)

lemma scan_history_latest: "scan_history pull reviewer nodes = Inr s \<Longrightarrow> latest nodes (checkpoint s)"
  by (auto simp: scan_history_iff checkpoint_fold history_ok_def intro: latest_fold)

lemma map_filter_inj:
  "distinct (List.map_filter f xs) \<Longrightarrow> x \<in> set xs \<Longrightarrow> y \<in> set xs \<Longrightarrow> f x = Some n \<Longrightarrow> f y = Some n \<Longrightarrow> x = y"
proof (induction xs)
  case (Cons z zs)
  have mem: "f w = Some n \<Longrightarrow> w \<in> set zs \<Longrightarrow> n \<in> set (List.map_filter f zs)" for w
    by (force simp: List.map_filter_def)
  show ?case using Cons mem by (auto simp: List.map_filter_simps split: option.splits)
qed simp

lemma latest_unique:
  assumes "latest xs c" "latest ys c'" "set xs = set ys" "distinct (List.map_filter database_id xs)"
  shows "c = c'"
proof (cases c)
  case None
  then show ?thesis using assms by (auto simp: latest_def split: option.splits)
next
  case (Some a)
  obtain t n r where a: "a = (t, n, r)" by (rule prod_cases3)
  have r: "r \<in> set xs" "formal r" "dated r = Some t" "database_id r = Some n" "\<forall>q\<in>set xs. formal q \<longrightarrow> review_key q \<le> review_key r"
    using assms(1) by (simp_all add: latest_def Some a)
  then obtain t' n' r' where c': "c' = Some (t', n', r')" using assms(2,3) by (cases c') (auto simp: latest_def)
  have r': "r' \<in> set xs" "formal r'" "dated r' = Some t'" "database_id r' = Some n'" "\<forall>q\<in>set xs. formal q \<longrightarrow> review_key q \<le> review_key r'"
    using assms(2) unfolding c' latest_def assms(3) by simp_all
  have "review_key r = review_key r'" using r r' by (meson order.antisym)
  then have "n = n'" using r r' by (simp add: review_key_def stamp_key_def)
  then have "r = r'" using map_filter_inj [OF assms(4) r(1) r'(1)] r(4) r'(4) by simp
  then show ?thesis using r r' by (simp add: Some a c')
qed

lemma history_ok_perm:
  assumes "history_ok pull reviewer xs" "mset xs = mset ys"
  shows "history_ok pull reviewer ys"
proof -
  have "set xs = set ys" using assms(2) by (rule mset_eq_setD)
  moreover have "mset (map review_node_id ys) = mset (map review_node_id xs)" by (simp add: assms(2))
  moreover have "mset (List.map_filter database_id ys) = mset (List.map_filter database_id xs)"
    by (simp add: List.map_filter_def mset_filter assms(2))
  ultimately show ?thesis using assms(1) mset_eq_imp_distinct_iff unfolding history_ok_def by metis
qed

lemma scan_history_perm:
  assumes "scan_history pull reviewer xs = Inr s" "mset xs = mset ys"
  obtains t where "scan_history pull reviewer ys = Inr t" "checkpoint t = checkpoint s"
proof -
  have ok: "history_ok pull reviewer xs" using assms(1) by (simp add: scan_history_iff)
  have "history_ok pull reviewer ys" by (rule history_ok_perm [OF ok assms(2)])
  then obtain t where t: "scan_history pull reviewer ys = Inr t" by (simp add: scan_history_iff)
  have "checkpoint t = checkpoint s"
    using latest_unique [OF scan_history_latest [OF assms(1)] scan_history_latest [OF t] mset_eq_setD [OF assms(2)]] ok
    by (simp add: history_ok_def)
  with t show ?thesis by (rule that)
qed

section \<open>The decision of a candidate\<close>

text \<open>What has to be known about a checkpoint, and when the reviewer has to look again.\<close>

definition observable :: "candidate_observation \<Rightarrow> bool \<Rightarrow> review_observation \<Rightarrow> bool" where
  "observable cand require_base r \<longleftrightarrow>
     (let pull = pull_request cand in
      head_oid pull \<noteq> None \<and> total_review_count pull \<le> MAX_REVIEWS \<and> (require_base \<longrightarrow> current_base_oid pull \<noteq> None) \<and>
      (commit_oid r = head_oid pull \<longrightarrow> checkpoint_base_oid r \<noteq> None \<and> current_base_oid pull \<noteq> None))"

definition needs_review :: "candidate_observation \<Rightarrow> review_observation \<Rightarrow> bool" where
  "needs_review cand r \<longleftrightarrow>
     (let pull = pull_request cand in
      commit_oid r \<noteq> head_oid pull \<or>
      (checkpoint_base_oid r \<noteq> None \<and> current_base_oid pull \<noteq> None \<and> checkpoint_base_oid r \<noteq> current_base_oid pull) \<or>
      review_request_active cand)"

definition expected_status :: "candidate_observation \<Rightarrow> bool \<Rightarrow> review_observation option \<Rightarrow> candidate_status" where
  "expected_status cand require_base c =
     (case c of
        None \<Rightarrow> NoEligibleReviews
      | Some r \<Rightarrow> if \<not> observable cand require_base r then Unobservable else if needs_review cand r then Actionable else UpToDate)"

definition describes :: "candidate_observation \<Rightarrow> bool \<Rightarrow> review_observation option \<Rightarrow> candidate_decision \<Rightarrow> bool" where
  "describes cand require_base c d \<longleftrightarrow>
     candidate_checkpoint d = map_option review_node_id c \<and> candidate_status d = expected_status cand require_base c \<and>
     (candidate_reason d \<noteq> None \<longleftrightarrow> candidate_status d = Unobservable) \<and>
     (candidate_transition d \<noteq> None \<longleftrightarrow> candidate_status d = Actionable) \<and>
     (candidate_trigger d \<noteq> None \<longleftrightarrow> candidate_status d = Actionable)"

lemma transition_key_returns:
  assumes "commit_oid r \<noteq> None" "head_oid (pull_request cand) \<noteq> None"
  shows "\<exists>k. transition_key sha256 host cand reviewer r = Inr k"
  using assms by (auto simp: transition_key_def Let_def)

lemma conclude_describes:
  assumes "\<And>t n r. found = Some (t, n, r) \<Longrightarrow> commit_oid r \<noteq> None"
  shows "\<exists>d. conclude sha256 host cand reviewer require_base found = Inr d \<and>
    describes cand require_base (map_option (snd \<circ> snd) found) d"
proof (cases found)
  case None
  then show ?thesis by (simp add: conclude_def describes_def expected_status_def Let_def)
next
  case (Some a)
  obtain t n r where a: "a = (t, n, r)" by (rule prod_cases3)
  obtain commit where commit: "commit_oid r = Some commit" using assms [of t n r] Some a by auto
  let ?pull = "pull_request cand"
  show ?thesis
  proof (cases "head_oid ?pull")
    case None
    then show ?thesis
      by (simp add: Some a conclude_def Let_def describes_def expected_status_def observable_def unobservable_def)
  next
    case head: (Some head)
    obtain k where k: "transition_key sha256 host cand reviewer r = Inr k"
      using transition_key_returns commit head by blast
    show ?thesis
    proof (cases "observable cand require_base r")
      case False
      then have "total_review_count ?pull > MAX_REVIEWS \<or> require_base \<and> current_base_oid ?pull = None \<or>
          commit = head \<and> checkpoint_base_oid r = None \<or> commit = head \<and> current_base_oid ?pull = None"
        using commit head by (auto simp: observable_def Let_def)
      then have "\<exists>why. conclude sha256 host cand reviewer require_base found = Inr (unobservable r why)"
        unfolding conclude_def Let_def Some a option.case prod.case head commit dbind_simps by auto
      then show ?thesis
        using False by (auto simp: Some a describes_def expected_status_def unobservable_def)
    next
      case True
      let ?base = "checkpoint_base_oid r \<noteq> None \<and> current_base_oid ?pull \<noteq> None \<and> checkpoint_base_oid r \<noteq> current_base_oid ?pull"
      let ?triggers = "(if commit \<noteq> head then [''head_changed''] else []) @ (if ?base then [''base_drift''] else []) @
        (if review_request_active cand then [''review_re_requested''] else [])"
      have known: "\<not> (total_review_count ?pull > MAX_REVIEWS)" "\<not> (require_base \<and> current_base_oid ?pull = None)"
        "\<not> (\<not> commit \<noteq> head \<and> checkpoint_base_oid r = None)" "\<not> (\<not> commit \<noteq> head \<and> current_base_oid ?pull = None)"
        using True commit head by (auto simp: observable_def Let_def)
      have run: "conclude sha256 host cand reviewer require_base found =
          (if ?triggers = [] then
             Inr \<lparr>candidate_status = UpToDate, candidate_checkpoint = Some (review_node_id r), candidate_reason = None,
                  candidate_transition = None, candidate_trigger = None\<rparr>
           else Inr \<lparr>candidate_status = Actionable, candidate_checkpoint = Some (review_node_id r), candidate_reason = None,
                  candidate_transition = Some k, candidate_trigger = Some (join_with ''+'' ?triggers)\<rparr>)"
        unfolding conclude_def Let_def Some a option.case prod.case head commit dbind_simps k if_not_P [OF known(1)]
          if_not_P [OF known(2)] if_not_P [OF known(3)] if_not_P [OF known(4)]
        by simp
      have "?triggers = [] \<longleftrightarrow> \<not> needs_review cand r"
        using commit head by (simp add: needs_review_def Let_def)
      then show ?thesis
        unfolding run using True by (simp add: Some a describes_def expected_status_def del: append_is_Nil_conv)
    qed
  qed
qed

lemma decide_candidate_iff:
  "decide_candidate sha256 cand host actor reviewer requested require_base = Inr d \<longleftrightarrow>
     check_pull_request cand host requested = Inr () \<and> check_revalidation cand host actor = Inr () \<and> check_history cand = Inr () \<and>
     (\<exists>s. scan_history (pull_request cand) reviewer (history_nodes (review_history cand)) = Inr s \<and>
        conclude sha256 host cand reviewer require_base (checkpoint s) = Inr d)"
  by (auto simp: decide_candidate_def dbind_Inr_iff)

lemma decide_candidate_describes:
  assumes "decide_candidate sha256 cand host actor reviewer requested require_base = Inr d"
  shows "\<exists>c. latest (history_nodes (review_history cand)) c \<and> describes cand require_base (map_option (snd \<circ> snd) c) d"
proof -
  obtain s where s: "scan_history (pull_request cand) reviewer (history_nodes (review_history cand)) = Inr s"
    "conclude sha256 host cand reviewer require_base (checkpoint s) = Inr d"
    using assms by (auto simp: decide_candidate_iff)
  have latest: "latest (history_nodes (review_history cand)) (checkpoint s)" by (rule scan_history_latest [OF s(1)])
  then have commit: "\<And>t n r. checkpoint s = Some (t, n, r) \<Longrightarrow> commit_oid r \<noteq> None" by (simp add: latest_def)
  obtain d' where
    "conclude sha256 host cand reviewer require_base (checkpoint s) = Inr d'"
    "describes cand require_base (map_option (snd \<circ> snd) (checkpoint s)) d'"
    using conclude_describes [where found = "checkpoint s" and ?sha256.0 = sha256 and host = host and cand = cand and reviewer = reviewer
        and require_base = require_base] commit by blast
  then show ?thesis using latest s(2) by (intro exI [of _ "checkpoint s"]) simp
qed

lemma calm_decide_candidate [calm_intros]: "calm (decide_candidate sha256 cand host actor reviewer requested require_base)"
  unfolding decide_candidate_def
proof (intro calm_bind calm_checks calm_scan_history)
  fix s assume s: "scan_history (pull_request cand) reviewer (history_nodes (review_history cand)) = Inr s"
  have commit: "\<And>t n r. checkpoint s = Some (t, n, r) \<Longrightarrow> commit_oid r \<noteq> None"
    using scan_history_latest [OF s] by (simp add: latest_def)
  obtain d where "conclude sha256 host cand reviewer require_base (checkpoint s) = Inr d"
    using conclude_describes [where found = "checkpoint s" and ?sha256.0 = sha256 and host = host and cand = cand and reviewer = reviewer
        and require_base = require_base] commit by blast
  then show "calm (conclude sha256 host cand reviewer require_base (checkpoint s))" by simp
qed

text \<open>The same candidate with its reviews in another order.\<close>

definition with_reviews :: "candidate_observation \<Rightarrow> review_observation list \<Rightarrow> candidate_observation" where
  "with_reviews cand nodes = cand\<lparr>review_history := (review_history cand)\<lparr>history_nodes := nodes\<rparr>\<rparr>"

lemma with_reviews_simps [simp]:
  "pull_request (with_reviews cand nodes) = pull_request cand" "candidate_repository (with_reviews cand nodes) = candidate_repository cand"
  "revalidation (with_reviews cand nodes) = revalidation cand" "review_request_active (with_reviews cand nodes) = review_request_active cand"
  "history_nodes (review_history (with_reviews cand nodes)) = nodes"
  "pages_observed (review_history (with_reviews cand nodes)) = pages_observed (review_history cand)"
  "reported_count (review_history (with_reviews cand nodes)) = reported_count (review_history cand)"
  "terminal_page_observed (review_history (with_reviews cand nodes)) = terminal_page_observed (review_history cand)"
  "cursor_advanced (review_history (with_reviews cand nodes)) = cursor_advanced (review_history cand)"
  by (simp_all add: with_reviews_def)

lemma decide_candidate_perm:
  assumes run: "decide_candidate sha256 cand host actor reviewer requested require_base = Inr d"
    and perm: "mset (history_nodes (review_history cand)) = mset nodes"
  shows "decide_candidate sha256 (with_reviews cand nodes) host actor reviewer requested require_base = Inr d"
proof -
  obtain s where s: "scan_history (pull_request cand) reviewer (history_nodes (review_history cand)) = Inr s"
    "conclude sha256 host cand reviewer require_base (checkpoint s) = Inr d"
    using run by (auto simp: decide_candidate_iff)
  obtain t where t: "scan_history (pull_request cand) reviewer nodes = Inr t" "checkpoint t = checkpoint s"
    by (rule scan_history_perm [OF s(1) perm])
  have "length nodes = length (history_nodes (review_history cand))" using mset_eq_length [OF perm] by simp
  then have checks: "check_history (with_reviews cand nodes) = check_history cand"
    "check_pull_request (with_reviews cand nodes) host requested = check_pull_request cand host requested"
    "check_revalidation (with_reviews cand nodes) host actor = check_revalidation cand host actor"
    by (simp_all add: check_history_def check_pull_request_def check_revalidation_def Let_def split: option.splits)
  have keys: "transition_key sha256 host (with_reviews cand nodes) reviewer r = transition_key sha256 host cand reviewer r" for r
    by (simp add: transition_key_def)
  have "conclude sha256 host (with_reviews cand nodes) reviewer require_base found =
      conclude sha256 host cand reviewer require_base found" for found
    unfolding conclude_def with_reviews_simps keys ..
  then show ?thesis using run s t by (auto simp: decide_candidate_iff checks)
qed

section \<open>The inbox\<close>

lemma calm_evaluate: "calm (evaluate sha256 obs require_base)"
  unfolding evaluate_def
proof (intro calm_bind calm_checks calm_case_prod)
  show "calm (dfold (scan_candidate sha256 obs require_base) ([], {}) (candidates (search obs)))"
    by (rule calm_fold [where I = "\<lambda>_. True"]) (auto simp: scan_candidate_def intro!: calm_intros)
qed (simp add: Let_def)

lemma evaluate_with_policy_returns: "\<exists>e. evaluate_with_policy sha256 obs require_base = Inr e"
  using calm_evaluate [of sha256 obs require_base]
  by (auto simp: evaluate_with_policy_def calm_def split: sum.splits decision_failure.splits)

definition total_count :: "inbox_counts \<Rightarrow> nat" where
  "total_count c = actionable c + no_eligible_reviews c + unobservable_count c + up_to_date c"

lemma count_status_total: "total_count (foldl count_status c ds) = total_count c + length ds"
  by (induction ds arbitrary: c) (auto simp: count_status_def total_count_def split: candidate_status.splits)

lemma scan_candidates_results:
  assumes "dfold (scan_candidate sha256 obs require_base) ([], {}) cands = Inr (ds, ids)"
  shows "list_all2 (\<lambda>cand d. decide_candidate sha256 cand (provider_host obs) (authenticated_actor (scope obs)) (scope_reviewer (scope obs))
      (requested_repository (scope obs)) require_base = Inr d) cands ds \<and>
    distinct (map (pull_node_id \<circ> pull_request) cands) \<and> ids = set (map (pull_node_id \<circ> pull_request) cands)"
  (is "list_all2 ?P cands ds \<and> _")
proof -
  have "(\<lambda>ys acc. list_all2 ?P ys (fst acc) \<and> distinct (map (pull_node_id \<circ> pull_request) ys) \<and>
      snd acc = set (map (pull_node_id \<circ> pull_request) ys)) cands (ds, ids)"
    by (rule dfold_prefix [OF assms])
      (auto simp: scan_candidate_def dbind_Inr_iff list_all2_appendI)
  then show ?thesis by simp
qed

lemma evaluate_Inr:
  assumes "evaluate sha256 obs require_base = Inr e"
  obtains ds ids where "dfold (scan_candidate sha256 obs require_base) ([], {}) (candidates (search obs)) = Inr (ds, ids)"
    "evaluation_candidates e = ds" "counts (evaluation_decision e) = foldl count_status no_counts ds"
    "decision_status (evaluation_decision e) = Some (overall_status (has_next_page (search obs)) (foldl count_status no_counts ds))"
  using assms by (auto simp: evaluate_def dbind_Inr_iff Let_def)

section \<open>Properties\<close>

text \<open>C33: every observation has a decision. Whatever the strings, numbers and reviews of an observation, the evaluation returns: no
  byte index is out of range in the checks of hosts, logins and time stamps, no \<open>expect\<close> on a commit or head fails and
  no \<open>unreachable!\<close> is reached; an inconsistent observation becomes an error decision with a code.\<close>

theorem inbox_returns: "\<exists>e. evaluate_with_policy sha256 obs require_base = Inr e"
  by (rule evaluate_with_policy_returns)

text \<open>C7: the status of a candidate. If \<open>decide_candidate\<close> decides, the checkpoint is the newest formal review of the history, by time
  stamp and then by identifier; without one nothing is eligible; the candidate is unobservable exactly when the head,
  a needed base or the number of reviews is out of reach, and otherwise actionable exactly when the head or the base
  changed since the checkpoint or the review was requested again. A reason is given exactly for the unobservable, a
  trigger and a transition key exactly for the actionable.\<close>

theorem candidate_status_exact:
  assumes "decide_candidate sha256 cand host actor reviewer requested require_base = Inr d"
  shows "\<exists>c. latest (history_nodes (review_history cand)) c \<and> describes cand require_base (map_option (snd \<circ> snd) c) d"
  using assms by (rule decide_candidate_describes)

text \<open>C8: the order of the reviews does not matter. A candidate whose history lists the same reviews in another order is accepted as
  well and decided in the same way, with the same checkpoint and transition key: identifiers are unique in an
  accepted history, so its newest formal review is one review.\<close>

theorem review_order_irrelevant:
  assumes "decide_candidate sha256 cand host actor reviewer requested require_base = Inr d"
    and "mset (history_nodes (review_history cand)) = mset nodes"
  shows "decide_candidate sha256 (with_reviews cand nodes) host actor reviewer requested require_base = Inr d"
  using assms by (rule decide_candidate_perm)

text \<open>C38: time stamps are ordered by time. For two texts that \<open>parse_timestamp\<close> reads, the digit-wise comparison of the code is the
  comparison of the calendar components and then of the fractions of a second as rational numbers, whatever their
  numbers of digits; and what it reads lies in the calendar, leap years included.\<close>

theorem timestamp_order:
  assumes "parse_timestamp v code = Inr t" "parse_timestamp w code' = Inr u"
  shows "stamp_ok t \<and> stamp_ok u \<and>
    (compare_timestamp t u = Below \<longleftrightarrow> (components t, fraction_value (fraction t)) < (components u, fraction_value (fraction u))) \<and>
    (compare_timestamp t u = Same \<longleftrightarrow> (components t, fraction_value (fraction t)) = (components u, fraction_value (fraction u)))"
proof -
  have ok: "stamp_ok t" "stamp_ok u" using assms by (auto dest: parse_timestamp_ok)
  then have "list_all ascii_digit (fraction t)" "list_all ascii_digit (fraction u)" by (simp_all add: stamp_ok_def)
  from compare_timestamp_order [OF this] show ?thesis using ok by (auto simp: Let_def)
qed

text \<open>the counts of an inbox. An accepted observation has one decision per candidate, in order, for distinct pull requests; its
  four counts add up to the number of candidates, and the overall status is the one of the first that applies of
  partial, actionable, insufficient evidence, up to date and nothing eligible.\<close>

theorem inbox_counts_exact:
  assumes "evaluate sha256 obs require_base = Inr e"
  shows "list_all2 (\<lambda>cand d. decide_candidate sha256 cand (provider_host obs) (authenticated_actor (scope obs))
      (scope_reviewer (scope obs)) (requested_repository (scope obs)) require_base = Inr d) (candidates (search obs)) (evaluation_candidates e) \<and>
    distinct (map (pull_node_id \<circ> pull_request) (candidates (search obs))) \<and>
    total_count (counts (evaluation_decision e)) = length (candidates (search obs)) \<and>
    decision_status (evaluation_decision e) = Some (overall_status (has_next_page (search obs)) (counts (evaluation_decision e)))"
proof -
  obtain ds ids where ds: "dfold (scan_candidate sha256 obs require_base) ([], {}) (candidates (search obs)) = Inr (ds, ids)"
    "evaluation_candidates e = ds" "counts (evaluation_decision e) = foldl count_status no_counts ds"
    "decision_status (evaluation_decision e) = Some (overall_status (has_next_page (search obs)) (foldl count_status no_counts ds))"
    by (rule evaluate_Inr [OF assms])
  note results = scan_candidates_results [OF ds(1)]
  moreover have "total_count (counts (evaluation_decision e)) = length ds"
    unfolding ds(3) count_status_total by (simp add: total_count_def no_counts_def)
  moreover have "length ds = length (candidates (search obs))" using results by (auto dest: list_all2_lengthD)
  ultimately show ?thesis using ds by simp
qed

end
