(* ===== verification/Sample_Inbox.thy ===== *)
theory Sample_Inbox
  imports Inbox_Properties "HOL-Library.Code_Target_Nat"
begin

text \<open>
  One pull request with three reviews: two formal ones a hundredth of a second apart and a later comment. The head changed
  since the newest formal review, so the candidate is actionable. It instantiates the hypotheses of
  \<open>Inbox_Properties\<close>.
\<close>

section \<open>A sample inbox\<close>

definition sample_oid :: "char \<Rightarrow> string" where "sample_oid c = replicate 40 c"

definition sample_repository :: repository_observation where
  "sample_repository = \<lparr>name_with_owner = ''o/r'', repository_node_id = ''R1'', repository_url = ''https://h.io/o/r''\<rparr>"

definition sample_actor :: actor_observation where
  "sample_actor = \<lparr>actor_login = ''Ann'', actor_node_id = ''U1''\<rparr>"

definition sample_reviewer :: reviewer_observation where
  "sample_reviewer = \<lparr>reviewer_type = ''User'', reviewer_login = ''Ann'', reviewer_node_id = ''U1''\<rparr>"

definition sample_review :: "nat \<Rightarrow> string \<Rightarrow> string \<Rightarrow> review_observation" where
  "sample_review n state time =
     \<lparr>review_author = sample_reviewer, checkpoint_base_oid = Some (sample_oid CHR ''b''), commit_oid = Some (sample_oid CHR ''c''),
      database_id = Some n, review_node_id = ''V'' @ decimal n, review_state = state, submitted_at = Some time,
      review_url = ''https://h.io/o/r/pull/7#pullrequestreview-'' @ decimal n\<rparr>"

definition sample_reviews :: "review_observation list" where
  "sample_reviews = [sample_review 11 ''APPROVED'' ''2024-02-29T10:00:00.5Z'', sample_review 12 ''CHANGES_REQUESTED'' ''2024-02-29T10:00:00.49Z'',
     sample_review 13 ''COMMENTED'' ''2024-03-01T00:00:00Z'']"

definition sample_candidate :: candidate_observation where
  "sample_candidate =
     \<lparr>pull_request = \<lparr>current_base_oid = Some (sample_oid CHR ''b''), head_oid = Some (sample_oid CHR ''d''), pull_node_id = ''P1'',
        pull_number = 7, pull_state = ''OPEN'', total_review_count = 3, updated_at = ''2024-03-01T00:00:00Z'', pull_url = ''https://h.io/o/r/pull/7''\<rparr>,
      candidate_repository = sample_repository,
      revalidation = \<lparr>revalidation_outcome = ''matched'', revalidation_node_id = ''P1'', revalidation_repository = sample_repository,
        snapshot_matches = True, revalidation_viewer = sample_actor\<rparr>,
      review_history = \<lparr>cursor_advanced = False, history_nodes = sample_reviews, pages_observed = 1, reported_count = 3,
        terminal_page_observed = True\<rparr>,
      review_request_active = False\<rparr>"

definition sample_inbox :: inbox_observation where
  "sample_inbox =
     \<lparr>provider_host = ''h.io'',
      scope = \<lparr>authenticated_actor = sample_actor, requested_repository = None, scope_reviewer = sample_reviewer\<rparr>,
      search = \<lparr>candidates = [sample_candidate], has_next_page = False, issue_count = 1, search_limit = 10, search_outcome = ''ok'',
        search_viewer = sample_actor\<rparr>\<rparr>"

definition sample_decision :: candidate_decision where
  "sample_decision = \<lparr>candidate_status = Actionable, candidate_checkpoint = Some ''V11'', candidate_reason = None,
     candidate_transition = Some ''k'', candidate_trigger = Some ''head_changed''\<rparr>"

lemma sample_candidate_run:
  "decide_candidate (\<lambda>_. ''k'') sample_candidate ''h.io'' sample_actor sample_reviewer None True = Inr sample_decision"
  by code_simp

lemma sample_inbox_run:
  "dbind (evaluate (\<lambda>_. ''k'') sample_inbox True) (\<lambda>e. Inr (decision_status (evaluation_decision e))) = Inr (Some ''actionable'')"
  by code_simp

theorem candidate_status_exact_witness:
  "\<exists>c. latest sample_reviews c \<and> describes sample_candidate True (map_option (snd \<circ> snd) c) sample_decision"
  using candidate_status_exact [OF sample_candidate_run] by (simp add: sample_candidate_def)

theorem review_order_irrelevant_witness:
  "decide_candidate (\<lambda>_. ''k'') (with_reviews sample_candidate (rev sample_reviews)) ''h.io'' sample_actor sample_reviewer None True
     = Inr sample_decision"
  by (rule review_order_irrelevant [OF sample_candidate_run]) (simp add: sample_candidate_def)

definition half :: timestamp where "half = \<lparr>components = [2024, 2, 29, 10, 0, 0], fraction = ''5''\<rparr>"
definition half_again :: timestamp where "half_again = half\<lparr>fraction := ''50''\<rparr>"

lemma half_run: "parse_timestamp ''2024-02-29T10:00:00.5Z'' [] = Inr half" "parse_timestamp ''2024-02-29T10:00:00.50Z'' [] = Inr half_again"
  by code_simp+

theorem timestamp_order_witness: "half \<noteq> half_again \<and> compare_timestamp half half_again = Same"
  using timestamp_order [OF half_run] by (simp add: half_def half_again_def digit_value_def)

text \<open>The derived equality of time stamps is finer than their order: two different stamps compare as equal.\<close>

lemma timestamp_order_not_equality: "\<exists>t u. t \<noteq> u \<and> compare_timestamp t u = Same"
proof (intro exI conjI)
  show "half \<noteq> half_again" by (simp add: half_def half_again_def)
  show "compare_timestamp half half_again = Same" by code_simp
qed

theorem inbox_counts_exact_witness:
  "\<exists>e. evaluate (\<lambda>_. ''k'') sample_inbox True = Inr e \<and> total_count (counts (evaluation_decision e)) = 1 \<and>
     decision_status (evaluation_decision e) = Some ''actionable''"
proof -
  obtain e where e: "evaluate (\<lambda>_. ''k'') sample_inbox True = Inr e" "decision_status (evaluation_decision e) = Some ''actionable''"
    using sample_inbox_run by (auto simp: dbind_Inr_iff)
  then show ?thesis using inbox_counts_exact [OF e(1)] by (auto simp: sample_inbox_def)
qed

end
