(* ===== verification/Text_Points.thy ===== *)
theory Text_Points
  imports Inbox_Time
begin

text \<open>
  Text as the providers' snapshots are checked (\<open>src/ownership.rs\<close>, \<open>src/doctor_candidate.rs\<close>, \<open>src/readiness.rs\<close>): a string stands
  for its UTF-8 bytes, \<open>chars\<close> reads the code points, and the standard library's classes of characters are spelled out.
\<close>

section \<open>Code points\<close>

fun code_points :: "string \<Rightarrow> nat list" where
  "code_points [] = []"
| "code_points (a # r) =
     (let n = of_char a in
      if n < 128 then n # code_points r
      else (case r of
        [] \<Rightarrow> [n]
      | b # r \<Rightarrow> let m = (n mod 32) * 64 + of_char b mod 64 in
          if n < 224 then m # code_points r
          else (case r of
            [] \<Rightarrow> [m]
          | c # r \<Rightarrow> let m = ((n mod 16) * 64 + of_char b mod 64) * 64 + of_char c mod 64 in
              if n < 240 then m # code_points r
              else (case r of
                [] \<Rightarrow> [m]
              | d # r \<Rightarrow> ((((n mod 8) * 64 + of_char b mod 64) * 64 + of_char c mod 64) * 64 + of_char d mod 64) # code_points r))))"

text \<open>\<open>char::is_control\<close>, \<open>char::is_whitespace\<close> and the ASCII classes of bytes.\<close>

definition is_control :: "nat \<Rightarrow> bool" where
  "is_control p \<longleftrightarrow> p < 32 \<or> 127 \<le> p \<and> p < 160"

definition is_whitespace :: "nat \<Rightarrow> bool" where
  "is_whitespace p \<longleftrightarrow> 9 \<le> p \<and> p \<le> 13 \<or> p = 32 \<or> p = 133 \<or> p = 160 \<or> p = 0x1680 \<or> 0x2000 \<le> p \<and> p \<le> 0x200A \<or>
     p \<in> {0x2028, 0x2029, 0x202F, 0x205F, 0x3000}"

definition is_ascii :: "char \<Rightarrow> bool" where
  "is_ascii c \<longleftrightarrow> of_char c < (128 :: nat)"

definition is_ascii_control :: "char \<Rightarrow> bool" where
  "is_ascii_control c \<longleftrightarrow> of_char c < (32 :: nat) \<or> of_char c = (127 :: nat)"

definition is_ascii_whitespace :: "char \<Rightarrow> bool" where
  "is_ascii_whitespace c \<longleftrightarrow> of_char c \<in> {9, 10, 12, 13, 32 :: nat}"

definition is_ascii_uppercase :: "char \<Rightarrow> bool" where
  "is_ascii_uppercase c \<longleftrightarrow> CHR ''A'' \<le> c \<and> c \<le> CHR ''Z''"

text \<open>\<open>str::trim\<close>, on the code points.\<close>

definition trim_points :: "nat list \<Rightarrow> nat list" where
  "trim_points ps = rev (dropWhile is_whitespace (rev (dropWhile is_whitespace ps)))"

section \<open>Common checks\<close>

text \<open>A full lower-case Git object id.\<close>

definition full_object_id :: "string \<Rightarrow> bool" where
  "full_object_id value \<longleftrightarrow>
     length value \<in> {40, 64} \<and> list_all (\<lambda>b. ascii_digit b \<or> CHR ''a'' \<le> b \<and> b \<le> CHR ''f'') value"

text \<open>\<open>bounded_text\<close> and \<open>bounded_nonempty\<close>: a label, the byte length and no control character.\<close>

definition bounded_text :: "string \<Rightarrow> nat \<Rightarrow> string \<Rightarrow> unit decision_result" where
  "bounded_text value limit label =
     dbind (ensure (value \<noteq> [] \<and> length value \<le> limit) (label @ '' must contain between 1 and '' @ decimal limit @ '' bytes'')) (\<lambda>_.
       ensure (\<not> list_ex is_control (code_points value)) (label @ '' must not contain control characters''))"

definition clean_text :: "string \<Rightarrow> nat \<Rightarrow> bool" where
  "clean_text value limit \<longleftrightarrow> value \<noteq> [] \<and> length value \<le> limit \<and> (\<forall>p \<in> set (code_points value). \<not> is_control p)"

lemma bounded_text_iff [simp]: "bounded_text value limit label = Inr u \<longleftrightarrow> clean_text value limit"
  by (auto simp: bounded_text_def clean_text_def dbind_Inr_iff list_ex_iff)

lemma calm_bounded_text [calm_intros, simp]: "calm (bounded_text value limit label)"
  by (simp add: bounded_text_def calm_intros)

text \<open>\<open>iter().collect::<BTreeMap>()\<close>: a later entry replaces an earlier one with its key.\<close>

definition collect_map :: "('k \<times> 'v) list \<Rightarrow> 'k \<rightharpoonup> 'v" where
  "collect_map kvs = foldl (\<lambda>m (k, v). m(k \<mapsto> v)) Map.empty kvs"

lemma collect_map_rev: "collect_map kvs = map_of (rev kvs)"
  by (induction kvs rule: rev_induct) (auto simp: collect_map_def)

lemma collect_map_key:
  assumes "distinct (map f xs)"
  shows "collect_map (map (\<lambda>x. (f x, x)) xs) k = Some x \<longleftrightarrow> x \<in> set xs \<and> f x = k"
proof -
  have d: "distinct (map fst (rev (map (\<lambda>x. (f x, x)) xs)))" using assms by (simp add: comp_def flip: rev_map)
  show ?thesis
    unfolding collect_map_rev map_of_eq_Some_iff [OF d] by (auto simp: image_iff)
qed

end
