(* ===== verification/Ownership.thy ===== *)
theory Ownership
  imports Text_Points
begin

text \<open>
  Ownership snapshots (\<open>src/ownership.rs\<close>): the users and teams of a provider at one base commit. \<open>validate\<close> checks the snapshot as a
  whole, \<open>index\<close> builds the three look-up tables of a valid one, and \<open>resolve\<close> turns an owner of a CODEOWNERS rule into the
  sorted ids of the users whose review counts for it. Every refusal is an \<open>OwnershipBlocker\<close>.
\<close>

section \<open>Snapshots\<close>

datatype codeowner_identity = User string | Team string string | Email string

datatype repository_permission = Read | Triage | Write | Maintain | Admin

definition permission_rank :: "repository_permission \<Rightarrow> nat" where
  "permission_rank p = (case p of Read \<Rightarrow> 0 | Triage \<Rightarrow> 1 | Write \<Rightarrow> 2 | Maintain \<Rightarrow> 3 | Admin \<Rightarrow> 4)"

lemma permission_rank_inject [simp]: "permission_rank p = permission_rank q \<longleftrightarrow> p = q"
  by (cases p; cases q) (simp_all add: permission_rank_def)

text \<open>The derived order of the variants.\<close>

instantiation repository_permission :: linorder
begin

definition less_eq_repository_permission :: "repository_permission \<Rightarrow> repository_permission \<Rightarrow> bool" where
  "less_eq_repository_permission p q \<longleftrightarrow> permission_rank p \<le> permission_rank q"

definition less_repository_permission :: "repository_permission \<Rightarrow> repository_permission \<Rightarrow> bool" where
  "less_repository_permission p q \<longleftrightarrow> permission_rank p < permission_rank q"

instance
  by standard (auto simp: less_eq_repository_permission_def less_repository_permission_def)

end

definition permits_review :: "repository_permission \<Rightarrow> bool" where
  "permits_review p \<longleftrightarrow> p \<ge> Write"

datatype team_privacy = Closed | Secret

datatype membership_state = Active | Pending

record ownership_user =
  user_id :: nat
  user_login :: string
  user_permission :: repository_permission

record team_membership =
  member_user_id :: nat
  member_state :: membership_state
  member_inherited :: bool

record ownership_team =
  team_id :: nat
  organization_login :: string
  team_slug :: string
  team_privacy :: team_privacy
  team_permission :: repository_permission
  team_members :: "team_membership list"

record ownership_snapshot =
  snapshot_schema :: string
  provider_url :: string
  repository_id :: nat
  base_commit :: string
  api_version :: string
  observed_at :: string
  snapshot_users :: "ownership_user list"
  snapshot_teams :: "ownership_team list"

record ownership_index =
  users_by_id :: "nat \<rightharpoonup> ownership_user"
  users_by_login :: "string \<rightharpoonup> ownership_user"
  teams_by_name :: "string \<times> string \<rightharpoonup> ownership_team"

definition GITHUB_OWNERSHIP_SNAPSHOT_SCHEMA :: string where
  "GITHUB_OWNERSHIP_SNAPSHOT_SCHEMA = ''https://raw.githubusercontent.com/gcomfident-crypto/stratadiff/main/schema/github-ownership-snapshot-v1.schema.json''"

definition MAX_OWNERSHIP_USERS :: nat where "MAX_OWNERSHIP_USERS = 10000"
definition MAX_OWNERSHIP_TEAMS :: nat where "MAX_OWNERSHIP_TEAMS = 2000"
definition MAX_TEAM_MEMBERS :: nat where "MAX_TEAM_MEMBERS = 10000"
definition MAX_TOTAL_TEAM_MEMBERSHIPS :: nat where "MAX_TOTAL_TEAM_MEMBERSHIPS = 100000"
definition MAX_PROVIDER_URL_BYTES :: nat where "MAX_PROVIDER_URL_BYTES = 2048"
definition MAX_IDENTITY_BYTES :: nat where "MAX_IDENTITY_BYTES = 100"

section \<open>Blockers\<close>

datatype ownership_blocker =
    InvalidSnapshot string
  | EmailCodeownerUnsupported string
  | UserNotFound string
  | TeamNotFound string string
  | InsufficientRepositoryPermission codeowner_identity repository_permission
  | TeamNotVisible string string
  | NoEligibleTeamMembers string string

type_synonym 'a ownership_result = "ownership_blocker + 'a"

definition obind :: "'a ownership_result \<Rightarrow> ('a \<Rightarrow> 'b ownership_result) \<Rightarrow> 'b ownership_result" where
  "obind m f = (case m of Inl e \<Rightarrow> Inl e | Inr x \<Rightarrow> f x)"

primrec ofold :: "('s \<Rightarrow> 'a \<Rightarrow> 's ownership_result) \<Rightarrow> 's \<Rightarrow> 'a list \<Rightarrow> 's ownership_result" where
  "ofold f s [] = Inr s"
| "ofold f s (x # xs) = obind (f s x) (\<lambda>s'. ofold f s' xs)"

definition demand :: "bool \<Rightarrow> string \<Rightarrow> unit ownership_result" where
  "demand condition why = (if condition then Inr () else Inl (InvalidSnapshot why))"

lemma obind_simps [simp]: "obind (Inl e) f = Inl e" "obind (Inr x) f = f x"
  by (simp_all add: obind_def)

lemma obind_Inr_iff: "obind m f = Inr y \<longleftrightarrow> (\<exists>x. m = Inr x \<and> f x = Inr y)"
  by (cases m) auto

lemma demand_Inr [simp]: "demand b why = Inr u \<longleftrightarrow> b"
  by (simp add: demand_def)

text \<open>The messages (\<open>fmt::Display\<close>); a permission is shown by the name of its variant.\<close>

definition permission_text :: "repository_permission \<Rightarrow> string" where
  "permission_text p =
     (case p of Read \<Rightarrow> ''Read'' | Triage \<Rightarrow> ''Triage'' | Write \<Rightarrow> ''Write'' | Maintain \<Rightarrow> ''Maintain'' | Admin \<Rightarrow> ''Admin'')"

definition identity_text :: "codeowner_identity \<Rightarrow> string" where
  "identity_text i =
     (case i of User login \<Rightarrow> ''@'' @ login | Team organization slug \<Rightarrow> ''@'' @ organization @ ''/'' @ slug
      | Email address \<Rightarrow> address)"

definition blocker_text :: "ownership_blocker \<Rightarrow> string" where
  "blocker_text b =
     (case b of
        InvalidSnapshot why \<Rightarrow> ''invalid GitHub ownership snapshot: '' @ why
      | EmailCodeownerUnsupported address \<Rightarrow>
          ''email CODEOWNER '' @ address @ '' cannot be resolved to a stable GitHub reviewer identity''
      | UserNotFound login \<Rightarrow> ''GitHub CODEOWNER user @'' @ login @ '' is missing from the snapshot''
      | TeamNotFound organization slug \<Rightarrow>
          ''GitHub CODEOWNER team @'' @ organization @ ''/'' @ slug @ '' is missing from the snapshot''
      | InsufficientRepositoryPermission identity permission \<Rightarrow>
          ''GitHub CODEOWNER '' @ identity_text identity @ '' has '' @ permission_text permission @
          '' repository permission; write or greater is required''
      | TeamNotVisible organization slug \<Rightarrow>
          ''GitHub CODEOWNER team @'' @ organization @ ''/'' @ slug @
          '' is secret and cannot be resolved as a visible CODEOWNERS team''
      | NoEligibleTeamMembers organization slug \<Rightarrow>
          ''GitHub CODEOWNER team @'' @ organization @ ''/'' @ slug @
          '' has no active member with write or greater repository permission'')"

section \<open>Checks of text\<close>

definition github_provider_hostname :: "string \<Rightarrow> string ownership_result" where
  "github_provider_hostname value =
     obind (demand (value \<noteq> [] \<and> length value \<le> MAX_PROVIDER_URL_BYTES) ''provider_url is empty or exceeds its byte limit'') (\<lambda>_.
     obind (if take 8 value = ''https://'' then Inr (drop 8 value)
            else Inl (InvalidSnapshot ''provider_url must be a canonical HTTPS origin'')) (\<lambda>authority.
     obind (demand (authority \<noteq> [] \<and> last authority \<noteq> CHR ''/'' \<and>
              \<not> list_ex (\<lambda>b. is_ascii_whitespace b \<or> b \<in> set ''/?#@'') authority)
              ''provider_url must be a canonical HTTPS origin without credentials, path, query, or fragment'') (\<lambda>_.
     obind (demand (list_all (\<lambda>b. \<not> is_ascii_uppercase b) value)
              ''provider_url must be lowercase for deterministic provider binding'') (\<lambda>_.
       Inr authority))))"

definition validate_provider_url :: "string \<Rightarrow> unit ownership_result" where
  "validate_provider_url value = obind (github_provider_hostname value) (\<lambda>_. Inr ())"

definition validate_identity_component :: "string \<Rightarrow> string \<Rightarrow> unit ownership_result" where
  "validate_identity_component value label =
     demand (value \<noteq> [] \<and> length value \<le> MAX_IDENTITY_BYTES \<and> trim_points (code_points value) = code_points value \<and>
         list_all (\<lambda>b. is_ascii b \<and> \<not> is_ascii_control b \<and> \<not> is_ascii_whitespace b) value \<and>
         \<not> list_ex (\<lambda>c. c \<in> set ''@/'') value)
       (label @ '' is empty, malformed, or exceeds its byte limit'')"

text \<open>The date and the time stamp, with the indices of the code, each a panic out of range: \<open>bytes[i] == c\<close> from left to right, then the
  digits everywhere else. The length is tested first, so the checks return; \<open>valid_date\<close> and
  \<open>valid_github_timestamp\<close> are what they return.\<close>

definition byte_pattern :: "nat \<Rightarrow> (nat \<times> char) list \<Rightarrow> string \<Rightarrow> bool result" where
  "byte_pattern n marks value =
     (if length value \<noteq> n then Inr False
      else
        rbind (rall (\<lambda>(i, c). rbind (index_at value i) (\<lambda>b. Inr (b = c))) marks) (\<lambda>marked.
          Inr (marked \<and> list_all (\<lambda>(i, b). i \<in> fst ` set marks \<or> ascii_digit b) (enumerate 0 value))))"

definition date_check :: "string \<Rightarrow> bool result" where
  "date_check = byte_pattern 10 [(4, CHR ''-''), (7, CHR ''-'')]"

definition github_timestamp_check :: "string \<Rightarrow> bool result" where
  "github_timestamp_check =
     byte_pattern 20 [(4, CHR ''-''), (7, CHR ''-''), (10, CHR ''T''), (13, CHR '':''), (16, CHR '':''), (19, CHR ''Z'')]"

definition valid_date :: "string \<Rightarrow> bool" where
  "valid_date value \<longleftrightarrow> date_check value = Inr True"

definition valid_github_timestamp :: "string \<Rightarrow> bool" where
  "valid_github_timestamp value \<longleftrightarrow> github_timestamp_check value = Inr True"

lemma byte_pattern_returns:
  assumes "\<forall>(i, c) \<in> set marks. i < n"
  shows "\<exists>b. byte_pattern n marks value = Inr b"
proof (cases "length value = n")
  case True
  have "rall (\<lambda>(i, c). rbind (index_at value i) (\<lambda>b. Inr (b = c))) marks = Inr (\<forall>(i, c) \<in> set marks. value ! i = c)"
    by (rule rall_pure) (use assms True in auto)
  then show ?thesis by (simp add: byte_pattern_def True)
qed (simp add: byte_pattern_def, blast)

text \<open>The checks never panic: they return what the two predicates say.\<close>

lemma date_checks_return:
  "date_check value = Inr (valid_date value)" "github_timestamp_check value = Inr (valid_github_timestamp value)"
proof -
  obtain a b where "date_check value = Inr a" "github_timestamp_check value = Inr b"
    unfolding date_check_def github_timestamp_check_def
    using byte_pattern_returns [of "[(4, CHR ''-''), (7, CHR ''-'')]" 10 "value"]
      byte_pattern_returns [of "[(4, CHR ''-''), (7, CHR ''-''), (10, CHR ''T''), (13, CHR '':''), (16, CHR '':''), (19, CHR ''Z'')]" 20 "value"]
    by auto
  then show "date_check value = Inr (valid_date value)" "github_timestamp_check value = Inr (valid_github_timestamp value)"
    by (simp_all add: valid_date_def valid_github_timestamp_def)
qed

section \<open>Validation\<close>

text \<open>The loop over the users: the ids and the lower-case logins seen, and the previous id.\<close>

record user_scan =
  user_ids :: "nat set"
  user_logins :: "string set"
  previous_user_id :: "nat option"

definition validate_user :: "user_scan \<Rightarrow> ownership_user \<Rightarrow> user_scan ownership_result" where
  "validate_user s u =
     obind (demand (user_id u \<noteq> 0) ''user id must be nonzero'') (\<lambda>_.
     obind (validate_identity_component (user_login u) ''user login'') (\<lambda>_.
     obind (demand (user_id u \<notin> user_ids s) (''duplicate user id '' @ decimal (user_id u))) (\<lambda>_.
     obind (demand (to_ascii_lowercase (user_login u) \<notin> user_logins s) (''duplicate user login '' @ user_login u)) (\<lambda>_.
     obind (case previous_user_id s of
              Some previous \<Rightarrow> demand (previous < user_id u) ''users must be strictly sorted by stable id''
            | None \<Rightarrow> Inr ()) (\<lambda>_.
       Inr \<lparr>user_ids = insert (user_id u) (user_ids s),
            user_logins = insert (to_ascii_lowercase (user_login u)) (user_logins s),
            previous_user_id = Some (user_id u)\<rparr>)))))"

text \<open>The loop over the members of a team.\<close>

record member_scan =
  member_ids :: "nat set"
  previous_member_id :: "nat option"

definition team_text :: "ownership_team \<Rightarrow> string" where
  "team_text t = organization_login t @ ''/'' @ team_slug t"

definition validate_member ::
  "ownership_team \<Rightarrow> nat set \<Rightarrow> member_scan \<Rightarrow> team_membership \<Rightarrow> member_scan ownership_result" where
  "validate_member t known s m =
     obind (demand (member_user_id m \<noteq> 0) ''team member user_id must be nonzero'') (\<lambda>_.
     obind (demand (member_user_id m \<notin> member_ids s)
              (''duplicate member '' @ decimal (member_user_id m) @ '' in team '' @ team_text t)) (\<lambda>_.
     obind (case previous_member_id s of
              Some previous \<Rightarrow> demand (previous < member_user_id m)
                (''members of team '' @ team_text t @ '' must be strictly sorted by stable user id'')
            | None \<Rightarrow> Inr ()) (\<lambda>_.
     obind (demand (member_user_id m \<in> known)
              (''team '' @ team_text t @ '' references missing user id '' @ decimal (member_user_id m))) (\<lambda>_.
       Inr \<lparr>member_ids = insert (member_user_id m) (member_ids s), previous_member_id = Some (member_user_id m)\<rparr>))))"

text \<open>The loop over the teams.\<close>

record team_scan =
  team_ids :: "nat set"
  team_names :: "string set"
  previous_team_id :: "nat option"
  total_memberships :: nat

definition team_name :: "ownership_team \<Rightarrow> string" where
  "team_name t = to_ascii_lowercase (organization_login t) @ ''/'' @ to_ascii_lowercase (team_slug t)"

definition validate_team :: "nat set \<Rightarrow> team_scan \<Rightarrow> ownership_team \<Rightarrow> team_scan ownership_result" where
  "validate_team known s t =
     obind (demand (team_id t \<noteq> 0) ''team id must be nonzero'') (\<lambda>_.
     obind (validate_identity_component (organization_login t) ''team organization login'') (\<lambda>_.
     obind (validate_identity_component (team_slug t) ''team slug'') (\<lambda>_.
     obind (demand (team_id t \<notin> team_ids s) (''duplicate team id '' @ decimal (team_id t))) (\<lambda>_.
     obind (demand (team_name t \<notin> team_names s) (''duplicate team identity '' @ team_text t)) (\<lambda>_.
     obind (case previous_team_id s of
              Some previous \<Rightarrow> demand (previous < team_id t) ''teams must be strictly sorted by stable id''
            | None \<Rightarrow> Inr ()) (\<lambda>_.
     obind (demand (length (team_members t) \<le> MAX_TEAM_MEMBERS)
              (''team '' @ decimal (team_id t) @ '' member count limit exceeded: observed '' @ decimal (length (team_members t)) @
               '', limit '' @ decimal MAX_TEAM_MEMBERS)) (\<lambda>_.
     obind (case usize_checked_add (total_memberships s) (length (team_members t)) of
              Some n \<Rightarrow> Inr n
            | None \<Rightarrow> Inl (InvalidSnapshot ''total team membership count overflow'')) (\<lambda>n.
     obind (demand (n \<le> MAX_TOTAL_TEAM_MEMBERSHIPS)
              (''total team membership count limit exceeded: observed '' @ decimal n @ '', limit '' @
               decimal MAX_TOTAL_TEAM_MEMBERSHIPS)) (\<lambda>_.
     obind (ofold (validate_member t known) \<lparr>member_ids = {}, previous_member_id = None\<rparr> (team_members t)) (\<lambda>_.
       Inr \<lparr>team_ids = insert (team_id t) (team_ids s), team_names = insert (team_name t) (team_names s),
            previous_team_id = Some (team_id t), total_memberships = n\<rparr>))))))))))"

definition validate_snapshot :: "ownership_snapshot \<Rightarrow> unit ownership_result" where
  "validate_snapshot s =
     obind (demand (snapshot_schema s = GITHUB_OWNERSHIP_SNAPSHOT_SCHEMA) ''unsupported schema'') (\<lambda>_.
     obind (validate_provider_url (provider_url s)) (\<lambda>_.
     obind (demand (repository_id s \<noteq> 0) ''repository_id must be nonzero'') (\<lambda>_.
     obind (demand (full_object_id (base_commit s)) ''base_commit must be a full lowercase Git object ID'') (\<lambda>_.
     obind (demand (valid_date (api_version s)) ''api_version must use YYYY-MM-DD'') (\<lambda>_.
     obind (demand (valid_github_timestamp (observed_at s)) ''observed_at must use UTC YYYY-MM-DDTHH:MM:SSZ'') (\<lambda>_.
     obind (demand (length (snapshot_users s) \<le> MAX_OWNERSHIP_USERS)
              (''user count limit exceeded: observed '' @ decimal (length (snapshot_users s)) @ '', limit '' @
               decimal MAX_OWNERSHIP_USERS)) (\<lambda>_.
     obind (demand (length (snapshot_teams s) \<le> MAX_OWNERSHIP_TEAMS)
              (''team count limit exceeded: observed '' @ decimal (length (snapshot_teams s)) @ '', limit '' @
               decimal MAX_OWNERSHIP_TEAMS)) (\<lambda>_.
     obind (ofold validate_user \<lparr>user_ids = {}, user_logins = {}, previous_user_id = None\<rparr> (snapshot_users s)) (\<lambda>us.
     obind (ofold (validate_team (user_ids us))
              \<lparr>team_ids = {}, team_names = {}, previous_team_id = None, total_memberships = 0\<rparr> (snapshot_teams s)) (\<lambda>_.
       Inr ()))))))))))"

section \<open>Resolution\<close>

definition index_snapshot :: "ownership_snapshot \<Rightarrow> ownership_index ownership_result" where
  "index_snapshot s =
     obind (validate_snapshot s) (\<lambda>_.
       Inr \<lparr>users_by_id = collect_map (map (\<lambda>u. (user_id u, u)) (snapshot_users s)),
            users_by_login = collect_map (map (\<lambda>u. (to_ascii_lowercase (user_login u), u)) (snapshot_users s)),
            teams_by_name = collect_map (map (\<lambda>t.
              ((to_ascii_lowercase (organization_login t), to_ascii_lowercase (team_slug t)), t)) (snapshot_teams s))\<rparr>)"

definition index_user :: "ownership_index \<Rightarrow> nat \<Rightarrow> ownership_user option" where
  "index_user ix i = users_by_id ix i"

definition team_candidates :: "ownership_index \<Rightarrow> ownership_team \<Rightarrow> nat list" where
  "team_candidates ix t =
     map user_id
       (filter (\<lambda>u. permits_review (user_permission u))
         (List.map_filter (\<lambda>m. users_by_id ix (member_user_id m))
           (filter (\<lambda>m. member_state m = Active) (team_members t))))"

definition resolve_index :: "ownership_index \<Rightarrow> codeowner_identity \<Rightarrow> nat list ownership_result" where
  "resolve_index ix identity =
     (case identity of
        Email address \<Rightarrow> Inl (EmailCodeownerUnsupported address)
      | User login \<Rightarrow>
          (case users_by_login ix (to_ascii_lowercase login) of
             None \<Rightarrow> Inl (UserNotFound login)
           | Some u \<Rightarrow>
               if \<not> permits_review (user_permission u)
               then Inl (InsufficientRepositoryPermission identity (user_permission u))
               else Inr [user_id u])
      | Team organization slug \<Rightarrow>
          (case teams_by_name ix (to_ascii_lowercase organization, to_ascii_lowercase slug) of
             None \<Rightarrow> Inl (TeamNotFound organization slug)
           | Some t \<Rightarrow>
               if team_privacy t \<noteq> Closed then Inl (TeamNotVisible organization slug)
               else if \<not> permits_review (team_permission t)
               then Inl (InsufficientRepositoryPermission identity (team_permission t))
               else
                 (let found = team_candidates ix t in
                  if found = [] then Inl (NoEligibleTeamMembers organization slug) else Inr found)))"

definition resolve_snapshot :: "ownership_snapshot \<Rightarrow> codeowner_identity \<Rightarrow> nat list ownership_result" where
  "resolve_snapshot s identity = obind (index_snapshot s) (\<lambda>ix. resolve_index ix identity)"

end
