(* ===== verification/Ownership_Properties.thy ===== *)
theory Ownership_Properties
  imports Ownership
begin

text \<open>
  What an ownership snapshot promises: validation accepts exactly the well-formed snapshots, and resolution returns exactly the
  eligible reviewers, in increasing order of id, or the blocker that applies.
\<close>

section \<open>Text\<close>

text \<open>A login or slug: one to a hundred visible ASCII characters, without \<open>@\<close> and \<open>/\<close>.\<close>

definition plain_component :: "string \<Rightarrow> bool" where
  "plain_component v \<longleftrightarrow> v \<noteq> [] \<and> length v \<le> MAX_IDENTITY_BYTES \<and>
     (\<forall>c \<in> set v. 33 \<le> (of_char c :: nat) \<and> of_char c \<le> (126 :: nat) \<and> c \<noteq> CHR ''@'' \<and> c \<noteq> CHR ''/'')"

lemma code_points_ascii: "list_all is_ascii v \<Longrightarrow> code_points v = map of_char v"
  by (induction v) (auto simp: is_ascii_def)

lemma dropWhile_none: "list_all (\<lambda>x. \<not> P x) xs \<Longrightarrow> dropWhile P xs = xs"
  by (cases xs) simp_all

lemma trim_points_none: "list_all (\<lambda>p. \<not> is_whitespace p) ps \<Longrightarrow> trim_points ps = ps"
  by (simp add: trim_points_def dropWhile_none list_all_iff)

lemma visible_ascii:
  "is_ascii c \<and> \<not> is_ascii_control c \<and> \<not> is_ascii_whitespace c \<longleftrightarrow> 33 \<le> (of_char c :: nat) \<and> of_char c \<le> (126 :: nat)"
  by (auto simp: is_ascii_def is_ascii_control_def is_ascii_whitespace_def)

lemma validate_identity_component_iff [simp]:
  "validate_identity_component v label = Inr u \<longleftrightarrow> plain_component v"
proof -
  have "trim_points (code_points v) = code_points v"
    if "list_all (\<lambda>b. is_ascii b \<and> \<not> is_ascii_control b \<and> \<not> is_ascii_whitespace b) v"
  proof (rule trim_points_none)
    have "code_points v = map of_char v" using that by (intro code_points_ascii) (simp add: list_all_iff)
    then show "list_all (\<lambda>p. \<not> is_whitespace p) (code_points v)"
      using that by (auto simp: visible_ascii list_all_iff is_whitespace_def)
  qed
  then show ?thesis
    by (auto simp: validate_identity_component_def plain_component_def visible_ascii list_all_iff list_ex_iff)
qed

text \<open>A canonical HTTPS origin.\<close>

definition canonical_origin :: "string \<Rightarrow> bool" where
  "canonical_origin v \<longleftrightarrow> (\<exists>authority. v = ''https://'' @ authority \<and> authority \<noteq> [] \<and> length v \<le> MAX_PROVIDER_URL_BYTES \<and>
     (\<forall>b \<in> set authority. \<not> is_ascii_whitespace b \<and> b \<notin> set ''/?#@'' \<and> \<not> is_ascii_uppercase b))"

lemma scheme_lowercase: "\<forall>b \<in> set ''https://''. \<not> is_ascii_uppercase b"
  by (simp add: is_ascii_uppercase_def less_eq_char_def)

lemma take_prefix_iff: "length p = n \<Longrightarrow> take n v = p \<longleftrightarrow> (\<exists>a. v = p @ a)"
  by (metis append_eq_conv_conj append_take_drop_id)

lemma hostname_after_scheme:
  assumes "v = ''https://'' @ a"
  shows "github_provider_hostname v = Inr h \<longleftrightarrow>
    length v \<le> MAX_PROVIDER_URL_BYTES \<and> a \<noteq> [] \<and> last a \<noteq> CHR ''/'' \<and>
    \<not> list_ex (\<lambda>b. is_ascii_whitespace b \<or> b \<in> set ''/?#@'') a \<and> list_all (\<lambda>b. \<not> is_ascii_uppercase b) v \<and> a = h"
proof -
  have "v \<noteq> []" "take 8 v = ''https://''" "drop 8 v = a" using assms by simp_all
  then show ?thesis
    unfolding github_provider_hostname_def obind_Inr_iff demand_Inr by (simp only: if_True sum.inject simp_thms ex_simps) blast
qed

lemma github_provider_hostname_iff:
  "github_provider_hostname v = Inr h \<longleftrightarrow> canonical_origin v \<and> v = ''https://'' @ h"
proof (cases "\<exists>a. v = ''https://'' @ a")
  case True
  then obtain a where a: "v = ''https://'' @ a" by blast
  have up: "list_all (\<lambda>b. \<not> is_ascii_uppercase b) v \<longleftrightarrow> (\<forall>b \<in> set a. \<not> is_ascii_uppercase b)"
    using scheme_lowercase unfolding a list_all_iff set_append by blast
  have slash: "last a \<noteq> CHR ''/''" if "a \<noteq> []" "\<forall>b \<in> set a. b \<notin> set ''/?#@''"
    using that last_in_set [of a] by auto
  have origin: "canonical_origin v \<longleftrightarrow> a \<noteq> [] \<and> length v \<le> MAX_PROVIDER_URL_BYTES \<and>
      (\<forall>b \<in> set a. \<not> is_ascii_whitespace b \<and> b \<notin> set ''/?#@'' \<and> \<not> is_ascii_uppercase b)"
    unfolding canonical_origin_def a same_append_eq by blast
  have "v = ''https://'' @ h \<longleftrightarrow> a = h" unfolding a same_append_eq ..
  then show ?thesis
    unfolding hostname_after_scheme [OF a] up origin list_ex_iff using slash by blast
next
  case False
  then have "take 8 v \<noteq> ''https://''" using take_prefix_iff [of "''https://''" 8 v] by simp
  then have "github_provider_hostname v \<noteq> Inr h" by (simp add: github_provider_hostname_def obind_Inr_iff)
  then show ?thesis using False by blast
qed

lemma validate_provider_url_iff [simp]: "validate_provider_url v = Inr u \<longleftrightarrow> canonical_origin v"
  by (auto simp: validate_provider_url_def obind_Inr_iff github_provider_hostname_iff)
    (auto simp: canonical_origin_def)

section \<open>Validation\<close>

definition before :: "nat option \<Rightarrow> nat list" where
  "before p = (case p of None \<Rightarrow> [] | Some n \<Rightarrow> [n])"

lemma before_simps [simp]: "before None = []" "before (Some n) = [n]"
  by (simp_all add: before_def)

lemma previous_iff [simp]:
  "(case p of Some previous \<Rightarrow> demand (previous < n) why | None \<Rightarrow> Inr ()) = Inr u \<longleftrightarrow> (\<forall>q \<in> set (before p). q < n)"
  by (cases p) simp_all

lemma sorted_before_Cons:
  "sorted_wrt (<) (before p @ n # ns) \<longleftrightarrow> (\<forall>q \<in> set (before p). q < n) \<and> sorted_wrt (<) (n # ns)" for n :: nat
  by (cases p) auto

lemma sorted_before_new: "sorted_wrt (<) (before (Some n) @ ns) = sorted_wrt (<) (n # ns)" for n :: nat
  by simp

definition lower_login :: "ownership_user \<Rightarrow> string" where
  "lower_login u = to_ascii_lowercase (user_login u)"

definition lower_name :: "ownership_team \<Rightarrow> string \<times> string" where
  "lower_name t = (to_ascii_lowercase (organization_login t), to_ascii_lowercase (team_slug t))"

definition user_ok :: "ownership_user \<Rightarrow> bool" where
  "user_ok u \<longleftrightarrow> user_id u \<noteq> 0 \<and> plain_component (user_login u)"

lemma validate_user_iff:
  "validate_user s u = Inr s' \<longleftrightarrow>
    user_ok u \<and> user_id u \<notin> user_ids s \<and> lower_login u \<notin> user_logins s \<and> (\<forall>q \<in> set (before (previous_user_id s)). q < user_id u) \<and>
    s' = \<lparr>user_ids = insert (user_id u) (user_ids s), user_logins = insert (lower_login u) (user_logins s),
          previous_user_id = Some (user_id u)\<rparr>"
  by (auto simp: validate_user_def user_ok_def obind_Inr_iff lower_login_def)

lemma validate_users_iff:
  "(\<exists>t. ofold validate_user s us = Inr t \<and> user_ids t = X) \<longleftrightarrow>
    list_all user_ok us \<and> sorted_wrt (<) (before (previous_user_id s) @ map user_id us) \<and>
    user_ids s \<inter> set (map user_id us) = {} \<and> distinct (map lower_login us) \<and> user_logins s \<inter> set (map lower_login us) = {} \<and>
    X = user_ids s \<union> set (map user_id us)"
proof (induction us arbitrary: s)
  case Nil
  then show ?case by (auto simp: before_def split: option.splits)
next
  case (Cons u us)
  have "(\<exists>t. ofold validate_user s (u # us) = Inr t \<and> user_ids t = X) \<longleftrightarrow>
      (\<exists>s'. validate_user s u = Inr s' \<and> (\<exists>t. ofold validate_user s' us = Inr t \<and> user_ids t = X))"
    by (auto simp: obind_Inr_iff)
  also have "\<dots> \<longleftrightarrow> user_ok u \<and> user_id u \<notin> user_ids s \<and> lower_login u \<notin> user_logins s \<and>
      (\<forall>q \<in> set (before (previous_user_id s)). q < user_id u) \<and>
      list_all user_ok us \<and> sorted_wrt (<) (user_id u # map user_id us) \<and>
      insert (user_id u) (user_ids s) \<inter> set (map user_id us) = {} \<and> distinct (map lower_login us) \<and>
      insert (lower_login u) (user_logins s) \<inter> set (map lower_login us) = {} \<and>
      X = insert (user_id u) (user_ids s) \<union> set (map user_id us)"
    by (simp add: validate_user_iff Cons.IH sorted_before_new del: sorted_wrt.simps)
  also have "\<dots> \<longleftrightarrow> list_all user_ok (u # us) \<and> sorted_wrt (<) (before (previous_user_id s) @ map user_id (u # us)) \<and>
      user_ids s \<inter> set (map user_id (u # us)) = {} \<and> distinct (map lower_login (u # us)) \<and>
      user_logins s \<inter> set (map lower_login (u # us)) = {} \<and> X = user_ids s \<union> set (map user_id (u # us))"
    by (auto simp: sorted_before_Cons)
  finally show ?case .
qed

lemma validate_member_iff:
  "validate_member t known s m = Inr s' \<longleftrightarrow>
    member_user_id m \<noteq> 0 \<and> member_user_id m \<notin> member_ids s \<and> (\<forall>q \<in> set (before (previous_member_id s)). q < member_user_id m) \<and>
    member_user_id m \<in> known \<and>
    s' = \<lparr>member_ids = insert (member_user_id m) (member_ids s), previous_member_id = Some (member_user_id m)\<rparr>"
  by (auto simp: validate_member_def obind_Inr_iff)

lemma validate_members_iff:
  "(\<exists>s'. ofold (validate_member t known) s ms = Inr s') \<longleftrightarrow>
    (\<forall>m \<in> set ms. member_user_id m \<noteq> 0 \<and> member_user_id m \<in> known) \<and>
    sorted_wrt (<) (before (previous_member_id s) @ map member_user_id ms) \<and> member_ids s \<inter> set (map member_user_id ms) = {}"
proof (induction ms arbitrary: s)
  case Nil
  then show ?case by (auto simp: before_def split: option.splits)
next
  case (Cons m ms)
  have "(\<exists>s'. ofold (validate_member t known) s (m # ms) = Inr s') \<longleftrightarrow>
      (\<exists>s1. validate_member t known s m = Inr s1 \<and> (\<exists>s'. ofold (validate_member t known) s1 ms = Inr s'))"
    by (auto simp: obind_Inr_iff)
  also have "\<dots> \<longleftrightarrow> member_user_id m \<noteq> 0 \<and> member_user_id m \<notin> member_ids s \<and>
      (\<forall>q \<in> set (before (previous_member_id s)). q < member_user_id m) \<and> member_user_id m \<in> known \<and>
      (\<forall>m \<in> set ms. member_user_id m \<noteq> 0 \<and> member_user_id m \<in> known) \<and>
      sorted_wrt (<) (member_user_id m # map member_user_id ms) \<and>
      insert (member_user_id m) (member_ids s) \<inter> set (map member_user_id ms) = {}"
    by (simp add: validate_member_iff Cons.IH sorted_before_new del: sorted_wrt.simps)
  also have "\<dots> \<longleftrightarrow> (\<forall>m' \<in> set (m # ms). member_user_id m' \<noteq> 0 \<and> member_user_id m' \<in> known) \<and>
      sorted_wrt (<) (before (previous_member_id s) @ map member_user_id (m # ms)) \<and>
      member_ids s \<inter> set (map member_user_id (m # ms)) = {}"
    by (auto simp: sorted_before_Cons)
  finally show ?case .
qed

definition team_ok :: "nat set \<Rightarrow> ownership_team \<Rightarrow> bool" where
  "team_ok known t \<longleftrightarrow> team_id t \<noteq> 0 \<and> plain_component (organization_login t) \<and> plain_component (team_slug t) \<and>
     length (team_members t) \<le> MAX_TEAM_MEMBERS \<and> sorted_wrt (<) (map member_user_id (team_members t)) \<and>
     (\<forall>m \<in> set (team_members t). member_user_id m \<noteq> 0 \<and> member_user_id m \<in> known)"

lemma total_within: "usize_checked_add a b = Some n \<and> n \<le> MAX_TOTAL_TEAM_MEMBERSHIPS \<longleftrightarrow>
    n = a + b \<and> a + b \<le> MAX_TOTAL_TEAM_MEMBERSHIPS"
  by (auto simp: usize_checked_add_def MAX_TOTAL_TEAM_MEMBERSHIPS_def usize_max_def)

lemma or_invalid_Inr [simp]:
  "(case x of Some n \<Rightarrow> Inr n | None \<Rightarrow> Inl (InvalidSnapshot why)) = Inr m \<longleftrightarrow> x = Some m"
  by (cases x) simp_all

lemma validate_team_iff:
  "validate_team known s t = Inr s' \<longleftrightarrow>
    team_ok known t \<and> team_id t \<notin> team_ids s \<and> team_name t \<notin> team_names s \<and>
    (\<forall>q \<in> set (before (previous_team_id s)). q < team_id t) \<and>
    total_memberships s + length (team_members t) \<le> MAX_TOTAL_TEAM_MEMBERSHIPS \<and>
    s' = \<lparr>team_ids = insert (team_id t) (team_ids s), team_names = insert (team_name t) (team_names s),
          previous_team_id = Some (team_id t), total_memberships = total_memberships s + length (team_members t)\<rparr>"
proof -
  have members: "(\<exists>s'. ofold (validate_member t known) \<lparr>member_ids = {}, previous_member_id = None\<rparr> (team_members t) = Inr s') \<longleftrightarrow>
      (\<forall>m \<in> set (team_members t). member_user_id m \<noteq> 0 \<and> member_user_id m \<in> known) \<and>
      sorted_wrt (<) (map member_user_id (team_members t))"
    by (simp add: validate_members_iff)
  have "validate_team known s t = Inr s' \<longleftrightarrow>
      team_id t \<noteq> 0 \<and> plain_component (organization_login t) \<and> plain_component (team_slug t) \<and> team_id t \<notin> team_ids s \<and>
      team_name t \<notin> team_names s \<and> (\<forall>q \<in> set (before (previous_team_id s)). q < team_id t) \<and>
      length (team_members t) \<le> MAX_TEAM_MEMBERS \<and>
      (\<exists>n. (usize_checked_add (total_memberships s) (length (team_members t)) = Some n \<and> n \<le> MAX_TOTAL_TEAM_MEMBERSHIPS) \<and>
        (\<exists>x. ofold (validate_member t known) \<lparr>member_ids = {}, previous_member_id = None\<rparr> (team_members t) = Inr x) \<and>
        s' = \<lparr>team_ids = insert (team_id t) (team_ids s), team_names = insert (team_name t) (team_names s),
          previous_team_id = Some (team_id t), total_memberships = n\<rparr>)"
    by (auto simp: validate_team_def obind_Inr_iff)
  then show ?thesis unfolding members total_within team_ok_def by blast
qed

lemma validate_teams_iff:
  "(\<exists>s'. ofold (validate_team known) s ts = Inr s') \<longleftrightarrow>
    list_all (team_ok known) ts \<and> sorted_wrt (<) (before (previous_team_id s) @ map team_id ts) \<and>
    team_ids s \<inter> set (map team_id ts) = {} \<and> distinct (map team_name ts) \<and> team_names s \<inter> set (map team_name ts) = {} \<and>
    (ts \<noteq> [] \<longrightarrow> total_memberships s + sum_list (map (\<lambda>t. length (team_members t)) ts) \<le> MAX_TOTAL_TEAM_MEMBERSHIPS)"
proof (induction ts arbitrary: s)
  case Nil
  then show ?case by (auto simp: before_def split: option.splits)
next
  case (Cons t ts)
  have "(\<exists>s'. ofold (validate_team known) s (t # ts) = Inr s') \<longleftrightarrow>
      (\<exists>s1. validate_team known s t = Inr s1 \<and> (\<exists>s'. ofold (validate_team known) s1 ts = Inr s'))"
    by (auto simp: obind_Inr_iff)
  also have "\<dots> \<longleftrightarrow> team_ok known t \<and> team_id t \<notin> team_ids s \<and> team_name t \<notin> team_names s \<and>
      (\<forall>q \<in> set (before (previous_team_id s)). q < team_id t) \<and>
      total_memberships s + length (team_members t) \<le> MAX_TOTAL_TEAM_MEMBERSHIPS \<and>
      list_all (team_ok known) ts \<and> sorted_wrt (<) (team_id t # map team_id ts) \<and>
      insert (team_id t) (team_ids s) \<inter> set (map team_id ts) = {} \<and> distinct (map team_name ts) \<and>
      insert (team_name t) (team_names s) \<inter> set (map team_name ts) = {} \<and>
      (ts \<noteq> [] \<longrightarrow> total_memberships s + length (team_members t) + sum_list (map (\<lambda>t. length (team_members t)) ts)
        \<le> MAX_TOTAL_TEAM_MEMBERSHIPS)"
    by (simp add: validate_team_iff Cons.IH sorted_before_new del: sorted_wrt.simps)
  also have "\<dots> \<longleftrightarrow> list_all (team_ok known) (t # ts) \<and>
      sorted_wrt (<) (before (previous_team_id s) @ map team_id (t # ts)) \<and>
      team_ids s \<inter> set (map team_id (t # ts)) = {} \<and> distinct (map team_name (t # ts)) \<and>
      team_names s \<inter> set (map team_name (t # ts)) = {} \<and>
      total_memberships s + sum_list (map (\<lambda>t. length (team_members t)) (t # ts)) \<le> MAX_TOTAL_TEAM_MEMBERSHIPS"
    by (cases ts) (auto simp: sorted_before_Cons add.assoc)
  finally show ?case by simp
qed

section \<open>Well-formed snapshots\<close>

text \<open>What a snapshot has to be: users and teams strictly increasing by id and unique by lower-case name, members users of the snapshot.\<close>

definition well_formed_ownership :: "ownership_snapshot \<Rightarrow> bool" where
  "well_formed_ownership s \<longleftrightarrow>
     snapshot_schema s = GITHUB_OWNERSHIP_SNAPSHOT_SCHEMA \<and> canonical_origin (provider_url s) \<and> repository_id s \<noteq> 0 \<and>
     full_object_id (base_commit s) \<and> valid_date (api_version s) \<and> valid_github_timestamp (observed_at s) \<and>
     length (snapshot_users s) \<le> MAX_OWNERSHIP_USERS \<and> length (snapshot_teams s) \<le> MAX_OWNERSHIP_TEAMS \<and>
     sorted_wrt (<) (map user_id (snapshot_users s)) \<and> distinct (map lower_login (snapshot_users s)) \<and>
     (\<forall>u \<in> set (snapshot_users s). user_id u \<noteq> 0 \<and> plain_component (user_login u)) \<and>
     sorted_wrt (<) (map team_id (snapshot_teams s)) \<and> distinct (map lower_name (snapshot_teams s)) \<and>
     (\<forall>t \<in> set (snapshot_teams s). team_id t \<noteq> 0 \<and> plain_component (organization_login t) \<and> plain_component (team_slug t) \<and>
        length (team_members t) \<le> MAX_TEAM_MEMBERS \<and> sorted_wrt (<) (map member_user_id (team_members t)) \<and>
        member_user_id ` set (team_members t) \<subseteq> user_id ` set (snapshot_users s)) \<and>
     sum_list (map (\<lambda>t. length (team_members t)) (snapshot_teams s)) \<le> MAX_TOTAL_TEAM_MEMBERSHIPS"

lemma ascii_lower_slash: "ascii_lower c = CHR ''/'' \<longleftrightarrow> c = CHR ''/''"
proof (cases "CHR ''A'' \<le> c \<and> c \<le> CHR ''Z''")
  case True
  then have big: "(of_char c :: nat) \<ge> 65" "of_char c \<le> (90 :: nat)" by (simp_all add: less_eq_char_def)
  then have "(of_char (ascii_lower c) :: nat) \<ge> 97" using True by (simp add: ascii_lower_def)
  then show ?thesis using big by auto
next
  case False
  then have "ascii_lower c = c" by (auto simp: ascii_lower_def)
  then show ?thesis by simp
qed

lemma separated_inject:
  "c \<notin> set a \<Longrightarrow> c \<notin> set a' \<Longrightarrow> a @ c # b = a' @ c # b' \<longleftrightarrow> a = a' \<and> b = b'"
proof (induction a arbitrary: a')
  case Nil
  then show ?case by (cases a') auto
next
  case (Cons x a)
  then show ?case by (cases a') auto
qed

lemma plain_lower_slash: "plain_component v \<Longrightarrow> CHR ''/'' \<notin> set (to_ascii_lowercase v)"
  unfolding to_ascii_lowercase_def plain_component_def using ascii_lower_slash by (metis imageE set_map)

lemma team_name_separated:
  "team_name t = to_ascii_lowercase (organization_login t) @ CHR ''/'' # to_ascii_lowercase (team_slug t)"
  by (simp add: team_name_def)

lemma team_name_inject:
  assumes "plain_component (organization_login t)" "plain_component (organization_login t')"
  shows "team_name t = team_name t' \<longleftrightarrow> lower_name t = lower_name t'"
  unfolding team_name_separated lower_name_def prod.inject
  by (rule separated_inject) (use assms plain_lower_slash in blast)+

lemma distinct_team_name:
  assumes "\<forall>t \<in> set ts. plain_component (organization_login t)"
  shows "distinct (map team_name ts) \<longleftrightarrow> distinct (map lower_name ts)"
proof -
  have "inj_on team_name (set ts) \<longleftrightarrow> inj_on lower_name (set ts)"
    using assms team_name_inject unfolding inj_on_def by metis
  then show ?thesis by (simp add: distinct_map)
qed

lemma members_known:
  assumes "\<forall>u \<in> set us. user_id u \<noteq> 0"
  shows "team_ok (user_id ` set us) t \<longleftrightarrow>
    team_id t \<noteq> 0 \<and> plain_component (organization_login t) \<and> plain_component (team_slug t) \<and>
    length (team_members t) \<le> MAX_TEAM_MEMBERS \<and> sorted_wrt (<) (map member_user_id (team_members t)) \<and>
    member_user_id ` set (team_members t) \<subseteq> user_id ` set us"
  using assms by (fastforce simp: team_ok_def image_subset_iff)

lemma validate_snapshot_loops:
  "(\<exists>us. ofold validate_user \<lparr>user_ids = {}, user_logins = {}, previous_user_id = None\<rparr> (snapshot_users s) = Inr us \<and>
      (\<exists>ts. ofold (validate_team (user_ids us))
         \<lparr>team_ids = {}, team_names = {}, previous_team_id = None, total_memberships = 0\<rparr> (snapshot_teams s) = Inr ts)) \<longleftrightarrow>
    list_all user_ok (snapshot_users s) \<and> sorted_wrt (<) (map user_id (snapshot_users s)) \<and>
    distinct (map lower_login (snapshot_users s)) \<and>
    list_all (team_ok (user_id ` set (snapshot_users s))) (snapshot_teams s) \<and>
    sorted_wrt (<) (map team_id (snapshot_teams s)) \<and> distinct (map team_name (snapshot_teams s)) \<and>
    sum_list (map (\<lambda>t. length (team_members t)) (snapshot_teams s)) \<le> MAX_TOTAL_TEAM_MEMBERSHIPS"
  (is "?l \<longleftrightarrow> ?r")
proof -
  let ?u = "ofold validate_user \<lparr>user_ids = {}, user_logins = {}, previous_user_id = None\<rparr> (snapshot_users s)"
  let ?t = "\<lambda>known. \<exists>ts. ofold (validate_team known)
         \<lparr>team_ids = {}, team_names = {}, previous_team_id = None, total_memberships = 0\<rparr> (snapshot_teams s) = Inr ts"
  have "?l \<longleftrightarrow> (\<exists>X. (\<exists>us. ?u = Inr us \<and> user_ids us = X) \<and> ?t X)" by blast
  also have "\<dots> \<longleftrightarrow> ?r"
    by (cases "snapshot_teams s = []") (auto simp: validate_users_iff validate_teams_iff)
  finally show ?thesis .
qed

lemma validate_snapshot_iff: "validate_snapshot s = Inr u \<longleftrightarrow> well_formed_ownership s"
proof -
  have "validate_snapshot s = Inr u \<longleftrightarrow>
    snapshot_schema s = GITHUB_OWNERSHIP_SNAPSHOT_SCHEMA \<and> canonical_origin (provider_url s) \<and> repository_id s \<noteq> 0 \<and>
    full_object_id (base_commit s) \<and> valid_date (api_version s) \<and> valid_github_timestamp (observed_at s) \<and>
    length (snapshot_users s) \<le> MAX_OWNERSHIP_USERS \<and> length (snapshot_teams s) \<le> MAX_OWNERSHIP_TEAMS \<and>
    (\<exists>us. ofold validate_user \<lparr>user_ids = {}, user_logins = {}, previous_user_id = None\<rparr> (snapshot_users s) = Inr us \<and>
      (\<exists>ts. ofold (validate_team (user_ids us))
         \<lparr>team_ids = {}, team_names = {}, previous_team_id = None, total_memberships = 0\<rparr> (snapshot_teams s) = Inr ts))"
    by (auto simp: validate_snapshot_def obind_Inr_iff)
  also have "\<dots> \<longleftrightarrow> well_formed_ownership s"
  proof (cases "list_all user_ok (snapshot_users s) \<and> list_all (team_ok (user_id ` set (snapshot_users s))) (snapshot_teams s)")
    case True
    then have ok: "\<forall>u \<in> set (snapshot_users s). user_id u \<noteq> 0 \<and> plain_component (user_login u)"
      "\<forall>t \<in> set (snapshot_teams s). team_ok (user_id ` set (snapshot_users s)) t"
      by (auto simp: list_all_iff user_ok_def)
    then have org: "\<forall>t \<in> set (snapshot_teams s). plain_component (organization_login t)" by (simp add: team_ok_def)
    have "\<forall>u \<in> set (snapshot_users s). user_id u \<noteq> 0" using ok by simp
    from members_known [OF this] show ?thesis
      using True ok unfolding validate_snapshot_loops well_formed_ownership_def distinct_team_name [OF org] by simp
  next
    case False
    have "\<not> well_formed_ownership s"
    proof
      assume w: "well_formed_ownership s"
      then have "\<forall>u \<in> set (snapshot_users s). user_id u \<noteq> 0" by (simp add: well_formed_ownership_def)
      from members_known [OF this] have "list_all (team_ok (user_id ` set (snapshot_users s))) (snapshot_teams s)"
        using w by (simp add: well_formed_ownership_def list_all_iff)
      moreover have "list_all user_ok (snapshot_users s)" using w by (simp add: well_formed_ownership_def user_ok_def list_all_iff)
      ultimately show False using False by blast
    qed
    then show ?thesis using False unfolding validate_snapshot_loops by blast
  qed
  finally show ?thesis .
qed

section \<open>Resolution\<close>

text \<open>The users whose review counts for an owner.\<close>

definition eligible_reviewers :: "ownership_snapshot \<Rightarrow> codeowner_identity \<Rightarrow> nat set" where
  "eligible_reviewers s i =
     (case i of
        Email address \<Rightarrow> {}
      | User login \<Rightarrow>
          {user_id u | u. u \<in> set (snapshot_users s) \<and> eq_ignore_ascii_case (user_login u) login \<and> user_permission u \<ge> Write}
      | Team organization slug \<Rightarrow>
          {user_id u | u t m. u \<in> set (snapshot_users s) \<and> t \<in> set (snapshot_teams s) \<and> m \<in> set (team_members t) \<and>
             eq_ignore_ascii_case (organization_login t) organization \<and> eq_ignore_ascii_case (team_slug t) slug \<and>
             team_privacy t = Closed \<and> team_permission t \<ge> Write \<and>
             member_state m = Active \<and> member_user_id m = user_id u \<and> user_permission u \<ge> Write})"

definition index_of :: "ownership_snapshot \<Rightarrow> ownership_index" where
  "index_of s = \<lparr>users_by_id = collect_map (map (\<lambda>u. (user_id u, u)) (snapshot_users s)),
     users_by_login = collect_map (map (\<lambda>u. (lower_login u, u)) (snapshot_users s)),
     teams_by_name = collect_map (map (\<lambda>t. (lower_name t, t)) (snapshot_teams s))\<rparr>"

lemma index_snapshot_iff: "index_snapshot s = Inr ix \<longleftrightarrow> well_formed_ownership s \<and> ix = index_of s"
  by (auto simp: index_snapshot_def obind_Inr_iff validate_snapshot_iff index_of_def lower_login_def lower_name_def)

lemma resolve_snapshot_Inr:
  "resolve_snapshot s i = Inr ids \<longleftrightarrow> well_formed_ownership s \<and> resolve_index (index_of s) i = Inr ids"
  by (auto simp: resolve_snapshot_def obind_Inr_iff index_snapshot_iff)

lemma index_lookups:
  assumes "well_formed_ownership s"
  shows "users_by_id (index_of s) i = Some u \<longleftrightarrow> u \<in> set (snapshot_users s) \<and> user_id u = i"
    and "users_by_login (index_of s) l = Some u \<longleftrightarrow> u \<in> set (snapshot_users s) \<and> lower_login u = l"
    and "teams_by_name (index_of s) n = Some t \<longleftrightarrow> t \<in> set (snapshot_teams s) \<and> lower_name t = n"
proof -
  have "distinct (map user_id (snapshot_users s))" "distinct (map lower_login (snapshot_users s))"
    "distinct (map lower_name (snapshot_teams s))"
    using assms strict_sorted_iff by (auto simp: well_formed_ownership_def)
  then show "users_by_id (index_of s) i = Some u \<longleftrightarrow> u \<in> set (snapshot_users s) \<and> user_id u = i"
    "users_by_login (index_of s) l = Some u \<longleftrightarrow> u \<in> set (snapshot_users s) \<and> lower_login u = l"
    "teams_by_name (index_of s) n = Some t \<longleftrightarrow> t \<in> set (snapshot_teams s) \<and> lower_name t = n"
    by (simp_all add: index_of_def collect_map_key)
qed

lemma index_misses:
  assumes "well_formed_ownership s"
  shows "users_by_login (index_of s) l = None \<longleftrightarrow> (\<forall>u \<in> set (snapshot_users s). lower_login u \<noteq> l)"
    and "teams_by_name (index_of s) n = None \<longleftrightarrow> (\<forall>t \<in> set (snapshot_teams s). lower_name t \<noteq> n)"
  using index_lookups [OF assms] by (metis not_None_eq option.distinct(1))+

text \<open>The candidates of a team are its member ids, filtered.\<close>

definition counts_for :: "ownership_snapshot \<Rightarrow> nat \<Rightarrow> bool" where
  "counts_for s i \<longleftrightarrow> (\<exists>u \<in> set (snapshot_users s). user_id u = i \<and> permits_review (user_permission u))"

lemma team_candidates_filter:
  assumes "well_formed_ownership s"
  shows "team_candidates (index_of s) t =
    filter (counts_for s) (map member_user_id (filter (\<lambda>m. member_state m = Active) (team_members t)))"
proof -
  have unique: "u = v" if "users_by_id (index_of s) i = Some u" "v \<in> set (snapshot_users s)" "user_id v = i" for i u v
    using index_lookups(1) [OF assms, of i v] that by simp
  have "map user_id (filter (\<lambda>u. permits_review (user_permission u)) (List.map_filter (\<lambda>m. users_by_id (index_of s) (member_user_id m)) ms)) =
    filter (counts_for s) (map member_user_id ms)" for ms
  proof (induction ms)
    case (Cons m ms)
    show ?case
    proof (cases "users_by_id (index_of s) (member_user_id m)")
      case None
      then have "\<not> counts_for s (member_user_id m)"
        using index_lookups(1) [OF assms, of "member_user_id m"] by (auto simp: counts_for_def)
      then show ?thesis using Cons.IH None by (simp add: List.map_filter_simps)
    next
      case (Some u)
      then have "u \<in> set (snapshot_users s)" "user_id u = member_user_id m" using index_lookups(1) [OF assms] by auto
      then have "counts_for s (member_user_id m) \<longleftrightarrow> permits_review (user_permission u)"
        using unique [OF Some] unfolding counts_for_def by metis
      then show ?thesis using Cons.IH Some \<open>user_id u = member_user_id m\<close> by (simp add: List.map_filter_simps)
    qed
  qed (simp add: List.map_filter_def)
  then show ?thesis by (simp add: team_candidates_def)
qed

lemma team_candidates_sorted:
  assumes "well_formed_ownership s" "t \<in> set (snapshot_teams s)"
  shows "sorted_wrt (<) (team_candidates (index_of s) t)"
proof -
  have "sorted_wrt (<) (map member_user_id (team_members t))" using assms by (simp add: well_formed_ownership_def)
  then have "sorted_wrt (\<lambda>a b. member_user_id a < member_user_id b) (team_members t)" by (simp add: sorted_wrt_map)
  then show ?thesis
    unfolding team_candidates_filter [OF assms(1)] filter_map sorted_wrt_map by (intro sorted_wrt_filter)
qed

lemma team_candidates_set:
  assumes "well_formed_ownership s"
  shows "set (team_candidates (index_of s) t) =
    {user_id u | u m. u \<in> set (snapshot_users s) \<and> m \<in> set (team_members t) \<and> member_state m = Active \<and>
       member_user_id m = user_id u \<and> permits_review (user_permission u)}"
  unfolding team_candidates_filter [OF assms] by (simp add: counts_for_def set_eq_iff image_iff) metis

definition names_team :: "codeowner_identity \<Rightarrow> ownership_team \<Rightarrow> bool" where
  "names_team i t \<longleftrightarrow> (case i of
     Team organization slug \<Rightarrow> eq_ignore_ascii_case (organization_login t) organization \<and> eq_ignore_ascii_case (team_slug t) slug
   | _ \<Rightarrow> False)"

definition names_user :: "codeowner_identity \<Rightarrow> ownership_user \<Rightarrow> bool" where
  "names_user i u \<longleftrightarrow> (case i of User login \<Rightarrow> eq_ignore_ascii_case (user_login u) login | _ \<Rightarrow> False)"

text \<open>When a blocker is the answer for an owner.\<close>

definition refusal :: "ownership_snapshot \<Rightarrow> codeowner_identity \<Rightarrow> ownership_blocker \<Rightarrow> bool" where
  "refusal s i b \<longleftrightarrow>
     (case b of
        InvalidSnapshot why \<Rightarrow> \<not> well_formed_ownership s \<and> validate_snapshot s = Inl (InvalidSnapshot why)
      | EmailCodeownerUnsupported address \<Rightarrow> well_formed_ownership s \<and> i = Email address
      | UserNotFound login \<Rightarrow>
          well_formed_ownership s \<and> i = User login \<and> (\<nexists>u. u \<in> set (snapshot_users s) \<and> names_user i u)
      | TeamNotFound organization slug \<Rightarrow>
          well_formed_ownership s \<and> i = Team organization slug \<and> (\<nexists>t. t \<in> set (snapshot_teams s) \<and> names_team i t)
      | InsufficientRepositoryPermission j p \<Rightarrow>
          well_formed_ownership s \<and> j = i \<and> p < Write \<and>
          ((\<exists>u \<in> set (snapshot_users s). names_user i u \<and> user_permission u = p) \<or>
           (\<exists>t \<in> set (snapshot_teams s). names_team i t \<and> team_privacy t = Closed \<and> team_permission t = p))
      | TeamNotVisible organization slug \<Rightarrow>
          well_formed_ownership s \<and> i = Team organization slug \<and>
          (\<exists>t \<in> set (snapshot_teams s). names_team i t \<and> team_privacy t = Secret)
      | NoEligibleTeamMembers organization slug \<Rightarrow>
          well_formed_ownership s \<and> i = Team organization slug \<and> eligible_reviewers s i = {} \<and>
          (\<exists>t \<in> set (snapshot_teams s). names_team i t \<and> team_privacy t = Closed \<and> team_permission t \<ge> Write))"

lemma names_user_iff [simp]:
  "names_user (User login) u \<longleftrightarrow> lower_login u = to_ascii_lowercase login" "\<not> names_user (Team organization slug) u"
  "\<not> names_user (Email address) u"
  by (simp_all add: names_user_def eq_ignore_ascii_case_def lower_login_def)

lemma names_team_iff [simp]:
  "names_team (Team organization slug) t \<longleftrightarrow> lower_name t = (to_ascii_lowercase organization, to_ascii_lowercase slug)"
  "\<not> names_team (User login) t" "\<not> names_team (Email address) t"
  by (simp_all add: names_team_def eq_ignore_ascii_case_def lower_name_def)

lemma eligible_user: "eligible_reviewers s (User login) =
    {user_id u | u. u \<in> set (snapshot_users s) \<and> names_user (User login) u \<and> permits_review (user_permission u)}"
  by (simp add: eligible_reviewers_def names_user_def permits_review_def)

lemma eligible_team: "eligible_reviewers s (Team organization slug) =
    \<Union> {{user_id u | u m. u \<in> set (snapshot_users s) \<and> m \<in> set (team_members t) \<and> member_state m = Active \<and>
         member_user_id m = user_id u \<and> permits_review (user_permission u)} | t.
       t \<in> set (snapshot_teams s) \<and> names_team (Team organization slug) t \<and> team_privacy t = Closed \<and>
       permits_review (team_permission t)}"
  by (auto simp: eligible_reviewers_def names_team_def permits_review_def)

text \<open>One case per kind of owner; \<open>described\<close> is what both claims say of an answer.\<close>

definition described :: "ownership_snapshot \<Rightarrow> codeowner_identity \<Rightarrow> nat list ownership_result \<Rightarrow> bool" where
  "described s i r \<longleftrightarrow>
     (case r of
        Inr ids \<Rightarrow> ids \<noteq> [] \<and> sorted_wrt (<) ids \<and> set ids = eligible_reviewers s i
      | Inl b \<Rightarrow> eligible_reviewers s i = {} \<and> refusal s i b)"

lemma user_described:
  assumes wf: "well_formed_ownership s"
  shows "described s (User login) (resolve_index (index_of s) (User login))"
proof (cases "users_by_login (index_of s) (to_ascii_lowercase login)")
  case None
  then have "\<forall>u \<in> set (snapshot_users s). lower_login u \<noteq> to_ascii_lowercase login" using index_misses(1) [OF wf] by simp
  then show ?thesis
    using wf None by (auto simp: described_def resolve_index_def refusal_def eligible_user)
next
  case (Some u)
  note found = index_lookups(2) [OF wf, of "to_ascii_lowercase login"]
  have u: "u \<in> set (snapshot_users s)" "lower_login u = to_ascii_lowercase login" using found [of u] Some by simp_all
  have same: "v \<in> set (snapshot_users s) \<and> lower_login v = to_ascii_lowercase login \<longleftrightarrow> v = u" for v
    using found [of v] Some by auto
  have "eligible_reviewers s (User login) = (if permits_review (user_permission u) then {user_id u} else {})"
    unfolding eligible_user names_user_iff conj_assoc [symmetric] same by simp
  then show ?thesis
    using wf Some u by (auto simp: described_def resolve_index_def refusal_def permits_review_def split: if_splits)
qed

lemma team_described:
  assumes wf: "well_formed_ownership s"
  shows "described s (Team organization slug) (resolve_index (index_of s) (Team organization slug))"
proof (cases "teams_by_name (index_of s) (to_ascii_lowercase organization, to_ascii_lowercase slug)")
  case None
  then have "\<forall>t \<in> set (snapshot_teams s). \<not> names_team (Team organization slug) t"
    using index_misses(2) [OF wf] by simp
  then show ?thesis
    using wf None by (auto simp: described_def resolve_index_def refusal_def eligible_team)
next
  case (Some t)
  note found = index_lookups(3) [OF wf, of "(to_ascii_lowercase organization, to_ascii_lowercase slug)"]
  have t: "t \<in> set (snapshot_teams s)" "names_team (Team organization slug) t" using found [of t] Some by simp_all
  have same: "v \<in> set (snapshot_teams s) \<and> names_team (Team organization slug) v \<longleftrightarrow> v = t" for v
    using found [of v] Some by auto
  have only: "{X t |t. t \<in> set (snapshot_teams s) \<and> names_team (Team organization slug) t \<and> P t} = (if P t then {X t} else {})"
    for X :: "ownership_team \<Rightarrow> nat set" and P
    unfolding conj_assoc [symmetric] same by simp
  have eligible: "eligible_reviewers s (Team organization slug) =
      (if team_privacy t = Closed \<and> permits_review (team_permission t) then set (team_candidates (index_of s) t) else {})"
    unfolding eligible_team only team_candidates_set [OF wf] by simp
  consider "team_privacy t = Secret" | "team_privacy t = Closed" "\<not> permits_review (team_permission t)"
    | "team_privacy t = Closed" "permits_review (team_permission t)" by (cases "team_privacy t") auto
  then show ?thesis
  proof cases
    case 3
    then show ?thesis
      using wf Some t eligible team_candidates_sorted [OF wf t(1)]
      by (cases "team_candidates (index_of s) t = []") (auto simp: described_def resolve_index_def refusal_def permits_review_def Let_def)
  qed (use wf Some t eligible in \<open>auto simp: described_def resolve_index_def refusal_def permits_review_def not_le\<close>)
qed

lemma resolve_described:
  assumes "well_formed_ownership s"
  shows "described s i (resolve_index (index_of s) i)"
proof (cases i)
  case (Email address)
  then show ?thesis using assms by (simp add: described_def resolve_index_def refusal_def eligible_reviewers_def)
qed (use assms user_described team_described in auto)

text \<open>Every blocker of the validation is \<open>InvalidSnapshot\<close>.\<close>

named_theorems only_invalid_intros \<open>introduction rules for validation blockers\<close>

definition only_invalid :: "'a ownership_result \<Rightarrow> bool" where
  "only_invalid m \<longleftrightarrow> (\<forall>b. m = Inl b \<longrightarrow> (\<exists>why. b = InvalidSnapshot why))"

lemma only_invalid_simps [only_invalid_intros]: "only_invalid (Inr x)" "only_invalid (Inl (InvalidSnapshot why))" "only_invalid (demand c why)"
  by (auto simp: only_invalid_def demand_def)

lemma only_invalid_bind [only_invalid_intros]: "only_invalid m \<Longrightarrow> (\<And>x. only_invalid (f x)) \<Longrightarrow> only_invalid (obind m f)"
  by (cases m) (auto simp: only_invalid_def)

lemma only_invalid_fold [only_invalid_intros]: "(\<And>s x. only_invalid (f s x)) \<Longrightarrow> only_invalid (ofold f s xs)"
  by (induction xs arbitrary: s) (auto intro: only_invalid_intros)

lemma only_invalid_if [only_invalid_intros]: "only_invalid m \<Longrightarrow> only_invalid m' \<Longrightarrow> only_invalid (if c then m else m')"
  by simp

lemma only_invalid_option [only_invalid_intros]:
  "only_invalid m \<Longrightarrow> (\<And>y. only_invalid (f y)) \<Longrightarrow> only_invalid (case x of None \<Rightarrow> m | Some y \<Rightarrow> f y)"
  by (cases x) simp_all

lemma only_invalid_validate: "only_invalid (validate_snapshot s)"
  unfolding validate_snapshot_def validate_user_def validate_team_def validate_member_def validate_provider_url_def
    github_provider_hostname_def validate_identity_component_def
  by (intro only_invalid_intros)

lemma ill_formed_blocked:
  assumes "\<not> well_formed_ownership s"
  obtains why where "validate_snapshot s = Inl (InvalidSnapshot why)" "resolve_snapshot s i = Inl (InvalidSnapshot why)"
proof -
  obtain b where b: "validate_snapshot s = Inl b"
    using assms validate_snapshot_iff by (cases "validate_snapshot s") auto
  moreover obtain why where "b = InvalidSnapshot why" using only_invalid_validate b by (auto simp: only_invalid_def)
  ultimately show ?thesis using that by (simp add: resolve_snapshot_def index_snapshot_def)
qed

lemma resolve_snapshot_valid: "well_formed_ownership s \<Longrightarrow> resolve_snapshot s i = resolve_index (index_of s) i"
  using index_snapshot_iff [of s "index_of s"] by (simp add: resolve_snapshot_def)

text \<open>A blocker that applies is the answer.\<close>

lemma refusal_answers:
  assumes wf: "well_formed_ownership s" and r: "refusal s i b"
  shows "resolve_index (index_of s) i = Inl b"
proof -
  have user: "users_by_login (index_of s) (to_ascii_lowercase login) = Some u"
    if "u \<in> set (snapshot_users s)" "names_user (User login) u" for u login
    using that index_lookups(2) [OF wf] by simp
  have team: "teams_by_name (index_of s) (to_ascii_lowercase organization, to_ascii_lowercase slug) = Some t"
    if "t \<in> set (snapshot_teams s)" "names_team (Team organization slug) t" for t organization slug
    using that index_lookups(3) [OF wf] by simp
  show ?thesis
  proof (cases b)
    case (InsufficientRepositoryPermission j p)
    then show ?thesis using r user team by (cases i) (auto simp: refusal_def resolve_index_def permits_review_def simp del: names_user_iff(1) names_team_iff(1))
  next
    case (NoEligibleTeamMembers organization slug)
    then obtain t where t: "t \<in> set (snapshot_teams s)" "names_team (Team organization slug) t" "i = Team organization slug"
      "team_privacy t = Closed" "team_permission t \<ge> Write" and none: "eligible_reviewers s i = {}"
      using r by (auto simp: refusal_def)
    have "set (team_candidates (index_of s) t) \<subseteq> eligible_reviewers s i"
      using t unfolding t(3) eligible_team team_candidates_set [OF wf] permits_review_def by blast
    then show ?thesis
      using NoEligibleTeamMembers none t team [OF t(1,2)] by (simp add: resolve_index_def permits_review_def)
  next
    case (TeamNotVisible organization slug)
    then obtain t where t: "t \<in> set (snapshot_teams s)" "names_team (Team organization slug) t" "i = Team organization slug"
      "team_privacy t = Secret"
      using r by (auto simp: refusal_def)
    then show ?thesis using TeamNotVisible team [OF t(1,2)] by (simp add: resolve_index_def)
  qed (use wf r in \<open>auto simp: refusal_def resolve_index_def index_misses [OF wf, THEN iffD2]\<close>)
qed

section \<open>Claims\<close>

text \<open>C34: Validation of an ownership snapshot accepts exactly the well-formed ones: the schema, a canonical HTTPS origin, a full object
  id, a date and a time stamp of the right shape, at most 10,000 users and 2,000 teams, both strictly increasing by id, with nonzero
  ids and plain names that are unique up to ASCII case; at most 10,000 members per team and 100,000 in all, strictly increasing by id
  and users of the snapshot. The loops that check this with sets, previous ids and a checked sum lose nothing, and the name
  \<open>organization/slug\<close> under which a team is checked for duplicates identifies the pair.\<close>

theorem ownership_validate_exact: "validate_snapshot s = Inr () \<longleftrightarrow> well_formed_ownership s"
  by (rule validate_snapshot_iff)

text \<open>C9: Resolution is exact: an owner resolves to a list of ids if and only if the snapshot is well formed and the list is the
  nonempty, strictly increasing list of exactly the eligible reviewers: the user of that login with write permission or more, or the
  active members with write permission or more of the visible team of that name, itself with write permission or more.\<close>

theorem resolve_exact:
  "resolve_snapshot s i = Inr ids \<longleftrightarrow>
    well_formed_ownership s \<and> ids \<noteq> [] \<and> sorted_wrt (<) ids \<and> set ids = eligible_reviewers s i"
proof (cases "well_formed_ownership s")
  case True
  then have d: "described s i (resolve_snapshot s i)" using resolve_described resolve_snapshot_valid by simp
  show ?thesis
  proof (cases "resolve_snapshot s i")
    case (Inl b)
    then have "eligible_reviewers s i = {}" using d by (simp add: described_def)
    then show ?thesis using Inl by auto
  next
    case (Inr found)
    then have "sorted_wrt (<) found" "set found = eligible_reviewers s i" "found \<noteq> []" using d by (simp_all add: described_def)
    then show ?thesis using Inr True strict_sorted_equal [of found ids] by auto
  qed
qed (auto simp: resolve_snapshot_Inr)

text \<open>C35: An owner that does not resolve gets the blocker that applies, and only that one: an ill-formed snapshot the first failed
  check of the validation, an email address that it is unsupported, an unknown user or team that it is missing, a known one its
  insufficient permission or its secrecy, and a visible team without any eligible reviewer that it has none.\<close>

theorem resolve_refusal_exact: "resolve_snapshot s i = Inl b \<longleftrightarrow> refusal s i b"
proof (cases "well_formed_ownership s")
  case True
  have "described s i (resolve_snapshot s i)" using True resolve_described resolve_snapshot_valid by simp
  then show ?thesis
    using refusal_answers [OF True] unfolding resolve_snapshot_valid [OF True] by (auto simp: described_def)
next
  case False
  obtain why where "validate_snapshot s = Inl (InvalidSnapshot why)" "resolve_snapshot s i = Inl (InvalidSnapshot why)"
    using ill_formed_blocked [OF False] .
  then show ?thesis using False by (auto simp: refusal_def split: ownership_blocker.splits)
qed

end
