(* ===== verification/Candidate.thy ===== *)
theory Candidate
  imports Text_Points
begin

text \<open>
  The candidate of a pull request (\<open>src/doctor_candidate.rs\<close>): which commit carries the evidence a merge would be decided on. Two
  observations of the pull request bracket the signals collected for its commits; \<open>select_candidate\<close> names the merge-queue candidate, the
  test merge or the head, or says why it cannot.
\<close>

section \<open>Observations and selections\<close>

datatype signal_collection = Complete | Gap

record signal_surface =
  surface_collection :: signal_collection
  success :: nat
  other :: nat

record candidate_signals =
  signal_sha :: string
  check_runs :: signal_surface
  commit_statuses :: signal_surface

record queue_entry =
  entry_id :: string
  entry_state :: string
  entry_position :: nat
  entry_base_sha :: string
  entry_head_sha :: string

record candidate_target =
  target_state :: string
  target_base_sha :: string
  target_head_sha :: string
  is_merge_queue_enabled :: bool
  is_in_merge_queue :: bool
  potential_merge_sha :: "string option"
  target_queue_entry :: "queue_entry option"

record selection_input =
  target_before :: candidate_target
  target_after :: candidate_target
  signals :: "candidate_signals list"

datatype selection_status = Selected | Inconclusive | Retry

datatype candidate_kind = PrHead | TestMerge | MergeGroup

datatype selection_reason =
    TestMergeSignal | TestMergeEmpty | PotentialMergeUnavailable | QueueEntryCandidate | QueueEntryUnavailable
  | SignalSurfaceGap | TargetDrift

record candidate_selection =
  selection_status :: selection_status
  selection_kind :: "candidate_kind option"
  selection_sha :: "string option"
  selection_base_sha :: "string option"
  selection_queue_entry :: "string option"
  reason_code :: selection_reason
  ignored_shas :: "string list"

definition MAX_SIGNALS :: nat where "MAX_SIGNALS = 10000"

section \<open>Validation\<close>

definition validate_surface :: "signal_surface \<Rightarrow> string \<Rightarrow> unit decision_result" where
  "validate_surface surface label =
     ensure (usize_checked_add (success surface) (other surface) \<noteq> None) (label @ '' signal count overflow'')"

definition validate_queue_entry :: "queue_entry \<Rightarrow> candidate_target \<Rightarrow> unit decision_result" where
  "validate_queue_entry entry target =
     dbind (bounded_text (entry_id entry) 255 ''merge-queue entry ID'') (\<lambda>_.
     dbind (ensure (entry_state entry \<in> {''QUEUED'', ''AWAITING_CHECKS'', ''MERGEABLE'', ''UNMERGEABLE'', ''LOCKED''})
              ''merge-queue entry state is unsupported'') (\<lambda>_.
     dbind (ensure (entry_position entry > 0) ''merge-queue entry position must be positive'') (\<lambda>_.
     dbind (ensure (full_object_id (entry_base_sha entry) \<and> full_object_id (entry_head_sha entry))
              ''merge-queue entry commits must be lowercase full Git object IDs'') (\<lambda>_.
     dbind (ensure (entry_base_sha entry \<noteq> entry_head_sha entry) ''merge-queue entry base and head must differ'') (\<lambda>_.
       ensure (entry_head_sha entry \<noteq> target_head_sha target) ''merge-queue candidate must differ from the PR head'')))))"

definition validate_target :: "candidate_target \<Rightarrow> string \<Rightarrow> unit decision_result" where
  "validate_target target label =
     dbind (ensure (target_state target = ''open'') (label @ '' pull request must be open'')) (\<lambda>_.
     dbind (ensure (full_object_id (target_base_sha target) \<and> full_object_id (target_head_sha target))
              (label @ '' PR commits must be lowercase full Git object IDs'')) (\<lambda>_.
     dbind (ensure (target_base_sha target \<noteq> target_head_sha target) (label @ '' PR base and head must differ'')) (\<lambda>_.
     dbind (case potential_merge_sha target of
              Some merge \<Rightarrow>
                dbind (ensure (full_object_id merge) (label @ '' test-merge commit must be a lowercase full Git object ID'')) (\<lambda>_.
                  ensure (merge \<noteq> target_head_sha target) (label @ '' test-merge commit must differ from the PR head''))
            | None \<Rightarrow> Inr ()) (\<lambda>_.
     dbind (ensure (\<not> is_in_merge_queue target \<or> is_merge_queue_enabled target)
              (label @ '' cannot be queued when its merge queue is disabled'')) (\<lambda>_.
     dbind (ensure (is_in_merge_queue target \<or> target_queue_entry target = None)
              (label @ '' has a queue entry without active queue membership'')) (\<lambda>_.
       (case target_queue_entry target of Some entry \<Rightarrow> validate_queue_entry entry target | None \<Rightarrow> Inr ())))))))"

definition validate_signal :: "string set \<Rightarrow> candidate_signals \<Rightarrow> string set decision_result" where
  "validate_signal seen signal =
     dbind (ensure (full_object_id (signal_sha signal)) ''signal SHA must be a lowercase full Git object ID'') (\<lambda>_.
     dbind (ensure (signal_sha signal \<notin> seen) ''candidate signals contain a duplicate SHA'') (\<lambda>_.
     dbind (validate_surface (check_runs signal) ''Check Run surface'') (\<lambda>_.
     dbind (validate_surface (commit_statuses signal) ''commit-status surface'') (\<lambda>_.
       Inr (insert (signal_sha signal) seen)))))"

section \<open>Selection\<close>

definition has_signal :: "signal_surface \<Rightarrow> bool" where
  "has_signal surface \<longleftrightarrow> success surface > 0 \<or> other surface > 0"

definition observed_signal :: "candidate_signals \<Rightarrow> bool" where
  "observed_signal signal \<longleftrightarrow> has_signal (check_runs signal) \<or> has_signal (commit_statuses signal)"

definition ignored_signal_shas :: "candidate_signals list \<Rightarrow> string option \<Rightarrow> string list" where
  "ignored_signal_shas sigs chosen =
     sort (map signal_sha
       (filter (\<lambda>signal. observed_signal signal \<and> (case chosen of None \<Rightarrow> True | Some sha \<Rightarrow> signal_sha signal \<noteq> sha)) sigs))"

definition unresolved :: "selection_status \<Rightarrow> selection_reason \<Rightarrow> candidate_signals list \<Rightarrow> candidate_selection" where
  "unresolved status why sigs =
     \<lparr>selection_status = status, selection_kind = None, selection_sha = None, selection_base_sha = None,
      selection_queue_entry = None, reason_code = why, ignored_shas = ignored_signal_shas sigs None\<rparr>"

definition selected ::
  "candidate_kind \<Rightarrow> string \<Rightarrow> string option \<Rightarrow> string option \<Rightarrow> selection_reason \<Rightarrow> candidate_signals list \<Rightarrow> candidate_selection" where
  "selected kind sha base entry why sigs =
     \<lparr>selection_status = Selected, selection_kind = Some kind, selection_sha = Some sha, selection_base_sha = base,
      selection_queue_entry = entry, reason_code = why, ignored_shas = ignored_signal_shas sigs (Some sha)\<rparr>"

definition select_candidate :: "selection_input \<Rightarrow> candidate_selection decision_result" where
  "select_candidate input =
     dbind (validate_target (target_before input) ''initial'') (\<lambda>_.
     dbind (validate_target (target_after input) ''final'') (\<lambda>_.
     dbind (ensure (length (signals input) \<le> MAX_SIGNALS) ''candidate signal limit exceeded'') (\<lambda>_.
     dbind (dfold validate_signal {} (signals input)) (\<lambda>_.
       if target_before input \<noteq> target_after input then Inr (unresolved Retry TargetDrift (signals input))
       else
         (let target = target_after input in
          if is_in_merge_queue target then
            (case target_queue_entry target of
               None \<Rightarrow> Inr (unresolved Inconclusive QueueEntryUnavailable (signals input))
             | Some entry \<Rightarrow>
                 Inr (selected MergeGroup (entry_head_sha entry) (Some (entry_base_sha entry)) (Some (entry_id entry))
                   QueueEntryCandidate (signals input)))
          else
            (case potential_merge_sha target of
               None \<Rightarrow> Inr (unresolved Inconclusive PotentialMergeUnavailable (signals input))
             | Some merge \<Rightarrow>
                 (case find (\<lambda>signal. signal_sha signal = merge) (signals input) of
                    None \<Rightarrow> Inr (unresolved Inconclusive SignalSurfaceGap (signals input))
                  | Some signal \<Rightarrow>
                      if observed_signal signal then
                        Inr (selected TestMerge merge (Some (target_base_sha target)) None TestMergeSignal (signals input))
                      else if surface_collection (check_runs signal) \<noteq> Complete \<or>
                        surface_collection (commit_statuses signal) \<noteq> Complete
                      then Inr (unresolved Inconclusive SignalSurfaceGap (signals input))
                      else Inr (selected PrHead (target_head_sha target) None None TestMergeEmpty (signals input)))))))))"

end
