(* ===== verification/Candidate_Properties.thy ===== *)
theory Candidate_Properties
  imports Candidate "HOL-Library.Multiset"
begin

text \<open>
  What the selection of a candidate promises: it accepts exactly the consistent observations, names a commit exactly when one candidate
  carries the evidence, and depends on the signals only as a set.
\<close>

section \<open>Consistent observations\<close>

definition entry_ok :: "queue_entry \<Rightarrow> candidate_target \<Rightarrow> bool" where
  "entry_ok entry target \<longleftrightarrow> clean_text (entry_id entry) 255 \<and>
     entry_state entry \<in> {''QUEUED'', ''AWAITING_CHECKS'', ''MERGEABLE'', ''UNMERGEABLE'', ''LOCKED''} \<and> entry_position entry > 0 \<and>
     full_object_id (entry_base_sha entry) \<and> full_object_id (entry_head_sha entry) \<and>
     entry_base_sha entry \<noteq> entry_head_sha entry \<and> entry_head_sha entry \<noteq> target_head_sha target"

definition target_ok :: "candidate_target \<Rightarrow> bool" where
  "target_ok target \<longleftrightarrow> target_state target = ''open'' \<and> full_object_id (target_base_sha target) \<and>
     full_object_id (target_head_sha target) \<and> target_base_sha target \<noteq> target_head_sha target \<and>
     (\<forall>merge \<in> set_option (potential_merge_sha target). full_object_id merge \<and> merge \<noteq> target_head_sha target) \<and>
     (is_in_merge_queue target \<longrightarrow> is_merge_queue_enabled target) \<and>
     (target_queue_entry target \<noteq> None \<longrightarrow> is_in_merge_queue target) \<and>
     (\<forall>entry \<in> set_option (target_queue_entry target). entry_ok entry target)"

definition signal_ok :: "candidate_signals \<Rightarrow> bool" where
  "signal_ok signal \<longleftrightarrow> full_object_id (signal_sha signal) \<and>
     success (check_runs signal) + other (check_runs signal) \<le> usize_max \<and>
     success (commit_statuses signal) + other (commit_statuses signal) \<le> usize_max"

definition input_ok :: "selection_input \<Rightarrow> bool" where
  "input_ok input \<longleftrightarrow> target_ok (target_before input) \<and> target_ok (target_after input) \<and> length (signals input) \<le> MAX_SIGNALS \<and>
     (\<forall>signal \<in> set (signals input). signal_ok signal) \<and> distinct (map signal_sha (signals input))"

lemma validate_queue_entry_iff: "validate_queue_entry entry target = Inr u \<longleftrightarrow> entry_ok entry target"
  by (simp add: validate_queue_entry_def entry_ok_def dbind_Inr_iff conj_assoc)

lemma validate_target_iff: "validate_target target label = Inr u \<longleftrightarrow> target_ok target"
  unfolding validate_target_def target_ok_def dbind_Inr_iff ensure_Inr
  by (cases "potential_merge_sha target"; cases "target_queue_entry target") (auto simp: validate_queue_entry_iff dbind_Inr_iff)

lemma validate_surface_iff: "validate_surface surface label = Inr u \<longleftrightarrow> success surface + other surface \<le> usize_max"
  by (simp add: validate_surface_def usize_checked_add_def)

lemma validate_signal_iff:
  "validate_signal seen signal = Inr seen' \<longleftrightarrow>
    signal_ok signal \<and> signal_sha signal \<notin> seen \<and> seen' = insert (signal_sha signal) seen"
  by (auto simp: validate_signal_def signal_ok_def dbind_Inr_iff validate_surface_iff)

lemma validate_signals_iff:
  "(\<exists>seen'. dfold validate_signal seen sigs = Inr seen') \<longleftrightarrow>
    (\<forall>signal \<in> set sigs. signal_ok signal) \<and> distinct (map signal_sha sigs) \<and> seen \<inter> set (map signal_sha sigs) = {}"
proof (induction sigs arbitrary: seen)
  case (Cons signal sigs)
  have "(\<exists>seen'. dfold validate_signal seen (signal # sigs) = Inr seen') \<longleftrightarrow>
      signal_ok signal \<and> signal_sha signal \<notin> seen \<and> (\<exists>seen'. dfold validate_signal (insert (signal_sha signal) seen) sigs = Inr seen')"
    by (auto simp: dbind_Inr_iff validate_signal_iff)
  then show ?case unfolding Cons.IH by auto
qed simp

text \<open>The part of the selection behind the checks.\<close>

definition selection_of :: "selection_input \<Rightarrow> candidate_selection" where
  "selection_of input =
     (if target_before input \<noteq> target_after input then unresolved Retry TargetDrift (signals input)
      else
        (let target = target_after input in
         if is_in_merge_queue target then
           (case target_queue_entry target of
              None \<Rightarrow> unresolved Inconclusive QueueEntryUnavailable (signals input)
            | Some entry \<Rightarrow> selected MergeGroup (entry_head_sha entry) (Some (entry_base_sha entry)) (Some (entry_id entry))
                  QueueEntryCandidate (signals input))
         else
           (case potential_merge_sha target of
              None \<Rightarrow> unresolved Inconclusive PotentialMergeUnavailable (signals input)
            | Some merge \<Rightarrow>
                (case find (\<lambda>signal. signal_sha signal = merge) (signals input) of
                   None \<Rightarrow> unresolved Inconclusive SignalSurfaceGap (signals input)
                 | Some signal \<Rightarrow>
                     if observed_signal signal
                     then selected TestMerge merge (Some (target_base_sha target)) None TestMergeSignal (signals input)
                     else if surface_collection (check_runs signal) \<noteq> Complete \<or>
                       surface_collection (commit_statuses signal) \<noteq> Complete
                     then unresolved Inconclusive SignalSurfaceGap (signals input)
                     else selected PrHead (target_head_sha target) None None TestMergeEmpty (signals input)))))"

lemma select_candidate_behind:
  "select_candidate input =
    dbind (validate_target (target_before input) ''initial'') (\<lambda>_.
    dbind (validate_target (target_after input) ''final'') (\<lambda>_.
    dbind (ensure (length (signals input) \<le> MAX_SIGNALS) ''candidate signal limit exceeded'') (\<lambda>_.
    dbind (dfold validate_signal {} (signals input)) (\<lambda>_. Inr (selection_of input)))))"
  unfolding select_candidate_def selection_of_def
  by (simp add: Let_def if_distrib [of Inr] option.case_distrib [of Inr] cong: if_cong option.case_cong)

lemma select_candidate_iff: "select_candidate input = Inr sel \<longleftrightarrow> input_ok input \<and> sel = selection_of input"
proof -
  have "select_candidate input = Inr sel \<longleftrightarrow> target_ok (target_before input) \<and> target_ok (target_after input) \<and>
      length (signals input) \<le> MAX_SIGNALS \<and> (\<exists>seen. dfold validate_signal {} (signals input) = Inr seen) \<and> selection_of input = sel"
    unfolding select_candidate_behind by (auto simp: dbind_Inr_iff validate_target_iff)
  then show ?thesis unfolding validate_signals_iff input_ok_def by auto
qed

lemma calm_select_candidate: "calm (select_candidate input)"
  unfolding select_candidate_behind validate_target_def validate_queue_entry_def
  by (intro calm_intros calm_fold [where I = "\<lambda>_. True"] TrueI) (auto simp: validate_signal_def validate_surface_def intro!: calm_intros)

section \<open>The candidate\<close>

text \<open>The commit a merge would be decided on: the queue's candidate for a queued pull request; otherwise the test merge when a signal
  was observed for it, and the head when the signals of the test merge were collected completely and are none.\<close>

definition candidate_of :: "selection_input \<Rightarrow> candidate_kind \<Rightarrow> string \<Rightarrow> bool" where
  "candidate_of input kind sha \<longleftrightarrow> target_before input = target_after input \<and>
     (case kind of
        MergeGroup \<Rightarrow> is_in_merge_queue (target_after input) \<and>
          (\<exists>entry. target_queue_entry (target_after input) = Some entry \<and> entry_head_sha entry = sha)
      | TestMerge \<Rightarrow> \<not> is_in_merge_queue (target_after input) \<and> potential_merge_sha (target_after input) = Some sha \<and>
          (\<exists>signal \<in> set (signals input). signal_sha signal = sha \<and> observed_signal signal)
      | PrHead \<Rightarrow> \<not> is_in_merge_queue (target_after input) \<and> sha = target_head_sha (target_after input) \<and>
          (\<exists>signal \<in> set (signals input). potential_merge_sha (target_after input) = Some (signal_sha signal) \<and>
             \<not> observed_signal signal \<and> surface_collection (check_runs signal) = Complete \<and>
             surface_collection (commit_statuses signal) = Complete))"

lemma find_key:
  assumes "distinct (map f xs)"
  shows "find (\<lambda>x. f x = k) xs = Some x \<longleftrightarrow> x \<in> set xs \<and> f x = k"
  using assms by (induction xs) (auto simp: image_iff)

lemma find_key_None: "find (\<lambda>x. f x = k) xs = None \<longleftrightarrow> (\<forall>x \<in> set xs. f x \<noteq> k)"
  by (auto simp: find_None_iff)

lemma chosen_simps [simp]:
  "selection_status (selected k s b e r sigs) = Selected" "selection_kind (selected k s b e r sigs) = Some k"
  "selection_sha (selected k s b e r sigs) = Some s" "ignored_shas (selected k s b e r sigs) = ignored_signal_shas sigs (Some s)"
  "selection_status (unresolved st r sigs) = st" "selection_kind (unresolved st r sigs) = None"
  "selection_sha (unresolved st r sigs) = None" "ignored_shas (unresolved st r sigs) = ignored_signal_shas sigs None"
  by (simp_all add: selected_def unresolved_def)

lemma ignored_sorted: "distinct (map signal_sha sigs) \<Longrightarrow> sorted_wrt (<) (ignored_signal_shas sigs chosen)"
  unfolding ignored_signal_shas_def strict_sorted_iff by (simp add: distinct_map_filter)

lemma ignored_set: "set (ignored_signal_shas sigs chosen) =
    {signal_sha signal | signal. signal \<in> set sigs \<and> observed_signal signal \<and> chosen \<noteq> Some (signal_sha signal)}"
  by (cases chosen) (auto simp: ignored_signal_shas_def)

lemma selection_ignored: "ignored_shas (selection_of input) = ignored_signal_shas (signals input) (selection_sha (selection_of input))"
  unfolding selection_of_def Let_def by (auto split: option.splits)

lemma selection_candidate:
  assumes "distinct (map signal_sha (signals input))"
  shows "selection_kind (selection_of input) = Some kind \<and> selection_sha (selection_of input) = Some sha \<longleftrightarrow> candidate_of input kind sha"
proof (cases "target_before input = target_after input \<and> \<not> is_in_merge_queue (target_after input)")
  case True
  note key = find_key [OF assms]
  show ?thesis
  proof (cases "potential_merge_sha (target_after input)")
    case None
    then show ?thesis using True by (cases kind) (auto simp: selection_of_def candidate_of_def)
  next
    case (Some merge)
    note merge = Some
    show ?thesis
    proof (cases "find (\<lambda>signal. signal_sha signal = merge) (signals input)")
      case None
      then have "\<forall>x \<in> set (signals input). signal_sha x \<noteq> merge" by (simp add: find_key_None)
      then show ?thesis using True merge None by (cases kind) (auto simp: selection_of_def candidate_of_def)
    next
      case (Some signal)
      then have only: "x \<in> set (signals input) \<and> signal_sha x = merge \<longleftrightarrow> x = signal" for x using key [of merge x] by auto
      have same: "target_before input = target_after input" "\<not> is_in_merge_queue (target_after input)" using True by simp_all
      have "candidate_of input TestMerge sha \<longleftrightarrow> sha = merge \<and> observed_signal signal"
        using same merge only unfolding candidate_of_def candidate_kind.case by (metis option.inject)
      moreover have "candidate_of input PrHead sha \<longleftrightarrow> sha = target_head_sha (target_after input) \<and> \<not> observed_signal signal \<and>
          surface_collection (check_runs signal) = Complete \<and> surface_collection (commit_statuses signal) = Complete"
        using same merge only unfolding candidate_of_def candidate_kind.case by (metis option.inject)
      moreover have "\<not> candidate_of input MergeGroup sha" using same by (simp add: candidate_of_def)
      moreover have "selection_of input =
          (if observed_signal signal
           then selected TestMerge merge (Some (target_base_sha (target_after input))) None TestMergeSignal (signals input)
           else if surface_collection (check_runs signal) \<noteq> Complete \<or> surface_collection (commit_statuses signal) \<noteq> Complete
           then unresolved Inconclusive SignalSurfaceGap (signals input)
           else selected PrHead (target_head_sha (target_after input)) None None TestMergeEmpty (signals input))"
        using same merge Some by (simp add: selection_of_def)
      ultimately show ?thesis by (cases kind) auto
    qed
  qed
next
  case False
  then show ?thesis
    by (cases kind; cases "target_queue_entry (target_after input)") (auto simp: selection_of_def candidate_of_def)
qed

lemma selection_status_cases:
  "selection_status (selection_of input) =
    (if target_before input \<noteq> target_after input then Retry
     else if selection_sha (selection_of input) = None then Inconclusive else Selected)"
  unfolding selection_of_def Let_def by (auto split: option.splits)

lemma selection_kind_sha: "selection_kind (selection_of input) = None \<longleftrightarrow> selection_sha (selection_of input) = None"
  unfolding selection_of_def Let_def by (auto split: option.splits)

lemma selection_made:
  assumes "distinct (map signal_sha (signals input))"
  shows "selection_sha (selection_of input) = None \<longleftrightarrow> (\<nexists>kind sha. candidate_of input kind sha)"
  using selection_candidate [OF assms] selection_kind_sha [of input] by (metis not_Some_eq)

lemma candidate_head:
  assumes "input_ok input" "candidate_of input kind sha"
  shows "sha = target_head_sha (target_after input) \<longleftrightarrow> kind = PrHead"
  using assms by (cases kind) (auto simp: candidate_of_def input_ok_def target_ok_def entry_ok_def)

section \<open>The order of the signals\<close>

definition with_signals :: "candidate_signals list \<Rightarrow> selection_input \<Rightarrow> selection_input" where
  "with_signals sigs input = input\<lparr>signals := sigs\<rparr>"

lemma with_signals_simps [simp]:
  "target_before (with_signals sigs input) = target_before input" "target_after (with_signals sigs input) = target_after input"
  "signals (with_signals sigs input) = sigs"
  by (simp_all add: with_signals_def)

lemma find_key_perm:
  assumes "distinct (map f xs)" "distinct (map f ys)" "set xs = set ys"
  shows "find (\<lambda>x. f x = k) xs = find (\<lambda>x. f x = k) ys"
  using find_key [OF assms(1)] find_key [OF assms(2)] assms(3) by (metis not_None_eq)

lemma ignored_perm: "mset sigs = mset sigs' \<Longrightarrow> ignored_signal_shas sigs chosen = ignored_signal_shas sigs' chosen"
  unfolding ignored_signal_shas_def sorted_list_of_multiset_mset [symmetric] mset_map mset_filter by simp

lemma input_ok_perm: "mset (signals input) = mset sigs \<Longrightarrow> input_ok (with_signals sigs input) \<longleftrightarrow> input_ok input"
proof -
  assume perm: "mset (signals input) = mset sigs"
  then have "mset (map signal_sha (signals input)) = mset (map signal_sha sigs)" by simp
  then have "distinct (map signal_sha sigs) \<longleftrightarrow> distinct (map signal_sha (signals input))" by (metis mset_eq_imp_distinct_iff)
  then show ?thesis
    using mset_eq_setD [OF perm] mset_eq_length [OF perm] by (simp add: input_ok_def)
qed

lemma selection_of_perm:
  assumes "mset (signals input) = mset sigs" "input_ok input"
  shows "selection_of (with_signals sigs input) = selection_of input"
proof -
  have "input_ok (with_signals sigs input)" using input_ok_perm [OF assms(1)] assms(2) by simp
  then have "distinct (map signal_sha sigs)" "distinct (map signal_sha (signals input))"
    using assms(2) by (simp_all add: input_ok_def)
  then have "find (\<lambda>x. signal_sha x = k) sigs = find (\<lambda>x. signal_sha x = k) (signals input)" for k
    using find_key_perm mset_eq_setD [OF assms(1)] by metis
  moreover have "selected k c b e r sigs = selected k c b e r (signals input)" "unresolved st r sigs = unresolved st r (signals input)"
    for k c b e r st
    using ignored_perm [OF assms(1)] by (simp_all add: selected_def unresolved_def)
  ultimately show ?thesis unfolding selection_of_def Let_def with_signals_simps by (simp split: option.split)
qed

section \<open>Claims\<close>

text \<open>The selection of a candidate accepts exactly the consistent observations and never panics: two open pull requests with full,
  different commits, a test merge and a queue entry that are not the head, a queue entry only for a queued pull request, at most
  10,000 signals for distinct commits, and no count that overflows 64 bits. Anything else is an error with a message.\<close>

theorem select_candidate_accepts:
  "case select_candidate input of
     Inr sel \<Rightarrow> input_ok input
   | Inl (Rejected message) \<Rightarrow> \<not> input_ok input
   | Inl Unexpected \<Rightarrow> False"
proof (cases "select_candidate input")
  case (Inl e)
  then have "e \<noteq> Unexpected" using calm_select_candidate [of input] by (simp add: calm_def)
  moreover have "\<not> input_ok input" using Inl select_candidate_iff [of input "selection_of input"] by auto
  ultimately show ?thesis using Inl by (cases e) auto
next
  case (Inr sel)
  then show ?thesis using select_candidate_iff [of input sel] by simp
qed

text \<open>C10: A selection names a commit of some kind exactly when that commit is the candidate of that kind: the queue's candidate of a queued
  pull request, the test merge when a signal was observed for it, the head when the signals of the test merge are completely
  collected and none. It asks for a retry exactly when the two observations differ and is inconclusive exactly when there is no candidate.
  Only a selection of kind head names the head, and the ignored commits are exactly the other commits with a signal, in order.\<close>

theorem selection_exact:
  assumes "select_candidate input = Inr sel"
  shows "(selection_kind sel = Some kind \<and> selection_sha sel = Some sha \<longleftrightarrow> candidate_of input kind sha) \<and>
    selection_status sel = (if target_before input \<noteq> target_after input then Retry
      else if (\<exists>k c. candidate_of input k c) then Selected else Inconclusive) \<and>
    (selection_sha sel = Some (target_head_sha (target_after input)) \<longleftrightarrow> selection_kind sel = Some PrHead) \<and>
    sorted_wrt (<) (ignored_shas sel) \<and>
    set (ignored_shas sel) =
      {signal_sha signal | signal. signal \<in> set (signals input) \<and> observed_signal signal \<and> selection_sha sel \<noteq> Some (signal_sha signal)}"
proof -
  have ok: "input_ok input" and sel: "sel = selection_of input" using assms by (simp_all add: select_candidate_iff)
  then have d: "distinct (map signal_sha (signals input))" by (simp add: input_ok_def)
  have head: "selection_sha sel = Some (target_head_sha (target_after input)) \<longleftrightarrow> selection_kind sel = Some PrHead"
  proof (cases "selection_sha sel")
    case None
    then show ?thesis using selection_kind_sha [of input] sel by simp
  next
    case (Some c)
    then obtain k where k: "selection_kind sel = Some k" using selection_kind_sha [of input] sel by fastforce
    then have "candidate_of input k c" using selection_candidate [OF d, of k c] Some sel by simp
    from candidate_head [OF ok this] show ?thesis using Some k by simp
  qed
  have "selection_status sel = (if target_before input \<noteq> target_after input then Retry
      else if (\<exists>k c. candidate_of input k c) then Selected else Inconclusive)"
    unfolding sel selection_status_cases selection_made [OF d] by auto
  then show ?thesis
    using head selection_candidate [OF d] unfolding sel selection_ignored ignored_set by (simp add: ignored_sorted [OF d])
qed

text \<open>The order in which the signals were collected does not matter: a permutation of them is accepted together with the
  original, with the same selection.\<close>

theorem signal_order_irrelevant:
  assumes "mset (signals input) = mset sigs"
  shows "select_candidate (with_signals sigs input) = Inr sel \<longleftrightarrow> select_candidate input = Inr sel"
  unfolding select_candidate_iff using input_ok_perm [OF assms] selection_of_perm [OF assms] by auto

section \<open>A concrete pull request\<close>

definition sample_target :: candidate_target where
  "sample_target = \<lparr>target_state = ''open'', target_base_sha = replicate 40 CHR ''b'', target_head_sha = replicate 40 CHR ''a'',
     is_merge_queue_enabled = False, is_in_merge_queue = False, potential_merge_sha = Some (replicate 40 CHR ''c''),
     target_queue_entry = None\<rparr>"

definition quiet :: signal_surface where
  "quiet = \<lparr>surface_collection = Complete, success = 0, other = 0\<rparr>"

definition sample_signals :: "candidate_signals list" where
  "sample_signals =
     [\<lparr>signal_sha = replicate 40 CHR ''d'', check_runs = quiet\<lparr>success := 2\<rparr>, commit_statuses = quiet\<rparr>,
      \<lparr>signal_sha = replicate 40 CHR ''c'', check_runs = quiet, commit_statuses = quiet\<rparr>]"

definition sample_selection_input :: selection_input where
  "sample_selection_input = \<lparr>target_before = sample_target, target_after = sample_target, signals = sample_signals\<rparr>"

definition sample_selection :: candidate_selection where
  "sample_selection = selected PrHead (replicate 40 CHR ''a'') None None TestMergeEmpty sample_signals"

lemma sample_ids [simp]: "c \<in> set ''abcd'' \<Longrightarrow> full_object_id (replicate 40 c)"
  by (auto simp: full_object_id_def less_eq_char_def list_all_iff)

lemma sample_selected: "select_candidate sample_selection_input = Inr sample_selection"
proof -
  have "input_ok sample_selection_input"
    by (simp add: input_ok_def sample_selection_input_def sample_target_def target_ok_def sample_signals_def signal_ok_def quiet_def
        MAX_SIGNALS_def usize_max_def)
  moreover have "selection_of sample_selection_input = sample_selection"
    by (simp add: selection_of_def sample_selection_def sample_selection_input_def sample_target_def sample_signals_def quiet_def
        observed_signal_def has_signal_def)
  ultimately show ?thesis by (simp add: select_candidate_iff)
qed

lemma selection_exact_witness:
  "candidate_of sample_selection_input PrHead (replicate 40 CHR ''a'') \<and> ignored_shas sample_selection = [replicate 40 CHR ''d'']"
proof -
  have "ignored_shas sample_selection = [replicate 40 CHR ''d'']"
    by (simp add: sample_selection_def ignored_signal_shas_def sample_signals_def quiet_def observed_signal_def has_signal_def
       )
  moreover have "selection_kind sample_selection = Some PrHead \<and> selection_sha sample_selection = Some (replicate 40 CHR ''a'')"
    by (simp add: sample_selection_def)
  ultimately show ?thesis using selection_exact [OF sample_selected, of PrHead "replicate 40 CHR ''a''"] by blast
qed

lemma signal_order_irrelevant_witness:
  "select_candidate (with_signals (rev sample_signals) sample_selection_input) = Inr sample_selection"
  using signal_order_irrelevant [of sample_selection_input "rev sample_signals" sample_selection] sample_selected
  by (simp add: sample_selection_input_def)

end
