(* ===== verification/Readiness_Model.thy ===== *)
theory Readiness_Model
  imports Text_Points
begin

text \<open>
  The data of the merge-readiness audit (\<open>src/readiness.rs\<close>): the snapshot of a repository with its branch policy, workflows and sampled
  pull requests, the findings and unknowns of an audit, and the validation of a snapshot. Decoding JSON is serde's.
\<close>

section \<open>Snapshots\<close>

datatype collection_status = Complete | Partial

datatype collection_surface =
    Repository | EffectiveRules | Rulesets | Workflows | WorkflowDefinitions | PullRequests | CheckRuns | CommitStatuses | WorkflowRuns

record collection_gap =
  gap_surface :: collection_surface
  gap_reason :: string

record snapshot_collection =
  collection_status :: collection_status
  api_calls :: nat
  response_bytes :: nat
  gaps :: "collection_gap list"

record repository_snapshot =
  repository_database_id :: nat
  repository_name :: string
  repository_url :: string
  default_branch :: string
  default_branch_head_sha :: string

record ruleset_ref =
  ruleset_id :: nat
  ruleset_name :: string
  ruleset_url :: string
  source_type :: string
  ruleset_source :: string

record required_check =
  check_context :: string
  integration_id :: "nat option"
  check_rulesets :: "ruleset_ref list"

record branch_policy =
  branch_protected :: bool
  effective_rule_count :: nat
  pull_request_rule :: bool
  merge_queue_rule :: bool
  required_checks :: "required_check list"

record trigger_snapshot =
  paths :: "string list"
  paths_ignore :: "string list"

record workflow_definition =
  on_pull_request :: "trigger_snapshot option"
  on_pull_request_target :: "trigger_snapshot option"
  on_merge_group :: "trigger_snapshot option"

record workflow_snapshot =
  workflow_id :: nat
  workflow_name :: string
  workflow_path :: string
  workflow_state :: string
  workflow_url :: string
  workflow_definition :: "workflow_definition option"

datatype pull_request_state = Open | Merged

record check_run =
  check_run_id :: nat
  check_run_url :: string
  check_run_name :: string
  app_id :: "nat option"
  app_slug :: "string option"
  check_suite_id :: "nat option"
  check_run_status :: string
  check_run_conclusion :: "string option"

record commit_status =
  status_id :: nat
  status_url :: string
  status_context :: string
  creator_id :: "nat option"
  creator_login :: "string option"
  status_state :: string

record workflow_run =
  run_id :: nat
  run_url :: string
  run_workflow_id :: nat
  run_path :: string
  run_event :: string
  run_check_suite_id :: nat
  run_attempt :: nat

record pull_request =
  pull_number :: nat
  pull_url :: string
  pull_state :: pull_request_state
  pull_head_sha :: string
  pull_collection :: collection_status
  pull_check_runs :: "check_run list"
  pull_statuses :: "commit_status list"
  pull_workflow_runs :: "workflow_run list"

record readiness_snapshot =
  readiness_schema :: string
  captured_at :: string
  repository :: repository_snapshot
  collection :: snapshot_collection
  policy :: branch_policy
  workflows :: "workflow_snapshot list"
  pull_requests :: "pull_request list"

section \<open>Audits\<close>

datatype finding_rule =
    DefaultBranchUnprotected | RequiredCheckSourceUnpinned | RequiredCheckSourceMismatch | RequiredCheckSourceAmbiguous
  | MergeGroupTriggerMissing | PathFilteredRequiredWorkflow

datatype finding_severity = High | Medium

datatype evidence_kind =
    RepositoryEvidence | RulesetEvidence | WorkflowEvidence | PullRequestEvidence | CheckRunEvidence | WorkflowRunEvidence
  | CommitStatusEvidence

record evidence_ref =
  evidence_kind :: evidence_kind
  evidence_url :: string
  evidence_description :: string

record audit_finding =
  finding_rule :: finding_rule
  finding_severity :: finding_severity
  finding_title :: string
  finding_explanation :: string
  finding_contexts :: "string list"
  finding_paths :: "string list"
  finding_rulesets :: "ruleset_ref list"
  finding_evidence :: "evidence_ref list"
  remediation :: string

datatype unknown_code =
    CollectionIncomplete | RequiredCheckNeverObserved | RequiredCheckMissingOnSampledHead | RequiredCheckSourceUnresolved
  | WorkflowMappingUnavailable | WorkflowDefinitionUnavailable | ExternalMergeGroupSupportUnobserved

record audit_unknown =
  unknown_code :: unknown_code
  unknown_context :: "string option"
  unknown_path :: "string option"
  unknown_reason :: string
  unknown_evidence :: "evidence_ref list"

datatype audit_verdict = ActionRequired | NoObservedRisk | VerdictInconclusive

record audit_scope =
  scope_provider_url :: string
  scope_repository :: string
  scope_default_branch :: string
  scope_head_sha :: string
  scope_pull_requests :: nat

record audit_privacy =
  repository_source_collected :: bool
  workflow_definitions_collected :: bool
  pull_request_text_collected :: bool
  check_run_output_text_collected :: bool
  commit_status_description_collected :: bool
  review_text_collected :: bool
  commit_messages_collected :: bool

record audit_claim_boundary =
  current_configuration_snapshot_supported :: bool
  historical_configuration_at_merge_supported :: bool
  merge_safety_supported :: bool
  workflow_runtime_semantics_supported :: bool
  cost_savings_supported :: bool

record audit_summary =
  verdict :: audit_verdict
  findings_count :: nat
  high_findings :: nat
  medium_findings :: nat
  unknowns_count :: nat
  required_checks_count :: nat
  sampled_pull_requests :: nat
  fully_observed_pull_requests :: nat

record readiness_audit =
  audit_schema :: string
  tool_version :: string
  generated_at :: string
  audit_scope :: audit_scope
  audit_collection :: snapshot_collection
  audit_privacy :: audit_privacy
  claim_boundary :: audit_claim_boundary
  summary :: audit_summary
  findings :: "audit_finding list"
  unknowns :: "audit_unknown list"

definition MERGE_READINESS_SNAPSHOT_SCHEMA :: string where
  "MERGE_READINESS_SNAPSHOT_SCHEMA = ''stratadiff-merge-readiness-snapshot-v1''"

definition MERGE_READINESS_AUDIT_SCHEMA :: string where
  "MERGE_READINESS_AUDIT_SCHEMA = ''stratadiff-merge-readiness-audit-v1''"

definition GITHUB_ACTIONS_APP_ID :: nat where "GITHUB_ACTIONS_APP_ID = 15368"

section \<open>Checks of text\<close>

definition maximum_day :: "nat \<Rightarrow> nat \<Rightarrow> nat option" where
  "maximum_day year month =
     (if month \<in> {1, 3, 5, 7, 8, 10, 12} then Some 31
      else if month \<in> {4, 6, 9, 11} then Some 30
      else if month = 2 then
        Some (if year mod 4 = 0 \<and> (year mod 100 \<noteq> 0 \<or> year mod 400 = 0) then 29 else 28)
      else None)"

text \<open>The value of the digit at an index: the index may be out of range, and \<open>bytes[index] - b'0'\<close> below zero.\<close>

definition byte_digit :: "string \<Rightarrow> nat \<Rightarrow> nat result" where
  "byte_digit value i = rbind (index_at value i) (\<lambda>b. of_option Panic (usize_checked_sub (of_char b) 48))"

definition two_digits :: "string \<Rightarrow> nat \<Rightarrow> nat \<Rightarrow> nat result" where
  "two_digits value tens ones =
     rbind (byte_digit value tens) (\<lambda>t. rbind (byte_digit value ones) (\<lambda>n. Inr (t * 10 + n)))"

text \<open>\<open>bytes[i] == c && \<dots>\<close>, from left to right and only as long as the comparisons hold.\<close>

definition bytes_at :: "string \<Rightarrow> (nat \<times> char) list \<Rightarrow> bool result" where
  "bytes_at value = rall (\<lambda>(i, c). rbind (index_at value i) (\<lambda>b. Inr (b = c)))"

definition digits_at :: "string \<Rightarrow> nat list \<Rightarrow> bool result" where
  "digits_at value = rall (\<lambda>i. rbind (index_at value i) (\<lambda>b. Inr (ascii_digit b)))"

text \<open>What follows the seconds: \<open>Z\<close>, or a point, at least one digit and \<open>Z\<close>.\<close>

definition utc_tail :: "string \<Rightarrow> bool result" where
  "utc_tail value =
     rbind (index_at value 19) (\<lambda>mark.
     if mark = CHR ''Z'' then Inr (length value = 20)
     else if mark \<noteq> CHR ''.'' \<or> \<not> length value > 21 then Inr False
     else
       rbind (of_option Panic (usize_checked_sub (length value) 1)) (\<lambda>final.
       rbind (index_at value final) (\<lambda>b.
       if b \<noteq> CHR ''Z'' then Inr False
       else rbind (slice value 20 final) (\<lambda>digits. Inr (list_all ascii_digit digits)))))"

definition valid_utc_timestamp :: "string \<Rightarrow> bool result" where
  "valid_utc_timestamp value =
     (if length value < 20 then Inr False
      else
        rbind (bytes_at value [(4, CHR ''-''), (7, CHR ''-''), (10, CHR ''T''), (13, CHR '':''), (16, CHR '':'')]) (\<lambda>separated.
        if \<not> separated then Inr False
        else
          rbind (digits_at value [0, 1, 2, 3, 5, 6, 8, 9, 11, 12, 14, 15, 17, 18]) (\<lambda>numeric.
          if \<not> numeric then Inr False
          else
            rbind (byte_digit value 0) (\<lambda>y0.
            rbind (byte_digit value 1) (\<lambda>y1.
            rbind (byte_digit value 2) (\<lambda>y2.
            rbind (byte_digit value 3) (\<lambda>y3.
            rbind (two_digits value 5 6) (\<lambda>month.
            rbind (two_digits value 8 9) (\<lambda>day.
            rbind (two_digits value 11 12) (\<lambda>hour.
            rbind (two_digits value 14 15) (\<lambda>minute.
            rbind (two_digits value 17 18) (\<lambda>second.
            case maximum_day (y0 * 1000 + y1 * 100 + y2 * 10 + y3) month of
              None \<Rightarrow> Inr False
            | Some limit \<Rightarrow>
                if \<not> (1 \<le> day \<and> day \<le> limit) \<or> hour > 23 \<or> minute > 59 \<or> second > 59 then Inr False
                else utc_tail value))))))))))))"

text \<open>A valid time stamp by its text: the pattern of separators and digits, a date of the calendar and the tail.\<close>

definition utc_text :: "string \<Rightarrow> bool" where
  "utc_text value \<longleftrightarrow> 20 \<le> length value \<and>
     value ! 4 = CHR ''-'' \<and> value ! 7 = CHR ''-'' \<and> value ! 10 = CHR ''T'' \<and> value ! 13 = CHR '':'' \<and> value ! 16 = CHR '':'' \<and>
     list_all (\<lambda>i. ascii_digit (value ! i)) [0, 1, 2, 3, 5, 6, 8, 9, 11, 12, 14, 15, 17, 18] \<and>
     (let d = (\<lambda>i. digit_value (value ! i)); number = (\<lambda>tens ones. d tens * 10 + d ones) in
      (case maximum_day (d 0 * 1000 + d 1 * 100 + d 2 * 10 + d 3) (number 5 6) of
         None \<Rightarrow> False | Some limit \<Rightarrow> 1 \<le> number 8 9 \<and> number 8 9 \<le> limit) \<and>
      number 11 12 \<le> 23 \<and> number 14 15 \<le> 59 \<and> number 17 18 \<le> 59) \<and>
     (value ! 19 = CHR ''Z'' \<and> length value = 20 \<or>
      value ! 19 = CHR ''.'' \<and> 21 < length value \<and> last value = CHR ''Z'' \<and> list_all ascii_digit (drop 20 (butlast value)))"

lemma utc_tail_eq:
  assumes "20 \<le> length value"
  shows "utc_tail value = Inr (value ! 19 = CHR ''Z'' \<and> length value = 20 \<or>
      value ! 19 = CHR ''.'' \<and> 21 < length value \<and> last value = CHR ''Z'' \<and> list_all ascii_digit (drop 20 (butlast value)))"
proof -
  have final: "last value = value ! (length value - 1)" using assms by (intro last_conv_nth) auto
  have digits: "take (length value - 21) (drop 20 value) = drop 20 (butlast value)"
    by (simp add: butlast_conv_take drop_take)
  show ?thesis
    using assms by (simp add: utc_tail_def usize_checked_sub_def slice_def final digits) auto
qed

lemma byte_digit_eq: "i < length value \<Longrightarrow> ascii_digit (value ! i) \<Longrightarrow> byte_digit value i = Inr (digit_value (value ! i))"
  by (simp add: byte_digit_def usize_checked_sub_def ascii_digit_code digit_value_def)

text \<open>No index of the check is out of range and no subtraction below zero: the length and the digits are tested before.\<close>

lemma valid_utc_timestamp_eq: "valid_utc_timestamp value = Inr (utc_text value)"
proof (cases "20 \<le> length value")
  case True
  have separated: "bytes_at value [(4, CHR ''-''), (7, CHR ''-''), (10, CHR ''T''), (13, CHR '':''), (16, CHR '':'')] =
      Inr (value ! 4 = CHR ''-'' \<and> value ! 7 = CHR ''-'' \<and> value ! 10 = CHR ''T'' \<and> value ! 13 = CHR '':'' \<and> value ! 16 = CHR '':'')"
    using True by (simp add: bytes_at_def)
  have numeric: "digits_at value [0, 1, 2, 3, 5, 6, 8, 9, 11, 12, 14, 15, 17, 18] =
      Inr (list_all (\<lambda>i. ascii_digit (value ! i)) [0, 1, 2, 3, 5, 6, 8, 9, 11, 12, 14, 15, 17, 18])"
    using True unfolding digits_at_def by (subst rall_pure [where p = "\<lambda>i. ascii_digit (value ! i)"]) (auto simp: list_all_iff index_at_def)
  have one: "byte_digit value i = Inr (digit_value (value ! i))"
    if "list_all (\<lambda>i. ascii_digit (value ! i)) [0, 1, 2, 3, 5, 6, 8, 9, 11, 12, 14, 15, 17, 18]"
      "i \<in> {0, 1, 2, 3, 5, 6, 8, 9, 11, 12, 14, 15, 17, 18}" for i
    using that True by (intro byte_digit_eq) auto
  have two: "two_digits value i j = Inr (digit_value (value ! i) * 10 + digit_value (value ! j))"
    if "list_all (\<lambda>i. ascii_digit (value ! i)) [0, 1, 2, 3, 5, 6, 8, 9, 11, 12, 14, 15, 17, 18]"
      "i \<in> {0, 1, 2, 3, 5, 6, 8, 9, 11, 12, 14, 15, 17, 18}" "j \<in> {0, 1, 2, 3, 5, 6, 8, 9, 11, 12, 14, 15, 17, 18}" for i j
    by (simp only: two_digits_def one [OF that(1,2)] one [OF that(1,3)] rbind_simps)
  show ?thesis
    unfolding valid_utc_timestamp_def separated rbind_simps numeric utc_tail_eq [OF True]
    using True by (auto simp: one two utc_text_def Let_def split: option.split)
qed (simp add: valid_utc_timestamp_def utc_text_def)

definition is_terminal_unsafe :: "nat \<Rightarrow> bool" where
  "is_terminal_unsafe p \<longleftrightarrow> is_control p \<or>
     list_ex (\<lambda>(low, high). low \<le> p \<and> p \<le> high)
       [(0x00ad, 0x00ad), (0x0600, 0x0605), (0x061c, 0x061c), (0x06dd, 0x06dd), (0x070f, 0x070f), (0x0890, 0x0891), (0x08e2, 0x08e2),
        (0x180e, 0x180e), (0x200b, 0x200f), (0x2028, 0x202e), (0x2060, 0x206f), (0xfeff, 0xfeff), (0xfff9, 0xfffb),
        (0x110bd, 0x110bd), (0x110cd, 0x110cd), (0x13430, 0x1343f), (0x1bca0, 0x1bca3), (0x1d173, 0x1d17a), (0xe0001, 0xe0001),
        (0xe0020, 0xe007f)]"

definition valid_url :: "string \<Rightarrow> bool" where
  "valid_url value \<longleftrightarrow> take 8 value = ''https://'' \<and> \<not> list_ex is_terminal_unsafe (code_points value) \<and>
     \<not> list_ex is_whitespace (code_points value)"

definition validate_url :: "string \<Rightarrow> string \<Rightarrow> unit decision_result" where
  "validate_url value label = ensure (length value \<le> 2048 \<and> valid_url value) (label @ '' must be a canonical HTTPS URL'')"

text \<open>\<open>str::split\<close>.\<close>

fun split_on :: "char \<Rightarrow> string \<Rightarrow> string list" where
  "split_on sep [] = [[]]"
| "split_on sep (c # cs) =
     (if c = sep then [] # split_on sep cs
      else (case split_on sep cs of p # ps \<Rightarrow> (c # p) # ps | [] \<Rightarrow> [[c]]))"

definition valid_component :: "string \<Rightarrow> bool" where
  "valid_component component \<longleftrightarrow> component \<noteq> [] \<and> list_all (\<lambda>b. ascii_alphanumeric b \<or> b \<in> set ''_.-'') component"

definition valid_repository_name :: "string \<Rightarrow> bool" where
  "valid_repository_name value =
     (case split_on CHR ''/'' value of
        [owner, name] \<Rightarrow> valid_component owner \<and> valid_component name
      | _ \<Rightarrow> False)"

text \<open>\<open>str::strip_suffix\<close>, with \<open>ends_with\<close>.\<close>

definition strip_suffix :: "string \<Rightarrow> string \<Rightarrow> string option" where
  "strip_suffix suf value =
     (if length suf \<le> length value \<and> drop (length value - length suf) value = suf
      then Some (take (length value - length suf) value) else None)"

definition ends_with :: "string \<Rightarrow> string \<Rightarrow> bool" where
  "ends_with suf value \<longleftrightarrow> strip_suffix suf value \<noteq> None"

section \<open>Validation\<close>

definition each :: "('a \<Rightarrow> unit decision_result) \<Rightarrow> 'a list \<Rightarrow> unit decision_result" where
  "each f xs = dfold (\<lambda>_. f) () xs"

definition validate_ruleset :: "ruleset_ref \<Rightarrow> unit decision_result" where
  "validate_ruleset r =
     dbind (ensure (ruleset_id r > 0) ''ruleset ID must be positive'') (\<lambda>_.
     dbind (bounded_text (ruleset_name r) 255 ''ruleset name'') (\<lambda>_.
     dbind (validate_url (ruleset_url r) ''ruleset URL'') (\<lambda>_.
     dbind (bounded_text (source_type r) 64 ''ruleset source type'') (\<lambda>_.
       bounded_text (ruleset_source r) 255 ''ruleset source''))))"

definition positive_option :: "nat option \<Rightarrow> string \<Rightarrow> unit decision_result" where
  "positive_option x message = (case x of Some n \<Rightarrow> ensure (n > 0) message | None \<Rightarrow> Inr ())"

definition validate_workflow ::
  "snapshot_collection \<Rightarrow> nat set \<times> string set \<Rightarrow> workflow_snapshot \<Rightarrow> (nat set \<times> string set) decision_result" where
  "validate_workflow c seen w =
     dbind (ensure (workflow_id w > 0) ''workflow ID must be positive'') (\<lambda>_.
     dbind (ensure (workflow_id w \<notin> fst seen) ''duplicate workflow ID'') (\<lambda>_.
     dbind (ensure (workflow_path w \<notin> snd seen) ''duplicate workflow path'') (\<lambda>_.
     dbind (bounded_text (workflow_name w) 255 ''workflow name'') (\<lambda>_.
     dbind (bounded_text (workflow_path w) 1024 ''workflow path'') (\<lambda>_.
     dbind (bounded_text (workflow_state w) 64 ''workflow state'') (\<lambda>_.
     dbind (validate_url (workflow_url w) ''workflow URL'') (\<lambda>_.
     dbind (if collection_status c = Complete \<and> workflow_state w = ''active''
            then ensure (workflow_definition w \<noteq> None) ''a complete snapshot must include every active workflow definition''
            else Inr ()) (\<lambda>_.
       Inr (insert (workflow_id w) (fst seen), insert (workflow_path w) (snd seen))))))))))"

definition validate_required_check :: "required_check \<Rightarrow> unit decision_result" where
  "validate_required_check c =
     dbind (bounded_text (check_context c) 255 ''required check context'') (\<lambda>_.
     dbind (ensure (check_rulesets c \<noteq> []) ''required check must name a ruleset'') (\<lambda>_.
     dbind (each validate_ruleset (check_rulesets c)) (\<lambda>_.
       positive_option (integration_id c) ''integration ID must be positive'')))"

definition validate_check_run :: "check_run \<Rightarrow> unit decision_result" where
  "validate_check_run r =
     dbind (ensure (check_run_id r > 0) ''check run ID must be positive'') (\<lambda>_.
     dbind (validate_url (check_run_url r) ''check run URL'') (\<lambda>_.
     dbind (bounded_text (check_run_name r) 255 ''check run name'') (\<lambda>_.
     dbind (bounded_text (check_run_status r) 64 ''check run status'') (\<lambda>_.
       positive_option (app_id r) ''check run App ID must be positive''))))"

definition validate_commit_status :: "commit_status \<Rightarrow> unit decision_result" where
  "validate_commit_status st =
     dbind (ensure (status_id st > 0) ''commit status ID must be positive'') (\<lambda>_.
     dbind (validate_url (status_url st) ''commit status URL'') (\<lambda>_.
     dbind (bounded_text (status_context st) 255 ''commit status context'') (\<lambda>_.
     dbind (bounded_text (status_state st) 64 ''commit status state'') (\<lambda>_.
       positive_option (creator_id st) ''commit-status creator ID must be positive''))))"

definition validate_workflow_run :: "workflow_run \<Rightarrow> unit decision_result" where
  "validate_workflow_run r =
     dbind (ensure (run_id r > 0) ''workflow run ID must be positive'') (\<lambda>_.
     dbind (ensure (run_workflow_id r > 0) ''workflow run workflow ID must be positive'') (\<lambda>_.
     dbind (ensure (run_check_suite_id r > 0) ''workflow run check-suite ID must be positive'') (\<lambda>_.
     dbind (ensure (run_attempt r > 0) ''workflow run attempt must be positive'') (\<lambda>_.
     dbind (validate_url (run_url r) ''workflow run URL'') (\<lambda>_.
     dbind (bounded_text (run_path r) 1024 ''workflow run path'') (\<lambda>_.
       bounded_text (run_event r) 64 ''workflow run event''))))))"

definition validate_pull_request :: "snapshot_collection \<Rightarrow> nat set \<Rightarrow> pull_request \<Rightarrow> nat set decision_result" where
  "validate_pull_request c seen p =
     dbind (ensure (pull_number p > 0) ''pull request number must be positive'') (\<lambda>_.
     dbind (ensure (pull_number p \<notin> seen) ''duplicate pull request number'') (\<lambda>_.
     dbind (validate_url (pull_url p) ''pull request URL'') (\<lambda>_.
     dbind (ensure (full_object_id (pull_head_sha p)) ''pull request head must be a lowercase full Git object ID'') (\<lambda>_.
     dbind (ensure (collection_status c = Partial \<or> pull_collection p = Complete)
              ''a complete snapshot cannot contain a partial pull request'') (\<lambda>_.
     dbind (each validate_check_run (pull_check_runs p)) (\<lambda>_.
     dbind (each validate_commit_status (pull_statuses p)) (\<lambda>_.
     dbind (each validate_workflow_run (pull_workflow_runs p)) (\<lambda>_.
       Inr (insert (pull_number p) seen)))))))))"

definition validate_gap :: "collection_gap \<Rightarrow> unit decision_result" where
  "validate_gap g = bounded_text (gap_reason g) 4096 ''collection gap reason''"

definition validate_repository_snapshot :: "repository_snapshot \<Rightarrow> unit decision_result" where
  "validate_repository_snapshot r =
     dbind (ensure (repository_database_id r > 0) ''repository database ID must be positive'') (\<lambda>_.
     dbind (bounded_text (repository_name r) 202 ''repository name_with_owner'') (\<lambda>_.
     dbind (ensure (valid_repository_name (repository_name r)) ''repository name_with_owner must be OWNER/REPO'') (\<lambda>_.
     dbind (validate_url (repository_url r) ''repository URL'') (\<lambda>_.
     dbind (bounded_text (default_branch r) 255 ''default branch'') (\<lambda>_.
     dbind (ensure (full_object_id (default_branch_head_sha r)) ''default branch head must be a lowercase full Git object ID'') (\<lambda>_.
       ensure (ends_with (''/'' @ repository_name r) (repository_url r)) ''repository URL must end with name_with_owner''))))))"

definition validate_readiness :: "readiness_snapshot \<Rightarrow> unit decision_result" where
  "validate_readiness s =
     dbind (ensure (readiness_schema s = MERGE_READINESS_SNAPSHOT_SCHEMA) ''unsupported merge-readiness snapshot schema'') (\<lambda>_.
     dbind (bounded_text (captured_at s) 64 ''snapshot captured_at'') (\<lambda>_.
     dbind (checked (valid_utc_timestamp (captured_at s))) (\<lambda>valid.
     dbind (ensure valid ''snapshot captured_at must be an RFC 3339 UTC timestamp'') (\<lambda>_.
     dbind (validate_repository_snapshot (repository s)) (\<lambda>_.
     dbind (case collection_status (collection s) of
              Complete \<Rightarrow> ensure (gaps (collection s) = []) ''a complete snapshot cannot contain collection gaps''
            | Partial \<Rightarrow> ensure (gaps (collection s) \<noteq> []) ''a partial snapshot must explain at least one collection gap'') (\<lambda>_.
     dbind (each validate_gap (gaps (collection s))) (\<lambda>_.
     dbind (dfold (validate_workflow (collection s)) ({}, {}) (workflows s)) (\<lambda>_.
     dbind (each validate_required_check (required_checks (policy s))) (\<lambda>_.
     dbind (dfold (validate_pull_request (collection s)) {} (pull_requests s)) (\<lambda>_.
       Inr ()))))))))))"

end
