(* ===== verification/Readiness.thy ===== *)
theory Readiness
  imports Readiness_Model
begin

text \<open>
  The merge-readiness audit (\<open>src/readiness.rs\<close>): \<open>evaluate_merge_readiness\<close> validates a snapshot, collects the evidence for every
  required context from the sampled pull requests, derives findings and unknowns context by context, and summarises them in a verdict.
  Its Markdown rendering is not modelled. A \<open>BTreeSet\<close> is the list of its elements in the order of a key, a \<open>BTreeMap\<close> a map.
\<close>

section \<open>Ordered sets\<close>

fun bt_insert :: "('a \<Rightarrow> 'k::linorder) \<Rightarrow> 'a \<Rightarrow> 'a list \<Rightarrow> 'a list" where
  "bt_insert key x [] = [x]"
| "bt_insert key x (y # ys) =
     (if key x < key y then x # y # ys else if key x = key y then y # ys else y # bt_insert key x ys)"

definition bt_collect :: "('a \<Rightarrow> 'k::linorder) \<Rightarrow> 'a list \<Rightarrow> 'a list" where
  "bt_collect key xs = foldl (\<lambda>s x. bt_insert key x s) [] xs"

text \<open>The derived orders.\<close>

definition evidence_rank :: "evidence_kind \<Rightarrow> nat" where
  "evidence_rank k =
     (case k of RepositoryEvidence \<Rightarrow> 0 | RulesetEvidence \<Rightarrow> 1 | WorkflowEvidence \<Rightarrow> 2 | PullRequestEvidence \<Rightarrow> 3 | CheckRunEvidence \<Rightarrow> 4
      | WorkflowRunEvidence \<Rightarrow> 5 | CommitStatusEvidence \<Rightarrow> 6)"

definition evidence_key :: "evidence_ref \<Rightarrow> nat \<times> string \<times> string" where
  "evidence_key e = (evidence_rank (evidence_kind e), evidence_url e, evidence_description e)"

definition ruleset_key :: "ruleset_ref \<Rightarrow> nat \<times> string \<times> string \<times> string \<times> string" where
  "ruleset_key r = (ruleset_id r, ruleset_name r, ruleset_url r, source_type r, ruleset_source r)"

datatype producer = CheckApp nat | CommitStatus nat

definition producer_key :: "producer \<Rightarrow> nat \<times> nat" where
  "producer_key p = (case p of CheckApp i \<Rightarrow> (0, i) | CommitStatus i \<Rightarrow> (1, i))"

section \<open>Evidence\<close>

definition repository_evidence :: "readiness_snapshot \<Rightarrow> string \<Rightarrow> evidence_ref" where
  "repository_evidence s description =
     \<lparr>evidence_kind = RepositoryEvidence, evidence_url = repository_url (repository s), evidence_description = description\<rparr>"

definition ruleset_union :: "required_check list \<Rightarrow> ruleset_ref list" where
  "ruleset_union checks = bt_collect ruleset_key (concat (map check_rulesets checks))"

definition ruleset_evidence :: "ruleset_ref list \<Rightarrow> evidence_ref list" where
  "ruleset_evidence rulesets =
     map (\<lambda>r. \<lparr>evidence_kind = RulesetEvidence, evidence_url = ruleset_url r,
              evidence_description = ''ruleset '' @ ruleset_name r @ '' requires this context''\<rparr>) rulesets"

record context_evidence =
  producers :: "producer list"
  evidence :: "evidence_ref list"
  actions_runs :: "(nat \<times> string) list"
  actions_unmapped :: "evidence_ref list"

definition no_evidence :: context_evidence where
  "no_evidence = \<lparr>producers = [], evidence = [], actions_runs = [], actions_unmapped = []\<rparr>"

definition pull_text :: "pull_request \<Rightarrow> string" where
  "pull_text p = ''pull request #'' @ decimal (pull_number p) @ '' head '' @ pull_head_sha p"

definition check_run_evidence :: "pull_request \<Rightarrow> check_run \<Rightarrow> evidence_ref" where
  "check_run_evidence p r =
     \<lparr>evidence_kind = CheckRunEvidence, evidence_url = check_run_url r,
      evidence_description = pull_text p @ '' published check '' @ check_run_name r\<rparr>"

definition status_evidence :: "pull_request \<Rightarrow> commit_status \<Rightarrow> evidence_ref" where
  "status_evidence p st =
     \<lparr>evidence_kind = CommitStatusEvidence, evidence_url = status_url st,
      evidence_description = pull_text p @ '' published legacy status '' @ status_context st\<rparr>"

definition joined_run :: "pull_request \<Rightarrow> check_run \<Rightarrow> workflow_run option" where
  "joined_run p r =
     (case check_suite_id r of
        None \<Rightarrow> None
      | Some suite \<Rightarrow> collect_map (map (\<lambda>run. (run_check_suite_id run, run)) (pull_workflow_runs p)) suite)"

definition observe_check_run :: "pull_request \<Rightarrow> check_run \<Rightarrow> context_evidence \<Rightarrow> context_evidence" where
  "observe_check_run p r c =
     (let e = check_run_evidence p r; c = c\<lparr>evidence := bt_insert evidence_key e (evidence c)\<rparr> in
      case app_id r of
        None \<Rightarrow> c
      | Some app \<Rightarrow>
          (let c = c\<lparr>producers := bt_insert producer_key (CheckApp app) (producers c)\<rparr> in
           if app = GITHUB_ACTIONS_APP_ID then
             (case joined_run p r of
                Some run \<Rightarrow> c\<lparr>actions_runs := bt_insert id (run_workflow_id run, run_path run) (actions_runs c)\<rparr>
              | None \<Rightarrow> c\<lparr>actions_unmapped := bt_insert evidence_key e (actions_unmapped c)\<rparr>)
           else c))"

definition observe_status :: "pull_request \<Rightarrow> commit_status \<Rightarrow> context_evidence \<Rightarrow> context_evidence" where
  "observe_status p st c =
     (let c = c\<lparr>evidence := bt_insert evidence_key (status_evidence p st) (evidence c)\<rparr> in
      case creator_id st of
        None \<Rightarrow> c
      | Some creator \<Rightarrow> c\<lparr>producers := bt_insert producer_key (CommitStatus creator) (producers c)\<rparr>)"

text \<open>\<open>get_mut\<close> of a bucket; a name that is not required is skipped.\<close>

definition update_bucket ::
  "string \<Rightarrow> (context_evidence \<Rightarrow> context_evidence) \<Rightarrow> (string \<rightharpoonup> context_evidence) \<Rightarrow> (string \<rightharpoonup> context_evidence)" where
  "update_bucket name f m = (case m name of None \<Rightarrow> m | Some c \<Rightarrow> m(name \<mapsto> f c))"

definition observe_pull_request :: "(string \<rightharpoonup> context_evidence) \<Rightarrow> pull_request \<Rightarrow> (string \<rightharpoonup> context_evidence)" where
  "observe_pull_request m p =
     foldl (\<lambda>m st. update_bucket (status_context st) (observe_status p st) m)
       (foldl (\<lambda>m r. update_bucket (check_run_name r) (observe_check_run p r) m) m (pull_check_runs p))
       (pull_statuses p)"

definition collect_evidence :: "readiness_snapshot \<Rightarrow> string list \<Rightarrow> (string \<rightharpoonup> context_evidence)" where
  "collect_evidence s contexts =
     foldl observe_pull_request (collect_map (map (\<lambda>c. (c, no_evidence)) contexts)) (pull_requests s)"

section \<open>Orders of the report\<close>

definition rule_rank :: "finding_rule \<Rightarrow> nat" where
  "rule_rank r =
     (case r of DefaultBranchUnprotected \<Rightarrow> 0 | RequiredCheckSourceUnpinned \<Rightarrow> 1 | RequiredCheckSourceMismatch \<Rightarrow> 2
      | RequiredCheckSourceAmbiguous \<Rightarrow> 3 | MergeGroupTriggerMissing \<Rightarrow> 4 | PathFilteredRequiredWorkflow \<Rightarrow> 5)"

definition severity_rank :: "finding_severity \<Rightarrow> nat" where
  "severity_rank v = (case v of High \<Rightarrow> 0 | Medium \<Rightarrow> 1)"

definition code_rank :: "unknown_code \<Rightarrow> nat" where
  "code_rank c =
     (case c of CollectionIncomplete \<Rightarrow> 0 | RequiredCheckNeverObserved \<Rightarrow> 1 | RequiredCheckMissingOnSampledHead \<Rightarrow> 2
      | RequiredCheckSourceUnresolved \<Rightarrow> 3 | WorkflowMappingUnavailable \<Rightarrow> 4 | WorkflowDefinitionUnavailable \<Rightarrow> 5
      | ExternalMergeGroupSupportUnobserved \<Rightarrow> 6)"

definition finding_key :: "audit_finding \<Rightarrow> nat \<times> nat \<times> string list \<times> string list" where
  "finding_key f = (severity_rank (finding_severity f), rule_rank (finding_rule f), finding_contexts f, finding_paths f)"

definition unknown_key :: "audit_unknown \<Rightarrow> nat \<times> string option \<times> string option" where
  "unknown_key u = (code_rank (unknown_code u), unknown_context u, unknown_path u)"

definition sort_findings :: "audit_finding list \<Rightarrow> audit_finding list" where
  "sort_findings = sort_key finding_key"

definition sort_unknowns :: "audit_unknown list \<Rightarrow> audit_unknown list" where
  "sort_unknowns = sort_key unknown_key"

section \<open>One required context\<close>

record required_context =
  context_name :: string
  context_rulesets :: "ruleset_ref list"
  expected_apps :: "nat list"
  unpinned :: bool
  observed :: context_evidence

definition required_context :: "string \<Rightarrow> required_check list \<Rightarrow> context_evidence \<Rightarrow> required_context" where
  "required_context name requirements seen =
     \<lparr>context_name = name, context_rulesets = ruleset_union requirements,
      expected_apps = bt_collect id (List.map_filter integration_id requirements),
      unpinned = list_ex (\<lambda>r. integration_id r = None) requirements, observed = seen\<rparr>"

definition unpinned_findings :: "required_context \<Rightarrow> audit_finding list" where
  "unpinned_findings c =
     (if unpinned c then
        [\<lparr>finding_rule = RequiredCheckSourceUnpinned, finding_severity = High,
          finding_title = ''Required check '' @ context_name c @ '' is not pinned to an App'',
          finding_explanation = ''At least one effective required-check rule names the context without an integration_id, so the policy does not identify the expected publisher.'',
          finding_contexts = [context_name c], finding_paths = [], finding_rulesets = context_rulesets c,
          finding_evidence = ruleset_evidence (context_rulesets c),
          remediation = ''Select the expected GitHub App as the required-check source in the ruleset and verify the new integration_id.''\<rparr>]
      else [])"

definition publishes :: "string \<Rightarrow> pull_request \<Rightarrow> bool" where
  "publishes name p \<longleftrightarrow> list_ex (\<lambda>r. check_run_name r = name) (pull_check_runs p) \<or>
     list_ex (\<lambda>st. status_context st = name) (pull_statuses p)"

definition missing_unknown :: "required_context \<Rightarrow> pull_request \<Rightarrow> audit_unknown" where
  "missing_unknown c p =
     \<lparr>unknown_code = RequiredCheckMissingOnSampledHead, unknown_context = Some (context_name c), unknown_path = None,
      unknown_reason = ''Required context '' @ context_name c @ '' was absent from the fully collected exact head of pull request #'' @
        decimal (pull_number p) @ ''.'',
      unknown_evidence = [\<lparr>evidence_kind = PullRequestEvidence, evidence_url = pull_url p,
        evidence_description = pull_text p @ '' had no Check Run or commit status named '' @ context_name c\<rparr>]\<rparr>"

definition missing_unknowns :: "readiness_snapshot \<Rightarrow> required_context \<Rightarrow> audit_unknown list" where
  "missing_unknowns s c =
     (if evidence (observed c) \<noteq> []
      then map (missing_unknown c)
        (filter (\<lambda>p. pull_collection p = Complete \<and> \<not> publishes (context_name c) p) (pull_requests s))
      else [])"

definition actions_can_satisfy :: "required_context \<Rightarrow> bool" where
  "actions_can_satisfy c \<longleftrightarrow> unpinned c \<or> GITHUB_ACTIONS_APP_ID \<in> set (expected_apps c)"

definition ambiguous_findings :: "required_context \<Rightarrow> audit_finding list" where
  "ambiguous_findings c =
     (if unpinned c \<and> length (producers (observed c)) > 1 \<or>
         actions_can_satisfy c \<and> length (actions_runs (observed c)) > 1
      then
        [\<lparr>finding_rule = RequiredCheckSourceAmbiguous, finding_severity = Medium,
          finding_title = ''Required check '' @ context_name c @ '' has ambiguous publisher identity'',
          finding_explanation = ''The sampled exact heads contain '' @ decimal (length (producers (observed c))) @
            '' publisher identities and '' @ decimal (length (actions_runs (observed c))) @
            '' eligible GitHub Actions workflow paths for this context, while at least one effective rule cannot distinguish every observed source.'',
          finding_contexts = [context_name c], finding_paths = map snd (actions_runs (observed c)),
          finding_rulesets = context_rulesets c,
          finding_evidence = foldl (\<lambda>es e. bt_insert evidence_key e es)
            (bt_collect evidence_key (ruleset_evidence (context_rulesets c))) (evidence (observed c)),
          remediation = ''Give every workflow job a unique context and pin each required context to its expected App source.''\<rparr>]
      else [])"

text \<open>The expected publishers of a context on one pull request.\<close>

datatype source_state = SourceSatisfied | SourceUnresolved | SourceMissing "nat list"

definition source_state :: "required_context \<Rightarrow> pull_request \<Rightarrow> source_state" where
  "source_state c p =
     (let matching = filter (\<lambda>r. check_run_name r = context_name c) (pull_check_runs p);
          statuses = filter (\<lambda>st. status_context st = context_name c) (pull_statuses p);
          present = bt_collect id (filter (\<lambda>i. i \<in> set (expected_apps c)) (List.map_filter app_id matching));
          missing = filter (\<lambda>i. i \<notin> set present) (expected_apps c) in
      if missing = [] \<or> matching = [] \<and> statuses = [] then SourceSatisfied
      else if pull_collection p = Partial \<or> statuses \<noteq> [] \<or> list_ex (\<lambda>r. app_id r = None) matching then SourceUnresolved
      else SourceMissing missing)"

definition unresolved_unknown :: "required_context \<Rightarrow> pull_request \<Rightarrow> audit_unknown" where
  "unresolved_unknown c p =
     \<lparr>unknown_code = RequiredCheckSourceUnresolved, unknown_context = Some (context_name c), unknown_path = None,
      unknown_reason =
        (if pull_collection p = Partial
         then ''Pull request #'' @ decimal (pull_number p) @
           '' was collected partially, so its complete publisher set for this context is unknown.''
         else ''Pull request #'' @ decimal (pull_number p) @
           '' exposes this context through evidence whose GitHub App identity is not available in the snapshot.''),
      unknown_evidence = [\<lparr>evidence_kind = PullRequestEvidence, evidence_url = pull_url p,
        evidence_description = pull_text p @ '' has unresolved publisher identity for '' @ context_name c\<rparr>]\<rparr>"

definition unresolved_unknowns :: "readiness_snapshot \<Rightarrow> required_context \<Rightarrow> audit_unknown list" where
  "unresolved_unknowns s c =
     (if expected_apps c \<noteq> [] then
        map (unresolved_unknown c) (filter (\<lambda>p. source_state c p = SourceUnresolved) (pull_requests s))
      else [])"

definition mismatch_evidence :: "required_context \<Rightarrow> pull_request \<Rightarrow> evidence_ref option" where
  "mismatch_evidence c p =
     (case source_state c p of
        SourceMissing missing \<Rightarrow>
          Some \<lparr>evidence_kind = PullRequestEvidence, evidence_url = pull_url p,
            evidence_description = pull_text p @ '' had context '' @ context_name c @ '' but was missing configured App IDs ['' @
              join_with '', '' (map decimal missing) @ '']''\<rparr>
      | _ \<Rightarrow> None)"

definition mismatch_findings :: "readiness_snapshot \<Rightarrow> required_context \<Rightarrow> audit_finding list" where
  "mismatch_findings s c =
     (if expected_apps c \<noteq> [] then
        (let mismatched = List.map_filter (mismatch_evidence c) (pull_requests s) in
         if mismatched \<noteq> [] then
           [\<lparr>finding_rule = RequiredCheckSourceMismatch, finding_severity = High,
             finding_title = ''Required check '' @ context_name c @ '' was observed without every configured source'',
             finding_explanation = ''One or more sampled exact heads exposed this context without a matching Check Run from every configured App ID {'' @
               join_with '', '' (map decimal (expected_apps c)) @ ''}.'',
             finding_contexts = [context_name c], finding_paths = [], finding_rulesets = context_rulesets c,
             finding_evidence = mismatched,
             remediation = ''Repair the required-check source or the publisher configuration; do not remove source binding to make the check pass.''\<rparr>]
         else [])
      else [])"

definition never_observed_unknowns :: "required_context \<Rightarrow> audit_unknown list" where
  "never_observed_unknowns c =
     (if evidence (observed c) = [] then
        [\<lparr>unknown_code = RequiredCheckNeverObserved, unknown_context = Some (context_name c), unknown_path = None,
          unknown_reason = ''No matching Check Run or commit status was observed on the sampled exact heads.'',
          unknown_evidence = ruleset_evidence (context_rulesets c)\<rparr>]
      else [])"

definition external_unknowns :: "readiness_snapshot \<Rightarrow> required_context \<Rightarrow> audit_unknown list" where
  "external_unknowns s c =
     (if list_ex (\<lambda>i. i \<noteq> GITHUB_ACTIONS_APP_ID) (expected_apps c) \<and> merge_queue_rule (policy s) then
        [\<lparr>unknown_code = ExternalMergeGroupSupportUnobserved, unknown_context = Some (context_name c), unknown_path = None,
          unknown_reason = ''The snapshot cannot prove that every configured external App publishes the required context on merge-group candidate SHAs.'',
          unknown_evidence = ruleset_evidence (context_rulesets c)\<rparr>]
      else [])"

section \<open>The workflows of a context\<close>

definition mapping_unknown :: "required_context \<Rightarrow> string \<Rightarrow> evidence_ref list \<Rightarrow> audit_unknown" where
  "mapping_unknown c why es =
     \<lparr>unknown_code = WorkflowMappingUnavailable, unknown_context = Some (context_name c), unknown_path = None,
      unknown_reason = why, unknown_evidence = es\<rparr>"

definition definition_unknown :: "required_context \<Rightarrow> string \<Rightarrow> string \<Rightarrow> evidence_ref list \<Rightarrow> audit_unknown" where
  "definition_unknown c wpath why es =
     \<lparr>unknown_code = WorkflowDefinitionUnavailable, unknown_context = Some (context_name c), unknown_path = Some wpath,
      unknown_reason = why, unknown_evidence = es\<rparr>"

definition filtered_triggers :: "workflow_definition \<Rightarrow> string list" where
  "filtered_triggers d =
     List.map_filter (\<lambda>(name, trigger).
         (case trigger of
            Some t \<Rightarrow> if paths t \<noteq> [] \<or> paths_ignore t \<noteq> [] then Some name else None
          | None \<Rightarrow> None))
       [(''pull_request'', on_pull_request d), (''pull_request_target'', on_pull_request_target d), (''merge_group'', on_merge_group d)]"

definition definition_evidence :: "workflow_snapshot \<Rightarrow> evidence_ref" where
  "definition_evidence w =
     \<lparr>evidence_kind = WorkflowEvidence, evidence_url = workflow_url w,
      evidence_description = ''current workflow definition for '' @ workflow_path w\<rparr>"

definition merge_group_findings ::
  "readiness_snapshot \<Rightarrow> required_context \<Rightarrow> workflow_snapshot \<Rightarrow> workflow_definition \<Rightarrow> audit_finding list" where
  "merge_group_findings s c w d =
     (if merge_queue_rule (policy s) \<and> on_merge_group d = None then
        [\<lparr>finding_rule = MergeGroupTriggerMissing, finding_severity = High,
          finding_title = ''Workflow '' @ workflow_path w @ '' cannot run for merge-group candidates'',
          finding_explanation = ''The default branch uses a merge queue and required context '' @ context_name c @
            '' maps to this workflow, but its current definition has no merge_group trigger.'',
          finding_contexts = [context_name c], finding_paths = [workflow_path w], finding_rulesets = context_rulesets c,
          finding_evidence = [definition_evidence w],
          remediation = ''Add a merge_group trigger and verify the required context on a real queue candidate before enforcing it.''\<rparr>]
      else [])"

definition path_filter_findings ::
  "required_context \<Rightarrow> workflow_snapshot \<Rightarrow> workflow_definition \<Rightarrow> audit_finding list" where
  "path_filter_findings c w d =
     (if filtered_triggers d \<noteq> [] then
        [\<lparr>finding_rule = PathFilteredRequiredWorkflow, finding_severity = Medium,
          finding_title = ''Required workflow '' @ workflow_path w @ '' has path-filtered triggers'',
          finding_explanation = ''Required context '' @ context_name c @ '' maps to this workflow, whose '' @
            join_with '', '' (filtered_triggers d) @
            '' trigger(s) use paths or paths-ignore. A skipped required workflow can leave a pull request or queue candidate waiting indefinitely.'',
          finding_contexts = [context_name c], finding_paths = [workflow_path w], finding_rulesets = context_rulesets c,
          finding_evidence = [definition_evidence w],
          remediation = ''Remove path filters from the required workflow trigger, or publish the same required context from an always-running aggregator job.''\<rparr>]
      else [])"

text \<open>Findings and unknowns, in the order in which they are pushed.\<close>

type_synonym issues = "audit_finding list \<times> audit_unknown list"

definition add_issues :: "issues \<Rightarrow> issues \<Rightarrow> issues" where
  "add_issues a b = (fst a @ fst b, snd a @ snd b)"

definition run_issues ::
  "readiness_snapshot \<Rightarrow> (nat \<rightharpoonup> workflow_snapshot) \<Rightarrow> required_context \<Rightarrow> nat \<times> string \<Rightarrow> issues" where
  "run_issues s by_id c run =
     (case by_id (fst run) of
        None \<Rightarrow> ([], [definition_unknown c (snd run) ''The mapped workflow is absent from the current workflow inventory.''
          (evidence (observed c))])
      | Some w \<Rightarrow>
          (case workflow_definition w of
             None \<Rightarrow> ([], [definition_unknown c (workflow_path w)
               ''The mapped workflow definition was not collected, so its triggers cannot be audited.''
               [\<lparr>evidence_kind = WorkflowEvidence, evidence_url = workflow_url w,
                 evidence_description = ''workflow '' @ workflow_name w @ '' at '' @ workflow_path w\<rparr>]])
           | Some d \<Rightarrow> (merge_group_findings s c w d @ path_filter_findings c w d, [])))"

definition workflow_issues :: "readiness_snapshot \<Rightarrow> (nat \<rightharpoonup> workflow_snapshot) \<Rightarrow> required_context \<Rightarrow> issues" where
  "workflow_issues s by_id c =
     (if \<not> actions_can_satisfy c then ([], [])
      else if evidence (observed c) = [] then ([], [])
      else if actions_runs (observed c) = [] then
        ([], [mapping_unknown c
          ''The required context could be satisfied by GitHub Actions, but no sampled Check Run could be joined to an Actions workflow run by check-suite ID.''
          (evidence (observed c))])
      else
        foldl (\<lambda>i run. add_issues i (run_issues s by_id c run))
          ([], if actions_unmapped (observed c) \<noteq> [] then
                 [mapping_unknown c
                   ''At least one matching GitHub Actions Check Run could not be joined to a workflow run by check-suite ID.''
                   (actions_unmapped (observed c))]
               else [])
          (actions_runs (observed c)))"

definition context_issues :: "readiness_snapshot \<Rightarrow> (nat \<rightharpoonup> workflow_snapshot) \<Rightarrow> required_context \<Rightarrow> issues" where
  "context_issues s by_id c =
     add_issues
       (unpinned_findings c @ ambiguous_findings c @ mismatch_findings s c,
        missing_unknowns s c @ unresolved_unknowns s c @ never_observed_unknowns c @ external_unknowns s c)
       (workflow_issues s by_id c)"

section \<open>The audit\<close>

definition collection_unknowns :: "readiness_snapshot \<Rightarrow> audit_unknown list" where
  "collection_unknowns s =
     (if collection_status (collection s) = Partial then
        [\<lparr>unknown_code = CollectionIncomplete, unknown_context = None, unknown_path = None,
          unknown_reason = ''One or more GitHub surfaces were not collected completely; absence of another finding is not a clean result.'',
          unknown_evidence = [repository_evidence s ''repository whose readiness snapshot is incomplete'']\<rparr>]
      else [])"

definition unprotected_findings :: "readiness_snapshot \<Rightarrow> audit_finding list" where
  "unprotected_findings s =
     (let branch_policy_observed = \<not> list_ex (\<lambda>g. gap_surface g = Repository \<or> gap_surface g = EffectiveRules) (gaps (collection s)) in
      if branch_policy_observed \<and> \<not> branch_protected (policy s) \<and> \<not> pull_request_rule (policy s) \<and> required_checks (policy s) = []
      then
        [\<lparr>finding_rule = DefaultBranchUnprotected, finding_severity = High,
          finding_title = ''The default branch has no observed pull-request or required-check gate'',
          finding_explanation = ''GitHub reported no classic branch protection, pull-request rule, or required check for '' @
            default_branch (repository s) @
            ''. Other effective rules do not establish pull-request or required-check enforcement.'',
          finding_contexts = [], finding_paths = [], finding_rulesets = [],
          finding_evidence = [repository_evidence s (''default branch '' @ default_branch (repository s) @ '' at '' @
            default_branch_head_sha (repository s) @ '' has no observed pull-request or required-check enforcement'')],
          remediation = ''Protect the default branch with classic branch protection or an active pull-request or required-check rule, then capture a new snapshot.''\<rparr>]
      else [])"

definition required_names :: "readiness_snapshot \<Rightarrow> string list" where
  "required_names s = bt_collect id (map check_context (required_checks (policy s)))"

definition collect_issues :: "readiness_snapshot \<Rightarrow> issues decision_result" where
  "collect_issues s =
     (let seen = collect_evidence s (required_names s);
          by_id = collect_map (map (\<lambda>w. (workflow_id w, w)) (workflows s)) in
      dfold (\<lambda>i name.
          dbind (case seen name of Some c \<Rightarrow> Inr c | None \<Rightarrow> Inl Unexpected) (\<lambda>c.
            Inr (add_issues i (context_issues s by_id
              (required_context name (filter (\<lambda>r. check_context r = name) (required_checks (policy s))) c)))))
        (unprotected_findings s, collection_unknowns s) (required_names s))"

definition summarise :: "readiness_snapshot \<Rightarrow> audit_finding list \<Rightarrow> audit_unknown list \<Rightarrow> audit_summary" where
  "summarise s fs us =
     (let high = length (filter (\<lambda>f. finding_severity f = High) fs) in
      \<lparr>verdict = (if fs \<noteq> [] then ActionRequired
                   else if collection_status (collection s) = Partial \<or> us \<noteq> [] then VerdictInconclusive
                   else NoObservedRisk),
       findings_count = length fs, high_findings = high, medium_findings = length fs - high, unknowns_count = length us,
       required_checks_count = length (required_checks (policy s)), sampled_pull_requests = length (pull_requests s),
       fully_observed_pull_requests = length (filter (\<lambda>p. pull_collection p = Complete) (pull_requests s))\<rparr>)"

definition scope_of :: "readiness_snapshot \<Rightarrow> string \<Rightarrow> audit_scope" where
  "scope_of s provider =
     \<lparr>scope_provider_url = provider, scope_repository = repository_name (repository s),
      scope_default_branch = default_branch (repository s), scope_head_sha = default_branch_head_sha (repository s),
      scope_pull_requests = length (pull_requests s)\<rparr>"

definition fixed_privacy :: audit_privacy where
  "fixed_privacy = \<lparr>repository_source_collected = False, workflow_definitions_collected = True,
     pull_request_text_collected = True, check_run_output_text_collected = True, commit_status_description_collected = True,
     review_text_collected = False, commit_messages_collected = True\<rparr>"

definition fixed_boundary :: audit_claim_boundary where
  "fixed_boundary = \<lparr>current_configuration_snapshot_supported = True, historical_configuration_at_merge_supported = False,
     merge_safety_supported = False, workflow_runtime_semantics_supported = False, cost_savings_supported = False\<rparr>"

text \<open>\<open>version\<close> is the version of the package, which the build supplies.\<close>

definition evaluate_merge_readiness :: "string \<Rightarrow> readiness_snapshot \<Rightarrow> readiness_audit decision_result" where
  "evaluate_merge_readiness version s =
     dbind (validate_readiness s) (\<lambda>_.
     dbind (collect_issues s) (\<lambda>(fs, us).
     let fs = remdups_adj (sort_findings fs); us = remdups_adj (sort_unknowns us) in
     dbind (case strip_suffix (''/'' @ repository_name (repository s)) (repository_url (repository s)) of
              Some provider \<Rightarrow> Inr provider
            | None \<Rightarrow> Inl Unexpected) (\<lambda>provider.
       Inr \<lparr>audit_schema = MERGE_READINESS_AUDIT_SCHEMA, tool_version = version, generated_at = captured_at s,
            audit_scope = scope_of s provider, audit_collection = collection s, audit_privacy = fixed_privacy,
            claim_boundary = fixed_boundary, summary = summarise s fs us, findings = fs, unknowns = us\<rparr>)))"

end
