(* ===== verification/Readiness_Evidence.thy ===== *)
theory Readiness_Evidence
  imports Readiness
begin

text \<open>
  What the audit collects for a required context: ordered sets are sets in the order of their key, and the buckets hold exactly the
  publishers, evidence and workflow runs that the sampled pull requests show for the context.
\<close>

section \<open>Ordered sets\<close>

abbreviation key_sorted :: "('a \<Rightarrow> 'k::linorder) \<Rightarrow> 'a list \<Rightarrow> bool" where
  "key_sorted key xs \<equiv> sorted_wrt (\<lambda>a b. key a < key b) xs"

lemma set_bt_insert: "inj key \<Longrightarrow> set (bt_insert key x xs) = insert x (set xs)"
  by (induction xs) (auto simp: inj_eq)

lemma key_sorted_bt_insert:
  assumes "key_sorted key xs"
  shows "key_sorted key (bt_insert key x xs)"
proof -
  have keys: "key ` set (bt_insert key x ys) = insert (key x) (key ` set ys)" for ys
    by (induction ys) auto
  show ?thesis
    using assms
  proof (induction xs)
    case (Cons y ys)
    have "key y < key z" if "z \<in> set (bt_insert key x ys)" "key y < key x" for z
    proof -
      have "key z \<in> insert (key x) (key ` set ys)" using keys that(1) by blast
      then show ?thesis using Cons.prems that(2) by auto
    qed
    then show ?case using Cons by (auto simp: not_less order_less_le)
  qed simp
qed

lemma key_sorted_bt_insert_id: "sorted_wrt (<) xs \<Longrightarrow> sorted_wrt (<) (bt_insert id x xs)"
  using key_sorted_bt_insert [of id xs x] by simp

lemma set_bt_fold: "inj key \<Longrightarrow> set (foldl (\<lambda>s x. bt_insert key x s) ys xs) = set ys \<union> set xs"
  by (induction xs arbitrary: ys) (auto simp: set_bt_insert)

lemma key_sorted_bt_fold: "key_sorted key ys \<Longrightarrow> key_sorted key (foldl (\<lambda>s x. bt_insert key x s) ys xs)"
  by (induction xs arbitrary: ys) (auto intro: key_sorted_bt_insert)

lemma set_bt_collect: "inj key \<Longrightarrow> set (bt_collect key xs) = set xs"
  by (simp add: bt_collect_def set_bt_fold)

lemma key_sorted_bt_collect: "key_sorted key (bt_collect key xs)"
  by (simp add: bt_collect_def key_sorted_bt_fold)

lemma key_sorted_distinct: "key_sorted key xs \<Longrightarrow> distinct xs"
  by (induction xs) auto

lemma evidence_rank_inject: "evidence_rank k = evidence_rank k' \<longleftrightarrow> k = k'"
  by (cases k; cases k') (simp_all add: evidence_rank_def)

lemma inj_evidence_key: "inj evidence_key"
  by (rule injI) (simp add: evidence_key_def evidence_rank_inject evidence_ref.equality)

lemma inj_ruleset_key: "inj ruleset_key"
  by (rule injI) (simp add: ruleset_key_def ruleset_ref.equality)

lemma inj_producer_key: "inj producer_key"
  by (rule injI) (auto simp: producer_key_def split: producer.splits)

lemmas set_collects [simp] =
  set_bt_insert [OF inj_evidence_key] set_bt_insert [OF inj_producer_key] set_bt_insert [OF inj_on_id]
  set_bt_collect [OF inj_evidence_key] set_bt_collect [OF inj_ruleset_key] set_bt_collect [OF inj_on_id]

section \<open>What a pull request shows\<close>

definition shown_producers :: "string \<Rightarrow> pull_request \<Rightarrow> producer set" where
  "shown_producers n p =
     {CheckApp i | r i. r \<in> set (pull_check_runs p) \<and> check_run_name r = n \<and> app_id r = Some i} \<union>
     {CommitStatus i | st i. st \<in> set (pull_statuses p) \<and> status_context st = n \<and> creator_id st = Some i}"

definition shown_evidence :: "string \<Rightarrow> pull_request \<Rightarrow> evidence_ref set" where
  "shown_evidence n p =
     {check_run_evidence p r | r. r \<in> set (pull_check_runs p) \<and> check_run_name r = n} \<union>
     {status_evidence p st | st. st \<in> set (pull_statuses p) \<and> status_context st = n}"

definition shown_runs :: "string \<Rightarrow> pull_request \<Rightarrow> (nat \<times> string) set" where
  "shown_runs n p =
     {(run_workflow_id w, run_path w) | r w. r \<in> set (pull_check_runs p) \<and> check_run_name r = n \<and>
        app_id r = Some GITHUB_ACTIONS_APP_ID \<and> joined_run p r = Some w}"

definition shown_unmapped :: "string \<Rightarrow> pull_request \<Rightarrow> evidence_ref set" where
  "shown_unmapped n p =
     {check_run_evidence p r | r. r \<in> set (pull_check_runs p) \<and> check_run_name r = n \<and>
        app_id r = Some GITHUB_ACTIONS_APP_ID \<and> joined_run p r = None}"

text \<open>A bucket that holds given sets.\<close>

definition holds :: "context_evidence \<Rightarrow> producer set \<Rightarrow> evidence_ref set \<Rightarrow> (nat \<times> string) set \<Rightarrow> evidence_ref set \<Rightarrow> bool" where
  "holds c P E W U \<longleftrightarrow>
     set (producers c) = P \<and> key_sorted producer_key (producers c) \<and> set (evidence c) = E \<and> key_sorted evidence_key (evidence c) \<and>
     set (actions_runs c) = W \<and> key_sorted id (actions_runs c) \<and> set (actions_unmapped c) = U \<and>
     key_sorted evidence_key (actions_unmapped c)"

lemma holds_none: "holds no_evidence {} {} {} {}"
  by (simp add: holds_def no_evidence_def)

lemma holds_check_run:
  assumes "holds c P E W U"
  shows "holds (observe_check_run p r c)
    (P \<union> {CheckApp i | i. app_id r = Some i}) (E \<union> {check_run_evidence p r})
    (W \<union> {(run_workflow_id w, run_path w) | w. app_id r = Some GITHUB_ACTIONS_APP_ID \<and> joined_run p r = Some w})
    (U \<union> {e. e = check_run_evidence p r \<and> app_id r = Some GITHUB_ACTIONS_APP_ID \<and> joined_run p r = None})"
  using assms
  by (auto simp: holds_def observe_check_run_def Let_def key_sorted_bt_insert intro!: key_sorted_bt_insert_id split: option.splits)

lemma holds_status:
  assumes "holds c P E W U"
  shows "holds (observe_status p st c) (P \<union> {CommitStatus i | i. creator_id st = Some i}) (E \<union> {status_evidence p st}) W U"
  using assms by (auto simp: holds_def observe_status_def Let_def key_sorted_bt_insert split: option.splits)

text \<open>The two loops over a pull request, on the items of one name.\<close>

lemma holds_check_runs:
  assumes "holds c P E W U"
  shows "holds (foldl (\<lambda>c r. observe_check_run p r c) c rs)
    (P \<union> (\<Union>r \<in> set rs. {CheckApp i | i. app_id r = Some i})) (E \<union> (\<Union>r \<in> set rs. {check_run_evidence p r}))
    (W \<union> (\<Union>r \<in> set rs. {(run_workflow_id w, run_path w) | w. app_id r = Some GITHUB_ACTIONS_APP_ID \<and> joined_run p r = Some w}))
    (U \<union> (\<Union>r \<in> set rs. {e. e = check_run_evidence p r \<and> app_id r = Some GITHUB_ACTIONS_APP_ID \<and> joined_run p r = None}))"
  using assms
proof (induction rs arbitrary: c P E W U)
  case (Cons r rs)
  from Cons.IH [OF holds_check_run [OF Cons.prems, of p r]] show ?case
    by (simp only: foldl_Cons list.set UN_insert Un_assoc)
qed simp

lemma holds_statuses:
  assumes "holds c P E W U"
  shows "holds (foldl (\<lambda>c st. observe_status p st c) c sts)
    (P \<union> (\<Union>st \<in> set sts. {CommitStatus i | i. creator_id st = Some i})) (E \<union> (\<Union>st \<in> set sts. {status_evidence p st})) W U"
  using assms
proof (induction sts arbitrary: c P E)
  case (Cons st sts)
  from Cons.IH [OF holds_status [OF Cons.prems, of p st]] show ?case
    by (simp only: foldl_Cons list.set UN_insert Un_assoc)
qed simp

lemma update_buckets:
  "foldl (\<lambda>m x. update_bucket (name x) (f x) m) m xs n =
    map_option (\<lambda>c. foldl (\<lambda>c x. f x c) c (filter (\<lambda>x. name x = n) xs)) (m n)"
proof (induction xs arbitrary: m)
  case Nil
  then show ?case by (cases "m n") simp_all
next
  case (Cons x xs)
  then show ?case by (cases "m n"; cases "name x = n") (auto simp: update_bucket_def split: option.splits)
qed

definition observe_name :: "string \<Rightarrow> context_evidence \<Rightarrow> pull_request \<Rightarrow> context_evidence" where
  "observe_name n c p =
     foldl (\<lambda>c st. observe_status p st c)
       (foldl (\<lambda>c r. observe_check_run p r c) c (filter (\<lambda>r. check_run_name r = n) (pull_check_runs p)))
       (filter (\<lambda>st. status_context st = n) (pull_statuses p))"

lemma observe_pull_request_name: "observe_pull_request m p n = map_option (\<lambda>c. observe_name n c p) (m n)"
  unfolding observe_pull_request_def observe_name_def update_buckets [of status_context] update_buckets [of check_run_name]
  by (simp add: option.map_comp comp_def)

lemma holds_observe_name:
  assumes "holds c P E W U"
  shows "holds (observe_name n c p) (P \<union> shown_producers n p) (E \<union> shown_evidence n p) (W \<union> shown_runs n p) (U \<union> shown_unmapped n p)"
proof -
  have "shown_producers n p =
      (\<Union>r \<in> set (filter (\<lambda>r. check_run_name r = n) (pull_check_runs p)). {CheckApp i | i. app_id r = Some i}) \<union>
      (\<Union>st \<in> set (filter (\<lambda>st. status_context st = n) (pull_statuses p)). {CommitStatus i | i. creator_id st = Some i})"
    by (auto simp: shown_producers_def)
  moreover have "shown_evidence n p =
      (\<Union>r \<in> set (filter (\<lambda>r. check_run_name r = n) (pull_check_runs p)). {check_run_evidence p r}) \<union>
      (\<Union>st \<in> set (filter (\<lambda>st. status_context st = n) (pull_statuses p)). {status_evidence p st})"
    by (auto simp: shown_evidence_def)
  moreover have "shown_runs n p =
      (\<Union>r \<in> set (filter (\<lambda>r. check_run_name r = n) (pull_check_runs p)).
        {(run_workflow_id w, run_path w) | w. app_id r = Some GITHUB_ACTIONS_APP_ID \<and> joined_run p r = Some w})"
    by (auto simp: shown_runs_def)
  moreover have "shown_unmapped n p =
      (\<Union>r \<in> set (filter (\<lambda>r. check_run_name r = n) (pull_check_runs p)).
        {e. e = check_run_evidence p r \<and> app_id r = Some GITHUB_ACTIONS_APP_ID \<and> joined_run p r = None})"
    by (auto simp: shown_unmapped_def)
  ultimately show ?thesis
    using holds_statuses [where p = p and sts = "filter (\<lambda>st. status_context st = n) (pull_statuses p)",
        OF holds_check_runs [where p = p and rs = "filter (\<lambda>r. check_run_name r = n) (pull_check_runs p)", OF assms]]
    unfolding observe_name_def by (simp only: Un_assoc)
qed

lemma holds_observe_names:
  assumes "holds c P E W U"
  shows "holds (foldl (observe_name n) c ps) (P \<union> (\<Union>p \<in> set ps. shown_producers n p)) (E \<union> (\<Union>p \<in> set ps. shown_evidence n p))
    (W \<union> (\<Union>p \<in> set ps. shown_runs n p)) (U \<union> (\<Union>p \<in> set ps. shown_unmapped n p))"
  using assms
proof (induction ps arbitrary: c P E W U)
  case (Cons p ps)
  from Cons.IH [OF holds_observe_name [OF Cons.prems, of n p]] show ?case
    by (simp only: foldl_Cons list.set UN_insert Un_assoc)
qed simp

section \<open>The buckets\<close>

definition bucket :: "readiness_snapshot \<Rightarrow> string \<Rightarrow> context_evidence" where
  "bucket s n = foldl (observe_name n) no_evidence (pull_requests s)"

lemma observe_pull_requests_name: "foldl observe_pull_request m ps n = map_option (\<lambda>c. foldl (observe_name n) c ps) (m n)"
  by (induction ps arbitrary: m) (simp_all add: observe_pull_request_name option.map_comp comp_def option.map_ident)

lemma collect_evidence_bucket:
  assumes "n \<in> set names"
  shows "collect_evidence s names n = Some (bucket s n)"
proof -
  have "collect_map (map (\<lambda>c. (c, no_evidence)) names) n = Some no_evidence"
    using assms by (simp add: collect_map_rev map_of_map_restrict rev_map)
  then show ?thesis by (simp add: collect_evidence_def observe_pull_requests_name bucket_def)
qed

lemma bucket_holds:
  "holds (bucket s n) (\<Union>p \<in> set (pull_requests s). shown_producers n p) (\<Union>p \<in> set (pull_requests s). shown_evidence n p)
    (\<Union>p \<in> set (pull_requests s). shown_runs n p) (\<Union>p \<in> set (pull_requests s). shown_unmapped n p)"
  using holds_observe_names [OF holds_none, of n "pull_requests s"] by (simp add: bucket_def)

end
