(* ===== verification/Readiness_Properties.thy ===== *)
theory Readiness_Properties
  imports Readiness_Evidence
begin

text \<open>
  What the audit promises: it never panics, its verdict is a function of the snapshot that is spelled out here without the loops, and its
  findings are sorted, distinct and counted.
\<close>

section \<open>The audit returns\<close>

lemma calm_each [calm_intros]: "(\<And>x. calm (f x)) \<Longrightarrow> calm (each f xs)"
  unfolding each_def by (rule calm_fold [where I = "\<lambda>_. True"]) auto

lemma calm_readiness_checks [calm_intros]:
  "calm (validate_url v l)" "calm (positive_option x m)" "calm (validate_ruleset r)" "calm (validate_gap g)"
  unfolding validate_url_def positive_option_def validate_ruleset_def validate_gap_def
  by (intro calm_intros)+

lemma calm_parts [calm_intros]:
  "calm (validate_required_check rc)" "calm (validate_check_run cr)" "calm (validate_commit_status st)" "calm (validate_workflow_run wr)"
  "calm (validate_repository_snapshot rs)"
  unfolding validate_required_check_def validate_check_run_def validate_commit_status_def validate_workflow_run_def
    validate_repository_snapshot_def
  by (intro calm_intros)+

lemma calm_items [calm_intros]: "calm (validate_workflow c seen w)" "calm (validate_pull_request c known p)"
  unfolding validate_workflow_def validate_pull_request_def by (intro calm_intros)+

lemma calm_utc_timestamp [calm_intros]: "calm (checked (valid_utc_timestamp v))"
  by (simp add: valid_utc_timestamp_eq)

lemma calm_validate_readiness: "calm (validate_readiness s)"
  unfolding validate_readiness_def
  by (intro calm_intros calm_fold [where I = "\<lambda>_. True"] TrueI) (auto split: collection_status.splits intro: calm_intros)

section \<open>The contexts\<close>

definition requirements :: "readiness_snapshot \<Rightarrow> string \<Rightarrow> required_check list" where
  "requirements s n = filter (\<lambda>r. check_context r = n) (required_checks (policy s))"

definition the_context :: "readiness_snapshot \<Rightarrow> string \<Rightarrow> required_context" where
  "the_context s n = required_context n (requirements s n) (bucket s n)"

definition inventory :: "readiness_snapshot \<Rightarrow> nat \<rightharpoonup> workflow_snapshot" where
  "inventory s = collect_map (map (\<lambda>w. (workflow_id w, w)) (workflows s))"

definition issues_of :: "readiness_snapshot \<Rightarrow> string \<Rightarrow> issues" where
  "issues_of s n = context_issues s (inventory s) (the_context s n)"

definition all_findings :: "readiness_snapshot \<Rightarrow> audit_finding list" where
  "all_findings s = unprotected_findings s @ concat (map (\<lambda>n. fst (issues_of s n)) (required_names s))"

definition all_unknowns :: "readiness_snapshot \<Rightarrow> audit_unknown list" where
  "all_unknowns s = collection_unknowns s @ concat (map (\<lambda>n. snd (issues_of s n)) (required_names s))"

lemma collect_issues_returns: "collect_issues s = Inr (all_findings s, all_unknowns s)"
proof -
  have "dfold (\<lambda>i n.
          dbind (case collect_evidence s (required_names s) n of Some c \<Rightarrow> Inr c | None \<Rightarrow> Inl Unexpected) (\<lambda>c.
            Inr (add_issues i (context_issues s (inventory s) (required_context n (requirements s n) c)))))
        i ns = Inr (fst i @ concat (map (\<lambda>n. fst (issues_of s n)) ns), snd i @ concat (map (\<lambda>n. snd (issues_of s n)) ns))"
    if "set ns \<subseteq> set (required_names s)" for i ns
    using that
  proof (induction ns arbitrary: i)
    case (Cons n ns)
    then show ?case
      by (simp add: collect_evidence_bucket add_issues_def issues_of_def the_context_def)
  qed simp
  from this [of "required_names s" "(unprotected_findings s, collection_unknowns s)"] show ?thesis
    unfolding collect_issues_def requirements_def inventory_def by (simp add: all_findings_def all_unknowns_def)
qed

definition report_of :: "string \<Rightarrow> readiness_snapshot \<Rightarrow> string \<Rightarrow> readiness_audit" where
  "report_of version s provider =
     (let fs = remdups_adj (sort_findings (all_findings s)); us = remdups_adj (sort_unknowns (all_unknowns s)) in
      \<lparr>audit_schema = MERGE_READINESS_AUDIT_SCHEMA, tool_version = version, generated_at = captured_at s,
       audit_scope = scope_of s provider, audit_collection = collection s, audit_privacy = fixed_privacy,
       claim_boundary = fixed_boundary, summary = summarise s fs us, findings = fs, unknowns = us\<rparr>)"

lemma validated_url:
  assumes "validate_readiness s = Inr ()"
  obtains provider where "strip_suffix (''/'' @ repository_name (repository s)) (repository_url (repository s)) = Some provider"
  using assms unfolding validate_readiness_def validate_repository_snapshot_def ends_with_def
  by (auto simp: dbind_Inr_iff)

lemma evaluate_iff:
  "evaluate_merge_readiness version s = Inr a \<longleftrightarrow> validate_readiness s = Inr () \<and>
    (\<exists>provider. strip_suffix (''/'' @ repository_name (repository s)) (repository_url (repository s)) = Some provider \<and>
      a = report_of version s provider)"
  unfolding evaluate_merge_readiness_def collect_issues_returns report_of_def
  by (auto simp: dbind_Inr_iff Let_def split: option.splits)

lemma evaluate_validated:
  "validate_readiness s = Inr () \<Longrightarrow> \<exists>a. evaluate_merge_readiness version s = Inr a"
  using evaluate_iff validated_url by metis

lemma evaluate_rejected:
  "validate_readiness s = Inl e \<Longrightarrow> evaluate_merge_readiness version s = Inl e"
  by (simp add: evaluate_merge_readiness_def)

section \<open>Workflows are identified by id and by path\<close>

lemma validate_workflow_Inr:
  "validate_workflow c seen w = Inr seen' \<Longrightarrow> workflow_id w \<notin> fst seen \<and> workflow_path w \<notin> snd seen \<and>
    seen' = (insert (workflow_id w) (fst seen), insert (workflow_path w) (snd seen))"
  unfolding validate_workflow_def by (auto simp: dbind_Inr_iff)

lemma validate_workflows_distinct:
  "dfold (validate_workflow c) (I, N) ws = Inr t \<Longrightarrow>
    distinct (map workflow_id ws) \<and> I \<inter> set (map workflow_id ws) = {} \<and>
    distinct (map workflow_path ws) \<and> N \<inter> set (map workflow_path ws) = {}"
proof (induction ws arbitrary: I N)
  case (Cons w ws)
  then have "workflow_id w \<notin> I" "workflow_path w \<notin> N"
    "dfold (validate_workflow c) (insert (workflow_id w) I, insert (workflow_path w) N) ws = Inr t"
    using validate_workflow_Inr [of c "(I, N)" w] by (auto simp: dbind_Inr_iff)
  then show ?case using Cons.IH [of "insert (workflow_id w) I" "insert (workflow_path w) N"] by auto
qed simp

lemma validated_workflows:
  assumes "validate_readiness s = Inr ()"
  shows "distinct (map workflow_id (workflows s))" "distinct (map workflow_path (workflows s))"
proof -
  obtain t where "dfold (validate_workflow (collection s)) ({}, {}) (workflows s) = Inr t"
    using assms unfolding validate_readiness_def by (auto simp: dbind_Inr_iff)
  then show "distinct (map workflow_id (workflows s))" "distinct (map workflow_path (workflows s))"
    using validate_workflows_distinct by blast+
qed

lemma inventory_iff:
  assumes "validate_readiness s = Inr ()"
  shows "inventory s i = Some w \<longleftrightarrow> w \<in> set (workflows s) \<and> workflow_id w = i"
  unfolding inventory_def by (rule collect_map_key [OF validated_workflows(1) [OF assms]])

section \<open>The verdict, from the snapshot\<close>

text \<open>What is required of a context, and what the sampled pull requests show of it.\<close>

definition is_required :: "readiness_snapshot \<Rightarrow> string \<Rightarrow> bool" where
  "is_required s n \<longleftrightarrow> (\<exists>r \<in> set (required_checks (policy s)). check_context r = n)"

definition expects_app :: "readiness_snapshot \<Rightarrow> string \<Rightarrow> nat \<Rightarrow> bool" where
  "expects_app s n i \<longleftrightarrow> (\<exists>r \<in> set (required_checks (policy s)). check_context r = n \<and> integration_id r = Some i)"

definition is_unpinned :: "readiness_snapshot \<Rightarrow> string \<Rightarrow> bool" where
  "is_unpinned s n \<longleftrightarrow> (\<exists>r \<in> set (required_checks (policy s)). check_context r = n \<and> integration_id r = None)"

definition actions_eligible :: "readiness_snapshot \<Rightarrow> string \<Rightarrow> bool" where
  "actions_eligible s n \<longleftrightarrow> is_unpinned s n \<or> expects_app s n GITHUB_ACTIONS_APP_ID"

definition all_producers :: "readiness_snapshot \<Rightarrow> string \<Rightarrow> producer set" where
  "all_producers s n = (\<Union>p \<in> set (pull_requests s). shown_producers n p)"

definition all_runs :: "readiness_snapshot \<Rightarrow> string \<Rightarrow> (nat \<times> string) set" where
  "all_runs s n = (\<Union>p \<in> set (pull_requests s). shown_runs n p)"

definition appears_on :: "string \<Rightarrow> pull_request \<Rightarrow> bool" where
  "appears_on n p \<longleftrightarrow> (\<exists>r \<in> set (pull_check_runs p). check_run_name r = n) \<or> (\<exists>st \<in> set (pull_statuses p). status_context st = n)"

definition lacks_source :: "readiness_snapshot \<Rightarrow> string \<Rightarrow> pull_request \<Rightarrow> bool" where
  "lacks_source s n p \<longleftrightarrow>
     (\<exists>i. expects_app s n i \<and> \<not> (\<exists>r \<in> set (pull_check_runs p). check_run_name r = n \<and> app_id r = Some i))"

definition source_known :: "string \<Rightarrow> pull_request \<Rightarrow> bool" where
  "source_known n p \<longleftrightarrow> pull_collection p = Complete \<and> (\<nexists>st. st \<in> set (pull_statuses p) \<and> status_context st = n) \<and>
     (\<nexists>r. r \<in> set (pull_check_runs p) \<and> check_run_name r = n \<and> app_id r = None)"

text \<open>The risks of a context: an unpinned source, an ambiguous one, a missing one, and a workflow that cannot run for the queue or is
  filtered by paths.\<close>

definition ambiguous_source :: "readiness_snapshot \<Rightarrow> string \<Rightarrow> bool" where
  "ambiguous_source s n \<longleftrightarrow> is_unpinned s n \<and> card (all_producers s n) > 1 \<or> actions_eligible s n \<and> card (all_runs s n) > 1"

definition mismatched_source :: "readiness_snapshot \<Rightarrow> string \<Rightarrow> bool" where
  "mismatched_source s n \<longleftrightarrow> (\<exists>p \<in> set (pull_requests s). appears_on n p \<and> lacks_source s n p \<and> source_known n p)"

definition path_filtered :: "workflow_definition \<Rightarrow> bool" where
  "path_filtered d \<longleftrightarrow> (\<exists>t. Some t \<in> {on_pull_request d, on_pull_request_target d, on_merge_group d} \<and> (paths t \<noteq> [] \<or> paths_ignore t \<noteq> []))"

definition unfit_workflow :: "readiness_snapshot \<Rightarrow> string \<Rightarrow> bool" where
  "unfit_workflow s n \<longleftrightarrow> actions_eligible s n \<and>
     (\<exists>w \<in> set (workflows s). \<exists>d. workflow_id w \<in> fst ` all_runs s n \<and> workflow_definition w = Some d \<and>
        (merge_queue_rule (policy s) \<and> on_merge_group d = None \<or> path_filtered d))"

definition unprotected_branch :: "readiness_snapshot \<Rightarrow> bool" where
  "unprotected_branch s \<longleftrightarrow> (\<forall>g \<in> set (gaps (collection s)). gap_surface g \<notin> {Repository, EffectiveRules}) \<and>
     \<not> branch_protected (policy s) \<and> \<not> pull_request_rule (policy s) \<and> required_checks (policy s) = []"

definition at_risk :: "readiness_snapshot \<Rightarrow> bool" where
  "at_risk s \<longleftrightarrow> unprotected_branch s \<or>
     (\<exists>n. is_required s n \<and> (is_unpinned s n \<or> ambiguous_source s n \<or> mismatched_source s n \<or> unfit_workflow s n))"

text \<open>The open questions of a context: never or not everywhere observed, of unknown source, external in a merge queue, or not traced
  to a known workflow.\<close>

definition untraced :: "readiness_snapshot \<Rightarrow> string \<Rightarrow> bool" where
  "untraced s n \<longleftrightarrow> actions_eligible s n \<and>
     (all_runs s n = {} \<or> (\<exists>p \<in> set (pull_requests s). shown_unmapped n p \<noteq> {}) \<or>
      (\<exists>run \<in> all_runs s n. \<nexists>w. w \<in> set (workflows s) \<and> workflow_id w = fst run \<and> workflow_definition w \<noteq> None))"

definition open_question :: "readiness_snapshot \<Rightarrow> string \<Rightarrow> bool" where
  "open_question s n \<longleftrightarrow>
     (\<forall>p \<in> set (pull_requests s). \<not> appears_on n p) \<or>
     (\<exists>p \<in> set (pull_requests s). pull_collection p = Complete \<and> \<not> appears_on n p) \<or>
     (\<exists>p \<in> set (pull_requests s). appears_on n p \<and> lacks_source s n p \<and> \<not> source_known n p) \<or>
     merge_queue_rule (policy s) \<and> (\<exists>i. expects_app s n i \<and> i \<noteq> GITHUB_ACTIONS_APP_ID) \<or>
     untraced s n"

definition is_inconclusive :: "readiness_snapshot \<Rightarrow> bool" where
  "is_inconclusive s \<longleftrightarrow> collection_status (collection s) = Partial \<or> (\<exists>n. is_required s n \<and> open_question s n)"

section \<open>The lists behind the verdict\<close>

lemma required_names_set [simp]: "n \<in> set (required_names s) \<longleftrightarrow> is_required s n"
  by (auto simp: required_names_def is_required_def)

lemma the_context_simps [simp]:
  "context_name (the_context s n) = n" "observed (the_context s n) = bucket s n"
  "unpinned (the_context s n) \<longleftrightarrow> is_unpinned s n" "i \<in> set (expected_apps (the_context s n)) \<longleftrightarrow> expects_app s n i"
proof -
  show "unpinned (the_context s n) \<longleftrightarrow> is_unpinned s n"
    by (auto simp: the_context_def required_context_def requirements_def is_unpinned_def list_ex_iff)
  show "i \<in> set (expected_apps (the_context s n)) \<longleftrightarrow> expects_app s n i"
    by (force simp: the_context_def required_context_def requirements_def expects_app_def set_map_filter)
qed (simp_all add: the_context_def required_context_def)

lemma expected_none [simp]: "expected_apps (the_context s n) = [] \<longleftrightarrow> (\<nexists>i. expects_app s n i)"
  using the_context_simps(4) [of _ s n] by (metis all_not_in_conv set_empty)

lemma actions_can_satisfy_iff [simp]: "actions_can_satisfy (the_context s n) \<longleftrightarrow> actions_eligible s n"
  by (simp add: actions_can_satisfy_def actions_eligible_def)

lemma bucket_sets:
  "set (producers (bucket s n)) = all_producers s n" "distinct (producers (bucket s n))"
  "set (actions_runs (bucket s n)) = all_runs s n" "distinct (actions_runs (bucket s n))"
  "set (evidence (bucket s n)) = (\<Union>p \<in> set (pull_requests s). shown_evidence n p)"
  "set (actions_unmapped (bucket s n)) = (\<Union>p \<in> set (pull_requests s). shown_unmapped n p)"
proof -
  note h = bucket_holds [of s n, unfolded holds_def]
  show "distinct (producers (bucket s n))" by (rule key_sorted_distinct [of producer_key]) (use h in blast)
  show "distinct (actions_runs (bucket s n))" by (rule key_sorted_distinct [of id]) (use h in blast)
qed (use bucket_holds [of s n] in \<open>simp_all add: holds_def all_producers_def all_runs_def\<close>)

lemma bucket_lengths:
  "length (producers (bucket s n)) = card (all_producers s n)" "length (actions_runs (bucket s n)) = card (all_runs s n)"
  using bucket_sets distinct_card by metis+

lemma shown_evidence_iff: "shown_evidence n p = {} \<longleftrightarrow> \<not> appears_on n p"
  by (auto simp: shown_evidence_def appears_on_def)

lemma bucket_empty:
  "evidence (bucket s n) = [] \<longleftrightarrow> (\<forall>p \<in> set (pull_requests s). \<not> appears_on n p)"
  "actions_runs (bucket s n) = [] \<longleftrightarrow> all_runs s n = {}"
  "actions_unmapped (bucket s n) = [] \<longleftrightarrow> (\<forall>p \<in> set (pull_requests s). shown_unmapped n p = {})"
  unfolding set_empty [symmetric] bucket_sets by (simp_all add: shown_evidence_iff)

lemma publishes_iff: "publishes n p \<longleftrightarrow> appears_on n p"
  by (simp add: publishes_def appears_on_def list_ex_iff)

lemma runs_shown: "all_runs s n \<noteq> {} \<Longrightarrow> \<exists>p \<in> set (pull_requests s). appears_on n p"
  by (auto simp: all_runs_def shown_runs_def appears_on_def)

lemma source_state_cases:
  "source_state (the_context s n) p = SourceUnresolved \<longleftrightarrow> appears_on n p \<and> lacks_source s n p \<and> \<not> source_known n p"
  "(\<exists>missing. source_state (the_context s n) p = SourceMissing missing) \<longleftrightarrow> appears_on n p \<and> lacks_source s n p \<and> source_known n p"
proof -
  let ?matching = "filter (\<lambda>r. check_run_name r = n) (pull_check_runs p)"
  let ?present = "bt_collect id (filter (\<lambda>i. i \<in> set (expected_apps (the_context s n))) (List.map_filter app_id ?matching))"
  have "filter (\<lambda>i. i \<notin> set ?present) (expected_apps (the_context s n)) = [] \<longleftrightarrow> \<not> lacks_source s n p"
    by (auto simp: filter_empty_conv lacks_source_def set_map_filter)
  moreover have "?matching = [] \<and> filter (\<lambda>st. status_context st = n) (pull_statuses p) = [] \<longleftrightarrow> \<not> appears_on n p"
    by (auto simp: filter_empty_conv appears_on_def)
  moreover have "pull_collection p = Partial \<or> filter (\<lambda>st. status_context st = n) (pull_statuses p) \<noteq> [] \<or>
      list_ex (\<lambda>r. app_id r = None) ?matching \<longleftrightarrow> \<not> source_known n p"
    by (cases "pull_collection p") (auto simp: source_known_def filter_empty_conv list_ex_iff)
  ultimately show "source_state (the_context s n) p = SourceUnresolved \<longleftrightarrow> appears_on n p \<and> lacks_source s n p \<and> \<not> source_known n p"
    "(\<exists>missing. source_state (the_context s n) p = SourceMissing missing) \<longleftrightarrow> appears_on n p \<and> lacks_source s n p \<and> source_known n p"
    unfolding source_state_def the_context_simps Let_def by simp_all
qed

section \<open>Which lists are empty\<close>

lemma unprotected_findings_iff: "unprotected_findings s \<noteq> [] \<longleftrightarrow> unprotected_branch s"
  by (auto simp: unprotected_findings_def Let_def unprotected_branch_def list_ex_iff)

lemma mismatch_findings_iff: "mismatch_findings s (the_context s n) \<noteq> [] \<longleftrightarrow> mismatched_source s n"
proof -
  have "mismatch_evidence (the_context s n) p \<noteq> None \<longleftrightarrow> appears_on n p \<and> lacks_source s n p \<and> source_known n p" for p
    unfolding source_state_cases(2) [symmetric] by (auto simp: mismatch_evidence_def split: source_state.splits)
  then have "List.map_filter (mismatch_evidence (the_context s n)) (pull_requests s) \<noteq> [] \<longleftrightarrow> mismatched_source s n"
    unfolding set_empty [symmetric] set_map_filter mismatched_source_def by (simp add: not_None_eq) blast
  moreover have "\<exists>i. expects_app s n i" if "mismatched_source s n"
    using that by (auto simp: mismatched_source_def lacks_source_def)
  ultimately show ?thesis by (auto simp: mismatch_findings_def Let_def)
qed

lemma context_findings_iff:
  "unpinned_findings (the_context s n) \<noteq> [] \<longleftrightarrow> is_unpinned s n"
  "ambiguous_findings (the_context s n) \<noteq> [] \<longleftrightarrow> ambiguous_source s n"
  by (simp_all add: unpinned_findings_def ambiguous_findings_def ambiguous_source_def bucket_lengths)

lemma filtered_triggers_iff: "filtered_triggers d \<noteq> [] \<longleftrightarrow> path_filtered d"
  unfolding set_empty [symmetric]
  by (auto simp: filtered_triggers_def set_map_filter path_filtered_def split: option.splits if_splits)

lemma add_issues_fold:
  "foldl (\<lambda>i run. add_issues i (f run)) i runs = (fst i @ concat (map (fst \<circ> f) runs), snd i @ concat (map (snd \<circ> f) runs))"
  by (induction runs arbitrary: i) (simp_all add: add_issues_def)

text \<open>The findings of the workflows.\<close>

lemma workflow_findings_set:
  assumes "validate_readiness s = Inr ()"
  shows "f \<in> set (fst (workflow_issues s (inventory s) (the_context s n))) \<longleftrightarrow> actions_eligible s n \<and>
    (\<exists>w d. w \<in> set (workflows s) \<and> workflow_id w \<in> fst ` all_runs s n \<and> workflow_definition w = Some d \<and>
      f \<in> set (merge_group_findings s (the_context s n) w d @ path_filter_findings (the_context s n) w d))"
proof (cases "actions_eligible s n \<and> all_runs s n \<noteq> {}")
  case True
  then have "evidence (bucket s n) \<noteq> []" "actions_runs (bucket s n) \<noteq> []" using runs_shown by (auto simp: bucket_empty)
  then have "f \<in> set (fst (workflow_issues s (inventory s) (the_context s n))) \<longleftrightarrow>
      (\<exists>run \<in> all_runs s n. f \<in> set (fst (run_issues s (inventory s) (the_context s n) run)))"
    using True by (simp add: workflow_issues_def add_issues_fold bucket_sets)
  also have "\<dots> \<longleftrightarrow> (\<exists>run \<in> all_runs s n. \<exists>w d. inventory s (fst run) = Some w \<and> workflow_definition w = Some d \<and>
      f \<in> set (merge_group_findings s (the_context s n) w d @ path_filter_findings (the_context s n) w d))"
    by (intro bex_cong refl) (auto simp: run_issues_def split: option.splits)
  finally show ?thesis using True unfolding inventory_iff [OF assms] by (auto simp: image_iff)
next
  case False
  then have "fst (workflow_issues s (inventory s) (the_context s n)) = []"
    by (auto simp: workflow_issues_def bucket_empty)
  then show ?thesis using False by auto
qed

lemma workflow_findings_iff:
  assumes "validate_readiness s = Inr ()"
  shows "fst (workflow_issues s (inventory s) (the_context s n)) \<noteq> [] \<longleftrightarrow> unfit_workflow s n"
proof -
  have "merge_group_findings s c w d @ path_filter_findings c w d \<noteq> [] \<longleftrightarrow>
      merge_queue_rule (policy s) \<and> on_merge_group d = None \<or> path_filtered d" for c w d
    by (auto simp: merge_group_findings_def path_filter_findings_def filtered_triggers_iff)
  then show ?thesis
    unfolding set_empty [symmetric] unfit_workflow_def
    using workflow_findings_set [OF assms, of _ n] by (metis (no_types, lifting) all_not_in_conv)
qed

lemma issues_of_simps:
  "fst (issues_of s n) = unpinned_findings (the_context s n) @ ambiguous_findings (the_context s n) @
     mismatch_findings s (the_context s n) @ fst (workflow_issues s (inventory s) (the_context s n))"
  "snd (issues_of s n) = missing_unknowns s (the_context s n) @ unresolved_unknowns s (the_context s n) @
     never_observed_unknowns (the_context s n) @ external_unknowns s (the_context s n) @
     snd (workflow_issues s (inventory s) (the_context s n))"
  by (simp_all add: issues_of_def context_issues_def add_issues_def)

lemma all_findings_iff:
  assumes "validate_readiness s = Inr ()"
  shows "all_findings s \<noteq> [] \<longleftrightarrow> at_risk s"
proof -
  have "fst (issues_of s n) \<noteq> [] \<longleftrightarrow> is_unpinned s n \<or> ambiguous_source s n \<or> mismatched_source s n \<or> unfit_workflow s n" for n
    unfolding issues_of_simps append_is_Nil_conv de_Morgan_conj context_findings_iff mismatch_findings_iff
      workflow_findings_iff [OF assms] ..
  then show ?thesis
    unfolding all_findings_def at_risk_def append_is_Nil_conv de_Morgan_conj unprotected_findings_iff concat_eq_Nil_conv by auto
qed

text \<open>The unknowns.\<close>

lemma context_unknowns_iff:
  "missing_unknowns s (the_context s n) \<noteq> [] \<longleftrightarrow>
    (\<exists>p \<in> set (pull_requests s). appears_on n p) \<and> (\<exists>p \<in> set (pull_requests s). pull_collection p = Complete \<and> \<not> appears_on n p)"
  "unresolved_unknowns s (the_context s n) \<noteq> [] \<longleftrightarrow>
    (\<exists>p \<in> set (pull_requests s). appears_on n p \<and> lacks_source s n p \<and> \<not> source_known n p)"
  "never_observed_unknowns (the_context s n) \<noteq> [] \<longleftrightarrow> (\<forall>p \<in> set (pull_requests s). \<not> appears_on n p)"
  "external_unknowns s (the_context s n) \<noteq> [] \<longleftrightarrow>
    merge_queue_rule (policy s) \<and> (\<exists>i. expects_app s n i \<and> i \<noteq> GITHUB_ACTIONS_APP_ID)"
proof -
  show "unresolved_unknowns s (the_context s n) \<noteq> [] \<longleftrightarrow>
      (\<exists>p \<in> set (pull_requests s). appears_on n p \<and> lacks_source s n p \<and> \<not> source_known n p)"
    by (auto simp: unresolved_unknowns_def filter_empty_conv source_state_cases lacks_source_def)
  show "external_unknowns s (the_context s n) \<noteq> [] \<longleftrightarrow>
      merge_queue_rule (policy s) \<and> (\<exists>i. expects_app s n i \<and> i \<noteq> GITHUB_ACTIONS_APP_ID)"
    by (auto simp: external_unknowns_def list_ex_iff)
qed (auto simp: missing_unknowns_def never_observed_unknowns_def bucket_empty filter_empty_conv publishes_iff)

lemma run_unknowns_iff:
  assumes "validate_readiness s = Inr ()"
  shows "snd (run_issues s (inventory s) c run) \<noteq> [] \<longleftrightarrow>
    (\<nexists>w. w \<in> set (workflows s) \<and> workflow_id w = fst run \<and> workflow_definition w \<noteq> None)"
proof (cases "inventory s (fst run)")
  case None
  then have "\<nexists>w. w \<in> set (workflows s) \<and> workflow_id w = fst run"
    using inventory_iff [OF assms] by (metis option.distinct(1))
  then show ?thesis using None by (auto simp: run_issues_def)
next
  case (Some w)
  then have "v \<in> set (workflows s) \<and> workflow_id v = fst run \<longleftrightarrow> v = w" for v
    unfolding inventory_iff [OF assms, symmetric] by auto
  then have "(\<exists>v. v \<in> set (workflows s) \<and> workflow_id v = fst run \<and> workflow_definition v \<noteq> None) \<longleftrightarrow> workflow_definition w \<noteq> None"
    by metis
  then show ?thesis using Some by (cases "workflow_definition w") (simp_all add: run_issues_def)
qed

lemma workflow_unknowns_iff:
  assumes "validate_readiness s = Inr ()"
  shows "snd (workflow_issues s (inventory s) (the_context s n)) \<noteq> [] \<longleftrightarrow> (\<exists>p \<in> set (pull_requests s). appears_on n p) \<and> untraced s n"
proof (cases "(\<exists>p \<in> set (pull_requests s). appears_on n p) \<and> actions_eligible s n \<and> all_runs s n \<noteq> {}")
  case True
  then have "evidence (bucket s n) \<noteq> []" "actions_runs (bucket s n) \<noteq> []" by (simp_all add: bucket_empty)
  then have "snd (workflow_issues s (inventory s) (the_context s n)) =
      (if actions_unmapped (bucket s n) \<noteq> []
       then [mapping_unknown (the_context s n)
         ''At least one matching GitHub Actions Check Run could not be joined to a workflow run by check-suite ID.''
         (actions_unmapped (bucket s n))]
       else []) @ concat (map (snd \<circ> run_issues s (inventory s) (the_context s n)) (actions_runs (bucket s n)))"
    using True by (simp add: workflow_issues_def add_issues_fold)
  then have "snd (workflow_issues s (inventory s) (the_context s n)) \<noteq> [] \<longleftrightarrow>
      actions_unmapped (bucket s n) \<noteq> [] \<or> (\<exists>run \<in> all_runs s n. snd (run_issues s (inventory s) (the_context s n) run) \<noteq> [])"
    by (simp add: bucket_sets)
  then show ?thesis
    using True unfolding run_unknowns_iff [OF assms] bucket_empty untraced_def by blast
next
  case False
  then show ?thesis by (auto simp: workflow_issues_def bucket_empty untraced_def)
qed

lemma all_unknowns_iff:
  assumes "validate_readiness s = Inr ()"
  shows "all_unknowns s \<noteq> [] \<longleftrightarrow> is_inconclusive s"
proof -
  have "snd (issues_of s n) \<noteq> [] \<longleftrightarrow> open_question s n" for n
    unfolding issues_of_simps append_is_Nil_conv de_Morgan_conj context_unknowns_iff workflow_unknowns_iff [OF assms]
      open_question_def by blast
  moreover have "collection_unknowns s \<noteq> [] \<longleftrightarrow> collection_status (collection s) = Partial"
    by (simp add: collection_unknowns_def)
  ultimately show ?thesis
    unfolding all_unknowns_def is_inconclusive_def append_is_Nil_conv de_Morgan_conj concat_eq_Nil_conv by auto
qed

section \<open>Distinct findings\<close>

lemma finding_ranks [simp]:
  "rule_rank r = rule_rank r' \<longleftrightarrow> r = r'" "severity_rank v = severity_rank v' \<longleftrightarrow> v = v'"
  by (cases r; cases r'; simp add: rule_rank_def) (cases v; cases v'; simp add: severity_rank_def)

lemma finding_key_iff:
  "finding_key f = finding_key g \<longleftrightarrow> finding_severity f = finding_severity g \<and> finding_rule f = finding_rule g \<and>
    finding_contexts f = finding_contexts g \<and> finding_paths f = finding_paths g"
  by (simp add: finding_key_def)

text \<open>Within a context the rule and the path of a finding determine it.\<close>

lemma context_finding_cases:
  assumes v: "validate_readiness s = Inr ()" and f: "f \<in> set (fst (issues_of s n))"
  shows "finding_contexts f = [n] \<and>
    (unpinned_findings (the_context s n) = [f] \<and> finding_rule f = RequiredCheckSourceUnpinned \<or>
     ambiguous_findings (the_context s n) = [f] \<and> finding_rule f = RequiredCheckSourceAmbiguous \<or>
     mismatch_findings s (the_context s n) = [f] \<and> finding_rule f = RequiredCheckSourceMismatch \<or>
     (\<exists>w d. w \<in> set (workflows s) \<and> workflow_definition w = Some d \<and> finding_paths f = [workflow_path w] \<and>
       (merge_group_findings s (the_context s n) w d = [f] \<and> finding_rule f = MergeGroupTriggerMissing \<or>
        path_filter_findings (the_context s n) w d = [f] \<and> finding_rule f = PathFilteredRequiredWorkflow)))"
proof -
  have unpinned: "finding_contexts f = [n] \<and> unpinned_findings (the_context s n) = [f] \<and> finding_rule f = RequiredCheckSourceUnpinned"
    if "f \<in> set (unpinned_findings (the_context s n))"
    using that by (auto simp: unpinned_findings_def split: if_splits)
  have ambiguous: "finding_contexts f = [n] \<and> ambiguous_findings (the_context s n) = [f] \<and> finding_rule f = RequiredCheckSourceAmbiguous"
    if "f \<in> set (ambiguous_findings (the_context s n))"
    using that by (auto simp: ambiguous_findings_def split: if_splits)
  have mismatch: "finding_contexts f = [n] \<and> mismatch_findings s (the_context s n) = [f] \<and> finding_rule f = RequiredCheckSourceMismatch"
    if "f \<in> set (mismatch_findings s (the_context s n))"
    using that by (auto simp: mismatch_findings_def Let_def split: if_splits)
  have queue: "finding_contexts f = [n] \<and> finding_paths f = [workflow_path w] \<and>
      merge_group_findings s (the_context s n) w d = [f] \<and> finding_rule f = MergeGroupTriggerMissing"
    if "f \<in> set (merge_group_findings s (the_context s n) w d)" for w d
    using that by (auto simp: merge_group_findings_def split: if_splits)
  have filtered: "finding_contexts f = [n] \<and> finding_paths f = [workflow_path w] \<and>
      path_filter_findings (the_context s n) w d = [f] \<and> finding_rule f = PathFilteredRequiredWorkflow"
    if "f \<in> set (path_filter_findings (the_context s n) w d)" for w d
    using that by (auto simp: path_filter_findings_def split: if_splits)
  consider "f \<in> set (unpinned_findings (the_context s n))" | "f \<in> set (ambiguous_findings (the_context s n))"
    | "f \<in> set (mismatch_findings s (the_context s n))" | "f \<in> set (fst (workflow_issues s (inventory s) (the_context s n)))"
    using f unfolding issues_of_simps by auto
  then show ?thesis
  proof cases
    case 4
    then obtain w d where "w \<in> set (workflows s)" "workflow_definition w = Some d"
      "f \<in> set (merge_group_findings s (the_context s n) w d) \<or> f \<in> set (path_filter_findings (the_context s n) w d)"
      unfolding workflow_findings_set [OF v] by auto
    then show ?thesis using queue filtered by metis
  qed (use unpinned ambiguous mismatch in metis)+
qed

lemma context_finding_inject:
  assumes v: "validate_readiness s = Inr ()"
    and f: "f \<in> set (fst (issues_of s n))" and g: "g \<in> set (fst (issues_of s n))" and key: "finding_key f = finding_key g"
  shows "f = g"
proof -
  have same: "w = w'" if "w \<in> set (workflows s)" "w' \<in> set (workflows s)" "workflow_path w = workflow_path w'" for w w'
    using validated_workflows(2) [OF v] that by (metis distinct_map inj_onD)
  have key: "finding_rule f = finding_rule g" "finding_paths f = finding_paths g" using key by (simp_all add: finding_key_iff)
  note cf = context_finding_cases [OF v f, THEN conjunct2] and cg = context_finding_cases [OF v g, THEN conjunct2]
  show ?thesis
  proof (cases "finding_rule f")
    case MergeGroupTriggerMissing
    have "finding_rule g = MergeGroupTriggerMissing" using MergeGroupTriggerMissing key(1) by simp
    with cf cg MergeGroupTriggerMissing have
      "\<exists>w d. w \<in> set (workflows s) \<and> workflow_definition w = Some d \<and> finding_paths f = [workflow_path w] \<and>
        merge_group_findings s (the_context s n) w d = [f]"
      "\<exists>w d. w \<in> set (workflows s) \<and> workflow_definition w = Some d \<and> finding_paths g = [workflow_path w] \<and>
        merge_group_findings s (the_context s n) w d = [g]" by simp_all
    then show ?thesis using same key(2) by (metis list.inject option.inject)
  next
    case PathFilteredRequiredWorkflow
    have "finding_rule g = PathFilteredRequiredWorkflow" using PathFilteredRequiredWorkflow key(1) by simp
    with cf cg PathFilteredRequiredWorkflow have
      "\<exists>w d. w \<in> set (workflows s) \<and> workflow_definition w = Some d \<and> finding_paths f = [workflow_path w] \<and>
        path_filter_findings (the_context s n) w d = [f]"
      "\<exists>w d. w \<in> set (workflows s) \<and> workflow_definition w = Some d \<and> finding_paths g = [workflow_path w] \<and>
        path_filter_findings (the_context s n) w d = [g]" by simp_all
    then show ?thesis using same key(2) by (metis list.inject option.inject)
  qed (use cf cg key(1) in simp_all)
qed

lemma all_findings_inject:
  assumes v: "validate_readiness s = Inr ()"
  shows "inj_on finding_key (set (all_findings s))"
proof (rule inj_onI)
  fix f g
  assume fg: "f \<in> set (all_findings s)" "g \<in> set (all_findings s)" and key: "finding_key f = finding_key g"
  have unprotected: "finding_contexts h = [] \<and> unprotected_findings s = [h]" if "h \<in> set (unprotected_findings s)" for h
    using that by (auto simp: unprotected_findings_def Let_def split: if_splits)
  have inside: "finding_contexts h = [n]" if "h \<in> set (fst (issues_of s n))" for h n
    by (rule context_finding_cases [OF v that, THEN conjunct1])
  have same: "finding_contexts f = finding_contexts g" using key by (simp add: finding_key_iff)
  have cases: "h \<in> set (unprotected_findings s) \<or> (\<exists>n. h \<in> set (fst (issues_of s n)))" if "h \<in> set (all_findings s)" for h
    using that by (auto simp: all_findings_def)
  from cases [OF fg(1)] cases [OF fg(2)] show "f = g"
  proof (elim disjE exE)
    assume "f \<in> set (unprotected_findings s)" "g \<in> set (unprotected_findings s)"
    then show ?thesis using unprotected by (metis list.inject)
  next
    fix n
    assume "f \<in> set (unprotected_findings s)" "g \<in> set (fst (issues_of s n))"
    then show ?thesis using unprotected inside same by (metis list.distinct(1))
  next
    fix n
    assume "f \<in> set (fst (issues_of s n))" "g \<in> set (unprotected_findings s)"
    then show ?thesis using unprotected inside same by (metis list.distinct(1))
  next
    fix n m
    assume f: "f \<in> set (fst (issues_of s n))" and g: "g \<in> set (fst (issues_of s m))"
    then have "n = m" using inside same by (metis list.inject)
    then show ?thesis using context_finding_inject [OF v f] g key by blast
  qed
qed

lemma distinct_remdups_adj_key:
  "sorted (map key xs) \<Longrightarrow> inj_on key (set xs) \<Longrightarrow> distinct (remdups_adj xs)"
proof (induction xs rule: remdups_adj.induct)
  case (3 x y xs)
  have sorted: "sorted (map key (y # xs))" "key x \<le> key y" "\<And>z. z \<in> set xs \<Longrightarrow> key y \<le> key z" using "3.prems"(1) by auto
  have inj: "inj_on key (set (y # xs))" by (rule inj_on_subset [OF "3.prems"(2)]) auto
  show ?case
  proof (cases "x = y")
    case True
    then show ?thesis using "3.IH"(1) sorted inj by simp
  next
    case False
    have "x \<notin> set xs"
    proof
      assume x: "x \<in> set xs"
      have "key x = key y" using sorted(2) sorted(3) [OF x] by (rule antisym)
      moreover have "x \<in> set (x # y # xs)" "y \<in> set (x # y # xs)" by simp_all
      ultimately show False using False inj_onD [OF "3.prems"(2), of x y] by blast
    qed
    then show ?thesis using "3.IH"(2) [OF False sorted(1) inj] False by simp
  qed
qed simp_all

lemma sorted_remdups_adj_key: "sorted (map key xs) \<Longrightarrow> sorted (map key (remdups_adj xs))"
proof (induction xs rule: remdups_adj.induct)
  case (3 x y xs)
  then show ?case by (cases "x = y") auto
qed simp_all

lemma report_parts:
  assumes "evaluate_merge_readiness version s = Inr a"
  shows "validate_readiness s = Inr ()" "findings a = remdups_adj (sort_findings (all_findings s))"
    "unknowns a = remdups_adj (sort_unknowns (all_unknowns s))" "summary a = summarise s (findings a) (unknowns a)"
  using assms unfolding evaluate_iff by (auto simp: report_of_def Let_def)

lemma reported_empty:
  "remdups_adj (sort_findings fs) = [] \<longleftrightarrow> fs = []" "remdups_adj (sort_unknowns us) = [] \<longleftrightarrow> us = []"
proof -
  have "sort_key f xs = [] \<longleftrightarrow> xs = []" for f :: "'x \<Rightarrow> 'y::linorder" and xs
    using length_sort [of f xs] by (metis length_0_conv)
  then show "remdups_adj (sort_findings fs) = [] \<longleftrightarrow> fs = []" "remdups_adj (sort_unknowns us) = [] \<longleftrightarrow> us = []"
    by (simp_all add: sort_findings_def sort_unknowns_def)
qed

lemma medium_and_high:
  "length (filter (\<lambda>f. finding_severity f = High) fs) + length (filter (\<lambda>f. finding_severity f = Medium) fs) = length fs"
proof (induction fs)
  case (Cons f fs)
  then show ?case by (cases "finding_severity f") simp_all
qed simp

section \<open>Claims\<close>

text \<open>C37: The audit never panics and rejects exactly the snapshots that fail validation, with the message of the first failed check: no
  byte index, slice or subtraction of the check of a time stamp is out of range, every required context has its bucket of
  evidence, and the repository URL has the suffix that is stripped.\<close>

theorem readiness_returns:
  "case evaluate_merge_readiness version s of
     Inr a \<Rightarrow> validate_readiness s = Inr () \<and> audit_collection a = collection s
   | Inl (Rejected message) \<Rightarrow> validate_readiness s = Inl (Rejected message)
   | Inl Unexpected \<Rightarrow> False"
proof (cases "validate_readiness s")
  case (Inl e)
  moreover have "e \<noteq> Unexpected" using Inl calm_validate_readiness [of s] by (simp add: calm_def)
  ultimately show ?thesis using evaluate_rejected [OF Inl] by (cases e) simp_all
next
  case (Inr u)
  then obtain a where a: "evaluate_merge_readiness version s = Inr a" using evaluate_validated by auto
  then have "audit_collection a = collection s" by (auto simp: evaluate_iff report_of_def Let_def)
  then show ?thesis using a Inr by simp
qed

text \<open>C11: The verdict is exact. Action is required if and only if the default branch is seen to be unprotected, or a required context is
  not pinned to an App, has an ambiguous publisher, appears on a fully known head without an expected App, or is produced by a workflow
  that cannot run for the merge queue or is filtered by paths. Without such a risk the audit is inconclusive if and only if the
  collection is partial or a required context has an open question, and otherwise observes no risk.\<close>

theorem readiness_verdict_exact:
  assumes "evaluate_merge_readiness version s = Inr a"
  shows "verdict (summary a) =
    (if at_risk s then ActionRequired else if is_inconclusive s then VerdictInconclusive else NoObservedRisk)"
proof -
  note parts = report_parts [OF assms]
  have "verdict (summary a) =
    (if all_findings s \<noteq> [] then ActionRequired
     else if collection_status (collection s) = Partial \<or> all_unknowns s \<noteq> [] then VerdictInconclusive else NoObservedRisk)"
    unfolding parts(4) unfolding summarise_def Let_def audit_summary.simps parts(2,3) reported_empty ..
  then show ?thesis
    unfolding all_findings_iff [OF parts(1)] all_unknowns_iff [OF parts(1)] by (auto simp: is_inconclusive_def)
qed

text \<open>C36: The report is in canonical form: findings in the order of severity, rule, contexts and paths, none twice, unknowns in the order of
  code, context and path, and the summary counts them, the high and the medium findings adding up.\<close>

theorem readiness_report_canonical:
  assumes "evaluate_merge_readiness version s = Inr a"
  shows "sorted (map finding_key (findings a)) \<and> distinct (findings a) \<and> sorted (map unknown_key (unknowns a)) \<and>
    findings_count (summary a) = length (findings a) \<and> unknowns_count (summary a) = length (unknowns a) \<and>
    high_findings (summary a) = length (filter (\<lambda>f. finding_severity f = High) (findings a)) \<and>
    medium_findings (summary a) = length (filter (\<lambda>f. finding_severity f = Medium) (findings a)) \<and>
    high_findings (summary a) + medium_findings (summary a) = findings_count (summary a)"
proof -
  have v: "validate_readiness s = Inr ()" and fs: "findings a = remdups_adj (sort_findings (all_findings s))"
    and us: "unknowns a = remdups_adj (sort_unknowns (all_unknowns s))"
    and sm: "summary a = summarise s (findings a) (unknowns a)"
    using report_parts [OF assms] .
  have "sorted (map finding_key (sort_findings (all_findings s)))" "sorted (map unknown_key (sort_unknowns (all_unknowns s)))"
    by (simp_all add: sort_findings_def sort_unknowns_def)
  moreover have "inj_on finding_key (set (sort_findings (all_findings s)))"
    using all_findings_inject [OF v] by (simp add: sort_findings_def)
  moreover have "sorted (map finding_key (findings a))" "distinct (findings a)" "sorted (map unknown_key (unknowns a))"
    unfolding fs us using calculation(1-3) by (blast intro: sorted_remdups_adj_key distinct_remdups_adj_key)+
  moreover have "findings_count (summary a) = length (findings a)" "unknowns_count (summary a) = length (unknowns a)"
    "high_findings (summary a) = length (filter (\<lambda>f. finding_severity f = High) (findings a))"
    "medium_findings (summary a) = length (findings a) - length (filter (\<lambda>f. finding_severity f = High) (findings a))"
    unfolding sm by (simp_all add: summarise_def Let_def)
  ultimately show ?thesis using medium_and_high [of "findings a"] by simp
qed

end
