(* ===== verification/Sample_Readiness.thy ===== *)
theory Sample_Readiness
  imports Readiness_Properties "HOL-Library.Code_Target_Nat"
begin

text \<open>
  A repository whose one required context is published by three workflow runs on one pull request. Two of the runs map to workflows that
  the inventory lacks, under the path that the inventory gives to the third. It instantiates the hypotheses of \<open>Readiness_Properties\<close>
  and shows that the list of unknowns, unlike that of the findings, can repeat an item.
\<close>

definition sample_check_run :: "nat \<Rightarrow> check_run" where
  "sample_check_run i = \<lparr>check_run_id = i, check_run_url = ''https://g/c'', check_run_name = ''build'', app_id = Some 15368,
     app_slug = None, check_suite_id = Some i, check_run_status = ''completed'', check_run_conclusion = None\<rparr>"

definition sample_workflow_run :: "nat \<Rightarrow> workflow_run" where
  "sample_workflow_run i = \<lparr>run_id = i, run_url = ''https://g/w'', run_workflow_id = i, run_path = ''ci.yml'', run_event = ''push'',
     run_check_suite_id = i, run_attempt = 1\<rparr>"

definition sample_pull_request :: pull_request where
  "sample_pull_request = \<lparr>pull_number = 7, pull_url = ''https://g/o/r/pull/7'', pull_state = Open,
     pull_head_sha = replicate 40 CHR ''a'', pull_collection = Complete,
     pull_check_runs = map sample_check_run [1, 2, 3], pull_statuses = [],
     pull_workflow_runs = map sample_workflow_run [1, 2, 3]\<rparr>"

definition sample_required_check :: required_check where
  "sample_required_check = \<lparr>check_context = ''build'', integration_id = None,
     check_rulesets = [\<lparr>ruleset_id = 1, ruleset_name = ''main'', ruleset_url = ''https://g/s'', source_type = ''Repository'',
       ruleset_source = ''o/r''\<rparr>]\<rparr>"

definition sample_workflow :: workflow_snapshot where
  "sample_workflow = \<lparr>workflow_id = 2, workflow_name = ''ci'', workflow_path = ''ci.yml'', workflow_state = ''disabled'',
     workflow_url = ''https://g/f'', workflow_definition = None\<rparr>"

definition sample_readiness :: readiness_snapshot where
  "sample_readiness = \<lparr>readiness_schema = MERGE_READINESS_SNAPSHOT_SCHEMA, captured_at = ''2026-02-28T12:00:00Z'',
     repository = \<lparr>repository_database_id = 1, repository_name = ''o/r'', repository_url = ''https://g/o/r'', default_branch = ''main'',
       default_branch_head_sha = replicate 40 CHR ''b''\<rparr>,
     collection = \<lparr>collection_status = Complete, api_calls = 9, response_bytes = 100, gaps = []\<rparr>,
     policy = \<lparr>branch_protected = True, effective_rule_count = 1, pull_request_rule = True, merge_queue_rule = False,
       required_checks = [sample_required_check]\<rparr>,
     workflows = [sample_workflow], pull_requests = [sample_pull_request]\<rparr>"

lemma sample_validated: "validate_readiness sample_readiness = Inr ()"
  by code_simp

lemma sample_unknowns_repeat: "\<not> distinct (remdups_adj (sort_unknowns (all_unknowns sample_readiness)))"
  by code_simp

lemma sample_at_risk: "at_risk sample_readiness"
proof -
  have "is_required sample_readiness ''build'' \<and> is_unpinned sample_readiness ''build''"
    by (simp add: is_required_def is_unpinned_def sample_readiness_def sample_required_check_def)
  then show ?thesis unfolding at_risk_def by blast
qed

lemma readiness_verdict_exact_witness:
  "\<exists>a. evaluate_merge_readiness ''0.5.0'' sample_readiness = Inr a \<and> verdict (summary a) = ActionRequired"
  using evaluate_validated [OF sample_validated] readiness_verdict_exact sample_at_risk by metis

lemma readiness_report_canonical_witness:
  "\<exists>a. evaluate_merge_readiness ''0.5.0'' sample_readiness = Inr a \<and> distinct (findings a) \<and> \<not> distinct (unknowns a)"
  using evaluate_validated [OF sample_validated, of "''0.5.0''"] readiness_report_canonical report_parts(3) sample_unknowns_repeat by metis

end
