(* ===== verification/Spec2Isabelle.thy ===== *)
theory Spec2Isabelle
  imports Patch_Create Syntax_Parse Language Alignment Union_Find Relations_Exact Recursions Verifier Sample_Report Sample_Producer Sample_Anchors Sample_Inbox
    Ownership_Properties Candidate_Properties Sample_Readiness
begin

text \<open>
  StrataDiff compares two snapshots of a source file and emits a report that an independent verifier can check: related
  syntax nodes, ambiguity groups, structural changes and a lossless patch. This library models the producer of
  reports, the verifier and everything that both share, and proves what each of them guarantees.

  \<^bold>\<open>The program and its theories.\<close>
  \<^item> \<open>crates/stratadiff-core/src/model.rs\<close>: the report, struct by struct, in \<open>Report_Model\<close>. \<open>language.rs\<close>: detection and the tables
    per language, in \<open>Language\<close>. \<open>syntax.rs\<close>: the node arena, the universal parser, the conversion of tree-sitter trees,
    the hashes and the two equalities, in \<open>Syntax\<close>. Its arenas stand for trees (\<open>Syntax_Tree\<close>), both parsers return
    the preorder numbering of an explicit tree (\<open>Syntax_Parse\<close>), and the equalities decide equality of those trees
    (\<open>Syntax_Equal\<close>).
  \<^item> \<open>src/patch.rs\<close>: \<open>create_patch\<close> and \<open>create_certificate\<close>, in \<open>Patch_Create\<close>. \<open>crates/stratadiff-verifier/src/patch.rs\<close>: replay, in
    \<open>Patch_Replay\<close>. \<open>limits.rs\<close>: limits, work budget, base64 length check, patch inspection and report preflight, in
    \<open>Work_Budget\<close>, \<open>Base64\<close> and \<open>Verification_Limits\<close>. \<open>json_preflight.rs\<close>: the streaming count of the collections, in \<open>Json_Preflight\<close>.
  \<^item> \<open>crates/stratadiff-verifier/src/verifier.rs\<close>: relations and anchors (\<open>Relations\<close>, \<open>Anchors\<close>, \<open>Relations_Exact\<close>), score tables
    (\<open>Alignment\<close>), union-find (\<open>Union_Find\<close>), regions (\<open>Regions\<close>), shape classes and candidate groups (\<open>Shape_Classes\<close>), interaction
    components (\<open>Components\<close>), the stable core (\<open>Stable_Core\<close>), changes (\<open>Changes\<close>), the recursions over pairs of subtrees
    (\<open>Recursions\<close>), the work bound (\<open>Work_Bounds\<close>) and the entry points (\<open>Verifier\<close>).
  \<^item> \<open>src/matcher.rs\<close>: the mapping state (\<open>Match_State\<close>), classes and groups (\<open>Match_Groups\<close>), components (\<open>Match_Components\<close>),
    stable core (\<open>Match_Core\<close>), regions (\<open>Match_Regions\<close>), and \<open>match_trees\<close> with its worklist and changes (\<open>Matcher\<close>).
    \<open>Matched_Paths\<close> is about pairs of subtrees walked side by side, \<open>Match_Evidence\<close> about the evidence of exact relations, and
    \<open>Matcher_Anchors\<close> about the global anchors, of which the first phase leaves none out. \<open>Matcher_Total\<close> proves that the
    matcher returns and what; \<open>Matcher_Properties\<close> states it.
  \<^item> \<open>src/lib.rs\<close>: \<open>analyze_files\<close>, \<open>analyze_bytes\<close> and \<open>analyze_bytes_with_limits\<close>, which compose parsers, matcher, patch, certificate and
    verifier, in \<open>Analyze\<close>.
  \<^item> \<open>src/inbox_decision.rs\<close>: the review inbox, which decides for pull requests whether a reviewer has to look again. Text checks
    and time stamps are in \<open>Inbox_Time\<close>, the decision in \<open>Inbox_Decision\<close>, what it guarantees in \<open>Inbox_Properties\<close>, and an
    inbox with one actionable pull request in \<open>Sample_Inbox\<close>.
  \<^item> \<open>src/ownership.rs\<close>: the validation of ownership snapshots and the resolution of code owners to reviewers, in \<open>Ownership\<close>, with
    its guarantees in \<open>Ownership_Properties\<close>. \<open>src/doctor_candidate.rs\<close>: the selection of the commit a merge would be decided on, in
    \<open>Candidate\<close> and \<open>Candidate_Properties\<close>. \<open>src/readiness.rs\<close>: the audit of merge readiness, with its data and validation
    in \<open>Readiness_Model\<close>, the evaluation in \<open>Readiness\<close>, the evidence it collects in \<open>Readiness_Evidence\<close>, its guarantees in
    \<open>Readiness_Properties\<close> and a concrete audit in \<open>Sample_Readiness\<close>. All three read text through \<open>Text_Points\<close>: code points, character
    classes, common checks.
  \<^item> \<open>Prelude\<close> and \<open>Verifier_Base\<close> hold the shared vocabulary, \<open>Yields\<close> the rules for computations without a budget.
    \<open>Sample_Report\<close> and \<open>Sample_Producer\<close> run the whole verifier and the whole producer on concrete sources,
    \<open>Sample_Anchors\<close> a pair with global and local anchors; they instantiate the hypotheses of the properties.

  \<^bold>\<open>How the code is modelled.\<close>
  A struct is a record, an enum a datatype, a byte an 8-bit word. \<open>usize\<close> is a natural number below \<open>2 ^ 64\<close>, with
  checked and saturating operations where the code uses them. A \<open>Result\<close> is a sum: \<open>Inl\<close> of a \<open>failure\<close> or \<open>Inr\<close> of the value.
  The indexes, slices (character boundaries of texts included), \<open>expect\<close>s, unchecked subtractions and debug assertions of the
  code are branches that yield \<open>Panic\<close>, so that freedom from panics is proved rather than assumed. Some subtractions and positions that
  stand right behind the guard that makes them safe, in the same expression or loop, are written as total operations: the length
  of a base64 text minus its padding after the test of its last bytes, a position that the loop itself counts. The
  rank of the union-find, a \<open>u8\<close> that counts at most the doublings of a set, wraps as it does in a release build. A recursion over the arena carries fuel, the
  number of nodes, and yields \<open>Diverges\<close> without it; on the trees that a parse returns the fuel is enough, since
  children have larger numbers than their parent, and the worklist of the matcher has fuel for one step per before
  node, since every before node is related at most once. The budgeted code of the verifier is a state monad over the
  work budget (\<open>'a work\<close>).

  \<^bold>\<open>What the lemmas show.\<close>
  \<open>valid m E Q\<close> says of a budgeted computation that a result satisfies \<open>Q\<close> and a failure satisfies \<open>E\<close>, where \<open>E\<close> never admits a
  panic; \<open>yields m Q\<close> says of a computation without a budget that it returns, and a result in \<open>Q\<close>. Each component has
  such a triple against a declarative specification: \<open>verified\<close> for relations and mappings, \<open>grouped\<close> and \<open>groups_ok\<close> for
  candidates, \<open>components_ok\<close>, \<open>component_result\<close> and \<open>region_result\<close> for the stable core, \<open>expected_events\<close> for the changes,
  \<open>rewriting\<close> for patches. Producer and verifier are two programs for the same specifications, which is why a component
  has the same result in both (\<open>component_agreement\<close>), and the relations of the producer satisfy the invariant of the
  verifier, carry certified evidence, contain every global anchor and give the changes that the verifier
  derives (\<open>match_trees_verified\<close>). The work budget is exact: \<open>budgeted\<close> says that a computation succeeds with the same result under
  every limit that its work fits in and otherwise fails with \<open>WorkLimitExceeded\<close>, and \<open>costs\<close> bounds that work from below, so the
  statistic of an accepted report is the limit it needs (\<open>work_within_limit\<close>). They meet in \<open>report_accepted\<close> and \<open>analyze_accepted\<close>: a report that the producer returns is
  accepted, and acceptance means that all its claims hold of fresh parses of the two sources. \<open>report_never_crashes\<close> and
  \<open>analyze_never_crashes\<close> are the corresponding freedom from panics for any report and any sources.
  For the inbox, \<open>calm m\<close> says that \<open>m\<close> does not panic; \<open>history_ok\<close> and \<open>latest\<close> say which histories are accepted and which
  review is their checkpoint, and \<open>expected_status\<close> is the specification of the decision. For ownership, \<open>well_formed_ownership\<close> and
  \<open>eligible_reviewers\<close> are the declarative readings of validation and resolution, and \<open>refusal\<close> says which blocker applies; for the
  selection, \<open>input_ok\<close> and \<open>candidate_of\<close> play these parts. For the audit, \<open>at_risk\<close> and \<open>is_inconclusive\<close> restate the rules on the snapshot
  without loops, buckets and ordered sets, and the verdict is proved to be decided by them.

  \<^bold>\<open>Parameters.\<close>
  Code outside the repository is a parameter: BLAKE3 and its hexadecimal text, the base64 crate (with its RFC 4648 codec
  as the instance), the tree-sitter runtime with its grammars (nodes lie inside the source), the two diff algorithms of the
  \<open>similar\<close> crate (a script covers both sides in order), serde's reading and writing of documents, the iteration order of
  hash maps, the file system of \<open>analyze_files\<close>, SHA-256 in the inbox, and the package version in the audit. What is assumed of them are the named hypotheses \<open>base64_standard\<close>,
  \<open>runtime_within\<close>, \<open>diff_script\<close>, \<open>reordering\<close> and \<open>lawful\<close>.

  \<^bold>\<open>Not modelled.\<close>
  The texts of diagnostics, except where they are report data. The self check of the producer is proved to be free of
  panics, but not to succeed always: that the relations of \<open>match_trees\<close> contain every local anchor and exactly the stable core, which
  the verifier recomputes from the final mappings, is what the program checks at run time. The command line, the review
  workflows around git and GitHub, the viewer, process control and the benchmark tools are drivers of processes, files
  and network calls.
\<close>

end
